(* ===== verification/Prelude.thy ===== *)
theory Prelude
  imports Main "HOL-Library.Word" "HOL-Library.Signed_Division" "HOL-Library.Monad_Syntax"
begin

text \<open>
  Shared vocabulary of the development.

  \<^item> Machine integers. \<open>u8\<close>, \<open>u32\<close> and \<open>u64\<close> are words of HOL-Library.Word. A C \<open>int\<close>
    is an \<open>int\<close> that passes \<open>cint32\<close>: a signed result outside 32 bits is undefined in C and
    is \<open>None\<close> here. A conversion to \<open>int\<close> of a wider value wraps (\<open>to_s32\<close>), as the
    compilers the kernel is built with do. \<open>wrap32\<close> is the wrap-around of \<open>size_t\<close> and
    \<open>unsigned\<close> on the 32-bit target, for models that keep sizes as \<open>nat\<close>.
  \<^item> Failure. A function that may panic returns an \<open>option\<close>: \<open>None\<close> is the
    kernel panic of a failed \<open>ASSERT\<close> or \<open>PANIC\<close>, a CPU trap, or undefined behaviour.
    \<open>kassert\<close> is \<open>ASSERT\<close>; sequences of statements are \<open>do\<close> blocks.
\<close>

unbundle bit_operations_syntax

type_synonym u8 = "8 word"
type_synonym u32 = "32 word"
type_synonym u64 = "64 word"

named_theorems kdefs "unfolding rules of small code definitions"

section \<open>Assertions and the option monad\<close>

definition kassert :: "bool \<Rightarrow> unit option" where
  "kassert b = (if b then Some () else None)"

lemma kassert_simps [simp]:
  "kassert True = Some ()" "kassert False = None"
  by (simp_all add: kassert_def)

lemma kassert_eq_Some [simp]: "kassert b = Some u \<longleftrightarrow> b"
  by (simp add: kassert_def)

lemma kassert_eq_None [simp]: "kassert b = None \<longleftrightarrow> \<not> b"
  by (simp add: kassert_def)

lemma bind_kassert [simp]: "kassert b \<bind> f = (if b then f () else None)"
  by (simp add: kassert_def)

section \<open>Machine integers\<close>

definition wrap32 :: "nat \<Rightarrow> nat" where
  "wrap32 n = n mod 2 ^ 32"

lemma wrap32_less [simp]: "n < 4294967296 \<Longrightarrow> wrap32 n = n"
  by (simp add: wrap32_def)

lemma wrap32_bound [simp]: "wrap32 n < 4294967296"
  by (simp add: wrap32_def)

definition in_s32 :: "int \<Rightarrow> bool" where
  "in_s32 x \<longleftrightarrow> - 2147483648 \<le> x \<and> x \<le> 2147483647"

definition cint32 :: "int \<Rightarrow> int option" where
  "cint32 x = (if in_s32 x then Some x else None)"

definition to_s32 :: "int \<Rightarrow> int" where
  "to_s32 x = (x + 2147483648) mod 4294967296 - 2147483648"

lemma cint32_Some [simp]: "cint32 x = Some y \<longleftrightarrow> in_s32 x \<and> y = x"
  by (auto simp: cint32_def)

lemma cint32_in [simp]: "in_s32 x \<Longrightarrow> cint32 x = Some x"
  by (simp add: cint32_def)

lemma cint32_out [simp]: "\<not> in_s32 x \<Longrightarrow> cint32 x = None"
  by (simp add: cint32_def)

lemma to_s32_in: "in_s32 x \<Longrightarrow> to_s32 x = x"
  by (simp add: to_s32_def in_s32_def)

lemma to_s32_range: "in_s32 (to_s32 x)"
  using pos_mod_bound [of 4294967296 "x + 2147483648"] pos_mod_sign [of 4294967296 "x + 2147483648"]
  by (simp add: to_s32_def in_s32_def)

lemma to_s32_sint: "to_s32 x = sint (word_of_int x :: 32 word)"
proof -
  have "sint (word_of_int x :: 32 word) = signed_take_bit 31 x"
    by (simp add: signed_of_int)
  also have "\<dots> = to_s32 x"
    by (simp add: signed_take_bit_eq_take_bit_shift take_bit_eq_mod to_s32_def)
  finally show ?thesis by simp
qed

section \<open>C division rounds towards zero\<close>

lemma sdiv_nonneg: "0 \<le> (a::int) \<Longrightarrow> 0 \<le> b \<Longrightarrow> a sdiv b = a div b"
  by (cases "a = 0"; cases "b = 0") (auto simp: signed_divide_int_def sgn_if)

lemma sdiv_bounds:
  assumes "0 < (b::int)"
  shows "b * (a sdiv b) \<le> a + (b - 1)" "a - (b - 1) \<le> b * (a sdiv b)"
proof -
  have m: "0 \<le> \<bar>a\<bar> mod b" "\<bar>a\<bar> mod b < b"
    using assms by (simp_all add: pos_mod_bound pos_mod_sign)
  have q: "b * (\<bar>a\<bar> div b) = \<bar>a\<bar> - \<bar>a\<bar> mod b"
    by (simp add: minus_mod_eq_mult_div)
  show "b * (a sdiv b) \<le> a + (b - 1)" "a - (b - 1) \<le> b * (a sdiv b)"
    using assms m q by (auto simp: signed_divide_int_def sgn_if split: if_splits)
qed

lemma sdiv_error:
  assumes "(b::int) \<noteq> 0"
  shows "\<bar>b * (a sdiv b) - a\<bar> < \<bar>b\<bar>"
proof -
  define q m where "q = \<bar>a\<bar> div \<bar>b\<bar>" and "m = \<bar>a\<bar> mod \<bar>b\<bar>"
  have m: "0 \<le> m" "m < \<bar>b\<bar>" and a: "\<bar>a\<bar> = \<bar>b\<bar> * q + m"
    using assms by (simp_all add: q_def m_def)
  have "b * (a sdiv b) = sgn a * (\<bar>b\<bar> * q)"
  proof -
    have b: "b * sgn b = \<bar>b\<bar>" by (simp add: abs_sgn)
    have "b * (a sdiv b) = sgn a * ((b * sgn b) * q)"
      by (simp only: signed_divide_int_def q_def mult_ac)
    then show ?thesis by (simp only: b)
  qed
  moreover have "a = sgn a * (\<bar>b\<bar> * q + m)"
    by (metis a sgn_mult_abs)
  ultimately have "b * (a sdiv b) - a = - (sgn a * m)"
    by (metis add_diff_cancel_left' distrib_left minus_diff_eq)
  then show ?thesis using m assms by (auto simp: sgn_if)
qed

section \<open>Words as numbers\<close>

lemma unat_u64_less: "unat (x :: u64) < 18446744073709551616"
  using unsigned_less [where 'a = nat and 'b = 64, of x] by simp

lemma unat_u32_less: "unat (x :: u32) < 4294967296"
  using unsigned_less [where 'a = nat and 'b = 32, of x] by simp

lemma pow32: "(2::nat) ^ 32 = 4294967296"
  by simp

lemma unat_drop_bit_div: "unat (drop_bit k (x :: 'a::len word)) = unat x div 2 ^ k"
  by (subst unat_drop_bit_eq) (rule drop_bit_eq_div)

lemma unat_push_bit_mult:
  "unat x * 2 ^ k < 2 ^ LENGTH('a) \<Longrightarrow> unat (push_bit k (x :: 'a::len word)) = unat x * 2 ^ k"
  by (subst unsigned_push_bit_eq) (simp add: push_bit_eq_mult take_bit_nat_eq_self)

lemma unat_inj: "unat a = unat b \<Longrightarrow> a = (b :: 'a::len word)"
  by (rule unsigned_word_eqI)

lemma unat_take_bit_mod: "unat (take_bit k (x :: 'a::len word)) = unat x mod 2 ^ k"
  by (subst unsigned_take_bit_eq) (rule take_bit_eq_mod)

lemma unat_ucast_32_64 [simp]: "unat (ucast (x :: u32) :: u64) = unat x"
  using unat_u32_less [of x] by (simp add: unsigned_ucast_eq take_bit_nat_eq_self)

lemma unat_ucast_64_32: "unat (ucast (x :: u64) :: u32) = unat x mod 4294967296"
  by (simp add: unsigned_ucast_eq take_bit_eq_mod)

lemma unat_word_of_nat_32: "n < 4294967296 \<Longrightarrow> unat (word_of_nat n :: u32) = n"
  by (simp add: unsigned_of_nat take_bit_nat_eq_self)

end
