(* ===== verification/Fixed_Point.thy ===== *)
theory Fixed_Point
  imports Prelude
begin

text \<open>
  The 16.16 fixed-point arithmetic of \<open>threads/fixed-point.h\<close>. A number is a record with the
  C \<open>int\<close> field. Operations computed in \<open>int\<close> are undefined on overflow (\<open>None\<close>);
  those computed in \<open>long long\<close> wrap when they are stored back into the \<open>int\<close> field.
  The theorems give the exact range on which conversions round-trip, the rounding error of
  multiplication and division, and how \<open>fix_round\<close> rounds.
\<close>

section \<open>The code\<close>

definition FIX_P :: nat where "FIX_P = 16"

definition FIX_Q :: nat where "FIX_Q = 16"

definition FIX_F :: int where "FIX_F = 2 ^ FIX_Q"

definition FIX_MAX_INT :: int where "FIX_MAX_INT = 2 ^ FIX_P - 1"

definition FIX_MIN_INT :: int where "FIX_MIN_INT = - FIX_MAX_INT"

lemmas fix_params [kdefs] = FIX_P_def FIX_Q_def FIX_F_def FIX_MAX_INT_def FIX_MIN_INT_def

record fixed_point =
  fx_f :: int

definition mk_fix :: "int \<Rightarrow> fixed_point" where
  "mk_fix f = \<lparr>fx_f = f\<rparr>"

definition fix_int :: "int \<Rightarrow> fixed_point option" where
  "fix_int n = do {
     kassert (n \<ge> FIX_MIN_INT \<and> n \<le> FIX_MAX_INT);
     f \<leftarrow> cint32 (n * FIX_F);
     Some (mk_fix f)
   }"

definition fix_frac :: "int \<Rightarrow> int \<Rightarrow> fixed_point option" where
  "fix_frac n d = do {
     kassert (d \<noteq> 0);
     kassert (n sdiv d \<ge> FIX_MIN_INT \<and> n sdiv d \<le> FIX_MAX_INT);
     Some (mk_fix (to_s32 ((n * FIX_F) sdiv d)))
   }"

definition fix_round :: "fixed_point \<Rightarrow> int option" where
  "fix_round x = do {
     f \<leftarrow> cint32 (fx_f x + FIX_F sdiv 2);
     Some (f sdiv FIX_F)
   }"

definition fix_trunc :: "fixed_point \<Rightarrow> int" where
  "fix_trunc x = fx_f x sdiv FIX_F"

definition fix_add :: "fixed_point \<Rightarrow> fixed_point \<Rightarrow> fixed_point option" where
  "fix_add x y = map_option mk_fix (cint32 (fx_f x + fx_f y))"

definition fix_sub :: "fixed_point \<Rightarrow> fixed_point \<Rightarrow> fixed_point option" where
  "fix_sub x y = map_option mk_fix (cint32 (fx_f x - fx_f y))"

definition fix_mul :: "fixed_point \<Rightarrow> fixed_point \<Rightarrow> fixed_point" where
  "fix_mul x y = mk_fix (to_s32 ((fx_f x * fx_f y) sdiv FIX_F))"

definition fix_scale :: "fixed_point \<Rightarrow> int \<Rightarrow> fixed_point option" where
  "fix_scale x n = do {
     kassert (n \<ge> 0);
     f \<leftarrow> cint32 (fx_f x * n);
     Some (mk_fix f)
   }"

definition fix_div :: "fixed_point \<Rightarrow> fixed_point \<Rightarrow> fixed_point option" where
  "fix_div x y =
     (if fx_f y = 0 then None
      else Some (mk_fix (to_s32 ((fx_f x * FIX_F) sdiv fx_f y))))"

definition fix_unscale :: "fixed_point \<Rightarrow> int \<Rightarrow> fixed_point option" where
  "fix_unscale x n = do {
     kassert (n > 0);
     Some (mk_fix (fx_f x sdiv n))
   }"

definition fix_inv :: "fixed_point \<Rightarrow> fixed_point option" where
  "fix_inv x = do {
     one \<leftarrow> fix_int 1;
     fix_div one x
   }"

definition fix_compare :: "fixed_point \<Rightarrow> fixed_point \<Rightarrow> int" where
  "fix_compare x y = (if fx_f x < fx_f y then - 1 else if fx_f x > fx_f y then 1 else 0)"

section \<open>Conversions\<close>

definition fix_ok :: "fixed_point \<Rightarrow> bool" where
  "fix_ok x \<longleftrightarrow> in_s32 (fx_f x)"

lemma fix_F_num [simp]: "FIX_F = 65536"
  by (simp add: fix_params)

lemma fx_f_mk_fix [simp]: "fx_f (mk_fix f) = f"
  by (simp add: mk_fix_def)

lemma fix_ok_ops [simp]:
  "fix_ok (mk_fix (to_s32 v))" "fix_ok (fix_mul x y)"
  "fix_int n = Some z \<Longrightarrow> fix_ok z" "fix_frac n d = Some z \<Longrightarrow> fix_ok z"
  "fix_add x y = Some z \<Longrightarrow> fix_ok z" "fix_sub x y = Some z \<Longrightarrow> fix_ok z"
  "fix_scale x n = Some z \<Longrightarrow> fix_ok z" "fix_div x y = Some z \<Longrightarrow> fix_ok z"
  by (auto simp: fix_ok_def to_s32_range fix_mul_def fix_int_def fix_frac_def fix_add_def
      fix_sub_def fix_scale_def fix_div_def bind_eq_Some_conv split: if_splits)

lemma fix_int_Some:
  "fix_int n = Some x \<longleftrightarrow> - 32768 \<le> n \<and> n \<le> 32767 \<and> x = mk_fix (n * 65536)"
  by (auto simp: fix_int_def fix_params in_s32_def bind_eq_Some_conv)

lemma sdiv_int_half:
  assumes "- 32768 \<le> n"
  shows "(n * 65536 + 32768) sdiv (65536::int) = (if n < 0 then n + 1 else n)"
proof (cases "n < 0")
  case True
  then have "\<bar>n * 65536 + 32768\<bar> = (- n - 1) * 65536 + 32768" by simp
  then have "\<bar>n * 65536 + 32768\<bar> div 65536 = - n - 1" by simp
  with True show ?thesis by (auto simp: signed_divide_int_def sgn_if)
next
  case False
  then show ?thesis by (simp add: sdiv_nonneg)
qed

lemma fix_trunc_mk [simp]: "fix_trunc (mk_fix (n * 65536)) = n"
  by (simp add: fix_trunc_def signed_divide_int_def abs_mult sgn_mult mult_sgn_abs)

lemma fix_round_mk:
  "- 32768 \<le> n \<Longrightarrow> n \<le> 32767 \<Longrightarrow>
   fix_round (mk_fix (n * 65536)) = Some (if n < 0 then n + 1 else n)"
  by (simp add: fix_round_def in_s32_def sdiv_int_half)

text \<open>
  \<open>fix_int\<close> has a result exactly for the 16-bit signed integers: its own assertion lets every
  integer of absolute value up to 65535 pass, but the ones outside \<open>-32768 .. 32767\<close> overflow
  the \<open>int\<close> field. Where it has a result \<open>fix_trunc\<close> gives the integer back, and so does
  \<open>fix_round\<close> for \<open>n \<ge> 0\<close>; a negative integer is rounded to the integer above it.
\<close>

lemma fix_int_roundtrip:
  "fix_int n =
     (if - 32768 \<le> n \<and> n \<le> 32767 then Some (mk_fix (n * 65536)) else None) \<and>
   (\<forall>x. fix_int n = Some x \<longrightarrow>
      fix_trunc x = n \<and> fix_round x = Some (if n < 0 then n + 1 else n))"
proof (intro conjI allI impI)
  show "fix_int n = (if - 32768 \<le> n \<and> n \<le> 32767 then Some (mk_fix (n * 65536)) else None)"
    using fix_int_Some [of n] by (cases "fix_int n") auto
next
  fix x assume "fix_int n = Some x"
  then have n: "- 32768 \<le> n" "n \<le> 32767" and x: "x = mk_fix (n * 65536)"
    by (auto simp: fix_int_Some)
  show "fix_trunc x = n" using x by simp
  show "fix_round x = Some (if n < 0 then n + 1 else n)" using n x by (simp only: fix_round_mk)
qed

lemma fix_int_roundtrip_example:
  "fix_int (- 1) = Some (mk_fix (- 65536)) \<and> fix_round (mk_fix (- 65536)) = Some 0 \<and>
   fix_int 40000 = None"
  using fix_int_roundtrip [of "- 1"] fix_int_roundtrip [of 40000] by simp

section \<open>Rounding errors\<close>

lemma fix_round_nonneg:
  assumes "0 \<le> fx_f x" "fix_round x = Some r"
  shows "2 * \<bar>r * 65536 - fx_f x\<bar> \<le> 65536"
proof -
  let ?s = "fx_f x + 32768"
  have r: "r = ?s div 65536" using assms by (auto simp: fix_round_def bind_eq_Some_conv sdiv_nonneg)
  obtain m where "?s = r * 65536 + m" "0 \<le> m" "m < 65536"
    using r by (metis div_mult_mod_eq pos_mod_bound pos_mod_sign zero_less_numeral)
  then show ?thesis by arith
qed

text \<open>
  The result of \<open>fix_mul\<close>, where the truncated product fits the field, and of \<open>fix_div\<close>, where
  the truncated quotient does, is less than one unit in the last place away from the exact one
  (\<open>z * FIX_F\<close> against \<open>x * y\<close>, \<open>z * y\<close> against \<open>x * FIX_F\<close>). Elsewhere it is wrapped.
\<close>

lemma fix_mul_wraps: "fx_f (fix_mul x y) = to_s32 ((fx_f x * fx_f y) sdiv FIX_F)"
  by (simp add: fix_mul_def)

lemma fix_mul_error:
  "in_s32 ((fx_f x * fx_f y) sdiv FIX_F) \<Longrightarrow>
   \<bar>fx_f (fix_mul x y) * FIX_F - fx_f x * fx_f y\<bar> < FIX_F"
  using sdiv_error [of FIX_F "fx_f x * fx_f y"]
  by (simp add: fix_mul_def to_s32_in mult.commute)

lemma fix_div_error:
  "in_s32 ((fx_f x * FIX_F) sdiv fx_f y) \<Longrightarrow> fix_div x y = Some z \<Longrightarrow>
   \<bar>fx_f z * fx_f y - fx_f x * FIX_F\<bar> < \<bar>fx_f y\<bar>"
  using sdiv_error [of "fx_f y" "fx_f x * FIX_F"]
  by (auto simp: fix_div_def to_s32_in mult.commute split: if_splits)

lemma fix_div_wraps:
  "map_option fx_f (fix_div x y) =
     (if fx_f y = 0 then None else Some (to_s32 ((fx_f x * FIX_F) sdiv fx_f y)))"
  by (simp add: fix_div_def)

section \<open>Properties\<close>

text \<open>
  C40. \<open>fix_int\<close> has a result exactly for the 16-bit signed integers: its own assertion lets every
  integer of absolute value up to 65535 pass, but the ones outside \<open>-32768 .. 32767\<close> overflow
  the \<open>int\<close> field. Where it has a result \<open>fix_trunc\<close> gives the integer back, and so does
  \<open>fix_round\<close> for \<open>n \<ge> 0\<close>; a negative integer is rounded to the integer above it. \<open>fix_mul\<close> is the
  truncated product and \<open>fix_div\<close> the truncated quotient, each wrapped to 32 bits, and \<open>fix_div\<close>
  has no result exactly for the divisor zero. If the truncated product fits 32 bits, then the result of
  \<open>fix_mul\<close> is less than one unit in the last place away from the exact product; if the truncated
  quotient fits 32 bits, the result of \<open>fix_div\<close> is less than one unit away from the exact quotient.
\<close>

theorem fixed_point_arithmetic:
  "fix_int n = (if - 32768 \<le> n \<and> n \<le> 32767 then Some (mk_fix (n * 65536)) else None) \<and>
   (\<forall>z. fix_int n = Some z \<longrightarrow> fix_trunc z = n \<and> fix_round z = Some (if n < 0 then n + 1 else n)) \<and>
   fx_f (fix_mul x y) = to_s32 ((fx_f x * fx_f y) sdiv FIX_F) \<and>
   map_option fx_f (fix_div x y) =
     (if fx_f y = 0 then None else Some (to_s32 ((fx_f x * FIX_F) sdiv fx_f y))) \<and>
   (in_s32 ((fx_f x * fx_f y) sdiv FIX_F) \<longrightarrow>
      \<bar>fx_f (fix_mul x y) * FIX_F - fx_f x * fx_f y\<bar> < FIX_F) \<and>
   (\<forall>z. in_s32 ((fx_f x * FIX_F) sdiv fx_f y) \<longrightarrow> fix_div x y = Some z \<longrightarrow>
      \<bar>fx_f z * fx_f y - fx_f x * FIX_F\<bar> < \<bar>fx_f y\<bar>)"
  using fix_int_roundtrip fix_mul_wraps fix_div_wraps fix_mul_error fix_div_error by blast

text \<open>
  At 1.0 and \<open>2 ^ -16\<close> the product fits and the quotient does not: the product is exact, and
  the quotient \<open>2 ^ 32\<close> comes out as 0.
\<close>

theorem fixed_point_arithmetic_witness:
  "fix_int 40000 = None \<and> fix_trunc (mk_fix (7 * 65536)) = 7 \<and>
   \<bar>fx_f (fix_mul (mk_fix 65536) (mk_fix 1)) * FIX_F - 65536\<bar> < FIX_F \<and>
   map_option fx_f (fix_div (mk_fix 65536) (mk_fix 1)) = Some 0 \<and>
   \<bar>(- 32768) * (- 131072) - 65537 * FIX_F\<bar> < \<bar>- 131072\<bar>"
proof -
  have m: "in_s32 ((65536 * 1) sdiv FIX_F)" by (simp add: in_s32_def signed_divide_int_def)
  have d: "in_s32 ((65537 * FIX_F) sdiv (- 131072))" by (simp add: in_s32_def signed_divide_int_def)
  have z: "fix_div (mk_fix 65537) (mk_fix (- 131072)) = Some (mk_fix (- 32768))"
    by (simp add: fix_div_def signed_divide_int_def to_s32_def)
  show ?thesis
    using fixed_point_arithmetic [of 40000 "mk_fix 65536" "mk_fix 1"]
      fixed_point_arithmetic [of 7 "mk_fix 65537" "mk_fix (- 131072)"] m d z
    by (simp add: signed_divide_int_def to_s32_def)
qed

end
