(* ===== verification/Arithmetic64.thy ===== *)
theory Arithmetic64
  imports Prelude
begin

text \<open>
  The 64-bit division routines of \<open>lib/arithmetic.c\<close>, which the compiler calls on the 32-bit
  target. Everything is on words of the width the code uses; \<open>divl\<close> is the x86 instruction, which
  traps (\<open>None\<close>) on a zero divisor and on a quotient that does not fit 32 bits. The theorems show
  that the unsigned quotient is exact for every nonzero divisor (so the two \<open>divl\<close> calls never
  trap), that the signed quotient truncates towards zero, and which remainders are right.
\<close>

section \<open>The code\<close>

definition divl :: "u64 \<Rightarrow> u32 \<Rightarrow> u32 option" where
  "divl n d =
     (if d = 0 \<or> 2 ^ 32 \<le> unat n div unat d then None
      else Some (word_of_nat (unat n div unat d)))"

definition nlz :: "u32 \<Rightarrow> nat" where
  "nlz x0 =
     (let n = 0; x = x0;
          (n, x) = (if x \<le> 0x0000FFFF then (n + 16, push_bit 16 x) else (n, x));
          (n, x) = (if x \<le> 0x00FFFFFF then (n + 8, push_bit 8 x) else (n, x));
          (n, x) = (if x \<le> 0x0FFFFFFF then (n + 4, push_bit 4 x) else (n, x));
          (n, x) = (if x \<le> 0x3FFFFFFF then (n + 2, push_bit 2 x) else (n, x))
      in if x \<le> 0x7FFFFFFF then n + 1 else n)"

definition udiv64 :: "u64 \<Rightarrow> u64 \<Rightarrow> u64 option" where
  "udiv64 n d =
     (if drop_bit 32 d = 0 then
        (let b = push_bit 32 1;
             n1 = ucast (drop_bit 32 n) :: u32;
             n0 = ucast n :: u32;
             d0 = ucast d :: u32
         in do {
           kassert (d0 \<noteq> 0);
           q \<leftarrow> divl (b * ucast (n1 mod d0) + ucast n0) d0;
           Some (ucast q + b * ucast (n1 div d0))
         })
      else if n < d then Some 0
      else
        (let d1 = ucast (drop_bit 32 d) :: u32;
             s = nlz d1
         in do {
           q0 \<leftarrow> divl (drop_bit 1 n) (ucast (drop_bit 32 (push_bit s d)));
           let q = ucast (drop_bit (31 - s) q0);
           Some (if n - (q - 1) * d < d then q - 1 else q)
         }))"

definition umod64 :: "u64 \<Rightarrow> u64 \<Rightarrow> u32 option" where
  "umod64 n d = map_option (\<lambda>q. ucast (n - d * q)) (udiv64 n d)"

definition sdiv64 :: "u64 \<Rightarrow> u64 \<Rightarrow> u64 option" where
  "sdiv64 n d =
     (let n_abs = (if 0 \<le> sint n then n else - n);
          d_abs = (if 0 \<le> sint d then d else - d)
      in map_option (\<lambda>q_abs. if (sint n < 0) = (sint d < 0) then q_abs else - q_abs)
           (udiv64 n_abs d_abs))"

definition smod64 :: "u64 \<Rightarrow> u64 \<Rightarrow> u32 option" where
  "smod64 n d = map_option (\<lambda>q. ucast (n - d * q)) (sdiv64 n d)"

definition divdi3 :: "u64 \<Rightarrow> u64 \<Rightarrow> u64 option" where
  "divdi3 n d = sdiv64 n d"

definition moddi3 :: "u64 \<Rightarrow> u64 \<Rightarrow> u64 option" where
  "moddi3 n d = map_option scast (smod64 n d)"

definition udivdi3 :: "u64 \<Rightarrow> u64 \<Rightarrow> u64 option" where
  "udivdi3 n d = udiv64 n d"

definition umoddi3 :: "u64 \<Rightarrow> u64 \<Rightarrow> u64 option" where
  "umoddi3 n d = map_option ucast (umod64 n d)"

section \<open>Leading zeros\<close>

lemma nlz_step:
  assumes "(n', x') = (if x \<le> c then (n + k, push_bit k x) else (n, x))"
    and "Suc (unat c) = 2 ^ (32 - k)" "2 ^ (32 - k) \<le> unat (x :: u32) * 2 ^ k" "k \<le> 32"
  shows "n \<le> n'" "n' \<le> n + k" "unat x' = unat x * 2 ^ (n' - n)" "2 ^ (32 - k) \<le> unat x'"
proof -
  have lt: "unat x * 2 ^ k < 2 ^ 32" if "x \<le> c"
  proof -
    have "unat x < 2 ^ (32 - k)" using that assms(2) by (simp add: word_le_nat_alt)
    then have "unat x * 2 ^ k < 2 ^ (32 - k) * 2 ^ k" by simp
    also have "\<dots> = (2 ^ 32 :: nat)" using assms(4) by (simp flip: power_add)
    finally show ?thesis .
  qed
  have ge: "2 ^ (32 - k) \<le> unat x" if "\<not> x \<le> c"
    using that assms(2) by (simp add: word_le_nat_alt)
  show "n \<le> n'" "n' \<le> n + k" using assms(1) by (simp_all split: if_splits)
  show "unat x' = unat x * 2 ^ (n' - n)"
    using assms(1) lt by (simp add: unat_push_bit_mult split: if_splits)
  show "2 ^ (32 - k) \<le> unat x'"
    using assms(1,3) lt ge by (simp add: unat_push_bit_mult split: if_splits)
qed

lemma nlz_spec:
  assumes "x \<noteq> 0"
  shows "2147483648 \<le> unat x * 2 ^ nlz x" "unat x * 2 ^ nlz x < 4294967296" "nlz x \<le> 31"
proof -
  have x0: "0 < unat x" using assms by (simp add: unat_gt_0)
  obtain n1 :: nat and x1 where s1: "(n1, x1) = (if x \<le> 0x0000FFFF then (0 + 16, push_bit 16 x) else (0, x))"
    by (metis surj_pair)
  obtain n2 :: nat and x2 where s2: "(n2, x2) = (if x1 \<le> 0x00FFFFFF then (n1 + 8, push_bit 8 x1) else (n1, x1))"
    by (metis surj_pair)
  obtain n3 :: nat and x3 where s3: "(n3, x3) = (if x2 \<le> 0x0FFFFFFF then (n2 + 4, push_bit 4 x2) else (n2, x2))"
    by (metis surj_pair)
  obtain n4 :: nat and x4 where s4: "(n4, x4) = (if x3 \<le> 0x3FFFFFFF then (n3 + 2, push_bit 2 x3) else (n3, x3))"
    by (metis surj_pair)
  have n: "nlz x = (if x4 \<le> 0x7FFFFFFF then n4 + 1 else n4)"
    by (simp only: nlz_def Let_def s1 [symmetric] s2 [symmetric] s3 [symmetric] s4 [symmetric] prod.case)
  have r1: "0 \<le> n1" "n1 \<le> 0 + 16" "unat x1 = unat x * 2 ^ (n1 - 0)" "2 ^ (32 - 16) \<le> unat x1"
    using nlz_step [OF s1] x0 by simp_all
  have r2: "n1 \<le> n2" "n2 \<le> n1 + 8" "unat x2 = unat x1 * 2 ^ (n2 - n1)" "2 ^ (32 - 8) \<le> unat x2"
    using nlz_step [OF s2] r1(4) by simp_all
  have r3: "n2 \<le> n3" "n3 \<le> n2 + 4" "unat x3 = unat x2 * 2 ^ (n3 - n2)" "2 ^ (32 - 4) \<le> unat x3"
    using nlz_step [OF s3] r2(4) by simp_all
  have r4: "n3 \<le> n4" "n4 \<le> n3 + 2" "unat x4 = unat x3 * 2 ^ (n4 - n3)" "2 ^ (32 - 2) \<le> unat x4"
    using nlz_step [OF s4] r3(4) by simp_all
  have u4: "unat x4 = unat x * 2 ^ n4"
    using r1 r2 r3 r4 by (simp flip: power_add)
  have n4: "n4 \<le> 30" using r1 r2 r3 r4 by simp
  have b: "unat x4 < 4294967296" by (rule unat_u32_less)
  show "2147483648 \<le> unat x * 2 ^ nlz x" "unat x * 2 ^ nlz x < 4294967296" "nlz x \<le> 31"
    using n n4 u4 r4(4) b by (auto simp: word_le_nat_alt not_le split: if_splits)
qed

section \<open>The unsigned quotient\<close>

lemma divl_Some:
  assumes "0 < unat d" "unat n div unat d < 4294967296"
  shows "\<exists>q. divl n d = Some q \<and> unat q = unat n div unat d"
proof -
  have "d \<noteq> 0" using assms(1) by auto
  then show ?thesis using assms by (simp add: divl_def unat_word_of_nat_32)
qed

lemma small_divisor_value:
  fixes n d :: nat
  assumes "0 < d" "d \<le> b" "n = b * n1 + n0" "n0 < b"
  shows "(b * (n1 mod d) + n0) div d < b"
    and "(b * (n1 mod d) + n0) div d + b * (n1 div d) = n div d"
proof -
  have "n1 mod d < d" using assms(1) by simp
  then have "b * (n1 mod d) + n0 < b * d"
    using assms(4) by (metis Suc_leI add_less_cancel_left add_mult_distrib2 less_le_trans mult.right_neutral mult_le_mono2 Suc_eq_plus1)
  then show "(b * (n1 mod d) + n0) div d < b"
    by (simp add: less_mult_imp_div_less mult.commute)
  have "n = (b * (n1 mod d) + n0) + d * (b * (n1 div d))"
    using assms(3) by (metis add.assoc add.commute add_mult_distrib2 mod_mult_div_eq mult.left_commute)
  then show "(b * (n1 mod d) + n0) div d + b * (n1 div d) = n div d"
    using assms(1) by (metis div_mult_self2 not_less_zero add.commute)
qed

lemma udiv64_small:
  assumes "unat d < 4294967296" "d \<noteq> 0"
  shows "\<exists>q. udiv64 n d = Some q \<and> unat q = unat n div unat d"
proof -
  let ?n1 = "ucast (drop_bit 32 n) :: u32" and ?n0 = "ucast n :: u32" and ?d0 = "ucast d :: u32"
  have d0: "unat ?d0 = unat d" using assms(1) by (simp add: unat_ucast_64_32)
  have dpos: "0 < unat d" using assms(2) by (simp add: unat_gt_0)
  have n1: "unat ?n1 = unat n div 4294967296"
    using unat_u64_less [of n] by (simp add: unat_ucast_64_32 unat_drop_bit_div)
  have n0: "unat ?n0 = unat n mod 4294967296" by (simp add: unat_ucast_64_32)
  have ns: "unat n = 4294967296 * unat ?n1 + unat ?n0" using n1 n0 by simp
  have n0b: "unat ?n0 < 4294967296" by (rule unat_u32_less)
  have hi: "drop_bit 32 d = 0" by (metis assms(1) div_less unat_drop_bit_div unsigned_eq_0_iff pow32)
  let ?m = "(push_bit 32 1 :: u64) * ucast (?n1 mod ?d0) + ucast ?n0"
  have v: "(4294967296 * (unat ?n1 mod unat d) + unat ?n0) div unat d < 4294967296"
    "(4294967296 * (unat ?n1 mod unat d) + unat ?n0) div unat d + 4294967296 * (unat ?n1 div unat d)
      = unat n div unat d"
    using small_divisor_value [OF dpos _ ns n0b] assms(1) by simp_all
  have "unat ?n1 mod unat d < 4294967296" by (meson dpos assms(1) mod_less_divisor order.strict_trans)
  then have m: "unat ?m = 4294967296 * (unat ?n1 mod unat d) + unat ?n0"
    using n0b by (simp add: unat_word_ariths d0)
  obtain q where q: "divl ?m ?d0 = Some q" "unat q = (4294967296 * (unat ?n1 mod unat d) + unat ?n0) div unat d"
    using divl_Some [of ?d0 ?m, unfolded d0 m] dpos v(1) by blast
  have "unat n div unat d < 18446744073709551616"
    using unat_u64_less [of n] by (meson div_le_dividend le_less_trans)
  then have r: "unat (ucast q + (push_bit 32 1 :: u64) * ucast (?n1 div ?d0)) = unat n div unat d"
    using v(2) q(2) by (simp add: unat_word_ariths d0)
  have "?d0 \<noteq> 0" using d0 dpos by auto
  then have "udiv64 n d = Some (ucast q + (push_bit 32 1 :: u64) * ucast (?n1 div ?d0))"
    using q(1) by (simp add: udiv64_def hi Let_def)
  with r show ?thesis by blast
qed

text \<open>
  The large-divisor branch. \<open>D\<close> is the divisor \<open>d\<close> with the bits below its leading 32 cleared;
  the estimate divides by \<open>D\<close> and is the quotient or one more.
\<close>

lemma estimate_bounds:
  fixes n d s :: nat
  assumes n: "n < 2 ^ 64" and s: "s \<le> 31" and lo: "2 ^ 63 \<le> d * 2 ^ s"
  defines "v \<equiv> d * 2 ^ s div 2 ^ 32"
  shows "n div d \<le> n div 2 div v div 2 ^ (31 - s)" (is "_ \<le> ?q")
    and "n div 2 div v div 2 ^ (31 - s) \<le> Suc (n div d)"
proof -
  define e where "e = (2 :: nat) ^ (32 - s)"
  define D where "D = v * e"
  have e2: "2 * 2 ^ (31 - s) = e" using s by (simp add: e_def Suc_diff_le flip: power_Suc)
  have q: "?q = n div D"
    by (simp add: div_mult2_eq [symmetric] D_def e2 [symmetric] mult.assoc mult.left_commute)
  have "(32 - s) + s = 32" using s by simp
  then have es: "e * 2 ^ s = 2 ^ 32" unfolding e_def by (metis power_add)
  have D2: "D * 2 ^ s = v * 2 ^ 32" by (simp only: D_def mult.assoc es)
  have "v * 2 ^ 32 \<le> d * 2 ^ s" unfolding v_def by (rule div_times_less_eq_dividend)
  then have Dd: "D \<le> d" unfolding D2 [symmetric] by simp
  have "d * 2 ^ s < Suc v * 2 ^ 32"
    unfolding v_def mult_Suc by (rule dividend_less_div_times) simp
  also have "\<dots> = (D + e) * 2 ^ s" by (simp only: mult_Suc add_mult_distrib D2 es add.commute)
  finally have de: "d < D + e" by simp
  have v31: "2 ^ 31 \<le> v"
    unfolding v_def using div_le_mono [OF lo, of "2 ^ 32"] by simp
  have ep: "e = 2 \<or> 4 \<le> e"
  proof (cases "s = 31")
    case False
    then have "(2::nat) ^ 2 \<le> e" using s unfolding e_def by (intro power_increasing) auto
    then show ?thesis by simp
  qed (simp add: e_def)
  have Dpos: "0 < D" using v31 ep by (auto simp: D_def)
  show "n div d \<le> ?q" unfolding q by (rule div_le_mono2 [OF Dpos Dd])
  show "?q \<le> Suc (n div d)"
  proof (rule ccontr)
    define Q where "Q = n div d"
    assume "\<not> ?q \<le> Suc (n div d)"
    then have "Suc (Suc Q) \<le> n div D" by (simp add: q Q_def)
    then have up: "Suc (Suc Q) * D \<le> n"
      by (metis div_times_less_eq_dividend le_trans mult_le_mono1)
    have "n < Suc Q * d" unfolding Q_def mult_Suc using Dpos Dd by (intro dividend_less_div_times) simp
    also have "\<dots> \<le> Suc Q * (D + (e - 1))" using de by (intro mult_le_mono2) simp
    finally have "Suc (Suc Q) * D < Suc Q * (D + (e - 1))" using up by linarith
    then have "Suc Q * D + D < Suc Q * D + Suc Q * (e - 1)"
      by (simp add: algebra_simps)
    then have D: "D < Suc Q * (e - 1)" by simp
    have Dv: "2 ^ 31 * e \<le> D" unfolding D_def using v31 by simp
    have "Suc (Suc Q) * (2 ^ 31 * e) < 2 ^ 64"
      using up n Dv by (meson le_less_trans mult_le_mono2)
    then have Qe: "Suc (Suc Q) * e < 2 ^ 33" by simp
    show False
    proof (cases "e = 2")
      case True
      then show ?thesis using D Dv Qe by simp
    next
      case False
      then have e4: "4 \<le> e" using ep by simp
      have "Suc Q * (e - 1) \<le> Suc (Suc Q) * e" by (intro mult_le_mono) auto
      then show ?thesis using D Dv Qe e4 by simp
    qed
  qed
qed

lemma shifted_divisor:
  fixes d d1 s :: nat
  assumes "d1 = d div 2 ^ 32" "d1 * 2 ^ s < 4294967296" "s \<le> 31"
  shows "d * 2 ^ s < 2 ^ 64"
proof -
  define e where "e = (2 :: nat) ^ (32 - s)"
  have "(32 - s) + s = 32" using assms(3) by simp
  then have es: "e * 2 ^ s = 2 ^ 32" unfolding e_def by (metis power_add)
  have "d1 * 2 ^ s < e * 2 ^ s" using assms(2) by (simp add: es)
  then have "Suc d1 \<le> e" by simp
  then have "Suc d1 * 2 ^ 32 \<le> e * 2 ^ 32" by (rule mult_le_mono1)
  moreover have "d < Suc d1 * 2 ^ 32"
    unfolding assms(1) mult_Suc by (rule dividend_less_div_times) simp
  ultimately have "d < e * 2 ^ 32" by (rule less_le_trans [rotated])
  then have "d * 2 ^ s < (e * 2 ^ 32) * 2 ^ s" by simp
  also have "\<dots> = 2 ^ 32 * (e * 2 ^ s)" by (simp only: mult_ac)
  finally show ?thesis by (simp add: es)
qed

lemma shifted_divisor_ge:
  fixes d d1 t :: nat
  assumes "d1 * 2 ^ 32 \<le> d" "2147483648 \<le> d1 * t"
  shows "2 ^ 63 \<le> d * t"
proof -
  have "2147483648 * 2 ^ 32 \<le> (d1 * t) * 2 ^ 32" using assms(2) by (rule mult_le_mono1)
  also have "\<dots> = (d1 * 2 ^ 32) * t" by (simp only: mult_ac)
  also have "\<dots> \<le> d * t" using assms(1) by (rule mult_le_mono1)
  finally show ?thesis by simp
qed

lemma udiv64_large:
  assumes "4294967296 \<le> unat d" "unat d \<le> unat n"
  shows "\<exists>q. udiv64 n d = Some q \<and> unat q = unat n div unat d"
proof -
  let ?d1 = "ucast (drop_bit 32 d) :: u32"
  define s where "s = nlz ?d1"
  have nb: "unat n < 2 ^ 64" and db: "unat d < 2 ^ 64"
    using unat_u64_less [of n] unat_u64_less [of d] by simp_all
  have d1: "unat ?d1 = unat d div 2 ^ 32"
    using db by (simp add: unat_ucast_64_32 unat_drop_bit_div)
  have "0 < unat ?d1" using assms(1) d1 by (simp add: div_greater_zero_iff)
  then have sp: "2147483648 \<le> unat ?d1 * 2 ^ s" "unat ?d1 * 2 ^ s < 4294967296" "s \<le> 31"
    unfolding s_def by (auto intro!: nlz_spec)
  have ds: "unat d * 2 ^ s < 2 ^ 64" by (rule shifted_divisor [OF d1 sp(2,3)])
  have lo: "2 ^ 63 \<le> unat d * 2 ^ s"
  proof -
    have "unat ?d1 * 2 ^ 32 \<le> unat d" unfolding d1 by (rule div_times_less_eq_dividend)
    from shifted_divisor_ge [OF this sp(1)] show ?thesis .
  qed
  have pd: "unat (push_bit s d) = unat d * 2 ^ s" using ds by (simp add: unat_push_bit_mult)
  let ?v = "ucast (drop_bit 32 (push_bit s d)) :: u32"
  have v: "unat ?v = unat d * 2 ^ s div 2 ^ 32"
    using ds by (simp add: unat_ucast_64_32 unat_drop_bit_div pd)
  have v31: "2 ^ 31 \<le> unat ?v" unfolding v using div_le_mono [OF lo, of "2 ^ 32"] by simp
  have n1: "unat (drop_bit 1 n) = unat n div 2" by (simp add: unat_drop_bit_div [where k = 1, simplified])
  have "unat n div 2 div unat ?v < 4294967296"
  proof -
    have "unat n div 2 div unat ?v \<le> unat n div 2 div 2 ^ 31" using v31 by (intro div_le_mono2) auto
    also have "\<dots> < 4294967296" using nb by simp
    finally show ?thesis .
  qed
  then obtain q0 where q0: "divl (drop_bit 1 n) ?v = Some q0" "unat q0 = unat n div 2 div unat ?v"
    using divl_Some [of ?v "drop_bit 1 n", unfolded n1] v31 by force
  define q :: u64 where "q = ucast (drop_bit (31 - s) q0)"
  have uq: "unat q = unat n div 2 div unat ?v div 2 ^ (31 - s)"
    by (simp add: q_def unat_drop_bit_div q0)
  have b: "unat n div unat d \<le> unat q" "unat q \<le> Suc (unat n div unat d)"
    using estimate_bounds [OF nb sp(3) lo] by (simp_all add: uq v)
  have d0: "0 < unat d" and one: "1 \<le> unat n div unat d" using assms by (simp_all add: div_greater_zero_iff Suc_leI)
  have q1: "unat (q - 1) = unat q - 1" using b one by (simp add: unat_sub_if')
  have qd: "(unat q - 1) * unat d \<le> unat n"
    using b by (metis One_nat_def Suc_le_mono Suc_pred diff_le_mono div_times_less_eq_dividend le_trans mult_le_mono1 diff_Suc_1)
  have m: "unat ((q - 1) * d) = (unat q - 1) * unat d"
    using qd nb by (simp add: unat_word_ariths q1)
  have r: "unat (n - (q - 1) * d) = unat n - (unat q - 1) * unat d"
    using qd by (simp add: unat_sub_if' m)
  have fin: "unat (if n - (q - 1) * d < d then q - 1 else q) = unat n div unat d"
  proof -
    have eq: "unat n - (unat n div unat d) * unat d < unat d"
      using d0 by (simp add: modulo_nat_def [symmetric] minus_div_mult_eq_mod)
    consider "unat q = unat n div unat d" | "unat q = Suc (unat n div unat d)" using b by linarith
    then show ?thesis
    proof cases
      case 1
      have "(unat q - 1) * unat d + unat d = unat q * unat d"
        using one 1 by (metis Suc_diff_1 add.commute less_eq_Suc_le mult_Suc One_nat_def)
      moreover have "unat q * unat d \<le> unat n" by (simp add: 1)
      ultimately have "\<not> unat n - (unat q - 1) * unat d < unat d" by linarith
      then show ?thesis by (simp add: word_less_nat_alt r 1)
    next
      case 2
      then show ?thesis using eq by (simp add: word_less_nat_alt r q1)
    qed
  qed
  have hi: "drop_bit 32 d \<noteq> 0"
    using assms(1) by (metis d1 \<open>0 < unat ?d1\<close> div_by_0 unat_0 unat_drop_bit_div less_irrefl)
  have "\<not> n < d" using assms(2) by (simp add: word_less_nat_alt)
  then have "udiv64 n d = Some (if n - (q - 1) * d < d then q - 1 else q)"
    using q0(1) hi by (simp add: udiv64_def s_def [symmetric] q_def Let_def)
  with fin show ?thesis by blast
qed

lemma udiv64_zero: "udiv64 n 0 = None"
  by (simp add: udiv64_def Let_def)

lemma udiv64_value:
  "udiv64 n d = (if d = 0 then None else Some (n div d))"
proof (cases "d = 0")
  case False
  have ex: "\<exists>q. udiv64 n d = Some q \<and> unat q = unat n div unat d"
  proof (cases "unat d < 4294967296")
    case True
    with False show ?thesis by (intro udiv64_small)
  next
    case big: False
    show ?thesis
    proof (cases "n < d")
      case True
      have "drop_bit 32 d \<noteq> 0"
        using big by (metis div_less_iff_less_mult div_less unat_drop_bit_div pow32 unsigned_eq_0_iff div_eq_0_iff zero_neq_numeral)
      with True show ?thesis by (simp add: udiv64_def word_less_nat_alt)
    next
      case ge: False
      with big show ?thesis by (intro udiv64_large) (auto simp: word_less_nat_alt)
    qed
  qed
  then obtain q where "udiv64 n d = Some q" "unat q = unat (n div d)"
    by (auto simp: unat_div)
  with False show ?thesis by (simp add: word_unat_eq_iff)
qed (simp add: udiv64_zero)

lemma udivdi3_value: "udivdi3 n d = (if d = 0 then None else Some (n div d))"
  by (simp add: udivdi3_def udiv64_value)

section \<open>The signed quotient\<close>

lemma sdiv_abs_cases:
  "(a::int) sdiv b = (if (a < 0) = (b < 0) then \<bar>a\<bar> div \<bar>b\<bar> else - (\<bar>a\<bar> div \<bar>b\<bar>))"
  by (auto simp: signed_divide_int_def sgn_if)

lemma sint_u64_range: "- 9223372036854775808 \<le> sint (n :: u64)" "sint (n :: u64) < 9223372036854775808"
  using sint_range_size [of n] by (simp_all add: word_size)

definition word_abs :: "u64 \<Rightarrow> u64" where
  "word_abs n = (if 0 \<le> sint n then n else - n)"

lemma uint_word_abs: "uint (word_abs n) = \<bar>sint n\<bar>"
proof -
  have "word_abs n = word_of_int \<bar>sint n\<bar>"
    by (simp add: word_abs_def)
  then show ?thesis
    using sint_u64_range [of n] by (simp add: unsigned_of_int take_bit_int_eq_self_iff)
qed

lemma word_abs_div: "word_abs n div word_abs d = word_of_int (\<bar>sint n\<bar> div \<bar>sint d\<bar>)"
  by (simp add: word_div_def uint_word_abs)

lemma word_abs_0 [simp]: "word_abs d = 0 \<longleftrightarrow> d = 0"
  by (simp add: word_abs_def)

lemma sdiv64_value:
  "sdiv64 n d = (if d = 0 then None else Some (word_of_int (sint n sdiv sint d)))"
  by (simp add: sdiv64_def word_abs_def [symmetric] udiv64_value word_abs_div sdiv_abs_cases)

lemma divdi3_value:
  "divdi3 n d = (if d = 0 then None else Some (word_of_int (sint n sdiv sint d))) \<and>
   divdi3 (push_bit 63 1) (- 1) = Some (push_bit 63 1)"
proof
  show "divdi3 n d = (if d = 0 then None else Some (word_of_int (sint n sdiv sint d)))"
    by (simp add: divdi3_def sdiv64_value)
  show "divdi3 (push_bit 63 1) (- 1) = Some (push_bit 63 1)"
    by (simp add: divdi3_def sdiv64_value signed_divide_int_def)
qed

section \<open>Remainders\<close>

lemma umod64_value:
  "umod64 n d = (if d = 0 then None else Some (ucast (n mod d)))"
  by (simp add: umod64_def udiv64_value minus_mult_div_eq_mod)

lemma ucast_ucast_64: "ucast (ucast (r :: u64) :: u32) = (r :: u64) \<longleftrightarrow> unat r < 4294967296"
proof
  assume "ucast (ucast r :: u32) = r"
  then have "unat r = unat (ucast r :: u32)" by (metis unat_ucast_32_64)
  then show "unat r < 4294967296" using unat_u32_less by metis
next
  assume "unat r < 4294967296"
  then show "ucast (ucast r :: u32) = r"
    by (simp add: word_unat_eq_iff unat_ucast_64_32)
qed

lemma umoddi3_value:
  "(umoddi3 n d = Some (n mod d) \<longleftrightarrow> d \<noteq> 0 \<and> unat n mod unat d < 4294967296) \<and>
   (umoddi3 n d = None \<longleftrightarrow> d = 0) \<and>
   umoddi3 (push_bit 32 1) (push_bit 33 1) = Some 0"
proof (intro conjI)
  show "umoddi3 n d = Some (n mod d) \<longleftrightarrow> d \<noteq> 0 \<and> unat n mod unat d < 4294967296"
    by (simp add: umoddi3_def umod64_value ucast_ucast_64 unat_mod)
  show "umoddi3 n d = None \<longleftrightarrow> d = 0"
    by (simp add: umoddi3_def umod64_value)
  show "umoddi3 (push_bit 32 1) (push_bit 33 1) = Some 0"
    by (simp add: umoddi3_def umod64_value)
qed

lemma umoddi3_low:
  "umoddi3 n d = (if d = 0 then None else Some (take_bit 32 (n mod d)))"
proof -
  have "ucast (ucast (r :: u64) :: u32) = take_bit 32 r" for r :: u64
    by (rule bit_word_eqI) (simp add: bit_simps, linarith?)
  then show ?thesis by (simp add: umoddi3_def umod64_value)
qed

lemma u64_minus_sdiv: "n - d * word_of_int (sint n sdiv sint d) = word_of_int (sint n smod sint d)"
  for n d :: u64
proof -
  have "n = word_of_int (sint n)" "d = word_of_int (sint d)" by simp_all
  then have "n - d * word_of_int (sint n sdiv sint d) =
      word_of_int (sint n - sint d * (sint n sdiv sint d))"
    by (metis (no_types) of_int_diff of_int_mult)
  also have "sint n - sint d * (sint n sdiv sint d) = sint n smod sint d"
    using signed_division_class.mult_sdiv_smod_eq [of "sint d" "sint n"] by (simp add: algebra_simps)
  finally show ?thesis .
qed

lemma moddi3_low:
  "moddi3 n d = (if d = 0 then None else Some (word_of_int (signed_take_bit 31 (sint n smod sint d))))"
proof -
  have "scast (ucast (word_of_int i :: u64) :: u32) = (word_of_int (signed_take_bit 31 i) :: u64)" for i
    by (rule bit_word_eqI) (simp add: bit_simps min_def)
  then show ?thesis by (simp add: moddi3_def smod64_def sdiv64_value u64_minus_sdiv)
qed

text \<open>
  C39. 64-bit division, for every nonzero divisor: the unsigned routine returns the exact quotient, so
  neither of its \<open>divl\<close> instructions traps, and the signed routine truncates towards zero, where the
  one quotient that does not fit wraps to itself. A zero divisor traps. The remainders are
  returned through a 32-bit integer: the unsigned routine gives the low 32 bits of the exact
  remainder, extended with zeros, the signed one the low 32 bits of the remainder that truncation
  leaves, extended with the sign. So the unsigned remainder is right exactly when it is below
  \<open>2 ^ 32\<close>, and the remainder of \<open>2 ^ 32\<close> by \<open>2 ^ 33\<close> comes out as 0.
\<close>

theorem division_exact:
  "udivdi3 n d = (if d = 0 then None else Some (n div d)) \<and>
   divdi3 n d = (if d = 0 then None else Some (word_of_int (sint n sdiv sint d))) \<and>
   divdi3 (push_bit 63 1) (- 1) = Some (push_bit 63 1) \<and>
   umoddi3 n d = (if d = 0 then None else Some (take_bit 32 (n mod d))) \<and>
   moddi3 n d = (if d = 0 then None else Some (word_of_int (signed_take_bit 31 (sint n smod sint d)))) \<and>
   (umoddi3 n d = Some (n mod d) \<longleftrightarrow> d \<noteq> 0 \<and> unat n mod unat d < 4294967296) \<and>
   umoddi3 (push_bit 32 1) (push_bit 33 1) = Some 0"
  using udivdi3_value [of n d] divdi3_value [of n d] umoddi3_value [of n d] umoddi3_low [of n d]
    moddi3_low [of n d] by blast

end
