(* ===== verification/Random_RC4.thy ===== *)
theory Random_RC4
  imports Prelude "HOL-Library.Multiset"
begin

text \<open>
  The RC4 pseudo-random generator of \<open>lib/random.c\<close>. The file-scope variables \<open>s\<close>, \<open>s_i\<close>,
  \<open>s_j\<close> and \<open>inited\<close> are a record that every function takes and returns; the byte buffer that
  \<open>random_bytes\<close> fills is its list of bytes. The theorem says that the table stays a permutation
  of the 256 byte values and that the output is one stream, however it is cut into calls.
\<close>

section \<open>The code\<close>

record rng =
  rng_s :: "u8 list"
  rng_i :: u8
  rng_j :: u8
  rng_inited :: bool

definition rng_boot :: rng where
  "rng_boot = \<lparr>rng_s = replicate 256 0, rng_i = 0, rng_j = 0, rng_inited = False\<rparr>"

definition swap_byte :: "u8 list \<Rightarrow> nat \<Rightarrow> nat \<Rightarrow> u8 list" where
  "swap_byte s a b = (let t = s ! a; s' = s[a := s ! b] in s'[b := t])"

definition seed_byte :: "u32 \<Rightarrow> nat \<Rightarrow> u8" where
  "seed_byte seed k = ucast (drop_bit (8 * k) seed)"

definition indices :: "nat list" where
  "indices = [0..<256]"

definition byte_table :: "u8 list" where
  "byte_table = map word_of_nat indices"

definition key_step :: "u32 \<Rightarrow> nat \<Rightarrow> u8 \<times> u8 list \<Rightarrow> u8 \<times> u8 list" where
  "key_step seed i js =
     (case js of (j, s) \<Rightarrow>
        let j' = j + (s ! i + seed_byte seed (i mod 4))
        in (j', swap_byte s i (unat j')))"

definition random_init :: "u32 \<Rightarrow> rng \<Rightarrow> rng" where
  "random_init seed r =
     (let (j, s) = fold (key_step seed) indices (0, byte_table)
      in r\<lparr>rng_s := s, rng_i := 0, rng_j := 0, rng_inited := True\<rparr>)"

definition random_step :: "rng \<Rightarrow> u8 \<times> rng" where
  "random_step r =
     (let i = rng_i r + 1;
          j = rng_j r + rng_s r ! unat i;
          s = swap_byte (rng_s r) (unat i) (unat j);
          k = s ! unat i + s ! unat j
      in (s ! unat k, r\<lparr>rng_s := s, rng_i := i, rng_j := j\<rparr>))"

fun random_loop :: "nat \<Rightarrow> rng \<Rightarrow> u8 list \<times> rng" where
  "random_loop 0 r = ([], r)"
| "random_loop (Suc n) r =
     (let (b, r1) = random_step r; (bs, r2) = random_loop n r1 in (b # bs, r2))"

definition random_bytes :: "nat \<Rightarrow> rng \<Rightarrow> u8 list \<times> rng" where
  "random_bytes n r = random_loop n (if rng_inited r then r else random_init 0 r)"

definition random_ulong :: "rng \<Rightarrow> u32 \<times> rng" where
  "random_ulong r =
     (let (bs, r') = random_bytes 4 r
      in (push_bit 0 (ucast (bs ! 0)) + push_bit 8 (ucast (bs ! 1)) +
          push_bit 16 (ucast (bs ! 2)) + push_bit 24 (ucast (bs ! 3)), r'))"

section \<open>The table is a permutation of the bytes\<close>

definition rng_ok :: "rng \<Rightarrow> bool" where
  "rng_ok r \<longleftrightarrow> (rng_inited r \<longrightarrow> mset (rng_s r) = mset byte_table)"

lemma mset_swap_byte [simp]:
  "a < length s \<Longrightarrow> b < length s \<Longrightarrow> mset (swap_byte s a b) = mset s"
  by (simp add: swap_byte_def Let_def mset_swap)

lemma length_swap_byte [simp]: "length (swap_byte s a b) = length s"
  by (simp add: swap_byte_def Let_def)

lemma unat_u8_less [simp]: "unat (x :: u8) < 256"
  using unsigned_less [where 'a = nat and 'b = 8, of x] by simp

lemma length_indices [simp]: "length indices = 256"
  by (simp add: indices_def del: upt_rec_numeral)

lemma set_indices [simp]: "i \<in> set indices \<Longrightarrow> i < 256"
  by (simp add: indices_def del: upt_rec_numeral)

lemma length_byte_table [simp]: "length byte_table = 256"
  by (simp add: byte_table_def)

lemma rng_ok_length: "rng_ok r \<Longrightarrow> rng_inited r \<Longrightarrow> length (rng_s r) = 256"
  unfolding rng_ok_def by (metis length_byte_table size_mset)

lemma key_schedule_mset:
  "\<forall>i\<in>set is. i < 256 \<Longrightarrow> length s = 256 \<Longrightarrow>
   mset (snd (fold (key_step seed) is (j, s))) = mset s"
  by (induction "is" arbitrary: j s) (simp_all add: key_step_def Let_def)

lemma random_init_ok [simp]: "rng_ok (random_init seed r)" "rng_inited (random_init seed r)"
proof -
  have "mset (snd (fold (key_step seed) indices (0, byte_table))) = mset byte_table"
    by (rule key_schedule_mset) auto
  then show "rng_ok (random_init seed r)"
    by (simp add: rng_ok_def random_init_def case_prod_unfold)
  show "rng_inited (random_init seed r)"
    by (simp add: random_init_def case_prod_unfold)
qed

lemma random_step_swaps:
  "\<exists>(a :: u8) (b :: u8). rng_s (snd (random_step r)) = swap_byte (rng_s r) (unat a) (unat b)"
  by (simp add: random_step_def Let_def) (rule exI, rule exI, rule refl)

lemma random_step_inited [simp]: "rng_inited (snd (random_step r)) = rng_inited r"
  by (simp add: random_step_def Let_def)

lemma random_step_ok:
  assumes "rng_ok r" "rng_inited r" "random_step r = (b, r')"
  shows "rng_ok r'" "rng_inited r'"
proof -
  have r': "r' = snd (random_step r)" using assms(3) by simp
  obtain i j :: u8 where "rng_s r' = swap_byte (rng_s r) (unat i) (unat j)"
    unfolding r' using random_step_swaps by blast
  then have "mset (rng_s r') = mset (rng_s r)"
    using rng_ok_length [OF assms(1,2)] by simp
  then show "rng_ok r'" using assms(1,2) by (simp add: rng_ok_def)
  show "rng_inited r'" using assms(2) by (simp add: r')
qed

lemma random_loop_ok:
  "rng_ok r \<Longrightarrow> rng_inited r \<Longrightarrow> random_loop n r = (bs, r') \<Longrightarrow>
   rng_ok r' \<and> rng_inited r' \<and> length bs = n"
proof (induction n arbitrary: r bs r')
  case (Suc n)
  obtain b r1 where 1: "random_step r = (b, r1)" by (metis surj_pair)
  obtain cs r2 where 2: "random_loop n r1 = (cs, r2)" by (metis surj_pair)
  have "bs = b # cs" "r' = r2" using Suc.prems(3) by (simp_all add: 1 2)
  moreover have "rng_ok r2 \<and> rng_inited r2 \<and> length cs = n"
    by (rule Suc.IH [OF random_step_ok [OF Suc.prems(1,2) 1] 2])
  ultimately show ?case by simp
qed simp

lemma random_loop_add:
  "random_loop (m + n) r =
     (let (xs, r1) = random_loop m r; (ys, r2) = random_loop n r1 in (xs @ ys, r2))"
  by (induction m arbitrary: r) (auto simp: Let_def split: prod.splits)

text \<open>
  \<open>random_bytes\<close> keeps the RC4 table a permutation of the 256 byte values (initialising it
  with seed 0 if nobody did), produces exactly the requested number of bytes, and is a stream:
  asking for \<open>m + n\<close> bytes gives the bytes of a call for \<open>m\<close> followed by those of a call for
  \<open>n\<close>, and leaves the same state.
\<close>

lemma random_bytes_stream:
  assumes "rng_ok r" "random_bytes m r = (xs, r1)" "random_bytes n r1 = (ys, r2)"
  shows "random_bytes (m + n) r = (xs @ ys, r2) \<and> length xs = m \<and> length ys = n \<and>
    mset (rng_s r1) = mset byte_table \<and> rng_ok r2"
proof -
  let ?r = "if rng_inited r then r else random_init 0 r"
  have r: "rng_ok ?r" "rng_inited ?r" using assms(1) by simp_all
  have 1: "random_loop m ?r = (xs, r1)" using assms(2) by (simp add: random_bytes_def)
  have ok1: "rng_ok r1" "rng_inited r1" "length xs = m" using random_loop_ok [OF r 1] by auto
  have 2: "random_loop n r1 = (ys, r2)" using assms(3) ok1 by (simp add: random_bytes_def)
  have "random_loop (m + n) ?r = (xs @ ys, r2)" by (simp add: random_loop_add 1 2)
  moreover have "rng_ok r2 \<and> rng_inited r2 \<and> length ys = n" by (rule random_loop_ok [OF ok1(1,2) 2])
  ultimately show ?thesis using ok1 by (simp add: random_bytes_def rng_ok_def)
qed

lemma random_bytes_stream_example:
  "\<exists>xs ys r1 r2. random_bytes 2 rng_boot = (xs, r1) \<and> random_bytes (2 + 3) rng_boot = (xs @ ys, r2) \<and> length xs = 2 \<and> length ys = 3 \<and>
     mset (rng_s r1) = mset byte_table"
proof -
  obtain xs r1 where 1: "random_bytes 2 rng_boot = (xs, r1)" by (metis surj_pair)
  obtain ys r2 where 2: "random_bytes 3 r1 = (ys, r2)" by (metis surj_pair)
  have "rng_ok rng_boot" by (simp add: rng_ok_def rng_boot_def)
  from random_bytes_stream [OF this 1 2] show ?thesis
    by (intro exI [of _ xs] exI [of _ ys] exI [of _ r1] exI [of _ r2]) (simp add: 1)
qed

end
