(* ===== verification/Bitmap.thy ===== *)
theory Bitmap
  imports Prelude
begin

text \<open>
  The bitmaps of \<open>lib/kernel/bitmap.c\<close>. A bitmap is its number of bits and the array of 32-bit
  elements (\<open>elem_type\<close> is \<open>unsigned long\<close>, 32 bits on the target). \<open>size_t\<close> values are
  \<open>nat\<close>; where the code adds two of them the sum wraps (\<open>wrap32\<close>). An access outside the
  array is undefined behaviour, \<open>None\<close>, as a failed assertion is. The first group of lemmas is the
  refinement to a list of booleans (\<open>bm_abs\<close>); the second group is the contract of the range
  allocator that \<open>bitmap_scan_and_flip\<close> and \<open>bitmap_set_multiple\<close> implement, as a locale, which
  the page allocator and the free map of the file system rest on.
\<close>

section \<open>The code\<close>

record bitmap =
  bit_cnt :: nat
  bits :: "u32 list"

definition ELEM_BITS :: nat where "ELEM_BITS = 32"

definition BITMAP_ERROR :: nat where "BITMAP_ERROR = 4294967295"

definition elem_idx :: "nat \<Rightarrow> nat" where
  "elem_idx bit_idx = bit_idx div ELEM_BITS"

definition bit_mask :: "nat \<Rightarrow> u32" where
  "bit_mask bit_idx = push_bit (bit_idx mod ELEM_BITS) 1"

definition div_round_up :: "nat \<Rightarrow> nat \<Rightarrow> nat" where
  "div_round_up x step = wrap32 (x + step - 1) div step"

definition elem_cnt :: "nat \<Rightarrow> nat" where
  "elem_cnt cnt = div_round_up cnt ELEM_BITS"

definition byte_cnt :: "nat \<Rightarrow> nat" where
  "byte_cnt cnt = wrap32 (4 * elem_cnt cnt)"

definition last_mask :: "bitmap \<Rightarrow> u32" where
  "last_mask b =
     (let last_bits = bit_cnt b mod ELEM_BITS
      in if last_bits \<noteq> 0 then push_bit last_bits 1 - 1 else - 1)"

definition bitmap_size :: "bitmap \<Rightarrow> nat" where
  "bitmap_size b = bit_cnt b"

definition elem_load :: "bitmap \<Rightarrow> nat \<Rightarrow> u32 option" where
  "elem_load b idx = (if idx < length (bits b) then Some (bits b ! idx) else None)"

definition elem_store :: "bitmap \<Rightarrow> nat \<Rightarrow> u32 \<Rightarrow> bitmap option" where
  "elem_store b idx w = (if idx < length (bits b) then Some (b\<lparr>bits := (bits b)[idx := w]\<rparr>) else None)"

definition bitmap_mark :: "bitmap \<Rightarrow> nat \<Rightarrow> bitmap option" where
  "bitmap_mark b bit_idx = do {
     let idx = elem_idx bit_idx;
     let mask = bit_mask bit_idx;
     w \<leftarrow> elem_load b idx;
     elem_store b idx (w OR mask)
   }"

definition bitmap_reset :: "bitmap \<Rightarrow> nat \<Rightarrow> bitmap option" where
  "bitmap_reset b bit_idx = do {
     let idx = elem_idx bit_idx;
     let mask = bit_mask bit_idx;
     w \<leftarrow> elem_load b idx;
     elem_store b idx (w AND NOT mask)
   }"

definition bitmap_flip :: "bitmap \<Rightarrow> nat \<Rightarrow> bitmap option" where
  "bitmap_flip b bit_idx = do {
     let idx = elem_idx bit_idx;
     let mask = bit_mask bit_idx;
     w \<leftarrow> elem_load b idx;
     elem_store b idx (w XOR mask)
   }"

definition bitmap_set :: "bitmap \<Rightarrow> nat \<Rightarrow> bool \<Rightarrow> bitmap option" where
  "bitmap_set b idx value = do {
     kassert (idx < bit_cnt b);
     (if value then bitmap_mark b idx else bitmap_reset b idx)
   }"

definition bitmap_test :: "bitmap \<Rightarrow> nat \<Rightarrow> bool option" where
  "bitmap_test b idx = do {
     kassert (idx < bit_cnt b);
     w \<leftarrow> elem_load b (elem_idx idx);
     Some (w AND bit_mask idx \<noteq> 0)
   }"

fun set_loop :: "bitmap \<Rightarrow> nat \<Rightarrow> nat \<Rightarrow> nat \<Rightarrow> bool \<Rightarrow> bitmap option" where
  "set_loop b start i 0 value = Some b"
| "set_loop b start i (Suc n) value =
     (case bitmap_set b (wrap32 (start + i)) value of
        None \<Rightarrow> None
      | Some b' \<Rightarrow> set_loop b' start (Suc i) n value)"

definition bitmap_set_multiple :: "bitmap \<Rightarrow> nat \<Rightarrow> nat \<Rightarrow> bool \<Rightarrow> bitmap option" where
  "bitmap_set_multiple b start cnt value = do {
     kassert (start \<le> bit_cnt b);
     kassert (wrap32 (start + cnt) \<le> bit_cnt b);
     set_loop b start 0 cnt value
   }"

definition bitmap_set_all :: "bitmap \<Rightarrow> bool \<Rightarrow> bitmap option" where
  "bitmap_set_all b value = bitmap_set_multiple b 0 (bitmap_size b) value"

fun count_loop :: "bitmap \<Rightarrow> nat \<Rightarrow> nat \<Rightarrow> nat \<Rightarrow> bool \<Rightarrow> nat \<Rightarrow> nat option" where
  "count_loop b start i 0 value value_cnt = Some value_cnt"
| "count_loop b start i (Suc n) value value_cnt =
     (case bitmap_test b (wrap32 (start + i)) of
        None \<Rightarrow> None
      | Some t \<Rightarrow> count_loop b start (Suc i) n value (if t = value then value_cnt + 1 else value_cnt))"

definition bitmap_count :: "bitmap \<Rightarrow> nat \<Rightarrow> nat \<Rightarrow> bool \<Rightarrow> nat option" where
  "bitmap_count b start cnt value = do {
     kassert (start \<le> bit_cnt b);
     kassert (wrap32 (start + cnt) \<le> bit_cnt b);
     count_loop b start 0 cnt value 0
   }"

fun contains_loop :: "bitmap \<Rightarrow> nat \<Rightarrow> nat \<Rightarrow> nat \<Rightarrow> bool \<Rightarrow> bool option" where
  "contains_loop b start i 0 value = Some False"
| "contains_loop b start i (Suc n) value =
     (case bitmap_test b (wrap32 (start + i)) of
        None \<Rightarrow> None
      | Some t \<Rightarrow> if t = value then Some True else contains_loop b start (Suc i) n value)"

definition bitmap_contains :: "bitmap \<Rightarrow> nat \<Rightarrow> nat \<Rightarrow> bool \<Rightarrow> bool option" where
  "bitmap_contains b start cnt value = do {
     kassert (start \<le> bit_cnt b);
     kassert (wrap32 (start + cnt) \<le> bit_cnt b);
     contains_loop b start 0 cnt value
   }"

definition bitmap_any :: "bitmap \<Rightarrow> nat \<Rightarrow> nat \<Rightarrow> bool option" where
  "bitmap_any b start cnt = bitmap_contains b start cnt True"

definition bitmap_none :: "bitmap \<Rightarrow> nat \<Rightarrow> nat \<Rightarrow> bool option" where
  "bitmap_none b start cnt = map_option Not (bitmap_contains b start cnt True)"

definition bitmap_all :: "bitmap \<Rightarrow> nat \<Rightarrow> nat \<Rightarrow> bool option" where
  "bitmap_all b start cnt = map_option Not (bitmap_contains b start cnt False)"

function scan_loop :: "bitmap \<Rightarrow> nat \<Rightarrow> nat \<Rightarrow> nat \<Rightarrow> bool \<Rightarrow> nat option" where
  "scan_loop b i lst cnt value =
     (if i \<le> lst then
        (case bitmap_contains b i cnt (\<not> value) of
           None \<Rightarrow> None
         | Some c \<Rightarrow> if \<not> c then Some i else scan_loop b (Suc i) lst cnt value)
      else Some BITMAP_ERROR)"
  by pat_completeness auto
termination
  by (relation "measure (\<lambda>(b, i, lst, cnt, value). Suc lst - i)") auto

declare scan_loop.simps [simp del]

definition bitmap_scan :: "bitmap \<Rightarrow> nat \<Rightarrow> nat \<Rightarrow> bool \<Rightarrow> nat option" where
  "bitmap_scan b start cnt value = do {
     kassert (start \<le> bit_cnt b);
     (if cnt \<le> bit_cnt b then scan_loop b start (bit_cnt b - cnt) cnt value
      else Some BITMAP_ERROR)
   }"

definition bitmap_scan_and_flip :: "bitmap \<Rightarrow> nat \<Rightarrow> nat \<Rightarrow> bool \<Rightarrow> (nat \<times> bitmap) option" where
  "bitmap_scan_and_flip b start cnt value = do {
     idx \<leftarrow> bitmap_scan b start cnt value;
     b' \<leftarrow> (if idx \<noteq> BITMAP_ERROR then bitmap_set_multiple b idx cnt (\<not> value) else Some b);
     Some (idx, b')
   }"

text \<open>
  Creation. \<open>bitmap_create\<close> calls \<open>malloc\<close> twice: \<open>hdr\<close> says whether the first call returns
  memory and \<open>mem\<close> is what the second one returns, \<open>None\<close> for a null pointer and otherwise the
  (arbitrary) contents of the block. The result of the inner option is the pointer returned.
\<close>

definition bitmap_create :: "bool \<Rightarrow> u32 list option \<Rightarrow> nat \<Rightarrow> bitmap option option" where
  "bitmap_create hdr mem cnt =
     (if hdr then
        (if mem \<noteq> None \<or> cnt = 0 then
           map_option Some (bitmap_set_all \<lparr>bit_cnt = cnt, bits = (case mem of None \<Rightarrow> [] | Some m \<Rightarrow> m)\<rparr> False)
         else Some None)
      else Some None)"

definition bitmap_buf_size :: "nat \<Rightarrow> nat" where
  "bitmap_buf_size cnt = 8 + byte_cnt cnt"

definition bitmap_create_in_buf :: "nat \<Rightarrow> u32 list \<Rightarrow> nat \<Rightarrow> bitmap option" where
  "bitmap_create_in_buf cnt block block_size = do {
     kassert (block_size \<ge> bitmap_buf_size cnt);
     bitmap_set_all \<lparr>bit_cnt = cnt, bits = take (elem_cnt cnt) (drop 2 block)\<rparr> False
   }"

section \<open>A bitmap is a list of booleans\<close>

definition bm_abs :: "bitmap \<Rightarrow> bool list" where
  "bm_abs b = map (\<lambda>i. bit (bits b ! (i div 32)) (i mod 32)) [0..<bit_cnt b]"

definition bm_wf :: "bitmap \<Rightarrow> bool" where
  "bm_wf b \<longleftrightarrow> bit_cnt b \<le> 4294967264 \<and> length (bits b) = (bit_cnt b + 31) div 32"

lemma elem_cnt_small [simp]: "n \<le> 4294967264 \<Longrightarrow> elem_cnt n = (n + 31) div 32"
  by (simp add: elem_cnt_def div_round_up_def ELEM_BITS_def)

lemma bm_wf_idx: "bm_wf b \<Longrightarrow> i < bit_cnt b \<Longrightarrow> i div 32 < length (bits b)"
  by (simp add: bm_wf_def)

lemma length_bm_abs [simp]: "length (bm_abs b) = bit_cnt b"
  by (simp add: bm_abs_def)

lemma nth_bm_abs: "i < bit_cnt b \<Longrightarrow> bm_abs b ! i = bit (bits b ! (i div 32)) (i mod 32)"
  by (simp add: bm_abs_def)

lemma same_bit: "i div 32 = j div 32 \<Longrightarrow> i mod 32 = j mod 32 \<Longrightarrow> i = (j::nat)"
  by (metis div_mult_mod_eq)

lemma bm_abs_update:
  assumes "i < bit_cnt b" "bm_wf b"
    and "\<And>k. k < 32 \<Longrightarrow> bit w k = (if k = i mod 32 then v else bit (bits b ! (i div 32)) k)"
  shows "bm_abs (b\<lparr>bits := (bits b)[i div 32 := w]\<rparr>) = (bm_abs b)[i := v]"
proof (rule nth_equalityI)
  fix j assume "j < length (bm_abs (b\<lparr>bits := (bits b)[i div 32 := w]\<rparr>))"
  then have j: "j < bit_cnt b" by simp
  then show "bm_abs (b\<lparr>bits := (bits b)[i div 32 := w]\<rparr>) ! j = (bm_abs b)[i := v] ! j"
    using assms(1) assms(3) [of "j mod 32"] bm_wf_idx [OF assms(2,1)] same_bit [of i j]
    by (cases "i = j") (auto simp: nth_bm_abs nth_list_update)
qed simp

lemmas bit_op_defs = elem_idx_def bit_mask_def ELEM_BITS_def elem_load_def elem_store_def

lemma bit_set_ops:
  fixes w :: u32
  assumes "n < 32" "k < 32"
  shows "bit (w OR 2 ^ n) k = (if k = n then True else bit w k)"
    and "bit (w AND NOT (2 ^ n)) k = (if k = n then False else bit w k)"
    and "bit (w XOR 2 ^ n) k = (if k = n then \<not> bit w n else bit w k)"
  using assms by (auto simp: bit_simps)

lemma bitmap_mark_abs:
  assumes "bm_wf b" "i < bit_cnt b"
  shows "\<exists>b'. bitmap_mark b i = Some b' \<and> bm_wf b' \<and> bit_cnt b' = bit_cnt b \<and>
    bm_abs b' = (bm_abs b)[i := True]"
  using bm_abs_update [OF assms(2,1), of "bits b ! (i div 32) OR 2 ^ (i mod 32)" True]
    bm_wf_idx [OF assms] assms(1)
  by (simp add: bitmap_mark_def bit_op_defs Let_def bit_set_ops bm_wf_def)

lemma bitmap_reset_abs:
  assumes "bm_wf b" "i < bit_cnt b"
  shows "\<exists>b'. bitmap_reset b i = Some b' \<and> bm_wf b' \<and> bit_cnt b' = bit_cnt b \<and>
    bm_abs b' = (bm_abs b)[i := False]"
  using bm_abs_update [OF assms(2,1), of "bits b ! (i div 32) AND NOT (2 ^ (i mod 32))" False]
    bm_wf_idx [OF assms] assms(1)
  by (simp add: bitmap_reset_def bit_op_defs Let_def bit_set_ops bm_wf_def)

lemma bitmap_flip_abs:
  assumes "bm_wf b" "i < bit_cnt b"
  shows "\<exists>b'. bitmap_flip b i = Some b' \<and> bm_wf b' \<and> bit_cnt b' = bit_cnt b \<and>
    bm_abs b' = (bm_abs b)[i := \<not> bm_abs b ! i]"
  using bm_abs_update [OF assms(2,1), of "bits b ! (i div 32) XOR 2 ^ (i mod 32)" "\<not> bm_abs b ! i"]
    bm_wf_idx [OF assms] assms
  by (simp add: bitmap_flip_def bit_op_defs Let_def bit_set_ops bm_wf_def nth_bm_abs)

lemma bitmap_test_abs:
  assumes "bm_wf b"
  shows "bitmap_test b i = (if i < bit_cnt b then Some (bm_abs b ! i) else None)"
  using bm_wf_idx [OF assms]
  by (auto simp: bitmap_test_def bit_op_defs nth_bm_abs bit_iff_and_push_bit_not_eq_0)

lemma bitmap_set_abs:
  assumes "bm_wf b"
  shows "if i < bit_cnt b
    then \<exists>b'. bitmap_set b i v = Some b' \<and> bm_wf b' \<and> bit_cnt b' = bit_cnt b \<and> bm_abs b' = (bm_abs b)[i := v]
    else bitmap_set b i v = None"
  using bitmap_mark_abs [OF assms] bitmap_reset_abs [OF assms] by (simp add: bitmap_set_def)

section \<open>Loops over a range\<close>

definition fill :: "'a list \<Rightarrow> nat \<Rightarrow> nat \<Rightarrow> 'a \<Rightarrow> 'a list" where
  "fill xs a n v = take a xs @ replicate n v @ drop (a + n) xs"

definition run :: "bool list \<Rightarrow> nat \<Rightarrow> nat \<Rightarrow> bool \<Rightarrow> bool" where
  "run xs a n v \<longleftrightarrow> a + n \<le> length xs \<and> (\<forall>j. a \<le> j \<and> j < a + n \<longrightarrow> xs ! j = v)"

lemma length_fill [simp]: "a + n \<le> length xs \<Longrightarrow> length (fill xs a n v) = length xs"
  by (simp add: fill_def)

lemma nth_fill:
  "a + n \<le> length xs \<Longrightarrow> j < length xs \<Longrightarrow>
   fill xs a n v ! j = (if a \<le> j \<and> j < a + n then v else xs ! j)"
  by (auto simp: fill_def nth_append)

lemma fill_0 [simp]: "a \<le> length xs \<Longrightarrow> fill xs a 0 v = xs"
  by (simp add: fill_def)

lemma fill_Suc:
  "a + Suc n \<le> length xs \<Longrightarrow> fill (xs[a := v]) (Suc a) n v = fill xs a (Suc n) v"
  by (rule nth_equalityI) (auto simp: nth_fill nth_list_update)

lemma run_Suc: "run xs a (Suc n) v \<longleftrightarrow> a < length xs \<and> xs ! a = v \<and> run xs (Suc a) n v"
proof -
  have "(\<forall>j. a \<le> j \<and> j < a + Suc n \<longrightarrow> xs ! j = v) \<longleftrightarrow>
      xs ! a = v \<and> (\<forall>j. Suc a \<le> j \<and> j < Suc a + n \<longrightarrow> xs ! j = v)"
    (is "?L = ?R")
  proof
    assume ?R
    show ?L
    proof (intro allI impI)
      fix j assume "a \<le> j \<and> j < a + Suc n"
      with \<open>?R\<close> show "xs ! j = v" by (cases "j = a") auto
    qed
  qed auto
  then show ?thesis unfolding run_def by auto
qed

lemma set_loop_abs:
  "bm_wf b \<Longrightarrow> start + i + n \<le> bit_cnt b \<Longrightarrow>
   \<exists>b'. set_loop b start i n v = Some b' \<and> bm_wf b' \<and> bit_cnt b' = bit_cnt b \<and>
     bm_abs b' = fill (bm_abs b) (start + i) n v"
proof (induction n arbitrary: b i)
  case (Suc n)
  have "start + i < bit_cnt b" using Suc.prems by simp
  then obtain b1 where b1: "bitmap_set b (start + i) v = Some b1" "bm_wf b1" "bit_cnt b1 = bit_cnt b"
      "bm_abs b1 = (bm_abs b)[start + i := v]"
    using bitmap_set_abs [OF Suc.prems(1), of "start + i" v] by auto
  obtain b' where b': "set_loop b1 start (Suc i) n v = Some b'" "bm_wf b'" "bit_cnt b' = bit_cnt b1"
      "bm_abs b' = fill (bm_abs b1) (start + Suc i) n v"
    using Suc.IH [OF b1(2), of "Suc i"] Suc.prems b1(3) by auto
  have "wrap32 (start + i) = start + i" using Suc.prems by (simp add: bm_wf_def)
  then show ?case using b1 b' Suc.prems by (simp add: fill_Suc)
qed simp

lemma bitmap_set_multiple_abs:
  assumes "bm_wf b" "start + cnt \<le> bit_cnt b"
  shows "\<exists>b'. bitmap_set_multiple b start cnt v = Some b' \<and> bm_wf b' \<and> bit_cnt b' = bit_cnt b \<and>
     bm_abs b' = fill (bm_abs b) start cnt v"
  using set_loop_abs [OF assms(1), of start 0 cnt v] assms
  by (simp add: bitmap_set_multiple_def bm_wf_def)

lemma count_loop_abs:
  "bm_wf b \<Longrightarrow> start + i + n \<le> bit_cnt b \<Longrightarrow>
   count_loop b start i n v acc =
     Some (acc + length (filter ((=) v) (take n (drop (start + i) (bm_abs b)))))"
proof (induction n arbitrary: i acc)
  case (Suc n)
  have "wrap32 (start + i) = start + i" using Suc.prems by (simp add: bm_wf_def)
  moreover have "drop (start + i) (bm_abs b) = bm_abs b ! (start + i) # drop (start + Suc i) (bm_abs b)"
    using Suc.prems by (simp add: Cons_nth_drop_Suc)
  ultimately show ?case
    using Suc.prems Suc.IH by (simp add: bitmap_test_abs)
qed simp

lemma contains_loop_abs:
  "bm_wf b \<Longrightarrow> start + i + n \<le> bit_cnt b \<Longrightarrow>
   contains_loop b start i n v = Some (\<not> run (bm_abs b) (start + i) n (\<not> v))"
proof (induction n arbitrary: i)
  case (Suc n)
  have w: "wrap32 (start + i) = start + i" using Suc.prems by (simp add: bm_wf_def)
  have IH: "contains_loop b start (Suc i) n v = Some (\<not> run (bm_abs b) (Suc (start + i)) n (\<not> v))"
    using Suc.IH [of "Suc i"] Suc.prems by simp
  have "run (bm_abs b) (start + i) (Suc n) (\<not> v) \<longleftrightarrow>
      bm_abs b ! (start + i) = (\<not> v) \<and> run (bm_abs b) (Suc (start + i)) n (\<not> v)"
    using Suc.prems by (simp add: run_Suc)
  with w IH Suc.prems show ?case by (auto simp: bitmap_test_abs)
qed (simp add: run_def)

lemma bitmap_contains_abs:
  assumes "bm_wf b" "start + cnt \<le> bit_cnt b"
  shows "bitmap_contains b start cnt v = Some (\<not> run (bm_abs b) start cnt (\<not> v))"
  using contains_loop_abs [OF assms(1), of start 0 cnt v] assms
  by (simp add: bitmap_contains_def bm_wf_def)

lemma scan_loop_abs:
  assumes "bm_wf b" "cnt \<le> bit_cnt b"
  shows "scan_loop b i (bit_cnt b - cnt) cnt v =
    Some (if \<exists>k\<ge>i. run (bm_abs b) k cnt v then LEAST k. i \<le> k \<and> run (bm_abs b) k cnt v else BITMAP_ERROR)"
proof (induction "Suc (bit_cnt b - cnt) - i" arbitrary: i rule: less_induct)
  case less
  show ?case
  proof (cases "i \<le> bit_cnt b - cnt")
    case False
    then have "(\<exists>k\<ge>i. run (bm_abs b) k cnt v) = False" using assms(2) by (auto simp: run_def)
    with False show ?thesis by (simp only: scan_loop.simps [of b i] if_False)
  next
    case True
    then have c: "bitmap_contains b i cnt (\<not> v) = Some (\<not> run (bm_abs b) i cnt v)"
      using bitmap_contains_abs [OF assms(1), of i cnt "\<not> v"] assms(2) by simp
    show ?thesis
    proof (cases "run (bm_abs b) i cnt v")
      case run: True
      then have "(LEAST k. i \<le> k \<and> run (bm_abs b) k cnt v) = i" by (intro Least_equality) auto
      moreover have "\<exists>k\<ge>i. run (bm_abs b) k cnt v" using run by blast
      moreover have "scan_loop b i (bit_cnt b - cnt) cnt v = Some i"
        using True c run by (subst scan_loop.simps) simp
      ultimately show ?thesis by (simp only: if_True)
    next
      case no: False
      have eq: "(i \<le> k \<and> run (bm_abs b) k cnt v) \<longleftrightarrow> (Suc i \<le> k \<and> run (bm_abs b) k cnt v)" for k
        using no by (cases "k = i") auto
      have "scan_loop b i (bit_cnt b - cnt) cnt v = scan_loop b (Suc i) (bit_cnt b - cnt) cnt v"
        using True c no by (subst scan_loop.simps) simp
      also have "\<dots> = Some (if \<exists>k\<ge>Suc i. run (bm_abs b) k cnt v
          then LEAST k. Suc i \<le> k \<and> run (bm_abs b) k cnt v else BITMAP_ERROR)"
        using True by (intro less) simp
      finally show ?thesis by (simp only: eq [symmetric])
    qed
  qed
qed

lemma bitmap_scan_abs:
  assumes "bm_wf b" "start \<le> bit_cnt b"
  shows "bitmap_scan b start cnt v =
    Some (if \<exists>k\<ge>start. run (bm_abs b) k cnt v then LEAST k. start \<le> k \<and> run (bm_abs b) k cnt v
          else BITMAP_ERROR)"
proof (cases "cnt \<le> bit_cnt b")
  case True
  then show ?thesis using scan_loop_abs [OF assms(1) True] assms(2) by (simp add: bitmap_scan_def)
next
  case False
  then have "\<not> run (bm_abs b) k cnt v" for k by (simp add: run_def)
  with False assms show ?thesis by (simp add: bitmap_scan_def)
qed

lemma bitmap_count_abs:
  assumes "bm_wf b" "start + cnt \<le> bit_cnt b"
  shows "bitmap_count b start cnt v =
    Some (length (filter ((=) v) (take cnt (drop start (bm_abs b)))))"
  using count_loop_abs [OF assms(1), of start 0 cnt v 0] assms
  by (simp add: bitmap_count_def bm_wf_def)

lemma bitmap_scan_and_flip_abs:
  assumes "bm_wf b" "start \<le> bit_cnt b"
  shows "(\<exists>k b'. bitmap_scan_and_flip b start cnt v = Some (k, b') \<and> start \<le> k \<and>
       run (bm_abs b) k cnt v \<and> (\<forall>j. start \<le> j \<and> run (bm_abs b) j cnt v \<longrightarrow> k \<le> j) \<and>
       bm_wf b' \<and> bit_cnt b' = bit_cnt b \<and> bm_abs b' = fill (bm_abs b) k cnt (\<not> v))
   \<or> (bitmap_scan_and_flip b start cnt v = Some (BITMAP_ERROR, b) \<and>
       (\<forall>k\<ge>start. \<not> run (bm_abs b) k cnt v))"
proof (cases "\<exists>k\<ge>start. run (bm_abs b) k cnt v")
  case True
  define k where "k = (LEAST k. start \<le> k \<and> run (bm_abs b) k cnt v)"
  have k: "start \<le> k" "run (bm_abs b) k cnt v"
    using True LeastI_ex [of "\<lambda>k. start \<le> k \<and> run (bm_abs b) k cnt v"] by (auto simp: k_def)
  have least: "k \<le> j" if "start \<le> j \<and> run (bm_abs b) j cnt v" for j
    using that unfolding k_def by (rule Least_le)
  have s: "bitmap_scan b start cnt v = Some k"
    using bitmap_scan_abs [OF assms, of cnt v] True by (simp add: k_def)
  have le: "k + cnt \<le> bit_cnt b" using k(2) by (simp add: run_def)
  then have ne: "k \<noteq> BITMAP_ERROR" using assms(1) by (simp add: BITMAP_ERROR_def bm_wf_def)
  obtain b' where "bitmap_set_multiple b k cnt (\<not> v) = Some b'" "bm_wf b'" "bit_cnt b' = bit_cnt b"
      "bm_abs b' = fill (bm_abs b) k cnt (\<not> v)"
    using bitmap_set_multiple_abs [OF assms(1) le] by blast
  with s ne k least show ?thesis by (simp add: bitmap_scan_and_flip_def)
next
  case False
  then have "bitmap_scan b start cnt v = Some BITMAP_ERROR"
    unfolding bitmap_scan_abs [OF assms, of cnt v] by (simp only: if_False)
  with False show ?thesis by (simp add: bitmap_scan_and_flip_def)
qed

section \<open>The contract of a range allocator\<close>

locale range_allocator =
  fixes inv :: "'a \<Rightarrow> bool"
    and cap :: "'a \<Rightarrow> nat"
    and used :: "'a \<Rightarrow> nat set"
    and alloc :: "'a \<Rightarrow> nat \<Rightarrow> (nat option \<times> 'a) option"
    and release :: "'a \<Rightarrow> nat \<Rightarrow> nat \<Rightarrow> 'a option"
  assumes used_bound: "inv a \<Longrightarrow> used a \<subseteq> {..<cap a}"
    and alloc_total: "inv a \<Longrightarrow> \<exists>r. alloc a n = Some r"
    and alloc_Some: "inv a \<Longrightarrow> alloc a n = Some (Some i, a') \<Longrightarrow>
      inv a' \<and> cap a' = cap a \<and> i + n \<le> cap a \<and> {i..<i + n} \<inter> used a = {} \<and>
      used a' = used a \<union> {i..<i + n}"
    and alloc_None: "inv a \<Longrightarrow> alloc a n = Some (None, a') \<Longrightarrow>
      a' = a \<and> (\<forall>i. i + n \<le> cap a \<longrightarrow> {i..<i + n} \<inter> used a \<noteq> {})"
    and release_ok: "inv a \<Longrightarrow> i + n \<le> cap a \<Longrightarrow>
      \<exists>a'. release a i n = Some a' \<and> inv a' \<and> cap a' = cap a \<and> used a' = used a - {i..<i + n}"
begin

lemma finite_used: "inv a \<Longrightarrow> finite (used a)"
  using used_bound finite_subset by blast

lemma alloc_card:
  assumes "inv a" "alloc a n = Some (Some i, a')"
  shows "card (used a') = card (used a) + n"
proof -
  have "used a' = used a \<union> {i..<i + n}" "{i..<i + n} \<inter> used a = {}"
    using alloc_Some [OF assms] by blast+
  then show ?thesis
    using card_Un_disjoint [OF finite_used [OF assms(1)], of "{i..<i + n}"] by (simp add: Int_commute)
qed

lemma alloc_disjoint:
  assumes "inv a" "alloc a n = Some (Some i, a1)" "alloc a1 m = Some (Some j, a2)"
  shows "{i..<i + n} \<inter> {j..<j + m} = {}"
  using alloc_Some [OF assms(1,2)] alloc_Some [OF _ assms(3)] by blast

lemma alloc_release:
  assumes "inv a" "alloc a n = Some (Some i, a1)"
  shows "\<exists>a2. release a1 i n = Some a2 \<and> inv a2 \<and> cap a2 = cap a \<and> used a2 = used a"
proof -
  note a = alloc_Some [OF assms]
  then obtain a2 where "release a1 i n = Some a2" "inv a2" "cap a2 = cap a" "used a2 = used a1 - {i..<i + n}"
    using release_ok [of a1 i n] by auto
  with a show ?thesis by blast
qed

lemma release_alloc:
  assumes "inv a" "i + n \<le> cap a" "release a i n = Some a1"
  shows "\<exists>j a2. alloc a1 n = Some (Some j, a2)"
proof -
  have a1: "inv a1" "cap a1 = cap a" "used a1 = used a - {i..<i + n}"
    using release_ok [OF assms(1,2)] assms(3) by auto
  then obtain r a2 where r: "alloc a1 n = Some (r, a2)" using alloc_total [of a1 n] by force
  show ?thesis
  proof (cases r)
    case None
    with r alloc_None [OF a1(1)] a1 assms(2) have "{i..<i + n} \<inter> used a1 \<noteq> {}" by auto
    with a1(3) show ?thesis by blast
  qed (use r in blast)
qed

lemma alloc_full: "inv a \<Longrightarrow> cap a < n \<Longrightarrow> alloc a n = Some (r, a') \<Longrightarrow> r = None"
  by (cases r) (auto dest: alloc_Some)

end

text \<open>
  The one-unit contract, which a range allocator gives with ranges of length 1. \<open>get_many\<close> is
  a client that asks for several units one after the other.
\<close>

fun get_many :: "('s \<Rightarrow> ('p option \<times> 's) option) \<Rightarrow> nat \<Rightarrow> 's \<Rightarrow> ('p list \<times> 's) option" where
  "get_many g 0 s = Some ([], s)"
| "get_many g (Suc n) s =
     (case g s of
        None \<Rightarrow> None
      | Some (None, s') \<Rightarrow> Some ([], s')
      | Some (Some p, s') \<Rightarrow> map_option (\<lambda>(ps, s''). (p # ps, s'')) (get_many g n s'))"

locale unit_allocator =
  fixes inv :: "'s \<Rightarrow> bool"
    and used :: "'s \<Rightarrow> 'p set"
    and get :: "'s \<Rightarrow> ('p option \<times> 's) option"
    and put :: "'s \<Rightarrow> 'p \<Rightarrow> 's option"
  assumes get_total: "inv s \<Longrightarrow> \<exists>r. get s = Some r"
    and get_Some: "inv s \<Longrightarrow> get s = Some (Some p, s') \<Longrightarrow>
      inv s' \<and> p \<notin> used s \<and> used s' = insert p (used s)"
    and get_None: "inv s \<Longrightarrow> get s = Some (None, s') \<Longrightarrow> s' = s"
    and put_ok: "inv s \<Longrightarrow> p \<in> used s \<Longrightarrow>
      \<exists>s'. put s p = Some s' \<and> inv s' \<and> used s' = used s - {p}"
begin

lemma get_put: "inv s \<Longrightarrow> get s = Some (Some p, s') \<Longrightarrow>
    \<exists>s''. put s' p = Some s'' \<and> inv s'' \<and> used s'' = used s"
  using get_Some [of s p s'] put_ok [of s' p] by (auto intro: exI)

lemma put_other: "inv s \<Longrightarrow> p \<in> used s \<Longrightarrow> q \<in> used s \<Longrightarrow> p \<noteq> q \<Longrightarrow> put s p = Some s' \<Longrightarrow>
    inv s' \<and> q \<in> used s'"
  using put_ok [of s p] by auto

lemma get_many_ok:
  "inv s \<Longrightarrow> \<exists>ps s'. get_many get n s = Some (ps, s') \<and> inv s' \<and> length ps \<le> n \<and> distinct ps \<and>
     set ps \<inter> used s = {} \<and> used s' = used s \<union> set ps"
proof (induction n arbitrary: s)
  case (Suc n)
  obtain r s1 where r: "get s = Some (r, s1)" using get_total [OF Suc.prems] by force
  show ?case
  proof (cases r)
    case None
    then show ?thesis using r get_None [OF Suc.prems] Suc.prems by auto
  next
    case (Some p)
    note p = get_Some [OF Suc.prems r [unfolded Some]]
    then obtain ps s' where "get_many get n s1 = Some (ps, s')" "inv s'" "length ps \<le> n" "distinct ps"
        "set ps \<inter> used s1 = {}" "used s' = used s1 \<union> set ps"
      using Suc.IH by blast
    with p r Some show ?thesis by auto
  qed
qed simp

end

sublocale range_allocator \<subseteq> units: unit_allocator inv used "\<lambda>a. alloc a 1" "\<lambda>a i. release a i 1"
proof (unfold_locales, goal_cases)
  case (1 s)
  then show ?case by (rule alloc_total)
next
  case (2 s p s')
  then show ?case using alloc_Some [of s 1 p s'] by auto
next
  case (3 s s')
  then show ?case using alloc_None [of s 1 s'] by blast
next
  case (4 s p)
  then have "p + 1 \<le> cap s" using used_bound [of s] by auto
  then show ?case using release_ok [of s p 1] 4 by auto
qed

text \<open>
  The allocator of the code: \<open>bitmap_scan_and_flip\<close> from bit 0 for a clear run, and
  \<open>bitmap_set_multiple\<close> to false. The free map and the page pools both use these two calls.
\<close>

definition bm_used :: "bitmap \<Rightarrow> nat set" where
  "bm_used b = {i. i < bit_cnt b \<and> bm_abs b ! i}"

definition bm_alloc :: "bitmap \<Rightarrow> nat \<Rightarrow> (nat option \<times> bitmap) option" where
  "bm_alloc b n = map_option (\<lambda>(i, b'). (if i = BITMAP_ERROR then None else Some i, b'))
     (bitmap_scan_and_flip b 0 n False)"

definition bm_release :: "bitmap \<Rightarrow> nat \<Rightarrow> nat \<Rightarrow> bitmap option" where
  "bm_release b i n = bitmap_set_multiple b i n False"

lemma run_False_used: "run (bm_abs b) k n False \<longleftrightarrow> k + n \<le> bit_cnt b \<and> {k..<k + n} \<inter> bm_used b = {}"
  by (auto simp: run_def bm_used_def)

lemma bm_used_fill:
  assumes "bm_abs b' = fill (bm_abs b) k n v" "bit_cnt b' = bit_cnt b" "k + n \<le> bit_cnt b"
  shows "bm_used b' = (if v then bm_used b \<union> {k..<k + n} else bm_used b - {k..<k + n})"
  using assms by (auto simp: bm_used_def nth_fill split: if_splits)

lemma bm_alloc_cases:
  assumes "bm_wf b"
  shows "(\<exists>k b'. bm_alloc b n = Some (Some k, b') \<and> bm_wf b' \<and> bit_cnt b' = bit_cnt b \<and>
       k + n \<le> bit_cnt b \<and> {k..<k + n} \<inter> bm_used b = {} \<and> bm_used b' = bm_used b \<union> {k..<k + n})
   \<or> (bm_alloc b n = Some (None, b) \<and> (\<forall>k. k + n \<le> bit_cnt b \<longrightarrow> {k..<k + n} \<inter> bm_used b \<noteq> {}))"
  using bitmap_scan_and_flip_abs [OF assms le0, of n False]
proof (elim disjE exE conjE)
  fix k b'
  assume k: "bitmap_scan_and_flip b 0 n False = Some (k, b')" "run (bm_abs b) k n False"
    "bm_wf b'" "bit_cnt b' = bit_cnt b" "bm_abs b' = fill (bm_abs b) k n (\<not> False)"
  then have r: "k + n \<le> bit_cnt b" "{k..<k + n} \<inter> bm_used b = {}" by (simp_all add: run_False_used)
  moreover have "k \<noteq> BITMAP_ERROR" using r(1) assms by (simp add: BITMAP_ERROR_def bm_wf_def)
  moreover have "bm_used b' = bm_used b \<union> {k..<k + n}"
    using bm_used_fill [OF k(5,4) r(1)] by simp
  ultimately show ?thesis using k by (simp add: bm_alloc_def)
next
  assume "bitmap_scan_and_flip b 0 n False = Some (BITMAP_ERROR, b)"
    "\<forall>k\<ge>0. \<not> run (bm_abs b) k n False"
  then show ?thesis by (simp add: bm_alloc_def run_False_used)
qed

lemma bm_release_ok:
  assumes "bm_wf b" "k + n \<le> bit_cnt b"
  shows "\<exists>b'. bm_release b k n = Some b' \<and> bm_wf b' \<and> bit_cnt b' = bit_cnt b \<and>
    bm_used b' = bm_used b - {k..<k + n}"
  using bitmap_set_multiple_abs [OF assms, of False] bm_used_fill [of _ b k n False] assms(2)
  by (auto simp: bm_release_def)

interpretation bm: range_allocator bm_wf bit_cnt bm_used bm_alloc bm_release
proof (unfold_locales, goal_cases)
  case (1 a)
  then show ?case by (auto simp: bm_used_def)
next
  case (2 a n)
  then show ?case using bm_alloc_cases [of a n] by auto
next
  case (3 a n i a')
  then show ?case using bm_alloc_cases [of a n] by auto
next
  case (4 a n a')
  then show ?case using bm_alloc_cases [of a n] by auto
next
  case (5 a i n)
  then show ?case by (rule bm_release_ok)
qed

section \<open>Properties\<close>

text \<open>
  \<open>bitmap_scan_and_flip\<close> never fails for a start within the bitmap: it returns the
  first run of \<open>cnt\<close> bits equal to \<open>value\<close> at or after \<open>start\<close>, and flips exactly that run;
  if there is no such run it returns \<open>BITMAP_ERROR\<close> and leaves the bitmap as it is. (For
  \<open>cnt = 0\<close> this is \<open>start\<close>, where the comment of the code promises 0.)
\<close>

lemma bitmap_scan_and_flip_first:
  assumes "bm_wf b" "start \<le> bit_cnt b"
  shows "\<exists>k b'. bitmap_scan_and_flip b start cnt v = Some (k, b') \<and> bm_wf b' \<and> bit_cnt b' = bit_cnt b \<and>
    (if \<exists>j\<ge>start. run (bm_abs b) j cnt v
     then start \<le> k \<and> run (bm_abs b) k cnt v \<and> (\<forall>j. start \<le> j \<and> run (bm_abs b) j cnt v \<longrightarrow> k \<le> j) \<and>
       bm_abs b' = fill (bm_abs b) k cnt (\<not> v)
     else k = BITMAP_ERROR \<and> b' = b) \<and>
    (cnt = 0 \<longrightarrow> k = start)"
proof -
  have run0: "run (bm_abs b) start 0 v" using assms by (auto simp: run_def)
  from bitmap_scan_and_flip_abs [OF assms, of cnt v] show ?thesis
    using assms(1) run0 by (elim disjE exE conjE) (auto dest: le_antisym)
qed

lemma bitmap_scan_and_flip_first_example:
  "(\<exists>k b'. bitmap_scan_and_flip \<lparr>bit_cnt = 40, bits = [7, 0]\<rparr> 2 0 False = Some (k, b') \<and> k = 2)"
  using bitmap_scan_and_flip_first [of "\<lparr>bit_cnt = 40, bits = [7, 0]\<rparr>" 2 0 False]
  by (auto simp: bm_wf_def)

lemma bitmap_list_ops:
  assumes "bm_wf b"
  shows "(\<forall>i v. map_option bm_abs (bitmap_set b i v) =
           (if i < length (bm_abs b) then Some ((bm_abs b)[i := v]) else None)) \<and>
         (\<forall>i. bitmap_test b i = (if i < length (bm_abs b) then Some (bm_abs b ! i) else None)) \<and>
         (\<forall>i n v. i + n \<le> length (bm_abs b) \<longrightarrow>
           map_option bm_abs (bitmap_set_multiple b i n v) = Some (fill (bm_abs b) i n v)) \<and>
         (\<forall>i n v. i + n \<le> length (bm_abs b) \<longrightarrow>
           bitmap_count b i n v = Some (count_list (take n (drop i (bm_abs b))) v))"
proof (intro conjI allI impI)
  fix i v
  show "map_option bm_abs (bitmap_set b i v) =
           (if i < length (bm_abs b) then Some ((bm_abs b)[i := v]) else None)"
    using bitmap_set_abs [OF assms, of i v] by (auto split: if_splits)
  show "bitmap_test b i = (if i < length (bm_abs b) then Some (bm_abs b ! i) else None)"
    using bitmap_test_abs [OF assms] by simp
next
  fix i n v
  assume "i + n \<le> length (bm_abs b)"
  then have le: "i + n \<le> bit_cnt b" by simp
  show "map_option bm_abs (bitmap_set_multiple b i n v) = Some (fill (bm_abs b) i n v)"
    using bitmap_set_multiple_abs [OF assms le, of v] by auto
  have "count_list xs v = length (filter ((=) v) xs)" for xs :: "bool list"
    by (induction xs) auto
  then show "bitmap_count b i n v = Some (count_list (take n (drop i (bm_abs b))) v)"
    using bitmap_count_abs [OF assms le, of v] by simp
qed

text \<open>
  C27. The bitmap implements a list of booleans: on a well-formed bitmap a single-bit store,
  a range store, a test and a count are the list operations, and a single-bit store or test
  panics exactly when it is asked for a bit outside the bitmap. \<open>bitmap_scan_and_flip\<close> flips the
  first run of \<open>cnt\<close> equal bits at or after \<open>start\<close>, or reports that there is none and changes
  nothing; for \<open>cnt = 0\<close> it returns \<open>start\<close>.
\<close>

theorem bitmap_refines_list:
  assumes "bm_wf b"
  shows "(\<forall>i v. map_option bm_abs (bitmap_set b i v) =
           (if i < length (bm_abs b) then Some ((bm_abs b)[i := v]) else None)) \<and>
         (\<forall>i. bitmap_test b i = (if i < length (bm_abs b) then Some (bm_abs b ! i) else None)) \<and>
         (\<forall>i n v. i + n \<le> length (bm_abs b) \<longrightarrow>
           map_option bm_abs (bitmap_set_multiple b i n v) = Some (fill (bm_abs b) i n v)) \<and>
         (\<forall>i n v. i + n \<le> length (bm_abs b) \<longrightarrow>
           bitmap_count b i n v = Some (count_list (take n (drop i (bm_abs b))) v)) \<and>
         (\<forall>start cnt v. start \<le> bit_cnt b \<longrightarrow>
           (\<exists>k b'. bitmap_scan_and_flip b start cnt v = Some (k, b') \<and> bm_wf b' \<and> bit_cnt b' = bit_cnt b \<and>
             (if \<exists>j\<ge>start. run (bm_abs b) j cnt v
              then start \<le> k \<and> run (bm_abs b) k cnt v \<and> (\<forall>j. start \<le> j \<and> run (bm_abs b) j cnt v \<longrightarrow> k \<le> j) \<and>
                bm_abs b' = fill (bm_abs b) k cnt (\<not> v)
              else k = BITMAP_ERROR \<and> b' = b) \<and>
             (cnt = 0 \<longrightarrow> k = start)))"
proof -
  have s: "\<forall>start cnt v. start \<le> bit_cnt b \<longrightarrow>
      (\<exists>k b'. bitmap_scan_and_flip b start cnt v = Some (k, b') \<and> bm_wf b' \<and> bit_cnt b' = bit_cnt b \<and>
        (if \<exists>j\<ge>start. run (bm_abs b) j cnt v
         then start \<le> k \<and> run (bm_abs b) k cnt v \<and> (\<forall>j. start \<le> j \<and> run (bm_abs b) j cnt v \<longrightarrow> k \<le> j) \<and>
           bm_abs b' = fill (bm_abs b) k cnt (\<not> v)
         else k = BITMAP_ERROR \<and> b' = b) \<and>
        (cnt = 0 \<longrightarrow> k = start))"
    using bitmap_scan_and_flip_first [OF assms] by blast
  note l = bitmap_list_ops [OF assms]
  show ?thesis
    by (intro conjI) (rule l [THEN conjunct1] l [THEN conjunct2, THEN conjunct1] l [THEN conjunct2, THEN conjunct2, THEN conjunct1]
      l [THEN conjunct2, THEN conjunct2, THEN conjunct2] s)+
qed

theorem bitmap_refines_list_witness:
  "bm_wf \<lparr>bit_cnt = 40, bits = [7, 0]\<rparr> \<and>
   bitmap_test \<lparr>bit_cnt = 40, bits = [7, 0]\<rparr> 40 = None"
proof -
  have w: "bm_wf \<lparr>bit_cnt = 40, bits = [7, 0]\<rparr>" by (simp add: bm_wf_def)
  show ?thesis using bitmap_refines_list [OF w, THEN conjunct2, THEN conjunct1] w by simp
qed

text \<open>
  A bitmap used as an allocator (the page pools and the free map): two allocations
  without a release between them never overlap, an allocation fails only when no free run of
  the length exists, and releasing what was allocated gives back the same set of used bits.
\<close>

lemma bitmap_allocator:
  assumes "bm_wf b" "bm_alloc b n = Some (Some i, b1)"
  shows "(\<forall>m j b2. bm_alloc b1 m = Some (Some j, b2) \<longrightarrow> {i..<i + n} \<inter> {j..<j + m} = {}) \<and>
    (\<forall>m b2. bm_alloc b1 m = Some (None, b2) \<longrightarrow>
       (\<forall>j. j + m \<le> bit_cnt b \<longrightarrow> {j..<j + m} \<inter> (bm_used b \<union> {i..<i + n}) \<noteq> {})) \<and>
    (\<exists>b2. bm_release b1 i n = Some b2 \<and> bm_wf b2 \<and> bit_cnt b2 = bit_cnt b \<and> bm_used b2 = bm_used b)"
  using bm.alloc_disjoint [OF assms] bm.alloc_release [OF assms] bm.alloc_Some [OF assms]
    bm.alloc_None [of b1] by auto

lemma bitmap_allocator_example:
  "bm_release \<lparr>bit_cnt = 8, bits = [7]\<rparr> 1 2 \<noteq> None"
proof -
  have "bm_alloc \<lparr>bit_cnt = 8, bits = [1]\<rparr> 2 = Some (Some 1, \<lparr>bit_cnt = 8, bits = [7]\<rparr>)"
    by (simp add: bm_alloc_def bitmap_scan_and_flip_def bitmap_scan_def scan_loop.simps
        bitmap_contains_def numeral_2_eq_2 bitmap_test_def bit_op_defs bitmap_set_multiple_def
        bitmap_set_def bitmap_mark_def BITMAP_ERROR_def Let_def)
  moreover have "bm_wf \<lparr>bit_cnt = 8, bits = [1]\<rparr>" by (simp add: bm_wf_def)
  ultimately show ?thesis
    using bitmap_allocator [of "\<lparr>bit_cnt = 8, bits = [1]\<rparr>" 2 1 "\<lparr>bit_cnt = 8, bits = [7]\<rparr>"] by blast
qed

end
