(* ===== verification/Vaddr.thy ===== *)
theory Vaddr
  imports Prelude
begin

text \<open>
  Virtual addresses and page table entries: \<open>threads/vaddr.h\<close> and \<open>threads/pte.h\<close>. An
  address is a 32-bit word. \<open>None\<close> is a failed assertion. The lemmas give the numbers behind the
  bit operations, the three-level decomposition of an address and the round trips of the entries.
\<close>

section \<open>The code\<close>

definition BITMASK :: "nat \<Rightarrow> nat \<Rightarrow> u32" where
  "BITMASK SHIFT CNT = push_bit SHIFT (push_bit CNT 1 - 1)"

definition PGSHIFT :: nat where "PGSHIFT = 0"
definition PGBITS :: nat where "PGBITS = 12"
definition PGSIZE :: u32 where "PGSIZE = push_bit PGBITS 1"
definition PGMASK :: u32 where "PGMASK = BITMASK PGSHIFT PGBITS"

definition pg_ofs :: "u32 \<Rightarrow> u32" where
  "pg_ofs va = va AND PGMASK"

definition pg_no :: "u32 \<Rightarrow> u32" where
  "pg_no va = drop_bit PGBITS va"

definition pg_round_up :: "u32 \<Rightarrow> u32" where
  "pg_round_up va = (va + PGSIZE - 1) AND NOT PGMASK"

definition pg_round_down :: "u32 \<Rightarrow> u32" where
  "pg_round_down va = va AND NOT PGMASK"

definition PHYS_BASE :: u32 where "PHYS_BASE = 0xc0000000"

definition is_user_vaddr :: "u32 \<Rightarrow> bool" where
  "is_user_vaddr vaddr \<longleftrightarrow> vaddr < PHYS_BASE"

definition is_kernel_vaddr :: "u32 \<Rightarrow> bool" where
  "is_kernel_vaddr vaddr \<longleftrightarrow> vaddr \<ge> PHYS_BASE"

definition ptov :: "u32 \<Rightarrow> u32 option" where
  "ptov paddr = do {
     kassert (paddr < PHYS_BASE);
     Some (paddr + PHYS_BASE)
   }"

definition vtop :: "u32 \<Rightarrow> u32 option" where
  "vtop vaddr = do {
     kassert (is_kernel_vaddr vaddr);
     Some (vaddr - PHYS_BASE)
   }"

definition PTSHIFT :: nat where "PTSHIFT = PGBITS"
definition PTBITS :: nat where "PTBITS = 10"
definition PTSPAN :: u32 where "PTSPAN = push_bit PGBITS (push_bit PTBITS 1)"
definition PTMASK :: u32 where "PTMASK = BITMASK PTSHIFT PTBITS"
definition PDSHIFT :: nat where "PDSHIFT = PTSHIFT + PTBITS"
definition PDBITS :: nat where "PDBITS = 10"
definition PDMASK :: u32 where "PDMASK = BITMASK PDSHIFT PDBITS"

definition pt_no :: "u32 \<Rightarrow> u32" where
  "pt_no va = drop_bit PTSHIFT (va AND PTMASK)"

definition pd_no :: "u32 \<Rightarrow> u32" where
  "pd_no va = drop_bit PDSHIFT va"

definition PTE_FLAGS :: u32 where "PTE_FLAGS = 0xfff"
definition PTE_ADDR :: u32 where "PTE_ADDR = 0xfffff000"
definition PTE_AVL :: u32 where "PTE_AVL = 0xe00"
definition PTE_P :: u32 where "PTE_P = 0x1"
definition PTE_W :: u32 where "PTE_W = 0x2"
definition PTE_U :: u32 where "PTE_U = 0x4"
definition PTE_A :: u32 where "PTE_A = 0x20"
definition PTE_D :: u32 where "PTE_D = 0x40"

definition pde_create :: "u32 \<Rightarrow> u32 option" where
  "pde_create pt = do {
     kassert (pg_ofs pt = 0);
     p \<leftarrow> vtop pt;
     Some (p OR PTE_U OR PTE_P OR PTE_W)
   }"

definition pde_get_pt :: "u32 \<Rightarrow> u32 option" where
  "pde_get_pt pde = do {
     kassert (pde AND PTE_P \<noteq> 0);
     ptov (pde AND PTE_ADDR)
   }"

definition pte_create_kernel :: "u32 \<Rightarrow> bool \<Rightarrow> u32 option" where
  "pte_create_kernel page writable = do {
     kassert (pg_ofs page = 0);
     p \<leftarrow> vtop page;
     Some (p OR PTE_P OR (if writable then PTE_W else 0))
   }"

definition pte_create_user :: "u32 \<Rightarrow> bool \<Rightarrow> u32 option" where
  "pte_create_user page writable = do {
     p \<leftarrow> pte_create_kernel page writable;
     Some (p OR PTE_U)
   }"

definition pte_get_page :: "u32 \<Rightarrow> u32 option" where
  "pte_get_page pte = ptov (pte AND PTE_ADDR)"

section \<open>Addresses as numbers\<close>

lemma PGSIZE_eq: "PGSIZE = 4096"
  by (simp add: PGSIZE_def PGBITS_def)

lemma PGMASK_eq: "PGMASK = mask 12"
  by (simp add: PGMASK_def BITMASK_def PGSHIFT_def PGBITS_def mask_eq_exp_minus_1)

lemma pg_ofs_take_bit: "pg_ofs va = take_bit 12 va"
  by (simp add: pg_ofs_def PGMASK_eq take_bit_eq_mask)

lemma unat_pg_ofs: "unat (pg_ofs va) = unat va mod 4096"
  using unat_take_bit_mod [of 12 va] by (simp only: pg_ofs_take_bit) simp

lemma unat_pg_no: "unat (pg_no va) = unat va div 4096"
  by (simp add: pg_no_def PGBITS_def unat_drop_bit_div)

lemma pg_round_down_push: "pg_round_down va = push_bit 12 (drop_bit 12 va)"
  unfolding pg_round_down_def PGMASK_eq by (rule bit_eqI) (auto simp: bit_simps)

lemma unat_pg_round_down: "unat (pg_round_down va) = unat va div 4096 * 4096"
proof -
  have "unat va div 4096 * 4096 < 4294967296" using unat_u32_less [of va] by linarith
  then show ?thesis
    by (simp add: pg_round_down_push unat_push_bit_mult unat_drop_bit_div)
qed

lemma pg_split: "unat (pg_round_down va) + unat (pg_ofs va) = unat va"
  by (simp add: unat_pg_round_down unat_pg_ofs)

lemma unat_pd_no: "unat (pd_no va) = unat va div 4194304"
  by (simp add: pd_no_def PDSHIFT_def PTSHIFT_def PTBITS_def PGBITS_def unat_drop_bit_div)

lemma pt_no_take: "pt_no va = take_bit 10 (drop_bit 12 va)"
proof -
  have m: "PTMASK = push_bit 12 (mask 10)"
    by (simp add: PTMASK_def BITMASK_def PTSHIFT_def PTBITS_def PGBITS_def mask_eq_exp_minus_1)
  show ?thesis
    unfolding pt_no_def m PTSHIFT_def PGBITS_def
    by (rule bit_eqI) (auto simp: bit_simps)
qed

lemma unat_pt_no: "unat (pt_no va) = unat va div 4096 mod 1024"
  using unat_take_bit_mod [of 10 "drop_bit 12 va"] by (simp only: pt_no_take unat_drop_bit_div) simp

lemma pt_no_bound: "unat (pt_no va) < 1024"
  by (simp add: unat_pt_no)

lemma pd_no_bound: "unat (pd_no va) < 1024"
  using unat_u32_less [of va] by (simp add: unat_pd_no)

lemma pd_no_user: "is_user_vaddr va \<longleftrightarrow> unat (pd_no va) < 768"
  by (auto simp: is_user_vaddr_def PHYS_BASE_def word_less_nat_alt unat_pd_no)

lemma page_indices_eq:
  assumes "pd_no va = pd_no vb" "pt_no va = pt_no vb"
  shows "pg_no va = pg_no vb"
proof -
  have "unat va div 4096 div 1024 = unat vb div 4096 div 1024"
    using arg_cong [OF assms(1), of unat] by (simp add: unat_pd_no flip: div_mult2_eq)
  moreover have "unat va div 4096 mod 1024 = unat vb div 4096 mod 1024"
    using arg_cong [OF assms(2), of unat] by (simp add: unat_pt_no)
  ultimately have "unat va div 4096 = unat vb div 4096" by (metis div_mult_mod_eq)
  then show ?thesis by (metis unat_pg_no unsigned_word_eqI)
qed

section \<open>Aligned pages\<close>

definition aligned :: "u32 \<Rightarrow> bool" where
  "aligned p \<longleftrightarrow> unat p mod 4096 = 0"

lemma aligned_iff: "pg_ofs p = 0 \<longleftrightarrow> aligned p"
  by (metis aligned_def unat_eq_zero unat_pg_ofs)

lemma alignedE:
  assumes "aligned p"
  obtains k where "unat p = 4096 * k" "k < 1048576"
proof -
  have "unat p = 4096 * (unat p div 4096)"
    using assms mult_div_mod_eq [of 4096 "unat p"] by (simp add: aligned_def)
  moreover have "unat p div 4096 < 1048576" using unat_u32_less [of p] by simp
  ultimately show ?thesis by (rule that)
qed

lemma alignedI: "unat p = 4096 * k \<Longrightarrow> aligned p"
  by (simp add: aligned_def)

lemma unat_page_plus:
  assumes "aligned p" "unat x < 4096"
  shows "unat (p + x) = unat p + unat x"
proof -
  obtain k where k: "unat p = 4096 * k" "k < 1048576" using alignedE [OF assms(1)] .
  then have "unat p + unat x < 2 ^ LENGTH(32)" using assms(2) by simp
  then show ?thesis by (rule unat_add_lem [THEN iffD1])
qed

lemma page_plus_inj:
  assumes "aligned p" "aligned q" "unat x < 4096" "unat y < 4096" "p + x = q + y"
  shows "p = q \<and> x = y"
proof -
  obtain k where k: "unat p = 4096 * k" using alignedE [OF assms(1)] .
  obtain l where l: "unat q = 4096 * l" using alignedE [OF assms(2)] .
  have eq: "4096 * k + unat x = 4096 * l + unat y"
    using unat_page_plus [OF assms(1,3)] unat_page_plus [OF assms(2,4)] assms(5) k l by simp
  have "(4096 * k + unat x) div 4096 = k" "(4096 * l + unat y) div 4096 = l"
    using assms(3,4) by simp_all
  with eq have "k = l" by simp
  with eq k l have "unat p = unat q" "unat x = unat y" by simp_all
  then show ?thesis by (simp add: unat_inj)
qed

lemma unat_minus_PHYS_BASE: "PHYS_BASE \<le> p \<Longrightarrow> unat (p - PHYS_BASE) = unat p - 3221225472"
  by (simp add: unat_sub PHYS_BASE_def)

lemma aligned_vtop:
  assumes "aligned p" "PHYS_BASE \<le> p"
  shows "aligned (p - PHYS_BASE)"
proof -
  obtain k where k: "unat p = 4096 * k" using alignedE [OF assms(1)] .
  then have "unat (p - PHYS_BASE) = 4096 * (k - 786432)"
    using unat_minus_PHYS_BASE [OF assms(2)] by simp
  then show ?thesis by (rule alignedI)
qed

section \<open>Entries\<close>

lemma aligned_low_bits: "aligned p \<Longrightarrow> n < 12 \<Longrightarrow> \<not> bit p n"
proof -
  assume "aligned p" "n < 12"
  then have "bit (take_bit 12 p) n = bit (0 :: u32) n"
    by (simp only: aligned_iff [symmetric] pg_ofs_take_bit)
  with \<open>n < 12\<close> show ?thesis by (simp only: bit_take_bit_iff) simp
qed

lemma PTE_ADDR_eq: "PTE_ADDR = NOT (mask 12)"
  by (simp add: PTE_ADDR_def mask_eq_exp_minus_1)

lemma PTE_ADDR_aligned [simp]:
  assumes "aligned p" "f AND PTE_ADDR = 0"
  shows "(p OR f) AND PTE_ADDR = p"
proof (rule bit_word_eqI)
  fix n assume "n < LENGTH(32)"
  then have n: "n < 32" by simp
  have "bit (f AND PTE_ADDR) n = False" using assms(2) by simp
  then show "bit ((p OR f) AND PTE_ADDR) n = bit p n"
    using aligned_low_bits [OF assms(1)] n by (cases "n < 12") (auto simp: PTE_ADDR_eq bit_simps)
qed

lemma flag_aligned:
  assumes "aligned p" "fl AND PTE_ADDR = 0" "g AND PTE_ADDR = 0"
  shows "(p OR fl) AND g = fl AND g"
proof (rule bit_word_eqI)
  fix n assume "n < LENGTH(32)"
  then have n: "n < 32" by simp
  have "bit (g AND PTE_ADDR) n = False" using assms(3) by simp
  then show "bit ((p OR fl) AND g) n = bit (fl AND g) n"
    using aligned_low_bits [OF assms(1)] n by (cases "n < 12") (auto simp: PTE_ADDR_eq bit_simps)
qed

lemma aligned_PTE_ADDR: "aligned (e AND PTE_ADDR)"
proof -
  have "pg_ofs (e AND PTE_ADDR) = 0"
    unfolding pg_ofs_take_bit PTE_ADDR_eq by (rule bit_eqI) (auto simp: bit_simps)
  then show ?thesis by (simp add: aligned_iff)
qed

lemma ptov_vtop:
  assumes "PHYS_BASE \<le> p"
  shows "ptov (p - PHYS_BASE) = Some p"
proof -
  have "p - PHYS_BASE < PHYS_BASE"
    using unat_minus_PHYS_BASE [OF assms] unat_u32_less [of p] by (simp add: word_less_nat_alt PHYS_BASE_def)
  then show ?thesis by (simp add: ptov_def)
qed

lemma pde_create_eq:
  "pde_create pt = (if aligned pt \<and> PHYS_BASE \<le> pt then Some ((pt - PHYS_BASE) OR 7) else None)"
  by (simp add: pde_create_def aligned_iff vtop_def is_kernel_vaddr_def PTE_U_def PTE_P_def PTE_W_def
      or.assoc)

definition pte_bits :: "bool \<Rightarrow> u32" where
  "pte_bits writable = (if writable then 7 else 5)"

lemma pte_create_user_eq:
  "pte_create_user page w =
     (if aligned page \<and> PHYS_BASE \<le> page then Some ((page - PHYS_BASE) OR pte_bits w) else None)"
  by (simp add: pte_create_user_def pte_create_kernel_def aligned_iff vtop_def is_kernel_vaddr_def
      PTE_U_def PTE_P_def PTE_W_def or.assoc pte_bits_def)

lemma pte_bits_addr [simp]: "pte_bits w AND PTE_ADDR = 0"
  by (simp add: pte_bits_def PTE_ADDR_def)

lemma pde_get_pt_create:
  assumes "aligned pt" "PHYS_BASE \<le> pt"
  shows "pde_get_pt ((pt - PHYS_BASE) OR 7) = Some pt"
proof -
  note a = aligned_vtop [OF assms]
  have "((pt - PHYS_BASE) OR 7) AND PTE_P = 7 AND PTE_P"
    by (rule flag_aligned [OF a]) (simp_all add: PTE_ADDR_def PTE_P_def)
  moreover have "((pt - PHYS_BASE) OR 7) AND PTE_ADDR = pt - PHYS_BASE"
    by (rule PTE_ADDR_aligned [OF a]) (simp add: PTE_ADDR_def)
  ultimately show ?thesis by (simp add: pde_get_pt_def PTE_P_def ptov_vtop assms)
qed

lemma pte_get_page_create:
  assumes "aligned page" "PHYS_BASE \<le> page"
  shows "pte_get_page ((page - PHYS_BASE) OR pte_bits w) = Some page"
  using assms by (simp add: pte_get_page_def aligned_vtop ptov_vtop)

lemma pte_create_flags:
  assumes "aligned page" "PHYS_BASE \<le> page"
  shows "((page - PHYS_BASE) OR pte_bits w) AND PTE_P \<noteq> 0"
    and "((page - PHYS_BASE) OR pte_bits w) AND PTE_W \<noteq> 0 \<longleftrightarrow> w"
    and "((page - PHYS_BASE) OR pte_bits w) AND PTE_D = 0"
    and "((page - PHYS_BASE) OR pte_bits w) AND PTE_A = 0"
  using flag_aligned [OF aligned_vtop [OF assms] pte_bits_addr, of PTE_P w]
    flag_aligned [OF aligned_vtop [OF assms] pte_bits_addr, of PTE_W w]
    flag_aligned [OF aligned_vtop [OF assms] pte_bits_addr, of PTE_D w]
    flag_aligned [OF aligned_vtop [OF assms] pte_bits_addr, of PTE_A w]
  by (simp_all add: PTE_ADDR_def PTE_P_def PTE_W_def PTE_D_def PTE_A_def pte_bits_def)

lemma pg_round_down_page:
  assumes "aligned p" "unat x < 4096"
  shows "pg_round_down (p + x) = p"
proof (rule unat_inj)
  obtain k where k: "unat p = 4096 * k" using alignedE [OF assms(1)] .
  show "unat (pg_round_down (p + x)) = unat p"
    unfolding unat_pg_round_down unat_page_plus [OF assms] using k assms(2) by simp
qed

lemma aligned_round_down: "aligned (pg_round_down x)"
  by (rule alignedI [where k = "unat x div 4096"]) (simp add: unat_pg_round_down)

lemma in_page_iff:
  assumes "aligned p"
  shows "unat (x - p) < 4096 \<longleftrightarrow> pg_round_down x = p"
proof
  assume "unat (x - p) < 4096"
  then show "pg_round_down x = p" using pg_round_down_page [OF assms, of "x - p"] by simp
next
  assume p: "pg_round_down x = p"
  have s: "unat p + unat (pg_ofs x) = unat x" using pg_split [of x] p by simp
  then have "p \<le> x" unfolding word_le_nat_alt by linarith
  from unat_sub [OF this] s have "unat (x - p) = unat (pg_ofs x)" by linarith
  moreover have "unat (pg_ofs x) < 4096" by (simp add: unat_pg_ofs)
  ultimately show "unat (x - p) < 4096" by (simp only:)
qed

end
