(* ===== verification/Palloc.thy ===== *)
theory Palloc
  imports Bitmap Vaddr
begin

text \<open>
  The page allocator, \<open>threads/palloc.c\<close>: two pools of pages, each a bitmap and a base address.
  \<open>ram\<close> is the contents of memory, a 32-bit word for each word address. The bitmap of a pool
  is kept as a value beside \<open>ram\<close>, where the code stores it in the pages below the base of the
  pool, which the allocator never hands out. The lock of a pool, held around the scan of its
  bitmap, makes the scan atomic: the model is one call at a time.
\<close>

section \<open>The code\<close>

record pool =
  used_map :: bitmap
  pool_base :: u32

record kstate =
  kernel_pool :: pool
  user_pool :: pool
  ram :: "u32 \<Rightarrow> u32"

definition PAL_ASSERT :: u32 where "PAL_ASSERT = 1"
definition PAL_ZERO :: u32 where "PAL_ZERO = 2"
definition PAL_USER :: u32 where "PAL_USER = 4"

definition memset_words :: "(u32 \<Rightarrow> u32) \<Rightarrow> u32 \<Rightarrow> u32 \<Rightarrow> nat \<Rightarrow> u32 \<Rightarrow> u32" where
  "memset_words m a v n = (\<lambda>x. if unat (x - a) < n then v else m x)"

definition init_pool :: "(u32 \<Rightarrow> u32) \<Rightarrow> u32 \<Rightarrow> nat \<Rightarrow> pool option" where
  "init_pool m base_addr page_cnt = do {
     let bm_pages = div_round_up (bitmap_buf_size page_cnt) 4096;
     kassert (bm_pages \<le> page_cnt);
     let cnt = page_cnt - bm_pages;
     b \<leftarrow> bitmap_create_in_buf cnt (map (\<lambda>i. m (base_addr + 4 * word_of_nat i)) [0..<bm_pages * 1024])
            (bm_pages * 4096);
     Some \<lparr>used_map = b, pool_base = base_addr + word_of_nat bm_pages * PGSIZE\<rparr>
   }"

definition palloc_init :: "(u32 \<Rightarrow> u32) \<Rightarrow> u32 \<Rightarrow> nat \<Rightarrow> kstate option" where
  "palloc_init m init_ram_pages user_page_limit = do {
     free_start \<leftarrow> ptov (1024 * 1024);
     free_end \<leftarrow> ptov (init_ram_pages * PGSIZE);
     let free_pages = unat (free_end - free_start) div 4096;
     let user_pages = (if free_pages div 2 > user_page_limit then user_page_limit else free_pages div 2);
     let kernel_pages = free_pages - user_pages;
     kp \<leftarrow> init_pool m free_start kernel_pages;
     up \<leftarrow> init_pool m (free_start + word_of_nat kernel_pages * PGSIZE) user_pages;
     Some \<lparr>kernel_pool = kp, user_pool = up, ram = m\<rparr>
   }"

definition page_from_pool :: "pool \<Rightarrow> u32 \<Rightarrow> bool" where
  "page_from_pool p page =
     (let page_no = pg_no page;
          start_page = pg_no (pool_base p);
          end_page = start_page + word_of_nat (bitmap_size (used_map p))
      in page_no \<ge> start_page \<and> page_no < end_page)"

definition get_pool :: "bool \<Rightarrow> kstate \<Rightarrow> pool" where
  "get_pool u s = (if u then user_pool s else kernel_pool s)"

definition set_used_map :: "bool \<Rightarrow> bitmap \<Rightarrow> kstate \<Rightarrow> kstate" where
  "set_used_map u b s =
     (if u then s\<lparr>user_pool := (user_pool s)\<lparr>used_map := b\<rparr>\<rparr>
      else s\<lparr>kernel_pool := (kernel_pool s)\<lparr>used_map := b\<rparr>\<rparr>)"

definition palloc_get_multiple :: "u32 \<Rightarrow> nat \<Rightarrow> kstate \<Rightarrow> (u32 \<times> kstate) option" where
  "palloc_get_multiple flags page_cnt s =
     (let u = (flags AND PAL_USER \<noteq> 0); p = get_pool u s
      in if page_cnt = 0 then Some (0, s)
         else do {
           (page_idx, b) \<leftarrow> bitmap_scan_and_flip (used_map p) 0 page_cnt False;
           let s1 = set_used_map u b s;
           let pages = (if page_idx \<noteq> BITMAP_ERROR then pool_base p + PGSIZE * word_of_nat page_idx else 0);
           (if pages \<noteq> 0 then
              Some (pages, if flags AND PAL_ZERO \<noteq> 0
                           then s1\<lparr>ram := memset_words (ram s1) pages 0 (wrap32 (4096 * page_cnt))\<rparr>
                           else s1)
            else do { kassert (flags AND PAL_ASSERT = 0); Some (0, s1) })
         })"

definition palloc_get_page :: "u32 \<Rightarrow> kstate \<Rightarrow> (u32 \<times> kstate) option" where
  "palloc_get_page flags s = palloc_get_multiple flags 1 s"

definition palloc_free_multiple :: "u32 \<Rightarrow> nat \<Rightarrow> kstate \<Rightarrow> kstate option" where
  "palloc_free_multiple pages page_cnt s = do {
     kassert (pg_ofs pages = 0);
     (if pages = 0 \<or> page_cnt = 0 then Some s
      else do {
        u \<leftarrow> (if page_from_pool (kernel_pool s) pages then Some False
              else if page_from_pool (user_pool s) pages then Some True
              else None);
        let p = get_pool u s;
        let page_idx = unat (pg_no pages - pg_no (pool_base p));
        let s1 = s\<lparr>ram := memset_words (ram s) pages 0xcccccccc (wrap32 (4096 * page_cnt))\<rparr>;
        c \<leftarrow> bitmap_all (used_map p) page_idx page_cnt;
        kassert c;
        b \<leftarrow> bitmap_set_multiple (used_map p) page_idx page_cnt False;
        Some (set_used_map u b s1)
      })
   }"

definition palloc_free_page :: "u32 \<Rightarrow> kstate \<Rightarrow> kstate option" where
  "palloc_free_page page s = palloc_free_multiple page 1 s"

section \<open>Pools\<close>

definition wf_pool :: "pool \<Rightarrow> bool" where
  "wf_pool p \<longleftrightarrow> bm_wf (used_map p) \<and> aligned (pool_base p) \<and> PHYS_BASE \<le> pool_base p \<and>
     unat (pool_base p) + 4096 * bit_cnt (used_map p) \<le> 4294967296"

definition pool_end :: "pool \<Rightarrow> nat" where
  "pool_end p = unat (pool_base p) + 4096 * bit_cnt (used_map p)"

definition page_at :: "pool \<Rightarrow> nat \<Rightarrow> u32" where
  "page_at p i = pool_base p + PGSIZE * word_of_nat i"

definition pool_pages :: "pool \<Rightarrow> u32 set" where
  "pool_pages p = page_at p ` bm_used (used_map p)"

lemma unat_page_at:
  assumes "wf_pool p" "i < bit_cnt (used_map p)"
  shows "unat (page_at p i) = unat (pool_base p) + 4096 * i"
proof -
  have le: "unat (pool_base p) + 4096 * i < 4294967296"
    using assms by (simp add: wf_pool_def)
  then have i: "unat (PGSIZE * word_of_nat i) = 4096 * i"
    by (simp add: PGSIZE_eq unat_word_ariths unat_word_of_nat_32)
  with le have "unat (pool_base p) + unat (PGSIZE * word_of_nat i :: u32) < 2 ^ LENGTH(32)" by simp
  then show ?thesis unfolding page_at_def using i by (simp add: unat_add_lem [THEN iffD1])
qed

lemma page_at_aligned:
  assumes "wf_pool p" "i < bit_cnt (used_map p)"
  shows "aligned (page_at p i)"
proof -
  obtain k where "unat (pool_base p) = 4096 * k"
    using assms(1) alignedE [of "pool_base p"] by (auto simp: wf_pool_def)
  then have "unat (page_at p i) = 4096 * (k + i)" using unat_page_at [OF assms] by simp
  then show ?thesis by (rule alignedI)
qed

lemma page_at_kernel: "wf_pool p \<Longrightarrow> i < bit_cnt (used_map p) \<Longrightarrow> PHYS_BASE \<le> page_at p i"
  using unat_page_at [of p i] by (simp add: wf_pool_def word_le_nat_alt)

lemma PHYS_BASE_nonzero: "PHYS_BASE \<le> p \<Longrightarrow> p \<noteq> 0"
  by (auto simp: PHYS_BASE_def)

lemma page_at_inj:
  "wf_pool p \<Longrightarrow> i < bit_cnt (used_map p) \<Longrightarrow> j < bit_cnt (used_map p) \<Longrightarrow>
   page_at p i = page_at p j \<longleftrightarrow> i = j"
  by (metis add_left_cancel mult_cancel_left unat_page_at zero_neq_numeral)

lemma unat_pg_no_page_at:
  assumes "wf_pool p" "i < bit_cnt (used_map p)"
  shows "unat (pg_no (page_at p i)) = unat (pg_no (pool_base p)) + i"
proof -
  obtain k where k: "unat (pool_base p) = 4096 * k"
    using assms(1) alignedE [of "pool_base p"] by (auto simp: wf_pool_def)
  then show ?thesis using unat_page_at [OF assms] by (simp add: unat_pg_no)
qed

lemma page_from_pool_iff:
  assumes "wf_pool p"
  shows "page_from_pool p page \<longleftrightarrow> unat (pool_base p) \<le> unat page \<and> unat page < pool_end p"
proof -
  obtain k where k: "unat (pool_base p) = 4096 * k"
    using assms alignedE [of "pool_base p"] by (auto simp: wf_pool_def)
  let ?n = "bit_cnt (used_map p)"
  have bound: "k + ?n \<le> 1048576" using assms k by (simp add: wf_pool_def)
  have s: "unat (pg_no (pool_base p)) = k" by (simp add: unat_pg_no k)
  have "unat (pg_no (pool_base p) + word_of_nat (bitmap_size (used_map p))) = k + ?n"
    using bound by (simp add: bitmap_size_def unat_word_ariths s unat_word_of_nat_32)
  then have "page_from_pool p page \<longleftrightarrow> k \<le> unat page div 4096 \<and> unat page div 4096 < k + ?n"
    by (simp add: page_from_pool_def Let_def word_le_nat_alt word_less_nat_alt unat_pg_no k)
  also have "\<dots> \<longleftrightarrow> 4096 * k \<le> unat page \<and> unat page < 4096 * (k + ?n)"
    by (simp add: div_less_iff_less_mult less_eq_div_iff_mult_less_eq mult.commute)
  finally show ?thesis by (simp add: k pool_end_def)
qed

section \<open>The allocator as a whole\<close>

definition wf_kstate :: "kstate \<Rightarrow> bool" where
  "wf_kstate s \<longleftrightarrow> wf_pool (kernel_pool s) \<and> wf_pool (user_pool s) \<and>
     pool_end (kernel_pool s) \<le> unat (pool_base (user_pool s))"

definition all_pages :: "kstate \<Rightarrow> u32 set" where
  "all_pages s = pool_pages (kernel_pool s) \<union> pool_pages (user_pool s)"

lemma wf_get_pool: "wf_kstate s \<Longrightarrow> wf_pool (get_pool u s)"
  by (simp add: wf_kstate_def get_pool_def)

lemma get_pool_set [simp]:
  "get_pool v (set_used_map u b s) = (if u = v then (get_pool u s)\<lparr>used_map := b\<rparr> else get_pool v s)"
  "ram (set_used_map u b s) = ram s"
  "get_pool v (s\<lparr>ram := m\<rparr>) = get_pool v s"
  by (auto simp: get_pool_def set_used_map_def)

lemma wf_kstate_ram [simp]: "wf_kstate (s\<lparr>ram := m\<rparr>) = wf_kstate s" "all_pages (s\<lparr>ram := m\<rparr>) = all_pages s"
  by (simp_all add: wf_kstate_def all_pages_def)

lemma all_pages_eq: "all_pages s = pool_pages (get_pool u s) \<union> pool_pages (get_pool (\<not> u) s)"
  by (auto simp: all_pages_def get_pool_def)

lemma wf_set_used_map:
  assumes "wf_kstate s" "bm_wf b" "bit_cnt b = bit_cnt (used_map (get_pool u s))"
  shows "wf_kstate (set_used_map u b s)"
  using assms by (auto simp: wf_kstate_def wf_pool_def pool_end_def set_used_map_def get_pool_def)

lemma set_used_map_ram:
  "set_used_map u b (s\<lparr>ram := m\<rparr>) = (set_used_map u b s)\<lparr>ram := m\<rparr>"
  by (simp add: set_used_map_def)

lemma page_at_set [simp]: "page_at (p\<lparr>used_map := b\<rparr>) i = page_at p i"
  by (simp add: page_at_def)

lemma all_pages_set:
  "all_pages (set_used_map u b s) =
     page_at (get_pool u s) ` bm_used b \<union> pool_pages (get_pool (\<not> u) s)"
  using all_pages_eq [of "set_used_map u b s" u] by (simp add: pool_pages_def)

lemma pools_disjoint:
  assumes "wf_kstate s" "i < bit_cnt (used_map (get_pool u s))"
    "j < bit_cnt (used_map (get_pool (\<not> u) s))"
  shows "page_at (get_pool u s) i \<noteq> page_at (get_pool (\<not> u) s) j"
proof
  assume "page_at (get_pool u s) i = page_at (get_pool (\<not> u) s) j"
  then have "unat (pool_base (get_pool u s)) + 4096 * i = unat (pool_base (get_pool (\<not> u) s)) + 4096 * j"
    using unat_page_at [OF wf_get_pool [OF assms(1)] assms(2)]
      unat_page_at [OF wf_get_pool [OF assms(1)] assms(3)] by simp
  then show False
    using assms by (cases u) (auto simp: wf_kstate_def pool_end_def get_pool_def)
qed

lemma page_not_in_other:
  assumes "wf_kstate s" "i < bit_cnt (used_map (get_pool u s))"
  shows "page_at (get_pool u s) i \<notin> pool_pages (get_pool (\<not> u) s)"
  using pools_disjoint [OF assms] by (auto simp: pool_pages_def bm_used_def)

lemma page_in_pool_iff:
  assumes "wf_kstate s" "i < bit_cnt (used_map (get_pool u s))"
  shows "page_at (get_pool u s) i \<in> all_pages s \<longleftrightarrow> i \<in> bm_used (used_map (get_pool u s))"
  unfolding all_pages_eq [of s u]
  using page_not_in_other [OF assms] page_at_inj [OF wf_get_pool [OF assms(1)] assms(2)]
  by (auto simp: pool_pages_def bm_used_def)

lemma all_pages_aligned:
  assumes "wf_kstate s" "p \<in> all_pages s"
  shows "aligned p" "PHYS_BASE \<le> p"
  using assms page_at_aligned page_at_kernel
  by (auto simp: all_pages_def pool_pages_def bm_used_def wf_kstate_def)

lemma all_pagesE:
  assumes "p \<in> all_pages s"
  obtains u i where "i \<in> bm_used (used_map (get_pool u s))" "p = page_at (get_pool u s) i"
proof -
  have "p \<in> pool_pages (get_pool False s) \<or> p \<in> pool_pages (get_pool True s)"
    using assms all_pages_eq [of s False] by simp
  then show ?thesis using that by (auto simp: pool_pages_def)
qed

section \<open>Allocation and release\<close>

definition zeroed :: "u32 \<Rightarrow> u32 \<Rightarrow> nat \<Rightarrow> kstate \<Rightarrow> kstate" where
  "zeroed flags pages n s =
     (if flags AND PAL_ZERO \<noteq> 0 then s\<lparr>ram := memset_words (ram s) pages 0 (wrap32 (4096 * n))\<rparr> else s)"

lemma zeroed_simps [simp]:
  "wf_kstate (zeroed fl p n s) = wf_kstate s" "all_pages (zeroed fl p n s) = all_pages s"
  "get_pool u (zeroed fl p n s) = get_pool u s"
  by (simp_all add: zeroed_def)

lemma palloc_get_multiple_cases:
  fixes flags :: u32 and s :: kstate
  defines "u \<equiv> (flags AND PAL_USER \<noteq> 0)" and "p \<equiv> get_pool (flags AND PAL_USER \<noteq> 0) s"
  assumes wf: "wf_kstate s" and n: "0 < n"
  shows "(\<exists>i b. palloc_get_multiple flags n s =
        Some (page_at p i, zeroed flags (page_at p i) n (set_used_map u b s)) \<and>
        i + n \<le> bit_cnt (used_map p) \<and> {i..<i + n} \<inter> bm_used (used_map p) = {} \<and>
        bm_wf b \<and> bit_cnt b = bit_cnt (used_map p) \<and> bm_used b = bm_used (used_map p) \<union> {i..<i + n})
   \<or> (palloc_get_multiple flags n s = (if flags AND PAL_ASSERT = 0 then Some (0, s) else None) \<and>
        (\<forall>i. i + n \<le> bit_cnt (used_map p) \<longrightarrow> {i..<i + n} \<inter> bm_used (used_map p) \<noteq> {}))"
proof -
  have wfp: "wf_pool p" using wf_get_pool [OF wf] by (simp add: p_def)
  then have bw: "bm_wf (used_map p)" by (simp add: wf_pool_def)
  have pu: "get_pool u s = p" by (simp add: p_def u_def)
  have sf: "set_used_map u (used_map p) s = s"
    by (simp add: set_used_map_def p_def u_def get_pool_def)
  consider (ok) i b where "bitmap_scan_and_flip (used_map p) 0 n False = Some (i, b)" "i \<noteq> BITMAP_ERROR"
      "bm_wf b" "bit_cnt b = bit_cnt (used_map p)" "i + n \<le> bit_cnt (used_map p)"
      "{i..<i + n} \<inter> bm_used (used_map p) = {}" "bm_used b = bm_used (used_map p) \<union> {i..<i + n}"
    | (full) "bitmap_scan_and_flip (used_map p) 0 n False = Some (BITMAP_ERROR, used_map p)"
      "\<forall>i. i + n \<le> bit_cnt (used_map p) \<longrightarrow> {i..<i + n} \<inter> bm_used (used_map p) \<noteq> {}"
    using bm_alloc_cases [OF bw, of n] by (auto simp: bm_alloc_def split: if_splits)
  then show ?thesis
  proof cases
    case ok
    have nz: "page_at p i \<noteq> 0"
      using page_at_kernel [OF wfp, of i] ok(5) n PHYS_BASE_nonzero [of "page_at p i"] by simp
    have "palloc_get_multiple flags n s =
        Some (page_at p i, zeroed flags (page_at p i) n (set_used_map u b s))"
      using ok(1,2) nz n unfolding palloc_get_multiple_def
      by (simp add: Let_def zeroed_def page_at_def pu flip: u_def)
    with ok show ?thesis by blast
  next
    case full
    then show ?thesis
      using n sf unfolding palloc_get_multiple_def by (simp add: Let_def pu flip: u_def)
  qed
qed

lemma palloc_free_multiple_ok:
  assumes wf: "wf_kstate s" and n: "0 < n" and le: "i + n \<le> bit_cnt (used_map (get_pool u s))"
    and used: "{i..<i + n} \<subseteq> bm_used (used_map (get_pool u s))"
  shows "\<exists>b. palloc_free_multiple (page_at (get_pool u s) i) n s =
      Some (set_used_map u b
        (s\<lparr>ram := memset_words (ram s) (page_at (get_pool u s) i) 0xcccccccc (wrap32 (4096 * n))\<rparr>)) \<and>
      bm_wf b \<and> bit_cnt b = bit_cnt (used_map (get_pool u s)) \<and>
      bm_used b = bm_used (used_map (get_pool u s)) - {i..<i + n}"
proof -
  define p where "p = get_pool u s"
  have wfp: "wf_pool p" using wf_get_pool [OF wf] by (simp add: p_def)
  have i: "i < bit_cnt (used_map p)" using n le by (simp add: p_def)
  have bw: "bm_wf (used_map p)" using wfp by (simp add: wf_pool_def)
  have a: "pg_ofs (page_at p i) = 0" using page_at_aligned [OF wfp i] by (simp add: aligned_iff)
  have nz: "page_at p i \<noteq> 0" using page_at_kernel [OF wfp i] PHYS_BASE_nonzero by blast
  have num: "unat (page_at p i) = unat (pool_base p) + 4096 * i" by (rule unat_page_at [OF wfp i])
  have frompool: "(if page_from_pool (kernel_pool s) (page_at p i) then Some False
      else if page_from_pool (user_pool s) (page_at p i) then Some True else None) = Some u"
    using wf i num page_from_pool_iff [of "kernel_pool s" "page_at p i"]
      page_from_pool_iff [of "user_pool s" "page_at p i"]
    by (cases u) (auto simp: wf_kstate_def p_def get_pool_def pool_end_def)
  have idx: "unat (pg_no (page_at p i) - pg_no (pool_base p)) = i"
    using unat_pg_no_page_at [OF wfp i] by (simp add: unat_sub word_le_nat_alt)
  have all: "bitmap_all (used_map p) i n = Some True"
    using bitmap_contains_abs [OF bw, of i n False] le used
    by (auto simp: bitmap_all_def run_def bm_used_def p_def)
  obtain b where b: "bitmap_set_multiple (used_map p) i n False = Some b" "bm_wf b"
      "bit_cnt b = bit_cnt (used_map p)" "bm_used b = bm_used (used_map p) - {i..<i + n}"
    using bm_release_ok [OF bw, of i n] le by (auto simp: bm_release_def p_def)
  have "palloc_free_multiple (page_at p i) n s = Some (set_used_map u b
        (s\<lparr>ram := memset_words (ram s) (page_at p i) 0xcccccccc (wrap32 (4096 * n))\<rparr>))"
    using a nz n frompool idx all b(1) unfolding palloc_free_multiple_def
    by (simp add: Let_def flip: p_def)
  with b show ?thesis by (auto simp flip: p_def)
qed

lemma image_page_range:
  assumes "wf_pool p" "B \<subseteq> {..<bit_cnt (used_map p)}" "A \<subseteq> {..<bit_cnt (used_map p)}"
  shows "page_at p ` (B - A) = page_at p ` B - page_at p ` A"
  using assms page_at_inj [OF assms(1)] by (auto simp: subset_iff)

section \<open>Single pages\<close>

definition page_get :: "u32 \<Rightarrow> kstate \<Rightarrow> (u32 option \<times> kstate) option" where
  "page_get flags s =
     map_option (\<lambda>(p, s'). (if p = 0 then None else Some p, s')) (palloc_get_page flags s)"

lemma page_get_cases:
  assumes "wf_kstate s" "flags AND PAL_ASSERT = 0"
  shows "(\<exists>p s'. palloc_get_page flags s = Some (p, s') \<and> p \<noteq> 0 \<and> aligned p \<and> PHYS_BASE \<le> p \<and>
      wf_kstate s' \<and> p \<notin> all_pages s \<and> all_pages s' = insert p (all_pages s) \<and>
      ram s' = (if flags AND PAL_ZERO \<noteq> 0 then memset_words (ram s) p 0 4096 else ram s))
    \<or> palloc_get_page flags s = Some (0, s)"
proof -
  define u where "u = (flags AND PAL_USER \<noteq> 0)"
  define p where "p = get_pool u s"
  note c = palloc_get_multiple_cases [OF assms(1) zero_less_one, of flags, folded u_def, folded p_def]
  then show ?thesis
  proof (elim disjE exE conjE)
    fix i b
    assume g: "palloc_get_multiple flags 1 s =
        Some (page_at p i, zeroed flags (page_at p i) 1 (set_used_map u b s))"
      and i: "i + 1 \<le> bit_cnt (used_map p)" "{i..<i + 1} \<inter> bm_used (used_map p) = {}"
      and b: "bm_wf b" "bit_cnt b = bit_cnt (used_map p)"
        "bm_used b = bm_used (used_map p) \<union> {i..<i + 1}"
    have wfp: "wf_pool p" using wf_get_pool [OF assms(1)] by (simp add: p_def)
    have lt: "i < bit_cnt (used_map p)" using i by simp
    have "page_at p i \<notin> all_pages s"
      using page_in_pool_iff [OF assms(1), of i u] lt i(2) by (simp add: p_def)
    moreover have "all_pages (set_used_map u b s) = insert (page_at p i) (all_pages s)"
      unfolding all_pages_set all_pages_eq [of s u] using b(3)
      by (auto simp: pool_pages_def p_def)
    moreover have "wf_kstate (set_used_map u b s)"
      using wf_set_used_map [OF assms(1) b(1)] b(2) by (simp add: p_def)
    ultimately show ?thesis
      using g page_at_aligned [OF wfp lt] page_at_kernel [OF wfp lt] PHYS_BASE_nonzero [of "page_at p i"]
      by (auto simp: palloc_get_page_def zeroed_def)
  next
    assume "palloc_get_multiple flags 1 s = (if flags AND PAL_ASSERT = 0 then Some (0, s) else None)"
    with assms(2) show ?thesis by (simp add: palloc_get_page_def)
  qed
qed

lemma palloc_free_page_ok:
  assumes "wf_kstate s" "p \<in> all_pages s"
  shows "\<exists>s'. palloc_free_page p s = Some s' \<and> wf_kstate s' \<and> all_pages s' = all_pages s - {p} \<and>
    ram s' = memset_words (ram s) p 0xcccccccc 4096"
proof -
  obtain u i where i: "i \<in> bm_used (used_map (get_pool u s))" "p = page_at (get_pool u s) i"
    using all_pagesE [OF assms(2)] .
  define q where "q = get_pool u s"
  have lt: "i < bit_cnt (used_map q)" using i by (simp add: bm_used_def q_def)
  obtain b where b: "palloc_free_multiple (page_at q i) 1 s =
      Some (set_used_map u b (s\<lparr>ram := memset_words (ram s) (page_at q i) 0xcccccccc 4096\<rparr>))"
      "bm_wf b" "bit_cnt b = bit_cnt (used_map q)" "bm_used b = bm_used (used_map q) - {i}"
    using palloc_free_multiple_ok [OF assms(1) zero_less_one, of i u] lt i(1)
    by (auto simp flip: q_def)
  have "page_at q ` (bm_used (used_map q) - {i}) = page_at q ` bm_used (used_map q) - page_at q ` {i}"
    using wf_get_pool [OF assms(1)] lt by (intro image_page_range) (auto simp: q_def bm_used_def)
  moreover have "page_at q i \<notin> pool_pages (get_pool (\<not> u) s)"
    using page_not_in_other [OF assms(1)] lt by (simp add: q_def)
  ultimately have "all_pages (set_used_map u b s) = all_pages s - {p}"
    unfolding all_pages_set all_pages_eq [of s u] using b(4) i(2)
    by (auto simp: pool_pages_def simp flip: q_def)
  moreover have "wf_kstate (set_used_map u b s)"
    using wf_set_used_map [OF assms(1) b(2)] b(3) by (simp add: q_def)
  ultimately show ?thesis
    using b(1) i(2) by (simp add: set_used_map_ram palloc_free_page_def q_def)
qed

lemma page_of_pool:
  assumes "wf_kstate s" "aligned p" "page_from_pool (get_pool u s) p"
  shows "\<exists>i < bit_cnt (used_map (get_pool u s)). p = page_at (get_pool u s) i"
proof -
  let ?q = "get_pool u s"
  have wfp: "wf_pool ?q" using wf_get_pool [OF assms(1)] .
  obtain k where k: "unat (pool_base ?q) = 4096 * k"
    using wfp alignedE [of "pool_base ?q"] by (auto simp: wf_pool_def)
  obtain l where l: "unat p = 4096 * l" using alignedE [OF assms(2)] .
  have r: "k \<le> l" "l < k + bit_cnt (used_map ?q)"
    using assms(3) page_from_pool_iff [OF wfp, of p] k l by (simp_all add: pool_end_def)
  then have i: "l - k < bit_cnt (used_map ?q)" by simp
  have "unat (page_at ?q (l - k)) = unat p"
    using unat_page_at [OF wfp i] k l r by (simp add: diff_mult_distrib2)
  then have "p = page_at ?q (l - k)" by (simp add: unat_inj)
  with i show ?thesis by blast
qed

lemma palloc_free_page_panics:
  assumes "wf_kstate s" "p \<noteq> 0" "p \<notin> all_pages s"
  shows "palloc_free_page p s = None"
proof (cases "aligned p \<and> (page_from_pool (kernel_pool s) p \<or> page_from_pool (user_pool s) p)")
  case False
  then show ?thesis
    using assms(2) by (auto simp: palloc_free_page_def palloc_free_multiple_def aligned_iff)
next
  case True
  define u where "u = (\<not> page_from_pool (kernel_pool s) p)"
  have "page_from_pool (get_pool u s) p" using True by (auto simp: u_def get_pool_def)
  then obtain i where i: "i < bit_cnt (used_map (get_pool u s))" "p = page_at (get_pool u s) i"
    using page_of_pool [OF assms(1)] True by blast
  have frompool: "(if page_from_pool (kernel_pool s) p then Some False
      else if page_from_pool (user_pool s) p then Some True else None) = Some u"
    using True by (auto simp: u_def)
  have wfp: "wf_pool (get_pool u s)" using wf_get_pool [OF assms(1)] .
  have idx: "unat (pg_no p - pg_no (pool_base (get_pool u s))) = i"
    using unat_pg_no_page_at [OF wfp i(1)] i(2) by (simp add: unat_sub word_le_nat_alt)
  have "i \<notin> bm_used (used_map (get_pool u s))"
    using page_in_pool_iff [OF assms(1) i(1)] assms(3) i(2) by simp
  then have "bitmap_all (used_map (get_pool u s)) i 1 = Some False"
    using bitmap_contains_abs [of "used_map (get_pool u s)" i 1 False] wfp i(1)
    by (auto simp: bitmap_all_def wf_pool_def run_def bm_used_def)
  then show ?thesis
    using True frompool idx assms(2)
    by (simp add: palloc_free_page_def palloc_free_multiple_def aligned_iff Let_def)
qed

lemma palloc_unit_allocator:
  assumes "flags AND PAL_ASSERT = 0"
  shows "unit_allocator wf_kstate all_pages (page_get flags) (\<lambda>s p. palloc_free_page p s)"
proof (unfold_locales, goal_cases)
  case (1 s)
  then show ?case using page_get_cases [OF 1 assms] by (auto simp: page_get_def)
next
  case (2 s p s')
  then show ?case using page_get_cases [OF 2(1) assms] by (auto simp: page_get_def split: if_splits)
next
  case (3 s s')
  then show ?case using page_get_cases [OF 3(1) assms] by (auto simp: page_get_def split: if_splits)
next
  case (4 s p)
  then show ?case using palloc_free_page_ok [of s p] by blast
qed

interpretation kpages: unit_allocator wf_kstate all_pages "page_get 0" "\<lambda>s p. palloc_free_page p s"
  by (rule palloc_unit_allocator) simp

interpretation kzpages: unit_allocator wf_kstate all_pages "page_get PAL_ZERO" "\<lambda>s p. palloc_free_page p s"
  by (rule palloc_unit_allocator) (simp add: PAL_ZERO_def PAL_ASSERT_def)

interpretation upages: unit_allocator wf_kstate all_pages "page_get PAL_USER" "\<lambda>s p. palloc_free_page p s"
  by (rule palloc_unit_allocator) (simp add: PAL_USER_def PAL_ASSERT_def)

section \<open>Initialisation\<close>

lemma byte_cnt_small:
  assumes "n \<le> 1048576"
  shows "byte_cnt n = 4 * ((n + 31) div 32)"
proof -
  have "4 * ((n + 31) div 32) < 4294967296" using assms by simp
  then show ?thesis using assms by (simp add: byte_cnt_def)
qed

lemma bitmap_create_in_buf_empty:
  assumes "n \<le> 1048576" "bitmap_buf_size n \<le> sz" "bitmap_buf_size n \<le> 4 * length block"
  shows "\<exists>b. bitmap_create_in_buf n block sz = Some b \<and> bm_wf b \<and> bit_cnt b = n \<and> bm_used b = {}"
proof -
  let ?b = "\<lparr>bit_cnt = n, bits = take (elem_cnt n) (drop 2 block)\<rparr>"
  have "(n + 31) div 32 \<le> length block - 2"
    using assms(3) by (simp add: bitmap_buf_size_def byte_cnt_small [OF assms(1)])
  then have wf: "bm_wf ?b" using assms(1) by (simp add: bm_wf_def)
  then obtain b where "bitmap_set_multiple ?b 0 n False = Some b" "bm_wf b" "bit_cnt b = n"
      "bm_abs b = fill (bm_abs ?b) 0 n False"
    using bitmap_set_multiple_abs [OF wf, of 0 n False] by auto
  moreover have "bm_used b = {}"
    using calculation(3,4) by (auto simp: bm_used_def nth_fill)
  ultimately show ?thesis
    using assms(2) by (simp add: bitmap_create_in_buf_def bitmap_set_all_def bitmap_size_def)
qed

lemma bm_pages_bounds:
  assumes "0 < n" "n \<le> 262144"
  defines "k \<equiv> div_round_up (bitmap_buf_size n) 4096"
  shows "0 < k" "k \<le> n" "bitmap_buf_size (n - k) \<le> 4096 * k"
proof -
  have b: "bitmap_buf_size n = 8 + 4 * ((n + 31) div 32)"
    using assms by (simp add: bitmap_buf_size_def byte_cnt_small)
  then have k: "k = (8 + 4 * ((n + 31) div 32) + 4095) div 4096"
    using assms by (simp add: div_round_up_def k_def)
  show "0 < k" using k by simp
  have "(n + 31) div 32 < n + 1" using assms(1) by (simp add: div_less_iff_less_mult)
  moreover have "x < n + 1 \<Longrightarrow> 8 + 4 * x + 4095 < 4096 * (n + 1)" for x using assms(1) by (cases n) auto
  ultimately have "8 + 4 * ((n + 31) div 32) + 4095 < 4096 * (n + 1)" by blast
  then show "k \<le> n" using k by simp
  have "bitmap_buf_size (n - k) \<le> 8 + 4 * ((n + 31) div 32)"
    using assms by (simp add: bitmap_buf_size_def byte_cnt_small div_le_mono)
  also have "\<dots> \<le> 4096 * k" using k by linarith
  finally show "bitmap_buf_size (n - k) \<le> 4096 * k" .
qed

lemma unat_page_offset:
  assumes "unat a + 4096 * k < 4294967296"
  shows "unat (a + word_of_nat k * PGSIZE) = unat a + 4096 * k"
proof -
  have "unat (word_of_nat k * PGSIZE) = 4096 * k"
    using assms by (simp add: PGSIZE_eq unat_word_ariths unat_word_of_nat_32)
  moreover from this assms have "unat a + unat (word_of_nat k * PGSIZE :: u32) < 2 ^ LENGTH(32)" by simp
  ultimately show ?thesis by (simp add: unat_add_lem [THEN iffD1])
qed

lemma init_pool_ok:
  assumes "0 < n" "n \<le> 262144" "aligned a" "PHYS_BASE \<le> a" "unat a + 4096 * n < 4294967296"
  shows "\<exists>p. init_pool m a n = Some p \<and> wf_pool p \<and> bm_used (used_map p) = {} \<and>
    unat a < unat (pool_base p) \<and> pool_end p = unat a + 4096 * n"
proof -
  define k where "k = div_round_up (bitmap_buf_size n) 4096"
  note k = bm_pages_bounds [OF assms(1,2), folded k_def]
  let ?m = "map (\<lambda>i. m (a + 4 * word_of_nat i)) [0..<k * 1024]"
  have nk: "n - k \<le> 1048576" using assms(2) by linarith
  obtain b where b: "bitmap_create_in_buf (n - k) ?m (k * 4096) = Some b" "bm_wf b"
      "bit_cnt b = n - k" "bm_used b = {}"
    using bitmap_create_in_buf_empty [OF nk, of "k * 4096" ?m] k(3) by auto
  let ?p = "\<lparr>used_map = b, pool_base = a + word_of_nat k * PGSIZE\<rparr>"
  have i: "init_pool m a n = Some ?p"
    using k(2) b(1) by (simp add: init_pool_def Let_def flip: k_def)
  have u: "unat (a + word_of_nat k * PGSIZE) = unat a + 4096 * k"
    using assms(5) k(2) by (intro unat_page_offset) simp
  obtain l where "unat a = 4096 * l" using alignedE [OF assms(3)] .
  then have "unat (a + word_of_nat k * PGSIZE) = 4096 * (l + k)" using u by simp
  then have "aligned (a + word_of_nat k * PGSIZE)" by (rule alignedI)
  then have "wf_pool ?p"
    using b u assms(4,5) k(2) by (simp add: wf_pool_def word_le_nat_alt diff_mult_distrib2)
  with i b u k show ?thesis by (simp add: pool_end_def diff_mult_distrib2)
qed

section \<open>Ranges of pages\<close>

definition page_range :: "u32 \<Rightarrow> nat \<Rightarrow> u32 set" where
  "page_range p n = (\<lambda>j. p + PGSIZE * word_of_nat j) ` {..<n}"

lemma page_range_at: "page_range (page_at p i) n = page_at p ` {i..<i + n}"
proof -
  have "{i..<i + n} = (\<lambda>j. i + j) ` {..<n}" by (simp add: lessThan_atLeast0 add.commute)
  then show ?thesis
    by (simp add: page_range_def page_at_def image_image algebra_simps)
qed

text \<open>The operations keep the place and the size of the pools; \<open>run_ok\<close> is a range within one.\<close>

definition same_pools :: "kstate \<Rightarrow> kstate \<Rightarrow> bool" where
  "same_pools s s' \<longleftrightarrow> (\<forall>u. pool_base (get_pool u s') = pool_base (get_pool u s) \<and>
     bit_cnt (used_map (get_pool u s')) = bit_cnt (used_map (get_pool u s)))"

definition run_ok :: "kstate \<Rightarrow> u32 \<Rightarrow> nat \<Rightarrow> bool" where
  "run_ok s p n \<longleftrightarrow> (\<exists>u i. p = page_at (get_pool u s) i \<and> i + n \<le> bit_cnt (used_map (get_pool u s)))"

lemma run_ok_same: "same_pools s s' \<Longrightarrow> run_ok s' p n = run_ok s p n"
  by (simp add: run_ok_def same_pools_def page_at_def)

lemma same_pools_refl [simp]: "same_pools s s"
  by (simp add: same_pools_def)

lemma same_pools_ram [simp]: "same_pools s (s'\<lparr>ram := m\<rparr>) = same_pools s s'" "same_pools (s\<lparr>ram := m\<rparr>) s' = same_pools s s'"
  by (simp_all add: same_pools_def)

lemma same_pools_trans: "same_pools s s' \<Longrightarrow> same_pools s' s'' \<Longrightarrow> same_pools s s''"
  by (simp add: same_pools_def)

lemma run_ok_bound:
  assumes "wf_kstate s" "run_ok s p n" "0 < n"
  shows "aligned p" "p \<noteq> 0" "unat p + 4096 * n \<le> 4294967296" "wrap32 (4096 * n) = 4096 * n"
proof -
  obtain u i where p: "p = page_at (get_pool u s) i" "i + n \<le> bit_cnt (used_map (get_pool u s))"
    using assms(2) by (auto simp: run_ok_def)
  note wfp = wf_get_pool [OF assms(1), of u]
  have lt: "i < bit_cnt (used_map (get_pool u s))" using p(2) assms(3) by simp
  show "aligned p" "p \<noteq> 0" using page_at_aligned [OF wfp lt] page_at_kernel [OF wfp lt] PHYS_BASE_nonzero p(1) by auto
  show "unat p + 4096 * n \<le> 4294967296" using unat_page_at [OF wfp lt] wfp p by (simp add: wf_pool_def)
  show "wrap32 (4096 * n) = 4096 * n"
    using wfp p(2) by (simp add: wf_pool_def PHYS_BASE_def word_le_nat_alt)
qed

lemma palloc_get_range:
  assumes "wf_kstate s" "0 < n" "fl AND PAL_ASSERT = 0" "fl AND PAL_ZERO = 0"
  shows "(\<exists>p s'. palloc_get_multiple fl n s = Some (p, s') \<and> p \<noteq> 0 \<and> run_ok s p n \<and> page_range p n \<inter> all_pages s = {} \<and>
      wf_kstate s' \<and> all_pages s' = all_pages s \<union> page_range p n \<and> ram s' = ram s \<and> same_pools s s')
    \<or> palloc_get_multiple fl n s = Some (0, s)"
proof -
  define u where "u = (fl AND PAL_USER \<noteq> 0)"
  define p where "p = get_pool u s"
  have wfp: "wf_pool p" using wf_get_pool [OF assms(1)] by (simp add: p_def)
  note c = palloc_get_multiple_cases [OF assms(1,2), of fl, folded u_def, folded p_def]
  then show ?thesis
  proof (elim disjE exE conjE)
    fix i b
    assume r: "palloc_get_multiple fl n s = Some (page_at p i, zeroed fl (page_at p i) n (set_used_map u b s))"
      and i: "i + n \<le> bit_cnt (used_map p)" "{i..<i + n} \<inter> bm_used (used_map p) = {}"
      and b: "bm_wf b" "bit_cnt b = bit_cnt (used_map p)" "bm_used b = bm_used (used_map p) \<union> {i..<i + n}"
    have "run_ok s (page_at p i) n" using i(1) by (auto simp: run_ok_def p_def)
    moreover have "page_range (page_at p i) n \<inter> all_pages s = {}"
      using page_in_pool_iff [OF assms(1), of _ u] i by (auto simp: page_range_at p_def)
    moreover have "wf_kstate (set_used_map u b s)"
      using wf_set_used_map [OF assms(1) b(1)] b(2) by (simp add: p_def)
    moreover have "all_pages (set_used_map u b s) = all_pages s \<union> page_range (page_at p i) n"
      unfolding all_pages_set all_pages_eq [of s u] page_range_at using b(3) by (auto simp: pool_pages_def p_def)
    moreover have "same_pools s (set_used_map u b s)" using b(2) by (auto simp: same_pools_def p_def)
    ultimately show ?thesis using r run_ok_bound(2) [OF assms(1) _ assms(2)] assms(4) by (auto simp: zeroed_def)
  next
    assume "palloc_get_multiple fl n s = (if fl AND PAL_ASSERT = 0 then Some (0, s) else None)"
    with assms(3) show ?thesis by simp
  qed
qed

lemma palloc_free_range:
  assumes "wf_kstate s" "0 < n" "run_ok s p n" "page_range p n \<subseteq> all_pages s"
  shows "\<exists>s'. palloc_free_multiple p n s = Some s' \<and> wf_kstate s' \<and> all_pages s' = all_pages s - page_range p n \<and>
    ram s' = memset_words (ram s) p 0xcccccccc (4096 * n) \<and> same_pools s s'"
proof -
  obtain u i where p: "p = page_at (get_pool u s) i" "i + n \<le> bit_cnt (used_map (get_pool u s))"
    using assms(3) by (auto simp: run_ok_def)
  define q where "q = get_pool u s"
  have used: "{i..<i + n} \<subseteq> bm_used (used_map q)"
    using assms(4) page_in_pool_iff [OF assms(1), of _ u] p by (auto simp: page_range_at q_def)
  obtain b where b: "palloc_free_multiple p n s =
      Some (set_used_map u b (s\<lparr>ram := memset_words (ram s) p 0xcccccccc (wrap32 (4096 * n))\<rparr>))"
    "bm_wf b" "bit_cnt b = bit_cnt (used_map q)" "bm_used b = bm_used (used_map q) - {i..<i + n}"
    using palloc_free_multiple_ok [OF assms(1,2), of i u] p used by (auto simp flip: q_def)
  have "page_at q ` (bm_used (used_map q) - {i..<i + n}) = page_at q ` bm_used (used_map q) - page_range p n"
    unfolding p(1) page_range_at q_def [symmetric]
    using wf_get_pool [OF assms(1)] p(2) by (intro image_page_range) (auto simp: q_def bm_used_def)
  moreover have "page_range p n \<inter> pool_pages (get_pool (\<not> u) s) = {}"
    using page_not_in_other [OF assms(1)] p by (auto simp: page_range_at)
  ultimately have "all_pages (set_used_map u b s) = all_pages s - page_range p n"
    unfolding all_pages_set all_pages_eq [of s u] using b(4) by (auto simp: pool_pages_def simp flip: q_def)
  moreover have "wf_kstate (set_used_map u b s)"
    using wf_set_used_map [OF assms(1) b(2)] b(3) by (simp add: q_def)
  moreover have "same_pools s (set_used_map u b s)" using b(3) by (auto simp: same_pools_def q_def)
  ultimately show ?thesis
    using b(1) run_ok_bound(4) [OF assms(1,3,2)] by (simp add: set_used_map_ram)
qed

text \<open>Which pool a page is from, and when a pool has no free page.\<close>

definition in_pool :: "bool \<Rightarrow> kstate \<Rightarrow> u32 \<Rightarrow> bool" where
  "in_pool u s p \<longleftrightarrow> (\<exists>i<bit_cnt (used_map (get_pool u s)). p = page_at (get_pool u s) i)"

definition pool_full :: "bool \<Rightarrow> kstate \<Rightarrow> bool" where
  "pool_full u s \<longleftrightarrow> (\<forall>p. in_pool u s p \<longrightarrow> p \<in> all_pages s)"

lemma in_pool_same: "same_pools s s' \<Longrightarrow> in_pool u s' p = in_pool u s p"
  by (simp add: in_pool_def same_pools_def page_at_def)

lemma in_pool_user:
  assumes "wf_kstate s" "in_pool True s p"
  shows "unat p + 4096 \<le> pool_end (user_pool s)" "\<not> in_pool False s p"
proof -
  note wu = wf_get_pool [OF assms(1), of True] and wk = wf_get_pool [OF assms(1), of False]
  obtain i where i: "i < bit_cnt (used_map (get_pool True s))" "p = page_at (get_pool True s) i"
    using assms(2) by (auto simp: in_pool_def)
  have u: "unat p = unat (pool_base (user_pool s)) + 4096 * i" using unat_page_at [OF wu i(1)] i(2) by (simp add: get_pool_def)
  then show "unat p + 4096 \<le> pool_end (user_pool s)" using i(1) by (simp add: pool_end_def get_pool_def)
  show "\<not> in_pool False s p"
  proof
    assume "in_pool False s p"
    then obtain j where j: "j < bit_cnt (used_map (kernel_pool s))" "p = page_at (kernel_pool s) j"
      by (auto simp: in_pool_def get_pool_def)
    then have "unat p < pool_end (kernel_pool s)"
      using unat_page_at [of "kernel_pool s" j] wk by (simp add: pool_end_def get_pool_def)
    then show False using u assms(1) by (simp add: wf_kstate_def)
  qed
qed

lemma page_get_pool:
  fixes fl :: u32
  defines "u \<equiv> (fl AND PAL_USER \<noteq> 0)"
  assumes "wf_kstate s" "fl AND PAL_ASSERT = 0" "palloc_get_page fl s = Some (p, s')"
  shows "same_pools s s'" "p \<noteq> 0 \<Longrightarrow> in_pool u s p" "p = 0 \<Longrightarrow> pool_full u s"
proof -
  define q where "q = get_pool u s"
  note c = palloc_get_multiple_cases [OF assms(2) zero_less_one, of fl, folded u_def, folded q_def]
  have "same_pools s s' \<and> (p \<noteq> 0 \<longrightarrow> in_pool u s p) \<and> (p = 0 \<longrightarrow> pool_full u s)"
    using c
  proof (elim disjE exE conjE)
    fix i b
    assume g: "palloc_get_multiple fl 1 s = Some (page_at q i, zeroed fl (page_at q i) 1 (set_used_map u b s))"
      and i: "i + 1 \<le> bit_cnt (used_map q)" and b: "bit_cnt b = bit_cnt (used_map q)"
    have lt: "i < bit_cnt (used_map q)" using i by simp
    have "page_at q i \<noteq> 0"
      using page_at_kernel [of q i] wf_get_pool [OF assms(2), of u] lt PHYS_BASE_nonzero by (simp add: q_def)
    then show ?thesis using g assms(4) lt b by (auto simp: palloc_get_page_def same_pools_def in_pool_def q_def)
  next
    assume "palloc_get_multiple fl 1 s = (if fl AND PAL_ASSERT = 0 then Some (0, s) else None)"
      and n: "\<forall>i. i + 1 \<le> bit_cnt (used_map q) \<longrightarrow> {i..<i + 1} \<inter> bm_used (used_map q) \<noteq> {}"
    then have r: "p = 0" "s' = s" using assms(3,4) by (simp_all add: palloc_get_page_def)
    have "page_at q i \<in> all_pages s" if "i < bit_cnt (used_map q)" for i
    proof -
      have "{i..<i + 1} \<inter> bm_used (used_map q) \<noteq> {}" using n that by simp
      then have "i \<in> bm_used (used_map q)" by (auto simp: less_Suc_eq_le order_antisym)
      then show ?thesis unfolding all_pages_eq [of s u] by (simp add: pool_pages_def q_def)
    qed
    then show ?thesis using r by (auto simp: pool_full_def in_pool_def q_def)
  qed
  then show "same_pools s s'" "p \<noteq> 0 \<Longrightarrow> in_pool u s p" "p = 0 \<Longrightarrow> pool_full u s" by blast+
qed

lemma free_page_pools:
  assumes "wf_kstate s" "p \<in> all_pages s" "palloc_free_page p s = Some s'"
  shows "same_pools s s'"
proof -
  obtain u i where i: "i \<in> bm_used (used_map (get_pool u s))" "p = page_at (get_pool u s) i" using all_pagesE [OF assms(2)] .
  have "i + 1 \<le> bit_cnt (used_map (get_pool u s))" using i(1) by (simp add: bm_used_def)
  then have "run_ok s p 1" using i(2) by (auto simp: run_ok_def)
  moreover have "page_range p 1 \<subseteq> all_pages s" using assms(2) by (auto simp: page_range_def)
  ultimately obtain s1 where "palloc_free_multiple p 1 s = Some s1" "same_pools s s1"
    using palloc_free_range [OF assms(1) zero_less_one] by blast
  then show ?thesis using assms(3) by (simp add: palloc_free_page_def)
qed

section \<open>Properties\<close>

text \<open>
  A call of \<open>palloc_get_multiple\<close> that returns pages returns a page-aligned kernel
  address of a range of \<open>n\<close> pages none of which was allocated, adds exactly these to the
  allocated pages, zeroes them if asked to and leaves the rest of memory alone; freeing the range
  gives back the former set of allocated pages.
\<close>

lemma palloc_get_multiple_fresh:
  assumes "wf_kstate s" "0 < n" "palloc_get_multiple flags n s = Some (pages, s')" "pages \<noteq> 0"
  shows "aligned pages \<and> PHYS_BASE \<le> pages \<and> page_range pages n \<inter> all_pages s = {} \<and>
    wf_kstate s' \<and> all_pages s' = all_pages s \<union> page_range pages n \<and>
    ram s' = (if flags AND PAL_ZERO \<noteq> 0 then memset_words (ram s) pages 0 (4096 * n) else ram s) \<and>
    (\<exists>s''. palloc_free_multiple pages n s' = Some s'' \<and> wf_kstate s'' \<and> all_pages s'' = all_pages s)"
proof -
  define u where "u = (flags AND PAL_USER \<noteq> 0)"
  define p where "p = get_pool u s"
  have wfp: "wf_pool p" using wf_get_pool [OF assms(1)] by (simp add: p_def)
  obtain i b where r: "pages = page_at p i" "s' = zeroed flags (page_at p i) n (set_used_map u b s)"
      and i: "i + n \<le> bit_cnt (used_map p)" "{i..<i + n} \<inter> bm_used (used_map p) = {}"
      and b: "bm_wf b" "bit_cnt b = bit_cnt (used_map p)"
        "bm_used b = bm_used (used_map p) \<union> {i..<i + n}"
    using palloc_get_multiple_cases [OF assms(1,2), of flags, folded u_def, folded p_def] assms(3,4)
    by (elim disjE exE conjE) (auto split: if_splits)
  have lt: "i < bit_cnt (used_map p)" using i(1) assms(2) by simp
  have small: "wrap32 (4096 * n) = 4096 * n"
    using wfp i(1) by (simp add: wf_pool_def PHYS_BASE_def word_le_nat_alt)
  have fresh: "page_range pages n \<inter> all_pages s = {}"
    using page_in_pool_iff [OF assms(1), of _ u] i by (auto simp: r(1) page_range_at p_def)
  have wfu: "wf_kstate (set_used_map u b s)"
    using wf_set_used_map [OF assms(1) b(1)] b(2) by (simp add: p_def)
  have pages: "all_pages (set_used_map u b s) = all_pages s \<union> page_range pages n"
    unfolding all_pages_set all_pages_eq [of s u] r(1) page_range_at using b(3)
    by (auto simp: pool_pages_def p_def)
  have gp: "get_pool u s' = p\<lparr>used_map := b\<rparr>" using r(2) by (simp add: p_def)
  have wf': "wf_kstate s'" using r(2) wfu by simp
  obtain c where c: "palloc_free_multiple (page_at p i) n s' =
      Some (set_used_map u c (s'\<lparr>ram := memset_words (ram s') (page_at p i) 0xcccccccc (wrap32 (4096 * n))\<rparr>))"
      "bm_wf c" "bit_cnt c = bit_cnt b" "bm_used c = bm_used b - {i..<i + n}"
    using palloc_free_multiple_ok [OF wf' assms(2), of i u] i(1) b(2,3) gp by auto
  have "bm_used c = bm_used (used_map p)" using c(4) b(3) i(2) by auto
  then have "all_pages (set_used_map u c s') = all_pages s"
    unfolding all_pages_set all_pages_eq [of s u] using r(2) gp
    by (simp add: pool_pages_def p_def)
  moreover have "wf_kstate (set_used_map u c s')"
    using wf_set_used_map [OF wf' c(2)] c(3) gp by simp
  ultimately have "\<exists>s''. palloc_free_multiple pages n s' = Some s'' \<and> wf_kstate s'' \<and> all_pages s'' = all_pages s"
    using c(1) r(1) by (simp add: set_used_map_ram)
  moreover have "ram s' = (if flags AND PAL_ZERO \<noteq> 0 then memset_words (ram s) pages 0 (4096 * n) else ram s)"
    using r small by (simp add: zeroed_def)
  ultimately show ?thesis
    using fresh wf' pages r page_at_aligned [OF wfp lt] page_at_kernel [OF wfp lt] by simp
qed

definition small_pools :: kstate where
  "small_pools =
     \<lparr>kernel_pool = \<lparr>used_map = \<lparr>bit_cnt = 4, bits = [1]\<rparr>, pool_base = 0xc0101000\<rparr>,
      user_pool = \<lparr>used_map = \<lparr>bit_cnt = 4, bits = [0]\<rparr>, pool_base = 0xc0106000\<rparr>,
      ram = (\<lambda>_. 0)\<rparr>"

lemma wf_small_pools: "wf_kstate small_pools"
  by (simp add: wf_kstate_def wf_pool_def small_pools_def bm_wf_def aligned_def PHYS_BASE_def pool_end_def)

lemma small_pools_get:
  "\<exists>s'. palloc_get_multiple 0 2 small_pools = Some (0xc0102000, s')"
  by (simp add: palloc_get_multiple_def small_pools_def get_pool_def bitmap_scan_and_flip_def
      bitmap_scan_def scan_loop.simps bitmap_contains_def numeral_2_eq_2 bitmap_test_def bit_op_defs
      bitmap_set_multiple_def bitmap_set_def bitmap_mark_def BITMAP_ERROR_def PAL_USER_def
      PGSIZE_eq Let_def)

lemma palloc_get_multiple_fresh_example:
  "\<exists>s' s''. palloc_get_multiple 0 2 small_pools = Some (0xc0102000, s') \<and>
     palloc_free_multiple 0xc0102000 2 s' = Some s'' \<and> all_pages s'' = all_pages small_pools"
proof -
  obtain s' where s': "palloc_get_multiple 0 2 small_pools = Some (0xc0102000, s')"
    using small_pools_get by blast
  have two: "0 < (2::nat)" "(0xc0102000 :: u32) \<noteq> 0" by simp_all
  show ?thesis
    using s' palloc_get_multiple_fresh [OF wf_small_pools two(1) s' two(2)] by blast
qed

text \<open>
  C18. The page allocator as its single-page clients see it: it keeps its invariant; any number
  of pages asked for one after the other are distinct and were free; freeing an allocated page
  removes just it; and freeing anything else than an allocated page, in particular freeing a
  page twice, panics.
\<close>

theorem palloc_pages_contract:
  assumes "wf_kstate s" "flags \<in> {0, PAL_ZERO, PAL_USER}"
  shows "(\<exists>ps s'. get_many (page_get flags) n s = Some (ps, s') \<and> wf_kstate s' \<and> distinct ps \<and>
      set ps \<inter> all_pages s = {} \<and> all_pages s' = all_pages s \<union> set ps) \<and>
    (\<forall>p. p \<in> all_pages s \<longrightarrow> (\<exists>s'. palloc_free_page p s = Some s' \<and> wf_kstate s' \<and>
      all_pages s' = all_pages s - {p} \<and> palloc_free_page p s' = None)) \<and>
    (\<forall>p. p \<noteq> 0 \<and> p \<notin> all_pages s \<longrightarrow> palloc_free_page p s = None)"
proof (intro conjI allI impI)
  show "\<exists>ps s'. get_many (page_get flags) n s = Some (ps, s') \<and> wf_kstate s' \<and> distinct ps \<and>
      set ps \<inter> all_pages s = {} \<and> all_pages s' = all_pages s \<union> set ps"
    using assms kpages.get_many_ok [OF assms(1), of n] kzpages.get_many_ok [OF assms(1), of n]
      upages.get_many_ok [OF assms(1), of n] by blast
next
  fix p assume p: "p \<in> all_pages s"
  then obtain s' where s': "palloc_free_page p s = Some s'" "wf_kstate s'" "all_pages s' = all_pages s - {p}"
    using kpages.put_ok [OF assms(1)] by blast
  moreover have "p \<noteq> 0" using all_pages_aligned(2) [OF assms(1) p] by (rule PHYS_BASE_nonzero)
  ultimately show "\<exists>s'. palloc_free_page p s = Some s' \<and> wf_kstate s' \<and>
      all_pages s' = all_pages s - {p} \<and> palloc_free_page p s' = None"
    using palloc_free_page_panics [of s' p] by auto
next
  fix p :: u32 assume "p \<noteq> 0 \<and> p \<notin> all_pages s"
  then show "palloc_free_page p s = None" using palloc_free_page_panics [OF assms(1)] by blast
qed

theorem palloc_pages_contract_witness:
  "\<exists>ps s'. get_many (page_get PAL_USER) 3 small_pools = Some (ps, s') \<and> distinct ps"
  using palloc_pages_contract [OF wf_small_pools, of PAL_USER 3] by blast

text \<open>
  \<open>palloc_init\<close> on a machine with between 1.5 MB and 1 GB of memory and a nonzero user
  page limit succeeds: both pools are well-formed and empty, they do not overlap, they lie
  between 1 MB and the end of memory, and the user pool gets no more than the limit.
\<close>

lemma palloc_init_ok:
  assumes "384 \<le> unat init_ram_pages" "unat init_ram_pages < 262144" "0 < user_page_limit"
  shows "\<exists>s. palloc_init m init_ram_pages user_page_limit = Some s \<and> wf_kstate s \<and> all_pages s = {} \<and>
    0xc0100000 < unat (pool_base (kernel_pool s)) \<and>
    pool_end (user_pool s) = 0xc0000000 + 4096 * unat init_ram_pages \<and>
    bit_cnt (used_map (user_pool s)) \<le> user_page_limit"
proof -
  define r where "r = unat init_ram_pages"
  define f where "f = r - 256"
  define un where "un = (if f div 2 > user_page_limit then user_page_limit else f div 2)"
  define kn where "kn = f - un"
  have r: "384 \<le> r" "r < 262144" using assms by (simp_all add: r_def)
  have un: "0 < un" "un \<le> f div 2" "un \<le> user_page_limit" using r assms(3) by (auto simp: un_def f_def)
  have kn: "0 < kn" "kn + un = f" using un r by (auto simp: kn_def f_def)
  have start: "ptov 1048576 = Some 0xc0100000" by (simp add: ptov_def PHYS_BASE_def)
  have e: "unat (init_ram_pages * PGSIZE) = 4096 * r"
    using r by (simp add: PGSIZE_eq unat_word_ariths r_def mult.commute)
  have fin: "ptov (init_ram_pages * PGSIZE) = Some (init_ram_pages * PGSIZE + PHYS_BASE)"
    using e r by (simp add: ptov_def word_less_nat_alt PHYS_BASE_def)
  have e2: "unat (init_ram_pages * PGSIZE + PHYS_BASE) = 3221225472 + 4096 * r"
    using e r unat_add_lem [of "init_ram_pages * PGSIZE" PHYS_BASE] by (simp add: PHYS_BASE_def)
  have "(0xc0100000 :: u32) \<le> init_ram_pages * PGSIZE + PHYS_BASE"
    unfolding word_le_nat_alt e2 using r by simp
  then have "unat (init_ram_pages * PGSIZE + PHYS_BASE - 0xc0100000) = 4096 * f"
    using r e2 by (simp add: unat_sub f_def diff_mult_distrib2)
  then have fp: "unat (init_ram_pages * PGSIZE + PHYS_BASE - 0xc0100000) div 4096 = f" by simp
  have kb: "unat (0xc0100000 :: u32) + 4096 * kn < 4294967296" using kn r by (simp add: f_def)
  have al: "aligned 0xc0100000" by (simp add: aligned_def)
  obtain kp where kp: "init_pool m 0xc0100000 kn = Some kp" "wf_pool kp" "bm_used (used_map kp) = {}"
      "0xc0100000 < unat (pool_base kp)" "pool_end kp = 0xc0100000 + 4096 * kn"
    using init_pool_ok [of kn "0xc0100000" m] kn r kb al by (auto simp: f_def PHYS_BASE_def)
  define ub where "ub = (0xc0100000 :: u32) + word_of_nat kn * PGSIZE"
  have ub: "unat ub = 0xc0100000 + 4096 * kn" using unat_page_offset [OF kb] by (simp add: ub_def)
  then have "unat ub = 4096 * (786688 + kn)" by simp
  then have ual: "aligned ub" by (rule alignedI)
  have "kn + un < 261888" using kn r by (simp add: f_def)
  then have "4096 * kn + 4096 * un < 1072693248" by linarith
  with ual obtain up where up: "init_pool m ub un = Some up" "wf_pool up" "bm_used (used_map up) = {}"
      "unat ub < unat (pool_base up)" "pool_end up = unat ub + 4096 * un"
    using init_pool_ok [of un ub m] un kn r ub by (auto simp: f_def PHYS_BASE_def word_le_nat_alt)
  have init: "palloc_init m init_ram_pages user_page_limit = Some \<lparr>kernel_pool = kp, user_pool = up, ram = m\<rparr>"
    using kp(1) up(1)
    by (cases "f div 2 > user_page_limit")
      (simp_all add: palloc_init_def start fin fp Let_def kn_def un_def ub_def)
  have "bit_cnt (used_map up) \<le> un" using up(4,5) by (simp add: pool_end_def)
  with init kp up ub un(3) kn r show ?thesis
    by (auto simp: wf_kstate_def all_pages_def pool_pages_def r_def f_def)
qed

lemma palloc_init_ok_example:
  "\<exists>s. palloc_init (\<lambda>_. 0) 1024 100 = Some s \<and> wf_kstate s"
  using palloc_init_ok [of 1024 100 "\<lambda>_. 0"] by auto

end
