(* ===== verification/Malloc.thy ===== *)
theory Malloc
  imports Palloc
begin

text \<open>
  The block allocator, \<open>threads/malloc.c\<close>, on top of the page allocator.

  \<^item> The header of an arena is in \<open>ram\<close>: the words at the page address hold \<open>magic\<close>, \<open>desc\<close> and
    \<open>free_cnt\<close>. A pointer to \<open>descs[i]\<close> is the word \<open>i + 1\<close>, the null pointer is 0.
  \<^item> A free list is the sequence of its blocks; the links, which lie in the free blocks, are the
    subject of \<open>Klist\<close>. Removing a block that is not in the list is \<open>None\<close>.
  \<^item> A descriptor's lock, held from the test of the free list to the end of a call, makes a call
    atomic. Sizes are \<open>size_t\<close> and wrap.
\<close>

section \<open>The code\<close>

record desc =
  d_block_size :: nat
  d_blocks_per_arena :: nat
  d_free_list :: "u32 list"

record mheap =
  pages_st :: kstate
  descs :: "desc list"

definition ARENA_MAGIC :: u32 where "ARENA_MAGIC = 0x9a548eed"

definition arena_size :: nat where "arena_size = 12"

definition word_at :: "mheap \<Rightarrow> u32 \<Rightarrow> u32" where
  "word_at s a = ram (pages_st s) a"

definition set_word :: "u32 \<Rightarrow> u32 \<Rightarrow> mheap \<Rightarrow> mheap" where
  "set_word a v s = s\<lparr>pages_st := (pages_st s)\<lparr>ram := (ram (pages_st s))(a := v)\<rparr>\<rparr>"

definition set_header :: "u32 \<Rightarrow> u32 \<Rightarrow> u32 \<Rightarrow> mheap \<Rightarrow> mheap" where
  "set_header a d n s = set_word (a + 8) n (set_word (a + 4) d (set_word a ARENA_MAGIC s))"

definition set_free_list :: "nat \<Rightarrow> u32 list \<Rightarrow> mheap \<Rightarrow> mheap" where
  "set_free_list i xs s = s\<lparr>descs := (descs s)[i := (descs s ! i)\<lparr>d_free_list := xs\<rparr>]\<rparr>"

text \<open>The first \<open>n\<close> bytes from \<open>a\<close> on become those of \<open>f\<close>; a last word may be changed in part.\<close>

definition store_bytes :: "(u32 \<Rightarrow> u32) \<Rightarrow> u32 \<Rightarrow> nat \<Rightarrow> (u32 \<Rightarrow> u32) \<Rightarrow> u32 \<Rightarrow> u32" where
  "store_bytes m a n f x =
     (let k = unat (x - a) in
      if k + 4 \<le> n then f x
      else if k < n then (f x AND mask (8 * (n - k))) OR (m x AND NOT (mask (8 * (n - k))))
      else m x)"

definition update_ram :: "((u32 \<Rightarrow> u32) \<Rightarrow> u32 \<Rightarrow> u32) \<Rightarrow> mheap \<Rightarrow> mheap" where
  "update_ram g s = s\<lparr>pages_st := (pages_st s)\<lparr>ram := g (ram (pages_st s))\<rparr>\<rparr>"

partial_function (option) malloc_init_loop :: "nat \<Rightarrow> desc list \<Rightarrow> desc list option" where
  "malloc_init_loop bs ds =
     (if bs < 4096 div 2 then do {
        kassert (length ds + 1 \<le> 10);
        malloc_init_loop (bs * 2)
          (ds @ [\<lparr>d_block_size = bs, d_blocks_per_arena = (4096 - arena_size) div bs, d_free_list = []\<rparr>])
      } else Some ds)"

definition malloc_init :: "kstate \<Rightarrow> mheap option" where
  "malloc_init ks = do { ds \<leftarrow> malloc_init_loop 16 []; Some \<lparr>pages_st = ks, descs = ds\<rparr> }"

text \<open>The descriptor that a pointer points to; \<open>None\<close> inside is the null pointer.\<close>

definition desc_at :: "mheap \<Rightarrow> u32 \<Rightarrow> nat option option" where
  "desc_at s p =
     (if p = 0 then Some None
      else if unat p \<le> length (descs s) then Some (Some (unat p - 1)) else None)"

definition block_to_arena :: "u32 \<Rightarrow> mheap \<Rightarrow> u32 option" where
  "block_to_arena b s = do {
     let a = pg_round_down b;
     kassert (a \<noteq> 0);
     kassert (word_at s a = ARENA_MAGIC);
     d \<leftarrow> desc_at s (word_at s (a + 4));
     kassert (case d of None \<Rightarrow> True
              | Some i \<Rightarrow> unat (pg_ofs b - word_of_nat arena_size) mod d_block_size (descs s ! i) = 0);
     kassert (d \<noteq> None \<or> pg_ofs b = word_of_nat arena_size);
     Some a
   }"

definition arena_to_block :: "u32 \<Rightarrow> nat \<Rightarrow> mheap \<Rightarrow> u32 option" where
  "arena_to_block a idx s = do {
     kassert (a \<noteq> 0);
     kassert (word_at s a = ARENA_MAGIC);
     d \<leftarrow> desc_at s (word_at s (a + 4));
     (case d of None \<Rightarrow> None
      | Some i \<Rightarrow> do {
          kassert (idx < d_blocks_per_arena (descs s ! i));
          Some (a + word_of_nat arena_size + word_of_nat idx * word_of_nat (d_block_size (descs s ! i)))
        })
   }"

fun find_desc :: "nat \<Rightarrow> nat \<Rightarrow> desc list \<Rightarrow> nat" where
  "find_desc sz i [] = i"
| "find_desc sz i (d # ds) = (if d_block_size d \<ge> sz then i else find_desc sz (i + 1) ds)"

text \<open>The blocks from \<open>idx\<close> on are added to the back of the free list.\<close>

fun add_blocks :: "nat \<Rightarrow> u32 \<Rightarrow> nat \<Rightarrow> nat \<Rightarrow> mheap \<Rightarrow> mheap option" where
  "add_blocks i a idx 0 s = Some s"
| "add_blocks i a idx (Suc n) s = do {
     b \<leftarrow> arena_to_block a idx s;
     add_blocks i a (idx + 1) n (set_free_list i (d_free_list (descs s ! i) @ [b]) s)
   }"

definition malloc :: "nat \<Rightarrow> mheap \<Rightarrow> (u32 \<times> mheap) option" where
  "malloc sz s =
     (if sz = 0 then Some (0, s)
      else let i = find_desc sz 0 (descs s) in
        if i = length (descs s) then do {
          let page_cnt = div_round_up (wrap32 (sz + arena_size)) 4096;
          (a, ks) \<leftarrow> palloc_get_multiple 0 page_cnt (pages_st s);
          (if a = 0 then Some (0, s\<lparr>pages_st := ks\<rparr>)
           else Some (a + word_of_nat arena_size, set_header a 0 (word_of_nat page_cnt) (s\<lparr>pages_st := ks\<rparr>)))
        } else do {
          (ok, s1) \<leftarrow>
            (if d_free_list (descs s ! i) = [] then do {
               (a, ks) \<leftarrow> palloc_get_page 0 (pages_st s);
               let s' = s\<lparr>pages_st := ks\<rparr>;
               (if a = 0 then Some (False, s')
                else do {
                  s'' \<leftarrow> add_blocks i a 0 (d_blocks_per_arena (descs s ! i))
                    (set_header a (word_of_nat (i + 1)) (word_of_nat (d_blocks_per_arena (descs s ! i))) s');
                  Some (True, s'')
                })
             } else Some (True, s));
          (if \<not> ok then Some (0, s1)
           else (case d_free_list (descs s1 ! i) of
                   [] \<Rightarrow> None
                 | b # bs \<Rightarrow> do {
                     let s2 = set_free_list i bs s1;
                     a \<leftarrow> block_to_arena b s2;
                     Some (b, set_word (a + 8) (word_at s2 (a + 8) - 1) s2)
                   }))
        })"

definition block_size :: "u32 \<Rightarrow> mheap \<Rightarrow> nat option" where
  "block_size b s = do {
     a \<leftarrow> block_to_arena b s;
     d \<leftarrow> desc_at s (word_at s (a + 4));
     Some (case d of Some i \<Rightarrow> d_block_size (descs s ! i)
           | None \<Rightarrow> unat (4096 * word_at s (a + 8) - pg_ofs b))
   }"

fun remove_blocks :: "nat \<Rightarrow> u32 \<Rightarrow> nat \<Rightarrow> nat \<Rightarrow> mheap \<Rightarrow> mheap option" where
  "remove_blocks i a idx 0 s = Some s"
| "remove_blocks i a idx (Suc n) s = do {
     b \<leftarrow> arena_to_block a idx s;
     kassert (b \<in> set (d_free_list (descs s ! i)));
     remove_blocks i a (idx + 1) n (set_free_list i (remove1 b (d_free_list (descs s ! i))) s)
   }"

definition mfree :: "u32 \<Rightarrow> mheap \<Rightarrow> mheap option" where
  "mfree p s =
     (if p = 0 then Some s
      else do {
        a \<leftarrow> block_to_arena p s;
        d \<leftarrow> desc_at s (word_at s (a + 4));
        (case d of
           Some i \<Rightarrow> do {
             let s1 = update_ram (\<lambda>m. store_bytes m p (d_block_size (descs s ! i)) (\<lambda>x. 0xcccccccc)) s;
             let s2 = set_free_list i (p # d_free_list (descs s1 ! i)) s1;
             let s3 = set_word (a + 8) (word_at s2 (a + 8) + 1) s2;
             (if unat (word_at s3 (a + 8)) \<ge> d_blocks_per_arena (descs s3 ! i) then do {
                kassert (unat (word_at s3 (a + 8)) = d_blocks_per_arena (descs s3 ! i));
                s4 \<leftarrow> remove_blocks i a 0 (d_blocks_per_arena (descs s3 ! i)) s3;
                ks \<leftarrow> palloc_free_page a (pages_st s4);
                Some (s4\<lparr>pages_st := ks\<rparr>)
              } else Some s3)
           }
         | None \<Rightarrow> do {
             ks \<leftarrow> palloc_free_multiple a (unat (word_at s (a + 8))) (pages_st s);
             Some (s\<lparr>pages_st := ks\<rparr>)
           })
      })"

definition calloc :: "nat \<Rightarrow> nat \<Rightarrow> mheap \<Rightarrow> (u32 \<times> mheap) option" where
  "calloc a b s =
     (let sz = wrap32 (a * b) in
      if sz < a \<or> sz < b then Some (0, s)
      else do {
        (p, s1) \<leftarrow> malloc sz s;
        Some (p, if p \<noteq> 0 then update_ram (\<lambda>m. store_bytes m p sz (\<lambda>x. 0)) s1 else s1)
      })"

definition realloc :: "u32 \<Rightarrow> nat \<Rightarrow> mheap \<Rightarrow> (u32 \<times> mheap) option" where
  "realloc old_block new_size s =
     (if new_size = 0 then do { s1 \<leftarrow> mfree old_block s; Some (0, s1) }
      else do {
        (new_block, s1) \<leftarrow> malloc new_size s;
        (if old_block \<noteq> 0 \<and> new_block \<noteq> 0 then do {
           old_size \<leftarrow> block_size old_block s1;
           let min_size = (if new_size < old_size then new_size else old_size);
           s2 \<leftarrow> mfree old_block
             (update_ram (\<lambda>m. store_bytes m new_block min_size (\<lambda>x. m (old_block + (x - new_block)))) s1);
           Some (new_block, s2)
         } else Some (new_block, s1))
      })"

section \<open>Blocks of an arena\<close>

definition bsz :: "nat \<Rightarrow> nat" where "bsz i = 16 * 2 ^ i"

definition bpa :: "nat \<Rightarrow> nat" where "bpa i = 4084 div bsz i"

definition blk :: "u32 \<Rightarrow> nat \<Rightarrow> nat \<Rightarrow> u32" where
  "blk a i k = a + word_of_nat (12 + bsz i * k)"

abbreviation free_blocks :: "mheap \<Rightarrow> nat \<Rightarrow> u32 list" where
  "free_blocks s i \<equiv> d_free_list (descs s ! i)"

lemma bsz_bpa: "k < bpa i \<Longrightarrow> 12 + bsz i * k + bsz i \<le> 4096"
proof -
  assume "k < bpa i"
  then have "bsz i * (k + 1) \<le> bsz i * bpa i" by (intro mult_le_mono2) simp
  also have "\<dots> \<le> 4084" by (simp add: bpa_def)
  finally show ?thesis by simp
qed

lemma bsz_pos: "0 < bsz i" "16 \<le> bsz i"
  by (simp_all add: bsz_def)

lemma bpa_pos: "i < 7 \<Longrightarrow> 0 < bpa i" "bpa i \<le> 255"
proof -
  have "bsz i \<le> 1024" if "i < 7"
    using power_increasing [of i 6 "2 :: nat"] that by (simp add: bsz_def)
  then show "i < 7 \<Longrightarrow> 0 < bpa i" by (fastforce simp: bpa_def div_greater_zero_iff bsz_pos)
  show "bpa i \<le> 255" using div_le_mono2 [of 16 "bsz i" 4084] bsz_pos(2) [of i] by (simp add: bpa_def)
qed

lemma blk_page:
  assumes "aligned a" "k < bpa i"
  shows "unat (blk a i k) = unat a + 12 + bsz i * k" "pg_round_down (blk a i k) = a" "unat (pg_ofs (blk a i k)) = 12 + bsz i * k"
    "blk a i k \<noteq> 0"
proof -
  have l: "12 + bsz i * k < 4096" using bsz_bpa [OF assms(2)] bsz_pos [of i] by linarith
  then have u: "unat (word_of_nat (12 + bsz i * k) :: u32) = 12 + bsz i * k"
    by (intro unat_word_of_nat_32) linarith
  then have l': "unat (word_of_nat (12 + bsz i * k) :: u32) < 4096" using l by simp
  show v: "unat (blk a i k) = unat a + 12 + bsz i * k" unfolding blk_def unat_page_plus [OF assms(1) l'] u by simp
  show "pg_round_down (blk a i k) = a" unfolding blk_def by (rule pg_round_down_page [OF assms(1) l'])
  obtain j where "unat a = 4096 * j" using alignedE [OF assms(1)] .
  then show "unat (pg_ofs (blk a i k)) = 12 + bsz i * k" unfolding unat_pg_ofs v using l by (simp add: add.assoc)
  show "blk a i k \<noteq> 0" using v by auto
qed

lemma blk_inj:
  assumes "aligned a" "aligned b" "k < bpa i" "l < bpa j" "blk a i k = blk b j l"
  shows "a = b \<and> (i = j \<longrightarrow> k = l)"
proof -
  have "a = b" using blk_page(2) [OF assms(1,3)] blk_page(2) [OF assms(2,4)] assms(5) by simp
  moreover have "k = l" if "i = j"
  proof -
    have "unat a + 12 + bsz i * k = unat b + 12 + bsz j * l"
      using blk_page(1) [OF assms(1,3)] blk_page(1) [OF assms(2,4)] assms(5) by argo
    then have "bsz j * k = bsz j * l" using \<open>a = b\<close> that by simp
    then show ?thesis using bsz_pos(1) [of j] by simp
  qed
  ultimately show ?thesis by blast
qed

section \<open>The invariant\<close>

text \<open>Who owns a page: the arena of a descriptor, a big block with its first page and its number
  of pages, or another user of the page allocator.\<close>

datatype owner = Small nat | Big u32 nat | Other

definition hdr :: "mheap \<Rightarrow> u32 \<Rightarrow> u32 \<Rightarrow> u32 \<Rightarrow> bool" where
  "hdr s a d c \<longleftrightarrow> word_at s a = ARENA_MAGIC \<and> word_at s (a + 4) = d \<and> word_at s (a + 8) = c"

definition std :: "mheap \<Rightarrow> bool" where
  "std s \<longleftrightarrow> length (descs s) = 7 \<and>
     (\<forall>i<7. d_block_size (descs s ! i) = bsz i \<and> d_blocks_per_arena (descs s ! i) = bpa i)"

definition free_in :: "mheap \<Rightarrow> u32 \<Rightarrow> nat \<Rightarrow> nat set" where
  "free_in s a i = {k. k < bpa i \<and> blk a i k \<in> set (free_blocks s i)}"

definition lists_ok :: "mheap \<Rightarrow> (u32 \<rightharpoonup> owner) \<Rightarrow> bool" where
  "lists_ok s own \<longleftrightarrow> (\<forall>i<7. distinct (free_blocks s i) \<and>
     (\<forall>b\<in>set (free_blocks s i). \<exists>a k. own a = Some (Small i) \<and> k < bpa i \<and> b = blk a i k))"

definition small_ok :: "mheap \<Rightarrow> u32 set \<Rightarrow> u32 \<Rightarrow> nat \<Rightarrow> bool" where
  "small_ok s X a i \<longleftrightarrow> i < 7 \<and> hdr s a (word_of_nat (i + 1)) (word_of_nat (card (free_in s a i))) \<and>
     (card (free_in s a i) < bpa i \<or> a \<in> X)"

definition big_ok :: "mheap \<Rightarrow> (u32 \<rightharpoonup> owner) \<Rightarrow> u32 \<Rightarrow> u32 \<Rightarrow> nat \<Rightarrow> bool" where
  "big_ok s own q p n \<longleftrightarrow> 0 < n \<and> q \<in> page_range p n \<and> (\<forall>r\<in>page_range p n. own r = Some (Big p n)) \<and>
     run_ok (pages_st s) p n \<and> hdr s p 0 (word_of_nat n)"

definition heap_inv :: "u32 set \<Rightarrow> mheap \<Rightarrow> (u32 \<rightharpoonup> owner) \<Rightarrow> bool" where
  "heap_inv X s own \<longleftrightarrow> wf_kstate (pages_st s) \<and> std s \<and> dom own \<subseteq> all_pages (pages_st s) \<and> lists_ok s own \<and>
     (\<forall>a i. own a = Some (Small i) \<longrightarrow> small_ok s X a i) \<and>
     (\<forall>q p n. own q = Some (Big p n) \<longrightarrow> big_ok s own q p n)"

definition live :: "mheap \<Rightarrow> (u32 \<rightharpoonup> owner) \<Rightarrow> u32 \<Rightarrow> nat \<Rightarrow> bool" where
  "live s own p c \<longleftrightarrow>
     (\<exists>a i k. own a = Some (Small i) \<and> k < bpa i \<and> p = blk a i k \<and> p \<notin> set (free_blocks s i) \<and> c = bsz i) \<or>
     (\<exists>q n. own q = Some (Big q n) \<and> p = q + 12 \<and> c = 4096 * n - 12)"

lemma heap_invD:
  assumes "heap_inv X s own"
  shows "wf_kstate (pages_st s)" "std s" "dom own \<subseteq> all_pages (pages_st s)" "lists_ok s own"
    "own a = Some (Small i) \<Longrightarrow> small_ok s X a i" "own q = Some (Big p n) \<Longrightarrow> big_ok s own q p n"
    "own a = Some ow \<Longrightarrow> aligned a \<and> a \<noteq> 0 \<and> PHYS_BASE \<le> a"
proof -
  show a: "wf_kstate (pages_st s)" "std s" "dom own \<subseteq> all_pages (pages_st s)" "lists_ok s own"
    "own a = Some (Small i) \<Longrightarrow> small_ok s X a i" "own q = Some (Big p n) \<Longrightarrow> big_ok s own q p n"
    using assms by (simp_all add: heap_inv_def)
  show "own a = Some ow \<Longrightarrow> aligned a \<and> a \<noteq> 0 \<and> PHYS_BASE \<le> a"
    using all_pages_aligned [OF a(1), of a] a(3) PHYS_BASE_nonzero [of a] by blast
qed

lemma hdr_offsets: "aligned a \<Longrightarrow> x \<in> {a, a + 4, a + 8} \<Longrightarrow> pg_round_down x = a \<and> unat (pg_ofs x) < 12"
proof -
  assume a: "aligned a" and x: "x \<in> {a, a + 4, a + 8}"
  obtain j where j: "unat a = 4096 * j" using alignedE [OF a] .
  obtain d :: u32 where d: "x = a + d" "unat d < 12" using x by (auto intro: that [of 0] that [of 4] that [of 8])
  then have l: "unat d < 4096" by simp
  show ?thesis using pg_round_down_page [OF a l] unat_page_plus [OF a l] j d by (simp add: unat_pg_ofs)
qed

text \<open>The headers, and no other words, matter to the invariant.\<close>

definition headers :: "(u32 \<rightharpoonup> owner) \<Rightarrow> u32 set" where
  "headers own = {x. \<exists>a. x \<in> {a, a + 4, a + 8} \<and> ((\<exists>i. own a = Some (Small i)) \<or> (\<exists>n. own a = Some (Big a n)))}"

lemma hdr_same:
  assumes "\<forall>x\<in>headers own. word_at s' x = word_at s x" "(\<exists>i. own a = Some (Small i)) \<or> (\<exists>n. own a = Some (Big a n))"
  shows "hdr s' a d c = hdr s a d c"
proof -
  have "\<forall>x\<in>{a, a + 4, a + 8}. word_at s' x = word_at s x" using assms by (auto simp: headers_def)
  then show ?thesis by (simp add: hdr_def)
qed

lemma page_range_self: "0 < n \<Longrightarrow> p \<in> page_range p n"
  unfolding page_range_def by (rule image_eqI [where x = 0]) simp_all

lemma heap_inv_cong:
  assumes inv: "heap_inv X s own" and d: "descs s' = descs s"
    and p: "wf_kstate (pages_st s')" "dom own \<subseteq> all_pages (pages_st s')" "same_pools (pages_st s) (pages_st s')"
    and h: "\<forall>x\<in>headers own. word_at s' x = word_at s x"
  shows "heap_inv X s' own"
proof -
  have "small_ok s' X a i" if "own a = Some (Small i)" for a i
    using heap_invD(5) [OF inv that] hdr_same [OF h, of a] that d by (simp add: small_ok_def free_in_def)
  moreover have "big_ok s' own q r n" if o: "own q = Some (Big r n)" for q r n
  proof -
    have b: "big_ok s own q r n" by (rule heap_invD(6) [OF inv o])
    then have "own r = Some (Big r n)" by (simp add: big_ok_def page_range_self)
    then show ?thesis using b hdr_same [OF h, of r] run_ok_same [OF p(3)] by (simp add: big_ok_def)
  qed
  ultimately show ?thesis using heap_invD(1-4) [OF inv] p d by (simp add: heap_inv_def std_def lists_ok_def)
qed

lemma live_cong: "descs s' = descs s \<Longrightarrow> live s' own p c = live s own p c"
  by (simp add: live_def)

section \<open>From a block to its arena\<close>

lemma desc_at_small: "std s \<Longrightarrow> i < 7 \<Longrightarrow> desc_at s (word_of_nat (i + 1)) = Some (Some i)"
proof -
  assume s: "std s" "i < 7"
  have u: "unat (word_of_nat (i + 1) :: u32) = i + 1" by (rule unat_word_of_nat_32) (use s in simp)
  then have "(word_of_nat (i + 1) :: u32) \<noteq> 0" by (metis Suc_eq_plus1 nat.distinct(1) unsigned_0)
  then show ?thesis unfolding desc_at_def u using s by (simp add: std_def)
qed

lemma small_header:
  assumes "heap_inv X s own" "own a = Some (Small i)"
  shows "i < 7" "aligned a" "a \<noteq> 0" "word_at s a = ARENA_MAGIC" "desc_at s (word_at s (a + 4)) = Some (Some i)"
    "word_at s (a + 8) = word_of_nat (card (free_in s a i))" "d_block_size (descs s ! i) = bsz i"
    "d_blocks_per_arena (descs s ! i) = bpa i"
proof -
  have o: "small_ok s X a i" "std s" using heap_invD(2,5) [OF assms(1)] assms(2) by blast+
  then show i: "i < 7" by (simp add: small_ok_def)
  show "aligned a" "a \<noteq> 0" using heap_invD(7) [OF assms] by blast+
  show "word_at s a = ARENA_MAGIC" "word_at s (a + 8) = word_of_nat (card (free_in s a i))"
    using o by (simp_all add: small_ok_def hdr_def)
  show "desc_at s (word_at s (a + 4)) = Some (Some i)"
    using o desc_at_small [OF o(2) i] by (simp add: small_ok_def hdr_def)
  show "d_block_size (descs s ! i) = bsz i" "d_blocks_per_arena (descs s ! i) = bpa i" using o(2) i by (simp_all add: std_def)
qed

lemma to_arena_raw:
  assumes "aligned a" "a \<noteq> 0" "word_at s a = ARENA_MAGIC" "desc_at s (word_at s (a + 4)) = Some (Some i)"
    "d_block_size (descs s ! i) = bsz i" "k < bpa i"
  shows "block_to_arena (blk a i k) s = Some a"
proof -
  note b = blk_page [OF assms(1,6)]
  have "unat (12 :: u32) \<le> unat (pg_ofs (blk a i k))" using b(3) by simp
  then have "unat (pg_ofs (blk a i k) - 12) = bsz i * k"
    using b(3) unat_sub [of "12 :: u32" "pg_ofs (blk a i k)"] by (simp add: word_le_nat_alt)
  then show ?thesis unfolding block_to_arena_def b(2) Let_def using assms by (simp add: arena_size_def)
qed

lemma to_arena_small:
  "heap_inv X s own \<Longrightarrow> own a = Some (Small i) \<Longrightarrow> k < bpa i \<Longrightarrow> block_to_arena (blk a i k) s = Some a"
  using to_arena_raw [OF small_header(2-5,7)] by blast

lemma arena_block:
  assumes "heap_inv X s own" "own a = Some (Small i)" "k < bpa i"
  shows "arena_to_block a k s = Some (blk a i k)"
  using small_header [OF assms(1,2)] assms(3) by (simp add: arena_to_block_def arena_size_def blk_def mult.commute add.assoc)

lemma big_header:
  assumes "heap_inv X s own" "own p = Some (Big p n)"
  shows "0 < n" "aligned p" "p \<noteq> 0" "word_at s p = ARENA_MAGIC" "desc_at s (word_at s (p + 4)) = Some None"
    "word_at s (p + 8) = word_of_nat n" "unat (word_of_nat n :: u32) = n" "run_ok (pages_st s) p n"
    "page_range p n \<subseteq> dom own"
proof -
  have o: "big_ok s own p p n" using heap_invD(6) [OF assms] .
  then show n: "0 < n" and r: "run_ok (pages_st s) p n" and "page_range p n \<subseteq> dom own" by (auto simp: big_ok_def)
  show "aligned p" "p \<noteq> 0" using heap_invD(7) [OF assms] by blast+
  show "word_at s p = ARENA_MAGIC" "word_at s (p + 8) = word_of_nat n" "desc_at s (word_at s (p + 4)) = Some None"
    using o by (simp_all add: big_ok_def hdr_def desc_at_def)
  have "4096 * n \<le> 4294967296" using run_ok_bound(3) [OF heap_invD(1) [OF assms(1)] r n] by linarith
  then show "unat (word_of_nat n :: u32) = n" by (intro unat_word_of_nat_32) linarith
qed

lemma big_ofs: "aligned p \<Longrightarrow> pg_round_down (p + 12) = p" "aligned p \<Longrightarrow> pg_ofs (p + 12) = 12"
  "aligned p \<Longrightarrow> unat (p + 12) = unat p + 12"
proof -
  assume p: "aligned p"
  show "pg_round_down (p + 12) = p" by (rule pg_round_down_page [OF p]) simp
  show u: "unat (p + 12) = unat p + 12" using unat_page_plus [OF p, of 12] by simp
  obtain j where j: "unat p = 4096 * j" using alignedE [OF p] .
  have "unat (pg_ofs (p + 12)) = unat (12 :: u32)" unfolding unat_pg_ofs u using j by simp
  then show "pg_ofs (p + 12) = 12" by (rule unat_inj)
qed

lemma to_arena_big:
  assumes "heap_inv X s own" "own p = Some (Big p n)"
  shows "block_to_arena (p + 12) s = Some p"
proof -
  note h = big_header [OF assms]
  show ?thesis unfolding block_to_arena_def Let_def big_ofs(1,2) [OF h(2)] using h by (simp add: arena_size_def)
qed

lemma live_block_size:
  assumes "heap_inv X s own" "live s own p c"
  shows "block_size p s = Some c" "p \<noteq> 0"
proof -
  have "block_size p s = Some c \<and> p \<noteq> 0"
    using assms(2) unfolding live_def
  proof (elim disjE exE conjE)
    fix a i k assume o: "own a = Some (Small i)" and k: "k < bpa i" and e: "p = blk a i k" "c = bsz i"
    note h = small_header [OF assms(1) o]
    show ?thesis unfolding e block_size_def to_arena_small [OF assms(1) o k] using h blk_page(4) [OF h(2) k] by simp
  next
    fix q n assume o: "own q = Some (Big q n)" and e: "p = q + 12" "c = 4096 * n - 12"
    note h = big_header [OF assms(1) o]
    have le: "unat q + 4096 * n \<le> 4294967296" by (rule run_ok_bound(3) [OF heap_invD(1) [OF assms(1)] h(8,1)])
    have "PHYS_BASE \<le> q" using heap_invD(7) [OF assms(1) o] by blast
    then have "4096 * n < 4294967296" using le by (simp add: PHYS_BASE_def word_le_nat_alt)
    then have m: "unat (4096 * word_of_nat n :: u32) = 4096 * n" using h(7) by (simp add: unat_word_ariths)
    have "unat (4096 * word_of_nat n - 12 :: u32) = 4096 * n - 12"
      using unat_sub [of "12 :: u32" "4096 * word_of_nat n"] m h(1) by (simp add: word_le_nat_alt)
    moreover have "q + 12 \<noteq> 0" using big_ofs(3) [OF h(2)] by auto
    ultimately show ?thesis unfolding e block_size_def to_arena_big [OF assms(1) o] using h big_ofs(2) [OF h(2)] by simp
  qed
  then show "block_size p s = Some c" "p \<noteq> 0" by blast+
qed

section \<open>Words of a block\<close>

lemma state_simps [simp]:
  "word_at (set_word a v s) x = (if x = a then v else word_at s x)" "descs (set_word a v s) = descs s"
  "word_at (set_free_list i xs s) x = word_at s x" "pages_st (set_free_list i xs s) = pages_st s"
  "all_pages (pages_st (set_word a v s)) = all_pages (pages_st s)" "wf_kstate (pages_st (set_word a v s)) = wf_kstate (pages_st s)"
  "same_pools (pages_st s) (pages_st (set_word a v s))" "length (descs (set_free_list i xs s)) = length (descs s)"
  "descs (update_ram g s) = descs s" "wf_kstate (pages_st (update_ram g s)) = wf_kstate (pages_st s)"
  "all_pages (pages_st (update_ram g s)) = all_pages (pages_st s)" "same_pools (pages_st s) (pages_st (update_ram g s))"
  "word_at (update_ram g s) x = g (ram (pages_st s)) x"
  "run_ok (pages_st (set_word a v s)) = run_ok (pages_st s)"
  by (simp_all add: word_at_def set_word_def set_free_list_def update_ram_def run_ok_def fun_eq_iff)

lemma free_blocks_set [simp]:
  "i < length (descs s) \<Longrightarrow> free_blocks (set_free_list i xs s) j = (if i = j then xs else free_blocks s j)"
  by (auto simp: set_free_list_def)

lemma std_set [simp]: "std s \<Longrightarrow> std (set_free_list i xs s)"
  by (cases "i < length (descs s)") (auto simp: std_def set_free_list_def nth_list_update)

lemma std_word [simp]: "std (set_word a v s) = std s" "std (update_ram g s) = std s"
  by (simp_all add: std_def)

lemma desc_at_set [simp]: "desc_at (set_free_list i xs s) p = desc_at s p" "desc_at (set_word a v s) p = desc_at s p"
  by (simp_all add: desc_at_def)

lemma set_same: "set_free_list i (free_blocks s i) s = s" "set_word a (word_at s a) s = s"
  by (simp_all add: set_free_list_def set_word_def word_at_def)

lemma set_twice: "i < length (descs s) \<Longrightarrow> set_free_list i ys (set_free_list i xs s) = set_free_list i ys s"
  by (simp add: set_free_list_def)

lemma header_page:
  assumes "heap_inv X s own" "x \<in> headers own"
  shows "unat (pg_ofs x) < 12" "(\<exists>i. own (pg_round_down x) = Some (Small i)) \<or> (\<exists>n. own (pg_round_down x) = Some (Big (pg_round_down x) n))"
proof -
  obtain a where a: "x \<in> {a, a + 4, a + 8}" "(\<exists>i. own a = Some (Small i)) \<or> (\<exists>n. own a = Some (Big a n))"
    using assms(2) unfolding headers_def by blast
  then have "aligned a" using heap_invD(7) [OF assms(1)] by blast
  from hdr_offsets [OF this a(1)] a(2)
  show "unat (pg_ofs x) < 12" "(\<exists>i. own (pg_round_down x) = Some (Small i)) \<or> (\<exists>n. own (pg_round_down x) = Some (Big (pg_round_down x) n))"
    by auto
qed

lemma in_run:
  assumes "aligned q" "unat q + 4096 * n \<le> 4294967296" "unat (x - q) < 4096 * n"
  shows "unat x = unat q + unat (x - q)" "pg_round_down x \<in> page_range q n"
proof -
  have "unat q + unat (x - q) < 2 ^ LENGTH(32)" using assms(2,3) by simp
  then have "unat (q + (x - q)) = unat q + unat (x - q)" by (rule unat_add_lem [THEN iffD1])
  then show u: "unat x = unat q + unat (x - q)" by simp
  define j where "j = unat (x - q) div 4096"
  obtain k where k: "unat q = 4096 * k" using alignedE [OF assms(1)] .
  have j: "j < n" using assms(3) by (simp add: j_def less_mult_imp_div_less mult.commute)
  have l: "unat q + 4096 * j < 4294967296" using assms(2) j by linarith
  then have "unat (word_of_nat j :: u32) = j" by (intro unat_word_of_nat_32) linarith
  then have m: "unat (PGSIZE * word_of_nat j) = 4096 * j" using l by (simp add: PGSIZE_eq unat_word_ariths)
  have "unat (q + PGSIZE * word_of_nat j) = unat q + 4096 * j"
    using l m unat_add_lem [of q "PGSIZE * word_of_nat j"] by simp
  also have "\<dots> = unat (pg_round_down x)" unfolding unat_pg_round_down u k j_def by (simp add: algebra_simps)
  finally have "pg_round_down x = q + PGSIZE * word_of_nat j" by (simp add: unat_inj)
  then show "pg_round_down x \<in> page_range q n" using j by (auto simp: page_range_def)
qed

text \<open>The block in which an address lies.\<close>

definition block_of :: "(u32 \<rightharpoonup> owner) \<Rightarrow> u32 \<Rightarrow> u32" where
  "block_of own x =
     (case own (pg_round_down x) of
        Some (Small i) \<Rightarrow> blk (pg_round_down x) i ((unat (pg_ofs x) - 12) div bsz i)
      | Some (Big q n) \<Rightarrow> q + 12
      | _ \<Rightarrow> 0)"

lemma live_words:
  assumes "heap_inv X s own" "live s own p c" "unat (x - p) < c"
  shows "x \<notin> headers own" "unat x = unat p + unat (x - p)" "pg_round_down x \<in> dom own" "block_of own x = p"
proof -
  have "x \<notin> headers own \<and> unat x = unat p + unat (x - p) \<and> pg_round_down x \<in> dom own \<and> block_of own x = p"
    using assms(2) unfolding live_def
  proof (elim disjE exE conjE)
    fix a i k assume o: "own a = Some (Small i)" and k: "k < bpa i" and e: "p = blk a i k" "c = bsz i"
    have al: "aligned a" using small_header(2) [OF assms(1) o] .
    note b = blk_page [OF al k]
    have le: "12 + bsz i * k + unat (x - p) < 4096" using bsz_bpa [OF k] assms(3) e by linarith
    obtain j where j: "unat a = 4096 * j" "j < 1048576" using alignedE [OF al] .
    have "unat p + unat (x - p) < 2 ^ LENGTH(32)" using b(1) e(1) le j by simp
    then have "unat (p + (x - p)) = unat p + unat (x - p)" by (rule unat_add_lem [THEN iffD1])
    then have u: "unat x = unat p + unat (x - p)" by simp
    then have x: "unat x = 4096 * j + (12 + bsz i * k + unat (x - p))" using b(1) e(1) j by simp
    have "unat (pg_round_down x) = unat a" unfolding unat_pg_round_down x using le j by simp
    then have r: "pg_round_down x = a" by (rule unat_inj)
    have "unat (pg_ofs x) = 12 + bsz i * k + unat (x - p)" unfolding unat_pg_ofs x using le by simp
    moreover have "(bsz i * k + unat (x - p)) div bsz i = k" using assms(3) e(2) bsz_pos(1) [of i] by simp
    ultimately have "block_of own x = p" using r o e(1) by (simp add: block_of_def)
    moreover have "x \<notin> headers own"
      using header_page(1) [OF assms(1)] \<open>unat (pg_ofs x) = 12 + bsz i * k + unat (x - p)\<close> by fastforce
    ultimately show ?thesis using u r o by auto
  next
    fix q n assume o: "own q = Some (Big q n)" and e: "p = q + 12" "c = 4096 * n - 12"
    note h = big_header [OF assms(1) o]
    have le: "unat q + 4096 * n \<le> 4294967296" by (rule run_ok_bound(3) [OF heap_invD(1) [OF assms(1)] h(8,1)])
    have d: "unat (x - q) = 12 + unat (x - p)"
    proof -
      have "12 + unat (x - p) < 2 ^ LENGTH(32)" using assms(3) e(2) le by simp
      then have "unat (12 + (x - p)) = 12 + unat (x - p)" using unat_add_lem [of 12 "x - p"] by simp
      moreover have "12 + (x - p) = x - q" using e(1) by (simp add: algebra_simps)
      ultimately show ?thesis by simp
    qed
    then have l: "unat (x - q) < 4096 * n" using assms(3) e(2) by linarith
    note r = in_run [OF h(2) le l]
    have ow: "own (pg_round_down x) = Some (Big q n)"
      using heap_invD(6) [OF assms(1) o] r(2) by (simp add: big_ok_def)
    have "x \<notin> headers own"
    proof
      assume hx: "x \<in> headers own"
      then have "pg_round_down x = q" using header_page(2) [OF assms(1) hx] ow by auto
      then have "unat x = unat q + unat (pg_ofs x)" using pg_split [of x] by simp
      then show False using header_page(1) [OF assms(1) hx] r(1) d by simp
    qed
    then show ?thesis using r(1) d e(1) big_ofs(3) [OF h(2)] ow by (auto simp: block_of_def)
  qed
  then show "x \<notin> headers own" "unat x = unat p + unat (x - p)" "pg_round_down x \<in> dom own" "block_of own x = p" by blast+
qed

lemma store_bytes_out: "\<not> unat (x - p) < n \<Longrightarrow> store_bytes m p n f x = m x"
  by (simp add: store_bytes_def)

lemma store_live:
  assumes "heap_inv X s own" "live s own p c" "n \<le> c"
  shows "heap_inv X (update_ram (\<lambda>m. store_bytes m p n (f m)) s) own"
    "live (update_ram (\<lambda>m. store_bytes m p n (f m)) s) own = live s own"
proof -
  have "store_bytes (ram (pages_st s)) p n (f (ram (pages_st s))) x = word_at s x" if "x \<in> headers own" for x
  proof -
    have "\<not> unat (x - p) < n" using live_words(1) [OF assms(1,2), of x] that assms(3) by auto
    then show ?thesis unfolding word_at_def by (rule store_bytes_out)
  qed
  then show "heap_inv X (update_ram (\<lambda>m. store_bytes m p n (f m)) s) own"
    using heap_invD(1,3) [OF assms(1)] by (intro heap_inv_cong [OF assms(1)]) simp_all
  show "live (update_ram (\<lambda>m. store_bytes m p n (f m)) s) own = live s own" by (intro ext live_cong) simp
qed

section \<open>Taking a block from a free list and putting it back\<close>

lemma free_in_bound: "card (free_in s a i) \<le> bpa i" "finite (free_in s a i)"
proof -
  have s: "free_in s a i \<subseteq> {..<bpa i}" by (auto simp: free_in_def)
  show "card (free_in s a i) \<le> bpa i" using card_mono [OF _ s] by simp
  show "finite (free_in s a i)" using s by (rule finite_subset) simp
qed

lemma hdr_change:
  assumes "aligned a" "aligned b" "a \<noteq> b"
  shows "hdr (set_word (a + 8) v s) b d c = hdr s b d c"
proof -
  have "x \<noteq> a + 8" if "x \<in> {b, b + 4, b + 8}" for x
    using hdr_offsets [OF assms(1), of "a + 8"] hdr_offsets [OF assms(2) that] assms(3) by auto
  then have n: "b \<noteq> a + 8" "b + 4 \<noteq> a + 8" "b + 8 \<noteq> a + 8" by blast+
  show ?thesis by (simp only: hdr_def state_simps(1) n if_False)
qed

lemma a_plus_8: "(a :: u32) \<noteq> a + 8" "(a :: u32) + 4 \<noteq> a + 8"
  by simp_all

text \<open>The free list of \<open>i\<close> and the count of the arena \<open>a\<close> change together.\<close>

lemma relist_ok:
  assumes inv: "heap_inv X s own" and o: "own a = Some (Small i)" "k < bpa i"
    and l: "distinct xs" "\<forall>b\<in>set xs. \<exists>a k. own a = Some (Small i) \<and> k < bpa i \<and> b = blk a i k"
    and d: "set xs - {blk a i k} = set (free_blocks s i) - {blk a i k}"
    and v: "v = word_of_nat (card {k. k < bpa i \<and> blk a i k \<in> set xs})"
  shows "heap_inv (X \<union> {a}) (set_word (a + 8) v (set_free_list i xs s)) own"
proof -
  let ?s = "set_word (a + 8) v (set_free_list i xs s)"
  note h = small_header [OF inv o(1)]
  have len: "i < length (descs s)" using heap_invD(2) [OF inv] h(1) by (simp add: std_def)
  have al: "aligned b" if "own b = Some ow" for b ow using heap_invD(7) [OF inv that] by blast
  have fr: "free_in ?s b j = (if b = a \<and> j = i then {k. k < bpa i \<and> blk a i k \<in> set xs} else free_in s b j)"
    if ob: "own b = Some (Small j)" for b j
  proof (cases "j = i")
    case True
    show ?thesis
    proof (cases "b = a")
      case False
      then have "blk b i l \<noteq> blk a i k" if "l < bpa i" for l
        using blk_inj [OF al [OF ob] h(2) that o(2)] by blast
      then have "blk b i l \<in> set xs \<longleftrightarrow> blk b i l \<in> set (free_blocks s i)" if "l < bpa i" for l
        using d that by blast
      then show ?thesis using True False len by (auto simp: free_in_def)
    qed (use True len in \<open>simp add: free_in_def\<close>)
  qed (use len in \<open>simp add: free_in_def\<close>)
  have sm: "small_ok ?s (X \<union> {a}) b j" if ob: "own b = Some (Small j)" for b j
  proof (cases "b = a")
    case True
    then have j: "j = i" using ob o(1) by simp
    have "hdr ?s a (word_of_nat (i + 1)) v"
      using heap_invD(5) [OF inv o(1)] by (simp add: small_ok_def hdr_def a_plus_8)
    then show ?thesis using True j h(1) fr [OF ob] v by (simp add: small_ok_def)
  next
    case False
    have "hdr ?s b d c = hdr (set_free_list i xs s) b d c" for d c
      by (rule hdr_change [OF h(2) al [OF ob]]) (use False in simp)
    then have "hdr ?s b d c = hdr s b d c" for d c by (simp only: hdr_def state_simps(3))
    moreover have "free_in ?s b j = free_in s b j" using fr [OF ob] False by simp
    moreover have "small_ok s X b j" by (rule heap_invD(5) [OF inv ob])
    ultimately show ?thesis unfolding small_ok_def by simp blast
  qed
  have bg: "big_ok ?s own q p n" if oq: "own q = Some (Big p n)" for q p n
  proof -
    have b: "big_ok s own q p n" by (rule heap_invD(6) [OF inv oq])
    then have op: "own p = Some (Big p n)" by (simp add: big_ok_def page_range_self)
    then have "a \<noteq> p" using o(1) by auto
    then have "hdr ?s p 0 (word_of_nat n) = hdr (set_free_list i xs s) p 0 (word_of_nat n)"
      by (rule hdr_change [OF h(2) al [OF op]])
    also have "\<dots> = hdr s p 0 (word_of_nat n)" by (simp only: hdr_def state_simps(3))
    finally show ?thesis using b unfolding big_ok_def by simp
  qed
  have "lists_ok ?s own" using heap_invD(4) [OF inv] l len by (auto simp: lists_ok_def)
  then show ?thesis using sm bg heap_invD(1-3) [OF inv] by (simp add: heap_inv_def)
qed

lemma live_relist:
  assumes inv: "heap_inv X s own" and o: "own a = Some (Small i)" "k < bpa i"
    and d: "set xs - {blk a i k} = set (free_blocks s i) - {blk a i k}"
  shows "live (set_word (a + 8) v (set_free_list i xs s)) own p c \<longleftrightarrow>
    (if p = blk a i k then blk a i k \<notin> set xs \<and> c = bsz i else live s own p c)"
proof -
  note h = small_header [OF inv o(1)]
  have len: "i < length (descs s)" using heap_invD(2) [OF inv] h(1) by (simp add: std_def)
  have al: "aligned b" if "own b = Some ow" for b ow using heap_invD(7) [OF inv that] by blast
  have nb: "q + 12 \<noteq> blk a i k" if "own q = Some (Big q n)" for q n
    using blk_page(2) [OF h(2) o(2)] big_ofs(1) [OF al [OF that]] that o(1) by force
  have u: "b = a \<and> j = i" if "own b = Some (Small j)" "l < bpa j" "blk b j l = blk a i k" for b j l
    using blk_inj [OF al [OF that(1)] h(2) that(2) o(2) that(3)] that(1) o(1) by simp
  show ?thesis
  proof (cases "p = blk a i k")
    case True
    have "(\<exists>b j l. own b = Some (Small j) \<and> l < bpa j \<and> p = blk b j l \<and>
        p \<notin> set (free_blocks (set_word (a + 8) v (set_free_list i xs s)) j) \<and> c = bsz j) \<longleftrightarrow> blk a i k \<notin> set xs \<and> c = bsz i"
      using u o len True by (auto; metis)
    moreover have "\<not> (\<exists>q n. own q = Some (Big q n) \<and> p = q + 12 \<and> c = 4096 * n - 12)" using nb True by blast
    ultimately show ?thesis unfolding live_def using True by argo
  next
    case False
    then have "p \<in> set xs \<longleftrightarrow> p \<in> set (free_blocks s i)" using d by blast
    then have "p \<in> set (free_blocks (set_word (a + 8) v (set_free_list i xs s)) j) \<longleftrightarrow> p \<in> set (free_blocks s j)" for j
      using len by simp
    then show ?thesis using False unfolding live_def by simp
  qed
qed

lemma heap_inv_drop:
  assumes "heap_inv X s own" "\<And>i. own a = Some (Small i) \<Longrightarrow> card (free_in s a i) < bpa i"
  shows "heap_inv (X - {a}) s own"
proof -
  have "small_ok s (X - {a}) b i" if "own b = Some (Small i)" for b i
    using heap_invD(5) [OF assms(1) that] assms(2) [of i] that by (auto simp: small_ok_def)
  then show ?thesis using assms(1) by (simp add: heap_inv_def)
qed

lemma heap_inv_mono: "heap_inv X s own \<Longrightarrow> X \<subseteq> Y \<Longrightarrow> heap_inv Y s own"
  by (auto simp: heap_inv_def small_ok_def)

lemma card_less_bpa: "S \<subseteq> {..<bpa i} \<Longrightarrow> k < bpa i \<Longrightarrow> k \<notin> S \<Longrightarrow> card S < bpa i"
  using psubset_card_mono [of "{..<bpa i}" S] by auto

text \<open>The front of a free list is taken.\<close>

lemma lists_okD:
  "lists_ok s own \<Longrightarrow> i < 7 \<Longrightarrow> b \<in> set (free_blocks s i) \<Longrightarrow> \<exists>a k. own a = Some (Small i) \<and> k < bpa i \<and> b = blk a i k"
  unfolding lists_ok_def by blast

lemma pop_ok:
  assumes inv: "heap_inv X s own" and i: "i < 7" and f: "free_blocks s i = b # bs"
  defines "s2 \<equiv> set_free_list i bs s"
  shows "\<exists>a. block_to_arena b s2 = Some a \<and> own a = Some (Small i) \<and> pg_round_down b = a \<and> b \<noteq> 0 \<and>
    heap_inv (X - {a}) (set_word (a + 8) (word_at s2 (a + 8) - 1) s2) own \<and>
    (\<forall>p c. live (set_word (a + 8) (word_at s2 (a + 8) - 1) s2) own p c \<longleftrightarrow> (if p = b then c = bsz i else live s own p c)) \<and>
    (\<forall>c. \<not> live s own b c)"
proof -
  have l: "lists_ok s own" by (rule heap_invD(4) [OF inv])
  then obtain a k where a: "own a = Some (Small i)" "k < bpa i" "b = blk a i k"
    using lists_okD [OF l i, of b] f by auto
  have ds: "distinct (b # bs)" "\<forall>b\<in>set bs. \<exists>a k. own a = Some (Small i) \<and> k < bpa i \<and> b = blk a i k"
    using l i f by (auto simp: lists_ok_def)
  note h = small_header [OF inv a(1)]
  have len: "i < length (descs s)" using heap_invD(2) [OF inv] i by (simp add: std_def)
  let ?S = "{k. k < bpa i \<and> blk a i k \<in> set bs}"
  have "free_in s a i = insert k ?S" using f a blk_inj [OF h(2) h(2) _ a(2)] by (auto simp: free_in_def)
  moreover have k: "k \<notin> ?S" using ds(1) a(3) by auto
  moreover have fin: "finite ?S" by (rule finite_subset [of _ "{..<bpa i}"]) auto
  ultimately have c: "card (free_in s a i) = Suc (card ?S)" by simp
  have cnt: "word_at s2 (a + 8) - 1 = word_of_nat (card ?S)" using h(6) c by (simp add: s2_def)
  have d: "set bs - {blk a i k} = set (free_blocks s i) - {blk a i k}" using f a(3) by auto
  let ?s = "set_word (a + 8) (word_of_nat (card ?S)) s2"
  have r: "heap_inv (X \<union> {a}) ?s own"
    unfolding s2_def by (rule relist_ok [OF inv a(1,2) _ ds(2) d refl]) (use ds(1) in simp)
  have "free_in ?s a i = ?S" using len by (simp add: free_in_def s2_def)
  moreover have "card ?S < bpa i" by (rule card_less_bpa [OF _ a(2) k]) auto
  ultimately have "heap_inv (X \<union> {a} - {a}) ?s own" using a(1) by (intro heap_inv_drop [OF r]) auto
  moreover have "X \<union> {a} - {a} = X - {a}" by blast
  ultimately have "heap_inv (X - {a}) ?s own" by argo
  moreover have "live ?s own p c \<longleftrightarrow> (if p = b then c = bsz i else live s own p c)" for p c
    using live_relist [OF inv a(1,2) d] ds(1) a(3) by (simp add: s2_def)
  moreover have "\<not> live s own b c" for c
    using live_relist [OF inv a(1,2) refl, of "word_at s (a + 8)" b c] f a(3) unfolding set_same by simp
  moreover have "std s2" using heap_invD(2) [OF inv] by (simp add: s2_def)
  then have "d_block_size (descs s2 ! i) = bsz i" using i by (simp add: std_def)
  then have "block_to_arena b s2 = Some a"
    unfolding a(3) by (intro to_arena_raw [OF h(2,3) _ _ _ a(2)]) (use h(4,5) in \<open>simp_all add: s2_def\<close>)
  moreover have "pg_round_down b = a" "b \<noteq> 0" using blk_page [OF h(2) a(2)] a(3) by simp_all
  ultimately show ?thesis using a(1) by (intro exI [of _ a]) (unfold cnt, blast)
qed

text \<open>An empty free list is filled from a new page.\<close>

lemma add_blocks_ok:
  assumes "std s" "i < 7" "a \<noteq> 0" "word_at s a = ARENA_MAGIC" "desc_at s (word_at s (a + 4)) = Some (Some i)" "idx + n \<le> bpa i"
  shows "add_blocks i a idx n s = Some (set_free_list i (free_blocks s i @ map (blk a i) [idx..<idx + n]) s)"
  using assms
proof (induction n arbitrary: idx s)
  case 0
  then show ?case by (simp add: set_same)
next
  case (Suc n)
  have len: "i < length (descs s)" using Suc.prems(1,2) by (simp add: std_def)
  have "arena_to_block a idx s = Some (blk a i idx)"
    using Suc.prems by (simp add: arena_to_block_def arena_size_def blk_def std_def mult.commute add.assoc)
  moreover have "add_blocks i a (idx + 1) n (set_free_list i (free_blocks s i @ [blk a i idx]) s) =
      Some (set_free_list i (free_blocks s i @ [blk a i idx] @ map (blk a i) [idx + 1..<idx + 1 + n])
        (set_free_list i (free_blocks s i @ [blk a i idx]) s))"
    using Suc.IH [of "set_free_list i (free_blocks s i @ [blk a i idx]) s" "idx + 1"] Suc.prems len
    by (simp del: upt_Suc)
  moreover have u: "[idx..<idx + Suc n] = idx # [idx + 1..<idx + 1 + n]" by (simp add: upt_conv_Cons del: upt_Suc)
  ultimately show ?case unfolding u using len by (simp add: set_twice del: upt_Suc)
qed

lemma set_header_word:
  "aligned a \<Longrightarrow> pg_round_down x \<noteq> a \<Longrightarrow> word_at (set_header a d n s) x = word_at s x"
  using hdr_offsets [of a x] by (auto simp: set_header_def)

lemma set_header_simps [simp]:
  "descs (set_header a d n s) = descs s" "hdr (set_header a d n s) a d n"
  "wf_kstate (pages_st (set_header a d n s)) = wf_kstate (pages_st s)"
  "all_pages (pages_st (set_header a d n s)) = all_pages (pages_st s)"
  "same_pools (pages_st s) (pages_st (set_header a d n s))"
  by (simp_all add: set_header_def hdr_def) (simp add: set_word_def)

text \<open>Pages that \<open>malloc\<close> has just obtained get a header; what it owned is as before.\<close>

lemma fresh_header:
  assumes inv: "heap_inv X s own" and ks: "wf_kstate ks" "all_pages (pages_st s) \<subseteq> all_pages ks" "ram ks = ram (pages_st s)"
      "same_pools (pages_st s) ks"
    and a: "aligned a" "a \<notin> all_pages (pages_st s)"
  shows "heap_inv X (set_header a d n (s\<lparr>pages_st := ks\<rparr>)) own"
proof (rule heap_inv_cong [OF inv])
  show "\<forall>x\<in>headers own. word_at (set_header a d n (s\<lparr>pages_st := ks\<rparr>)) x = word_at s x"
  proof
    fix x assume "x \<in> headers own"
    then have "pg_round_down x \<noteq> a" using header_page(2) [OF inv, of x] heap_invD(3) [OF inv] a(2) by auto
    then show "word_at (set_header a d n (s\<lparr>pages_st := ks\<rparr>)) x = word_at s x"
      using set_header_word [OF a(1)] ks(3) by (simp add: word_at_def)
  qed
  show "same_pools (pages_st s) (pages_st (set_header a d n (s\<lparr>pages_st := ks\<rparr>)))"
    by (rule same_pools_trans [OF ks(4)]) (use set_header_simps(5) [of "s\<lparr>pages_st := ks\<rparr>"] in simp)
qed (use ks heap_invD(3) [OF inv] in auto)

lemma new_arena_ok:
  assumes inv: "heap_inv {} s own" and i: "i < 7" and e: "free_blocks s i = []"
    and a: "a \<in> all_pages (pages_st s)" "a \<notin> dom own" and h: "hdr s a (word_of_nat (i + 1)) (word_of_nat (bpa i))"
  defines "s1 \<equiv> set_free_list i (map (blk a i) [0..<bpa i]) s"
  shows "heap_inv {a} s1 (own(a \<mapsto> Small i))" "live s1 (own(a \<mapsto> Small i)) p c \<longleftrightarrow> live s own p c"
proof -
  have al: "aligned a" using all_pages_aligned [OF heap_invD(1) [OF inv] a(1)] by blast
  have alo: "aligned b" if "own b = Some ow" for b ow using heap_invD(7) [OF inv that] by blast
  have len: "i < length (descs s)" using heap_invD(2) [OF inv] i by (simp add: std_def)
  have f: "free_blocks s1 j = (if j = i then map (blk a i) [0..<bpa i] else free_blocks s j)" for j
    using len by (simp add: s1_def)
  have fa: "free_in s1 a i = {..<bpa i}" using f by (auto simp: free_in_def)
  have nb: "blk b i k \<notin> set (map (blk a i) [0..<bpa i])" if "own b = Some (Small i)" "k < bpa i" for b k
    using blk_inj [OF alo [OF that(1)] al that(2)] that(1) a(2) by auto
  have fb: "free_in s1 b j = free_in s b j" if "own b = Some (Small j)" for b j
    using nb [of b] that f e by (auto simp: free_in_def)
  have w: "hdr s1 b d n = hdr s b d n" for b d n by (simp add: hdr_def s1_def)
  have "lists_ok s1 (own(a \<mapsto> Small i))"
  proof -
    have d: "distinct (map (blk a i) [0..<bpa i])" using blk_inj [OF al al] by (auto simp: distinct_map inj_on_def)
    have "distinct (free_blocks s1 j) \<and> (\<forall>b\<in>set (free_blocks s1 j). \<exists>c k. (own(a \<mapsto> Small i)) c = Some (Small j) \<and> k < bpa j \<and> b = blk c j k)"
      if j: "j < 7" for j
    proof (cases "j = i")
      case True
      have "\<exists>c k. (own(a \<mapsto> Small i)) c = Some (Small j) \<and> k < bpa j \<and> b = blk c j k" if "b \<in> set (free_blocks s1 j)" for b
        using that True f by (intro exI [of _ a]) auto
      then show ?thesis using d f True by simp
    next
      case False
      then have o: "free_blocks s1 j = free_blocks s j" using f by simp
      have "\<exists>c k. (own(a \<mapsto> Small i)) c = Some (Small j) \<and> k < bpa j \<and> b = blk c j k" if b: "b \<in> set (free_blocks s j)" for b
      proof -
        obtain c k where "own c = Some (Small j)" "k < bpa j" "b = blk c j k"
          using lists_okD [OF heap_invD(4) [OF inv] j b] by blast
        then show ?thesis using a(2) by (intro exI [of _ c] exI [of _ k]) auto
      qed
      then show ?thesis using o j heap_invD(4) [OF inv] by (simp add: lists_ok_def)
    qed
    then show ?thesis by (simp add: lists_ok_def)
  qed
  moreover have "small_ok s1 {a} b j" if o: "(own(a \<mapsto> Small i)) b = Some (Small j)" for b j
  proof (cases "b = a")
    case True
    then show ?thesis using o i h fa w by (simp add: small_ok_def)
  next
    case False
    then show ?thesis using o heap_invD(5) [OF inv, of b j] fb w by (auto simp: small_ok_def)
  qed
  moreover have "big_ok s1 (own(a \<mapsto> Small i)) q r n" if o: "(own(a \<mapsto> Small i)) q = Some (Big r n)" for q r n
  proof -
    have oq: "own q = Some (Big r n)" using o by (simp split: if_splits)
    have b: "big_ok s own q r n" by (rule heap_invD(6) [OF inv oq])
    have "(own(a \<mapsto> Small i)) t = Some (Big r n)" if "t \<in> page_range r n" for t
      using b that a(2) by (auto simp: big_ok_def)
    then show ?thesis using b w by (simp add: big_ok_def s1_def)
  qed
  ultimately show "heap_inv {a} s1 (own(a \<mapsto> Small i))"
    using heap_invD(1-3) [OF inv] a(1) by (simp add: heap_inv_def s1_def)
  show "live s1 (own(a \<mapsto> Small i)) p c \<longleftrightarrow> live s own p c"
  proof -
    have "(\<exists>b j k. (own(a \<mapsto> Small i)) b = Some (Small j) \<and> k < bpa j \<and> p = blk b j k \<and> p \<notin> set (free_blocks s1 j) \<and> c = bsz j) \<longleftrightarrow>
        (\<exists>b j k. own b = Some (Small j) \<and> k < bpa j \<and> p = blk b j k \<and> p \<notin> set (free_blocks s j) \<and> c = bsz j)"
      (is "?L = ?R")
    proof
      assume ?L
      then obtain b j k where o: "(own(a \<mapsto> Small i)) b = Some (Small j)" "k < bpa j" "p = blk b j k" "p \<notin> set (free_blocks s1 j)" "c = bsz j"
        by blast
      have "b \<noteq> a"
      proof
        assume "b = a"
        then show False using o f by auto
      qed
      then have "own b = Some (Small j)" using o(1) by simp
      moreover have "p \<notin> set (free_blocks s j)" using o(4) f e by (auto split: if_splits)
      ultimately show ?R using o by blast
    next
      assume ?R
      then obtain b j k where o: "own b = Some (Small j)" "k < bpa j" "p = blk b j k" "p \<notin> set (free_blocks s j)" "c = bsz j"
        by blast
      have "(own(a \<mapsto> Small i)) b = Some (Small j)" using o(1) a(2) by auto
      moreover have "p \<notin> set (free_blocks s1 j)" using o nb [of b k] f by (cases "j = i") auto
      ultimately show ?L using o by blast
    qed
    moreover have "(\<exists>q n. (own(a \<mapsto> Small i)) q = Some (Big q n) \<and> p = q + 12 \<and> c = 4096 * n - 12) \<longleftrightarrow>
        (\<exists>q n. own q = Some (Big q n) \<and> p = q + 12 \<and> c = 4096 * n - 12)" using a(2) by (auto split: if_splits)
    ultimately show ?thesis unfolding live_def by argo
  qed
qed

lemma live_page:
  assumes "heap_inv X s own" "live s own p c"
  shows "0 < c" "pg_round_down p \<in> dom own"
proof -
  show "0 < c" using assms(2) unfolding live_def
  proof (elim disjE exE conjE)
    fix q n assume o: "own q = Some (Big q n)" and "c = 4096 * n - 12"
    then show "0 < c" using big_header(1) [OF assms(1) o] by simp
  qed (simp add: bsz_pos)
  then show "pg_round_down p \<in> dom own" using live_words(3) [OF assms, of p] by simp
qed

lemma new_big_ok:
  assumes inv: "heap_inv {} s own" and a: "page_range a n \<subseteq> all_pages (pages_st s)" "page_range a n \<inter> dom own = {}"
    and h: "hdr s a 0 (word_of_nat n)" and r: "run_ok (pages_st s) a n" "0 < n"
  defines "own' \<equiv> (\<lambda>q. if q \<in> page_range a n then Some (Big a n) else own q)"
  shows "heap_inv {} s own'" "live s own' p c \<longleftrightarrow> (if p = a + 12 then c = 4096 * n - 12 else live s own p c)"
    "\<not> live s own (a + 12) c"
proof -
  note al = run_ok_bound(1) [OF heap_invD(1) [OF inv] r]
  have self: "a \<in> page_range a n" by (rule page_range_self [OF r(2)])
  have keep: "own' q = own q" if "own q = Some ow" for q ow using that a(2) by (auto simp: own'_def)
  have small: "own' b = Some (Small j) \<longleftrightarrow> own b = Some (Small j)" for b j
    using a(2) by (auto simp: own'_def split: if_splits)
  have big: "own' q = Some (Big q k) \<longleftrightarrow> own q = Some (Big q k) \<or> q = a \<and> k = n" for q k
    using a(2) self by (auto simp: own'_def split: if_splits)
  have "big_ok s own' q p k" if o: "own' q = Some (Big p k)" for q p k
  proof (cases "q \<in> page_range a n")
    case True
    then show ?thesis using o h r by (simp add: own'_def big_ok_def)
  next
    case False
    then have b: "big_ok s own q p k" using o heap_invD(6) [OF inv] by (simp add: own'_def)
    then have "\<forall>t\<in>page_range p k. own' t = Some (Big p k)" using keep by (simp add: big_ok_def)
    then show ?thesis using b by (simp add: big_ok_def)
  qed
  moreover have "lists_ok s own'" using heap_invD(4) [OF inv] by (simp add: lists_ok_def small)
  moreover have "dom own' = dom own \<union> page_range a n" by (auto simp: own'_def)
  then have "dom own' \<subseteq> all_pages (pages_st s)" using heap_invD(3) [OF inv] a(1) by blast
  ultimately show "heap_inv {} s own'" using heap_invD(1,2,5) [OF inv] by (simp add: heap_inv_def small)
  show n: "\<not> live s own (a + 12) c" for c
    using live_page(2) [OF inv, of "a + 12" c] big_ofs(1) [OF al] a(2) self by auto
  show "live s own' p c \<longleftrightarrow> (if p = a + 12 then c = 4096 * n - 12 else live s own p c)"
  proof (cases "p = a + 12")
    case True
    have "\<not> (\<exists>b i k. own b = Some (Small i) \<and> k < bpa i \<and> p = blk b i k \<and> p \<notin> set (free_blocks s i))"
      "\<not> (\<exists>q m. own q = Some (Big q m) \<and> p = q + 12)"
      using n unfolding True live_def by blast+
    then show ?thesis using True unfolding live_def small big by auto
  next
    case False
    then show ?thesis unfolding live_def small big by auto
  qed
qed

lemma find_desc_value: "find_desc sz i ds = i + length (takeWhile (\<lambda>d. d_block_size d < sz) ds)"
  by (induction ds arbitrary: i) auto

lemma find_desc_ok:
  "find_desc sz 0 ds \<le> length ds" "find_desc sz 0 ds < length ds \<Longrightarrow> sz \<le> d_block_size (ds ! find_desc sz 0 ds)"
  using nth_length_takeWhile [of "\<lambda>d. d_block_size d < sz" ds]
  by (simp_all add: find_desc_value length_takeWhile_le not_less)

lemma pages_needed:
  assumes "0 < div_round_up (wrap32 (n + 12)) 4096" "n < 4294967284"
  shows "n \<le> 4096 * div_round_up (wrap32 (n + 12)) 4096 - 12"
proof -
  have w: "wrap32 (n + 12) = n + 12" using assms(2) by simp
  show ?thesis
  proof (cases "n + 12 + 4095 < 4294967296")
    case True
    have "n + 12 \<le> 4096 * ((n + 12 + 4095) div 4096)" by linarith
    then show ?thesis using w True by (simp add: div_round_up_def)
  next
    case False
    then have "(n + 12 + 4095) mod 4294967296 = n + 12 + 4095 - 4294967296"
      using assms(2) by (simp add: mod_if)
    then have "wrap32 (n + 12 + 4096 - 1) < 4096" using assms(2) by (simp add: wrap32_def)
    then show ?thesis using assms(1) w by (simp add: div_round_up_def)
  qed
qed

text \<open>The sum of the size and the header wraps: one page is taken for a request of four gigabytes.\<close>

lemma pages_wrapped:
  assumes "0 < div_round_up (wrap32 (n + 12)) 4096" "4294967284 \<le> n" "n < 4294967296"
  shows "div_round_up (wrap32 (n + 12)) 4096 = 1"
proof -
  define x where "x = wrap32 (n + 12)"
  have x: "x < 12" using assms(2,3) by (simp add: x_def wrap32_def mod_if) linarith
  then have "div_round_up x 4096 = (x + 4095) div 4096" by (simp add: div_round_up_def)
  moreover have "0 < x"
    using assms(1) x_def by (cases "x = 0") (simp_all add: div_round_up_def)
  ultimately have "div_round_up x 4096 = 1" using x by simp
  then show ?thesis by (simp add: x_def)
qed

text \<open>What an operation that hands out a block does: \<open>r\<close> is null, or a block that was not live.\<close>

definition handed :: "mheap \<Rightarrow> (u32 \<rightharpoonup> owner) \<Rightarrow> nat \<Rightarrow> u32 \<Rightarrow> mheap \<Rightarrow> (u32 \<rightharpoonup> owner) \<Rightarrow> bool" where
  "handed s own n r s' own' \<longleftrightarrow> heap_inv {} s' own' \<and> own \<subseteq>\<^sub>m own' \<and> all_pages (pages_st s') = all_pages (pages_st s) \<union> dom own' \<and>
     dom own' \<inter> all_pages (pages_st s) = dom own \<and>
     (\<forall>x. pg_round_down x \<in> all_pages (pages_st s) \<and> x \<notin> headers own \<longrightarrow> word_at s' x = word_at s x) \<and>
     (if r = 0 then \<forall>p d. live s' own' p d \<longleftrightarrow> live s own p d
      else (\<forall>d. \<not> live s own r d) \<and>
        (\<exists>c. (n < 4294967284 \<longrightarrow> n \<le> c) \<and> (4294967284 \<le> n \<longrightarrow> c = 4084) \<and> (\<forall>p d. live s' own' p d \<longleftrightarrow> (if p = r then d = c else live s own p d))))"

lemma malloc_big_ok:
  assumes inv: "heap_inv {} s own" and n: "0 < n" "n < 4294967296" "find_desc n 0 (descs s) = length (descs s)"
  shows "\<exists>r s' own'. malloc n s = Some (r, s') \<and> handed s own n r s' own'"
proof -
  define k where "k = div_round_up (wrap32 (n + 12)) 4096"
  have st: "malloc n s = palloc_get_multiple 0 k (pages_st s) \<bind> (\<lambda>(a, ks).
      if a = 0 then Some (0, s\<lparr>pages_st := ks\<rparr>)
      else Some (a + 12, set_header a 0 (word_of_nat k) (s\<lparr>pages_st := ks\<rparr>)))"
    unfolding malloc_def Let_def arena_size_def k_def of_nat_numeral using n by simp
  note wf = heap_invD(1) [OF inv] and dm = heap_invD(3) [OF inv]
  have no: "handed s own n 0 s own" using inv dm by (auto simp: handed_def)
  show ?thesis
  proof (cases "0 < k")
    case False
    then have "malloc n s = Some (0, s)" using st by (simp add: palloc_get_multiple_def)
    then show ?thesis using no by blast
  next
    case True
    have z: "(0 :: u32) AND PAL_ASSERT = 0" "(0 :: u32) AND PAL_ZERO = 0" by simp_all
    show ?thesis using palloc_get_range [OF wf True z]
    proof (elim disjE exE conjE)
      assume "palloc_get_multiple 0 k (pages_st s) = Some (0, pages_st s)"
      then have "malloc n s = Some (0, s)" using st by simp
      then show ?thesis using no by blast
    next
      fix a ks
      assume g: "palloc_get_multiple 0 k (pages_st s) = Some (a, ks)" "a \<noteq> 0" "run_ok (pages_st s) a k"
          "page_range a k \<inter> all_pages (pages_st s) = {}" "wf_kstate ks" "all_pages ks = all_pages (pages_st s) \<union> page_range a k"
          "ram ks = ram (pages_st s)" "same_pools (pages_st s) ks"
      let ?s = "set_header a 0 (word_of_nat k) (s\<lparr>pages_st := ks\<rparr>)"
      define own' where "own' = (\<lambda>q. if q \<in> page_range a k then Some (Big a k) else own q)"
      note al = run_ok_bound(1) [OF wf g(3) True]
      have self: "a \<in> page_range a k" by (rule page_range_self [OF True])
      have an: "a \<notin> all_pages (pages_st s)" using g(4) self by blast
      have sub: "all_pages (pages_st s) \<subseteq> all_pages ks" using g(6) by blast
      have inv1: "heap_inv {} ?s own" by (rule fresh_header [OF inv g(5) sub g(7,8) al an])
      have "same_pools (pages_st s) (pages_st ?s)"
        by (rule same_pools_trans [OF g(8)]) (use set_header_simps(5) [of "s\<lparr>pages_st := ks\<rparr>"] in simp)
      then have run: "run_ok (pages_st ?s) a k" using g(3) by (simp add: run_ok_same)
      have pg: "page_range a k \<subseteq> all_pages (pages_st ?s)" "page_range a k \<inter> dom own = {}" using g(4,6) dm by auto
      note nb = new_big_ok [OF inv1 pg set_header_simps(2) run True, folded own'_def]
      have lv: "live ?s own p d = live s own p d" for p d by (rule live_cong) simp
      have "own \<subseteq>\<^sub>m own'" using pg(2) by (auto simp: map_le_def own'_def)
      moreover have do: "dom own' = dom own \<union> page_range a k" by (auto simp: own'_def)
      then have "all_pages (pages_st ?s) = all_pages (pages_st s) \<union> dom own'" "dom own' \<inter> all_pages (pages_st s) = dom own"
        using g(4,6) dm by auto
      moreover have "word_at ?s x = word_at s x" if "pg_round_down x \<in> all_pages (pages_st s)" for x
      proof -
        have "pg_round_down x \<noteq> a" using that an by blast
        then show ?thesis using set_header_word [OF al] g(7) by (simp add: word_at_def)
      qed
      moreover have "n < 4294967284 \<longrightarrow> n \<le> 4096 * k - 12" using pages_needed [of n, folded k_def] True by blast
      moreover have "4294967284 \<le> n \<longrightarrow> 4096 * k - 12 = 4084" using pages_wrapped [of n, folded k_def] True n(2) by simp
      moreover have "a + 12 \<noteq> 0" using big_ofs(3) [OF al] by auto
      ultimately have "handed s own n (a + 12) ?s own'" using nb lv unfolding handed_def by auto
      moreover have "malloc n s = Some (a + 12, ?s)" using st g(1,2) by simp
      ultimately show ?thesis by blast
    qed
  qed
qed

text \<open>The end of \<open>malloc\<close>, once the free list has a block.\<close>

definition take_block :: "nat \<Rightarrow> mheap \<Rightarrow> (u32 \<times> mheap) option" where
  "take_block i s1 =
     (case free_blocks s1 i of
        [] \<Rightarrow> None
      | b # bs \<Rightarrow> do {
          let s2 = set_free_list i bs s1;
          a \<leftarrow> block_to_arena b s2;
          Some (b, set_word (a + 8) (word_at s2 (a + 8) - 1) s2)
        })"

lemma take_block_ok:
  assumes inv: "heap_inv X s own" and i: "i < 7" and f: "free_blocks s i = b # bs" and x: "X \<subseteq> {pg_round_down b}"
  shows "\<exists>s'. take_block i s = Some (b, s') \<and> heap_inv {} s' own \<and> own (pg_round_down b) = Some (Small i) \<and> b \<noteq> 0 \<and>
    all_pages (pages_st s') = all_pages (pages_st s) \<and> (\<forall>x. x \<noteq> pg_round_down b + 8 \<longrightarrow> word_at s' x = word_at s x) \<and>
    (\<forall>p c. live s' own p c \<longleftrightarrow> (if p = b then c = bsz i else live s own p c)) \<and> (\<forall>c. \<not> live s own b c)"
proof -
  let ?a = "pg_round_down b" and ?s2 = "set_free_list i bs s"
  let ?s = "set_word (?a + 8) (word_at ?s2 (?a + 8) - 1) ?s2"
  obtain a where a: "block_to_arena b ?s2 = Some a" "own a = Some (Small i)" "?a = a" "b \<noteq> 0"
    "heap_inv (X - {a}) (set_word (a + 8) (word_at ?s2 (a + 8) - 1) ?s2) own"
    "\<forall>p c. live (set_word (a + 8) (word_at ?s2 (a + 8) - 1) ?s2) own p c \<longleftrightarrow> (if p = b then c = bsz i else live s own p c)"
    "\<forall>c. \<not> live s own b c"
    using pop_ok [OF inv i f] by blast
  have e: "X - {a} = {}" using x a(3) by blast
  have "heap_inv {} ?s own" using a(5) unfolding e a(3) .
  moreover have "take_block i s = Some (b, ?s)" using f a(1,3) by (simp add: take_block_def)
  ultimately show ?thesis using a by (intro exI [of _ ?s]) simp
qed

lemma malloc_small_ok:
  assumes inv: "heap_inv {} s own" and n: "0 < n" "find_desc n 0 (descs s) < length (descs s)"
  shows "\<exists>r s' own'. malloc n s = Some (r, s') \<and> handed s own n r s' own'"
proof -
  define i where "i = find_desc n 0 (descs s)"
  note wf = heap_invD(1) [OF inv] and dm = heap_invD(3) [OF inv]
  have std: "std s" by (rule heap_invD(2) [OF inv])
  have i7: "i < 7" using n(2) std by (simp add: i_def std_def)
  have sz: "n \<le> bsz i" using find_desc_ok(2) [OF n(2)] std i7 by (simp add: i_def std_def)
  moreover have "bsz i \<le> 1024" using power_increasing [of i 6 "2 :: nat"] i7 by (simp add: bsz_def)
  ultimately have small: "\<not> 4294967284 \<le> n" by simp
  have st: "malloc n s = (if free_blocks s i = [] then palloc_get_page 0 (pages_st s) \<bind> (\<lambda>(a, ks).
        if a = 0 then Some (0, s\<lparr>pages_st := ks\<rparr>)
        else add_blocks i a 0 (bpa i) (set_header a (word_of_nat (i + 1)) (word_of_nat (bpa i)) (s\<lparr>pages_st := ks\<rparr>)) \<bind> take_block i)
      else take_block i s)"
    using n std i7 unfolding malloc_def Let_def i_def [symmetric] take_block_def
    by (simp add: std_def bind_split split_def cong: list.case_cong)
  show ?thesis
  proof (cases "free_blocks s i")
    case (Cons b bs)
    obtain s' where t: "take_block i s = Some (b, s')" "heap_inv {} s' own" "own (pg_round_down b) = Some (Small i)" "b \<noteq> 0"
      "all_pages (pages_st s') = all_pages (pages_st s)" "\<forall>x. x \<noteq> pg_round_down b + 8 \<longrightarrow> word_at s' x = word_at s x"
      "\<forall>p c. live s' own p c \<longleftrightarrow> (if p = b then c = bsz i else live s own p c)" "\<forall>c. \<not> live s own b c"
      using take_block_ok [OF inv i7 Cons] by blast
    have hb: "pg_round_down b + 8 \<in> headers own" using t(3) by (auto simp: headers_def)
    have "word_at s' x = word_at s x" if "x \<notin> headers own" for x
    proof -
      have "x \<noteq> pg_round_down b + 8" using hb that by blast
      then show ?thesis using t(6) by simp
    qed
    then have "handed s own n b s' own" using t sz small dm unfolding handed_def by auto
    then show ?thesis using st Cons t(1) by auto
  next
    case Nil
    have z: "(0 :: u32) AND PAL_ASSERT = 0" "(0 :: u32) AND PAL_ZERO = 0" by simp_all
    show ?thesis using palloc_get_range [OF wf zero_less_one z, folded palloc_get_page_def]
    proof (elim disjE exE conjE)
      assume "palloc_get_page 0 (pages_st s) = Some (0, pages_st s)"
      then have "malloc n s = Some (0, s)" using st Nil by simp
      moreover have "handed s own n 0 s own" using inv dm by (auto simp: handed_def)
      ultimately show ?thesis by blast
    next
      fix a ks
      assume g: "palloc_get_page 0 (pages_st s) = Some (a, ks)" "a \<noteq> 0" "run_ok (pages_st s) a 1"
          "page_range a 1 \<inter> all_pages (pages_st s) = {}" "wf_kstate ks" "all_pages ks = all_pages (pages_st s) \<union> page_range a 1"
          "ram ks = ram (pages_st s)" "same_pools (pages_st s) ks"
      have pr: "page_range a 1 = {a}" by (simp add: page_range_def lessThan_Suc)
      note al = run_ok_bound(1) [OF wf g(3) zero_less_one]
      have an: "a \<notin> all_pages (pages_st s)" using g(4) pr by simp
      have sub: "all_pages (pages_st s) \<subseteq> all_pages ks" using g(6) by blast
      define s0 where "s0 = set_header a (word_of_nat (i + 1)) (word_of_nat (bpa i)) (s\<lparr>pages_st := ks\<rparr>)"
      define s1 where "s1 = set_free_list i (map (blk a i) [0..<bpa i]) s0"
      have inv0: "heap_inv {} s0 own" unfolding s0_def by (rule fresh_header [OF inv g(5) sub g(7,8) al an])
      have h0: "hdr s0 a (word_of_nat (i + 1)) (word_of_nat (bpa i))" by (simp add: s0_def)
      have f0: "free_blocks s0 i = []" using Nil by (simp add: s0_def)
      have p0: "a \<in> all_pages (pages_st s0)" "a \<notin> dom own" using g(6) pr an dm by (auto simp: s0_def)
      note na = new_arena_ok [OF inv0 i7 f0 p0 h0, folded s1_def]
      have std0: "std s0" by (rule heap_invD(2) [OF inv0])
      have d0: "word_at s0 a = ARENA_MAGIC" "desc_at s0 (word_at s0 (a + 4)) = Some (Some i)"
        using h0 desc_at_small [OF std0 i7] by (simp_all add: hdr_def)
      have ab: "add_blocks i a 0 (bpa i) s0 = Some s1"
        using add_blocks_ok [OF std0 i7 g(2) d0, of 0 "bpa i"] f0 by (simp add: s1_def)
      obtain m where m: "bpa i = Suc m" using bpa_pos(1) [OF i7] gr0_conv_Suc by blast
      have len: "i < length (descs s0)" using std0 i7 by (simp add: std_def)
      have f1: "free_blocks s1 i = blk a i 0 # map (blk a i) [1..<bpa i]"
        using len bpa_pos(1) [OF i7] by (simp add: s1_def upt_conv_Cons)
      have rd: "pg_round_down (blk a i 0) = a" by (rule blk_page(2) [OF al bpa_pos(1) [OF i7]])
      obtain s' where t: "take_block i s1 = Some (blk a i 0, s')" "heap_inv {} s' (own(a \<mapsto> Small i))" "blk a i 0 \<noteq> 0"
        "all_pages (pages_st s') = all_pages (pages_st s1)" "\<forall>x. x \<noteq> a + 8 \<longrightarrow> word_at s' x = word_at s1 x"
        "\<forall>p c. live s' (own(a \<mapsto> Small i)) p c \<longleftrightarrow> (if p = blk a i 0 then c = bsz i else live s1 (own(a \<mapsto> Small i)) p c)"
        "\<forall>c. \<not> live s1 (own(a \<mapsto> Small i)) (blk a i 0) c"
        using take_block_ok [OF na(1) i7 f1, unfolded rd] by blast
      have lv: "live s0 own p c = live s own p c" for p c by (rule live_cong) (simp add: s0_def)
      have w: "word_at s' x = word_at s x" if "pg_round_down x \<in> all_pages (pages_st s)" for x
      proof -
        have ne: "pg_round_down x \<noteq> a" using that an by blast
        then have "x \<noteq> a + 8" using hdr_offsets [OF al, of "a + 8"] by auto
        then have "word_at s' x = word_at s1 x" using t(5) by blast
        also have "\<dots> = word_at (s\<lparr>pages_st := ks\<rparr>) x" using set_header_word [OF al ne] by (simp add: s1_def s0_def)
        also have "\<dots> = word_at s x" using g(7) by (simp add: word_at_def)
        finally show ?thesis .
      qed
      have pg: "all_pages (pages_st s') = all_pages (pages_st s) \<union> {a}" using t(4) g(6) pr by (simp add: s1_def s0_def)
      have "handed s own n (blk a i 0) s' (own(a \<mapsto> Small i))"
        unfolding handed_def using t(2,3,6,7) na(2) lv w pg sz small dm an p0(2) by (auto simp: map_le_def)
      moreover have "malloc n s = Some (blk a i 0, s')" using st Nil g(1,2) ab t(1) by (simp add: s0_def)
      ultimately show ?thesis by blast
    qed
  qed
qed

lemma malloc_ok:
  assumes inv: "heap_inv {} s own" and n: "n < 4294967296"
  shows "\<exists>r s' own'. malloc n s = Some (r, s') \<and> handed s own n r s' own'"
proof (cases "n = 0")
  case True
  have "handed s own n 0 s own" using inv heap_invD(3) [OF inv] by (auto simp: handed_def)
  then show ?thesis using True by (auto simp: malloc_def)
next
  case False
  then have p: "0 < n" by simp
  show ?thesis
  proof (cases "find_desc n 0 (descs s) < length (descs s)")
    case True
    then show ?thesis by (rule malloc_small_ok [OF inv p])
  next
    case F: False
    then have "find_desc n 0 (descs s) = length (descs s)" using find_desc_ok(1) [of n "descs s"] by simp
    then show ?thesis by (rule malloc_big_ok [OF inv p n])
  qed
qed

section \<open>Freeing\<close>

text \<open>The arena \<open>a\<close> is given up, its blocks leave the free list.\<close>

lemma drop_arena:
  assumes inv: "heap_inv X s own" and o: "own a = Some (Small i)" and all: "free_in s a i = {..<bpa i}"
    and ys: "distinct ys" "set ys = set (free_blocks s i) - blk a i ` {..<bpa i}"
  shows "heap_inv (X - {a}) (set_free_list i ys s) (own(a := None))"
    "live (set_free_list i ys s) (own(a := None)) p c \<longleftrightarrow> live s own p c"
proof -
  note h = small_header [OF inv o]
  let ?s = "set_free_list i ys s" and ?o = "own(a := None)"
  have len: "i < length (descs s)" using heap_invD(2) [OF inv] h(1) by (simp add: std_def)
  have al: "aligned b" if "own b = Some ow" for b ow using heap_invD(7) [OF inv that] by blast
  have same: "blk b i k \<in> set ys \<longleftrightarrow> blk b i k \<in> set (free_blocks s i)" if "own b = Some (Small i)" "b \<noteq> a" "k < bpa i" for b k
    using ys(2) blk_inj [OF al [OF that(1)] h(2) that(3)] that(2) by fastforce
  have "lists_ok ?s ?o"
    unfolding lists_ok_def
  proof (intro allI impI conjI ballI)
    fix j assume j: "j < (7 :: nat)"
    show "distinct (free_blocks ?s j)" using ys(1) len heap_invD(4) [OF inv] j by (simp add: lists_ok_def)
    fix b assume b: "b \<in> set (free_blocks ?s j)"
    then have bf: "b \<in> set (free_blocks s j)" using ys(2) len by (simp split: if_splits)
    obtain e k where e: "own e = Some (Small j)" "k < bpa j" "b = blk e j k" using lists_okD [OF heap_invD(4) [OF inv] j bf] by blast
    have "e \<noteq> a"
    proof
      assume "e = a"
      then have "j = i" "b \<in> blk a i ` {..<bpa i}" using e o by auto
      then show False using b ys(2) len by simp
    qed
    then have "?o e = Some (Small j)" using e(1) by simp
    then show "\<exists>a k. ?o a = Some (Small j) \<and> k < bpa j \<and> b = blk a j k" using e by blast
  qed
  moreover have "small_ok ?s (X - {a}) b j" if ob: "?o b = Some (Small j)" for b j
  proof -
    have b: "b \<noteq> a" "own b = Some (Small j)" using ob by (simp_all split: if_splits)
    have "free_in ?s b j = free_in s b j" using same [of b] b len by (auto simp: free_in_def)
    moreover have "small_ok s X b j" by (rule heap_invD(5) [OF inv b(2)])
    ultimately show ?thesis using b(1) by (simp add: small_ok_def hdr_def)
  qed
  moreover have "big_ok ?s ?o q r n" if oq: "?o q = Some (Big r n)" for q r n
  proof -
    have b: "big_ok s own q r n" using oq heap_invD(6) [OF inv] by (simp split: if_splits)
    then have "\<forall>t\<in>page_range r n. ?o t = Some (Big r n)" using o by (auto simp: big_ok_def)
    then show ?thesis using b by (simp add: big_ok_def hdr_def)
  qed
  ultimately show "heap_inv (X - {a}) ?s ?o" using heap_invD(1-3) [OF inv] by (auto simp: heap_inv_def)
  have ob: "?o q = Some (Big r n) \<longleftrightarrow> own q = Some (Big r n)" for q r n using o by auto
  have na: "blk a i k \<in> set (free_blocks s i)" if "k < bpa i" for k using all that by (auto simp: free_in_def)
  have "(\<exists>b j k. ?o b = Some (Small j) \<and> k < bpa j \<and> p = blk b j k \<and> p \<notin> set (free_blocks ?s j) \<and> c = bsz j) \<longleftrightarrow>
      (\<exists>b j k. own b = Some (Small j) \<and> k < bpa j \<and> p = blk b j k \<and> p \<notin> set (free_blocks s j) \<and> c = bsz j)" (is "?L = ?R")
  proof
    assume ?L
    then obtain b j k where l: "?o b = Some (Small j)" "k < bpa j" "p = blk b j k" "p \<notin> set (free_blocks ?s j)" "c = bsz j" by blast
    then have b: "b \<noteq> a" "own b = Some (Small j)" by (simp_all split: if_splits)
    then have "p \<notin> set (free_blocks s j)" using l same [of b k] len by (cases "j = i") simp_all
    then show ?R using l b by blast
  next
    assume ?R
    then obtain b j k where l: "own b = Some (Small j)" "k < bpa j" "p = blk b j k" "p \<notin> set (free_blocks s j)" "c = bsz j" by blast
    have b: "b \<noteq> a" using l na o by auto
    then have "p \<notin> set (free_blocks ?s j)" using l same [of b k] len by (cases "j = i") simp_all
    moreover have "?o b = Some (Small j)" using b l(1) by simp
    ultimately show ?L using l by blast
  qed
  moreover have "(\<exists>q n. ?o q = Some (Big q n) \<and> p = q + 12 \<and> c = 4096 * n - 12) \<longleftrightarrow>
      (\<exists>q n. own q = Some (Big q n) \<and> p = q + 12 \<and> c = 4096 * n - 12)" unfolding ob ..
  ultimately show "live ?s ?o p c \<longleftrightarrow> live s own p c" unfolding live_def by argo
qed

text \<open>A big block is given up.\<close>

lemma drop_big:
  assumes inv: "heap_inv X s own" and o: "own a = Some (Big a n)"
  shows "heap_inv X s (own |` (- page_range a n))"
    "live s (own |` (- page_range a n)) p c \<longleftrightarrow> p \<noteq> a + 12 \<and> live s own p c"
proof -
  let ?o = "own |` (- page_range a n)"
  have in_r: "own t = Some (Big a n)" if "t \<in> page_range a n" for t
    using heap_invD(6) [OF inv o] that by (simp add: big_ok_def)
  have self: "a \<in> page_range a n" by (rule page_range_self [OF big_header(1) [OF inv o]])
  have small: "?o b = Some (Small j) \<longleftrightarrow> own b = Some (Small j)" for b j
    using in_r [of b] by (auto simp: restrict_map_def)
  have big: "?o q = Some (Big q k) \<longleftrightarrow> own q = Some (Big q k) \<and> q \<noteq> a" for q k
    using in_r [of q] self by (auto simp: restrict_map_def)
  have "big_ok s ?o q r k" if oq: "?o q = Some (Big r k)" for q r k
  proof -
    have q: "own q = Some (Big r k)" "q \<notin> page_range a n" using oq by (simp_all add: restrict_map_def split: if_splits)
    have b: "big_ok s own q r k" by (rule heap_invD(6) [OF inv q(1)])
    have "t \<notin> page_range a n" if "t \<in> page_range r k" for t
    proof
      assume "t \<in> page_range a n"
      then have "Big a n = Big r k" using in_r [of t] b that by (simp add: big_ok_def)
      then show False using q(2) b by (simp add: big_ok_def)
    qed
    then have "\<forall>t\<in>page_range r k. ?o t = Some (Big r k)" using b by (simp add: big_ok_def restrict_map_def)
    then show ?thesis using b by (simp add: big_ok_def)
  qed
  moreover have "lists_ok s ?o" using heap_invD(4) [OF inv] by (simp add: lists_ok_def small)
  moreover have "dom ?o \<subseteq> dom own" by auto
  ultimately show "heap_inv X s ?o" using heap_invD(1-3,5) [OF inv] by (auto simp: heap_inv_def small)
  have "p \<noteq> a + 12" if "own b = Some (Small j)" "k < bpa j" "p = blk b j k" for b j k
  proof -
    have "aligned a" "aligned b" using heap_invD(7) [OF inv] o that(1) by blast+
    then have "pg_round_down p \<noteq> pg_round_down (a + 12)" using blk_page(2) [of b k j] big_ofs(1) that o by auto
    then show ?thesis by blast
  qed
  then show "live s ?o p c \<longleftrightarrow> p \<noteq> a + 12 \<and> live s own p c" unfolding live_def small big by auto
qed

text \<open>Pages that nothing of the heap is in go back to the page allocator.\<close>

lemma release_ok:
  assumes inv: "heap_inv X s own" and d: "dom own \<inter> page_range a n = {}" and r: "run_ok (pages_st s) a n" "0 < n"
    and p: "page_range a n \<subseteq> all_pages (pages_st s)"
  shows "\<exists>ks. palloc_free_multiple a n (pages_st s) = Some ks \<and> heap_inv X (s\<lparr>pages_st := ks\<rparr>) own \<and>
    all_pages ks = all_pages (pages_st s) - page_range a n \<and>
    (\<forall>x. pg_round_down x \<notin> page_range a n \<longrightarrow> word_at (s\<lparr>pages_st := ks\<rparr>) x = word_at s x)"
proof -
  note wf = heap_invD(1) [OF inv]
  obtain ks where ks: "palloc_free_multiple a n (pages_st s) = Some ks" "wf_kstate ks"
    "all_pages ks = all_pages (pages_st s) - page_range a n"
    "ram ks = memset_words (ram (pages_st s)) a 0xcccccccc (4096 * n)" "same_pools (pages_st s) ks"
    using palloc_free_range [OF wf r(2,1) p] by blast
  note b = run_ok_bound [OF wf r]
  have w: "word_at (s\<lparr>pages_st := ks\<rparr>) x = word_at s x" if "pg_round_down x \<notin> page_range a n" for x
    using in_run(2) [OF b(1,3), of x] that ks(4) by (auto simp: word_at_def memset_words_def)
  have "heap_inv X (s\<lparr>pages_st := ks\<rparr>) own"
  proof (rule heap_inv_cong [OF inv])
    show "\<forall>x\<in>headers own. word_at (s\<lparr>pages_st := ks\<rparr>) x = word_at s x"
    proof
      fix x assume "x \<in> headers own"
      then have "pg_round_down x \<in> dom own" using header_page(2) [OF inv] by blast
      then show "word_at (s\<lparr>pages_st := ks\<rparr>) x = word_at s x" using d by (intro w) blast
    qed
    show "dom own \<subseteq> all_pages (pages_st (s\<lparr>pages_st := ks\<rparr>))" using heap_invD(3) [OF inv] d ks(3) by auto
  qed (use ks in simp_all)
  then show ?thesis using ks w by blast
qed

lemma remove_blocks_ok:
  assumes "std s" "i < 7" "a \<noteq> 0" "word_at s a = ARENA_MAGIC" "desc_at s (word_at s (a + 4)) = Some (Some i)" "idx + n \<le> bpa i"
    "aligned a" "distinct (free_blocks s i)" "blk a i ` {idx..<idx + n} \<subseteq> set (free_blocks s i)"
  shows "\<exists>ys. remove_blocks i a idx n s = Some (set_free_list i ys s) \<and> distinct ys \<and>
    set ys = set (free_blocks s i) - blk a i ` {idx..<idx + n}"
  using assms
proof (induction n arbitrary: idx s)
  case 0
  then show ?case by (intro exI [of _ "free_blocks s i"]) (simp add: set_same)
next
  case (Suc n)
  have len: "i < length (descs s)" using Suc.prems(1,2) by (simp add: std_def)
  let ?b = "blk a i idx" and ?s = "set_free_list i (remove1 (blk a i idx) (free_blocks s i)) s"
  have b: "arena_to_block a idx s = Some ?b"
    using Suc.prems by (simp add: arena_to_block_def arena_size_def blk_def std_def mult.commute add.assoc)
  have m: "?b \<in> set (free_blocks s i)" using Suc.prems(9) by auto
  have ne: "blk a i j \<noteq> ?b" if "j \<in> {idx + 1..<idx + 1 + n}" for j
    using blk_inj [OF Suc.prems(7,7), of j i idx i] that Suc.prems(6) by auto
  have sub: "blk a i ` {idx + 1..<idx + 1 + n} \<subseteq> set (free_blocks ?s i)"
  proof
    fix x assume "x \<in> blk a i ` {idx + 1..<idx + 1 + n}"
    then obtain j where j: "j \<in> {idx + 1..<idx + 1 + n}" "x = blk a i j" by blast
    then have "x \<in> set (free_blocks s i)" using Suc.prems(9) by auto
    then show "x \<in> set (free_blocks ?s i)" using ne [OF j(1)] j(2) len by (simp add: in_set_remove1)
  qed
  have d: "distinct (free_blocks ?s i)" using Suc.prems(8) len by simp
  have h: "std ?s" "word_at ?s a = ARENA_MAGIC" "desc_at ?s (word_at ?s (a + 4)) = Some (Some i)" "idx + 1 + n \<le> bpa i"
    using Suc.prems by simp_all
  obtain ys where ys: "remove_blocks i a (idx + 1) n ?s = Some (set_free_list i ys ?s)" "distinct ys"
    "set ys = set (free_blocks ?s i) - blk a i ` {idx + 1..<idx + 1 + n}"
    using Suc.IH [OF h(1) Suc.prems(2,3) h(2-4) Suc.prems(7) d sub] by blast
  have "set ys = set (free_blocks s i) - blk a i ` {idx..<idx + Suc n}"
  proof -
    have "{idx..<idx + Suc n} = insert idx {idx + 1..<idx + 1 + n}" by auto
    then have "set (free_blocks s i) - blk a i ` {idx..<idx + Suc n} = set (free_blocks s i) - {?b} - blk a i ` {idx + 1..<idx + 1 + n}"
      by auto
    moreover have "set (free_blocks ?s i) = set (free_blocks s i) - {?b}" using Suc.prems(8) len by (simp add: set_remove1_eq)
    ultimately show ?thesis using ys(3) by simp
  qed
  then show ?case using b m ys(1,2) len by (intro exI [of _ ys]) (simp add: set_twice)
qed

text \<open>What \<open>free\<close> does.\<close>

definition released :: "mheap \<Rightarrow> (u32 \<rightharpoonup> owner) \<Rightarrow> u32 \<Rightarrow> mheap \<Rightarrow> (u32 \<rightharpoonup> owner) \<Rightarrow> bool" where
  "released s own p s' own' \<longleftrightarrow> heap_inv {} s' own' \<and> own' \<subseteq>\<^sub>m own \<and>
     all_pages (pages_st s') = all_pages (pages_st s) - (dom own - dom own') \<and>
     (\<forall>q d. live s' own' q d \<longleftrightarrow> q \<noteq> p \<and> live s own q d) \<and>
     (\<forall>x. pg_round_down x \<notin> dom own - dom own' \<and> x \<notin> headers own \<and> (\<forall>c. live s own p c \<longrightarrow> \<not> unat (x - p) < c) \<longrightarrow>
        word_at s' x = word_at s x)"

lemma free_big_ok:
  assumes inv: "heap_inv {} s own" and o: "own a = Some (Big a n)"
  shows "\<exists>s' own'. mfree (a + 12) s = Some s' \<and> released s own (a + 12) s' own'"
proof -
  note h = big_header [OF inv o]
  note d = drop_big [OF inv o]
  let ?o = "own |` (- page_range a n)"
  have sub: "page_range a n \<subseteq> all_pages (pages_st s)" using h(9) heap_invD(3) [OF inv] by blast
  have dj: "dom ?o \<inter> page_range a n = {}" by auto
  obtain ks where ks: "palloc_free_multiple a n (pages_st s) = Some ks" "heap_inv {} (s\<lparr>pages_st := ks\<rparr>) ?o"
    "all_pages ks = all_pages (pages_st s) - page_range a n"
    "\<forall>x. pg_round_down x \<notin> page_range a n \<longrightarrow> word_at (s\<lparr>pages_st := ks\<rparr>) x = word_at s x"
    using release_ok [OF d(1) dj h(8,1) sub] by blast
  have "a + 12 \<noteq> 0" using big_ofs(3) [OF h(2)] by auto
  then have "mfree (a + 12) s = Some (s\<lparr>pages_st := ks\<rparr>)"
    using to_arena_big [OF inv o] h(5,6,7) ks(1) by (simp add: mfree_def)
  moreover have "dom own - dom ?o = page_range a n" using h(9) by auto
  moreover have "live (s\<lparr>pages_st := ks\<rparr>) ?o q e = live s ?o q e" for q e by (rule live_cong) simp
  moreover have "?o \<subseteq>\<^sub>m own" by (auto simp: map_le_def restrict_map_def)
  ultimately have "released s own (a + 12) (s\<lparr>pages_st := ks\<rparr>) ?o" using ks(2-4) d(2) by (simp add: released_def)
  then show ?thesis using \<open>mfree (a + 12) s = Some (s\<lparr>pages_st := ks\<rparr>)\<close> by blast
qed

text \<open>A block of an arena goes to the front of its free list.\<close>

lemma push_ok:
  assumes inv: "heap_inv {} s own" and o: "own a = Some (Small i)" "k < bpa i" and p: "blk a i k \<notin> set (free_blocks s i)"
  defines "s' \<equiv> set_word (a + 8) (word_at s (a + 8) + 1) (set_free_list i (blk a i k # free_blocks s i) s)"
  shows "heap_inv {a} s' own" "live s' own q c \<longleftrightarrow> q \<noteq> blk a i k \<and> live s own q c"
    "unat (word_at s' (a + 8)) = card (free_in s' a i)"
proof -
  note h = small_header [OF inv o(1)]
  let ?xs = "blk a i k # free_blocks s i" and ?S = "{l. l < bpa i \<and> blk a i l \<in> set (blk a i k # free_blocks s i)}"
  have len: "i < length (descs s)" using heap_invD(2) [OF inv] h(1) by (simp add: std_def)
  have l: "lists_ok s own" by (rule heap_invD(4) [OF inv])
  have ds: "distinct ?xs" using l h(1) p by (simp add: lists_ok_def)
  have bl: "\<forall>b\<in>set ?xs. \<exists>a k. own a = Some (Small i) \<and> k < bpa i \<and> b = blk a i k"
    using lists_okD [OF l h(1)] o by auto
  have "?S = insert k (free_in s a i)" using o(2) blk_inj [OF h(2) h(2) _ o(2)] by (auto simp: free_in_def)
  moreover have "k \<notin> free_in s a i" using p by (simp add: free_in_def)
  ultimately have c: "card ?S = Suc (card (free_in s a i))" using free_in_bound(2) by simp
  have v: "word_at s (a + 8) + 1 = word_of_nat (card ?S)" unfolding c h(6) by simp
  have d: "set ?xs - {blk a i k} = set (free_blocks s i) - {blk a i k}" by auto
  have r: "heap_inv ({} \<union> {a}) s' own" unfolding s'_def by (rule relist_ok [OF inv o ds bl d v])
  then show "heap_inv {a} s' own" by simp
  show "live s' own q c \<longleftrightarrow> q \<noteq> blk a i k \<and> live s own q c"
    unfolding s'_def live_relist [OF inv o d] by simp
  show "unat (word_at s' (a + 8)) = card (free_in s' a i)"
  proof -
    have "word_at s' (a + 8) = word_of_nat (card (free_in s' a i))" by (rule small_header(6) [OF r o(1)])
    moreover have "card (free_in s' a i) < 4294967296" using free_in_bound(1) [of s' a i] bpa_pos(2) [of i] by linarith
    ultimately show ?thesis by (simp add: unat_word_of_nat_32)
  qed
qed

lemma free_small_ok:
  assumes inv: "heap_inv {} s own" and o: "own a = Some (Small i)" "k < bpa i" and p: "blk a i k \<notin> set (free_blocks s i)"
  shows "\<exists>s' own'. mfree (blk a i k) s = Some s' \<and> released s own (blk a i k) s' own'"
proof -
  let ?p = "blk a i k"
  note h = small_header [OF inv o(1)]
  have lp: "live s own ?p (bsz i)" using o p unfolding live_def by blast
  define s1 where "s1 = update_ram (\<lambda>m. store_bytes m ?p (bsz i) (\<lambda>x. 0xcccccccc)) s"
  have inv1: "heap_inv {} s1 own" and lv1: "live s1 own = live s own"
    using store_live [OF inv lp order_refl, of "\<lambda>m x. 0xcccccccc"] by (simp_all add: s1_def)
  have p1: "?p \<notin> set (free_blocks s1 i)" using p by (simp add: s1_def)
  define s3 where "s3 = set_word (a + 8) (word_at s1 (a + 8) + 1) (set_free_list i (?p # free_blocks s1 i) s1)"
  note push = push_ok [OF inv1 o p1, folded s3_def]
  note h3 = small_header [OF push(1) o(1)]
  have w3: "word_at s3 x = word_at s x" if "x \<notin> headers own" "\<not> unat (x - ?p) < bsz i" for x
  proof -
    have "a + 8 \<in> headers own" using o(1) by (auto simp: headers_def)
    then have "x \<noteq> a + 8" using that(1) by blast
    then have "word_at s3 x = ram (pages_st s) x" using store_bytes_out [OF that(2)] by (simp add: s3_def s1_def)
    then show ?thesis by (simp add: word_at_def)
  qed
  have st: "mfree ?p s = (if card (free_in s3 a i) \<ge> bpa i then do {
        kassert (card (free_in s3 a i) = bpa i);
        s4 \<leftarrow> remove_blocks i a 0 (bpa i) s3;
        ks \<leftarrow> palloc_free_page a (pages_st s4);
        Some (s4\<lparr>pages_st := ks\<rparr>)
      } else Some s3)"
    unfolding mfree_def to_arena_small [OF inv o] Let_def using h(5,7) blk_page(4) [OF h(2) o(2)]
    unfolding push(3) [symmetric] h3(8) [symmetric] by (simp add: s3_def s1_def)
  show ?thesis
  proof (cases "card (free_in s3 a i) < bpa i")
    case True
    have "heap_inv ({a} - {a}) s3 own" by (rule heap_inv_drop [OF push(1)]) (use True o(1) in simp)
    then have "released s own ?p s3 own"
      using push(2) lv1 w3 lp heap_invD(3) [OF inv] by (simp add: released_def s3_def s1_def)
    then show ?thesis using st True by auto
  next
    case False
    then have full: "card (free_in s3 a i) = bpa i" using free_in_bound(1) [of s3 a i] by simp
    have "free_in s3 a i \<subseteq> {..<bpa i}" by (auto simp: free_in_def)
    then have all: "free_in s3 a i = {..<bpa i}" using full by (intro card_subset_eq) simp_all
    have "\<forall>l<bpa i. blk a i l \<in> set (free_blocks s3 i)" using all by (auto simp: free_in_def)
    then have sub: "blk a i ` {0..<0 + bpa i} \<subseteq> set (free_blocks s3 i)" by auto
    have ds: "distinct (free_blocks s3 i)" using heap_invD(4) [OF push(1)] h(1) by (simp add: lists_ok_def)
    obtain ys where ys: "remove_blocks i a 0 (bpa i) s3 = Some (set_free_list i ys s3)" "distinct ys"
      "set ys = set (free_blocks s3 i) - blk a i ` {0..<0 + bpa i}"
      using remove_blocks_ok [OF heap_invD(2) [OF push(1)] h(1,3) h3(4,5) _ h(2) ds sub] by auto
    have ys': "set ys = set (free_blocks s3 i) - blk a i ` {..<bpa i}" using ys(3) by (simp add: lessThan_atLeast0)
    let ?s4 = "set_free_list i ys s3" and ?o = "own(a := None)"
    note drop = drop_arena [OF push(1) o(1) all ys(2) ys']
    have pr: "page_range a 1 = {a}" by (simp add: page_range_def lessThan_Suc)
    have a: "a \<in> all_pages (pages_st s)" using heap_invD(3) [OF inv] o(1) by blast
    have rn: "run_ok (pages_st ?s4) a 1"
    proof -
      have "run_ok (pages_st s) a 1"
        using all_pagesE [OF a] unfolding run_ok_def by (metis (no_types, lifting) Suc_eq_plus1 Suc_leI bm_used_def mem_Collect_eq)
      then show ?thesis using run_ok_same [of "pages_st s" "pages_st s1"] by (simp add: s3_def s1_def)
    qed
    have "{a} - {a} = ({} :: u32 set)" by simp
    then have inv4: "heap_inv {} ?s4 ?o" using drop(1) by argo
    have dj: "dom ?o \<inter> page_range a 1 = {}" "page_range a 1 \<subseteq> all_pages (pages_st ?s4)" using pr a by (auto simp: s3_def s1_def)
    obtain ks where ks: "palloc_free_page a (pages_st ?s4) = Some ks" "heap_inv {} (?s4\<lparr>pages_st := ks\<rparr>) ?o"
      "all_pages ks = all_pages (pages_st ?s4) - {a}"
      "\<forall>x. pg_round_down x \<noteq> a \<longrightarrow> word_at (?s4\<lparr>pages_st := ks\<rparr>) x = word_at ?s4 x"
      using release_ok [OF inv4 dj(1) rn zero_less_one dj(2)] unfolding pr palloc_free_page_def by auto
    have m: "mfree ?p s = Some (?s4\<lparr>pages_st := ks\<rparr>)" using st full ys(1) ks(1) by simp
    have lv: "live (?s4\<lparr>pages_st := ks\<rparr>) ?o q c \<longleftrightarrow> q \<noteq> ?p \<and> live s own q c" for q c
    proof -
      have "live (?s4\<lparr>pages_st := ks\<rparr>) ?o q c = live ?s4 ?o q c" by (rule live_cong) simp
      then show ?thesis using drop(2) push(2) lv1 by simp
    qed
    have dm: "dom own - dom ?o = {a}" using o(1) by auto
    have "word_at (?s4\<lparr>pages_st := ks\<rparr>) x = word_at s x"
      if "pg_round_down x \<notin> dom own - dom ?o" "x \<notin> headers own" "\<forall>c. live s own ?p c \<longrightarrow> \<not> unat (x - ?p) < c" for x
    proof -
      have "pg_round_down x \<noteq> a" using that(1) unfolding dm by blast
      moreover have "\<not> unat (x - ?p) < bsz i" using that(3) lp by blast
      ultimately show ?thesis using ks(4) w3 [OF that(2)] by simp
    qed
    moreover have "?o \<subseteq>\<^sub>m own" by (auto simp: map_le_def)
    moreover have "all_pages ks = all_pages (pages_st s) - {a}" using ks(3) by (simp add: s3_def s1_def)
    ultimately have "released s own ?p (?s4\<lparr>pages_st := ks\<rparr>) ?o" using ks(2) lv dm unfolding released_def by simp
    then show ?thesis using m by blast
  qed
qed

lemma mfree_ok:
  assumes "heap_inv {} s own" "live s own p c"
  shows "\<exists>s' own'. mfree p s = Some s' \<and> released s own p s' own'"
  using assms(2) unfolding live_def
proof (elim disjE exE conjE)
  fix a i k assume "own a = Some (Small i)" "k < bpa i" "p = blk a i k" "p \<notin> set (free_blocks s i)"
  then show ?thesis using free_small_ok [OF assms(1)] by blast
next
  fix q n assume "own q = Some (Big q n)" "p = q + 12"
  then show ?thesis using free_big_ok [OF assms(1)] by blast
qed

section \<open>Runs\<close>

lemma handedD:
  assumes "handed s own n r s' own'"
  shows "heap_inv {} s' own'" "r = 0 \<Longrightarrow> live s' own' p d \<longleftrightarrow> live s own p d" "r \<noteq> 0 \<Longrightarrow> \<not> live s own r d"
    "r \<noteq> 0 \<Longrightarrow> \<exists>c. (n < 4294967284 \<longrightarrow> n \<le> c) \<and> (4294967284 \<le> n \<longrightarrow> c = 4084) \<and> (\<forall>p d. live s' own' p d \<longleftrightarrow> (if p = r then d = c else live s own p d))"
  using assms unfolding handed_def by (auto split: if_splits)

lemma handed_keeps:
  assumes "heap_inv {} s own" "handed s own n r s' own'" "live s own q d" "unat (x - q) < d"
  shows "word_at s' x = word_at s x"
  using live_words [OF assms(1,3,4)] heap_invD(3) [OF assms(1)] assms(2) unfolding handed_def by blast

lemma live_unique: "heap_inv X s own \<Longrightarrow> live s own p c \<Longrightarrow> live s own p d \<Longrightarrow> c = d"
  by (metis live_block_size(1) option.inject)

lemma live_disjoint:
  "heap_inv X s own \<Longrightarrow> live s own p c \<Longrightarrow> live s own q d \<Longrightarrow> unat (x - p) < c \<Longrightarrow> unat (x - q) < d \<Longrightarrow> p = q"
  using live_words(4) by metis

lemma released_keeps:
  assumes "heap_inv {} s own" "released s own p s' own'" "live s own q d" "q \<noteq> p" "unat (x - q) < d"
  shows "word_at s' x = word_at s x"
proof -
  have l: "live s' own' q d" and i: "heap_inv {} s' own'" using assms(2,3,4) by (simp_all add: released_def)
  have "pg_round_down x \<notin> dom own - dom own'" using live_words(3) [OF i l assms(5)] by blast
  moreover have "\<forall>c. live s own p c \<longrightarrow> \<not> unat (x - p) < c" using live_disjoint [OF assms(1) _ assms(3) _ assms(5)] assms(4) by blast
  ultimately show ?thesis using live_words(1) [OF assms(1,3,5)] assms(2) unfolding released_def by blast
qed

text \<open>The blocks a client holds, with their capacities.\<close>

definition holds_blocks :: "mheap \<Rightarrow> (u32 \<rightharpoonup> owner) \<Rightarrow> (u32 \<rightharpoonup> nat) \<Rightarrow> bool" where
  "holds_blocks s own L \<longleftrightarrow> heap_inv {} s own \<and> (\<forall>p c. L p = Some c \<longleftrightarrow> live s own p c)"

lemma holdsD: "holds_blocks s own L \<Longrightarrow> heap_inv {} s own" "holds_blocks s own L \<Longrightarrow> L p = Some c \<longleftrightarrow> live s own p c"
  by (simp_all add: holds_blocks_def)

definition with_block :: "u32 \<Rightarrow> mheap \<Rightarrow> (u32 \<rightharpoonup> nat) \<Rightarrow> u32 \<rightharpoonup> nat" where
  "with_block r s L = (if r = 0 then L else L(r := block_size r s))"

lemma handed_holds:
  assumes h: "holds_blocks s own L" and g: "handed s own n r s' own'"
  shows "holds_blocks s' own' (with_block r s' L)" "r \<noteq> 0 \<Longrightarrow> r \<notin> dom L"
    "r \<noteq> 0 \<Longrightarrow> n < 4294967284 \<Longrightarrow> \<exists>c. block_size r s' = Some c \<and> n \<le> c"
    "r \<noteq> 0 \<Longrightarrow> 4294967284 \<le> n \<Longrightarrow> block_size r s' = Some 4084" "r \<noteq> 0 \<Longrightarrow> \<exists>c. live s' own' r c"
proof -
  note i = handedD(1) [OF g]
  have c: "\<exists>c. block_size r s' = Some c \<and> live s' own' r c \<and> (n < 4294967284 \<longrightarrow> n \<le> c) \<and> (4294967284 \<le> n \<longrightarrow> c = 4084) \<and>
      (\<forall>p d. live s' own' p d \<longleftrightarrow> (if p = r then d = c else live s own p d))" if r0: "r \<noteq> 0"
  proof -
    obtain c where c: "n < 4294967284 \<longrightarrow> n \<le> c" "4294967284 \<le> n \<longrightarrow> c = 4084"
      "\<forall>p d. live s' own' p d \<longleftrightarrow> (if p = r then d = c else live s own p d)"
      using handedD(4) [OF g r0] by blast
    then have "live s' own' r c" by simp
    then show ?thesis using c live_block_size(1) [OF i] by blast
  qed
  show "holds_blocks s' own' (with_block r s' L)"
  proof (cases "r = 0")
    case True
    then show ?thesis using i handedD(2) [OF g] holdsD(2) [OF h] by (simp add: holds_blocks_def with_block_def)
  next
    case False
    then show ?thesis using c i holdsD(2) [OF h] by (auto simp: holds_blocks_def with_block_def split: if_splits)
  qed
  show "r \<noteq> 0 \<Longrightarrow> r \<notin> dom L" using handedD(3) [OF g] holdsD(2) [OF h] by blast
  show "r \<noteq> 0 \<Longrightarrow> n < 4294967284 \<Longrightarrow> \<exists>c. block_size r s' = Some c \<and> n \<le> c" using c by blast
  show "r \<noteq> 0 \<Longrightarrow> 4294967284 \<le> n \<Longrightarrow> block_size r s' = Some 4084" using c by blast
  show "r \<noteq> 0 \<Longrightarrow> \<exists>c. live s' own' r c" using c by blast
qed

lemma released_holds:
  assumes "holds_blocks s own L" "released s own p s' own'"
  shows "holds_blocks s' own' (L(p := None))"
  using assms by (auto simp: holds_blocks_def released_def)

lemma store_holds:
  assumes "holds_blocks s own L" "live s own p c" "n \<le> c"
  shows "holds_blocks (update_ram (\<lambda>m. store_bytes m p n (f m)) s) own L"
  using assms store_live [OF _ assms(2,3), of "{}" f] by (simp add: holds_blocks_def)

lemma block_size_store:
  assumes "heap_inv {} s own" "live s own p c" "n \<le> c" "live s own q d"
  shows "block_size q (update_ram (\<lambda>m. store_bytes m p n (f m)) s) = block_size q s"
  using live_block_size(1) [OF assms(1,4)] live_block_size(1) [OF store_live(1) [OF assms(1-3)], of f q d] store_live(2) [OF assms(1-3), of f] assms(4)
  by simp

lemma malloc_holds:
  assumes "holds_blocks s own L" "n < 4294967296"
  shows "\<exists>r s' own'. malloc n s = Some (r, s') \<and> handed s own n r s' own'"
  by (rule malloc_ok [OF holdsD(1) [OF assms(1)] assms(2)])

lemma mfree_holds:
  assumes "holds_blocks s own L" "p \<in> dom L"
  shows "\<exists>s' own'. mfree p s = Some s' \<and> released s own p s' own'"
  using mfree_ok [OF holdsD(1) [OF assms(1)]] holdsD(2) [OF assms(1)] assms(2) by blast

lemma mfree_null [simp]: "mfree 0 s = Some s"
  by (simp add: mfree_def)

lemma store_word: "unat (x - p) + 4 \<le> n \<Longrightarrow> store_bytes m p n f x = f x"
  by (simp add: store_bytes_def)

lemma calloc_holds:
  assumes h: "holds_blocks s own L" and ab: "wrap32 (a * b) < 4294967284"
  shows "\<exists>r s' own'. calloc a b s = Some (r, s') \<and> holds_blocks s' own' (with_block r s' L) \<and>
    (r \<noteq> 0 \<longrightarrow> r \<notin> dom L \<and> a \<le> wrap32 (a * b) \<and> b \<le> wrap32 (a * b) \<and> (\<exists>c. block_size r s' = Some c \<and> wrap32 (a * b) \<le> c) \<and>
      (\<forall>x. unat (x - r) + 4 \<le> wrap32 (a * b) \<longrightarrow> word_at s' x = 0))"
proof -
  let ?n = "wrap32 (a * b)"
  show ?thesis
  proof (cases "?n < a \<or> ?n < b")
    case True
    then have "calloc a b s = Some (0, s)" by (simp add: calloc_def Let_def)
    then show ?thesis using h by (auto simp: with_block_def)
  next
    case False
    obtain r s1 own1 where m: "malloc ?n s = Some (r, s1)" "handed s own ?n r s1 own1"
      using malloc_holds [OF h wrap32_bound] by blast
    note hh = handed_holds [OF h m(2)]
    show ?thesis
    proof (cases "r = 0")
      case True
      then have "calloc a b s = Some (0, s1)" using False m(1) by (simp add: calloc_def)
      then show ?thesis using hh(1) True by auto
    next
      case r: False
      let ?s = "update_ram (\<lambda>m. store_bytes m r ?n (\<lambda>x. 0)) s1"
      obtain c where c: "block_size r s1 = Some c" "?n \<le> c" "live s1 own1 r c"
        using hh(3) [OF r ab] hh(5) [OF r] live_block_size(1) [OF handedD(1) [OF m(2)]] by fastforce
      have "holds_blocks ?s own1 (with_block r s1 L)" by (rule store_holds [OF hh(1) c(3,2)])
      moreover have bs: "block_size r ?s = block_size r s1"
        by (rule block_size_store [OF handedD(1) [OF m(2)] c(3,2,3)])
      then have "with_block r ?s L = with_block r s1 L" by (simp add: with_block_def)
      moreover have "calloc a b s = Some (r, ?s)" using False m(1) r by (simp add: calloc_def)
      moreover have "word_at ?s x = 0" if "unat (x - r) + 4 \<le> ?n" for x using store_word [OF that] by simp
      moreover have "block_size r ?s = Some c" using bs c(1) by simp
      ultimately show ?thesis using hh(1,2) r c(2) False by (intro exI [of _ r] exI [of _ ?s] exI [of _ own1]) simp
    qed
  qed
qed

lemma null_not_held:
  assumes "holds_blocks s own L"
  shows "L(0 := None) = L"
proof -
  have "L 0 \<noteq> Some c" for c
  proof
    assume "L 0 = Some c"
    then have "live s own 0 c" using holdsD(2) [OF assms] by blast
    then show False using live_block_size(2) [OF holdsD(1) [OF assms]] by blast
  qed
  then have "L 0 = None" by auto
  then show ?thesis by (simp add: fun_upd_idem)
qed

lemma realloc_holds:
  assumes h: "holds_blocks s own L" and p: "p = 0 \<or> p \<in> dom L" and n: "n < 4294967284"
  shows "\<exists>r s' own'. realloc p n s = Some (r, s') \<and>
    holds_blocks s' own' (if r = 0 \<and> n \<noteq> 0 then L else with_block r s' (L(p := None))) \<and>
    (r \<noteq> 0 \<longrightarrow> r \<notin> dom L \<and> (\<exists>c. block_size r s' = Some c \<and> n \<le> c)) \<and>
    (r \<noteq> 0 \<and> p \<noteq> 0 \<longrightarrow> (\<forall>x. unat (x - r) + 4 \<le> min n (the (L p)) \<longrightarrow> word_at s' x = word_at s (p + (x - r))))"
proof (cases "n = 0")
  case True
  show ?thesis
  proof (cases "p = 0")
    case z: True
    have "L(0 := None) = L" by (rule null_not_held [OF h])
    then show ?thesis using True z h by (auto simp: realloc_def with_block_def)
  next
    case False
    then obtain s' own' where "mfree p s = Some s'" "released s own p s' own'" using mfree_holds [OF h] p by blast
    then show ?thesis using True released_holds [OF h] by (auto simp: realloc_def with_block_def)
  qed
next
  case nz: False
  have n': "n < 4294967296" using n by simp
  obtain r s1 own1 where m: "malloc n s = Some (r, s1)" "handed s own n r s1 own1"
    using malloc_holds [OF h n'] by blast
  note hh = handed_holds [OF h m(2)] and inv1 = handedD(1) [OF m(2)]
  have l0: "L(0 := None) = L" by (rule null_not_held [OF h])
  show ?thesis
  proof (cases "r = 0")
    case True
    then have "realloc p n s = Some (0, s1)" using nz m(1) by (simp add: realloc_def)
    then show ?thesis using True nz hh(1) by (auto simp: with_block_def)
  next
    case r: False
    obtain d where d: "block_size r s1 = Some d" "n \<le> d" "live s1 own1 r d"
      using hh(3) [OF r n] hh(5) [OF r] live_block_size(1) [OF inv1] by fastforce
    show ?thesis
    proof (cases "p = 0")
      case True
      then have "realloc p n s = Some (r, s1)" using nz m(1) by (simp add: realloc_def)
      then show ?thesis using True r hh(1,2) d l0 by (intro exI [of _ r] exI [of _ s1] exI [of _ own1]) simp
    next
      case pz: False
      then obtain c where c: "L p = Some c" using p by blast
      have pr: "p \<noteq> r" using hh(2) [OF r] c by blast
      have "with_block r s1 L p = Some c" using pr c by (simp add: with_block_def)
      then have lp: "live s1 own1 p c" using holdsD(2) [OF hh(1)] by blast
      have bp: "block_size p s1 = Some c" by (rule live_block_size(1) [OF inv1 lp])
      let ?k = "min n c" and ?f = "\<lambda>m x. m (p + (x - r))"
      let ?s2 = "update_ram (\<lambda>m. store_bytes m r ?k (?f m)) s1"
      have k: "?k \<le> d" using d(2) by simp
      have h2: "holds_blocks ?s2 own1 (with_block r s1 L)" by (rule store_holds [OF hh(1) d(3) k])
      have p2: "p \<in> dom (with_block r s1 L)" using pr c by (auto simp: with_block_def)
      obtain s3 own3 where f: "mfree p ?s2 = Some s3" "released ?s2 own1 p s3 own3" using mfree_holds [OF h2 p2] by blast
      have h3: "holds_blocks s3 own3 ((with_block r s1 L)(p := None))" by (rule released_holds [OF h2 f(2)])
      have lr2: "live ?s2 own1 r d" using store_live(2) [OF inv1 d(3) k] d(3) by simp
      then have "live s3 own3 r d" using f(2) pr by (simp add: released_def)
      then have b3: "block_size r s3 = Some d" by (rule live_block_size(1) [OF holdsD(1) [OF h3]])
      have e: "(with_block r s1 L)(p := None) = with_block r s3 (L(p := None))"
        using r pr d(1) b3 by (auto simp: with_block_def fun_eq_iff)
      have "realloc p n s = Some (r, s3)"
      proof -
        have "(if n < c then n else c) = ?k" by (simp add: min_def)
        then show ?thesis using nz pz r f(1) unfolding realloc_def Let_def by (simp add: m(1) bp)
      qed
      moreover have "word_at s3 x = word_at s (p + (x - r))" if "unat (x - r) + 4 \<le> min n (the (L p))" for x
      proof -
        have x: "unat (x - r) + 4 \<le> ?k" using that c by simp
        have "unat (x - r) < d" using x k by linarith
        then have "word_at s3 x = word_at ?s2 x" by (rule released_keeps [OF holdsD(1) [OF h2] f(2) lr2 pr [symmetric]])
        also have "\<dots> = word_at s1 (p + (x - r))" by (simp add: word_at_def update_ram_def store_word [OF x])
        also have "\<dots> = word_at s (p + (x - r))"
        proof (rule handed_keeps [OF holdsD(1) [OF h] m(2)])
          show "live s own p c" using holdsD(2) [OF h] c by blast
          show "unat (p + (x - r) - p) < c" using x by simp
        qed
        finally show ?thesis .
      qed
      ultimately show ?thesis using h3 r nz e hh(2) [OF r] b3 d(2)
        by (intro exI [of _ r] exI [of _ s3] exI [of _ own3]) simp
    qed
  qed
qed


lemma malloc_init_value:
  "malloc_init ks = Some \<lparr>pages_st = ks, descs = map (\<lambda>i. \<lparr>d_block_size = bsz i, d_blocks_per_arena = bpa i, d_free_list = []\<rparr>) [0..<7]\<rparr>"
proof -
  have u: "[0..<7] = [0, 1, 2, 3, 4, 5, 6]" by (simp add: upt_rec)
  show ?thesis unfolding malloc_init_def u
    by (subst malloc_init_loop.simps, simp, subst malloc_init_loop.simps, simp, subst malloc_init_loop.simps, simp,
        subst malloc_init_loop.simps, simp, subst malloc_init_loop.simps, simp, subst malloc_init_loop.simps, simp,
        subst malloc_init_loop.simps, simp, subst malloc_init_loop.simps, simp add: arena_size_def bsz_def bpa_def)
qed

lemma malloc_init_holds:
  assumes "wf_kstate ks" "malloc_init ks = Some s"
  shows "holds_blocks s Map.empty Map.empty"
proof -
  have s: "s = \<lparr>pages_st = ks, descs = map (\<lambda>i. \<lparr>d_block_size = bsz i, d_blocks_per_arena = bpa i, d_free_list = []\<rparr>) [0..<7]\<rparr>"
    using assms(2) malloc_init_value by simp
  have "free_blocks s i = []" if "i < 7" for i using that unfolding s by simp
  moreover have "std s" unfolding s std_def by simp
  ultimately show ?thesis using assms(1) by (simp add: holds_blocks_def heap_inv_def lists_ok_def live_def s)
qed

lemma word_holds:
  assumes h: "holds_blocks s own L" and l: "L p = Some c" "unat (x - p) < c"
  shows "holds_blocks (set_word x v s) own L"
proof -
  have lv: "live s own p c" using holdsD(2) [OF h] l(1) by blast
  note inv = holdsD(1) [OF h]
  have "x \<notin> headers own" by (rule live_words(1) [OF inv lv l(2)])
  then have "heap_inv {} (set_word x v s) own"
    using heap_invD(1,3) [OF inv] by (intro heap_inv_cong [OF inv]) (auto simp: word_at_def set_word_def same_pools_def)
  moreover have "live (set_word x v s) own q d = live s own q d" for q d by (rule live_cong) simp
  ultimately show ?thesis using h by (simp add: holds_blocks_def)
qed

lemma palloc_holds:
  assumes h: "holds_blocks s own L" and g: "palloc_get_multiple 0 n (pages_st s) = Some (a, ks)"
  shows "holds_blocks (s\<lparr>pages_st := ks\<rparr>) own L"
proof -
  note inv = holdsD(1) [OF h]
  note wf = heap_invD(1) [OF inv] and dm = heap_invD(3) [OF inv]
  have z: "(0 :: u32) AND PAL_ASSERT = 0" "(0 :: u32) AND PAL_ZERO = 0" by simp_all
  have "wf_kstate ks \<and> dom own \<subseteq> all_pages ks \<and> same_pools (pages_st s) ks \<and> ram ks = ram (pages_st s)"
  proof (cases "0 < n")
    case False
    then have "ks = pages_st s" using g by (simp add: palloc_get_multiple_def)
    then show ?thesis using wf dm by simp
  next
    case True
    then show ?thesis using palloc_get_range [OF wf True z] g wf dm by auto
  qed
  then have "heap_inv {} (s\<lparr>pages_st := ks\<rparr>) own" by (intro heap_inv_cong [OF inv]) (auto simp: word_at_def)
  moreover have "live (s\<lparr>pages_st := ks\<rparr>) own q d = live s own q d" for q d by (rule live_cong) simp
  ultimately show ?thesis using h by (simp add: holds_blocks_def)
qed

text \<open>What a client of the allocator does: it calls the four functions, and writes words into its
  blocks. Other users take pages meanwhile. \<open>L\<close> holds the client's blocks with their capacities.\<close>

inductive heap_run :: "mheap \<Rightarrow> (u32 \<rightharpoonup> nat) \<Rightarrow> bool" where
  run_init: "wf_kstate ks \<Longrightarrow> malloc_init ks = Some s \<Longrightarrow> heap_run s Map.empty"
| run_malloc: "heap_run s L \<Longrightarrow> n < 4294967296 \<Longrightarrow> malloc n s = Some (r, s') \<Longrightarrow> heap_run s' (with_block r s' L)"
| run_calloc: "heap_run s L \<Longrightarrow> wrap32 (a * b) < 4294967284 \<Longrightarrow> calloc a b s = Some (r, s') \<Longrightarrow>
    heap_run s' (with_block r s' L)"
| run_realloc: "heap_run s L \<Longrightarrow> p = 0 \<or> p \<in> dom L \<Longrightarrow> n < 4294967284 \<Longrightarrow> realloc p n s = Some (r, s') \<Longrightarrow>
    heap_run s' (if r = 0 \<and> n \<noteq> 0 then L else with_block r s' (L(p := None)))"
| run_free: "heap_run s L \<Longrightarrow> p = 0 \<or> p \<in> dom L \<Longrightarrow> mfree p s = Some s' \<Longrightarrow> heap_run s' (L(p := None))"
| run_write: "heap_run s L \<Longrightarrow> L p = Some c \<Longrightarrow> unat (x - p) + 4 \<le> c \<Longrightarrow> heap_run (set_word x v s) L"
| run_pages: "heap_run s L \<Longrightarrow> palloc_get_multiple 0 n (pages_st s) = Some (a, ks) \<Longrightarrow> heap_run (s\<lparr>pages_st := ks\<rparr>) L"

lemma heap_run_holds: "heap_run s L \<Longrightarrow> \<exists>own. holds_blocks s own L"
proof (induction rule: heap_run.induct)
  case (run_init ks s)
  then show ?case using malloc_init_holds by blast
next
  case (run_malloc s L n r s')
  then obtain own where h: "holds_blocks s own L" by blast
  obtain own' where "handed s own n r s' own'" using malloc_holds [OF h run_malloc(2)] run_malloc(3) by auto
  then show ?case using handed_holds(1) [OF h] by blast
next
  case (run_calloc s L a b r s')
  then obtain own where h: "holds_blocks s own L" by blast
  show ?case using calloc_holds [OF h run_calloc(2)] run_calloc(3) by auto
next
  case (run_realloc s L p n r s')
  then obtain own where h: "holds_blocks s own L" by blast
  show ?case using realloc_holds [OF h run_realloc(2,3)] run_realloc(4) by auto
next
  case (run_free s L p s')
  then obtain own where h: "holds_blocks s own L" by blast
  show ?case
  proof (cases "p = 0")
    case True
    then show ?thesis using h null_not_held [OF h] run_free(3) by auto
  next
    case False
    then have "p \<in> dom L" using run_free(2) by blast
    then obtain own' where "released s own p s' own'" using mfree_holds [OF h] run_free(3) by fastforce
    then show ?thesis using released_holds [OF h] by blast
  qed
next
  case (run_write s L p c x v)
  then obtain own where h: "holds_blocks s own L" by blast
  have "unat (x - p) < c" using run_write(3) by linarith
  then show ?case using word_holds [OF h run_write(2)] by blast
next
  case (run_pages s L n a ks)
  then show ?case using palloc_holds by blast
qed

lemma live_bounds:
  assumes "heap_inv {} s own" "live s own p c"
  shows "0 < c" "unat p + c \<le> 4294967296"
proof -
  show c: "0 < c" using assms(2) unfolding live_def
  proof (elim disjE exE conjE)
    fix q n assume o: "own q = Some (Big q n)" and "c = 4096 * n - 12"
    then show ?thesis using big_header(1) [OF assms(1) o] by simp
  qed (use bsz_pos(1) in simp)
  have "c - 1 < c" using c by simp
  have "c \<le> 4294967296"
    using assms(2) unfolding live_def
  proof (elim disjE exE conjE)
    fix a i k assume o: "own a = Some (Small i)" and k: "k < bpa i" and e: "c = bsz i"
    show ?thesis using bsz_bpa [OF k] e by linarith
  next
    fix q n assume o: "own q = Some (Big q n)" and "c = 4096 * n - 12"
    then show ?thesis using run_ok_bound(3) [OF heap_invD(1) [OF assms(1)] big_header(8,1) [OF assms(1) o]] by simp
  qed
  then have u: "unat (word_of_nat (c - 1) :: u32) = c - 1" using c by (intro unat_word_of_nat_32) linarith
  have d: "unat ((p + word_of_nat (c - 1)) - p) < c" using u c by simp
  have "unat (p + word_of_nat (c - 1)) = unat p + (c - 1)" using live_words(2) [OF assms d] u by simp
  moreover have "unat (p + word_of_nat (c - 1)) < 2 ^ LENGTH(32)" by (rule unsigned_less)
  then have "unat (p + word_of_nat (c - 1)) < 4294967296" by simp
  ultimately show "unat p + c \<le> 4294967296" using c by linarith
qed

lemma live_apart:
  assumes inv: "heap_inv {} s own" and l: "live s own p c" "live s own q d" and ne: "p \<noteq> q"
  shows "unat p + c \<le> unat q \<or> unat q + d \<le> unat p"
proof (rule ccontr)
  assume n: "\<not> ?thesis"
  have u: "unat (q - p) = unat q - unat p" if "unat p \<le> unat q" using that by (simp add: unat_sub word_le_nat_alt)
  have v: "unat (p - q) = unat p - unat q" if "unat q \<le> unat p" using that by (simp add: unat_sub word_le_nat_alt)
  note b = live_bounds [OF inv l(1)] live_bounds [OF inv l(2)]
  show False
  proof (cases "unat p \<le> unat q")
    case True
    then have "unat (q - p) < c" using n u by linarith
    moreover have "unat (q - q) < d" using b(3) by simp
    ultimately show False using live_disjoint [OF inv l] ne by blast
  next
    case False
    then have "unat (p - q) < d" using n v by linarith
    moreover have "unat (p - p) < c" using b(1) by simp
    ultimately show False using live_disjoint [OF inv l] ne by blast
  qed
qed


text \<open>The contents of the blocks of \<open>L\<close> other than \<open>p\<close> are the same in \<open>s\<close> and \<open>s'\<close>.\<close>

definition keeps :: "(u32 \<rightharpoonup> nat) \<Rightarrow> mheap \<Rightarrow> mheap \<Rightarrow> bool" where
  "keeps L s s' \<longleftrightarrow> (\<forall>q c x. L q = Some c \<longrightarrow> unat (x - q) < c \<longrightarrow> word_at s' x = word_at s x)"

lemma held_blocks:
  assumes "holds_blocks s own L" "L p = Some c"
  shows "p \<noteq> 0" "block_size p s = Some c" "unat p + c \<le> 4294967296"
    "L q = Some d \<Longrightarrow> p \<noteq> q \<Longrightarrow> unat p + c \<le> unat q \<or> unat q + d \<le> unat p"
proof -
  note inv = holdsD(1) [OF assms(1)] and l = holdsD(2) [OF assms(1)]
  have p: "live s own p c" using l assms(2) by blast
  show "p \<noteq> 0" "block_size p s = Some c" using live_block_size [OF inv p] by blast+
  show "unat p + c \<le> 4294967296" by (rule live_bounds(2) [OF inv p])
  show "unat p + c \<le> unat q \<or> unat q + d \<le> unat p" if "L q = Some d" "p \<noteq> q"
    using live_apart [OF inv p _ that(2)] l that(1) by blast
qed

lemma malloc_step:
  assumes "heap_run s L" "n < 4294967296"
  shows "\<exists>r s'. malloc n s = Some (r, s') \<and> heap_run s' (with_block r s' L) \<and> keeps L s s' \<and>
    (r \<noteq> 0 \<longrightarrow> r \<notin> dom L \<and> (\<exists>c. block_size r s' = Some c \<and> (if n < 4294967284 then n \<le> c else c = 4084)))"
proof -
  obtain own where h: "holds_blocks s own L" using heap_run_holds [OF assms(1)] by blast
  obtain r s' own' where m: "malloc n s = Some (r, s')" "handed s own n r s' own'" using malloc_holds [OF h assms(2)] by blast
  have "keeps L s s'" using handed_keeps [OF holdsD(1) [OF h] m(2)] holdsD(2) [OF h] by (simp add: keeps_def)
  then show ?thesis using m(1) run_malloc [OF assms m(1)] handed_holds(2-4) [OF h m(2)] by force
qed

lemma free_step:
  assumes "heap_run s L" "p = 0 \<or> p \<in> dom L"
  shows "\<exists>s'. mfree p s = Some s' \<and> heap_run s' (L(p := None)) \<and> keeps (L(p := None)) s s'"
proof -
  obtain own where h: "holds_blocks s own L" using heap_run_holds [OF assms(1)] by blast
  show ?thesis
  proof (cases "p = 0")
    case True
    then show ?thesis using run_free [OF assms, of s] by (simp add: keeps_def)
  next
    case False
    then obtain s' own' where f: "mfree p s = Some s'" "released s own p s' own'" using mfree_holds [OF h] assms(2) by blast
    have "keeps (L(p := None)) s s'"
      using released_keeps [OF holdsD(1) [OF h] f(2)] holdsD(2) [OF h] by (simp add: keeps_def)
    then show ?thesis using f(1) run_free [OF assms f(1)] by blast
  qed
qed

lemma calloc_step:
  assumes "heap_run s L" "wrap32 (a * b) < 4294967284"
  shows "\<exists>r s'. calloc a b s = Some (r, s') \<and> heap_run s' (with_block r s' L) \<and>
    (r \<noteq> 0 \<longrightarrow> r \<notin> dom L \<and> (\<exists>c. block_size r s' = Some c \<and> wrap32 (a * b) \<le> c) \<and>
       (\<forall>x. unat (x - r) + 4 \<le> wrap32 (a * b) \<longrightarrow> word_at s' x = 0))"
proof -
  obtain own where h: "holds_blocks s own L" using heap_run_holds [OF assms(1)] by blast
  obtain r s' where c: "calloc a b s = Some (r, s')"
    "r \<noteq> 0 \<longrightarrow> r \<notin> dom L \<and> a \<le> wrap32 (a * b) \<and> b \<le> wrap32 (a * b) \<and> (\<exists>c. block_size r s' = Some c \<and> wrap32 (a * b) \<le> c) \<and>
      (\<forall>x. unat (x - r) + 4 \<le> wrap32 (a * b) \<longrightarrow> word_at s' x = 0)"
    using calloc_holds [OF h assms(2)] by (elim exE conjE) (rule that, assumption+)
  then show ?thesis using run_calloc [OF assms c(1)] by blast
qed

lemma realloc_step:
  assumes "heap_run s L" "p = 0 \<or> p \<in> dom L" "n < 4294967284"
  shows "\<exists>r s'. realloc p n s = Some (r, s') \<and>
    heap_run s' (if r = 0 \<and> n \<noteq> 0 then L else with_block r s' (L(p := None))) \<and>
    (r \<noteq> 0 \<longrightarrow> r \<notin> dom L \<and> (\<exists>c. block_size r s' = Some c \<and> n \<le> c)) \<and>
    (r \<noteq> 0 \<and> p \<noteq> 0 \<longrightarrow> (\<forall>x. unat (x - r) + 4 \<le> min n (the (L p)) \<longrightarrow> word_at s' x = word_at s (p + (x - r))))"
proof -
  obtain own where h: "holds_blocks s own L" using heap_run_holds [OF assms(1)] by blast
  show ?thesis using realloc_holds [OF h assms(2,3)] run_realloc [OF assms] by blast
qed

section \<open>The properties\<close>

text \<open>
  C17. A client that frees and resizes only blocks it holds can run \<open>malloc\<close>, \<open>calloc\<close>, \<open>realloc\<close>
  and \<open>free\<close> for ever, writing what it likes into its blocks, while others take pages: no call fails an
  assertion; the blocks it holds do not overlap or wrap, and have the capacity they were given; a
  new block is none of those held, is big enough, and is zeroed by \<open>calloc\<close> and filled from the old
  block by \<open>realloc\<close>, both for sizes below 0xfffffff4; \<open>malloc\<close> and \<open>free\<close> change no block held. The
  exception is a request to \<open>malloc\<close> of 0xfffffff4 bytes or more, for which the size wraps: the block handed
  out has 4084 bytes.
\<close>

theorem malloc_safe:
  assumes "heap_run s L"
  shows "(\<forall>p c. L p = Some c \<longrightarrow> p \<noteq> 0 \<and> block_size p s = Some c \<and> unat p + c \<le> 4294967296 \<and>
      (\<forall>q d. L q = Some d \<and> p \<noteq> q \<longrightarrow> unat p + c \<le> unat q \<or> unat q + d \<le> unat p)) \<and>
    (\<forall>n<4294967296. \<exists>r s'. malloc n s = Some (r, s') \<and> heap_run s' (with_block r s' L) \<and> keeps L s s' \<and>
      (r \<noteq> 0 \<longrightarrow> r \<notin> dom L \<and> (\<exists>c. block_size r s' = Some c \<and> (if n < 4294967284 then n \<le> c else c = 4084)))) \<and>
    (\<forall>a b. wrap32 (a * b) < 4294967284 \<longrightarrow>
      (\<exists>r s'. calloc a b s = Some (r, s') \<and> heap_run s' (with_block r s' L) \<and>
        (r \<noteq> 0 \<longrightarrow> r \<notin> dom L \<and> (\<exists>c. block_size r s' = Some c \<and> wrap32 (a * b) \<le> c) \<and>
           (\<forall>x. unat (x - r) + 4 \<le> wrap32 (a * b) \<longrightarrow> word_at s' x = 0)))) \<and>
    (\<forall>p n. (p = 0 \<or> p \<in> dom L) \<and> n < 4294967284 \<longrightarrow>
      (\<exists>r s'. realloc p n s = Some (r, s') \<and>
        heap_run s' (if r = 0 \<and> n \<noteq> 0 then L else with_block r s' (L(p := None))) \<and>
        (r \<noteq> 0 \<longrightarrow> r \<notin> dom L \<and> (\<exists>c. block_size r s' = Some c \<and> n \<le> c)) \<and>
        (r \<noteq> 0 \<and> p \<noteq> 0 \<longrightarrow>
          (\<forall>x. unat (x - r) + 4 \<le> min n (the (L p)) \<longrightarrow> word_at s' x = word_at s (p + (x - r)))))) \<and>
    (\<forall>p. p = 0 \<or> p \<in> dom L \<longrightarrow>
      (\<exists>s'. mfree p s = Some s' \<and> heap_run s' (L(p := None)) \<and> keeps (L(p := None)) s s'))"
proof -
  obtain own where h: "holds_blocks s own L" using heap_run_holds [OF assms] by blast
  show ?thesis
    using held_blocks [OF h] malloc_step [OF assms] calloc_step [OF assms] realloc_step [OF assms] free_step [OF assms]
    by (intro conjI allI impI) simp_all
qed

theorem malloc_safe_witness:
  "\<exists>s r s'. malloc_init small_pools = Some s \<and> malloc 100 s = Some (r, s') \<and> heap_run s' (with_block r s' Map.empty)"
proof -
  obtain s where s: "malloc_init small_pools = Some s" using malloc_init_value by blast
  show ?thesis using malloc_safe [OF run_init [OF wf_small_pools s], THEN conjunct2, THEN conjunct1, rule_format, of 100] s by auto
qed

end
