(* ===== verification/Pagedir.thy ===== *)
theory Pagedir
  imports Palloc
begin

text \<open>
  Two-level page directories, \<open>userprog/pagedir.c\<close>, over the page allocator. A page directory
  and its page tables are pages of \<open>ram\<close>; an entry is the word at a slot address. \<open>cr3\<close> is the
  page directory base register and \<open>tlb_flushes\<close> counts the writes to it. The abstract view of
  a page directory is \<open>translate\<close>: the frame and the write permission of a user address.
\<close>

section \<open>The code\<close>

record pstate =
  ks :: kstate
  cr3 :: u32
  tlb_flushes :: nat
  init_page_dir :: u32
  init_ram_pages :: u32

definition rd :: "pstate \<Rightarrow> u32 \<Rightarrow> u32" where
  "rd st a = ram (ks st) a"

definition wr :: "u32 \<Rightarrow> u32 \<Rightarrow> pstate \<Rightarrow> pstate" where
  "wr a v st = st\<lparr>ks := (ks st)\<lparr>ram := (ram (ks st))(a := v)\<rparr>\<rparr>"

definition pagedir_activate :: "u32 \<Rightarrow> pstate \<Rightarrow> pstate option" where
  "pagedir_activate pd st = do {
     let pd' = (if pd = 0 then init_page_dir st else pd);
     phys \<leftarrow> vtop pd';
     Some (st\<lparr>cr3 := phys, tlb_flushes := tlb_flushes st + 1\<rparr>)
   }"

definition active_pd :: "pstate \<Rightarrow> u32 option" where
  "active_pd st = ptov (cr3 st)"

definition invalidate_pagedir :: "u32 \<Rightarrow> pstate \<Rightarrow> pstate option" where
  "invalidate_pagedir pd st = do {
     a \<leftarrow> active_pd st;
     (if a = pd then pagedir_activate pd st else Some st)
   }"

definition copy_page :: "u32 \<Rightarrow> u32 \<Rightarrow> (u32 \<Rightarrow> u32) \<Rightarrow> u32 \<Rightarrow> u32" where
  "copy_page dst src m = (\<lambda>x. if unat (x - dst) < 4096 then m (src + (x - dst)) else m x)"

definition pagedir_create :: "pstate \<Rightarrow> (u32 \<times> pstate) option" where
  "pagedir_create st = do {
     (pd, k) \<leftarrow> palloc_get_page 0 (ks st);
     Some (pd, st\<lparr>ks := (if pd \<noteq> 0 then k\<lparr>ram := copy_page pd (init_page_dir st) (ram k)\<rparr> else k)\<rparr>)
   }"

fun free_ptes :: "u32 \<Rightarrow> nat \<Rightarrow> nat \<Rightarrow> kstate \<Rightarrow> kstate option" where
  "free_ptes pt i 0 k = Some k"
| "free_ptes pt i (Suc n) k =
     (let pte = ram k (pt + 4 * word_of_nat i)
      in if pte AND PTE_P \<noteq> 0
         then (case pte_get_page pte of
                 None \<Rightarrow> None
               | Some page \<Rightarrow>
                   (case palloc_free_page page k of
                      None \<Rightarrow> None
                    | Some k' \<Rightarrow> free_ptes pt (Suc i) n k'))
         else free_ptes pt (Suc i) n k)"

fun free_pdes :: "u32 \<Rightarrow> nat \<Rightarrow> nat \<Rightarrow> kstate \<Rightarrow> kstate option" where
  "free_pdes pd i 0 k = Some k"
| "free_pdes pd i (Suc n) k =
     (let pde = ram k (pd + 4 * word_of_nat i)
      in if pde AND PTE_P \<noteq> 0
         then (case pde_get_pt pde of
                 None \<Rightarrow> None
               | Some pt \<Rightarrow>
                   (case free_ptes pt 0 1024 k of
                      None \<Rightarrow> None
                    | Some k1 \<Rightarrow>
                        (case palloc_free_page pt k1 of
                           None \<Rightarrow> None
                         | Some k2 \<Rightarrow> free_pdes pd (Suc i) n k2)))
         else free_pdes pd (Suc i) n k)"

definition pagedir_destroy :: "u32 \<Rightarrow> pstate \<Rightarrow> pstate option" where
  "pagedir_destroy pd st =
     (if pd = 0 then Some st
      else do {
        kassert (pd \<noteq> init_page_dir st);
        k \<leftarrow> free_pdes pd 0 (unat (pd_no PHYS_BASE)) (ks st);
        k' \<leftarrow> palloc_free_page pd k;
        Some (st\<lparr>ks := k'\<rparr>)
      })"

definition lookup_page :: "u32 \<Rightarrow> u32 \<Rightarrow> bool \<Rightarrow> pstate \<Rightarrow> (u32 \<times> pstate) option" where
  "lookup_page pd vaddr create st = do {
     kassert (pd \<noteq> 0);
     kassert (\<not> create \<or> is_user_vaddr vaddr);
     let pde = pd + 4 * pd_no vaddr;
     (found, st') \<leftarrow>
       (if rd st pde = 0 then
          (if create then do {
             (pt, k) \<leftarrow> palloc_get_page PAL_ZERO (ks st);
             (if pt = 0 then Some (False, st\<lparr>ks := k\<rparr>)
              else do {
                e \<leftarrow> pde_create pt;
                Some (True, wr pde e (st\<lparr>ks := k\<rparr>))
              })
           } else Some (False, st))
        else Some (True, st));
     (if found then do {
        pt \<leftarrow> pde_get_pt (rd st' pde);
        Some (pt + 4 * pt_no vaddr, st')
      } else Some (0, st'))
   }"

definition pagedir_set_page :: "u32 \<Rightarrow> u32 \<Rightarrow> u32 \<Rightarrow> bool \<Rightarrow> pstate \<Rightarrow> (bool \<times> pstate) option" where
  "pagedir_set_page pd upage kpage writable st = do {
     kassert (pg_ofs upage = 0);
     kassert (pg_ofs kpage = 0);
     kassert (is_user_vaddr upage);
     phys \<leftarrow> vtop kpage;
     kassert (drop_bit PTSHIFT phys < init_ram_pages st);
     kassert (pd \<noteq> init_page_dir st);
     (pte, st') \<leftarrow> lookup_page pd upage True st;
     (if pte \<noteq> 0 then do {
        kassert (rd st' pte AND PTE_P = 0);
        e \<leftarrow> pte_create_user kpage writable;
        Some (True, wr pte e st')
      } else Some (False, st'))
   }"

definition pagedir_get_page :: "u32 \<Rightarrow> u32 \<Rightarrow> pstate \<Rightarrow> u32 option" where
  "pagedir_get_page pd uaddr st = do {
     kassert (is_user_vaddr uaddr);
     (pte, st') \<leftarrow> lookup_page pd uaddr False st;
     (if pte \<noteq> 0 \<and> rd st' pte AND PTE_P \<noteq> 0
      then do { page \<leftarrow> pte_get_page (rd st' pte); Some (page + pg_ofs uaddr) }
      else Some 0)
   }"

definition pagedir_clear_page :: "u32 \<Rightarrow> u32 \<Rightarrow> pstate \<Rightarrow> pstate option" where
  "pagedir_clear_page pd upage st = do {
     kassert (pg_ofs upage = 0);
     kassert (is_user_vaddr upage);
     (pte, st') \<leftarrow> lookup_page pd upage False st;
     (if pte \<noteq> 0 \<and> rd st' pte AND PTE_P \<noteq> 0
      then invalidate_pagedir pd (wr pte (rd st' pte AND NOT PTE_P) st')
      else Some st')
   }"

definition pagedir_is_dirty :: "u32 \<Rightarrow> u32 \<Rightarrow> pstate \<Rightarrow> bool option" where
  "pagedir_is_dirty pd vpage st = do {
     (pte, st') \<leftarrow> lookup_page pd vpage False st;
     Some (pte \<noteq> 0 \<and> rd st' pte AND PTE_D \<noteq> 0)
   }"

definition pagedir_set_dirty :: "u32 \<Rightarrow> u32 \<Rightarrow> bool \<Rightarrow> pstate \<Rightarrow> pstate option" where
  "pagedir_set_dirty pd vpage dirty st = do {
     (pte, st') \<leftarrow> lookup_page pd vpage False st;
     (if pte \<noteq> 0 then
        (if dirty then Some (wr pte (rd st' pte OR PTE_D) st')
         else invalidate_pagedir pd (wr pte (rd st' pte AND NOT PTE_D) st'))
      else Some st')
   }"

definition pagedir_is_accessed :: "u32 \<Rightarrow> u32 \<Rightarrow> pstate \<Rightarrow> bool option" where
  "pagedir_is_accessed pd vpage st = do {
     (pte, st') \<leftarrow> lookup_page pd vpage False st;
     Some (pte \<noteq> 0 \<and> rd st' pte AND PTE_A \<noteq> 0)
   }"

definition pagedir_set_accessed :: "u32 \<Rightarrow> u32 \<Rightarrow> bool \<Rightarrow> pstate \<Rightarrow> pstate option" where
  "pagedir_set_accessed pd vpage accessed st = do {
     (pte, st') \<leftarrow> lookup_page pd vpage False st;
     (if pte \<noteq> 0 then
        (if accessed then Some (wr pte (rd st' pte OR PTE_A) st')
         else invalidate_pagedir pd (wr pte (rd st' pte AND NOT PTE_A) st'))
      else Some st')
   }"

section \<open>Slots of a page\<close>

definition slot :: "u32 \<Rightarrow> nat \<Rightarrow> u32" where
  "slot p i = p + 4 * word_of_nat i"

lemma unat_slot_ofs: "i < 1024 \<Longrightarrow> unat (4 * word_of_nat i :: u32) = 4 * i"
  by (simp add: unat_word_ariths unat_word_of_nat_32)

lemma round_slot: "aligned p \<Longrightarrow> i < 1024 \<Longrightarrow> pg_round_down (slot p i) = p"
  unfolding slot_def by (rule pg_round_down_page) (simp_all add: unat_slot_ofs)

lemma slot_inj:
  assumes "aligned p" "aligned q" "i < 1024" "j < 1024" "slot p i = slot q j"
  shows "p = q \<and> i = j"
proof -
  have "unat (4 * word_of_nat i :: u32) < 4096" "unat (4 * word_of_nat j :: u32) < 4096"
    using unat_slot_ofs [OF assms(3)] unat_slot_ofs [OF assms(4)] assms(3,4) by simp_all
  then have eq: "p = q \<and> 4 * word_of_nat i = (4 * word_of_nat j :: u32)"
    using assms(5) unfolding slot_def by (rule page_plus_inj [OF assms(1,2)])
  then have "unat (4 * word_of_nat i :: u32) = unat (4 * word_of_nat j :: u32)" by (simp only:)
  then have "i = j" unfolding unat_slot_ofs [OF assms(3)] unat_slot_ofs [OF assms(4)] by simp
  with eq show ?thesis by blast
qed

lemma slot_nonzero: "aligned p \<Longrightarrow> PHYS_BASE \<le> p \<Longrightarrow> i < 1024 \<Longrightarrow> slot p i \<noteq> 0"
  using unat_page_plus [of p "4 * word_of_nat i"]
  by (auto simp: slot_def unat_slot_ofs word_le_nat_alt PHYS_BASE_def)

lemma pde_slot: "pd + 4 * pd_no va = slot pd (unat (pd_no va))"
  by (simp add: slot_def)

lemma pte_slot: "pt + 4 * pt_no va = slot pt (unat (pt_no va))"
  by (simp add: slot_def)

section \<open>The tables and the translation of a page directory\<close>

definition table :: "pstate \<Rightarrow> u32 \<Rightarrow> nat \<Rightarrow> u32 option" where
  "table st pd i = (if rd st (slot pd i) = 0 then None else pde_get_pt (rd st (slot pd i)))"

definition entry :: "pstate \<Rightarrow> u32 \<Rightarrow> u32 \<Rightarrow> u32" where
  "entry st pd va =
     (case table st pd (unat (pd_no va)) of None \<Rightarrow> 0 | Some pt \<Rightarrow> rd st (slot pt (unat (pt_no va))))"

definition translate :: "pstate \<Rightarrow> u32 \<Rightarrow> u32 \<Rightarrow> (u32 \<times> bool) option" where
  "translate st pd va =
     (let e = entry st pd va in if e AND PTE_P \<noteq> 0 then Some (e AND PTE_ADDR, e AND PTE_W \<noteq> 0) else None)"

definition pd_wf :: "pstate \<Rightarrow> u32 \<Rightarrow> bool" where
  "pd_wf st pd \<longleftrightarrow> wf_kstate (ks st) \<and> pd \<in> all_pages (ks st) \<and>
     (\<forall>i<768. rd st (slot pd i) \<noteq> 0 \<longrightarrow>
        (\<exists>pt. table st pd i = Some pt \<and> pt \<in> all_pages (ks st) \<and> pt \<noteq> pd)) \<and>
     (\<forall>i<768. \<forall>j<768. \<forall>pt. table st pd i = Some pt \<longrightarrow> table st pd j = Some pt \<longrightarrow> i = j)"

lemma pd_wf_page:
  assumes "pd_wf st pd"
  shows "wf_kstate (ks st)" "aligned pd" "PHYS_BASE \<le> pd" "pd \<noteq> 0" "pd \<in> all_pages (ks st)"
  using assms all_pages_aligned [of "ks st" pd] PHYS_BASE_nonzero [of pd] by (auto simp: pd_wf_def)

lemma pd_wf_table:
  assumes "pd_wf st pd" "i < 768" "table st pd i = Some pt"
  shows "aligned pt" "PHYS_BASE \<le> pt" "pt \<in> all_pages (ks st)" "pt \<noteq> pd" "rd st (slot pd i) \<noteq> 0"
    "pde_get_pt (rd st (slot pd i)) = Some pt"
proof -
  show nz: "rd st (slot pd i) \<noteq> 0" using assms(3) by (auto simp: table_def)
  then show "pde_get_pt (rd st (slot pd i)) = Some pt" using assms(3) by (simp add: table_def)
  show pt: "pt \<in> all_pages (ks st)" "pt \<noteq> pd" using assms nz by (auto simp: pd_wf_def)
  then show "aligned pt" "PHYS_BASE \<le> pt"
    using all_pages_aligned [OF pd_wf_page(1) [OF assms(1)]] by simp_all
qed

lemma pd_wf_none: "pd_wf st pd \<Longrightarrow> i < 768 \<Longrightarrow> table st pd i = None \<longleftrightarrow> rd st (slot pd i) = 0"
  by (auto simp: pd_wf_def table_def)

lemma pd_wf_inj:
  "pd_wf st pd \<Longrightarrow> i < 768 \<Longrightarrow> j < 768 \<Longrightarrow> table st pd i = Some pt \<Longrightarrow> table st pd j = Some pt \<Longrightarrow> i = j"
  unfolding pd_wf_def by blast

lemma rd_wr: "rd (wr a v st) b = (if b = a then v else rd st b)"
  by (simp add: rd_def wr_def)

lemma wr_simps [simp]:
  "wf_kstate (ks (wr a v st)) = wf_kstate (ks st)" "all_pages (ks (wr a v st)) = all_pages (ks st)"
  "cr3 (wr a v st) = cr3 st" "init_page_dir (wr a v st) = init_page_dir st"
  by (simp_all add: wr_def)

lemma rd_wr_slot:
  assumes "aligned p" "aligned q" "i < 1024" "j < 1024"
  shows "rd (wr (slot p i) v st) (slot q j) = (if p = q \<and> i = j then v else rd st (slot q j))"
  using slot_inj [OF assms] by (auto simp: rd_wr)

lemma memset_slot:
  assumes "aligned p" "aligned q" "j < 1024"
  shows "memset_words m p v 4096 (slot q j) = (if q = p then v else m (slot q j))"
  using in_page_iff [OF assms(1), of "slot q j"] round_slot [OF assms(2,3)]
  by (simp add: memset_words_def)

lemma lookup_existing:
  assumes "pd_wf st pd" "is_user_vaddr va" "table st pd (unat (pd_no va)) = Some pt"
  shows "lookup_page pd va create st = Some (slot pt (unat (pt_no va)), st)"
  using pd_wf_page(4) [OF assms(1)] pd_wf_table(5,6) [OF assms(1) _ assms(3)] assms(2)
  by (simp add: lookup_page_def pde_slot pte_slot Let_def pd_no_user)

lemma lookup_absent:
  assumes "pd_wf st pd" "is_user_vaddr va" "table st pd (unat (pd_no va)) = None"
  shows "lookup_page pd va False st = Some (0, st)"
  using pd_wf_page(4) [OF assms(1)] pd_wf_none [OF assms(1)] assms(2,3)
  by (simp add: lookup_page_def pde_slot Let_def pd_no_user)

lemma write_entry:
  assumes "pd_wf st pd" "i < 768" "table st pd i = Some pt" "n < 1024"
  shows "table (wr (slot pt n) v st) pd j = (if j < 1024 then table st pd j else table (wr (slot pt n) v st) pd j)"
    and "pd_wf (wr (slot pt n) v st) pd"
    and "is_user_vaddr va \<Longrightarrow> entry (wr (slot pt n) v st) pd va =
      (if unat (pd_no va) = i \<and> unat (pt_no va) = n then v else entry st pd va)"
proof -
  let ?st = "wr (slot pt n) v st"
  note pt = pd_wf_table [OF assms(1-3)] and pd = pd_wf_page [OF assms(1)]
  have rd_pd: "rd ?st (slot pd j) = rd st (slot pd j)" if "j < 1024" for j
    using rd_wr_slot [OF pt(1) pd(2) assms(4) that, of v st] pt(4) by simp
  then have tab: "table ?st pd j = table st pd j" if "j < 1024" for j
    using that by (simp add: table_def)
  then show "table ?st pd j = (if j < 1024 then table st pd j else table ?st pd j)" by simp
  show "pd_wf ?st pd" using assms(1) rd_pd tab unfolding pd_wf_def wr_simps by auto
  assume "is_user_vaddr va"
  then have u: "unat (pd_no va) < 768" by (simp add: pd_no_user)
  show "entry ?st pd va = (if unat (pd_no va) = i \<and> unat (pt_no va) = n then v else entry st pd va)"
  proof (cases "table st pd (unat (pd_no va))")
    case None
    then show ?thesis using tab u assms(3) by (auto simp: entry_def)
  next
    case (Some q)
    have "pt = q \<longleftrightarrow> unat (pd_no va) = i"
      using pd_wf_inj [OF assms(1) u assms(2)] Some assms(3) by auto
    then show ?thesis
      using rd_wr_slot [OF pt(1) pd_wf_table(1) [OF assms(1) u Some] assms(4) pt_no_bound, of v st va]
        tab u Some by (auto simp: entry_def)
  qed
qed

lemma lookup_create:
  assumes wf: "pd_wf st pd" and user: "is_user_vaddr va" and none: "table st pd (unat (pd_no va)) = None"
  shows "(\<exists>pt st'. lookup_page pd va True st = Some (slot pt (unat (pt_no va)), st') \<and> pd_wf st' pd \<and>
      table st' pd (unat (pd_no va)) = Some pt \<and> pt \<notin> all_pages (ks st) \<and>
      all_pages (ks st') = insert pt (all_pages (ks st)) \<and>
      cr3 st' = cr3 st \<and> init_page_dir st' = init_page_dir st \<and> init_ram_pages st' = init_ram_pages st \<and>
      same_pools (ks st) (ks st') \<and> (\<forall>j<768. table st' pd j = (if j = unat (pd_no va) then Some pt else table st pd j)) \<and>
      (\<forall>q j. aligned q \<and> q \<noteq> pd \<and> q \<noteq> pt \<and> j < 1024 \<longrightarrow> rd st' (slot q j) = rd st (slot q j)) \<and>
      (\<forall>j. j < 1024 \<and> j \<noteq> unat (pd_no va) \<longrightarrow> rd st' (slot pd j) = rd st (slot pd j)) \<and>
      (\<forall>vb. is_user_vaddr vb \<longrightarrow> entry st' pd vb = entry st pd vb))
    \<or> lookup_page pd va True st = Some (0, st) \<and> pool_full False (ks st)"
proof -
  let ?i = "unat (pd_no va)"
  note pd = pd_wf_page [OF wf]
  have i: "?i < 768" using user by (simp add: pd_no_user)
  have nf: "PAL_ZERO AND PAL_ASSERT = 0" "PAL_ZERO AND PAL_ZERO \<noteq> 0" by (simp_all add: PAL_ZERO_def PAL_ASSERT_def)
  have z: "rd st (slot pd ?i) = 0" using pd_wf_none [OF wf i] none by simp
  have nu: "PAL_ZERO AND PAL_USER = 0" by (simp add: PAL_ZERO_def PAL_USER_def)
  from page_get_cases [OF pd(1) nf(1)] show ?thesis
  proof (elim disjE exE conjE)
    assume g: "palloc_get_page PAL_ZERO (ks st) = Some (0, ks st)"
    then have "pool_full False (ks st)" using page_get_pool(3) [OF pd(1) nf(1) g] nu by simp
    then show ?thesis using g z pd(4) user by (simp add: lookup_page_def pde_slot Let_def)
  next
    fix pt k
    assume g: "palloc_get_page PAL_ZERO (ks st) = Some (pt, k)" "pt \<noteq> 0" "aligned pt" "PHYS_BASE \<le> pt"
        "wf_kstate k" "pt \<notin> all_pages (ks st)" "all_pages k = insert pt (all_pages (ks st))"
        "ram k = (if PAL_ZERO AND PAL_ZERO \<noteq> 0 then memset_words (ram (ks st)) pt 0 4096 else ram (ks st))"
    define e where "e = (pt - PHYS_BASE) OR 7"
    define st' where "st' = wr (slot pd ?i) e (st\<lparr>ks := k\<rparr>)"
    have get: "pde_get_pt e = Some pt" using pde_get_pt_create [OF g(3,4)] by (simp add: e_def)
    then have e0: "e \<noteq> 0" by (auto simp: pde_get_pt_def)
    have npd: "pt \<noteq> pd" using g(6) pd(5) by auto
    have rdk: "rd (st\<lparr>ks := k\<rparr>) (slot q j) = (if q = pt then 0 else rd st (slot q j))"
      if "aligned q" "j < 1024" for q j
      using memset_slot [OF g(3) that, of "ram (ks st)" 0] g(8) nf(2) by (simp add: rd_def)
    have rd': "rd st' (slot q j) = (if q = pd \<and> j = ?i then e else if q = pt then 0 else rd st (slot q j))"
      if "aligned q" "j < 1024" for q j
      using rd_wr_slot [OF pd(2) that(1) _ that(2), of ?i e "st\<lparr>ks := k\<rparr>"] rdk [OF that] i
      by (auto simp: st'_def)
    have tab: "table st' pd j = (if j = ?i then Some pt else table st pd j)" if "j < 768" for j
      using rd' [OF pd(2), of j] that npd get e0 by (cases "j = ?i") (simp_all add: table_def)
    have wf': "pd_wf st' pd"
      unfolding pd_wf_def
    proof (intro conjI allI impI)
      show "wf_kstate (ks st')" using g(5) by (simp add: st'_def)
      show "pd \<in> all_pages (ks st')" using g(7) pd(5) by (simp add: st'_def)
    next
      fix j assume j: "j < 768" "rd st' (slot pd j) \<noteq> 0"
      show "\<exists>q. table st' pd j = Some q \<and> q \<in> all_pages (ks st') \<and> q \<noteq> pd"
        using tab [OF j(1)] rd' [OF pd(2), of j] j npd g(7) wf by (auto simp: st'_def pd_wf_def split: if_splits)
    next
      fix a b q assume a: "a < 768" and b: "b < 768"
        and ab: "table st' pd a = Some q" "table st' pd b = Some q"
      have "table st pd c \<noteq> Some pt" if "c < 768" for c
        using pd_wf_table(3) [OF wf that] g(6) by auto
      moreover have "if a = ?i then q = pt else table st pd a = Some q"
        using tab [OF a] ab(1) by (auto split: if_splits)
      moreover have "if b = ?i then q = pt else table st pd b = Some q"
        using tab [OF b] ab(2) by (auto split: if_splits)
      ultimately show "a = b" using a b pd_wf_inj [OF wf a b, of q] by (auto split: if_splits)
    qed
    have ent: "entry st' pd vb = entry st pd vb" if "is_user_vaddr vb" for vb
    proof -
      have u: "unat (pd_no vb) < 768" using that by (simp add: pd_no_user)
      show ?thesis
      proof (cases "unat (pd_no vb) = ?i")
        case True
        then show ?thesis
          using tab [OF u] none rd' [OF g(3) pt_no_bound] npd by (simp add: entry_def)
      next
        case False
        then show ?thesis
          using tab [OF u] pd_wf_table(1,3,4) [OF wf u] rd' [OF _ pt_no_bound] g(6)
          by (auto simp: entry_def split: option.split)
      qed
    qed
    have "lookup_page pd va True st = Some (slot pt (unat (pt_no va)), st')"
      using z pd(4) user g(1-4) e0 get rd' [OF pd(2), of ?i] i
      by (simp add: lookup_page_def pde_slot pte_slot Let_def pde_create_eq flip: e_def st'_def)
    moreover have "same_pools (ks st) (ks st')"
      using page_get_pool(1) [OF pd(1) nf(1) g(1)] by (simp add: st'_def wr_def)
    moreover have "rd st' (slot q j) = rd st (slot q j)" if "aligned q \<and> q \<noteq> pd \<and> q \<noteq> pt \<and> j < 1024" for q j
      using rd' that by simp
    moreover have "rd st' (slot pd j) = rd st (slot pd j)" if "j < 1024 \<and> j \<noteq> ?i" for j
      using rd' [OF pd(2)] that npd by simp
    moreover have "cr3 st' = cr3 st \<and> init_page_dir st' = init_page_dir st \<and> init_ram_pages st' = init_ram_pages st \<and>
        all_pages (ks st') = insert pt (all_pages (ks st))" using g(7) by (simp add: st'_def wr_def)
    ultimately show ?thesis using wf' tab i g(6) ent
      by (intro disjI1 exI [of _ pt] exI [of _ st']) simp
  qed
qed

section \<open>Mapping and unmapping\<close>

lemma indices_pg_no:
  "pg_no va = pg_no vb \<longleftrightarrow> unat (pd_no va) = unat (pd_no vb) \<and> unat (pt_no va) = unat (pt_no vb)"
proof
  assume "pg_no va = pg_no vb"
  then have e: "unat va div 4096 = unat vb div 4096" using arg_cong [of _ _ unat] by (metis unat_pg_no)
  then have "unat va div 4096 div 1024 = unat vb div 4096 div 1024" by (simp only:)
  then have "unat va div 4194304 = unat vb div 4194304" by (simp flip: div_mult2_eq)
  with e show "unat (pd_no va) = unat (pd_no vb) \<and> unat (pt_no va) = unat (pt_no vb)"
    by (simp add: unat_pd_no unat_pt_no)
next
  assume "unat (pd_no va) = unat (pd_no vb) \<and> unat (pt_no va) = unat (pt_no vb)"
  then show "pg_no va = pg_no vb" using page_indices_eq [of va vb] unat_inj by blast
qed

lemma entry_cong: "pg_no vb = pg_no va \<Longrightarrow> entry st pd vb = entry st pd va"
  by (simp add: entry_def indices_pg_no split: option.split)

lemma lookup_cases:
  assumes "pd_wf st pd" "is_user_vaddr va"
  obtains (absent) "lookup_page pd va False st = Some (0, st)" "entry st pd va = 0"
  | (found) p where "lookup_page pd va False st = Some (p, st)" "p \<noteq> 0" "rd st p = entry st pd va"
      "\<And>v. pd_wf (wr p v st) pd"
      "\<And>v vb. is_user_vaddr vb \<Longrightarrow> entry (wr p v st) pd vb = (if pg_no vb = pg_no va then v else entry st pd vb)"
proof (cases "table st pd (unat (pd_no va))")
  case None
  then show ?thesis using absent lookup_absent [OF assms] by (simp add: entry_def)
next
  case (Some pt)
  have i: "unat (pd_no va) < 768" using assms(2) by (simp add: pd_no_user)
  note pt = pd_wf_table [OF assms(1) i Some]
  note w = write_entry [OF assms(1) i Some pt_no_bound]
  show ?thesis
  proof (rule found)
    show "lookup_page pd va False st = Some (slot pt (unat (pt_no va)), st)"
      by (rule lookup_existing [OF assms Some])
    show "slot pt (unat (pt_no va)) \<noteq> 0" by (rule slot_nonzero [OF pt(1,2) pt_no_bound])
    show "rd st (slot pt (unat (pt_no va))) = entry st pd va" using Some by (simp add: entry_def)
    show "pd_wf (wr (slot pt (unat (pt_no va))) v st) pd" for v by (rule w(2))
    show "entry (wr (slot pt (unat (pt_no va))) v st) pd vb =
        (if pg_no vb = pg_no va then v else entry st pd vb)" if "is_user_vaddr vb" for v vb
      using w(3) [OF that] indices_pg_no [of vb va] by simp
  qed
qed

lemma invalidate_ok:
  assumes "cr3 st < PHYS_BASE" "PHYS_BASE \<le> pd"
  shows "\<exists>st'. invalidate_pagedir pd st = Some st' \<and> ks st' = ks st \<and>
    tlb_flushes st' = tlb_flushes st + (if cr3 st + PHYS_BASE = pd then 1 else 0)"
  using assms PHYS_BASE_nonzero [of pd]
  by (simp add: invalidate_pagedir_def active_pd_def ptov_def pagedir_activate_def vtop_def
      is_kernel_vaddr_def)

lemma same_ks:
  assumes "ks st' = ks st"
  shows "pd_wf st' pd = pd_wf st pd" "entry st' pd va = entry st pd va" "translate st' pd va = translate st pd va"
proof -
  have r: "rd st' a = rd st a" for a using assms by (simp add: rd_def)
  then have t: "table st' pd i = table st pd i" for i by (simp add: table_def)
  show "pd_wf st' pd = pd_wf st pd" using assms r t by (simp add: pd_wf_def)
  show e: "entry st' pd va = entry st pd va" by (simp add: entry_def t r split: option.split)
  show "translate st' pd va = translate st pd va" by (simp add: translate_def e)
qed

section \<open>Destruction\<close>

definition frame_of :: "kstate \<Rightarrow> u32 \<Rightarrow> nat \<Rightarrow> u32 option" where
  "frame_of k pt j =
     (let e = ram k (slot pt j) in if e AND PTE_P \<noteq> 0 then pte_get_page e else None)"

definition table_of :: "kstate \<Rightarrow> u32 \<Rightarrow> nat \<Rightarrow> u32 option" where
  "table_of k pd i =
     (let e = ram k (slot pd i) in if e AND PTE_P \<noteq> 0 then pde_get_pt e else None)"

definition frames :: "kstate \<Rightarrow> u32 \<Rightarrow> nat \<Rightarrow> nat \<Rightarrow> u32 set" where
  "frames k pt i n = {f. \<exists>j. i \<le> j \<and> j < i + n \<and> frame_of k pt j = Some f}"

definition frames_ok :: "kstate \<Rightarrow> u32 \<Rightarrow> nat \<Rightarrow> nat \<Rightarrow> bool" where
  "frames_ok k pt i n \<longleftrightarrow>
     (\<forall>j. i \<le> j \<and> j < i + n \<and> ram k (slot pt j) AND PTE_P \<noteq> 0 \<longrightarrow>
        (\<exists>f. frame_of k pt j = Some f \<and> f \<in> all_pages k \<and> f \<noteq> pt)) \<and>
     (\<forall>j j' f. i \<le> j \<and> j < i + n \<and> i \<le> j' \<and> j' < i + n \<and>
        frame_of k pt j = Some f \<and> frame_of k pt j' = Some f \<longrightarrow> j = j')"

lemma frames_okD:
  "frames_ok k pt i n \<Longrightarrow> i \<le> j \<Longrightarrow> j < i + n \<Longrightarrow> ram k (slot pt j) AND PTE_P \<noteq> 0 \<Longrightarrow>
   \<exists>f. frame_of k pt j = Some f \<and> f \<in> all_pages k \<and> f \<noteq> pt"
  by (simp add: frames_ok_def)

lemma frames_ok_inj:
  "frames_ok k pt i n \<Longrightarrow> i \<le> j \<Longrightarrow> j < i + n \<Longrightarrow> i \<le> j' \<Longrightarrow> j' < i + n \<Longrightarrow>
   frame_of k pt j = Some f \<Longrightarrow> frame_of k pt j' = Some f \<Longrightarrow> j = j'"
  unfolding frames_ok_def by blast

definition untouched :: "kstate \<Rightarrow> kstate \<Rightarrow> u32 set \<Rightarrow> bool" where
  "untouched k k' F \<longleftrightarrow> (\<forall>q j. aligned q \<and> q \<notin> F \<and> j < 1024 \<longrightarrow> ram k' (slot q j) = ram k (slot q j))"

lemma untouched_refl [simp]: "untouched k k F"
  by (simp add: untouched_def)

lemma untouched_trans: "untouched k k1 F \<Longrightarrow> untouched k1 k2 G \<Longrightarrow> untouched k k2 (F \<union> G)"
  by (simp add: untouched_def)

lemma untouched_refs:
  assumes "untouched k k' F" "aligned q" "q \<notin> F" "j < 1024"
  shows "frame_of k' q j = frame_of k q j" "table_of k' q j = table_of k q j"
    "ram k' (slot q j) = ram k (slot q j)"
  using assms by (simp_all add: untouched_def frame_of_def table_of_def)

lemma free_page_untouched:
  assumes "wf_kstate k" "p \<in> all_pages k"
  shows "\<exists>k'. palloc_free_page p k = Some k' \<and> wf_kstate k' \<and> all_pages k' = all_pages k - {p} \<and>
    untouched k k' {p}"
proof -
  obtain k' where k': "palloc_free_page p k = Some k'" "wf_kstate k'" "all_pages k' = all_pages k - {p}"
      "ram k' = memset_words (ram k) p 0xcccccccc 4096"
    using palloc_free_page_ok [OF assms] by blast
  moreover have "untouched k k' {p}"
    using memset_slot [OF all_pages_aligned(1) [OF assms]] k'(4) by (simp add: untouched_def)
  ultimately show ?thesis by blast
qed

lemma free_ptes_ok:
  "wf_kstate k \<Longrightarrow> aligned pt \<Longrightarrow> i + n \<le> 1024 \<Longrightarrow> frames_ok k pt i n \<Longrightarrow>
   \<exists>k'. free_ptes pt i n k = Some k' \<and> wf_kstate k' \<and> all_pages k' = all_pages k - frames k pt i n \<and>
     untouched k k' (frames k pt i n)"
proof (induction n arbitrary: i k)
  case 0
  then show ?case by (auto simp: frames_def)
next
  case (Suc n)
  let ?e = "ram k (slot pt i)"
  have fr: "frames k pt i (Suc n) = (case frame_of k pt i of None \<Rightarrow> {} | Some f \<Rightarrow> {f}) \<union> frames k pt (Suc i) n"
  proof -
    have h: "i \<le> j \<and> j < i + Suc n \<and> P \<longleftrightarrow> (j = i \<and> P) \<or> (Suc i \<le> j \<and> j < Suc i + n \<and> P)" for j P by auto
    show ?thesis unfolding frames_def h by (auto split: option.split)
  qed
  show ?case
  proof (cases "?e AND PTE_P = 0")
    case True
    then have "frame_of k pt i = None" by (simp add: frame_of_def)
    moreover have "frames_ok k pt (Suc i) n" using Suc.prems(4) by (auto simp: frames_ok_def)
    ultimately show ?thesis
      using Suc.IH [OF Suc.prems(1,2), of "Suc i"] Suc.prems(3) True fr by (simp add: slot_def Let_def)
  next
    case False
    obtain f where f: "frame_of k pt i = Some f" "f \<in> all_pages k" "f \<noteq> pt"
      using frames_okD [OF Suc.prems(4), of i] False by auto
    obtain k1 where k1: "palloc_free_page f k = Some k1" "wf_kstate k1" "all_pages k1 = all_pages k - {f}"
        "untouched k k1 {f}"
      using free_page_untouched [OF Suc.prems(1) f(2)] by blast
    have same: "frame_of k1 pt j = frame_of k pt j" "ram k1 (slot pt j) = ram k (slot pt j)" if "j < 1024" for j
      using untouched_refs [OF k1(4) Suc.prems(2) _ that] f(3) by auto
    have ne: "frame_of k pt j \<noteq> Some f" if "Suc i \<le> j" "j < Suc i + n" for j
      using frames_ok_inj [OF Suc.prems(4), of i j f] f(1) that by auto
    have fs: "frames k1 pt (Suc i) n = frames k pt (Suc i) n"
      using same Suc.prems(3) by (auto simp: frames_def)
    have "frames_ok k1 pt (Suc i) n"
      unfolding frames_ok_def
    proof (intro conjI allI impI)
      fix j assume j: "Suc i \<le> j \<and> j < Suc i + n \<and> ram k1 (slot pt j) AND PTE_P \<noteq> 0"
      then have lt: "j < 1024" "i \<le> j \<and> j < i + Suc n" using Suc.prems(3) by auto
      then obtain g where "frame_of k pt j = Some g" "g \<in> all_pages k" "g \<noteq> pt"
        using frames_okD [OF Suc.prems(4), of j] j same(2) [OF lt(1)] by auto
      then show "\<exists>g. frame_of k1 pt j = Some g \<and> g \<in> all_pages k1 \<and> g \<noteq> pt"
        using same [OF lt(1)] ne [of j] j k1(3) by auto
    next
      fix j j' g
      assume j: "Suc i \<le> j \<and> j < Suc i + n \<and> Suc i \<le> j' \<and> j' < Suc i + n \<and>
        frame_of k1 pt j = Some g \<and> frame_of k1 pt j' = Some g"
      then have "j < 1024" "j' < 1024" using Suc.prems(3) by auto
      then show "j = j'" using j same(1) frames_ok_inj [OF Suc.prems(4), of j j' g] by auto
    qed
    then obtain k' where k': "free_ptes pt (Suc i) n k1 = Some k'" "wf_kstate k'"
        "all_pages k' = all_pages k1 - frames k pt (Suc i) n" "untouched k1 k' (frames k pt (Suc i) n)"
      using Suc.IH [OF k1(2) Suc.prems(2), of "Suc i"] Suc.prems(3) fs by auto
    have "pte_get_page ?e = Some f" using f(1) False by (simp add: frame_of_def)
    then have "free_ptes pt i (Suc n) k = Some k'"
      using False k1(1) k'(1) by (simp add: slot_def Let_def)
    then show ?thesis
      using k' k1(3) fr f(1) untouched_trans [OF k1(4) k'(4)] by auto
  qed
qed

definition owned :: "kstate \<Rightarrow> u32 \<Rightarrow> nat \<Rightarrow> u32 set" where
  "owned k pd i = (case table_of k pd i of None \<Rightarrow> {} | Some pt \<Rightarrow> insert pt (frames k pt 0 1024))"

definition pdes_ok :: "kstate \<Rightarrow> u32 \<Rightarrow> nat \<Rightarrow> nat \<Rightarrow> bool" where
  "pdes_ok k pd i n \<longleftrightarrow>
     (\<forall>a. i \<le> a \<and> a < i + n \<and> ram k (slot pd a) AND PTE_P \<noteq> 0 \<longrightarrow>
        (\<exists>pt. table_of k pd a = Some pt \<and> pt \<in> all_pages k \<and> frames_ok k pt 0 1024)) \<and>
     (\<forall>a. i \<le> a \<and> a < i + n \<longrightarrow> pd \<notin> owned k pd a) \<and>
     (\<forall>a b. i \<le> a \<and> a < b \<and> b < i + n \<longrightarrow> owned k pd a \<inter> owned k pd b = {})"

lemma pdes_okD:
  "pdes_ok k pd i n \<Longrightarrow> i \<le> a \<Longrightarrow> a < i + n \<Longrightarrow> ram k (slot pd a) AND PTE_P \<noteq> 0 \<Longrightarrow>
   \<exists>pt. table_of k pd a = Some pt \<and> pt \<in> all_pages k \<and> frames_ok k pt 0 1024"
  by (simp add: pdes_ok_def)

lemma frames_ok_pages: "frames_ok k pt i n \<Longrightarrow> frames k pt i n \<subseteq> all_pages k"
  by (auto simp: frames_ok_def frames_def frame_of_def Let_def split: if_splits)

lemma frames_ok_not_self: "frames_ok k pt i n \<Longrightarrow> pt \<notin> frames k pt i n"
  by (auto simp: frames_ok_def frames_def frame_of_def Let_def split: if_splits)

lemma frames_ok_transfer:
  assumes "frames_ok k pt 0 1024" "untouched k k' F" "aligned pt" "pt \<notin> F"
    "all_pages k' = all_pages k - F" "frames k pt 0 1024 \<inter> F = {}"
  shows "frames_ok k' pt 0 1024" "frames k' pt 0 1024 = frames k pt 0 1024"
proof -
  have same: "frame_of k' pt j = frame_of k pt j" "ram k' (slot pt j) = ram k (slot pt j)" if "j < 1024" for j
    using untouched_refs [OF assms(2-4) that] by auto
  show fs: "frames k' pt 0 1024 = frames k pt 0 1024" using same by (auto simp: frames_def)
  show "frames_ok k' pt 0 1024"
    unfolding frames_ok_def
  proof (intro conjI allI impI)
    fix j assume j: "0 \<le> j \<and> j < 0 + 1024 \<and> ram k' (slot pt j) AND PTE_P \<noteq> 0"
    then obtain g where g: "frame_of k pt j = Some g" "g \<in> all_pages k" "g \<noteq> pt"
      using assms(1) same(2) [of j] unfolding frames_ok_def by auto
    then have "g \<in> frames k pt 0 1024" using j by (auto simp: frames_def)
    then show "\<exists>f. frame_of k' pt j = Some f \<and> f \<in> all_pages k' \<and> f \<noteq> pt"
      using g same(1) [of j] j assms(5,6) by auto
  next
    fix j j' f
    assume "0 \<le> j \<and> j < 0 + 1024 \<and> 0 \<le> j' \<and> j' < 0 + 1024 \<and>
        frame_of k' pt j = Some f \<and> frame_of k' pt j' = Some f"
    then show "j = j'" using assms(1) same(1) unfolding frames_ok_def by auto
  qed
qed

lemma owned_range_split:
  "(\<Union>a\<in>{i..<i + Suc n}. owned k pd a) = owned k pd i \<union> (\<Union>a\<in>{Suc i..<Suc i + n}. owned k pd a)"
proof -
  have "{i..<i + Suc n} = insert i {Suc i..<Suc i + n}" by auto
  then show ?thesis by simp
qed

lemma pdes_ok_step:
  assumes ok: "pdes_ok k pd i (Suc n)" and pd: "aligned pd" and i: "i + Suc n \<le> 1024"
    and k2: "wf_kstate k" "untouched k k2 (owned k pd i)" "all_pages k2 = all_pages k - owned k pd i"
  shows "pdes_ok k2 pd (Suc i) n" "\<And>a. i < a \<Longrightarrow> a < i + Suc n \<Longrightarrow> owned k2 pd a = owned k pd a"
proof -
  have npd: "pd \<notin> owned k pd i" using ok by (auto simp: pdes_ok_def)
  have refs: "table_of k2 pd a = table_of k pd a" "ram k2 (slot pd a) = ram k (slot pd a)"
    if "a < 1024" for a using untouched_refs [OF k2(2) pd npd that] by auto
  have tabs: "frames_ok k2 pt 0 1024 \<and> frames k2 pt 0 1024 = frames k pt 0 1024 \<and> pt \<in> all_pages k2"
    if a: "i < a" "a < i + Suc n" and pt: "table_of k pd a = Some pt" for a pt
  proof -
    have p: "ram k (slot pd a) AND PTE_P \<noteq> 0" using pt by (auto simp: table_of_def Let_def split: if_splits)
    then have f: "pt \<in> all_pages k" "frames_ok k pt 0 1024"
      using ok [unfolded pdes_ok_def, THEN conjunct1, rule_format, of a] a pt by simp_all
    have dis: "owned k pd i \<inter> owned k pd a = {}" using ok a unfolding pdes_ok_def by auto
    have "owned k pd a = insert pt (frames k pt 0 1024)" using pt by (simp add: owned_def)
    then have d: "pt \<notin> owned k pd i" "frames k pt 0 1024 \<inter> owned k pd i = {}" using dis by auto
    show ?thesis
      using frames_ok_transfer [OF f(2) k2(2) all_pages_aligned(1) [OF k2(1) f(1)] d(1) k2(3) d(2)]
        f(1) d(1) k2(3) by simp
  qed
  show own: "owned k2 pd a = owned k pd a" if "i < a" "a < i + Suc n" for a
    using refs(1) [of a] tabs [OF that] that i by (auto simp: owned_def split: option.split)
  show "pdes_ok k2 pd (Suc i) n"
    unfolding pdes_ok_def
  proof (intro conjI allI impI)
    fix a assume a: "Suc i \<le> a \<and> a < Suc i + n \<and> ram k2 (slot pd a) AND PTE_P \<noteq> 0"
    then have "ram k (slot pd a) AND PTE_P \<noteq> 0" using refs(2) [of a] i by simp
    then obtain pt where "table_of k pd a = Some pt" using pdes_okD [OF ok, of a] a by auto
    then show "\<exists>pt. table_of k2 pd a = Some pt \<and> pt \<in> all_pages k2 \<and> frames_ok k2 pt 0 1024"
      using tabs [of a pt] refs(1) [of a] a i by auto
  next
    fix a assume "Suc i \<le> a \<and> a < Suc i + n"
    then show "pd \<notin> owned k2 pd a" using own [of a] ok unfolding pdes_ok_def by auto
  next
    fix a b assume "Suc i \<le> a \<and> a < b \<and> b < Suc i + n"
    then show "owned k2 pd a \<inter> owned k2 pd b = {}" using own [of a] own [of b] ok unfolding pdes_ok_def by auto
  qed
qed

lemma free_pdes_ok:
  "wf_kstate k \<Longrightarrow> aligned pd \<Longrightarrow> i + n \<le> 1024 \<Longrightarrow> pdes_ok k pd i n \<Longrightarrow>
   \<exists>k'. free_pdes pd i n k = Some k' \<and> wf_kstate k' \<and>
     all_pages k' = all_pages k - (\<Union>a\<in>{i..<i + n}. owned k pd a)"
proof (induction n arbitrary: i k)
  case 0
  then show ?case by auto
next
  case (Suc n)
  note step = pdes_ok_step [OF Suc.prems(4,2,3,1)]
  have rest: "\<exists>k'. free_pdes pd (Suc i) n k2 = Some k' \<and> wf_kstate k' \<and>
      all_pages k' = all_pages k - (\<Union>a\<in>{i..<i + Suc n}. owned k pd a)"
    if k2: "wf_kstate k2" "untouched k k2 (owned k pd i)" "all_pages k2 = all_pages k - owned k pd i" for k2
  proof -
    obtain k' where k': "free_pdes pd (Suc i) n k2 = Some k'" "wf_kstate k'"
        "all_pages k' = all_pages k2 - (\<Union>a\<in>{Suc i..<Suc i + n}. owned k2 pd a)"
      using Suc.IH [OF k2(1) Suc.prems(2) _ step(1) [OF k2(2,3)]] Suc.prems(3) by auto
    have "(\<Union>a\<in>{Suc i..<Suc i + n}. owned k2 pd a) = (\<Union>a\<in>{Suc i..<Suc i + n}. owned k pd a)"
      using step(2) [OF k2(2,3)] by auto
    with k' k2(3) show ?thesis unfolding owned_range_split by auto
  qed
  show ?case
  proof (cases "ram k (slot pd i) AND PTE_P = 0")
    case True
    then have "owned k pd i = {}" by (simp add: owned_def table_of_def)
    then show ?thesis using rest [of k] Suc.prems(1) True by (simp add: slot_def Let_def)
  next
    case False
    then obtain pt where pt: "table_of k pd i = Some pt" "pt \<in> all_pages k" "frames_ok k pt 0 1024"
      using Suc.prems(4) unfolding pdes_ok_def by auto
    have own: "owned k pd i = insert pt (frames k pt 0 1024)" using pt(1) by (simp add: owned_def)
    obtain k1 where k1: "free_ptes pt 0 1024 k = Some k1" "wf_kstate k1"
        "all_pages k1 = all_pages k - frames k pt 0 1024" "untouched k k1 (frames k pt 0 1024)"
      using free_ptes_ok [OF Suc.prems(1) all_pages_aligned(1) [OF Suc.prems(1) pt(2)] _ pt(3)] by auto
    have "pt \<in> all_pages k1" using k1(3) pt(2) frames_ok_not_self [OF pt(3)] by simp
    then obtain k2 where k2: "palloc_free_page pt k1 = Some k2" "wf_kstate k2"
        "all_pages k2 = all_pages k1 - {pt}" "untouched k1 k2 {pt}"
      using free_page_untouched [OF k1(2)] by blast
    have "untouched k k2 (owned k pd i)"
      using untouched_trans [OF k1(4) k2(4)] own by simp
    moreover have "all_pages k2 = all_pages k - owned k pd i" using k1(3) k2(3) own by auto
    ultimately obtain k' where "free_pdes pd (Suc i) n k2 = Some k'" "wf_kstate k'"
        "all_pages k' = all_pages k - (\<Union>a\<in>{i..<i + Suc n}. owned k pd a)"
      using rest [OF k2(2)] by blast
    moreover have "pde_get_pt (ram k (slot pd i)) = Some pt"
      using pt(1) False by (simp add: table_of_def)
    ultimately show ?thesis using False k1(1) k2(1) by (simp add: slot_def Let_def)
  qed
qed

section \<open>The dirty and accessed bits\<close>

lemma flag_or: "f AND g = 0 \<Longrightarrow> (e OR f) AND g = e AND (g :: u32)"
  by (simp add: bit.conj_disj_distrib2)

lemma flag_andnot:
  assumes "f AND g = 0"
  shows "(e AND NOT f) AND g = e AND (g :: u32)"
proof (rule bit_word_eqI)
  fix n assume "n < LENGTH(32)"
  moreover have "bit (f AND g) n = False" using assms by simp
  ultimately show "bit ((e AND NOT f) AND g) n = bit (e AND g) n" by (auto simp: bit_simps)
qed

lemma flag_or_self: "(e OR f) AND f = (f :: u32)"
  by (rule bit_word_eqI) (auto simp: bit_simps)

lemma flag_andnot_self: "(e AND NOT f) AND f = (0 :: u32)"
  by (rule bit_word_eqI) (auto simp: bit_simps)

definition has_pte :: "pstate \<Rightarrow> u32 \<Rightarrow> u32 \<Rightarrow> bool" where
  "has_pte st pd va \<longleftrightarrow> table st pd (unat (pd_no va)) \<noteq> None"

definition flushed :: "pstate \<Rightarrow> u32 \<Rightarrow> nat" where
  "flushed st pd = tlb_flushes st + (if cr3 st + PHYS_BASE = pd then 1 else 0)"

lemma lookup_has:
  assumes "pd_wf st pd" "is_user_vaddr va"
  obtains (absent) "\<not> has_pte st pd va" "lookup_page pd va False st = Some (0, st)" "entry st pd va = 0"
  | (found) p where "has_pte st pd va" "lookup_page pd va False st = Some (p, st)" "p \<noteq> 0"
      "rd st p = entry st pd va" "\<And>v. pd_wf (wr p v st) pd"
      "\<And>v vb. is_user_vaddr vb \<Longrightarrow> entry (wr p v st) pd vb = (if pg_no vb = pg_no va then v else entry st pd vb)"
proof -
  have a: "lookup_page pd va False st = Some (0, st) \<longleftrightarrow> \<not> has_pte st pd va"
  proof (cases "table st pd (unat (pd_no va))")
    case None
    then show ?thesis using lookup_absent [OF assms] by (simp add: has_pte_def)
  next
    case (Some pt)
    have i: "unat (pd_no va) < 768" using assms(2) by (simp add: pd_no_user)
    show ?thesis
      using lookup_existing [OF assms Some] Some slot_nonzero [OF pd_wf_table(1,2) [OF assms(1) i Some] pt_no_bound]
      by (simp add: has_pte_def)
  qed
  show ?thesis
  proof (rule lookup_cases [OF assms], goal_cases)
    case 1
    then show ?case using a absent by simp
  next
    case (2 p)
    then have "has_pte st pd va" using a by simp
    with 2 found show ?case by blast
  qed
qed

lemma flag_test:
  assumes "pd_wf st pd" "is_user_vaddr va"
  shows "pagedir_is_dirty pd va st = Some (entry st pd va AND PTE_D \<noteq> 0)"
    and "pagedir_is_accessed pd va st = Some (entry st pd va AND PTE_A \<noteq> 0)"
  by (rule lookup_has [OF assms]; simp add: pagedir_is_dirty_def pagedir_is_accessed_def)+

definition flag_set_spec :: "u32 \<Rightarrow> u32 \<Rightarrow> u32 \<Rightarrow> bool \<Rightarrow> pstate \<Rightarrow> pstate option \<Rightarrow> bool" where
  "flag_set_spec f pd va b st r \<longleftrightarrow>
     (\<exists>st'. r = Some st' \<and> pd_wf st' pd \<and>
       (\<forall>vb. is_user_vaddr vb \<longrightarrow> entry st' pd vb =
          (if pg_no vb = pg_no va \<and> has_pte st pd va
           then (if b then entry st pd va OR f else entry st pd va AND NOT f) else entry st pd vb)) \<and>
       (has_pte st pd va \<and> \<not> b \<longrightarrow> tlb_flushes st' = flushed st pd))"

lemma wr_tlb [simp]: "tlb_flushes (wr a v st) = tlb_flushes st"
  by (simp add: wr_def)

lemma flag_set:
  assumes "pd_wf st pd" "is_user_vaddr va" "cr3 st < PHYS_BASE"
  shows "flag_set_spec PTE_D pd va b st (pagedir_set_dirty pd va b st)"
    and "flag_set_spec PTE_A pd va b st (pagedir_set_accessed pd va b st)"
proof -
  have inv: "\<exists>st'. invalidate_pagedir pd (wr p v st) = Some st' \<and> ks st' = ks (wr p v st) \<and>
      tlb_flushes st' = flushed st pd" for p v
    using invalidate_ok [of "wr p v st" pd] assms(3) pd_wf_page(3) [OF assms(1)] by (simp add: flushed_def)
  show "flag_set_spec PTE_D pd va b st (pagedir_set_dirty pd va b st)"
  proof (rule lookup_has [OF assms(1,2)], goal_cases)
    case 1
    then show ?case using assms by (simp add: flag_set_spec_def pagedir_set_dirty_def)
  next
    case (2 p)
    obtain st' where st': "invalidate_pagedir pd (wr p (entry st pd va AND NOT PTE_D) st) = Some st'"
        "ks st' = ks (wr p (entry st pd va AND NOT PTE_D) st)" "tlb_flushes st' = flushed st pd"
      using inv by blast
    show ?case
      using 2 st' same_ks [OF st'(2)] by (cases b) (simp_all add: flag_set_spec_def pagedir_set_dirty_def)
  qed
  show "flag_set_spec PTE_A pd va b st (pagedir_set_accessed pd va b st)"
  proof (rule lookup_has [OF assms(1,2)], goal_cases)
    case 1
    then show ?case using assms by (simp add: flag_set_spec_def pagedir_set_accessed_def)
  next
    case (2 p)
    obtain st' where st': "invalidate_pagedir pd (wr p (entry st pd va AND NOT PTE_A) st) = Some st'"
        "ks st' = ks (wr p (entry st pd va AND NOT PTE_A) st)" "tlb_flushes st' = flushed st pd"
      using inv by blast
    show ?case
      using 2 st' same_ks [OF st'(2)] by (cases b) (simp_all add: flag_set_spec_def pagedir_set_accessed_def)
  qed
qed

lemma flag_spec_entry:
  assumes "flag_set_spec f pd va b st (Some st')" "is_user_vaddr vb"
  shows "entry st' pd vb = (if pg_no vb = pg_no va \<and> has_pte st pd va
      then (if b then entry st pd vb OR f else entry st pd vb AND NOT f) else entry st pd vb)"
proof (cases "pg_no vb = pg_no va")
  case True
  have "entry st pd vb = entry st pd va" by (rule entry_cong [OF True])
  with True assms show ?thesis by (auto simp: flag_set_spec_def)
qed (use assms in \<open>auto simp: flag_set_spec_def\<close>)

lemma flag_spec_translate:
  assumes "flag_set_spec f pd va b st (Some st')" "is_user_vaddr vb"
    "f AND PTE_P = 0" "f AND PTE_W = 0" "f AND PTE_ADDR = 0"
  shows "translate st' pd vb = translate st pd vb"
  unfolding translate_def flag_spec_entry [OF assms(1,2)]
  by (simp add: Let_def flag_or flag_andnot assms(3-5))

lemma flag_spec_tests:
  assumes "flag_set_spec f pd va b st (Some st')" "is_user_vaddr vb"
  shows "f \<noteq> 0 \<Longrightarrow> entry st' pd vb AND f \<noteq> 0 \<longleftrightarrow>
      (if pg_no vb = pg_no va \<and> has_pte st pd va then b else entry st pd vb AND f \<noteq> 0)"
    and "f AND g = 0 \<Longrightarrow> entry st' pd vb AND g = entry st pd vb AND g"
  unfolding flag_spec_entry [OF assms]
  by (simp_all add: flag_or_self flag_andnot_self flag_or flag_andnot)

lemma pagedir_clear_ok:
  assumes "pd_wf st pd" "is_user_vaddr va" "cr3 st < PHYS_BASE" "aligned va"
  shows "\<exists>st'. pagedir_clear_page pd va st = Some st' \<and> pd_wf st' pd \<and>
      (\<forall>vb. is_user_vaddr vb \<longrightarrow> translate st' pd vb =
         (if pg_no vb = pg_no va then None else translate st pd vb)) \<and>
      (translate st pd va \<noteq> None \<longrightarrow> tlb_flushes st' = flushed st pd)"
proof -
  have same: "translate st pd vb = translate st pd va" if "pg_no vb = pg_no va" for vb
    using entry_cong [OF that] by (simp add: translate_def)
  have guard: "pg_ofs va = 0" using assms(4) by (simp add: aligned_iff)
  have skip: ?thesis if "pagedir_clear_page pd va st = Some st" "entry st pd va AND PTE_P = 0"
  proof -
    have "translate st pd va = None" using that(2) by (simp add: translate_def)
    then have "translate st pd vb = None" if "pg_no vb = pg_no va" for vb using same [OF that] by simp
    with that(1) assms(1) \<open>translate st pd va = None\<close> show ?thesis by (intro exI [of _ st]) auto
  qed
  show ?thesis
  proof (rule lookup_has [OF assms(1,2)], goal_cases)
    case 1
    then show ?case using skip guard assms(2) by (simp add: pagedir_clear_page_def)
  next
    case (2 p)
    show ?case
    proof (cases "entry st pd va AND PTE_P = 0")
      case True
      then show ?thesis using skip guard assms(2) 2 by (simp add: pagedir_clear_page_def)
    next
      case False
      let ?s = "wr p (entry st pd va AND NOT PTE_P) st"
      obtain st' where st': "invalidate_pagedir pd ?s = Some st'" "ks st' = ks ?s"
          "tlb_flushes st' = flushed st pd"
        using invalidate_ok [of ?s pd] assms(3) pd_wf_page(3) [OF assms(1)] by (auto simp: flushed_def)
      have "pagedir_clear_page pd va st = Some st'"
        using guard assms(2) 2 False st'(1) by (simp add: pagedir_clear_page_def)
      moreover have "translate st' pd vb = (if pg_no vb = pg_no va then None else translate st pd vb)"
        if "is_user_vaddr vb" for vb
        using same_ks(3) [OF st'(2), of pd vb] 2(6) [OF that] flag_andnot_self [of _ PTE_P]
        by (simp add: translate_def Let_def)
      ultimately show ?thesis using same_ks(1) [OF st'(2), of pd] 2(5) st'(3) by blast
    qed
  qed
qed

lemma pagedir_destroy_ok:
  assumes "wf_kstate (ks st)" "pd \<in> all_pages (ks st)" "pd \<noteq> init_page_dir st" "pdes_ok (ks st) pd 0 768"
  shows "\<exists>st'. pagedir_destroy pd st = Some st' \<and> wf_kstate (ks st') \<and>
    all_pages (ks st') = all_pages (ks st) - insert pd (\<Union>a\<in>{..<768}. owned (ks st) pd a)"
proof -
  have n: "unat (pd_no PHYS_BASE) = 768" by (simp add: unat_pd_no PHYS_BASE_def)
  note pd = all_pages_aligned [OF assms(1,2)]
  obtain k where k: "free_pdes pd 0 768 (ks st) = Some k" "wf_kstate k"
      "all_pages k = all_pages (ks st) - (\<Union>a\<in>{0..<0 + 768}. owned (ks st) pd a)"
    using free_pdes_ok [OF assms(1) pd(1) _ assms(4)] by auto
  have "pd \<notin> owned (ks st) pd a" if "a < 768" for a using assms(4) that by (auto simp: pdes_ok_def)
  then have "pd \<in> all_pages k" using k(3) assms(2) by auto
  then obtain k' where "palloc_free_page pd k = Some k'" "wf_kstate k'" "all_pages k' = all_pages k - {pd}"
    using free_page_untouched [OF k(2)] by blast
  then show ?thesis
    using k assms(3) n PHYS_BASE_nonzero [OF pd(2)]
    by (auto simp: pagedir_destroy_def lessThan_atLeast0)
qed

section \<open>Properties\<close>

definition small_pd :: pstate where
  "small_pd = \<lparr>ks = small_pools, cr3 = 0x101000, tlb_flushes = 0, init_page_dir = 0xc0100000,
     init_ram_pages = 1024\<rparr>"

lemma small_pd_page: "0xc0101000 \<in> all_pages (ks small_pd)"
proof -
  have "(0::nat) \<in> bm_used \<lparr>bit_cnt = 4, bits = [1]\<rparr>" by (simp add: bm_used_def nth_bm_abs)
  then show ?thesis
    by (auto simp: small_pd_def small_pools_def all_pages_def pool_pages_def page_at_def
        intro!: image_eqI [where x = 0])
qed

lemma small_pd_wf: "pd_wf small_pd 0xc0101000"
  using small_pd_page wf_small_pools
  by (simp add: pd_wf_def table_def rd_def) (simp add: small_pd_def small_pools_def)

lemma small_pd_room: "\<not> pool_full False (ks small_pd)"
proof -
  have used: "bm_used \<lparr>bit_cnt = 4, bits = [0]\<rparr> = {}" "bm_used \<lparr>bit_cnt = 4, bits = [1]\<rparr> = {0}"
    by (auto simp: bm_used_def nth_bm_abs bit_1_iff)
  have "in_pool False small_pools 0xc0102000"
    unfolding in_pool_def by (rule exI [of _ 1]) (simp add: small_pools_def get_pool_def page_at_def PGSIZE_def PGBITS_def)
  moreover have "0xc0102000 \<notin> all_pages small_pools"
    using used by (simp add: small_pools_def all_pages_def pool_pages_def page_at_def)
  ultimately show ?thesis by (auto simp: pool_full_def small_pd_def)
qed

lemma small_pd_translate: "translate small_pd 0xc0101000 va = None"
  by (simp add: translate_def entry_def table_def rd_def small_pd_def small_pools_def)

text \<open>\<open>pagedir_set_page\<close> once its assertions hold, and what it does with a page table at hand.\<close>

lemma set_page_unfold:
  assumes "is_user_vaddr upage" "aligned upage" "aligned kpage" "PHYS_BASE \<le> kpage"
    "drop_bit PTSHIFT (kpage - PHYS_BASE) < init_ram_pages st" "pd \<noteq> init_page_dir st"
  shows "pagedir_set_page pd upage kpage w st = do {
     (pte, st') \<leftarrow> lookup_page pd upage True st;
     (if pte \<noteq> 0 then do { kassert (rd st' pte AND PTE_P = 0);
        Some (True, wr pte ((kpage - PHYS_BASE) OR pte_bits w) st') } else Some (False, st')) }"
  using assms
  by (cases "lookup_page pd upage True st")
    (simp_all add: pagedir_set_page_def pte_create_user_eq aligned_iff vtop_def is_kernel_vaddr_def split: prod.split)

lemma set_page_in_table:
  fixes kpage upage :: u32
  defines "e w \<equiv> (kpage - PHYS_BASE) OR pte_bits w"
  assumes u: "is_user_vaddr upage" and k: "aligned kpage" "PHYS_BASE \<le> kpage"
    and s1: "pd_wf s1 pd" and t: "table s1 pd (unat (pd_no upage)) = Some pt"
    and ent: "\<And>vb. is_user_vaddr vb \<Longrightarrow> entry s1 pd vb = entry st pd vb"
  shows "slot pt (unat (pt_no upage)) \<noteq> 0" "rd s1 (slot pt (unat (pt_no upage))) = entry st pd upage"
    and "pd_wf (wr (slot pt (unat (pt_no upage))) (e w) s1) pd"
    and "is_user_vaddr va \<Longrightarrow> translate (wr (slot pt (unat (pt_no upage))) (e w) s1) pd va =
      (if pg_no va = pg_no upage then Some (kpage - PHYS_BASE, w) else translate st pd va)"
    and "pg_no va = pg_no upage \<Longrightarrow> is_user_vaddr va \<Longrightarrow>
      pagedir_get_page pd va (wr (slot pt (unat (pt_no upage))) (e w) s1) = Some (kpage + pg_ofs va)"
proof -
  let ?p = "slot pt (unat (pt_no upage))"
  have i: "unat (pd_no upage) < 768" using u by (simp add: pd_no_user)
  have ev: "e w AND PTE_P \<noteq> 0" "e w AND PTE_W \<noteq> 0 \<longleftrightarrow> w" "e w AND PTE_ADDR = kpage - PHYS_BASE"
      "pte_get_page (e w) = Some kpage"
    using pte_create_flags [OF k, of w] pte_get_page_create [OF k, of w]
      PTE_ADDR_aligned [OF aligned_vtop [OF k] pte_bits_addr, of w] by (simp_all add: e_def)
  note pt = pd_wf_table [OF s1 i t] and wre = write_entry [OF s1 i t pt_no_bound [of upage]]
  show "?p \<noteq> 0" by (rule slot_nonzero [OF pt(1,2) pt_no_bound])
  show "rd s1 ?p = entry st pd upage" using t ent [OF u] by (simp add: entry_def)
  show wf: "pd_wf (wr ?p (e w) s1) pd" by (rule wre(2))
  have new: "entry (wr ?p (e w) s1) pd va = (if pg_no va = pg_no upage then e w else entry st pd va)"
    if "is_user_vaddr va" for va
    using wre(3) [OF that, where v = "e w"] ent [OF that] indices_pg_no [of va upage] by simp
  show "translate (wr ?p (e w) s1) pd va =
      (if pg_no va = pg_no upage then Some (kpage - PHYS_BASE, w) else translate st pd va)" if "is_user_vaddr va"
    using new [OF that] ev by (simp add: translate_def Let_def)
  show "pagedir_get_page pd va (wr ?p (e w) s1) = Some (kpage + pg_ofs va)"
    if "pg_no va = pg_no upage" "is_user_vaddr va"
  proof (rule lookup_cases [OF wf that(2)], goal_cases)
    case 1
    then show ?thesis using new [OF that(2)] that(1) ev(1) by simp
  next
    case (2 p)
    then show ?thesis using new [OF that(2)] that ev(1,4) by (simp add: pagedir_get_page_def)
  qed
qed

text \<open>
  C14. Mapping: \<open>pagedir_set_page\<close> on a well-formed directory never hits undefined
  behaviour; for a page that is not mapped it either maps exactly this page to the frame with
  the permission asked for, every other user page keeping its translation, or changes nothing and
  fails, which happens only when the directory has no page table for the page and the kernel pool has
  no free page for one; for a page that is mapped it panics. \<open>pagedir_get_page\<close> then returns
  the address within the frame.
\<close>

theorem pagedir_set_page_maps:
  assumes "pd_wf st pd" "is_user_vaddr upage" "aligned upage" "aligned kpage" "PHYS_BASE \<le> kpage"
    "drop_bit PTSHIFT (kpage - PHYS_BASE) < init_ram_pages st" "pd \<noteq> init_page_dir st"
  shows "if translate st pd upage \<noteq> None then pagedir_set_page pd upage kpage w st = None
    else (pagedir_set_page pd upage kpage w st = Some (False, st) \<and>
        table st pd (unat (pd_no upage)) = None \<and> pool_full False (ks st)) \<or>
      (\<exists>st'. pagedir_set_page pd upage kpage w st = Some (True, st') \<and> pd_wf st' pd \<and>
        (\<forall>va. is_user_vaddr va \<longrightarrow> translate st' pd va =
           (if pg_no va = pg_no upage then Some (kpage - PHYS_BASE, w) else translate st pd va)) \<and>
        (\<forall>va. pg_no va = pg_no upage \<longrightarrow> is_user_vaddr va \<longrightarrow>
           pagedir_get_page pd va st' = Some (kpage + pg_ofs va)))"
proof -
  note unf = set_page_unfold [OF assms(2-7), where w = w]
  have mapped: "?thesis"
    if l: "lookup_page pd upage True st = Some (slot pt (unat (pt_no upage)), s1)"
      and m: "pd_wf s1 pd" "table s1 pd (unat (pd_no upage)) = Some pt"
        "\<And>vb. is_user_vaddr vb \<Longrightarrow> entry s1 pd vb = entry st pd vb" for pt s1
    using l set_page_in_table(1,2) [OF assms(2,4,5) m] set_page_in_table(3-5) [OF assms(2,4,5) m, where w = w]
    unfolding unf by (auto simp: translate_def Let_def)
  show ?thesis
  proof (cases "table st pd (unat (pd_no upage))")
    case (Some pt)
    then show ?thesis using mapped [OF lookup_existing [OF assms(1,2)] assms(1)] by simp
  next
    case None
    then have "translate st pd upage = None" by (simp add: translate_def entry_def)
    moreover from lookup_create [OF assms(1,2) None] have
      "(\<exists>pt st'. lookup_page pd upage True st = Some (slot pt (unat (pt_no upage)), st') \<and> pd_wf st' pd \<and>
         table st' pd (unat (pd_no upage)) = Some pt \<and>
         (\<forall>vb. is_user_vaddr vb \<longrightarrow> entry st' pd vb = entry st pd vb)) \<or>
       lookup_page pd upage True st = Some (0, st) \<and> pool_full False (ks st)" by blast
    ultimately show ?thesis
    proof (elim disjE exE conjE, goal_cases)
      case (1 pt st')
      show ?case by (rule mapped [OF 1(2-4)]) (use 1(5) in blast)
    next
      case 2
      then show ?case using None unfolding unf by simp
    qed
  qed
qed

theorem pagedir_set_page_maps_witness:
  "\<exists>st'. pagedir_set_page 0xc0101000 0x8048000 0xc0106000 True small_pd = Some (True, st') \<and>
     translate st' 0xc0101000 0x8048000 = Some (0x106000, True)"
  using pagedir_set_page_maps [OF small_pd_wf, of "0x8048000" "0xc0106000" True] small_pd_translate small_pd_room
  by (auto simp: is_user_vaddr_def PHYS_BASE_def aligned_def small_pd_def PTSHIFT_def PGBITS_def)

text \<open>
  Unmapping and the access bits: \<open>pagedir_clear_page\<close> makes exactly the page
  unmapped; setting or clearing the dirty or accessed bit of a page changes no translation, is
  what \<open>pagedir_is_dirty\<close> and \<open>pagedir_is_accessed\<close> then report whenever the page has a
  page table, and leaves the bits of every other page alone. When a bit is taken away in the
  active page directory the TLB is flushed.
\<close>

lemma pagedir_bits:
  assumes "pd_wf st pd" "is_user_vaddr va" "cr3 st < PHYS_BASE"
  shows "(aligned va \<longrightarrow> (\<exists>st'. pagedir_clear_page pd va st = Some st' \<and> pd_wf st' pd \<and>
      (\<forall>vb. is_user_vaddr vb \<longrightarrow> translate st' pd vb =
         (if pg_no vb = pg_no va then None else translate st pd vb)) \<and>
      (translate st pd va \<noteq> None \<longrightarrow> tlb_flushes st' = flushed st pd))) \<and>
    (\<exists>st'. pagedir_set_dirty pd va b st = Some st' \<and> pd_wf st' pd \<and>
      (\<forall>vb. is_user_vaddr vb \<longrightarrow> translate st' pd vb = translate st pd vb \<and>
         pagedir_is_dirty pd vb st' =
           (if pg_no vb = pg_no va \<and> has_pte st pd va then Some b else pagedir_is_dirty pd vb st) \<and>
         pagedir_is_accessed pd vb st' = pagedir_is_accessed pd vb st)) \<and>
    (\<exists>st'. pagedir_set_accessed pd va b st = Some st' \<and> pd_wf st' pd \<and>
      (\<forall>vb. is_user_vaddr vb \<longrightarrow> translate st' pd vb = translate st pd vb \<and>
         pagedir_is_accessed pd vb st' =
           (if pg_no vb = pg_no va \<and> has_pte st pd va then Some b else pagedir_is_accessed pd vb st) \<and>
         pagedir_is_dirty pd vb st' = pagedir_is_dirty pd vb st))"
proof (intro conjI impI)
  assume al: "aligned va"
  show "\<exists>st'. pagedir_clear_page pd va st = Some st' \<and> pd_wf st' pd \<and>
      (\<forall>vb. is_user_vaddr vb \<longrightarrow> translate st' pd vb =
         (if pg_no vb = pg_no va then None else translate st pd vb)) \<and>
      (translate st pd va \<noteq> None \<longrightarrow> tlb_flushes st' = flushed st pd)"
    by (rule pagedir_clear_ok [OF assms al])
next
  obtain st' where st': "pagedir_set_dirty pd va b st = Some st'" "flag_set_spec PTE_D pd va b st (Some st')"
    using flag_set(1) [OF assms, of b] by (auto simp: flag_set_spec_def)
  then have wf: "pd_wf st' pd" by (simp add: flag_set_spec_def)
  have nz: "PTE_D \<noteq> 0" by (simp add: PTE_D_def)
  have "PTE_D AND PTE_P = 0" "PTE_D AND PTE_W = 0" "PTE_D AND PTE_ADDR = 0" "PTE_D AND PTE_A = 0"
    by (simp_all add: PTE_D_def PTE_P_def PTE_W_def PTE_ADDR_def PTE_A_def)
  note zero = this
  have "translate st' pd vb = translate st pd vb \<and>
      pagedir_is_dirty pd vb st' =
        (if pg_no vb = pg_no va \<and> has_pte st pd va then Some b else pagedir_is_dirty pd vb st) \<and>
      pagedir_is_accessed pd vb st' = pagedir_is_accessed pd vb st" if u: "is_user_vaddr vb" for vb
    using flag_spec_translate [OF st'(2) u zero(1-3)] flag_spec_tests(1) [OF st'(2) u nz]
      flag_spec_tests(2) [OF st'(2) u zero(4)]
    by (simp add: flag_test [OF wf u] flag_test [OF assms(1) u])
  with st'(1) wf show "\<exists>st'. pagedir_set_dirty pd va b st = Some st' \<and> pd_wf st' pd \<and>
      (\<forall>vb. is_user_vaddr vb \<longrightarrow> translate st' pd vb = translate st pd vb \<and>
         pagedir_is_dirty pd vb st' =
           (if pg_no vb = pg_no va \<and> has_pte st pd va then Some b else pagedir_is_dirty pd vb st) \<and>
         pagedir_is_accessed pd vb st' = pagedir_is_accessed pd vb st)"
    by blast
next
  obtain st' where st': "pagedir_set_accessed pd va b st = Some st'" "flag_set_spec PTE_A pd va b st (Some st')"
    using flag_set(2) [OF assms, of b] by (auto simp: flag_set_spec_def)
  then have wf: "pd_wf st' pd" by (simp add: flag_set_spec_def)
  have nz: "PTE_A \<noteq> 0" by (simp add: PTE_A_def)
  have "PTE_A AND PTE_P = 0" "PTE_A AND PTE_W = 0" "PTE_A AND PTE_ADDR = 0" "PTE_A AND PTE_D = 0"
    by (simp_all add: PTE_D_def PTE_P_def PTE_W_def PTE_ADDR_def PTE_A_def)
  note zero = this
  have "translate st' pd vb = translate st pd vb \<and>
      pagedir_is_accessed pd vb st' =
        (if pg_no vb = pg_no va \<and> has_pte st pd va then Some b else pagedir_is_accessed pd vb st) \<and>
      pagedir_is_dirty pd vb st' = pagedir_is_dirty pd vb st" if u: "is_user_vaddr vb" for vb
    using flag_spec_translate [OF st'(2) u zero(1-3)] flag_spec_tests(1) [OF st'(2) u nz]
      flag_spec_tests(2) [OF st'(2) u zero(4)]
    by (simp add: flag_test [OF wf u] flag_test [OF assms(1) u])
  with st'(1) wf show "\<exists>st'. pagedir_set_accessed pd va b st = Some st' \<and> pd_wf st' pd \<and>
      (\<forall>vb. is_user_vaddr vb \<longrightarrow> translate st' pd vb = translate st pd vb \<and>
         pagedir_is_accessed pd vb st' =
           (if pg_no vb = pg_no va \<and> has_pte st pd va then Some b else pagedir_is_accessed pd vb st) \<and>
         pagedir_is_dirty pd vb st' = pagedir_is_dirty pd vb st)"
    by blast
qed

lemma pagedir_bits_example:
  "pagedir_clear_page 0xc0101000 0x8048000 small_pd \<noteq> None"
proof -
  have c: "is_user_vaddr 0x8048000" "cr3 small_pd < PHYS_BASE" "aligned 0x8048000"
    by (simp_all add: is_user_vaddr_def PHYS_BASE_def aligned_def small_pd_def)
  show ?thesis
    using pagedir_bits [OF small_pd_wf c(1,2), of True, THEN conjunct1] c(3) by auto
qed

text \<open>
  C15. \<open>pagedir_destroy\<close> of a directory whose user page tables and frames are allocated
  pages, each referenced once, frees exactly these pages and the directory itself, and panics
  nowhere on the way.
\<close>

theorem pagedir_destroy_frees:
  assumes "wf_kstate (ks st)" "pd \<in> all_pages (ks st)" "pd \<noteq> init_page_dir st" "pdes_ok (ks st) pd 0 768"
  shows "\<exists>st'. pagedir_destroy pd st = Some st' \<and> wf_kstate (ks st') \<and>
    all_pages (ks st') = all_pages (ks st) - insert pd (\<Union>a\<in>{..<768}. owned (ks st) pd a)"
  by (rule pagedir_destroy_ok [OF assms])

theorem pagedir_destroy_frees_witness:
  "pagedir_destroy 0xc0101000 small_pd \<noteq> None"
proof -
  have "pdes_ok (ks small_pd) 0xc0101000 0 768"
    by (simp add: pdes_ok_def owned_def table_of_def) (simp add: small_pd_def small_pools_def)
  then show ?thesis
    using pagedir_destroy_frees [of small_pd "0xc0101000"] small_pd_page wf_small_pools
    by (auto simp: small_pd_def)
qed

end
