(* ===== verification/Fifo.thy ===== *)
theory Fifo
  imports Prelude
begin

text \<open>
  The contract of a first-in, first-out queue, as its clients use it: \<open>rep s xs\<close> says that the
  state \<open>s\<close> holds the items \<open>xs\<close>, front first. The kernel's linked lists (\<open>lib/kernel/list.c\<close>)
  and the interrupt queue (\<open>devices/intq.c\<close>) are the two providers. \<open>put_all\<close> and \<open>take_n\<close>
  are clients.
\<close>

fun put_all :: "('x \<Rightarrow> 's \<Rightarrow> 's option) \<Rightarrow> 'x list \<Rightarrow> 's \<Rightarrow> 's option" where
  "put_all enq [] s = Some s"
| "put_all enq (x # xs) s = (case enq x s of None \<Rightarrow> None | Some s' \<Rightarrow> put_all enq xs s')"

fun take_n :: "('s \<Rightarrow> ('x \<times> 's) option) \<Rightarrow> nat \<Rightarrow> 's \<Rightarrow> ('x list \<times> 's) option" where
  "take_n deq 0 s = Some ([], s)"
| "take_n deq (Suc n) s =
     (case deq s of
        None \<Rightarrow> None
      | Some (x, s') \<Rightarrow> map_option (\<lambda>(xs, s''). (x # xs, s'')) (take_n deq n s'))"

fun room_for :: "('x \<Rightarrow> 'x list \<Rightarrow> bool) \<Rightarrow> 'x list \<Rightarrow> 'x list \<Rightarrow> bool" where
  "room_for room [] xs = True"
| "room_for room (y # ys) xs = (room y xs \<and> room_for room ys (xs @ [y]))"

locale fifo =
  fixes rep :: "'s \<Rightarrow> 'x list \<Rightarrow> bool"
    and room :: "'x \<Rightarrow> 'x list \<Rightarrow> bool"
    and enq :: "'x \<Rightarrow> 's \<Rightarrow> 's option"
    and deq :: "'s \<Rightarrow> ('x \<times> 's) option"
  assumes enq_ok: "rep s xs \<Longrightarrow> room x xs \<Longrightarrow> \<exists>s'. enq x s = Some s' \<and> rep s' (xs @ [x])"
    and deq_ok: "rep s (x # xs) \<Longrightarrow> \<exists>s'. deq s = Some (x, s') \<and> rep s' xs"
    and deq_empty: "rep s [] \<Longrightarrow> deq s = None"
begin

lemma put_all_ok:
  "rep s xs \<Longrightarrow> room_for room ys xs \<Longrightarrow> \<exists>s'. put_all enq ys s = Some s' \<and> rep s' (xs @ ys)"
proof (induction ys arbitrary: s xs)
  case (Cons y ys)
  then obtain s1 where s1: "enq y s = Some s1" "rep s1 (xs @ [y])" using enq_ok [of s xs y] by auto
  then show ?case using Cons.IH [OF s1(2)] Cons.prems(2) by auto
qed simp

lemma take_n_ok:
  "rep s (xs @ ys) \<Longrightarrow> \<exists>s'. take_n deq (length xs) s = Some (xs, s') \<and> rep s' ys"
proof (induction xs arbitrary: s)
  case (Cons x xs)
  then obtain s1 where s1: "deq s = Some (x, s1)" "rep s1 (xs @ ys)" using deq_ok [of s x "xs @ ys"] by auto
  then show ?case using Cons.IH [OF s1(2)] by auto
qed simp

lemma fifo_order:
  assumes "rep s xs" "room_for room ys xs"
  shows "\<exists>s1 s2. put_all enq ys s = Some s1 \<and> take_n deq (length xs + length ys) s1 = Some (xs @ ys, s2) \<and>
    rep s2 [] \<and> deq s2 = None"
proof -
  obtain s1 where s1: "put_all enq ys s = Some s1" "rep s1 (xs @ ys)" using put_all_ok [OF assms] by blast
  then have "rep s1 ((xs @ ys) @ [])" by simp
  from take_n_ok [OF this] obtain s2 where "take_n deq (length (xs @ ys)) s1 = Some (xs @ ys, s2)" "rep s2 []"
    by blast
  with s1 deq_empty show ?thesis by auto
qed

end

end
