(* ===== verification/Klist.thy ===== *)
theory Klist
  imports Fifo "HOL-Library.Multiset"
begin

text \<open>
  The doubly linked lists of \<open>lib/kernel/list.c\<close> on an explicit heap of \<open>prev\<close> and \<open>next\<close>
  links. An address is a \<open>nat\<close> and the null pointer is 0; a list is the addresses of its two
  sentinels. The comparison callback \<open>less\<close> (with its auxiliary data) is a parameter. A loop is a
  \<open>partial_function (option)\<close>: \<open>None\<close> is a failed assertion or a loop that does not end.
\<close>

section \<open>The code\<close>

record heap =
  nx :: "nat \<Rightarrow> nat"
  pv :: "nat \<Rightarrow> nat"

record klist =
  lhead :: nat
  ltail :: nat

definition set_nx :: "nat \<Rightarrow> nat \<Rightarrow> heap \<Rightarrow> heap" where
  "set_nx a b h = h\<lparr>nx := (nx h)(a := b)\<rparr>"

definition set_pv :: "nat \<Rightarrow> nat \<Rightarrow> heap \<Rightarrow> heap" where
  "set_pv a b h = h\<lparr>pv := (pv h)(a := b)\<rparr>"

definition is_head :: "heap \<Rightarrow> nat \<Rightarrow> bool" where
  "is_head h e \<longleftrightarrow> e \<noteq> 0 \<and> pv h e = 0 \<and> nx h e \<noteq> 0"

definition is_interior :: "heap \<Rightarrow> nat \<Rightarrow> bool" where
  "is_interior h e \<longleftrightarrow> e \<noteq> 0 \<and> pv h e \<noteq> 0 \<and> nx h e \<noteq> 0"

definition is_tail :: "heap \<Rightarrow> nat \<Rightarrow> bool" where
  "is_tail h e \<longleftrightarrow> e \<noteq> 0 \<and> pv h e \<noteq> 0 \<and> nx h e = 0"

definition list_init :: "klist \<Rightarrow> heap \<Rightarrow> heap" where
  "list_init l h =
     set_nx (ltail l) 0 (set_pv (ltail l) (lhead l) (set_nx (lhead l) (ltail l) (set_pv (lhead l) 0 h)))"

definition list_begin :: "heap \<Rightarrow> klist \<Rightarrow> nat" where
  "list_begin h l = nx h (lhead l)"

definition list_next :: "heap \<Rightarrow> nat \<Rightarrow> nat option" where
  "list_next h e = do {
     kassert (is_head h e \<or> is_interior h e);
     Some (nx h e)
   }"

definition list_end :: "klist \<Rightarrow> nat" where
  "list_end l = ltail l"

definition list_rbegin :: "heap \<Rightarrow> klist \<Rightarrow> nat" where
  "list_rbegin h l = pv h (ltail l)"

definition list_prev :: "heap \<Rightarrow> nat \<Rightarrow> nat option" where
  "list_prev h e = do {
     kassert (is_interior h e \<or> is_tail h e);
     Some (pv h e)
   }"

definition list_rend :: "klist \<Rightarrow> nat" where "list_rend l = lhead l"
definition list_head :: "klist \<Rightarrow> nat" where "list_head l = lhead l"
definition list_tail :: "klist \<Rightarrow> nat" where "list_tail l = ltail l"

definition list_insert :: "nat \<Rightarrow> nat \<Rightarrow> heap \<Rightarrow> heap option" where
  "list_insert before elem h = do {
     kassert (is_interior h before \<or> is_tail h before);
     kassert (elem \<noteq> 0);
     let h = set_pv elem (pv h before) h;
     let h = set_nx elem before h;
     let h = set_nx (pv h before) elem h;
     Some (set_pv before elem h)
   }"

definition list_splice :: "nat \<Rightarrow> nat \<Rightarrow> nat \<Rightarrow> heap \<Rightarrow> heap option" where
  "list_splice before first last' h = do {
     kassert (is_interior h before \<or> is_tail h before);
     (if first = last' then Some h
      else do {
        lst \<leftarrow> list_prev h last';
        kassert (is_interior h first);
        kassert (is_interior h lst);
        let h = set_nx (pv h first) (nx h lst) h;
        let h = set_pv (nx h lst) (pv h first) h;
        let h = set_pv first (pv h before) h;
        let h = set_nx lst before h;
        let h = set_nx (pv h before) first h;
        Some (set_pv before lst h)
      })
   }"

definition list_push_front :: "klist \<Rightarrow> nat \<Rightarrow> heap \<Rightarrow> heap option" where
  "list_push_front l elem h = list_insert (list_begin h l) elem h"

definition list_push_back :: "klist \<Rightarrow> nat \<Rightarrow> heap \<Rightarrow> heap option" where
  "list_push_back l elem h = list_insert (list_end l) elem h"

definition list_remove :: "nat \<Rightarrow> heap \<Rightarrow> (nat \<times> heap) option" where
  "list_remove elem h = do {
     kassert (is_interior h elem);
     let h = set_nx (pv h elem) (nx h elem) h;
     let h = set_pv (nx h elem) (pv h elem) h;
     Some (nx h elem, h)
   }"

definition list_empty :: "heap \<Rightarrow> klist \<Rightarrow> bool" where
  "list_empty h l \<longleftrightarrow> list_begin h l = list_end l"

definition list_front :: "heap \<Rightarrow> klist \<Rightarrow> nat option" where
  "list_front h l = do {
     kassert (\<not> list_empty h l);
     Some (nx h (lhead l))
   }"

definition list_back :: "heap \<Rightarrow> klist \<Rightarrow> nat option" where
  "list_back h l = do {
     kassert (\<not> list_empty h l);
     Some (pv h (ltail l))
   }"

definition list_pop_front :: "klist \<Rightarrow> heap \<Rightarrow> (nat \<times> heap) option" where
  "list_pop_front l h = do {
     front \<leftarrow> list_front h l;
     (_, h') \<leftarrow> list_remove front h;
     Some (front, h')
   }"

definition list_pop_back :: "klist \<Rightarrow> heap \<Rightarrow> (nat \<times> heap) option" where
  "list_pop_back l h = do {
     back \<leftarrow> list_back h l;
     (_, h') \<leftarrow> list_remove back h;
     Some (back, h')
   }"

partial_function (option) size_loop :: "heap \<Rightarrow> klist \<Rightarrow> nat \<Rightarrow> nat \<Rightarrow> nat option" where
  "size_loop h l e cnt =
     (if e \<noteq> list_end l then list_next h e \<bind> (\<lambda>e'. size_loop h l e' (cnt + 1)) else Some cnt)"

definition list_size :: "heap \<Rightarrow> klist \<Rightarrow> nat option" where
  "list_size h l = size_loop h l (list_begin h l) 0"

definition swap_links :: "nat \<Rightarrow> heap \<Rightarrow> heap" where
  "swap_links e h = set_nx e (pv h e) (set_pv e (nx h e) h)"

partial_function (option) reverse_loop :: "klist \<Rightarrow> nat \<Rightarrow> heap \<Rightarrow> heap option" where
  "reverse_loop l e h =
     (if e \<noteq> list_end l then
        (let h' = swap_links e h in reverse_loop l (pv h' e) h')
      else Some h)"

definition list_reverse :: "klist \<Rightarrow> heap \<Rightarrow> heap option" where
  "list_reverse l h =
     (if \<not> list_empty h l then
        map_option
          (\<lambda>h. let h = set_pv (ltail l) (nx h (lhead l)) (set_nx (lhead l) (pv h (ltail l)) h);
                  a = nx h (lhead l);
                  b = pv h (ltail l)
              in set_nx b (pv h a) (set_pv a (nx h b) h))
          (reverse_loop l (list_begin h l) h)
      else Some h)"

partial_function (option) is_sorted_loop :: "(nat \<Rightarrow> nat \<Rightarrow> bool) \<Rightarrow> heap \<Rightarrow> nat \<Rightarrow> nat \<Rightarrow> bool option" where
  "is_sorted_loop lessf h a b =
     list_next h a \<bind> (\<lambda>a.
       if a \<noteq> b then list_prev h a \<bind> (\<lambda>p. if lessf a p then Some False else is_sorted_loop lessf h a b)
       else Some True)"

definition is_sorted :: "(nat \<Rightarrow> nat \<Rightarrow> bool) \<Rightarrow> heap \<Rightarrow> nat \<Rightarrow> nat \<Rightarrow> bool option" where
  "is_sorted lessf h a b = (if a \<noteq> b then is_sorted_loop lessf h a b else Some True)"

partial_function (option) run_loop :: "(nat \<Rightarrow> nat \<Rightarrow> bool) \<Rightarrow> heap \<Rightarrow> nat \<Rightarrow> nat \<Rightarrow> nat option" where
  "run_loop lessf h a b =
     list_next h a \<bind> (\<lambda>a.
       if a \<noteq> b then list_prev h a \<bind> (\<lambda>p. if \<not> lessf a p then run_loop lessf h a b else Some a)
       else Some a)"

definition find_end_of_run :: "(nat \<Rightarrow> nat \<Rightarrow> bool) \<Rightarrow> heap \<Rightarrow> nat \<Rightarrow> nat \<Rightarrow> nat option" where
  "find_end_of_run lessf h a b = do {
     kassert (a \<noteq> 0);
     kassert (b \<noteq> 0);
     kassert (a \<noteq> b);
     run_loop lessf h a b
   }"

partial_function (option) merge_loop ::
  "(nat \<Rightarrow> nat \<Rightarrow> bool) \<Rightarrow> nat \<Rightarrow> nat \<Rightarrow> nat \<Rightarrow> heap \<Rightarrow> heap option" where
  "merge_loop lessf a0 a1b0 b1 h =
     (if a0 \<noteq> a1b0 \<and> a1b0 \<noteq> b1 then
        (if \<not> lessf a1b0 a0 then list_next h a0 \<bind> (\<lambda>a0. merge_loop lessf a0 a1b0 b1 h)
         else list_next h a1b0 \<bind> (\<lambda>a1b0.
                list_prev h a1b0 \<bind> (\<lambda>p.
                  list_splice a0 p a1b0 h \<bind> (\<lambda>h. merge_loop lessf a0 a1b0 b1 h))))
      else Some h)"

definition inplace_merge ::
  "(nat \<Rightarrow> nat \<Rightarrow> bool) \<Rightarrow> nat \<Rightarrow> nat \<Rightarrow> nat \<Rightarrow> heap \<Rightarrow> heap option" where
  "inplace_merge lessf a0 a1b0 b1 h = do {
     kassert (a0 \<noteq> 0);
     kassert (a1b0 \<noteq> 0);
     kassert (b1 \<noteq> 0);
     s \<leftarrow> is_sorted lessf h a0 a1b0;
     kassert s;
     s \<leftarrow> is_sorted lessf h a1b0 b1;
     kassert s;
     merge_loop lessf a0 a1b0 b1 h
   }"

partial_function (option) sort_pass ::
  "(nat \<Rightarrow> nat \<Rightarrow> bool) \<Rightarrow> klist \<Rightarrow> nat \<Rightarrow> nat \<Rightarrow> heap \<Rightarrow> (nat \<times> heap) option" where
  "sort_pass lessf l a0 cnt h =
     (if a0 \<noteq> list_end l then
        find_end_of_run lessf h a0 (list_end l) \<bind> (\<lambda>a1b0.
          if a1b0 = list_end l then Some (cnt + 1, h)
          else find_end_of_run lessf h a1b0 (list_end l) \<bind> (\<lambda>b1.
            inplace_merge lessf a0 a1b0 b1 h \<bind> (\<lambda>h. sort_pass lessf l b1 (cnt + 1) h)))
      else Some (cnt, h))"

partial_function (option) sort_loop :: "(nat \<Rightarrow> nat \<Rightarrow> bool) \<Rightarrow> klist \<Rightarrow> heap \<Rightarrow> heap option" where
  "sort_loop lessf l h =
     sort_pass lessf l (list_begin h l) 0 h \<bind> (\<lambda>(output_run_cnt, h).
       if output_run_cnt > 1 then sort_loop lessf l h else Some h)"

definition list_sort :: "(nat \<Rightarrow> nat \<Rightarrow> bool) \<Rightarrow> klist \<Rightarrow> heap \<Rightarrow> heap option" where
  "list_sort lessf l h = do {
     h \<leftarrow> sort_loop lessf l h;
     s \<leftarrow> is_sorted lessf h (list_begin h l) (list_end l);
     kassert s;
     Some h
   }"

partial_function (option) ordered_loop ::
  "(nat \<Rightarrow> nat \<Rightarrow> bool) \<Rightarrow> heap \<Rightarrow> klist \<Rightarrow> nat \<Rightarrow> nat \<Rightarrow> nat option" where
  "ordered_loop lessf h l elem e =
     (if e \<noteq> list_end l then
        (if lessf elem e then Some e else list_next h e \<bind> (\<lambda>e. ordered_loop lessf h l elem e))
      else Some e)"

definition list_insert_ordered ::
  "(nat \<Rightarrow> nat \<Rightarrow> bool) \<Rightarrow> klist \<Rightarrow> nat \<Rightarrow> heap \<Rightarrow> heap option" where
  "list_insert_ordered lessf l elem h = do {
     kassert (elem \<noteq> 0);
     e \<leftarrow> ordered_loop lessf h l elem (list_begin h l);
     list_insert e elem h
   }"

partial_function (option) unique_loop ::
  "(nat \<Rightarrow> nat \<Rightarrow> bool) \<Rightarrow> klist \<Rightarrow> klist option \<Rightarrow> nat \<Rightarrow> heap \<Rightarrow> heap option" where
  "unique_loop lessf l duplicates elem h =
     list_next h elem \<bind> (\<lambda>nxt.
       if nxt \<noteq> list_end l then
         (if \<not> lessf elem nxt \<and> \<not> lessf nxt elem then
            list_remove nxt h \<bind> (\<lambda>(_, h).
              (case duplicates of None \<Rightarrow> Some h | Some d \<Rightarrow> list_push_back d nxt h) \<bind> (\<lambda>h.
                unique_loop lessf l duplicates elem h))
          else unique_loop lessf l duplicates nxt h)
       else Some h)"

definition list_unique ::
  "(nat \<Rightarrow> nat \<Rightarrow> bool) \<Rightarrow> klist \<Rightarrow> klist option \<Rightarrow> heap \<Rightarrow> heap option" where
  "list_unique lessf l duplicates h =
     (if list_empty h l then Some h else unique_loop lessf l duplicates (list_begin h l) h)"

partial_function (option) max_loop ::
  "(nat \<Rightarrow> nat \<Rightarrow> bool) \<Rightarrow> heap \<Rightarrow> klist \<Rightarrow> nat \<Rightarrow> nat \<Rightarrow> nat option" where
  "max_loop lessf h l mx e =
     (if e \<noteq> list_end l then
        list_next h e \<bind> (\<lambda>e'. max_loop lessf h l (if lessf mx e then e else mx) e')
      else Some mx)"

definition list_max :: "(nat \<Rightarrow> nat \<Rightarrow> bool) \<Rightarrow> heap \<Rightarrow> klist \<Rightarrow> nat option" where
  "list_max lessf h l =
     (let mx = list_begin h l
      in if mx \<noteq> list_end l then list_next h mx \<bind> (\<lambda>e. max_loop lessf h l mx e) else Some mx)"

partial_function (option) min_loop ::
  "(nat \<Rightarrow> nat \<Rightarrow> bool) \<Rightarrow> heap \<Rightarrow> klist \<Rightarrow> nat \<Rightarrow> nat \<Rightarrow> nat option" where
  "min_loop lessf h l mn e =
     (if e \<noteq> list_end l then
        list_next h e \<bind> (\<lambda>e'. min_loop lessf h l (if lessf e mn then e else mn) e')
      else Some mn)"

definition list_min :: "(nat \<Rightarrow> nat \<Rightarrow> bool) \<Rightarrow> heap \<Rightarrow> klist \<Rightarrow> nat option" where
  "list_min lessf h l =
     (let mn = list_begin h l
      in if mn \<noteq> list_end l then list_next h mn \<bind> (\<lambda>e. min_loop lessf h l mn e) else Some mn)"

section \<open>Chains of links\<close>

fun linked :: "heap \<Rightarrow> nat list \<Rightarrow> bool" where
  "linked h [] \<longleftrightarrow> True"
| "linked h [a] \<longleftrightarrow> True"
| "linked h (a # b # cs) \<longleftrightarrow> nx h a = b \<and> pv h b = a \<and> linked h (b # cs)"

lemma linked_join:
  "A \<noteq> [] \<Longrightarrow> B \<noteq> [] \<Longrightarrow>
   linked h (A @ B) \<longleftrightarrow> linked h A \<and> linked h B \<and> nx h (last A) = hd B \<and> pv h (hd B) = last A"
proof (induction h A rule: linked.induct)
  case (2 h a)
  then show ?case by (cases B) auto
qed auto

lemma linked_cong:
  "linked h X \<Longrightarrow> distinct X \<Longrightarrow> (\<And>x. x \<in> set X \<Longrightarrow> x \<noteq> last X \<Longrightarrow> nx h' x = nx h x) \<Longrightarrow>
   (\<And>x. x \<in> set X \<Longrightarrow> x \<noteq> hd X \<Longrightarrow> pv h' x = pv h x) \<Longrightarrow> linked h' X"
proof (induction h X rule: linked.induct)
  case (3 h a b cs)
  have "linked h' (b # cs)"
  proof (rule "3.IH")
    show "linked h (b # cs)" "distinct (b # cs)" using "3.prems" by simp_all
    show "nx h' x = nx h x" if "x \<in> set (b # cs)" "x \<noteq> last (b # cs)" for x
      using "3.prems"(3) [of x] that by simp
    show "pv h' x = pv h x" if "x \<in> set (b # cs)" "x \<noteq> hd (b # cs)" for x
      using "3.prems"(4) [of x] "3.prems"(2) that by auto
  qed
  moreover have "a \<noteq> last (b # cs)" using "3.prems"(2) by (metis distinct.simps(2) last_in_set list.distinct(1))
  ultimately show ?case using "3.prems"(1,2) "3.prems"(3) [of a] "3.prems"(4) [of b] by auto
qed auto

definition cells :: "klist \<Rightarrow> nat list \<Rightarrow> nat list" where
  "cells l xs = lhead l # xs @ [ltail l]"

definition dll :: "heap \<Rightarrow> klist \<Rightarrow> nat list \<Rightarrow> bool" where
  "dll h l xs \<longleftrightarrow> distinct (cells l xs) \<and> 0 \<notin> set (cells l xs) \<and> linked h (cells l xs) \<and>
     pv h (lhead l) = 0 \<and> nx h (ltail l) = 0"

definition nd :: "klist \<Rightarrow> nat list \<Rightarrow> nat" where
  "nd l bs = hd (bs @ [ltail l])"

definition agree_off :: "nat set \<Rightarrow> heap \<Rightarrow> heap \<Rightarrow> bool" where
  "agree_off C h h' \<longleftrightarrow> (\<forall>x. x \<notin> C \<longrightarrow> nx h' x = nx h x \<and> pv h' x = pv h x)"

lemma agree_off_refl [simp]: "agree_off C h h"
  by (simp add: agree_off_def)

lemma agree_off_trans: "agree_off C h h1 \<Longrightarrow> agree_off C h1 h2 \<Longrightarrow> agree_off C h h2"
  by (simp add: agree_off_def)

lemma nd_simps [simp]: "nd l [] = ltail l" "nd l (b # bs) = b"
  by (simp_all add: nd_def)

lemma links_set [simp]:
  "nx (set_nx a b h) x = (if x = a then b else nx h x)" "pv (set_nx a b h) x = pv h x"
  "pv (set_pv a b h) x = (if x = a then b else pv h x)" "nx (set_pv a b h) x = nx h x"
  by (simp_all add: set_nx_def set_pv_def)

lemma dll_frame:
  assumes "dll h l xs" "agree_off C h h'" "C \<inter> set (cells l xs) = {}"
  shows "dll h' l xs"
proof -
  have same: "nx h' x = nx h x" "pv h' x = pv h x" if "x \<in> set (cells l xs)" for x
    using assms(2,3) that by (auto simp: agree_off_def)
  have "linked h' (cells l xs)"
    using linked_cong [of h "cells l xs" h'] same assms(1) by (simp add: dll_def)
  moreover have "lhead l \<in> set (cells l xs)" "ltail l \<in> set (cells l xs)" by (simp_all add: cells_def)
  ultimately show ?thesis using assms(1) same by (simp add: dll_def)
qed

lemma dll_node:
  assumes "dll h l (as @ e # bs)"
  shows "is_interior h e" "nx h e = nd l bs" "pv h e = last (lhead l # as)" "e \<noteq> ltail l" "e \<noteq> 0"
    "list_next h e = Some (nd l bs)" "list_prev h e = Some (last (lhead l # as))"
proof -
  have c: "cells l (as @ e # bs) = (lhead l # as) @ ([e] @ (bs @ [ltail l]))" by (simp add: cells_def)
  have k: "linked h ((lhead l # as) @ ([e] @ (bs @ [ltail l])))" using assms by (simp add: dll_def c)
  then have k2: "linked h ([e] @ (bs @ [ltail l]))" "pv h e = last (lhead l # as)"
    using linked_join [of "lhead l # as" "[e] @ (bs @ [ltail l])" h] by simp_all
  then show nxt: "nx h e = nd l bs" "pv h e = last (lhead l # as)"
    using linked_join [of "[e]" "bs @ [ltail l]" h] by (simp_all add: nd_def)
  have in1: "last (lhead l # as) \<in> set (lhead l # as)" by (rule last_in_set) simp
  then have "last (lhead l # as) \<noteq> 0" using assms by (auto simp: dll_def cells_def)
  moreover have "nd l bs \<noteq> 0" using assms by (cases bs) (auto simp: dll_def cells_def)
  moreover show e0: "e \<noteq> 0" using assms by (auto simp: dll_def cells_def)
  ultimately show i: "is_interior h e" using nxt by (simp add: is_interior_def)
  show "e \<noteq> ltail l" using assms by (auto simp: dll_def cells_def)
  show "list_next h e = Some (nd l bs)" "list_prev h e = Some (last (lhead l # as))"
    using i nxt by (simp_all add: list_next_def list_prev_def)
qed

lemma dll_ends:
  assumes "dll h l xs"
  shows "list_begin h l = nd l xs" "list_rbegin h l = last (lhead l # xs)" "is_tail h (ltail l)"
    "is_head h (lhead l)" "list_empty h l \<longleftrightarrow> xs = []" "pv h (ltail l) = last (lhead l # xs)"
    "nx h (lhead l) = nd l xs"
proof -
  have k: "linked h (cells l xs)" using assms by (simp add: dll_def)
  then have "linked h ([lhead l] @ (xs @ [ltail l]))" by (simp add: cells_def)
  then show n: "nx h (lhead l) = nd l xs"
    using linked_join [of "[lhead l]" "xs @ [ltail l]" h] by (simp add: nd_def)
  have "linked h ((lhead l # xs) @ [ltail l])" using k by (simp add: cells_def)
  then show p: "pv h (ltail l) = last (lhead l # xs)"
    using linked_join [of "lhead l # xs" "[ltail l]" h] by simp
  show "list_begin h l = nd l xs" "list_rbegin h l = last (lhead l # xs)"
    using n p by (simp_all add: list_begin_def list_rbegin_def)
  have "last (lhead l # xs) \<in> set (lhead l # xs)" by (rule last_in_set) simp
  moreover have "set (lhead l # xs) \<subseteq> set (cells l xs)" by (auto simp: cells_def)
  ultimately have mem: "last (lhead l # xs) \<in> set (cells l xs)" by blast
  have "0 \<notin> set (cells l xs)" using assms unfolding dll_def by blast
  with mem have "last (lhead l # xs) \<noteq> 0" by metis
  then show "is_tail h (ltail l)" using assms p by (simp add: is_tail_def dll_def cells_def)
  have "nd l xs \<noteq> 0" using assms by (cases xs) (auto simp: dll_def cells_def)
  then show "is_head h (lhead l)" using assms n by (simp add: is_head_def dll_def cells_def)
  show "list_empty h l \<longleftrightarrow> xs = []"
    using assms n by (cases xs) (auto simp: list_empty_def list_begin_def list_end_def dll_def cells_def)
qed

lemma dll_position:
  assumes "dll h l (as @ bs)"
  shows "is_interior h (nd l bs) \<or> is_tail h (nd l bs)" "pv h (nd l bs) = last (lhead l # as)"
    "nd l bs = ltail l \<longleftrightarrow> bs = []" "nd l bs \<noteq> 0" "list_prev h (nd l bs) = Some (last (lhead l # as))"
proof -
  have "(is_interior h (nd l bs) \<or> is_tail h (nd l bs)) \<and> pv h (nd l bs) = last (lhead l # as)"
  proof (cases bs)
    case Nil
    then show ?thesis using assms dll_ends [of h l as] by simp
  next
    case (Cons b bs')
    then show ?thesis using dll_node(1,3) [OF assms [unfolded Cons]] by simp
  qed
  then show g: "is_interior h (nd l bs) \<or> is_tail h (nd l bs)" "pv h (nd l bs) = last (lhead l # as)"
    by blast+
  show "nd l bs = ltail l \<longleftrightarrow> bs = []" using assms by (cases bs) (auto simp: dll_def cells_def)
  show "nd l bs \<noteq> 0" using assms by (cases bs) (auto simp: dll_def cells_def)
  show "list_prev h (nd l bs) = Some (last (lhead l # as))" using g by (auto simp: list_prev_def)
qed

section \<open>Insertion, removal and splicing\<close>

lemma cells_split: "cells l (as @ bs) = (lhead l # as) @ (bs @ [ltail l])"
  by (simp add: cells_def)

lemma ends_in: "P \<noteq> [] \<Longrightarrow> hd P \<in> set P \<and> last P \<in> set P"
  by simp

lemma chain_insert:
  assumes "linked h (P @ S)" "distinct (P @ S)" "P \<noteq> []" "S \<noteq> []" "e \<notin> set (P @ S)"
  shows "linked (set_pv (hd S) e (set_nx (last P) e (set_nx e (hd S) (set_pv e (last P) h)))) (P @ [e] @ S)"
    (is "linked ?h _")
proof -
  note ends = ends_in [OF assms(3)] ends_in [OF assms(4)]
  have l: "linked h P" "linked h S" using assms(1) linked_join [OF assms(3,4)] by simp_all
  have ne: "last P \<noteq> e" "hd S \<noteq> e" "hd S \<noteq> last P" using ends assms(2,5) by auto
  have "linked ?h P"
    by (rule linked_cong [OF l(1)]) (use assms(2,5) ends in auto)
  moreover have "linked ?h S"
    by (rule linked_cong [OF l(2)]) (use assms(2,5) ends in auto)
  ultimately show ?thesis
    using linked_join [OF assms(3), of "[e] @ S" ?h] linked_join [of "[e]" S ?h] assms(4) ne by simp
qed

lemma chain_remove:
  assumes "linked h (P @ [e] @ S)" "distinct (P @ [e] @ S)" "P \<noteq> []" "S \<noteq> []"
  shows "linked (set_pv (hd S) (last P) (set_nx (last P) (hd S) h)) (P @ S)"
    (is "linked ?h _")
proof -
  note ends = ends_in [OF assms(3)] ends_in [OF assms(4)]
  have l: "linked h P" "linked h S"
    using assms linked_join [OF assms(3), of "[e] @ S" h] linked_join [of "[e]" S h] by simp_all
  have "linked ?h P"
    by (rule linked_cong [OF l(1)]) (use assms(2) ends in auto)
  moreover have "linked ?h S"
    by (rule linked_cong [OF l(2)]) (use assms(2) ends in auto)
  ultimately show ?thesis using linked_join [OF assms(3,4), of ?h] by simp
qed

lemma chain_move:
  assumes "linked h (P @ M @ F @ S)" "distinct (P @ M @ F @ S)" "P \<noteq> []" "M \<noteq> []" "F \<noteq> []" "S \<noteq> []"
  defines "h1 \<equiv> set_pv (hd S) (last M) (set_nx (last M) (hd S) h)"
  shows "linked (set_pv (hd M) (last F) (set_nx (last P) (hd F) (set_nx (last F) (hd M) (set_pv (hd F) (last P) h1))))
      (P @ F @ M @ S)" (is "linked ?h _")
proof -
  note ends = ends_in [OF assms(3)] ends_in [OF assms(4)] ends_in [OF assms(5)] ends_in [OF assms(6)]
  have l: "linked h P" "linked h M" "linked h F" "linked h S"
    using assms(1,3-6) linked_join [of P "M @ F @ S" h] linked_join [of M "F @ S" h] linked_join [of F S h]
    by simp_all
  have d: "distinct P" "distinct M" "distinct F" "distinct S" "set P \<inter> set M = {}" "set P \<inter> set F = {}"
    "set P \<inter> set S = {}" "set M \<inter> set F = {}" "set M \<inter> set S = {}" "set F \<inter> set S = {}"
    using assms(2) by auto
  have nx: "nx ?h x = (if x = last P then hd F else if x = last F then hd M else if x = last M then hd S else nx h x)"
    and pv: "pv ?h x = (if x = hd M then last F else if x = hd F then last P else if x = hd S then last M else pv h x)"
    for x by (simp_all add: h1_def)
  have "linked ?h P" by (rule linked_cong [OF l(1) d(1)]; unfold nx pv; use d ends in auto)
  moreover have "linked ?h M" by (rule linked_cong [OF l(2) d(2)]; unfold nx pv; use d ends in auto)
  moreover have "linked ?h F" by (rule linked_cong [OF l(3) d(3)]; unfold nx pv; use d ends in auto)
  moreover have "linked ?h S" by (rule linked_cong [OF l(4) d(4)]; unfold nx pv; use d ends in auto)
  moreover have "nx ?h (last P) = hd F" "pv ?h (hd F) = last P" "nx ?h (last F) = hd M" "pv ?h (hd M) = last F"
    "nx ?h (last M) = hd S" "pv ?h (hd S) = last M"
    unfolding nx pv using d ends by auto
  ultimately show ?thesis
    using assms(3-6) linked_join [of P "F @ M @ S" ?h] linked_join [of F "M @ S" ?h] linked_join [of M S ?h]
    by simp
qed

definition left_of :: "klist \<Rightarrow> nat list \<Rightarrow> nat list" where
  "left_of l as = lhead l # as"

definition right_of :: "klist \<Rightarrow> nat list \<Rightarrow> nat list" where
  "right_of l bs = bs @ [ltail l]"

lemma sides_ne [simp]: "left_of l as \<noteq> []" "right_of l bs \<noteq> []"
  by (simp_all add: left_of_def right_of_def)

lemma sides_ends: "hd (right_of l bs) = nd l bs" "last (left_of l as) = last (lhead l # as)"
  "hd (left_of l as) = lhead l" "last (right_of l bs) = ltail l"
  by (simp_all add: left_of_def right_of_def nd_def)

lemma dll_sides:
  "dll h l (as @ bs) \<longleftrightarrow> distinct (left_of l as @ right_of l bs) \<and> 0 \<notin> set (left_of l as @ right_of l bs) \<and>
     linked h (left_of l as @ right_of l bs) \<and> pv h (hd (left_of l as)) = 0 \<and> nx h (last (right_of l bs)) = 0"
  by (simp add: dll_def cells_def left_of_def right_of_def)

lemma cells_sides: "cells l (as @ bs) = left_of l as @ right_of l bs"
  by (simp add: cells_def left_of_def right_of_def)

lemma right_of_app: "right_of l (bs @ cs) = bs @ right_of l cs"
  by (simp add: right_of_def)

lemma list_insert_dll:
  assumes "dll h l (as @ bs)" "e \<noteq> 0" "e \<notin> set (cells l (as @ bs))"
  shows "\<exists>h'. list_insert (nd l bs) e h = Some h' \<and> dll h' l (as @ e # bs) \<and>
    agree_off (insert e (set (cells l (as @ bs)))) h h'"
proof -
  define P S where "P = left_of l as" and "S = right_of l bs"
  have ne: "P \<noteq> []" "S \<noteq> []" by (simp_all add: P_def S_def)
  note ends = ends_in [OF ne(1)] ends_in [OF ne(2)]
  have d: "distinct (P @ S)" "0 \<notin> set (P @ S)" "linked h (P @ S)" "e \<notin> set (P @ S)"
    "pv h (hd P) = 0" "nx h (last S) = 0"
    using assms(1,3) by (simp_all add: dll_sides cells_sides P_def S_def)
  define h' where "h' = set_pv (hd S) e (set_nx (last P) e (set_nx e (hd S) (set_pv e (last P) h)))"
  note pos = dll_position [OF assms(1)]
  have "pv h (hd S) = last P" using pos(2) by (simp add: P_def S_def sides_ends)
  moreover have "hd S \<noteq> e" using ends d(4) by auto
  ultimately have op: "list_insert (nd l bs) e h = Some h'"
    using pos(1) assms(2) by (simp add: list_insert_def h'_def Let_def S_def sides_ends)
  have k: "linked h' (P @ [e] @ S)" unfolding h'_def by (rule chain_insert [OF d(3,1) ne d(4)])
  have "hd P \<noteq> e" "hd P \<noteq> hd S" "last S \<noteq> e" "last S \<noteq> last P" using d(1,4) ends by auto
  then have "pv h' (hd P) = 0" "nx h' (last S) = 0" using d(5,6) by (simp_all add: h'_def)
  moreover have "right_of l (e # bs) = [e] @ S" by (simp add: right_of_def S_def)
  ultimately have "dll h' l (as @ e # bs)"
    using k d(1,2,4) assms(2) ne by (simp add: dll_sides flip: P_def)
  moreover have "agree_off (insert e (set (cells l (as @ bs)))) h h'"
    using ends by (auto simp: agree_off_def cells_sides h'_def simp flip: P_def S_def)
  ultimately show ?thesis using op by blast
qed

lemma list_remove_dll:
  assumes "dll h l (as @ e # bs)"
  shows "\<exists>h'. list_remove e h = Some (nd l bs, h') \<and> dll h' l (as @ bs) \<and>
    agree_off (set (cells l (as @ e # bs))) h h'"
proof -
  define P S where "P = left_of l as" and "S = right_of l bs"
  have ne: "P \<noteq> []" "S \<noteq> []" by (simp_all add: P_def S_def)
  note ends = ends_in [OF ne(1)] ends_in [OF ne(2)]
  have s: "right_of l (e # bs) = [e] @ S" by (simp add: right_of_def S_def)
  have d: "distinct (P @ [e] @ S)" "0 \<notin> set (P @ [e] @ S)" "linked h (P @ [e] @ S)"
    "pv h (hd P) = 0" "nx h (last S) = 0"
    using assms ne by (simp_all add: dll_sides s flip: P_def)
  define h' where "h' = set_pv (hd S) (last P) (set_nx (last P) (hd S) h)"
  note node = dll_node [OF assms]
  have np: "nx h e = hd S" "pv h e = last P" using node(2,3) by (simp_all add: P_def S_def sides_ends)
  have "e \<noteq> last P" "e \<noteq> hd S" using d(1) ends by auto
  then have op: "list_remove e h = Some (nd l bs, h')"
    using node(1,2) np by (simp add: list_remove_def h'_def Let_def)
  have k: "linked h' (P @ S)" unfolding h'_def by (rule chain_remove [OF d(3,1) ne])
  have "hd P \<noteq> hd S" "last S \<noteq> last P" using d(1) ends by auto
  then have "pv h' (hd P) = 0" "nx h' (last S) = 0" using d(4,5) by (simp_all add: h'_def)
  then have "dll h' l (as @ bs)" using k d(1,2) by (simp add: dll_sides flip: P_def S_def)
  moreover have "agree_off (set (cells l (as @ e # bs))) h h'"
    using ends by (auto simp: agree_off_def cells_sides h'_def s simp flip: P_def)
  ultimately show ?thesis using op by blast
qed

lemma list_splice_dll:
  assumes "dll h l (U @ M @ F @ V)" "M \<noteq> []" "F \<noteq> []"
  shows "\<exists>h'. list_splice (hd M) (hd F) (nd l V) h = Some h' \<and> dll h' l (U @ F @ M @ V) \<and>
    agree_off (set (cells l (U @ M @ F @ V))) h h'"
proof -
  define P S where "P = left_of l U" and "S = right_of l V"
  have ne: "P \<noteq> []" "S \<noteq> []" by (simp_all add: P_def S_def)
  note ends = ends_in [OF ne(1)] ends_in [OF ne(2)] ends_in [OF assms(2)] ends_in [OF assms(3)]
  have d: "distinct (P @ M @ F @ S)" "0 \<notin> set (P @ M @ F @ S)" "linked h (P @ M @ F @ S)"
    "pv h (hd P) = 0" "nx h (last S) = 0"
    using assms(1) ne by (simp_all add: dll_sides right_of_app flip: P_def S_def)
  have pM: "is_interior h (hd M)" "pv h (hd M) = last P"
  proof -
    have "dll h l (U @ hd M # (tl M @ F @ V))" using assms(1,2) by (cases M) simp_all
    from dll_node(1,3) [OF this] show "is_interior h (hd M)" "pv h (hd M) = last P"
      by (simp_all add: P_def sides_ends)
  qed
  have pF: "is_interior h (hd F)" "pv h (hd F) = last M"
  proof -
    have "dll h l ((U @ M) @ hd F # (tl F @ V))" using assms(1,3) by (cases F) simp_all
    from dll_node(1,3) [OF this] show "is_interior h (hd F)" "pv h (hd F) = last M"
      using assms(2) by simp_all
  qed
  have pL: "is_interior h (last F)" "nx h (last F) = hd S"
  proof -
    have "dll h l ((U @ M @ butlast F) @ last F # V)" 
      using assms(1) append_butlast_last_id [OF assms(3)] by (metis append.assoc append_Cons append_Nil)
    from dll_node(1,2) [OF this] show "is_interior h (last F)" "nx h (last F) = hd S"
      by (simp_all add: S_def sides_ends)
  qed
  have pV: "list_prev h (nd l V) = Some (last F)"
    using dll_position(5) [of h l "U @ M @ F" V] assms(1,3) by simp
  define h1 where "h1 = set_pv (hd S) (last M) (set_nx (last M) (hd S) h)"
  define h' where
    "h' = set_pv (hd M) (last F) (set_nx (last P) (hd F) (set_nx (last F) (hd M) (set_pv (hd F) (last P) h1)))"
  have neq: "hd F \<noteq> nd l V" "last F \<noteq> last M" "hd M \<noteq> hd S" "hd M \<noteq> hd F" "last P \<noteq> last M" "last P \<noteq> last F"
    "hd S \<noteq> hd F" "hd P \<noteq> hd M" "hd P \<noteq> hd F" "hd P \<noteq> hd S" "last S \<noteq> last P" "last S \<noteq> last F" "last S \<noteq> last M"
    using d(1) ends by (auto simp: S_def sides_ends)
  have op: "list_splice (hd M) (hd F) (nd l V) h = Some h'"
    using pM pF pL pV neq by (simp add: list_splice_def Let_def h'_def h1_def)
  have k: "linked h' (P @ F @ M @ S)"
    unfolding h'_def h1_def by (rule chain_move [OF d(3,1) ne(1) assms(2,3) ne(2)])
  have "pv h' (hd P) = 0" "nx h' (last S) = 0" using d(4,5) neq by (simp_all add: h'_def h1_def)
  then have "dll h' l (U @ F @ M @ V)"
    using k d(1,2) ne by (auto simp: dll_sides right_of_app simp flip: P_def S_def)
  moreover have "agree_off (set (cells l (U @ M @ F @ V))) h h'"
    using ends by (auto simp: agree_off_def cells_sides right_of_app h'_def h1_def simp flip: P_def S_def)
  ultimately show ?thesis using op by blast
qed

section \<open>Traversals\<close>

declare size_loop.simps [code] reverse_loop.simps [code]

lemma size_loop_dll:
  "dll h l (as @ bs) \<Longrightarrow> size_loop h l (nd l bs) n = Some (n + length bs)"
proof (induction bs arbitrary: as n)
  case Nil
  then show ?case by (subst size_loop.simps) (simp add: list_end_def)
next
  case (Cons b bs)
  have "dll h l ((as @ [b]) @ bs)" using Cons.prems by simp
  note IH = Cons.IH [OF this]
  show ?case
    using dll_node(4,6) [OF Cons.prems] IH by (subst size_loop.simps) (simp add: list_end_def)
qed

lemma list_size_dll: "dll h l xs \<Longrightarrow> list_size h l = Some (length xs)"
  using size_loop_dll [of h l "[]" xs 0] dll_ends(1) [of h l xs] by (simp add: list_size_def)

lemma list_pop_front_dll:
  assumes "dll h l (x # xs)"
  shows "\<exists>h'. list_pop_front l h = Some (x, h') \<and> dll h' l xs \<and> agree_off (set (cells l (x # xs))) h h'"
  using list_remove_dll [of h l "[]" x xs] dll_ends(1,5,7) [OF assms] assms
  by (auto simp: list_pop_front_def list_front_def)

lemma list_pop_back_dll:
  assumes "dll h l (xs @ [x])"
  shows "\<exists>h'. list_pop_back l h = Some (x, h') \<and> dll h' l xs \<and> agree_off (set (cells l (xs @ [x]))) h h'"
  using list_remove_dll [of h l xs x "[]"] dll_ends(5,6) [OF assms] assms
  by (auto simp: list_pop_back_def list_back_def)

lemma list_push_dll:
  assumes "dll h l xs" "e \<noteq> 0" "e \<notin> set (cells l xs)"
  shows "\<exists>h'. list_push_front l e h = Some h' \<and> dll h' l (e # xs) \<and> agree_off (insert e (set (cells l xs))) h h'"
    and "\<exists>h'. list_push_back l e h = Some h' \<and> dll h' l (xs @ [e]) \<and> agree_off (insert e (set (cells l xs))) h h'"
  using list_insert_dll [of h l "[]" xs e] list_insert_dll [of h l xs "[]" e] assms dll_ends(1) [OF assms(1)]
  by (simp_all add: list_push_front_def list_push_back_def list_end_def)

lemma list_init_dll:
  assumes "lhead l \<noteq> 0" "ltail l \<noteq> 0" "lhead l \<noteq> ltail l"
  shows "dll (list_init l h) l []"
  using assms by (simp add: dll_def cells_def list_init_def)

lemma pop_empty:
  assumes "dll h l []"
  shows "list_pop_front l h = None" "list_pop_back l h = None"
  using dll_ends(5) [OF assms] by (simp_all add: list_pop_front_def list_pop_back_def list_front_def list_back_def)

section \<open>Sorted runs\<close>

fun srt :: "('a \<Rightarrow> 'a \<Rightarrow> bool) \<Rightarrow> 'a list \<Rightarrow> bool" where
  "srt ls [] = True"
| "srt ls [x] = True"
| "srt ls (x # y # zs) = (\<not> ls y x \<and> srt ls (y # zs))"

fun nruns :: "('a \<Rightarrow> 'a \<Rightarrow> bool) \<Rightarrow> 'a list \<Rightarrow> nat" where
  "nruns ls [] = 0"
| "nruns ls [x] = 1"
| "nruns ls (x # y # zs) = nruns ls (y # zs) + (if ls y x then 1 else 0)"

fun mrg :: "('a \<Rightarrow> 'a \<Rightarrow> bool) \<Rightarrow> 'a list \<Rightarrow> 'a list \<Rightarrow> 'a list" where
  "mrg ls [] bs = bs"
| "mrg ls as [] = as"
| "mrg ls (a # as) (b # bs) = (if \<not> ls b a then a # mrg ls as (b # bs) else b # mrg ls (a # as) bs)"

lemma nruns_pos: "xs \<noteq> [] \<Longrightarrow> 0 < nruns ls xs"
  by (induction ls xs rule: nruns.induct) auto

lemma nruns_le1: "nruns ls xs \<le> 1 \<longleftrightarrow> srt ls xs"
proof (induction ls xs rule: nruns.induct)
  case (3 ls x y zs)
  then show ?case using nruns_pos [of "y # zs" ls] by auto
qed auto

lemma nruns_append: "nruns ls (xs @ ys) \<le> nruns ls xs + nruns ls ys"
proof (induction ls xs rule: nruns.induct)
  case (2 ls x)
  then show ?case by (cases ys) auto
qed auto

lemma nruns_concat: "\<forall>s\<in>set ss. srt ls s \<Longrightarrow> nruns ls (concat ss) \<le> length ss"
proof (induction ss)
  case (Cons s ss)
  then show ?case using nruns_append [of ls s "concat ss"] nruns_le1 [of ls s] by auto
qed simp

lemma nruns_run:
  "srt ls (e # r) \<Longrightarrow> rest = [] \<or> ls (hd rest) (last (e # r)) \<Longrightarrow>
   nruns ls (e # r @ rest) = 1 + nruns ls rest"
proof (induction r arbitrary: e)
  case Nil
  then show ?case by (cases rest) auto
qed auto

lemma srt_run: "srt ls (xs @ [a]) \<Longrightarrow> \<not> ls b a \<Longrightarrow> srt ls (xs @ [a, b])"
  by (induction ls xs rule: srt.induct) auto

lemma mset_mrg [simp]: "mset (mrg ls as bs) = mset as + mset bs"
  by (induction ls as bs rule: mrg.induct) auto

lemma mrg_Nil2 [simp]: "mrg ls as [] = as"
  by (cases as) auto

lemma is_sorted_loop_dll:
  "dll h l (as @ e # bs @ cs) \<Longrightarrow> is_sorted_loop ls h e (nd l cs) = Some (srt ls (e # bs))"
proof (induction bs arbitrary: as e)
  case Nil
  then show ?case using dll_node(6) [OF Nil] by (subst is_sorted_loop.simps) simp
next
  case (Cons b bs)
  have d: "dll h l ((as @ [e]) @ b # (bs @ cs))" using Cons.prems by simp
  have "b \<noteq> nd l cs" using d by (cases cs) (auto simp: dll_def cells_def)
  then show ?case
    using Cons.IH [of "as @ [e]" b] d dll_node(6) [OF Cons.prems] dll_node(7) [OF d]
    by (subst is_sorted_loop.simps) simp
qed

lemma is_sorted_dll:
  assumes "dll h l (as @ bs @ cs)"
  shows "is_sorted ls h (nd l (bs @ cs)) (nd l cs) = Some (srt ls bs)"
proof (cases bs)
  case (Cons b bs')
  then have "b \<noteq> nd l cs" using assms by (cases cs) (auto simp: dll_def cells_def)
  then show ?thesis using is_sorted_loop_dll [of h l as b bs' cs ls] assms Cons by (simp add: is_sorted_def)
qed (simp add: is_sorted_def)

lemma run_loop_dll:
  "dll h l (as @ e # bs) \<Longrightarrow> \<exists>r rest. bs = r @ rest \<and> srt ls (e # r) \<and>
     (rest = [] \<or> ls (hd rest) (last (e # r))) \<and> run_loop ls h e (ltail l) = Some (nd l rest)"
proof (induction bs arbitrary: as e)
  case Nil
  then show ?case using dll_node(6) [OF Nil] by (subst run_loop.simps) simp
next
  case (Cons b bs)
  have d: "dll h l ((as @ [e]) @ b # bs)" using Cons.prems by simp
  note n = dll_node(6) [OF Cons.prems] dll_node(4,7) [OF d]
  show ?case
  proof (cases "ls b e")
    case True
    then show ?thesis using n by (subst run_loop.simps) (intro exI [of _ "[]"] exI [of _ "b # bs"], simp)
  next
    case False
    obtain r rest where r: "bs = r @ rest" "srt ls (b # r)" "rest = [] \<or> ls (hd rest) (last (b # r))"
        "run_loop ls h b (ltail l) = Some (nd l rest)"
      using Cons.IH [OF d] by blast
    then show ?thesis using n False
      by (subst run_loop.simps) (intro exI [of _ "b # r"] exI [of _ rest], simp)
  qed
qed

lemma merge_loop_dll:
  "dll h l (U @ A @ B @ V) \<Longrightarrow> \<exists>h'. merge_loop ls (nd l (A @ B @ V)) (nd l (B @ V)) (nd l V) h = Some h' \<and>
     dll h' l (U @ mrg ls A B @ V) \<and> agree_off (set (cells l (U @ A @ B @ V))) h h'"
proof (induction ls A B arbitrary: U h rule: mrg.induct)
  case (1 ls bs)
  then show ?case by (subst merge_loop.simps) simp
next
  case (2 ls a as)
  then show ?case by (subst merge_loop.simps) simp
next
  case (3 ls a as b bs)
  have da: "dll h l (U @ a # (as @ (b # bs) @ V))" and db: "dll h l ((U @ a # as) @ b # (bs @ V))"
    using "3.prems" by simp_all
  have ne: "a \<noteq> b" "b \<noteq> nd l V" using "3.prems" by (cases V; auto simp: dll_def cells_def)+
  show ?case
  proof (cases "ls b a")
    case False
    have "dll h l ((U @ [a]) @ as @ (b # bs) @ V)" using "3.prems" by simp
    from "3.IH"(1) [OF _ this] False show ?thesis
      using ne dll_node(6) [OF da] by (subst merge_loop.simps) simp
  next
    case True
    have sp: "dll h l (U @ (a # as) @ [b] @ (bs @ V))" using "3.prems" by simp
    obtain h1 where h1: "list_splice a b (nd l (bs @ V)) h = Some h1"
        "dll h1 l (U @ [b] @ (a # as) @ (bs @ V))" "agree_off (set (cells l (U @ (a # as) @ [b] @ (bs @ V)))) h h1"
      using list_splice_dll [OF sp] by auto
    have d1: "dll h1 l ((U @ [b]) @ (a # as) @ bs @ V)" using h1(2) by simp
    have "list_prev h (nd l (bs @ V)) = Some b"
      using dll_position(5) [of h l "(U @ a # as) @ [b]" "bs @ V"] "3.prems" by simp
    moreover obtain h2 where "merge_loop ls (nd l ((a # as) @ bs @ V)) (nd l (bs @ V)) (nd l V) h1 = Some h2"
        "dll h2 l ((U @ [b]) @ mrg ls (a # as) bs @ V)"
        "agree_off (set (cells l ((U @ [b]) @ (a # as) @ bs @ V))) h1 h2"
      using "3.IH"(2) [OF _ d1] True by auto
    moreover have "set (cells l ((U @ [b]) @ (a # as) @ bs @ V)) = set (cells l (U @ (a # as) @ [b] @ (bs @ V)))"
      by (auto simp: cells_def)
    ultimately show ?thesis
      using ne True dll_node(6) [OF db] h1 agree_off_trans [of _ h h1 h2]
      by (subst merge_loop.simps) simp
  qed
qed

section \<open>The contract of a comparison callback\<close>

definition equiv_class :: "('a \<Rightarrow> 'a \<Rightarrow> bool) \<Rightarrow> 'a \<Rightarrow> 'a list \<Rightarrow> 'a list" where
  "equiv_class ls x xs = filter (\<lambda>y. \<not> ls x y \<and> \<not> ls y x) xs"

locale less_func =
  fixes ls :: "'a \<Rightarrow> 'a \<Rightarrow> bool"
  assumes asym: "ls a b \<Longrightarrow> \<not> ls b a"
    and neg_trans: "ls a c \<Longrightarrow> ls a b \<or> ls b c"
begin

lemma irrefl: "\<not> ls a a"
  using asym by blast

lemma ls_trans: "ls a b \<Longrightarrow> ls b c \<Longrightarrow> ls a c"
  using asym neg_trans by blast

lemma srt_Cons: "srt ls (x # xs) \<longleftrightarrow> srt ls xs \<and> (\<forall>y\<in>set xs. \<not> ls y x)"
proof (induction xs arbitrary: x)
  case (Cons y ys)
  then show ?case using neg_trans [of _ x y] by auto
qed simp

lemma srt_app: "srt ls (xs @ ys) \<longleftrightarrow> srt ls xs \<and> srt ls ys \<and> (\<forall>x\<in>set xs. \<forall>y\<in>set ys. \<not> ls y x)"
proof (induction xs)
  case (Cons a xs)
  then show ?case by (auto simp: srt_Cons)
qed simp

lemma set_mrg: "set (mrg ls A B) = set A \<union> set B"
  by (metis mset_mrg set_mset_mset set_mset_union)

lemma srt_mrg: "srt ls A \<Longrightarrow> srt ls B \<Longrightarrow> srt ls (mrg ls A B)"
proof (induction "length A + length B" arbitrary: A B rule: less_induct)
  case less
  show ?case
  proof (cases A)
    case (Cons a as)
    note A = this
    show ?thesis
    proof (cases B)
      case (Cons b bs)
      have "\<not> ls b a \<Longrightarrow> \<forall>y\<in>set (b # bs). \<not> ls y a"
        using less.prems(2) neg_trans [of _ a b] by (auto simp: srt_Cons Cons)
      moreover have "ls b a \<Longrightarrow> \<forall>y\<in>set (a # as). \<not> ls y b"
        using less.prems(1) asym [of b a] neg_trans [of _ b a] by (auto simp: srt_Cons A)
      ultimately show ?thesis
        using less.hyps [of as B] less.hyps [of A bs] less.prems
        by (auto simp: A Cons srt_Cons set_mrg)
    qed (use less.prems in simp)
  qed (use less.prems in simp)
qed

lemma equiv_mrg: "srt ls A \<Longrightarrow> equiv_class ls x (mrg ls A B) = equiv_class ls x A @ equiv_class ls x B"
proof (induction "length A + length B" arbitrary: A B rule: less_induct)
  case less
  show ?case
  proof (cases A)
    case (Cons a as)
    note A = this
    show ?thesis
    proof (cases B)
      case (Cons b bs)
      show ?thesis
      proof (cases "ls b a")
        case False
        then show ?thesis using less.hyps [of as B] less.prems
          by (simp add: A Cons srt_Cons equiv_class_def)
      next
        case True
        have "equiv_class ls x A = []" if "\<not> ls x b" "\<not> ls b x"
        proof -
          have "\<forall>y\<in>set A. ls x y"
          proof
            fix y assume "y \<in> set A"
            then have "\<not> ls y a" using less.prems irrefl by (auto simp: A srt_Cons)
            then have "ls b y" using True neg_trans by blast
            then show "ls x y" using that neg_trans by blast
          qed
          then show ?thesis by (simp add: equiv_class_def filter_empty_conv)
        qed
        then show ?thesis using less.hyps [of A bs] less.prems True
          by (auto simp: A Cons equiv_class_def)
      qed
    qed (simp add: equiv_class_def)
  qed (simp add: equiv_class_def)
qed

end

lemma cells_mset: "mset Y = mset X \<Longrightarrow> set (cells l Y) = set (cells l X)"
  using mset_eq_setD [of Y X] by (auto simp: cells_def)

lemma sort_pass_dll:
  assumes "less_func ls"
  shows "dll h l (U @ X) \<Longrightarrow> \<exists>h' k Y ss. sort_pass ls l (nd l X) cnt h = Some (cnt + k, h') \<and>
     dll h' l (U @ Y) \<and> mset Y = mset X \<and> (\<forall>x. equiv_class ls x Y = equiv_class ls x X) \<and>
     Y = concat ss \<and> length ss = k \<and> (\<forall>s\<in>set ss. srt ls s) \<and> 2 * k \<le> nruns ls X + 1 \<and>
     agree_off (set (cells l (U @ X))) h h'"
proof (induction X arbitrary: U h cnt rule: length_induct)
  case (1 X)
  show ?case
  proof (cases X)
    case Nil
    then show ?thesis using "1.prems"
      by (subst sort_pass.simps) (auto simp: list_end_def intro!: exI [of _ "[]"])
  next
    case (Cons a xs)
    have da: "dll h l (U @ a # xs)" using "1.prems" Cons by simp
    have tail: "ltail l \<noteq> 0" using da by (simp add: dll_def cells_def)
    obtain r rest where r: "xs = r @ rest" "srt ls (a # r)" "rest = [] \<or> ls (hd rest) (last (a # r))"
        "run_loop ls h a (ltail l) = Some (nd l rest)"
      using run_loop_dll [OF da] by blast
    have f1: "find_end_of_run ls h a (list_end l) = Some (nd l rest)"
      using r(4) dll_node(4,5) [OF da] tail by (simp add: find_end_of_run_def list_end_def)
    have n1: "nruns ls X = 1 + nruns ls rest" using nruns_run [OF r(2,3)] by (simp add: Cons r(1))
    show ?thesis
    proof (cases rest)
      case Nil
      have "srt ls X" using r Nil Cons by simp
      then show ?thesis
        using "1.prems" f1 Nil Cons dll_node(4) [OF da] n1
        by (subst sort_pass.simps) (auto simp: list_end_def intro!: exI [of _ "[X]"])
    next
      case (Cons b ys)
      note rest = this
      have X: "X = a # r @ b # ys" using r(1) rest \<open>X = a # xs\<close> by simp
      have db: "dll h l ((U @ a # r) @ b # ys)" using "1.prems" X by simp
      obtain q V where q: "ys = q @ V" "srt ls (b # q)" "V = [] \<or> ls (hd V) (last (b # q))"
          "run_loop ls h b (ltail l) = Some (nd l V)"
        using run_loop_dll [OF db] by blast
      have f2: "find_end_of_run ls h b (list_end l) = Some (nd l V)"
        using q(4) dll_node(4,5) [OF db] tail by (simp add: find_end_of_run_def list_end_def)
      have n2: "nruns ls rest = 1 + nruns ls V" using nruns_run [OF q(2,3)] by (simp add: rest q(1))
      let ?A = "a # r" and ?B = "b # q"
      have dab: "dll h l (U @ ?A @ ?B @ V)" using "1.prems" X q(1) by simp
      obtain h1 where h1: "merge_loop ls a b (nd l V) h = Some h1" "dll h1 l (U @ mrg ls ?A ?B @ V)"
          "agree_off (set (cells l (U @ ?A @ ?B @ V))) h h1"
        using merge_loop_dll [OF dab, of ls] by auto
      have s: "is_sorted ls h a b = Some True" "is_sorted ls h b (nd l V) = Some True"
        using is_sorted_dll [OF dab, of ls] is_sorted_dll [of h l "U @ ?A" ?B V ls] dab r(2) q(2) by simp_all
      have m: "inplace_merge ls a b (nd l V) h = Some h1"
        using s h1(1) dll_node(5) [OF da] dll_node(5) [OF db] dll_position(4) [of h l "U @ ?A @ ?B" V] dab
        by (simp add: inplace_merge_def)
      have len: "length V < length X" by (simp add: X q(1))
      obtain h' k Y ss where Y: "sort_pass ls l (nd l V) (cnt + 1) h1 = Some (cnt + 1 + k, h')"
          "dll h' l ((U @ mrg ls ?A ?B) @ Y)" "mset Y = mset V" "\<forall>x. equiv_class ls x Y = equiv_class ls x V"
          "Y = concat ss" "length ss = k" "\<forall>s\<in>set ss. srt ls s" "2 * k \<le> nruns ls V + 1"
          "agree_off (set (cells l ((U @ mrg ls ?A ?B) @ V))) h1 h'"
        using "1.IH" len h1(2) by (metis append.assoc)
      have pass: "sort_pass ls l (nd l X) cnt h = Some (cnt + Suc k, h')"
        using f1 f2 m Y(1) rest X dll_node(4) [OF da] dll_node(4) [OF db]
        by (subst sort_pass.simps) (simp add: list_end_def)
      have cs: "set (cells l ((U @ mrg ls ?A ?B) @ V)) = set (cells l (U @ X))"
        by (rule cells_mset) (simp add: X q(1))
      have "agree_off (set (cells l (U @ X))) h h'"
        using agree_off_trans [of "set (cells l (U @ X))" h h1 h'] h1(3) Y(9) cs X q(1) by simp
      moreover have "equiv_class ls x (mrg ls ?A ?B @ Y) = equiv_class ls x X" for x
        using less_func.equiv_mrg [OF assms r(2), of x ?B] Y(4) by (simp add: equiv_class_def X q(1))
      moreover have "mset (mrg ls ?A ?B @ Y) = mset X" using Y(3) by (simp add: X q(1))
      moreover have "\<forall>s\<in>set (mrg ls ?A ?B # ss). srt ls s"
        using Y(7) less_func.srt_mrg [OF assms r(2) q(2)] by simp
      moreover have "2 * Suc k \<le> nruns ls X + 1" using n1 n2 Y(8) by simp
      moreover have "dll h' l (U @ mrg ls ?A ?B @ Y)" using Y(2) by simp
      ultimately show ?thesis
        using pass Y(5,6)
        by (intro exI [of _ h'] exI [of _ "Suc k"] exI [of _ "mrg ls ?A ?B @ Y"] exI [of _ "mrg ls ?A ?B # ss"])
          (auto simp del: mrg.simps)
    qed
  qed
qed

lemma sort_loop_dll:
  assumes "less_func ls"
  shows "dll h l X \<Longrightarrow> \<exists>h' Y. sort_loop ls l h = Some h' \<and> dll h' l Y \<and> mset Y = mset X \<and>
     (\<forall>x. equiv_class ls x Y = equiv_class ls x X) \<and> srt ls Y \<and> agree_off (set (cells l X)) h h'"
proof (induction "nruns ls X" arbitrary: X h rule: less_induct)
  case less
  have "dll h l ([] @ X)" using less.prems by simp
  from sort_pass_dll [OF assms this, of 0] obtain h1 k Y ss where Y:
      "sort_pass ls l (nd l X) 0 h = Some (k, h1)" "dll h1 l Y" "mset Y = mset X"
      "\<forall>x. equiv_class ls x Y = equiv_class ls x X" "Y = concat ss" "length ss = k"
      "\<forall>s\<in>set ss. srt ls s" "2 * k \<le> nruns ls X + 1" "agree_off (set (cells l X)) h h1"
    by auto
  have nr: "nruns ls Y \<le> k" using nruns_concat [OF Y(7)] Y(5,6) by simp
  have b: "list_begin h l = nd l X" by (rule dll_ends(1) [OF less.prems])
  show ?case
  proof (cases "k > 1")
    case False
    then have "srt ls Y" using nr nruns_le1 [of ls Y] by simp
    then show ?thesis using Y False b
      by (subst sort_loop.simps) (auto intro!: exI [of _ h1] exI [of _ Y])
  next
    case True
    then have "nruns ls Y < nruns ls X" using nr Y(8) by simp
    from less.hyps [OF this Y(2)] obtain h2 Z where
      "sort_loop ls l h1 = Some h2" "dll h2 l Z" "mset Z = mset Y"
      "\<forall>x. equiv_class ls x Z = equiv_class ls x Y" "srt ls Z" "agree_off (set (cells l Y)) h1 h2"
      by blast
    moreover have "set (cells l Y) = set (cells l X)" by (rule cells_mset [OF Y(3)])
    ultimately show ?thesis using Y True b agree_off_trans [of "set (cells l X)" h h1 h2]
      by (subst sort_loop.simps) (auto intro!: exI [of _ h2] exI [of _ Z])
  qed
qed

lemma list_sort_dll:
  assumes "less_func ls" "dll h l X"
  shows "\<exists>h' Y. list_sort ls l h = Some h' \<and> dll h' l Y \<and> mset Y = mset X \<and>
     (\<forall>x. equiv_class ls x Y = equiv_class ls x X) \<and> srt ls Y \<and> agree_off (set (cells l X)) h h'"
proof -
  obtain h' Y where h': "sort_loop ls l h = Some h'" "dll h' l Y" "mset Y = mset X"
      "\<forall>x. equiv_class ls x Y = equiv_class ls x X" "srt ls Y" "agree_off (set (cells l X)) h h'"
    using sort_loop_dll [OF assms] by blast
  have "is_sorted ls h' (nd l Y) (ltail l) = Some True"
    using is_sorted_dll [of h' l "[]" Y "[]" ls] h'(2,5) by simp
  with h' show ?thesis using dll_ends(1) [OF h'(2)] by (auto simp: list_sort_def list_end_def)
qed

section \<open>Reversal\<close>

definition swapped :: "nat set \<Rightarrow> heap \<Rightarrow> heap" where
  "swapped S h = \<lparr>nx = (\<lambda>x. if x \<in> S then pv h x else nx h x), pv = (\<lambda>x. if x \<in> S then nx h x else pv h x)\<rparr>"

lemma swap_links_swapped: "x \<notin> S \<Longrightarrow> swap_links x (swapped S h) = swapped (insert x S) h"
  by (auto simp: swap_links_def swapped_def set_nx_def set_pv_def fun_eq_iff)

lemma swapped_empty [simp]: "swapped {} h = h"
  by (cases h) (simp add: swapped_def)

lemma reverse_loop_dll:
  "dll h l (as @ bs) \<Longrightarrow> reverse_loop l (nd l bs) (swapped (set as) h) = Some (swapped (set (as @ bs)) h)"
proof (induction bs arbitrary: as)
  case Nil
  then show ?case by (subst reverse_loop.simps) (simp add: list_end_def)
next
  case (Cons b bs)
  have d: "dll h l ((as @ [b]) @ bs)" using Cons.prems by simp
  have "b \<notin> set as" using Cons.prems by (auto simp: dll_def cells_def)
  then have s: "swap_links b (swapped (set as) h) = swapped (set (as @ [b])) h"
    by (simp add: swap_links_swapped)
  have "pv (swapped (set (as @ [b])) h) b = nd l bs"
    using dll_node(2) [OF Cons.prems] by (simp add: swapped_def)
  then show ?case
    using Cons.IH [OF d] dll_node(4) [OF Cons.prems]
    by (subst reverse_loop.simps) (simp add: list_end_def s Let_def)
qed

lemma linked_rev:
  "linked h X \<Longrightarrow> distinct X \<Longrightarrow> (\<And>x. x \<in> set X \<Longrightarrow> x \<noteq> hd X \<Longrightarrow> nx h' x = pv h x) \<Longrightarrow>
   (\<And>x. x \<in> set X \<Longrightarrow> x \<noteq> last X \<Longrightarrow> pv h' x = nx h x) \<Longrightarrow> linked h' (rev X)"
proof (induction h X rule: linked.induct)
  case (3 h a b cs)
  have ab: "a \<noteq> b" "a \<notin> set (b # cs)" "distinct (b # cs)" using "3.prems"(2) by auto
  have "linked h' (rev (b # cs))"
  proof (rule "3.IH")
    show "nx h' x = pv h x" if "x \<in> set (b # cs)" "x \<noteq> hd (b # cs)" for x
      using "3.prems"(3) [of x] that ab by auto
    show "pv h' x = nx h x" if "x \<in> set (b # cs)" "x \<noteq> last (b # cs)" for x
      using "3.prems"(4) [of x] that ab by auto
  qed (use "3.prems" ab in simp_all)
  moreover have "nx h' b = a" using "3.prems"(1) "3.prems"(3) [of b] ab by simp
  moreover have "pv h' a = b"
  proof -
    have "last (b # cs) \<in> set (b # cs)" by (rule last_in_set) simp
    then have "a \<noteq> last (b # cs)" using ab(2) by metis
    then show ?thesis using "3.prems"(1) "3.prems"(4) [of a] by simp
  qed
  ultimately show ?case using linked_join [of "rev (b # cs)" "[a]" h'] by simp
qed auto

lemma list_reverse_dll:
  assumes "dll h l xs"
  shows "\<exists>h'. list_reverse l h = Some h' \<and> dll h' l (rev xs) \<and> agree_off (set (cells l xs)) h h'"
proof (cases "xs = []")
  case True
  then show ?thesis using assms dll_ends(5) [OF assms] by (simp add: list_reverse_def)
next
  case False
  let ?H = "lhead l" and ?T = "ltail l" and ?f = "hd xs" and ?z = "last xs"
  note e = dll_ends [OF assms]
  have fz: "?f \<in> set xs" "?z \<in> set xs" using False by simp_all
  have d: "distinct xs" "?H \<notin> set xs" "?T \<notin> set xs" "?H \<noteq> ?T" "0 \<notin> set (cells l xs)"
    using assms by (auto simp: dll_def cells_def)
  define h1 where "h1 = swapped (set xs) h"
  have loop: "reverse_loop l (list_begin h l) h = Some h1"
    using reverse_loop_dll [of h l "[]" xs] assms e(1) by (simp add: h1_def)
  have k: "linked h ([?H] @ xs @ [?T])" using assms by (simp add: dll_def cells_def)
  then have lx: "linked h xs" "nx h ?z = ?T" "pv h ?f = ?H"
    using linked_join [of "[?H]" "xs @ [?T]" h] linked_join [of xs "[?T]" h] False by simp_all
  have ends: "nx h ?H = ?f" "pv h ?T = ?z" using e(7,6) False by (cases xs; simp)+
  define h' where "h' = set_nx ?f ?T (set_pv ?z ?H (set_pv ?T ?f (set_nx ?H ?z h1)))"
  have h1v: "nx h1 x = (if x \<in> set xs then pv h x else nx h x)" "pv h1 x = (if x \<in> set xs then nx h x else pv h x)" for x
    by (simp_all add: h1_def swapped_def)
  have ne: "?f \<noteq> ?H" "?f \<noteq> ?T" "?z \<noteq> ?H" "?z \<noteq> ?T" using fz d by metis+
  have at: "nx h1 ?H = ?f" "pv h1 ?T = ?z" "pv h1 ?z = ?T" "nx h1 ?f = ?H"
    using fz d ends lx by (simp_all add: h1v)
  have op: "list_reverse l h = Some h'"
    using loop e(5) False ne d(4) by (simp add: list_reverse_def Let_def h'_def at)
  have nxv: "nx h' x = (if x = ?f then ?T else if x = ?H then ?z else if x \<in> set xs then pv h x else nx h x)"
    and pvv: "pv h' x = (if x = ?z then ?H else if x = ?T then ?f else if x \<in> set xs then nx h x else pv h x)" for x
    by (simp_all add: h'_def h1v)
  have "linked h' (rev xs)"
    by (rule linked_rev [OF lx(1) d(1)]) (use d fz in \<open>auto simp: nxv pvv\<close>)
  moreover have "nx h' ?H = ?z" "pv h' ?z = ?H" "nx h' ?f = ?T" "pv h' ?T = ?f"
    using fz d by (auto simp: nxv pvv)
  ultimately have "linked h' ([?H] @ rev xs @ [?T])"
    using linked_join [of "[?H]" "rev xs @ [?T]" h'] linked_join [of "rev xs" "[?T]" h'] False
    by (simp add: hd_rev last_rev)
  moreover have "pv h' ?H = 0" "nx h' ?T = 0" using assms fz d by (auto simp: nxv pvv dll_def)
  ultimately have "dll h' l (rev xs)" using d assms by (simp add: dll_def cells_def)
  moreover have "agree_off (set (cells l xs)) h h'" using fz by (auto simp: agree_off_def cells_def nxv pvv)
  ultimately show ?thesis using op by blast
qed

section \<open>Ordered insertion, duplicates, extrema\<close>

lemma ordered_loop_dll:
  "dll h l (as @ bs) \<Longrightarrow>
   ordered_loop ls h l e (nd l bs) = Some (nd l (dropWhile (\<lambda>x. \<not> ls e x) bs))"
proof (induction bs arbitrary: as)
  case Nil
  then show ?case by (subst ordered_loop.simps) (simp add: list_end_def)
next
  case (Cons b bs)
  have d: "dll h l ((as @ [b]) @ bs)" using Cons.prems by simp
  show ?case
    using Cons.IH [OF d] dll_node(4,6) [OF Cons.prems] by (subst ordered_loop.simps) (simp add: list_end_def)
qed

lemma list_insert_ordered_dll:
  assumes "dll h l xs" "e \<noteq> 0" "e \<notin> set (cells l xs)"
  shows "\<exists>h'. list_insert_ordered ls l e h = Some h' \<and>
    dll h' l (takeWhile (\<lambda>x. \<not> ls e x) xs @ e # dropWhile (\<lambda>x. \<not> ls e x) xs) \<and>
    agree_off (insert e (set (cells l xs))) h h'"
proof -
  have d: "dll h l (takeWhile (\<lambda>x. \<not> ls e x) xs @ dropWhile (\<lambda>x. \<not> ls e x) xs)" using assms(1) by simp
  show ?thesis
    using list_insert_dll [OF d assms(2)] assms ordered_loop_dll [of h l "[]" xs ls e] dll_ends(1) [OF assms(1)]
    by (simp add: list_insert_ordered_def)
qed

lemma srt_insert_ordered:
  assumes "less_func ls" "srt ls xs"
  shows "srt ls (takeWhile (\<lambda>x. \<not> ls e x) xs @ e # dropWhile (\<lambda>x. \<not> ls e x) xs)"
proof -
  let ?A = "takeWhile (\<lambda>x. \<not> ls e x) xs" and ?B = "dropWhile (\<lambda>x. \<not> ls e x) xs"
  note app = less_func.srt_app [OF assms(1)] and cons = less_func.srt_Cons [OF assms(1)]
  have s: "srt ls (?A @ ?B)" using assms(2) by simp
  have "\<forall>x\<in>set ?A. \<not> ls e x" by (auto dest: set_takeWhileD)
  moreover have "\<forall>y\<in>set ?B. \<not> ls y e"
  proof (cases ?B)
    case (Cons b B)
    then have "ls e b" by (metis hd_dropWhile list.distinct(1) list.sel(1))
    show ?thesis
    proof
      fix y assume "y \<in> set ?B"
      then have "y = b \<or> \<not> ls y b" using s Cons by (auto simp: app cons)
      then show "\<not> ls y e"
        using \<open>ls e b\<close> less_func.asym [OF assms(1), of e b] less_func.ls_trans [OF assms(1), of y e b] by blast
    qed
  next
    case Nil
    then show ?thesis by (simp only: list.set ball_empty)
  qed
  moreover have "srt ls ?A" "srt ls ?B" "\<forall>x\<in>set ?A. \<forall>y\<in>set ?B. \<not> ls y x" using s unfolding app by blast+
  ultimately show ?thesis unfolding app cons list.set by blast
qed

fun uniq :: "(nat \<Rightarrow> nat \<Rightarrow> bool) \<Rightarrow> nat \<Rightarrow> nat list \<Rightarrow> nat list" where
  "uniq ls e [] = [e]"
| "uniq ls e (x # xs) = (if \<not> ls e x \<and> \<not> ls x e then uniq ls e xs else e # uniq ls x xs)"

fun dups :: "(nat \<Rightarrow> nat \<Rightarrow> bool) \<Rightarrow> nat \<Rightarrow> nat list \<Rightarrow> nat list" where
  "dups ls e [] = []"
| "dups ls e (x # xs) = (if \<not> ls e x \<and> \<not> ls x e then x # dups ls e xs else dups ls x xs)"

lemma unique_loop_dll:
  "dll h l (as @ e # bs) \<Longrightarrow> dll h d ds \<Longrightarrow> set (cells l (as @ e # bs)) \<inter> set (cells d ds) = {} \<Longrightarrow>
   \<exists>h'. unique_loop ls l (Some d) e h = Some h' \<and> dll h' l (as @ uniq ls e bs) \<and> dll h' d (ds @ dups ls e bs)"
proof (induction bs arbitrary: as e h ds)
  case Nil
  then show ?case using dll_node(6) [OF Nil(1)] by (subst unique_loop.simps) (auto simp: list_end_def)
next
  case (Cons b bs)
  have db: "dll h l ((as @ [e]) @ b # bs)" using Cons.prems(1) by simp
  note n = dll_node(6) [OF Cons.prems(1)] dll_node(4,5) [OF db]
  show ?case
  proof (cases "\<not> ls e b \<and> \<not> ls b e")
    case True
    obtain h1 where h1: "list_remove b h = Some (nd l bs, h1)" "dll h1 l ((as @ [e]) @ bs)"
        "agree_off (set (cells l ((as @ [e]) @ b # bs))) h h1"
      using list_remove_dll [OF db] by blast
    have d1: "dll h1 d ds" by (rule dll_frame [OF Cons.prems(2) h1(3)]) (use Cons.prems(3) in simp)
    have bd: "b \<notin> set (cells d ds)" using Cons.prems(3) by (auto simp: cells_def)
    obtain h2 where h2: "list_push_back d b h1 = Some h2" "dll h2 d (ds @ [b])"
        "agree_off (insert b (set (cells d ds))) h1 h2"
      using list_push_dll(2) [OF d1 n(3) bd] by blast
    have dis: "insert b (set (cells d ds)) \<inter> set (cells l ((as @ [e]) @ bs)) = {}"
      using Cons.prems(3) db by (auto simp: cells_def dll_def)
    have l2: "dll h2 l (as @ e # bs)" using dll_frame [OF h1(2) h2(3) dis] by simp
    have "set (cells l (as @ e # bs)) \<inter> set (cells d (ds @ [b])) = {}"
      using Cons.prems(3) db by (auto simp: cells_def dll_def)
    from Cons.IH [OF l2 h2(2) this] obtain h3 where
      "unique_loop ls l (Some d) e h2 = Some h3" "dll h3 l (as @ uniq ls e bs)"
      "dll h3 d ((ds @ [b]) @ dups ls e bs)" by blast
    then show ?thesis using n h1(1) h2(1) True
      by (subst unique_loop.simps) (simp add: list_end_def)
  next
    case False
    have "set (cells l ((as @ [e]) @ b # bs)) \<inter> set (cells d ds) = {}" using Cons.prems(3) by simp
    from Cons.IH [OF db Cons.prems(2) this] obtain h3 where
      "unique_loop ls l (Some d) b h = Some h3" "dll h3 l ((as @ [e]) @ uniq ls b bs)"
      "dll h3 d (ds @ dups ls b bs)" by blast
    then show ?thesis using n False by (subst unique_loop.simps) (auto simp: list_end_def)
  qed
qed

lemma max_loop_dll:
  "dll h l (as @ bs) \<Longrightarrow>
   max_loop ls h l m (nd l bs) = Some (foldl (\<lambda>m e. if ls m e then e else m) m bs)"
proof (induction bs arbitrary: as m)
  case Nil
  then show ?case by (subst max_loop.simps) (simp add: list_end_def)
next
  case (Cons b bs)
  have d: "dll h l ((as @ [b]) @ bs)" using Cons.prems by simp
  show ?case
    using Cons.IH [OF d] dll_node(4,6) [OF Cons.prems] by (subst max_loop.simps) (simp add: list_end_def)
qed

lemma min_loop_dll:
  "dll h l (as @ bs) \<Longrightarrow>
   min_loop ls h l m (nd l bs) = Some (foldl (\<lambda>m e. if ls e m then e else m) m bs)"
proof (induction bs arbitrary: as m)
  case Nil
  then show ?case by (subst min_loop.simps) (simp add: list_end_def)
next
  case (Cons b bs)
  have d: "dll h l ((as @ [b]) @ bs)" using Cons.prems by simp
  show ?case
    using Cons.IH [OF d] dll_node(4,6) [OF Cons.prems] by (subst min_loop.simps) (simp add: list_end_def)
qed

lemma list_extrema_dll:
  assumes "dll h l (x # xs)"
  shows "list_max ls h l = Some (foldl (\<lambda>m e. if ls m e then e else m) x xs)"
    and "list_min ls h l = Some (foldl (\<lambda>m e. if ls e m then e else m) x xs)"
proof -
  have d: "dll h l ([] @ x # xs)" "dll h l ([x] @ xs)" using assms by simp_all
  show "list_max ls h l = Some (foldl (\<lambda>m e. if ls m e then e else m) x xs)"
    "list_min ls h l = Some (foldl (\<lambda>m e. if ls e m then e else m) x xs)"
    using dll_ends(1) [OF assms] dll_node(4,6) [OF d(1)] max_loop_dll [OF d(2)] min_loop_dll [OF d(2)]
    by (simp_all add: list_max_def list_min_def Let_def list_end_def)
qed

lemma foldl_max:
  assumes "less_func ls"
  shows "foldl (\<lambda>m e. if ls m e then e else m) x xs \<in> set (x # xs) \<and>
    (\<forall>y\<in>set (x # xs). \<not> ls (foldl (\<lambda>m e. if ls m e then e else m) x xs) y)"
proof (induction xs rule: rev_induct)
  case Nil
  then show ?case using less_func.irrefl [OF assms] by simp
next
  case (snoc y xs)
  let ?m = "foldl (\<lambda>m e. if ls m e then e else m) x xs"
  have "\<not> ls y z" if "ls ?m y" "z \<in> set (x # xs)" for z
    using snoc that less_func.neg_trans [OF assms, of y z ?m] less_func.asym [OF assms, of ?m y]
      less_func.ls_trans [OF assms, of ?m y z] by blast
  then show ?case using snoc less_func.irrefl [OF assms] by auto
qed

lemma foldl_min:
  assumes "less_func ls"
  shows "foldl (\<lambda>m e. if ls e m then e else m) x xs \<in> set (x # xs) \<and>
    (\<forall>y\<in>set (x # xs). \<not> ls y (foldl (\<lambda>m e. if ls e m then e else m) x xs))"
proof -
  have "less_func (\<lambda>a b. ls b a)"
    using assms unfolding less_func_def by blast
  from foldl_max [OF this, of x xs] show ?thesis by simp
qed

section \<open>Providers of the contracts\<close>

interpretation klist_fifo: fifo "\<lambda>h xs. dll h l xs" "\<lambda>x xs. x \<noteq> 0 \<and> x \<notin> set (cells l xs)"
    "list_push_back l" "list_pop_front l" for l
proof (unfold_locales, goal_cases)
  case (1 h xs x)
  then show ?case using list_push_dll(2) by blast
next
  case (2 h x xs)
  then show ?case using list_pop_front_dll by blast
next
  case (3 h)
  then show ?case by (rule pop_empty)
qed

definition key_less :: "(nat \<Rightarrow> int) \<Rightarrow> nat \<Rightarrow> nat \<Rightarrow> bool" where
  "key_less key a b \<longleftrightarrow> key a < key b"

interpretation key: less_func "key_less key" for key
  by unfold_locales (auto simp: key_less_def)

section \<open>Properties\<close>

definition demo_heap :: heap where
  "demo_heap = \<lparr>nx = (\<lambda>x. if x = 1 then 5 else if x = 5 then 3 else if x = 3 then 4 else if x = 4 then 2 else 0),
     pv = (\<lambda>x. if x = 5 then 1 else if x = 3 then 5 else if x = 4 then 3 else if x = 2 then 4 else 0)\<rparr>"

definition demo_list :: klist where
  "demo_list = \<lparr>lhead = 1, ltail = 2\<rparr>"

lemma demo_dll: "dll demo_heap demo_list [5, 3, 4]"
  by (simp add: dll_def cells_def demo_heap_def demo_list_def)

text \<open>
  C24. The list operations on the links are the operations on the sequence of elements: for a
  well-formed list, pushing a fresh element, removing an element, popping at either end,
  reversing and counting never fail, keep the list well-formed and change the sequence as they
  should; popping an empty list panics; and elements pushed at the back come out at the front
  in the order in which they went in.
\<close>

theorem list_refines_sequence:
  assumes "dll h l xs"
  shows "(\<forall>e. e \<noteq> 0 \<and> e \<notin> set (cells l xs) \<longrightarrow>
      (\<exists>h'. list_push_front l e h = Some h' \<and> dll h' l (e # xs)) \<and>
      (\<exists>h'. list_push_back l e h = Some h' \<and> dll h' l (xs @ [e]))) \<and>
    (\<forall>as e bs. xs = as @ e # bs \<longrightarrow>
      (\<exists>h'. list_remove e h = Some (nd l bs, h') \<and> dll h' l (as @ bs))) \<and>
    (\<forall>e bs. xs = e # bs \<longrightarrow> (\<exists>h'. list_pop_front l h = Some (e, h') \<and> dll h' l bs)) \<and>
    (\<forall>as e. xs = as @ [e] \<longrightarrow> (\<exists>h'. list_pop_back l h = Some (e, h') \<and> dll h' l as)) \<and>
    (xs = [] \<longrightarrow> list_pop_front l h = None \<and> list_pop_back l h = None) \<and>
    (\<exists>h'. list_reverse l h = Some h' \<and> dll h' l (rev xs)) \<and>
    list_size h l = Some (length xs) \<and>
    (\<forall>ys. room_for (\<lambda>x xs. x \<noteq> 0 \<and> x \<notin> set (cells l xs)) ys xs \<longrightarrow>
      (\<exists>h1 h2. put_all (list_push_back l) ys h = Some h1 \<and>
        take_n (list_pop_front l) (length xs + length ys) h1 = Some (xs @ ys, h2) \<and> dll h2 l []))"
proof (intro conjI allI impI)
  fix ys assume "room_for (\<lambda>x xs. x \<noteq> 0 \<and> x \<notin> set (cells l xs)) ys xs"
  then show "\<exists>h1 h2. put_all (list_push_back l) ys h = Some h1 \<and>
        take_n (list_pop_front l) (length xs + length ys) h1 = Some (xs @ ys, h2) \<and> dll h2 l []"
    using klist_fifo.fifo_order [of h l xs ys] assms by blast
next
  fix e assume "e \<noteq> 0 \<and> e \<notin> set (cells l xs)"
  then show "\<exists>h'. list_push_front l e h = Some h' \<and> dll h' l (e # xs)"
    "\<exists>h'. list_push_back l e h = Some h' \<and> dll h' l (xs @ [e])"
    using list_push_dll [OF assms, of e] by blast+
next
  fix as e bs assume "xs = as @ e # bs"
  then show "\<exists>h'. list_remove e h = Some (nd l bs, h') \<and> dll h' l (as @ bs)"
    using list_remove_dll [of h l as e bs] assms by blast
next
  fix e bs assume "xs = e # bs"
  then show "\<exists>h'. list_pop_front l h = Some (e, h') \<and> dll h' l bs"
    using list_pop_front_dll [of h l e bs] assms by blast
next
  fix as e assume "xs = as @ [e]"
  then show "\<exists>h'. list_pop_back l h = Some (e, h') \<and> dll h' l as"
    using list_pop_back_dll [of h l as e] assms by blast
next
  assume "xs = []"
  then show "list_pop_front l h = None" "list_pop_back l h = None" using pop_empty assms by blast+
next
  show "\<exists>h'. list_reverse l h = Some h' \<and> dll h' l (rev xs)" using list_reverse_dll [OF assms] by blast
  show "list_size h l = Some (length xs)" by (rule list_size_dll [OF assms])
qed

theorem list_refines_sequence_witness:
  "list_size demo_heap demo_list = Some 3 \<and> (\<exists>h'. list_reverse demo_list demo_heap = Some h' \<and> dll h' demo_list [4, 3, 5])"
  using list_refines_sequence [OF demo_dll] by simp

text \<open>
  C25. \<open>list_sort\<close> ends on every well-formed list and every comparison callback that is a
  strict weak order, none of its assertions fails, and the result is a sorted permutation of
  the list in which elements that compare equal keep their order. Only links of the list are
  written.
\<close>

theorem list_sort_sorts:
  assumes "less_func ls" "dll h l xs"
  shows "\<exists>h' ys. list_sort ls l h = Some h' \<and> dll h' l ys \<and> srt ls ys \<and> mset ys = mset xs \<and>
    (\<forall>x. equiv_class ls x ys = equiv_class ls x xs) \<and> agree_off (set (cells l xs)) h h'"
  using list_sort_dll [OF assms] by blast

theorem list_sort_sorts_witness:
  "\<exists>h' ys. list_sort (key_less int) demo_list demo_heap = Some h' \<and> dll h' demo_list ys \<and>
     srt (key_less int) ys \<and> mset ys = {#5, 3, 4#}"
  using list_sort_sorts [OF key.less_func_axioms demo_dll, of int] by auto

text \<open>
  On a well-formed list, \<open>list_insert_ordered\<close> puts a fresh element after the last
  element that is not greater, so that a sorted list stays sorted; \<open>list_unique\<close> moves to the
  second list every element equal to the one kept before it; and \<open>list_max\<close> and \<open>list_min\<close>
  return a greatest and a least element.
\<close>

lemma list_ordered_ops:
  assumes "less_func ls" "dll h l (x # xs)"
  shows "(\<forall>e. e \<noteq> 0 \<and> e \<notin> set (cells l (x # xs)) \<longrightarrow>
      (\<exists>h' ys zs. list_insert_ordered ls l e h = Some h' \<and> dll h' l (ys @ e # zs) \<and> ys @ zs = x # xs \<and>
        (srt ls (x # xs) \<longrightarrow> srt ls (ys @ e # zs)) \<and> (\<forall>y\<in>set ys. \<not> ls e y) \<and> (zs \<noteq> [] \<longrightarrow> ls e (hd zs)))) \<and>
    (\<forall>d ds. dll h d ds \<and> set (cells l (x # xs)) \<inter> set (cells d ds) = {} \<longrightarrow>
      (\<exists>h'. list_unique ls l (Some d) h = Some h' \<and> dll h' l (uniq ls x xs) \<and>
        dll h' d (ds @ dups ls x xs))) \<and>
    (\<exists>m. list_max ls h l = Some m \<and> m \<in> set (x # xs) \<and> (\<forall>y\<in>set (x # xs). \<not> ls m y)) \<and>
    (\<exists>m. list_min ls h l = Some m \<and> m \<in> set (x # xs) \<and> (\<forall>y\<in>set (x # xs). \<not> ls y m))"
proof (intro conjI allI impI)
  fix e assume e: "e \<noteq> 0 \<and> e \<notin> set (cells l (x # xs))"
  let ?A = "takeWhile (\<lambda>y. \<not> ls e y) (x # xs)" and ?B = "dropWhile (\<lambda>y. \<not> ls e y) (x # xs)"
  obtain h' where "list_insert_ordered ls l e h = Some h'" "dll h' l (?A @ e # ?B)"
    using list_insert_ordered_dll [OF assms(2)] e by blast
  moreover have "?A @ ?B = x # xs" by (rule takeWhile_dropWhile_id)
  moreover have "\<forall>y\<in>set ?A. \<not> ls e y" using set_takeWhileD [of _ "\<lambda>y. \<not> ls e y" "x # xs"] by blast
  moreover have "?B \<noteq> [] \<longrightarrow> ls e (hd ?B)" using hd_dropWhile [of "\<lambda>y. \<not> ls e y" "x # xs"] by blast
  moreover note srt_insert_ordered [OF assms(1), of "x # xs" e]
  ultimately show "\<exists>h' ys zs. list_insert_ordered ls l e h = Some h' \<and> dll h' l (ys @ e # zs) \<and> ys @ zs = x # xs \<and>
        (srt ls (x # xs) \<longrightarrow> srt ls (ys @ e # zs)) \<and> (\<forall>y\<in>set ys. \<not> ls e y) \<and> (zs \<noteq> [] \<longrightarrow> ls e (hd zs))"
    by blast
next
  fix d ds assume "dll h d ds \<and> set (cells l (x # xs)) \<inter> set (cells d ds) = {}"
  then show "\<exists>h'. list_unique ls l (Some d) h = Some h' \<and> dll h' l (uniq ls x xs) \<and> dll h' d (ds @ dups ls x xs)"
    using unique_loop_dll [of h l "[]" x xs d ds ls] assms(2) dll_ends(1,5) [OF assms(2)]
    by (auto simp: list_unique_def)
next
  show "\<exists>m. list_max ls h l = Some m \<and> m \<in> set (x # xs) \<and> (\<forall>y\<in>set (x # xs). \<not> ls m y)"
    using list_extrema_dll(1) [OF assms(2), of ls] foldl_max [OF assms(1), of x xs] by blast
  show "\<exists>m. list_min ls h l = Some m \<and> m \<in> set (x # xs) \<and> (\<forall>y\<in>set (x # xs). \<not> ls y m)"
    using list_extrema_dll(2) [OF assms(2), of ls] foldl_min [OF assms(1), of x xs] by blast
qed

lemma list_ordered_ops_example:
  "\<exists>m. list_max (key_less int) demo_heap demo_list = Some m \<and> m \<in> {5, 3, 4}"
  using list_ordered_ops [OF key.less_func_axioms demo_dll, of int] by auto

end
