(* ===== verification/Bytes.thy ===== *)
theory Bytes
  imports Prelude
begin

text \<open>
  Memory as lists of bytes: little-endian words in a buffer, slices, \<open>memcpy\<close> into a buffer at an
  offset, C strings. Shared by the models of the disk formats and of the string functions.
\<close>

section \<open>Copying into a buffer\<close>

definition put_at :: "'a list \<Rightarrow> nat \<Rightarrow> 'a list \<Rightarrow> 'a list" where
  "put_at xs n ys = take n xs @ ys @ drop (n + length ys) xs"

definition slice :: "'a list \<Rightarrow> nat \<Rightarrow> nat \<Rightarrow> 'a list" where
  "slice xs n k = take k (drop n xs)"

lemma length_put_at [simp]: "n + length ys \<le> length xs \<Longrightarrow> length (put_at xs n ys) = length xs"
  by (simp add: put_at_def)

lemma nth_put_at:
  "n + length ys \<le> length xs \<Longrightarrow> i < length xs \<Longrightarrow>
   put_at xs n ys ! i = (if n \<le> i \<and> i < n + length ys then ys ! (i - n) else xs ! i)"
  by (auto simp: put_at_def nth_append)

lemma length_slice [simp]: "n + k \<le> length xs \<Longrightarrow> length (slice xs n k) = k"
  by (simp add: slice_def)

lemma nth_slice: "n + k \<le> length xs \<Longrightarrow> i < k \<Longrightarrow> slice xs n k ! i = xs ! (n + i)"
  by (simp add: slice_def)

lemma put_at_Nil [simp]: "put_at xs n [] = xs"
  by (simp add: put_at_def)

lemma put_at_whole [simp]: "length ys = length xs \<Longrightarrow> put_at xs 0 ys = ys"
  by (simp add: put_at_def)

lemma put_at_append:
  "n + length ys + length zs \<le> length xs \<Longrightarrow> put_at (put_at xs n ys) (n + length ys) zs = put_at xs n (ys @ zs)"
  by (rule nth_equalityI) (auto simp: nth_put_at nth_append)

lemma slice_append: "n + j + k \<le> length xs \<Longrightarrow> slice xs n (j + k) = slice xs n j @ slice xs (n + j) k"
  by (simp add: slice_def take_add add.commute)

lemma slice_put_at_same: "n + length ys \<le> length xs \<Longrightarrow> slice (put_at xs n ys) n (length ys) = ys"
  by (simp add: slice_def put_at_def)

lemma slice_put_at_other:
  assumes "n + length ys \<le> length xs" "m + k \<le> length xs" "m + k \<le> n \<or> n + length ys \<le> m"
  shows "slice (put_at xs n ys) m k = slice xs m k"
  by (rule nth_equalityI) (use assms in \<open>auto simp: nth_slice nth_put_at\<close>)

lemma slice_all [simp]: "slice xs 0 (length xs) = xs"
  by (simp add: slice_def)

section \<open>Little-endian words\<close>

definition bytes32 :: "u32 \<Rightarrow> u8 list" where
  "bytes32 w = map (\<lambda>k. ucast (drop_bit (8 * k) w)) [0..<4]"

definition word32 :: "u8 list \<Rightarrow> u32" where
  "word32 bs = (ucast (bs ! 0)) OR (push_bit 8 (ucast (bs ! 1))) OR (push_bit 16 (ucast (bs ! 2))) OR
     (push_bit 24 (ucast (bs ! 3)))"

lemma length_bytes32 [simp]: "length (bytes32 w) = 4"
  by (simp add: bytes32_def)

lemma bytes32_nth: "k < 4 \<Longrightarrow> bytes32 w ! k = ucast (drop_bit (8 * k) w)"
  by (simp add: bytes32_def)

lemma word32_bytes32 [simp]: "word32 (bytes32 w @ bs) = w"
proof (rule bit_word_eqI)
  fix n assume n: "n < LENGTH(32)"
  have b: "(bytes32 w @ bs) ! k = ucast (drop_bit (8 * k) w)" if "k < 4" for k
    using that by (simp add: nth_append bytes32_nth)
  consider "n < 8" | "8 \<le> n" "n < 16" | "16 \<le> n" "n < 24" | "24 \<le> n" using n by linarith
  then show "bit (word32 (bytes32 w @ bs)) n = bit w n"
    using n by cases (auto simp: word32_def b bit_simps)
qed

lemma bytes32_word32: "length bs = 4 \<Longrightarrow> bytes32 (word32 bs) = bs"
proof (rule nth_equalityI)
  fix k assume "length bs = 4" and "k < length (bytes32 (word32 bs))"
  then have k: "k < 4" by simp
  show "bytes32 (word32 bs) ! k = bs ! k"
  proof (rule bit_word_eqI)
    fix n assume n: "n < LENGTH(8)"
    have "k = 0 \<or> k = 1 \<or> k = 2 \<or> k = 3" using k by linarith
    then show "bit (bytes32 (word32 bs) ! k) n = bit (bs ! k) n"
      using n by (elim disjE) (auto simp: bytes32_nth word32_def bit_simps dest: bit_imp_le_length)
  qed
qed simp

section \<open>C strings\<close>

definition cstr :: "u8 list \<Rightarrow> u8 list" where
  "cstr bs = takeWhile (\<lambda>c. c \<noteq> 0) bs"

lemma cstr_append: "0 \<notin> set name \<Longrightarrow> cstr (name @ 0 # bs) = name"
  unfolding cstr_def by (subst takeWhile_append2) auto

lemma cstr_no_zero: "0 \<notin> set (cstr bs)"
  by (auto simp: cstr_def dest: set_takeWhileD)

end
