(* ===== verification/Cstring.thy ===== *)
theory Cstring
  imports Bytes "HOL-Library.List_Lexorder"
begin

text \<open>
  The memory and string functions of \<open>lib/string.c\<close>. Memory is a partial map from addresses to
  bytes; the null pointer is the address 0. An access outside the memory is undefined and \<open>None\<close>, as
  are a failed assertion and a loop that does not end. Objects do not wrap around the address space,
  so addresses and sizes are \<open>nat\<close>.
\<close>

section \<open>The code\<close>

type_synonym mem = "nat \<rightharpoonup> u8"

definition store_byte :: "nat \<Rightarrow> u8 \<Rightarrow> mem \<Rightarrow> mem option" where
  "store_byte a v m = (if m a = None then None else Some (m(a \<mapsto> v)))"

fun copy_up :: "nat \<Rightarrow> nat \<Rightarrow> nat \<Rightarrow> mem \<Rightarrow> mem option" where
  "copy_up dst src 0 m = Some m"
| "copy_up dst src (Suc n) m = do { v \<leftarrow> m src; m1 \<leftarrow> store_byte dst v m; copy_up (dst + 1) (src + 1) n m1 }"

fun copy_down :: "nat \<Rightarrow> nat \<Rightarrow> nat \<Rightarrow> mem \<Rightarrow> mem option" where
  "copy_down dst src 0 m = Some m"
| "copy_down dst src (Suc n) m =
     do { v \<leftarrow> m (src - 1); m1 \<leftarrow> store_byte (dst - 1) v m; copy_down (dst - 1) (src - 1) n m1 }"

definition memcpy :: "nat \<Rightarrow> nat \<Rightarrow> nat \<Rightarrow> mem \<Rightarrow> (nat \<times> mem) option" where
  "memcpy dst src n m = do {
     kassert (dst \<noteq> 0 \<or> n = 0);
     kassert (src \<noteq> 0 \<or> n = 0);
     m1 \<leftarrow> copy_up dst src n m;
     Some (dst, m1)
   }"

text \<open>\<open>memmove\<close> returns the variable \<open>dst\<close>, which the first loop has advanced.\<close>

definition memmove :: "nat \<Rightarrow> nat \<Rightarrow> nat \<Rightarrow> mem \<Rightarrow> (nat \<times> mem) option" where
  "memmove dst src n m = do {
     kassert (dst \<noteq> 0 \<or> n = 0);
     kassert (src \<noteq> 0 \<or> n = 0);
     (if dst < src then do { m1 \<leftarrow> copy_up dst src n m; Some (dst + n, m1) }
      else do { m1 \<leftarrow> copy_down (dst + n) (src + n) n m; Some (dst, m1) })
   }"

fun memcmp_loop :: "nat \<Rightarrow> nat \<Rightarrow> nat \<Rightarrow> mem \<Rightarrow> int option" where
  "memcmp_loop a b 0 m = Some 0"
| "memcmp_loop a b (Suc n) m = do {
     x \<leftarrow> m a;
     y \<leftarrow> m b;
     (if x \<noteq> y then Some (if x > y then 1 else - 1) else memcmp_loop (a + 1) (b + 1) n m)
   }"

definition memcmp :: "nat \<Rightarrow> nat \<Rightarrow> nat \<Rightarrow> mem \<Rightarrow> int option" where
  "memcmp a b n m = do {
     kassert (a \<noteq> 0 \<or> n = 0);
     kassert (b \<noteq> 0 \<or> n = 0);
     memcmp_loop a b n m
   }"

partial_function (option) strcmp_loop :: "nat \<Rightarrow> nat \<Rightarrow> mem \<Rightarrow> int option" where
  "strcmp_loop a b m = do {
     x \<leftarrow> m a;
     y \<leftarrow> m b;
     (if x \<noteq> 0 \<and> x = y then strcmp_loop (a + 1) (b + 1) m
      else Some (if x < y then - 1 else if x > y then 1 else 0))
   }"

definition strcmp :: "nat \<Rightarrow> nat \<Rightarrow> mem \<Rightarrow> int option" where
  "strcmp a b m = do { kassert (a \<noteq> 0); kassert (b \<noteq> 0); strcmp_loop a b m }"

fun memchr_loop :: "nat \<Rightarrow> u8 \<Rightarrow> nat \<Rightarrow> mem \<Rightarrow> nat option" where
  "memchr_loop a ch 0 m = Some 0"
| "memchr_loop a ch (Suc n) m = do { x \<leftarrow> m a; (if x = ch then Some a else memchr_loop (a + 1) ch n m) }"

definition memchr :: "nat \<Rightarrow> int \<Rightarrow> nat \<Rightarrow> mem \<Rightarrow> nat option" where
  "memchr a ch n m = do { kassert (a \<noteq> 0 \<or> n = 0); memchr_loop a (word_of_int ch) n m }"

partial_function (option) strchr_loop :: "nat \<Rightarrow> u8 \<Rightarrow> mem \<Rightarrow> nat option" where
  "strchr_loop s c m = do {
     x \<leftarrow> m s;
     (if x = c then Some s else if x = 0 then Some 0 else strchr_loop (s + 1) c m)
   }"

definition strchr :: "nat \<Rightarrow> u8 \<Rightarrow> mem \<Rightarrow> nat option" where
  "strchr s c m = do { kassert (s \<noteq> 0); strchr_loop s c m }"

text \<open>The loops of \<open>strcspn\<close> (\<open>want\<close> is true) and \<open>strspn\<close> (\<open>want\<close> is false).\<close>

partial_function (option) span_loop :: "bool \<Rightarrow> nat \<Rightarrow> nat \<Rightarrow> nat \<Rightarrow> mem \<Rightarrow> nat option" where
  "span_loop want s st len m = do {
     x \<leftarrow> m (s + len);
     (if x \<noteq> 0 then do {
        p \<leftarrow> strchr st x m;
        (if (p \<noteq> 0) = want then Some len else span_loop want s st (len + 1) m)
      } else Some len)
   }"

definition strcspn :: "nat \<Rightarrow> nat \<Rightarrow> mem \<Rightarrow> nat option" where
  "strcspn s st m = span_loop True s st 0 m"

definition strspn :: "nat \<Rightarrow> nat \<Rightarrow> mem \<Rightarrow> nat option" where
  "strspn s skip m = span_loop False s skip 0 m"

partial_function (option) strpbrk :: "nat \<Rightarrow> nat \<Rightarrow> mem \<Rightarrow> nat option" where
  "strpbrk s st m = do {
     x \<leftarrow> m s;
     (if x \<noteq> 0 then do { p \<leftarrow> strchr st x m; (if p \<noteq> 0 then Some s else strpbrk (s + 1) st m) }
      else Some 0)
   }"

partial_function (option) strrchr_loop :: "nat \<Rightarrow> u8 \<Rightarrow> nat \<Rightarrow> mem \<Rightarrow> nat option" where
  "strrchr_loop s c p m = do {
     x \<leftarrow> m s;
     (if x \<noteq> 0 then strrchr_loop (s + 1) c (if x = c then s else p) m else Some p)
   }"

definition strrchr :: "nat \<Rightarrow> int \<Rightarrow> mem \<Rightarrow> nat option" where
  "strrchr s c m = strrchr_loop s (word_of_int c) 0 m"

partial_function (option) strlen_loop :: "nat \<Rightarrow> mem \<Rightarrow> nat option" where
  "strlen_loop p m = do { x \<leftarrow> m p; (if x \<noteq> 0 then strlen_loop (p + 1) m else Some p) }"

definition strlen :: "nat \<Rightarrow> mem \<Rightarrow> nat option" where
  "strlen s m = do { kassert (s \<noteq> 0); p \<leftarrow> strlen_loop s m; Some (p - s) }"

text \<open>\<open>strnlen\<close> looks at the byte before it compares the length with the limit.\<close>

partial_function (option) strnlen_loop :: "nat \<Rightarrow> nat \<Rightarrow> nat \<Rightarrow> mem \<Rightarrow> nat option" where
  "strnlen_loop s maxlen len m = do {
     x \<leftarrow> m (s + len);
     (if x \<noteq> 0 \<and> len < maxlen then strnlen_loop s maxlen (len + 1) m else Some len)
   }"

definition strnlen :: "nat \<Rightarrow> nat \<Rightarrow> mem \<Rightarrow> nat option" where
  "strnlen s maxlen m = strnlen_loop s maxlen 0 m"

text \<open>The loop of \<open>strstr\<close>: \<open>n\<close> positions are left.\<close>

fun strstr_loop :: "nat \<Rightarrow> nat \<Rightarrow> nat \<Rightarrow> nat \<Rightarrow> nat \<Rightarrow> mem \<Rightarrow> nat option" where
  "strstr_loop hay needle len i 0 m = Some 0"
| "strstr_loop hay needle len i (Suc n) m = do {
     c \<leftarrow> memcmp (hay + i) needle len m;
     (if c = 0 then Some (hay + i) else strstr_loop hay needle len (i + 1) n m)
   }"

definition strstr :: "nat \<Rightarrow> nat \<Rightarrow> mem \<Rightarrow> nat option" where
  "strstr hay needle m = do {
     hl \<leftarrow> strlen hay m;
     nl \<leftarrow> strlen needle m;
     (if hl \<ge> nl then strstr_loop hay needle nl 0 (hl - nl + 1) m else Some 0)
   }"

text \<open>\<open>strtok_r\<close>: \<open>save\<close> is the variable \<open>*save_ptr\<close>.\<close>

partial_function (option) skip_delims :: "nat \<Rightarrow> nat \<Rightarrow> mem \<Rightarrow> (bool \<times> nat) option" where
  "skip_delims ds s m = do {
     x \<leftarrow> m s;
     p \<leftarrow> strchr ds x m;
     (if p \<noteq> 0 then (if x = 0 then Some (False, s) else skip_delims ds (s + 1) m) else Some (True, s))
   }"

partial_function (option) skip_token :: "nat \<Rightarrow> nat \<Rightarrow> mem \<Rightarrow> nat option" where
  "skip_token ds s m = do { x \<leftarrow> m s; p \<leftarrow> strchr ds x m; (if p = 0 then skip_token ds (s + 1) m else Some s) }"

definition strtok_r :: "nat \<Rightarrow> nat \<Rightarrow> nat \<Rightarrow> mem \<Rightarrow> (nat \<times> nat \<times> mem) option" where
  "strtok_r s ds save m = do {
     kassert (ds \<noteq> 0);
     let s = (if s = 0 then save else s);
     kassert (s \<noteq> 0);
     (more, token) \<leftarrow> skip_delims ds s m;
     (if \<not> more then Some (0, token, m)
      else do {
        e \<leftarrow> skip_token ds token m;
        x \<leftarrow> m e;
        (if x \<noteq> 0 then do { m1 \<leftarrow> store_byte e 0 m; Some (token, e + 1, m1) }
         else Some (token, e, m))
      })
   }"

fun memset_loop :: "nat \<Rightarrow> u8 \<Rightarrow> nat \<Rightarrow> mem \<Rightarrow> mem option" where
  "memset_loop dst v 0 m = Some m"
| "memset_loop dst v (Suc n) m = do { m1 \<leftarrow> store_byte dst v m; memset_loop (dst + 1) v n m1 }"

definition memset :: "nat \<Rightarrow> int \<Rightarrow> nat \<Rightarrow> mem \<Rightarrow> (nat \<times> mem) option" where
  "memset dst v n m = do {
     kassert (dst \<noteq> 0 \<or> n = 0);
     m1 \<leftarrow> memset_loop dst (word_of_int v) n m;
     Some (dst, m1)
   }"

definition strlcpy :: "nat \<Rightarrow> nat \<Rightarrow> nat \<Rightarrow> mem \<Rightarrow> (nat \<times> mem) option" where
  "strlcpy dst src n m = do {
     kassert (dst \<noteq> 0);
     kassert (src \<noteq> 0);
     src_len \<leftarrow> strlen src m;
     (if n > 0 then do {
        let dst_len = (if src_len < n - 1 then src_len else n - 1);
        (_, m1) \<leftarrow> memcpy dst src dst_len m;
        m2 \<leftarrow> store_byte (dst + dst_len) 0 m1;
        Some (src_len, m2)
      } else Some (src_len, m))
   }"

definition strlcat :: "nat \<Rightarrow> nat \<Rightarrow> nat \<Rightarrow> mem \<Rightarrow> (nat \<times> mem) option" where
  "strlcat dst src n m = do {
     kassert (dst \<noteq> 0);
     kassert (src \<noteq> 0);
     src_len \<leftarrow> strlen src m;
     dst_len \<leftarrow> strlen dst m;
     (if n > 0 \<and> dst_len < n then do {
        let copy_cnt = (if src_len < n - dst_len - 1 then src_len else n - dst_len - 1);
        (_, m1) \<leftarrow> memcpy (dst + dst_len) src copy_cnt m;
        m2 \<leftarrow> store_byte (dst + dst_len + copy_cnt) 0 m1;
        Some (src_len + dst_len, m2)
      } else Some (src_len + dst_len, m))
   }"

section \<open>Bytes in memory\<close>

definition holds :: "mem \<Rightarrow> nat \<Rightarrow> u8 list \<Rightarrow> bool" where
  "holds m a bs \<longleftrightarrow> (\<forall>i<length bs. m (a + i) = Some (bs ! i))"

definition mapped :: "mem \<Rightarrow> nat \<Rightarrow> nat \<Rightarrow> bool" where
  "mapped m a n \<longleftrightarrow> (\<forall>i<n. m (a + i) \<noteq> None)"

definition put :: "mem \<Rightarrow> nat \<Rightarrow> u8 list \<Rightarrow> mem" where
  "put m a bs = (\<lambda>x. if a \<le> x \<and> x < a + length bs then Some (bs ! (x - a)) else m x)"

definition str_at :: "mem \<Rightarrow> nat \<Rightarrow> u8 list \<Rightarrow> bool" where
  "str_at m a xs \<longleftrightarrow> a \<noteq> 0 \<and> 0 \<notin> set xs \<and> holds m a (xs @ [0])"

text \<open>The ranges do not overlap.\<close>

definition apart :: "nat \<Rightarrow> nat \<Rightarrow> nat \<Rightarrow> nat \<Rightarrow> bool" where
  "apart a n b k \<longleftrightarrow> a + n \<le> b \<or> b + k \<le> a"

lemma holds_Nil [simp]: "holds m a []"
  by (simp add: holds_def)

lemma holds_Cons [simp]: "holds m a (b # bs) \<longleftrightarrow> m a = Some b \<and> holds m (Suc a) bs"
  unfolding holds_def by (auto simp: less_Suc_eq_0_disj nth_Cons split: nat.splits)

lemma holds_append: "holds m a (xs @ ys) \<longleftrightarrow> holds m a xs \<and> holds m (a + length xs) ys"
  by (induction xs arbitrary: a) auto

lemma mapped_Suc [simp]: "mapped m a (Suc n) \<longleftrightarrow> m a \<noteq> None \<and> mapped m (Suc a) n"
  unfolding mapped_def by (auto simp: less_Suc_eq_0_disj)

lemma mapped_0 [simp]: "mapped m a 0"
  by (simp add: mapped_def)

lemma holds_mapped: "holds m a bs \<Longrightarrow> mapped m a (length bs)"
  by (simp add: holds_def mapped_def)

lemma str_at_Nil [simp]: "str_at m a [] \<longleftrightarrow> a \<noteq> 0 \<and> m a = Some 0"
  by (simp add: str_at_def)

lemma str_at_Cons [simp]: "str_at m a (x # xs) \<longleftrightarrow> a \<noteq> 0 \<and> m a = Some x \<and> x \<noteq> 0 \<and> str_at m (Suc a) xs"
  by (auto simp: str_at_def)

lemma str_atD: "str_at m a xs \<Longrightarrow> a \<noteq> 0" "str_at m a xs \<Longrightarrow> 0 \<notin> set xs" "str_at m a xs \<Longrightarrow> holds m a xs"
  "str_at m a xs \<Longrightarrow> m (a + length xs) = Some 0"
  by (auto simp: str_at_def holds_append)

lemma str_at_append: "a \<noteq> 0 \<Longrightarrow> str_at m a (xs @ ys) \<longleftrightarrow> 0 \<notin> set xs \<and> holds m a xs \<and> str_at m (a + length xs) ys"
  by (auto simp: str_at_def holds_append add.assoc)

lemma put_Nil [simp]: "put m a [] = m"
  by (rule ext) (auto simp: put_def)

lemma put_Cons: "put m a (b # bs) = put (m(a \<mapsto> b)) (Suc a) bs"
proof
  fix x
  show "put m a (b # bs) x = put (m(a \<mapsto> b)) (Suc a) bs x"
  proof (cases "a < x")
    case True
    then obtain k where "x = Suc (a + k)" using less_imp_Suc_add by blast
    then show ?thesis by (simp add: put_def)
  qed (auto simp: put_def)
qed

lemma put_snoc: "put m a (bs @ [b]) = put (m(a + length bs \<mapsto> b)) a bs"
  by (rule ext) (auto simp: put_def nth_append)

lemma holds_put: "holds (put m a bs) a bs"
  by (simp add: holds_def put_def)

lemma put_out: "x < a \<or> a + length bs \<le> x \<Longrightarrow> put m a bs x = m x"
  by (auto simp: put_def)

lemma holds_cong: "(\<And>i. i < length xs \<Longrightarrow> m' (b + i) = m (b + i)) \<Longrightarrow> holds m' b xs = holds m b xs"
  by (simp add: holds_def)

lemma holds_put_out: "apart a (length bs) b (length xs) \<Longrightarrow> holds (put m a bs) b xs = holds m b xs"
  by (rule holds_cong, rule put_out) (auto simp: apart_def)

lemma holds_upd: "a < b \<or> b + length xs \<le> a \<Longrightarrow> holds (m(a \<mapsto> v)) b xs = holds m b xs"
  by (rule holds_cong) auto

lemma mapped_upd: "mapped m b n \<Longrightarrow> mapped (m(a \<mapsto> v)) b n"
  unfolding mapped_def by auto

lemma mapped_put: "mapped m b n \<Longrightarrow> mapped (put m a bs) b n"
  unfolding mapped_def put_def by auto

section \<open>Copying\<close>

lemma copy_up_ok:
  "holds m src bs \<Longrightarrow> mapped m dst (length bs) \<Longrightarrow> dst \<le> src \<or> src + length bs \<le> dst \<Longrightarrow>
   copy_up dst src (length bs) m = Some (put m dst bs)"
proof (induction bs arbitrary: dst src m)
  case (Cons b bs)
  have "dst < Suc src \<or> Suc src + length bs \<le> dst" using Cons.prems(3) by auto
  then have h: "holds (m(dst \<mapsto> b)) (Suc src) bs" using Cons.prems(1) holds_upd by auto
  have d: "mapped (m(dst \<mapsto> b)) (Suc dst) (length bs)" by (rule mapped_upd) (use Cons.prems(2) in simp)
  have "copy_up (Suc dst) (Suc src) (length bs) (m(dst \<mapsto> b)) = Some (put (m(dst \<mapsto> b)) (Suc dst) bs)"
    by (rule Cons.IH [OF h d]) (use Cons.prems(3) in auto)
  then show ?case using Cons.prems by (auto simp: store_byte_def put_Cons)
qed simp

lemma copy_down_ok:
  "holds m src bs \<Longrightarrow> mapped m dst (length bs) \<Longrightarrow> src \<le> dst \<Longrightarrow>
   copy_down (dst + length bs) (src + length bs) (length bs) m = Some (put m dst bs)"
proof (induction bs arbitrary: m rule: rev_induct)
  case (snoc b bs)
  have h: "holds m src bs" "m (src + length bs) = Some b" using snoc.prems(1) by (simp_all add: holds_append)
  have d: "m (dst + length bs) \<noteq> None" "mapped m dst (length bs)" using snoc.prems(2) by (simp_all add: mapped_def)
  have h1: "holds (m(dst + length bs \<mapsto> b)) src bs"
    by (rule holds_upd [THEN iffD2, OF _ h(1)]) (use snoc.prems(3) in simp)
  have "copy_down (dst + length bs) (src + length bs) (length bs) (m(dst + length bs \<mapsto> b)) =
      Some (put (m(dst + length bs \<mapsto> b)) dst bs)"
    by (rule snoc.IH [OF h1 mapped_upd [OF d(2)] snoc.prems(3)])
  then show ?case using h(2) d(1) by (auto simp: store_byte_def put_snoc)
qed simp

lemma memset_loop_ok:
  "mapped m dst n \<Longrightarrow> memset_loop dst v n m = Some (put m dst (replicate n v))"
  by (induction n arbitrary: dst m) (auto simp: store_byte_def put_Cons mapped_upd)

lemma memcpy_ok:
  assumes "holds m src bs" "mapped m dst (length bs)" "dst \<le> src \<or> src + length bs \<le> dst" "dst \<noteq> 0" "src \<noteq> 0"
  shows "memcpy dst src (length bs) m = Some (dst, put m dst bs)"
  using assms copy_up_ok [OF assms(1-3)] by (simp add: memcpy_def)

section \<open>Searching\<close>

lemma strlen_loop_ok: "str_at m a xs \<Longrightarrow> strlen_loop a m = Some (a + length xs)"
  by (induction xs arbitrary: a) (subst strlen_loop.simps, simp)+

lemma strlen_ok: "str_at m a xs \<Longrightarrow> strlen a m = Some (length xs)"
  by (simp add: strlen_def strlen_loop_ok str_atD(1))

lemma strcmp_loop_ok:
  "str_at m a xs \<Longrightarrow> str_at m b ys \<Longrightarrow> strcmp_loop a b m = Some (if xs < ys then - 1 else if ys < xs then 1 else 0)"
proof (induction xs arbitrary: a b ys)
  case Nil
  then show ?case by (cases ys) (subst strcmp_loop.simps, auto simp: word_gt_0)+
next
  case (Cons x xs)
  then show ?case by (cases ys) (subst strcmp_loop.simps, auto simp: word_gt_0)+
qed

text \<open>The address of the first element that satisfies \<open>P\<close>.\<close>

fun first_at :: "(u8 \<Rightarrow> bool) \<Rightarrow> nat \<Rightarrow> u8 list \<Rightarrow> nat" where
  "first_at P a [] = 0"
| "first_at P a (x # xs) = (if P x then a else first_at P (Suc a) xs)"

lemma first_at_0 [simp]: "a \<noteq> 0 \<Longrightarrow> first_at P a xs = 0 \<longleftrightarrow> (\<forall>x\<in>set xs. \<not> P x)"
  by (induction xs arbitrary: a) auto

lemma first_at_append: "first_at P a (xs @ ys) = (if \<forall>x\<in>set xs. \<not> P x then first_at P (a + length xs) ys else first_at P a xs)"
  by (induction xs arbitrary: a) auto

lemma strchr_loop_ok: "str_at m a xs \<Longrightarrow> strchr_loop a c m = Some (first_at (\<lambda>x. x = c) a (xs @ [0]))"
  by (induction xs arbitrary: a) (subst strchr_loop.simps, auto)+

lemma strchr_ok: "str_at m a xs \<Longrightarrow> strchr a c m = Some (first_at (\<lambda>x. x = c) a (xs @ [0]))"
  by (simp add: strchr_def strchr_loop_ok str_atD(1))

lemma strchr_found:
  assumes "str_at m a xs"
  shows "\<exists>p. strchr a c m = Some p \<and> (p = 0 \<longleftrightarrow> c \<notin> set xs \<and> c \<noteq> 0)"
  using strchr_ok [OF assms, of c] str_atD(1) [OF assms] by auto

lemma memchr_loop_ok: "holds m a xs \<Longrightarrow> memchr_loop a c (length xs) m = Some (first_at (\<lambda>x. x = c) a xs)"
  by (induction xs arbitrary: a) auto

lemma memcmp_loop_ok:
  "holds m a xs \<Longrightarrow> holds m b ys \<Longrightarrow> length xs = length ys \<Longrightarrow>
   memcmp_loop a b (length xs) m = Some (if xs < ys then - 1 else if ys < xs then 1 else 0)"
proof (induction xs arbitrary: a b ys)
  case (Cons x xs)
  then show ?case by (cases ys) auto
qed simp

lemma memcmp_ok:
  "holds m a xs \<Longrightarrow> holds m b ys \<Longrightarrow> length xs = length ys \<Longrightarrow> a \<noteq> 0 \<Longrightarrow> b \<noteq> 0 \<Longrightarrow>
   memcmp a b (length xs) m = Some (if xs < ys then - 1 else if ys < xs then 1 else 0)"
  using memcmp_loop_ok [of m a xs b ys] by (simp add: memcmp_def)

lemma strcmp_ok:
  "str_at m a xs \<Longrightarrow> str_at m b ys \<Longrightarrow> strcmp a b m = Some (if xs < ys then - 1 else if ys < xs then 1 else 0)"
  by (simp add: strcmp_def strcmp_loop_ok str_atD(1))

lemma span_loop_ok:
  assumes "str_at m st cs"
  shows "str_at m (a + n) xs \<Longrightarrow> span_loop want a st n m = Some (n + length (takeWhile (\<lambda>x. (x \<in> set cs) \<noteq> want) xs))"
proof (induction xs arbitrary: n)
  case Nil
  then show ?case by (subst span_loop.simps) simp
next
  case (Cons x xs)
  obtain p where p: "strchr st x m = Some p" "p = 0 \<longleftrightarrow> x \<notin> set cs \<and> x \<noteq> 0" using strchr_found [OF assms] by blast
  have x: "m (a + n) = Some x" "x \<noteq> 0" "str_at m (a + (n + 1)) xs" using Cons.prems by simp_all
  show ?case using Cons.IH [OF x(3)] x(1,2) p by (subst span_loop.simps) auto
qed

lemma strpbrk_ok:
  assumes "str_at m st cs"
  shows "str_at m a xs \<Longrightarrow> strpbrk a st m = Some (first_at (\<lambda>x. x \<in> set cs) a xs)"
proof (induction xs arbitrary: a)
  case Nil
  then show ?case by (subst strpbrk.simps) simp
next
  case (Cons x xs)
  obtain p where p: "strchr st x m = Some p" "p = 0 \<longleftrightarrow> x \<notin> set cs \<and> x \<noteq> 0" using strchr_found [OF assms] by blast
  then show ?case using Cons by (subst strpbrk.simps) auto
qed

text \<open>The address of the last element that is \<open>c\<close>.\<close>

fun last_at :: "u8 \<Rightarrow> nat \<Rightarrow> nat \<Rightarrow> u8 list \<Rightarrow> nat" where
  "last_at c p a [] = p"
| "last_at c p a (x # xs) = last_at c (if x = c then a else p) (Suc a) xs"

lemma takeWhile_shorter: "c \<in> set xs \<Longrightarrow> length (takeWhile (\<lambda>x. x \<noteq> c) xs) < length xs"
  by (induction xs) auto

lemma last_at_value:
  "last_at c p a xs = (if c \<in> set xs then a + (length xs - 1 - length (takeWhile (\<lambda>x. x \<noteq> c) (rev xs))) else p)"
proof (induction xs arbitrary: p a)
  case (Cons x xs)
  show ?case
  proof (cases "c \<in> set xs")
    case True
    have "length (takeWhile (\<lambda>x. x \<noteq> c) (rev xs)) < length xs"
      using True takeWhile_shorter [of c "rev xs"] by simp
    moreover have "takeWhile (\<lambda>x. x \<noteq> c) (rev xs @ [x]) = takeWhile (\<lambda>x. x \<noteq> c) (rev xs)"
      using True by (intro takeWhile_append1 [of c]) simp_all
    ultimately show ?thesis using Cons.IH True by simp
  next
    case False
    then have "takeWhile (\<lambda>x. x \<noteq> c) (rev xs @ [x]) = rev xs @ takeWhile (\<lambda>x. x \<noteq> c) [x]"
      by (intro takeWhile_append2) auto
    then show ?thesis using Cons.IH False by (cases "x = c") simp_all
  qed
qed simp

lemma strrchr_ok: "str_at m a xs \<Longrightarrow> strrchr_loop a c p m = Some (last_at c p a xs)"
  by (induction xs arbitrary: a p) (subst strrchr_loop.simps, auto)+

lemma strnlen_loop_ok:
  "holds m (s + n) xs \<Longrightarrow> 0 \<notin> set xs \<Longrightarrow> m (s + n + length xs) = Some y \<Longrightarrow> y = 0 \<or> n + length xs = maxlen \<Longrightarrow>
   n + length xs \<le> maxlen \<Longrightarrow> strnlen_loop s maxlen n m = Some (n + length xs)"
proof (induction xs arbitrary: n)
  case Nil
  then show ?case by (subst strnlen_loop.simps) auto
next
  case (Cons x xs)
  have "strnlen_loop s maxlen (n + 1) m = Some (n + 1 + length xs)"
    using Cons.prems by (intro Cons.IH) (auto simp: add.assoc)
  then show ?case using Cons.prems by (subst strnlen_loop.simps) auto
qed

text \<open>\<open>needle\<close> occurs at position \<open>i\<close>.\<close>

definition occurs :: "u8 list \<Rightarrow> u8 list \<Rightarrow> nat \<Rightarrow> bool" where
  "occurs needle hay i \<longleftrightarrow> i + length needle \<le> length hay \<and> slice hay i (length needle) = needle"

lemma strstr_loop_ok:
  assumes h: "str_at m a hay" and n: "str_at m b needle"
  shows "i + k + length needle = length hay + 1 \<Longrightarrow> \<forall>j<i. \<not> occurs needle hay j \<Longrightarrow>
    \<exists>p. strstr_loop a b (length needle) i k m = Some p \<and>
      (p = 0 \<and> (\<forall>j. \<not> occurs needle hay j) \<or> (\<exists>j. p = a + j \<and> occurs needle hay j \<and> (\<forall>j'<j. \<not> occurs needle hay j')))"
proof (induction k arbitrary: i)
  case 0
  then have "\<not> occurs needle hay j" for j by (cases "j < i") (auto simp: occurs_def)
  then show ?case by simp
next
  case (Suc k)
  have le: "i + length needle \<le> length hay" using Suc.prems(1) by simp
  have hs: "holds m (a + i) (slice hay i (length needle))"
    using str_atD(3) [OF h] le by (auto simp: holds_def nth_slice add.assoc)
  have l: "length (slice hay i (length needle)) = length needle" using le by simp
  have a0: "a + i \<noteq> 0" "b \<noteq> 0" using str_atD(1) [OF h] str_atD(1) [OF n] by simp_all
  note mc = memcmp_ok [OF hs str_atD(3) [OF n] l a0, unfolded l]
  show ?case
  proof (cases "slice hay i (length needle) = needle")
    case True
    then have "occurs needle hay i" using le by (simp add: occurs_def)
    then show ?thesis using mc True Suc.prems(2) by auto
  next
    case False
    then have ni: "\<forall>j<i + 1. \<not> occurs needle hay j" using Suc.prems(2) by (auto simp: occurs_def less_Suc_eq)
    have "memcmp (a + i) b (length needle) m \<noteq> Some 0" using mc False by (auto simp: not_less_iff_gr_or_eq)
    then show ?thesis using Suc.IH [of "i + 1"] Suc.prems(1) ni mc by auto
  qed
qed

section \<open>Tokens\<close>

definition skipped :: "u8 list \<Rightarrow> u8 list \<Rightarrow> u8 list" where
  "skipped cs xs = dropWhile (\<lambda>x. x \<in> set cs) xs"

definition first_token :: "u8 list \<Rightarrow> u8 list \<Rightarrow> u8 list" where
  "first_token cs xs = takeWhile (\<lambda>x. x \<notin> set cs) (skipped cs xs)"

definition later :: "u8 list \<Rightarrow> u8 list \<Rightarrow> u8 list" where
  "later cs xs = drop 1 (dropWhile (\<lambda>x. x \<notin> set cs) (skipped cs xs))"

lemma token_nonempty: "skipped cs xs \<noteq> [] \<Longrightarrow> first_token cs xs \<noteq> []"
  unfolding skipped_def first_token_def using hd_dropWhile [of "\<lambda>x. x \<in> set cs" xs]
  by (cases "dropWhile (\<lambda>x. x \<in> set cs) xs") auto

lemma later_shorter: "skipped cs xs \<noteq> [] \<Longrightarrow> length (later cs xs) < length xs"
proof -
  assume a: "skipped cs xs \<noteq> []"
  have "length (skipped cs xs) \<le> length xs" unfolding skipped_def by (rule length_dropWhile_le)
  moreover have "length (first_token cs xs) + length (dropWhile (\<lambda>x. x \<notin> set cs) (skipped cs xs)) = length (skipped cs xs)"
    unfolding first_token_def by (simp flip: length_append)
  ultimately show ?thesis using token_nonempty [OF a] by (simp add: later_def) (cases "first_token cs xs"; simp)
qed

function tokens :: "u8 list \<Rightarrow> u8 list \<Rightarrow> u8 list list" where
  "tokens cs xs = (if skipped cs xs = [] then [] else first_token cs xs # tokens cs (later cs xs))"
  by pat_completeness auto
termination
  by (relation "measure (\<lambda>(cs, xs). length xs)") (simp_all add: later_shorter)

declare tokens.simps [simp del]

text \<open>The last token of a string, if it is not empty, and how a token ends.\<close>

definition finish :: "u8 list \<Rightarrow> u8 list list" where
  "finish cur = (if cur = [] then [] else [cur])"

lemma skipped_prefix: "\<forall>x\<in>set cur. x \<notin> set ds \<Longrightarrow> cur \<noteq> [] \<Longrightarrow> skipped ds (cur @ xs) = cur @ xs"
  by (cases cur) (simp_all add: skipped_def)

lemma tokens_end: "\<forall>x\<in>set cur. x \<notin> set ds \<Longrightarrow> cur \<noteq> [] \<Longrightarrow> d \<in> set ds \<Longrightarrow>
  tokens ds (cur @ d # xs) = cur # tokens ds xs"
proof -
  assume a: "\<forall>x\<in>set cur. x \<notin> set ds" "cur \<noteq> []" "d \<in> set ds"
  have s: "skipped ds (cur @ d # xs) = cur @ d # xs" using skipped_prefix [OF a(1,2)] .
  have "takeWhile (\<lambda>x. x \<notin> set ds) (cur @ d # xs) = cur" "dropWhile (\<lambda>x. x \<notin> set ds) (cur @ d # xs) = d # xs"
    using a(1,3) by (subst takeWhile_append2 dropWhile_append2; simp)+
  then show ?thesis using s a(2) by (subst tokens.simps) (simp add: first_token_def later_def)
qed

lemma tokens_skip: "d \<in> set ds \<Longrightarrow> tokens ds (d # xs) = tokens ds xs"
proof -
  assume "d \<in> set ds"
  then have "skipped ds (d # xs) = skipped ds xs" by (simp add: skipped_def)
  then show ?thesis by (subst (1 2) tokens.simps) (simp add: first_token_def later_def)
qed

lemma tokens_last: "\<forall>x\<in>set cur. x \<notin> set ds \<Longrightarrow> tokens ds cur = finish cur"
proof (cases "cur = []")
  case True
  then show ?thesis by (subst tokens.simps) (simp add: skipped_def finish_def)
next
  case False
  assume a: "\<forall>x\<in>set cur. x \<notin> set ds"
  have s: "skipped ds cur = cur" using skipped_prefix [OF a False, of "[]"] by simp
  have t: "takeWhile (\<lambda>x. x \<notin> set ds) cur = cur" "dropWhile (\<lambda>x. x \<notin> set ds) cur = []" using a by auto
  have "tokens ds [] = []" by (subst tokens.simps) (simp add: skipped_def)
  moreover have "first_token ds cur = cur" "later ds cur = []" unfolding first_token_def later_def s t by simp_all
  ultimately show ?thesis using s False by (subst tokens.simps) (simp add: finish_def)
qed

text \<open>The loop of a client that breaks a string into tokens.\<close>

partial_function (option) strtok_all :: "nat \<Rightarrow> nat \<Rightarrow> nat \<Rightarrow> mem \<Rightarrow> (nat list \<times> mem) option" where
  "strtok_all s ds save m = do {
     (t, save1, m1) \<leftarrow> strtok_r s ds save m;
     (if t = 0 then Some ([], m1)
      else do { (ts, m2) \<leftarrow> strtok_all 0 ds save1 m1; Some (t # ts, m2) })
   }"

lemma skip_delims_ok:
  assumes "str_at m ds cs"
  shows "str_at m s xs \<Longrightarrow> skip_delims ds s m =
    Some (dropWhile (\<lambda>x. x \<in> set cs) xs \<noteq> [], s + length (takeWhile (\<lambda>x. x \<in> set cs) xs))"
proof (induction xs arbitrary: s)
  case Nil
  obtain p where "strchr ds 0 m = Some p" "p \<noteq> 0" using strchr_found [OF assms, of 0] by auto
  then show ?case using Nil by (subst skip_delims.simps) simp
next
  case (Cons x xs)
  obtain p where p: "strchr ds x m = Some p" "p = 0 \<longleftrightarrow> x \<notin> set cs \<and> x \<noteq> 0" using strchr_found [OF assms] by blast
  then show ?case using Cons by (subst skip_delims.simps) auto
qed

lemma skip_token_ok:
  assumes "str_at m ds cs"
  shows "str_at m s xs \<Longrightarrow> skip_token ds s m = Some (s + length (takeWhile (\<lambda>x. x \<notin> set cs) xs))"
proof (induction xs arbitrary: s)
  case Nil
  obtain p where "strchr ds 0 m = Some p" "p \<noteq> 0" using strchr_found [OF assms, of 0] by auto
  then show ?case using Nil by (subst skip_token.simps) simp
next
  case (Cons x xs)
  obtain p where p: "strchr ds x m = Some p" "p = 0 \<longleftrightarrow> x \<notin> set cs \<and> x \<noteq> 0" using strchr_found [OF assms] by blast
  then show ?case using Cons by (subst skip_token.simps) auto
qed

lemma str_at_drop: "str_at m a (xs @ ys) \<Longrightarrow> str_at m (a + length xs) ys"
proof (induction xs arbitrary: a)
  case (Cons x xs)
  have "str_at m (Suc a) (xs @ ys)" using Cons.prems by simp
  from Cons.IH [OF this] show ?case by simp
qed simp

lemma str_at_cut:
  assumes "str_at m a (xs @ y # ys)"
  shows "str_at (m(a + length xs \<mapsto> 0)) a xs" "str_at (m(a + length xs \<mapsto> 0)) (a + length xs + 1) ys"
proof -
  have a: "a \<noteq> 0" "0 \<notin> set xs" "holds m a xs" "str_at m (a + length xs) (y # ys)"
    using assms str_at_append [of a m xs "y # ys"] str_atD(1) [OF assms] by auto
  have "holds (m(a + length xs \<mapsto> 0)) a xs" by (rule holds_upd [THEN iffD2, OF _ a(3)]) simp
  then show "str_at (m(a + length xs \<mapsto> 0)) a xs" using a(1,2) by (simp add: str_at_def holds_append)
  have "holds m (a + length xs + 1) (ys @ [0])" "0 \<notin> set ys" using a(4) by (auto simp: str_at_def)
  then have "holds (m(a + length xs \<mapsto> 0)) (a + length xs + 1) (ys @ [0])" by (intro holds_upd [THEN iffD2]) simp_all
  then show "str_at (m(a + length xs \<mapsto> 0)) (a + length xs + 1) ys" using \<open>0 \<notin> set ys\<close> by (simp add: str_at_def)
qed

lemma str_at_cong:
  assumes "str_at m a xs" "\<And>i. i \<le> length xs \<Longrightarrow> m' (a + i) = m (a + i)"
  shows "str_at m' a xs"
  using assms by (simp add: str_at_def holds_def)

text \<open>One call: the next token, or the end of the string.\<close>

definition token_read :: "u8 list \<Rightarrow> nat \<Rightarrow> u8 list \<Rightarrow> mem \<Rightarrow> nat \<Rightarrow> nat \<Rightarrow> mem \<Rightarrow> bool" where
  "token_read cs cur xs m t save1 m1 \<longleftrightarrow> t \<noteq> 0 \<and> cur \<le> t \<and> str_at m1 t (first_token cs xs) \<and>
     str_at m1 save1 (later cs xs) \<and> t + length (first_token cs xs) \<le> save1 \<and>
     save1 + length (later cs xs) = cur + length xs \<and>
     (\<forall>y. y < cur \<or> cur + length xs \<le> y \<longrightarrow> m1 y = m y)"

lemma strtok_r_ok:
  assumes d: "str_at m ds cs" and x: "str_at m cur xs" "cur = (if s = 0 then save else s)"
  shows "\<exists>t save1 m1. strtok_r s ds save m = Some (t, save1, m1) \<and>
    (if skipped cs xs = [] then t = 0 \<and> m1 = m else token_read cs cur xs m t save1 m1)"
proof -
  define pre ts where "pre = takeWhile (\<lambda>x. x \<in> set cs) xs" and "ts = skipped cs xs"
  define tok rest where "tok = first_token cs xs" and "rest = dropWhile (\<lambda>x. x \<notin> set cs) ts"
  have xs: "xs = pre @ ts" and ts: "ts = tok @ rest" and la: "later cs xs = drop 1 rest"
    by (simp_all add: pre_def ts_def tok_def rest_def skipped_def first_token_def later_def)
  have lx: "length xs = length pre + length tok + length rest" by (subst xs, subst ts) simp
  have cur: "cur \<noteq> 0" "ds \<noteq> 0" using str_atD(1) x(1) d by blast+
  define t e where "t = cur + length pre" and "e = t + length tok"
  have tsa: "str_at m t ts" unfolding t_def using str_at_drop x(1) xs by metis
  have sd: "skip_delims ds cur m = Some (ts \<noteq> [], t)"
    using skip_delims_ok [OF d x(1)] by (simp add: ts_def skipped_def t_def pre_def)
  have st: "skip_token ds t m = Some e"
    using skip_token_ok [OF d tsa] by (simp add: tok_def e_def first_token_def ts_def)
  have s0: "(if s = 0 then save else s) = cur" using x(2) by simp
  show ?thesis
  proof (cases "ts = []")
    case True
    then have "strtok_r s ds save m = Some (0, t, m)"
      using sd s0 cur by (simp add: strtok_r_def Let_def)
    then show ?thesis using True by (simp add: ts_def)
  next
    case False
    show ?thesis
    proof (cases rest)
      case Nil
      then have e: "str_at m t tok" "m e = Some 0" using tsa ts str_atD(4) [of m t tok] by (simp_all add: e_def)
      have "strtok_r s ds save m = Some (t, e, m)"
        using sd st False s0 cur e(2) by (simp add: strtok_r_def Let_def)
      moreover have "token_read cs cur xs m t e m"
        unfolding token_read_def la Nil tok_def [symmetric] using e cur lx Nil by (simp add: e_def t_def)
      ultimately show ?thesis using False by (auto simp: ts_def)
    next
      case (Cons y ys)
      then have sa: "str_at m t (tok @ y # ys)" using tsa ts by simp
      have e: "m e = Some y" "y \<noteq> 0" using str_at_drop [OF sa] by (simp_all add: e_def)
      note cut = str_at_cut [OF sa, folded e_def]
      have "strtok_r s ds save m = Some (t, e + 1, m(e \<mapsto> 0))"
        using sd st False s0 cur e by (simp add: strtok_r_def Let_def store_byte_def)
      moreover have "token_read cs cur xs m t (e + 1) (m(e \<mapsto> 0))"
        unfolding token_read_def la Cons tok_def [symmetric] using cut cur lx Cons by (simp add: e_def t_def)
      ultimately show ?thesis using False by (auto simp: ts_def)
    qed
  qed
qed

lemma strtok_all_ok:
  assumes "str_at m ds cs" "str_at m cur xs" "cur = (if s = 0 then save else s)"
    "apart cur (length xs + 1) ds (length cs + 1)"
  shows "\<exists>ts m'. strtok_all s ds save m = Some (ts, m') \<and> list_all2 (str_at m') ts (tokens cs xs) \<and>
    (\<forall>y. y < cur \<or> cur + length xs \<le> y \<longrightarrow> m' y = m y)"
  using assms
proof (induction "length xs" arbitrary: xs cur s save m rule: less_induct)
  case less
  obtain t save1 m1 where r: "strtok_r s ds save m = Some (t, save1, m1)"
    "if skipped cs xs = [] then t = 0 \<and> m1 = m else token_read cs cur xs m t save1 m1"
    using strtok_r_ok [OF less.prems(1-3)] by blast
  show ?case
  proof (cases "skipped cs xs = []")
    case True
    then show ?thesis using r by (subst strtok_all.simps, subst tokens.simps) simp
  next
    case False
    then have p: "t \<noteq> 0" "cur \<le> t" "str_at m1 t (first_token cs xs)" "str_at m1 save1 (later cs xs)"
      "t + length (first_token cs xs) \<le> save1" "save1 + length (later cs xs) = cur + length xs"
      "\<forall>y. y < cur \<or> cur + length xs \<le> y \<longrightarrow> m1 y = m y"
      using r(2) by (simp_all add: token_read_def)
    have ap: "cur + (length xs + 1) \<le> ds \<or> ds + (length cs + 1) \<le> cur" using less.prems(4) by (simp add: apart_def)
    have d1: "str_at m1 ds cs"
      by (rule str_at_cong [OF less.prems(1)]) (use p(7) ap in \<open>auto\<close>)
    have ap1: "apart save1 (length (later cs xs) + 1) ds (length cs + 1)"
      using p(2,5,6) ap by (auto simp: apart_def)
    from less.hyps [OF later_shorter [OF False] d1 p(4) _ ap1, of 0 save1]
    obtain ts m' where i: "strtok_all 0 ds save1 m1 = Some (ts, m')" "list_all2 (str_at m') ts (tokens cs (later cs xs))"
      "\<forall>y. y < save1 \<or> save1 + length (later cs xs) \<le> y \<longrightarrow> m' y = m1 y" by auto
    have "str_at m' t (first_token cs xs)"
    proof (rule str_at_cong [OF p(3)])
      fix k assume k: "k \<le> length (first_token cs xs)"
      show "m' (t + k) = m1 (t + k)"
      proof (cases "t + k < save1")
        case True
        then show ?thesis using i(3) by blast
      next
        case False
        then have "t + k = save1" "k = length (first_token cs xs)" using k p(5) by linarith+
        then have "m1 save1 = Some 0" using str_atD(4) [OF p(3)] by simp
        then have "later cs xs = []" using p(4) by (cases "later cs xs") auto
        then show ?thesis using i(3) \<open>t + k = save1\<close> by auto
      qed
    qed
    moreover have "\<forall>y. y < cur \<or> cur + length xs \<le> y \<longrightarrow> m' y = m y" using i(3) p(2,5,6,7) by auto
    ultimately show ?thesis
      using r(1) p(1) i(1,2) False by (subst strtok_all.simps, subst tokens.simps) simp
  qed
qed

lemma tokens_pieces: "concat (tokens cs xs) = filter (\<lambda>x. x \<notin> set cs) xs \<and> [] \<notin> set (tokens cs xs)"
proof (induction cs xs rule: tokens.induct)
  case (1 cs xs)
  let ?N = "\<lambda>x. x \<notin> set cs"
  let ?r = "dropWhile ?N (skipped cs xs)"
  have e: "xs = takeWhile (\<lambda>x. x \<in> set cs) xs @ first_token cs xs @ ?r"
    unfolding first_token_def by (simp add: skipped_def)
  have "filter ?N (takeWhile (\<lambda>x. x \<in> set cs) xs) = []" by (auto simp: filter_empty_conv dest: set_takeWhileD)
  moreover have "filter ?N (first_token cs xs) = first_token cs xs"
    unfolding first_token_def by (rule filter_True) (auto dest: set_takeWhileD)
  moreover have "filter ?N ?r = filter ?N (later cs xs)"
  proof (cases ?r)
    case Nil
    then show ?thesis unfolding later_def by (simp only: drop_Nil)
  next
    case (Cons y ys)
    then have "\<not> ?N y" using hd_dropWhile [of ?N "skipped cs xs"] by (metis list.sel(1) list.distinct(1))
    then show ?thesis by (simp add: later_def Cons)
  qed
  ultimately have f: "filter ?N xs = first_token cs xs @ filter ?N (later cs xs)" by (subst e) (simp only: filter_append append_Nil)
  show ?case
  proof (cases "skipped cs xs = []")
    case True
    then show ?thesis using f by (subst (1 2) tokens.simps) (simp add: first_token_def later_def)
  next
    case False
    then show ?thesis using f "1.IH" [OF False] token_nonempty [OF False] by (subst (1 2) tokens.simps) simp
  qed
qed

section \<open>Bounded copies\<close>

lemma strlcpy_ok:
  assumes x: "str_at m src xs" and d: "mapped m dst n" "dst \<noteq> 0" "0 < n" and a: "apart src (length xs + 1) dst n"
  shows "\<exists>m'. strlcpy dst src n m = Some (length xs, m') \<and> str_at m' dst (take (n - 1) xs) \<and>
    (\<forall>y. y < dst \<or> dst + n \<le> y \<longrightarrow> m' y = m y)"
proof -
  define k bs where "k = min (length xs) (n - 1)" and "bs = take (n - 1) xs"
  have k: "length bs = k" "k < n" "k \<le> length xs" using d(3) by (auto simp: k_def bs_def)
  have h: "holds m src bs" using str_atD(3) [OF x] by (simp add: holds_def bs_def)
  have dm: "mapped m dst (length bs)" "m (dst + k) \<noteq> None" using d(1) k by (simp_all add: mapped_def)
  have ov: "dst \<le> src \<or> src + length bs \<le> dst" using a k by (auto simp: apart_def)
  note mc = memcpy_ok [OF h dm(1) ov d(2) str_atD(1) [OF x], unfolded k(1)]
  define m' where "m' = (put m dst bs)(dst + k \<mapsto> 0)"
  have sb: "store_byte (dst + k) 0 (put m dst bs) = Some m'"
    using dm(2) k(1) by (simp add: store_byte_def m'_def put_out)
  have "(if length xs < n - 1 then length xs else n - 1) = k" by (simp add: k_def)
  then have "strlcpy dst src n m = Some (length xs, m')"
    using d(2,3) str_atD(1) [OF x] strlen_ok [OF x] mc sb by (simp add: strlcpy_def Let_def)
  moreover have "str_at m' dst bs"
  proof -
    have "holds m' dst bs" unfolding m'_def by (rule holds_upd [THEN iffD2, OF _ holds_put]) (simp add: k(1))
    moreover have "0 \<notin> set bs" using str_atD(2) [OF x] set_take_subset [of "n - 1" xs] by (auto simp: bs_def)
    ultimately show ?thesis using d(2) k(1) by (simp add: str_at_def holds_append m'_def)
  qed
  moreover have "\<forall>y. y < dst \<or> dst + n \<le> y \<longrightarrow> m' y = m y" using k(1,2) by (auto simp: m'_def put_out)
  ultimately show ?thesis by (auto simp: bs_def)
qed

lemma strlcat_ok:
  assumes x: "str_at m src xs" "str_at m dst ys" and d: "mapped m dst n" "length ys < n" and a: "apart src (length xs + 1) dst n"
  shows "\<exists>m'. strlcat dst src n m = Some (length xs + length ys, m') \<and> str_at m' dst (take (n - 1) (ys @ xs)) \<and>
    (\<forall>y. y < dst \<or> dst + n \<le> y \<longrightarrow> m' y = m y)"
proof -
  define l k bs where "l = length ys" and "k = min (length xs) (n - l - 1)" and "bs = take (n - l - 1) xs"
  have k: "length bs = k" "l + k < n" "k \<le> length xs" using d(2) by (auto simp: k_def bs_def l_def)
  have h: "holds m src bs" using str_atD(3) [OF x(1)] by (simp add: holds_def bs_def)
  have dm: "mapped m (dst + l) (length bs)" "m (dst + l + k) \<noteq> None" using d(1) k by (simp_all add: mapped_def add.assoc)
  have ov: "dst + l \<le> src \<or> src + length bs \<le> dst + l" using a k by (auto simp: apart_def)
  have d0: "dst + l \<noteq> 0" using str_atD(1) [OF x(2)] by simp
  note mc = memcpy_ok [OF h dm(1) ov d0 str_atD(1) [OF x(1)], unfolded k(1)]
  define m' where "m' = (put m (dst + l) bs)(dst + l + k \<mapsto> 0)"
  have sb: "store_byte (dst + l + k) 0 (put m (dst + l) bs) = Some m'"
    using dm(2) k(1) by (simp add: store_byte_def m'_def put_out)
  have "(if length xs < n - length ys - 1 then length xs else n - length ys - 1) = k" by (simp add: k_def l_def)
  then have "strlcat dst src n m = Some (length xs + length ys, m')"
    using d(2) str_atD(1) [OF x(1)] str_atD(1) [OF x(2)] strlen_ok [OF x(1)] strlen_ok [OF x(2)] mc sb
    by (simp add: strlcat_def Let_def l_def)
  moreover have "str_at m' dst (ys @ bs)"
  proof -
    have "holds m' (dst + l) bs" unfolding m'_def by (rule holds_upd [THEN iffD2, OF _ holds_put]) (simp add: k(1))
    moreover have "holds m' dst ys"
    proof -
      have "holds (put m (dst + l) bs) dst ys"
        by (rule holds_put_out [THEN iffD2, OF _ str_atD(3) [OF x(2)]]) (simp add: apart_def l_def)
      then show ?thesis unfolding m'_def by (rule holds_upd [THEN iffD2, rotated]) (simp add: l_def)
    qed
    moreover have "0 \<notin> set bs" using str_atD(2) [OF x(1)] set_take_subset [of "n - l - 1" xs] by (auto simp: bs_def)
    ultimately show ?thesis
      using str_atD(1,2) [OF x(2)] k(1) by (simp add: str_at_def holds_append m'_def l_def add.assoc)
  qed
  moreover have "\<forall>y. y < dst \<or> dst + n \<le> y \<longrightarrow> m' y = m y" using k(1,2) by (auto simp: m'_def put_out)
  moreover have "take (n - 1) (ys @ xs) = ys @ bs" using d(2) by (simp add: bs_def l_def)
  ultimately show ?thesis by auto
qed

section \<open>Properties\<close>

text \<open>A small memory: the strings "a,b" at 10, "," at 20 and "ab" at 30, and 8 bytes at 40.\<close>

definition demo_mem :: mem where
  "demo_mem = put (put (put (put Map.empty 10 [97, 44, 98, 0]) 20 [44, 0]) 30 [97, 98, 0]) 40 (replicate 8 0)"

lemma demo_mem_strings: "str_at demo_mem 10 [97, 44, 98]" "str_at demo_mem 20 [44]" "str_at demo_mem 30 [97, 98]"
  "mapped demo_mem 40 8" "mapped demo_mem 11 2"
  by (simp_all add: demo_mem_def put_def) (auto simp: mapped_def)

text \<open>
  C32. \<open>memmove\<close> copies a block wherever source and destination lie, also when they overlap, and
  \<open>memcpy\<close> does when they do not; nothing else changes. (\<open>memmove\<close> does not return the
  destination, as its comment says, but its end, when the destination is below the source.)
  \<open>strlcpy\<close> and \<open>strlcat\<close> never write outside the \<open>size\<close> bytes of the destination, leave a
  terminated string, the longest prefix that fits, and return the length that was asked for.
\<close>

theorem bounded_copies:
  assumes "holds m src bs" "mapped m dst (length bs)" "dst \<noteq> 0" "src \<noteq> 0"
    and "str_at m sx xs" "mapped m dx n" "dx \<noteq> 0" "0 < n" "apart sx (length xs + 1) dx n"
  shows "memmove dst src (length bs) m = Some (if dst < src then dst + length bs else dst, put m dst bs) \<and>
    (apart dst (length bs) src (length bs) \<longrightarrow> memcpy dst src (length bs) m = Some (dst, put m dst bs)) \<and>
    (\<exists>m'. strlcpy dx sx n m = Some (length xs, m') \<and> str_at m' dx (take (n - 1) xs) \<and>
      (\<forall>y. y < dx \<or> dx + n \<le> y \<longrightarrow> m' y = m y)) \<and>
    (\<forall>ys. str_at m dx ys \<and> length ys < n \<longrightarrow>
      (\<exists>m'. strlcat dx sx n m = Some (length xs + length ys, m') \<and> str_at m' dx (take (n - 1) (ys @ xs)) \<and>
        (\<forall>y. y < dx \<or> dx + n \<le> y \<longrightarrow> m' y = m y)))"
proof (intro conjI impI allI)
  show "memmove dst src (length bs) m = Some (if dst < src then dst + length bs else dst, put m dst bs)"
    using assms(3,4) copy_up_ok [OF assms(1,2)] copy_down_ok [OF assms(1,2)] by (simp add: memmove_def)
  show "memcpy dst src (length bs) m = Some (dst, put m dst bs)" if "apart dst (length bs) src (length bs)"
    using that by (intro memcpy_ok assms) (auto simp: apart_def)
  show "\<exists>m'. strlcpy dx sx n m = Some (length xs, m') \<and> str_at m' dx (take (n - 1) xs) \<and>
      (\<forall>y. y < dx \<or> dx + n \<le> y \<longrightarrow> m' y = m y)"
    by (rule strlcpy_ok [OF assms(5-9)])
  show "\<exists>m'. strlcat dx sx n m = Some (length xs + length ys, m') \<and> str_at m' dx (take (n - 1) (ys @ xs)) \<and>
      (\<forall>y. y < dx \<or> dx + n \<le> y \<longrightarrow> m' y = m y)" if "str_at m dx ys \<and> length ys < n" for ys
    using that by (intro strlcat_ok assms) simp_all
qed

theorem bounded_copies_witness:
  "memmove 11 10 2 demo_mem = Some (11, put demo_mem 11 [97, 44]) \<and>
   (\<exists>m'. strlcpy 40 10 3 demo_mem = Some (3, m') \<and> str_at m' 40 [97, 44])"
proof -
  have h: "holds demo_mem 10 [97, 44]" using demo_mem_strings(1) by simp
  have m: "mapped demo_mem 11 (length [97, 44 :: u8])" using demo_mem_strings(5) by (simp add: numeral_2_eq_2)
  have d: "mapped demo_mem 40 3" using demo_mem_strings(4) by (simp add: mapped_def)
  show ?thesis
    using bounded_copies [OF h m _ _ demo_mem_strings(1) d]
    by (simp add: apart_def numeral_2_eq_2 numeral_3_eq_3) blast
qed

text \<open>
  The searches are the operations on byte strings: \<open>strlen\<close> the length, \<open>strcmp\<close> and \<open>memcmp\<close>
  the lexicographic order of the bytes, \<open>strchr\<close>, \<open>strrchr\<close> and \<open>strpbrk\<close> the first or last
  occurrence or a null pointer, \<open>strspn\<close> and \<open>strcspn\<close> the longest prefixes, \<open>strstr\<close> the first
  occurrence of the second string, and all of them read only the strings. \<open>strnlen\<close> reads the byte
  after the limit, and fails when it is not there.
\<close>

lemma string_searches:
  assumes a: "str_at m a xs" and b: "str_at m b ys"
  shows "strlen a m = Some (length xs) \<and>
    strcmp a b m = Some (if xs < ys then - 1 else if ys < xs then 1 else 0) \<and>
    strchr a c m = Some (first_at (\<lambda>x. x = c) a (xs @ [0])) \<and>
    strrchr a k m = Some (if word_of_int k \<in> set xs then a + (length xs - 1 -
      length (takeWhile (\<lambda>x. x \<noteq> word_of_int k) (rev xs))) else 0) \<and>
    strpbrk a b m = Some (first_at (\<lambda>x. x \<in> set ys) a xs) \<and>
    strspn a b m = Some (length (takeWhile (\<lambda>x. x \<in> set ys) xs)) \<and>
    strcspn a b m = Some (length (takeWhile (\<lambda>x. x \<notin> set ys) xs)) \<and>
    (\<exists>p. strstr a b m = Some p \<and> (p = 0 \<and> (\<forall>j. \<not> occurs ys xs j) \<or>
      (\<exists>j. p = a + j \<and> occurs ys xs j \<and> (\<forall>j'<j. \<not> occurs ys xs j')))) \<and>
    memchr a k (length xs) m = Some (first_at (\<lambda>x. x = word_of_int k) a xs) \<and>
    strnlen a n m = Some (min n (length xs)) \<and>
    strnlen a n (\<lambda>x. if x < a + n then m x else None) = (if n \<le> length xs then None else Some (length xs))"
proof -
  have a0: "a + 0 = a" by simp
  have sp: "strspn a b m = Some (length (takeWhile (\<lambda>x. x \<in> set ys) xs))"
    "strcspn a b m = Some (length (takeWhile (\<lambda>x. x \<notin> set ys) xs))"
    using span_loop_ok [OF b, of a 0 xs] a by (simp_all add: strspn_def strcspn_def)
  have ss: "\<exists>p. strstr a b m = Some p \<and> (p = 0 \<and> (\<forall>j. \<not> occurs ys xs j) \<or>
      (\<exists>j. p = a + j \<and> occurs ys xs j \<and> (\<forall>j'<j. \<not> occurs ys xs j')))"
  proof (cases "length ys \<le> length xs")
    case True
    then show ?thesis
      using strstr_loop_ok [OF a b, of 0 "length xs - length ys + 1"] by (simp add: strstr_def strlen_ok [OF a] strlen_ok [OF b])
  next
    case False
    then have "\<not> occurs ys xs j" for j by (simp add: occurs_def)
    then show ?thesis using False by (simp add: strstr_def strlen_ok [OF a] strlen_ok [OF b])
  qed
  have pre: "holds m (a + 0) (take n xs)" "0 \<notin> set (take n xs)" "\<exists>y. m (a + 0 + length (take n xs)) = Some y \<and> (y = 0 \<or> n < length xs)"
    using str_atD(2-4) [OF a] set_take_subset [of n xs] by (auto simp: holds_def min_def)
  then have sn: "strnlen a n m = Some (min n (length xs))"
    using strnlen_loop_ok [of m a 0 "take n xs" _ n] by (auto simp: strnlen_def min_def not_less)
  let ?m = "\<lambda>x. if x < a + n then m x else None"
  have cut: "strnlen_loop a n k ?m = (if n \<le> length xs then None else Some (length xs))" if "k \<le> min n (length xs)" for k
    using that
  proof (induction "min n (length xs) - k" arbitrary: k)
    case 0
    then show ?case using str_atD(4) [OF a] by (subst strnlen_loop.simps) (auto simp: min_def split: if_splits)
  next
    case (Suc d)
    then have k: "k < n" "k < length xs" by simp_all
    then have "m (a + k) = Some (xs ! k)" "xs ! k \<noteq> 0" using str_atD(2,3) [OF a] by (auto simp: holds_def in_set_conv_nth)
    then show ?case using Suc.hyps(1) [of "k + 1"] Suc.hyps(2) k by (subst strnlen_loop.simps) simp
  qed
  have "strnlen a n ?m = (if n \<le> length xs then None else Some (length xs))" using cut [of 0] by (simp add: strnlen_def)
  moreover have "memchr a k (length xs) m = Some (first_at (\<lambda>x. x = word_of_int k) a xs)"
    using memchr_loop_ok [OF str_atD(3) [OF a]] str_atD(1) [OF a] by (simp add: memchr_def)
  moreover have "strrchr a k m = Some (if word_of_int k \<in> set xs then a + (length xs - 1 -
      length (takeWhile (\<lambda>x. x \<noteq> word_of_int k) (rev xs))) else 0)"
    using strrchr_ok [OF a] by (simp add: strrchr_def last_at_value)
  ultimately show ?thesis
    using strlen_ok [OF a] strcmp_ok [OF a b] strchr_ok [OF a] strpbrk_ok [OF b a] sp ss sn by simp
qed

lemma string_searches_example:
  "strlen 10 demo_mem = Some 3 \<and> strcmp 10 30 demo_mem = Some (- 1) \<and> strchr 10 98 demo_mem = Some 12 \<and>
   strcspn 10 20 demo_mem = Some 1"
  using string_searches [OF demo_mem_strings(1,3), of 98 0 0] string_searches [OF demo_mem_strings(1,2), of 98 0 0] by simp

text \<open>
  Calling \<open>strtok_r\<close> on a string until it returns a null pointer yields exactly the maximal
  pieces of the string without delimiters, in order, each a terminated string in place; nothing
  outside the string is written, and it always ends.
\<close>

lemma strtok_tokens:
  assumes "str_at m s xs" "str_at m ds cs" "apart s (length xs + 1) ds (length cs + 1)"
  shows "\<exists>ts m'. strtok_all s ds save m = Some (ts, m') \<and> list_all2 (str_at m') ts (tokens cs xs) \<and>
    concat (tokens cs xs) = filter (\<lambda>x. x \<notin> set cs) xs \<and> [] \<notin> set (tokens cs xs) \<and>
    (\<forall>y. y < s \<or> s + length xs \<le> y \<longrightarrow> m' y = m y)"
proof -
  show ?thesis
    using strtok_all_ok [OF assms(2,1) _ assms(3), of s save] str_atD(1) [OF assms(1)] tokens_pieces [of cs xs] by auto
qed

lemma strtok_tokens_example:
  "\<exists>ts m'. strtok_all 10 20 0 demo_mem = Some (ts, m') \<and> list_all2 (str_at m') ts (tokens [44] [97, 44, 98])"
  using strtok_tokens [OF demo_mem_strings(1,2), of 0] by (auto simp: apart_def)

end
