(* ===== verification/Hash.thy ===== *)
theory Hash
  imports Cstring "HOL-Library.Multiset"
begin

text \<open>
  The hash tables of \<open>lib/kernel/hash.c\<close>. An element is its address, a \<open>u32\<close> (0 is the null
  pointer); a bucket is the sequence of the elements of its list (the links are the subject of theory
  \<open>Klist\<close>). The callbacks \<open>hash\<close> and \<open>less\<close>, with their auxiliary data, are parameters.
  \<open>hmem n\<close> is the answer of the n-th call of \<open>malloc\<close>; \<open>None\<close> is undefined behaviour, a
  failed assertion or a loop that does not end.
\<close>

section \<open>The code\<close>

record hash_tab =
  elem_cnt :: u32
  bucket_cnt :: u32
  buckets :: "u32 list list"
  hallocs :: nat
  hmem :: "nat \<Rightarrow> bool"

text \<open>\<open>malloc (size)\<close>, which returns a null pointer for 0 bytes.\<close>

definition halloc :: "u32 \<Rightarrow> hash_tab \<Rightarrow> bool \<times> hash_tab" where
  "halloc sz h = (sz \<noteq> 0 \<and> hmem h (hallocs h), h\<lparr>hallocs := hallocs h + 1\<rparr>)"

definition turn_off_least_1bit :: "u32 \<Rightarrow> u32" where
  "turn_off_least_1bit x = x AND (x - 1)"

definition is_power_of_2 :: "u32 \<Rightarrow> bool" where
  "is_power_of_2 x \<longleftrightarrow> x \<noteq> 0 \<and> turn_off_least_1bit x = 0"

definition find_bucket :: "(u32 \<Rightarrow> u32) \<Rightarrow> hash_tab \<Rightarrow> u32 \<Rightarrow> nat" where
  "find_bucket hf h e = unat (hf e AND (bucket_cnt h - 1))"

fun find_elem :: "(u32 \<Rightarrow> u32 \<Rightarrow> bool) \<Rightarrow> u32 list \<Rightarrow> u32 \<Rightarrow> u32" where
  "find_elem lf [] e = 0"
| "find_elem lf (hi # es) e = (if \<not> lf hi e \<and> \<not> lf e hi then hi else find_elem lf es e)"

definition bucket_at :: "hash_tab \<Rightarrow> nat \<Rightarrow> u32 list option" where
  "bucket_at h i = (if i < length (buckets h) then Some (buckets h ! i) else None)"

definition insert_elem :: "nat \<Rightarrow> u32 \<Rightarrow> hash_tab \<Rightarrow> hash_tab option" where
  "insert_elem i e h = do {
     b \<leftarrow> bucket_at h i;
     Some (h\<lparr>elem_cnt := elem_cnt h + 1, buckets := (buckets h)[i := e # b]\<rparr>)
   }"

text \<open>\<open>list_remove\<close> takes the element out of the list that it is on.\<close>

definition remove_elem :: "u32 \<Rightarrow> hash_tab \<Rightarrow> hash_tab option" where
  "remove_elem e h = do {
     kassert (\<exists>b\<in>set (buckets h). e \<in> set b);
     Some (h\<lparr>elem_cnt := elem_cnt h - 1, buckets := map (remove1 e) (buckets h)\<rparr>)
   }"

partial_function (option) pow2_loop :: "u32 \<Rightarrow> u32 option" where
  "pow2_loop n = (if \<not> is_power_of_2 n then pow2_loop (turn_off_least_1bit n) else Some n)"

definition new_bucket_cnt :: "u32 \<Rightarrow> u32 option" where
  "new_bucket_cnt elems = (let n = elems div 2 in pow2_loop (if n < 4 then 4 else n))"

text \<open>The loop that moves the elements of the old buckets, in their order, to the new ones.\<close>

fun move_loop :: "(u32 \<Rightarrow> u32) \<Rightarrow> u32 list \<Rightarrow> hash_tab \<Rightarrow> hash_tab option" where
  "move_loop hf [] h = Some h"
| "move_loop hf (e # es) h =
     (case bucket_at h (find_bucket hf h e) of
        None \<Rightarrow> None
      | Some b \<Rightarrow> move_loop hf es (h\<lparr>buckets := (buckets h)[find_bucket hf h e := e # b]\<rparr>))"

definition rehash :: "(u32 \<Rightarrow> u32) \<Rightarrow> hash_tab \<Rightarrow> hash_tab option" where
  "rehash hf h = do {
     n \<leftarrow> new_bucket_cnt (elem_cnt h);
     (if n = bucket_cnt h then Some h
      else let (ok, h1) = halloc (16 * n) h in
        if \<not> ok then Some h1
        else move_loop hf (concat (buckets h1)) (h1\<lparr>bucket_cnt := n, buckets := replicate (unat n) []\<rparr>))
   }"

definition hash_clear :: "(u32 \<Rightarrow> 's \<Rightarrow> 's) option \<Rightarrow> hash_tab \<Rightarrow> 's \<Rightarrow> hash_tab \<times> 's" where
  "hash_clear destructor h st =
     (h\<lparr>elem_cnt := 0, buckets := map (\<lambda>_. []) (buckets h)\<rparr>,
      (case destructor of None \<Rightarrow> st | Some f \<Rightarrow> fold f (concat (buckets h)) st))"

text \<open>\<open>h\<close> is the memory that holds the new table.\<close>

definition hash_init :: "hash_tab \<Rightarrow> bool \<times> hash_tab" where
  "hash_init h =
     (let (ok, h1) = halloc (16 * 4) h;
          h2 = h1\<lparr>elem_cnt := 0, bucket_cnt := 4, buckets := (if ok then replicate 4 [] else [])\<rparr>
      in if ok then (True, fst (hash_clear (None :: (u32 \<Rightarrow> unit \<Rightarrow> unit) option) h2 ())) else (False, h2))"

definition hash_destroy :: "(u32 \<Rightarrow> 's \<Rightarrow> 's) option \<Rightarrow> hash_tab \<Rightarrow> 's \<Rightarrow> hash_tab \<times> 's" where
  "hash_destroy destructor h st =
     (let (h1, st1) = (if destructor \<noteq> None then hash_clear destructor h st else (h, st))
      in (h1\<lparr>buckets := []\<rparr>, st1))"

definition hash_insert :: "(u32 \<Rightarrow> u32) \<Rightarrow> (u32 \<Rightarrow> u32 \<Rightarrow> bool) \<Rightarrow> u32 \<Rightarrow> hash_tab \<Rightarrow> (u32 \<times> hash_tab) option" where
  "hash_insert hf lf new h = do {
     let i = find_bucket hf h new;
     b \<leftarrow> bucket_at h i;
     let old = find_elem lf b new;
     h1 \<leftarrow> (if old = 0 then insert_elem i new h else Some h);
     h2 \<leftarrow> rehash hf h1;
     Some (old, h2)
   }"

definition hash_replace :: "(u32 \<Rightarrow> u32) \<Rightarrow> (u32 \<Rightarrow> u32 \<Rightarrow> bool) \<Rightarrow> u32 \<Rightarrow> hash_tab \<Rightarrow> (u32 \<times> hash_tab) option" where
  "hash_replace hf lf new h = do {
     let i = find_bucket hf h new;
     b \<leftarrow> bucket_at h i;
     let old = find_elem lf b new;
     h1 \<leftarrow> (if old \<noteq> 0 then remove_elem old h else Some h);
     h2 \<leftarrow> insert_elem i new h1;
     h3 \<leftarrow> rehash hf h2;
     Some (old, h3)
   }"

definition hash_find :: "(u32 \<Rightarrow> u32) \<Rightarrow> (u32 \<Rightarrow> u32 \<Rightarrow> bool) \<Rightarrow> u32 \<Rightarrow> hash_tab \<Rightarrow> u32 option" where
  "hash_find hf lf e h = map_option (\<lambda>b. find_elem lf b e) (bucket_at h (find_bucket hf h e))"

definition hash_delete :: "(u32 \<Rightarrow> u32) \<Rightarrow> (u32 \<Rightarrow> u32 \<Rightarrow> bool) \<Rightarrow> u32 \<Rightarrow> hash_tab \<Rightarrow> (u32 \<times> hash_tab) option" where
  "hash_delete hf lf e h = do {
     b \<leftarrow> bucket_at h (find_bucket hf h e);
     let found = find_elem lf b e;
     h1 \<leftarrow> (if found \<noteq> 0 then do { h0 \<leftarrow> remove_elem found h; rehash hf h0 } else Some h);
     Some (found, h1)
   }"

definition hash_apply :: "(u32 \<Rightarrow> 's \<Rightarrow> 's) \<Rightarrow> hash_tab \<Rightarrow> 's \<Rightarrow> 's" where
  "hash_apply act h st = fold (\<lambda>b. fold act b) (buckets h) st"

definition hash_size :: "hash_tab \<Rightarrow> u32" where
  "hash_size h = elem_cnt h"

definition hash_empty :: "hash_tab \<Rightarrow> bool" where
  "hash_empty h \<longleftrightarrow> elem_cnt h = 0"

text \<open>
  An iterator: the index of the bucket, and the current element, which is the head of the bucket's
  list before the first step.
\<close>

datatype cursor = Before | At u32 | Over

record hash_iterator =
  ibucket :: nat
  ielem :: cursor

definition hash_first :: hash_iterator where
  "hash_first = \<lparr>ibucket = 0, ielem = Before\<rparr>"

fun after :: "u32 \<Rightarrow> u32 list \<Rightarrow> u32 list" where
  "after e [] = []"
| "after e (x # xs) = (if x = e then xs else after e xs)"

text \<open>The loop of \<open>hash_next\<close>: \<open>rest\<close> is what follows the element in its list.\<close>

function next_loop :: "hash_tab \<Rightarrow> nat \<Rightarrow> u32 list \<Rightarrow> hash_iterator" where
  "next_loop h i rest =
     (case rest of
        e # _ \<Rightarrow> \<lparr>ibucket = i, ielem = At e\<rparr>
      | [] \<Rightarrow> if i + 1 \<ge> unat (bucket_cnt h) then \<lparr>ibucket = i + 1, ielem = Over\<rparr>
              else next_loop h (i + 1) (buckets h ! (i + 1)))"
  by pat_completeness auto
termination
  by (relation "measure (\<lambda>(h, i, rest). unat (bucket_cnt h) - i)") auto

declare next_loop.simps [simp del]

definition hash_next :: "hash_tab \<Rightarrow> hash_iterator \<Rightarrow> hash_iterator option" where
  "hash_next h it =
     (case ielem it of
        Before \<Rightarrow> map_option (next_loop h (ibucket it)) (bucket_at h (ibucket it))
      | At e \<Rightarrow> map_option (\<lambda>b. next_loop h (ibucket it) (after e b)) (bucket_at h (ibucket it))
      | Over \<Rightarrow> None)"

definition hash_cur :: "hash_iterator \<Rightarrow> u32" where
  "hash_cur it = (case ielem it of At e \<Rightarrow> e | _ \<Rightarrow> 0)"

text \<open>The hash functions; \<open>buf\<close> is the bytes, \<open>s\<close> the memory the string is in.\<close>

definition FNV_32_PRIME :: u32 where "FNV_32_PRIME = 16777619"
definition FNV_32_BASIS :: u32 where "FNV_32_BASIS = 2166136261"

fun fnv_loop :: "u8 list \<Rightarrow> u32 \<Rightarrow> u32" where
  "fnv_loop [] hash = hash"
| "fnv_loop (c # cs) hash = fnv_loop cs ((hash * FNV_32_PRIME) XOR ucast c)"

definition hash_bytes :: "u8 list \<Rightarrow> u32" where
  "hash_bytes buf = fnv_loop buf FNV_32_BASIS"

definition hash_string :: "u8 list \<Rightarrow> u32" where
  "hash_string s = fnv_loop (cstr s) FNV_32_BASIS"

definition hash_int :: "int \<Rightarrow> u32" where
  "hash_int i = hash_bytes (bytes32 (word_of_int i))"

section \<open>Powers of two\<close>

lemma push_bit_pred_and:
  assumes "odd (m :: nat)"
  shows "push_bit k m AND (push_bit k m - 1) = push_bit k (m - 1)"
proof (rule bit_eqI)
  fix n
  have m: "m = 2 * (m div 2) + 1" using assms by (metis odd_two_times_div_two_succ)
  have p: "push_bit k m - 1 = push_bit k (m - 1) OR mask k"
  proof -
    have "push_bit k (m - 1) AND mask k = 0" by (rule bit_eqI) (auto simp: bit_simps)
    then have "push_bit k (m - 1) OR mask k = push_bit k (m - 1) + mask k"
      by (simp add: disjunctive_add bit_eq_iff bit_and_iff)
    also have "\<dots> = push_bit k m - 1"
      using m by (simp add: push_bit_eq_mult mask_eq_exp_minus_1 algebra_simps diff_mult_distrib)
    finally show ?thesis ..
  qed
  have b: "bit m j \<longleftrightarrow> (j = 0 \<or> bit (m - 1) j)" for j
    using m by (metis add_diff_cancel_right' bit_0 bit_double_iff bit_Suc even_mult_iff even_two_times_div_two
        evenE nonzero_mult_div_cancel_left not0_implies_Suc odd_two_times_div_two_succ assms add.commute
        odd_succ_div_two even_plus_one_iff zero_neq_numeral)
  have b0: "\<not> bit (m - 1) 0" using assms by (simp add: bit_0)
  show "bit (push_bit k m AND (push_bit k m - 1)) n \<longleftrightarrow> bit (push_bit k (m - 1)) n"
    unfolding p using b [of "n - k"] b0 by (auto simp: bit_simps)
qed

lemma two_power_odd: "0 < (n :: nat) \<Longrightarrow> \<exists>k m. n = push_bit k m \<and> odd m"
proof (induction n rule: less_induct)
  case (less n)
  show ?case
  proof (cases "odd n")
    case True
    then show ?thesis by (intro exI [of _ 0] exI [of _ n]) simp
  next
    case False
    then obtain q where q: "n = 2 * q" by (auto elim: evenE)
    then have "q < n" "0 < q" using less.prems by simp_all
    then obtain k m where "q = push_bit k m" "odd m" using less.IH by blast
    then show ?thesis using q by (intro exI [of _ "Suc k"] exI [of _ m]) (simp add: push_bit_eq_mult)
  qed
qed

lemma unat_turn_off: "unat (turn_off_least_1bit x) = unat x AND (unat x - 1)"
proof (cases "x = 0")
  case False
  then have "unat (x - 1) = unat x - 1" by (simp add: unat_minus_one)
  then show ?thesis by (simp add: turn_off_least_1bit_def unsigned_and_eq)
qed (simp add: turn_off_least_1bit_def)

lemma turn_off_cases:
  assumes t: "2 ^ t \<le> unat n" "unat n < 2 ^ Suc t"
  shows "is_power_of_2 n \<and> n = 2 ^ t \<or>
    \<not> is_power_of_2 n \<and> 2 ^ t \<le> unat (turn_off_least_1bit n) \<and> unat (turn_off_least_1bit n) < unat n"
proof -
  have n0: "0 < unat n" using t(1) by (meson less_le_trans zero_less_numeral zero_less_power)
  obtain k m where km: "unat n = push_bit k m" "odd m" using two_power_odd [OF n0] by blast
  have v: "unat (turn_off_least_1bit n) = push_bit k (m - 1)" unfolding unat_turn_off km(1) by (rule push_bit_pred_and [OF km(2)])
  have u: "unat n = 2 ^ k * m" using km(1) by (simp add: push_bit_eq_mult mult.commute)
  show ?thesis
  proof (cases "m = 1")
    case True
    then have "turn_off_least_1bit n = 0" using v by (metis diff_self_eq_0 push_bit_of_0 unat_eq_zero)
    moreover have "k = t"
      using u True t power_less_imp_less_exp [of "2 :: nat" k "Suc t"] power_le_imp_le_exp [of "2 :: nat" t k] by simp
    ultimately have "unat n = 2 ^ t" "is_power_of_2 n" using u True n0 by (auto simp: is_power_of_2_def)
    moreover have "n = word_of_nat (unat n)" by simp
    ultimately show ?thesis by (metis of_nat_numeral of_nat_power)
  next
    case False
    then have m: "3 \<le> m" using km(2) by (metis One_nat_def Suc_leI dvd_0_right even_numeral le_eq_less_or_eq nat_neq_iff
        not_less numeral_2_eq_2 numeral_3_eq_3 odd_pos less_one)
    have kt: "k < t"
    proof (rule ccontr)
      assume "\<not> k < t"
      then have "2 ^ t * 3 \<le> 2 ^ k * m" using m by (intro mult_le_mono power_increasing) simp_all
      then show False using u t(2) by simp
    qed
    then obtain d where d: "t = Suc (k + d)" using less_imp_Suc_add by blast
    have "2 ^ Suc d \<le> m" using u t(1) d by (simp add: power_add)
    moreover have "2 ^ Suc d \<noteq> m" using km(2) by auto
    ultimately have "2 ^ Suc d \<le> m - 1" by simp
    then have "2 ^ t \<le> 2 ^ k * (m - 1)" using d by (simp add: power_add)
    moreover have "2 ^ k * (m - 1) < 2 ^ k * m" using m by simp
    ultimately have ge: "2 ^ t \<le> unat (turn_off_least_1bit n)" "unat (turn_off_least_1bit n) < unat n"
      using u v by (simp_all add: push_bit_eq_mult mult.commute)
    then have "turn_off_least_1bit n \<noteq> 0" by (metis unat_0 not_le zero_less_numeral zero_less_power)
    then show ?thesis using ge by (simp add: is_power_of_2_def)
  qed
qed

lemma pow2_loop_ok: "2 ^ t \<le> unat n \<Longrightarrow> unat n < 2 ^ Suc t \<Longrightarrow> pow2_loop n = Some (2 ^ t)"
proof (induction "unat n" arbitrary: n rule: less_induct)
  case less
  then show ?case using turn_off_cases [OF less.prems] by (subst pow2_loop.simps) auto
qed

lemma new_bucket_cnt_ok: "\<exists>k. new_bucket_cnt n = Some (2 ^ k) \<and> 2 \<le> k \<and> k < 32"
proof -
  define x where "x = (if n div 2 < 4 then 4 else n div 2 :: u32)"
  have x4: "4 \<le> unat x" by (auto simp: x_def not_less word_le_nat_alt)
  obtain t where t: "2 ^ t \<le> unat x" "unat x < 2 ^ (t + 1)"
    using ex_power_ivl1 [of 2 "unat x"] x4 by auto
  have "(2 :: nat) ^ 2 < 2 ^ (t + 1)" using t(2) x4 by simp
  then have "2 \<le> t" using power_less_imp_less_exp [of "2 :: nat" 2 "t + 1"] by simp
  moreover have "(2 :: nat) ^ t < 2 ^ 32" using t(1) unat_u32_less [of x] by simp
  then have "t < 32" using power_less_imp_less_exp [of "2 :: nat" t 32] by simp
  moreover have "pow2_loop x = Some (2 ^ t)" by (rule pow2_loop_ok) (use t in simp_all)
  ultimately show ?thesis by (auto simp: new_bucket_cnt_def x_def Let_def)
qed

section \<open>The invariant\<close>

definition elems :: "hash_tab \<Rightarrow> u32 list" where
  "elems h = concat (buckets h)"

definition same :: "(u32 \<Rightarrow> u32 \<Rightarrow> bool) \<Rightarrow> u32 \<Rightarrow> u32 \<Rightarrow> bool" where
  "same lf a b \<longleftrightarrow> \<not> lf a b \<and> \<not> lf b a"

text \<open>The array has a power of two of buckets, and every element is in the bucket of its hash value.\<close>

definition placed :: "(u32 \<Rightarrow> u32) \<Rightarrow> hash_tab \<Rightarrow> bool" where
  "placed hf h \<longleftrightarrow> (\<exists>k. 2 \<le> k \<and> k < 32 \<and> bucket_cnt h = 2 ^ k \<and> length (buckets h) = 2 ^ k) \<and>
     (\<forall>i<length (buckets h). \<forall>e\<in>set (buckets h ! i). find_bucket hf h e = i)"

definition hash_ok :: "(u32 \<Rightarrow> u32) \<Rightarrow> (u32 \<Rightarrow> u32 \<Rightarrow> bool) \<Rightarrow> hash_tab \<Rightarrow> bool" where
  "hash_ok hf lf h \<longleftrightarrow> placed hf h \<and> distinct (elems h) \<and> 0 \<notin> set (elems h) \<and>
     unat (elem_cnt h) = length (elems h) \<and> (\<forall>a\<in>set (elems h). \<forall>b\<in>set (elems h). same lf a b \<longrightarrow> a = b)"

text \<open>What the table relies on in its callbacks.\<close>

locale hash_keys =
  fixes hf :: "u32 \<Rightarrow> u32" and lf :: "u32 \<Rightarrow> u32 \<Rightarrow> bool"
  assumes irrefl: "\<not> lf a a"
    and same_trans: "same lf a b \<Longrightarrow> same lf b c \<Longrightarrow> same lf a c"
    and same_hash: "same lf a b \<Longrightarrow> hf a = hf b"
begin

lemma same_refl: "same lf a a"
  by (simp add: same_def irrefl)

lemma same_sym: "same lf a b \<Longrightarrow> same lf b a"
  by (simp add: same_def)

end

lemma and_mask_less: "unat (x AND (2 ^ k - 1) :: u32) < 2 ^ k"
proof -
  have "unat (x AND mask k) = take_bit k (unat x)" by (simp add: unsigned_take_bit_eq flip: take_bit_eq_mask)
  also have "\<dots> < 2 ^ k" by (rule take_bit_nat_less_exp)
  finally show ?thesis by (simp add: mask_eq_exp_minus_1)
qed

lemma placed_bucket: "placed hf h \<Longrightarrow> find_bucket hf h e < length (buckets h)"
  unfolding placed_def find_bucket_def using and_mask_less by auto

lemma placed_mem: "placed hf h \<Longrightarrow> e \<in> set (elems h) \<longleftrightarrow> e \<in> set (buckets h ! find_bucket hf h e)"
  using placed_bucket [of hf h e] unfolding placed_def elems_def by (auto simp: set_conv_nth [of "buckets h"])

lemma elems_nth: "i < length (buckets h) \<Longrightarrow> x \<in> set (buckets h ! i) \<Longrightarrow> x \<in> set (elems h)"
  unfolding elems_def using nth_mem by auto

lemma find_elem_value:
  "0 \<notin> set b \<Longrightarrow> (find_elem lf b e = 0 \<and> (\<forall>x\<in>set b. \<not> same lf x e)) \<or> (find_elem lf b e \<in> set b \<and> same lf (find_elem lf b e) e)"
  by (induction b) (auto simp: same_def)

lemma mset_update: "i < length bs \<Longrightarrow> mset (concat (bs[i := x # bs ! i])) = add_mset x (mset (concat bs))"
  by (induction bs arbitrary: i) (auto split: nat.splits)

lemma mset_remove: "distinct (concat bs) \<Longrightarrow> mset (concat (map (remove1 x) bs)) = mset (concat bs) - {#x#}"
proof (induction bs)
  case (Cons b bs)
  show ?case
  proof (cases "x \<in> set b")
    case True
    then have "x \<notin> set (concat bs)" using Cons.prems by auto
    then have "map (remove1 x) bs = bs" by (intro map_idI) (auto simp: remove1_idem)
    then show ?thesis using True by simp
  next
    case False
    then have "mset b + (M - {#x#}) = mset b + M - {#x#}" for M
      by (cases "x \<in># M") (simp_all add: diff_single_trivial)
    then show ?thesis using False Cons by (simp add: remove1_idem)
  qed
qed simp

lemma placed_insert:
  assumes "placed hf h" "i = find_bucket hf h e"
  shows "placed hf (h\<lparr>elem_cnt := n, buckets := (buckets h)[i := e # buckets h ! i]\<rparr>)"
proof -
  have f: "find_bucket hf (h\<lparr>elem_cnt := n, buckets := B\<rparr>) = find_bucket hf h" for B by (simp add: find_bucket_def fun_eq_iff)
  have i: "i < length (buckets h)" using placed_bucket [OF assms(1), of e] assms(2) by simp
  have "find_bucket hf h x = j" if "j < length (buckets h)" "x \<in> set ((buckets h)[i := e # buckets h ! i] ! j)" for j x
  proof (cases "x \<in> set (buckets h ! j)")
    case True
    then show ?thesis using assms(1) that(1) unfolding placed_def by blast
  next
    case False
    then have "j = i \<and> x = e" using that(2) i by (cases "j = i") simp_all
    then show ?thesis using assms(2) by simp
  qed
  then show ?thesis using assms(1) unfolding placed_def f by simp
qed

lemma placed_remove:
  assumes "placed hf h"
  shows "placed hf (h\<lparr>elem_cnt := n, buckets := map (remove1 e) (buckets h)\<rparr>)"
proof -
  have f: "find_bucket hf (h\<lparr>elem_cnt := n, buckets := B\<rparr>) = find_bucket hf h" for B by (simp add: find_bucket_def fun_eq_iff)
  have "find_bucket hf h x = j" if "j < length (buckets h)" "x \<in> set (map (remove1 e) (buckets h) ! j)" for j x
  proof -
    have "x \<in> set (buckets h ! j)" using that notin_set_remove1 [of x] by (metis nth_map)
    then show ?thesis using assms that(1) unfolding placed_def by blast
  qed
  then show ?thesis using assms unfolding placed_def f by simp
qed

lemma move_loop_ok:
  "placed hf h \<Longrightarrow> \<exists>bs. move_loop hf es h = Some (h\<lparr>buckets := bs\<rparr>) \<and> placed hf (h\<lparr>buckets := bs\<rparr>) \<and>
    mset (concat bs) = mset es + mset (concat (buckets h))"
proof (induction es arbitrary: h)
  case Nil
  then show ?case by (intro exI [of _ "buckets h"]) simp
next
  case (Cons e es)
  let ?i = "find_bucket hf h e"
  let ?h = "h\<lparr>buckets := (buckets h)[?i := e # buckets h ! ?i]\<rparr>"
  have i: "?i < length (buckets h)" by (rule placed_bucket [OF Cons.prems])
  have "placed hf ?h" using placed_insert [OF Cons.prems refl, of e "elem_cnt h"] by simp
  from Cons.IH [OF this] obtain bs where "move_loop hf es ?h = Some (h\<lparr>buckets := bs\<rparr>)" "placed hf (h\<lparr>buckets := bs\<rparr>)"
    "mset (concat bs) = mset es + mset (concat (buckets ?h))" by auto
  then show ?case using i mset_update [OF i, of e] by (intro exI [of _ bs]) (simp add: bucket_at_def)
qed

lemma concat_replicate_Nil [simp]: "concat (replicate n []) = []"
  by simp

text \<open>Rehashing keeps the elements.\<close>

lemma rehash_ok:
  assumes "placed hf h"
  shows "\<exists>h'. rehash hf h = Some h' \<and> placed hf h' \<and> mset (elems h') = mset (elems h) \<and> elem_cnt h' = elem_cnt h \<and>
    hmem h' = hmem h"
proof -
  obtain k where k: "new_bucket_cnt (elem_cnt h) = Some (2 ^ k)" "2 \<le> k" "k < 32" using new_bucket_cnt_ok by blast
  define ok h1 where "ok = fst (halloc (16 * 2 ^ k) h)" and "h1 = snd (halloc (16 * 2 ^ k) h)"
  have h1: "buckets h1 = buckets h" "bucket_cnt h1 = bucket_cnt h" "elem_cnt h1 = elem_cnt h" "hmem h1 = hmem h"
    by (simp_all add: h1_def halloc_def)
  have p1: "placed hf h1" using assms by (simp add: placed_def find_bucket_def h1)
  have al: "halloc (16 * 2 ^ k) h = (ok, h1)" by (simp add: ok_def h1_def)
  define h2 where "h2 = h1\<lparr>bucket_cnt := 2 ^ k, buckets := replicate (unat (2 ^ k :: u32)) []\<rparr>"
  have "(2 :: nat) ^ k < 2 ^ 32" using k(3) by (intro power_strict_increasing) simp_all
  then have "unat (2 ^ k :: u32) = 2 ^ k" using unat_word_of_nat_32 [of "2 ^ k"] by simp
  then have p2: "placed hf h2" using k by (auto simp: placed_def h2_def)
  obtain bs where bs: "move_loop hf (concat (buckets h1)) h2 = Some (h2\<lparr>buckets := bs\<rparr>)" "placed hf (h2\<lparr>buckets := bs\<rparr>)"
    "mset (concat bs) = mset (concat (buckets h1)) + mset (concat (buckets h2))"
    using move_loop_ok [OF p2] by blast
  have "concat (buckets h2) = []" by (simp add: h2_def)
  then have m: "mset (elems (h2\<lparr>buckets := bs\<rparr>)) = mset (elems h)" using bs(3) by (simp add: elems_def h1)
  have r: "rehash hf h = (if 2 ^ k = bucket_cnt h then Some h else if \<not> ok then Some h1 else Some (h2\<lparr>buckets := bs\<rparr>))"
    using k(1) al bs(1) by (simp add: rehash_def h2_def Let_def)
  show ?thesis
  proof (cases "2 ^ k = bucket_cnt h \<or> \<not> ok")
    case True
    then show ?thesis using r assms p1 h1 by (auto simp: elems_def)
  next
    case False
    then show ?thesis using r bs(2) m h1 by (intro exI [of _ "h2\<lparr>buckets := bs\<rparr>"]) (simp add: h2_def)
  qed
qed

text \<open>The number of elements never wraps around: there are fewer than $2^{32}$ addresses other than 0.\<close>

lemma elems_bound: "distinct (xs :: u32 list) \<Longrightarrow> 0 \<notin> set xs \<Longrightarrow> length xs < 4294967296"
proof -
  assume a: "distinct xs" "0 \<notin> set xs"
  then have "length xs = card (set xs)" by (simp add: distinct_card)
  also have "\<dots> \<le> card (UNIV - {0 :: u32})" using a(2) by (intro card_mono) auto
  also have "\<dots> < 4294967296" by (simp add: card_word)
  finally show ?thesis .
qed

lemma hash_okD:
  assumes "hash_ok hf lf h"
  shows "placed hf h" "distinct (elems h)" "0 \<notin> set (elems h)" "unat (elem_cnt h) = length (elems h)"
    "a \<in> set (elems h) \<Longrightarrow> b \<in> set (elems h) \<Longrightarrow> same lf a b \<Longrightarrow> a = b"
  using assms by (simp_all add: hash_ok_def)

lemma elems_same:
  assumes "mset (elems h') = mset (elems h)"
  shows "set (elems h') = set (elems h)" "length (elems h') = length (elems h)" "distinct (elems h') = distinct (elems h)"
  using assms by (metis set_mset_mset, metis size_mset, metis mset_eq_imp_distinct_iff)

lemma rehash_hash_ok:
  assumes "hash_ok hf lf h"
  shows "\<exists>h'. rehash hf h = Some h' \<and> hash_ok hf lf h' \<and> set (elems h') = set (elems h)"
proof -
  obtain h' where h': "rehash hf h = Some h'" "placed hf h'" "mset (elems h') = mset (elems h)" "elem_cnt h' = elem_cnt h"
    using rehash_ok [OF hash_okD(1) [OF assms]] by blast
  then have "hash_ok hf lf h'" using assms elems_same [OF h'(3)] by (simp add: hash_ok_def)
  then show ?thesis using h'(1) elems_same(1) [OF h'(3)] by blast
qed

lemma insert_elem_ok:
  assumes h: "hash_ok hf lf h" and e: "e \<noteq> 0" "e \<notin> set (elems h)" "\<forall>x\<in>set (elems h). \<not> same lf x e \<and> \<not> same lf e x"
  shows "\<exists>h'. insert_elem (find_bucket hf h e) e h = Some h' \<and> hash_ok hf lf h' \<and> set (elems h') = insert e (set (elems h))"
proof -
  note k = hash_okD [OF h]
  let ?i = "find_bucket hf h e"
  define h' where "h' = h\<lparr>elem_cnt := elem_cnt h + 1, buckets := (buckets h)[?i := e # buckets h ! ?i]\<rparr>"
  have i: "?i < length (buckets h)" by (rule placed_bucket [OF k(1)])
  have m: "mset (elems h') = mset (e # elems h)" using mset_update [OF i, of e] by (simp add: h'_def elems_def)
  then have s: "set (elems h') = insert e (set (elems h))" by (metis list.simps(15) set_mset_mset)
  have d: "distinct (elems h')" using mset_eq_imp_distinct_iff [OF m] k(2) e(2) by simp
  have l: "length (elems h') = length (elems h) + 1" using m by (metis add.commute length_Cons plus_1_eq_Suc size_mset)
  have z: "0 \<notin> set (elems h')" using s k(3) e(1) by simp
  have "unat (elem_cnt h) + 1 < 4294967296" using elems_bound [OF d z] l k(4) by simp
  then have "unat (elem_cnt h + 1) = unat (elem_cnt h) + 1" using unat_add_lem [of "elem_cnt h" 1] by simp
  then have "unat (elem_cnt h') = length (elems h')" using l k(4) by (simp add: h'_def)
  moreover have "placed hf h'" unfolding h'_def by (rule placed_insert [OF k(1) refl])
  moreover have "\<forall>a\<in>set (elems h'). \<forall>b\<in>set (elems h'). same lf a b \<longrightarrow> a = b" using k(5) e(3) s by auto
  ultimately have "hash_ok hf lf h'" using d z by (simp add: hash_ok_def)
  then show ?thesis using i s by (auto simp: insert_elem_def bucket_at_def h'_def)
qed

lemma remove_elem_ok:
  assumes h: "hash_ok hf lf h" and e: "e \<in> set (elems h)"
  shows "\<exists>h'. remove_elem e h = Some h' \<and> hash_ok hf lf h' \<and> set (elems h') = set (elems h) - {e} \<and>
    find_bucket hf h' = find_bucket hf h"
proof -
  note k = hash_okD [OF h]
  define h' where "h' = h\<lparr>elem_cnt := elem_cnt h - 1, buckets := map (remove1 e) (buckets h)\<rparr>"
  have m: "mset (elems h') = mset (remove1 e (elems h))"
    using mset_remove [of "buckets h" e] k(2) by (simp add: h'_def elems_def)
  have s: "set (elems h') = set (elems h) - {e}" using m k(2) by (metis set_mset_mset set_remove1_eq)
  have d: "distinct (elems h')" using mset_eq_imp_distinct_iff [OF m] k(2) by simp
  have l: "length (elems h') = length (elems h) - 1" using m e by (metis length_remove1 size_mset)
  have "0 < length (elems h)" using e by (cases "elems h") auto
  then have "0 < unat (elem_cnt h)" using k(4) by simp
  then have "unat (elem_cnt h - 1) = unat (elem_cnt h) - 1" by (simp add: unat_minus_one unat_gt_0)
  then have "unat (elem_cnt h') = length (elems h')" using l k(4) by (simp add: h'_def)
  moreover have "placed hf h'" unfolding h'_def by (rule placed_remove [OF k(1)])
  moreover have "\<forall>a\<in>set (elems h'). \<forall>b\<in>set (elems h'). same lf a b \<longrightarrow> a = b" using k(5) s by auto
  ultimately have "hash_ok hf lf h'" using d k(3) s by (simp add: hash_ok_def)
  moreover have "\<exists>b\<in>set (buckets h). e \<in> set b" using e by (auto simp: elems_def)
  moreover have "find_bucket hf h' = find_bucket hf h" by (simp add: h'_def find_bucket_def fun_eq_iff)
  ultimately show ?thesis using s by (auto simp: remove_elem_def h'_def)
qed

context hash_keys
begin

text \<open>Searching a bucket finds the element of the table that equals the key, if there is one.\<close>

lemma find_ok:
  assumes h: "hash_ok hf lf h"
  shows "\<exists>b r. bucket_at h (find_bucket hf h e) = Some b \<and> find_elem lf b e = r \<and>
    (r = 0 \<and> (\<forall>x\<in>set (elems h). \<not> same lf x e) \<or> r \<noteq> 0 \<and> r \<in> set (elems h) \<and> same lf r e)"
proof -
  note k = hash_okD [OF h]
  let ?b = "buckets h ! find_bucket hf h e"
  have i: "find_bucket hf h e < length (buckets h)" by (rule placed_bucket [OF k(1)])
  have sub: "set ?b \<subseteq> set (elems h)" using elems_nth [OF i] by blast
  then have nz: "0 \<notin> set ?b" using k(3) by blast
  have "x \<in> set ?b" if "x \<in> set (elems h)" "same lf x e" for x
  proof -
    have "find_bucket hf h x = find_bucket hf h e" using same_hash [OF that(2)] by (simp add: find_bucket_def)
    then show ?thesis using placed_mem [OF k(1)] that(1) by metis
  qed
  then show ?thesis
    using find_elem_value [OF nz, of lf e] sub nz i by (intro exI [of _ ?b] exI [of _ "find_elem lf ?b e"]) (auto simp: bucket_at_def)
qed

lemma insert_ok:
  assumes h: "hash_ok hf lf h" and e: "e \<noteq> 0"
  shows "\<exists>old h'. hash_insert hf lf e h = Some (old, h') \<and> hash_ok hf lf h' \<and>
    (old = 0 \<and> (\<forall>x\<in>set (elems h). \<not> same lf x e) \<and> set (elems h') = insert e (set (elems h)) \<or>
     old \<in> set (elems h) \<and> same lf old e \<and> set (elems h') = set (elems h))"
proof -
  obtain b r where r: "bucket_at h (find_bucket hf h e) = Some b" "find_elem lf b e = r"
    "r = 0 \<and> (\<forall>x\<in>set (elems h). \<not> same lf x e) \<or> r \<noteq> 0 \<and> r \<in> set (elems h) \<and> same lf r e"
    using find_ok [OF h] by blast
  show ?thesis
  proof (cases "r = 0")
    case True
    then have n: "\<forall>x\<in>set (elems h). \<not> same lf x e" using r(3) by blast
    then have "e \<notin> set (elems h)" "\<forall>x\<in>set (elems h). \<not> same lf x e \<and> \<not> same lf e x" using same_refl same_sym by blast+
    then obtain h1 where h1: "insert_elem (find_bucket hf h e) e h = Some h1" "hash_ok hf lf h1"
      "set (elems h1) = insert e (set (elems h))" using insert_elem_ok [OF h e] by blast
    obtain h' where "rehash hf h1 = Some h'" "hash_ok hf lf h'" "set (elems h') = set (elems h1)"
      using rehash_hash_ok [OF h1(2)] by blast
    then show ?thesis using r(1,2) True h1 n by (simp add: hash_insert_def Let_def)
  next
    case False
    obtain h' where "rehash hf h = Some h'" "hash_ok hf lf h'" "set (elems h') = set (elems h)"
      using rehash_hash_ok [OF h] by blast
    then show ?thesis using r False by (simp add: hash_insert_def Let_def)
  qed
qed

lemma replace_ok:
  assumes h: "hash_ok hf lf h" and e: "e \<noteq> 0"
  shows "\<exists>old h'. hash_replace hf lf e h = Some (old, h') \<and> hash_ok hf lf h' \<and>
    set (elems h') = insert e (set (elems h) - {old}) \<and>
    (old = 0 \<and> (\<forall>x\<in>set (elems h). \<not> same lf x e) \<or> old \<in> set (elems h) \<and> same lf old e)"
proof -
  note k = hash_okD [OF h]
  obtain b r where r: "bucket_at h (find_bucket hf h e) = Some b" "find_elem lf b e = r"
    "r = 0 \<and> (\<forall>x\<in>set (elems h). \<not> same lf x e) \<or> r \<noteq> 0 \<and> r \<in> set (elems h) \<and> same lf r e"
    using find_ok [OF h] by blast
  obtain h1 where h1: "(if r \<noteq> 0 then remove_elem r h else Some h) = Some h1" "hash_ok hf lf h1"
    "set (elems h1) = set (elems h) - {r}" "find_bucket hf h1 = find_bucket hf h"
  proof (cases "r = 0")
    case True
    then show ?thesis using that [of h] h k(3) by simp
  next
    case False
    then show ?thesis using that remove_elem_ok [OF h, of r] r(3) by auto
  qed
  have n: "\<not> same lf x e" if "x \<in> set (elems h1)" for x
  proof
    assume s: "same lf x e"
    then have "r \<in> set (elems h)" "same lf r e" using r(3) that h1(3) by auto
    then have "same lf r x" using same_trans same_sym s by blast
    then show False using k(5) [OF \<open>r \<in> set (elems h)\<close>, of x] that h1(3) by blast
  qed
  then have "e \<notin> set (elems h1)" "\<forall>x\<in>set (elems h1). \<not> same lf x e \<and> \<not> same lf e x" using same_refl same_sym by blast+
  then obtain h2 where h2: "insert_elem (find_bucket hf h1 e) e h1 = Some h2" "hash_ok hf lf h2"
    "set (elems h2) = insert e (set (elems h1))" using insert_elem_ok [OF h1(2) e] by blast
  obtain h' where "rehash hf h2 = Some h'" "hash_ok hf lf h'" "set (elems h') = set (elems h2)"
    using rehash_hash_ok [OF h2(2)] by blast
  moreover from this have "hash_replace hf lf e h = Some (r, h')"
    using h2(1) by (simp only: hash_replace_def Let_def r(1,2) h1(1,4) Option.bind_lunit)
  ultimately show ?thesis using r(3) h1(3) h2(3) by (intro exI [of _ r] exI [of _ h']) auto
qed

lemma delete_ok:
  assumes h: "hash_ok hf lf h"
  shows "\<exists>r h'. hash_delete hf lf e h = Some (r, h') \<and> hash_ok hf lf h' \<and> set (elems h') = set (elems h) - {r} \<and>
    (r = 0 \<and> (\<forall>x\<in>set (elems h). \<not> same lf x e) \<or> r \<in> set (elems h) \<and> same lf r e)"
proof -
  obtain b r where r: "bucket_at h (find_bucket hf h e) = Some b" "find_elem lf b e = r"
    "r = 0 \<and> (\<forall>x\<in>set (elems h). \<not> same lf x e) \<or> r \<noteq> 0 \<and> r \<in> set (elems h) \<and> same lf r e"
    using find_ok [OF h] by blast
  show ?thesis
  proof (cases "r = 0")
    case True
    then show ?thesis using r h hash_okD(3) [OF h] by (intro exI [of _ 0] exI [of _ h]) (auto simp: hash_delete_def Let_def)
  next
    case False
    then have m: "r \<in> set (elems h)" "same lf r e" using r(3) by blast+
    obtain h1 where h1: "remove_elem r h = Some h1" "hash_ok hf lf h1" "set (elems h1) = set (elems h) - {r}"
      using remove_elem_ok [OF h m(1)] by blast
    obtain h' where "rehash hf h1 = Some h'" "hash_ok hf lf h'" "set (elems h') = set (elems h1)"
      using rehash_hash_ok [OF h1(2)] by blast
    then show ?thesis using r(1,2) False h1 m by (simp add: hash_delete_def Let_def)
  qed
qed

end

section \<open>Iteration\<close>

text \<open>The loop over an iterator.\<close>

fun iterate :: "nat \<Rightarrow> hash_tab \<Rightarrow> hash_iterator \<Rightarrow> u32 list option" where
  "iterate 0 h it = None"
| "iterate (Suc n) h it =
     (case hash_next h it of
        None \<Rightarrow> None
      | Some it' \<Rightarrow> if hash_cur it' \<noteq> 0 then map_option ((#) (hash_cur it')) (iterate n h it') else Some [])"

lemma after_mem: "distinct (xs @ e # ys) \<Longrightarrow> after e (xs @ e # ys) = ys"
  by (induction xs) auto

text \<open>Where the loop stops when \<open>ys\<close> is left in bucket \<open>i\<close>.\<close>

lemma next_loop_ok:
  assumes "unat (bucket_cnt h) = length (buckets h)"
  shows "i < length (buckets h) \<Longrightarrow> (\<exists>k. next_loop h i ys = \<lparr>ibucket = k, ielem = Over\<rparr> \<and> ys @ concat (drop (Suc i) (buckets h)) = []) \<or>
    (\<exists>j e zs. next_loop h i ys = \<lparr>ibucket = j, ielem = At e\<rparr> \<and> j < length (buckets h) \<and>
      ys @ concat (drop (Suc i) (buckets h)) = e # zs @ concat (drop (Suc j) (buckets h)) \<and>
      (j = i \<and> ys = e # zs \<or> buckets h ! j = e # zs))"
proof (induction "length (buckets h) - i" arbitrary: i ys rule: less_induct)
  case less
  show ?case
  proof (cases ys)
    case (Cons e zs)
    then have "next_loop h i ys = \<lparr>ibucket = i, ielem = At e\<rparr>" by (subst next_loop.simps) simp
    then show ?thesis using Cons less.prems by (intro disjI2 exI [of _ i] exI [of _ e] exI [of _ zs]) simp
  next
    case Nil
    show ?thesis
    proof (cases "Suc i < length (buckets h)")
      case False
      then show ?thesis using Nil assms by (subst next_loop.simps) simp
    next
      case True
      then have n: "next_loop h i ys = next_loop h (Suc i) (buckets h ! Suc i)"
        using Nil assms by (subst next_loop.simps) simp
      have d: "ys @ concat (drop (Suc i) (buckets h)) = buckets h ! Suc i @ concat (drop (Suc (Suc i)) (buckets h))"
        using Cons_nth_drop_Suc [OF True, symmetric] Nil by simp
      have "length (buckets h) - Suc i < length (buckets h) - i" using less.prems by simp
      from less.hyps [OF this True, of "buckets h ! Suc i"] show ?thesis
        unfolding n d by (elim disjE exE conjE) (intro disjI1 exI conjI; assumption | intro disjI2 exI conjI; (assumption | blast))+
    qed
  qed
qed

text \<open>The iterator at \<open>e\<close>, with \<open>zs\<close> after it in its bucket.\<close>

lemma iterate_at:
  assumes u: "unat (bucket_cnt h) = length (buckets h)" and d: "distinct (elems h)" "0 \<notin> set (elems h)"
  shows "i < length (buckets h) \<Longrightarrow> buckets h ! i = xs @ e # zs \<Longrightarrow> length (zs @ concat (drop (Suc i) (buckets h))) < n \<Longrightarrow>
    iterate n h \<lparr>ibucket = i, ielem = At e\<rparr> = Some (zs @ concat (drop (Suc i) (buckets h)))"
proof (induction n arbitrary: i xs e zs)
  case (Suc n)
  have i: "i < length (buckets h)" by (rule Suc.prems(1))
  have db: "distinct (buckets h ! i)" using d(1) i by (auto simp: elems_def distinct_concat_iff)
  have a: "after e (buckets h ! i) = zs" using after_mem db Suc.prems(2) by metis
  have nx: "hash_next h \<lparr>ibucket = i, ielem = At e\<rparr> = Some (next_loop h i zs)"
    using i a by (simp add: hash_next_def bucket_at_def)
  from next_loop_ok [OF u i, of zs] show ?case
  proof (elim disjE exE conjE)
    fix k assume "next_loop h i zs = \<lparr>ibucket = k, ielem = Over\<rparr>" "zs @ concat (drop (Suc i) (buckets h)) = []"
    then show ?thesis using nx by (simp add: hash_cur_def)
  next
    fix j e' ws
    assume p: "next_loop h i zs = \<lparr>ibucket = j, ielem = At e'\<rparr>" "j < length (buckets h)"
      "zs @ concat (drop (Suc i) (buckets h)) = e' # ws @ concat (drop (Suc j) (buckets h))" "j = i" "zs = e' # ws"
    have b: "buckets h ! j = (xs @ [e]) @ e' # ws" using Suc.prems(2) p(4,5) by simp
    have "e' \<in> set (elems h)" by (rule elems_nth [OF p(2)]) (simp add: b)
    then have "e' \<noteq> 0" using d(2) by metis
    moreover have "length (ws @ concat (drop (Suc j) (buckets h))) < n" using Suc.prems(3) p(4,5) by simp
    ultimately show ?thesis using Suc.IH [OF p(2) b] nx p(1,3) by (simp add: hash_cur_def)
  next
    fix j e' ws
    assume p: "next_loop h i zs = \<lparr>ibucket = j, ielem = At e'\<rparr>" "j < length (buckets h)"
      "zs @ concat (drop (Suc i) (buckets h)) = e' # ws @ concat (drop (Suc j) (buckets h))" "buckets h ! j = e' # ws"
    have b: "buckets h ! j = [] @ e' # ws" using p(4) by simp
    have "e' \<in> set (elems h)" by (rule elems_nth [OF p(2)]) (simp add: b)
    then have "e' \<noteq> 0" using d(2) by metis
    moreover have "length (ws @ concat (drop (Suc j) (buckets h))) < n"
      using Suc.prems(3) p(3) by (metis Suc_less_eq length_Cons)
    ultimately show ?thesis using Suc.IH [OF p(2) b] nx p(1,3) by (simp add: hash_cur_def)
  qed
qed simp

lemma iterate_ok:
  assumes p: "placed hf h" and d: "distinct (elems h)" "0 \<notin> set (elems h)"
  shows "iterate (Suc (length (elems h))) h hash_first = Some (elems h)"
proof -
  obtain k where k: "2 \<le> k" "k < 32" "bucket_cnt h = 2 ^ k" "length (buckets h) = 2 ^ k" using p by (auto simp: placed_def)
  have "(2 :: nat) ^ k < 2 ^ 32" using k(2) by (intro power_strict_increasing) simp_all
  then have u: "unat (bucket_cnt h) = length (buckets h)" using unat_word_of_nat_32 [of "2 ^ k"] k(3,4) by simp
  have l: "0 < length (buckets h)" by (simp add: k(4))
  then obtain b bs where b: "buckets h = b # bs" by (cases "buckets h") auto
  have e: "elems h = b @ concat (drop (Suc 0) (buckets h))" by (simp add: elems_def b)
  have nx: "hash_next h hash_first = Some (next_loop h 0 b)" by (simp add: hash_next_def hash_first_def bucket_at_def b)
  from next_loop_ok [OF u l, of b] show ?thesis
  proof (elim disjE exE conjE)
    fix k assume "next_loop h 0 b = \<lparr>ibucket = k, ielem = Over\<rparr>" "b @ concat (drop (Suc 0) (buckets h)) = []"
    then show ?thesis using nx e by (simp add: hash_cur_def)
  next
    fix j e' ws
    assume q: "next_loop h 0 b = \<lparr>ibucket = j, ielem = At e'\<rparr>" "j < length (buckets h)"
      "b @ concat (drop (Suc 0) (buckets h)) = e' # ws @ concat (drop (Suc j) (buckets h))" "j = 0" "b = e' # ws"
    then have bj: "buckets h ! j = [] @ e' # ws" by (simp add: b)
    have n: "e' \<noteq> 0" "length (ws @ concat (drop (Suc j) (buckets h))) < length (elems h)" using d(2) e q(3) by auto
    show ?thesis using iterate_at [OF u d q(2) bj n(2)] nx q(1,3) n(1) e by (simp add: hash_cur_def)
  next
    fix j e' ws
    assume q: "next_loop h 0 b = \<lparr>ibucket = j, ielem = At e'\<rparr>" "j < length (buckets h)"
      "b @ concat (drop (Suc 0) (buckets h)) = e' # ws @ concat (drop (Suc j) (buckets h))" "buckets h ! j = e' # ws"
    then have bj: "buckets h ! j = [] @ e' # ws" by simp
    have n: "e' \<noteq> 0" "length (ws @ concat (drop (Suc j) (buckets h))) < length (elems h)" using d(2) e q(3) by auto
    show ?thesis using iterate_at [OF u d q(2) bj n(2)] nx q(1,3) n(1) e by (simp add: hash_cur_def)
  qed
qed

section \<open>Properties\<close>

lemma init_ok:
  assumes "hash_init h0 = (True, h)"
  shows "hash_ok hf lf h" "elems h = []"
proof -
  have h: "elem_cnt h = 0" "bucket_cnt h = 4" "buckets h = replicate 4 []"
    using assms by (auto simp: hash_init_def hash_clear_def halloc_def Let_def split: if_splits)
  show "elems h = []" by (simp add: elems_def h)
  then show "hash_ok hf lf h" unfolding hash_ok_def placed_def h by (auto simp: h intro!: exI [of _ 2])
qed

text \<open>Elements that hold strings, hashed with \<open>hash_string\<close> and compared with \<open>strcmp\<close>.\<close>

interpretation string_keys: hash_keys "\<lambda>e. hash_string (str e)" "\<lambda>a b. cstr (str a) < cstr (str b)" for str
proof
  show "same (\<lambda>a b. cstr (str a) < cstr (str b)) a b \<Longrightarrow> hash_string (str a) = hash_string (str b)" for a b
    by (auto simp: same_def hash_string_def not_less)
qed (auto simp: same_def not_less)

text \<open>
  C26. A hash table is a set of elements that are pairwise different for the comparison function,
  for every hash function that agrees with the comparison. \<open>hash_find\<close>, \<open>hash_insert\<close>,
  \<open>hash_replace\<close> and \<open>hash_delete\<close> never fail, return the element that equals the argument or a
  null pointer, and change the set by exactly that element, whether or not memory for a new array of
  buckets can be had; the number of buckets stays a power of two and the count exact. An iteration
  visits every element exactly once.
\<close>

theorem hash_table_is_set:
  assumes k: "hash_keys hf lf" and h: "hash_ok hf lf h" and e: "e \<noteq> 0"
  shows "(\<exists>r. hash_find hf lf e h = Some r \<and>
      (r = 0 \<and> (\<forall>x\<in>set (elems h). \<not> same lf x e) \<or> r \<in> set (elems h) \<and> same lf r e)) \<and>
    (\<exists>old h'. hash_insert hf lf e h = Some (old, h') \<and> hash_ok hf lf h' \<and>
      (old = 0 \<and> (\<forall>x\<in>set (elems h). \<not> same lf x e) \<and> set (elems h') = insert e (set (elems h)) \<or>
       old \<in> set (elems h) \<and> same lf old e \<and> set (elems h') = set (elems h))) \<and>
    (\<exists>old h'. hash_replace hf lf e h = Some (old, h') \<and> hash_ok hf lf h' \<and>
      set (elems h') = insert e (set (elems h) - {old}) \<and>
      (old = 0 \<and> (\<forall>x\<in>set (elems h). \<not> same lf x e) \<or> old \<in> set (elems h) \<and> same lf old e)) \<and>
    (\<exists>r h'. hash_delete hf lf e h = Some (r, h') \<and> hash_ok hf lf h' \<and> set (elems h') = set (elems h) - {r} \<and>
      (r = 0 \<and> (\<forall>x\<in>set (elems h). \<not> same lf x e) \<or> r \<in> set (elems h) \<and> same lf r e)) \<and>
    unat (hash_size h) = card (set (elems h)) \<and> (hash_empty h \<longleftrightarrow> set (elems h) = {}) \<and>
    iterate (Suc (length (elems h))) h hash_first = Some (elems h) \<and> distinct (elems h)"
proof -
  note d = hash_okD [OF h]
  have "\<exists>r. hash_find hf lf e h = Some r \<and>
      (r = 0 \<and> (\<forall>x\<in>set (elems h). \<not> same lf x e) \<or> r \<in> set (elems h) \<and> same lf r e)"
    using hash_keys.find_ok [OF k h, of e] by (auto simp: hash_find_def)
  moreover have "unat (hash_size h) = card (set (elems h))" using d(2,4) by (simp add: hash_size_def distinct_card)
  moreover from this have "hash_empty h \<longleftrightarrow> set (elems h) = {}"
    using d(4) by (simp add: hash_empty_def hash_size_def unat_eq_zero [symmetric])
  ultimately show ?thesis
    using hash_keys.insert_ok [OF k h e] hash_keys.replace_ok [OF k h e] hash_keys.delete_ok [OF k h, of e]
      iterate_ok [OF d(1-3)] d(2) by (intro conjI) assumption+
qed

definition demo_hash :: hash_tab where
  "demo_hash = \<lparr>elem_cnt = 0, bucket_cnt = 0, buckets = [], hallocs = 0, hmem = (\<lambda>_. True)\<rparr>"

definition demo_txt :: "u32 \<Rightarrow> u8 list" where
  "demo_txt e = (if e = 5 then [97, 0] else [98, 0])"

theorem hash_table_is_set_witness:
  "\<exists>h'. hash_insert (\<lambda>e. hash_string (demo_txt e)) (\<lambda>a b. cstr (demo_txt a) < cstr (demo_txt b)) 5 (snd (hash_init demo_hash)) =
     Some (0, h') \<and> set (elems h') = {5}"
proof -
  have "fst (hash_init demo_hash)" by (simp add: hash_init_def halloc_def demo_hash_def hash_clear_def Let_def)
  then have i: "hash_init demo_hash = (True, snd (hash_init demo_hash))" by (simp add: prod_eq_iff)
  have k: "hash_keys (\<lambda>e. hash_string (demo_txt e)) (\<lambda>a b. cstr (demo_txt a) < cstr (demo_txt b))"
    by (rule string_keys.hash_keys_axioms)
  show ?thesis using hash_table_is_set [OF k init_ok(1) [OF i], of 5] by (simp add: init_ok(2) [OF i]) blast
qed

end
