(* ===== verification/Sorting.thy ===== *)
theory Sorting
  imports Prelude "HOL-Library.Multiset" "HOL-Library.List_Lexorder"
begin

text \<open>
  The sorting and searching functions of \<open>lib/stdlib.c\<close>. An array of \<open>cnt\<close> elements of \<open>size\<close> bytes
  is the list of its elements; the comparison callback with its auxiliary data is a parameter. An
  access outside the array is undefined and \<open>None\<close>, as is a loop that does not end. Sums and
  products of \<open>size_t\<close> wrap.
\<close>

section \<open>The code\<close>

definition elem_at :: "'a list \<Rightarrow> nat \<Rightarrow> 'a option" where
  "elem_at xs i = (if 1 \<le> i \<and> i \<le> length xs then Some (xs ! (i - 1)) else None)"

definition do_swap :: "'a list \<Rightarrow> nat \<Rightarrow> nat \<Rightarrow> 'a list option" where
  "do_swap xs a_idx b_idx = do {
     a \<leftarrow> elem_at xs a_idx;
     b \<leftarrow> elem_at xs b_idx;
     Some (xs[a_idx - 1 := b, b_idx - 1 := a])
   }"

definition do_compare :: "('a \<Rightarrow> 'a \<Rightarrow> int) \<Rightarrow> 'a list \<Rightarrow> nat \<Rightarrow> nat \<Rightarrow> int option" where
  "do_compare cmp xs a_idx b_idx = do {
     a \<leftarrow> elem_at xs a_idx;
     b \<leftarrow> elem_at xs b_idx;
     Some (cmp a b)
   }"

text \<open>One test of the loop of \<open>heapify\<close>: the larger of \<open>mx\<close> and its child, if there is one.\<close>

definition larger :: "('a \<Rightarrow> 'a \<Rightarrow> int) \<Rightarrow> 'a list \<Rightarrow> nat \<Rightarrow> nat \<Rightarrow> nat \<Rightarrow> nat option" where
  "larger cmp xs cnt child mx =
     (if child \<le> cnt then do { c \<leftarrow> do_compare cmp xs child mx; Some (if c > 0 then child else mx) } else Some mx)"

partial_function (option) heapify :: "('a \<Rightarrow> 'a \<Rightarrow> int) \<Rightarrow> 'a list \<Rightarrow> nat \<Rightarrow> nat \<Rightarrow> 'a list option" where
  "heapify cmp xs i cnt = do {
     let left = wrap32 (2 * i);
     let right = wrap32 (2 * i + 1);
     mx \<leftarrow> larger cmp xs cnt left i;
     mx2 \<leftarrow> larger cmp xs cnt right mx;
     (if mx2 = i then Some xs
      else do { xs1 \<leftarrow> do_swap xs i mx2; heapify cmp xs1 mx2 cnt })
   }"

fun build_loop :: "('a \<Rightarrow> 'a \<Rightarrow> int) \<Rightarrow> nat \<Rightarrow> nat \<Rightarrow> 'a list \<Rightarrow> 'a list option" where
  "build_loop cmp cnt 0 xs = Some xs"
| "build_loop cmp cnt (Suc i) xs = heapify cmp xs (Suc i) cnt \<bind> build_loop cmp cnt i"

fun sort_loop :: "('a \<Rightarrow> 'a \<Rightarrow> int) \<Rightarrow> nat \<Rightarrow> 'a list \<Rightarrow> 'a list option" where
  "sort_loop cmp i xs =
     (if i > 1 then do { xs1 \<leftarrow> do_swap xs 1 i; xs2 \<leftarrow> heapify cmp xs1 1 (i - 1); sort_loop cmp (i - 1) xs2 }
      else Some xs)"

declare sort_loop.simps [simp del]

definition sort_array :: "nat \<Rightarrow> ('a \<Rightarrow> 'a \<Rightarrow> int) \<Rightarrow> 'a list \<Rightarrow> 'a list option" where
  "sort_array esize cmp xs = do {
     kassert (esize > 0);
     xs1 \<leftarrow> build_loop cmp (length xs) (length xs div 2) xs;
     sort_loop cmp (length xs) xs1
   }"

definition compare_thunk :: "('a \<Rightarrow> 'a \<Rightarrow> int) \<Rightarrow> 'a \<Rightarrow> 'a \<Rightarrow> int" where
  "compare_thunk compare a b = compare a b"

definition qsort :: "nat \<Rightarrow> ('a \<Rightarrow> 'a \<Rightarrow> int) \<Rightarrow> 'a list \<Rightarrow> 'a list option" where
  "qsort esize compare xs = sort_array esize (compare_thunk compare) xs"

text \<open>The pointers \<open>first\<close> and \<open>last\<close> are indexes; the inner option is the null pointer.\<close>

function search_loop :: "('k \<Rightarrow> 'a \<Rightarrow> int) \<Rightarrow> 'k \<Rightarrow> 'a list \<Rightarrow> nat \<Rightarrow> nat \<Rightarrow> nat option option" where
  "search_loop cmp key xs lo hi =
     (if lo < hi then
        (case elem_at xs (lo + (hi - lo) div 2 + 1) of
           None \<Rightarrow> None
         | Some x \<Rightarrow>
             if cmp key x < 0 then search_loop cmp key xs lo (lo + (hi - lo) div 2)
             else if cmp key x > 0 then search_loop cmp key xs (lo + (hi - lo) div 2 + 1) hi
             else Some (Some (lo + (hi - lo) div 2)))
      else Some None)"
  by pat_completeness auto
termination
  by (relation "measure (\<lambda>(cmp, key, xs, lo, hi). hi - lo)") auto

declare search_loop.simps [simp del]

definition binary_search :: "('k \<Rightarrow> 'a \<Rightarrow> int) \<Rightarrow> 'k \<Rightarrow> 'a list \<Rightarrow> nat option option" where
  "binary_search cmp key xs = search_loop cmp key xs 0 (length xs)"

definition bsearch :: "('a \<Rightarrow> 'a \<Rightarrow> int) \<Rightarrow> 'a \<Rightarrow> 'a list \<Rightarrow> nat option option" where
  "bsearch compare key xs = binary_search (compare_thunk compare) key xs"

section \<open>Heaps\<close>

text \<open>A comparison function that returns what \<open>strcmp\<close> does, for a linear preorder.\<close>

locale comparator =
  fixes cmp :: "'a \<Rightarrow> 'a \<Rightarrow> int"
  assumes cmp_antisym: "cmp a b > 0 \<longleftrightarrow> cmp b a < 0"
    and cmp_trans: "cmp a b \<le> 0 \<Longrightarrow> cmp b c \<le> 0 \<Longrightarrow> cmp a c \<le> 0"
begin

lemma cmp_refl: "cmp a a \<le> 0"
  using cmp_antisym [of a a] by linarith

lemma cmp_total: "cmp a b \<le> 0 \<or> cmp b a \<le> 0"
  using cmp_antisym [of a b] by linarith

lemma not_greater: "\<not> cmp a b > 0 \<longleftrightarrow> cmp a b \<le> 0"
  by auto

lemma greater_le: "cmp a b > 0 \<Longrightarrow> cmp b a \<le> 0"
  using cmp_antisym [of a b] by linarith

text \<open>\<open>xs ! (i - 1)\<close> dominates its children, for the parents \<open>p\<close> that satisfy \<open>P\<close>.\<close>

definition heap :: "(nat \<Rightarrow> bool) \<Rightarrow> nat \<Rightarrow> 'a list \<Rightarrow> bool" where
  "heap P cnt xs \<longleftrightarrow> (\<forall>j. 2 \<le> j \<and> j \<le> cnt \<and> P (j div 2) \<longrightarrow> cmp (xs ! (j - 1)) (xs ! (j div 2 - 1)) \<le> 0)"

lemma heapD: "heap P cnt xs \<Longrightarrow> 2 \<le> j \<Longrightarrow> j \<le> cnt \<Longrightarrow> P (j div 2) \<Longrightarrow> cmp (xs ! (j - 1)) (xs ! (j div 2 - 1)) \<le> 0"
  by (simp add: heap_def)

lemma larger_ok:
  assumes "1 \<le> mx" "mx \<le> length xs" "1 \<le> child" "cnt \<le> length xs"
  shows "larger cmp xs cnt child mx = Some (if child \<le> cnt \<and> cmp (xs ! (child - 1)) (xs ! (mx - 1)) > 0 then child else mx)"
  using assms by (simp add: larger_def do_compare_def elem_at_def)

text \<open>The index of the largest of \<open>i\<close> and its children.\<close>

lemma largest:
  assumes i: "1 \<le> i" "i \<le> cnt" "cnt \<le> length xs"
  shows "\<exists>m k. larger cmp xs cnt (2 * i) i = Some m \<and> larger cmp xs cnt (2 * i + 1) m = Some k \<and>
    (k = i \<or> (k = 2 * i \<or> k = 2 * i + 1) \<and> k \<le> cnt) \<and> cmp (xs ! (i - 1)) (xs ! (k - 1)) \<le> 0 \<and>
    (\<forall>j. j div 2 = i \<and> j \<le> cnt \<longrightarrow> cmp (xs ! (j - 1)) (xs ! (k - 1)) \<le> 0)"
proof -
  define m where "m = (if 2 * i \<le> cnt \<and> cmp (xs ! (2 * i - 1)) (xs ! (i - 1)) > 0 then 2 * i else i)"
  define k where "k = (if 2 * i + 1 \<le> cnt \<and> cmp (xs ! (2 * i + 1 - 1)) (xs ! (m - 1)) > 0 then 2 * i + 1 else m)"
  have l1: "larger cmp xs cnt (2 * i) i = Some m" using larger_ok [of i xs "2 * i" cnt] i by (simp add: m_def)
  have m: "1 \<le> m" "m \<le> length xs" "m = i \<or> m = 2 * i \<and> m \<le> cnt" using i by (auto simp: m_def)
  have l2: "larger cmp xs cnt (2 * i + 1) m = Some k" using larger_ok [OF m(1,2), of "2 * i + 1" cnt] i by (simp add: k_def)
  have im: "cmp (xs ! (i - 1)) (xs ! (m - 1)) \<le> 0" using greater_le cmp_refl by (auto simp: m_def)
  have lm: "2 * i \<le> cnt \<Longrightarrow> cmp (xs ! (2 * i - 1)) (xs ! (m - 1)) \<le> 0" using cmp_refl by (auto simp: m_def)
  have mk: "cmp (xs ! (m - 1)) (xs ! (k - 1)) \<le> 0" using greater_le cmp_refl by (auto simp: k_def)
  have rk: "2 * i + 1 \<le> cnt \<Longrightarrow> cmp (xs ! (2 * i + 1 - 1)) (xs ! (k - 1)) \<le> 0" using cmp_refl by (auto simp: k_def)
  have "cmp (xs ! (j - 1)) (xs ! (k - 1)) \<le> 0" if "j div 2 = i" "j \<le> cnt" for j
  proof -
    have "j = 2 * i \<or> j = 2 * i + 1" using that(1) by linarith
    then show ?thesis using rk cmp_trans [OF lm mk] that(2) by auto
  qed
  moreover have "k = i \<or> (k = 2 * i \<or> k = 2 * i + 1) \<and> k \<le> cnt" using m(3) by (auto simp: k_def)
  ultimately show ?thesis using l1 l2 cmp_trans [OF im mk] by blast
qed

lemma swap_nth:
  assumes "1 \<le> a" "a \<le> length xs" "1 \<le> b" "b \<le> length xs" "1 \<le> j"
  shows "xs[a - 1 := xs ! (b - 1), b - 1 := xs ! (a - 1)] ! (j - 1) =
    (if j = b then xs ! (a - 1) else if j = a then xs ! (b - 1) else xs ! (j - 1))"
  using assms by (auto simp: nth_list_update)

lemma swap_take:
  assumes "1 \<le> a" "a \<le> cnt" "1 \<le> b" "b \<le> cnt" "cnt \<le> length xs"
  defines "ys \<equiv> xs[a - 1 := xs ! (b - 1), b - 1 := xs ! (a - 1)]"
  shows "mset (take cnt ys) = mset (take cnt xs)" "drop cnt ys = drop cnt xs" "length ys = length xs"
proof -
  have "take cnt ys = (take cnt xs)[a - 1 := take cnt xs ! (b - 1), b - 1 := take cnt xs ! (a - 1)]"
    using assms(1-5) by (simp add: ys_def take_update_swap)
  then show "mset (take cnt ys) = mset (take cnt xs)"
    using assms(1-5) mset_swap [of "b - 1" "take cnt xs" "a - 1"] by simp
  show "drop cnt ys = drop cnt xs" using assms(1-5) by (simp add: ys_def drop_update_cancel)
  show "length ys = length xs" by (simp add: ys_def)
qed

lemma heapify_ok:
  assumes "1 \<le> lo" "lo \<le> i" "i \<le> cnt" "cnt \<le> length xs" "2 * cnt + 1 < 4294967296"
    and "heap (\<lambda>p. lo \<le> p \<and> p \<noteq> i) cnt xs"
    and "lo \<le> i div 2 \<longrightarrow> (\<forall>j. j div 2 = i \<and> j \<le> cnt \<longrightarrow> cmp (xs ! (j - 1)) (xs ! (i div 2 - 1)) \<le> 0)"
  shows "\<exists>ys. heapify cmp xs i cnt = Some ys \<and> length ys = length xs \<and> mset (take cnt ys) = mset (take cnt xs) \<and>
    drop cnt ys = drop cnt xs \<and> heap (\<lambda>p. lo \<le> p) cnt ys"
  using assms
proof (induction "cnt - i" arbitrary: i xs rule: less_induct)
  case less
  have i: "1 \<le> i" "i \<le> length xs" using less.prems by simp_all
  obtain m k where mk: "larger cmp xs cnt (2 * i) i = Some m" "larger cmp xs cnt (2 * i + 1) m = Some k"
    "k = i \<or> (k = 2 * i \<or> k = 2 * i + 1) \<and> k \<le> cnt" "cmp (xs ! (i - 1)) (xs ! (k - 1)) \<le> 0"
    "\<forall>j. j div 2 = i \<and> j \<le> cnt \<longrightarrow> cmp (xs ! (j - 1)) (xs ! (k - 1)) \<le> 0"
    using largest [OF i(1) less.prems(3,4)] by blast
  have w: "wrap32 (2 * i) = 2 * i" "wrap32 (2 * i + 1) = 2 * i + 1" using less.prems(3,5) by (simp_all add: wrap32_less)
  have st: "heapify cmp xs i cnt = (if k = i then Some xs else do_swap xs i k \<bind> (\<lambda>xs1. heapify cmp xs1 k cnt))"
    by (subst heapify.simps) (simp only: Let_def w mk(1,2) Option.bind_lunit)
  show ?case
  proof (cases "k = i")
    case True
    have "heap (\<lambda>p. lo \<le> p) cnt xs"
      unfolding heap_def
    proof (intro allI impI)
      fix j assume j: "2 \<le> j \<and> j \<le> cnt \<and> lo \<le> j div 2"
      show "cmp (xs ! (j - 1)) (xs ! (j div 2 - 1)) \<le> 0"
        using j mk(5) True heapD [OF less.prems(6), of j] by (cases "j div 2 = i") auto
    qed
    then show ?thesis using st True by simp
  next
    case False
    then have k: "k div 2 = i" "k \<le> cnt" "i < k" "1 \<le> k" using mk(3) i(1) by auto
    have kl: "k \<le> length xs" using k(2) less.prems(4) by simp
    define ys where "ys = xs[i - 1 := xs ! (k - 1), k - 1 := xs ! (i - 1)]"
    have sw: "do_swap xs i k = Some ys" using i k(4) kl by (simp add: do_swap_def elem_at_def ys_def)
    note n = swap_nth [OF i k(4) kl, folded ys_def]
    note t = swap_take [OF i(1) less.prems(3) k(4,2) less.prems(4), folded ys_def]
    have hp: "heap (\<lambda>p. lo \<le> p \<and> p \<noteq> k) cnt ys"
      unfolding heap_def
    proof (intro allI impI)
      fix j assume j: "2 \<le> j \<and> j \<le> cnt \<and> lo \<le> j div 2 \<and> j div 2 \<noteq> k"
      have j1: "1 \<le> j" "1 \<le> j div 2" using j by auto
      show "cmp (ys ! (j - 1)) (ys ! (j div 2 - 1)) \<le> 0"
      proof (cases "j div 2 = i")
        case True
        then show ?thesis unfolding n [OF j1(1)] n [OF j1(2)] using j k mk(4,5) by auto
      next
        case ni: False
        show ?thesis
        proof (cases "j = i")
          case True
          then have "j \<noteq> k" "j div 2 \<noteq> k" "j div 2 \<noteq> i" using k(3) j1(2) by auto
          moreover have "cmp (xs ! (k - 1)) (xs ! (i div 2 - 1)) \<le> 0" using less.prems(7) j k(1,2) True by blast
          ultimately show ?thesis unfolding n [OF j1(1)] n [OF j1(2)] using True by simp
        next
          case False
          then have "j \<noteq> k" using ni k(1) by auto
          then show ?thesis unfolding n [OF j1(1)] n [OF j1(2)] using False j ni heapD [OF less.prems(6), of j] by simp
        qed
      qed
    qed
    have gp: "lo \<le> k div 2 \<longrightarrow> (\<forall>j. j div 2 = k \<and> j \<le> cnt \<longrightarrow> cmp (ys ! (j - 1)) (ys ! (k div 2 - 1)) \<le> 0)"
    proof (intro impI allI, elim conjE)
      fix j assume j: "j div 2 = k" "j \<le> cnt"
      then have j1: "1 \<le> j" "2 \<le> j" "j \<noteq> k" "j \<noteq> i" using k(3,4) by auto
      have "cmp (xs ! (j - 1)) (xs ! (k - 1)) \<le> 0" using heapD [OF less.prems(6), of j] j j1 k(3) less.prems(2) by simp
      then show "cmp (ys ! (j - 1)) (ys ! (k div 2 - 1)) \<le> 0" unfolding k(1) n [OF j1(1)] n [OF i(1)] using j1(3,4) k(3) by simp
    qed
    have d: "cnt - k < cnt - i" "lo \<le> k" "cnt \<le> length ys" using k less.prems(2-4) t(3) by simp_all
    obtain zs where "heapify cmp ys k cnt = Some zs" "length zs = length ys" "mset (take cnt zs) = mset (take cnt ys)"
      "drop cnt zs = drop cnt ys" "heap (\<lambda>p. lo \<le> p) cnt zs"
      using less.hyps [OF d(1) less.prems(1) d(2) k(2) d(3) less.prems(5) hp gp] by blast
    then show ?thesis using st sw False t by simp
  qed
qed

lemma build_ok:
  "i \<le> cnt div 2 \<Longrightarrow> cnt = length xs \<Longrightarrow> 2 * cnt + 1 < 4294967296 \<Longrightarrow> heap (\<lambda>p. Suc i \<le> p) cnt xs \<Longrightarrow>
   \<exists>ys. build_loop cmp cnt i xs = Some ys \<and> length ys = length xs \<and> mset ys = mset xs \<and> heap (\<lambda>p. 1 \<le> p) cnt ys"
proof (induction i arbitrary: xs)
  case (Suc i)
  have h: "heap (\<lambda>p. Suc i \<le> p \<and> p \<noteq> Suc i) cnt xs" using Suc.prems(4) by (simp add: heap_def)
  have a: "1 \<le> Suc i" "Suc i \<le> cnt" "cnt \<le> length xs" "\<not> Suc i \<le> Suc i div 2" using Suc.prems(1,2) by simp_all
  obtain ys where ys: "heapify cmp xs (Suc i) cnt = Some ys" "length ys = length xs" "mset (take cnt ys) = mset (take cnt xs)"
    "heap (\<lambda>p. Suc i \<le> p) cnt ys"
    using heapify_ok [OF a(1) le_refl a(2,3) Suc.prems(3) h] a(4) by blast
  then have "mset ys = mset xs" using Suc.prems(2) by simp
  moreover obtain zs where "build_loop cmp cnt i ys = Some zs" "length zs = length ys" "mset zs = mset ys" "heap (\<lambda>p. 1 \<le> p) cnt zs"
    using Suc.IH [of ys] Suc.prems ys(2,4) by auto
  ultimately show ?case using ys(1,2) by simp
qed auto

text \<open>The root of a heap dominates every element.\<close>

lemma heap_root: "heap (\<lambda>p. 1 \<le> p) cnt xs \<Longrightarrow> 1 \<le> j \<Longrightarrow> j \<le> cnt \<Longrightarrow> cmp (xs ! (j - 1)) (xs ! 0) \<le> 0"
proof (induction j rule: less_induct)
  case (less j)
  show ?case
  proof (cases "j = 1")
    case True
    then show ?thesis by (simp add: cmp_refl)
  next
    case False
    then have "cmp (xs ! (j - 1)) (xs ! (j div 2 - 1)) \<le> 0" using heapD [OF less.prems(1), of j] less.prems by auto
    moreover have "cmp (xs ! (j div 2 - 1)) (xs ! 0) \<le> 0" using less.IH [of "j div 2"] less.prems False by auto
    ultimately show ?thesis by (rule cmp_trans)
  qed
qed

definition ordered :: "'a list \<Rightarrow> bool" where
  "ordered xs \<longleftrightarrow> sorted_wrt (\<lambda>a b. cmp a b \<le> 0) xs"

lemma sort_loop_ok:
  "i \<le> length xs \<Longrightarrow> 2 * i + 1 < 4294967296 \<Longrightarrow> heap (\<lambda>p. 1 \<le> p) i xs \<Longrightarrow> ordered (drop i xs) \<Longrightarrow>
   (\<forall>a\<in>set (take i xs). \<forall>b\<in>set (drop i xs). cmp a b \<le> 0) \<Longrightarrow>
   \<exists>ys. sort_loop cmp i xs = Some ys \<and> mset ys = mset xs \<and> ordered ys"
proof (induction i arbitrary: xs)
  case 0
  then show ?case by (subst sort_loop.simps) simp
next
  case (Suc i)
  show ?case
  proof (cases "i = 0")
    case True
    have "ordered (take 1 xs @ drop 1 xs)" using Suc.prems(4,5) True by (cases xs) (auto simp: ordered_def)
    then show ?thesis using True by (subst sort_loop.simps) simp
  next
    case False
    then have i: "1 \<le> (1 :: nat)" "1 \<le> length xs" "1 \<le> Suc i" "Suc i \<le> length xs" "1 \<le> i" "(1 :: nat) \<le> Suc i" using Suc.prems(1) by simp_all
    define ys where "ys = xs[1 - 1 := xs ! (Suc i - 1), Suc i - 1 := xs ! (1 - 1)]"
    have sw: "do_swap xs 1 (Suc i) = Some ys" using i by (simp add: do_swap_def elem_at_def ys_def)
    note n = swap_nth [OF i(1,2,3,4), folded ys_def]
    note t = swap_take [OF i(1,6,3) le_refl i(4), folded ys_def]
    have hp: "heap (\<lambda>p. 1 \<le> p \<and> p \<noteq> 1) i ys"
      unfolding heap_def
    proof (intro allI impI)
      fix j assume j: "2 \<le> j \<and> j \<le> i \<and> 1 \<le> j div 2 \<and> j div 2 \<noteq> 1"
      then have "1 \<le> j" "1 \<le> j div 2" "j \<noteq> Suc i" "j \<noteq> 1" "j div 2 \<noteq> Suc i" by auto
      then show "cmp (ys ! (j - 1)) (ys ! (j div 2 - 1)) \<le> 0"
        unfolding n [OF \<open>1 \<le> j\<close>] n [OF \<open>1 \<le> j div 2\<close>] using heapD [OF Suc.prems(3), of j] j by simp
    qed
    have a: "i \<le> length ys" "2 * i + 1 < 4294967296" "\<not> (1 :: nat) \<le> 1 div 2" using Suc.prems(1,2) t(3) by simp_all
    obtain zs where zs: "heapify cmp ys 1 i = Some zs" "length zs = length ys" "mset (take i zs) = mset (take i ys)"
      "drop i zs = drop i ys" "heap (\<lambda>p. 1 \<le> p) i zs"
      using heapify_ok [OF le_refl le_refl i(5) a(1,2) hp] a(3) by blast
    have yi: "ys ! i = xs ! 0" using n [of "Suc i"] by simp
    have dy: "drop i ys = xs ! 0 # drop (Suc i) xs" using Cons_nth_drop_Suc [of i ys] yi t(2,3) Suc.prems(1) by simp
    have x0: "xs ! 0 \<in> set (take (Suc i) xs)" using Suc.prems(1) by (cases xs) simp_all
    have "ordered (drop i zs)" unfolding zs(4) dy using Suc.prems(4,5) x0 by (auto simp: ordered_def)
    moreover have "\<forall>a\<in>set (take i zs). \<forall>b\<in>set (drop i zs). cmp a b \<le> 0"
    proof (intro ballI)
      fix a b assume "a \<in> set (take i zs)" and b: "b \<in> set (drop i zs)"
      then have "a \<in> set (take i ys)" by (metis zs(3) set_mset_mset)
      then have "a \<in> set (take (Suc i) ys)" by (meson le_SucI le_refl set_take_subset_set_take subsetD)
      then have ax: "a \<in> set (take (Suc i) xs)" by (metis t(1) set_mset_mset)
      then obtain j where "j < Suc i" "j < length xs" "a = xs ! j" by (auto simp: in_set_conv_nth)
      then have "cmp a (xs ! 0) \<le> 0" using heap_root [OF Suc.prems(3), of "Suc j"] by simp
      then show "cmp a b \<le> 0" using b ax Suc.prems(5) unfolding zs(4) dy by auto
    qed
    ultimately obtain us where us: "sort_loop cmp i zs = Some us" "mset us = mset zs" "ordered us"
      using Suc.IH [of zs] a(1,2) zs(2,5) by auto
    have "mset zs = mset (take i zs) + mset (drop i zs)" by (metis append_take_drop_id mset_append)
    also have "\<dots> = mset ys" unfolding zs(3,4) by (metis append_take_drop_id mset_append)
    also have "\<dots> = mset (take (Suc i) ys) + mset (drop (Suc i) ys)" by (metis append_take_drop_id mset_append)
    also have "\<dots> = mset xs" unfolding t(1,2) by (metis append_take_drop_id mset_append)
    finally have "mset us = mset xs" using us(2) by simp
    then show ?thesis using sw zs(1) us(1,3) False by (subst sort_loop.simps) simp
  qed
qed

lemma sort_array_ok:
  assumes "0 < esize" "length xs < 2147483647"
  shows "\<exists>ys. sort_array esize cmp xs = Some ys \<and> mset ys = mset xs \<and> ordered ys"
proof -
  have b: "2 * length xs + 1 < 4294967296" using assms(2) by simp
  have h: "heap (\<lambda>p. Suc (length xs div 2) \<le> p) (length xs) xs"
    unfolding heap_def by (intro allI impI) linarith
  obtain ys where ys: "build_loop cmp (length xs) (length xs div 2) xs = Some ys" "length ys = length xs" "mset ys = mset xs"
    "heap (\<lambda>p. 1 \<le> p) (length xs) ys"
    using build_ok [OF le_refl refl b h] by blast
  then obtain zs where "sort_loop cmp (length xs) ys = Some zs" "mset zs = mset ys" "ordered zs"
    using sort_loop_ok [of "length xs" ys] b by (auto simp: ordered_def)
  then show ?thesis using assms(1) ys by (simp add: sort_array_def)
qed

text \<open>Binary search: what is left of \<open>lo\<close> is less than the key, what is from \<open>hi\<close> on greater.\<close>

lemma search_loop_ok:
  assumes o: "ordered xs"
  shows "lo \<le> hi \<Longrightarrow> hi \<le> length xs \<Longrightarrow> \<forall>i<lo. cmp key (xs ! i) > 0 \<Longrightarrow> \<forall>i<length xs. hi \<le> i \<longrightarrow> cmp key (xs ! i) < 0 \<Longrightarrow>
    \<exists>r. search_loop cmp key xs lo hi = Some r \<and>
      (case r of None \<Rightarrow> \<forall>x\<in>set xs. cmp key x \<noteq> 0 | Some i \<Rightarrow> i < length xs \<and> cmp key (xs ! i) = 0)"
proof (induction "hi - lo" arbitrary: lo hi rule: less_induct)
  case less
  show ?case
  proof (cases "lo < hi")
    case False
    then have "cmp key (xs ! i) \<noteq> 0" if "i < length xs" for i
      using less.prems that by (metis linorder_not_less not_less_iff_gr_or_eq order_less_irrefl le_antisym)
    then show ?thesis using False by (subst search_loop.simps) (auto simp: in_set_conv_nth)
  next
    case True
    define m where "m = lo + (hi - lo) div 2"
    have m: "lo \<le> m" "m < hi" "m < length xs" using True less.prems(2) by (auto simp: m_def)
    have e: "elem_at xs (lo + (hi - lo) div 2 + 1) = Some (xs ! m)" using m by (simp add: elem_at_def m_def)
    have le: "cmp (xs ! i) (xs ! j) \<le> 0" if "i < j" "j < length xs" for i j
      using o that by (simp add: ordered_def sorted_wrt_iff_nth_less)
    consider "cmp key (xs ! m) < 0" | "cmp key (xs ! m) > 0" | "cmp key (xs ! m) = 0" by linarith
    then show ?thesis
    proof cases
      case 1
      have "cmp key (xs ! i) < 0" if "m \<le> i" "i < length xs" for i
      proof (cases "i = m")
        case False
        have "\<not> cmp key (xs ! i) \<ge> 0"
        proof
          assume "cmp key (xs ! i) \<ge> 0"
          then have "cmp (xs ! i) key \<le> 0" using cmp_antisym [of "xs ! i" key] by linarith
          then have "cmp (xs ! m) key \<le> 0" using cmp_trans le False that by (metis le_neq_implies_less)
          then show False using 1 cmp_antisym [of "xs ! m" key] by linarith
        qed
        then show ?thesis by simp
      qed (use 1 in simp)
      then have h: "\<forall>i<length xs. m \<le> i \<longrightarrow> cmp key (xs ! i) < 0" by blast
      have d: "m - lo < hi - lo" using m by linarith
      obtain r where "search_loop cmp key xs lo m = Some r"
        "case r of None \<Rightarrow> \<forall>x\<in>set xs. cmp key x \<noteq> 0 | Some i \<Rightarrow> i < length xs \<and> cmp key (xs ! i) = 0"
        using less.hyps [OF d m(1) less_imp_le [OF m(3)] less.prems(3) h] by blast
      then show ?thesis using True 1 e by (subst search_loop.simps) (simp add: m_def)
    next
      case 2
      have "cmp key (xs ! i) > 0" if "i < m + 1" for i
      proof (cases "i = m")
        case False
        have "\<not> cmp key (xs ! i) \<le> 0"
        proof
          assume "cmp key (xs ! i) \<le> 0"
          then have "cmp key (xs ! m) \<le> 0" using cmp_trans le False that m(3) by (metis Suc_eq_plus1 less_antisym)
          then show False using 2 by linarith
        qed
        then show ?thesis by simp
      qed (use 2 in simp)
      then have h: "\<forall>i<m + 1. cmp key (xs ! i) > 0" by blast
      have d: "hi - (m + 1) < hi - lo" "m + 1 \<le> hi" using m by linarith+
      obtain r where "search_loop cmp key xs (m + 1) hi = Some r"
        "case r of None \<Rightarrow> \<forall>x\<in>set xs. cmp key x \<noteq> 0 | Some i \<Rightarrow> i < length xs \<and> cmp key (xs ! i) = 0"
        using less.hyps [OF d less.prems(2) h less.prems(4)] by blast
      then show ?thesis using True 2 e by (subst search_loop.simps) (simp add: m_def)
    next
      case 3
      then show ?thesis using True e m by (subst search_loop.simps) (simp add: m_def [symmetric])
    qed
  qed
qed

end

text \<open>The order of \<open>strcmp\<close> and \<open>memcmp\<close>.\<close>

definition str_order :: "u8 list \<Rightarrow> u8 list \<Rightarrow> int" where
  "str_order xs ys = (if xs < ys then - 1 else if ys < xs then 1 else 0)"

interpretation strings: comparator str_order
  by unfold_locales (auto simp: str_order_def split: if_splits)

section \<open>Properties\<close>

text \<open>
  C37. For every comparison function that returns what \<open>strcmp\<close> does for some linear preorder,
  \<open>qsort\<close> ends, accesses only the array, and leaves a sorted permutation of it (up to two billion
  elements, beyond which its indexes wrap). On the result \<open>bsearch\<close> finds an equal element for
  every key that has one, and a null pointer otherwise.
\<close>

theorem sort_and_search:
  assumes c: "comparator cmp" and n: "0 < esize" "length xs < 2147483647"
  shows "\<exists>ys. qsort esize cmp xs = Some ys \<and> mset ys = mset xs \<and> sorted_wrt (\<lambda>a b. cmp a b \<le> 0) ys \<and>
    (\<forall>key. \<exists>r. bsearch cmp key ys = Some r \<and>
      (case r of None \<Rightarrow> \<forall>x\<in>set xs. cmp key x \<noteq> 0 | Some i \<Rightarrow> i < length ys \<and> cmp key (ys ! i) = 0))"
proof -
  have t: "compare_thunk cmp = cmp" by (simp add: compare_thunk_def fun_eq_iff)
  obtain ys where ys: "sort_array esize cmp xs = Some ys" "mset ys = mset xs" "comparator.ordered cmp ys"
    using comparator.sort_array_ok [OF c n] by blast
  have "sorted_wrt (\<lambda>a b. cmp a b \<le> 0) ys" using ys(3) comparator.ordered_def [OF c] by simp
  moreover have "\<exists>r. bsearch cmp key ys = Some r \<and>
      (case r of None \<Rightarrow> \<forall>x\<in>set xs. cmp key x \<noteq> 0 | Some i \<Rightarrow> i < length ys \<and> cmp key (ys ! i) = 0)" for key
    using comparator.search_loop_ok [OF c ys(3), of 0 "length ys" key]
    unfolding mset_eq_setD [OF ys(2)] by (simp add: bsearch_def binary_search_def t)
  ultimately show ?thesis using ys(1,2) by (simp add: qsort_def t)
qed

theorem sort_and_search_witness:
  "\<exists>ys. qsort 4 str_order [[98], [97, 98], [97]] = Some ys \<and> mset ys = {#[98], [97, 98], [97]#} \<and>
     sorted_wrt (\<lambda>a b. str_order a b \<le> 0) ys"
  using sort_and_search [OF strings.comparator_axioms, of 4 "[[98], [97, 98], [97]]"] by auto

end
