(* ===== verification/Printf.thy ===== *)
theory Printf
  imports Cstring Complex_Main
begin

text \<open>
  Formatted output, \<open>lib/stdio.c\<close>, with \<open>lib/ctype.h\<close> and \<open>atoi\<close> of \<open>lib/stdlib.c\<close>.

  \<^item> A pointer into a format string is the list of the bytes from there on, the terminator included;
    reading the empty list is reading past the terminator, undefined and \<open>None\<close>.
  \<^item> A \<open>va_list\<close> is the list of the 32-bit stack slots that are left; types of 64 bits take two slots.
    Reading more arguments than there are is \<open>None\<close>.
  \<^item> The callback \<open>output\<close> is called once for every character, in order, and nothing is read back
    from it, so the functions return the list of the characters they pass to it.
  \<^item> A signed \<open>int\<close> that overflows is undefined and \<open>None\<close>. Strings live in memory (\<open>Cstring\<close>).
  \<^item> A \<open>double\<close> is its 64 bits. The rounding of the floating point unit is the parameter \<open>rnd\<close>.
\<close>

section \<open>Character classes\<close>

abbreviation chr :: "char \<Rightarrow> u8" where "chr c \<equiv> of_char c"
abbreviation lit :: "string \<Rightarrow> u8 list" where "lit s \<equiv> map of_char s"

definition islower :: "int \<Rightarrow> bool" where "islower c \<longleftrightarrow> 97 \<le> c \<and> c \<le> 122"
definition isupper :: "int \<Rightarrow> bool" where "isupper c \<longleftrightarrow> 65 \<le> c \<and> c \<le> 90"
definition isalpha :: "int \<Rightarrow> bool" where "isalpha c \<longleftrightarrow> islower c \<or> isupper c"
definition isdigit :: "int \<Rightarrow> bool" where "isdigit c \<longleftrightarrow> 48 \<le> c \<and> c \<le> 57"
definition isalnum :: "int \<Rightarrow> bool" where "isalnum c \<longleftrightarrow> isalpha c \<or> isdigit c"
definition isspace :: "int \<Rightarrow> bool" where
  "isspace c \<longleftrightarrow> c = 32 \<or> c = 12 \<or> c = 10 \<or> c = 13 \<or> c = 9 \<or> c = 11"
definition isprint :: "int \<Rightarrow> bool" where "isprint c \<longleftrightarrow> 32 \<le> c \<and> c < 127"

section \<open>Conversions\<close>

definition MINUS :: u32 where "MINUS = 1"
definition PLUS :: u32 where "PLUS = 2"
definition SPACE :: u32 where "SPACE = 4"
definition POUND :: u32 where "POUND = 8"
definition ZERO :: u32 where "ZERO = 16"
definition GROUP :: u32 where "GROUP = 32"

lemmas flag_defs = MINUS_def PLUS_def SPACE_def POUND_def ZERO_def GROUP_def

datatype arg_type = T_CHAR | T_SHORT | T_INT | T_INTMAX | T_LONG | T_LONGLONG | T_PTRDIFFT | T_SIZET

record printf_conversion =
  pc_flags :: u32
  pc_width :: int
  pc_precision :: int
  pc_type :: arg_type

record integer_base =
  ib_base :: nat
  ib_digits :: "u8 list"
  ib_x :: u8
  ib_group :: nat

definition base_d :: integer_base where
  "base_d = \<lparr>ib_base = 10, ib_digits = lit ''0123456789'', ib_x = 0, ib_group = 3\<rparr>"
definition base_o :: integer_base where
  "base_o = \<lparr>ib_base = 8, ib_digits = lit ''01234567'', ib_x = 0, ib_group = 3\<rparr>"
definition base_x :: integer_base where
  "base_x = \<lparr>ib_base = 16, ib_digits = lit ''0123456789abcdef'', ib_x = chr CHR ''x'', ib_group = 4\<rparr>"
definition base_X :: integer_base where
  "base_X = \<lparr>ib_base = 16, ib_digits = lit ''0123456789ABCDEF'', ib_x = chr CHR ''X'', ib_group = 4\<rparr>"

definition va32 :: "u32 list \<Rightarrow> (u32 \<times> u32 list) option" where
  "va32 args = (case args of [] \<Rightarrow> None | a # rest \<Rightarrow> Some (a, rest))"

definition va64 :: "u32 list \<Rightarrow> (u64 \<times> u32 list) option" where
  "va64 args = (case args of lo # hi # rest \<Rightarrow> Some (ucast lo OR push_bit 32 (ucast hi), rest) | _ \<Rightarrow> None)"

section \<open>Parsing a conversion\<close>

definition flag_of :: "u8 \<Rightarrow> u32 option" where
  "flag_of c =
     (if c = chr CHR ''-'' then Some MINUS else if c = chr CHR ''+'' then Some PLUS
      else if c = chr CHR '' '' then Some SPACE else if c = chr CHR ''#'' then Some POUND
      else if c = chr CHR ''0'' then Some ZERO else if c = 39 then Some GROUP else None)"

fun parse_flags :: "u8 list \<Rightarrow> u32 \<Rightarrow> (u8 list \<times> u32) option" where
  "parse_flags [] f = None"
| "parse_flags (c # cs) f = (case flag_of c of Some b \<Rightarrow> parse_flags cs (f OR b) | None \<Rightarrow> Some (c # cs, f))"

definition settle_flags :: "u32 \<Rightarrow> u32" where
  "settle_flags f =
     (let f1 = if f AND MINUS \<noteq> 0 then f AND NOT ZERO else f
      in if f1 AND PLUS \<noteq> 0 then f1 AND NOT SPACE else f1)"

fun parse_digits :: "u8 list \<Rightarrow> int \<Rightarrow> (u8 list \<times> int) option" where
  "parse_digits [] n = None"
| "parse_digits (c # cs) n =
     (if isdigit (sint c) then do {
        n1 \<leftarrow> cint32 (n * 10);
        n2 \<leftarrow> cint32 (n1 + sint c);
        n3 \<leftarrow> cint32 (n2 - 48);
        parse_digits cs n3
      } else Some (c # cs, n))"

text \<open>A width or a precision: \<open>*\<close> takes it from the arguments.\<close>

definition parse_star :: "u8 list \<Rightarrow> u32 list \<Rightarrow> (u8 list \<times> int \<times> u32 list) option" where
  "parse_star fmt args =
     (case fmt of
        [] \<Rightarrow> None
      | c # cs \<Rightarrow>
          if c = chr CHR ''*'' then do { (a, args1) \<leftarrow> va32 args; Some (cs, sint a, args1) }
          else do { (fmt1, n) \<leftarrow> parse_digits fmt 0; Some (fmt1, n, args) })"

definition parse_precision :: "u8 list \<Rightarrow> u32 list \<Rightarrow> (u8 list \<times> int \<times> u32 list) option" where
  "parse_precision fmt args =
     (case fmt of
        [] \<Rightarrow> None
      | c # cs \<Rightarrow>
          if c = chr CHR ''.'' then do {
            (fmt1, p, args1) \<leftarrow> parse_star cs args;
            Some (fmt1, (if p < 0 then - 1 else p), args1)
          } else Some (fmt, - 1, args))"

definition parse_type :: "u8 list \<Rightarrow> (u8 list \<times> arg_type) option" where
  "parse_type fmt =
     (case fmt of
        [] \<Rightarrow> None
      | c # cs \<Rightarrow>
          if c = chr CHR ''h'' then
            (case cs of [] \<Rightarrow> None | d # ds \<Rightarrow> Some (if d = chr CHR ''h'' then (ds, T_CHAR) else (cs, T_SHORT)))
          else if c = chr CHR ''j'' then Some (cs, T_INTMAX)
          else if c = chr CHR ''l'' then
            (case cs of [] \<Rightarrow> None | d # ds \<Rightarrow> Some (if d = chr CHR ''l'' then (ds, T_LONGLONG) else (cs, T_LONG)))
          else if c = chr CHR ''t'' then Some (cs, T_PTRDIFFT)
          else if c = chr CHR ''z'' then Some (cs, T_SIZET)
          else Some (fmt, T_INT))"

definition parse_conversion :: "u8 list \<Rightarrow> u32 list \<Rightarrow> (u8 list \<times> printf_conversion \<times> u32 list) option" where
  "parse_conversion fmt args = do {
     (fmt1, f) \<leftarrow> parse_flags fmt 0;
     let f1 = settle_flags f;
     (fmt2, w, args1) \<leftarrow> parse_star fmt1 args;
     (w1, f2) \<leftarrow> (if w < 0 then do { w' \<leftarrow> cint32 (- w); Some (w', f1 OR MINUS) } else Some (w, f1));
     (fmt3, p, args2) \<leftarrow> parse_precision fmt2 args1;
     let f3 = (if p \<ge> 0 then f2 AND NOT ZERO else f2);
     (fmt4, t) \<leftarrow> parse_type fmt3;
     Some (fmt4, \<lparr>pc_flags = f3, pc_width = w1, pc_precision = p, pc_type = t\<rparr>, args2)
   }"

section \<open>Formatting\<close>

definition output_dup :: "u8 \<Rightarrow> nat \<Rightarrow> u8 list" where
  "output_dup c cnt = replicate cnt c"

text \<open>\<open>*cp++ = c\<close> in the buffer of 64 bytes; the list holds the bytes below \<open>cp\<close>.\<close>

definition buf_put :: "u8 list \<Rightarrow> u8 \<Rightarrow> u8 list option" where
  "buf_put buf c = (if length buf < 64 then Some (buf @ [c]) else None)"

partial_function (option) digits_loop :: "u32 \<Rightarrow> integer_base \<Rightarrow> nat \<Rightarrow> nat \<Rightarrow> u8 list \<Rightarrow> u8 list option" where
  "digits_loop f b v digit_cnt buf =
     (if v > 0 then do {
        buf1 \<leftarrow> (if f AND GROUP \<noteq> 0 \<and> digit_cnt > 0 \<and> digit_cnt mod ib_group b = 0
                then buf_put buf (chr CHR '','') else Some buf);
        buf2 \<leftarrow> buf_put buf1 (ib_digits b ! (v mod ib_base b));
        digits_loop f b (v div ib_base b) (digit_cnt + 1) buf2
      } else Some buf)"

partial_function (option) zeros_loop :: "int \<Rightarrow> u8 list \<Rightarrow> u8 list option" where
  "zeros_loop precision buf =
     (if int (length buf) < precision \<and> length buf < 63
      then do { buf1 \<leftarrow> buf_put buf (chr CHR ''0''); zeros_loop precision buf1 }
      else Some buf)"

definition sign_char :: "u32 \<Rightarrow> bool \<Rightarrow> bool \<Rightarrow> u8" where
  "sign_char f is_signed negative =
     (if is_signed then
        (if f AND PLUS \<noteq> 0 then (if negative then chr CHR ''-'' else chr CHR ''+'')
         else if f AND SPACE \<noteq> 0 then (if negative then chr CHR ''-'' else chr CHR '' '')
         else if negative then chr CHR ''-'' else 0)
      else 0)"

definition octal_zero :: "u32 \<Rightarrow> integer_base \<Rightarrow> u8 list \<Rightarrow> u8 list option" where
  "octal_zero f b buf =
     (if f AND POUND \<noteq> 0 \<and> ib_base b = 8 \<and> (buf = [] \<or> last buf \<noteq> chr CHR ''0'')
      then buf_put buf (chr CHR ''0'') else Some buf)"

definition format_integer :: "nat \<Rightarrow> bool \<Rightarrow> bool \<Rightarrow> integer_base \<Rightarrow> printf_conversion \<Rightarrow> u8 list option" where
  "format_integer value is_signed negative b c = do {
     let f = pc_flags c;
     let sign = sign_char f is_signed negative;
     let x = (if f AND POUND \<noteq> 0 \<and> value \<noteq> 0 then ib_x b else 0);
     buf1 \<leftarrow> digits_loop f b value 0 [];
     buf2 \<leftarrow> zeros_loop (if pc_precision c < 0 then 1 else pc_precision c) buf1;
     buf \<leftarrow> octal_zero f b buf2;
     let pad_cnt = nat (pc_width c - int (length buf) - (if x \<noteq> 0 then 2 else 0) - (if sign \<noteq> 0 then 1 else 0));
     Some ((if f AND (MINUS OR ZERO) = 0 then output_dup (chr CHR '' '') pad_cnt else []) @
           (if sign \<noteq> 0 then [sign] else []) @
           (if x \<noteq> 0 then [chr CHR ''0'', x] else []) @
           (if f AND ZERO \<noteq> 0 then output_dup (chr CHR ''0'') pad_cnt else []) @
           rev buf @
           (if f AND MINUS \<noteq> 0 then output_dup (chr CHR '' '') pad_cnt else []))
   }"

text \<open>The characters of \<open>string\<close> that are read; a negative length reads none.\<close>

definition format_string :: "u8 list \<Rightarrow> int \<Rightarrow> printf_conversion \<Rightarrow> u8 list option" where
  "format_string str len c = do {
     pad \<leftarrow> (if pc_width c > len then cint32 (pc_width c - len) else Some 0);
     let spaces = output_dup (chr CHR '' '') (nat pad);
     Some ((if pc_flags c AND MINUS = 0 then spaces else []) @ take (nat len) str @
           (if pc_flags c AND MINUS \<noteq> 0 then spaces else []))
   }"

section \<open>Arguments\<close>

definition int_arg_type :: "arg_type \<Rightarrow> bool" where
  "int_arg_type t \<longleftrightarrow> t \<noteq> T_INTMAX \<and> t \<noteq> T_LONGLONG"

definition signed_arg :: "arg_type \<Rightarrow> u32 list \<Rightarrow> (int \<times> u32 list) option" where
  "signed_arg t args =
     (if int_arg_type t then do {
        (a, args1) \<leftarrow> va32 args;
        Some (case t of
            T_CHAR \<Rightarrow> sint (ucast a :: u8)
          | T_SHORT \<Rightarrow> sint (ucast a :: 16 word)
          | T_SIZET \<Rightarrow> (let value = uint a in if value > 4294967295 div 2 then value - 4294967295 - 1 else value)
          | _ \<Rightarrow> sint a, args1)
      } else do { (a, args1) \<leftarrow> va64 args; Some (sint a, args1) })"

definition unsigned_arg :: "arg_type \<Rightarrow> u32 list \<Rightarrow> (u64 \<times> u32 list) option" where
  "unsigned_arg t args =
     (if int_arg_type t then do {
        (a, args1) \<leftarrow> va32 args;
        Some (case t of
            T_CHAR \<Rightarrow> ucast (ucast a :: u8)
          | T_SHORT \<Rightarrow> ucast (ucast a :: 16 word)
          | T_PTRDIFFT \<Rightarrow> scast a AND (push_bit 1 2147483647 OR 1)
          | _ \<Rightarrow> ucast a, args1)
      } else va64 args)"

text \<open>The negation of the least \<open>intmax_t\<close> is undefined.\<close>

definition conv_signed :: "printf_conversion \<Rightarrow> u32 list \<Rightarrow> (u8 list \<times> u32 list) option" where
  "conv_signed c args = do {
     (value, args1) \<leftarrow> signed_arg (pc_type c) args;
     kassert (- 9223372036854775808 < value);
     s \<leftarrow> format_integer (nat \<bar>value\<bar>) True (value < 0) base_d c;
     Some (s, args1)
   }"

definition conv_unsigned :: "u8 \<Rightarrow> printf_conversion \<Rightarrow> u32 list \<Rightarrow> (u8 list \<times> u32 list) option" where
  "conv_unsigned ch c args = do {
     (value, args1) \<leftarrow> unsigned_arg (pc_type c) args;
     let b = (if ch = chr CHR ''o'' then base_o else if ch = chr CHR ''u'' then base_d
              else if ch = chr CHR ''x'' then base_x else base_X);
     s \<leftarrow> format_integer (unat value) False False b c;
     Some (s, args1)
   }"

definition conv_char :: "printf_conversion \<Rightarrow> u32 list \<Rightarrow> (u8 list \<times> u32 list) option" where
  "conv_char c args = do {
     (a, args1) \<leftarrow> va32 args;
     s \<leftarrow> format_string [ucast a] 1 c;
     Some (s, args1)
   }"

text \<open>The string \<open>(null)\<close> is a constant with its own address. A precision of -1 is the greatest
  \<open>size_t\<close>.\<close>

definition null_string :: mem where
  "null_string = put (\<lambda>a. None) 1 (lit ''(null)'' @ [0])"

definition conv_string :: "mem \<Rightarrow> printf_conversion \<Rightarrow> u32 list \<Rightarrow> (u8 list \<times> u32 list) option" where
  "conv_string m c args = do {
     (a, args1) \<leftarrow> va32 args;
     let (p, m1) = (if a = 0 then (1, null_string) else (unat a, m));
     n \<leftarrow> strnlen p (unat (word_of_int (pc_precision c) :: u32)) m1;
     s \<leftarrow> format_string (map (\<lambda>i. the (m1 (p + i))) [0..<n]) (to_s32 (int n)) c;
     Some (s, args1)
   }"

definition conv_pointer :: "printf_conversion \<Rightarrow> u32 list \<Rightarrow> (u8 list \<times> u32 list) option" where
  "conv_pointer c args = do {
     (a, args1) \<leftarrow> va32 args;
     s \<leftarrow> format_integer (unat a) False False base_x (c\<lparr>pc_flags := POUND\<rparr>);
     Some (s, args1)
   }"

text \<open>The value of a finite \<open>double\<close>, and the conversion to an \<open>int\<close>.\<close>

definition double_value :: "u64 \<Rightarrow> rat option" where
  "double_value w =
     (let e = unat (take_bit 11 (drop_bit 52 w));
          f = unat (take_bit 52 w);
          m = (if e = 0 then f else 2 ^ 52 + f);
          k = max e 1;
          r = (if k \<ge> 1075 then of_nat (m * 2 ^ (k - 1075)) else of_nat m / 2 ^ (1075 - k))
      in if e = 2047 then None else Some (if bit w 63 then - r else r))"

definition double_to_int :: "rat \<Rightarrow> int option" where
  "double_to_int r = cint32 (if r < 0 then - \<lfloor>- r\<rfloor> else \<lfloor>r\<rfloor>)"

definition powers :: "int list" where
  "powers = [0, 10, 100, 1000, 10000, 100000, 1000000, 10000000, 100000000, 1000000000]"

definition conv_double :: "(rat \<Rightarrow> rat) \<Rightarrow> printf_conversion \<Rightarrow> u32 list \<Rightarrow> (u8 list \<times> u32 list) option" where
  "conv_double rnd c args = do {
     let precision = (if pc_precision c < 0 then 6 else if pc_precision c > 9 then 9 else pc_precision c);
     (w, args1) \<leftarrow> va64 args;
     d \<leftarrow> double_value w;
     first \<leftarrow> double_to_int d;
     rest \<leftarrow> double_to_int (rnd (rnd (d - of_int first) * of_int (powers ! nat precision)));
     first1 \<leftarrow> (if first < 0 then cint32 (- first) else Some first);
     s1 \<leftarrow> format_integer (nat first1) True (d < 0) base_d (c\<lparr>pc_precision := - 1\<rparr>);
     rest1 \<leftarrow> (if rest < 0 then cint32 (- rest) else Some rest);
     s2 \<leftarrow> format_integer (nat rest1) False False base_d
            (c\<lparr>pc_precision := (if precision = 0 then 1 else precision)\<rparr>);
     Some (s1 @ [chr CHR ''.''] @ s2, args1)
   }"

section \<open>Formatted output\<close>

partial_function (option) vprintf :: "(rat \<Rightarrow> rat) \<Rightarrow> mem \<Rightarrow> u8 list \<Rightarrow> u32 list \<Rightarrow> u8 list option" where
  "vprintf rnd m fmt args =
     (case fmt of
        [] \<Rightarrow> None
      | c # cs \<Rightarrow>
          if c = 0 then Some []
          else if c \<noteq> chr CHR ''%'' then do { out \<leftarrow> vprintf rnd m cs args; Some (c # out) }
          else
            (case cs of
               [] \<Rightarrow> None
             | d # ds \<Rightarrow>
                 if d = chr CHR ''%'' then do { out \<leftarrow> vprintf rnd m ds args; Some (d # out) }
                 else do {
                   (fmt1, conv, args1) \<leftarrow> parse_conversion cs args;
                   (case fmt1 of
                      [] \<Rightarrow> None
                    | ch # rest \<Rightarrow> do {
                        (s, args2) \<leftarrow>
                          (if ch = chr CHR ''d'' \<or> ch = chr CHR ''i'' then conv_signed conv args1
                           else if ch = chr CHR ''o'' \<or> ch = chr CHR ''u'' \<or> ch = chr CHR ''x'' \<or> ch = chr CHR ''X''
                             then conv_unsigned ch conv args1
                           else if ch = chr CHR ''c'' then conv_char conv args1
                           else if ch = chr CHR ''s'' then conv_string m conv args1
                           else if ch = chr CHR ''p'' then conv_pointer conv args1
                           else if ch = chr CHR ''f'' then conv_double rnd conv args1
                           else do {
                             msg \<leftarrow>
                               (if ch = chr CHR ''e'' \<or> ch = chr CHR ''E'' \<or> ch = chr CHR ''g'' \<or> ch = chr CHR ''G'' \<or>
                                   ch = chr CHR ''n''
                                then vprintf rnd m (lit ''<<no %%%c in kernel>>'' @ [0]) [scast ch]
                                else vprintf rnd m (lit ''<<no %%%c conversion>>'' @ [0]) [scast ch]);
                             Some (msg, args1)
                           });
                        out \<leftarrow> vprintf rnd m rest args2;
                        Some (s @ out)
                      })
                 }))"

record vsnprintf_aux =
  vs_p :: nat
  vs_length :: int
  vs_max_length :: int

definition vsnprintf_helper :: "u8 \<Rightarrow> vsnprintf_aux \<times> mem \<Rightarrow> (vsnprintf_aux \<times> mem) option" where
  "vsnprintf_helper ch s = (case s of (aux, m) \<Rightarrow> do {
     n \<leftarrow> cint32 (vs_length aux + 1);
     let aux1 = aux\<lparr>vs_length := n\<rparr>;
     (if vs_length aux < vs_max_length aux then do {
        m1 \<leftarrow> store_byte (vs_p aux) ch m;
        Some (aux1\<lparr>vs_p := vs_p aux + 1\<rparr>, m1)
      } else Some (aux1, m))
   })"

fun call_output :: "u8 list \<Rightarrow> vsnprintf_aux \<times> mem \<Rightarrow> (vsnprintf_aux \<times> mem) option" where
  "call_output [] s = Some s"
| "call_output (c # cs) s = vsnprintf_helper c s \<bind> call_output cs"

definition vsnprintf :: "(rat \<Rightarrow> rat) \<Rightarrow> nat \<Rightarrow> nat \<Rightarrow> u8 list \<Rightarrow> u32 list \<Rightarrow> mem \<Rightarrow> (int \<times> mem) option" where
  "vsnprintf rnd buffer buf_size fmt args m = do {
     let aux = \<lparr>vs_p = buffer, vs_length = 0,
                vs_max_length = (if buf_size > 0 then to_s32 (int (buf_size - 1)) else 0)\<rparr>;
     out \<leftarrow> vprintf rnd m fmt args;
     (aux1, m1) \<leftarrow> call_output out (aux, m);
     m2 \<leftarrow> (if buf_size > 0 then store_byte (vs_p aux1) 0 m1 else Some m1);
     Some (vs_length aux1, m2)
   }"

definition snprintf :: "(rat \<Rightarrow> rat) \<Rightarrow> nat \<Rightarrow> nat \<Rightarrow> u8 list \<Rightarrow> u32 list \<Rightarrow> mem \<Rightarrow> (int \<times> mem) option" where
  "snprintf = vsnprintf"

text \<open>\<open>printf\<close> sends the characters to the console.\<close>

definition printf :: "(rat \<Rightarrow> rat) \<Rightarrow> mem \<Rightarrow> string \<Rightarrow> u32 list \<Rightarrow> u8 list option" where
  "printf rnd m fmt args = vprintf rnd m (lit fmt @ [0]) args"

section \<open>Reading a number\<close>

partial_function (option) skip_space :: "nat \<Rightarrow> mem \<Rightarrow> nat option" where
  "skip_space s m = do { c \<leftarrow> m s; (if isspace (uint c) then skip_space (s + 1) m else Some s) }"

partial_function (option) atoi_loop :: "nat \<Rightarrow> int \<Rightarrow> mem \<Rightarrow> int option" where
  "atoi_loop s value m = do {
     c \<leftarrow> m s;
     (if isdigit (sint c) then do {
        v1 \<leftarrow> cint32 (value * 10);
        v2 \<leftarrow> cint32 (v1 - (sint c - 48));
        atoi_loop (s + 1) v2 m
      } else Some value)
   }"

definition atoi :: "nat \<Rightarrow> mem \<Rightarrow> int option" where
  "atoi s m = do {
     kassert (s \<noteq> 0);
     s1 \<leftarrow> skip_space s m;
     c \<leftarrow> m s1;
     let negative = (c = chr CHR ''-'');
     let s2 = (if c = chr CHR ''+'' then s1 + 1 else if negative then s1 + 1 else s1);
     value \<leftarrow> atoi_loop s2 0 m;
     (if negative then Some value else cint32 (- value))
   }"

section \<open>Dumps and sizes\<close>

definition outputs :: "u8 list option list \<Rightarrow> u8 list option" where
  "outputs xs = map_option concat (those xs)"

text \<open>One line of a dump: the bytes are at the positions from \<open>start\<close> to \<open>stop\<close> of the line.\<close>

definition hex_line :: "(rat \<Rightarrow> rat) \<Rightarrow> nat \<Rightarrow> u8 list \<Rightarrow> nat \<Rightarrow> nat \<Rightarrow> bool \<Rightarrow> u8 list option" where
  "hex_line rnd ofs buf start stop ascii =
     (let pr = printf rnd (\<lambda>a. None) in
      outputs
       ([pr ''%08jx  '' [word_of_nat (ofs div 16 * 16), 0]] @
        map (\<lambda>i. pr ''   '' []) [0..<start] @
        map (\<lambda>i. pr ''%02hhx%c'' [ucast (buf ! (i - start)), if i = 16 div 2 - 1 then 45 else 32]) [start..<stop] @
        (if ascii then
           map (\<lambda>i. pr ''   '' []) [stop..<16] @ [pr ''|'' []] @ map (\<lambda>i. pr '' '' []) [0..<start] @
           map (\<lambda>i. pr ''%c'' [if isprint (uint (buf ! (i - start))) then ucast (buf ! (i - start)) else 46]) [start..<stop] @
           map (\<lambda>i. pr '' '' []) [stop..<16] @ [pr ''|'' []]
         else []) @
        [vprintf rnd (\<lambda>a. None) [10, 0] []]))"

function hex_dump :: "(rat \<Rightarrow> rat) \<Rightarrow> nat \<Rightarrow> u8 list \<Rightarrow> bool \<Rightarrow> u8 list option" where
  "hex_dump rnd ofs buf ascii =
     (if length buf > 0 then
        (let start = ofs mod 16;
             stop = (if 16 - start > length buf then start + length buf else 16);
             n = stop - start
         in do {
           line \<leftarrow> hex_line rnd ofs buf start stop ascii;
           rest \<leftarrow> hex_dump rnd (wrap32 (ofs + n)) (drop n buf) ascii;
           Some (line @ rest)
         })
      else Some [])"
  by pat_completeness auto
termination
  by (relation "measure (\<lambda>(rnd, ofs, buf, ascii). length buf)") (auto simp: Let_def)

declare hex_dump.simps [simp del]

fun human_size :: "nat \<Rightarrow> string list \<Rightarrow> nat \<times> string" where
  "human_size n (f # g # fs) = (if n \<ge> 1024 then human_size (n div 1024) (g # fs) else (n, f))"
| "human_size n [f] = (n, f)"
| "human_size n [] = (n, [])"

definition print_human_readable_size :: "(rat \<Rightarrow> rat) \<Rightarrow> u64 \<Rightarrow> u8 list option" where
  "print_human_readable_size rnd n =
     (if n = 1 then printf rnd (\<lambda>a. None) ''1 byte'' []
      else
        (let (k, f) = human_size (unat n) [''bytes'', ''kB'', ''MB'', ''GB'', ''TB'']
         in printf rnd (put (\<lambda>a. None) 1 (lit f @ [0])) ''%llu %s''
              [word_of_nat k, word_of_nat (k div 2 ^ 32), 1]))"

section \<open>Digits\<close>

function rdigits :: "nat \<Rightarrow> nat \<Rightarrow> nat list" where
  "rdigits b v = (if v = 0 \<or> b < 2 then [] else v mod b # rdigits b (v div b))"
  by pat_completeness auto
termination
  by (relation "measure snd") auto

declare rdigits.simps [simp del]

fun render :: "u32 \<Rightarrow> integer_base \<Rightarrow> nat \<Rightarrow> nat list \<Rightarrow> u8 list" where
  "render f b n [] = []"
| "render f b n (k # ks) =
     (if f AND GROUP \<noteq> 0 \<and> n > 0 \<and> n mod ib_group b = 0 then [chr CHR '','', ib_digits b ! k] else [ib_digits b ! k]) @
     render f b (n + 1) ks"

definition int_buf :: "u32 \<Rightarrow> int \<Rightarrow> integer_base \<Rightarrow> nat \<Rightarrow> u8 list" where
  "int_buf f p b v =
     (let b1 = render f b 0 (rdigits (ib_base b) v);
          b2 = b1 @ replicate (min (nat p - length b1) (63 - length b1)) (chr CHR ''0'')
      in if f AND POUND \<noteq> 0 \<and> ib_base b = 8 \<and> (b2 = [] \<or> last b2 \<noteq> chr CHR ''0'') then b2 @ [chr CHR ''0''] else b2)"

abbreviation int_bases :: "integer_base set" where
  "int_bases \<equiv> {base_d, base_o, base_x, base_X}"

lemmas base_defs = base_d_def base_o_def base_x_def base_X_def

lemma rdigits_length: "8 \<le> b \<Longrightarrow> v < 8 ^ d \<Longrightarrow> length (rdigits b v) \<le> d"
proof (induction d arbitrary: v)
  case (Suc d)
  have "v div b \<le> v div 8" using Suc.prems(1) by (simp add: div_le_mono2)
  also have "\<dots> < 8 ^ d" using Suc.prems(2) by (simp add: less_mult_imp_div_less mult.commute)
  finally show ?case using Suc.IH Suc.prems(1) by (subst rdigits.simps) simp
qed (simp add: rdigits.simps)

lemma rdigits_less: "k \<in> set (rdigits b v) \<Longrightarrow> k < b"
proof (induction b v rule: rdigits.induct)
  case (1 b v)
  then show ?case by (subst (asm) rdigits.simps) (auto split: if_splits)
qed

lemma render_length: "length (render f b n ks) \<le> 2 * length ks"
  by (induction ks arbitrary: n) (auto intro: le_SucI)

lemma digits_loop_ok:
  "8 \<le> ib_base b \<Longrightarrow> v < 8 ^ d \<Longrightarrow> length buf + 2 * d \<le> 64 \<Longrightarrow>
   digits_loop f b v n buf = Some (buf @ render f b n (rdigits (ib_base b) v))"
proof (induction d arbitrary: v n buf)
  case 0
  then show ?case by (subst digits_loop.simps) (simp add: rdigits.simps)
next
  case (Suc d)
  have "v div ib_base b \<le> v div 8" using Suc.prems(1) by (simp add: div_le_mono2)
  also have "\<dots> < 8 ^ d" using Suc.prems(2) by (simp add: less_mult_imp_div_less mult.commute)
  finally have d: "v div ib_base b < 8 ^ d" .
  show ?case
  proof (cases "v = 0")
    case True
    then show ?thesis by (subst digits_loop.simps) (simp add: rdigits.simps)
  next
    case False
    then have r: "rdigits (ib_base b) v = v mod ib_base b # rdigits (ib_base b) (v div ib_base b)"
      using Suc.prems(1) by (subst rdigits.simps) simp
    show ?thesis using False Suc.IH [OF Suc.prems(1) d] Suc.prems(3) unfolding r
      by (subst digits_loop.simps) (simp add: buf_put_def)
  qed
qed

lemma zeros_loop_ok:
  "length buf \<le> 63 \<Longrightarrow>
   zeros_loop p buf = Some (buf @ replicate (min (nat p - length buf) (63 - length buf)) (chr CHR ''0''))"
proof (induction "63 - length buf" arbitrary: buf)
  case 0
  then show ?case by (subst zeros_loop.simps) simp
next
  case (Suc k)
  show ?case
  proof (cases "int (length buf) < p")
    case True
    have "replicate (min (nat p - length buf) (63 - length buf)) (48 :: u8) =
        48 # replicate (min (nat p - Suc (length buf)) (63 - Suc (length buf))) 48"
      using True Suc.hyps(2) by (simp add: min_def Suc_diff_le flip: replicate_Suc) linarith
    moreover have "k = 63 - length (buf @ [48 :: u8])" "length (buf @ [48 :: u8]) \<le> 63" using Suc.hyps(2) by simp_all
    ultimately show ?thesis using True Suc.hyps(1) [of "buf @ [48]"] Suc.hyps(2)
      by (subst zeros_loop.simps) (simp add: buf_put_def)
  next
    case False
    then show ?thesis by (subst zeros_loop.simps) simp
  qed
qed

lemma base_ge_8: "b \<in> int_bases \<Longrightarrow> 8 \<le> ib_base b"
  by (auto simp: base_defs)

lemma octal_zero_ok:
  "length buf \<le> 63 \<Longrightarrow> octal_zero f b buf = Some (if f AND POUND \<noteq> 0 \<and> ib_base b = 8 \<and>
     (buf = [] \<or> last buf \<noteq> chr CHR ''0'') then buf @ [chr CHR ''0''] else buf)"
  by (simp add: octal_zero_def buf_put_def)

lemma length_if_snoc: "length buf \<le> 63 \<Longrightarrow> length (if P then buf @ [c] else buf) \<le> 64"
  by simp

lemma int_buf_ok:
  assumes "v < 2 ^ 64" "b \<in> int_bases"
  shows "(digits_loop f b v 0 [] \<bind> zeros_loop p \<bind> octal_zero f b) = Some (int_buf f p b v)" "length (int_buf f p b v) \<le> 64"
proof -
  let ?r = "render f b 0 (rdigits (ib_base b) v)"
  have v: "v < 8 ^ 22" using assms(1) by simp
  have "digits_loop f b v 0 [] = Some ([] @ ?r)"
    by (rule digits_loop_ok [OF base_ge_8 [OF assms(2)] v]) simp
  moreover have l: "length ?r \<le> 44"
    using render_length [of f b 0 "rdigits (ib_base b) v"] rdigits_length [OF base_ge_8 [OF assms(2)] v] by linarith
  then have l63: "length ?r \<le> 63" by simp
  let ?b2 = "?r @ replicate (min (nat p - length ?r) (63 - length ?r)) (chr CHR ''0'')"
  have l2: "length ?b2 \<le> 63" using l63 by simp
  have "octal_zero f b ?b2 = Some (int_buf f p b v)"
    unfolding octal_zero_ok [OF l2] int_buf_def Let_def by (rule refl)
  ultimately show "(digits_loop f b v 0 [] \<bind> zeros_loop p \<bind> octal_zero f b) = Some (int_buf f p b v)"
    using zeros_loop_ok [OF l63, of p] by simp
  show "length (int_buf f p b v) \<le> 64" unfolding int_buf_def Let_def by (rule length_if_snoc [OF l2])
qed

lemma int_buf_min: "min (nat p) 63 \<le> length (int_buf f p b v)"
proof -
  have "min (nat p) 63 \<le> length (r @ replicate (min (nat p - length r) (63 - length r)) (x :: u8))" for r x
    by (simp add: min_def) linarith
  moreover have "length r \<le> length (if P then r @ [x] else r)" for P and r :: "u8 list" and x by simp
  ultimately show ?thesis unfolding int_buf_def Let_def by (meson order_trans)
qed

text \<open>The value that a digit string denotes.\<close>

definition digit_val :: "u8 \<Rightarrow> nat" where
  "digit_val c = (if unat c \<le> 57 then unat c - 48 else if unat c \<le> 70 then unat c - 55 else unat c - 87)"

definition number :: "nat \<Rightarrow> u8 list \<Rightarrow> nat" where
  "number b ds = foldl (\<lambda>n c. n * b + digit_val c) 0 ds"

lemma number_snoc [simp]: "number b (ds @ [c]) = number b ds * b + digit_val c"
  by (simp add: number_def)

lemma number_Nil [simp]: "number b [] = 0"
  by (simp add: number_def)

lemma digit_tables:
  "map digit_val (ib_digits base_d) = [0..<10]" "map digit_val (ib_digits base_o) = [0..<8]"
  "map digit_val (ib_digits base_x) = [0..<16]" "map digit_val (ib_digits base_X) = [0..<16]"
  "44 \<notin> set (ib_digits base_d @ ib_digits base_o @ ib_digits base_x @ ib_digits base_X)"
  by code_simp+

lemma base_digits:
  assumes "b \<in> int_bases" "k < ib_base b"
  shows "digit_val (ib_digits b ! k) = k" "ib_digits b ! k \<noteq> chr CHR '',''"
proof -
  have l: "length (ib_digits b) = ib_base b" using assms(1) by (auto simp: base_defs)
  have m: "map digit_val (ib_digits b) = [0..<ib_base b]"
    using assms(1) digit_tables by (auto simp: base_defs)
  have "map digit_val (ib_digits b) ! k = k" unfolding m using assms(2) by simp
  then show "digit_val (ib_digits b ! k) = k" using assms(2) l by simp
  have "ib_digits b ! k \<in> set (ib_digits b)" using assms(2) l by simp
  moreover have "44 \<notin> set (ib_digits b)" using assms(1) digit_tables(5) by auto
  ultimately show "ib_digits b ! k \<noteq> chr CHR '',''" by auto
qed

lemma decimal_digits: "k < 10 \<Longrightarrow> ib_digits base_d ! k \<in> {48..57}"
proof -
  have "\<forall>c\<in>set (ib_digits base_d). 48 \<le> c \<and> c \<le> 57" by code_simp
  moreover have "length (ib_digits base_d) = 10" by (simp add: base_defs)
  ultimately show "k < 10 \<Longrightarrow> ib_digits base_d ! k \<in> {48..57}" using nth_mem by fastforce
qed

lemma number_render:
  assumes "b \<in> int_bases"
  shows "number (ib_base b) (filter (\<lambda>c. c \<noteq> chr CHR '','') (rev (render f b n (rdigits (ib_base b) v)))) = v"
proof (induction "ib_base b" v arbitrary: n rule: rdigits.induct)
  case (1 v)
  have b: "2 \<le> ib_base b" using base_ge_8 [OF assms] by simp
  show ?case
  proof (cases "v = 0")
    case False
    then have "rdigits (ib_base b) v = v mod ib_base b # rdigits (ib_base b) (v div ib_base b)" "v mod ib_base b < ib_base b"
      using b by (subst rdigits.simps, simp_all)
    then show ?thesis using 1 False b base_digits [OF assms, of "v mod ib_base b"] by simp
  qed (simp add: rdigits.simps)
qed

lemma number_zeros: "number b (replicate k 48 @ ds) = number b ds"
proof (induction ds rule: rev_induct)
  case Nil
  show ?case by (induction k) (simp_all add: digit_val_def flip: replicate_append_same)
next
  case (snoc c ds)
  then show ?case by (simp flip: append_assoc)
qed

lemma number_int_buf:
  assumes "b \<in> int_bases"
  shows "number (ib_base b) (filter (\<lambda>c. c \<noteq> chr CHR '','') (rev (int_buf f p b v))) = v"
proof -
  have e: "\<exists>k. int_buf f p b v = render f b 0 (rdigits (ib_base b) v) @ replicate k 48"
    by (auto simp: int_buf_def Let_def replicate_append_same simp flip: replicate_Suc)
  then obtain k where k: "int_buf f p b v = render f b 0 (rdigits (ib_base b) v) @ replicate k 48" by blast
  show ?thesis using number_render [OF assms, of f 0 v] by (simp add: k number_zeros filter_replicate)
qed

lemma pad_count:
  "nat (w - int (length B) - (if X then 2 else 0) - (if S then 1 else 0)) =
   nat w - length ((if S then [s] else []) @ (if X then [y, z] else []) @ rev B)"
  by auto

lemma format_integer_eq:
  fixes c :: printf_conversion and sg neg :: bool
  assumes "v < 2 ^ 64" "b \<in> int_bases"
  defines "buf \<equiv> rev (int_buf (pc_flags c) (if pc_precision c < 0 then 1 else pc_precision c) b v)"
    and "sign \<equiv> (let s = sign_char (pc_flags c) sg neg in if s \<noteq> 0 then [s] else [])"
    and "prefix \<equiv> (if pc_flags c AND POUND \<noteq> 0 \<and> v \<noteq> 0 \<and> ib_x b \<noteq> 0 then [48, ib_x b] else [])"
  defines "pad \<equiv> nat (pc_width c) - length (sign @ prefix @ buf)"
  shows "format_integer v sg neg b c = Some
    ((if pc_flags c AND (MINUS OR ZERO) = 0 then replicate pad 32 else []) @ sign @ prefix @
     (if pc_flags c AND ZERO \<noteq> 0 then replicate pad 48 else []) @ buf @
     (if pc_flags c AND MINUS \<noteq> 0 then replicate pad 32 else []))"
proof -
  let ?p = "if pc_precision c < 0 then 1 else pc_precision c" and ?f = "pc_flags c"
  obtain b1 b2 where b: "digits_loop ?f b v 0 [] = Some b1" "zeros_loop ?p b1 = Some b2"
    "octal_zero ?f b b2 = Some (int_buf ?f ?p b v)"
    using int_buf_ok(1) [OF assms(1,2), of ?f ?p] by (auto simp: bind_eq_Some_conv)
  have x: "(if ?f AND POUND \<noteq> 0 \<and> v \<noteq> 0 then ib_x b else 0) \<noteq> 0 \<longleftrightarrow> ?f AND POUND \<noteq> 0 \<and> v \<noteq> 0 \<and> ib_x b \<noteq> 0" by simp
  show ?thesis
    unfolding format_integer_def Let_def b(1) b(2) b(3) Option.bind_lunit output_dup_def buf_def sign_def prefix_def pad_def x
    unfolding pad_count [where s = "sign_char ?f sg neg" and y = 48 and z = "ib_x b"]
    by simp
qed

section \<open>Output into a buffer\<close>

lemma call_output_ok:
  "0 \<le> len \<Longrightarrow> in_s32 (len + int (length out)) \<Longrightarrow> mapped m p (min (length out) (nat (mx - len))) \<Longrightarrow>
   call_output out (\<lparr>vs_p = p, vs_length = len, vs_max_length = mx\<rparr>, m) =
     Some (\<lparr>vs_p = p + min (length out) (nat (mx - len)), vs_length = len + int (length out), vs_max_length = mx\<rparr>,
           put m p (take (nat (mx - len)) out))"
proof (induction out arbitrary: len m p)
  case (Cons c cs)
  have l: "in_s32 (len + 1)" "0 \<le> len + 1" "in_s32 (len + 1 + int (length cs))"
    using Cons.prems(1,2) by (simp_all add: in_s32_def)
  show ?case
  proof (cases "len < mx")
    case True
    then have n: "nat (mx - len) = Suc (nat (mx - (len + 1)))" by linarith
    have mp: "m p \<noteq> None" "mapped (m(p \<mapsto> c)) (Suc p) (min (length cs) (nat (mx - (len + 1))))"
      using Cons.prems(3) unfolding n by (simp_all add: mapped_upd)
    have "call_output cs (\<lparr>vs_p = Suc p, vs_length = len + 1, vs_max_length = mx\<rparr>, m(p \<mapsto> c)) =
        Some (\<lparr>vs_p = Suc p + min (length cs) (nat (mx - (len + 1))), vs_length = len + 1 + int (length cs), vs_max_length = mx\<rparr>,
          put (m(p \<mapsto> c)) (Suc p) (take (nat (mx - (len + 1))) cs))"
      by (rule Cons.IH [OF l(2,3) mp(2)])
    then show ?thesis using True l(1) mp(1) unfolding n
      by (simp add: vsnprintf_helper_def store_byte_def put_Cons add.assoc)
  next
    case False
    then have n: "nat (mx - len) = 0" "nat (mx - (len + 1)) = 0" by simp_all
    show ?thesis using False l(1) Cons.IH [OF l(2,3), of m p] unfolding n
      by (simp add: vsnprintf_helper_def add.assoc)
  qed
qed simp

lemma put_then: "(put m a bs)(a + length bs \<mapsto> b) = put m a (bs @ [b])"
  by (rule ext) (auto simp: put_def nth_append)

lemma vsnprintf_ok:
  assumes "vprintf rnd m fmt args = Some out" "length out < 2147483648" "sz \<le> 2147483648" "mapped m buffer sz"
  shows "vsnprintf rnd buffer sz fmt args m =
    Some (int (length out), if sz > 0 then put m buffer (take (sz - 1) out @ [0]) else m)"
proof -
  let ?mx = "if sz > 0 then to_s32 (int (sz - 1)) else 0"
  have mx: "nat ?mx = sz - 1" using assms(3) by (auto simp: to_s32_in in_s32_def)
  have mp: "mapped m buffer (min (length out) (nat (?mx - 0)))"
    unfolding mapped_def
  proof (intro allI impI)
    fix i assume "i < min (length out) (nat (?mx - 0))"
    then have "i < sz - 1" unfolding mx diff_zero by simp
    then have "i < sz" by linarith
    then show "m (buffer + i) \<noteq> None" using assms(4) by (simp add: mapped_def)
  qed
  have "in_s32 (0 + int (length out))" using assms(2) by (simp add: in_s32_def)
  note c = call_output_ok [OF order_refl this mp, unfolded mx diff_zero]
  show ?thesis
  proof (cases "sz > 0")
    case True
    then have "put m buffer (take (sz - 1) out) (buffer + min (length out) (sz - 1)) \<noteq> None"
      using mapped_put [OF assms(4)] unfolding mapped_def by simp
    then show ?thesis using c assms(1) True mx put_then [of m buffer "take (sz - 1) out" 0]
      by (simp add: vsnprintf_def store_byte_def min.commute)
  next
    case False
    then show ?thesis using c assms(1) by (simp add: vsnprintf_def)
  qed
qed

section \<open>Formats\<close>

abbreviation plain_conv :: printf_conversion where
  "plain_conv \<equiv> \<lparr>pc_flags = 0, pc_width = 0, pc_precision = - 1, pc_type = T_INT\<rparr>"

definition plain_char :: "u8 \<Rightarrow> bool" where
  "plain_char ch \<longleftrightarrow> flag_of ch = None \<and> \<not> isdigit (sint ch) \<and> ch \<notin> set (lit ''*.hjltz%'')"

lemma parse_plain: "plain_char ch \<Longrightarrow> parse_conversion (ch # rest) args = Some (ch # rest, plain_conv, args)"
  by (simp add: plain_char_def parse_conversion_def settle_flags_def parse_star_def parse_precision_def parse_type_def)

lemma bind_Some_map: "x \<bind> (\<lambda>a. Some (f a)) = map_option f x"
  by (cases x) simp_all

lemma vprintf_nul [simp]: "vprintf rnd m (0 # cs) args = Some []"
  by (subst vprintf.simps) simp

lemma vprintf_char [simp]: "c \<noteq> 0 \<Longrightarrow> c \<noteq> 37 \<Longrightarrow> vprintf rnd m (c # cs) args = map_option (Cons c) (vprintf rnd m cs args)"
  by (subst vprintf.simps) (simp add: bind_Some_map)

lemma vprintf_percent [simp]: "vprintf rnd m (37 # 37 # cs) args = map_option (Cons 37) (vprintf rnd m cs args)"
  by (subst vprintf.simps) (simp add: bind_Some_map)

lemma plain_chars: "list_all plain_char (lit ''dioucspfxX'')"
  by (simp add: plain_char_def flag_of_def isdigit_def)

lemma plain_format_string: "format_string str (int (length str)) plain_conv = Some str"
  by (simp add: format_string_def output_dup_def)

lemma vprintf_c:
  "vprintf rnd m (37 # 99 # cs) (a # args) = map_option (append [ucast a]) (vprintf rnd m cs args)"
  using plain_chars parse_plain [of 99 cs "a # args"] plain_format_string [of "[ucast a]"]
  by (subst vprintf.simps) (simp add: conv_char_def va32_def bind_Some_map)

lemma vprintf_d:
  "vprintf rnd m (37 # 100 # cs) args =
     (case conv_signed plain_conv args of None \<Rightarrow> None | Some (s, args1) \<Rightarrow> map_option (append s) (vprintf rnd m cs args1))"
  using plain_chars parse_plain [of 100 cs args]
  by (subst vprintf.simps) (auto simp: bind_Some_map split: option.splits)

section \<open>Decimal numbers\<close>

lemma digit_char_table:
  "\<forall>n\<in>set [48..<58]. let c = word_of_nat n :: u8 in sint c = 48 + int (digit_val c) \<and> digit_val c < 10 \<and>
     isdigit (sint c) \<and> \<not> isspace (uint c) \<and> c \<noteq> 43 \<and> c \<noteq> 45 \<and> c \<noteq> 0 \<and> c \<noteq> 44"
  by code_simp

lemma digit_char:
  assumes "c \<in> {48..57 :: u8}"
  shows "sint c = 48 + int (digit_val c)" "digit_val c < 10" "isdigit (sint c)" "\<not> isspace (uint c)" "c \<noteq> 43" "c \<noteq> 45" "c \<noteq> 0"
    "c \<noteq> 44"
proof -
  have "unat c \<in> set [48..<58]" unfolding set_upt using assms by (simp add: word_le_nat_alt)
  moreover have "word_of_nat (unat c) = c" by simp
  ultimately have "sint c = 48 + int (digit_val c) \<and> digit_val c < 10 \<and> isdigit (sint c) \<and> \<not> isspace (uint c) \<and>
      c \<noteq> 43 \<and> c \<noteq> 45 \<and> c \<noteq> 0 \<and> c \<noteq> 44"
    using digit_char_table unfolding Let_def by metis
  then show "sint c = 48 + int (digit_val c)" "digit_val c < 10" "isdigit (sint c)" "\<not> isspace (uint c)" "c \<noteq> 43" "c \<noteq> 45" "c \<noteq> 0"
    "c \<noteq> 44"
    by blast+
qed

lemma foldl_number_ge: "v \<le> foldl (\<lambda>n c. n * 10 + digit_val c) v ds"
proof (induction ds arbitrary: v)
  case (Cons c cs)
  have "v \<le> v * 10 + digit_val c" by simp
  also have "\<dots> \<le> foldl (\<lambda>n c. n * 10 + digit_val c) (v * 10 + digit_val c) cs" by (rule Cons.IH)
  finally show ?case by simp
qed simp

lemma atoi_loop_ok:
  "set ds \<subseteq> {48..57} \<Longrightarrow> holds m s (ds @ [0]) \<Longrightarrow> foldl (\<lambda>n c. n * 10 + digit_val c) v ds \<le> 2147483648 \<Longrightarrow>
   atoi_loop s (- int v) m = Some (- int (foldl (\<lambda>n c. n * 10 + digit_val c) v ds))"
proof (induction ds arbitrary: s v)
  case Nil
  then show ?case by (subst atoi_loop.simps) (simp add: isdigit_def)
next
  case (Cons c cs)
  have c: "c \<in> {48..57}" using Cons.prems(1) by simp
  have b: "v * 10 + digit_val c \<le> 2147483648"
    using foldl_number_ge [of "v * 10 + digit_val c" cs] Cons.prems(3) by simp
  then have i: "in_s32 (- int v * 10)" "in_s32 (- int v * 10 - (sint c - 48))"
    using digit_char(1) [OF c] by (simp_all add: in_s32_def)
  have e: "- int v * 10 - (sint c - 48) = - int (v * 10 + digit_val c)" using digit_char(1) [OF c] by simp
  have "atoi_loop (s + 1) (- int (v * 10 + digit_val c)) m = Some (- int (foldl (\<lambda>n c. n * 10 + digit_val c) (v * 10 + digit_val c) cs))"
    by (rule Cons.IH) (use Cons.prems in auto)
  then show ?case using Cons.prems(2) digit_char(3) [OF c] i unfolding e [symmetric]
    by (subst atoi_loop.simps) simp
qed

lemma atoi_ok:
  assumes ds: "set ds \<subseteq> {48..57}" "ds \<noteq> []" and s: "s \<noteq> 0" "holds m s ((if neg then [45] else []) @ ds @ [0])"
    and n: "number 10 ds \<le> 2147483648" "neg \<or> number 10 ds < 2147483648"
  shows "atoi s m = Some (if neg then - int (number 10 ds) else int (number 10 ds))"
proof -
  obtain c cs where d: "ds = c # cs" using ds(2) by (cases ds) auto
  have c: "c \<in> {48..57}" using ds(1) d by simp
  have sk: "skip_space s m = Some s"
  proof -
    have "m s = Some (if neg then 45 else c)" using s(2) d by (cases neg) simp_all
    then show ?thesis using digit_char(4) [OF c] by (subst skip_space.simps) (simp add: isspace_def)
  qed
  have l: "atoi_loop p 0 m = Some (- int (number 10 ds))" if "holds m p (ds @ [0])" for p
    using atoi_loop_ok [OF ds(1) that, of 0] n(1) by (simp add: number_def)
  show ?thesis
  proof (cases neg)
    case True
    then show ?thesis using s sk l [of "s + 1"] by (simp add: atoi_def)
  next
    case False
    then have "in_s32 (int (number 10 ds))" "holds m s (ds @ [0])" "m s = Some c"
      using n(2) s(2) d by (simp_all add: in_s32_def)
    then show ?thesis using False s(1) sk l [of s] digit_char(5,6) [OF c] by (simp add: atoi_def)
  qed
qed

lemma decimal_length: "v < 10 ^ d \<Longrightarrow> length (rdigits 10 v) \<le> d"
proof (induction d arbitrary: v)
  case (Suc d)
  have "v div 10 < 10 ^ d" using Suc.prems by (simp add: less_mult_imp_div_less mult.commute)
  then show ?case using Suc.IH by (subst rdigits.simps) simp
qed (simp add: rdigits.simps)

lemma render_decimal: "set ks \<subseteq> {..<10} \<Longrightarrow> set (render 0 base_d n ks) \<subseteq> {48..57}"
  using decimal_digits by (induction ks arbitrary: n) auto

lemma render_plain_length: "length (render 0 b n ks) = length ks"
  by (induction ks arbitrary: n) simp_all

lemma decimal_ok:
  assumes v: "v < 10 ^ d" "0 < d" "d \<le> 20" "v < 2 ^ 64" and f: "pc_flags c = 0" "pc_width c = 0" "pc_precision c = - 1"
  shows "\<exists>ds. format_integer v sg neg base_d c = Some ((if sg \<and> neg then [45] else []) @ ds) \<and>
    set ds \<subseteq> {48..57} \<and> ds \<noteq> [] \<and> length ds \<le> d \<and> number 10 ds = v"
proof -
  let ?b = "int_buf 0 1 base_d v" and ?r = "render 0 base_d 0 (rdigits 10 v)"
  have b: "base_d \<in> int_bases" "ib_base base_d = 10" "ib_x base_d = 0" by (simp_all add: base_d_def)
  have r: "set ?r \<subseteq> {48..57}" by (rule render_decimal) (use rdigits_less in auto)
  have l: "length ?r \<le> d" using decimal_length [OF v(1)] by (simp add: render_plain_length)
  have e: "?b = (if ?r = [] then [48] else ?r)"
    using l v(3) by (cases ?r) (simp_all add: int_buf_def b)
  have p: "set ?b \<subseteq> {48..57}" "?b \<noteq> []" "length ?b \<le> d" using r l v(2) by (simp_all add: e)
  have "filter (\<lambda>c. c \<noteq> 44) (rev ?b) = rev ?b" using p(1) digit_char(8) by (auto simp: filter_id_conv)
  then have "number 10 (rev ?b) = v" using number_int_buf [OF b(1), of 0 1 v] b(2) by simp
  moreover have "format_integer v sg neg base_d c = Some ((if sg \<and> neg then [45] else []) @ rev ?b)"
    using v(4) b f by (subst format_integer_eq) (simp_all add: sign_char_def)
  ultimately show ?thesis using p by (intro exI [of _ "rev ?b"]) simp
qed

lemma print_d:
  "\<exists>ds. vprintf rnd m (lit ''%d'' @ [0]) [a] = Some ((if sint a < 0 then [45] else []) @ ds) \<and>
    set ds \<subseteq> {48..57} \<and> ds \<noteq> [] \<and> length ds \<le> 10 \<and> number 10 ds = nat \<bar>sint a\<bar>"
proof -
  have a: "- 2147483648 \<le> sint a" "sint a < 2147483648"
    using sint_greater_eq [of a] sint_less [of a] by simp_all
  then have n: "nat \<bar>sint a\<bar> < 10000000000" by linarith
  obtain ds where ds: "format_integer (nat \<bar>sint a\<bar>) True (sint a < 0) base_d plain_conv = Some ((if sint a < 0 then [45] else []) @ ds)"
    "set ds \<subseteq> {48..57}" "ds \<noteq> []" "length ds \<le> 10" "number 10 ds = nat \<bar>sint a\<bar>"
    using decimal_ok [of "nat \<bar>sint a\<bar>" 10 plain_conv True "sint a < 0"] n by auto
  have "conv_signed plain_conv [a] = Some ((if sint a < 0 then [45] else []) @ ds, [])"
    using ds(1) a by (simp add: conv_signed_def signed_arg_def int_arg_type_def va32_def)
  then show ?thesis using ds by (intro exI [of _ ds]) (simp add: vprintf_d)
qed

section \<open>Sizes\<close>

lemma human_size_ok:
  "fs \<noteq> [] \<Longrightarrow> \<exists>j<length fs. human_size n fs = (n div 1024 ^ j, fs ! j) \<and>
     (j + 1 < length fs \<longrightarrow> n div 1024 ^ j < 1024) \<and> (0 < j \<longrightarrow> 1024 ^ j \<le> n)"
proof (induction n fs rule: human_size.induct)
  case (1 n f g fs)
  show ?case
  proof (cases "n \<ge> 1024")
    case True
    then obtain j where j: "j < length (g # fs)" "human_size (n div 1024) (g # fs) = (n div 1024 div 1024 ^ j, (g # fs) ! j)"
      "j + 1 < length (g # fs) \<longrightarrow> n div 1024 div 1024 ^ j < 1024" "0 < j \<longrightarrow> 1024 ^ j \<le> n div 1024"
      using 1 by blast
    have "1024 ^ Suc j \<le> n"
    proof (cases "j = 0")
      case False
      then have "1024 ^ j * 1024 \<le> n div 1024 * 1024" using j(4) by simp
      also have "\<dots> \<le> n" by simp
      finally show ?thesis by simp
    qed (use True in simp)
    then show ?thesis using True j by (intro exI [of _ "Suc j"]) (simp add: div_mult2_eq)
  next
    case False
    then show ?thesis by (intro exI [of _ 0]) simp
  qed
qed simp_all

lemma parse_llu: "parse_conversion (108 # 108 # 117 # rest) args = Some (117 # rest, plain_conv\<lparr>pc_type := T_LONGLONG\<rparr>, args)"
  by (simp add: parse_conversion_def flag_of_def settle_flags_def parse_star_def isdigit_def parse_precision_def parse_type_def)

lemma conv_string_ok:
  assumes "0 \<notin> set s" "length s \<le> 5"
  shows "conv_string (put (\<lambda>a. None) 1 (s @ [0])) plain_conv [1] = Some (s, [])"
proof -
  let ?m = "put (\<lambda>a. None) 1 (s @ [0])"
  have h: "holds ?m 1 (s @ [0])" by (rule holds_put)
  then have "strnlen_loop 1 4294967295 0 ?m = Some (0 + length s)"
    using assms by (intro strnlen_loop_ok [where y = 0]) (auto simp: holds_append)
  moreover have "map (\<lambda>i. the (?m (1 + i))) [0..<length s] = s"
    by (rule nth_equalityI) (simp_all add: put_def nth_append)
  moreover have "to_s32 (int (length s)) = int (length s)" using assms(2) by (simp add: to_s32_in in_s32_def)
  moreover have "unat (- 1 :: u32) = 4294967295" by (simp add: unsigned_minus_1_eq_mask mask_eq_exp_minus_1)
  ultimately show ?thesis using plain_format_string [of s]
    by (simp add: conv_string_def va32_def strnlen_def)
qed

lemma two_slots:
  assumes "k < 2 ^ 64"
  shows "unat (ucast (word_of_nat k :: u32) OR push_bit 32 (ucast (word_of_nat (k div 2 ^ 32) :: u32)) :: u64) = k"
proof -
  have "(ucast (word_of_nat k :: u32) OR push_bit 32 (ucast (word_of_nat (drop_bit 32 k) :: u32)) :: u64) = word_of_nat k"
    by (rule bit_word_eqI) (auto simp: bit_simps)
  then show ?thesis using assms unfolding drop_bit_eq_div by (simp add: unat_of_nat)
qed

section \<open>Properties\<close>

text \<open>
  C29. Every integer conversion ends within the 64 bytes of its buffer. The characters it prints are
  padding to the field width, on the side that the flags ask for, the sign, the prefix of the
  base, and digits that denote the value in the base, grouped or not, as many as the precision
  asks for up to 63.
\<close>

theorem format_integer_renders:
  assumes "v < 2 ^ 64" "b \<in> int_bases" and f: "pc_flags c AND MINUS = 0 \<or> pc_flags c AND ZERO = 0"
  shows "\<exists>l z r sign prefix ds.
    format_integer v sg neg b c =
      Some (replicate l (chr CHR '' '') @ sign @ prefix @ replicate z (chr CHR ''0'') @ ds @ replicate r (chr CHR '' '')) \<and>
    sign = (if sg \<and> neg then lit ''-'' else if sg \<and> pc_flags c AND PLUS \<noteq> 0 then lit ''+''
            else if sg \<and> pc_flags c AND SPACE \<noteq> 0 then lit '' '' else []) \<and>
    prefix = (if pc_flags c AND POUND \<noteq> 0 \<and> v \<noteq> 0 \<and> ib_x b \<noteq> 0 then [chr CHR ''0'', ib_x b] else []) \<and>
    l + z + r + length (sign @ prefix @ ds) = max (nat (pc_width c)) (length (sign @ prefix @ ds)) \<and>
    (pc_flags c AND MINUS \<noteq> 0 \<longrightarrow> l = 0 \<and> z = 0) \<and> (pc_flags c AND ZERO \<noteq> 0 \<longrightarrow> l = 0 \<and> r = 0) \<and>
    (pc_flags c AND (MINUS OR ZERO) = 0 \<longrightarrow> z = 0 \<and> r = 0) \<and>
    number (ib_base b) (filter (\<lambda>d. d \<noteq> chr CHR '','') ds) = v \<and>
    length ds \<le> 64 \<and> min (if pc_precision c < 0 then 1 else nat (pc_precision c)) 63 \<le> length ds"
proof -
  let ?f = "pc_flags c" and ?p = "if pc_precision c < 0 then 1 else pc_precision c"
  define S where "S = (let s = sign_char ?f sg neg in if s \<noteq> 0 then [s] else [])"
  define X where "X = (if ?f AND POUND \<noteq> 0 \<and> v \<noteq> 0 \<and> ib_x b \<noteq> 0 then [48, ib_x b] else [])"
  define D where "D = rev (int_buf ?f ?p b v)"
  define P where "P = nat (pc_width c) - length (S @ X @ D)"
  have s: "S = (if sg \<and> neg then lit ''-'' else if sg \<and> ?f AND PLUS \<noteq> 0 then lit ''+''
      else if sg \<and> ?f AND SPACE \<noteq> 0 then lit '' '' else [])"
    unfolding S_def sign_char_def by (cases sg; cases neg) simp_all
  have x: "X = (if ?f AND POUND \<noteq> 0 \<and> v \<noteq> 0 \<and> ib_x b \<noteq> 0 then [chr CHR ''0'', ib_x b] else [])"
    unfolding X_def by simp
  have mz: "?f AND (MINUS OR ZERO) = (?f AND MINUS) OR (?f AND ZERO)" by (rule bit.conj_disj_distrib)
  note e = format_integer_eq [OF assms(1,2), of sg neg c, folded S_def X_def D_def, folded P_def]
  have n: "number (ib_base b) (filter (\<lambda>d. d \<noteq> chr CHR '','') D) = v" "length D \<le> 64"
    "min (if pc_precision c < 0 then 1 else nat (pc_precision c)) 63 \<le> length D"
    using number_int_buf [OF assms(2), of ?f ?p v] int_buf_ok(2) [OF assms(1,2), of ?f ?p] int_buf_min [of ?p ?f b v]
    unfolding D_def by (simp_all split: if_splits)
  have w: "P + length (S @ X @ D) = max (nat (pc_width c)) (length (S @ X @ D))" unfolding P_def by (simp add: max_def)
  let ?goal = "\<lambda>l z r. format_integer v sg neg b c =
      Some (replicate l (chr CHR '' '') @ S @ X @ replicate z (chr CHR ''0'') @ D @ replicate r (chr CHR '' '')) \<and>
    l + z + r = P \<and> (?f AND MINUS \<noteq> 0 \<longrightarrow> l = 0 \<and> z = 0) \<and> (?f AND ZERO \<noteq> 0 \<longrightarrow> l = 0 \<and> r = 0) \<and>
    (?f AND (MINUS OR ZERO) = 0 \<longrightarrow> z = 0 \<and> r = 0)"
  have "?goal P 0 0 \<or> ?goal 0 0 P \<or> ?goal 0 P 0"
    using f unfolding e mz by (cases "?f AND MINUS = 0"; cases "?f AND ZERO = 0") simp_all
  then obtain l z r where "?goal l z r" by blast
  then show ?thesis using s x n w by blast
qed

theorem format_integer_renders_witness:
  "\<exists>s ds. format_integer 1000 True True base_d \<lparr>pc_flags = GROUP, pc_width = 8, pc_precision = - 1, pc_type = T_INT\<rparr> = Some s \<and>
     number (ib_base base_d) (filter (\<lambda>d. d \<noteq> chr CHR '','') ds) = 1000"
proof -
  let ?c = "\<lparr>pc_flags = GROUP, pc_width = 8, pc_precision = - 1, pc_type = T_INT\<rparr>"
  have g: "(1000 :: nat) < 2 ^ 64" "base_d \<in> int_bases" "pc_flags ?c AND MINUS = 0 \<or> pc_flags ?c AND ZERO = 0"
    by (simp_all add: flag_defs)
  show ?thesis using format_integer_renders [OF g, of True True] by blast
qed

text \<open>
  C30. \<open>vsnprintf\<close> writes the first \<open>buf_size - 1\<close> characters of the output and a terminator into the
  buffer, and nothing anywhere else; it returns the length of the whole output. With a buffer size of
  zero it writes nothing.
\<close>

theorem vsnprintf_bounded:
  assumes "vprintf rnd m fmt args = Some out" "length out < 2147483648" "sz \<le> 2147483648" "mapped m buffer sz"
  shows "\<exists>m'. vsnprintf rnd buffer sz fmt args m = Some (int (length out), m') \<and>
    (sz > 0 \<longrightarrow> holds m' buffer (take (sz - 1) out @ [0])) \<and>
    (\<forall>a. a < buffer \<or> buffer + sz \<le> a \<longrightarrow> m' a = m a)"
  unfolding vsnprintf_ok [OF assms]
  by (cases "sz > 0") (auto simp: holds_put intro!: put_out)

theorem vsnprintf_bounded_witness:
  "\<exists>m'. vsnprintf id 10 3 (lit ''abc'' @ [0]) [] (\<lambda>a. if 10 \<le> a \<and> a < 13 then Some 0 else None) = Some (3, m') \<and>
     holds m' 10 [97, 98, 0]"
proof -
  have "vprintf id (\<lambda>a. if 10 \<le> a \<and> a < 13 then Some 0 else None) (lit ''abc'' @ [0]) [] = Some [97, 98, 99]" by simp
  moreover have "mapped (\<lambda>a. if 10 \<le> a \<and> a < 13 then Some 0 else None) 10 3" by (simp add: mapped_def)
  ultimately show ?thesis using vsnprintf_bounded [of id "\<lambda>a. if 10 \<le> a \<and> a < 13 then Some 0 else None" "lit ''abc'' @ [0]" "[]" "[97, 98, 99]" 3 10]
    by (simp add: numeral_2_eq_2; blast)
qed

text \<open>
  C28. \<open>atoi\<close> reads back what \<open>snprintf\<close> prints for \<open>%d\<close>, for every 32-bit integer: a buffer of
  twelve bytes is enough, no operation overflows, and only the buffer changes.
\<close>

theorem snprintf_atoi:
  assumes "buffer \<noteq> 0" "12 \<le> sz" "sz \<le> 2147483648" "mapped m buffer sz"
  shows "\<exists>len m'. snprintf rnd buffer sz (lit ''%d'' @ [0]) [a] m = Some (len, m') \<and> len \<le> 11 \<and>
    atoi buffer m' = Some (sint a) \<and> strlen buffer m' = Some (nat len) \<and>
    (\<forall>x. x < buffer \<or> buffer + sz \<le> x \<longrightarrow> m' x = m x)"
proof -
  obtain ds where ds: "vprintf rnd m (lit ''%d'' @ [0]) [a] = Some ((if sint a < 0 then [45] else []) @ ds)"
    "set ds \<subseteq> {48..57}" "ds \<noteq> []" "length ds \<le> 10" "number 10 ds = nat \<bar>sint a\<bar>"
    using print_d [of rnd m a] by blast
  let ?out = "(if sint a < 0 then [45] else []) @ ds"
  have l: "length ?out \<le> 11" "length ?out < 2147483648" using ds(4) by simp_all
  have t: "take (sz - 1) ?out = ?out" "sz > 0" using l(1) assms(2) by (simp_all only: take_all_iff)
  note v = vsnprintf_ok [OF ds(1) l(2) assms(3,4), unfolded t(1)]
  let ?m = "put m buffer (?out @ [0])"
  have h: "holds ?m buffer (?out @ [0])" by (rule holds_put)
  have s: "- 2147483648 \<le> sint a" "sint a < 2147483648" using sint_greater_eq [of a] sint_less [of a] by simp_all
  then have n: "number 10 ds \<le> 2147483648" "sint a < 0 \<or> number 10 ds < 2147483648" unfolding ds(5) by linarith+
  have "holds ?m buffer ((if sint a < 0 then [45] else []) @ ds @ [0])" using h by simp
  then have "atoi buffer ?m = Some (sint a)" using atoi_ok [OF ds(2,3) assms(1) _ n] by (simp add: ds(5))
  moreover have "0 \<notin> set ?out" using ds(2) digit_char(7) by auto
  then have "strlen buffer ?m = Some (length ?out)" using h assms(1) by (intro strlen_ok) (simp only: str_at_def, simp)
  moreover have "\<forall>x. x < buffer \<or> buffer + sz \<le> x \<longrightarrow> ?m x = m x"
    using l(1) assms(2) by (intro allI impI put_out) auto
  ultimately show ?thesis using v t(2) l(1) by (simp add: snprintf_def)
qed

theorem snprintf_atoi_witness:
  "\<exists>len m'. snprintf id 10 12 (lit ''%d'' @ [0]) [2147483648] (\<lambda>a. if 10 \<le> a \<and> a < 22 then Some 0 else None) = Some (len, m') \<and>
     atoi 10 m' = Some (- 2147483648)"
proof -
  have "mapped (\<lambda>a. if 10 \<le> a \<and> a < 22 then Some 0 else None) 10 12" by (simp add: mapped_def)
  then show ?thesis using snprintf_atoi [of 10 12 "\<lambda>a. if 10 \<le> a \<and> a < 22 then Some 0 else None" id "2147483648"] by auto
qed

text \<open>
  A conversion that is not supported prints a message in its place and takes no argument, so
  the rest of the format is printed as usual. A format that ends in a percent sign is an error of
  the code: its terminator is taken for a conversion, and the loop reads past it.
\<close>

definition unsupported :: "u8 \<Rightarrow> u8 list" where
  "unsupported ch =
     (if ch \<in> set (lit ''eEgGn'') then lit ''<<no %'' @ [ch] @ lit '' in kernel>>'' else lit ''<<no %'' @ [ch] @ lit '' conversion>>'')"

lemma vprintf_unsupported:
  assumes p: "plain_char ch" and ch: "ch \<notin> set (lit ''diouxXcspf'')"
  shows "vprintf rnd m (37 # ch # rest) args = map_option (append (unsupported ch)) (vprintf rnd m rest args)"
proof -
  have k: "ucast (scast ch :: u32) = ch" by (rule bit_word_eqI) (simp add: bit_simps)
  have msg: "vprintf rnd m (lit ''<<no %%%c in kernel>>'' @ [0]) [scast ch] = Some (lit ''<<no %'' @ [ch] @ lit '' in kernel>>'')"
    "vprintf rnd m (lit ''<<no %%%c conversion>>'' @ [0]) [scast ch] = Some (lit ''<<no %'' @ [ch] @ lit '' conversion>>'')"
    by (simp_all add: vprintf_c k)
  have "ch \<noteq> 37" using p by (simp add: plain_char_def)
  then show ?thesis using parse_plain [OF p, of rest args] ch msg
    by (subst vprintf.simps) (auto simp: unsupported_def bind_Some_map)
qed

lemma unsupported_conversions:
  "(\<forall>ch rest args. plain_char ch \<and> ch \<notin> set (lit ''diouxXcspf'') \<longrightarrow>
     vprintf rnd m (chr CHR ''%'' # ch # rest) args = map_option (append (unsupported ch)) (vprintf rnd m rest args)) \<and>
   vprintf rnd m [chr CHR ''%'', 0] args = None"
proof (intro conjI allI impI; (elim conjE)?)
  fix ch rest args assume "plain_char ch" "ch \<notin> set (lit ''diouxXcspf'')"
  from vprintf_unsupported [OF this]
  show "vprintf rnd m (chr CHR ''%'' # ch # rest) args = map_option (append (unsupported ch)) (vprintf rnd m rest args)" by simp
next
  have "plain_char 0" by (simp add: plain_char_def flag_of_def isdigit_def)
  moreover have "vprintf rnd m [] args = None" by (subst vprintf.simps) simp
  ultimately show "vprintf rnd m [chr CHR ''%'', 0] args = None" using vprintf_unsupported [of 0 rnd m "[]" args] by simp
qed

lemma unsupported_conversions_example:
  "vprintf id (\<lambda>a. None) (lit ''%e'' @ [0]) [] = Some (lit ''<<no %e in kernel>>'')"
proof -
  have "plain_char 101" by (simp add: plain_char_def flag_of_def isdigit_def)
  then show ?thesis using unsupported_conversions [of id "\<lambda>a. None" "[]"] by (simp add: unsupported_def)
qed

text \<open>
  \<open>print_human_readable_size\<close> prints the number of whole units of the largest of bytes, kB, MB,
  GB and TB that fits, so the number is below 1024 unless the unit is the last.
\<close>

lemma human_readable_size:
  "\<exists>ds j unit. print_human_readable_size rnd n = Some (ds @ lit '' '' @ lit unit) \<and> set ds \<subseteq> {chr CHR ''0''..chr CHR ''9''} \<and>
     number 10 ds = unat n div 1024 ^ j \<and> j < 5 \<and> (j < 4 \<longrightarrow> unat n div 1024 ^ j < 1024) \<and> (0 < j \<longrightarrow> 1024 ^ j \<le> unat n) \<and>
     unit = (if n = 1 then ''byte'' else [''bytes'', ''kB'', ''MB'', ''GB'', ''TB''] ! j)"
proof (cases "n = 1")
  case True
  have "number 10 [49] = 1" by (simp add: number_def digit_val_def)
  then show ?thesis using True
    by (intro exI [of _ "[49]"] exI [of _ 0] exI [of _ "''byte''"]) (simp add: print_human_readable_size_def printf_def)
next
  case False
  let ?u = "[''bytes'', ''kB'', ''MB'', ''GB'', ''TB'']"
  have l: "length ?u = 5" "?u \<noteq> []" by simp_all
  obtain j where j: "j < 5" "human_size (unat n) ?u = (unat n div 1024 ^ j, ?u ! j)" "j + 1 < 5 \<longrightarrow> unat n div 1024 ^ j < 1024"
    "0 < j \<longrightarrow> 1024 ^ j \<le> unat n"
    using human_size_ok [OF l(2), of "unat n"] unfolding l(1) by blast
  let ?k = "unat n div 1024 ^ j" and ?f = "?u ! j"
  let ?m = "put (\<lambda>a. None) 1 (lit ?f @ [0])"
  have k: "?k < 2 ^ 64" using unat_u64_less [of n] div_le_dividend [of "unat n" "1024 ^ j"] by (simp; linarith)
  obtain ds where ds: "format_integer ?k False False base_d (plain_conv\<lparr>pc_type := T_LONGLONG\<rparr>) = Some ds" "set ds \<subseteq> {48..57}" "number 10 ds = ?k"
    using decimal_ok [of ?k 20 "plain_conv\<lparr>pc_type := T_LONGLONG\<rparr>" False False] k by auto
  have u: "conv_unsigned 117 (plain_conv\<lparr>pc_type := T_LONGLONG\<rparr>) [word_of_nat ?k, word_of_nat (?k div 2 ^ 32), 1] = Some (ds, [1])"
    unfolding conv_unsigned_def unsigned_arg_def using ds(1) two_slots [OF k]
    by (simp add: int_arg_type_def va64_def)
  have "\<forall>f\<in>set ?u. 0 \<notin> set (lit f) \<and> length (lit f) \<le> 5" by simp
  moreover have "?f \<in> set ?u" using j(1) l(1) by (metis nth_mem)
  ultimately have f: "0 \<notin> set (lit ?f)" "length (lit ?f) \<le> 5" by blast+
  have s: "conv_string ?m plain_conv [1] = Some (lit ?f, [])" by (rule conv_string_ok [OF f])
  have "vprintf rnd ?m (lit ''%llu %s'' @ [0]) [word_of_nat ?k, word_of_nat (?k div 2 ^ 32), 1] = Some (ds @ 32 # lit ?f)"
    using u s parse_llu plain_chars parse_plain [of 115 "[0]" "[1]"] by (subst vprintf.simps, simp)+
  then show ?thesis using False j ds(2,3)
    by (intro exI [of _ ds] exI [of _ j] exI [of _ ?f]) (simp add: print_human_readable_size_def printf_def)
qed

end
