(* ===== verification/Ustar.thy ===== *)
theory Ustar
  imports Printf
begin

text \<open>
  Archive headers, \<open>lib/ustar.c\<close>. A header is a list of 512 bytes, seen as a record of its fields when the code
  casts the array to \<open>struct ustar_header\<close>; a file name is the list of its bytes before the terminator. A field
  of the header is written by \<open>strlcpy\<close> or by \<open>snprintf\<close>, whose output is that of \<open>vprintf\<close> in \<open>Printf\<close>. The
  model of \<open>ustar_make_header\<close> returns \<open>None\<close> for a failed assertion, \<open>Some None\<close> for the result \<open>false\<close>; that of
  \<open>ustar_parse_header\<close> a message or the name, the type and the size.
\<close>

section \<open>The code\<close>

datatype ustar_type = USTAR_REGULAR | USTAR_DIRECTORY | USTAR_EOF

definition USTAR_HEADER_SIZE :: nat where "USTAR_HEADER_SIZE = 512"

text \<open>The bytes that stand for the types in a header.\<close>

definition type_byte :: "ustar_type \<Rightarrow> u8" where
  "type_byte t = (case t of USTAR_REGULAR \<Rightarrow> chr CHR ''0'' | USTAR_DIRECTORY \<Rightarrow> chr CHR ''5'' | USTAR_EOF \<Rightarrow> - 1)"

record ustar_header =
  u_name :: "u8 list"
  u_mode :: "u8 list"
  u_uid :: "u8 list"
  u_gid :: "u8 list"
  u_size :: "u8 list"
  u_mtime :: "u8 list"
  u_chksum :: "u8 list"
  u_typeflag :: u8
  u_linkname :: "u8 list"
  u_magic :: "u8 list"
  u_version :: "u8 list"
  u_uname :: "u8 list"
  u_gname :: "u8 list"
  u_devmajor :: "u8 list"
  u_devminor :: "u8 list"
  u_prefix :: "u8 list"
  u_padding :: "u8 list"

definition header_of :: "u8 list \<Rightarrow> ustar_header" where
  "header_of bs =
     \<lparr>u_name = slice bs 0 100, u_mode = slice bs 100 8, u_uid = slice bs 108 8, u_gid = slice bs 116 8,
      u_size = slice bs 124 12, u_mtime = slice bs 136 12, u_chksum = slice bs 148 8, u_typeflag = bs ! 156,
      u_linkname = slice bs 157 100, u_magic = slice bs 257 6, u_version = slice bs 263 2, u_uname = slice bs 265 32,
      u_gname = slice bs 297 32, u_devmajor = slice bs 329 8, u_devminor = slice bs 337 8, u_prefix = slice bs 345 155,
      u_padding = slice bs 500 12\<rparr>"

definition header_bytes :: "ustar_header \<Rightarrow> u8 list" where
  "header_bytes h = u_name h @ u_mode h @ u_uid h @ u_gid h @ u_size h @ u_mtime h @ u_chksum h @ [u_typeflag h] @
     u_linkname h @ u_magic h @ u_version h @ u_uname h @ u_gname h @ u_devmajor h @ u_devminor h @ u_prefix h @ u_padding h"

definition zero_header :: ustar_header where
  "zero_header = header_of (replicate USTAR_HEADER_SIZE 0)"

definition chksum_weight :: "u8 list \<Rightarrow> nat \<Rightarrow> u32" where
  "chksum_weight bs i = (if 148 \<le> i \<and> i < 148 + 8 then 32 else ucast (bs ! i))"

definition calculate_chksum :: "u8 list \<Rightarrow> u32" where
  "calculate_chksum bs = sum_list (map (chksum_weight bs) [0..<USTAR_HEADER_SIZE])"

text \<open>A name that an extractor must not follow: absolute, or leading to the current or the parent directory.\<close>

definition antisocial :: "u8 list \<Rightarrow> bool" where
  "antisocial cs \<longleftrightarrow> take 1 cs = lit ''/'' \<or> take 2 cs = lit ''./'' \<or> take 3 cs = lit ''../''"

function strip_loop :: "u8 list \<Rightarrow> u8 list" where
  "strip_loop cs = (if antisocial cs then strip_loop (tl (dropWhile (\<lambda>c. c \<noteq> chr CHR ''/'') cs)) else cs)"
  by pat_completeness auto
termination
proof (relation "measure length")
  fix cs :: "u8 list"
  assume "antisocial cs"
  then have "cs \<noteq> []" by (auto simp: antisocial_def)
  then show "(tl (dropWhile (\<lambda>c. c \<noteq> chr CHR ''/'') cs), cs) \<in> measure length"
    using length_dropWhile_le [of "\<lambda>c. c \<noteq> chr CHR ''/''" cs] by (cases cs) (auto simp: less_Suc_eq_le)
qed simp

declare strip_loop.simps [simp del]

definition strip_antisocial_prefixes :: "u8 list \<Rightarrow> u8 list" where
  "strip_antisocial_prefixes file_name =
     (let name = strip_loop file_name in if name = [] \<or> name = lit ''..'' then lit ''.'' else name)"

text \<open>\<open>strlcpy\<close> and \<open>snprintf\<close> into a whole field.\<close>

definition copy_field :: "u8 list \<Rightarrow> u8 list \<Rightarrow> u8 list" where
  "copy_field field s = put_at field 0 (take (length field - 1) s @ [0])"

definition print_field :: "u8 list \<Rightarrow> string \<Rightarrow> u32 \<Rightarrow> u8 list option" where
  "print_field field fmt arg = do {
     out \<leftarrow> vprintf id (\<lambda>_. None) (lit fmt @ [0]) [arg];
     Some (copy_field field out)
   }"

definition ustar_make_header :: "u8 list \<Rightarrow> ustar_type \<Rightarrow> u32 \<Rightarrow> u8 list option option" where
  "ustar_make_header file_name type fsize = do {
     kassert (type = USTAR_REGULAR \<or> type = USTAR_DIRECTORY);
     let name = strip_antisocial_prefixes file_name;
     (if length name > 99 then Some None
      else do {
        let h = zero_header\<lparr>u_name := copy_field (u_name zero_header) name\<rparr>;
        mode \<leftarrow> print_field (u_mode h) ''%07o'' (if type = USTAR_REGULAR then 420 else 493);
        let h = h\<lparr>u_mode := mode, u_uid := copy_field (u_uid h) (lit ''0000000''), u_gid := copy_field (u_gid h) (lit ''0000000'')\<rparr>;
        sz \<leftarrow> print_field (u_size h) ''%011o'' fsize;
        mtime \<leftarrow> print_field (u_mtime h) ''%011o'' 1136102400;
        let h = h\<lparr>u_size := sz, u_mtime := mtime, u_typeflag := type_byte type, u_magic := copy_field (u_magic h) (lit ''ustar''),
                  u_version := lit ''00'', u_gname := copy_field (u_gname h) (lit ''root''),
                  u_uname := copy_field (u_uname h) (lit ''root'')\<rparr>;
        chksum \<leftarrow> print_field (u_chksum h) ''%07o'' (calculate_chksum (header_bytes h));
        Some (Some (header_bytes (h\<lparr>u_chksum := chksum\<rparr>)))
      })
   }"

text \<open>The loop of \<open>parse_octal_field\<close>: the bytes from \<open>s[ofs]\<close> on, the offset and the value.\<close>

fun octal_loop :: "u8 list \<Rightarrow> nat \<Rightarrow> nat \<Rightarrow> nat option" where
  "octal_loop [] ofs v = None"
| "octal_loop (c # cs) ofs v =
     (if chr CHR ''0'' \<le> c \<and> c \<le> chr CHR ''7''
      then (if v > 4294967295 div 8 then None else octal_loop cs (ofs + 1) (unat (c - chr CHR ''0'') + v * 8))
      else if c = chr CHR '' '' \<or> c = 0 then (if ofs > 0 then Some v else None)
      else None)"

definition parse_octal_field :: "u8 list \<Rightarrow> nat option" where
  "parse_octal_field s = octal_loop s 0 0"

definition is_all_zeros :: "u8 list \<Rightarrow> nat \<Rightarrow> bool" where
  "is_all_zeros block cnt = list_all (\<lambda>b. b = 0) (take cnt block)"

definition ustar_parse_header :: "u8 list \<Rightarrow> string + (u8 list option \<times> ustar_type \<times> int)" where
  "ustar_parse_header bs =
     (let h = header_of bs in
      if is_all_zeros bs USTAR_HEADER_SIZE then Inr (None, USTAR_EOF, 0)
      else if u_magic h \<noteq> lit ''ustar'' @ [0] then Inl ''not a ustar archive''
      else if u_version h \<noteq> lit ''00'' then Inl ''invalid ustar version''
      else
        (case parse_octal_field (u_chksum h) of
           None \<Rightarrow> Inl ''corrupt chksum field''
         | Some chksum \<Rightarrow>
             if chksum \<noteq> unat (calculate_chksum bs) then Inl ''checksum mismatch''
             else if u_name h ! 99 \<noteq> 0 \<or> u_prefix h ! 0 \<noteq> 0 then Inl ''file name too long''
             else if u_typeflag h = type_byte USTAR_REGULAR then
               (case parse_octal_field (u_size h) of
                  None \<Rightarrow> Inl ''corrupt file size field''
                | Some fsize \<Rightarrow>
                    if fsize > 2147483647 then Inl ''file too large''
                    else Inr (Some (strip_antisocial_prefixes (cstr (u_name h))), USTAR_REGULAR, int fsize))
             else if u_typeflag h = type_byte USTAR_DIRECTORY then
               Inr (Some (strip_antisocial_prefixes (cstr (u_name h))), USTAR_DIRECTORY, 0)
             else Inl ''unimplemented file type''))"

section \<open>Names\<close>

lemma strip_loop_safe: "\<not> antisocial (strip_loop cs)"
  by (induction cs rule: strip_loop.induct) (subst strip_loop.simps, simp)

lemma strip_loop_suffix: "\<exists>p. cs = p @ strip_loop cs"
proof (induction cs rule: strip_loop.induct)
  case (1 cs)
  show ?case
  proof (cases "antisocial cs")
    case True
    let ?d = "dropWhile (\<lambda>c. c \<noteq> chr CHR ''/'') cs"
    obtain p where p: "tl ?d = p @ strip_loop (tl ?d)" using 1 True by blast
    have "cs = takeWhile (\<lambda>c. c \<noteq> chr CHR ''/'') cs @ take 1 ?d @ tl ?d"
    proof -
      have "take 1 d @ tl d = d" for d :: "u8 list" by (cases d) simp_all
      then show ?thesis by (simp only: takeWhile_dropWhile_id)
    qed
    moreover have "strip_loop cs = strip_loop (tl ?d)" using True by (subst strip_loop.simps) simp
    ultimately show ?thesis using p by (metis append.assoc)
  next
    case False
    then show ?thesis by (subst strip_loop.simps) simp
  qed
qed

lemma strip_safe: "\<not> antisocial (strip_antisocial_prefixes cs)" "strip_antisocial_prefixes cs \<noteq> lit ''..''"
  "strip_antisocial_prefixes cs \<noteq> []"
  using strip_loop_safe [of cs] by (auto simp: strip_antisocial_prefixes_def Let_def antisocial_def)

lemma strip_suffix: "strip_antisocial_prefixes cs = lit ''.'' \<or> (\<exists>p. cs = p @ strip_antisocial_prefixes cs)"
  using strip_loop_suffix [of cs] by (auto simp: strip_antisocial_prefixes_def Let_def)

lemma strip_idem [simp]: "strip_antisocial_prefixes (strip_antisocial_prefixes cs) = strip_antisocial_prefixes cs"
proof -
  have "strip_loop (strip_antisocial_prefixes cs) = strip_antisocial_prefixes cs"
    using strip_safe(1) by (subst strip_loop.simps) simp
  then show ?thesis using strip_safe(2,3) [of cs] by (simp add: strip_antisocial_prefixes_def [of "strip_antisocial_prefixes cs"] Let_def)
qed

lemma strip_no_zero: "0 \<notin> set cs \<Longrightarrow> 0 \<notin> set (strip_antisocial_prefixes cs)"
  using strip_suffix [of cs] by (elim disjE exE) (simp, metis Un_iff set_append)

section \<open>Fields\<close>

lemma length_copy_field [simp]: "field \<noteq> [] \<Longrightarrow> length (copy_field field s) = length field"
  by (cases field) (simp_all add: copy_field_def)

lemma copy_field_fits: "length s < length field \<Longrightarrow> copy_field field s = s @ 0 # drop (length s + 1) field"
  by (simp add: copy_field_def put_at_def)

text \<open>\<open>%07o\<close> and \<open>%011o\<close> print the octal digits of a number that fits, padded with zeros.\<close>

definition octal_conv :: "nat \<Rightarrow> printf_conversion" where
  "octal_conv w = \<lparr>pc_flags = ZERO, pc_width = int w, pc_precision = - 1, pc_type = T_INT\<rparr>"

lemma octal_digits: "k < 8 \<Longrightarrow> ib_digits base_o ! k \<in> {48..55}"
proof -
  have "\<forall>c\<in>set (ib_digits base_o). 48 \<le> c \<and> c \<le> 55" by code_simp
  moreover have "length (ib_digits base_o) = 8" by (simp add: base_defs)
  ultimately show "k < 8 \<Longrightarrow> ib_digits base_o ! k \<in> {48..55}" using nth_mem by fastforce
qed

lemma render_octal: "set ks \<subseteq> {..<8} \<Longrightarrow> set (render ZERO base_o n ks) \<subseteq> {48..55}"
  using octal_digits by (induction ks arbitrary: n) (auto simp: flag_defs)

lemma render_zero_length: "length (render ZERO b n ks) = length ks"
  by (induction ks arbitrary: n) (simp_all add: flag_defs)

lemma format_octal:
  assumes v: "v < 8 ^ w" "0 < w" "w \<le> 20" "v < 2 ^ 64"
  shows "\<exists>ds. format_integer v False False base_o (octal_conv w) = Some ds \<and> length ds = w \<and> set ds \<subseteq> {48..55} \<and> number 8 ds = v"
proof -
  let ?b = "int_buf ZERO 1 base_o v" and ?r = "render ZERO base_o 0 (rdigits 8 v)"
  have b: "base_o \<in> int_bases" "ib_base base_o = 8" "ib_x base_o = 0" by (simp_all add: base_o_def)
  have r: "set ?r \<subseteq> {48..55}" by (rule render_octal) (use rdigits_less in auto)
  have l: "length ?r \<le> w" using rdigits_length [of 8 v w] v(1) by (simp add: render_zero_length)
  have e: "?b = (if ?r = [] then [48] else ?r)"
    using l v(3) by (cases ?r) (simp_all add: int_buf_def b flag_defs)
  have p: "set ?b \<subseteq> {48..55}" "length ?b \<le> w" using r l v(2) by (simp_all add: e)
  have "44 \<notin> set (rev ?b)" using p(1) by auto
  then have "filter (\<lambda>c. c \<noteq> 44) (rev ?b) = rev ?b" by (auto simp: filter_id_conv)
  then have n: "number 8 (rev ?b) = v" using number_int_buf [OF b(1), of ZERO 1 v] b(2) by simp
  have "format_integer v False False base_o (octal_conv w) = Some (replicate (w - length ?b) 48 @ rev ?b)"
    using v(4) b by (subst format_integer_eq) (simp_all add: sign_char_def octal_conv_def flag_defs)
  then show ?thesis using p n number_zeros [of 8 "w - length ?b" "rev ?b"]
    by (intro exI [of _ "replicate (w - length ?b) 48 @ rev ?b"]) auto
qed

lemma print_octal:
  assumes "fmt = ''%07o'' \<and> w = 7 \<or> fmt = ''%011o'' \<and> w = 11" "unat a < 8 ^ w"
  shows "\<exists>ds. vprintf rnd m (lit fmt @ [0]) [a] = Some ds \<and> length ds = w \<and> set ds \<subseteq> {48..55} \<and> number 8 ds = unat a"
proof -
  have w: "0 < w" "w \<le> 20" and a: "unat a < 2 ^ 64" using assms(1) unat_u32_less [of a] by auto
  obtain ds where ds: "format_integer (unat a) False False base_o (octal_conv w) = Some ds" "length ds = w" "set ds \<subseteq> {48..55}"
    "number 8 ds = unat a" using format_octal [OF assms(2) w a] by blast
  have f: "lit fmt @ [0] = 37 # 48 # lit (drop 2 fmt) @ [0]" "fmt = ''%07o'' \<and> w = 7 \<or> fmt = ''%011o'' \<and> w = 11"
    using assms(1) by auto
  have p: "parse_conversion (48 # lit (drop 2 fmt) @ [0]) [a] = Some ([111, 0], octal_conv w, [a])"
    using assms(1) by (elim disjE conjE; simp add: parse_conversion_def flag_of_def settle_flags_def parse_star_def
      isdigit_def parse_precision_def parse_type_def octal_conv_def flag_defs cint32_in in_s32_def)
  have c: "conv_unsigned 111 (octal_conv w) [a] = Some (ds, [])"
    using ds(1) by (simp add: conv_unsigned_def unsigned_arg_def int_arg_type_def va32_def octal_conv_def unat_ucast_32_64)
  have "vprintf rnd m (37 # 48 # lit (drop 2 fmt) @ [0]) [a] = Some ds"
    by (subst vprintf.simps) (simp add: p c)
  then show ?thesis using ds(2-4) f(1) by simp
qed

text \<open>They are read back.\<close>

lemma foldl_octal_ge: "v \<le> foldl (\<lambda>n c. n * 8 + digit_val c) v ds"
proof (induction ds arbitrary: v)
  case (Cons c cs)
  have "v \<le> v * 8 + digit_val c" by simp
  also have "\<dots> \<le> foldl (\<lambda>n c. n * 8 + digit_val c) (v * 8 + digit_val c) cs" by (rule Cons.IH)
  finally show ?case by simp
qed simp

lemma octal_loop_ok:
  "set ds \<subseteq> {48..55} \<Longrightarrow> foldl (\<lambda>n c. n * 8 + digit_val c) v ds \<le> 4294967295 \<Longrightarrow> 0 < ofs + length ds \<Longrightarrow>
   octal_loop (ds @ 0 # r) ofs v = Some (foldl (\<lambda>n c. n * 8 + digit_val c) v ds)"
proof (induction ds arbitrary: ofs v)
  case (Cons c cs)
  have c: "48 \<le> c" "c \<le> 55" using Cons.prems(1) by simp_all
  then have d: "unat (c - 48) = digit_val c" by (simp add: digit_val_def unat_sub word_le_nat_alt)
  have "v * 8 + digit_val c \<le> 4294967295" using foldl_octal_ge [of "v * 8 + digit_val c" cs] Cons.prems(2) by simp
  then have "v \<le> 4294967295 div 8" by linarith
  then show ?case using Cons.IH [of "v * 8 + digit_val c" "ofs + 1"] Cons.prems c d by (simp add: add.commute)
qed simp

lemma parse_octal:
  assumes "set ds \<subseteq> {48..55}" "ds \<noteq> []" "number 8 ds \<le> 4294967295"
  shows "parse_octal_field (ds @ 0 # r) = Some (number 8 ds)"
  using octal_loop_ok [of ds 0 0 r] assms by (simp add: parse_octal_field_def number_def)

section \<open>The checksum\<close>

lemma unat_sum_list: "unat (sum_list (ws :: u32 list)) \<le> sum_list (map unat ws)"
proof (induction ws)
  case (Cons w ws)
  have "unat (w + sum_list ws) \<le> unat w + unat (sum_list ws)" by (simp add: unat_word_ariths)
  then show ?case using Cons by simp
qed simp

lemma unat_ucast_8_32: "unat (ucast (b :: u8) :: u32) = unat b"
  by (simp add: unsigned_ucast_eq take_bit_nat_eq_self_iff order_less_trans [OF unsigned_less])

lemma chksum_bound: "unat (calculate_chksum bs) \<le> 130560"
proof -
  have "unat (chksum_weight bs i) \<le> 255" for i
    using unsigned_less [of "bs ! i", where 'a = nat] by (simp add: chksum_weight_def unat_ucast_8_32)
  then have "sum_list (map unat (map (chksum_weight bs) [0..<USTAR_HEADER_SIZE])) \<le> sum_list (map (\<lambda>i. 255) [0..<USTAR_HEADER_SIZE])"
    unfolding map_map by (intro sum_list_mono) simp
  also have "\<dots> = 130560" by (simp add: USTAR_HEADER_SIZE_def sum_list_triv)
  finally show ?thesis using unat_sum_list order_trans unfolding calculate_chksum_def by blast
qed

lemma chksum_field:
  assumes "length a = 148" "length c = 8" "length c' = 8"
  shows "calculate_chksum (a @ c @ b) = calculate_chksum (a @ c' @ b)"
proof -
  have "chksum_weight (a @ c @ b) = chksum_weight (a @ c' @ b)" using assms by (intro ext) (auto simp: chksum_weight_def nth_append)
  then show ?thesis by (simp only: calculate_chksum_def)
qed

text \<open>A byte outside the field that is changed changes the checksum.\<close>

lemma sum_list_update_word:
  assumes "i < length ws" "w \<noteq> ws ! i"
  shows "sum_list (ws[i := w]) \<noteq> (sum_list ws :: u32)"
proof -
  have "ws = take i ws @ ws ! i # drop (Suc i) ws" using assms(1) by (rule id_take_nth_drop)
  then have "sum_list ws = sum_list (take i ws) + (ws ! i + sum_list (drop (Suc i) ws))" by (metis sum_list.Cons sum_list_append)
  moreover have "sum_list (ws[i := w]) = sum_list (take i ws) + (w + sum_list (drop (Suc i) ws))"
    using assms(1) by (simp add: upd_conv_take_nth_drop)
  ultimately show ?thesis using assms(2) by simp
qed

lemma chksum_changed:
  assumes "length bs = 512" "i < 512" "\<not> (148 \<le> i \<and> i < 156)" "b \<noteq> bs ! i"
  shows "calculate_chksum (bs[i := b]) \<noteq> calculate_chksum bs"
proof -
  let ?ws = "map (chksum_weight bs) [0..<USTAR_HEADER_SIZE]"
  have "map (chksum_weight (bs[i := b])) [0..<USTAR_HEADER_SIZE] = ?ws[i := ucast b]"
    using assms(1-3) by (intro nth_equalityI) (auto simp: chksum_weight_def USTAR_HEADER_SIZE_def nth_list_update)
  moreover have "?ws ! i = ucast (bs ! i)" using assms(2,3) by (auto simp: chksum_weight_def USTAR_HEADER_SIZE_def)
  moreover have "(ucast b :: u32) \<noteq> ucast (bs ! i)" using assms(4) unat_ucast_8_32 by (metis unat_inj)
  ultimately show ?thesis
    using sum_list_update_word [of i ?ws "ucast b"] assms(2) by (simp add: calculate_chksum_def USTAR_HEADER_SIZE_def)
qed

section \<open>The layout\<close>

definition wf_header :: "ustar_header \<Rightarrow> bool" where
  "wf_header h \<longleftrightarrow> length (u_name h) = 100 \<and> length (u_mode h) = 8 \<and> length (u_uid h) = 8 \<and> length (u_gid h) = 8 \<and>
     length (u_size h) = 12 \<and> length (u_mtime h) = 12 \<and> length (u_chksum h) = 8 \<and> length (u_linkname h) = 100 \<and>
     length (u_magic h) = 6 \<and> length (u_version h) = 2 \<and> length (u_uname h) = 32 \<and> length (u_gname h) = 32 \<and>
     length (u_devmajor h) = 8 \<and> length (u_devminor h) = 8 \<and> length (u_prefix h) = 155 \<and> length (u_padding h) = 12"

lemma length_header [simp]: "wf_header h \<Longrightarrow> length (header_bytes h) = 512"
  by (simp add: wf_header_def header_bytes_def)

lemma header_roundtrip: "wf_header h \<Longrightarrow> header_of (header_bytes h) = h"
  by (cases h) (simp add: wf_header_def header_bytes_def header_of_def slice_def nth_append)

lemma wf_zero_header [simp]: "wf_header zero_header"
  by (simp add: wf_header_def zero_header_def header_of_def USTAR_HEADER_SIZE_def)

lemma chksum_header:
  assumes "wf_header h" "length c = 8"
  shows "calculate_chksum (header_bytes (h\<lparr>u_chksum := c\<rparr>)) = calculate_chksum (header_bytes h)"
proof -
  let ?a = "u_name h @ u_mode h @ u_uid h @ u_gid h @ u_size h @ u_mtime h"
  have "length ?a = 148" "length (u_chksum h) = 8" using assms(1) by (simp_all add: wf_header_def)
  from chksum_field [OF this(1) assms(2) this(2)] show ?thesis by (simp add: header_bytes_def)
qed

section \<open>A header that was made\<close>

definition made :: "u8 list \<Rightarrow> ustar_type \<Rightarrow> u32 \<Rightarrow> ustar_header \<Rightarrow> bool" where
  "made n type fsize h \<longleftrightarrow> wf_header h \<and> cstr (u_name h) = n \<and> u_name h ! 99 = 0 \<and> u_prefix h ! 0 = 0 \<and>
     u_magic h = lit ''ustar'' @ [0] \<and> u_version h = lit ''00'' \<and> u_typeflag h = type_byte type \<and>
     parse_octal_field (u_size h) = Some (unat fsize) \<and>
     parse_octal_field (u_chksum h) = Some (unat (calculate_chksum (header_bytes h)))"

lemma print_field_ok:
  assumes "fmt = ''%07o'' \<and> w = 7 \<or> fmt = ''%011o'' \<and> w = 11" "unat a < 8 ^ w" "length field = Suc w"
  shows "\<exists>f. print_field field fmt a = Some f \<and> length f = Suc w \<and> parse_octal_field f = Some (unat a)"
proof -
  obtain ds where ds: "vprintf id (\<lambda>_. None) (lit fmt @ [0]) [a] = Some ds" "length ds = w" "set ds \<subseteq> {48..55}" "number 8 ds = unat a"
    using print_octal [OF assms(1,2)] by blast
  have c: "copy_field field ds = ds @ 0 # []" using copy_field_fits [of ds field] ds(2) assms(3) by simp
  have "ds \<noteq> []" "number 8 ds \<le> 4294967295" using ds(2,4) assms(1) unat_u32_less [of a] by auto
  then have "parse_octal_field (ds @ 0 # []) = Some (unat a)" using parse_octal [OF ds(3)] ds(4) by simp
  then show ?thesis using ds(1,2) c by (simp add: print_field_def)
qed

lemma zero_fields:
  "u_name zero_header = replicate 100 0" "u_prefix zero_header = replicate 155 0" "u_chksum zero_header = replicate 8 0"
  "u_mode zero_header = replicate 8 0" "u_size zero_header = replicate 12 0" "u_mtime zero_header = replicate 12 0"
  "u_magic zero_header = replicate 6 0" "u_uid zero_header = replicate 8 0" "u_gid zero_header = replicate 8 0"
  "u_uname zero_header = replicate 32 0" "u_gname zero_header = replicate 32 0"
  by (simp_all add: zero_header_def header_of_def slice_def USTAR_HEADER_SIZE_def)

lemma name_field:
  assumes "0 \<notin> set n" "length n \<le> 99"
  shows "length (copy_field (replicate 100 0) n) = 100" "cstr (copy_field (replicate 100 0) n) = n" "copy_field (replicate 100 0) n ! 99 = 0"
proof -
  have c: "copy_field (replicate 100 0) n = n @ 0 # replicate (99 - length n) 0"
    using copy_field_fits [of n "replicate 100 0"] assms(2) by simp
  show "length (copy_field (replicate 100 0) n) = 100" unfolding c using assms(2) by simp
  show "cstr (copy_field (replicate 100 0) n) = n" unfolding c by (rule cstr_append [OF assms(1)])
  have "n @ 0 # replicate (99 - length n) 0 = n @ replicate (100 - length n) 0"
    using assms(2) by (simp add: Suc_diff_le flip: replicate_Suc)
  then show "copy_field (replicate 100 0) n ! 99 = 0" unfolding c using assms(2) by (simp add: nth_append)
qed

lemma make_ok:
  assumes n: "n = strip_antisocial_prefixes name" "0 \<notin> set name" "length n \<le> 99" and ty: "type \<noteq> USTAR_EOF"
  shows "\<exists>h. ustar_make_header name type fsize = Some (Some (header_bytes h)) \<and> made n type fsize h"
proof -
  have n0: "0 \<notin> set n" using strip_no_zero [OF n(2)] n(1) by simp
  note nf = name_field [OF n0 n(3)]
  define a :: u32 where "a = (if type = USTAR_REGULAR then 420 else 493)"
  have "unat a < 8 ^ 7" by (simp add: a_def)
  then obtain mode where mode: "print_field (replicate 8 0) ''%07o'' a = Some mode" "length mode = 8"
    using print_field_ok [of "''%07o''" 7 a "replicate 8 0"] by auto
  obtain sz where sz: "print_field (replicate 12 0) ''%011o'' fsize = Some sz" "length sz = 12" "parse_octal_field sz = Some (unat fsize)"
    using print_field_ok [of "''%011o''" 11 fsize "replicate 12 0"] unat_u32_less [of fsize] by auto
  obtain mtime where mtime: "print_field (replicate 12 0) ''%011o'' 1136102400 = Some mtime" "length mtime = 12"
    using print_field_ok [of "''%011o''" 11 1136102400 "replicate 12 0"] by auto
  define h where "h = zero_header\<lparr>u_name := copy_field (replicate 100 0) n, u_mode := mode,
    u_uid := copy_field (replicate 8 0) (lit ''0000000''), u_gid := copy_field (replicate 8 0) (lit ''0000000''),
    u_size := sz, u_mtime := mtime, u_typeflag := type_byte type, u_magic := copy_field (replicate 6 0) (lit ''ustar''),
    u_version := lit ''00'', u_gname := copy_field (replicate 32 0) (lit ''root''), u_uname := copy_field (replicate 32 0) (lit ''root'')\<rparr>"
  have wf: "wf_header h" using wf_zero_header nf(1) mode(2) sz(2) mtime(2) by (simp add: wf_header_def h_def)
  obtain cs where cs: "print_field (replicate 8 0) ''%07o'' (calculate_chksum (header_bytes h)) = Some cs" "length cs = 8"
    "parse_octal_field cs = Some (unat (calculate_chksum (header_bytes h)))"
    using print_field_ok [of "''%07o''" 7 "calculate_chksum (header_bytes h)" "replicate 8 0"] chksum_bound [of "header_bytes h"] by auto
  have "ustar_make_header name type fsize = Some (Some (header_bytes (h\<lparr>u_chksum := cs\<rparr>)))"
    using ty n(3) cs(1) unfolding ustar_make_header_def Let_def a_def [symmetric] n(1) [symmetric] h_def
    by (cases type) (simp_all add: zero_fields mode(1) sz(1) mtime(1))
  moreover have "made n type fsize (h\<lparr>u_chksum := cs\<rparr>)"
  proof -
    have "wf_header (h\<lparr>u_chksum := cs\<rparr>)" using wf cs(2) by (simp add: wf_header_def)
    moreover have "u_magic h = lit ''ustar'' @ [0]" by (simp add: h_def copy_field_def put_at_def)
    ultimately show ?thesis using nf sz(3) cs(3) chksum_header [OF wf cs(2)]
      by (simp add: made_def h_def zero_fields)
  qed
  ultimately show ?thesis by blast
qed

lemma all_zeros_nth: "is_all_zeros bs USTAR_HEADER_SIZE \<Longrightarrow> length bs = 512 \<Longrightarrow> i < 512 \<Longrightarrow> bs ! i = 0"
  by (simp add: is_all_zeros_def USTAR_HEADER_SIZE_def list_all_length)

lemma magic_bytes:
  assumes "length bs = 512" "u_magic (header_of bs) = lit ''ustar'' @ [0]"
  shows "bs ! 257 = 117" "bs ! 258 = 115"
proof -
  have m: "slice bs 257 6 = lit ''ustar'' @ [0]" using assms(2) by (simp add: header_of_def)
  show "bs ! 257 = 117" using nth_slice [of 257 6 bs 0] assms(1) m by simp
  show "bs ! 258 = 115" using nth_slice [of 257 6 bs 1] assms(1) m by simp
qed

lemma to_s32_high:
  assumes "2147483648 \<le> x" "x < 4294967296"
  shows "to_s32 x = x - 4294967296"
proof -
  have "(x - 2147483648 + 4294967296) mod 4294967296 = (x - 2147483648) mod 4294967296" by (rule mod_add_self2)
  moreover have "x - 2147483648 + 4294967296 = x + 2147483648" by simp
  moreover have "(x - 2147483648) mod 4294967296 = x - 2147483648" using assms by (intro mod_pos_pos_trivial) simp_all
  ultimately show ?thesis by (simp only: to_s32_def)
qed

lemma sint_cases: "sint (w :: u32) = (if unat w > 2147483647 then int (unat w) - 4294967296 else int (unat w))"
proof -
  have w: "sint w = to_s32 (int (unat w))" by (simp add: to_s32_sint)
  show ?thesis
  proof (cases "unat w > 2147483647")
    case True
    then have "2147483648 \<le> int (unat w)" "int (unat w) < 4294967296" using unat_u32_less [of w] by linarith+
    then show ?thesis using True to_s32_high w by metis
  next
    case False
    then have "to_s32 (int (unat w)) = int (unat w)" by (intro to_s32_in) (simp add: in_s32_def del: of_nat_unat)
    then show ?thesis using False w by metis
  qed
qed

lemma parse_made:
  assumes m: "made n type fsize h" and n: "strip_antisocial_prefixes n = n" and ty: "type \<noteq> USTAR_EOF"
  shows "ustar_parse_header (header_bytes h) =
    (if type = USTAR_DIRECTORY then Inr (Some n, type, 0)
     else if sint fsize < 0 then Inl ''file too large'' else Inr (Some n, type, sint fsize))"
proof -
  have h: "header_of (header_bytes h) = h" "length (header_bytes h) = 512" using m by (simp_all add: made_def header_roundtrip)
  have f: "cstr (u_name h) = n" "u_name h ! 99 = 0" "u_prefix h ! 0 = 0" "u_magic h = lit ''ustar'' @ [0]" "u_version h = lit ''00''"
    "u_typeflag h = type_byte type" "parse_octal_field (u_size h) = Some (unat fsize)"
    "parse_octal_field (u_chksum h) = Some (unat (calculate_chksum (header_bytes h)))" using m by (simp_all add: made_def)
  have "header_bytes h ! 257 = 117" using magic_bytes [of "header_bytes h"] h f(4) by simp
  then have z: "\<not> is_all_zeros (header_bytes h) USTAR_HEADER_SIZE" using all_zeros_nth [of "header_bytes h" 257] h(2) by auto
  have s: "sint fsize < 0 \<longleftrightarrow> unat fsize > 2147483647" "\<not> sint fsize < 0 \<Longrightarrow> int (unat fsize) = sint fsize"
    unfolding sint_cases using unat_u32_less [of fsize] by (auto simp del: of_nat_unat split: if_splits)
  show ?thesis
  proof (cases type)
    case USTAR_REGULAR
    then show ?thesis using s by (simp add: ustar_parse_header_def Let_def h z f n del: of_nat_unat)
  next
    case USTAR_DIRECTORY
    then show ?thesis by (simp add: ustar_parse_header_def Let_def h z f n type_byte_def)
  qed (use ty in simp)
qed

lemma parse_corrupted:
  assumes m: "made n type fsize h" and i: "i < 512" "\<not> (148 \<le> i \<and> i < 156)" "b \<noteq> header_bytes h ! i"
  shows "\<exists>e. ustar_parse_header ((header_bytes h)[i := b]) = Inl e"
proof -
  let ?bs = "header_bytes h" and ?c = "(header_bytes h)[i := b]"
  have h: "header_of ?bs = h" "length ?bs = 512" using m by (simp_all add: made_def header_roundtrip)
  have g: "?bs ! 257 = 117" "?bs ! 258 = 115" using magic_bytes [of ?bs] h m by (simp_all add: made_def)
  have z: "\<not> is_all_zeros ?c USTAR_HEADER_SIZE"
    using all_zeros_nth [of ?c 257] all_zeros_nth [of ?c 258] g h(2) by (cases "i = 257") auto
  have "slice ?c 148 8 = slice ?bs 148 8" using i(2) h(2) by (intro nth_equalityI) (auto simp: nth_slice nth_list_update)
  then have "u_chksum (header_of ?c) = u_chksum (header_of ?bs)" by (simp add: header_of_def)
  then have c: "parse_octal_field (u_chksum (header_of ?c)) = Some (unat (calculate_chksum ?bs))"
    using m h(1) by (simp add: made_def)
  have "unat (calculate_chksum ?bs) \<noteq> unat (calculate_chksum ?c)" using chksum_changed [OF h(2) i] unat_inj by metis
  then show ?thesis by (simp add: ustar_parse_header_def Let_def z c)
qed

text \<open>
  C31. Archive headers round-trip: a header made for a file whose name, stripped of leading slashes and of leading
  references to the current or the parent directory, has at most 99 bytes is parsed back to that stripped name,
  the type and the size of the file, except that a directory has size 0 and a negative size is refused as too
  large; a longer name is refused. The stripped name is the end of the name given or \<open>.\<close>, and is safe for an
  extractor. If a single byte outside the checksum field is changed, parsing reports an error.
\<close>

theorem ustar_roundtrip:
  assumes "0 \<notin> set name" "type \<noteq> USTAR_EOF"
  defines "n \<equiv> strip_antisocial_prefixes name"
  shows "\<not> antisocial n \<and> n \<noteq> lit ''..'' \<and> (n = lit ''.'' \<or> (\<exists>p. name = p @ n)) \<and>
    (if length n > 99 then ustar_make_header name type fsize = Some None
     else \<exists>h. ustar_make_header name type fsize = Some (Some h) \<and> length h = 512 \<and>
       ustar_parse_header h =
         (if type = USTAR_DIRECTORY then Inr (Some n, type, 0)
          else if sint fsize < 0 then Inl ''file too large'' else Inr (Some n, type, sint fsize)) \<and>
       (\<forall>i b. i < 512 \<and> \<not> (148 \<le> i \<and> i < 156) \<and> b \<noteq> h ! i \<longrightarrow> (\<exists>e. ustar_parse_header (h[i := b]) = Inl e)))"
proof (cases "length n > 99")
  case True
  then have "ustar_make_header name type fsize = Some None"
    using assms(2) by (cases type) (simp_all add: ustar_make_header_def Let_def n_def)
  then show ?thesis using True strip_safe [of name] strip_suffix [of name] by (simp add: n_def)
next
  case False
  then obtain h where h: "ustar_make_header name type fsize = Some (Some (header_bytes h))" "made n type fsize h"
    using make_ok [of n name type fsize] assms by (auto simp: n_def)
  have "strip_antisocial_prefixes n = n" by (simp add: n_def)
  note p = parse_made [OF h(2) this assms(2)]
  have "length (header_bytes h) = 512" using h(2) by (simp add: made_def)
  then show ?thesis using False h(1) p parse_corrupted [OF h(2)] strip_safe [of name] strip_suffix [of name]
    by (simp add: n_def)
qed

theorem ustar_roundtrip_witness:
  "\<exists>h. ustar_make_header (lit ''../../etc/motd'') USTAR_REGULAR 1234 = Some (Some h) \<and>
     ustar_parse_header h = Inr (Some (lit ''etc/motd''), USTAR_REGULAR, 1234)"
proof -
  have s: "strip_antisocial_prefixes (lit ''../../etc/motd'') = lit ''etc/motd''"
    by (simp add: strip_antisocial_prefixes_def strip_loop.simps antisocial_def)
  show ?thesis using ustar_roundtrip [of "lit ''../../etc/motd''" USTAR_REGULAR 1234, unfolded s] by auto
qed

end
