(* ===== verification/Intq.thy ===== *)
theory Intq
  imports Fifo
begin

text \<open>
  The interrupt queue of \<open>devices/intq.c\<close>: a ring buffer of 64 bytes of which at most 63 are in
  use, with at most one thread waiting on each side. A thread is its address, 0 for none. The queue's
  lock is that of \<open>threads/synch.c\<close>: a semaphore with its list of waiters, and the holder. An operation
  runs with interrupts off until it blocks, which it does in two places: on the lock, in \<open>sema_down\<close>, and in
  \<open>wait\<close>. A call is run from one of these points (\<open>stage\<close>) to the next one (\<open>Sleep\<close>) or to its end
  (\<open>Done\<close>); with either come the threads that it has unblocked.
\<close>

section \<open>The code\<close>

definition INTQ_BUFSIZE :: nat where "INTQ_BUFSIZE = 64"

record intq =
  lock_holder :: nat
  lock_value :: nat
  lock_waiters :: "nat list"
  not_full :: nat
  not_empty :: nat
  buf :: "u8 list"
  head :: nat
  tail :: nat

text \<open>Where a call stands: at its beginning, asleep in \<open>sema_down\<close> of the lock, or asleep in \<open>wait\<close>.\<close>

datatype stage = Enter | Locking | Waiting

datatype 'a outcome = Sleep stage intq "nat list" | Done 'a intq "nat list"

definition intq_init :: "u8 list \<Rightarrow> intq" where
  "intq_init garbage = \<lparr>lock_holder = 0, lock_value = 1, lock_waiters = [], not_full = 0, not_empty = 0,
     buf = garbage, head = 0, tail = 0\<rparr>"

definition next_pos :: "nat \<Rightarrow> nat" where
  "next_pos pos = (pos + 1) mod INTQ_BUFSIZE"

text \<open>\<open>off\<close> tells whether interrupts are off, \<open>ctx\<close> whether this is an interrupt handler.\<close>

definition intq_empty :: "bool \<Rightarrow> intq \<Rightarrow> bool option" where
  "intq_empty off q = do { kassert off; Some (head q = tail q) }"

definition intq_full :: "bool \<Rightarrow> intq \<Rightarrow> bool option" where
  "intq_full off q = do { kassert off; Some (next_pos (head q) = tail q) }"

definition wait_not_empty :: "bool \<Rightarrow> bool \<Rightarrow> nat \<Rightarrow> intq \<Rightarrow> intq option" where
  "wait_not_empty off ctx cur q = do {
     kassert (\<not> ctx);
     kassert off;
     empty \<leftarrow> intq_empty off q;
     kassert empty;
     Some (q\<lparr>not_empty := cur\<rparr>)
   }"

definition wait_not_full :: "bool \<Rightarrow> bool \<Rightarrow> nat \<Rightarrow> intq \<Rightarrow> intq option" where
  "wait_not_full off ctx cur q = do {
     kassert (\<not> ctx);
     kassert off;
     full \<leftarrow> intq_full off q;
     kassert full;
     Some (q\<lparr>not_full := cur\<rparr>)
   }"

definition signal_not_full :: "bool \<Rightarrow> intq \<Rightarrow> (nat list \<times> intq) option" where
  "signal_not_full off q = do {
     kassert off;
     full \<leftarrow> intq_full off q;
     kassert (\<not> full);
     Some (if not_full q \<noteq> 0 then ([not_full q], q\<lparr>not_full := 0\<rparr>) else ([], q))
   }"

definition signal_not_empty :: "bool \<Rightarrow> intq \<Rightarrow> (nat list \<times> intq) option" where
  "signal_not_empty off q = do {
     kassert off;
     empty \<leftarrow> intq_empty off q;
     kassert (\<not> empty);
     Some (if not_empty q \<noteq> 0 then ([not_empty q], q\<lparr>not_empty := 0\<rparr>) else ([], q))
   }"

text \<open>
  \<open>lock_acquire\<close> on the queue's lock: the loop of \<open>sema_down\<close> is left with the lock (\<open>True\<close>), or the thread
  goes to sleep on the semaphore, after which the loop is tested again; and \<open>lock_release\<close> with its \<open>sema_up\<close>.
\<close>

definition qlock_down :: "nat \<Rightarrow> intq \<Rightarrow> bool \<times> intq" where
  "qlock_down cur q =
     (if lock_value q = 0 then (False, q\<lparr>lock_waiters := lock_waiters q @ [cur]\<rparr>)
      else (True, q\<lparr>lock_value := lock_value q - 1, lock_holder := cur\<rparr>))"

definition qlock_release :: "nat \<Rightarrow> intq \<Rightarrow> (nat list \<times> intq) option" where
  "qlock_release cur q = do {
     kassert (lock_holder q = cur);
     Some (take 1 (lock_waiters q),
       q\<lparr>lock_holder := 0, lock_value := lock_value q + 1, lock_waiters := drop 1 (lock_waiters q)\<rparr>)
   }"

text \<open>The rest of the loop body from the call of \<open>sema_down\<close> on, up to the sleep in \<open>wait\<close>.\<close>

definition getc_lock :: "bool \<Rightarrow> bool \<Rightarrow> nat \<Rightarrow> nat list \<Rightarrow> intq \<Rightarrow> u8 outcome option" where
  "getc_lock off ctx cur woken q =
     (let (got, q1) = qlock_down cur q in
      if \<not> got then Some (Sleep Locking q1 woken)
      else do { q2 \<leftarrow> wait_not_empty off ctx cur q1; Some (Sleep Waiting q2 woken) })"

definition getc_loop :: "bool \<Rightarrow> bool \<Rightarrow> nat \<Rightarrow> nat list \<Rightarrow> intq \<Rightarrow> u8 outcome option" where
  "getc_loop off ctx cur woken q = do {
     empty \<leftarrow> intq_empty off q;
     (if empty then do {
        kassert (\<not> ctx);
        kassert (lock_holder q \<noteq> cur);
        getc_lock off ctx cur woken q
      } else do {
        kassert (tail q < length (buf q));
        let byte = buf q ! tail q;
        (w, q') \<leftarrow> signal_not_full off (q\<lparr>tail := next_pos (tail q)\<rparr>);
        Some (Done byte q' (woken @ w))
      })
   }"

definition intq_getc :: "bool \<Rightarrow> bool \<Rightarrow> nat \<Rightarrow> stage \<Rightarrow> intq \<Rightarrow> u8 outcome option" where
  "intq_getc off ctx cur stage q =
     (case stage of
        Enter \<Rightarrow> do { kassert off; getc_loop off ctx cur [] q }
      | Locking \<Rightarrow> getc_lock off ctx cur [] q
      | Waiting \<Rightarrow> do { (w, q1) \<leftarrow> qlock_release cur q; getc_loop off ctx cur w q1 })"

definition putc_lock :: "bool \<Rightarrow> bool \<Rightarrow> nat \<Rightarrow> nat list \<Rightarrow> intq \<Rightarrow> unit outcome option" where
  "putc_lock off ctx cur woken q =
     (let (got, q1) = qlock_down cur q in
      if \<not> got then Some (Sleep Locking q1 woken)
      else do { q2 \<leftarrow> wait_not_full off ctx cur q1; Some (Sleep Waiting q2 woken) })"

definition putc_loop :: "bool \<Rightarrow> bool \<Rightarrow> nat \<Rightarrow> u8 \<Rightarrow> nat list \<Rightarrow> intq \<Rightarrow> unit outcome option" where
  "putc_loop off ctx cur byte woken q = do {
     full \<leftarrow> intq_full off q;
     (if full then do {
        kassert (\<not> ctx);
        kassert (lock_holder q \<noteq> cur);
        putc_lock off ctx cur woken q
      } else do {
        kassert (head q < length (buf q));
        (w, q') \<leftarrow> signal_not_empty off (q\<lparr>buf := (buf q)[head q := byte], head := next_pos (head q)\<rparr>);
        Some (Done () q' (woken @ w))
      })
   }"

definition intq_putc :: "bool \<Rightarrow> bool \<Rightarrow> nat \<Rightarrow> u8 \<Rightarrow> stage \<Rightarrow> intq \<Rightarrow> unit outcome option" where
  "intq_putc off ctx cur byte stage q =
     (case stage of
        Enter \<Rightarrow> do { kassert off; putc_loop off ctx cur byte [] q }
      | Locking \<Rightarrow> putc_lock off ctx cur [] q
      | Waiting \<Rightarrow> do { (w, q1) \<leftarrow> qlock_release cur q; putc_loop off ctx cur byte w q1 })"

section \<open>The bytes in the ring\<close>

definition ring_count :: "intq \<Rightarrow> nat" where
  "ring_count q = (head q + 64 - tail q) mod 64"

definition ring :: "intq \<Rightarrow> u8 list" where
  "ring q = map (\<lambda>i. buf q ! ((tail q + i) mod 64)) [0..<ring_count q]"

definition intq_wf :: "intq \<Rightarrow> bool" where
  "intq_wf q \<longleftrightarrow> length (buf q) = 64 \<and> head q < 64 \<and> tail q < 64"

lemma length_ring: "length (ring q) = ring_count q"
  by (simp add: ring_def)

lemma nth_ring: "i < ring_count q \<Longrightarrow> ring q ! i = buf q ! ((tail q + i) mod 64)"
  by (simp add: ring_def)

lemma ring_count_bound: "ring_count q \<le> 63"
  by (simp add: ring_count_def)

lemma head_eq: "intq_wf q \<Longrightarrow> head q = (tail q + ring_count q) mod 64"
  unfolding intq_wf_def ring_count_def by (simp add: mod_add_right_eq)

lemma empty_iff: "intq_wf q \<Longrightarrow> head q = tail q \<longleftrightarrow> ring q = []"
  unfolding ring_def intq_wf_def ring_count_def
  by (auto simp: mod_if split: if_splits)

lemma full_iff: "intq_wf q \<Longrightarrow> next_pos (head q) = tail q \<longleftrightarrow> length (ring q) = 63"
  unfolding next_pos_def INTQ_BUFSIZE_def ring_def intq_wf_def ring_count_def
  by (auto simp: mod_if split: if_splits)

lemma put_count:
  assumes "intq_wf q" "next_pos (head q) \<noteq> tail q"
  shows "ring_count (q\<lparr>buf := b, head := next_pos (head q)\<rparr>) = ring_count q + 1"
  using assms unfolding next_pos_def INTQ_BUFSIZE_def intq_wf_def ring_count_def
  by (auto simp: mod_if split: if_splits)

lemma ring_put:
  assumes "intq_wf q" "next_pos (head q) \<noteq> tail q"
  shows "ring (q\<lparr>buf := (buf q)[head q := x], head := next_pos (head q)\<rparr>) = ring q @ [x]"
proof (rule nth_equalityI)
  let ?q = "q\<lparr>buf := (buf q)[head q := x], head := next_pos (head q)\<rparr>"
  have c: "ring_count ?q = ring_count q + 1" by (rule put_count [OF assms])
  have lt: "ring_count q < 63" using assms full_iff [OF assms(1)] ring_count_bound [of q] by (simp add: ring_def)
  show "length (ring ?q) = length (ring q @ [x])" by (simp add: ring_def c)
  fix i assume i: "i < length (ring ?q)"
  then have i': "i \<le> ring_count q" by (simp add: ring_def c)
  have w: "length (buf q) = 64" "head q < 64" "tail q < 64" using assms(1) by (simp_all add: intq_wf_def)
  show "ring ?q ! i = (ring q @ [x]) ! i"
  proof (cases "i = ring_count q")
    case True
    then have "(tail q + i) mod 64 = head q" using head_eq [OF assms(1)] by simp
    then show ?thesis using w True nth_ring [of i ?q] by (simp add: c nth_append length_ring)
  next
    case False
    then have "i < ring_count q" using i' by simp
    moreover have "(tail q + i) mod 64 \<noteq> head q"
    proof
      assume "(tail q + i) mod 64 = head q"
      then have "(tail q + i) mod 64 = (tail q + ring_count q) mod 64" using head_eq [OF assms(1)] by simp
      then show False using \<open>i < ring_count q\<close> lt w(3) by (auto simp: mod_if split: if_splits)
    qed
    ultimately show ?thesis using w by (simp add: ring_def c nth_append)
  qed
qed

lemma ring_get:
  assumes "intq_wf q" "ring q = x # xs"
  shows "buf q ! tail q = x" "ring (q\<lparr>tail := next_pos (tail q)\<rparr>) = xs"
    "next_pos (head q) \<noteq> next_pos (tail q)"
proof -
  have w: "length (buf q) = 64" "head q < 64" "tail q < 64" using assms(1) by (simp_all add: intq_wf_def)
  have len: "length (ring q) = ring_count q" by (simp add: ring_def)
  have pos: "0 < ring_count q" using assms(2) len by (cases "ring_count q") auto
  have c: "ring_count (q\<lparr>tail := next_pos (tail q)\<rparr>) = ring_count q - 1"
    using pos w unfolding next_pos_def INTQ_BUFSIZE_def ring_count_def by (auto simp: mod_if split: if_splits)
  have nth: "ring q ! i = buf q ! ((tail q + i) mod 64)" if "i < ring_count q" for i
    using that by (simp add: ring_def)
  show "buf q ! tail q = x" using nth [of 0] pos assms(2) w by simp
  show r: "ring (q\<lparr>tail := next_pos (tail q)\<rparr>) = xs"
  proof (rule nth_equalityI)
    show "length (ring (q\<lparr>tail := next_pos (tail q)\<rparr>)) = length xs"
      using len assms(2) by (simp add: length_ring c)
    fix i assume "i < length (ring (q\<lparr>tail := next_pos (tail q)\<rparr>))"
    then have i: "i + 1 < ring_count q" "i < ring_count q - 1" by (simp_all add: ring_def c)
    have "((tail q + 1) mod 64 + i) mod 64 = (tail q + (i + 1)) mod 64" by (simp add: mod_simps)
    then show "ring (q\<lparr>tail := next_pos (tail q)\<rparr>) ! i = xs ! i"
      using i(2) nth [OF i(1)] assms(2) nth_ring [of i "q\<lparr>tail := next_pos (tail q)\<rparr>"]
      unfolding c by (simp add: next_pos_def INTQ_BUFSIZE_def)
  qed
  have "intq_wf (q\<lparr>tail := next_pos (tail q)\<rparr>)"
    using assms(1) by (simp add: intq_wf_def next_pos_def INTQ_BUFSIZE_def)
  then show "next_pos (head q) \<noteq> next_pos (tail q)"
    using full_iff [of "q\<lparr>tail := next_pos (tail q)\<rparr>"] r len assms(2) ring_count_bound [of q] by simp
qed

lemma intq_tests [simp]:
  "intq_empty True q = Some (head q = tail q)" "intq_full True q = Some (next_pos (head q) = tail q)"
  by (simp_all add: intq_empty_def intq_full_def)

lemma ring_waiters [simp]:
  "ring (q\<lparr>not_full := a\<rparr>) = ring q" "ring (q\<lparr>not_empty := a\<rparr>) = ring q" "ring (q\<lparr>lock_holder := a\<rparr>) = ring q"
  "ring (q\<lparr>lock_value := a\<rparr>) = ring q" "ring (q\<lparr>lock_waiters := ws\<rparr>) = ring q"
  "intq_wf (q\<lparr>not_full := a\<rparr>) = intq_wf q" "intq_wf (q\<lparr>not_empty := a\<rparr>) = intq_wf q"
  "intq_wf (q\<lparr>lock_holder := a\<rparr>) = intq_wf q" "intq_wf (q\<lparr>lock_value := a\<rparr>) = intq_wf q"
  "intq_wf (q\<lparr>lock_waiters := ws\<rparr>) = intq_wf q"
  by (simp_all add: ring_def ring_count_def intq_wf_def)

section \<open>The lock and the waiting threads\<close>

text \<open>
  The lock is free or has one holder; a thread stored as waiting holds the lock, and what it waits for
  has not happened.
\<close>

definition intq_inv :: "intq \<Rightarrow> bool" where
  "intq_inv q \<longleftrightarrow> intq_wf q \<and> lock_value q = (if lock_holder q = 0 then 1 else 0) \<and>
     (not_empty q \<noteq> 0 \<longrightarrow> lock_holder q = not_empty q \<and> ring q = []) \<and>
     (not_full q \<noteq> 0 \<longrightarrow> lock_holder q = not_full q \<and> length (ring q) = 63)"

text \<open>A thread that comes back from \<open>wait\<close> holds the lock and has been taken off; the others do not hold it.\<close>

definition stage_ok :: "bool \<Rightarrow> nat \<Rightarrow> stage \<Rightarrow> intq \<Rightarrow> bool" where
  "stage_ok ctx cur stage q \<longleftrightarrow> cur \<noteq> 0 \<and>
     (case stage of
        Enter \<Rightarrow> ctx \<or> lock_holder q \<noteq> cur
      | Locking \<Rightarrow> \<not> ctx \<and> lock_holder q \<noteq> cur
      | Waiting \<Rightarrow> \<not> ctx \<and> lock_holder q = cur \<and> not_empty q = 0 \<and> not_full q = 0)"

text \<open>The queue with which the loop is entered, and the thread that is woken before.\<close>

definition entered :: "stage \<Rightarrow> intq \<Rightarrow> intq" where
  "entered stage q =
     (if stage = Waiting then q\<lparr>lock_holder := 0, lock_value := 1, lock_waiters := drop 1 (lock_waiters q)\<rparr> else q)"

definition let_in :: "stage \<Rightarrow> intq \<Rightarrow> nat list" where
  "let_in stage q = (if stage = Waiting then take 1 (lock_waiters q) else [])"

text \<open>Going to sleep: as the waiting thread, with the lock, if that is free, on the lock otherwise.\<close>

definition sleeps :: "(intq \<Rightarrow> intq) \<Rightarrow> nat \<Rightarrow> intq \<Rightarrow> nat list \<Rightarrow> 'a outcome" where
  "sleeps set_waiter cur q woken =
     (if lock_holder q = 0 then Sleep Waiting (set_waiter (q\<lparr>lock_value := 0, lock_holder := cur\<rparr>)) woken
      else Sleep Locking (q\<lparr>lock_waiters := lock_waiters q @ [cur]\<rparr>) woken)"

definition waiter :: "nat \<Rightarrow> nat list" where
  "waiter t = (if t \<noteq> 0 then [t] else [])"

lemma entered_ring [simp]: "ring (entered stage q) = ring q" "not_full (entered stage q) = not_full q"
  "not_empty (entered stage q) = not_empty q"
  by (simp_all add: entered_def)

lemma entered_inv: "intq_inv q \<Longrightarrow> stage_ok ctx cur stage q \<Longrightarrow> intq_inv (entered stage q)"
  by (cases stage) (auto simp: intq_inv_def stage_ok_def entered_def)

lemma entered_holder: "stage_ok ctx cur stage q \<Longrightarrow> ctx \<or> lock_holder (entered stage q) \<noteq> cur"
  by (cases stage) (auto simp: stage_ok_def entered_def)

lemma intq_putc_enter:
  assumes "intq_inv q" "stage_ok ctx cur stage q" "stage \<noteq> Locking"
  shows "intq_putc True ctx cur x stage q = putc_loop True ctx cur x (let_in stage q) (entered stage q)"
    "intq_getc True ctx cur stage q = getc_loop True ctx cur (let_in stage q) (entered stage q)"
  using assms
  by (cases stage; auto simp: intq_putc_def intq_getc_def stage_ok_def entered_def let_in_def qlock_release_def intq_inv_def)+

lemma putc_lock_ok:
  assumes "intq_inv q" "cur \<noteq> 0" "lock_holder q = 0 \<or> lock_holder q \<noteq> cur"
  shows "putc_lock True False cur w q =
      (if lock_holder q = 0 \<and> length (ring q) < 63 then None else Some (sleeps (not_full_update (\<lambda>_. cur)) cur q w))"
    "getc_lock True False cur w q =
      (if lock_holder q = 0 \<and> ring q \<noteq> [] then None else Some (sleeps (not_empty_update (\<lambda>_. cur)) cur q w))"
proof -
  have wf: "intq_wf q" using assms(1) by (simp add: intq_inv_def)
  have "length (ring q) \<le> 63" using ring_count_bound by (simp add: length_ring)
  then show "putc_lock True False cur w q =
      (if lock_holder q = 0 \<and> length (ring q) < 63 then None else Some (sleeps (not_full_update (\<lambda>_. cur)) cur q w))"
    "getc_lock True False cur w q =
      (if lock_holder q = 0 \<and> ring q \<noteq> [] then None else Some (sleeps (not_empty_update (\<lambda>_. cur)) cur q w))"
    using assms full_iff [OF wf] empty_iff [OF wf]
    by (auto simp: putc_lock_def getc_lock_def qlock_down_def wait_not_full_def wait_not_empty_def sleeps_def intq_inv_def)
qed

fun queue_of :: "'a outcome \<Rightarrow> intq" where
  "queue_of (Sleep st q w) = q"
| "queue_of (Done x q w) = q"

lemma sleeps_inv:
  assumes "intq_inv q" "cur \<noteq> 0"
  shows "length (ring q) = 63 \<Longrightarrow> intq_inv (queue_of (sleeps (not_full_update (\<lambda>_. cur)) cur q w))"
    "ring q = [] \<Longrightarrow> intq_inv (queue_of (sleeps (not_empty_update (\<lambda>_. cur)) cur q w))"
    "lock_holder q \<noteq> 0 \<Longrightarrow> intq_inv (queue_of (sleeps f cur q w))"
  using assms by (auto simp: sleeps_def intq_inv_def)

lemma putc_loop_ok:
  assumes "intq_inv q" "cur \<noteq> 0" "ctx \<or> lock_holder q \<noteq> cur"
  shows "if length (ring q) < 63
    then \<exists>q'. putc_loop True ctx cur x w q = Some (Done () q' (w @ waiter (not_empty q))) \<and> intq_inv q' \<and> ring q' = ring q @ [x] \<and>
      lock_holder q' = lock_holder q \<and> lock_waiters q' = lock_waiters q \<and> not_empty q' = 0 \<and> not_full q' = not_full q
    else putc_loop True ctx cur x w q = (if ctx then None else Some (sleeps (not_full_update (\<lambda>_. cur)) cur q w))"
proof (cases "length (ring q) < 63")
  case True
  have wf: "intq_wf q" using assms(1) by (simp add: intq_inv_def)
  have nf: "next_pos (head q) \<noteq> tail q" using full_iff [OF wf] True by simp
  let ?q = "q\<lparr>buf := (buf q)[head q := x], head := next_pos (head q)\<rparr>"
  have r: "ring ?q = ring q @ [x]" by (rule ring_put [OF wf nf])
  have wf': "intq_wf ?q" using wf by (simp add: intq_wf_def next_pos_def INTQ_BUFSIZE_def)
  have ne: "next_pos (head q) \<noteq> tail q" using empty_iff [OF wf'] r by simp
  have hb: "head q < length (buf q)" using wf by (simp add: intq_wf_def)
  have nz: "not_full q = 0" using assms(1) True by (auto simp: intq_inv_def)
  let ?q' = "?q\<lparr>not_empty := 0\<rparr>"
  have "putc_loop True ctx cur x w q = Some (Done () ?q' (w @ waiter (not_empty q)))"
    using nf ne hb by (simp add: putc_loop_def signal_not_empty_def waiter_def)
  moreover have "intq_inv ?q'" using assms(1) wf' nz by (simp add: intq_inv_def)
  ultimately show ?thesis using True r by (intro if_P [THEN iffD2] exI [of _ ?q']) simp_all
next
  case False
  have wf: "intq_wf q" using assms(1) by (simp add: intq_inv_def)
  have f: "next_pos (head q) = tail q" using False full_iff [OF wf] ring_count_bound [of q] by (simp add: length_ring)
  show ?thesis using f False assms(3) putc_lock_ok(1) [OF assms(1,2), of w] by (cases ctx) (auto simp: putc_loop_def)
qed

lemma getc_loop_ok:
  assumes "intq_inv q" "cur \<noteq> 0" "ctx \<or> lock_holder q \<noteq> cur"
  shows "case ring q of
      [] \<Rightarrow> getc_loop True ctx cur w q = (if ctx then None else Some (sleeps (not_empty_update (\<lambda>_. cur)) cur q w))
    | b # bs \<Rightarrow> \<exists>q'. getc_loop True ctx cur w q = Some (Done b q' (w @ waiter (not_full q))) \<and> intq_inv q' \<and> ring q' = bs \<and>
        lock_holder q' = lock_holder q \<and> lock_waiters q' = lock_waiters q \<and> not_full q' = 0 \<and> not_empty q' = not_empty q"
proof (cases "ring q")
  case Nil
  have wf: "intq_wf q" using assms(1) by (simp add: intq_inv_def)
  show ?thesis using Nil empty_iff [OF wf] assms(3) putc_lock_ok(2) [OF assms(1,2), of w]
    by (cases ctx) (auto simp: getc_loop_def)
next
  case (Cons b bs)
  have wf: "intq_wf q" using assms(1) by (simp add: intq_inv_def)
  have ne: "head q \<noteq> tail q" "tail q < length (buf q)" using Cons empty_iff [OF wf] wf by (simp_all add: intq_wf_def)
  note r = ring_get [OF wf Cons]
  have wf': "intq_wf (q\<lparr>tail := next_pos (tail q)\<rparr>)" using wf by (simp add: intq_wf_def next_pos_def INTQ_BUFSIZE_def)
  have nz: "not_empty q = 0" using assms(1) Cons by (auto simp: intq_inv_def)
  let ?q' = "q\<lparr>tail := next_pos (tail q), not_full := 0\<rparr>"
  have "getc_loop True ctx cur w q = Some (Done b ?q' (w @ waiter (not_full q)))"
    using ne r(1,3) by (simp add: getc_loop_def signal_not_full_def waiter_def)
  moreover have "intq_inv ?q'" using assms(1) wf' nz by (simp add: intq_inv_def)
  moreover have "ring ?q' = bs" using r(2) by simp
  ultimately show ?thesis unfolding Cons by (intro list.case(2) [THEN iffD2] exI [of _ ?q']) simp_all
qed

section \<open>The queue contract\<close>

definition putc_nb :: "u8 \<Rightarrow> intq \<Rightarrow> intq option" where
  "putc_nb x q = (case intq_putc True True 1 x Enter q of Some (Done _ q' _) \<Rightarrow> Some q' | _ \<Rightarrow> None)"

definition getc_nb :: "intq \<Rightarrow> (u8 \<times> intq) option" where
  "getc_nb q = (case intq_getc True True 1 Enter q of Some (Done x q' _) \<Rightarrow> Some (x, q') | _ \<Rightarrow> None)"

interpretation intq_fifo: fifo "\<lambda>q xs. intq_inv q \<and> ring q = xs" "\<lambda>x xs. length xs < 63" putc_nb getc_nb
proof (unfold_locales, goal_cases)
  case (1 q xs x)
  then show ?case using putc_loop_ok [of q 1 True x "[]"] by (auto simp: putc_nb_def intq_putc_def)
next
  case (2 q x xs)
  then show ?case using getc_loop_ok [of q 1 True "[]"] by (auto simp: getc_nb_def intq_getc_def)
next
  case (3 q)
  then show ?case using getc_loop_ok [of q 1 True "[]"] by (auto simp: getc_nb_def intq_getc_def)
qed

lemma room_bytes: "length xs + length ys \<le> 63 \<Longrightarrow> room_for (\<lambda>x xs. length xs < 63) ys xs"
  by (induction ys arbitrary: xs) auto

section \<open>Properties\<close>

lemma intq_putc_inv:
  assumes "intq_inv q" "stage_ok ctx cur stage q" "intq_putc True ctx cur x stage q = Some r"
  shows "intq_inv (queue_of r)"
proof (cases "stage = Locking")
  case True
  then have l: "putc_lock True False cur [] q = Some r" "cur \<noteq> 0" "lock_holder q \<noteq> cur"
    using assms(2,3) by (auto simp: stage_ok_def intq_putc_def)
  then have r: "r = sleeps (not_full_update (\<lambda>_. cur)) cur q []" "\<not> (lock_holder q = 0 \<and> length (ring q) < 63)"
    using putc_lock_ok(1) [OF assms(1), of cur "[]"] by (auto split: if_splits)
  have "length (ring q) \<le> 63" using ring_count_bound by (simp add: length_ring)
  then have "length (ring q) = 63 \<or> lock_holder q \<noteq> 0" using r(2) by linarith
  then show ?thesis using sleeps_inv(1,3) [OF assms(1) l(2)] r(1) by auto
next
  case False
  let ?q = "entered stage q" and ?w = "let_in stage q"
  note i = entered_inv [OF assms(1,2)] and h = entered_holder [OF assms(2)]
  have c: "cur \<noteq> 0" using assms(2) by (simp add: stage_ok_def)
  have e: "putc_loop True ctx cur x ?w ?q = Some r" using assms(3) intq_putc_enter(1) [OF assms(1,2) False] by simp
  show ?thesis
  proof (cases "length (ring q) < 63")
    case True
    then show ?thesis using putc_loop_ok [OF i c h, of x ?w] e by auto
  next
    case full: False
    then have f: "length (ring ?q) = 63" using ring_count_bound [of q] by (simp add: length_ring)
    then have "r = sleeps (not_full_update (\<lambda>_. cur)) cur ?q ?w" using putc_loop_ok [OF i c h, of x ?w] e by (auto split: if_splits)
    then show ?thesis using sleeps_inv(1) [OF i c f, of ?w] by auto
  qed
qed

lemma intq_getc_inv:
  assumes "intq_inv q" "stage_ok ctx cur stage q" "intq_getc True ctx cur stage q = Some r"
  shows "intq_inv (queue_of r)"
proof (cases "stage = Locking")
  case True
  then have l: "getc_lock True False cur [] q = Some r" "cur \<noteq> 0" "lock_holder q \<noteq> cur"
    using assms(2,3) by (auto simp: stage_ok_def intq_getc_def)
  then have r: "r = sleeps (not_empty_update (\<lambda>_. cur)) cur q []" "ring q = [] \<or> lock_holder q \<noteq> 0"
    using putc_lock_ok(2) [OF assms(1), of cur "[]"] by (auto split: if_splits)
  then show ?thesis using sleeps_inv(2,3) [OF assms(1) l(2)] by auto
next
  case False
  let ?q = "entered stage q" and ?w = "let_in stage q"
  note i = entered_inv [OF assms(1,2)] and h = entered_holder [OF assms(2)]
  have c: "cur \<noteq> 0" using assms(2) by (simp add: stage_ok_def)
  have e: "getc_loop True ctx cur ?w ?q = Some r" using assms(3) intq_putc_enter(2) [OF assms(1,2) False] by simp
  show ?thesis
  proof (cases "ring q")
    case Cons
    then show ?thesis using getc_loop_ok [OF i c h, of ?w] e by auto
  next
    case Nil
    then have f: "ring ?q = []" by simp
    then have "r = sleeps (not_empty_update (\<lambda>_. cur)) cur ?q ?w" using getc_loop_ok [OF i c h, of ?w] e by (auto split: if_splits)
    then show ?thesis using sleeps_inv(2) [OF i c f, of ?w] by auto
  qed
qed

lemma intq_init_inv: "length garbage = 64 \<Longrightarrow> intq_inv (intq_init garbage)"
  by (simp add: intq_inv_def intq_wf_def intq_init_def)

text \<open>
  C38. The interrupt queue is a first-in, first-out queue of at most 63 bytes. With interrupts off, a put appends
  a byte and a get takes the oldest byte, and each wakes the thread that waits on the other side, if any. A put on
  a full queue and a get on an empty queue panic in an interrupt handler; elsewhere the caller becomes the waiting
  thread, and holds the lock, if the lock is free, and goes to sleep on the lock otherwise, so a thread that is
  waiting is never replaced; a thread that comes back from its wait first releases the lock, which lets in the
  first thread asleep on it. Every outcome keeps the invariant that the waiting thread holds the lock. But a thread
  that gets the lock after sleeping on it does not test the queue again: if the queue is no longer full (for a get:
  no longer empty) it fails the assertion of \<open>wait\<close>. Bytes put within the capacity come out in order. With
  interrupts on a call panics.
\<close>

theorem intq_is_bounded_fifo:
  assumes "intq_inv q" "stage_ok ctx cur stage q"
  shows "(stage \<noteq> Locking \<longrightarrow>
      (if length (ring q) < 63
       then \<exists>q'. intq_putc True ctx cur x stage q = Some (Done () q' (let_in stage q @ waiter (not_empty q))) \<and>
         ring q' = ring q @ [x] \<and> not_empty q' = 0 \<and> not_full q' = not_full q \<and>
         lock_holder q' = lock_holder (entered stage q) \<and> lock_waiters q' = lock_waiters (entered stage q)
       else intq_putc True ctx cur x stage q =
         (if ctx then None else Some (sleeps (not_full_update (\<lambda>_. cur)) cur (entered stage q) (let_in stage q)))) \<and>
      (case ring q of
         [] \<Rightarrow> intq_getc True ctx cur stage q =
           (if ctx then None else Some (sleeps (not_empty_update (\<lambda>_. cur)) cur (entered stage q) (let_in stage q)))
       | b # bs \<Rightarrow> \<exists>q'. intq_getc True ctx cur stage q = Some (Done b q' (let_in stage q @ waiter (not_full q))) \<and>
           ring q' = bs \<and> not_full q' = 0 \<and> not_empty q' = not_empty q \<and>
           lock_holder q' = lock_holder (entered stage q) \<and> lock_waiters q' = lock_waiters (entered stage q))) \<and>
    (stage = Locking \<longrightarrow>
      intq_putc True ctx cur x stage q =
        (if lock_holder q = 0 \<and> length (ring q) < 63 then None else Some (sleeps (not_full_update (\<lambda>_. cur)) cur q [])) \<and>
      intq_getc True ctx cur stage q =
        (if lock_holder q = 0 \<and> ring q \<noteq> [] then None else Some (sleeps (not_empty_update (\<lambda>_. cur)) cur q []))) \<and>
    (\<forall>r. intq_putc True ctx cur x stage q = Some r \<longrightarrow> intq_inv (queue_of r)) \<and>
    (\<forall>r. intq_getc True ctx cur stage q = Some r \<longrightarrow> intq_inv (queue_of r)) \<and>
    (lock_holder (entered stage q) = 0 \<longrightarrow> not_full q = 0 \<and> not_empty q = 0) \<and>
    intq_putc False ctx cur x Enter q = None \<and> intq_getc False ctx cur Enter q = None \<and>
    (\<forall>ys. length (ring q) + length ys \<le> 63 \<longrightarrow>
       (\<exists>q1 q2. put_all putc_nb ys q = Some q1 \<and>
          take_n getc_nb (length (ring q) + length ys) q1 = Some (ring q @ ys, q2) \<and> ring q2 = []))"
proof (intro conjI allI impI, goal_cases)
  case 1
  show ?case
    using putc_loop_ok [OF entered_inv [OF assms] _ entered_holder [OF assms(2)], of x "let_in stage q"]
      intq_putc_enter(1) [OF assms 1] assms(2) by (auto simp: stage_ok_def)
next
  case 2
  show ?case
    using getc_loop_ok [OF entered_inv [OF assms] _ entered_holder [OF assms(2)], of "let_in stage q"]
      intq_putc_enter(2) [OF assms 2] assms(2) by (cases "ring q") (auto simp: stage_ok_def)
next
  case 3
  then show ?case using putc_lock_ok(1) [OF assms(1), of cur "[]"] assms(2) by (simp add: intq_putc_def stage_ok_def)
next
  case 4
  then show ?case using putc_lock_ok(2) [OF assms(1), of cur "[]"] assms(2) by (simp add: intq_getc_def stage_ok_def)
next
  case (5 r)
  then show ?case by (rule intq_putc_inv [OF assms])
next
  case (6 r)
  then show ?case by (rule intq_getc_inv [OF assms])
next
  case 7
  then show ?case using entered_inv [OF assms] by (auto simp: intq_inv_def)
next
  case 8
  then show ?case using entered_inv [OF assms] by (auto simp: intq_inv_def)
next
  case 9
  show ?case by (simp add: intq_putc_def)
next
  case 10
  show ?case by (simp add: intq_getc_def)
next
  case (11 ys)
  then show ?case using intq_fifo.fifo_order [of q "ring q" ys] room_bytes assms(1) by blast
qed

text \<open>
  Three bytes in order; and a run that panics: two threads call \<open>intq_getc\<close> on an empty queue, the first waits, the
  second sleeps on the lock; an interrupt handler puts two bytes before the first runs; the first lets the second in
  and takes one byte; the second finds the queue not empty.
\<close>

theorem intq_is_bounded_fifo_witness:
  "(\<exists>q1 q2. put_all putc_nb [1, 2, 3] (intq_init (replicate 64 0)) = Some q1 \<and>
     take_n getc_nb 3 q1 = Some ([1, 2, 3], q2)) \<and>
   (\<exists>q1 q2 q3 q4 q5. intq_getc True False 1 Enter (intq_init (replicate 64 0)) = Some (Sleep Waiting q1 []) \<and>
     intq_getc True False 2 Enter q1 = Some (Sleep Locking q2 []) \<and>
     intq_putc True True 1 7 Enter q2 = Some (Done () q3 [1]) \<and> intq_putc True True 1 8 Enter q3 = Some (Done () q4 []) \<and>
     intq_getc True False 1 Waiting q4 = Some (Done 7 q5 [2]) \<and> intq_getc True False 2 Locking q5 = None)"
proof
  have q: "intq_inv (intq_init (replicate 64 0))" "ring (intq_init (replicate 64 0)) = []"
    by (simp_all add: intq_init_inv) (simp add: intq_init_def ring_def ring_count_def)
  have st: "stage_ok False 1 Enter (intq_init (replicate 64 0))" by (simp add: stage_ok_def intq_init_def)
  show "\<exists>q1 q2. put_all putc_nb [1, 2, 3] (intq_init (replicate 64 0)) = Some q1 \<and>
     take_n getc_nb 3 q1 = Some ([1, 2, 3], q2)"
  proof -
    let ?q = "intq_init (replicate 64 0)"
    have "\<forall>ys. length (ring ?q) + length ys \<le> 63 \<longrightarrow> (\<exists>q1 q2. put_all putc_nb ys ?q = Some q1 \<and>
        take_n getc_nb (length (ring ?q) + length ys) q1 = Some (ring ?q @ ys, q2) \<and> ring q2 = [])"
      by (rule intq_is_bounded_fifo [OF q(1) st, of 0, THEN conjunct2, THEN conjunct2, THEN conjunct2, THEN conjunct2,
            THEN conjunct2, THEN conjunct2, THEN conjunct2])
    from this [rule_format, of "[1, 2, 3]"] show ?thesis unfolding q(2) by (simp add: numeral_3_eq_3 del: put_all.simps take_n.simps) blast
  qed
  show "\<exists>q1 q2 q3 q4 q5. intq_getc True False 1 Enter (intq_init (replicate 64 0)) = Some (Sleep Waiting q1 []) \<and>
     intq_getc True False 2 Enter q1 = Some (Sleep Locking q2 []) \<and>
     intq_putc True True 1 7 Enter q2 = Some (Done () q3 [1]) \<and> intq_putc True True 1 8 Enter q3 = Some (Done () q4 []) \<and>
     intq_getc True False 1 Waiting q4 = Some (Done 7 q5 [2]) \<and> intq_getc True False 2 Locking q5 = None"
    by (simp add: intq_init_def intq_getc_def getc_loop_def getc_lock_def qlock_down_def wait_not_empty_def intq_putc_def
        putc_loop_def signal_not_empty_def signal_not_full_def next_pos_def INTQ_BUFSIZE_def qlock_release_def Let_def)
qed

end
