(* ===== verification/Threads.thy ===== *)
theory Threads
  imports Prelude
begin

text \<open>
  Threads, the scheduler and the synchronization primitives: \<open>threads/thread.c\<close> and
  \<open>threads/synch.c\<close>. A thread is the address of its page. Every function of the code is one
  definition on the kernel state \<open>kern\<close>; \<open>None\<close> is a failed assertion or \<open>PANIC\<close>. The loop
  of \<open>sema_down\<close> sleeps in its body, so its body is a definition of its own. The step relation at
  the end runs threads that use these primitives and create other threads, interleaved as the code and the
  timer allow; a function that runs with interrupts on is as many steps as it has accesses to shared state.
\<close>

section \<open>The code: threads\<close>

datatype thread_status = THREAD_RUNNING | THREAD_READY | THREAD_BLOCKED | THREAD_DYING

datatype sched_policy = SCHED_FIFO | SCHED_PRIO | SCHED_FAIR | SCHED_MLFQS

definition THREAD_MAGIC :: u32 where "THREAD_MAGIC = 0xcd6abf4b"
definition TIME_SLICE :: nat where "TIME_SLICE = 4"
definition PRI_MIN :: int where "PRI_MIN = 0"
definition PRI_DEFAULT :: int where "PRI_DEFAULT = 31"
definition PRI_MAX :: int where "PRI_MAX = 63"
definition TID_ERROR :: int where "TID_ERROR = - 1"

record thread =
  tid :: int
  status :: thread_status
  tname :: string
  stack :: nat
  priority :: int
  pcb :: nat
  magic :: u32

datatype sem_id = Sem nat | Sem_of_lock nat

record semaphore =
  sval :: nat
  waiters :: "nat list"

record kern =
  thr :: "nat \<Rightarrow> thread option"
  fifo_ready_list :: "nat list"
  all_list :: "nat list"
  idle_thread :: nat
  initial_thread :: nat
  cur :: nat
  next_tid :: int
  policy :: sched_policy
  intr_on :: bool
  intr_ctx :: bool
  yield_on_return :: bool
  idle_ticks :: nat
  kernel_ticks :: nat
  user_ticks :: nat
  thread_ticks :: nat
  semas :: "sem_id \<Rightarrow> semaphore"
  holder :: "nat \<Rightarrow> nat"

definition status_of :: "kern \<Rightarrow> nat \<Rightarrow> thread_status option" where
  "status_of k t = map_option status (thr k t)"

definition set_status :: "nat \<Rightarrow> thread_status \<Rightarrow> kern \<Rightarrow> kern" where
  "set_status t x k = k\<lparr>thr := (thr k)(t := map_option (\<lambda>th. th\<lparr>status := x\<rparr>) (thr k t))\<rparr>"

definition is_thread :: "kern \<Rightarrow> nat \<Rightarrow> bool" where
  "is_thread k t \<longleftrightarrow> t \<noteq> 0 \<and> (case thr k t of None \<Rightarrow> False | Some th \<Rightarrow> magic th = THREAD_MAGIC)"

definition thread_current :: "kern \<Rightarrow> nat option" where
  "thread_current k = do {
     let t = cur k;
     kassert (is_thread k t);
     kassert (status_of k t = Some THREAD_RUNNING);
     Some t
   }"

definition init_thread :: "nat \<Rightarrow> string \<Rightarrow> int \<Rightarrow> kern \<Rightarrow> kern option" where
  "init_thread t name pri k = do {
     kassert (t \<noteq> 0);
     kassert (PRI_MIN \<le> pri \<and> pri \<le> PRI_MAX);
     Some (k\<lparr>thr := (thr k)(t \<mapsto> \<lparr>tid = 0, status = THREAD_BLOCKED, tname = take 15 name,
               stack = t + 4096, priority = pri, pcb = 0, magic = THREAD_MAGIC\<rparr>),
             all_list := all_list k @ [t]\<rparr>)
   }"

definition alloc_frame :: "nat \<Rightarrow> nat \<Rightarrow> kern \<Rightarrow> (nat \<times> kern) option" where
  "alloc_frame t n k = do {
     kassert (is_thread k t);
     kassert (n mod 4 = 0);
     let k' = k\<lparr>thr := (thr k)(t := map_option (\<lambda>th. th\<lparr>stack := stack th - n\<rparr>) (thr k t))\<rparr>;
     Some (case thr k' t of None \<Rightarrow> 0 | Some th \<Rightarrow> stack th, k')
   }"

definition set_tid :: "nat \<Rightarrow> int \<Rightarrow> kern \<Rightarrow> kern" where
  "set_tid t x k = k\<lparr>thr := (thr k)(t := map_option (\<lambda>th. th\<lparr>tid := x\<rparr>) (thr k t))\<rparr>"

definition thread_enqueue :: "nat \<Rightarrow> kern \<Rightarrow> kern option" where
  "thread_enqueue t k = do {
     kassert (\<not> intr_on k);
     kassert (is_thread k t);
     kassert (policy k = SCHED_FIFO);
     Some (k\<lparr>fifo_ready_list := fifo_ready_list k @ [t]\<rparr>)
   }"

definition thread_unblock :: "nat \<Rightarrow> kern \<Rightarrow> kern option" where
  "thread_unblock t k = do {
     kassert (is_thread k t);
     let old_level = intr_on k;
     let k1 = k\<lparr>intr_on := False\<rparr>;
     kassert (status_of k1 t = Some THREAD_BLOCKED);
     k2 \<leftarrow> thread_enqueue t k1;
     Some ((set_status t THREAD_READY k2)\<lparr>intr_on := old_level\<rparr>)
   }"

definition thread_schedule_fifo :: "kern \<Rightarrow> nat \<times> kern" where
  "thread_schedule_fifo k =
     (case fifo_ready_list k of
        t # ts \<Rightarrow> (t, k\<lparr>fifo_ready_list := ts\<rparr>)
      | [] \<Rightarrow> (idle_thread k, k))"

definition next_thread_to_run :: "kern \<Rightarrow> (nat \<times> kern) option" where
  "next_thread_to_run k =
     (case policy k of
        SCHED_FIFO \<Rightarrow> Some (thread_schedule_fifo k)
      | SCHED_PRIO \<Rightarrow> None
      | SCHED_FAIR \<Rightarrow> None
      | SCHED_MLFQS \<Rightarrow> None)"

definition thread_switch_tail :: "nat \<Rightarrow> kern \<Rightarrow> kern option" where
  "thread_switch_tail prev k = do {
     kassert (\<not> intr_on k);
     let k1 = (set_status (cur k) THREAD_RUNNING k)\<lparr>thread_ticks := 0\<rparr>;
     (if prev \<noteq> 0 \<and> status_of k1 prev = Some THREAD_DYING \<and> prev \<noteq> initial_thread k1
      then do { kassert (prev \<noteq> cur k); Some (k1\<lparr>thr := (thr k1)(prev := None)\<rparr>) }
      else Some k1)
   }"

definition schedule :: "kern \<Rightarrow> kern option" where
  "schedule k = do {
     (nxt, k1) \<leftarrow> next_thread_to_run k;
     kassert (\<not> intr_on k1);
     kassert (status_of k1 (cur k1) \<noteq> Some THREAD_RUNNING);
     kassert (is_thread k1 nxt);
     let prev = (if cur k1 \<noteq> nxt then cur k1 else 0);
     thread_switch_tail prev (k1\<lparr>cur := nxt\<rparr>)
   }"

definition thread_block :: "kern \<Rightarrow> kern option" where
  "thread_block k = do {
     kassert (\<not> intr_ctx k);
     kassert (\<not> intr_on k);
     t \<leftarrow> thread_current k;
     schedule (set_status t THREAD_BLOCKED k)
   }"

definition thread_yield :: "kern \<Rightarrow> kern option" where
  "thread_yield k = do {
     t \<leftarrow> thread_current k;
     kassert (\<not> intr_ctx k);
     let k1 = k\<lparr>intr_on := False\<rparr>;
     k2 \<leftarrow> (if t \<noteq> idle_thread k1 then thread_enqueue t k1 else Some k1);
     schedule (set_status t THREAD_READY k2)
   }"

definition thread_exit :: "kern \<Rightarrow> kern option" where
  "thread_exit k = do {
     kassert (\<not> intr_ctx k);
     let k1 = k\<lparr>intr_on := False\<rparr>;
     t \<leftarrow> thread_current k1;
     kassert (t \<in> set (all_list k1));
     schedule (set_status t THREAD_DYING (k1\<lparr>all_list := remove1 t (all_list k1)\<rparr>))
   }"

definition thread_tick :: "kern \<Rightarrow> kern option" where
  "thread_tick k = do {
     t \<leftarrow> thread_current k;
     let k1 = (if t = idle_thread k then k\<lparr>idle_ticks := idle_ticks k + 1\<rparr>
               else if (case thr k t of None \<Rightarrow> False | Some th \<Rightarrow> pcb th \<noteq> 0)
                    then k\<lparr>user_ticks := user_ticks k + 1\<rparr>
                    else k\<lparr>kernel_ticks := kernel_ticks k + 1\<rparr>);
     let k2 = k1\<lparr>thread_ticks := thread_ticks k1 + 1\<rparr>;
     Some (if thread_ticks k2 \<ge> TIME_SLICE then k2\<lparr>yield_on_return := True\<rparr> else k2)
   }"

definition thread_set_priority :: "int \<Rightarrow> kern \<Rightarrow> kern option" where
  "thread_set_priority p k = do {
     t \<leftarrow> thread_current k;
     Some (k\<lparr>thr := (thr k)(t := map_option (\<lambda>th. th\<lparr>priority := p\<rparr>) (thr k t))\<rparr>)
   }"

definition thread_get_priority :: "kern \<Rightarrow> int option" where
  "thread_get_priority k = do { t \<leftarrow> thread_current k; map_option priority (thr k t) }"

section \<open>The code: synchronization\<close>

definition set_sema :: "sem_id \<Rightarrow> semaphore \<Rightarrow> kern \<Rightarrow> kern" where
  "set_sema s x k = k\<lparr>semas := (semas k)(s := x)\<rparr>"

definition sema_init :: "sem_id \<Rightarrow> nat \<Rightarrow> kern \<Rightarrow> kern" where
  "sema_init s v k = set_sema s \<lparr>sval = v, waiters = []\<rparr> k"

text \<open>
  \<open>sema_down\<close> enters with \<open>sema_down_enter\<close>; each round of its loop is \<open>sema_down_iter\<close>,
  with interrupts off: \<open>Inr\<close> is the return, interrupts restored to \<open>old_level\<close>, and \<open>Inl\<close> says
  that the thread sleeps and will run the next round when it is scheduled again.
\<close>

definition sema_down_enter :: "kern \<Rightarrow> (bool \<times> kern) option" where
  "sema_down_enter k = do {
     kassert (\<not> intr_ctx k);
     Some (intr_on k, k\<lparr>intr_on := False\<rparr>)
   }"

definition sema_down_iter :: "sem_id \<Rightarrow> bool \<Rightarrow> kern \<Rightarrow> (kern + kern) option" where
  "sema_down_iter s old_level k =
     (if sval (semas k s) = 0 then do {
        t \<leftarrow> thread_current k;
        let k1 = set_sema s ((semas k s)\<lparr>waiters := waiters (semas k s) @ [t]\<rparr>) k;
        k2 \<leftarrow> thread_block k1;
        Some (Inl k2)
      } else
        Some (Inr ((set_sema s ((semas k s)\<lparr>sval := sval (semas k s) - 1\<rparr>) k)\<lparr>intr_on := old_level\<rparr>)))"

definition sema_try_down :: "sem_id \<Rightarrow> kern \<Rightarrow> bool \<times> kern" where
  "sema_try_down s k =
     (if sval (semas k s) > 0
      then (True, set_sema s ((semas k s)\<lparr>sval := sval (semas k s) - 1\<rparr>) k)
      else (False, k))"

definition sema_up :: "sem_id \<Rightarrow> kern \<Rightarrow> kern option" where
  "sema_up s k = do {
     let old_level = intr_on k;
     let k1 = k\<lparr>intr_on := False\<rparr>;
     k2 \<leftarrow> (case waiters (semas k1 s) of
               [] \<Rightarrow> Some k1
             | t # ts \<Rightarrow> thread_unblock t (set_sema s ((semas k1 s)\<lparr>waiters := ts\<rparr>) k1));
     Some ((set_sema s ((semas k2 s)\<lparr>sval := wrap32 (sval (semas k2 s) + 1)\<rparr>) k2)\<lparr>intr_on := old_level\<rparr>)
   }"

definition lock_init :: "nat \<Rightarrow> kern \<Rightarrow> kern" where
  "lock_init l k = sema_init (Sem_of_lock l) 1 (k\<lparr>holder := (holder k)(l := 0)\<rparr>)"

definition lock_held_by_current_thread :: "nat \<Rightarrow> kern \<Rightarrow> bool option" where
  "lock_held_by_current_thread l k = do { t \<leftarrow> thread_current k; Some (holder k l = t) }"

text \<open>
  \<open>lock_acquire\<close> is its assertions, \<open>sema_down\<close> on the semaphore of the lock and then
  \<open>lock_take\<close>; \<open>lock_release\<close> is \<open>lock_drop\<close> and then \<open>sema_up\<close>; after a \<open>lock_try_acquire\<close>
  that succeeds comes \<open>lock_take\<close>.
\<close>

definition lock_acquire_check :: "nat \<Rightarrow> kern \<Rightarrow> unit option" where
  "lock_acquire_check l k = do {
     kassert (\<not> intr_ctx k);
     h \<leftarrow> lock_held_by_current_thread l k;
     kassert (\<not> h)
   }"

definition lock_take :: "nat \<Rightarrow> kern \<Rightarrow> kern option" where
  "lock_take l k = do { t \<leftarrow> thread_current k; Some (k\<lparr>holder := (holder k)(l := t)\<rparr>) }"

definition lock_drop :: "nat \<Rightarrow> kern \<Rightarrow> kern option" where
  "lock_drop l k = do {
     h \<leftarrow> lock_held_by_current_thread l k;
     kassert h;
     Some (k\<lparr>holder := (holder k)(l := 0)\<rparr>)
   }"

definition lock_try_acquire :: "nat \<Rightarrow> kern \<Rightarrow> (bool \<times> kern) option" where
  "lock_try_acquire l k = do {
     h \<leftarrow> lock_held_by_current_thread l k;
     kassert (\<not> h);
     Some (sema_try_down (Sem_of_lock l) k)
   }"

section \<open>The code: new threads\<close>

text \<open>
  \<open>allocate_tid\<close> is \<open>lock_acquire\<close> on the lock \<open>tid_lock\<close>, then \<open>take_tid\<close>, then \<open>lock_release\<close>; \<open>tid_t\<close> is an
  \<open>int\<close>, whose overflow after \<open>2 ^ 31\<close> threads, undefined in C, is the wrap-around of the machine. At start-up, with interrupts off and the lock free, it runs at a stretch
  (\<open>allocate_tid\<close>); there is no other thread to switch to, and having to sleep is \<open>None\<close>. Once the system runs,
  the creation of a thread is a sequence of steps of the relation at the end, since the creator may be
  preempted, or sleep on \<open>tid_lock\<close>, between any two of them: \<open>init_thread\<close>, the steps of
  \<open>lock_acquire\<close>, \<open>take_tid\<close>, the steps of \<open>lock_release\<close>, \<open>create_frames\<close>, \<open>thread_unblock\<close>.
\<close>

definition tid_lock :: nat where "tid_lock = 0"

definition take_tid :: "kern \<Rightarrow> int \<times> kern" where
  "take_tid k = (next_tid k, k\<lparr>next_tid := to_s32 (next_tid k + 1)\<rparr>)"

definition allocate_tid :: "kern \<Rightarrow> (int \<times> kern) option" where
  "allocate_tid k = do {
     lock_acquire_check tid_lock k;
     (old_level, k1) \<leftarrow> sema_down_enter k;
     r \<leftarrow> sema_down_iter (Sem_of_lock tid_lock) old_level k1;
     (case r of
        Inl _ \<Rightarrow> None
      | Inr k2 \<Rightarrow> do {
          k3 \<leftarrow> lock_take tid_lock k2;
          let (new_tid, k4) = take_tid k3;
          k5 \<leftarrow> lock_drop tid_lock k4;
          k6 \<leftarrow> sema_up (Sem_of_lock tid_lock) k5;
          Some (new_tid, k6)
        })
   }"

definition create_frames :: "nat \<Rightarrow> int \<Rightarrow> kern \<Rightarrow> kern option" where
  "create_frames page new_tid k = do {
     (kf, k1) \<leftarrow> alloc_frame page 12 (set_tid page new_tid k);
     (ef, k2) \<leftarrow> alloc_frame page 4 k1;
     (sf, k3) \<leftarrow> alloc_frame page 28 k2;
     Some k3
   }"

text \<open>\<open>page\<close> is the result of \<open>palloc_get_page\<close>, 0 when there is no memory.\<close>

definition thread_create :: "nat \<Rightarrow> string \<Rightarrow> int \<Rightarrow> kern \<Rightarrow> (int \<times> kern) option" where
  "thread_create page name pri k =
     (if page = 0 then Some (TID_ERROR, k)
      else do {
        k1 \<leftarrow> init_thread page name pri k;
        (new_tid, k2) \<leftarrow> allocate_tid k1;
        k3 \<leftarrow> create_frames page new_tid k2;
        k4 \<leftarrow> thread_unblock page k3;
        Some (new_tid, k4)
      })"

definition thread_init :: "nat \<Rightarrow> kern \<Rightarrow> kern option" where
  "thread_init running k = do {
     kassert (\<not> intr_on k);
     let k1 = (lock_init tid_lock k)\<lparr>fifo_ready_list := [], all_list := []\<rparr>;
     let k2 = k1\<lparr>initial_thread := running, cur := running\<rparr>;
     k3 \<leftarrow> init_thread running ''main'' PRI_DEFAULT k2;
     let k4 = set_status running THREAD_RUNNING k3;
     (new_tid, k5) \<leftarrow> allocate_tid k4;
     Some (set_tid running new_tid k5)
   }"

section \<open>The code: the timer interrupt\<close>

text \<open>
  The part of \<open>intr_handler\<close> that concerns the scheduler, for the timer interrupt: the handler
  runs \<open>thread_tick\<close> in interrupt context; on the way out the running thread yields if asked to.
  \<open>True\<close> says that it did.
\<close>

definition timer_interrupt :: "kern \<Rightarrow> (bool \<times> kern) option" where
  "timer_interrupt k = do {
     kassert (intr_on k);
     kassert (\<not> intr_ctx k);
     k1 \<leftarrow> thread_tick (k\<lparr>intr_on := False, intr_ctx := True, yield_on_return := False\<rparr>);
     let k2 = k1\<lparr>intr_ctx := False\<rparr>;
     (if yield_on_return k2 then map_option (Pair True) (thread_yield k2)
      else Some (False, k2\<lparr>intr_on := True\<rparr>))
   }"

section \<open>Threads that use the primitives\<close>

text \<open>
  Where a thread is: \<open>Run\<close> between two calls; \<open>Start\<close> and \<open>Yielded p\<close> just before it turns
  interrupts on again in \<open>kernel_thread\<close> and after \<open>thread_yield\<close>, called at \<open>p\<close>; \<open>Down s c\<close> in
  the loop of \<open>sema_down\<close>, where \<open>c\<close> is the lock it is acquiring, if any; \<open>Take l\<close> after the
  semaphore of the lock has been got; \<open>Drop l\<close> before it is upped; \<open>Idle\<close> and \<open>Idle_woken\<close> in the
  loop of \<open>idle\<close>. The timer interrupt comes wherever interrupts are on, and so may the \<open>sema_up\<close> of
  another interrupt handler. A thread that is creating another one is, besides, at a point of
  \<open>thread_create\<close>: after \<open>init_thread\<close> (\<open>Inited\<close>), from \<open>lock_acquire\<close> on \<open>tid_lock\<close> to the reading of
  \<open>next_tid\<close> (\<open>Numbering\<close>), after that (\<open>Numbered\<close>), from \<open>lock_release\<close> to the stack frames (\<open>Unlocking\<close>),
  after these (\<open>Framed\<close>). Calls of its own, on other locks, it makes only outside (\<open>No_creation\<close>).
\<close>

datatype pc =
    Run | Start | Yielded pc | Down sem_id "nat option" | Take nat | Drop nat | Idle | Idle_woken

datatype creation =
    No_creation | Inited nat | Numbering nat | Numbered nat int | Unlocking nat int | Framed nat

record sys =
  kn :: kern
  pcs :: "nat \<Rightarrow> pc"
  mks :: "nat \<Rightarrow> creation"

definition at :: "sys \<Rightarrow> pc" where
  "at S = pcs S (cur (kn S))"

definition mk :: "sys \<Rightarrow> creation" where
  "mk S = mks S (cur (kn S))"

definition goto :: "pc \<Rightarrow> kern \<Rightarrow> sys \<Rightarrow> sys" where
  "goto p k S = \<lparr>kn = k, pcs = (pcs S)(cur (kn S) := p), mks = mks S\<rparr>"

definition creating :: "creation \<Rightarrow> pc \<Rightarrow> kern \<Rightarrow> sys \<Rightarrow> sys" where
  "creating m p k S = \<lparr>kn = k, pcs = (pcs S)(cur (kn S) := p), mks = (mks S)(cur (kn S) := m)\<rparr>"

definition calls :: "sys \<Rightarrow> bool" where
  "calls S \<longleftrightarrow> at S = Run \<and> mk S = No_creation"

inductive step :: "sys \<Rightarrow> sys \<Rightarrow> bool" where
  s_start: "at S = Start \<Longrightarrow> step S (goto Run ((kn S)\<lparr>intr_on := True\<rparr>) S)"
| s_yielded: "at S = Yielded p \<Longrightarrow> step S (goto p ((kn S)\<lparr>intr_on := True\<rparr>) S)"
| s_idle: "at S = Idle \<Longrightarrow> thread_block ((kn S)\<lparr>intr_on := False\<rparr>) = Some k \<Longrightarrow> step S (goto Idle_woken k S)"
| s_idle_woken: "at S = Idle_woken \<Longrightarrow> step S (goto Idle ((kn S)\<lparr>intr_on := True\<rparr>) S)"
| s_down: "calls S \<Longrightarrow> sema_down_enter (kn S) = Some (True, k) \<Longrightarrow> step S (goto (Down (Sem s) None) k S)"
| s_acquire: "calls S \<Longrightarrow> l \<noteq> tid_lock \<Longrightarrow> lock_acquire_check l (kn S) = Some () \<Longrightarrow>
    sema_down_enter (kn S) = Some (True, k) \<Longrightarrow> step S (goto (Down (Sem_of_lock l) (Some l)) k S)"
| s_sleep: "at S = Down s c \<Longrightarrow> sema_down_iter s True (kn S) = Some (Inl k) \<Longrightarrow> step S (goto (Down s c) k S)"
| s_got: "at S = Down s c \<Longrightarrow> sema_down_iter s True (kn S) = Some (Inr k) \<Longrightarrow>
    step S (goto (case c of None \<Rightarrow> Run | Some l \<Rightarrow> Take l) k S)"
| s_take: "at S = Take l \<Longrightarrow> lock_take l (kn S) = Some k \<Longrightarrow> step S (goto Run k S)"
| s_release: "calls S \<Longrightarrow> l \<noteq> tid_lock \<Longrightarrow> lock_drop l (kn S) = Some k \<Longrightarrow> step S (goto (Drop l) k S)"
| s_drop: "at S = Drop l \<Longrightarrow> sema_up (Sem_of_lock l) (kn S) = Some k \<Longrightarrow> step S (goto Run k S)"
| s_up: "calls S \<Longrightarrow> sema_up (Sem s) (kn S) = Some k \<Longrightarrow> step S (goto Run k S)"
| s_intr_up: "intr_on (kn S) \<Longrightarrow> sema_up (Sem s) (kn S) = Some k \<Longrightarrow> step S (goto (at S) k S)"
| s_try: "calls S \<Longrightarrow> sema_try_down (Sem s) (kn S) = (b, k) \<Longrightarrow> step S (goto Run k S)"
| s_try_lock: "calls S \<Longrightarrow> l \<noteq> tid_lock \<Longrightarrow> lock_try_acquire l (kn S) = Some (b, k) \<Longrightarrow>
    step S (goto (if b then Take l else Run) k S)"
| s_yield: "calls S \<Longrightarrow> thread_yield (kn S) = Some k \<Longrightarrow> step S (goto (Yielded Run) k S)"
| s_tick: "timer_interrupt (kn S) = Some (False, k) \<Longrightarrow> step S (goto (at S) k S)"
| s_preempt: "timer_interrupt (kn S) = Some (True, k) \<Longrightarrow> step S (goto (Yielded (at S)) k S)"
| s_create: "calls S \<Longrightarrow> page \<noteq> 0 \<Longrightarrow> thr (kn S) page = None \<Longrightarrow> init_thread page name pri (kn S) = Some k \<Longrightarrow>
    step S \<lparr>kn = k, pcs = (pcs S)(page := Start), mks = (mks S)(cur (kn S) := Inited page)\<rparr>"
| s_tid_acquire: "at S = Run \<Longrightarrow> mk S = Inited page \<Longrightarrow> lock_acquire_check tid_lock (kn S) = Some () \<Longrightarrow>
    sema_down_enter (kn S) = Some (True, k) \<Longrightarrow>
    step S (creating (Numbering page) (Down (Sem_of_lock tid_lock) (Some tid_lock)) k S)"
| s_tid: "at S = Run \<Longrightarrow> mk S = Numbering page \<Longrightarrow> take_tid (kn S) = (t, k) \<Longrightarrow>
    step S (creating (Numbered page t) Run k S)"
| s_tid_release: "at S = Run \<Longrightarrow> mk S = Numbered page t \<Longrightarrow> lock_drop tid_lock (kn S) = Some k \<Longrightarrow>
    step S (creating (Unlocking page t) (Drop tid_lock) k S)"
| s_frames: "at S = Run \<Longrightarrow> mk S = Unlocking page t \<Longrightarrow> create_frames page t (kn S) = Some k \<Longrightarrow>
    step S (creating (Framed page) Run k S)"
| s_unblock: "at S = Run \<Longrightarrow> mk S = Framed page \<Longrightarrow> thread_unblock page (kn S) = Some k \<Longrightarrow>
    step S (creating No_creation Run k S)"
| s_exit: "calls S \<Longrightarrow> thread_exit (kn S) = Some k \<Longrightarrow> step S \<lparr>kn = k, pcs = pcs S, mks = mks S\<rparr>"

section \<open>The invariant of the scheduler\<close>

text \<open>
  Over the set of the threads that are being created, the status of each thread, the ready list, the
  wait lists, the idle thread, the initial thread, the thread that runs and the list of all threads.
\<close>

definition cinvf ::
  "(nat \<Rightarrow> sem_id) \<Rightarrow> nat set \<Rightarrow> (nat \<Rightarrow> thread_status option) \<Rightarrow> nat list \<Rightarrow> (sem_id \<Rightarrow> nat list) \<Rightarrow> nat \<Rightarrow> nat \<Rightarrow>
   nat \<Rightarrow> nat list \<Rightarrow> bool" where
  "cinvf f N st rdy W idl ini c al \<longleftrightarrow>
     st 0 = None \<and> st idl \<noteq> None \<and> st idl \<noteq> Some THREAD_DYING \<and>
     distinct rdy \<and> (\<forall>t. t \<in> set rdy \<longleftrightarrow> st t = Some THREAD_READY \<and> t \<noteq> idl) \<and>
     (\<forall>s. distinct (W s)) \<and> (\<forall>s t. t \<in> set (W s) \<longleftrightarrow> st t = Some THREAD_BLOCKED \<and> t \<noteq> idl \<and> t \<notin> N \<and> f t = s) \<and>
     (\<forall>t. st t = Some THREAD_DYING \<longrightarrow> t = ini \<or> t = c) \<and>
     distinct al \<and> (\<forall>t. t \<in> set al \<longleftrightarrow> st t \<noteq> None \<and> st t \<noteq> Some THREAD_DYING) \<and>
     (\<forall>t\<in>N. st t = Some THREAD_BLOCKED \<and> t \<noteq> idl)"

definition cinv ::
  "nat set \<Rightarrow> (nat \<Rightarrow> thread_status option) \<Rightarrow> nat list \<Rightarrow> (sem_id \<Rightarrow> nat list) \<Rightarrow> nat \<Rightarrow> nat \<Rightarrow> nat \<Rightarrow> nat list \<Rightarrow> bool" where
  "cinv N st rdy W idl ini c al \<longleftrightarrow> (\<exists>f. cinvf f N st rdy W idl ini c al)"

definition runs :: "(nat \<Rightarrow> thread_status option) \<Rightarrow> nat \<Rightarrow> bool" where
  "runs st c \<longleftrightarrow> (\<forall>t. st t = Some THREAD_RUNNING \<longleftrightarrow> t = c)"

lemma cinvfD:
  assumes "cinvf f N st rdy W idl ini c al"
  shows "st 0 = None" "st idl \<noteq> None" "st idl \<noteq> Some THREAD_DYING" "distinct rdy"
    "\<And>t. t \<in> set rdy \<longleftrightarrow> st t = Some THREAD_READY \<and> t \<noteq> idl" "\<And>s. distinct (W s)"
    "\<And>s t. t \<in> set (W s) \<longleftrightarrow> st t = Some THREAD_BLOCKED \<and> t \<noteq> idl \<and> t \<notin> N \<and> f t = s"
    "\<And>t. st t = Some THREAD_DYING \<Longrightarrow> t = ini \<or> t = c" "distinct al"
    "\<And>t. t \<in> set al \<longleftrightarrow> st t \<noteq> None \<and> st t \<noteq> Some THREAD_DYING"
    "\<And>t. t \<in> N \<Longrightarrow> st t = Some THREAD_BLOCKED \<and> t \<noteq> idl"
  using assms unfolding cinvf_def by blast+

lemma cinvfI:
  assumes "st 0 = None" "st idl \<noteq> None" "st idl \<noteq> Some THREAD_DYING" "distinct rdy"
    "\<And>t. t \<in> set rdy \<longleftrightarrow> st t = Some THREAD_READY \<and> t \<noteq> idl" "\<And>s. distinct (W s)"
    "\<And>s t. t \<in> set (W s) \<longleftrightarrow> st t = Some THREAD_BLOCKED \<and> t \<noteq> idl \<and> t \<notin> N \<and> f t = s"
    "\<And>t. st t = Some THREAD_DYING \<Longrightarrow> t = ini \<or> t = c" "distinct al"
    "\<And>t. t \<in> set al \<longleftrightarrow> st t \<noteq> None \<and> st t \<noteq> Some THREAD_DYING"
    "\<And>t. t \<in> N \<Longrightarrow> st t = Some THREAD_BLOCKED \<and> t \<noteq> idl"
  shows "cinv N st rdy W idl ini c al"
  unfolding cinv_def cinvf_def using assms(11)
  by (intro exI [of _ f] conjI allI ballI impI assms(1-6,9)) (simp_all only: assms(5,7,8,10), (blast dest: assms(8,11))+)

lemma runsD: "runs st c \<Longrightarrow> st c = Some THREAD_RUNNING"
  by (simp add: runs_def)

lemma cinv_wait:
  assumes "cinv N st rdy W idl ini c al" "runs st c" "c \<noteq> idl"
  shows "cinv N (st(c \<mapsto> THREAD_BLOCKED)) rdy (W(s := W s @ [c])) idl ini c al"
proof -
  obtain f where f: "cinvf f N st rdy W idl ini c al" using assms(1) by (auto simp: cinv_def)
  note d = cinvfD [OF f] and r = runsD [OF assms(2)]
  have c: "c \<noteq> 0" "c \<notin> N" using d(1) r d(11) [of c] by (metis option.distinct(1), auto)
  show ?thesis
  proof (rule_tac f = "f(c := s)" in cinvfI, goal_cases)
    case (7 s' t)
    then show ?case using d(7) [of t s'] d(7) [of t s] c r assms(3) by auto
  qed (use d(1-6,8-10) d(7) [of c] r c assms(3) in \<open>auto split: if_splits dest: d(8,11)\<close>)
qed

lemma cinv_idle_block:
  assumes "cinv N st rdy W idl ini c al" "runs st c" "c = idl"
  shows "cinv N (st(c \<mapsto> THREAD_BLOCKED)) rdy W idl ini c al"
proof -
  obtain f where f: "cinvf f N st rdy W idl ini c al" using assms(1) by (auto simp: cinv_def)
  note d = cinvfD [OF f] and r = runsD [OF assms(2)]
  have c: "c \<noteq> 0" "c \<notin> N" using d(1) r d(11) [of c] by (metis option.distinct(1), auto)
  show ?thesis
    by (rule_tac f = f in cinvfI) (use d(1-10) r c assms(3) in \<open>auto split: if_splits dest: d(8,11)\<close>)
qed

lemma cinv_yield:
  assumes "cinv N st rdy W idl ini c al" "runs st c"
  shows "cinv N (st(c \<mapsto> THREAD_READY)) (if c \<noteq> idl then rdy @ [c] else rdy) W idl ini c al"
proof -
  obtain f where f: "cinvf f N st rdy W idl ini c al" using assms(1) by (auto simp: cinv_def)
  note d = cinvfD [OF f] and r = runsD [OF assms(2)]
  have c: "c \<noteq> 0" "c \<notin> N" using d(1) r d(11) [of c] by (metis option.distinct(1), auto)
  show ?thesis
    by (rule_tac f = f in cinvfI) (use d(1-10) r c in \<open>auto split: if_splits dest: d(8,11)\<close>)
qed

lemma cinv_exit:
  assumes "cinv N st rdy W idl ini c al" "runs st c" "c \<noteq> idl"
  shows "cinv N (st(c \<mapsto> THREAD_DYING)) rdy W idl ini c (remove1 c al)"
proof -
  obtain f where f: "cinvf f N st rdy W idl ini c al" using assms(1) by (auto simp: cinv_def)
  note d = cinvfD [OF f] and r = runsD [OF assms(2)]
  have c: "c \<noteq> 0" "c \<notin> N" using d(1) r d(11) [of c] by (metis option.distinct(1), auto)
  show ?thesis
    by (rule_tac f = f in cinvfI) (use d(1-10) r c assms(3) in \<open>auto split: if_splits dest: d(8,11)\<close>)
qed

lemma cinv_wake:
  assumes "cinv N st rdy W idl ini c al" "W s = t # ts"
  shows "cinv N (st(t \<mapsto> THREAD_READY)) (rdy @ [t]) (W(s := ts)) idl ini c al"
    and "st t = Some THREAD_BLOCKED" "t \<noteq> idl"
proof -
  obtain f where f: "cinvf f N st rdy W idl ini c al" using assms(1) by (auto simp: cinv_def)
  note d = cinvfD [OF f]
  have "t \<in> set (W s)" using assms(2) by simp
  then show t: "st t = Some THREAD_BLOCKED" "t \<noteq> idl" using d(7) by blast+
  have fs: "f t = s" "t \<notin> N" using \<open>t \<in> set (W s)\<close> d(7) by blast+
  have ts: "x \<in> set ts \<longleftrightarrow> x \<in> set (W s) \<and> x \<noteq> t" for x using d(6) [of s] assms(2) by auto
  have dts: "distinct ts" using d(6) [of s] assms(2) by simp
  have "t \<noteq> 0" using d(1) t by (metis option.distinct(1))
  then show "cinv N (st(t \<mapsto> THREAD_READY)) (rdy @ [t]) (W(s := ts)) idl ini c al"
    by (rule_tac f = f in cinvfI) (use d(1-10) t fs ts dts in \<open>auto split: if_splits dest: d(8,11)\<close>)
qed

lemma cinv_new:
  assumes "cinv N st rdy W idl ini c al" "st p = None" "p \<noteq> 0"
  shows "cinv (insert p N) (st(p \<mapsto> THREAD_BLOCKED)) rdy W idl ini c (al @ [p])"
proof -
  obtain f where f: "cinvf f N st rdy W idl ini c al" using assms(1) by (auto simp: cinv_def)
  note d = cinvfD [OF f]
  show ?thesis
    by (rule_tac f = f in cinvfI) (use d(1-10) assms(2,3) in \<open>auto split: if_splits dest: d(8,11)\<close>)
qed

lemma cinv_born:
  assumes "cinv N st rdy W idl ini c al" "p \<in> N"
  shows "cinv (N - {p}) (st(p \<mapsto> THREAD_READY)) (rdy @ [p]) W idl ini c al"
    and "st p = Some THREAD_BLOCKED" "p \<noteq> idl"
proof -
  obtain f where f: "cinvf f N st rdy W idl ini c al" using assms(1) by (auto simp: cinv_def)
  note d = cinvfD [OF f]
  show p: "st p = Some THREAD_BLOCKED" "p \<noteq> idl" using d(11) [OF assms(2)] by simp_all
  have "p \<noteq> 0" using d(1) p by (metis option.distinct(1))
  then show "cinv (N - {p}) (st(p \<mapsto> THREAD_READY)) (rdy @ [p]) W idl ini c al"
    by (rule_tac f = f in cinvfI) (use d(1-10) p assms(2) in \<open>auto split: if_splits dest: d(8,11)\<close>)
qed

definition switched :: "(nat \<Rightarrow> thread_status option) \<Rightarrow> nat \<Rightarrow> nat \<Rightarrow> nat \<Rightarrow> nat \<Rightarrow> thread_status option" where
  "switched st c n ini =
     (let st' = st(n \<mapsto> THREAD_RUNNING)
      in if c \<noteq> n \<and> st c = Some THREAD_DYING \<and> c \<noteq> ini then st'(c := None) else st')"

lemma cinv_switch:
  assumes "cinv N st rdy W idl ini c al" "\<And>t. st t \<noteq> Some THREAD_RUNNING"
    and n: "n = (case rdy of [] \<Rightarrow> idl | t # _ \<Rightarrow> t)"
  shows "cinv N (switched st c n ini) (tl rdy) W idl ini n al" "runs (switched st c n ini) n" "st n \<noteq> None"
proof -
  obtain f where f: "cinvf f N st rdy W idl ini c al" using assms(1) by (auto simp: cinv_def)
  note d = cinvfD [OF f]
  have hd: "rdy = n # tl rdy \<and> n \<in> set rdy \<or> rdy = [] \<and> n = idl" using n by (cases rdy) auto
  then have rn: "st n = Some THREAD_READY \<and> n \<noteq> idl \<or> rdy = [] \<and> n = idl" using d(5) [of n] by blast
  then have n0: "n \<noteq> 0" "st n \<noteq> None" "st n \<noteq> Some THREAD_DYING" using d(1,2,3)
    by (metis option.distinct(1), metis option.distinct(1), metis option.inject thread_status.distinct(9))
  then show "st n \<noteq> None" by simp
  have tlr: "t \<in> set (tl rdy) \<longleftrightarrow> t \<in> set rdy \<and> t \<noteq> n" for t
  proof (cases rdy)
    case Nil
    then show ?thesis by simp
  next
    case (Cons a as)
    then show ?thesis using n d(4) by auto
  qed
  have dtl: "distinct (tl rdy)" using d(4) by (rule distinct_tl)
  have nW: "n \<notin> set (W s)" for s using rn d(7) [of n s] by auto
  define u where "u = switched st c n ini"
  have u: "u t = (if c \<noteq> n \<and> st c = Some THREAD_DYING \<and> c \<noteq> ini \<and> t = c then None
      else if t = n then Some THREAD_RUNNING else st t)" for t
    by (simp add: u_def switched_def Let_def)
  show "runs (switched st c n ini) n" unfolding runs_def u_def [symmetric] using assms(2) by (auto simp: u)
  have "cinv N u (tl rdy) W idl ini n al"
  proof (rule_tac f = f in cinvfI)
    show "u 0 = None" using d(1) n0 by (simp add: u)
    show "u idl \<noteq> None" "u idl \<noteq> Some THREAD_DYING" using d(2,3) by (auto simp: u)
    show "distinct (tl rdy)" by (rule dtl)
    show "t \<in> set (tl rdy) \<longleftrightarrow> u t = Some THREAD_READY \<and> t \<noteq> idl" for t
      unfolding tlr d(5) using n0 by (auto simp: u)
    show "distinct (W s)" for s by (rule d(6))
    show "t \<in> set (W s) \<longleftrightarrow> u t = Some THREAD_BLOCKED \<and> t \<noteq> idl \<and> t \<notin> N \<and> f t = s" for s t
      using d(7) [of t s] nW [of s] by (auto simp: u)
    show "t = ini \<or> t = n" if "u t = Some THREAD_DYING" for t
      using that d(8) [of t] by (auto simp: u split: if_splits)
    show "distinct al" by (rule d(9))
    show "t \<in> set al \<longleftrightarrow> u t \<noteq> None \<and> u t \<noteq> Some THREAD_DYING" for t
      unfolding d(10) using n0 by (auto simp: u)
    show "u t = Some THREAD_BLOCKED \<and> t \<noteq> idl" if "t \<in> N" for t
      using d(11) [OF that] rn by (auto simp: u)
  qed
  then show "cinv N (switched st c n ini) (tl rdy) W idl ini n al" by (simp add: u_def)
qed

section \<open>The operations keep the invariant\<close>

definition kcore :: "nat set \<Rightarrow> kern \<Rightarrow> bool" where
  "kcore N k \<longleftrightarrow> cinv N (status_of k) (fifo_ready_list k) (\<lambda>s. waiters (semas k s)) (idle_thread k)
       (initial_thread k) (cur k) (all_list k) \<and>
     (\<forall>t th. thr k t = Some th \<longrightarrow> magic th = THREAD_MAGIC) \<and> policy k = SCHED_FIFO \<and> \<not> intr_ctx k"

definition krun :: "kern \<Rightarrow> bool" where
  "krun k \<longleftrightarrow> runs (status_of k) (cur k)"

definition frame :: "kern \<Rightarrow> kern \<Rightarrow> bool" where
  "frame k k' \<longleftrightarrow> idle_thread k' = idle_thread k \<and> initial_thread k' = initial_thread k \<and> holder k' = holder k"

lemma status_of_set [simp]:
  "status_of (set_status t x k) u = (if u = t \<and> status_of k t \<noteq> None then Some x else status_of k u)"
  by (auto simp: status_of_def set_status_def)

lemma set_status_fields [simp]:
  "fifo_ready_list (set_status t x k) = fifo_ready_list k" "all_list (set_status t x k) = all_list k"
  "idle_thread (set_status t x k) = idle_thread k" "initial_thread (set_status t x k) = initial_thread k"
  "cur (set_status t x k) = cur k" "policy (set_status t x k) = policy k" "intr_on (set_status t x k) = intr_on k"
  "intr_ctx (set_status t x k) = intr_ctx k" "semas (set_status t x k) = semas k" "holder (set_status t x k) = holder k"
  "next_tid (set_status t x k) = next_tid k"
  by (simp_all add: set_status_def)

lemma status_of_fields [simp]:
  "status_of (k\<lparr>intr_on := a\<rparr>) = status_of k" "status_of (k\<lparr>fifo_ready_list := r\<rparr>) = status_of k"
  "status_of (k\<lparr>all_list := r\<rparr>) = status_of k" "status_of (k\<lparr>cur := c\<rparr>) = status_of k"
  "status_of (k\<lparr>semas := ss\<rparr>) = status_of k" "status_of (k\<lparr>holder := hh\<rparr>) = status_of k"
  "status_of (k\<lparr>thread_ticks := n\<rparr>) = status_of k" "status_of (set_sema s x k) = status_of k"
  "status_of (k\<lparr>intr_ctx := b\<rparr>) = status_of k" "status_of (k\<lparr>yield_on_return := b\<rparr>) = status_of k"
  "status_of (k\<lparr>idle_ticks := n\<rparr>) = status_of k" "status_of (k\<lparr>kernel_ticks := n\<rparr>) = status_of k"
  "status_of (k\<lparr>user_ticks := n\<rparr>) = status_of k"
  by (simp_all add: status_of_def set_sema_def fun_eq_iff)

lemma set_sema_fields [simp]:
  "fifo_ready_list (set_sema s x k) = fifo_ready_list k" "all_list (set_sema s x k) = all_list k"
  "idle_thread (set_sema s x k) = idle_thread k" "initial_thread (set_sema s x k) = initial_thread k"
  "cur (set_sema s x k) = cur k" "policy (set_sema s x k) = policy k" "intr_on (set_sema s x k) = intr_on k"
  "intr_ctx (set_sema s x k) = intr_ctx k" "holder (set_sema s x k) = holder k" "thr (set_sema s x k) = thr k"
  "semas (set_sema s x k) = (semas k)(s := x)"
  by (simp_all add: set_sema_def)

lemma status_of_kill: "status_of (k\<lparr>thr := (thr k)(c := None)\<rparr>) t = (if t = c then None else status_of k t)"
  by (simp add: status_of_def)

lemma magic_set_status:
  "(\<forall>u th. thr k u = Some th \<longrightarrow> magic th = THREAD_MAGIC) \<Longrightarrow>
   (\<forall>u th. thr (set_status t x k) u = Some th \<longrightarrow> magic th = THREAD_MAGIC)"
  by (auto simp: set_status_def)

lemma kcore_fields:
  "kcore N (k\<lparr>intr_on := a\<rparr>) = kcore N k" "kcore N (k\<lparr>thread_ticks := n\<rparr>) = kcore N k"
  "krun (k\<lparr>intr_on := a\<rparr>) = krun k" "kcore N (k\<lparr>holder := hh\<rparr>) = kcore N k" "krun (k\<lparr>holder := hh\<rparr>) = krun k"
  "kcore N (k\<lparr>yield_on_return := b\<rparr>) = kcore N k" "krun (k\<lparr>yield_on_return := b\<rparr>) = krun k"
  "krun (k\<lparr>intr_ctx := b\<rparr>) = krun k"
  by (simp_all add: kcore_def krun_def)

lemma kcoreD:
  assumes "kcore N k"
  shows "status_of k 0 = None" "status_of k (idle_thread k) \<noteq> None" "policy k = SCHED_FIFO" "\<not> intr_ctx k"
    "\<And>t. t \<in> set (fifo_ready_list k) \<longleftrightarrow> status_of k t = Some THREAD_READY \<and> t \<noteq> idle_thread k"
    "\<And>s t. t \<in> set (waiters (semas k s)) \<Longrightarrow> status_of k t = Some THREAD_BLOCKED \<and> t \<noteq> idle_thread k"
    "\<And>t. status_of k t = Some THREAD_BLOCKED \<Longrightarrow> t \<noteq> idle_thread k \<Longrightarrow> t \<notin> N \<Longrightarrow>
        \<exists>s. t \<in> set (waiters (semas k s))"
    "\<And>s s' t. t \<in> set (waiters (semas k s)) \<Longrightarrow> t \<in> set (waiters (semas k s')) \<Longrightarrow> s = s'"
    "\<And>s. distinct (waiters (semas k s))" "distinct (fifo_ready_list k)"
    "\<And>t. t \<in> set (all_list k) \<longleftrightarrow> status_of k t \<noteq> None \<and> status_of k t \<noteq> Some THREAD_DYING"
    "\<And>t. t \<in> N \<Longrightarrow> status_of k t = Some THREAD_BLOCKED \<and> t \<noteq> idle_thread k"
    "\<And>s t. t \<in> set (waiters (semas k s)) \<Longrightarrow> t \<notin> N"
proof -
  obtain f where f: "cinvf f N (status_of k) (fifo_ready_list k) (\<lambda>s. waiters (semas k s)) (idle_thread k)
       (initial_thread k) (cur k) (all_list k)"
    using assms by (auto simp: kcore_def cinv_def)
  note d = cinvfD [OF f]
  show "status_of k 0 = None" "status_of k (idle_thread k) \<noteq> None" "distinct (fifo_ready_list k)"
    by (rule d(1), rule d(2), rule d(4))
  show "policy k = SCHED_FIFO" "\<not> intr_ctx k" using assms by (simp_all add: kcore_def)
  show "t \<in> set (fifo_ready_list k) \<longleftrightarrow> status_of k t = Some THREAD_READY \<and> t \<noteq> idle_thread k" for t by (rule d(5))
  show "status_of k t = Some THREAD_BLOCKED \<and> t \<noteq> idle_thread k" if "t \<in> set (waiters (semas k s))" for s t
    using d(7) [of t s] that by blast
  show "\<exists>s. t \<in> set (waiters (semas k s))"
    if "status_of k t = Some THREAD_BLOCKED" "t \<noteq> idle_thread k" "t \<notin> N" for t
    using d(7) [of t "f t"] that by blast
  show "s = s'" if "t \<in> set (waiters (semas k s))" "t \<in> set (waiters (semas k s'))" for s s' t
    using d(7) [of t s] d(7) [of t s'] that by blast
  show "distinct (waiters (semas k s))" for s by (rule d(6))
  show "t \<in> set (all_list k) \<longleftrightarrow> status_of k t \<noteq> None \<and> status_of k t \<noteq> Some THREAD_DYING" for t by (rule d(10))
  show "status_of k t = Some THREAD_BLOCKED \<and> t \<noteq> idle_thread k" if "t \<in> N" for t by (rule d(11) [OF that])
  show "t \<notin> N" if "t \<in> set (waiters (semas k s))" for s t using d(7) [of t s] that by blast
qed

lemma is_thread_iff:
  assumes "kcore N k"
  shows "is_thread k t \<longleftrightarrow> status_of k t \<noteq> None"
  using assms kcoreD(1) [OF assms] by (cases "t = 0") (auto simp: is_thread_def status_of_def kcore_def split: option.split)

lemma current_ok:
  assumes "kcore N k" "krun k"
  shows "thread_current k = Some (cur k)" "status_of k (cur k) = Some THREAD_RUNNING"
proof -
  show s: "status_of k (cur k) = Some THREAD_RUNNING" using assms(2) by (simp add: krun_def runs_def)
  then show "thread_current k = Some (cur k)"
    using is_thread_iff [OF assms(1), of "cur k"] by (simp add: thread_current_def)
qed

definition next_of :: "kern \<Rightarrow> nat" where
  "next_of k = (case fifo_ready_list k of [] \<Rightarrow> idle_thread k | t # _ \<Rightarrow> t)"

lemma schedule_ok:
  assumes "kcore N k" "\<And>t. status_of k t \<noteq> Some THREAD_RUNNING" "\<not> intr_on k"
  shows "\<exists>k'. schedule k = Some k' \<and> kcore N k' \<and> krun k' \<and> frame k k' \<and> semas k' = semas k \<and> \<not> intr_on k' \<and>
    cur k' = next_of k \<and> fifo_ready_list k' = tl (fifo_ready_list k) \<and>
    status_of k' = switched (status_of k) (cur k) (next_of k) (initial_thread k)"
proof -
  let ?n = "next_of k"
  define k1 where "k1 = k\<lparr>fifo_ready_list := tl (fifo_ready_list k)\<rparr>"
  have nx: "next_thread_to_run k = Some (?n, k1)"
    using kcoreD(3) [OF assms(1)]
    by (cases "fifo_ready_list k") (simp_all add: next_thread_to_run_def thread_schedule_fifo_def k1_def next_of_def)
  have ci: "cinv N (status_of k) (fifo_ready_list k) (\<lambda>s. waiters (semas k s)) (idle_thread k)
       (initial_thread k) (cur k) (all_list k)" using assms(1) by (simp add: kcore_def)
  note sw = cinv_switch [OF ci assms(2) next_of_def]
  have it: "is_thread k1 ?n"
    using is_thread_iff [OF assms(1), of ?n] sw(3) by (simp add: k1_def is_thread_def)
  define prev where "prev = (if cur k \<noteq> ?n then cur k else 0)"
  define k2 where "k2 = (set_status ?n THREAD_RUNNING (k1\<lparr>cur := ?n\<rparr>))\<lparr>thread_ticks := 0\<rparr>"
  have st2: "status_of k2 t = (if t = ?n then Some THREAD_RUNNING else status_of k t)" for t
    using sw(3) by (simp add: k2_def k1_def)
  define k3 where "k3 = (if cur k \<noteq> ?n \<and> status_of k (cur k) = Some THREAD_DYING \<and> cur k \<noteq> initial_thread k
      then k2\<lparr>thr := (thr k2)(cur k := None)\<rparr> else k2)"
  have d0: "status_of k (cur k) = Some THREAD_DYING \<Longrightarrow> cur k \<noteq> 0"
    using kcoreD(1) [OF assms(1)] by (metis option.distinct(1))
  have sc: "schedule k = Some k3"
  proof (cases "cur k \<noteq> ?n \<and> status_of k (cur k) = Some THREAD_DYING \<and> cur k \<noteq> initial_thread k")
    case True
    then show ?thesis
      using nx assms(2,3) it d0 st2 [of "cur k"]
      by (simp add: schedule_def thread_switch_tail_def k3_def k1_def k2_def [unfolded k1_def, symmetric] Let_def)
  next
    case False
    then show ?thesis
      using nx assms(2,3) it d0 st2 [of "cur k"]
      by (auto simp: schedule_def thread_switch_tail_def k3_def k1_def k2_def [unfolded k1_def, symmetric] Let_def)
  qed
  have st3: "status_of k3 = switched (status_of k) (cur k) ?n (initial_thread k)"
    using st2 by (auto simp: fun_eq_iff k3_def switched_def Let_def status_of_kill)
  have f3: "fifo_ready_list k3 = tl (fifo_ready_list k)" "semas k3 = semas k" "idle_thread k3 = idle_thread k"
    "initial_thread k3 = initial_thread k" "cur k3 = ?n" "all_list k3 = all_list k" "policy k3 = policy k"
    "intr_ctx k3 = intr_ctx k" "holder k3 = holder k" "intr_on k3 = intr_on k"
    by (simp_all add: k3_def k2_def k1_def)
  have "\<forall>t th. thr k2 t = Some th \<longrightarrow> magic th = THREAD_MAGIC"
    using assms(1) by (auto simp: kcore_def k2_def k1_def set_status_def)
  then have "\<forall>t th. thr k3 t = Some th \<longrightarrow> magic th = THREAD_MAGIC" by (auto simp: k3_def)
  then have "kcore N k3" "krun k3"
    using sw(1,2) assms(1) by (simp_all add: kcore_def krun_def f3 st3)
  then show ?thesis using sc f3 st3 assms(3) by (auto simp: frame_def)
qed

text \<open>What a switch away from the running thread does.\<close>

definition sync_same :: "kern \<Rightarrow> kern \<Rightarrow> bool" where
  "sync_same k k' \<longleftrightarrow> semas k' = semas k \<and> frame k k'"

definition left_as :: "nat set \<Rightarrow> thread_status \<Rightarrow> kern \<Rightarrow> kern \<Rightarrow> bool" where
  "left_as N x k k' \<longleftrightarrow> kcore N k' \<and> krun k' \<and> frame k k' \<and> \<not> intr_on k' \<and>
     status_of k' = (status_of k)(cur k \<mapsto> x, cur k' \<mapsto> THREAD_RUNNING)"

lemma switched_alive: "x \<noteq> THREAD_DYING \<Longrightarrow> switched (st(c \<mapsto> x)) c n ini = st(c \<mapsto> x, n \<mapsto> THREAD_RUNNING)"
  by (simp add: switched_def)

lemma set_status_cur:
  "krun k \<Longrightarrow> status_of k1 = status_of k \<Longrightarrow> status_of (set_status (cur k) x k1) = (status_of k)(cur k \<mapsto> x)"
  by (auto simp: fun_eq_iff krun_def runs_def)

lemma sema_wait_ok:
  assumes "kcore N k" "krun k" "\<not> intr_on k" "cur k \<noteq> idle_thread k" "sval (semas k s) = 0"
  shows "\<exists>k'. sema_down_iter s old k = Some (Inl k') \<and> left_as N THREAD_BLOCKED k k' \<and>
    cur k' = next_of k \<and> fifo_ready_list k' = tl (fifo_ready_list k) \<and>
    semas k' = (semas k)(s := (semas k s)\<lparr>waiters := waiters (semas k s) @ [cur k]\<rparr>)"
proof -
  define k1 where "k1 = set_sema s ((semas k s)\<lparr>waiters := waiters (semas k s) @ [cur k]\<rparr>) k"
  define k2 where "k2 = set_status (cur k) THREAD_BLOCKED k1"
  have s2: "status_of k2 = (status_of k)(cur k \<mapsto> THREAD_BLOCKED)"
    unfolding k2_def by (rule set_status_cur [OF assms(2)]) (simp add: k1_def)
  have W: "(\<lambda>u. waiters (semas k2 u)) = (\<lambda>u. waiters (semas k u))(s := waiters (semas k s) @ [cur k])"
    by (auto simp: fun_eq_iff k2_def k1_def)
  have "cinv N (status_of k2) (fifo_ready_list k) (\<lambda>u. waiters (semas k2 u)) (idle_thread k) (initial_thread k)
      (cur k) (all_list k)"
    unfolding s2 W using assms by (intro cinv_wait) (simp_all add: kcore_def krun_def)
  moreover have "\<forall>t th. thr k2 t = Some th \<longrightarrow> magic th = THREAD_MAGIC"
    unfolding k2_def using assms(1) by (intro magic_set_status) (simp add: k1_def kcore_def)
  ultimately have c2: "kcore N k2" using assms(1) by (simp add: kcore_def) (simp add: k2_def k1_def)
  have nr: "status_of k2 t \<noteq> Some THREAD_RUNNING" for t
    using assms(2) unfolding s2 by (simp add: krun_def runs_def)
  have off: "\<not> intr_on k2" using assms(3) by (simp add: k2_def k1_def)
  obtain k' where k': "schedule k2 = Some k'" "kcore N k'" "krun k'" "frame k2 k'" "semas k' = semas k2" "\<not> intr_on k'"
      "cur k' = next_of k2" "fifo_ready_list k' = tl (fifo_ready_list k2)"
      "status_of k' = switched (status_of k2) (cur k2) (next_of k2) (initial_thread k2)"
    using schedule_ok [OF c2 nr off] by blast
  have cc: "thread_current k = Some (cur k)" "status_of k (cur k) = Some THREAD_RUNNING"
    by (rule current_ok [OF assms(1,2)])+
  have c1: "thread_current k1 = Some (cur k)"
    using cc by (simp add: thread_current_def is_thread_def k1_def split: if_splits option.splits)
  have "sema_down_iter s old k = Some (Inl k')"
    using assms(5,3) cc(1) c1 k'(1) kcoreD(4) [OF assms(1)]
    by (simp add: sema_down_iter_def thread_block_def Let_def k2_def [symmetric] k1_def [symmetric])
  moreover have "next_of k2 = next_of k" by (simp add: next_of_def k2_def k1_def split: list.split)
  moreover have "status_of k' = (status_of k)(cur k \<mapsto> THREAD_BLOCKED, cur k' \<mapsto> THREAD_RUNNING)"
    using k'(7,9) by (simp add: s2 switched_alive) (simp add: k2_def k1_def switched_alive)
  ultimately show ?thesis
    using k' by (auto simp: left_as_def frame_def k2_def k1_def)
qed

lemma idle_block_ok:
  assumes "kcore N k" "krun k" "cur k = idle_thread k"
  shows "\<exists>k'. thread_block (k\<lparr>intr_on := False\<rparr>) = Some k' \<and> left_as N THREAD_BLOCKED k k' \<and>
    cur k' = next_of k \<and> fifo_ready_list k' = tl (fifo_ready_list k) \<and> semas k' = semas k"
proof -
  define k1 where "k1 = k\<lparr>intr_on := False\<rparr>"
  have c1: "kcore N k1" "krun k1" using assms(1,2) by (simp_all add: k1_def kcore_fields)
  define k2 where "k2 = set_status (cur k) THREAD_BLOCKED k1"
  have s2: "status_of k2 = (status_of k)(cur k \<mapsto> THREAD_BLOCKED)"
    unfolding k2_def by (rule set_status_cur [OF assms(2)]) (simp add: k1_def)
  have "cinv N (status_of k2) (fifo_ready_list k) (\<lambda>u. waiters (semas k u)) (idle_thread k) (initial_thread k)
      (cur k) (all_list k)"
    unfolding s2 using assms by (intro cinv_idle_block) (simp_all add: kcore_def krun_def)
  moreover have "\<forall>t th. thr k2 t = Some th \<longrightarrow> magic th = THREAD_MAGIC"
    unfolding k2_def using assms(1) by (intro magic_set_status) (simp add: k1_def kcore_def)
  ultimately have c2: "kcore N k2" using assms(1) by (simp add: kcore_def) (simp add: k2_def k1_def)
  have nr: "status_of k2 t \<noteq> Some THREAD_RUNNING" for t
    using assms(2) unfolding s2 by (simp add: krun_def runs_def)
  have off: "\<not> intr_on k2" by (simp add: k2_def k1_def)
  obtain k' where k': "schedule k2 = Some k'" "kcore N k'" "krun k'" "frame k2 k'" "semas k' = semas k2" "\<not> intr_on k'"
      "cur k' = next_of k2" "fifo_ready_list k' = tl (fifo_ready_list k2)"
      "status_of k' = switched (status_of k2) (cur k2) (next_of k2) (initial_thread k2)"
    using schedule_ok [OF c2 nr off] by blast
  have "thread_block k1 = Some k'"
    using current_ok(1) [OF c1] k'(1) kcoreD(4) [OF assms(1)]
    by (simp add: thread_block_def k2_def [symmetric] k1_def) (simp add: k1_def k2_def)
  moreover have "next_of k2 = next_of k" by (simp add: next_of_def k2_def k1_def split: list.split)
  moreover have "status_of k' = (status_of k)(cur k \<mapsto> THREAD_BLOCKED, cur k' \<mapsto> THREAD_RUNNING)"
    using k'(7,9) by (simp add: s2 switched_alive) (simp add: k2_def k1_def switched_alive)
  ultimately show ?thesis
    using k' by (auto simp: left_as_def frame_def k1_def) (simp_all add: k2_def k1_def)
qed

lemma thread_yield_ok:
  assumes "kcore N k" "krun k"
  shows "\<exists>k'. thread_yield k = Some k' \<and> left_as N THREAD_READY k k' \<and> semas k' = semas k \<and>
    (let r = (if cur k \<noteq> idle_thread k then fifo_ready_list k @ [cur k] else fifo_ready_list k)
     in fifo_ready_list k' = tl r \<and> cur k' = (case r of [] \<Rightarrow> idle_thread k | t # _ \<Rightarrow> t))"
proof -
  define r where "r = (if cur k \<noteq> idle_thread k then fifo_ready_list k @ [cur k] else fifo_ready_list k)"
  define k1 where "k1 = k\<lparr>intr_on := False, fifo_ready_list := r\<rparr>"
  define k2 where "k2 = set_status (cur k) THREAD_READY k1"
  have s2: "status_of k2 = (status_of k)(cur k \<mapsto> THREAD_READY)"
    unfolding k2_def by (rule set_status_cur [OF assms(2)]) (simp add: k1_def)
  have "cinv N (status_of k2) r (\<lambda>u. waiters (semas k u)) (idle_thread k) (initial_thread k) (cur k) (all_list k)"
    unfolding s2 r_def using assms by (intro cinv_yield) (simp_all add: kcore_def krun_def)
  moreover have "\<forall>t th. thr k2 t = Some th \<longrightarrow> magic th = THREAD_MAGIC"
    unfolding k2_def using assms(1) by (intro magic_set_status) (simp add: k1_def kcore_def)
  ultimately have c2: "kcore N k2" using assms(1) by (simp add: kcore_def) (simp add: k2_def k1_def)
  have nr: "status_of k2 t \<noteq> Some THREAD_RUNNING" for t
    using assms(2) unfolding s2 by (simp add: krun_def runs_def)
  have off: "\<not> intr_on k2" by (simp add: k2_def k1_def)
  obtain k' where k': "schedule k2 = Some k'" "kcore N k'" "krun k'" "frame k2 k'" "semas k' = semas k2" "\<not> intr_on k'"
      "cur k' = next_of k2" "fifo_ready_list k' = tl (fifo_ready_list k2)"
      "status_of k' = switched (status_of k2) (cur k2) (next_of k2) (initial_thread k2)"
    using schedule_ok [OF c2 nr off] by blast
  have it: "is_thread (k\<lparr>intr_on := False\<rparr>) (cur k)"
    using is_thread_iff [OF assms(1), of "cur k"] current_ok(2) [OF assms] by (simp add: is_thread_def)
  have enq: "(if cur k \<noteq> idle_thread k then thread_enqueue (cur k) (k\<lparr>intr_on := False\<rparr>)
      else Some (k\<lparr>intr_on := False\<rparr>)) = Some k1"
    using it kcoreD(3) [OF assms(1)] by (simp add: thread_enqueue_def k1_def r_def)
  have "thread_yield k = Some k'"
    using current_ok(1) [OF assms] kcoreD(4) [OF assms(1)] enq k'(1)
    by (simp add: thread_yield_def Let_def k2_def split del: if_split)
  moreover have "status_of k' = (status_of k)(cur k \<mapsto> THREAD_READY, cur k' \<mapsto> THREAD_RUNNING)"
    using k'(7,9) by (simp add: s2 switched_alive) (simp add: k2_def k1_def switched_alive)
  moreover have "cur k' = (case r of [] \<Rightarrow> idle_thread k | t # _ \<Rightarrow> t)"
    using k'(7) by (cases r) (simp_all add: next_of_def k2_def k1_def)
  moreover have "fifo_ready_list k' = tl r" using k'(8) by (simp add: k2_def k1_def)
  moreover have "semas k' = semas k" using k'(5) by (simp add: k2_def k1_def)
  moreover have "frame k k'" using k'(4) by (simp add: frame_def k2_def k1_def)
  ultimately show ?thesis
    unfolding r_def [symmetric] Let_def using k'(2,3,6) unfolding left_as_def by blast
qed

lemma thread_exit_ok:
  assumes "kcore N k" "krun k" "cur k \<noteq> idle_thread k"
  shows "\<exists>k'. thread_exit k = Some k' \<and> kcore N k' \<and> krun k' \<and> frame k k' \<and> \<not> intr_on k' \<and>
    semas k' = semas k \<and> cur k' = next_of k \<and> fifo_ready_list k' = tl (fifo_ready_list k) \<and>
    status_of k' = switched ((status_of k)(cur k \<mapsto> THREAD_DYING)) (cur k) (next_of k) (initial_thread k)"
proof -
  define k1 where "k1 = k\<lparr>intr_on := False, all_list := remove1 (cur k) (all_list k)\<rparr>"
  define k2 where "k2 = set_status (cur k) THREAD_DYING k1"
  have s2: "status_of k2 = (status_of k)(cur k \<mapsto> THREAD_DYING)"
    unfolding k2_def by (rule set_status_cur [OF assms(2)]) (simp add: k1_def)
  have "cinv N (status_of k2) (fifo_ready_list k) (\<lambda>u. waiters (semas k u)) (idle_thread k) (initial_thread k)
      (cur k) (remove1 (cur k) (all_list k))"
    unfolding s2 using assms by (intro cinv_exit) (simp_all add: kcore_def krun_def)
  moreover have "\<forall>t th. thr k2 t = Some th \<longrightarrow> magic th = THREAD_MAGIC"
    unfolding k2_def using assms(1) by (intro magic_set_status) (simp add: k1_def kcore_def)
  ultimately have c2: "kcore N k2" using assms(1) by (simp add: kcore_def) (simp add: k2_def k1_def)
  have nr: "status_of k2 t \<noteq> Some THREAD_RUNNING" for t
    using assms(2) unfolding s2 by (simp add: krun_def runs_def)
  have off: "\<not> intr_on k2" by (simp add: k2_def k1_def)
  obtain k' where k': "schedule k2 = Some k'" "kcore N k'" "krun k'" "frame k2 k'" "semas k' = semas k2" "\<not> intr_on k'"
      "cur k' = next_of k2" "fifo_ready_list k' = tl (fifo_ready_list k2)"
      "status_of k' = switched (status_of k2) (cur k2) (next_of k2) (initial_thread k2)"
    using schedule_ok [OF c2 nr off] by blast
  have "kcore N (k\<lparr>intr_on := False\<rparr>)" "krun (k\<lparr>intr_on := False\<rparr>)" using assms by (simp_all add: kcore_fields)
  then have c1: "thread_current (k\<lparr>intr_on := False\<rparr>) = Some (cur k)" using current_ok(1) by fastforce
  have "cur k \<in> set (all_list k)" using kcoreD(11) [OF assms(1)] current_ok(2) [OF assms(1,2)] by simp
  then have "thread_exit k = Some k'"
    using c1 kcoreD(4) [OF assms(1)] k'(1) by (simp add: thread_exit_def Let_def k2_def k1_def)
  moreover have "next_of k2 = next_of k" by (simp add: next_of_def k2_def k1_def split: list.split)
  moreover have "cur k2 = cur k" "initial_thread k2 = initial_thread k" "fifo_ready_list k2 = fifo_ready_list k"
    "semas k2 = semas k" by (simp_all add: k2_def k1_def)
  moreover have "frame k k'" using k'(4) by (simp add: frame_def k2_def k1_def)
  ultimately show ?thesis using k' by (simp add: s2)
qed

lemma sema_up_ok:
  assumes "kcore N k" "krun k"
  shows "\<exists>k'. sema_up s k = Some k' \<and> kcore N k' \<and> krun k' \<and> frame k k' \<and> cur k' = cur k \<and> intr_on k' = intr_on k \<and>
    semas k' = (semas k)(s := \<lparr>sval = wrap32 (sval (semas k s) + 1), waiters = tl (waiters (semas k s))\<rparr>) \<and>
    fifo_ready_list k' = fifo_ready_list k @ take 1 (waiters (semas k s)) \<and>
    status_of k' = (case waiters (semas k s) of [] \<Rightarrow> status_of k | t # _ \<Rightarrow> (status_of k)(t \<mapsto> THREAD_READY))"
proof (cases "waiters (semas k s)")
  case Nil
  define k' where "k' = (set_sema s ((semas k s)\<lparr>sval := wrap32 (sval (semas k s) + 1)\<rparr>) k)\<lparr>intr_on := intr_on k\<rparr>"
  have W: "(\<lambda>u. waiters (semas k' u)) = (\<lambda>u. waiters (semas k u))" by (auto simp: fun_eq_iff k'_def)
  have "sema_up s k = Some k'" by (simp add: sema_up_def Nil Let_def k'_def set_sema_def)
  moreover have "status_of k' = status_of k" by (simp add: k'_def)
  moreover have "kcore N k'" using assms(1) calculation(2) by (simp add: kcore_def W) (simp add: k'_def)
  moreover have "krun k'" using assms(2) calculation(2) by (simp add: krun_def) (simp add: k'_def)
  moreover have "semas k' = (semas k)(s := \<lparr>sval = wrap32 (sval (semas k s) + 1), waiters = []\<rparr>)"
    using Nil by (cases "semas k s") (simp add: k'_def)
  ultimately show ?thesis by (simp add: Nil frame_def) (simp add: k'_def)
next
  case (Cons t ts)
  have ci: "cinv N (status_of k) (fifo_ready_list k) (\<lambda>s. waiters (semas k s)) (idle_thread k) (initial_thread k)
      (cur k) (all_list k)" using assms(1) by (simp add: kcore_def)
  have Ws: "(\<lambda>s. waiters (semas k s)) s = t # ts" using Cons by simp
  note wk = cinv_wake [OF ci Ws]
  define k1 where "k1 = set_sema s ((semas k s)\<lparr>waiters := ts\<rparr>) (k\<lparr>intr_on := False\<rparr>)"
  define k2 where "k2 = set_status t THREAD_READY (k1\<lparr>fifo_ready_list := fifo_ready_list k @ [t]\<rparr>)"
  define k' where "k' = (set_sema s ((semas k2 s)\<lparr>sval := wrap32 (sval (semas k2 s) + 1)\<rparr>) k2)\<lparr>intr_on := intr_on k\<rparr>"
  have it: "is_thread k1 t" using is_thread_iff [OF assms(1), of t] wk(2) by (simp add: is_thread_def k1_def)
  have "thread_unblock t k1 = Some (k2\<lparr>intr_on := False\<rparr>)"
    using it wk(2) kcoreD(3) [OF assms(1)]
    by (simp add: thread_unblock_def thread_enqueue_def Let_def k2_def is_thread_def)
      (simp add: k1_def set_sema_def set_status_def)
  then have up: "sema_up s k = Some k'"
    by (simp add: sema_up_def Cons Let_def k1_def [symmetric] k'_def) (simp add: set_sema_def)
  have st: "status_of k' = (status_of k)(t \<mapsto> THREAD_READY)"
    using wk(2) by (auto simp: fun_eq_iff k'_def k2_def k1_def)
  have W: "(\<lambda>u. waiters (semas k' u)) = (\<lambda>u. waiters (semas k u))(s := ts)"
    by (auto simp: fun_eq_iff k'_def k2_def k1_def)
  have "\<forall>t th. thr k2 t = Some th \<longrightarrow> magic th = THREAD_MAGIC"
    unfolding k2_def using assms(1) by (intro magic_set_status) (simp add: k1_def kcore_def)
  then have "kcore N k'"
    using assms(1) wk(1) by (simp add: kcore_def W st) (simp add: k'_def k2_def k1_def)
  moreover have "t \<noteq> cur k" "cur k' = cur k" using wk(2) current_ok(2) [OF assms] by (auto simp: k'_def k2_def k1_def)
  then have "krun k'" using assms(2) wk(2) unfolding krun_def st runs_def by auto
  moreover have "semas k' = (semas k)(s := \<lparr>sval = wrap32 (sval (semas k s) + 1), waiters = ts\<rparr>)"
    by (cases "semas k s") (simp add: k'_def k2_def k1_def)
  moreover have "frame k k'" "cur k' = cur k" "intr_on k' = intr_on k" "fifo_ready_list k' = fifo_ready_list k @ [t]"
    by (simp_all add: frame_def k'_def k2_def k1_def)
  ultimately show ?thesis using up st by (simp add: Cons)
qed

text \<open>The parts of the creation of a thread.\<close>

definition beside :: "kern \<Rightarrow> kern \<Rightarrow> bool" where
  "beside k k' \<longleftrightarrow> frame k k' \<and> cur k' = cur k \<and> intr_on k' = intr_on k \<and> semas k' = semas k"

lemma init_thread_ok:
  assumes "kcore N k" "krun k" "thr k p = None" "p \<noteq> 0" "PRI_MIN \<le> pri" "pri \<le> PRI_MAX"
  shows "\<exists>k'. init_thread p name pri k = Some k' \<and> kcore (insert p N) k' \<and> krun k' \<and> beside k k' \<and>
    fifo_ready_list k' = fifo_ready_list k \<and> status_of k' = (status_of k)(p \<mapsto> THREAD_BLOCKED)"
proof -
  define th where "th = \<lparr>tid = 0, status = THREAD_BLOCKED, tname = take 15 name,
      stack = p + 4096, priority = pri, pcb = 0, magic = THREAD_MAGIC\<rparr>"
  define k' where "k' = k\<lparr>thr := (thr k)(p \<mapsto> th), all_list := all_list k @ [p]\<rparr>"
  have "init_thread p name pri k = Some k'" using assms(4-6) by (simp add: init_thread_def k'_def th_def)
  moreover have st: "status_of k' = (status_of k)(p \<mapsto> THREAD_BLOCKED)"
    by (simp add: status_of_def k'_def fun_eq_iff th_def)
  moreover have "cinv (insert p N) (status_of k') (fifo_ready_list k) (\<lambda>s. waiters (semas k s)) (idle_thread k)
      (initial_thread k) (cur k) (all_list k @ [p])"
    unfolding st using assms by (intro cinv_new) (simp_all add: kcore_def status_of_def)
  then have "kcore (insert p N) k'" using assms(1) by (simp add: kcore_def) (simp add: k'_def th_def)
  moreover have "cur k \<noteq> p" using current_ok(2) [OF assms(1,2)] assms(3) by (auto simp: status_of_def)
  then have "krun k'" using assms(2) unfolding krun_def st runs_def by (auto simp: k'_def)
  ultimately show ?thesis by (auto simp: k'_def frame_def beside_def)
qed

lemma take_tid_ok:
  assumes "kcore N k" "krun k" "take_tid k = (t, k')"
  shows "kcore N k'" "krun k'" "beside k k'" "status_of k' = status_of k"
proof -
  have k': "k' = k\<lparr>next_tid := to_s32 (next_tid k + 1)\<rparr>" using assms(3) by (auto simp: take_tid_def)
  show st: "status_of k' = status_of k" by (simp add: k' status_of_def fun_eq_iff)
  show "kcore N k'" using assms(1) unfolding kcore_def st by (simp add: k')
  show "krun k'" using assms(2) unfolding krun_def st by (simp add: k')
  show "beside k k'" by (simp add: k' beside_def frame_def)
qed

lemma create_frames_ok:
  assumes "kcore N k" "krun k" "p \<in> N"
  shows "\<exists>k'. create_frames p t k = Some k' \<and> kcore N k' \<and> krun k' \<and> beside k k' \<and> status_of k' = status_of k"
proof -
  have "status_of k p \<noteq> None" using kcoreD(12) [OF assms(1,3)] by simp
  then obtain th where th: "thr k p = Some th" by (auto simp: status_of_def)
  have p: "p \<noteq> 0" using th kcoreD(1) [OF assms(1)] by (cases "p = 0") (simp_all add: status_of_def)
  have "magic th = THREAD_MAGIC" using assms(1) th by (auto simp: kcore_def)
  note p = p this
  define k' where "k' = k\<lparr>thr := (thr k)(p \<mapsto> th\<lparr>tid := t, stack := stack th - 12 - 4 - 28\<rparr>)\<rparr>"
  have "create_frames p t k = Some k'"
    using p th by (simp add: create_frames_def alloc_frame_def is_thread_def set_tid_def Let_def k'_def)
  moreover have st: "status_of k' = status_of k" by (simp add: k'_def status_of_def fun_eq_iff th)
  moreover have "kcore N k'" using assms(1) p unfolding kcore_def st by (simp add: k'_def)
  moreover have "krun k'" using assms(2) unfolding krun_def st by (simp add: k'_def)
  ultimately show ?thesis by (simp add: beside_def frame_def) (simp add: k'_def)
qed

lemma thread_unblock_ok:
  assumes "kcore N k" "krun k" "p \<in> N"
  shows "\<exists>k'. thread_unblock p k = Some k' \<and> kcore (N - {p}) k' \<and> krun k' \<and> beside k k' \<and>
    fifo_ready_list k' = fifo_ready_list k @ [p] \<and> status_of k' = (status_of k)(p \<mapsto> THREAD_READY)"
proof -
  have ci: "cinv N (status_of k) (fifo_ready_list k) (\<lambda>s. waiters (semas k s)) (idle_thread k) (initial_thread k)
      (cur k) (all_list k)" using assms(1) by (simp add: kcore_def)
  note bn = cinv_born [OF ci assms(3)]
  define k' where "k' = (set_status p THREAD_READY (k\<lparr>fifo_ready_list := fifo_ready_list k @ [p]\<rparr>))\<lparr>intr_on := intr_on k\<rparr>"
  have it: "is_thread k p" using is_thread_iff [OF assms(1), of p] bn(2) by simp
  have "thread_unblock p k = Some k'"
    using it bn(2) kcoreD(3) [OF assms(1)]
    by (simp add: thread_unblock_def thread_enqueue_def Let_def is_thread_def) (simp add: k'_def set_status_def)
  moreover have st: "status_of k' = (status_of k)(p \<mapsto> THREAD_READY)"
    using bn(2) by (auto simp: fun_eq_iff k'_def)
  moreover have "\<forall>t th. thr k' t = Some th \<longrightarrow> magic th = THREAD_MAGIC"
    using assms(1) by (auto simp: k'_def set_status_def kcore_def)
  then have "kcore (N - {p}) k'" using assms(1) bn(1) by (simp add: kcore_def st) (simp add: k'_def)
  moreover have "p \<noteq> cur k" using bn(2) current_ok(2) [OF assms(1,2)] by auto
  then have "krun k'" using assms(2) bn(2) unfolding krun_def st runs_def by (auto simp: k'_def)
  ultimately show ?thesis by (simp add: beside_def frame_def) (simp add: k'_def)
qed

lemma sval_same: "sval x = 0 \<Longrightarrow> x\<lparr>sval := 0\<rparr> = x"
  by (cases x) simp

lemma try_down_ok:
  assumes "kcore N k" "krun k" "sema_try_down s k = (b, k')"
  shows "kcore N k'" "krun k'" "frame k k'" "cur k' = cur k" "intr_on k' = intr_on k" "status_of k' = status_of k"
    "b \<longleftrightarrow> sval (semas k s) \<noteq> 0"
    "semas k' = (semas k)(s := (semas k s)\<lparr>sval := sval (semas k s) - 1\<rparr>)"
proof -
  have k': "k' = set_sema s ((semas k s)\<lparr>sval := sval (semas k s) - 1\<rparr>) k"
    using assms(3) by (auto simp: sema_try_down_def set_sema_def sval_same split: if_splits)
  have W: "(\<lambda>u. waiters (semas k' u)) = (\<lambda>u. waiters (semas k u))" by (auto simp: fun_eq_iff k')
  show st: "status_of k' = status_of k" by (simp add: k')
  show "kcore N k'" using assms(1) by (simp add: kcore_def W st) (simp add: k')
  show "krun k'" using assms(2) by (simp add: krun_def st) (simp add: k')
  show "frame k k'" "cur k' = cur k" "intr_on k' = intr_on k" by (simp_all add: k' frame_def)
  show "semas k' = (semas k)(s := (semas k s)\<lparr>sval := sval (semas k s) - 1\<rparr>)" by (simp add: k')
  show "b \<longleftrightarrow> sval (semas k s) \<noteq> 0" using assms(3) by (auto simp: sema_try_down_def split: if_splits)
qed

lemma sema_got_ok:
  assumes "kcore N k" "krun k" "sval (semas k s) \<noteq> 0" "sema_down_iter s old k = r"
  shows "\<exists>k'. r = Some (Inr k') \<and> kcore N k' \<and> krun k' \<and> frame k k' \<and> cur k' = cur k \<and> intr_on k' = old \<and>
    status_of k' = status_of k \<and> semas k' = (semas k)(s := (semas k s)\<lparr>sval := sval (semas k s) - 1\<rparr>)"
proof -
  obtain k1 where k1: "sema_try_down s k = (True, k1)" using assms(3) by (auto simp: sema_try_down_def)
  note t = try_down_ok [OF assms(1,2) k1]
  have "r = Some (Inr (k1\<lparr>intr_on := old\<rparr>))" using k1 assms(3,4) by (auto simp: sema_down_iter_def sema_try_down_def)
  then show ?thesis using t by (simp add: kcore_fields frame_def)
qed

lemma timer_ok:
  assumes "kcore N k" "krun k" "intr_on k"
  shows "\<exists>b k'. timer_interrupt k = Some (b, k') \<and> semas k' = semas k \<and>
    (if b then left_as N THREAD_READY k k' \<and>
        (cur k' = cur k \<or> status_of k (cur k') = Some THREAD_READY \<or> cur k' = idle_thread k)
     else kcore N k' \<and> krun k' \<and> frame k k' \<and> cur k' = cur k \<and> intr_on k' \<and> status_of k' = status_of k)"
proof -
  define k0 where "k0 = k\<lparr>intr_on := False, intr_ctx := True, yield_on_return := False\<rparr>"
  have tc: "thread_current k0 = Some (cur k)"
    using current_ok(1) [OF assms(1,2)]
    by (simp add: thread_current_def is_thread_def k0_def split: if_splits option.splits)
  define k1 where "k1 = (if cur k = idle_thread k then k0\<lparr>idle_ticks := idle_ticks k0 + 1\<rparr>
               else if (case thr k (cur k) of None \<Rightarrow> False | Some th \<Rightarrow> pcb th \<noteq> 0)
                    then k0\<lparr>user_ticks := user_ticks k0 + 1\<rparr>
                    else k0\<lparr>kernel_ticks := kernel_ticks k0 + 1\<rparr>)"
  define k2 where "k2 = k1\<lparr>thread_ticks := thread_ticks k1 + 1\<rparr>"
  define k3 where "k3 = (if thread_ticks k2 \<ge> TIME_SLICE then k2\<lparr>yield_on_return := True\<rparr> else k2)"
  define k4 where "k4 = k3\<lparr>intr_ctx := False\<rparr>"
  have tick: "thread_tick k0 = Some k3"
    using tc by (simp add: thread_tick_def Let_def k3_def k2_def k1_def k0_def)
  have f4: "thr k4 = thr k" "fifo_ready_list k4 = fifo_ready_list k" "semas k4 = semas k" "idle_thread k4 = idle_thread k"
    "initial_thread k4 = initial_thread k" "cur k4 = cur k" "all_list k4 = all_list k" "policy k4 = policy k"
    "holder k4 = holder k" "\<not> intr_ctx k4"
    by (auto simp: k4_def k3_def k2_def k1_def k0_def)
  have st4: "status_of k4 = status_of k" using f4(1) by (simp add: status_of_def fun_eq_iff)
  have c4: "kcore N k4" "krun k4" using assms(1,2) f4 st4 by (simp_all add: kcore_def krun_def)
  have ti: "timer_interrupt k = (if yield_on_return k4 then map_option (Pair True) (thread_yield k4)
      else Some (False, k4\<lparr>intr_on := True\<rparr>))"
    using assms(3) kcoreD(4) [OF assms(1)] tick by (simp add: timer_interrupt_def Let_def k0_def k4_def)
  show ?thesis
  proof (cases "yield_on_return k4")
    case False
    then show ?thesis using ti c4 f4 st4
      by (intro exI [of _ False] exI [of _ "k4\<lparr>intr_on := True\<rparr>"]) (simp add: kcore_fields frame_def)
  next
    case True
    obtain k' where k': "thread_yield k4 = Some k'" "left_as N THREAD_READY k4 k'" "semas k' = semas k4"
      "cur k' = (case (if cur k4 \<noteq> idle_thread k4 then fifo_ready_list k4 @ [cur k4] else fifo_ready_list k4)
          of [] \<Rightarrow> idle_thread k4 | t # _ \<Rightarrow> t)"
      using thread_yield_ok [OF c4] by (auto simp: Let_def)
    have "cur k' = cur k \<or> status_of k (cur k') = Some THREAD_READY \<or> cur k' = idle_thread k"
      using k'(4) kcoreD(5) [OF assms(1)] by (cases "fifo_ready_list k") (auto simp: f4 split: if_splits)
    then show ?thesis using ti True k' f4 st4 by (auto simp: left_as_def frame_def)
  qed
qed

section \<open>The invariant of the system\<close>

fun off :: "pc \<Rightarrow> bool" where
  "off Start = True"
| "off (Yielded p) = True"
| "off (Down s c) = True"
| "off Idle_woken = True"
| "off p = False"

fun idlepc :: "pc \<Rightarrow> bool" where
  "idlepc Idle = True"
| "idlepc Idle_woken = True"
| "idlepc (Yielded p) = idlepc p"
| "idlepc p = False"

fun okpc :: "pc \<Rightarrow> bool" where
  "okpc (Yielded p) \<longleftrightarrow> \<not> off p \<and> okpc p"
| "okpc (Down s c) \<longleftrightarrow> (case s of Sem x \<Rightarrow> c = None | Sem_of_lock l \<Rightarrow> c = Some l)"
| "okpc p = True"

definition pinv ::
  "(nat \<Rightarrow> thread_status option) \<Rightarrow> (nat \<Rightarrow> pc) \<Rightarrow> nat \<Rightarrow> (sem_id \<Rightarrow> semaphore) \<Rightarrow> bool" where
  "pinv st p idl W \<longleftrightarrow>
     (\<forall>t. st t = Some THREAD_READY \<or> st t = Some THREAD_BLOCKED \<longrightarrow> off (p t)) \<and>
     (\<forall>t. st t \<noteq> None \<and> st t \<noteq> Some THREAD_DYING \<longrightarrow> (idlepc (p t) \<longleftrightarrow> t = idl)) \<and>
     (\<forall>s t. t \<in> set (waiters (W s)) \<longrightarrow> st t = Some THREAD_BLOCKED \<and> (\<exists>c. p t = Down s c)) \<and>
     (\<forall>t. okpc (p t)) \<and> (\<forall>t. st t = None \<or> st t = Some THREAD_DYING \<longrightarrow> p t = Run)"

text \<open>The thread that a thread is creating, and the set of all of these.\<close>

fun making :: "creation \<Rightarrow> nat option" where
  "making No_creation = None"
| "making (Inited p) = Some p"
| "making (Numbering p) = Some p"
| "making (Numbered p t) = Some p"
| "making (Unlocking p t) = Some p"
| "making (Framed p) = Some p"

definition newborn :: "(nat \<Rightarrow> creation) \<Rightarrow> nat set" where
  "newborn m = {p. \<exists>t. making (m t) = Some p}"

definition minv :: "(nat \<Rightarrow> thread_status option) \<Rightarrow> (nat \<Rightarrow> pc) \<Rightarrow> (nat \<Rightarrow> creation) \<Rightarrow> bool" where
  "minv st p m \<longleftrightarrow>
     (\<forall>t. st t = None \<or> st t = Some THREAD_DYING \<longrightarrow> m t = No_creation) \<and>
     (\<forall>t u x. making (m t) = Some x \<and> making (m u) = Some x \<longrightarrow> t = u) \<and>
     (\<forall>t\<in>newborn m. p t = Start \<and> st t = Some THREAD_BLOCKED)"

definition sinv :: "sys \<Rightarrow> bool" where
  "sinv S \<longleftrightarrow> kcore (newborn (mks S)) (kn S) \<and> krun (kn S) \<and> (intr_on (kn S) \<longleftrightarrow> \<not> off (at S)) \<and>
     pinv (status_of (kn S)) (pcs S) (idle_thread (kn S)) (semas (kn S)) \<and> minv (status_of (kn S)) (pcs S) (mks S)"

lemma minvD:
  assumes "minv st p m"
  shows "st t = None \<or> st t = Some THREAD_DYING \<Longrightarrow> m t = No_creation"
    "making (m t) = Some x \<Longrightarrow> making (m u) = Some x \<Longrightarrow> t = u"
    "t \<in> newborn m \<Longrightarrow> p t = Start" "t \<in> newborn m \<Longrightarrow> st t = Some THREAD_BLOCKED"
  using assms unfolding minv_def by blast+

lemma newborn_same: "making q = making (m c) \<Longrightarrow> newborn (m(c := q)) = newborn m"
  by (auto simp: newborn_def)

lemma minvI:
  assumes "\<And>t. st t = None \<or> st t = Some THREAD_DYING \<Longrightarrow> m t = No_creation"
    "\<And>t u x. making (m t) = Some x \<Longrightarrow> making (m u) = Some x \<Longrightarrow> t = u"
    "\<And>t. t \<in> newborn m \<Longrightarrow> p t = Start \<and> st t = Some THREAD_BLOCKED"
  shows "minv st p m"
  using assms unfolding minv_def by blast

text \<open>What the thread \<open>c\<close>, which is none of the new ones, may change while it goes on with what it creates.\<close>

lemma minv_upd:
  assumes "minv st p m" "making q = making (m c)" "c \<notin> newborn m"
    and "\<And>t. t \<noteq> c \<Longrightarrow> st' t = None \<or> st' t = Some THREAD_DYING \<Longrightarrow> st t = None \<or> st t = Some THREAD_DYING"
    and "st' c = None \<or> st' c = Some THREAD_DYING \<Longrightarrow> q = No_creation"
    and "\<And>t. t \<in> newborn m \<Longrightarrow> st' t = Some THREAD_BLOCKED"
  shows "minv st' (p(c := x)) (m(c := q))"
proof (rule minvI)
  show "(m(c := q)) t = No_creation" if "st' t = None \<or> st' t = Some THREAD_DYING" for t
    using that minvD(1) [OF assms(1), of t] assms(4,5) by (cases "t = c") auto
  have mk: "making ((m(c := q)) t) = making (m t)" for t using assms(2) by simp
  show "t = u" if "making ((m(c := q)) t) = Some y" "making ((m(c := q)) u) = Some y" for t u y
    using that unfolding mk by (rule minvD(2) [OF assms(1)])
  show "(p(c := x)) t = Start \<and> st' t = Some THREAD_BLOCKED" if "t \<in> newborn (m(c := q))" for t
    using that minvD(3) [OF assms(1), of t] assms(3,6) by (auto simp: newborn_same [where m = m, OF assms(2)])
qed

lemma pinvD:
  assumes "pinv st p idl W"
  shows "st t = Some THREAD_READY \<or> st t = Some THREAD_BLOCKED \<Longrightarrow> off (p t)"
    "st t \<noteq> None \<Longrightarrow> st t \<noteq> Some THREAD_DYING \<Longrightarrow> idlepc (p t) \<longleftrightarrow> t = idl"
    "t \<in> set (waiters (W s)) \<Longrightarrow> st t = Some THREAD_BLOCKED \<and> (\<exists>c. p t = Down s c)"
    "okpc (p t)"
    "st t = None \<or> st t = Some THREAD_DYING \<Longrightarrow> p t = Run"
  using assms unfolding pinv_def by blast+

lemma pinvI:
  assumes "\<And>t. st t = Some THREAD_READY \<or> st t = Some THREAD_BLOCKED \<Longrightarrow> off (p t)"
    "\<And>t. st t \<noteq> None \<Longrightarrow> st t \<noteq> Some THREAD_DYING \<Longrightarrow> idlepc (p t) \<longleftrightarrow> t = idl"
    "\<And>s t. t \<in> set (waiters (W s)) \<Longrightarrow> st t = Some THREAD_BLOCKED \<and> (\<exists>c. p t = Down s c)"
    "\<And>t. okpc (p t)"
    "\<And>t. st t = None \<or> st t = Some THREAD_DYING \<Longrightarrow> p t = Run"
  shows "pinv st p idl W"
  using assms unfolding pinv_def by blast

lemma sinvD:
  assumes "sinv S"
  shows "kcore (newborn (mks S)) (kn S)" "krun (kn S)" "intr_on (kn S) \<longleftrightarrow> \<not> off (at S)"
    "pinv (status_of (kn S)) (pcs S) (idle_thread (kn S)) (semas (kn S))"
    "idlepc (at S) \<longleftrightarrow> cur (kn S) = idle_thread (kn S)" "okpc (at S)"
    "minv (status_of (kn S)) (pcs S) (mks S)" "cur (kn S) \<notin> newborn (mks S)"
proof -
  show k: "kcore (newborn (mks S)) (kn S)" "krun (kn S)" "intr_on (kn S) \<longleftrightarrow> \<not> off (at S)"
    and p: "pinv (status_of (kn S)) (pcs S) (idle_thread (kn S)) (semas (kn S))"
    using assms by (simp_all add: sinv_def)
  show "idlepc (at S) \<longleftrightarrow> cur (kn S) = idle_thread (kn S)" "okpc (at S)"
    using pinvD(2) [OF p, of "cur (kn S)"] current_ok(2) [OF k(1,2)] pinvD(4) [OF p] by (simp_all add: at_def)
  show "minv (status_of (kn S)) (pcs S) (mks S)" using assms by (simp add: sinv_def)
  show "cur (kn S) \<notin> newborn (mks S)" using kcoreD(12) [OF k(1), of "cur (kn S)"] current_ok(2) [OF k(1,2)] by auto
qed

lemma next_of_waits:
  assumes "kcore N k"
  shows "status_of k (next_of k) = Some THREAD_READY \<or> next_of k = idle_thread k"
  using kcoreD(5) [OF assms] by (cases "fifo_ready_list k") (auto simp: next_of_def)

lemma idle_waits:
  assumes "kcore N k" "krun k" "cur k \<noteq> idle_thread k"
  shows "status_of k (idle_thread k) = Some THREAD_READY \<or> status_of k (idle_thread k) = Some THREAD_BLOCKED"
proof -
  obtain v where v: "status_of k (idle_thread k) = Some v" using kcoreD(2) [OF assms(1)] by blast
  have "idle_thread k \<in> set (all_list k)" using assms(1) by (auto simp: kcore_def cinv_def cinvf_def)
  then have "v \<noteq> THREAD_DYING" using kcoreD(11) [OF assms(1)] v by simp
  moreover have "v \<noteq> THREAD_RUNNING" using assms(2,3) v by (auto simp: krun_def runs_def)
  ultimately show ?thesis using v by (cases v) auto
qed

text \<open>A step of the running thread that does not switch.\<close>

lemma sinv_making:
  assumes "sinv S" "kcore (newborn (mks S)) k" "krun k" "status_of k = status_of (kn S)" "idle_thread k = idle_thread (kn S)"
    "cur k = cur (kn S)" "\<And>s. waiters (semas k s) = waiters (semas (kn S) s)"
    "intr_on k \<longleftrightarrow> \<not> off q" "okpc q" "idlepc q \<longleftrightarrow> idlepc (at S)" "making m = making (mk S)"
  shows "sinv (creating m q k S)"
proof -
  note d = sinvD [OF assms(1)] and r = current_ok(2) [OF sinvD(1,2) [OF assms(1)]]
  have "minv (status_of k) ((pcs S)(cur (kn S) := q)) ((mks S)(cur (kn S) := m))"
    using minvD(4) [OF d(7)] r assms(11) by (intro minv_upd [OF d(7) _ d(8)]) (simp_all add: assms(4) mk_def)
  moreover have "newborn ((mks S)(cur (kn S) := m)) = newborn (mks S)"
    using assms(11) by (intro newborn_same) (simp add: mk_def)
  moreover
  have "pinv (status_of k) ((pcs S)(cur (kn S) := q)) (idle_thread k) (semas k)"
  proof (rule pinvI, goal_cases)
    case (1 t)
    then show ?case using pinvD(1) [OF d(4), of t] r by (auto simp: assms(4))
  next
    case (2 t)
    then show ?case using pinvD(2) [OF d(4), of t] d(5) assms(10) by (auto simp: assms(4,5))
  next
    case (3 s t)
    then show ?case using pinvD(3) [OF d(4), of t s] r by (auto simp: assms(4,7))
  next
    case (4 t)
    then show ?case using pinvD(4) [OF d(4), of t] assms(9) by simp
  next
    case (5 t)
    then show ?case using pinvD(5) [OF d(4), of t] r by (auto simp: assms(4))
  qed
  ultimately show ?thesis using assms(2,3,6,8) by (simp add: sinv_def creating_def at_def)
qed

lemma goto_creating: "goto q k S = creating (mk S) q k S"
  by (simp add: goto_def creating_def mk_def)

lemma sinv_local:
  assumes "sinv S" "kcore (newborn (mks S)) k" "krun k" "status_of k = status_of (kn S)"
    "idle_thread k = idle_thread (kn S)"
    "cur k = cur (kn S)" "\<And>s. waiters (semas k s) = waiters (semas (kn S) s)"
    "intr_on k \<longleftrightarrow> \<not> off q" "okpc q" "idlepc q \<longleftrightarrow> idlepc (at S)"
  shows "sinv (goto q k S)"
  unfolding goto_creating by (rule sinv_making [OF assms refl])

text \<open>A step that leaves the processor to another thread.\<close>

lemma sinv_leave:
  assumes "sinv S" "left_as (newborn (mks S)) x (kn S) k" "x = THREAD_READY \<or> x = THREAD_BLOCKED"
    "cur k = cur (kn S) \<or> status_of (kn S) (cur k) = Some THREAD_READY \<or> cur k = idle_thread (kn S)"
    "\<And>s t. t \<in> set (waiters (semas k s)) \<Longrightarrow>
        t \<in> set (waiters (semas (kn S) s)) \<or> t = cur (kn S) \<and> cur k \<noteq> t \<and> x = THREAD_BLOCKED \<and> (\<exists>c. q = Down s c)"
    "off q" "okpc q" "idlepc q \<longleftrightarrow> idlepc (at S)"
  shows "sinv (goto q k S)"
proof -
  note d = sinvD [OF assms(1)] and r = current_ok(2) [OF sinvD(1,2) [OF assms(1)]]
  have k: "kcore (newborn (mks S)) k" "krun k" "\<not> intr_on k" "idle_thread k = idle_thread (kn S)"
    and st: "status_of k = (status_of (kn S))(cur (kn S) \<mapsto> x, cur k \<mapsto> THREAD_RUNNING)"
    using assms(2) by (simp_all add: left_as_def frame_def)
  have wt: "status_of (kn S) t = Some THREAD_BLOCKED \<and> t \<noteq> idle_thread (kn S)"
    if "t \<in> set (waiters (semas (kn S) s))" for s t by (rule kcoreD(6) [OF d(1) that])
  have idl: "idle_thread (kn S) \<noteq> cur (kn S) \<Longrightarrow> status_of (kn S) (idle_thread (kn S)) = Some THREAD_READY \<or>
      status_of (kn S) (idle_thread (kn S)) = Some THREAD_BLOCKED"
    using idle_waits [OF d(1,2)] by auto
  have pi: "pinv (status_of k) ((pcs S)(cur (kn S) := q)) (idle_thread k) (semas k)"
  proof (rule pinvI, goal_cases)
    case (1 t)
    then show ?case using pinvD(1) [OF d(4), of t] assms(6) by (auto simp: st split: if_splits)
  next
    case (2 t)
    show ?case
    proof (cases "t = cur (kn S)")
      case True
      then show ?thesis using d(5) assms(8) by (simp add: k(4))
    next
      case False
      then have "status_of (kn S) t \<noteq> None \<and> status_of (kn S) t \<noteq> Some THREAD_DYING"
        using 2 assms(4) idl by (auto simp: st split: if_splits)
      then show ?thesis using pinvD(2) [OF d(4), of t] False by (simp add: k(4))
    qed
  next
    case (3 s t)
    from assms(5) [OF this] show ?case
    proof
      assume a: "t \<in> set (waiters (semas (kn S) s))"
      then have "t \<noteq> cur (kn S)" "t \<noteq> cur k" using wt [OF a] r assms(4) by auto
      then show ?thesis using pinvD(3) [OF d(4) a] by (simp add: st)
    next
      assume "t = cur (kn S) \<and> cur k \<noteq> t \<and> x = THREAD_BLOCKED \<and> (\<exists>c. q = Down s c)"
      then show ?thesis by (auto simp: st)
    qed
  next
    case (4 t)
    then show ?case using pinvD(4) [OF d(4), of t] assms(7) by simp
  next
    case (5 t)
    then show ?case using pinvD(5) [OF d(4), of t] assms(3) by (auto simp: st split: if_splits)
  qed
  have "off (((pcs S)(cur (kn S) := q)) (cur k))"
  proof (cases "cur k = cur (kn S)")
    case True
    then show ?thesis using assms(6) by simp
  next
    case False
    then show ?thesis using pinvD(1) [OF d(4), of "cur k"] assms(4) idl by auto
  qed
  moreover have "minv (status_of k) ((pcs S)(cur (kn S) := q)) ((mks S)(cur (kn S) := mks S (cur (kn S))))"
  proof (rule minv_upd [OF d(7) refl d(8)])
    show "status_of (kn S) t = None \<or> status_of (kn S) t = Some THREAD_DYING"
      if "t \<noteq> cur (kn S)" "status_of k t = None \<or> status_of k t = Some THREAD_DYING" for t
      using that by (auto simp: st split: if_splits)
    show "mks S (cur (kn S)) = No_creation"
      if "status_of k (cur (kn S)) = None \<or> status_of k (cur (kn S)) = Some THREAD_DYING"
      using that assms(3) by (auto simp: st split: if_splits)
    fix t
    assume t: "t \<in> newborn (mks S)"
    then have "status_of (kn S) t = Some THREAD_BLOCKED" "t \<noteq> idle_thread (kn S)" using kcoreD(12) [OF d(1)] by blast+
    then have "t \<noteq> cur (kn S)" "t \<noteq> cur k" using r assms(4) by auto
    then show "status_of k t = Some THREAD_BLOCKED" using minvD(4) [OF d(7) t] by (simp add: st)
  qed
  then have "minv (status_of k) ((pcs S)(cur (kn S) := q)) (mks S)" by simp
  ultimately show ?thesis using k pi by (simp add: sinv_def goto_def at_def)
qed

lemma sinv_wake:
  assumes "sinv S" "sema_up s (kn S) = Some k" "\<not> off q" "okpc q" "idlepc q \<longleftrightarrow> idlepc (at S)" "\<not> off (at S)"
  shows "sinv (goto q k S)"
proof -
  note d = sinvD [OF assms(1)] and r = current_ok(2) [OF sinvD(1,2) [OF assms(1)]]
  have k: "kcore (newborn (mks S)) k" "krun k" "frame (kn S) k" "cur k = cur (kn S)" "intr_on k = intr_on (kn S)"
    and W: "semas k = (semas (kn S))(s := \<lparr>sval = wrap32 (sval (semas (kn S) s) + 1), waiters = tl (waiters (semas (kn S) s))\<rparr>)"
    and st: "status_of k = (case waiters (semas (kn S) s) of [] \<Rightarrow> status_of (kn S)
        | t # _ \<Rightarrow> (status_of (kn S))(t \<mapsto> THREAD_READY))"
    using sema_up_ok [OF d(1,2), of s] assms(2) by auto
  have "minv (status_of k) ((pcs S)(cur (kn S) := q)) ((mks S)(cur (kn S) := mks S (cur (kn S))))"
  proof (rule minv_upd [OF d(7) refl d(8)])
    show "status_of (kn S) t = None \<or> status_of (kn S) t = Some THREAD_DYING"
      if "t \<noteq> cur (kn S)" "status_of k t = None \<or> status_of k t = Some THREAD_DYING" for t
      using that by (auto simp: st split: if_splits list.splits)
    show "mks S (cur (kn S)) = No_creation"
      if "status_of k (cur (kn S)) = None \<or> status_of k (cur (kn S)) = Some THREAD_DYING"
      using that r by (auto simp: st split: if_splits list.splits)
    fix t
    assume t: "t \<in> newborn (mks S)"
    then show "status_of k t = Some THREAD_BLOCKED"
      using minvD(4) [OF d(7) t] kcoreD(13) [OF d(1), of t s] by (auto simp: st split: list.split)
  qed
  then have "minv (status_of k) ((pcs S)(cur (kn S) := q)) (mks S)" by simp
  moreover
  have "pinv (status_of k) ((pcs S)(cur (kn S) := q)) (idle_thread k) (semas k)"
  proof (cases "waiters (semas (kn S) s)")
    case Nil
    then have "status_of k = status_of (kn S)" "\<And>u. waiters (semas k u) = waiters (semas (kn S) u)"
      using st W by auto
    then have "sinv (goto q k S)"
      using assms k d(3) by (intro sinv_local) (simp_all add: frame_def)
    then show ?thesis by (simp add: sinv_def goto_def)
  next
    case (Cons w ws)
    have w: "status_of (kn S) w = Some THREAD_BLOCKED" "\<exists>c. pcs S w = Down s c" "w \<noteq> cur (kn S)"
      using pinvD(3) [OF d(4), of w s] Cons r by auto
    have dist: "w \<notin> set ws" using kcoreD(9) [OF d(1), of s] Cons by simp
    have wu: "w \<notin> set (waiters (semas (kn S) u))" if "u \<noteq> s" for u
      using kcoreD(8) [OF d(1), of w u s] Cons that by auto
    have st': "status_of k = (status_of (kn S))(w \<mapsto> THREAD_READY)" using st Cons by simp
    show ?thesis
    proof (rule pinvI, goal_cases)
      case (1 t)
      then show ?case using pinvD(1) [OF d(4), of t] r w by (auto simp: st' split: if_splits)
    next
      case (2 t)
      then show ?case using pinvD(2) [OF d(4), of t] d(5) assms(5) w k(3) by (auto simp: st' frame_def split: if_splits)
    next
      case (3 u t)
      then have "t \<in> set (waiters (semas (kn S) u))" "t \<noteq> w"
        using dist wu [of u] by (auto simp: W Cons split: if_splits)
      then show ?case using pinvD(3) [OF d(4), of t u] r by (auto simp: st')
    next
      case (4 t)
      then show ?case using pinvD(4) [OF d(4), of t] assms(4) by simp
    next
      case (5 t)
      then show ?case using pinvD(5) [OF d(4), of t] r by (auto simp: st' split: if_splits)
    qed
  qed
  ultimately show ?thesis using k d(3) assms(3,6) by (simp add: sinv_def goto_def at_def)
qed

lemma newborn_new:
  assumes "making (m c) = None" "making q = Some p"
  shows "newborn (m(c := q)) = insert p (newborn m)"
proof (rule set_eqI)
  fix x
  have "making ((m(c := q)) t) = Some x" if "making (m t) = Some x" for t using that assms(1) by (cases "t = c") auto
  moreover have "making ((m(c := q)) c) = Some p" using assms(2) by simp
  moreover have "x = p \<or> making (m t) = Some x" if "making ((m(c := q)) t) = Some x" for t
    using that assms(2) by (cases "t = c") auto
  ultimately show "x \<in> newborn (m(c := q)) \<longleftrightarrow> x \<in> insert p (newborn m)" unfolding newborn_def by blast
qed

lemma newborn_done:
  assumes "minv st pc m" "making (m c) = Some p"
  shows "newborn (m(c := No_creation)) = newborn m - {p}"
proof (rule set_eqI)
  fix x
  have "making (m t) = Some x \<and> x \<noteq> p" if "making ((m(c := No_creation)) t) = Some x" for t
    using that minvD(2) [OF assms(1), of t x c] assms(2) by (auto split: if_splits)
  moreover have "making ((m(c := No_creation)) t) = Some x" if "making (m t) = Some x" "x \<noteq> p" for t
    using that assms(2) by (cases "t = c") auto
  ultimately show "x \<in> newborn (m(c := No_creation)) \<longleftrightarrow> x \<in> newborn m - {p}" unfolding newborn_def by blast
qed

lemma sinv_create:
  assumes "sinv S" "calls S" "thr (kn S) p = None" "p \<noteq> 0" "init_thread p name pri (kn S) = Some k"
  shows "sinv \<lparr>kn = k, pcs = (pcs S)(p := Start), mks = (mks S)(cur (kn S) := Inited p)\<rparr>"
proof -
  note d = sinvD [OF assms(1)] and r = current_ok(2) [OF sinvD(1,2) [OF assms(1)]]
  have pri: "PRI_MIN \<le> pri" "pri \<le> PRI_MAX"
    using assms(5) by (auto simp: init_thread_def split: if_splits)
  have k: "kcore (insert p (newborn (mks S))) k" "krun k" "frame (kn S) k" "cur k = cur (kn S)"
      "intr_on k = intr_on (kn S)" "semas k = semas (kn S)"
    and st: "status_of k = (status_of (kn S))(p \<mapsto> THREAD_BLOCKED)"
    using init_thread_ok [OF d(1,2) assms(3,4) pri, of name] assms(5) by (auto simp: beside_def)
  have pn: "status_of (kn S) p = None" using assms(3) by (simp add: status_of_def)
  then have pc: "p \<noteq> cur (kn S)" "p \<noteq> idle_thread (kn S)" using r kcoreD(2) [OF d(1)] by auto
  have pi: "pinv (status_of k) ((pcs S)(p := Start)) (idle_thread k) (semas k)"
  proof (rule pinvI, goal_cases)
    case (1 t)
    then show ?case using pinvD(1) [OF d(4), of t] by (auto simp: st split: if_splits)
  next
    case (2 t)
    then show ?case using pinvD(2) [OF d(4), of t] pc k(3) by (auto simp: st frame_def split: if_splits)
  next
    case (3 u t)
    then show ?case using pinvD(3) [OF d(4), of t u] pn by (auto simp: st k(6))
  next
    case (4 t)
    then show ?case using pinvD(4) [OF d(4), of t] by simp
  next
    case (5 t)
    then show ?case using pinvD(5) [OF d(4), of t] by (auto simp: st split: if_splits)
  qed
  have m0: "making (mks S (cur (kn S))) = None" using assms(2) by (simp add: calls_def mk_def)
  have nb: "newborn ((mks S)(cur (kn S) := Inited p)) = insert p (newborn (mks S))"
    using m0 by (intro newborn_new) simp_all
  have np: "making (mks S t) \<noteq> Some p" for t
    using minvD(4) [OF d(7), of p] pn by (auto simp: newborn_def)
  have "minv (status_of k) ((pcs S)(p := Start)) ((mks S)(cur (kn S) := Inited p))"
  proof (rule minvI)
    show "((mks S)(cur (kn S) := Inited p)) t = No_creation"
      if "status_of k t = None \<or> status_of k t = Some THREAD_DYING" for t
      using that r pc minvD(1) [OF d(7), of t] by (auto simp: st split: if_splits)
    show "t = u" if "making (((mks S)(cur (kn S) := Inited p)) t) = Some x"
      "making (((mks S)(cur (kn S) := Inited p)) u) = Some x" for t u x
      using that np [of t] np [of u] minvD(2) [OF d(7), of t x u] by (auto split: if_splits)
    show "((pcs S)(p := Start)) t = Start \<and> status_of k t = Some THREAD_BLOCKED"
      if "t \<in> newborn ((mks S)(cur (kn S) := Inited p))" for t
      using that minvD(3,4) [OF d(7), of t] by (auto simp: nb st)
  qed
  then show ?thesis using k(1-5) pc d(3) pi nb by (simp add: sinv_def at_def)
qed

lemma sinv_unblock:
  assumes "sinv S" "at S = Run" "mk S = Framed p" "thread_unblock p (kn S) = Some k"
  shows "sinv (creating No_creation Run k S)"
proof -
  note d = sinvD [OF assms(1)] and r = current_ok(2) [OF sinvD(1,2) [OF assms(1)]]
  have mp: "making (mks S (cur (kn S))) = Some p" using assms(3) by (simp add: mk_def)
  then have pN: "p \<in> newborn (mks S)" by (auto simp: newborn_def)
  have k: "kcore (newborn (mks S) - {p}) k" "krun k" "frame (kn S) k" "cur k = cur (kn S)"
      "intr_on k = intr_on (kn S)" "semas k = semas (kn S)"
    and st: "status_of k = (status_of (kn S))(p \<mapsto> THREAD_READY)"
    using thread_unblock_ok [OF d(1,2) pN] assms(4) by (auto simp: beside_def)
  have p: "status_of (kn S) p = Some THREAD_BLOCKED" "p \<noteq> idle_thread (kn S)" using kcoreD(12) [OF d(1) pN] by simp_all
  then have pc: "p \<noteq> cur (kn S)" using r by auto
  have nb: "newborn ((mks S)(cur (kn S) := No_creation)) = newborn (mks S) - {p}"
    by (rule newborn_done [OF d(7) mp])
  have pi: "pinv (status_of k) ((pcs S)(cur (kn S) := Run)) (idle_thread k) (semas k)"
  proof (rule pinvI, goal_cases)
    case (1 t)
    then show ?case using pinvD(1) [OF d(4), of t] p pc r by (auto simp: st split: if_splits)
  next
    case (2 t)
    then show ?case using pinvD(2) [OF d(4), of t] p d(5) assms(2) k(3) by (auto simp: st frame_def split: if_splits)
  next
    case (3 u t)
    then have "t \<in> set (waiters (semas (kn S) u))" by (simp add: k(6))
    moreover from this have "t \<noteq> p" using kcoreD(13) [OF d(1)] pN by auto
    ultimately show ?case using pinvD(3) [OF d(4), of t u] r by (auto simp: st)
  next
    case (4 t)
    then show ?case using pinvD(4) [OF d(4), of t] by simp
  next
    case (5 t)
    then show ?case using pinvD(5) [OF d(4), of t] r by (auto simp: st split: if_splits)
  qed
  have "minv (status_of k) ((pcs S)(cur (kn S) := Run)) ((mks S)(cur (kn S) := No_creation))"
  proof (rule minvI)
    show "((mks S)(cur (kn S) := No_creation)) t = No_creation"
      if "status_of k t = None \<or> status_of k t = Some THREAD_DYING" for t
      using that minvD(1) [OF d(7), of t] by (auto simp: st split: if_splits)
    show "t = u" if "making (((mks S)(cur (kn S) := No_creation)) t) = Some x"
      "making (((mks S)(cur (kn S) := No_creation)) u) = Some x" for t u x
      using that minvD(2) [OF d(7), of t x u] by (auto split: if_splits)
    show "((pcs S)(cur (kn S) := Run)) t = Start \<and> status_of k t = Some THREAD_BLOCKED"
      if "t \<in> newborn ((mks S)(cur (kn S) := No_creation))" for t
      using that minvD(3,4) [OF d(7), of t] d(8) by (auto simp: nb st)
  qed
  then show ?thesis using k d(3) pi nb assms(2) by (simp add: sinv_def at_def creating_def)
qed

lemma sinv_exit:
  assumes "sinv S" "calls S" "thread_exit (kn S) = Some k"
  shows "sinv \<lparr>kn = k, pcs = pcs S, mks = mks S\<rparr>"
proof -
  note d = sinvD [OF assms(1)] and r = current_ok(2) [OF sinvD(1,2) [OF assms(1)]]
  have run0: "at S = Run" "mk S = No_creation" using assms(2) by (simp_all add: calls_def)
  have ci: "cur (kn S) \<noteq> idle_thread (kn S)" using d(5) run0 by simp
  obtain k: "kcore (newborn (mks S)) k" "krun k" "frame (kn S) k" "\<not> intr_on k" "semas k = semas (kn S)" "cur k = next_of (kn S)"
    and st: "status_of k = switched ((status_of (kn S))(cur (kn S) \<mapsto> THREAD_DYING)) (cur (kn S)) (next_of (kn S))
        (initial_thread (kn S))"
    using thread_exit_ok [OF d(1,2) ci] assms(3) by auto
  have nw: "status_of (kn S) (next_of (kn S)) = Some THREAD_READY \<or> status_of (kn S) (next_of (kn S)) = Some THREAD_BLOCKED"
    using next_of_waits [OF d(1)] idle_waits [OF d(1,2) ci] by auto
  have same: "status_of k t = status_of (kn S) t" if "t \<noteq> cur (kn S)" "t \<noteq> next_of (kn S)" for t
    using that by (simp add: st switched_def Let_def)
  have gone: "status_of k (cur (kn S)) = None \<or> status_of k (cur (kn S)) = Some THREAD_DYING"
    using nw r by (auto simp: st switched_def Let_def)
  have run: "status_of k (next_of (kn S)) = Some THREAD_RUNNING" using current_ok(2) [OF k(1,2)] k(6) by simp
  have "pinv (status_of k) (pcs S) (idle_thread k) (semas k)"
  proof (rule pinvI, goal_cases)
    case (1 t)
    then have "t \<noteq> cur (kn S)" "t \<noteq> next_of (kn S)" using gone run by auto
    then show ?case using 1 pinvD(1) [OF d(4), of t] same by simp
  next
    case (2 t)
    have tc: "t \<noteq> cur (kn S)" using 2 gone by auto
    have "status_of (kn S) t \<noteq> None \<and> status_of (kn S) t \<noteq> Some THREAD_DYING"
    proof (cases "t = next_of (kn S)")
      case True
      then show ?thesis using nw by auto
    next
      case False
      then show ?thesis using 2 same [OF tc] by simp
    qed
    then show ?case using pinvD(2) [OF d(4), of t] k(3) by (simp add: frame_def)
  next
    case (3 u t)
    then have t: "status_of (kn S) t = Some THREAD_BLOCKED" "\<exists>c. pcs S t = Down u c" "t \<noteq> idle_thread (kn S)"
      using pinvD(3) [OF d(4), of t u] kcoreD(6) [OF d(1), of t u] by (auto simp: k(5))
    then have "t \<noteq> cur (kn S)" "t \<noteq> next_of (kn S)" using r next_of_waits [OF d(1)] by auto
    then show ?case using t same by simp
  next
    case (4 t)
    then show ?case using pinvD(4) [OF d(4), of t] by simp
  next
    case (5 t)
    show ?case
    proof (cases "t = cur (kn S)")
      case True
      then show ?thesis using run0 by (simp add: at_def)
    next
      case False
      moreover have "t \<noteq> next_of (kn S)" using 5 run by auto
      ultimately show ?thesis using 5 same [of t] pinvD(5) [OF d(4), of t] by simp
    qed
  qed
  moreover have "off (pcs S (cur k))" using pinvD(1) [OF d(4), of "cur k"] nw k(6) by simp
  moreover have "minv (status_of k) ((pcs S)(cur (kn S) := pcs S (cur (kn S))))
      ((mks S)(cur (kn S) := mks S (cur (kn S))))"
  proof (rule minv_upd [OF d(7) refl d(8)])
    show "status_of (kn S) t = None \<or> status_of (kn S) t = Some THREAD_DYING"
      if "t \<noteq> cur (kn S)" "status_of k t = None \<or> status_of k t = Some THREAD_DYING" for t
      using that same [of t] run by (cases "t = next_of (kn S)") auto
    show "mks S (cur (kn S)) = No_creation" using run0 by (simp add: mk_def)
    fix t
    assume t: "t \<in> newborn (mks S)"
    then have "status_of (kn S) t = Some THREAD_BLOCKED" "t \<noteq> idle_thread (kn S)" using kcoreD(12) [OF d(1)] by blast+
    then have "t \<noteq> cur (kn S)" "t \<noteq> next_of (kn S)" using r next_of_waits [OF d(1)] by auto
    then show "status_of k t = Some THREAD_BLOCKED" using same minvD(4) [OF d(7) t] by simp
  qed
  ultimately show ?thesis using k by (simp add: sinv_def at_def)
qed

lemma step_sinv:
  assumes "step S S'" "sinv S"
  shows "sinv S'"
  using assms
proof (induction rule: step.induct)
  case (s_start S)
  note d = sinvD [OF s_start(2)]
  show ?case by (rule sinv_local [OF s_start(2)]) (use d s_start(1) in \<open>simp_all add: kcore_fields\<close>)
next
  case (s_yielded S p)
  note d = sinvD [OF s_yielded(2)]
  show ?case by (rule sinv_local [OF s_yielded(2)]) (use d s_yielded(1) in \<open>simp_all add: kcore_fields\<close>)
next
  case (s_idle S k)
  note d = sinvD [OF s_idle(3)]
  have ci: "cur (kn S) = idle_thread (kn S)" using d(5) s_idle(1) by simp
  have "left_as (newborn (mks S)) THREAD_BLOCKED (kn S) k" "cur k = next_of (kn S)" "semas k = semas (kn S)"
    using idle_block_ok [OF d(1,2) ci] s_idle(2) by auto
  then show ?case
    by (intro sinv_leave [OF s_idle(3), of THREAD_BLOCKED]) (use next_of_waits [OF d(1)] s_idle(1) in \<open>auto\<close>)
next
  case (s_idle_woken S)
  note d = sinvD [OF s_idle_woken(2)]
  show ?case by (rule sinv_local [OF s_idle_woken(2)]) (use d s_idle_woken(1) in \<open>simp_all add: kcore_fields\<close>)
next
  case (s_down S k s)
  note d = sinvD [OF s_down(3)]
  have "k = (kn S)\<lparr>intr_on := False\<rparr>" using s_down(2) by (simp add: sema_down_enter_def split: if_splits)
  then show ?case
    by (intro sinv_local [OF s_down(3)]) (use d s_down(1) in \<open>simp_all add: kcore_fields calls_def\<close>)
next
  case (s_acquire S l k)
  note d = sinvD [OF s_acquire(5)]
  have "k = (kn S)\<lparr>intr_on := False\<rparr>" using s_acquire(4) by (simp add: sema_down_enter_def split: if_splits)
  then show ?case
    by (intro sinv_local [OF s_acquire(5)]) (use d s_acquire(1) in \<open>simp_all add: kcore_fields calls_def\<close>)
next
  case (s_sleep S s c k)
  note d = sinvD [OF s_sleep(3)]
  have ci: "cur (kn S) \<noteq> idle_thread (kn S)" and io: "\<not> intr_on (kn S)" using d(3,5) s_sleep(1) by simp_all
  have z: "sval (semas (kn S) s) = 0" using s_sleep(2) by (auto simp: sema_down_iter_def split: if_splits)
  have k: "left_as (newborn (mks S)) THREAD_BLOCKED (kn S) k" "cur k = next_of (kn S)"
     "semas k = (semas (kn S))(s := (semas (kn S) s)\<lparr>waiters := waiters (semas (kn S) s) @ [cur (kn S)]\<rparr>)"
    using sema_wait_ok [OF d(1,2) io ci z, of True] s_sleep(2) by auto
  have "next_of (kn S) \<noteq> cur (kn S)" using next_of_waits [OF d(1)] current_ok(2) [OF d(1,2)] ci by auto
  then show ?case using k
    by (intro sinv_leave [OF s_sleep(3), of THREAD_BLOCKED]) (use next_of_waits [OF d(1)] d(6) s_sleep(1) in \<open>auto split: if_splits\<close>)
next
  case (s_got S s c k)
  note d = sinvD [OF s_got(3)]
  have z: "sval (semas (kn S) s) \<noteq> 0"
    using s_got(2) by (auto simp: sema_down_iter_def Option.bind_eq_Some_conv split: if_splits)
  show ?case using sema_got_ok [OF d(1,2) z s_got(2)]
    by (intro sinv_local [OF s_got(3)]) (use d s_got(1) in \<open>auto simp: frame_def split: option.split\<close>)
next
  case (s_take S l k)
  note d = sinvD [OF s_take(3)]
  have "k = (kn S)\<lparr>holder := (holder (kn S))(l := cur (kn S))\<rparr>"
    using s_take(2) current_ok(1) [OF d(1,2)] by (simp add: lock_take_def)
  then show ?case by (intro sinv_local [OF s_take(3)]) (use d s_take(1) in \<open>simp_all add: kcore_fields\<close>)
next
  case (s_release S l k)
  note d = sinvD [OF s_release(4)]
  have "k = (kn S)\<lparr>holder := (holder (kn S))(l := 0)\<rparr>"
    using s_release(3) current_ok(1) [OF d(1,2)]
    by (simp add: lock_drop_def lock_held_by_current_thread_def split: if_splits)
  then show ?case by (intro sinv_local [OF s_release(4)]) (use d s_release(1) in \<open>simp_all add: kcore_fields calls_def\<close>)
next
  case (s_drop S l k)
  then show ?case by (intro sinv_wake [OF s_drop(3,2)]) simp_all
next
  case (s_up S s k)
  then show ?case by (intro sinv_wake [OF s_up(3,2)]) (simp_all add: calls_def)
next
  case (s_intr_up S s k)
  then show ?case using sinvD [OF s_intr_up(3)] by (intro sinv_wake [OF s_intr_up(3,2)]) simp_all
next
  case (s_try S s b k)
  note d = sinvD [OF s_try(3)]
  show ?case using try_down_ok [OF d(1,2) s_try(2)]
    by (intro sinv_local [OF s_try(3)]) (use d s_try(1) in \<open>auto simp: frame_def calls_def\<close>)
next
  case (s_try_lock S l b k)
  note d = sinvD [OF s_try_lock(4)]
  have "sema_try_down (Sem_of_lock l) (kn S) = (b, k)"
    using s_try_lock(3) by (auto simp: lock_try_acquire_def Option.bind_eq_Some_conv split: if_splits)
  then show ?case using try_down_ok [OF d(1,2)]
    by (intro sinv_local [OF s_try_lock(4)]) (use d s_try_lock(1) in \<open>auto simp: frame_def calls_def\<close>)
next
  case (s_yield S k)
  note d = sinvD [OF s_yield(3)]
  have "left_as (newborn (mks S)) THREAD_READY (kn S) k" "semas k = semas (kn S)"
    "cur k = cur (kn S) \<or> status_of (kn S) (cur k) = Some THREAD_READY \<or> cur k = idle_thread (kn S)"
    using thread_yield_ok [OF d(1,2)] s_yield(2) kcoreD(5) [OF d(1)]
    by (cases "fifo_ready_list (kn S)"; auto simp: Let_def split: if_splits)+
  then show ?case by (intro sinv_leave [OF s_yield(3), of THREAD_READY]) (use s_yield(1) in \<open>simp_all add: calls_def\<close>)
next
  case (s_tick S k)
  note d = sinvD [OF s_tick(2)]
  have io: "intr_on (kn S)" using s_tick(1) by (simp add: timer_interrupt_def split: if_splits)
  show ?case using timer_ok [OF d(1,2) io] s_tick(1)
    by (intro sinv_local [OF s_tick(2)]) (use d io in \<open>auto simp: frame_def\<close>)
next
  case (s_preempt S k)
  note d = sinvD [OF s_preempt(2)]
  have io: "intr_on (kn S)" using s_preempt(1) by (simp add: timer_interrupt_def split: if_splits)
  have "left_as (newborn (mks S)) THREAD_READY (kn S) k" "semas k = semas (kn S)"
    "cur k = cur (kn S) \<or> status_of (kn S) (cur k) = Some THREAD_READY \<or> cur k = idle_thread (kn S)"
    using timer_ok [OF d(1,2) io] s_preempt(1) by auto
  then show ?case by (intro sinv_leave [OF s_preempt(2), of THREAD_READY]) (use d io in \<open>simp_all\<close>)
next
  case (s_create S page name pri k)
  then show ?case by (intro sinv_create)
next
  case (s_tid_acquire S page k)
  note d = sinvD [OF s_tid_acquire(5)]
  have "k = (kn S)\<lparr>intr_on := False\<rparr>" using s_tid_acquire(4) by (simp add: sema_down_enter_def split: if_splits)
  then show ?case
    by (intro sinv_making [OF s_tid_acquire(5)]) (use d s_tid_acquire(1,2) in \<open>simp_all add: kcore_fields\<close>)
next
  case (s_tid S page t k)
  note d = sinvD [OF s_tid(4)]
  show ?case using take_tid_ok [OF d(1,2) s_tid(3)]
    by (intro sinv_making [OF s_tid(4)]) (use d s_tid(1,2) in \<open>simp_all add: beside_def frame_def\<close>)
next
  case (s_tid_release S page t k)
  note d = sinvD [OF s_tid_release(4)]
  have "k = (kn S)\<lparr>holder := (holder (kn S))(tid_lock := 0)\<rparr>"
    using s_tid_release(3) current_ok(1) [OF d(1,2)]
    by (simp add: lock_drop_def lock_held_by_current_thread_def split: if_splits)
  then show ?case
    by (intro sinv_making [OF s_tid_release(4)]) (use d s_tid_release(1,2) in \<open>simp_all add: kcore_fields\<close>)
next
  case (s_frames S page t k)
  note d = sinvD [OF s_frames(4)]
  have "making (mks S (cur (kn S))) = Some page" using s_frames(2) by (simp add: mk_def)
  then have "page \<in> newborn (mks S)" by (auto simp: newborn_def)
  from create_frames_ok [OF d(1,2) this, of t] s_frames(3)
  have "kcore (newborn (mks S)) k" "krun k" "beside (kn S) k" "status_of k = status_of (kn S)" by auto
  then show ?case
    by (intro sinv_making [OF s_frames(4)]) (use d s_frames(1,2) in \<open>simp_all add: beside_def frame_def\<close>)
next
  case (s_unblock S page k)
  then show ?case by (intro sinv_unblock)
next
  case (s_exit S k)
  then show ?case by (intro sinv_exit)
qed

end
