(* ===== verification/Synch_Spec.thy ===== *)
theory Synch_Spec
  imports Threads
begin

text \<open>
  Start-up of the thread system and what holds in every state it reaches: the scheduler invariant,
  absence of panics, no lost wakeups, mutual exclusion of locks. The last two are proved on an
  abstract specification of semaphores and locks, without scheduler and interrupts, that the
  kernel is shown to refine.
\<close>

section \<open>Start-up\<close>

text \<open>
  The kernel before \<open>thread_init\<close>, with the initial values of the semaphores as a parameter and
  every lock initialised. \<open>thread_start\<close> runs until the main thread sleeps on \<open>idle_started\<close>;
  the idle thread then runs the beginning of \<open>idle\<close>.
\<close>

definition reset :: "(nat \<Rightarrow> nat) \<Rightarrow> kern" where
  "reset sv = \<lparr>thr = (\<lambda>_. None), fifo_ready_list = [], all_list = [], idle_thread = 0, initial_thread = 0, cur = 0,
     next_tid = 1, policy = SCHED_FIFO, intr_on = False, intr_ctx = False, yield_on_return = False,
     idle_ticks = 0, kernel_ticks = 0, user_ticks = 0, thread_ticks = 0,
     semas = (\<lambda>s. case s of Sem x \<Rightarrow> \<lparr>sval = sv x, waiters = []\<rparr> | Sem_of_lock l \<Rightarrow> \<lparr>sval = 1, waiters = []\<rparr>),
     holder = (\<lambda>_. 0)\<rparr>"

definition thread_start :: "sem_id \<Rightarrow> nat \<Rightarrow> kern \<Rightarrow> kern option" where
  "thread_start idle_started page k = do {
     let k1 = sema_init idle_started 0 k;
     (_, k2) \<leftarrow> thread_create page ''idle'' PRI_MIN k1;
     let k3 = k2\<lparr>intr_on := True\<rparr>;
     (old_level, k4) \<leftarrow> sema_down_enter k3;
     r \<leftarrow> sema_down_iter idle_started old_level k4;
     Some (case r of Inl k5 \<Rightarrow> k5 | Inr k5 \<Rightarrow> k5)
   }"

definition idle_begin :: "sem_id \<Rightarrow> kern \<Rightarrow> kern option" where
  "idle_begin idle_started k = do {
     let k1 = k\<lparr>intr_on := True\<rparr>;
     t \<leftarrow> thread_current k1;
     sema_up idle_started (k1\<lparr>idle_thread := t\<rparr>)
   }"

definition started :: "(nat \<Rightarrow> nat) \<Rightarrow> nat \<Rightarrow> nat \<Rightarrow> kern option" where
  "started sv main idle = do {
     k1 \<leftarrow> thread_init main (reset sv);
     k2 \<leftarrow> thread_start (Sem 0) idle k1;
     idle_begin (Sem 0) k2
   }"

inductive reachable :: "sys \<Rightarrow> bool" where
  r_start: "main \<noteq> 0 \<Longrightarrow> idle \<noteq> 0 \<Longrightarrow> idle \<noteq> main \<Longrightarrow> started sv main idle = Some k \<Longrightarrow>
    reachable \<lparr>kn = k, pcs = (\<lambda>_. Run)(main := Down (Sem 0) None, idle := Idle), mks = (\<lambda>_. No_creation)\<rparr>"
| r_step: "reachable S \<Longrightarrow> step S S' \<Longrightarrow> reachable S'"

lemma started_ok:
  assumes "main \<noteq> 0" "idle \<noteq> 0" "idle \<noteq> main"
  shows "\<exists>k. started sv main idle = Some k \<and>
    status_of k = [main \<mapsto> THREAD_READY, idle \<mapsto> THREAD_RUNNING] \<and> fifo_ready_list k = [main] \<and>
    all_list k = [main, idle] \<and> idle_thread k = idle \<and> initial_thread k = main \<and> cur k = idle \<and>
    policy k = SCHED_FIFO \<and> intr_on k \<and> \<not> intr_ctx k \<and> holder k = (\<lambda>_. 0) \<and>
    semas k = (semas (reset sv))(Sem 0 := \<lparr>sval = 1, waiters = []\<rparr>) \<and>
    (\<forall>t th. thr k t = Some th \<longrightarrow> magic th = THREAD_MAGIC)"
  using assms
  by (auto simp: started_def thread_init_def init_thread_def reset_def thread_start_def thread_create_def
      allocate_tid_def take_tid_def create_frames_def lock_init_def lock_acquire_check_def
      lock_held_by_current_thread_def lock_take_def lock_drop_def wrap32_def tid_lock_def
      alloc_frame_def is_thread_def set_tid_def thread_unblock_def thread_enqueue_def
      set_status_def status_of_def Let_def sema_init_def set_sema_def sema_down_enter_def sema_down_iter_def
      thread_current_def thread_block_def schedule_def next_thread_to_run_def thread_schedule_fifo_def
      thread_switch_tail_def idle_begin_def sema_up_def PRI_MIN_def PRI_DEFAULT_def PRI_MAX_def
      split: if_splits)

lemma sinv_started:
  assumes "main \<noteq> 0" "idle \<noteq> 0" "idle \<noteq> main" "started sv main idle = Some k"
  shows "sinv \<lparr>kn = k, pcs = (\<lambda>_. Run)(main := Down (Sem 0) None, idle := Idle), mks = (\<lambda>_. No_creation)\<rparr>"
proof -
  have k: "status_of k = [main \<mapsto> THREAD_READY, idle \<mapsto> THREAD_RUNNING]" "fifo_ready_list k = [main]"
    "all_list k = [main, idle]" "idle_thread k = idle" "initial_thread k = main" "cur k = idle"
    "policy k = SCHED_FIFO" "intr_on k" "\<not> intr_ctx k"
    "semas k = (semas (reset sv))(Sem 0 := \<lparr>sval = 1, waiters = []\<rparr>)"
    "\<forall>t th. thr k t = Some th \<longrightarrow> magic th = THREAD_MAGIC"
    using started_ok [OF assms(1-3), of sv] assms(4) by auto
  have W: "waiters (semas k s) = []" for s by (simp add: k(10) reset_def split: sem_id.split)
  have nb: "newborn (\<lambda>_. No_creation) = {}" by (simp add: newborn_def)
  then have "minv (status_of k) ((\<lambda>_. Run)(main := Down (Sem 0) None, idle := Idle)) (\<lambda>_. No_creation)"
    by (simp add: minv_def)
  moreover have "cinv {} (status_of k) [main] (\<lambda>s. waiters (semas k s)) idle main idle [main, idle]"
    by (rule cinvfI [where f = "\<lambda>_. Sem 0"]) (use assms(1-3) in \<open>auto simp: k(1) W split: if_splits\<close>)
  moreover have "runs (status_of k) idle" using assms(1-3) by (simp add: runs_def k(1))
  moreover have "pinv (status_of k) ((\<lambda>_. Run)(main := Down (Sem 0) None, idle := Idle)) idle (semas k)"
    by (rule pinvI) (use assms(1-3) in \<open>auto simp: k(1) W split: if_splits\<close>)
  ultimately show ?thesis using k assms(3) by (simp add: sinv_def kcore_def krun_def at_def nb)
qed

lemma reachable_sinv: "reachable S \<Longrightarrow> sinv S"
proof (induction rule: reachable.induct)
  case (r_start main idle sv k)
  then show ?case by (rule sinv_started)
next
  case (r_step S S')
  then show ?case by (blast intro: step_sinv)
qed

section \<open>Semaphores and locks, abstractly\<close>

text \<open>Where a thread is with respect to the primitives.\<close>

fun core :: "pc \<Rightarrow> pc" where
  "core (Yielded p) = core p"
| "core (Down s c) = Down s c"
| "core (Take l) = Take l"
| "core (Drop l) = Drop l"
| "core p = Run"

record spec =
  sem :: "sem_id \<Rightarrow> semaphore"
  ctl :: "nat \<Rightarrow> pc"
  owner :: "nat \<Rightarrow> nat"

definition abs_sys :: "sys \<Rightarrow> spec" where
  "abs_sys S = \<lparr>sem = semas (kn S), ctl = (\<lambda>t. core (pcs S t)), owner = holder (kn S)\<rparr>"

definition sem_post :: "semaphore \<Rightarrow> semaphore" where
  "sem_post x = \<lparr>sval = wrap32 (sval x + 1), waiters = tl (waiters x)\<rparr>"

definition sem_take :: "semaphore \<Rightarrow> semaphore" where
  "sem_take x = x\<lparr>sval := sval x - 1\<rparr>"

inductive sstep :: "spec \<Rightarrow> spec \<Rightarrow> bool" where
  a_wait: "ctl A t = Run \<Longrightarrow> sstep A (A\<lparr>ctl := (ctl A)(t := Down (Sem s) None)\<rparr>)"
| a_acquire: "ctl A t = Run \<Longrightarrow> owner A l \<noteq> t \<Longrightarrow>
    sstep A (A\<lparr>ctl := (ctl A)(t := Down (Sem_of_lock l) (Some l))\<rparr>)"
| a_sleep: "ctl A t = Down s c \<Longrightarrow> t \<notin> set (waiters (sem A s)) \<Longrightarrow> sval (sem A s) = 0 \<Longrightarrow>
    sstep A (A\<lparr>sem := (sem A)(s := (sem A s)\<lparr>waiters := waiters (sem A s) @ [t]\<rparr>)\<rparr>)"
| a_got: "ctl A t = Down s c \<Longrightarrow> t \<notin> set (waiters (sem A s)) \<Longrightarrow> sval (sem A s) \<noteq> 0 \<Longrightarrow>
    sstep A (A\<lparr>sem := (sem A)(s := sem_take (sem A s)),
        ctl := (ctl A)(t := (case c of None \<Rightarrow> Run | Some l \<Rightarrow> Take l))\<rparr>)"
| a_take: "ctl A t = Take l \<Longrightarrow> t \<noteq> 0 \<Longrightarrow> sstep A (A\<lparr>ctl := (ctl A)(t := Run), owner := (owner A)(l := t)\<rparr>)"
| a_release: "ctl A t = Run \<Longrightarrow> owner A l = t \<Longrightarrow> t \<noteq> 0 \<Longrightarrow>
    sstep A (A\<lparr>ctl := (ctl A)(t := Drop l), owner := (owner A)(l := 0)\<rparr>)"
| a_drop: "ctl A t = Drop l \<Longrightarrow>
    sstep A (A\<lparr>sem := (sem A)(Sem_of_lock l := sem_post (sem A (Sem_of_lock l))), ctl := (ctl A)(t := Run)\<rparr>)"
| a_up: "sstep A (A\<lparr>sem := (sem A)(Sem x := sem_post (sem A (Sem x)))\<rparr>)"
| a_try: "sval (sem A (Sem x)) \<noteq> 0 \<Longrightarrow> sstep A (A\<lparr>sem := (sem A)(Sem x := sem_take (sem A (Sem x)))\<rparr>)"
| a_try_lock: "ctl A t = Run \<Longrightarrow> owner A l \<noteq> t \<Longrightarrow> sval (sem A (Sem_of_lock l)) \<noteq> 0 \<Longrightarrow>
    sstep A (A\<lparr>sem := (sem A)(Sem_of_lock l := sem_take (sem A (Sem_of_lock l))), ctl := (ctl A)(t := Take l)\<rparr>)"

lemma spec_upd:
  "A\<lparr>sem := x\<rparr> = \<lparr>sem = x, ctl = ctl A, owner = owner A\<rparr>"
  "A\<lparr>ctl := p\<rparr> = \<lparr>sem = sem A, ctl = p, owner = owner A\<rparr>"
  "A\<lparr>owner := h\<rparr> = \<lparr>sem = sem A, ctl = ctl A, owner = h\<rparr>"
  by simp_all

lemma abs_goto:
  "abs_sys (goto q k S) = \<lparr>sem = semas k, ctl = (ctl (abs_sys S))(cur (kn S) := core q), owner = holder k\<rparr>"
  by (auto simp: abs_sys_def goto_def fun_eq_iff)

lemma abs_creating: "abs_sys (creating m q k S) = abs_sys (goto q k S)"
  by (simp add: abs_sys_def goto_def creating_def)

lemma abs_stutter:
  assumes "semas k = semas (kn S)" "holder k = holder (kn S)" "core q = core (at S)"
  shows "abs_sys (goto q k S) = abs_sys S"
  using assms by (auto simp: goto_def abs_sys_def at_def fun_eq_iff)

lemma abs_sel [simp]:
  "sem (abs_sys S) = semas (kn S)" "owner (abs_sys S) = holder (kn S)" "ctl (abs_sys S) (cur (kn S)) = core (at S)"
  by (simp_all add: abs_sys_def at_def)

lemma sema_up_fields:
  assumes "sinv S" "sema_up s (kn S) = Some k"
  shows "semas k = (semas (kn S))(s := sem_post (semas (kn S) s))" "holder k = holder (kn S)"
  using sema_up_ok [OF sinvD(1,2) [OF assms(1)], of s] assms(2) by (auto simp: sem_post_def frame_def)

lemma down_fields:
  assumes "sinv S" "at S = Down s c" "sema_down_iter s True (kn S) = Some r"
  shows "cur (kn S) \<notin> set (waiters (semas (kn S) s))"
    "sval (semas (kn S) s) = 0 \<Longrightarrow> \<exists>k. r = Inl k \<and> holder k = holder (kn S) \<and>
      semas k = (semas (kn S))(s := (semas (kn S) s)\<lparr>waiters := waiters (semas (kn S) s) @ [cur (kn S)]\<rparr>)"
    "sval (semas (kn S) s) \<noteq> 0 \<Longrightarrow> \<exists>k. r = Inr k \<and> holder k = holder (kn S) \<and>
      semas k = (semas (kn S))(s := sem_take (semas (kn S) s))"
proof -
  note d = sinvD [OF assms(1)]
  have ci: "cur (kn S) \<noteq> idle_thread (kn S)" and io: "\<not> intr_on (kn S)" using d(3,5) assms(2) by simp_all
  show "cur (kn S) \<notin> set (waiters (semas (kn S) s))"
    using kcoreD(6) [OF d(1), of "cur (kn S)" s] current_ok(2) [OF d(1,2)] by auto
  show "\<exists>k. r = Inl k \<and> holder k = holder (kn S) \<and>
      semas k = (semas (kn S))(s := (semas (kn S) s)\<lparr>waiters := waiters (semas (kn S) s) @ [cur (kn S)]\<rparr>)"
    if "sval (semas (kn S) s) = 0"
    using sema_wait_ok [OF d(1,2) io ci that, of True] assms(3) by (auto simp: left_as_def frame_def)
  show "\<exists>k. r = Inr k \<and> holder k = holder (kn S) \<and> semas k = (semas (kn S))(s := sem_take (semas (kn S) s))"
    if "sval (semas (kn S) s) \<noteq> 0"
    using sema_got_ok [OF d(1,2) that refl, of True] assms(3) by (auto simp: sem_take_def frame_def)
qed

lemma newbornI: "mk S = m \<Longrightarrow> making m = Some p \<Longrightarrow> p \<in> newborn (mks S)"
  by (auto simp: newborn_def mk_def)

lemma step_refines:
  assumes "step S S'" "sinv S"
  shows "abs_sys S' = abs_sys S \<or> sstep (abs_sys S) (abs_sys S')"
  using assms
proof (induction rule: step.induct)
  case (s_start S)
  then show ?case by (intro disjI1 abs_stutter) simp_all
next
  case (s_yielded S p)
  then show ?case by (intro disjI1 abs_stutter) simp_all
next
  case (s_idle S k)
  note d = sinvD [OF s_idle(3)]
  have "cur (kn S) = idle_thread (kn S)" using d(5) s_idle(1) by simp
  then show ?case using idle_block_ok [OF d(1,2)] s_idle(1,2)
    by (intro disjI1 abs_stutter) (auto simp: left_as_def frame_def)
next
  case (s_idle_woken S)
  then show ?case by (intro disjI1 abs_stutter) simp_all
next
  case (s_down S k s)
  have "k = (kn S)\<lparr>intr_on := False\<rparr>" using s_down(2) by (simp add: sema_down_enter_def split: if_splits)
  then show ?case using a_wait [of "abs_sys S" "cur (kn S)" s] s_down(1) by (simp add: calls_def spec_upd abs_goto)
next
  case (s_acquire S l k)
  note d = sinvD [OF s_acquire(5)]
  have "k = (kn S)\<lparr>intr_on := False\<rparr>" using s_acquire(4) by (simp add: sema_down_enter_def split: if_splits)
  moreover have "holder (kn S) l \<noteq> cur (kn S)"
    using s_acquire(3) current_ok(1) [OF d(1,2)]
    by (auto simp: lock_acquire_check_def lock_held_by_current_thread_def split: if_splits)
  ultimately show ?case using a_acquire [of "abs_sys S" "cur (kn S)" l] s_acquire(1) by (simp add: calls_def spec_upd abs_goto)
next
  case (s_sleep S s c k)
  note f = down_fields [OF s_sleep(3,1,2)]
  have z: "sval (semas (kn S) s) = 0" using f(3) by auto
  then show ?case using a_sleep [of "abs_sys S" "cur (kn S)" s c] f(1) f(2) [OF z] s_sleep(1)
    by (simp add: spec_upd abs_goto fun_upd_idem)
next
  case (s_got S s c k)
  note f = down_fields [OF s_got(3,1,2)]
  have z: "sval (semas (kn S) s) \<noteq> 0" using f(2) by auto
  have "core (case c of None \<Rightarrow> Run | Some l \<Rightarrow> Take l) = (case c of None \<Rightarrow> Run | Some l \<Rightarrow> Take l)"
    by (simp split: option.split)
  then show ?case using a_got [of "abs_sys S" "cur (kn S)" s c] f(1) f(3) [OF z] s_got(1) z by (simp add: spec_upd abs_goto)
next
  case (s_take S l k)
  note d = sinvD [OF s_take(3)]
  have "k = (kn S)\<lparr>holder := (holder (kn S))(l := cur (kn S))\<rparr>"
    using s_take(2) current_ok(1) [OF d(1,2)] by (simp add: lock_take_def)
  moreover have "cur (kn S) \<noteq> 0" using kcoreD(1) [OF d(1)] current_ok(2) [OF d(1,2)] by (metis option.distinct(1))
  ultimately show ?case using a_take [of "abs_sys S" "cur (kn S)" l] s_take(1) by (simp add: spec_upd abs_goto)
next
  case (s_release S l k)
  note d = sinvD [OF s_release(4)]
  have "k = (kn S)\<lparr>holder := (holder (kn S))(l := 0)\<rparr>" "holder (kn S) l = cur (kn S)"
    using s_release(3) current_ok(1) [OF d(1,2)]
    by (simp_all add: lock_drop_def lock_held_by_current_thread_def split: if_splits)
  moreover have "cur (kn S) \<noteq> 0" using kcoreD(1) [OF d(1)] current_ok(2) [OF d(1,2)] by (metis option.distinct(1))
  ultimately show ?case using a_release [of "abs_sys S" "cur (kn S)" l] s_release(1) by (simp add: calls_def spec_upd abs_goto)
next
  case (s_drop S l k)
  show ?case using a_drop [of "abs_sys S" "cur (kn S)" l] s_drop(1) sema_up_fields [OF s_drop(3,2)]
    by (simp add: spec_upd abs_goto)
next
  case (s_up S s k)
  show ?case using a_up [of "abs_sys S" s] s_up(1) sema_up_fields [OF s_up(3,2)]
    by (simp add: calls_def spec_upd abs_goto fun_upd_idem)
next
  case (s_intr_up S s k)
  show ?case using a_up [of "abs_sys S" s] sema_up_fields [OF s_intr_up(3,2)]
    by (simp add: spec_upd abs_goto fun_upd_idem)
next
  case (s_try S s b k)
  note d = sinvD [OF s_try(3)]
  note t = try_down_ok [OF d(1,2) s_try(2)]
  show ?case
  proof (cases "sval (semas (kn S) (Sem s)) = 0")
    case True
    then have "semas k = semas (kn S)" using t(8) by (simp add: sval_same)
    then show ?thesis using t(3) s_try(1) by (intro disjI1 abs_stutter) (simp_all add: frame_def calls_def)
  next
    case False
    then show ?thesis using a_try [of "abs_sys S" s] t(3,8) s_try(1)
      by (simp add: calls_def spec_upd abs_goto fun_upd_idem sem_take_def frame_def)
  qed
next
  case (s_try_lock S l b k)
  note d = sinvD [OF s_try_lock(4)]
  have t: "sema_try_down (Sem_of_lock l) (kn S) = (b, k)" and h: "holder (kn S) l \<noteq> cur (kn S)"
    using s_try_lock(3) current_ok(1) [OF d(1,2)]
    by (auto simp: lock_try_acquire_def lock_held_by_current_thread_def split: if_splits)
  note t' = try_down_ok [OF d(1,2) t] and run = s_try_lock(1) [unfolded calls_def, THEN conjunct1]
  show ?case
  proof (cases b)
    case True
    then show ?thesis using a_try_lock [of "abs_sys S" "cur (kn S)" l] t'(3,7,8) run h
      by (simp add: spec_upd abs_goto sem_take_def frame_def)
  next
    case False
    then have "semas k = semas (kn S)" using t'(7,8) by (simp add: sval_same)
    then show ?thesis using t'(3) run False by (intro disjI1 abs_stutter) (simp_all add: frame_def)
  qed
next
  case (s_yield S k)
  note d = sinvD [OF s_yield(3)]
  show ?case using thread_yield_ok [OF d(1,2)] s_yield(1,2)
    by (intro disjI1 abs_stutter) (auto simp: left_as_def frame_def calls_def)
next
  case (s_tick S k)
  note d = sinvD [OF s_tick(2)]
  have "intr_on (kn S)" using s_tick(1) by (simp add: timer_interrupt_def split: if_splits)
  then show ?case using timer_ok [OF d(1,2)] s_tick(1) by (intro disjI1 abs_stutter) (auto simp: frame_def)
next
  case (s_preempt S k)
  note d = sinvD [OF s_preempt(2)]
  have "intr_on (kn S)" using s_preempt(1) by (simp add: timer_interrupt_def split: if_splits)
  then show ?case using timer_ok [OF d(1,2)] s_preempt(1)
    by (intro disjI1 abs_stutter) (auto simp: left_as_def frame_def)
next
  case (s_create S page name pri k)
  note d = sinvD [OF s_create(5)]
  have pri: "PRI_MIN \<le> pri" "pri \<le> PRI_MAX"
    using s_create(4) by (auto simp: init_thread_def split: if_splits)
  have "pcs S page = Run" using pinvD(5) [OF d(4), of page] s_create(3) by (simp add: status_of_def)
  moreover have "semas k = semas (kn S)" "holder k = holder (kn S)"
    using init_thread_ok [OF d(1,2) s_create(3,2) pri, of name] s_create(4) by (auto simp: beside_def frame_def)
  ultimately show ?case by (auto simp: abs_sys_def fun_eq_iff)
next
  case (s_tid_acquire S page k)
  note d = sinvD [OF s_tid_acquire(5)]
  have "k = (kn S)\<lparr>intr_on := False\<rparr>" using s_tid_acquire(4) by (simp add: sema_down_enter_def split: if_splits)
  moreover have "holder (kn S) tid_lock \<noteq> cur (kn S)"
    using s_tid_acquire(3) current_ok(1) [OF d(1,2)]
    by (auto simp: lock_acquire_check_def lock_held_by_current_thread_def split: if_splits)
  ultimately show ?case using a_acquire [of "abs_sys S" "cur (kn S)" tid_lock] s_tid_acquire(1)
    by (simp add: spec_upd abs_goto abs_creating)
next
  case (s_tid S page t k)
  note d = sinvD [OF s_tid(4)]
  show ?case using take_tid_ok(3) [OF d(1,2) s_tid(3)] s_tid(1) unfolding abs_creating
    by (intro disjI1 abs_stutter) (simp_all add: beside_def frame_def)
next
  case (s_tid_release S page t k)
  note d = sinvD [OF s_tid_release(4)]
  have "k = (kn S)\<lparr>holder := (holder (kn S))(tid_lock := 0)\<rparr>" "holder (kn S) tid_lock = cur (kn S)"
    using s_tid_release(3) current_ok(1) [OF d(1,2)]
    by (simp_all add: lock_drop_def lock_held_by_current_thread_def split: if_splits)
  moreover have "cur (kn S) \<noteq> 0" using kcoreD(1) [OF d(1)] current_ok(2) [OF d(1,2)] by (metis option.distinct(1))
  ultimately show ?case using a_release [of "abs_sys S" "cur (kn S)" tid_lock] s_tid_release(1)
    by (simp add: spec_upd abs_goto abs_creating)
next
  case (s_frames S page t k)
  note d = sinvD [OF s_frames(4)]
  have "page \<in> newborn (mks S)" using s_frames(2) by (rule newbornI) simp
  from create_frames_ok [OF d(1,2) this, of t] s_frames(1,3) show ?case unfolding abs_creating
    by (intro disjI1 abs_stutter) (auto simp: beside_def frame_def)
next
  case (s_unblock S page k)
  note d = sinvD [OF s_unblock(4)]
  have "page \<in> newborn (mks S)" using s_unblock(2) by (rule newbornI) simp
  from thread_unblock_ok [OF d(1,2) this] s_unblock(1,3) show ?case unfolding abs_creating
    by (intro disjI1 abs_stutter) (auto simp: beside_def frame_def)
next
  case (s_exit S k)
  note d = sinvD [OF s_exit(3)]
  have "cur (kn S) \<noteq> idle_thread (kn S)" using d(5) s_exit(1) by (simp add: calls_def)
  then show ?case using thread_exit_ok [OF d(1,2)] s_exit(2) by (auto simp: abs_sys_def frame_def)
qed

section \<open>Invariants of the specification\<close>

definition downers :: "spec \<Rightarrow> sem_id \<Rightarrow> nat set" where
  "downers A s = {t. \<exists>c. ctl A t = Down s c}"

definition owners :: "spec \<Rightarrow> nat \<Rightarrow> nat set" where
  "owners A l = {t. ctl A t = Take l \<or> ctl A t = Drop l \<or> (owner A l = t \<and> t \<noteq> 0)}"

definition wake_inv :: "spec \<Rightarrow> bool" where
  "wake_inv A \<longleftrightarrow> finite {t. ctl A t \<noteq> Run} \<and>
     (\<forall>s. distinct (waiters (sem A s)) \<and> set (waiters (sem A s)) \<subseteq> downers A s) \<and>
     (\<forall>s. waiters (sem A s) \<noteq> [] \<longrightarrow> sval (sem A s) \<le> card (downers A s - set (waiters (sem A s))))"

definition lock_inv :: "spec \<Rightarrow> bool" where
  "lock_inv A \<longleftrightarrow> (\<forall>t s c. ctl A t = Down s c \<longrightarrow> okpc (Down s c)) \<and>
     (\<forall>t l. ctl A t = Take l \<or> ctl A t = Drop l \<longrightarrow> owner A l = 0) \<and>
     (\<forall>l. (sval (sem A (Sem_of_lock l)) = 1 \<and> owners A l = {}) \<or>
          (sval (sem A (Sem_of_lock l)) = 0 \<and> (\<exists>t. owners A l = {t})))"

lemma finite_downers: "finite {t. ctl A t \<noteq> Run} \<Longrightarrow> finite (downers A s)"
  by (rule finite_subset [of _ "{t. ctl A t \<noteq> Run}"]) (auto simp: downers_def)

lemma finite_not_run: "finite {t. f t \<noteq> Run} \<Longrightarrow> finite {t. (f(u := q)) t \<noteq> Run}"
  by (rule finite_subset [of _ "insert u {t. f t \<noteq> Run}"]) auto

lemma finite_upd:
  "wake_inv A \<Longrightarrow> finite {x. x \<noteq> u \<longrightarrow> ctl A x \<noteq> Run}"
  "wake_inv A \<Longrightarrow> finite {x. x \<noteq> u \<and> ctl A x \<noteq> Run}"
  "wake_inv A \<Longrightarrow> finite {x. ctl A x \<noteq> Run}"
  by (rule finite_subset [of _ "insert u {t. ctl A t \<noteq> Run}"]; auto simp: wake_inv_def)+

lemma sem_post_fields [simp]: "sval (sem_post x) = wrap32 (sval x + 1)" "waiters (sem_post x) = tl (waiters x)"
  by (simp_all add: sem_post_def)

lemma sem_take_fields [simp]: "sval (sem_take x) = sval x - 1" "waiters (sem_take x) = waiters x"
  by (simp_all add: sem_take_def)

lemma wrap32_le: "wrap32 n \<le> n"
  by (simp add: wrap32_def)

lemma wake_invI:
  assumes "finite {t. ctl A t \<noteq> Run}" "\<And>s. distinct (waiters (sem A s))"
    "\<And>s. set (waiters (sem A s)) \<subseteq> downers A s"
    "\<And>s. waiters (sem A s) \<noteq> [] \<Longrightarrow> sval (sem A s) \<le> card (downers A s - set (waiters (sem A s)))"
  shows "wake_inv A"
  using assms by (simp add: wake_inv_def)

lemma wake_post:
  assumes w: "wake_inv A" and sem: "sem A' = (sem A)(s := sem_post (sem A s))"
    and dn: "\<And>u. downers A' u = downers A u" and fin: "finite {t. ctl A' t \<noteq> Run}"
  shows "wake_inv A'"
proof (rule wake_invI)
  show "finite {t. ctl A' t \<noteq> Run}" by (rule fin)
  fix u
  show "distinct (waiters (sem A' u))"
    using w by (simp add: wake_inv_def sem distinct_tl)
  show "set (waiters (sem A' u)) \<subseteq> downers A' u"
  proof -
    have "set (tl (waiters (sem A s))) \<subseteq> set (waiters (sem A s))" by (cases "waiters (sem A s)") auto
    moreover have "set (waiters (sem A v)) \<subseteq> downers A v" for v using w by (simp add: wake_inv_def)
    ultimately show ?thesis by (auto simp: sem dn)
  qed
  assume ne: "waiters (sem A' u) \<noteq> []"
  show "sval (sem A' u) \<le> card (downers A' u - set (waiters (sem A' u)))"
  proof (cases "u = s")
    case False
    then show ?thesis using w ne by (simp add: wake_inv_def sem dn)
  next
    case True
    then obtain x xs where x: "waiters (sem A s) = x # xs" "xs \<noteq> []"
      using ne by (cases "waiters (sem A s)") (auto simp: sem)
    have ws: "waiters (sem A s) \<noteq> [] \<longrightarrow> sval (sem A s) \<le> card (downers A s - set (waiters (sem A s)))"
      "distinct (waiters (sem A s)) \<and> set (waiters (sem A s)) \<subseteq> downers A s"
      using w unfolding wake_inv_def by blast+
    then have b: "sval (sem A s) \<le> card (downers A s - set (x # xs))" "x \<in> downers A s" "x \<notin> set xs"
      by (simp_all add: x)
    have f: "finite (downers A s - set (x # xs))" using w finite_downers [of A s] by (auto simp: wake_inv_def)
    have e: "downers A s - set xs = insert x (downers A s - set (x # xs))" using b(2,3) by auto
    have "card (insert x (downers A s - set (x # xs))) = Suc (card (downers A s - set (x # xs)))"
      by (rule card_insert_disjoint [OF f]) simp
    then have "card (downers A s - set xs) = Suc (card (downers A s - set (x # xs)))" by (simp only: e)
    moreover have "sval (sem A' u) \<le> sval (sem A s) + 1" using wrap32_le [of "sval (sem A s) + 1"] True by (simp add: sem)
    ultimately show ?thesis using b(1) True x by (simp add: sem dn)
  qed
qed

lemma wake_mono:
  assumes w: "wake_inv A" and fin: "finite {t. ctl A' t \<noteq> Run}"
    and wt: "\<And>s. waiters (sem A' s) = waiters (sem A s)" and v: "\<And>s. sval (sem A' s) \<le> sval (sem A s)"
    and dn: "\<And>s. downers A s \<subseteq> downers A' s"
  shows "wake_inv A'"
proof (rule wake_invI)
  show "finite {t. ctl A' t \<noteq> Run}" by (rule fin)
  fix u
  show "distinct (waiters (sem A' u))" using w by (simp add: wake_inv_def wt)
  show "set (waiters (sem A' u)) \<subseteq> downers A' u" using w dn [of u] by (auto simp: wake_inv_def wt)
  assume "waiters (sem A' u) \<noteq> []"
  then have "sval (sem A u) \<le> card (downers A u - set (waiters (sem A u)))" using w by (simp add: wake_inv_def wt)
  also have "\<dots> \<le> card (downers A' u - set (waiters (sem A u)))"
    using finite_downers [OF fin, of u] dn [of u] by (intro card_mono) auto
  finally show "sval (sem A' u) \<le> card (downers A' u - set (waiters (sem A' u)))" using v [of u] by (simp add: wt)
qed

lemma downers_upd: "downers A' s = (downers A s - {t}) \<union> (if \<exists>c. q = Down s c then {t} else {})"
  if "ctl A' = (ctl A)(t := q)"
  using that by (auto simp: downers_def)

lemma sstep_wake_inv:
  assumes "sstep A A'" "wake_inv A"
  shows "wake_inv A'"
  using assms
proof (induction rule: sstep.induct)
  case (a_wait A t s)
  then show ?case
    by (intro wake_mono [OF a_wait(2)]) (auto simp: downers_def finite_upd)
next
  case (a_acquire A t l)
  then show ?case
    by (intro wake_mono [OF a_acquire(3)]) (auto simp: downers_def finite_upd)
next
  case (a_sleep A t s c)
  define A' where "A' = A\<lparr>sem := (sem A)(s := (sem A s)\<lparr>waiters := waiters (sem A s) @ [t]\<rparr>)\<rparr>"
  have dn: "downers A' u = downers A u" for u by (simp add: downers_def A'_def)
  have "wake_inv A'"
  proof (rule wake_invI)
    fix u
    show "finite {t. ctl A' t \<noteq> Run}" using a_sleep(4) by (simp add: wake_inv_def A'_def)
    show "distinct (waiters (sem A' u))" using a_sleep(2,4) by (simp add: wake_inv_def A'_def)
    show "set (waiters (sem A' u)) \<subseteq> downers A' u"
      using a_sleep(1,4) unfolding dn by (auto simp: wake_inv_def A'_def downers_def)
    assume "waiters (sem A' u) \<noteq> []"
    then show "sval (sem A' u) \<le> card (downers A' u - set (waiters (sem A' u)))"
      using a_sleep(3,4) by (cases "u = s") (simp_all add: dn, simp_all add: A'_def wake_inv_def)
  qed
  then show ?case by (simp add: A'_def)
next
  case (a_got A t s c)
  define q where "q = (case c of None \<Rightarrow> Run | Some l \<Rightarrow> Take l)"
  define A' where "A' = A\<lparr>sem := (sem A)(s := sem_take (sem A s)), ctl := (ctl A)(t := q)\<rparr>"
  have q: "q \<noteq> Down u d" for u d by (simp add: q_def split: option.split)
  have dn: "downers A' u = downers A u - {t}" for u using q by (auto simp: downers_def A'_def)
  have tw: "t \<notin> set (waiters (sem A u))" for u
  proof
    assume a: "t \<in> set (waiters (sem A u))"
    have "set (waiters (sem A u)) \<subseteq> downers A u" using a_got(4) by (simp add: wake_inv_def)
    then have "u = s" using a a_got(1) by (auto simp: downers_def)
    then show False using a a_got(2) by simp
  qed
  have tn: "u \<noteq> s \<Longrightarrow> t \<notin> downers A u" for u using a_got(1) by (simp add: downers_def)
  have fin: "finite {t. ctl A' t \<noteq> Run}"
  proof -
    have "finite {t. ctl A t \<noteq> Run}" using a_got(4) by (simp add: wake_inv_def)
    from finite_not_run [OF this, of t q] show ?thesis by (simp add: A'_def)
  qed
  have "wake_inv A'"
  proof (rule wake_invI)
    fix u
    show "finite {t. ctl A' t \<noteq> Run}" by (rule fin)
    show "distinct (waiters (sem A' u))" using a_got(4) by (simp add: wake_inv_def A'_def)
    show "set (waiters (sem A' u)) \<subseteq> downers A' u"
      using a_got(4) tw [of u] unfolding dn by (auto simp: wake_inv_def A'_def)
    assume ne: "waiters (sem A' u) \<noteq> []"
    show "sval (sem A' u) \<le> card (downers A' u - set (waiters (sem A' u)))"
    proof (cases "u = s")
      case True
      have "t \<in> downers A s - set (waiters (sem A s))" using a_got(1) tw by (auto simp: downers_def)
      moreover have "finite (downers A s)" using finite_downers [of A s] a_got(4) by (simp add: wake_inv_def)
      ultimately have "card ((downers A s - set (waiters (sem A s))) - {t}) = card (downers A s - set (waiters (sem A s))) - 1"
        by (intro card_Diff_singleton) auto
      moreover have "(downers A s - {t}) - set (waiters (sem A s)) = (downers A s - set (waiters (sem A s))) - {t}" by auto
      moreover have "sval (sem A s) \<le> card (downers A s - set (waiters (sem A s)))"
        using a_got(4) ne True by (simp add: wake_inv_def A'_def)
      ultimately show ?thesis by (simp add: dn True) (simp add: A'_def)
    next
      case False
      then show ?thesis using a_got(4) ne tn [OF False] by (simp add: dn) (simp add: A'_def wake_inv_def)
    qed
  qed
  then show ?case by (simp add: A'_def q_def)
next
  case (a_take A t l)
  then show ?case
    by (intro wake_mono [OF a_take(3)]) (auto simp: downers_def finite_upd)
next
  case (a_release A t l)
  then show ?case
    by (intro wake_mono [OF a_release(4)]) (auto simp: downers_def finite_upd)
next
  case (a_drop A t l)
  then show ?case
    by (intro wake_post [OF a_drop(2), of _ "Sem_of_lock l"]) (auto simp: downers_def finite_upd)
next
  case (a_up A x)
  then show ?case
    by (intro wake_post [OF a_up(1), of _ "Sem x"]) (auto simp: wake_inv_def downers_def)
next
  case (a_try A x)
  then show ?case by (intro wake_mono [OF a_try(2)]) (auto simp: wake_inv_def downers_def)
next
  case (a_try_lock A t l)
  then show ?case by (intro wake_mono [OF a_try_lock(4)]) (auto simp: downers_def finite_upd)
qed

lemma lock_invI:
  assumes "\<And>t s c. ctl A t = Down s c \<Longrightarrow> okpc (Down s c)"
    "\<And>t l. ctl A t = Take l \<or> ctl A t = Drop l \<Longrightarrow> owner A l = 0"
    "\<And>l. (sval (sem A (Sem_of_lock l)) = 1 \<and> owners A l = {}) \<or>
          (sval (sem A (Sem_of_lock l)) = 0 \<and> (\<exists>t. owners A l = {t}))"
  shows "lock_inv A"
  using assms unfolding lock_inv_def by blast

lemma lock_invD:
  assumes "lock_inv A"
  shows "ctl A t = Down s c \<Longrightarrow> okpc (Down s c)"
    "ctl A t = Take l \<or> ctl A t = Drop l \<Longrightarrow> owner A l = 0"
    "(sval (sem A (Sem_of_lock l)) = 1 \<and> owners A l = {}) \<or>
          (sval (sem A (Sem_of_lock l)) = 0 \<and> (\<exists>t. owners A l = {t}))"
  using assms unfolding lock_inv_def by blast+

lemma owners_free:
  assumes "lock_inv A" "sval (sem A (Sem_of_lock l)) \<noteq> 0"
  shows "sval (sem A (Sem_of_lock l)) = 1" "owners A l = {}" "owner A l = 0"
  using lock_invD(3) [OF assms(1), of l] assms(2) by (auto simp: owners_def)

lemma owners_single:
  assumes "lock_inv A" "t \<in> owners A l"
  shows "sval (sem A (Sem_of_lock l)) = 0" "owners A l = {t}"
  using lock_invD(3) [OF assms(1), of l] assms(2) by auto

lemma lock_inv_same:
  assumes l: "lock_inv A" and dn: "\<And>t s c. ctl A' t = Down s c \<Longrightarrow> ctl A t = Down s c \<or> okpc (Down s c)"
    and ct: "\<And>t l. ctl A' t = Take l \<longleftrightarrow> ctl A t = Take l" "\<And>t l. ctl A' t = Drop l \<longleftrightarrow> ctl A t = Drop l"
    and ow: "owner A' = owner A" and sv: "\<And>l. sval (sem A' (Sem_of_lock l)) = sval (sem A (Sem_of_lock l))"
  shows "lock_inv A'"
proof (rule lock_invI)
  show "okpc (Down s c)" if "ctl A' t = Down s c" for t s c using dn [OF that] lock_invD(1) [OF l] by blast
  show "owner A' l = 0" if "ctl A' t = Take l \<or> ctl A' t = Drop l" for t l
    using that lock_invD(2) [OF l] unfolding ct ow by blast
  show "(sval (sem A' (Sem_of_lock l)) = 1 \<and> owners A' l = {}) \<or>
      (sval (sem A' (Sem_of_lock l)) = 0 \<and> (\<exists>t. owners A' l = {t}))" for l
    using lock_invD(3) [OF l, of l] by (simp add: owners_def ct ow sv)
qed

text \<open>A step of thread \<open>t\<close> that changes who owns the lock \<open>l\<close>.\<close>

lemma lock_inv_change:
  assumes i: "lock_inv A" and ct: "ctl A' = (ctl A)(t := q)" and q: "\<And>s c. q \<noteq> Down s c"
    and tr: "\<And>m. m \<noteq> l \<Longrightarrow> ctl A t \<noteq> Take m \<and> ctl A t \<noteq> Drop m \<and> q \<noteq> Take m \<and> q \<noteq> Drop m"
    and ow: "\<And>m. m \<noteq> l \<Longrightarrow> owner A' m = owner A m" and sv: "\<And>m. m \<noteq> l \<Longrightarrow> sem A' (Sem_of_lock m) = sem A (Sem_of_lock m)"
    and only: "owners A l \<subseteq> {t}" and q0: "q = Take l \<or> q = Drop l \<Longrightarrow> owner A' l = 0"
    and new: "owner A' l = 0 \<or> owner A' l = t"
    and sl: "sval (sem A' (Sem_of_lock l)) = (if q = Take l \<or> q = Drop l \<or> (owner A' l = t \<and> t \<noteq> 0) then 0 else 1)"
  shows "lock_inv A'"
proof (rule lock_invI)
  fix u s c
  assume "ctl A' u = Down s c"
  then show "okpc (Down s c)" using lock_invD(1) [OF i, of u] q by (auto simp: ct split: if_splits)
next
  fix u m
  assume a: "ctl A' u = Take m \<or> ctl A' u = Drop m"
  show "owner A' m = 0"
  proof (cases "u = t")
    case True
    then show ?thesis using a q0 tr [of m] by (auto simp: ct)
  next
    case False
    then have "ctl A u = Take m \<or> ctl A u = Drop m" using a by (simp add: ct)
    moreover from this have "m \<noteq> l" using only False by (auto simp: owners_def)
    ultimately show ?thesis using lock_invD(2) [OF i] ow by simp
  qed
next
  fix m
  show "(sval (sem A' (Sem_of_lock m)) = 1 \<and> owners A' m = {}) \<or>
      (sval (sem A' (Sem_of_lock m)) = 0 \<and> (\<exists>t. owners A' m = {t}))"
  proof (cases "m = l")
    case False
    have "owners A' m = owners A m" using tr [OF False] by (auto simp: owners_def ct ow [OF False])
    then show ?thesis using lock_invD(3) [OF i, of m] by (simp add: sv [OF False])
  next
    case True
    have "owners A' l = (if q = Take l \<or> q = Drop l \<or> (owner A' l = t \<and> t \<noteq> 0) then {t} else {})"
      using only new by (auto simp: owners_def ct split: if_splits)
    then show ?thesis using sl True by simp
  qed
qed

lemma sstep_lock_inv:
  assumes "sstep A A'" "lock_inv A"
  shows "lock_inv A'"
  using assms
proof (induction rule: sstep.induct)
  case (a_wait A t s)
  show ?case by (rule lock_inv_same [OF a_wait(2)]) (use a_wait(1) in \<open>auto split: if_splits\<close>)
next
  case (a_acquire A t l)
  show ?case by (rule lock_inv_same [OF a_acquire(3)]) (use a_acquire(1) in \<open>auto split: if_splits\<close>)
next
  case (a_sleep A t s c)
  show ?case by (rule lock_inv_same [OF a_sleep(4)]) simp_all
next
  case (a_got A t s c)
  have ok: "okpc (Down s c)" by (rule lock_invD(1) [OF a_got(4,1)])
  show ?case
  proof (cases s)
    case (Sem x)
    then show ?thesis using ok a_got(1) by (intro lock_inv_same [OF a_got(4)]) (auto split: if_splits)
  next
    case (Sem_of_lock l)
    then have c: "c = Some l" using ok by simp
    note f = owners_free [OF a_got(4) a_got(3) [unfolded Sem_of_lock]]
    show ?thesis
      by (rule lock_inv_change [OF a_got(4), of _ t "Take l" l]) (use f a_got(1) in \<open>auto simp: Sem_of_lock c\<close>)
  qed
next
  case (a_take A t l)
  have "t \<in> owners A l" using a_take(1) by (simp add: owners_def)
  note f = owners_single [OF a_take(3) this]
  show ?case by (rule lock_inv_change [OF a_take(3), of _ t Run l]) (use f a_take(1,2) in simp_all)
next
  case (a_release A t l)
  have "t \<in> owners A l" using a_release(2,3) by (simp add: owners_def)
  note f = owners_single [OF a_release(4) this]
  show ?case by (rule lock_inv_change [OF a_release(4), of _ t "Drop l" l]) (use f a_release(1,2,3) in simp_all)
next
  case (a_drop A t l)
  have "t \<in> owners A l" using a_drop(1) by (simp add: owners_def)
  note f = owners_single [OF a_drop(2) this]
  have "owner A l = 0" using lock_invD(2) [OF a_drop(2)] a_drop(1) by blast
  then show ?case by (intro lock_inv_change [OF a_drop(2), of _ t Run l]) (use f a_drop(1) in auto)
next
  case (a_up A x)
  show ?case by (rule lock_inv_same [OF a_up(1)]) simp_all
next
  case (a_try A x)
  show ?case by (rule lock_inv_same [OF a_try(2)]) simp_all
next
  case (a_try_lock A t l)
  note f = owners_free [OF a_try_lock(4,3)]
  show ?case
    by (rule lock_inv_change [OF a_try_lock(4), of _ t "Take l" l]) (use f a_try_lock(1) in auto)
qed

lemma started_abs:
  assumes "main \<noteq> 0" "idle \<noteq> 0" "idle \<noteq> main" "started sv main idle = Some k"
  defines "A \<equiv> abs_sys \<lparr>kn = k, pcs = (\<lambda>_. Run)(main := Down (Sem 0) None, idle := Idle), mks = (\<lambda>_. No_creation)\<rparr>"
  shows "wake_inv A" "lock_inv A"
proof -
  have k: "holder k = (\<lambda>_. 0)" "semas k = (semas (reset sv))(Sem 0 := \<lparr>sval = 1, waiters = []\<rparr>)"
    using started_ok [OF assms(1-3), of sv] assms(4) by auto
  have A: "sem A = semas k" "owner A = (\<lambda>_. 0)" "ctl A = (\<lambda>_. Run)(main := Down (Sem 0) None)"
    using assms(3) by (auto simp: A_def abs_sys_def k(1) fun_eq_iff)
  have W: "waiters (semas k s) = []" for s by (simp add: k(2) reset_def split: sem_id.split)
  show "wake_inv A"
    by (rule wake_invI) (auto simp: A W intro: finite_subset [of _ "{main}"])
  show "lock_inv A"
    by (rule lock_invI) (auto simp: A owners_def k(2) reset_def split: if_splits)
qed

lemma reachable_abs: "reachable S \<Longrightarrow> wake_inv (abs_sys S) \<and> lock_inv (abs_sys S)"
proof (induction rule: reachable.induct)
  case (r_start main idle sv k)
  then show ?case using started_abs by simp
next
  case (r_step S S')
  then show ?case
    using step_refines [OF r_step(2) reachable_sinv [OF r_step(1)]] sstep_wake_inv sstep_lock_inv by metis
qed

section \<open>Creating a thread\<close>

text \<open>
  Where a thread that creates another one can be with respect to the primitives, and when it is the
  holder of \<open>tid_lock\<close>.
\<close>

fun creation_ok :: "creation \<Rightarrow> pc \<Rightarrow> bool \<Rightarrow> bool" where
  "creation_ok No_creation q h \<longleftrightarrow>
     \<not> h \<and> (\<forall>c. q \<noteq> Down (Sem_of_lock tid_lock) c) \<and> q \<noteq> Take tid_lock \<and> q \<noteq> Drop tid_lock"
| "creation_ok (Inited p) q h \<longleftrightarrow> \<not> h \<and> q = Run"
| "creation_ok (Numbering p) q h \<longleftrightarrow>
     (if h then q = Run else q = Down (Sem_of_lock tid_lock) (Some tid_lock) \<or> q = Take tid_lock)"
| "creation_ok (Numbered p t) q h \<longleftrightarrow> h \<and> q = Run"
| "creation_ok (Unlocking p t) q h \<longleftrightarrow> \<not> h \<and> (q = Drop tid_lock \<or> q = Run)"
| "creation_ok (Framed p) q h \<longleftrightarrow> \<not> h \<and> q = Run"

definition tid_held :: "kern \<Rightarrow> nat \<Rightarrow> bool" where
  "tid_held k t \<longleftrightarrow> t \<noteq> 0 \<and> holder k tid_lock = t"

definition tinv :: "sys \<Rightarrow> bool" where
  "tinv S \<longleftrightarrow> (\<forall>t. creation_ok (mks S t) (core (pcs S t)) (tid_held (kn S) t))"

lemma tinv_at: "tinv S \<Longrightarrow> creation_ok (mk S) (core (at S)) (tid_held (kn S) (cur (kn S)))"
  by (simp add: tinv_def mk_def at_def)

lemma tinv_creating:
  assumes "tinv S" "\<And>t. t \<noteq> cur (kn S) \<Longrightarrow> tid_held k t = tid_held (kn S) t"
    "creation_ok m (core q) (tid_held k (cur (kn S)))"
  shows "tinv (creating m q k S)"
  using assms by (simp add: tinv_def creating_def)

lemma tinv_goto:
  assumes "tinv S" "\<And>t. t \<noteq> cur (kn S) \<Longrightarrow> tid_held k t = tid_held (kn S) t"
    "creation_ok (mk S) (core q) (tid_held k (cur (kn S)))"
  shows "tinv (goto q k S)"
  unfolding goto_creating by (rule tinv_creating [OF assms])

lemma tinv_stutter:
  assumes "tinv S" "holder k = holder (kn S)" "core q = core (at S)"
  shows "tinv (goto q k S)"
  using assms tinv_at [OF assms(1)] by (intro tinv_goto) (simp_all add: tid_held_def)

lemma step_tinv:
  assumes "step S S'" "sinv S" "lock_inv (abs_sys S)" "tinv S"
  shows "tinv S'"
  using assms
proof (induction rule: step.induct)
  case (s_start S)
  then show ?case by (intro tinv_stutter) simp_all
next
  case (s_yielded S p)
  then show ?case by (intro tinv_stutter) simp_all
next
  case (s_idle S k)
  note d = sinvD [OF s_idle(3)]
  have "cur (kn S) = idle_thread (kn S)" using d(5) s_idle(1) by simp
  then show ?case using idle_block_ok [OF d(1,2)] s_idle(1,2,5)
    by (intro tinv_stutter) (auto simp: left_as_def frame_def)
next
  case (s_idle_woken S)
  then show ?case by (intro tinv_stutter) simp_all
next
  case (s_down S k s)
  have "k = (kn S)\<lparr>intr_on := False\<rparr>" using s_down(2) by (simp add: sema_down_enter_def split: if_splits)
  then show ?case using tinv_at [OF s_down(5)] s_down(1)
    by (intro tinv_goto [OF s_down(5)]) (simp_all add: calls_def tid_held_def)
next
  case (s_acquire S l k)
  have "k = (kn S)\<lparr>intr_on := False\<rparr>" using s_acquire(4) by (simp add: sema_down_enter_def split: if_splits)
  then show ?case using tinv_at [OF s_acquire(7)] s_acquire(1,2)
    by (intro tinv_goto [OF s_acquire(7)]) (simp_all add: calls_def tid_held_def)
next
  case (s_sleep S s c k)
  note f = down_fields [OF s_sleep(3,1,2)]
  have "sval (semas (kn S) s) = 0" using f(3) by auto
  from f(2) [OF this] s_sleep(1,5) show ?case by (intro tinv_stutter) auto
next
  case (s_got S s c k)
  note f = down_fields [OF s_got(3,1,2)]
  have z: "sval (semas (kn S) s) \<noteq> 0" using f(2) by auto
  from f(3) [OF z] have h: "tid_held k = tid_held (kn S)" by (auto simp: tid_held_def fun_eq_iff)
  have c: "okpc (Down s c)" using sinvD(6) [OF s_got(3)] s_got(1) by simp
  have m: "creation_ok (mk S) (Down s c) (tid_held (kn S) (cur (kn S)))" using tinv_at [OF s_got(5)] s_got(1) by simp
  have "creation_ok (mk S) (core (case c of None \<Rightarrow> Run | Some l \<Rightarrow> Take l)) (tid_held (kn S) (cur (kn S)))"
    using c m by (cases "mk S"; cases s) (auto split: if_splits)
  then show ?case by (intro tinv_goto [OF s_got(5)]) (simp_all add: h)
next
  case (s_take S l k)
  note d = sinvD [OF s_take(3)]
  have k: "k = (kn S)\<lparr>holder := (holder (kn S))(l := cur (kn S))\<rparr>"
    using s_take(2) current_ok(1) [OF d(1,2)] by (simp add: lock_take_def)
  have c0: "cur (kn S) \<noteq> 0" using kcoreD(1) [OF d(1)] current_ok(2) [OF d(1,2)] by (metis option.distinct(1))
  have "ctl (abs_sys S) (cur (kn S)) = Take l" using s_take(1) by simp
  then have "holder (kn S) l = 0" using lock_invD(2) [OF s_take(4), of "cur (kn S)" l] by simp
  moreover have "creation_ok (mk S) (Take l) (tid_held (kn S) (cur (kn S)))" using tinv_at [OF s_take(5)] s_take(1) by simp
  ultimately show ?case using c0
    by (intro tinv_goto [OF s_take(5)]; cases "mk S") (auto simp: k tid_held_def split: if_splits)
next
  case (s_release S l k)
  note d = sinvD [OF s_release(4)]
  have "k = (kn S)\<lparr>holder := (holder (kn S))(l := 0)\<rparr>"
    using s_release(3) current_ok(1) [OF d(1,2)]
    by (simp add: lock_drop_def lock_held_by_current_thread_def split: if_splits)
  then show ?case using tinv_at [OF s_release(6)] s_release(1,2)
    by (intro tinv_goto [OF s_release(6)]) (simp_all add: calls_def tid_held_def)
next
  case (s_drop S l k)
  have "holder k = holder (kn S)" by (rule sema_up_fields(2) [OF s_drop(3,2)])
  then have h: "tid_held k = tid_held (kn S)" by (simp add: tid_held_def fun_eq_iff)
  have "creation_ok (mk S) (Drop l) (tid_held (kn S) (cur (kn S)))" using tinv_at [OF s_drop(5)] s_drop(1) by simp
  then have "creation_ok (mk S) Run (tid_held (kn S) (cur (kn S)))" by (cases "mk S") (auto split: if_splits)
  then show ?case by (intro tinv_goto [OF s_drop(5)]) (simp_all add: h)
next
  case (s_up S s k)
  show ?case using sema_up_fields(2) [OF s_up(3,2)] s_up(1) by (intro tinv_stutter [OF s_up(5)]) (simp_all add: calls_def)
next
  case (s_intr_up S s k)
  show ?case using sema_up_fields(2) [OF s_intr_up(3,2)] by (intro tinv_stutter [OF s_intr_up(5)]) simp_all
next
  case (s_try S s b k)
  note d = sinvD [OF s_try(3)]
  show ?case using try_down_ok(3) [OF d(1,2) s_try(2)] s_try(1)
    by (intro tinv_stutter [OF s_try(5)]) (simp_all add: frame_def calls_def)
next
  case (s_try_lock S l b k)
  note d = sinvD [OF s_try_lock(4)]
  have t: "sema_try_down (Sem_of_lock l) (kn S) = (b, k)"
    using s_try_lock(3) by (auto simp: lock_try_acquire_def Option.bind_eq_Some_conv split: if_splits)
  have "tid_held k = tid_held (kn S)" using try_down_ok(3) [OF d(1,2) t] by (simp add: frame_def tid_held_def fun_eq_iff)
  then show ?case using tinv_at [OF s_try_lock(6)] s_try_lock(1,2)
    by (intro tinv_goto [OF s_try_lock(6)]) (simp_all add: calls_def)
next
  case (s_yield S k)
  note d = sinvD [OF s_yield(3)]
  show ?case using thread_yield_ok [OF d(1,2)] s_yield(1,2)
    by (intro tinv_stutter [OF s_yield(5)]) (auto simp: left_as_def frame_def calls_def)
next
  case (s_tick S k)
  note d = sinvD [OF s_tick(2)]
  have "intr_on (kn S)" using s_tick(1) by (simp add: timer_interrupt_def split: if_splits)
  then show ?case using timer_ok [OF d(1,2)] s_tick(1) by (intro tinv_stutter [OF s_tick(4)]) (auto simp: frame_def)
next
  case (s_preempt S k)
  note d = sinvD [OF s_preempt(2)]
  have "intr_on (kn S)" using s_preempt(1) by (simp add: timer_interrupt_def split: if_splits)
  then show ?case using timer_ok [OF d(1,2)] s_preempt(1)
    by (intro tinv_stutter [OF s_preempt(4)]) (auto simp: left_as_def frame_def)
next
  case (s_create S page name pri k)
  note d = sinvD [OF s_create(5)]
  have pri: "PRI_MIN \<le> pri" "pri \<le> PRI_MAX"
    using s_create(4) by (auto simp: init_thread_def split: if_splits)
  have pg: "pcs S page = Run" using pinvD(5) [OF d(4), of page] s_create(3) by (simp add: status_of_def)
  have "holder k = holder (kn S)"
    using init_thread_ok [OF d(1,2) s_create(3,2) pri, of name] s_create(4) by (auto simp: beside_def frame_def)
  then have h: "tid_held k = tid_held (kn S)" by (simp add: tid_held_def fun_eq_iff)
  have at: "creation_ok No_creation Run (tid_held (kn S) (cur (kn S)))" "core (pcs S (cur (kn S))) = Run"
    using tinv_at [OF s_create(7)] s_create(1) by (simp_all add: calls_def at_def)
  have "creation_ok (if t = cur (kn S) then Inited page else mks S t)
      (core (if t = page then Start else pcs S t)) (tid_held (kn S) t)" for t
    using s_create(7) [unfolded tinv_def, THEN spec [of _ t]] at pg by (cases "t = cur (kn S)"; cases "t = page") simp_all
  then show ?case by (simp add: tinv_def h fun_upd_apply)
next
  case (s_tid_acquire S page k)
  have "k = (kn S)\<lparr>intr_on := False\<rparr>" using s_tid_acquire(4) by (simp add: sema_down_enter_def split: if_splits)
  then show ?case using tinv_at [OF s_tid_acquire(7)] s_tid_acquire(1,2)
    by (intro tinv_creating [OF s_tid_acquire(7)]) (simp_all add: tid_held_def)
next
  case (s_tid S page t k)
  note d = sinvD [OF s_tid(4)]
  have "tid_held k = tid_held (kn S)"
    using take_tid_ok(3) [OF d(1,2) s_tid(3)] by (simp add: beside_def frame_def tid_held_def fun_eq_iff)
  then show ?case using tinv_at [OF s_tid(6)] s_tid(1,2)
    by (intro tinv_creating [OF s_tid(6)]) (simp_all split: if_splits)
next
  case (s_tid_release S page t k)
  note d = sinvD [OF s_tid_release(4)]
  have "k = (kn S)\<lparr>holder := (holder (kn S))(tid_lock := 0)\<rparr>" "holder (kn S) tid_lock = cur (kn S)"
    using s_tid_release(3) current_ok(1) [OF d(1,2)]
    by (simp_all add: lock_drop_def lock_held_by_current_thread_def split: if_splits)
  then show ?case by (intro tinv_creating [OF s_tid_release(6)]) (auto simp: tid_held_def)
next
  case (s_frames S page t k)
  note d = sinvD [OF s_frames(4)]
  have "page \<in> newborn (mks S)" using s_frames(2) by (rule newbornI) simp
  from create_frames_ok [OF d(1,2) this, of t] s_frames(3)
  have "tid_held k = tid_held (kn S)" by (auto simp: beside_def frame_def tid_held_def fun_eq_iff)
  then show ?case using tinv_at [OF s_frames(6)] s_frames(1,2)
    by (intro tinv_creating [OF s_frames(6)]) simp_all
next
  case (s_unblock S page k)
  note d = sinvD [OF s_unblock(4)]
  have "page \<in> newborn (mks S)" using s_unblock(2) by (rule newbornI) simp
  from thread_unblock_ok [OF d(1,2) this] s_unblock(3)
  have "tid_held k = tid_held (kn S)" by (auto simp: beside_def frame_def tid_held_def fun_eq_iff)
  then show ?case using tinv_at [OF s_unblock(6)] s_unblock(1,2)
    by (intro tinv_creating [OF s_unblock(6)]) simp_all
next
  case (s_exit S k)
  note d = sinvD [OF s_exit(3)]
  have "cur (kn S) \<noteq> idle_thread (kn S)" using d(5) s_exit(1) by (simp add: calls_def)
  then have "tid_held k = tid_held (kn S)"
    using thread_exit_ok [OF d(1,2)] s_exit(2) by (auto simp: frame_def tid_held_def fun_eq_iff)
  then show ?case using s_exit(5) by (simp add: tinv_def)
qed

lemma reachable_tinv: "reachable S \<Longrightarrow> tinv S"
proof (induction rule: reachable.induct)
  case (r_start main idle sv k)
  have "holder k = (\<lambda>_. 0)" using started_ok [OF r_start(1-3), of sv] r_start(4) by auto
  then show ?case by (auto simp: tinv_def tid_held_def tid_lock_def)
next
  case (r_step S S')
  then show ?case using step_tinv reachable_sinv reachable_abs by blast
qed

text \<open>
  \<open>thread_create\<close> run at a stretch, as at start-up, is what the steps of the creation do when the creator
  is not interrupted and \<open>tid_lock\<close> is free.
\<close>

lemma creating_sel [simp]:
  "kn (creating m q k S) = k" "pcs (creating m q k S) = (pcs S)(cur (kn S) := q)"
  "mks (creating m q k S) = (mks S)(cur (kn S) := m)"
  "cur k = cur (kn S) \<Longrightarrow> at (creating m q k S) = q" "cur k = cur (kn S) \<Longrightarrow> mk (creating m q k S) = m"
  by (simp_all add: creating_def at_def mk_def)

lemma goto_sel [simp]:
  "kn (goto q k S) = k" "pcs (goto q k S) = (pcs S)(cur (kn S) := q)" "mks (goto q k S) = mks S"
  "cur k = cur (kn S) \<Longrightarrow> at (goto q k S) = q" "cur k = cur (kn S) \<Longrightarrow> mk (goto q k S) = mk S"
  by (simp_all add: goto_def at_def mk_def)

lemma thread_unblock_cur: "thread_unblock t k = Some k' \<Longrightarrow> cur k' = cur k"
  by (auto simp: thread_unblock_def thread_enqueue_def Let_def split: if_splits)

lemma sema_up_cur: "sema_up s k = Some k' \<Longrightarrow> cur k' = cur k"
  by (auto simp: sema_up_def Let_def Option.bind_eq_Some_conv dest!: thread_unblock_cur split: list.splits)

lemma create_frames_cur: "create_frames p t k = Some k' \<Longrightarrow> cur k' = cur k"
  by (auto simp: create_frames_def alloc_frame_def set_tid_def Let_def split: if_splits)

lemma sum_case_Some: "(case r of Inl _ \<Rightarrow> None | Inr x \<Rightarrow> f x) = Some y \<longleftrightarrow> (\<exists>x. r = Inr x \<and> f x = Some y)"
  by (cases r) auto

lemma thread_create_steps:
  assumes "sinv S" "calls S" "page \<noteq> 0" "thr (kn S) page = None" "thread_create page name pri (kn S) = Some (t, k)"
  shows "step\<^sup>*\<^sup>* S \<lparr>kn = k, pcs = (pcs S)(page := Start), mks = mks S\<rparr>"
proof -
  note d = sinvD [OF assms(1)]
  define c where "c = cur (kn S)"
  have a: "at S = Run" "mk S = No_creation" "pcs S c = Run" "mks S c = No_creation"
    using assms(2) by (simp_all add: calls_def at_def mk_def c_def)
  obtain k1 k2 k3 where k: "init_thread page name pri (kn S) = Some k1" "allocate_tid k1 = Some (t, k2)"
    "create_frames page t k2 = Some k3" "thread_unblock page k3 = Some k"
    using assms(3,5) by (auto simp: thread_create_def Option.bind_eq_Some_conv)
  obtain old e1 e2 e3 e4 e5 where e: "lock_acquire_check tid_lock k1 = Some ()" "sema_down_enter k1 = Some (old, e1)"
    "sema_down_iter (Sem_of_lock tid_lock) old e1 = Some (Inr e2)" "lock_take tid_lock e2 = Some e3"
    "take_tid e3 = (t, e4)" "lock_drop tid_lock e4 = Some e5" "sema_up (Sem_of_lock tid_lock) e5 = Some k2"
    using k(2) by (auto simp: allocate_tid_def Option.bind_eq_Some_conv sum_case_Some take_tid_def)
  have u: "cur k1 = c" "intr_on k1" using k(1) d(3) a(1) by (auto simp: init_thread_def c_def split: if_splits)
  then have v: "old" "cur e1 = c" using e(2) by (auto simp: sema_down_enter_def split: if_splits)
  then have w: "cur e2 = c" using e(3)
    by (auto simp: sema_down_iter_def set_sema_def Option.bind_eq_Some_conv split: if_splits)
  then have x: "cur e3 = c" using e(4) by (auto simp: lock_take_def Option.bind_eq_Some_conv)
  then have y: "cur e4 = c" using e(5) by (auto simp: take_tid_def)
  then have z: "cur e5 = c" "cur k2 = c" "cur k3 = c"
    using e(6,7) k(3) sema_up_cur create_frames_cur
    by (auto simp: lock_drop_def Option.bind_eq_Some_conv split: if_splits)
  have pc: "page \<noteq> c" using current_ok(2) [OF d(1,2)] assms(4) by (auto simp: status_of_def c_def)
  define T0 where "T0 = \<lparr>kn = k1, pcs = (pcs S)(page := Start), mks = (mks S)(c := Inited page)\<rparr>"
  have T0: "kn T0 = k1" "at T0 = Run" "mk T0 = Inited page" using u(1) pc a(3) by (simp_all add: T0_def at_def mk_def)
  define T1 where "T1 = creating (Numbering page) (Down (Sem_of_lock tid_lock) (Some tid_lock)) e1 T0"
  define T2 where "T2 = goto (Take tid_lock) e2 T1"
  define T3 where "T3 = goto Run e3 T2"
  define T4 where "T4 = creating (Numbered page t) Run e4 T3"
  define T5 where "T5 = creating (Unlocking page t) (Drop tid_lock) e5 T4"
  define T6 where "T6 = goto Run k2 T5"
  define T7 where "T7 = creating (Framed page) Run k3 T6"
  define T8 where "T8 = creating No_creation Run k T7"
  note T = T1_def T2_def T3_def T4_def T5_def T6_def T7_def T8_def
  have "step S T0" using s_create [OF assms(2,3,4) k(1)] by (simp add: T0_def c_def)
  moreover have "step T0 T1" using s_tid_acquire [of T0 page e1] e(1,2) T0 v(1) by (simp add: T1_def)
  moreover have "step T1 T2" using s_got [of T1 _ "Some tid_lock" e2] e(3) T0 u v by (simp add: T)
  moreover have "step T2 T3" using s_take [of T2 _ e3] e(4) T0 u v w by (simp add: T)
  moreover have "step T3 T4" using s_tid [of T3 page t e4] e(5) T0 u v w x by (simp add: T)
  moreover have "step T4 T5" using s_tid_release [of T4 page t e5] e(6) T0 u v w x y by (simp add: T)
  moreover have "step T5 T6" using s_drop [of T5 _ k2] e(7) T0 u v w x y z by (simp add: T)
  moreover have "step T6 T7" using s_frames [of T6 page t k3] k(3) T0 u v w x y z by (simp add: T)
  moreover have "step T7 T8" using s_unblock [of T7 page k] k(4) T0 u v w x y z by (simp add: T)
  ultimately have "step\<^sup>*\<^sup>* S T8" by (meson rtranclp.rtrancl_into_rtrancl rtranclp.rtrancl_refl)
  moreover have "T8 = \<lparr>kn = k, pcs = (pcs S)(page := Start), mks = mks S\<rparr>"
    using T0(1) u v w x y z a pc by (simp add: T creating_def goto_def T0_def fun_upd_idem fun_upd_twist)
  ultimately show ?thesis by simp
qed

section \<open>What holds in every reachable state\<close>

definition start_sys :: sys where
  "start_sys = (case started (\<lambda>_. 0) 4096 8192 of
     Some k \<Rightarrow> \<lparr>kn = k, pcs = (\<lambda>_. Run)(4096 := Down (Sem 0) None, 8192 := Idle), mks = (\<lambda>_. No_creation)\<rparr>
   | None \<Rightarrow> \<lparr>kn = reset (\<lambda>_. 0), pcs = (\<lambda>_. Run), mks = (\<lambda>_. No_creation)\<rparr>)"

lemma start_reachable: "reachable start_sys"
proof -
  obtain k where k: "started (\<lambda>_. 0) 4096 8192 = Some k" using started_ok [of 4096 8192 "\<lambda>_. 0"] by auto
  show ?thesis using r_start [OF _ _ _ k] by (simp add: start_sys_def k)
qed

text \<open>The main thread has been woken and is about to call something; and then it sleeps, or creates a thread.\<close>

lemma running_reachable:
  "\<exists>S. reachable S \<and> calls S \<and> cur (kn S) = 4096 \<and> thr (kn S) 12288 = None \<and> sval (semas (kn S) (Sem 1)) = 0"
proof -
  define S0 where "S0 = start_sys"
  obtain k0 where k0: "started (\<lambda>_. 0) 4096 8192 = Some k0" "cur k0 = 8192" "fifo_ready_list k0 = [4096]"
    "semas k0 = (semas (reset (\<lambda>_. 0)))(Sem 0 := \<lparr>sval = 1, waiters = []\<rparr>)"
    "status_of k0 = [4096 \<mapsto> THREAD_READY, 8192 \<mapsto> THREAD_RUNNING]"
    using started_ok [of 4096 8192 "\<lambda>_. 0"] by auto
  have S0: "kn S0 = k0" "pcs S0 = (\<lambda>_. Run)(4096 := Down (Sem 0) None, 8192 := Idle)" "mks S0 = (\<lambda>_. No_creation)"
    "reachable S0"
    using start_reachable by (simp_all add: S0_def start_sys_def k0(1))
  note d0 = sinvD [OF reachable_sinv [OF S0(4)], unfolded S0(1)]
  have a0: "at S0 = Idle" using S0 k0(2) by (simp add: at_def)
  have "cur k0 = idle_thread k0" using d0(5) a0 by simp
  then obtain k1 where k1: "thread_block (k0\<lparr>intr_on := False\<rparr>) = Some k1" "cur k1 = 4096" "semas k1 = semas k0"
    "status_of k1 = (status_of k0)(cur k0 \<mapsto> THREAD_BLOCKED, cur k1 \<mapsto> THREAD_RUNNING)"
    using idle_block_ok [OF d0(1,2)] k0(3) by (auto simp: next_of_def left_as_def)
  define S1 where "S1 = goto Idle_woken k1 S0"
  have r1: "reachable S1" using r_step [OF S0(4) s_idle [OF a0]] k1(1) by (simp add: S0(1) S1_def)
  have a1: "at S1 = Down (Sem 0) None" "kn S1 = k1" "mks S1 = (\<lambda>_. No_creation)"
    using k0(2) k1(2) S0 by (simp_all add: S1_def goto_def at_def)
  note d1 = sinvD [OF reachable_sinv [OF r1], unfolded a1(2)]
  obtain k2 where k2: "sema_down_iter (Sem 0) True k1 = Some (Inr k2)" "cur k2 = cur k1" "status_of k2 = status_of k1"
    "semas k2 = (semas k1)(Sem 0 := (semas k1 (Sem 0))\<lparr>sval := sval (semas k1 (Sem 0)) - 1\<rparr>)"
    using sema_got_ok [OF d1(1,2) _ refl, of "Sem 0" True] k1(3) k0(4) by auto
  define S2 where "S2 = goto Run k2 S1"
  have "reachable S2" using r_step [OF r1 s_got [OF a1(1)]] k2(1) by (simp add: a1 S2_def)
  moreover have "calls S2" "kn S2 = k2" using k2(2) a1 by (simp_all add: S2_def goto_def at_def calls_def mk_def)
  moreover have "status_of k2 12288 = None" using k2(3) k1(2,4) k0(2,5) by simp
  then have "thr k2 12288 = None" by (simp add: status_of_def)
  moreover have "sval (semas k2 (Sem 1)) = 0" using k2(4) k1(3) k0(4) by (simp add: reset_def)
  ultimately show ?thesis using k1(2) k2(2) by auto
qed

lemma sleeper_reachable: "\<exists>S. reachable S \<and> waiters (semas (kn S) (Sem 1)) \<noteq> []"
proof -
  obtain S where S: "reachable S" "calls S" "sval (semas (kn S) (Sem 1)) = 0" using running_reachable by blast
  note d = sinvD [OF reachable_sinv [OF S(1)]]
  have a: "at S = Run" using S(2) by (simp add: calls_def)
  define k where "k = (kn S)\<lparr>intr_on := False\<rparr>"
  have e: "sema_down_enter (kn S) = Some (True, k)"
    using d(3) a kcoreD(4) [OF d(1)] by (simp add: sema_down_enter_def k_def)
  define S' where "S' = goto (Down (Sem 1) None) k S"
  have r: "reachable S'" using r_step [OF S(1) s_down [OF S(2) e]] by (simp add: S'_def)
  have a': "at S' = Down (Sem 1) None" "kn S' = k" by (simp_all add: S'_def goto_def at_def k_def)
  note d' = sinvD [OF reachable_sinv [OF r], unfolded a'(2)]
  have z: "sval (semas k (Sem 1)) = 0" using S(3) by (simp add: k_def)
  have "\<not> intr_on k" "cur k \<noteq> idle_thread k" using d'(3,5) a' by simp_all
  then obtain k' where "sema_down_iter (Sem 1) True k = Some (Inl k')" "waiters (semas k' (Sem 1)) \<noteq> []"
    using sema_wait_ok [OF d'(1,2) _ _ z, of True] by auto
  then show ?thesis using r_step [OF r s_sleep [OF a'(1), unfolded a'(2)]] by (auto simp: goto_def)
qed

lemma creator_reachable: "\<exists>S. reachable S \<and> at S = Run \<and> making (mks S 4096) = Some 12288"
proof -
  obtain S where S: "reachable S" "calls S" "cur (kn S) = 4096" "thr (kn S) 12288 = None" using running_reachable by blast
  note d = sinvD [OF reachable_sinv [OF S(1)]]
  obtain k where k: "init_thread 12288 ''new'' PRI_DEFAULT (kn S) = Some k" "cur k = cur (kn S)"
    using init_thread_ok [OF d(1,2) S(4), of PRI_DEFAULT "''new''"]
    by (auto simp: PRI_DEFAULT_def PRI_MIN_def PRI_MAX_def beside_def)
  show ?thesis using r_step [OF S(1) s_create [OF S(2) _ S(4) k(1)]] S(2,3) k(2) by (auto simp: at_def calls_def)
qed

lemmas reachable_facts = kcoreD [OF sinvD(1) [OF reachable_sinv]]

text \<open>
  C2. In every reachable state one thread runs, and it is the current one; the run queue holds,
  once each, the threads that are ready, the idle thread apart; every blocked thread but the idle
  thread is either on the wait list of exactly one semaphore, once, or new and in the hands of
  exactly one thread that is in the middle of \<open>thread_create\<close> and has not unblocked it yet, and only
  such threads are; the list of all threads holds those that are alive; interrupts are off exactly at
  the points where the code has disabled them.
\<close>

theorem scheduler_invariant:
  assumes "reachable S"
  shows "(\<forall>t. status_of (kn S) t = Some THREAD_RUNNING \<longleftrightarrow> t = cur (kn S)) \<and>
    distinct (fifo_ready_list (kn S)) \<and>
    (\<forall>t. t \<in> set (fifo_ready_list (kn S)) \<longleftrightarrow>
           status_of (kn S) t = Some THREAD_READY \<and> t \<noteq> idle_thread (kn S)) \<and>
    (\<forall>s. distinct (waiters (semas (kn S) s))) \<and>
    (\<forall>t. (\<exists>s. t \<in> set (waiters (semas (kn S) s))) \<or> (\<exists>u. making (mks S u) = Some t) \<longleftrightarrow>
           status_of (kn S) t = Some THREAD_BLOCKED \<and> t \<noteq> idle_thread (kn S)) \<and>
    (\<forall>s t u. t \<in> set (waiters (semas (kn S) s)) \<longrightarrow> making (mks S u) \<noteq> Some t) \<and>
    (\<forall>t u u'. making (mks S u) = Some t \<and> making (mks S u') = Some t \<longrightarrow> u = u') \<and>
    (\<forall>s s' t. t \<in> set (waiters (semas (kn S) s)) \<inter> set (waiters (semas (kn S) s')) \<longrightarrow> s = s') \<and>
    (\<forall>t. t \<in> set (all_list (kn S)) \<longleftrightarrow>
           status_of (kn S) t \<noteq> None \<and> status_of (kn S) t \<noteq> Some THREAD_DYING) \<and>
    (intr_on (kn S) \<longleftrightarrow> \<not> off (at S))"
proof -
  note d = sinvD [OF reachable_sinv [OF assms]] and k = reachable_facts [OF assms]
  have "\<forall>t. status_of (kn S) t = Some THREAD_RUNNING \<longleftrightarrow> t = cur (kn S)" using d(2) by (simp add: krun_def runs_def)
  moreover have "\<forall>t. (\<exists>s. t \<in> set (waiters (semas (kn S) s))) \<or> (\<exists>u. making (mks S u) = Some t) \<longleftrightarrow>
           status_of (kn S) t = Some THREAD_BLOCKED \<and> t \<noteq> idle_thread (kn S)"
    using k(6,7,12) unfolding newborn_def mem_Collect_eq by blast
  moreover have "\<forall>s t u. t \<in> set (waiters (semas (kn S) s)) \<longrightarrow> making (mks S u) \<noteq> Some t"
    using k(13) unfolding newborn_def mem_Collect_eq by blast
  moreover have "\<forall>t u u'. making (mks S u) = Some t \<and> making (mks S u') = Some t \<longrightarrow> u = u'"
    using minvD(2) [OF d(7)] by blast
  moreover have "\<forall>s s' t. t \<in> set (waiters (semas (kn S) s)) \<inter> set (waiters (semas (kn S) s')) \<longrightarrow> s = s'"
    using k(8) by blast
  ultimately show ?thesis using k(5,9,10,11) d(3) by blast
qed

theorem scheduler_invariant_witness:
  "\<exists>S. reachable S \<and> intr_on (kn S) \<and> at S = Run \<and> making (mks S 4096) = Some 12288 \<and>
     status_of (kn S) 12288 = Some THREAD_BLOCKED \<and> 12288 \<noteq> idle_thread (kn S) \<and>
     (\<forall>s. 12288 \<notin> set (waiters (semas (kn S) s))) \<and> (\<forall>u. making (mks S u) = Some 12288 \<longrightarrow> u = 4096)"
proof -
  obtain S where S: "reachable S" "at S = Run" "making (mks S 4096) = Some 12288" using creator_reachable by blast
  note c = scheduler_invariant [OF S(1)]
  have "intr_on (kn S)" using c S(2) by (simp del: not_None_eq)
  moreover have "status_of (kn S) 12288 = Some THREAD_BLOCKED \<and> 12288 \<noteq> idle_thread (kn S)" using c S(3) by blast
  moreover have "\<forall>s. 12288 \<notin> set (waiters (semas (kn S) s))" using c S(3) by blast
  moreover have "\<forall>u. making (mks S u) = Some 12288 \<longrightarrow> u = 4096" using c S(3) by blast
  ultimately show ?thesis using S by blast
qed

lemma lock_check_ok:
  assumes "kcore N k" "krun k" "holder k l \<noteq> cur k"
  shows "lock_acquire_check l k = Some ()" "lock_try_acquire l k \<noteq> None"
proof -
  note c = current_ok(1) [OF assms(1,2)]
  show "lock_acquire_check l k = Some ()"
    using c assms(3) kcoreD(4) [OF assms(1)] by (simp add: lock_acquire_check_def lock_held_by_current_thread_def)
  show "lock_try_acquire l k \<noteq> None"
    using c assms(3) by (simp add: lock_try_acquire_def lock_held_by_current_thread_def)
qed

text \<open>The next piece of \<open>thread_create\<close>, when it is a call that could fail.\<close>

definition creation_goes_on :: "creation \<Rightarrow> kern \<Rightarrow> bool" where
  "creation_goes_on m k \<longleftrightarrow>
     (case m of
        Inited p \<Rightarrow> lock_acquire_check tid_lock k \<noteq> None \<and> sema_down_enter k \<noteq> None
      | Numbered p t \<Rightarrow> lock_drop tid_lock k \<noteq> None
      | Unlocking p t \<Rightarrow> create_frames p t k \<noteq> None
      | Framed p \<Rightarrow> thread_unblock p k \<noteq> None
      | _ \<Rightarrow> True)"

lemma creation_runs:
  assumes "reachable S" "at S = Run"
  shows "creation_goes_on (mk S) (kn S)" "mk S \<noteq> No_creation \<Longrightarrow> \<exists>S'. step S S'"
proof -
  note d = sinvD [OF reachable_sinv [OF assms(1)]]
  note c = current_ok [OF d(1,2)]
  have t: "creation_ok (mk S) Run (tid_held (kn S) (cur (kn S)))"
    using tinv_at [OF reachable_tinv [OF assms(1)]] assms(2) by simp
  have enter: "sema_down_enter (kn S) = Some (True, (kn S)\<lparr>intr_on := False\<rparr>)"
    using d(3) assms(2) kcoreD(4) [OF d(1)] by (simp add: sema_down_enter_def)
  have c0: "cur (kn S) \<noteq> 0" using kcoreD(1) [OF d(1)] c(2) by (metis option.distinct(1))
  show g: "creation_goes_on (mk S) (kn S)"
  proof (cases "mk S")
    case (Inited p)
    then show ?thesis using t enter c0 lock_check_ok(1) [OF d(1,2), of tid_lock] by (auto simp: creation_goes_on_def tid_held_def)
  next
    case (Numbered p n)
    then show ?thesis using t c(1)
      by (simp add: creation_goes_on_def tid_held_def lock_drop_def lock_held_by_current_thread_def)
  next
    case (Unlocking p n)
    then have "p \<in> newborn (mks S)" by (rule newbornI) simp
    from create_frames_ok [OF d(1,2) this, of n] show ?thesis by (auto simp: creation_goes_on_def Unlocking)
  next
    case (Framed p)
    then have "p \<in> newborn (mks S)" by (rule newbornI) simp
    from thread_unblock_ok [OF d(1,2) this] show ?thesis by (auto simp: creation_goes_on_def Framed)
  qed (simp_all add: creation_goes_on_def)
  show "\<exists>S'. step S S'" if "mk S \<noteq> No_creation"
  proof (cases "mk S")
    case (Inited p)
    then have "lock_acquire_check tid_lock (kn S) = Some ()" using g by (simp add: creation_goes_on_def)
    then show ?thesis using s_tid_acquire [OF assms(2) Inited _ enter] by blast
  next
    case (Numbering p)
    obtain n k where "take_tid (kn S) = (n, k)" by fastforce
    then show ?thesis using s_tid [OF assms(2) Numbering] by blast
  qed (use that g s_tid_release [OF assms(2)] s_frames [OF assms(2)] s_unblock [OF assms(2)] in
      \<open>auto simp: creation_goes_on_def, blast?\<close>)
qed

text \<open>
  C4. No assertion of the scheduler or of the primitives fails in a reachable state: a thread
  between two calls may call any of them, provided it acquires no lock that it holds and releases
  only locks that it holds; the calls in progress go on, the creation of a thread included; the timer
  interrupt is safe whenever interrupts are on. So no reachable state is stuck.
\<close>

theorem no_panics:
  assumes "reachable S"
  shows "(at S = Run \<longrightarrow> thread_yield (kn S) \<noteq> None \<and> thread_exit (kn S) \<noteq> None \<and>
      sema_down_enter (kn S) \<noteq> None \<and> (\<forall>s. sema_up s (kn S) \<noteq> None) \<and>
      (\<forall>l. holder (kn S) l \<noteq> cur (kn S) \<longrightarrow>
         lock_acquire_check l (kn S) \<noteq> None \<and> lock_try_acquire l (kn S) \<noteq> None) \<and>
      (\<forall>l. holder (kn S) l = cur (kn S) \<longrightarrow> lock_drop l (kn S) \<noteq> None)) \<and>
    (at S = Run \<longrightarrow> creation_goes_on (mk S) (kn S)) \<and>
    (\<forall>page name pri. page \<noteq> 0 \<and> PRI_MIN \<le> pri \<and> pri \<le> PRI_MAX \<longrightarrow> init_thread page name pri (kn S) \<noteq> None) \<and>
    (\<forall>s c. at S = Down s c \<longrightarrow> sema_down_iter s True (kn S) \<noteq> None) \<and>
    (\<forall>l. at S = Take l \<longrightarrow> lock_take l (kn S) \<noteq> None) \<and>
    (\<forall>l. at S = Drop l \<longrightarrow> sema_up (Sem_of_lock l) (kn S) \<noteq> None) \<and>
    (at S = Idle \<longrightarrow> thread_block ((kn S)\<lparr>intr_on := False\<rparr>) \<noteq> None) \<and>
    (intr_on (kn S) \<longrightarrow> timer_interrupt (kn S) \<noteq> None) \<and>
    (\<exists>S'. step S S')"
proof -
  note d = sinvD [OF reachable_sinv [OF assms]] and k = reachable_facts [OF assms]
  note c = current_ok(1) [OF d(1,2)]
  have yield: "thread_yield (kn S) \<noteq> None" using thread_yield_ok [OF d(1,2)] by auto
  have up: "sema_up s (kn S) \<noteq> None" for s using sema_up_ok [OF d(1,2), of s] by auto
  have exit: "at S = Run \<Longrightarrow> thread_exit (kn S) \<noteq> None" using thread_exit_ok [OF d(1,2)] d(5) by auto
  have enter: "sema_down_enter (kn S) \<noteq> None" using k(4) by (simp add: sema_down_enter_def)
  have drop: "holder (kn S) l = cur (kn S) \<Longrightarrow> lock_drop l (kn S) \<noteq> None" for l
    using c by (simp add: lock_drop_def lock_held_by_current_thread_def)
  have take: "lock_take l (kn S) \<noteq> None" for l using c by (simp add: lock_take_def)
  have idle: "at S = Idle \<Longrightarrow> thread_block ((kn S)\<lparr>intr_on := False\<rparr>) \<noteq> None"
    using idle_block_ok [OF d(1,2)] d(5) by auto
  have tick: "intr_on (kn S) \<Longrightarrow> timer_interrupt (kn S) \<noteq> None" using timer_ok [OF d(1,2)] by auto
  have down: "sema_down_iter s True (kn S) \<noteq> None" if "at S = Down s c" for s c
  proof (cases "sval (semas (kn S) s) = 0")
    case True
    then show ?thesis using sema_wait_ok [OF d(1,2) _ _ True, of True] d(3,5) that by auto
  next
    case False
    then show ?thesis using sema_got_ok [OF d(1,2) False refl, of True] by auto
  qed
  have "\<exists>S'. step S S'"
  proof (cases "at S")
    case Run
    then show ?thesis using yield s_yield creation_runs(2) [OF assms] by (cases "mk S = No_creation") (auto simp: calls_def)
  next
    case (Down s c)
    then obtain r where "sema_down_iter s True (kn S) = Some r" using down by blast
    then show ?thesis using Down s_sleep s_got by (cases r) blast+
  next
    case (Take l)
    then show ?thesis using take s_take by blast
  next
    case (Drop l)
    then show ?thesis using up s_drop by blast
  next
    case Idle
    then show ?thesis using idle s_idle by blast
  qed (use s_start s_yielded s_idle_woken in blast)+
  moreover have "\<forall>page name pri. page \<noteq> 0 \<and> PRI_MIN \<le> pri \<and> pri \<le> PRI_MAX \<longrightarrow> init_thread page name pri (kn S) \<noteq> None"
    by (simp add: init_thread_def)
  ultimately show ?thesis
    using yield up exit enter drop take idle tick down lock_check_ok [OF d(1,2)] creation_runs(1) [OF assms] by simp
qed

theorem no_panics_witness: "\<exists>S'. step start_sys S'"
  using no_panics [OF start_reachable] by blast

text \<open>
  C3. Seen through what semaphores and locks are for, every step of the kernel, interrupts,
  preemption and scheduling included, is no step or a step of the specification \<open>sstep\<close>: a thread
  waits, is queued, takes a unit, becomes the owner, gives up ownership, posts.
\<close>

theorem synch_refinement:
  assumes "reachable S" "step S S'"
  shows "abs_sys S' = abs_sys S \<or> sstep (abs_sys S) (abs_sys S')"
  by (rule step_refines [OF assms(2) reachable_sinv [OF assms(1)]])

theorem synch_refinement_witness:
  "\<exists>S'. step start_sys S' \<and> (abs_sys S' = abs_sys start_sys \<or> sstep (abs_sys start_sys) (abs_sys S'))"
proof -
  obtain k where k: "started (\<lambda>_. 0) 4096 8192 = Some k" "cur k = 8192"
    using started_ok [of 4096 8192 "\<lambda>_. 0"] by auto
  have at: "at start_sys = Idle" by (simp add: start_sys_def k at_def)
  have d: "kcore (newborn (mks start_sys)) (kn start_sys)" "krun (kn start_sys)" "cur (kn start_sys) = idle_thread (kn start_sys)"
    using sinvD [OF reachable_sinv [OF start_reachable]] at by simp_all
  obtain k' where k': "thread_block ((kn start_sys)\<lparr>intr_on := False\<rparr>) = Some k'" using idle_block_ok [OF d] by blast
  show ?thesis using synch_refinement [OF start_reachable s_idle [OF at k']] s_idle [OF at k'] by blast
qed

lemma core_DownD: "okpc p \<Longrightarrow> core p = Down s c \<Longrightarrow> p = Down s c"
proof (induction p)
  case (Yielded p)
  then show ?case by simp
qed simp_all

lemma downer_awake:
  assumes "reachable S" "t \<in> downers (abs_sys S) s" "t \<notin> set (waiters (semas (kn S) s))"
  shows "(\<exists>c. pcs S t = Down s c) \<and> (status_of (kn S) t = Some THREAD_RUNNING \<or> status_of (kn S) t = Some THREAD_READY)"
proof -
  note d = sinvD [OF reachable_sinv [OF assms(1)]] and k = reachable_facts [OF assms(1)]
  obtain c where "core (pcs S t) = Down s c" using assms(2) by (auto simp: downers_def abs_sys_def)
  then have pc: "pcs S t = Down s c" by (rule core_DownD [OF pinvD(4) [OF d(4)]])
  then have alive: "status_of (kn S) t \<noteq> None" "status_of (kn S) t \<noteq> Some THREAD_DYING"
    using pinvD(5) [OF d(4), of t] pc by fastforce+
  then have ni: "t \<noteq> idle_thread (kn S)" using pinvD(2) [OF d(4), of t] pc by auto
  have "status_of (kn S) t \<noteq> Some THREAD_BLOCKED"
  proof
    assume "status_of (kn S) t = Some THREAD_BLOCKED"
    moreover have "t \<notin> newborn (mks S)" using minvD(3) [OF d(7), of t] pc by auto
    ultimately obtain s' where s': "t \<in> set (waiters (semas (kn S) s'))" using k(7) ni by blast
    then have "s' = s" using pinvD(3) [OF d(4) s'] pc by auto
    then show False using s' assms(3) by simp
  qed
  then show ?thesis using alive pc by (cases "status_of (kn S) t") (auto intro: thread_status.exhaust)
qed

text \<open>
  C7. No wakeup is lost: while threads sleep on a semaphore, its value is at most the number of
  threads that are awake in the loop of \<open>sema_down\<close> on it. In particular, when the value is
  positive, a thread that can run is about to take it.
\<close>

theorem no_lost_wakeup:
  assumes "reachable S" "waiters (semas (kn S) s) \<noteq> []"
  shows "finite {t. (status_of (kn S) t = Some THREAD_RUNNING \<or> status_of (kn S) t = Some THREAD_READY) \<and>
        (\<exists>c. pcs S t = Down s c)} \<and>
    sval (semas (kn S) s) \<le>
      card {t. (status_of (kn S) t = Some THREAD_RUNNING \<or> status_of (kn S) t = Some THREAD_READY) \<and>
        (\<exists>c. pcs S t = Down s c)}"
proof -
  have w: "wake_inv (abs_sys S)" using reachable_abs [OF assms(1)] by blast
  define D where "D = downers (abs_sys S) s - set (waiters (semas (kn S) s))"
  define B where "B = {t. (status_of (kn S) t = Some THREAD_RUNNING \<or> status_of (kn S) t = Some THREAD_READY) \<and>
        (\<exists>c. pcs S t = Down s c)}"
  have "D \<subseteq> B" using downer_awake [OF assms(1)] by (auto simp: D_def B_def)
  moreover have f: "finite (downers (abs_sys S) s)" using w by (intro finite_downers) (simp add: wake_inv_def)
  have "B \<subseteq> downers (abs_sys S) s" by (auto simp: B_def downers_def abs_sys_def)
  then have "finite B" using f by (rule finite_subset)
  moreover have "sval (semas (kn S) s) \<le> card D" using w assms(2) by (simp add: wake_inv_def D_def)
  ultimately show ?thesis unfolding B_def [symmetric] using card_mono le_trans by blast
qed

theorem no_lost_wakeup_witness:
  "\<exists>S. reachable S \<and> waiters (semas (kn S) (Sem 1)) \<noteq> [] \<and> sval (semas (kn S) (Sem 1)) \<le>
      card {t. (status_of (kn S) t = Some THREAD_RUNNING \<or> status_of (kn S) t = Some THREAD_READY) \<and>
        (\<exists>c. pcs S t = Down (Sem 1) c)}"
  using sleeper_reachable no_lost_wakeup by blast

text \<open>
  C6. Locks exclude each other. A thread is in the section of a lock from the moment it has got
  the semaphore until it gives it back: in \<open>Take\<close>, as the holder, in \<open>Drop\<close>. At most one thread is
  in the section, and the semaphore of the lock is 0 exactly while there is one, so the lock can
  be got again after each release; \<open>lock_acquire\<close> never replaces a holder.
\<close>

theorem lock_mutual_exclusion:
  assumes "reachable S"
  shows "(\<forall>t u. t \<in> owners (abs_sys S) l \<and> u \<in> owners (abs_sys S) l \<longrightarrow> t = u) \<and>
    sval (semas (kn S) (Sem_of_lock l)) = (if owners (abs_sys S) l = {} then 1 else 0) \<and>
    (at S = Take l \<longrightarrow> holder (kn S) l = 0)"
proof -
  have i: "lock_inv (abs_sys S)" using reachable_abs [OF assms] by blast
  have "at S = Take l \<Longrightarrow> ctl (abs_sys S) (cur (kn S)) = Take l" by simp
  then have "at S = Take l \<longrightarrow> holder (kn S) l = 0" using lock_invD(2) [OF i] by fastforce
  then show ?thesis using lock_invD(3) [OF i, of l] by auto
qed

theorem lock_mutual_exclusion_witness:
  "sval (semas (kn start_sys) (Sem_of_lock 3)) = (if owners (abs_sys start_sys) 3 = {} then 1 else 0)"
  using lock_mutual_exclusion [OF start_reachable, of 3] by blast

end
