(* ===== verification/Rwlock.thy ===== *)
theory Rwlock
  imports Prelude
begin

text \<open>
  Condition variables and readers-writers locks of \<open>threads/synch.c\<close>. The code between the
  acquisition and the release of the guard lock is one step of the model, which is what the mutual
  exclusion of locks (theory \<open>Synch_Spec\<close>) gives; \<open>cond_wait\<close> is split where it releases the guard.
  Condition variables are indexed by \<open>True\<close> for \<open>read\<close> and \<open>False\<close> for \<open>write\<close>, as the flag
  \<open>reader\<close> of the code; each waiting thread has the semaphore of its \<open>semaphore_elem\<close>.
\<close>

section \<open>The code\<close>

record rw_lock =
  guard :: nat
  conds :: "bool \<Rightarrow> nat list"
  wsem :: "nat \<Rightarrow> nat"
  AR :: int
  WR :: int
  AW :: int
  WW :: int

definition cond_init :: "bool \<Rightarrow> rw_lock \<Rightarrow> rw_lock" where
  "cond_init c s = s\<lparr>conds := (conds s)(c := [])\<rparr>"

definition rw_lock_init :: "rw_lock \<Rightarrow> rw_lock" where
  "rw_lock_init s = (cond_init False (cond_init True (s\<lparr>guard := 0\<rparr>)))\<lparr>AR := 0, WR := 0, AW := 0, WW := 0\<rparr>"

text \<open>\<open>cond_wait\<close> up to \<open>lock_release\<close>; the rest is \<open>sema_down\<close> and \<open>lock_acquire\<close>.\<close>

definition cond_wait_enter :: "bool \<Rightarrow> nat \<Rightarrow> rw_lock \<Rightarrow> rw_lock option" where
  "cond_wait_enter c t s = do {
     kassert (guard s = t);
     Some (s\<lparr>wsem := (wsem s)(t := 0), conds := (conds s)(c := conds s c @ [t]), guard := 0\<rparr>)
   }"

definition cond_signal :: "bool \<Rightarrow> nat \<Rightarrow> rw_lock \<Rightarrow> rw_lock option" where
  "cond_signal c t s = do {
     kassert (guard s = t);
     Some (case conds s c of
       [] \<Rightarrow> s
     | x # xs \<Rightarrow> s\<lparr>conds := (conds s)(c := xs), wsem := (wsem s)(x := wsem s x + 1)\<rparr>)
   }"

partial_function (option) cond_broadcast :: "bool \<Rightarrow> nat \<Rightarrow> rw_lock \<Rightarrow> rw_lock option" where
  "cond_broadcast c t s =
     (if conds s c = [] then Some s else do { s' \<leftarrow> cond_signal c t s; cond_broadcast c t s' })"

text \<open>
  \<open>rw_round\<close> is the loop test of \<open>rw_lock_acquire\<close> with what follows it until the guard is
  released: \<open>False\<close> says that the thread waits, \<open>True\<close> that the lock is acquired.
\<close>

definition rw_round :: "bool \<Rightarrow> nat \<Rightarrow> rw_lock \<Rightarrow> (bool \<times> rw_lock) option" where
  "rw_round reader t s =
     (if reader then
        (if AW s + WW s > 0
         then map_option (Pair False) (cond_wait_enter True t (s\<lparr>WR := WR s + 1\<rparr>))
         else Some (True, s\<lparr>AR := AR s + 1, guard := 0\<rparr>))
      else
        (if AR s + AW s > 0
         then map_option (Pair False) (cond_wait_enter False t (s\<lparr>WW := WW s + 1\<rparr>))
         else Some (True, s\<lparr>AW := AW s + 1, guard := 0\<rparr>)))"

definition rw_lock_acquire_enter :: "bool \<Rightarrow> nat \<Rightarrow> rw_lock \<Rightarrow> (bool \<times> rw_lock) option" where
  "rw_lock_acquire_enter reader t s = do { kassert (guard s = 0); rw_round reader t (s\<lparr>guard := t\<rparr>) }"

definition rw_lock_acquire_again :: "bool \<Rightarrow> nat \<Rightarrow> rw_lock \<Rightarrow> (bool \<times> rw_lock) option" where
  "rw_lock_acquire_again reader t s = do {
     kassert (guard s = 0);
     let s1 = s\<lparr>guard := t\<rparr>;
     rw_round reader t (if reader then s1\<lparr>WR := WR s1 - 1\<rparr> else s1\<lparr>WW := WW s1 - 1\<rparr>)
   }"

definition rw_lock_release :: "bool \<Rightarrow> nat \<Rightarrow> rw_lock \<Rightarrow> rw_lock option" where
  "rw_lock_release reader t s = do {
     kassert (guard s = 0);
     let s1 = s\<lparr>guard := t\<rparr>;
     s2 \<leftarrow> (if reader then
              (let s' = s1\<lparr>AR := AR s1 - 1\<rparr>
               in if AR s' = 0 \<and> WW s' > 0 then cond_signal False t s' else Some s')
            else
              (let s' = s1\<lparr>AW := AW s1 - 1\<rparr>
               in if WW s' > 0 then cond_signal False t s'
                  else if WR s' > 0 then cond_broadcast True t s'
                  else Some s'));
     Some (s2\<lparr>guard := 0\<rparr>)
   }"

section \<open>Threads that use the lock\<close>

text \<open>
  A thread is outside, waiting in \<open>cond_wait\<close>, back from its semaphore but not yet through
  \<open>lock_acquire\<close>, or inside, as a reader (\<open>True\<close>) or as a writer.
\<close>

datatype place = Out | Wait bool | Woken bool | In bool

inductive rwstep :: "rw_lock \<times> (nat \<Rightarrow> place) \<Rightarrow> rw_lock \<times> (nat \<Rightarrow> place) \<Rightarrow> bool" where
  rw_enter: "p t = Out \<Longrightarrow> rw_lock_acquire_enter r t s = Some (b, s') \<Longrightarrow>
    rwstep (s, p) (s', p(t := (if b then In r else Wait r)))"
| rw_wake: "p t = Wait r \<Longrightarrow> wsem s t \<noteq> 0 \<Longrightarrow>
    rwstep (s, p) (s\<lparr>wsem := (wsem s)(t := wsem s t - 1)\<rparr>, p(t := Woken r))"
| rw_again: "p t = Woken r \<Longrightarrow> rw_lock_acquire_again r t s = Some (b, s') \<Longrightarrow>
    rwstep (s, p) (s', p(t := (if b then In r else Wait r)))"
| rw_leave: "p t = In r \<Longrightarrow> rw_lock_release r t s = Some s' \<Longrightarrow> rwstep (s, p) (s', p(t := Out))"

inductive rwreach :: "rw_lock \<times> (nat \<Rightarrow> place) \<Rightarrow> bool" where
  "rwreach (rw_lock_init s, \<lambda>_. Out)"
| "rwreach x \<Longrightarrow> rwstep x y \<Longrightarrow> rwreach y"

section \<open>The invariant\<close>

definition cnt :: "place \<Rightarrow> (nat \<Rightarrow> place) \<Rightarrow> int" where
  "cnt q p = int (card {t. p t = q})"

lemma cnt_upd:
  assumes "finite {t. p t \<noteq> Out}" "q \<noteq> Out"
  shows "cnt q (p(t := q')) = cnt q p + (if q' = q then 1 else 0) - (if p t = q then 1 else 0)"
proof -
  have f: "finite {u. p u = q}" by (rule finite_subset [OF _ assms(1)]) (use assms(2) in auto)
  have "{u. (p(t := q')) u = q} = (if q' = q then insert t {u. p u = q} else {u. p u = q} - {t})" by auto
  moreover have "p t = q \<Longrightarrow> 0 < card {u. p u = q}" using f by (auto simp: card_gt_0_iff)
  ultimately show ?thesis
    using f by (cases "p t = q") (auto simp: cnt_def card_insert_if of_nat_diff)
qed

lemma cnt_nonneg: "0 \<le> cnt q p"
  by (simp add: cnt_def)

lemma cnt_pos: "finite {t. p t \<noteq> Out} \<Longrightarrow> q \<noteq> Out \<Longrightarrow> p t = q \<Longrightarrow> 0 < cnt q p"
proof -
  assume "finite {t. p t \<noteq> Out}" "q \<noteq> Out" "p t = q"
  then have "finite {u. p u = q}" "t \<in> {u. p u = q}" by (auto elim!: rev_finite_subset)
  then have "0 < card {u. p u = q}" by (subst card_gt_0_iff) blast
  then show ?thesis by (simp add: cnt_def)
qed

lemma cnt_posE: "0 < cnt q p \<Longrightarrow> \<exists>t. p t = q"
  by (auto simp: cnt_def card_gt_0_iff)

definition awake :: "rw_lock \<Rightarrow> (nat \<Rightarrow> place) \<Rightarrow> bool \<Rightarrow> nat \<Rightarrow> bool" where
  "awake s p r t \<longleftrightarrow> p t = Woken r \<or> (p t = Wait r \<and> wsem s t \<noteq> 0)"

definition rwbase :: "rw_lock \<Rightarrow> (nat \<Rightarrow> place) \<Rightarrow> bool" where
  "rwbase s p \<longleftrightarrow> finite {t. p t \<noteq> Out} \<and>
     AR s = cnt (In True) p \<and> AW s = cnt (In False) p \<and>
     WR s = cnt (Wait True) p + cnt (Woken True) p \<and> WW s = cnt (Wait False) p + cnt (Woken False) p \<and>
     AW s \<le> 1 \<and> (AW s = 0 \<or> AR s = 0) \<and>
     (\<forall>r. distinct (conds s r)) \<and> (\<forall>r t. t \<in> set (conds s r) \<longleftrightarrow> p t = Wait r \<and> wsem s t = 0)"

definition rwsafe :: "rw_lock \<Rightarrow> (nat \<Rightarrow> place) \<Rightarrow> bool" where
  "rwsafe s p \<longleftrightarrow> (conds s True \<noteq> [] \<longrightarrow> AW s + WW s > 0) \<and>
     (conds s False \<noteq> [] \<longrightarrow> AR s + AW s > 0 \<or> (\<exists>t. awake s p False t))"

definition rwinv :: "rw_lock \<Rightarrow> (nat \<Rightarrow> place) \<Rightarrow> bool" where
  "rwinv s p \<longleftrightarrow> guard s = 0 \<and> rwbase s p \<and> rwsafe s p"

lemma finite_places: "finite {t. p t \<noteq> Out} \<Longrightarrow> finite {t. (p(u := q)) t \<noteq> Out}"
  by (rule finite_subset [of _ "insert u {t. p t \<noteq> Out}"]) auto

lemma rwbaseD:
  assumes "rwbase s p"
  shows "finite {t. p t \<noteq> Out}" "AR s = cnt (In True) p" "AW s = cnt (In False) p"
    "WR s = cnt (Wait True) p + cnt (Woken True) p" "WW s = cnt (Wait False) p + cnt (Woken False) p"
    "AW s \<le> 1" "AW s = 0 \<or> AR s = 0" "\<And>r. distinct (conds s r)"
    "\<And>r t. t \<in> set (conds s r) \<longleftrightarrow> p t = Wait r \<and> wsem s t = 0"
  using assms unfolding rwbase_def by blast+

lemma rwbase_nonneg: "rwbase s p \<Longrightarrow> 0 \<le> AR s" "rwbase s p \<Longrightarrow> 0 \<le> AW s" "rwbase s p \<Longrightarrow> 0 \<le> WR s" "rwbase s p \<Longrightarrow> 0 \<le> WW s"
  using cnt_nonneg by (simp_all add: rwbase_def)

lemma rw_wait_inv:
  fixes r :: bool
  assumes b: "rwbase s p" and o: "p t = Out" and g: "guard s = t"
  defines "s1 \<equiv> (if r then s\<lparr>WR := WR s + 1\<rparr> else s\<lparr>WW := WW s + 1\<rparr>)"
  shows "\<exists>s'. cond_wait_enter r t s1 = Some s' \<and> guard s' = 0 \<and> rwbase s' (p(t := Wait r)) \<and>
    AR s' = AR s \<and> AW s' = AW s \<and> WW s' = (if r then WW s else WW s + 1) \<and>
    conds s' = (conds s)(r := conds s r @ [t]) \<and> wsem s' = (wsem s)(t := 0)"
proof -
  note d = rwbaseD [OF b]
  define s' where "s' = s1\<lparr>wsem := (wsem s)(t := 0), conds := (conds s)(r := conds s r @ [t]), guard := 0\<rparr>"
  have "cond_wait_enter r t s1 = Some s'" using g by (simp add: cond_wait_enter_def s1_def s'_def)
  moreover have "t \<notin> set (conds s c)" for c using d(9) o by simp
  then have "rwbase s' (p(t := Wait r))"
    using d finite_places [OF d(1), of t "Wait r"] o
    by (simp add: rwbase_def s'_def s1_def cnt_upd [OF d(1)])
  ultimately show ?thesis by (simp add: s'_def s1_def)
qed

lemma rw_got_inv:
  fixes r :: bool
  assumes b: "rwbase s p" and o: "p t = Out" and ok: "if r then AW s = 0 else AR s + AW s = 0"
  defines "s' \<equiv> (if r then s\<lparr>AR := AR s + 1, guard := 0\<rparr> else s\<lparr>AW := AW s + 1, guard := 0\<rparr>)"
  shows "guard s' = 0" "rwbase s' (p(t := In r))"
proof -
  note d = rwbaseD [OF b]
  show "guard s' = 0" by (simp add: s'_def)
  show "rwbase s' (p(t := In r))"
    using d finite_places [OF d(1), of t "In r"] o ok rwbase_nonneg [OF b]
    by (simp add: rwbase_def s'_def cnt_upd [OF d(1)] split: if_splits)
qed

lemma rw_round_inv:
  assumes b: "rwbase s p" and o: "p t = Out" and g: "guard s = t" and sf: "r \<Longrightarrow> rwsafe s p"
  shows "\<exists>got s'. rw_round r t s = Some (got, s') \<and> rwinv s' (p(t := (if got then In r else Wait r)))"
proof (cases "(if r then AW s + WW s else AR s + AW s) > 0")
  case True
  obtain s' where s': "cond_wait_enter r t (if r then s\<lparr>WR := WR s + 1\<rparr> else s\<lparr>WW := WW s + 1\<rparr>) = Some s'"
    "guard s' = 0" "rwbase s' (p(t := Wait r))" "AR s' = AR s" "AW s' = AW s" "WW s' = (if r then WW s else WW s + 1)"
    "conds s' = (conds s)(r := conds s r @ [t])" "wsem s' = (wsem s)(t := 0)"
    using rw_wait_inv [OF b o g, of r] by blast
  have aw: "\<exists>u. awake s' (p(t := Wait r)) False u" if "awake s p False u" for u
    using that o by (intro exI [of _ u]) (auto simp: awake_def s'(8))
  have "rwsafe s' (p(t := Wait r))"
  proof (cases r)
    case True
    then show ?thesis using sf aw \<open>(if r then AW s + WW s else AR s + AW s) > 0\<close>
      by (auto simp: rwsafe_def s')
  next
    case False
    then show ?thesis using rwbase_nonneg [OF b] \<open>(if r then AW s + WW s else AR s + AW s) > 0\<close>
      by (simp add: rwsafe_def s')
  qed
  then show ?thesis using s' True
    by (intro exI [of _ False] exI [of _ s']) (auto simp: rw_round_def rwinv_def split: if_splits)
next
  case False
  then have ok: "if r then AW s = 0 else AR s + AW s = 0" "r \<Longrightarrow> WW s = 0"
    using rwbase_nonneg [OF b] by (auto split: if_splits)
  define s' where "s' = (if r then s\<lparr>AR := AR s + 1, guard := 0\<rparr> else s\<lparr>AW := AW s + 1, guard := 0\<rparr>)"
  note k = rw_got_inv [OF b o ok(1), folded s'_def]
  have "rwsafe s' (p(t := In r))"
    using sf ok rwbase_nonneg [OF b] by (auto simp: rwsafe_def s'_def)
  then show ?thesis using k False
    by (intro exI [of _ True] exI [of _ s']) (auto simp: rw_round_def rwinv_def s'_def split: if_splits)
qed

lemma rw_guard [simp]: "rwbase (s\<lparr>guard := g\<rparr>) p = rwbase s p" "rwsafe (s\<lparr>guard := g\<rparr>) p = rwsafe s p"
  by (simp_all add: rwbase_def rwsafe_def awake_def)

lemma rw_wake_inv:
  assumes i: "rwinv s p" and w: "p t = Wait r" "wsem s t \<noteq> 0"
  shows "rwinv (s\<lparr>wsem := (wsem s)(t := wsem s t - 1)\<rparr>) (p(t := Woken r))"
proof -
  have b: "rwbase s p" and sf: "rwsafe s p" and g: "guard s = 0" using i by (simp_all add: rwinv_def)
  note d = rwbaseD [OF b]
  have nc: "t \<notin> set (conds s c)" for c using d(9) w by simp
  define s' where "s' = s\<lparr>wsem := (wsem s)(t := wsem s t - 1)\<rparr>"
  have "rwbase s' (p(t := Woken r))"
    using d finite_places [OF d(1), of t "Woken r"] w nc by (auto simp: rwbase_def s'_def cnt_upd [OF d(1)])
  moreover have "\<exists>u. awake s' (p(t := Woken r)) False u" if "awake s p False u" for u
    using that w by (intro exI [of _ u]) (auto simp: awake_def s'_def)
  then have "rwsafe s' (p(t := Woken r))" using sf by (auto simp: rwsafe_def s'_def)
  ultimately show ?thesis using g by (simp add: rwinv_def s'_def)
qed

lemma rw_again_inv:
  assumes i: "rwinv s p" and w: "p t = Woken r"
  shows "\<exists>got s'. rw_lock_acquire_again r t s = Some (got, s') \<and> rwinv s' (p(t := (if got then In r else Wait r)))"
proof -
  have b: "rwbase s p" and sf: "rwsafe s p" and g: "guard s = 0" using i by (simp_all add: rwinv_def)
  note d = rwbaseD [OF b]
  define s1 where "s1 = (if r then (s\<lparr>guard := t\<rparr>)\<lparr>WR := WR s - 1\<rparr> else (s\<lparr>guard := t\<rparr>)\<lparr>WW := WW s - 1\<rparr>)"
  have b1: "rwbase s1 (p(t := Out))"
    using d finite_places [OF d(1), of t Out] w by (auto simp: rwbase_def s1_def cnt_upd [OF d(1)])
  have g1: "guard s1 = t" by (simp add: s1_def)
  have "rwsafe s1 (p(t := Out))" if r
  proof -
    have "\<exists>u. awake s1 (p(t := Out)) False u" if "awake s p False u" for u
      using that w \<open>r\<close> by (intro exI [of _ u]) (auto simp: awake_def s1_def)
    then show ?thesis using sf \<open>r\<close> by (auto simp: rwsafe_def s1_def)
  qed
  then obtain got s' where "rw_round r t s1 = Some (got, s')" "rwinv s' ((p(t := Out))(t := (if got then In r else Wait r)))"
    using rw_round_inv [OF b1, of t r] g1 by auto
  moreover have "rw_lock_acquire_again r t s = rw_round r t s1"
    using g by (simp add: rw_lock_acquire_again_def s1_def Let_def)
  ultimately show ?thesis by auto
qed

lemma rw_enter_inv:
  assumes i: "rwinv s p" and o: "p t = Out"
  shows "\<exists>got s'. rw_lock_acquire_enter r t s = Some (got, s') \<and> rwinv s' (p(t := (if got then In r else Wait r)))"
proof -
  have b: "rwbase (s\<lparr>guard := t\<rparr>) p" and sf: "rwsafe (s\<lparr>guard := t\<rparr>) p" and g: "guard s = 0"
    using i by (simp_all add: rwinv_def)
  then show ?thesis using rw_round_inv [OF b o _ sf] by (simp add: rw_lock_acquire_enter_def)
qed

lemma cond_broadcast_closed:
  assumes "guard s = t" "distinct (conds s c)"
  shows "cond_broadcast c t s = Some (s\<lparr>conds := (conds s)(c := []),
    wsem := (\<lambda>x. if x \<in> set (conds s c) then wsem s x + 1 else wsem s x)\<rparr>)"
  using assms
proof (induction "conds s c" arbitrary: s)
  case Nil
  then have "(conds s)(c := []) = conds s" by (auto simp: fun_eq_iff)
  then show ?case using Nil by (subst cond_broadcast.simps) simp
next
  case (Cons x xs)
  define s1 where "s1 = s\<lparr>conds := (conds s)(c := xs), wsem := (wsem s)(x := wsem s x + 1)\<rparr>"
  have "cond_signal c t s = Some s1"
    using Cons(3) by (simp add: cond_signal_def s1_def Cons(2) [symmetric])
  moreover have "cond_broadcast c t s1 = Some (s1\<lparr>conds := (conds s1)(c := []),
    wsem := (\<lambda>x. if x \<in> set (conds s1 c) then wsem s1 x + 1 else wsem s1 x)\<rparr>)"
    using Cons(3,4) by (intro Cons(1)) (auto simp: s1_def Cons(2) [symmetric])
  moreover have "x \<notin> set xs" "set (conds s c) = insert x (set xs)" "conds s c \<noteq> []"
    using Cons(2,4) by (metis distinct.simps(2), metis list.simps(15), metis list.distinct(1))
  ultimately show ?case
    by (subst cond_broadcast.simps) (auto simp: s1_def fun_eq_iff)
qed

text \<open>Signalling keeps the counters and wakes the first thread of the list.\<close>

lemma rw_signal_inv:
  assumes b: "rwbase s p" and g: "guard s = t"
  shows "\<exists>s'. cond_signal c t s = Some s' \<and> rwbase s' p \<and> AR s' = AR s \<and> AW s' = AW s \<and> WR s' = WR s \<and> WW s' = WW s \<and>
    conds s' = (conds s)(c := tl (conds s c)) \<and> (conds s c \<noteq> [] \<longrightarrow> (\<exists>u. awake s' p c u))"
proof (cases "conds s c")
  case Nil
  then have "(conds s)(c := []) = conds s" by (auto simp: fun_eq_iff)
  then show ?thesis using Nil g b by (simp add: cond_signal_def)
next
  case (Cons x xs)
  note d = rwbaseD [OF b]
  define s' where "s' = s\<lparr>conds := (conds s)(c := xs), wsem := (wsem s)(x := wsem s x + 1)\<rparr>"
  have x: "p x = Wait c" "wsem s x = 0" "x \<notin> set xs" using d(9) [of x c] d(8) [of c] Cons by auto
  have xo: "x \<notin> set (conds s r)" if "r \<noteq> c" for r using d(9) [of x r] x that by simp
  have "u \<in> set (conds s' r) \<longleftrightarrow> p u = Wait r \<and> wsem s' u = 0" for r u
  proof (cases "u = x")
    case True
    then show ?thesis using x xo [of r] by (simp add: s'_def)
  next
    case False
    then show ?thesis using d(9) [of u r] Cons by (auto simp: s'_def)
  qed
  moreover have "distinct (conds s' r)" for r using d(8) [of r] Cons by (auto simp: s'_def)
  ultimately have "rwbase s' p" using d by (simp add: rwbase_def) (simp add: s'_def)
  moreover have "awake s' p c x" using x by (simp add: awake_def s'_def)
  ultimately show ?thesis using g Cons by (auto simp: cond_signal_def s'_def)
qed

lemma rw_broadcast_inv:
  assumes b: "rwbase s p" and g: "guard s = t"
  shows "\<exists>s'. cond_broadcast c t s = Some s' \<and> rwbase s' p \<and> AR s' = AR s \<and> AW s' = AW s \<and> WR s' = WR s \<and> WW s' = WW s \<and>
    conds s' = (conds s)(c := [])"
proof -
  note d = rwbaseD [OF b]
  define s' where "s' = s\<lparr>conds := (conds s)(c := []),
    wsem := (\<lambda>x. if x \<in> set (conds s c) then wsem s x + 1 else wsem s x)\<rparr>"
  have "rwbase s' p" using d by (auto simp: rwbase_def s'_def)
  then show ?thesis using cond_broadcast_closed [OF g d(8)] by (simp add: s'_def)
qed

lemma rw_leave_inv:
  assumes i: "rwinv s p" and w: "p t = In r"
  shows "\<exists>s'. rw_lock_release r t s = Some s' \<and> rwinv s' (p(t := Out))"
proof -
  have b: "rwbase s p" and sf: "rwsafe s p" and g: "guard s = 0" using i by (simp_all add: rwinv_def)
  note d = rwbaseD [OF b]
  have pos: "0 < cnt (In r) p" by (rule cnt_pos [OF d(1) _ w]) simp
  define s1 where "s1 = (if r then (s\<lparr>guard := t\<rparr>)\<lparr>AR := AR s - 1\<rparr> else (s\<lparr>guard := t\<rparr>)\<lparr>AW := AW s - 1\<rparr>)"
  have b1: "rwbase s1 (p(t := Out))"
    using d finite_places [OF d(1), of t Out] w pos by (auto simp: rwbase_def s1_def cnt_upd [OF d(1)])
  have g1: "guard s1 = t" by (simp add: s1_def)
  have aw: "\<exists>u. awake s1 (p(t := Out)) False u" if "awake s p False u" for u
    using that w by (intro exI [of _ u]) (auto simp: awake_def s1_def)
  note nn = rwbase_nonneg [OF b1]
  obtain sg where sg: "cond_signal False t s1 = Some sg" "rwbase sg (p(t := Out))" "AR sg = AR s1" "AW sg = AW s1"
    "WW sg = WW s1" "conds sg = (conds s1)(False := tl (conds s1 False))"
    "conds s1 False \<noteq> [] \<longrightarrow> (\<exists>u. awake sg (p(t := Out)) False u)"
    using rw_signal_inv [OF b1 g1, of False] by blast
  obtain sb where sb: "cond_broadcast True t s1 = Some sb" "rwbase sb (p(t := Out))" "AR sb = AR s1" "AW sb = AW s1"
    "WW sb = WW s1" "conds sb = (conds s1)(True := [])"
    using rw_broadcast_inv [OF b1 g1, of True] by blast
  define s2 where "s2 = (if r then (if AR s1 = 0 \<and> WW s1 > 0 then sg else s1)
     else if WW s1 > 0 then sg else if WR s1 > 0 then sb else s1)"
  have "rw_lock_release r t s = do {
     s2 \<leftarrow> (if r then (if AR s1 = 0 \<and> WW s1 > 0 then cond_signal False t s1 else Some s1)
           else if WW s1 > 0 then cond_signal False t s1
           else if WR s1 > 0 then cond_broadcast True t s1 else Some s1);
     Some (s2\<lparr>guard := 0\<rparr>) }"
    using g by (cases r) (simp_all add: rw_lock_release_def s1_def Let_def)
  then have rel: "rw_lock_release r t s = Some (s2\<lparr>guard := 0\<rparr>)"
    using sg(1) sb(1) by (simp add: s2_def)
  have b2: "rwbase s2 (p(t := Out))" using b1 sg(2) sb(2) by (simp add: s2_def)
  have "rwsafe s2 (p(t := Out))"
  proof (cases r)
    case True
    have c: "conds s1 = conds s" "AW s1 = AW s" "WW s1 = WW s" "AR s1 = AR s - 1" "AW s = 0"
      using True pos d(2,7) by (simp_all add: s1_def)
    show ?thesis
    proof (cases "AR s1 = 0 \<and> WW s1 > 0")
      case t: True
      then have "s2 = sg" using True by (simp add: s2_def)
      then show ?thesis using t sg c nn by (auto simp: rwsafe_def)
    next
      case f: False
      then have e: "s2 = s1" using True unfolding s2_def by argo
      have "WW s = 0 \<Longrightarrow> conds s False = []"
      proof (rule ccontr)
        assume "WW s = 0" "conds s False \<noteq> []"
        then obtain u where "u \<in> set (conds s False)" by (cases "conds s False") auto
        then have "p u = Wait False" using d(9) by simp
        then have "0 < cnt (Wait False) p" by (rule cnt_pos [OF d(1), rotated]) simp
        then show False using \<open>WW s = 0\<close> d(5) cnt_nonneg [of "Woken False" p] by simp
      qed
      then show ?thesis using f sf c nn e by (auto simp: rwsafe_def)
    qed
  next
    case False
    have c: "conds s1 = conds s" "WR s1 = WR s" "WW s1 = WW s" "AW s1 = AW s - 1" "AR s1 = AR s"
      using False by (simp_all add: s1_def)
    have none: "cnt (Wait r') p + cnt (Woken r') p = 0 \<Longrightarrow> conds s r' = []" for r'
    proof (rule ccontr)
      assume z: "cnt (Wait r') p + cnt (Woken r') p = 0" "conds s r' \<noteq> []"
      then obtain u where "u \<in> set (conds s r')" by (cases "conds s r'") auto
      then have "p u = Wait r'" using d(9) by simp
      then have "0 < cnt (Wait r') p" by (rule cnt_pos [OF d(1), rotated]) simp
      then show False using z cnt_nonneg [of "Woken r'" p] by simp
    qed
    consider "WW s > 0" | "WW s = 0" "WR s > 0" | "WW s = 0" "WR s = 0" using nn c by linarith
    then show ?thesis
    proof cases
      case 1
      then have "s2 = sg" using False c by (simp add: s2_def)
      then show ?thesis using 1 sg c nn by (auto simp: rwsafe_def)
    next
      case 2
      then have "s2 = sb" using False c by (simp add: s2_def)
      moreover have "conds s False = []" using none [of False] 2 d(5) by simp
      ultimately show ?thesis using 2 sb c by (auto simp: rwsafe_def)
    next
      case 3
      then have "s2 = s1" using False c by (simp add: s2_def)
      moreover have "conds s r' = []" for r' using none [of r'] 3 d(4,5) by (cases r') simp_all
      ultimately show ?thesis by (simp add: rwsafe_def c)
    qed
  qed
  then have "rwinv (s2\<lparr>guard := 0\<rparr>) (p(t := Out))" using b2 by (simp add: rwinv_def)
  then show ?thesis using rel by blast
qed

lemma rwinv_init: "rwinv (rw_lock_init s) (\<lambda>_. Out)"
  by (auto simp: rwinv_def rwbase_def rwsafe_def rw_lock_init_def cond_init_def cnt_def)

lemma rwreach_inv: "rwreach x \<Longrightarrow> rwinv (fst x) (snd x)"
proof (induction rule: rwreach.induct)
  case (1 s)
  then show ?case using rwinv_init by simp
next
  case (2 x y)
  from 2(2,3) show ?case
  proof (induction rule: rwstep.induct)
    case (rw_enter p t r s b s')
    then show ?case using rw_enter_inv [of s p t r] by (auto simp: fun_upd_def)
  next
    case (rw_wake p t r s)
    then show ?case using rw_wake_inv [of s p t r] by (simp add: fun_upd_def)
  next
    case (rw_again p t r s b s')
    then show ?case using rw_again_inv [of s p t r] by (auto simp: fun_upd_def)
  next
    case (rw_leave p t r s s')
    then show ?case using rw_leave_inv [of s p t r] by (auto simp: fun_upd_def)
  qed
qed

text \<open>
  C8. A readers-writers lock keeps its promise: a writer is alone inside, readers share. Its
  counters \<open>AR\<close>, \<open>AW\<close>, \<open>WR\<close>, \<open>WW\<close> count the threads inside and waiting, so they are never negative
  and never drift.
\<close>

theorem rw_lock_exclusion:
  assumes "rwreach (s, p)"
  shows "(p t = In False \<and> p u \<noteq> Out \<and> (\<exists>r. p u = In r) \<longrightarrow> u = t) \<and>
    AR s = int (card {t. p t = In True}) \<and> AW s = int (card {t. p t = In False}) \<and>
    WR s = int (card {t. p t = Wait True}) + int (card {t. p t = Woken True}) \<and>
    WW s = int (card {t. p t = Wait False}) + int (card {t. p t = Woken False})"
proof -
  have b: "rwbase s p" using rwreach_inv [OF assms] by (simp add: rwinv_def)
  note d = rwbaseD [OF b]
  have "u = t" if w: "p t = In False" and u: "p u = In r" for r
  proof (rule ccontr)
    assume ne: "u \<noteq> t"
    have "0 < AW s" using cnt_pos [OF d(1) _ w] d(3) by simp
    then have "AR s = 0" "AW s = 1" using d(6,7) by linarith+
    show False
    proof (cases r)
      case True
      then show ?thesis using cnt_pos [OF d(1) _ u] d(2) \<open>AR s = 0\<close> by simp
    next
      case False
      have f: "finite {t. p t = In False}" by (rule finite_subset [OF _ d(1)]) auto
      have "card {t, u} \<le> card {t. p t = In False}" using w u False by (intro card_mono f) auto
      then show False using ne \<open>AW s = 1\<close> d(3) by (simp add: cnt_def)
    qed
  qed
  then show ?thesis using d(2-5) unfolding cnt_def by blast
qed

text \<open>
  C9. No thread is forgotten: no operation on the lock panics, and while nobody is inside, any
  thread that waits can count on one that is awake, that is, has been signalled and is on its way
  to try again.
\<close>

theorem rw_lock_progress:
  assumes "rwreach (s, p)"
  shows "(p t = Out \<longrightarrow> rw_lock_acquire_enter r t s \<noteq> None) \<and>
    (p t = Woken r \<longrightarrow> rw_lock_acquire_again r t s \<noteq> None) \<and>
    (p t = In r \<longrightarrow> rw_lock_release r t s \<noteq> None) \<and>
    (p t = Wait r \<and> (\<forall>u r'. p u \<noteq> In r') \<longrightarrow> (\<exists>u r'. awake s p r' u))"
proof -
  have i: "rwinv s p" using rwreach_inv [OF assms] by simp
  then have b: "rwbase s p" and sf: "rwsafe s p" by (simp_all add: rwinv_def)
  note d = rwbaseD [OF b]
  have "\<exists>u r'. awake s p r' u" if w: "p t = Wait r" and o: "\<forall>u r'. p u \<noteq> In r'"
  proof (cases "wsem s t = 0")
    case False
    then show ?thesis using w unfolding awake_def by blast
  next
    case True
    then have c: "conds s r \<noteq> []" using d(9) [of t r] w by auto
    have z: "AR s = 0" "AW s = 0" using o by (simp_all add: d(2,3) cnt_def)
    have wr: "conds s False \<noteq> [] \<Longrightarrow> \<exists>u r'. awake s p r' u" using sf z by (auto simp: rwsafe_def)
    show ?thesis
    proof (cases r)
      case False
      then show ?thesis using wr c by simp
    next
      case True
      then have "0 < WW s" using sf c z by (simp add: rwsafe_def)
      then have "0 < cnt (Wait False) p \<or> 0 < cnt (Woken False) p" using d(5) by linarith
      then obtain u where "p u = Wait False \<or> p u = Woken False" using cnt_posE by blast
      then consider "p u = Wait False" "wsem s u = 0" | "awake s p False u" unfolding awake_def by blast
      then show ?thesis
      proof cases
        case 1
        then have "conds s False \<noteq> []" using d(9) [of u False] by auto
        then show ?thesis by (rule wr)
      qed blast
    qed
  qed
  then show ?thesis using rw_enter_inv [OF i] rw_again_inv [OF i] rw_leave_inv [OF i] by fastforce
qed

text \<open>A reader inside, a writer that waits, and a reader that waits behind it.\<close>

definition rw0 :: rw_lock where
  "rw0 = rw_lock_init \<lparr>guard = 9, conds = (\<lambda>_. [7]), wsem = (\<lambda>_. 0), AR = 0, WR = 0, AW = 0, WW = 5\<rparr>"

lemma rw_demo: "\<exists>s p. rwreach (s, p) \<and> p 1 = In True \<and> p 2 = Wait False \<and> p 3 = Wait True"
proof -
  define s1 where "s1 = rw0\<lparr>AR := 1\<rparr>"
  define s2 where "s2 = s1\<lparr>WW := 1, conds := (conds s1)(False := [2])\<rparr>"
  define s3 where "s3 = s2\<lparr>WR := 1, conds := (conds s2)(True := [3])\<rparr>"
  have e1: "rw_lock_acquire_enter True 1 rw0 = Some (True, s1)"
    by (simp add: rw_lock_acquire_enter_def rw_round_def rw0_def s1_def rw_lock_init_def cond_init_def)
  have e2: "rw_lock_acquire_enter False 2 s1 = Some (False, s2)"
    by (simp add: rw_lock_acquire_enter_def rw_round_def rw0_def s1_def s2_def rw_lock_init_def cond_init_def
        cond_wait_enter_def fun_eq_iff)
  have e3: "rw_lock_acquire_enter True 3 s2 = Some (False, s3)"
    by (simp add: rw_lock_acquire_enter_def rw_round_def rw0_def s1_def s2_def s3_def rw_lock_init_def cond_init_def
        cond_wait_enter_def fun_eq_iff)
  have "rwreach (rw0, \<lambda>_. Out)" unfolding rw0_def by (rule rwreach.intros(1))
  then have "rwreach (s1, (\<lambda>_. Out)(1 := In True))" using rw_enter [OF _ e1, of "\<lambda>_. Out"] rwreach.intros(2) by fastforce
  then have "rwreach (s2, (\<lambda>_. Out)(1 := In True, 2 := Wait False))"
    using rw_enter [OF _ e2, of "(\<lambda>_. Out)(1 := In True)"] rwreach.intros(2) by fastforce
  then have "rwreach (s3, (\<lambda>_. Out)(1 := In True, 2 := Wait False, 3 := Wait True))"
    using rw_enter [OF _ e3, of "(\<lambda>_. Out)(1 := In True, 2 := Wait False)"] rwreach.intros(2) by fastforce
  then show ?thesis by (intro exI [of _ s3] exI) auto
qed

theorem rw_lock_exclusion_witness: "\<exists>s p. rwreach (s, p) \<and> p 1 = In True \<and> AR s = int (card {t. p t = In True})"
  using rw_demo rw_lock_exclusion by blast

theorem rw_lock_progress_witness: "\<exists>s p. rwreach (s, p) \<and> p 1 = In True \<and> rw_lock_release True 1 s \<noteq> None"
  using rw_demo rw_lock_progress by blast

end
