(* ===== verification/Block.thy ===== *)
theory Block
  imports Bytes
begin

text \<open>
  Block devices and partitions: \<open>devices/block.c\<close> and \<open>devices/partition.c\<close>. A device is a number,
  0 being the null pointer; its driver is a drive, that is, its sectors, or a partition of another
  device. What the drivers of the drives do (\<open>devices/ide.c\<close>) is to keep the sectors; messages
  are not modelled. \<open>mem_ok n\<close> is the answer of the n-th call of \<open>malloc\<close>.
\<close>

section \<open>The code: devices\<close>

datatype block_type =
  BLOCK_KERNEL | BLOCK_FILESYS | BLOCK_SCRATCH | BLOCK_SWAP | BLOCK_RAW | BLOCK_FOREIGN

datatype driver = Drive "u32 \<Rightarrow> u8 list" | Partition nat u32

record block =
  bname :: string
  btype :: block_type
  bsize :: u32
  ops :: driver
  read_cnt :: u64
  write_cnt :: u64

record devs =
  blocks :: "nat \<Rightarrow> block option"
  all_blocks :: "nat list"
  block_by_role :: "block_type \<Rightarrow> nat"
  allocs :: nat
  mem_ok :: "nat \<Rightarrow> bool"

definition BLOCK_SECTOR_SIZE :: nat where "BLOCK_SECTOR_SIZE = 512"

fun block_type_name :: "block_type \<Rightarrow> string" where
  "block_type_name BLOCK_KERNEL = ''kernel''"
| "block_type_name BLOCK_FILESYS = ''filesys''"
| "block_type_name BLOCK_SCRATCH = ''scratch''"
| "block_type_name BLOCK_SWAP = ''swap''"
| "block_type_name BLOCK_RAW = ''raw''"
| "block_type_name BLOCK_FOREIGN = ''foreign''"

definition role_ok :: "block_type \<Rightarrow> bool" where
  "role_ok r \<longleftrightarrow> r \<noteq> BLOCK_RAW \<and> r \<noteq> BLOCK_FOREIGN"

definition block_get_role :: "block_type \<Rightarrow> devs \<Rightarrow> nat option" where
  "block_get_role role s = do { kassert (role_ok role); Some (block_by_role s role) }"

definition block_set_role :: "block_type \<Rightarrow> nat \<Rightarrow> devs \<Rightarrow> devs option" where
  "block_set_role role b s =
     do { kassert (role_ok role); Some (s\<lparr>block_by_role := (block_by_role s)(role := b)\<rparr>) }"

definition block_first :: "devs \<Rightarrow> nat" where
  "block_first s = (case all_blocks s of [] \<Rightarrow> 0 | b # _ \<Rightarrow> b)"

definition block_next :: "nat \<Rightarrow> devs \<Rightarrow> nat" where
  "block_next b s = (case dropWhile (\<lambda>x. x \<noteq> b) (all_blocks s) of _ # c # _ \<Rightarrow> c | _ \<Rightarrow> 0)"

fun name_loop :: "string \<Rightarrow> devs \<Rightarrow> nat list \<Rightarrow> nat" where
  "name_loop name s [] = 0"
| "name_loop name s (b # bs) =
     (if map_option bname (blocks s b) = Some name then b else name_loop name s bs)"

definition block_get_by_name :: "string \<Rightarrow> devs \<Rightarrow> nat" where
  "block_get_by_name name s = name_loop name s (all_blocks s)"

definition check_sector :: "block \<Rightarrow> u32 \<Rightarrow> unit option" where
  "check_sector blk sector = kassert (sector < bsize blk)"

definition set_block :: "nat \<Rightarrow> (block \<Rightarrow> block) \<Rightarrow> devs \<Rightarrow> devs" where
  "set_block b f s = s\<lparr>blocks := (blocks s)(b := map_option f (blocks s b))\<rparr>"

text \<open>The calls through \<open>ops\<close>; \<open>partition_read\<close> and \<open>partition_write\<close> are the case \<open>Partition\<close>.\<close>

partial_function (option) block_read :: "nat \<Rightarrow> u32 \<Rightarrow> devs \<Rightarrow> (u8 list \<times> devs) option" where
  "block_read b sector s =
     (case blocks s b of
        None \<Rightarrow> None
      | Some blk \<Rightarrow> do {
          check_sector blk sector;
          (buffer, s1) \<leftarrow> (case ops blk of
             Drive d \<Rightarrow> Some (d sector, s)
           | Partition p start \<Rightarrow> block_read p (start + sector) s);
          Some (buffer, set_block b (\<lambda>blk. blk\<lparr>read_cnt := read_cnt blk + 1\<rparr>) s1)
        })"

partial_function (option) block_write :: "nat \<Rightarrow> u32 \<Rightarrow> u8 list \<Rightarrow> devs \<Rightarrow> devs option" where
  "block_write b sector buffer s =
     (case blocks s b of
        None \<Rightarrow> None
      | Some blk \<Rightarrow> do {
          check_sector blk sector;
          kassert (btype blk \<noteq> BLOCK_FOREIGN);
          s1 \<leftarrow> (case ops blk of
             Drive d \<Rightarrow> Some (set_block b (\<lambda>blk. blk\<lparr>ops := Drive (d(sector := buffer))\<rparr>) s)
           | Partition p start \<Rightarrow> block_write p (start + sector) buffer s);
          Some (set_block b (\<lambda>blk. blk\<lparr>write_cnt := write_cnt blk + 1\<rparr>) s1)
        })"

definition block_size :: "nat \<Rightarrow> devs \<Rightarrow> u32 option" where
  "block_size b s = map_option bsize (blocks s b)"

definition block_name :: "nat \<Rightarrow> devs \<Rightarrow> string option" where
  "block_name b s = map_option bname (blocks s b)"

definition alloc_ok :: "devs \<Rightarrow> bool \<times> devs" where
  "alloc_ok s = (mem_ok s (allocs s), s\<lparr>allocs := allocs s + 1\<rparr>)"


section \<open>The code: partitions\<close>











section \<open>The contract of a device\<close>

text \<open>What a client of a block device relies on; \<open>get\<close> is the content of each sector.\<close>

locale sector_store =
  fixes ok :: "'s \<Rightarrow> bool"
    and nsec :: "'s \<Rightarrow> nat"
    and get :: "'s \<Rightarrow> u32 \<Rightarrow> u8 list"
    and rd :: "u32 \<Rightarrow> 's \<Rightarrow> (u8 list \<times> 's) option"
    and wr :: "u32 \<Rightarrow> u8 list \<Rightarrow> 's \<Rightarrow> 's option"
  assumes get_len: "ok s \<Longrightarrow> unat x < nsec s \<Longrightarrow> length (get s x) = 512"
    and rd_ok: "ok s \<Longrightarrow> unat x < nsec s \<Longrightarrow>
      \<exists>s'. rd x s = Some (get s x, s') \<and> ok s' \<and> nsec s' = nsec s \<and> get s' = get s"
    and wr_ok: "ok s \<Longrightarrow> unat x < nsec s \<Longrightarrow> length buf = 512 \<Longrightarrow>
      \<exists>s'. wr x buf s = Some s' \<and> ok s' \<and> nsec s' = nsec s \<and> get s' = (get s)(x := buf)"
    and rd_out: "ok s \<Longrightarrow> nsec s \<le> unat x \<Longrightarrow> rd x s = None"
    and wr_out: "ok s \<Longrightarrow> nsec s \<le> unat x \<Longrightarrow> wr x buf s = None"
begin

lemma wr_rd:
  assumes "ok s" "unat x < nsec s" "length buf = 512" "wr x buf s = Some s1"
  shows "\<exists>s2. rd x s1 = Some (buf, s2)"
    and "y \<noteq> x \<Longrightarrow> unat y < nsec s \<Longrightarrow> \<exists>s2. rd y s1 = Some (get s y, s2)"
  using wr_ok [OF assms(1-3)] rd_ok [of s1 x] rd_ok [of s1 y] assms(2,4) by auto

end

definition drive_ok :: "block \<Rightarrow> bool" where
  "drive_ok blk \<longleftrightarrow> btype blk \<noteq> BLOCK_FOREIGN \<and>
     (case ops blk of Drive d \<Rightarrow> \<forall>x. length (d x) = 512 | Partition p start \<Rightarrow> False)"

definition dev_ok :: "nat \<Rightarrow> devs \<Rightarrow> bool" where
  "dev_ok b s \<longleftrightarrow>
     (case blocks s b of
        None \<Rightarrow> False
      | Some blk \<Rightarrow> drive_ok blk \<or>
          (\<exists>p start pb. ops blk = Partition p start \<and> btype blk \<noteq> BLOCK_FOREIGN \<and> p \<noteq> b \<and>
             blocks s p = Some pb \<and> drive_ok pb \<and> unat start + unat (bsize blk) \<le> unat (bsize pb)))"

definition dev_size :: "nat \<Rightarrow> devs \<Rightarrow> nat" where
  "dev_size b s = (case blocks s b of None \<Rightarrow> 0 | Some blk \<Rightarrow> unat (bsize blk))"

definition drive_get :: "block option \<Rightarrow> u32 \<Rightarrow> u8 list" where
  "drive_get x = (case x of Some blk \<Rightarrow> (case ops blk of Drive d \<Rightarrow> d | Partition p start \<Rightarrow> (\<lambda>_. [])) | None \<Rightarrow> (\<lambda>_. []))"

definition dev_get :: "nat \<Rightarrow> devs \<Rightarrow> u32 \<Rightarrow> u8 list" where
  "dev_get b s =
     (case blocks s b of
        None \<Rightarrow> (\<lambda>_. [])
      | Some blk \<Rightarrow> (case ops blk of Drive d \<Rightarrow> d | Partition p start \<Rightarrow> (\<lambda>x. drive_get (blocks s p) (start + x))))"

lemma dev_cases:
  assumes "dev_ok b s"
  obtains (drive) blk d where "blocks s b = Some blk" "ops blk = Drive d" "btype blk \<noteq> BLOCK_FOREIGN"
      "\<And>x. length (d x) = 512"
    | (part) blk p start pb d where "blocks s b = Some blk" "ops blk = Partition p start" "btype blk \<noteq> BLOCK_FOREIGN"
      "p \<noteq> b" "blocks s p = Some pb" "ops pb = Drive d" "btype pb \<noteq> BLOCK_FOREIGN" "\<And>x. length (d x) = 512"
      "unat start + unat (bsize blk) \<le> unat (bsize pb)"
proof -
  obtain blk where b: "blocks s b = Some blk" using assms by (auto simp: dev_ok_def split: option.splits)
  show thesis
  proof (cases "ops blk")
    case (Drive d)
    then show ?thesis using drive [OF b Drive] assms b by (auto simp: dev_ok_def drive_ok_def)
  next
    case (Partition p start)
    then obtain pb where pb: "btype blk \<noteq> BLOCK_FOREIGN" "p \<noteq> b" "blocks s p = Some pb" "drive_ok pb"
      "unat start + unat (bsize blk) \<le> unat (bsize pb)"
      using assms b by (auto simp: dev_ok_def drive_ok_def)
    then obtain d where "ops pb = Drive d" by (cases "ops pb") (auto simp: drive_ok_def)
    with pb show ?thesis using part [OF b Partition pb(1,2,3), of d] by (auto simp: drive_ok_def)
  qed
qed

lemma part_sector:
  assumes "unat (start :: u32) + unat (n :: u32) \<le> unat (m :: u32)" "unat x < unat n"
  shows "unat (start + x) = unat start + unat x" "start + x < m"
proof -
  have "unat start + unat x < 4294967296" using assms unat_u32_less [of m] by linarith
  then show u: "unat (start + x) = unat start + unat x" using unat_add_lem [of start x] by simp
  show "start + x < m" unfolding word_less_nat_alt u using assms by simp
qed

lemma block_read_ok:
  assumes "dev_ok b s" "unat x < dev_size b s"
  shows "\<exists>s'. block_read b x s = Some (dev_get b s x, s') \<and> dev_ok b s' \<and> dev_size b s' = dev_size b s \<and>
    dev_get b s' = dev_get b s"
  using assms(1)
proof (cases rule: dev_cases)
  case (drive blk d)
  then show ?thesis using assms(2)
    by (subst block_read.simps)
      (auto simp: check_sector_def word_less_nat_alt dev_size_def dev_get_def dev_ok_def drive_ok_def set_block_def)
next
  case (part blk p start pb d)
  have x: "x < bsize blk" "start + x < bsize pb"
    using assms(2) part(1) part_sector(2) [OF part(9)] by (simp_all add: dev_size_def word_less_nat_alt)
  show ?thesis using part x
    by (subst block_read.simps, subst block_read.simps)
      (auto simp: check_sector_def dev_size_def dev_get_def dev_ok_def drive_ok_def set_block_def drive_get_def)
qed

lemma block_write_ok:
  assumes "dev_ok b s" "unat x < dev_size b s" "length buf = 512"
  shows "\<exists>s'. block_write b x buf s = Some s' \<and> dev_ok b s' \<and> dev_size b s' = dev_size b s \<and>
    dev_get b s' = (dev_get b s)(x := buf)"
  using assms(1)
proof (cases rule: dev_cases)
  case (drive blk d)
  then show ?thesis using assms(2,3)
    by (subst block_write.simps)
      (auto simp: check_sector_def word_less_nat_alt dev_size_def dev_get_def dev_ok_def drive_ok_def set_block_def)
next
  case (part blk p start pb d)
  have x: "x < bsize blk" "start + x < bsize pb"
    using assms(2) part(1) part_sector(2) [OF part(9)] by (simp_all add: dev_size_def word_less_nat_alt)
  show ?thesis using part x assms(3)
    by (subst block_write.simps, subst block_write.simps)
      (auto simp: check_sector_def dev_size_def dev_get_def dev_ok_def drive_ok_def set_block_def drive_get_def)
qed

interpretation dev: sector_store "dev_ok b" "dev_size b" "dev_get b" "block_read b" "block_write b" for b
proof (unfold_locales, goal_cases)
  case (1 s x)
  then show ?case
    by (cases rule: dev_cases [OF 1(1)]) (auto simp: dev_get_def drive_get_def)
next
  case (2 s x)
  then show ?case by (rule block_read_ok)
next
  case (3 s x buf)
  then show ?case by (rule block_write_ok)
next
  case (4 s x)
  then show ?case
    by (cases rule: dev_cases [OF 4(1)])
      (subst block_read.simps, simp add: check_sector_def dev_size_def word_less_nat_alt)+
next
  case (5 s x buf)
  then show ?case
    by (cases rule: dev_cases [OF 5(1)])
      (subst block_write.simps, simp add: check_sector_def dev_size_def word_less_nat_alt)+
qed

section \<open>Scanning for partitions\<close>

text \<open>A device but for its counter of reads.\<close>

definition shape :: "block option \<Rightarrow> block option" where
  "shape x = map_option (\<lambda>blk. blk\<lparr>read_cnt := 0\<rparr>) x"


lemma shape_None: "shape x = None \<longleftrightarrow> x = None"
  by (simp add: shape_def)

lemma shape_count [simp]:
  "shape (blocks (set_block b (\<lambda>blk. blk\<lparr>read_cnt := read_cnt blk + 1\<rparr>) s) c) = shape (blocks s c)"
  by (cases "blocks s c"; cases "c = b") (auto simp: set_block_def shape_def)

lemma set_block_list [simp]: "all_blocks (set_block b f s) = all_blocks s" "mem_ok (set_block b f s) = mem_ok s"
  by (simp_all add: set_block_def)


text \<open>What a scan of \<open>b\<close> keeps: what is there stays, and what is added lies within \<open>b\<close>.\<close>

definition devs_ok :: "devs \<Rightarrow> bool" where
  "devs_ok s \<longleftrightarrow> (\<forall>c. shape (blocks s c) \<noteq> None \<longrightarrow> c \<le> length (all_blocks s))"







lemma alloc_ok_blocks [simp]: "blocks (snd (alloc_ok s)) = blocks s"
  by (simp add: alloc_ok_def)



















lemma dev_allocs [simp]:
  "dev_ok b (s\<lparr>allocs := a\<rparr>) = dev_ok b s" "dev_get b (s\<lparr>allocs := a\<rparr>) = dev_get b s"
  "dev_size b (s\<lparr>allocs := a\<rparr>) = dev_size b s"
  by (auto simp: dev_ok_def dev_get_def dev_size_def fun_eq_iff split: option.splits driver.splits)




section \<open>Properties\<close>

text \<open>
  C22. Block devices. On a device in order (a drive, or a partition within a drive), a sector
  that has been written is read back, every other sector keeps its content, an access past the
  end panics, and what is written to a partition stays within it: no sector of the underlying
  device outside the partition changes.
\<close>

theorem block_device_contract:
  assumes "dev_ok b s" "unat x < dev_size b s" "length buf = 512"
  shows "\<exists>s1. block_write b x buf s = Some s1 \<and> (\<exists>s2. block_read b x s1 = Some (buf, s2)) \<and>
    (\<forall>y. y \<noteq> x \<and> unat y < dev_size b s \<longrightarrow> (\<exists>s2 s3. block_read b y s1 = Some (dev_get b s y, s2) \<and>
       block_read b y s = Some (dev_get b s y, s3))) \<and>
    (\<forall>y. dev_size b s \<le> unat y \<longrightarrow> block_read b y s = None \<and> block_write b y buf s = None) \<and>
    (\<forall>p start y. map_option ops (blocks s b) = Some (Partition p start) \<and>
       (unat y < unat start \<or> unat start + dev_size b s \<le> unat y) \<longrightarrow>
       drive_get (blocks s1 p) y = drive_get (blocks s p) y)"
proof -
  obtain s1 where s1: "block_write b x buf s = Some s1" using dev.wr_ok [OF assms] by blast
  have "drive_get (blocks s1 p) y = drive_get (blocks s p) y"
    if o: "map_option ops (blocks s b) = Some (Partition p start)"
      and y: "unat y < unat start \<or> unat start + dev_size b s \<le> unat y" for p start y
    using assms(1)
  proof (cases rule: dev_cases)
    case (drive blk d)
    then show ?thesis using o by simp
  next
    case (part blk q st pb d)
    then have q: "q = p" "st = start" using o by simp_all
    have u: "unat (start + x) = unat start + unat x" "start + x < bsize pb"
      using part_sector [OF part(9), of x] assms(2) part(1) q by (simp_all add: dev_size_def)
    then have "y \<noteq> start + x" using y assms(2) by auto
    moreover have "x < bsize blk" using assms(2) part(1) by (simp add: dev_size_def word_less_nat_alt)
    then have "drive_get (blocks s1 p) = d(start + x := buf)"
      using s1 part u(2) q
      by (subst (asm) block_write.simps, subst (asm) block_write.simps)
        (auto simp: check_sector_def set_block_def drive_get_def)
    ultimately show ?thesis using part q by (simp add: drive_get_def)
  qed
  then show ?thesis
    using s1 dev.wr_rd [OF assms s1] dev.rd_out [OF assms(1)] dev.wr_out [OF assms(1)] dev.rd_ok [OF assms(1)]
    by (intro exI [of _ s1]) blast
qed

definition mbr :: "u8 list" where
  "mbr = replicate 446 0 @ ([0, 0, 0, 0, 5, 0, 0, 0] @ bytes32 10 @ bytes32 5) @ replicate 48 0 @ [0x55, 0xaa]"

definition demo_devs :: devs where
  "demo_devs = \<lparr>blocks = [1 \<mapsto> \<lparr>bname = ''hda'', btype = BLOCK_RAW, bsize = 100,
       ops = Drive (\<lambda>x. if x = 0 then mbr else replicate 512 0), read_cnt = 0, write_cnt = 0\<rparr>,
     2 \<mapsto> \<lparr>bname = ''hda1'', btype = BLOCK_FILESYS, bsize = 50, ops = Partition 1 20, read_cnt = 0, write_cnt = 0\<rparr>],
     all_blocks = [1, 2], block_by_role = (\<lambda>_. 0), allocs = 2, mem_ok = (\<lambda>_. True)\<rparr>"

lemma length_mbr: "length mbr = 512"
  by (simp add: mbr_def)

lemma demo_devs_ok: "dev_ok 1 demo_devs" "dev_ok 2 demo_devs" "devs_ok demo_devs"
  by (auto simp: demo_devs_def dev_ok_def drive_ok_def devs_ok_def shape_def length_mbr)

theorem block_device_contract_witness:
  "\<exists>s1 s2. block_write 2 7 (replicate 512 9) demo_devs = Some s1 \<and> block_read 2 7 s1 = Some (replicate 512 9, s2)"
proof -
  have "unat (7 :: u32) < dev_size 2 demo_devs" "length (replicate 512 (9 :: u8)) = 512"
    by (simp_all add: demo_devs_def dev_size_def)
  from block_device_contract [OF demo_devs_ok(2) this] show ?thesis by blast
qed






end
