(* ===== verification/Inode.thy ===== *)
theory Inode
  imports Block Bitmap "HOL-Library.Signed_Division"
begin

text \<open>
  The state of the file system and its inodes: \<open>filesys/inode.c\<close>. In-memory inodes, open files and
  open directories are addresses of records; \<open>fmem_ok n\<close> is the answer of the n-th call of
  \<open>malloc\<close> or \<open>calloc\<close>, which returns the address \<open>n + 1\<close>. \<open>off_t\<close> values are \<open>int\<close>. A read or a
  write outside a buffer is undefined and \<open>None\<close>, as a panic is.
\<close>

section \<open>The code: data\<close>

record inode_disk =
  start :: u32
  dlength :: int
  dmagic :: u32

record inode =
  sector :: u32
  open_cnt :: int
  removed :: bool
  deny_write_cnt :: int
  data :: inode_disk

record open_file =
  finode :: nat
  pos :: int
  deny_write :: bool

record open_dir =
  dinode :: nat
  dpos :: int

record fsys =
  devs :: devs
  fs_device :: nat
  inodes :: "nat \<Rightarrow> inode option"
  open_inodes :: "nat list"
  files :: "nat \<Rightarrow> open_file option"
  dirs :: "nat \<Rightarrow> open_dir option"
  free_map :: bitmap
  free_map_file :: nat
  fallocs :: nat
  fmem_ok :: "nat \<Rightarrow> bool"

definition INODE_MAGIC :: u32 where "INODE_MAGIC = 0x494e4f44"

definition disk_bytes :: "inode_disk \<Rightarrow> u8 list" where
  "disk_bytes di = bytes32 (start di) @ bytes32 (word_of_int (dlength di)) @ bytes32 (dmagic di) @ replicate 500 0"

definition disk_inode :: "u8 list \<Rightarrow> inode_disk" where
  "disk_inode bs = \<lparr>start = word32 bs, dlength = sint (word32 (drop 4 bs)), dmagic = word32 (drop 8 bs)\<rparr>"

definition bytes_to_sectors :: "int \<Rightarrow> nat" where
  "bytes_to_sectors sz = unat (word_of_int (to_s32 (sz + 511) sdiv 512) :: u32)"

definition fs_alloc :: "fsys \<Rightarrow> nat \<times> fsys" where
  "fs_alloc s = (if fmem_ok s (fallocs s) then fallocs s + 1 else 0, s\<lparr>fallocs := fallocs s + 1\<rparr>)"

definition set_inode :: "nat \<Rightarrow> (inode \<Rightarrow> inode) \<Rightarrow> fsys \<Rightarrow> fsys" where
  "set_inode ino f s = s\<lparr>inodes := (inodes s)(ino := map_option f (inodes s ino))\<rparr>"

section \<open>The code: reading and writing\<close>

definition byte_to_sector :: "inode_disk \<Rightarrow> int \<Rightarrow> u32" where
  "byte_to_sector di p = (if p < dlength di then start di + word_of_int (p sdiv 512) else - 1)"

definition sector_ofs :: "int \<Rightarrow> int" where
  "sector_ofs offset = offset smod 512"

definition chunk_size :: "inode_disk \<Rightarrow> int \<Rightarrow> int \<Rightarrow> int" where
  "chunk_size di sz offset =
     (let inode_left = dlength di - offset;
          sector_left = 512 - sector_ofs offset;
          min_left = (if inode_left < sector_left then inode_left else sector_left)
      in if sz < min_left then sz else min_left)"

text \<open>
  The loop of \<open>inode_read_at\<close>: \<open>n\<close> is \<open>bytes_read\<close>, \<open>mem\<close> what \<open>malloc\<close> answers when the bounce
  buffer is needed.
\<close>

function read_loop ::
  "nat \<Rightarrow> inode_disk \<Rightarrow> bool \<Rightarrow> int \<Rightarrow> int \<Rightarrow> u8 list \<Rightarrow> nat \<Rightarrow> devs \<Rightarrow> (u8 list \<times> nat \<times> devs) option" where
  "read_loop b di mem sz offset buf n d =
     (if sz \<le> 0 then Some (buf, n, d)
      else if chunk_size di sz offset \<le> 0 then Some (buf, n, d)
      else if sector_ofs offset = 0 \<and> chunk_size di sz offset = 512 then
        (if n + 512 \<le> length buf then
           (case block_read b (byte_to_sector di offset) d of
              None \<Rightarrow> None
            | Some (bytes, d1) \<Rightarrow>
                read_loop b di mem (sz - chunk_size di sz offset) (offset + chunk_size di sz offset)
                  (put_at buf n bytes) (n + nat (chunk_size di sz offset)) d1)
         else None)
      else if \<not> mem then Some (buf, n, d)
      else if 0 \<le> sector_ofs offset \<and> n + nat (chunk_size di sz offset) \<le> length buf then
        (case block_read b (byte_to_sector di offset) d of
           None \<Rightarrow> None
         | Some (bounce, d1) \<Rightarrow>
             read_loop b di mem (sz - chunk_size di sz offset) (offset + chunk_size di sz offset)
               (put_at buf n (slice bounce (nat (sector_ofs offset)) (nat (chunk_size di sz offset))))
               (n + nat (chunk_size di sz offset)) d1)
      else None)"
  by pat_completeness auto
termination
  by (relation "measure (\<lambda>(b, di, mem, sz, offset, buf, n, d). nat sz)") auto

function write_loop ::
  "nat \<Rightarrow> inode_disk \<Rightarrow> bool \<Rightarrow> int \<Rightarrow> int \<Rightarrow> u8 list \<Rightarrow> nat \<Rightarrow> devs \<Rightarrow> (nat \<times> devs) option" where
  "write_loop b di mem sz offset buf n d =
     (if sz \<le> 0 then Some (n, d)
      else if chunk_size di sz offset \<le> 0 then Some (n, d)
      else if sector_ofs offset = 0 \<and> chunk_size di sz offset = 512 then
        (if n + 512 \<le> length buf then
           (case block_write b (byte_to_sector di offset) (slice buf n 512) d of
              None \<Rightarrow> None
            | Some d1 \<Rightarrow>
                write_loop b di mem (sz - chunk_size di sz offset) (offset + chunk_size di sz offset)
                  buf (n + nat (chunk_size di sz offset)) d1)
         else None)
      else if \<not> mem then Some (n, d)
      else if 0 \<le> sector_ofs offset \<and> n + nat (chunk_size di sz offset) \<le> length buf then
        (case (if sector_ofs offset > 0 \<or> chunk_size di sz offset < 512 - sector_ofs offset
               then block_read b (byte_to_sector di offset) d else Some (replicate 512 0, d)) of
           None \<Rightarrow> None
         | Some (bounce, d1) \<Rightarrow>
             (case block_write b (byte_to_sector di offset)
                (put_at bounce (nat (sector_ofs offset)) (slice buf n (nat (chunk_size di sz offset)))) d1 of
                None \<Rightarrow> None
              | Some d2 \<Rightarrow>
                  write_loop b di mem (sz - chunk_size di sz offset) (offset + chunk_size di sz offset)
                    buf (n + nat (chunk_size di sz offset)) d2))
      else None)"
  by pat_completeness auto
termination
  by (relation "measure (\<lambda>(b, di, mem, sz, offset, buf, n, d). nat sz)") auto

declare read_loop.simps [simp del] write_loop.simps [simp del]

definition inode_read_at :: "nat \<Rightarrow> u8 list \<Rightarrow> int \<Rightarrow> int \<Rightarrow> fsys \<Rightarrow> (int \<times> u8 list \<times> fsys) option" where
  "inode_read_at ino buf sz offset s =
     (case inodes s ino of
        None \<Rightarrow> None
      | Some i \<Rightarrow>
          let (bounce, s1) = fs_alloc s
          in map_option (\<lambda>(buf', n, d). (int n, buf', s1\<lparr>devs := d\<rparr>))
               (read_loop (fs_device s) (data i) (bounce \<noteq> 0) sz offset buf 0 (devs s)))"

definition inode_write_at :: "nat \<Rightarrow> u8 list \<Rightarrow> int \<Rightarrow> int \<Rightarrow> fsys \<Rightarrow> (int \<times> fsys) option" where
  "inode_write_at ino buf sz offset s =
     (case inodes s ino of
        None \<Rightarrow> None
      | Some i \<Rightarrow>
          if deny_write_cnt i \<noteq> 0 then Some (0, s)
          else let (bounce, s1) = fs_alloc s
            in map_option (\<lambda>(n, d). (int n, s1\<lparr>devs := d\<rparr>))
                 (write_loop (fs_device s) (data i) (bounce \<noteq> 0) sz offset buf 0 (devs s)))"

section \<open>The code: the table of open inodes\<close>

definition inode_init :: "fsys \<Rightarrow> fsys" where
  "inode_init s = s\<lparr>open_inodes := []\<rparr>"

definition inode_reopen :: "nat \<Rightarrow> fsys \<Rightarrow> nat \<times> fsys" where
  "inode_reopen ino s =
     (if ino \<noteq> 0 then (ino, set_inode ino (\<lambda>i. i\<lparr>open_cnt := open_cnt i + 1\<rparr>) s) else (ino, s))"

fun find_open :: "u32 \<Rightarrow> fsys \<Rightarrow> nat list \<Rightarrow> nat option" where
  "find_open sec s [] = None"
| "find_open sec s (ino # inos) =
     (if map_option sector (inodes s ino) = Some sec then Some ino else find_open sec s inos)"

definition inode_open :: "u32 \<Rightarrow> fsys \<Rightarrow> (nat \<times> fsys) option" where
  "inode_open sec s =
     (case find_open sec s (open_inodes s) of
        Some ino \<Rightarrow> Some (inode_reopen ino s)
      | None \<Rightarrow>
          let (ino, s1) = fs_alloc s
          in if ino = 0 then Some (0, s1)
             else map_option (\<lambda>(bytes, d).
                 (ino, s1\<lparr>open_inodes := ino # open_inodes s1,
                   inodes := (inodes s1)(ino \<mapsto> \<lparr>sector = sec, open_cnt = 1, removed = False,
                     deny_write_cnt = 0, data = disk_inode bytes\<rparr>), devs := d\<rparr>))
               (block_read (fs_device s1) sec (devs s1)))"

definition inode_get_inumber :: "nat \<Rightarrow> fsys \<Rightarrow> u32 option" where
  "inode_get_inumber ino s = map_option sector (inodes s ino)"

definition inode_remove :: "nat \<Rightarrow> fsys \<Rightarrow> fsys option" where
  "inode_remove ino s = do { kassert (inodes s ino \<noteq> None); Some (set_inode ino (\<lambda>i. i\<lparr>removed := True\<rparr>) s) }"

definition inode_deny_write :: "nat \<Rightarrow> fsys \<Rightarrow> fsys option" where
  "inode_deny_write ino s =
     (case inodes s ino of
        None \<Rightarrow> None
      | Some i \<Rightarrow> do {
          kassert (deny_write_cnt i + 1 \<le> open_cnt i);
          Some (set_inode ino (\<lambda>i. i\<lparr>deny_write_cnt := deny_write_cnt i + 1\<rparr>) s)
        })"

definition inode_allow_write :: "nat \<Rightarrow> fsys \<Rightarrow> fsys option" where
  "inode_allow_write ino s =
     (case inodes s ino of
        None \<Rightarrow> None
      | Some i \<Rightarrow> do {
          kassert (deny_write_cnt i > 0);
          kassert (deny_write_cnt i \<le> open_cnt i);
          Some (set_inode ino (\<lambda>i. i\<lparr>deny_write_cnt := deny_write_cnt i - 1\<rparr>) s)
        })"

definition inode_length :: "nat \<Rightarrow> fsys \<Rightarrow> int option" where
  "inode_length ino s = map_option (\<lambda>i. dlength (data i)) (inodes s ino)"

section \<open>The contents of an inode\<close>

definition content :: "(u32 \<Rightarrow> u8 list) \<Rightarrow> inode_disk \<Rightarrow> u8 list" where
  "content g di = map (\<lambda>i. g (start di + word_of_nat (i div 512)) ! (i mod 512)) [0..<nat (dlength di)]"

definition ext_ok :: "nat \<Rightarrow> inode_disk \<Rightarrow> bool" where
  "ext_ok nsec di \<longleftrightarrow> 0 \<le> dlength di \<and> dlength di + 511 < 2147483648 \<and> nsec < 4294967296 \<and>
     unat (start di) + (nat (dlength di) + 511) div 512 \<le> nsec"

lemma length_content [simp]: "length (content g di) = nat (dlength di)"
  by (simp add: content_def)

lemma nth_content: "i < nat (dlength di) \<Longrightarrow> content g di ! i = g (start di + word_of_nat (i div 512)) ! (i mod 512)"
  by (simp add: content_def)

lemma ext_sector:
  assumes "ext_ok nsec di" "i < nat (dlength di)"
  shows "unat (start di + word_of_nat (i div 512)) = unat (start di) + i div 512"
    "unat (start di) + i div 512 < nsec"
proof -
  have "i div 512 < (nat (dlength di) + 511) div 512" using assms(2) by (simp add: less_eq_div_iff_mult_less_eq Suc_le_eq)
  then show u: "unat (start di) + i div 512 < nsec" using assms(1) by (simp add: ext_ok_def)
  then have "unat (start di) + i div 512 < 4294967296" using assms(1) by (simp add: ext_ok_def)
  then show "unat (start di + word_of_nat (i div 512)) = unat (start di) + i div 512"
    using unat_add_lem [of "start di" "word_of_nat (i div 512)"] by (simp add: unat_word_of_nat_32)
qed

lemma same_sector:
  assumes "(k :: nat) mod 512 + c \<le> 512" "i < c"
  shows "(k + i) div 512 = k div 512" "(k + i) mod 512 = k mod 512 + i"
proof -
  define q r where "q = k div 512" and "r = k mod 512"
  have k: "k = 512 * q + r" "r + i < 512" using assms by (simp_all add: q_def r_def)
  show "(k + i) div 512 = k div 512" "(k + i) mod 512 = k mod 512 + i"
    unfolding k(1) using k(2) by (simp_all add: add.assoc)
qed

lemma content_slice:
  assumes "k + c \<le> nat (dlength di)" "k mod 512 + c \<le> 512" "length (g (start di + word_of_nat (k div 512))) = 512"
  shows "slice (content g di) k c = slice (g (start di + word_of_nat (k div 512))) (k mod 512) c"
proof (rule nth_equalityI)
  fix i assume "i < length (slice (content g di) k c)"
  then have i: "i < c" using assms(1) by simp
  then show "slice (content g di) k c ! i = slice (g (start di + word_of_nat (k div 512))) (k mod 512) c ! i"
    using assms same_sector [OF assms(2) i] by (simp add: nth_slice nth_content)
qed (use assms in simp)

text \<open>The arithmetic of one round of the loops.\<close>

lemma round_facts:
  assumes "0 \<le> offset" "0 < sz" "0 < chunk_size di sz offset"
  shows "sector_ofs offset = int (nat offset mod 512)"
    "byte_to_sector di offset = start di + word_of_nat (nat offset div 512)"
    "nat offset + nat (chunk_size di sz offset) \<le> nat (dlength di)"
    "nat offset mod 512 + nat (chunk_size di sz offset) \<le> 512"
    "chunk_size di sz offset \<le> sz" "nat offset < nat (dlength di)"
    "chunk_size di sz offset \<le> dlength di - offset"
proof -
  have m: "offset smod 512 = offset mod 512" using assms(1) by (simp add: signed_modulo_int_def signed_divide_int_def sgn_if minus_mult_div_eq_mod)
  show so: "sector_ofs offset = int (nat offset mod 512)" using assms(1) by (simp add: sector_ofs_def m zmod_int)
  have c: "chunk_size di sz offset \<le> dlength di - offset" "chunk_size di sz offset \<le> 512 - sector_ofs offset"
    "chunk_size di sz offset \<le> sz"
    by (auto simp: chunk_size_def Let_def)
  then show "chunk_size di sz offset \<le> sz" "chunk_size di sz offset \<le> dlength di - offset" by blast+
  show "nat offset + nat (chunk_size di sz offset) \<le> nat (dlength di)" "nat offset < nat (dlength di)"
    using c(1) assms by linarith+
  show "nat offset mod 512 + nat (chunk_size di sz offset) \<le> 512"
    using c(2) assms(3) unfolding so by linarith
  have "offset < dlength di" using c(1) assms(3) by linarith
  moreover have "offset sdiv 512 = int (nat offset div 512)" using assms(1) by (simp add: sdiv_nonneg zdiv_int)
  ultimately show "byte_to_sector di offset = start di + word_of_nat (nat offset div 512)"
    by (simp add: byte_to_sector_def)
qed

lemma chunk_stop: "chunk_size di sz offset \<le> 0 \<Longrightarrow> 0 < sz \<Longrightarrow> 0 \<le> offset \<Longrightarrow> dlength di - offset \<le> 0"
proof -
  assume a: "chunk_size di sz offset \<le> 0" "0 < sz" "0 \<le> offset"
  have "sector_ofs offset < 512"
    using a(3) by (simp add: sector_ofs_def signed_modulo_int_def signed_divide_int_def sgn_if minus_mult_div_eq_mod)
  then show ?thesis using a by (auto simp: chunk_size_def Let_def split: if_splits)
qed

definition same_dev :: "nat \<Rightarrow> devs \<Rightarrow> devs \<Rightarrow> bool" where
  "same_dev b d d' \<longleftrightarrow> dev_ok b d' \<and> dev_size b d' = dev_size b d \<and> dev_get b d' = dev_get b d"

text \<open>How many bytes a transfer can move.\<close>

definition room :: "inode_disk \<Rightarrow> int \<Rightarrow> int \<Rightarrow> nat" where
  "room di sz offset = nat (min sz (dlength di - offset))"

lemma room_round:
  assumes "0 < c" "c \<le> sz" "c \<le> dlength di - offset"
  shows "room di sz offset = nat c + room di (sz - c) (offset + c)"
  using assms by (simp add: room_def)

lemma read_loop_ok:
  assumes "dev_ok b d" "ext_ok (dev_size b d) di" "0 \<le> offset" "n + nat sz \<le> length buf"
  shows "\<exists>k d'. read_loop b di mem sz offset buf n d =
      Some (put_at buf n (slice (content (dev_get b d) di) (nat offset) k), n + k, d') \<and>
    same_dev b d d' \<and> k \<le> room di sz offset \<and> (mem \<longrightarrow> k = room di sz offset)"
  using assms
proof (induction "nat sz" arbitrary: sz offset buf n d rule: less_induct)
  case less
  let ?c = "chunk_size di sz offset" and ?g = "dev_get b d"
  have stop: "\<exists>k d'. Some (buf, n, d) = Some (put_at buf n (slice (content ?g di) (nat offset) k), n + k, d') \<and>
      same_dev b d d' \<and> k \<le> room di sz offset \<and> (mem \<longrightarrow> k = room di sz offset)"
    if "mem \<longrightarrow> room di sz offset = 0"
    using that less.prems(1) by (intro exI [of _ 0] exI [of _ d]) (simp add: slice_def same_dev_def)
  show ?case
  proof (cases "sz \<le> 0 \<or> ?c \<le> 0")
    case True
    then have "sz \<le> 0 \<or> dlength di - offset \<le> 0" using chunk_stop [of di sz offset] less.prems(3) by linarith
    then have "room di sz offset = 0" by (auto simp: room_def)
    then show ?thesis using True stop by (subst read_loop.simps) auto
  next
    case False
    then have pos: "0 < sz" "0 < ?c" by simp_all
    note f = round_facts [OF less.prems(3) pos]
    let ?sec = "start di + word_of_nat (nat offset div 512)"
    have sec: "unat ?sec < dev_size b d" using ext_sector [OF less.prems(2) f(6)] by simp
    have len: "length (?g ?sec) = 512" by (rule dev.get_len [OF less.prems(1) sec])
    obtain d1 where rd: "block_read b ?sec d = Some (?g ?sec, d1)" "dev_ok b d1" "dev_size b d1 = dev_size b d"
      "dev_get b d1 = ?g" using dev.rd_ok [OF less.prems(1) sec] by blast
    have fit: "n + nat ?c \<le> length buf" using less.prems(4) f(5) by linarith
    define bs where "bs = slice (content ?g di) (nat offset) (nat ?c)"
    have bs: "bs = slice (?g ?sec) (nat offset mod 512) (nat ?c)" "length bs = nat ?c"
      unfolding bs_def by (rule content_slice [where g = ?g, OF f(3,4) len]) (use f(3) in simp)
    have go: "\<exists>k d'. read_loop b di mem (sz - ?c) (offset + ?c) (put_at buf n bs) (n + nat ?c) d1 =
        Some (put_at (put_at buf n bs) (n + nat ?c) (slice (content ?g di) (nat (offset + ?c)) k), n + nat ?c + k, d') \<and>
      same_dev b d1 d' \<and> k \<le> room di (sz - ?c) (offset + ?c) \<and> (mem \<longrightarrow> k = room di (sz - ?c) (offset + ?c))"
      using less.hyps [of "sz - ?c" d1 "offset + ?c" "n + nat ?c" "put_at buf n bs"]
        less.prems(2,3,4) pos rd f(5) fit bs(2) by simp
    have step: "\<exists>k d'. read_loop b di mem (sz - ?c) (offset + ?c) (put_at buf n bs) (n + nat ?c) d1 =
        Some (put_at buf n (slice (content ?g di) (nat offset) k), n + k, d') \<and>
      same_dev b d d' \<and> k \<le> room di sz offset \<and> (mem \<longrightarrow> k = room di sz offset)"
    proof -
      obtain k d' where k: "read_loop b di mem (sz - ?c) (offset + ?c) (put_at buf n bs) (n + nat ?c) d1 =
          Some (put_at (put_at buf n bs) (n + nat ?c) (slice (content ?g di) (nat (offset + ?c)) k), n + nat ?c + k, d')"
        "same_dev b d1 d'" "k \<le> room di (sz - ?c) (offset + ?c)" "mem \<longrightarrow> k = room di (sz - ?c) (offset + ?c)"
        using go by blast
      have rr: "room di sz offset = nat ?c + room di (sz - ?c) (offset + ?c)"
        by (rule room_round [OF pos(2) f(5,7)])
      have no: "nat (offset + ?c) = nat offset + nat ?c" using less.prems(3) pos by simp
      have kl: "nat offset + nat ?c + k \<le> nat (dlength di)" "nat ?c + k \<le> nat sz"
        using k(3) f(7) pos less.prems(3) f(5) by (auto simp: room_def)
      have "put_at (put_at buf n bs) (n + nat ?c) (slice (content ?g di) (nat (offset + ?c)) k) =
          put_at buf n (slice (content ?g di) (nat offset) (nat ?c + k))"
        using put_at_append [of n bs "slice (content ?g di) (nat offset + nat ?c) k" buf] kl less.prems(4) bs(2)
          slice_append [of "nat offset" "nat ?c" k "content ?g di"]
        by (simp add: no bs_def)
      then show ?thesis using k rr rd by (intro exI [of _ "nat ?c + k"] exI [of _ d']) (simp add: same_dev_def)
    qed
    show ?thesis
    proof (cases "sector_ofs offset = 0 \<and> ?c = 512")
      case True
      then have "bs = ?g ?sec" using f(1) len by (simp add: bs(1) slice_def)
      moreover have "n + 512 \<le> length buf" using fit True by simp
      ultimately show ?thesis using step pos True rd(1) f(2) by (subst read_loop.simps) simp
    next
      case part: False
      show ?thesis
      proof (cases mem)
        case False
        then show ?thesis using stop pos part by (subst read_loop.simps) auto
      next
        case True
        then show ?thesis using step pos part rd(1) f(1,2) fit bs(1) by (subst read_loop.simps) auto
      qed
    qed
  qed
qed

definition secs :: "inode_disk \<Rightarrow> u32 set" where
  "secs di = (\<lambda>j. start di + word_of_nat j) ` {..<(nat (dlength di) + 511) div 512}"

lemma sector_in_secs: "i < nat (dlength di) \<Longrightarrow> start di + word_of_nat (i div 512) \<in> secs di"
  unfolding secs_def by (rule imageI) (simp add: less_eq_div_iff_mult_less_eq Suc_le_eq)

lemma content_cong: "(\<And>x. x \<in> secs di \<Longrightarrow> g x = g' x) \<Longrightarrow> content g di = content g' di"
  by (rule nth_equalityI) (simp_all add: nth_content sector_in_secs)

lemma content_write:
  assumes e: "ext_ok nsec di" and k: "k + length bs \<le> nat (dlength di)" "k mod 512 + length bs \<le> 512" "bs \<noteq> []"
    and len: "length (g (start di + word_of_nat (k div 512))) = 512"
  shows "content (g(start di + word_of_nat (k div 512) :=
      put_at (g (start di + word_of_nat (k div 512))) (k mod 512) bs)) di = put_at (content g di) k bs"
proof (rule nth_equalityI)
  let ?sec = "start di + word_of_nat (k div 512) :: u32"
  let ?g = "g(?sec := put_at (g ?sec) (k mod 512) bs)"
  fix i assume "i < length (content ?g di)"
  then have i: "i < nat (dlength di)" by simp
  have kl: "k < nat (dlength di)" using k(1,3) by (cases bs) auto
  have inj: "start di + word_of_nat (i div 512) = ?sec \<longleftrightarrow> i div 512 = k div 512"
    using ext_sector(1) [OF e i] ext_sector(1) [OF e kl] by (metis add_left_cancel)
  show "content ?g di ! i = put_at (content g di) k bs ! i"
  proof (cases "i div 512 = k div 512")
    case False
    have "\<not> (k \<le> i \<and> i < k + length bs)"
    proof
      assume "k \<le> i \<and> i < k + length bs"
      then have "i - k < length bs" "k + (i - k) = i" by linarith+
      then show False using same_sector(1) [OF k(2), of "i - k"] False by simp
    qed
    moreover have "k \<le> i \<longrightarrow> \<not> i < k + length bs" using calculation by blast
    ultimately show ?thesis using False i k(1) inj by (auto simp: nth_content nth_put_at)
  next
    case True
    have im: "i mod 512 < 512" by simp
    have d: "i = 512 * (k div 512) + i mod 512" "k = 512 * (k div 512) + k mod 512"
      using True by (metis mult_div_mod_eq, simp)
    then have iff: "k mod 512 \<le> i mod 512 \<and> i mod 512 < k mod 512 + length bs \<longleftrightarrow> k \<le> i \<and> i < k + length bs"
      "i mod 512 - k mod 512 = i - k" by linarith+
    show ?thesis using True i k(1,2) len im
      by (simp add: nth_content nth_put_at iff)
  qed
qed (use k in simp)

lemma write_loop_ok:
  assumes "dev_ok b d" "ext_ok (dev_size b d) di" "0 \<le> offset" "n + nat sz \<le> length buf"
  shows "\<exists>k d'. write_loop b di mem sz offset buf n d = Some (n + k, d') \<and> dev_ok b d' \<and> dev_size b d' = dev_size b d \<and>
    content (dev_get b d') di = put_at (content (dev_get b d) di) (nat offset) (slice buf n k) \<and>
    (\<forall>x. x \<notin> secs di \<longrightarrow> dev_get b d' x = dev_get b d x) \<and>
    k \<le> room di sz offset \<and> (mem \<longrightarrow> k = room di sz offset)"
  using assms
proof (induction "nat sz" arbitrary: sz offset n d rule: less_induct)
  case less
  let ?c = "chunk_size di sz offset" and ?g = "dev_get b d"
  have stop: "\<exists>k d'. Some (n, d) = Some (n + k, d') \<and> dev_ok b d' \<and> dev_size b d' = dev_size b d \<and>
    content (dev_get b d') di = put_at (content (dev_get b d) di) (nat offset) (slice buf n k) \<and>
    (\<forall>x. x \<notin> secs di \<longrightarrow> dev_get b d' x = dev_get b d x) \<and> k \<le> room di sz offset \<and> (mem \<longrightarrow> k = room di sz offset)"
    if "mem \<longrightarrow> room di sz offset = 0"
    using that less.prems(1) by (intro exI [of _ 0] exI [of _ d]) (simp add: slice_def)
  show ?case
  proof (cases "sz \<le> 0 \<or> ?c \<le> 0")
    case True
    then have "sz \<le> 0 \<or> dlength di - offset \<le> 0" using chunk_stop [of di sz offset] less.prems(3) by linarith
    then have "room di sz offset = 0" by (auto simp: room_def)
    then show ?thesis using True stop by (subst write_loop.simps) auto
  next
    case False
    then have pos: "0 < sz" "0 < ?c" by simp_all
    note f = round_facts [OF less.prems(3) pos]
    let ?sec = "start di + word_of_nat (nat offset div 512)"
    have sec: "unat ?sec < dev_size b d" using ext_sector [OF less.prems(2) f(6)] by simp
    have len: "length (?g ?sec) = 512" by (rule dev.get_len [OF less.prems(1) sec])
    have fit: "n + nat ?c \<le> length buf" using less.prems(4) f(5) by linarith
    define bs where "bs = slice buf n (nat ?c)"
    have bl: "length bs = nat ?c" "bs \<noteq> []" using fit pos(2) by (auto simp: bs_def slice_def)
    define new where "new = put_at (?g ?sec) (nat offset mod 512) bs"
    have nl: "length new = 512" using len bl f(4) by (simp add: new_def)
    have fit2: "n + nat ?c + nat (sz - ?c) \<le> length buf" using less.prems(4) pos f(5) by (simp add: nat_diff_distrib)
    have next_round: "\<exists>k d'. write_loop b di mem (sz - ?c) (offset + ?c) buf (n + nat ?c) d2 = Some (n + k, d') \<and>
        dev_ok b d' \<and> dev_size b d' = dev_size b d \<and>
        content (dev_get b d') di = put_at (content ?g di) (nat offset) (slice buf n k) \<and>
        (\<forall>x. x \<notin> secs di \<longrightarrow> dev_get b d' x = ?g x) \<and> k \<le> room di sz offset \<and> (mem \<longrightarrow> k = room di sz offset)"
      if d2: "dev_ok b d2" "dev_size b d2 = dev_size b d" "dev_get b d2 = ?g(?sec := new)" for d2
    proof -
      obtain k d' where k: "write_loop b di mem (sz - ?c) (offset + ?c) buf (n + nat ?c) d2 = Some (n + nat ?c + k, d')"
        "dev_ok b d'" "dev_size b d' = dev_size b d2"
        "content (dev_get b d') di = put_at (content (dev_get b d2) di) (nat (offset + ?c)) (slice buf (n + nat ?c) k)"
        "\<forall>x. x \<notin> secs di \<longrightarrow> dev_get b d' x = dev_get b d2 x"
        "k \<le> room di (sz - ?c) (offset + ?c)" "mem \<longrightarrow> k = room di (sz - ?c) (offset + ?c)"
        using less.hyps [of "sz - ?c" d2 "offset + ?c" "n + nat ?c"] less.prems(2,3) pos d2 f(5) fit2 by auto
      have rr: "room di sz offset = nat ?c + room di (sz - ?c) (offset + ?c)"
        by (rule room_round [OF pos(2) f(5,7)])
      have no: "nat (offset + ?c) = nat offset + nat ?c" using less.prems(3) pos by simp
      have kl: "nat offset + nat ?c + k \<le> nat (dlength di)" "nat ?c + k \<le> nat sz"
        using k(6) f(7) pos less.prems(3) f(5) by (auto simp: room_def)
      have c2: "content (dev_get b d2) di = put_at (content ?g di) (nat offset) bs"
        unfolding d2(3) new_def using f(3,4) bl len by (intro content_write [OF less.prems(2)]) simp_all
      have sk: "length (slice buf (n + nat ?c) k) = k" using kl(2) less.prems(4) by (intro length_slice) linarith
      have "put_at (put_at (content ?g di) (nat offset) bs) (nat offset + nat ?c) (slice buf (n + nat ?c) k) =
          put_at (content ?g di) (nat offset) (slice buf n (nat ?c + k))"
        using put_at_append [of "nat offset" bs "slice buf (n + nat ?c) k" "content ?g di"] kl sk bl(1)
          slice_append [of n "nat ?c" k buf] less.prems(4)
        by (simp add: bs_def)
      moreover have "?sec \<in> secs di" by (rule sector_in_secs [OF f(6)])
      ultimately show ?thesis using k rr c2 no d2
        by (intro exI [of _ "nat ?c + k"] exI [of _ d']) (auto simp: add.assoc)
    qed
    show ?thesis
    proof (cases "sector_ofs offset = 0 \<and> ?c = 512")
      case True
      have n0: "nat offset mod 512 = 0" using f(1) True by simp
      then have "bs = new" using len bl True by (simp add: new_def)
      moreover have "n + 512 \<le> length buf" using fit True by simp
      moreover obtain d1 where "block_write b ?sec new d = Some d1" "dev_ok b d1" "dev_size b d1 = dev_size b d"
        "dev_get b d1 = ?g(?sec := new)" using dev.wr_ok [OF less.prems(1) sec nl] by blast
      ultimately show ?thesis using next_round [of d1] pos True f(2)
        by (subst write_loop.simps) (simp add: bs_def)
    next
      case part: False
      show ?thesis
      proof (cases mem)
        case False
        then show ?thesis using stop pos part by (subst write_loop.simps) auto
      next
        case True
        have rdneeded: "sector_ofs offset > 0 \<or> ?c < 512 - sector_ofs offset"
          using part f(1,4) by auto
        obtain d1 where rd: "block_read b ?sec d = Some (?g ?sec, d1)" "dev_ok b d1" "dev_size b d1 = dev_size b d"
          "dev_get b d1 = ?g" using dev.rd_ok [OF less.prems(1) sec] by blast
        have sec1: "unat ?sec < dev_size b d1" using sec rd(3) by simp
        obtain d2 where d2: "block_write b ?sec new d1 = Some d2" "dev_ok b d2" "dev_size b d2 = dev_size b d1"
          "dev_get b d2 = (dev_get b d1)(?sec := new)" using dev.wr_ok [OF rd(2) sec1 nl] by blast
        have "(if sector_ofs offset > 0 \<or> ?c < 512 - sector_ofs offset
            then block_read b (byte_to_sector di offset) d else Some (replicate 512 0, d)) = Some (?g ?sec, d1)"
          using rdneeded rd(1) f(2) by simp
        moreover have "block_write b (byte_to_sector di offset)
            (put_at (?g ?sec) (nat (sector_ofs offset)) (slice buf n (nat ?c))) d1 = Some d2"
          using d2(1) f(1,2) by (simp add: new_def bs_def)
        moreover have "0 \<le> sector_ofs offset" using f(1) by simp
        ultimately have "write_loop b di mem sz offset buf n d =
            write_loop b di mem (sz - ?c) (offset + ?c) buf (n + nat ?c) d2"
          using True pos part fit by (subst write_loop.simps) auto
        then show ?thesis using next_round [of d2] d2 rd by simp
      qed
    qed
  qed
qed

section \<open>Reading and writing an inode\<close>

abbreviation fs_get :: "fsys \<Rightarrow> u32 \<Rightarrow> u8 list" where
  "fs_get s \<equiv> dev_get (fs_device s) (devs s)"

abbreviation fs_size :: "fsys \<Rightarrow> nat" where
  "fs_size s \<equiv> dev_size (fs_device s) (devs s)"

abbreviation fs_dev_ok :: "fsys \<Rightarrow> bool" where
  "fs_dev_ok s \<equiv> dev_ok (fs_device s) (devs s)"

text \<open>\<open>s'\<close> differs from \<open>s\<close> in the contents of the device, in statistics and in the memory used.\<close>

definition io_only :: "fsys \<Rightarrow> fsys \<Rightarrow> bool" where
  "io_only s s' \<longleftrightarrow> (\<exists>d n. s' = s\<lparr>devs := d, fallocs := n\<rparr> \<and> fallocs s \<le> n) \<and> fs_dev_ok s' \<and> fs_size s' = fs_size s"

lemma io_onlyD:
  assumes "io_only s s'"
  shows "inodes s' = inodes s" "open_inodes s' = open_inodes s" "files s' = files s" "dirs s' = dirs s"
    "free_map s' = free_map s" "free_map_file s' = free_map_file s" "fs_device s' = fs_device s"
    "fmem_ok s' = fmem_ok s" "fs_dev_ok s'" "fs_size s' = fs_size s" "fallocs s \<le> fallocs s'"
  using assms by (auto simp: io_only_def)

lemma io_onlyI:
  "dev_ok (fs_device s) d \<Longrightarrow> dev_size (fs_device s) d = fs_size s \<Longrightarrow> fallocs s \<le> n \<Longrightarrow>
   io_only s (s\<lparr>devs := d, fallocs := n\<rparr>)"
  unfolding io_only_def by auto

lemma io_only_refl: "fs_dev_ok s \<Longrightarrow> io_only s s"
  using io_onlyI [of s "devs s" "fallocs s"] by simp

lemma io_only_trans:
  assumes "io_only s s1" "io_only s1 s2"
  shows "io_only s s2"
proof -
  obtain d1 n1 where s1: "s1 = s\<lparr>devs := d1, fallocs := n1\<rparr>" "fallocs s \<le> n1" using assms(1) by (auto simp: io_only_def)
  obtain d2 n2 where s2: "s2 = s1\<lparr>devs := d2, fallocs := n2\<rparr>" "fallocs s1 \<le> n2" using assms(2) by (auto simp: io_only_def)
  have "s2 = s\<lparr>devs := d2, fallocs := n2\<rparr>" "fallocs s \<le> n2" using s1 s2 by simp_all
  then show ?thesis using assms unfolding io_only_def by auto
qed

lemma inode_read_at_ok:
  assumes "fs_dev_ok s" "inodes s ino = Some i" "ext_ok (fs_size s) (data i)" "0 \<le> offset" "nat sz \<le> length buf"
  shows "\<exists>k s'. inode_read_at ino buf sz offset s =
      Some (int k, put_at buf 0 (slice (content (fs_get s) (data i)) (nat offset) k), s') \<and>
    io_only s s' \<and> fs_get s' = fs_get s \<and> k \<le> room (data i) sz offset \<and>
    (fmem_ok s (fallocs s) \<longrightarrow> k = room (data i) sz offset)"
proof -
  obtain k d' where k: "read_loop (fs_device s) (data i) (fst (fs_alloc s) \<noteq> 0) sz offset buf 0 (devs s) =
      Some (put_at buf 0 (slice (content (fs_get s) (data i)) (nat offset) k), 0 + k, d')"
    "same_dev (fs_device s) (devs s) d'" "k \<le> room (data i) sz offset"
    "fst (fs_alloc s) \<noteq> 0 \<longrightarrow> k = room (data i) sz offset"
    using read_loop_ok [OF assms(1,3,4), of 0 sz buf "fst (fs_alloc s) \<noteq> 0"] assms(5) by auto
  then have "io_only s (s\<lparr>devs := d', fallocs := fallocs s + 1\<rparr>)" by (intro io_onlyI) (simp_all add: same_dev_def)
  then show ?thesis
    using k assms(2)
    by (intro exI [of _ k] exI [of _ "s\<lparr>devs := d', fallocs := fallocs s + 1\<rparr>"])
      (auto simp: inode_read_at_def fs_alloc_def same_dev_def Let_def split: if_splits)
qed

lemma inode_write_at_ok:
  assumes "fs_dev_ok s" "inodes s ino = Some i" "ext_ok (fs_size s) (data i)" "0 \<le> offset" "nat sz \<le> length buf"
    "deny_write_cnt i = 0"
  shows "\<exists>k s'. inode_write_at ino buf sz offset s = Some (int k, s') \<and> io_only s s' \<and>
    content (fs_get s') (data i) = put_at (content (fs_get s) (data i)) (nat offset) (slice buf 0 k) \<and>
    (\<forall>x. x \<notin> secs (data i) \<longrightarrow> fs_get s' x = fs_get s x) \<and> k \<le> room (data i) sz offset \<and>
    (fmem_ok s (fallocs s) \<longrightarrow> k = room (data i) sz offset)"
proof -
  obtain k d' where k: "write_loop (fs_device s) (data i) (fst (fs_alloc s) \<noteq> 0) sz offset buf 0 (devs s) = Some (0 + k, d')"
    "dev_ok (fs_device s) d'" "dev_size (fs_device s) d' = dev_size (fs_device s) (devs s)"
    "content (dev_get (fs_device s) d') (data i) = put_at (content (fs_get s) (data i)) (nat offset) (slice buf 0 k)"
    "\<forall>x. x \<notin> secs (data i) \<longrightarrow> dev_get (fs_device s) d' x = fs_get s x" "k \<le> room (data i) sz offset"
    "fst (fs_alloc s) \<noteq> 0 \<longrightarrow> k = room (data i) sz offset"
    using write_loop_ok [OF assms(1,3,4), of 0 sz buf "fst (fs_alloc s) \<noteq> 0"] assms(5) by auto
  then have "io_only s (s\<lparr>devs := d', fallocs := fallocs s + 1\<rparr>)" by (intro io_onlyI) simp_all
  then show ?thesis
    using k assms(2,6)
    by (intro exI [of _ k] exI [of _ "s\<lparr>devs := d', fallocs := fallocs s + 1\<rparr>"])
      (auto simp: inode_write_at_def fs_alloc_def Let_def split: if_splits)
qed

text \<open>
  C12. A read from an inode returns the bytes of the file from the offset on, as many as were
  asked for and the file has (fewer only when no bounce buffer can be allocated), and changes
  nothing on the device. A write changes exactly the bytes it reports, never the length, and no
  sector outside the inode, so other files keep their contents; reading the range again gives the
  bytes written. Writes that are denied write nothing.
\<close>

theorem inode_read_write:
  assumes "fs_dev_ok s" "inodes s ino = Some i" "ext_ok (fs_size s) (data i)" "0 \<le> offset" "nat sz \<le> length buf"
  shows "(\<exists>k s'. inode_read_at ino buf sz offset s =
        Some (int k, put_at buf 0 (slice (content (fs_get s) (data i)) (nat offset) k), s') \<and>
      fs_get s' = fs_get s \<and> k \<le> nat (min sz (dlength (data i) - offset)) \<and>
      (fmem_ok s (fallocs s) \<longrightarrow> k = nat (min sz (dlength (data i) - offset)))) \<and>
    (deny_write_cnt i \<noteq> 0 \<longrightarrow> inode_write_at ino buf sz offset s = Some (0, s)) \<and>
    (deny_write_cnt i = 0 \<longrightarrow> (\<exists>k s1. inode_write_at ino buf sz offset s = Some (int k, s1) \<and>
      k \<le> nat (min sz (dlength (data i) - offset)) \<and>
      (fmem_ok s (fallocs s) \<longrightarrow> k = nat (min sz (dlength (data i) - offset))) \<and>
      content (fs_get s1) (data i) = put_at (content (fs_get s) (data i)) (nat offset) (take k buf) \<and>
      (\<forall>dj. secs dj \<inter> secs (data i) = {} \<longrightarrow> content (fs_get s1) dj = content (fs_get s) dj) \<and>
      ((\<forall>n. fmem_ok s n) \<longrightarrow> (\<exists>s2. inode_read_at ino buf (int k) offset s1 = Some (int k, buf, s2)))))"
proof (intro conjI impI)
  show "\<exists>k s'. inode_read_at ino buf sz offset s =
        Some (int k, put_at buf 0 (slice (content (fs_get s) (data i)) (nat offset) k), s') \<and>
      fs_get s' = fs_get s \<and> k \<le> nat (min sz (dlength (data i) - offset)) \<and>
      (fmem_ok s (fallocs s) \<longrightarrow> k = nat (min sz (dlength (data i) - offset)))"
    using inode_read_at_ok [OF assms] unfolding room_def by blast
  show "inode_write_at ino buf sz offset s = Some (0, s)" if "deny_write_cnt i \<noteq> 0"
    using that assms(2) by (simp add: inode_write_at_def)
  assume "deny_write_cnt i = 0"
  from inode_write_at_ok [OF assms this] obtain k s1 where w: "inode_write_at ino buf sz offset s = Some (int k, s1)"
    "io_only s s1" "content (fs_get s1) (data i) = put_at (content (fs_get s) (data i)) (nat offset) (slice buf 0 k)"
    "\<forall>x. x \<notin> secs (data i) \<longrightarrow> fs_get s1 x = fs_get s x" "k \<le> room (data i) sz offset"
    "fmem_ok s (fallocs s) \<longrightarrow> k = room (data i) sz offset" by blast
  note o = io_onlyD [OF w(2)]
  have kb: "k \<le> length buf" "nat offset + k \<le> nat (dlength (data i)) \<or> k = 0" "room (data i) (int k) offset = k"
    using w(5) assms(4,5) by (auto simp: room_def)
  have reread: "\<exists>s2. inode_read_at ino buf (int k) offset s1 = Some (int k, buf, s2)" if "\<forall>n. fmem_ok s n"
  proof -
    have p: "fs_dev_ok s1" "inodes s1 ino = Some i" "ext_ok (fs_size s1) (data i)" "nat (int k) \<le> length buf"
      using o assms(2,3) kb(1) by simp_all
    obtain k2 s2 where r: "inode_read_at ino buf (int k) offset s1 =
        Some (int k2, put_at buf 0 (slice (content (fs_get s1) (data i)) (nat offset) k2), s2)"
      "fmem_ok s1 (fallocs s1) \<longrightarrow> k2 = room (data i) (int k) offset"
      using inode_read_at_ok [OF p(1-3) assms(4) p(4)] by blast
    have "k2 = k" using r(2) kb(3) that o(8) by simp
    then have "inode_read_at ino buf (int k) offset s1 =
        Some (int k, put_at buf 0 (slice (content (fs_get s1) (data i)) (nat offset) k), s2)"
      using r(1) by simp
    moreover have "slice (content (fs_get s1) (data i)) (nat offset) k = take k buf"
    proof (cases "k = 0")
      case False
      then have "length (slice buf 0 k) = k" "nat offset + k \<le> nat (dlength (data i))" using kb by auto
      then show ?thesis
        using slice_put_at_same [of "nat offset" "slice buf 0 k" "content (fs_get s) (data i)"] w(3)
        by (simp add: slice_def)
    qed (simp add: slice_def)
    moreover have "put_at buf 0 (take k buf) = buf" using kb(1) by (simp add: put_at_def min_def)
    ultimately show ?thesis by auto
  qed
  have "content (fs_get s1) dj = content (fs_get s) dj" if "secs dj \<inter> secs (data i) = {}" for dj
    using that w(4) by (intro content_cong) blast
  then show "\<exists>k s1. inode_write_at ino buf sz offset s = Some (int k, s1) \<and>
      k \<le> nat (min sz (dlength (data i) - offset)) \<and>
      (fmem_ok s (fallocs s) \<longrightarrow> k = nat (min sz (dlength (data i) - offset))) \<and>
      content (fs_get s1) (data i) = put_at (content (fs_get s) (data i)) (nat offset) (take k buf) \<and>
      (\<forall>dj. secs dj \<inter> secs (data i) = {} \<longrightarrow> content (fs_get s1) dj = content (fs_get s) dj) \<and>
      ((\<forall>n. fmem_ok s n) \<longrightarrow> (\<exists>s2. inode_read_at ino buf (int k) offset s1 = Some (int k, buf, s2)))"
    using w reread by (intro exI [of _ k] exI [of _ s1]) (simp add: room_def slice_def)
qed

definition demo_inode :: inode where
  "demo_inode = \<lparr>sector = 5, open_cnt = 1, removed = False, deny_write_cnt = 0,
     data = \<lparr>start = 6, dlength = 600, dmagic = INODE_MAGIC\<rparr>\<rparr>"

definition demo_drive :: devs where
  "demo_drive = \<lparr>blocks = [1 \<mapsto> \<lparr>bname = ''hda'', btype = BLOCK_FILESYS, bsize = 100,
       ops = Drive (\<lambda>x. replicate 512 0), read_cnt = 0, write_cnt = 0\<rparr>],
     all_blocks = [1], block_by_role = (\<lambda>_. 1), allocs = 1, mem_ok = (\<lambda>_. True)\<rparr>"

definition demo_fs :: fsys where
  "demo_fs = \<lparr>devs = demo_drive, fs_device = 1, inodes = [1 \<mapsto> demo_inode], open_inodes = [1], files = (\<lambda>_. None),
     dirs = (\<lambda>_. None), free_map = \<lparr>bit_cnt = 0, bits = []\<rparr>, free_map_file = 0, fallocs = 1, fmem_ok = (\<lambda>_. True)\<rparr>"

lemma demo_drive_ok: "dev_ok 1 demo_drive" "dev_size 1 demo_drive = 100" "dev_get 1 demo_drive x = replicate 512 0"
  by (simp_all add: demo_drive_def dev_ok_def drive_ok_def dev_size_def dev_get_def)

theorem inode_read_write_witness:
  "\<exists>s1 s2. inode_write_at 1 [7, 8, 9] 3 511 demo_fs = Some (3, s1) \<and>
     content (fs_get s1) (data demo_inode) = put_at (content (fs_get demo_fs) (data demo_inode)) 511 [7, 8, 9] \<and>
     inode_read_at 1 [7, 8, 9] 3 511 s1 = Some (3, [7, 8, 9], s2)"
proof -
  have "fs_dev_ok demo_fs" "inodes demo_fs 1 = Some demo_inode" "ext_ok (fs_size demo_fs) (data demo_inode)"
    "(0 :: int) \<le> 511" "nat 3 \<le> length [7, 8, 9 :: u8]"
    using demo_drive_ok by (simp_all add: demo_fs_def ext_ok_def demo_inode_def)
  note t = inode_read_write [OF this]
  have d: "deny_write_cnt demo_inode = 0" "dlength (data demo_inode) = 600" by (simp_all add: demo_inode_def)
  have m: "fmem_ok demo_fs n" for n by (simp add: demo_fs_def)
  from t d m obtain k s1 where k: "inode_write_at 1 [7, 8, 9] 3 511 demo_fs = Some (int k, s1)" "k = 3"
    "content (fs_get s1) (data demo_inode) = put_at (content (fs_get demo_fs) (data demo_inode)) (nat 511) (take k [7, 8, 9])"
    "\<exists>s2. inode_read_at 1 [7, 8, 9] (int k) 511 s1 = Some (int k, [7, 8, 9], s2)"
    by auto
  then show ?thesis by auto
qed

end
