(* ===== verification/Filesys.thy ===== *)
theory Filesys
  imports Inode
begin

text \<open>
  Files, the free map, directories and the file system proper: \<open>filesys/file.c\<close>,
  \<open>filesys/free-map.c\<close> with \<open>bitmap_read\<close> and \<open>bitmap_write\<close> of \<open>lib/kernel/bitmap.c\<close>, the parts of
  \<open>filesys/inode.c\<close> that allocate and release sectors, \<open>filesys/directory.c\<close>, \<open>filesys/filesys.c\<close>.
  A null pointer is the address 0; following it is \<open>None\<close>.
\<close>

section \<open>The code: files\<close>

definition file_read_at :: "nat \<Rightarrow> u8 list \<Rightarrow> int \<Rightarrow> int \<Rightarrow> fsys \<Rightarrow> (int \<times> u8 list \<times> fsys) option" where
  "file_read_at f buf sz ofs s =
     (case files s f of None \<Rightarrow> None | Some fl \<Rightarrow> inode_read_at (finode fl) buf sz ofs s)"

definition file_write_at :: "nat \<Rightarrow> u8 list \<Rightarrow> int \<Rightarrow> int \<Rightarrow> fsys \<Rightarrow> (int \<times> fsys) option" where
  "file_write_at f buf sz ofs s =
     (case files s f of None \<Rightarrow> None | Some fl \<Rightarrow> inode_write_at (finode fl) buf sz ofs s)"

definition set_file :: "nat \<Rightarrow> (open_file \<Rightarrow> open_file) \<Rightarrow> fsys \<Rightarrow> fsys" where
  "set_file f g s = s\<lparr>files := (files s)(f := map_option g (files s f))\<rparr>"

definition file_read :: "nat \<Rightarrow> u8 list \<Rightarrow> int \<Rightarrow> fsys \<Rightarrow> (int \<times> u8 list \<times> fsys) option" where
  "file_read f buf sz s =
     (case files s f of
        None \<Rightarrow> None
      | Some fl \<Rightarrow> do {
          (n, buf', s1) \<leftarrow> inode_read_at (finode fl) buf sz (pos fl) s;
          Some (n, buf', set_file f (\<lambda>fl. fl\<lparr>pos := pos fl + n\<rparr>) s1)
        })"

definition file_write :: "nat \<Rightarrow> u8 list \<Rightarrow> int \<Rightarrow> fsys \<Rightarrow> (int \<times> fsys) option" where
  "file_write f buf sz s =
     (case files s f of
        None \<Rightarrow> None
      | Some fl \<Rightarrow> do {
          (n, s1) \<leftarrow> inode_write_at (finode fl) buf sz (pos fl) s;
          Some (n, set_file f (\<lambda>fl. fl\<lparr>pos := pos fl + n\<rparr>) s1)
        })"

definition file_get_inode :: "nat \<Rightarrow> fsys \<Rightarrow> nat option" where
  "file_get_inode f s = map_option finode (files s f)"

definition file_deny_write :: "nat \<Rightarrow> fsys \<Rightarrow> fsys option" where
  "file_deny_write f s =
     (case files s f of
        None \<Rightarrow> None
      | Some fl \<Rightarrow>
          if \<not> deny_write fl
          then inode_deny_write (finode fl) (set_file f (\<lambda>fl. fl\<lparr>deny_write := True\<rparr>) s)
          else Some s)"

definition file_allow_write :: "nat \<Rightarrow> fsys \<Rightarrow> fsys option" where
  "file_allow_write f s =
     (case files s f of
        None \<Rightarrow> None
      | Some fl \<Rightarrow>
          if deny_write fl
          then inode_allow_write (finode fl) (set_file f (\<lambda>fl. fl\<lparr>deny_write := False\<rparr>) s)
          else Some s)"

definition file_length :: "nat \<Rightarrow> fsys \<Rightarrow> int option" where
  "file_length f s = (case files s f of None \<Rightarrow> None | Some fl \<Rightarrow> inode_length (finode fl) s)"

definition file_seek :: "nat \<Rightarrow> int \<Rightarrow> fsys \<Rightarrow> fsys option" where
  "file_seek f new_pos s = do {
     kassert (files s f \<noteq> None);
     kassert (new_pos \<ge> 0);
     Some (set_file f (\<lambda>fl. fl\<lparr>pos := new_pos\<rparr>) s)
   }"

definition file_tell :: "nat \<Rightarrow> fsys \<Rightarrow> int option" where
  "file_tell f s = map_option pos (files s f)"

section \<open>The code: the free map\<close>

definition bitmap_bytes :: "bitmap \<Rightarrow> u8 list" where
  "bitmap_bytes b = concat (map bytes32 (bits b))"

definition bitmap_write :: "bitmap \<Rightarrow> nat \<Rightarrow> fsys \<Rightarrow> (bool \<times> fsys) option" where
  "bitmap_write b f s = do {
     let sz = int (byte_cnt (bit_cnt b));
     (n, s1) \<leftarrow> file_write_at f (bitmap_bytes b) sz 0 s;
     Some (n = sz, s1)
   }"

definition bytes_words :: "u8 list \<Rightarrow> u32 list" where
  "bytes_words bs = map (\<lambda>i. word32 (drop (4 * i) bs)) [0..<length bs div 4]"

definition bitmap_read :: "bitmap \<Rightarrow> nat \<Rightarrow> fsys \<Rightarrow> (bool \<times> bitmap \<times> fsys) option" where
  "bitmap_read b f s =
     (if bit_cnt b > 0 then do {
        let sz = int (byte_cnt (bit_cnt b));
        (n, bytes, s1) \<leftarrow> file_read_at f (bitmap_bytes b) sz 0 s;
        let ws = bytes_words bytes;
        let idx = elem_cnt (bit_cnt b) - 1;
        Some (n = sz, b\<lparr>bits := ws[idx := ws ! idx AND last_mask b]\<rparr>, s1)
      } else Some (True, b, s))"

definition FREE_MAP_SECTOR :: u32 where "FREE_MAP_SECTOR = 0"
definition ROOT_DIR_SECTOR :: u32 where "ROOT_DIR_SECTOR = 1"

text \<open>\<open>fm\<close> is what \<open>malloc\<close> returns for the bits of the new bitmap.\<close>

definition free_map_init :: "u32 list option \<Rightarrow> fsys \<Rightarrow> fsys option" where
  "free_map_init fm s = do {
     sz \<leftarrow> block_size (fs_device s) (devs s);
     r \<leftarrow> bitmap_create True fm (unat sz);
     b \<leftarrow> r;
     b1 \<leftarrow> bitmap_mark b (unat FREE_MAP_SECTOR);
     b2 \<leftarrow> bitmap_mark b1 (unat ROOT_DIR_SECTOR);
     Some (s\<lparr>free_map := b2\<rparr>)
   }"

definition free_map_allocate :: "nat \<Rightarrow> fsys \<Rightarrow> (u32 option \<times> fsys) option" where
  "free_map_allocate cnt s = do {
     (sec, b) \<leftarrow> bitmap_scan_and_flip (free_map s) 0 cnt False;
     let s1 = s\<lparr>free_map := b\<rparr>;
     (ok, s2) \<leftarrow> (if sec \<noteq> BITMAP_ERROR \<and> free_map_file s1 \<noteq> 0
                  then bitmap_write (free_map s1) (free_map_file s1) s1 else Some (True, s1));
     (if \<not> ok then do {
        b' \<leftarrow> bitmap_set_multiple (free_map s2) sec cnt False;
        Some (None, s2\<lparr>free_map := b'\<rparr>)
      } else if sec \<noteq> BITMAP_ERROR then Some (Some (word_of_nat sec), s2)
      else Some (None, s2))
   }"

definition free_map_release :: "u32 \<Rightarrow> nat \<Rightarrow> fsys \<Rightarrow> fsys option" where
  "free_map_release sec cnt s = do {
     all \<leftarrow> bitmap_all (free_map s) (unat sec) cnt;
     kassert all;
     b \<leftarrow> bitmap_set_multiple (free_map s) (unat sec) cnt False;
     (ok, s1) \<leftarrow> bitmap_write b (free_map_file s) (s\<lparr>free_map := b\<rparr>);
     Some s1
   }"

section \<open>The code: inodes that own sectors\<close>

fun zero_sectors :: "nat \<Rightarrow> u32 \<Rightarrow> nat \<Rightarrow> nat \<Rightarrow> devs \<Rightarrow> devs option" where
  "zero_sectors b first i 0 d = Some d"
| "zero_sectors b first i (Suc n) d =
     (case block_write b (first + word_of_nat i) (replicate 512 0) d of
        None \<Rightarrow> None
      | Some d1 \<Rightarrow> zero_sectors b first (Suc i) n d1)"

definition inode_create :: "u32 \<Rightarrow> int \<Rightarrow> fsys \<Rightarrow> (bool \<times> fsys) option" where
  "inode_create sec len s = do {
     kassert (len \<ge> 0);
     let (p, s1) = fs_alloc s;
     (if p \<noteq> 0 then do {
        let sectors = bytes_to_sectors len;
        (r, s2) \<leftarrow> free_map_allocate sectors s1;
        (case r of
           None \<Rightarrow> Some (False, s2)
         | Some first \<Rightarrow> do {
             d1 \<leftarrow> block_write (fs_device s2) sec
                (disk_bytes \<lparr>start = first, dlength = len, dmagic = INODE_MAGIC\<rparr>) (devs s2);
             d2 \<leftarrow> zero_sectors (fs_device s2) first 0 sectors d1;
             Some (True, s2\<lparr>devs := d2\<rparr>)
           })
      } else Some (False, s1))
   }"

definition inode_close :: "nat \<Rightarrow> fsys \<Rightarrow> fsys option" where
  "inode_close ino s =
     (if ino = 0 then Some s
      else (case inodes s ino of
        None \<Rightarrow> None
      | Some i0 \<Rightarrow> do {
          let i = i0\<lparr>open_cnt := open_cnt i0 - 1\<rparr>;
          let s1 = s\<lparr>inodes := (inodes s)(ino \<mapsto> i)\<rparr>;
          (if open_cnt i = 0 then do {
             let s2 = s1\<lparr>open_inodes := remove1 ino (open_inodes s1)\<rparr>;
             s3 \<leftarrow> (if removed i then do {
                      t \<leftarrow> free_map_release (sector i) 1 s2;
                      free_map_release (start (data i)) (bytes_to_sectors (dlength (data i))) t
                    } else Some s2);
             Some (s3\<lparr>inodes := (inodes s3)(ino := None)\<rparr>)
           } else Some s1)
        }))"

definition file_open :: "nat \<Rightarrow> fsys \<Rightarrow> (nat \<times> fsys) option" where
  "file_open ino s = do {
     let (f, s1) = fs_alloc s;
     (if ino \<noteq> 0 \<and> f \<noteq> 0
      then Some (f, s1\<lparr>files := (files s1)(f \<mapsto> \<lparr>finode = ino, pos = 0, deny_write = False\<rparr>)\<rparr>)
      else do { s2 \<leftarrow> inode_close ino s1; Some (0, s2) })
   }"

definition file_reopen :: "nat \<Rightarrow> fsys \<Rightarrow> (nat \<times> fsys) option" where
  "file_reopen f s =
     (case files s f of
        None \<Rightarrow> None
      | Some fl \<Rightarrow> (let (ino, s1) = inode_reopen (finode fl) s in file_open ino s1))"

definition file_close :: "nat \<Rightarrow> fsys \<Rightarrow> fsys option" where
  "file_close f s =
     (if f = 0 then Some s
      else do {
        s1 \<leftarrow> file_allow_write f s;
        fl \<leftarrow> files s1 f;
        s2 \<leftarrow> inode_close (finode fl) s1;
        Some (s2\<lparr>files := (files s2)(f := None)\<rparr>)
      })"

definition free_map_open :: "fsys \<Rightarrow> fsys option" where
  "free_map_open s = do {
     (ino, s1) \<leftarrow> inode_open FREE_MAP_SECTOR s;
     (f, s2) \<leftarrow> file_open ino s1;
     kassert (f \<noteq> 0);
     (ok, b, s3) \<leftarrow> bitmap_read (free_map s2) f (s2\<lparr>free_map_file := f\<rparr>);
     kassert ok;
     Some (s3\<lparr>free_map := b\<rparr>)
   }"

definition free_map_close :: "fsys \<Rightarrow> fsys option" where
  "free_map_close s = file_close (free_map_file s) s"

definition free_map_create :: "fsys \<Rightarrow> fsys option" where
  "free_map_create s = do {
     (ok, s1) \<leftarrow> inode_create FREE_MAP_SECTOR (int (byte_cnt (bit_cnt (free_map s)))) s;
     kassert ok;
     (ino, s2) \<leftarrow> inode_open FREE_MAP_SECTOR s1;
     (f, s3) \<leftarrow> file_open ino s2;
     kassert (f \<noteq> 0);
     (ok2, s4) \<leftarrow> bitmap_write (free_map s3) f (s3\<lparr>free_map_file := f\<rparr>);
     kassert ok2;
     Some s4
   }"

section \<open>The code: directories\<close>

record dir_entry =
  inode_sector :: u32
  ename :: "u8 list"
  in_use :: u8

definition NAME_MAX :: nat where "NAME_MAX = 14"

definition entry_size :: int where "entry_size = 20"

definition entry_of :: "u8 list \<Rightarrow> dir_entry" where
  "entry_of bs = \<lparr>inode_sector = word32 bs, ename = slice bs 4 15, in_use = bs ! 19\<rparr>"

definition entry_bytes :: "dir_entry \<Rightarrow> u8 list" where
  "entry_bytes e = bytes32 (inode_sector e) @ ename e @ [in_use e]"

text \<open>\<open>strlcpy (dst, src, size)\<close> into an array of \<open>size\<close> bytes.\<close>

definition strlcpy_array :: "u8 list \<Rightarrow> u8 list \<Rightarrow> u8 list" where
  "strlcpy_array dst src = put_at dst 0 (take (length dst - 1) src @ [0])"

definition dir_create :: "u32 \<Rightarrow> nat \<Rightarrow> fsys \<Rightarrow> (bool \<times> fsys) option" where
  "dir_create sec entry_cnt s = inode_create sec (to_s32 (int (wrap32 (entry_cnt * 20)))) s"

definition dir_open :: "nat \<Rightarrow> fsys \<Rightarrow> (nat \<times> fsys) option" where
  "dir_open ino s = do {
     let (d, s1) = fs_alloc s;
     (if ino \<noteq> 0 \<and> d \<noteq> 0 then Some (d, s1\<lparr>dirs := (dirs s1)(d \<mapsto> \<lparr>dinode = ino, dpos = 0\<rparr>)\<rparr>)
      else do { s2 \<leftarrow> inode_close ino s1; Some (0, s2) })
   }"

definition dir_open_root :: "fsys \<Rightarrow> (nat \<times> fsys) option" where
  "dir_open_root s = do { (ino, s1) \<leftarrow> inode_open ROOT_DIR_SECTOR s; dir_open ino s1 }"

definition dir_reopen :: "nat \<Rightarrow> fsys \<Rightarrow> (nat \<times> fsys) option" where
  "dir_reopen d s =
     (case dirs s d of
        None \<Rightarrow> None
      | Some dr \<Rightarrow> (let (ino, s1) = inode_reopen (dinode dr) s in dir_open ino s1))"

definition dir_close :: "nat \<Rightarrow> fsys \<Rightarrow> fsys option" where
  "dir_close d s =
     (if d = 0 then Some s
      else (case dirs s d of
        None \<Rightarrow> None
      | Some dr \<Rightarrow> do { s1 \<leftarrow> inode_close (dinode dr) s; Some (s1\<lparr>dirs := (dirs s1)(d := None)\<rparr>) }))"

definition dir_get_inode :: "nat \<Rightarrow> fsys \<Rightarrow> nat option" where
  "dir_get_inode d s = map_option dinode (dirs s d)"

text \<open>
  The loop of \<open>lookup\<close>: \<open>e\<close> is the contents of the local variable, which each read overwrites; the
  string at \<open>e.name\<close> runs on into \<open>e.in_use\<close> when the array holds no terminator.
\<close>

partial_function (option) lookup_loop ::
  "nat \<Rightarrow> u8 list \<Rightarrow> u8 list \<Rightarrow> int \<Rightarrow> fsys \<Rightarrow> ((dir_entry \<times> int) option \<times> fsys) option" where
  "lookup_loop ino name e ofs s = do {
     (n, e1, s1) \<leftarrow> inode_read_at ino e entry_size ofs s;
     (if n = entry_size then
        (if in_use (entry_of e1) \<noteq> 0 \<and> name = cstr (drop 4 e1)
         then Some (Some (entry_of e1, ofs), s1)
         else lookup_loop ino name e1 (ofs + entry_size) s1)
      else Some (None, s1))
   }"

definition lookup :: "nat \<Rightarrow> u8 list \<Rightarrow> u8 list \<Rightarrow> fsys \<Rightarrow> ((dir_entry \<times> int) option \<times> fsys) option" where
  "lookup d name junk s =
     (case dirs s d of None \<Rightarrow> None | Some dr \<Rightarrow> lookup_loop (dinode dr) name junk 0 s)"

partial_function (option) free_slot_loop :: "nat \<Rightarrow> u8 list \<Rightarrow> int \<Rightarrow> fsys \<Rightarrow> (u8 list \<times> int \<times> fsys) option" where
  "free_slot_loop ino e ofs s = do {
     (n, e1, s1) \<leftarrow> inode_read_at ino e entry_size ofs s;
     (if n = entry_size \<and> in_use (entry_of e1) \<noteq> 0 then free_slot_loop ino e1 (ofs + entry_size) s1
      else Some (e1, ofs, s1))
   }"

definition dir_lookup :: "nat \<Rightarrow> u8 list \<Rightarrow> u8 list \<Rightarrow> fsys \<Rightarrow> (nat \<times> fsys) option" where
  "dir_lookup d name junk s = do {
     (r, s1) \<leftarrow> lookup d name junk s;
     (case r of Some (e, _) \<Rightarrow> inode_open (inode_sector e) s1 | None \<Rightarrow> Some (0, s1))
   }"

definition dir_add :: "nat \<Rightarrow> u8 list \<Rightarrow> u32 \<Rightarrow> u8 list \<Rightarrow> fsys \<Rightarrow> (bool \<times> fsys) option" where
  "dir_add d name sec junk s =
     (case dirs s d of
        None \<Rightarrow> None
      | Some dr \<Rightarrow>
          if name = [] \<or> length name > NAME_MAX then Some (False, s)
          else do {
            (r, s1) \<leftarrow> lookup d name junk s;
            (case r of
               Some _ \<Rightarrow> Some (False, s1)
             | None \<Rightarrow> do {
                 (e, ofs, s2) \<leftarrow> free_slot_loop (dinode dr) junk 0 s1;
                 let e' = entry_of e;
                 let e'' = e'\<lparr>in_use := 1, ename := strlcpy_array (ename e') name, inode_sector := sec\<rparr>;
                 (n, s3) \<leftarrow> inode_write_at (dinode dr) (entry_bytes e'') entry_size ofs s2;
                 Some (n = entry_size, s3)
               })
          })"

definition dir_remove :: "nat \<Rightarrow> u8 list \<Rightarrow> u8 list \<Rightarrow> fsys \<Rightarrow> (bool \<times> fsys) option" where
  "dir_remove d name junk s =
     (case dirs s d of
        None \<Rightarrow> None
      | Some dr \<Rightarrow> do {
          (r, s1) \<leftarrow> lookup d name junk s;
          (case r of
             None \<Rightarrow> Some (False, s1)
           | Some (e, ofs) \<Rightarrow> do {
               (ino, s2) \<leftarrow> inode_open (inode_sector e) s1;
               (if ino = 0 then Some (False, s2)
                else do {
                  (n, s3) \<leftarrow> inode_write_at (dinode dr) (entry_bytes (e\<lparr>in_use := 0\<rparr>)) entry_size ofs s2;
                  (if n \<noteq> entry_size then do { s4 \<leftarrow> inode_close ino s3; Some (False, s4) }
                   else do {
                     s4 \<leftarrow> inode_remove ino s3;
                     s5 \<leftarrow> inode_close ino s4;
                     Some (True, s5)
                   })
                })
             })
        })"

partial_function (option) dir_readdir :: "nat \<Rightarrow> u8 list \<Rightarrow> fsys \<Rightarrow> (u8 list option \<times> fsys) option" where
  "dir_readdir d e s =
     (case dirs s d of
        None \<Rightarrow> None
      | Some dr \<Rightarrow> do {
          (n, e1, s1) \<leftarrow> inode_read_at (dinode dr) e entry_size (dpos dr) s;
          (if n = entry_size then do {
             let s2 = s1\<lparr>dirs := (dirs s1)(d \<mapsto> dr\<lparr>dpos := dpos dr + entry_size\<rparr>)\<rparr>;
             (if in_use (entry_of e1) \<noteq> 0
              then Some (Some (take NAME_MAX (cstr (drop 4 e1))), s2)
              else dir_readdir d e1 s2)
           } else Some (None, s1))
        })"

section \<open>The code: the file system\<close>

text \<open>\<open>junk\<close> is what the uninitialised local variables of the directory functions hold.\<close>

definition do_format :: "fsys \<Rightarrow> fsys option" where
  "do_format s = do {
     s1 \<leftarrow> free_map_create s;
     (ok, s2) \<leftarrow> dir_create ROOT_DIR_SECTOR 16 s1;
     kassert ok;
     free_map_close s2
   }"

definition filesys_init :: "bool \<Rightarrow> u32 list option \<Rightarrow> fsys \<Rightarrow> fsys option" where
  "filesys_init format fm s = do {
     dev \<leftarrow> block_get_role BLOCK_FILESYS (devs s);
     kassert (dev \<noteq> 0);
     s1 \<leftarrow> free_map_init fm (inode_init (s\<lparr>fs_device := dev\<rparr>));
     s2 \<leftarrow> (if format then do_format s1 else Some s1);
     free_map_open s2
   }"

definition filesys_done :: "fsys \<Rightarrow> fsys option" where
  "filesys_done s = free_map_close s"

definition filesys_create :: "u8 list \<Rightarrow> int \<Rightarrow> u8 list \<Rightarrow> fsys \<Rightarrow> (bool \<times> fsys) option" where
  "filesys_create name initial_size junk s = do {
     (d, s1) \<leftarrow> dir_open_root s;
     (sec, success, s2) \<leftarrow>
       (if d = 0 then Some (0, False, s1)
        else do {
          (r, t1) \<leftarrow> free_map_allocate 1 s1;
          (case r of
             None \<Rightarrow> Some (0, False, t1)
           | Some sec \<Rightarrow> do {
               (ok, t2) \<leftarrow> inode_create sec initial_size t1;
               (if \<not> ok then Some (sec, False, t2)
                else do { (ok2, t3) \<leftarrow> dir_add d name sec junk t2; Some (sec, ok2, t3) })
             })
        });
     s3 \<leftarrow> (if \<not> success \<and> sec \<noteq> 0 then free_map_release sec 1 s2 else Some s2);
     s4 \<leftarrow> dir_close d s3;
     Some (success, s4)
   }"

definition filesys_open :: "u8 list \<Rightarrow> u8 list \<Rightarrow> fsys \<Rightarrow> (nat \<times> fsys) option" where
  "filesys_open name junk s = do {
     (d, s1) \<leftarrow> dir_open_root s;
     (ino, s2) \<leftarrow> (if d \<noteq> 0 then dir_lookup d name junk s1 else Some (0, s1));
     s3 \<leftarrow> dir_close d s2;
     file_open ino s3
   }"

definition filesys_remove :: "u8 list \<Rightarrow> u8 list \<Rightarrow> fsys \<Rightarrow> (bool \<times> fsys) option" where
  "filesys_remove name junk s = do {
     (d, s1) \<leftarrow> dir_open_root s;
     (success, s2) \<leftarrow> (if d \<noteq> 0 then dir_remove d name junk s1 else Some (False, s1));
     s3 \<leftarrow> dir_close d s2;
     Some (success, s3)
   }"

end
