(* ===== verification/Directory_Spec.thy ===== *)
theory Directory_Spec
  imports Filesys
begin

text \<open>
  Directories: the loops of \<open>filesys/directory.c\<close> in closed form, the table of entries as a finite
  map from names to inode sectors, and the operations as operations on that map.
\<close>

section \<open>The entries of a directory\<close>

definition ent :: "u8 list \<Rightarrow> nat \<Rightarrow> u8 list" where
  "ent c i = slice c (20 * i) 20"

definition ents :: "u8 list \<Rightarrow> nat" where
  "ents c = length c div 20"

definition live :: "u8 list \<Rightarrow> nat \<Rightarrow> bool" where
  "live c i \<longleftrightarrow> i < ents c \<and> ent c i ! 19 \<noteq> 0"

definition ent_name :: "u8 list \<Rightarrow> nat \<Rightarrow> u8 list" where
  "ent_name c i = cstr (drop 4 (ent c i))"

definition ent_sec :: "u8 list \<Rightarrow> nat \<Rightarrow> u32" where
  "ent_sec c i = word32 (ent c i)"

text \<open>The state of the inode of a directory that the operations work in.\<close>

definition dir_in :: "fsys \<Rightarrow> nat \<Rightarrow> inode \<Rightarrow> bool" where
  "dir_in s ino i \<longleftrightarrow> fs_dev_ok s \<and> (\<forall>n. fmem_ok s n) \<and> inodes s ino = Some i \<and> ext_ok (fs_size s) (data i)"

abbreviation icontent :: "fsys \<Rightarrow> inode \<Rightarrow> u8 list" where
  "icontent s i \<equiv> content (fs_get s) (data i)"

lemma length_ent [simp]: "i < ents c \<Longrightarrow> length (ent c i) = 20"
proof -
  assume "i < ents c"
  then have "20 * i + 20 \<le> length c" by (simp add: ents_def)
  then show ?thesis by (simp add: ent_def)
qed

lemma dir_in_io: "dir_in s ino i \<Longrightarrow> io_only s s' \<Longrightarrow> dir_in s' ino i"
  by (auto simp: dir_in_def dest: io_onlyD)

text \<open>One read of an entry.\<close>

lemma read_entry:
  assumes d: "dir_in s ino i" and e: "length e = 20"
  shows "\<exists>k s' b. inode_read_at ino e entry_size (20 * int j) s = Some (int k, b, s') \<and> io_only s s' \<and>
    fs_get s' = fs_get s \<and> length b = 20 \<and>
    (if j < ents (icontent s i) then k = 20 \<and> b = ent (icontent s i) j else k < 20)"
proof -
  let ?c = "icontent s i"
  obtain k s' where k: "inode_read_at ino e entry_size (20 * int j) s =
      Some (int k, put_at e 0 (slice ?c (nat (20 * int j)) k), s')" "io_only s s'" "fs_get s' = fs_get s"
    "k = room (data i) entry_size (20 * int j)"
    using inode_read_at_ok [of s ino i "20 * int j" entry_size e] d e
    by (auto simp: dir_in_def entry_size_def)
  have dl: "0 \<le> dlength (data i)" using d by (simp add: dir_in_def ext_ok_def)
  have nj: "nat (20 * int j) = 20 * j" by simp
  show ?thesis
  proof (cases "j < ents ?c")
    case True
    then have b: "20 * j + 20 \<le> nat (dlength (data i))" by (simp add: ents_def)
    then have "k = 20" using k(4) by (simp add: room_def entry_size_def)
    moreover from this have "put_at e 0 (slice ?c (20 * j) k) = ent ?c j"
      using b e by (simp add: ent_def)
    ultimately show ?thesis using k(1-3) True nj by (intro exI [of _ k] exI [of _ s'] exI [of _ "ent ?c j"]) simp
  next
    case False
    then have b: "nat (dlength (data i)) < 20 * j + 20" by (simp add: ents_def)
    then have "k < 20" using k(4) dl by (simp add: room_def entry_size_def min_def split: if_splits)
    moreover have "20 * j + k \<le> nat (dlength (data i)) \<or> k = 0" using k(4) dl by (simp add: room_def) linarith
    then have "length (slice ?c (20 * j) k) = k" by (auto simp: slice_def)
    ultimately show ?thesis using k(1-3) False nj e by auto
  qed
qed

lemma lookup_loop_ok:
  assumes "dir_in s ino i" "length e = 20" "j \<le> ents (icontent s i)"
  shows "\<exists>s'. io_only s s' \<and> fs_get s' = fs_get s \<and>
    ((\<exists>k\<ge>j. live (icontent s i) k \<and> ent_name (icontent s i) k = name \<and>
        lookup_loop ino name e (20 * int j) s = Some (Some (entry_of (ent (icontent s i) k), 20 * int k), s')) \<or>
     ((\<forall>k\<ge>j. live (icontent s i) k \<longrightarrow> ent_name (icontent s i) k \<noteq> name) \<and>
        lookup_loop ino name e (20 * int j) s = Some (None, s')))"
  using assms
proof (induction "ents (icontent s i) - j" arbitrary: j e s)
  case 0
  then have j: "j = ents (icontent s i)" by simp
  obtain k s' b where r: "inode_read_at ino e entry_size (20 * int j) s = Some (int k, b, s')" "io_only s s'"
    "fs_get s' = fs_get s" "k < 20"
    using read_entry [OF 0(2,3), of j] j by auto
  have "lookup_loop ino name e (20 * int j) s = Some (None, s')"
    using r by (subst lookup_loop.simps) (simp add: entry_size_def)
  moreover have "\<not> live (icontent s i) k" if "k \<ge> j" for k using that j by (simp add: live_def)
  ultimately show ?case using r by blast
next
  case (Suc m)
  let ?c = "icontent s i"
  have j: "j < ents ?c" using Suc.hyps(2) by simp
  obtain s1 where r: "inode_read_at ino e entry_size (20 * int j) s = Some (20, ent ?c j, s1)" "io_only s s1"
    "fs_get s1 = fs_get s"
    using read_entry [OF Suc.prems(1,2), of j] j by auto
  have iu: "in_use (entry_of (ent ?c j)) = ent ?c j ! 19" by (simp add: entry_of_def)
  show ?case
  proof (cases "live ?c j \<and> ent_name ?c j = name")
    case True
    then have "lookup_loop ino name e (20 * int j) s = Some (Some (entry_of (ent ?c j), 20 * int j), s1)"
      using r j by (subst lookup_loop.simps) (auto simp: entry_size_def iu live_def ent_name_def)
    then show ?thesis using True r by blast
  next
    case False
    have c1: "icontent s1 i = ?c" using r(3) by simp
    have step: "lookup_loop ino name e (20 * int j) s = lookup_loop ino name (ent ?c j) (20 * int (Suc j)) s1"
      using r(1) j False by (subst lookup_loop.simps) (auto simp: entry_size_def iu live_def ent_name_def add.commute)
    have "m = ents (icontent s1 i) - Suc j" "Suc j \<le> ents (icontent s1 i)" using Suc.hyps(2) j c1 by simp_all
    from Suc.hyps(1) [OF this(1) dir_in_io [OF Suc.prems(1) r(2)] length_ent [OF j] this(2)] c1
    obtain s' where s': "io_only s1 s'" "fs_get s' = fs_get s1"
      "(\<exists>k\<ge>Suc j. live ?c k \<and> ent_name ?c k = name \<and>
        lookup_loop ino name (ent ?c j) (20 * int (Suc j)) s1 = Some (Some (entry_of (ent ?c k), 20 * int k), s')) \<or>
     ((\<forall>k\<ge>Suc j. live ?c k \<longrightarrow> ent_name ?c k \<noteq> name) \<and>
        lookup_loop ino name (ent ?c j) (20 * int (Suc j)) s1 = Some (None, s'))" by auto
    have "\<forall>k\<ge>j. live ?c k \<longrightarrow> ent_name ?c k \<noteq> name" if "\<forall>k\<ge>Suc j. live ?c k \<longrightarrow> ent_name ?c k \<noteq> name"
      using that False by (metis Suc_leI le_neq_implies_less)
    then show ?thesis using s' io_only_trans [OF r(2) s'(1)] r(3) unfolding step
      by (intro exI [of _ s']) (metis Suc_leD)
  qed
qed

lemma free_slot_loop_ok:
  assumes "dir_in s ino i" "length e = 20" "j \<le> ents (icontent s i)" "\<forall>k<j. live (icontent s i) k"
  shows "\<exists>s' b k. free_slot_loop ino e (20 * int j) s = Some (b, 20 * int k, s') \<and> io_only s s' \<and>
    fs_get s' = fs_get s \<and> length b = 20 \<and> k \<le> ents (icontent s i) \<and> \<not> live (icontent s i) k \<and>
    (\<forall>k'<k. live (icontent s i) k')"
  using assms
proof (induction "ents (icontent s i) - j" arbitrary: j e s)
  case 0
  then have j: "j = ents (icontent s i)" by simp
  obtain k s' b where r: "inode_read_at ino e entry_size (20 * int j) s = Some (int k, b, s')" "io_only s s'"
    "fs_get s' = fs_get s" "k < 20" "length b = 20"
    using read_entry [OF 0(2,3), of j] j by auto
  have "free_slot_loop ino e (20 * int j) s = Some (b, 20 * int j, s')"
    using r by (subst free_slot_loop.simps) (simp add: entry_size_def)
  moreover have "\<not> live (icontent s i) j" using j by (simp add: live_def)
  ultimately show ?case using r j 0(5) by blast
next
  case (Suc m)
  let ?c = "icontent s i"
  have j: "j < ents ?c" using Suc.hyps(2) by simp
  obtain s1 where r: "inode_read_at ino e entry_size (20 * int j) s = Some (20, ent ?c j, s1)" "io_only s s1"
    "fs_get s1 = fs_get s"
    using read_entry [OF Suc.prems(1,2), of j] j by auto
  have iu: "in_use (entry_of (ent ?c j)) = ent ?c j ! 19" by (simp add: entry_of_def)
  show ?case
  proof (cases "live ?c j")
    case False
    then have "free_slot_loop ino e (20 * int j) s = Some (ent ?c j, 20 * int j, s1)"
      using r j by (subst free_slot_loop.simps) (auto simp: entry_size_def iu live_def)
    then show ?thesis using False r j Suc.prems(4)
      by (intro exI [of _ s1] exI [of _ "ent ?c j"] exI [of _ j]) simp
  next
    case True
    have c1: "icontent s1 i = ?c" using r(3) by simp
    have step: "free_slot_loop ino e (20 * int j) s = free_slot_loop ino (ent ?c j) (20 * int (Suc j)) s1"
      using r(1) j True by (subst free_slot_loop.simps) (auto simp: entry_size_def iu live_def add.commute)
    have "m = ents (icontent s1 i) - Suc j" "Suc j \<le> ents (icontent s1 i)" "\<forall>k<Suc j. live (icontent s1 i) k"
      using Suc.hyps(2) Suc.prems(4) True j c1 by (auto simp: less_Suc_eq)
    from Suc.hyps(1) [OF this(1) dir_in_io [OF Suc.prems(1) r(2)] length_ent [OF j] this(2,3)] c1
    show ?thesis using r(3) io_only_trans [OF r(2)] unfolding step by metis
  qed
qed

section \<open>The directory as a map\<close>

definition dir_map :: "u8 list \<Rightarrow> u8 list \<rightharpoonup> u32" where
  "dir_map c = map_of (map (\<lambda>k. (ent_name c k, ent_sec c k)) (filter (live c) [0..<ents c]))"

definition dir_ok :: "u8 list \<Rightarrow> bool" where
  "dir_ok c \<longleftrightarrow> (\<forall>j k. live c j \<and> live c k \<and> ent_name c j = ent_name c k \<longrightarrow> j = k)"

lemma dir_okD: "dir_ok c \<Longrightarrow> live c j \<Longrightarrow> live c k \<Longrightarrow> ent_name c j = ent_name c k \<Longrightarrow> j = k"
  by (simp add: dir_ok_def)

lemma dir_map_None: "dir_map c nm = None \<longleftrightarrow> (\<forall>k. live c k \<longrightarrow> ent_name c k \<noteq> nm)"
  by (auto simp: dir_map_def map_of_eq_None_iff live_def image_image)

lemma dir_map_Some:
  assumes "dir_ok c"
  shows "dir_map c nm = Some x \<longleftrightarrow> (\<exists>k. live c k \<and> ent_name c k = nm \<and> ent_sec c k = x)"
proof
  assume "dir_map c nm = Some x"
  then show "\<exists>k. live c k \<and> ent_name c k = nm \<and> ent_sec c k = x"
    unfolding dir_map_def by (auto dest!: map_of_SomeD)
next
  assume "\<exists>k. live c k \<and> ent_name c k = nm \<and> ent_sec c k = x"
  then obtain k where k: "live c k" "ent_name c k = nm" "ent_sec c k = x" by blast
  then have "dir_map c nm \<noteq> None" by (auto simp: dir_map_None)
  then obtain y where y: "dir_map c nm = Some y" by blast
  then obtain j where "live c j" "ent_name c j = nm" "ent_sec c j = y"
    unfolding dir_map_def by (auto dest!: map_of_SomeD)
  then show "dir_map c nm = Some x" using y k dir_okD [OF assms] by metis
qed

text \<open>Writing one entry changes one entry.\<close>

lemma ents_put [simp]: "20 * k + length e \<le> length c \<Longrightarrow> ents (put_at c (20 * k) e) = ents c"
  by (simp add: ents_def)

lemma ent_put:
  assumes "k < ents c" "j < ents c" "length e = 20"
  shows "ent (put_at c (20 * k) e) j = (if j = k then e else ent c j)"
proof -
  have b: "20 * k + length e \<le> length c" "20 * j + 20 \<le> length c" using assms by (simp_all add: ents_def)
  have "j \<noteq> k \<Longrightarrow> 20 * j + 20 \<le> 20 * k \<or> 20 * k + length e \<le> 20 * j" using assms(3) by linarith
  then show ?thesis
    using slice_put_at_same [OF b(1)] slice_put_at_other [OF b] assms(3) by (auto simp: ent_def)
qed

lemma ent_put_tail:
  assumes "j < ents c" "20 * ents c + length e \<le> length c"
  shows "ent (put_at c (20 * ents c) e) j = ent c j"
proof -
  have "20 * j + 20 \<le> length c" "20 * j + 20 \<le> 20 * ents c" using assms(1) by (simp_all add: ents_def)
  then show ?thesis unfolding ent_def by (intro slice_put_at_other assms(2)) simp_all
qed

lemma dir_same:
  assumes "ents c' = ents c" "\<And>j. j < ents c \<Longrightarrow> ent c' j = ent c j"
  shows "live c' = live c" "dir_map c' = dir_map c" "dir_ok c' = dir_ok c"
proof -
  show l: "live c' = live c" using assms by (auto simp: live_def fun_eq_iff)
  have e: "live c k \<Longrightarrow> ent_name c' k = ent_name c k \<and> ent_sec c' k = ent_sec c k" for k
    using assms(2) by (simp add: live_def ent_name_def ent_sec_def)
  show "dir_map c' = dir_map c"
    unfolding dir_map_def assms(1) l by (intro arg_cong [where f = map_of] map_cong) (auto simp: e)
  show "dir_ok c' = dir_ok c" unfolding dir_ok_def l by (auto simp: e)
qed

lemma live_put:
  assumes "k < ents c" "length e = 20"
  shows "live (put_at c (20 * k) e) j \<longleftrightarrow> (if j = k then e ! 19 \<noteq> 0 else live c j)"
proof -
  have "20 * k + length e \<le> length c" using assms by (simp add: ents_def)
  then show ?thesis using ent_put [OF assms(1) _ assms(2), of j] assms(1) by (auto simp: live_def)
qed

lemma ent_name_put:
  assumes "k < ents c" "length e = 20" "j < ents c"
  shows "ent_name (put_at c (20 * k) e) j = (if j = k then cstr (drop 4 e) else ent_name c j)"
    "ent_sec (put_at c (20 * k) e) j = (if j = k then word32 e else ent_sec c j)"
  using ent_put [OF assms(1,3,2)] by (simp_all add: ent_name_def ent_sec_def)

lemma dir_map_eqI:
  assumes "dir_ok c'" "\<And>nm x. f nm = Some x \<longleftrightarrow> (\<exists>k. live c' k \<and> ent_name c' k = nm \<and> ent_sec c' k = x)"
  shows "dir_map c' = f"
proof
  fix nm show "dir_map c' nm = f nm"
    using dir_map_Some [OF assms(1), of nm] assms(2) [of nm] by (metis option.exhaust)
qed

lemma dir_add_entry:
  assumes "dir_ok c" "k < ents c" "\<not> live c k" "length e = 20" "e ! 19 \<noteq> 0" "dir_map c (cstr (drop 4 e)) = None"
  shows "dir_ok (put_at c (20 * k) e)"
    "dir_map (put_at c (20 * k) e) = (dir_map c)(cstr (drop 4 e) \<mapsto> word32 e)"
proof -
  let ?c = "put_at c (20 * k) e"
  have l: "live ?c j \<longleftrightarrow> j = k \<or> live c j" for j using live_put [OF assms(2,4), of j] assms(3,5) by auto
  have n: "ent_name ?c k = cstr (drop 4 e)" "ent_sec ?c k = word32 e"
    "\<And>j. live c j \<Longrightarrow> ent_name ?c j = ent_name c j \<and> ent_sec ?c j = ent_sec c j"
    using ent_name_put [OF assms(2,4)] assms(2,3) by (auto simp: live_def)
  have no: "live c j \<Longrightarrow> ent_name c j \<noteq> cstr (drop 4 e)" for j using assms(6) by (simp add: dir_map_None)
  show ok: "dir_ok ?c"
    unfolding dir_ok_def l using dir_okD [OF assms(1)] n no by metis
  have "((dir_map c)(cstr (drop 4 e) \<mapsto> word32 e)) nm = Some x \<longleftrightarrow>
      (\<exists>j. live ?c j \<and> ent_name ?c j = nm \<and> ent_sec ?c j = x)" for nm x
    unfolding l using dir_map_Some [OF assms(1), of nm x] n no by auto
  then show "dir_map ?c = (dir_map c)(cstr (drop 4 e) \<mapsto> word32 e)" by (rule dir_map_eqI [OF ok])
qed

lemma dir_remove_entry:
  assumes "dir_ok c" "live c k" "length e = 20" "e ! 19 = 0"
  shows "dir_ok (put_at c (20 * k) e)" "dir_map (put_at c (20 * k) e) = (dir_map c)(ent_name c k := None)"
proof -
  let ?c = "put_at c (20 * k) e"
  have k: "k < ents c" using assms(2) by (simp add: live_def)
  have l: "live ?c j \<longleftrightarrow> j \<noteq> k \<and> live c j" for j using live_put [OF k assms(3), of j] assms(4) by auto
  have n: "\<And>j. live c j \<Longrightarrow> j \<noteq> k \<Longrightarrow> ent_name ?c j = ent_name c j \<and> ent_sec ?c j = ent_sec c j"
    using ent_name_put [OF k assms(3)] by (auto simp: live_def)
  show ok: "dir_ok ?c" unfolding dir_ok_def l using dir_okD [OF assms(1)] n by metis
  have "((dir_map c)(ent_name c k := None)) nm = Some x \<longleftrightarrow>
      (\<exists>j. live ?c j \<and> ent_name ?c j = nm \<and> ent_sec ?c j = x)" for nm x
  proof (cases "nm = ent_name c k")
    case True
    then show ?thesis unfolding l using n dir_okD [OF assms(1) _ assms(2)] by auto
  next
    case False
    then show ?thesis unfolding l using dir_map_Some [OF assms(1), of nm x] n by fastforce
  qed
  then show "dir_map ?c = (dir_map c)(ent_name c k := None)" by (rule dir_map_eqI [OF ok])
qed

text \<open>The bytes of an entry.\<close>

lemma new_entry:
  assumes "length b = 20" "length name \<le> 14" "0 \<notin> set name"
    and e: "e = entry_bytes ((entry_of b)\<lparr>in_use := 1, ename := strlcpy_array (ename (entry_of b)) name, inode_sector := sec\<rparr>)"
  shows "length e = 20" "e ! 19 = 1" "cstr (drop 4 e) = name" "word32 e = sec"
proof -
  let ?s = "strlcpy_array (slice b 4 15) name"
  have l: "length (slice b 4 15) = 15" using assms(1) by simp
  have s: "?s = name @ 0 # drop (Suc (length name)) (slice b 4 15)"
    using assms(2) l by (simp add: strlcpy_array_def put_at_def)
  have e': "e = bytes32 sec @ ?s @ [1]" by (simp add: e entry_bytes_def entry_of_def)
  have sl: "length ?s = 15" unfolding s using assms(2) l by simp
  show "length e = 20" "e ! 19 = 1" "word32 e = sec" using sl by (simp_all add: e' nth_append)
  show "cstr (drop 4 e) = name" using assms(3) unfolding e' s by (simp add: cstr_append)
qed

lemma erased_entry:
  assumes "length b = 20"
  shows "length (entry_bytes ((entry_of b)\<lparr>in_use := 0\<rparr>)) = 20" "entry_bytes ((entry_of b)\<lparr>in_use := 0\<rparr>) ! 19 = 0"
  using assms by (simp_all add: entry_bytes_def entry_of_def nth_append)

section \<open>The operations\<close>

lemma lookup_ok:
  assumes "dirs s d = Some dr" "dir_in s (dinode dr) i" "length junk = 20" "dir_ok (icontent s i)"
  shows "\<exists>s'. io_only s s' \<and> fs_get s' = fs_get s \<and>
    (case dir_map (icontent s i) name of
       None \<Rightarrow> lookup d name junk s = Some (None, s')
     | Some sec \<Rightarrow> (\<exists>k. live (icontent s i) k \<and> ent_name (icontent s i) k = name \<and> ent_sec (icontent s i) k = sec \<and>
         lookup d name junk s = Some (Some (entry_of (ent (icontent s i) k), 20 * int k), s')))"
proof -
  let ?c = "icontent s i"
  from lookup_loop_ok [OF assms(2,3) le0, of name] obtain s' where s': "io_only s s'" "fs_get s' = fs_get s"
    "(\<exists>k\<ge>0. live ?c k \<and> ent_name ?c k = name \<and>
        lookup_loop (dinode dr) name junk (20 * int 0) s = Some (Some (entry_of (ent ?c k), 20 * int k), s')) \<or>
     ((\<forall>k\<ge>0. live ?c k \<longrightarrow> ent_name ?c k \<noteq> name) \<and>
        lookup_loop (dinode dr) name junk (20 * int 0) s = Some (None, s'))" by blast
  from s'(3) show ?thesis
  proof (elim disjE exE conjE)
    fix k
    assume k: "live ?c k" "ent_name ?c k = name"
      "lookup_loop (dinode dr) name junk (20 * int 0) s = Some (Some (entry_of (ent ?c k), 20 * int k), s')"
    then have "dir_map ?c name = Some (ent_sec ?c k)" by (auto simp: dir_map_Some [OF assms(4)])
    then show ?thesis using s'(1,2) k assms(1) by (auto simp: lookup_def intro!: exI [of _ s'])
  next
    assume "\<forall>k\<ge>0. live ?c k \<longrightarrow> ent_name ?c k \<noteq> name"
      "lookup_loop (dinode dr) name junk (20 * int 0) s = Some (None, s')"
    then show ?thesis using s'(1,2) assms(1) by (auto simp: lookup_def dir_map_None [THEN iffD2])
  qed
qed

definition name_ok :: "u8 list \<Rightarrow> bool" where
  "name_ok name \<longleftrightarrow> name \<noteq> [] \<and> length name \<le> 14"

text \<open>Only the data of the inode changes on the device.\<close>

definition only_in :: "inode \<Rightarrow> fsys \<Rightarrow> fsys \<Rightarrow> bool" where
  "only_in i s s' \<longleftrightarrow> io_only s s' \<and> (\<forall>x. x \<notin> secs (data i) \<longrightarrow> fs_get s' x = fs_get s x)"

lemma only_in_same: "io_only s s' \<Longrightarrow> fs_get s' = fs_get s \<Longrightarrow> only_in i s s'"
  by (simp add: only_in_def)

lemma only_in_trans: "only_in i s s1 \<Longrightarrow> only_in i s1 s2 \<Longrightarrow> only_in i s s2"
  using io_only_trans by (simp add: only_in_def) blast

lemma dir_write_entry:
  assumes d: "dir_in s ino i" and w: "deny_write_cnt i = 0" and e: "length e = 20" and k: "k \<le> ents (icontent s i)"
  shows "\<exists>n s'. inode_write_at ino e entry_size (20 * int k) s = Some (n, s') \<and> only_in i s s' \<and>
    (if k < ents (icontent s i) then n = entry_size \<and> icontent s' i = put_at (icontent s i) (20 * k) e
     else n \<noteq> entry_size \<and> live (icontent s' i) = live (icontent s i) \<and>
       dir_map (icontent s' i) = dir_map (icontent s i) \<and> dir_ok (icontent s' i) = dir_ok (icontent s i))"
proof -
  let ?c = "icontent s i"
  obtain m s' where m: "inode_write_at ino e entry_size (20 * int k) s = Some (int m, s')" "io_only s s'"
    "icontent s' i = put_at ?c (nat (20 * int k)) (slice e 0 m)"
    "\<forall>x. x \<notin> secs (data i) \<longrightarrow> fs_get s' x = fs_get s x" "m = room (data i) entry_size (20 * int k)"
    using inode_write_at_ok [of s ino i "20 * int k" entry_size e] d e w by (auto simp: dir_in_def entry_size_def)
  have dl: "0 \<le> dlength (data i)" using d by (simp add: dir_in_def ext_ok_def)
  have nk: "nat (20 * int k) = 20 * k" by simp
  have o: "only_in i s s'" using m by (simp add: only_in_def)
  show ?thesis
  proof (cases "k < ents ?c")
    case True
    then have "20 * k + 20 \<le> nat (dlength (data i))" by (simp add: ents_def)
    then have "m = 20" using m(5) by (simp add: room_def entry_size_def)
    then show ?thesis using m o True e nk by (auto simp: entry_size_def slice_def)
  next
    case False
    then have k': "k = ents ?c" using k by simp
    then have b: "nat (dlength (data i)) < 20 * k + 20" "20 * k \<le> nat (dlength (data i))"
      by (simp_all add: ents_def)
    then have m20: "m < 20" "20 * k + m \<le> nat (dlength (data i))"
      using m(5) dl by (simp_all add: room_def entry_size_def)
    then have "20 * ents ?c + length (slice e 0 m) \<le> length ?c" using k' e by (simp add: slice_def)
    note t = ents_put [OF this] ent_put_tail [OF _ this]
    have c': "icontent s' i = put_at ?c (20 * ents ?c) (slice e 0 m)" using m(3) k' nk by simp
    have "live (icontent s' i) = live ?c" "dir_map (icontent s' i) = dir_map ?c" "dir_ok (icontent s' i) = dir_ok ?c"
      unfolding c' by (rule dir_same; use t in simp)+
    then show ?thesis using m(1) o False m20(1) by (auto simp: entry_size_def)
  qed
qed

lemma dir_add_ok:
  assumes "dirs s d = Some dr" "dir_in s (dinode dr) i" "deny_write_cnt i = 0" "length junk = 20"
    "dir_ok (icontent s i)" "0 \<notin> set name"
  shows "\<exists>r s'. dir_add d name sec junk s = Some (r, s') \<and> only_in i s s' \<and> dir_ok (icontent s' i) \<and>
    (r \<longleftrightarrow> name_ok name \<and> dir_map (icontent s i) name = None \<and> (\<exists>k<ents (icontent s i). \<not> live (icontent s i) k)) \<and>
    dir_map (icontent s' i) = (if r then (dir_map (icontent s i))(name \<mapsto> sec) else dir_map (icontent s i))"
proof (cases "name_ok name")
  case False
  have "io_only s s" using assms(2) by (intro io_only_refl) (simp add: dir_in_def)
  then show ?thesis using False assms(1,5)
    by (intro exI [of _ False] exI [of _ s]) (auto simp: dir_add_def name_ok_def NAME_MAX_def only_in_def)
next
  case True
  let ?c = "icontent s i"
  from lookup_ok [OF assms(1,2,4,5), of name] obtain s1 where s1: "io_only s s1" "fs_get s1 = fs_get s"
    "case dir_map ?c name of None \<Rightarrow> lookup d name junk s = Some (None, s1)
     | Some sec \<Rightarrow> (\<exists>k. live ?c k \<and> ent_name ?c k = name \<and> ent_sec ?c k = sec \<and>
         lookup d name junk s = Some (Some (entry_of (ent ?c k), 20 * int k), s1))" by blast
  have nm: "\<not> (name = [] \<or> length name > NAME_MAX)" using True by (simp add: name_ok_def NAME_MAX_def)
  show ?thesis
  proof (cases "dir_map ?c name")
    case (Some x)
    then obtain k where "lookup d name junk s = Some (Some (entry_of (ent ?c k), 20 * int k), s1)" using s1(3) by auto
    then have "dir_add d name sec junk s = Some (False, s1)" using assms(1) nm by (simp add: dir_add_def)
    then show ?thesis using Some s1 assms(5) only_in_same [OF s1(1,2)] by auto
  next
    case None
    note d1 = dir_in_io [OF assms(2) s1(1)]
    have c1: "icontent s1 i = ?c" using s1(2) by simp
    obtain s2 b k where f: "free_slot_loop (dinode dr) junk (20 * int 0) s1 = Some (b, 20 * int k, s2)"
      "io_only s1 s2" "fs_get s2 = fs_get s1" "length b = 20" "k \<le> ents ?c" "\<not> live ?c k" "\<forall>k'<k. live ?c k'"
      using free_slot_loop_ok [OF d1 assms(4), of 0] c1 by auto
    define e where "e = entry_bytes ((entry_of b)\<lparr>in_use := 1, ename := strlcpy_array (ename (entry_of b)) name, inode_sector := sec\<rparr>)"
    note ne = new_entry [OF f(4) _ assms(6) e_def]
    have c2: "icontent s2 i = ?c" using s1(2) f(3) by simp
    have l14: "length name \<le> 14" using True by (simp add: name_ok_def)
    obtain n s3 where w: "inode_write_at (dinode dr) e entry_size (20 * int k) s2 = Some (n, s3)" "only_in i s2 s3"
      "if k < ents ?c then n = entry_size \<and> icontent s3 i = put_at ?c (20 * k) e
       else n \<noteq> entry_size \<and> live (icontent s3 i) = live ?c \<and> dir_map (icontent s3 i) = dir_map ?c \<and>
         dir_ok (icontent s3 i) = dir_ok ?c"
      using dir_write_entry [OF dir_in_io [OF d1 f(2)] assms(3) ne(1), of k] f(5) c2 l14 by auto
    have lk: "lookup d name junk s = Some (None, s1)" using s1(3) None by simp
    have da: "dir_add d name sec junk s = Some (n = entry_size, s3)"
      using assms(1) nm lk f(1) w(1) by (simp add: dir_add_def e_def Let_def)
    have o: "only_in i s s3"
      by (rule only_in_trans [OF only_in_trans [OF only_in_same [OF s1(1,2)] only_in_same [OF f(2,3)]] w(2)])
    show ?thesis
    proof (cases "k < ents ?c")
      case True
      have "e ! 19 \<noteq> 0" using ne(2) l14 by simp
      moreover have "dir_map ?c (cstr (drop 4 e)) = None" using None ne(3) l14 by simp
      ultimately show ?thesis
        using dir_add_entry [OF assms(5) True f(6) ne(1) _ ] ne(3,4) l14 da o w(3) True None \<open>name_ok name\<close> f(6)
        by auto
    next
      case False
      then have "\<forall>k<ents ?c. live ?c k" using f(5,7) by auto
      then show ?thesis using da o w(3) False assms(5) by auto
    qed
  qed
qed

lemma dir_lookup_ok:
  assumes "dirs s d = Some dr" "dir_in s (dinode dr) i" "length junk = 20" "dir_ok (icontent s i)"
  shows "\<exists>s'. io_only s s' \<and> fs_get s' = fs_get s \<and>
    dir_lookup d name junk s = (case dir_map (icontent s i) name of None \<Rightarrow> Some (0, s') | Some sec \<Rightarrow> inode_open sec s')"
proof -
  from lookup_ok [OF assms, of name] obtain s1 where s1: "io_only s s1" "fs_get s1 = fs_get s"
    "case dir_map (icontent s i) name of None \<Rightarrow> lookup d name junk s = Some (None, s1)
     | Some sec \<Rightarrow> (\<exists>k. live (icontent s i) k \<and> ent_name (icontent s i) k = name \<and> ent_sec (icontent s i) k = sec \<and>
         lookup d name junk s = Some (Some (entry_of (ent (icontent s i) k), 20 * int k), s1))" by blast
  have e: "inode_sector (entry_of (ent (icontent s i) k)) = ent_sec (icontent s i) k" for k
    by (simp add: entry_of_def ent_sec_def)
  show ?thesis using s1 by (intro exI [of _ s1]) (auto simp: dir_lookup_def e split: option.splits)
qed

text \<open>\<open>dir_readdir\<close> returns the names in the order of the entries.\<close>

definition read_to :: "nat \<Rightarrow> open_dir \<Rightarrow> nat \<Rightarrow> fsys \<Rightarrow> fsys \<Rightarrow> bool" where
  "read_to d dr k s s' \<longleftrightarrow> (\<exists>t. io_only s t \<and> fs_get t = fs_get s \<and>
     s' = t\<lparr>dirs := (dirs s)(d \<mapsto> dr\<lparr>dpos := 20 * int k\<rparr>)\<rparr>)"

lemma read_to_step:
  assumes "io_only s s1" "fs_get s1 = fs_get s"
    and "read_to d (dr\<lparr>dpos := p\<rparr>) k (s1\<lparr>dirs := (dirs s)(d \<mapsto> dr\<lparr>dpos := p\<rparr>)\<rparr>) s'"
  shows "read_to d dr k s s'"
proof -
  obtain t where t: "io_only (s1\<lparr>dirs := (dirs s)(d \<mapsto> dr\<lparr>dpos := p\<rparr>)\<rparr>) t" "fs_get t = fs_get s"
    "s' = t\<lparr>dirs := (dirs s)(d \<mapsto> dr\<lparr>dpos := 20 * int k\<rparr>)\<rparr>"
    using assms(2,3) by (auto simp: read_to_def)
  obtain d1 n1 where s1: "s1 = s\<lparr>devs := d1, fallocs := n1\<rparr>" "fallocs s \<le> n1" using assms(1) by (auto simp: io_only_def)
  obtain d2 n2 where t2: "t = s\<lparr>dirs := (dirs s)(d \<mapsto> dr\<lparr>dpos := p\<rparr>), devs := d2, fallocs := n2\<rparr>" "n1 \<le> n2"
    using t(1) by (auto simp: io_only_def s1(1))
  have "io_only s (s\<lparr>devs := d2, fallocs := n2\<rparr>)"
    using io_onlyD(9,10) [OF t(1)] io_onlyD(10) [OF assms(1)] s1(2) t2(2) by (intro io_onlyI) (simp_all add: t2(1))
  moreover have "fs_get (s\<lparr>devs := d2, fallocs := n2\<rparr>) = fs_get s" using t(2) by (simp add: t2(1))
  moreover have "s' = (s\<lparr>devs := d2, fallocs := n2\<rparr>)\<lparr>dirs := (dirs s)(d \<mapsto> dr\<lparr>dpos := 20 * int k\<rparr>)\<rparr>"
    by (simp add: t(3) t2(1))
  ultimately show ?thesis unfolding read_to_def by blast
qed

lemma dir_readdir_ok:
  assumes "dirs s d = Some dr" "dir_in s (dinode dr) i" "length e = 20" "dpos dr = 20 * int j" "j \<le> ents (icontent s i)"
  shows "\<exists>k s'. read_to d dr k s s' \<and> k \<le> ents (icontent s i) \<and>
    ((\<exists>m\<ge>j. live (icontent s i) m \<and> (\<forall>m'. j \<le> m' \<and> m' < m \<longrightarrow> \<not> live (icontent s i) m') \<and> k = Suc m \<and>
        dir_readdir d e s = Some (Some (take 14 (ent_name (icontent s i) m)), s')) \<or>
     ((\<forall>m\<ge>j. \<not> live (icontent s i) m) \<and> dir_readdir d e s = Some (None, s')))"
  using assms
proof (induction "ents (icontent s i) - j" arbitrary: j e s dr)
  case 0
  then have j: "j = ents (icontent s i)" by simp
  obtain k s' b where r: "inode_read_at (dinode dr) e entry_size (20 * int j) s = Some (int k, b, s')" "io_only s s'"
    "fs_get s' = fs_get s" "k < 20"
    using read_entry [OF 0(3,4), of j] j by auto
  have "dir_readdir d e s = Some (None, s')"
    using r 0 by (subst dir_readdir.simps) (simp add: entry_size_def)
  moreover have "read_to d dr j s s'" unfolding read_to_def
    using r(2,3) 0(2,5) io_onlyD(4) [OF r(2)]
    by (intro exI [of _ s']) (auto simp: fun_upd_idem)
  moreover have "\<forall>m\<ge>j. \<not> live (icontent s i) m" using j by (simp add: live_def)
  ultimately show ?case using j by blast
next
  case (Suc n)
  let ?c = "icontent s i"
  have j: "j < ents ?c" using Suc.hyps(2) by simp
  obtain s1 where r: "inode_read_at (dinode dr) e entry_size (20 * int j) s = Some (20, ent ?c j, s1)" "io_only s s1"
    "fs_get s1 = fs_get s"
    using read_entry [OF Suc.prems(2,3), of j] j by auto
  define s2 where "s2 = s1\<lparr>dirs := (dirs s)(d \<mapsto> dr\<lparr>dpos := 20 * int (Suc j)\<rparr>)\<rparr>"
  have s2: "s2 = s1\<lparr>dirs := (dirs s1)(d \<mapsto> dr\<lparr>dpos := dpos dr + entry_size\<rparr>)\<rparr>"
    using Suc.prems(4) io_onlyD(4) [OF r(2)] by (simp add: s2_def entry_size_def add.commute)
  have iu: "in_use (entry_of (ent ?c j)) = ent ?c j ! 19" by (simp add: entry_of_def)
  show ?case
  proof (cases "live ?c j")
    case True
    then have "dir_readdir d e s = Some (Some (take 14 (ent_name ?c j)), s2)"
      using r Suc.prems j
      by (subst dir_readdir.simps) (simp add: s2 entry_size_def iu live_def NAME_MAX_def ent_name_def Let_def)
    moreover have "read_to d dr (Suc j) s s2" unfolding read_to_def s2_def using r(2,3) by blast
    ultimately show ?thesis using True j Suc_leI by (metis le_refl not_less)
  next
    case False
    have step: "dir_readdir d e s = dir_readdir d (ent ?c j) s2"
      using r(1) j False Suc.prems(1,4)
      by (subst dir_readdir.simps) (simp add: s2 entry_size_def iu live_def Let_def)
    have c2: "icontent s2 i = ?c" using r(3) by (simp add: s2_def)
    have "dirs s2 d = Some (dr\<lparr>dpos := 20 * int (Suc j)\<rparr>)" "dir_in s2 (dinode (dr\<lparr>dpos := 20 * int (Suc j)\<rparr>)) i"
      using dir_in_io [OF Suc.prems(2) r(2)] by (simp_all add: s2_def dir_in_def)
    moreover have "n = ents (icontent s2 i) - Suc j" using Suc.hyps(2) c2 by simp
    ultimately have "\<exists>k s'. read_to d (dr\<lparr>dpos := 20 * int (Suc j)\<rparr>) k s2 s' \<and> k \<le> ents (icontent s2 i) \<and>
      ((\<exists>m\<ge>Suc j. live (icontent s2 i) m \<and> (\<forall>m'. Suc j \<le> m' \<and> m' < m \<longrightarrow> \<not> live (icontent s2 i) m') \<and> k = Suc m \<and>
        dir_readdir d (ent ?c j) s2 = Some (Some (take 14 (ent_name (icontent s2 i) m)), s')) \<or>
       ((\<forall>m\<ge>Suc j. \<not> live (icontent s2 i) m) \<and> dir_readdir d (ent ?c j) s2 = Some (None, s')))"
      using j c2 by (intro Suc.hyps(1)) simp_all
    with c2
    obtain k s' where k: "read_to d (dr\<lparr>dpos := 20 * int (Suc j)\<rparr>) k s2 s'" "k \<le> ents ?c"
      "(\<exists>m\<ge>Suc j. live ?c m \<and> (\<forall>m'. Suc j \<le> m' \<and> m' < m \<longrightarrow> \<not> live ?c m') \<and> k = Suc m \<and>
        dir_readdir d (ent ?c j) s2 = Some (Some (take 14 (ent_name ?c m)), s')) \<or>
       ((\<forall>m\<ge>Suc j. \<not> live ?c m) \<and> dir_readdir d (ent ?c j) s2 = Some (None, s'))"
      by metis
    have rt: "read_to d dr k s s'" using read_to_step [OF r(2,3) k(1) [unfolded s2_def]] .
    have ext: "(\<forall>m'. Suc j \<le> m' \<and> m' < m \<longrightarrow> \<not> live ?c m') \<longrightarrow> (\<forall>m'. j \<le> m' \<and> m' < m \<longrightarrow> \<not> live ?c m')"
      "(\<forall>m\<ge>Suc j. \<not> live ?c m) \<longrightarrow> (\<forall>m\<ge>j. \<not> live ?c m)" for m
      using False by (metis Suc_leI le_neq_implies_less)+
    from k(3) show ?thesis
      unfolding step using rt k(2) ext by (metis Suc_leD)
  qed
qed

section \<open>Property\<close>

text \<open>
  C13. A directory is a finite map from names to inode sectors. With memory available and
  distinct names, \<open>dir_lookup\<close> opens the inode of the name the map gives, or finds nothing;
  \<open>dir_add\<close> reports success exactly for a name of 1 to 14 bytes that is not there while an entry is
  free, updates the map at that name, keeps the names distinct, and changes no sector outside the
  directory; \<open>dir_readdir\<close> returns the next name and moves past it, or reports the end.
\<close>

theorem directory_is_map:
  assumes "dirs s d = Some dr" "dir_in s (dinode dr) i" "deny_write_cnt i = 0" "length junk = 20"
    "dir_ok (icontent s i)" "0 \<notin> set name" "dpos dr = 20 * int j" "j \<le> ents (icontent s i)"
  shows "(\<exists>s'. io_only s s' \<and> fs_get s' = fs_get s \<and>
      dir_lookup d name junk s =
        (case dir_map (icontent s i) name of None \<Rightarrow> Some (0, s') | Some sec \<Rightarrow> inode_open sec s')) \<and>
    (\<exists>r s'. dir_add d name sec junk s = Some (r, s') \<and> only_in i s s' \<and> dir_ok (icontent s' i) \<and>
      (r \<longleftrightarrow> name_ok name \<and> dir_map (icontent s i) name = None \<and> (\<exists>k<ents (icontent s i). \<not> live (icontent s i) k)) \<and>
      dir_map (icontent s' i) = (if r then (dir_map (icontent s i))(name \<mapsto> sec) else dir_map (icontent s i))) \<and>
    (\<exists>k s'. read_to d dr k s s' \<and> k \<le> ents (icontent s i) \<and>
      ((\<exists>m\<ge>j. live (icontent s i) m \<and> (\<forall>m'. j \<le> m' \<and> m' < m \<longrightarrow> \<not> live (icontent s i) m') \<and> k = Suc m \<and>
        dir_readdir d junk s = Some (Some (take 14 (ent_name (icontent s i) m)), s')) \<or>
       ((\<forall>m\<ge>j. \<not> live (icontent s i) m) \<and> dir_readdir d junk s = Some (None, s'))))"
  using dir_lookup_ok [OF assms(1,2,4,5)] dir_add_ok [OF assms(1-6)] dir_readdir_ok [OF assms(1,2,4,7,8)]
  by blast

definition demo_dir :: fsys where
  "demo_dir = demo_fs\<lparr>dirs := [1 \<mapsto> \<lparr>dinode = 1, dpos = 0\<rparr>]\<rparr>"

lemma demo_dir_content: "icontent demo_dir demo_inode = replicate 600 0"
proof (rule nth_equalityI)
  have g: "fs_get demo_dir x = replicate 512 0" for x
    using demo_drive_ok(3) by (simp add: demo_dir_def demo_fs_def)
  have l: "dlength (data demo_inode) = 600" by (simp add: demo_inode_def)
  then show "length (icontent demo_dir demo_inode) = length (replicate 600 (0 :: u8))" by simp
  fix k assume "k < length (icontent demo_dir demo_inode)"
  then have "k < 600" by (simp add: l)
  then show "icontent demo_dir demo_inode ! k = replicate 600 0 ! k" using g by (simp add: nth_content l)
qed

theorem directory_is_map_witness:
  "\<exists>s'. dir_add 1 [97, 98] 7 (replicate 20 0) demo_dir = Some (True, s') \<and>
     dir_map (icontent s' demo_inode) [97, 98] = Some 7"
proof -
  have "inodes demo_fs 1 = Some demo_inode" "fs_dev_ok demo_fs" "ext_ok (fs_size demo_fs) (data demo_inode)"
    "\<forall>n. fmem_ok demo_fs n"
    using demo_drive_ok by (simp_all add: demo_fs_def ext_ok_def demo_inode_def)
  then have d: "dir_in demo_dir 1 demo_inode" by (simp add: dir_in_def demo_dir_def)
  have n: "\<not> live (icontent demo_dir demo_inode) k" for k
    by (simp add: live_def ent_def demo_dir_content ents_def nth_slice)
  have e: "ents (icontent demo_dir demo_inode) = 30" by (simp add: ents_def demo_dir_content)
  have "dir_ok (icontent demo_dir demo_inode)" "deny_write_cnt demo_inode = 0"
    "dirs demo_dir 1 = Some \<lparr>dinode = 1, dpos = 0\<rparr>"
    using n by (simp_all add: dir_ok_def demo_inode_def demo_dir_def)
  then have p: "\<exists>r s'. dir_add 1 [97, 98] 7 (replicate 20 0) demo_dir = Some (r, s') \<and>
      (r \<longleftrightarrow> name_ok [97, 98] \<and> dir_map (icontent demo_dir demo_inode) [97, 98] = None \<and>
        (\<exists>k<ents (icontent demo_dir demo_inode). \<not> live (icontent demo_dir demo_inode) k)) \<and>
      dir_map (icontent s' demo_inode) = (if r then (dir_map (icontent demo_dir demo_inode))([97, 98] \<mapsto> 7)
        else dir_map (icontent demo_dir demo_inode))"
    using directory_is_map [of demo_dir 1 "\<lparr>dinode = 1, dpos = 0\<rparr>" demo_inode "replicate 20 0" "[97, 98]" 0 7] d
    by auto
  have "dir_map (icontent demo_dir demo_inode) [97, 98] = None" using n by (simp add: dir_map_None)
  moreover have "\<exists>k<ents (icontent demo_dir demo_inode). \<not> live (icontent demo_dir demo_inode) k"
    using n e by (intro exI [of _ 0]) simp
  ultimately show ?thesis using p by (auto simp: name_ok_def)
qed

end
