(* ===== verification/Fs_Core.thy ===== *)
theory Fs_Core
  imports Directory_Spec
begin

text \<open>
  The invariant of a running file system and the operations that allocate and release sectors:
  the free map of \<open>filesys/free-map.c\<close> with the disk, and \<open>inode_create\<close>, \<open>inode_open\<close> and \<open>inode_close\<close>.
\<close>

section \<open>Inodes on the disk\<close>

text \<open>\<open>g\<close> is the contents of the device: the inode in a sector, and the sectors it owns.\<close>

definition dino :: "(u32 \<Rightarrow> u8 list) \<Rightarrow> u32 \<Rightarrow> inode_disk" where
  "dino g x = disk_inode (g x)"

definition area :: "(u32 \<Rightarrow> u8 list) \<Rightarrow> u32 \<Rightarrow> u32 set" where
  "area g x = insert x (secs (dino g x))"

definition fcontent :: "(u32 \<Rightarrow> u8 list) \<Rightarrow> u32 \<Rightarrow> u8 list" where
  "fcontent g x = content g (dino g x)"

definition disk_inv :: "(u32 \<Rightarrow> u8 list) \<Rightarrow> nat \<Rightarrow> nat set \<Rightarrow> u32 set \<Rightarrow> bool" where
  "disk_inv g n U X \<longleftrightarrow>
     (\<forall>x\<in>X. ext_ok n (dino g x) \<and> x \<notin> secs (dino g x) \<and> unat ` area g x \<subseteq> U) \<and>
     (\<forall>x\<in>X. \<forall>y\<in>X. x \<noteq> y \<longrightarrow> area g x \<inter> area g y = {})"

lemma disk_invD:
  assumes "disk_inv g n U X" "x \<in> X"
  shows "ext_ok n (dino g x)" "x \<notin> secs (dino g x)" "unat ` area g x \<subseteq> U" "unat x \<in> U"
    "y \<in> X \<Longrightarrow> x \<noteq> y \<Longrightarrow> area g x \<inter> area g y = {}"
  using assms unfolding disk_inv_def area_def by blast+

lemma disk_inv_mono: "disk_inv g n U X \<Longrightarrow> Y \<subseteq> X \<Longrightarrow> U \<subseteq> V \<Longrightarrow> disk_inv g n V Y"
  unfolding disk_inv_def by (meson subset_eq)

text \<open>A change within the data of one inode keeps every inode, and the contents of the others.\<close>

lemma frame_dino:
  assumes "disk_inv g n U X" "x0 \<in> X" "\<forall>y. y \<notin> secs (dino g x0) \<longrightarrow> g' y = g y" "x \<in> X"
  shows "dino g' x = dino g x" "area g' x = area g x" "x \<noteq> x0 \<Longrightarrow> fcontent g' x = fcontent g x"
proof -
  have "x \<notin> secs (dino g x0)"
    using disk_invD(2) [OF assms(1,2)] disk_invD(5) [OF assms(1,2,4)] by (auto simp: area_def)
  then show d: "dino g' x = dino g x" using assms(3) by (simp add: dino_def)
  then show "area g' x = area g x" by (simp add: area_def)
  assume "x \<noteq> x0"
  then have "secs (dino g x) \<inter> secs (dino g x0) = {}"
    using disk_invD(5) [OF assms(1,2,4)] by (auto simp: area_def)
  then show "fcontent g' x = fcontent g x" unfolding fcontent_def d using assms(3) by (intro content_cong) blast
qed

lemma frame_disk_inv:
  assumes "disk_inv g n U X" "x0 \<in> X" "\<forall>y. y \<notin> secs (dino g x0) \<longrightarrow> g' y = g y"
  shows "disk_inv g' n U X"
proof -
  note f = frame_dino [OF assms]
  show ?thesis using assms(1) unfolding disk_inv_def using f(1,2) by auto
qed

text \<open>A change outside all areas changes nothing.\<close>

lemma frame_outside:
  assumes "\<forall>x\<in>X. \<forall>y\<in>area g x. g' y = g y" "x \<in> X"
  shows "dino g' x = dino g x" "area g' x = area g x" "fcontent g' x = fcontent g x"
proof -
  show d: "dino g' x = dino g x" using assms by (simp add: dino_def area_def)
  then show "area g' x = area g x" by (simp add: area_def)
  show "fcontent g' x = fcontent g x"
    unfolding fcontent_def d using assms by (intro content_cong) (simp add: area_def)
qed

lemma frame_outside_inv:
  assumes "disk_inv g n U X" "\<forall>x\<in>X. \<forall>y\<in>area g x. g' y = g y"
  shows "disk_inv g' n U X"
proof -
  note f = frame_outside(1,2) [OF assms(2)]
  note k = disk_invD [OF assms(1)]
  show ?thesis unfolding disk_inv_def using k by (intro conjI ballI impI) (simp_all add: f)
qed

lemma disk_inv_insert:
  assumes "disk_inv g n U X" "x \<notin> X" "ext_ok n (dino g x)" "x \<notin> secs (dino g x)" "unat ` area g x \<subseteq> U"
    "\<And>y. y \<in> X \<Longrightarrow> area g x \<inter> area g y = {}"
  shows "disk_inv g n U (insert x X)"
  using assms unfolding disk_inv_def by (auto simp: Int_commute)

section \<open>The invariant\<close>

abbreviation root_content :: "fsys \<Rightarrow> u8 list" where
  "root_content s \<equiv> fcontent (fs_get s) 1"

definition dir_secs :: "fsys \<Rightarrow> u32 set" where
  "dir_secs s = ran (dir_map (root_content s))"

definition open_secs :: "fsys \<Rightarrow> u32 set" where
  "open_secs s = {sector i | i. i \<in> ran (inodes s)}"

definition owned :: "fsys \<Rightarrow> u32 set" where
  "owned s = {0, 1} \<union> dir_secs s \<union> open_secs s"

definition refs :: "fsys \<Rightarrow> nat \<Rightarrow> nat" where
  "refs s ino = card {f. \<exists>fl. files s f = Some fl \<and> finode fl = ino} + card {d. \<exists>dr. dirs s d = Some dr \<and> dinode dr = ino}"

definition denies :: "fsys \<Rightarrow> nat \<Rightarrow> nat" where
  "denies s ino = card {f. \<exists>fl. files s f = Some fl \<and> finode fl = ino \<and> deny_write fl}"

definition disk_ok :: "fsys \<Rightarrow> bool" where
  "disk_ok s \<longleftrightarrow> fs_dev_ok s \<and> (\<forall>n. fmem_ok s n) \<and> bm_wf (free_map s) \<and> bit_cnt (free_map s) = fs_size s \<and>
     disk_inv (fs_get s) (fs_size s) (bm_used (free_map s)) (owned s) \<and>
     byte_cnt (fs_size s) \<le> nat (dlength (dino (fs_get s) 0))"

definition root_ok :: "fsys \<Rightarrow> bool" where
  "root_ok s \<longleftrightarrow> dir_ok (root_content s) \<and> inj_on (dir_map (root_content s)) (dom (dir_map (root_content s))) \<and>
     0 \<notin> dir_secs s \<and> 1 \<notin> dir_secs s"

text \<open>\<open>R ino\<close> is the number of references to the inode that are held by functions under way.\<close>

definition inode_ok :: "fsys \<Rightarrow> (nat \<Rightarrow> nat) \<Rightarrow> nat \<Rightarrow> inode \<Rightarrow> bool" where
  "inode_ok s R ino i \<longleftrightarrow> 0 < ino \<and> ino \<le> fallocs s \<and> data i = dino (fs_get s) (sector i) \<and>
     (removed i \<longleftrightarrow> sector i \<notin> {0, 1} \<union> dir_secs s) \<and> open_cnt i = int (refs s ino + R ino) \<and> 0 < open_cnt i \<and>
     deny_write_cnt i = int (denies s ino)"

definition table_ok :: "fsys \<Rightarrow> (nat \<Rightarrow> nat) \<Rightarrow> bool" where
  "table_ok s R \<longleftrightarrow> distinct (open_inodes s) \<and> set (open_inodes s) = dom (inodes s) \<and>
     (\<forall>ino i. inodes s ino = Some i \<longrightarrow> inode_ok s R ino i) \<and>
     (\<forall>ino ino' i i'. inodes s ino = Some i \<and> inodes s ino' = Some i' \<and> sector i = sector i' \<longrightarrow> ino = ino') \<and>
     (\<forall>ino. 0 < R ino \<longrightarrow> inodes s ino \<noteq> None)"

definition file_ok :: "fsys \<Rightarrow> nat \<Rightarrow> open_file \<Rightarrow> bool" where
  "file_ok s f fl \<longleftrightarrow> 0 < f \<and> f \<le> fallocs s \<and> 0 \<le> pos fl \<and> (\<exists>i. inodes s (finode fl) = Some i \<and>
     (if f = free_map_file s then sector i = 0 \<and> \<not> deny_write fl else sector i \<noteq> 0 \<and> sector i \<noteq> 1))"

definition handles_ok :: "fsys \<Rightarrow> bool" where
  "handles_ok s \<longleftrightarrow> (\<forall>f fl. files s f = Some fl \<longrightarrow> file_ok s f fl) \<and> files s (free_map_file s) \<noteq> None \<and>
     (\<forall>d dr. dirs s d = Some dr \<longrightarrow> 0 < d \<and> d \<le> fallocs s \<and> (\<exists>i. inodes s (dinode dr) = Some i \<and> sector i = 1))"

definition core :: "fsys \<Rightarrow> (nat \<Rightarrow> nat) \<Rightarrow> bool" where
  "core s R \<longleftrightarrow> disk_ok s \<and> root_ok s \<and> table_ok s R \<and> handles_ok s"

definition fs_inv :: "fsys \<Rightarrow> bool" where
  "fs_inv s \<longleftrightarrow> core s (\<lambda>_. 0)"

lemma coreD: "core s R \<Longrightarrow> disk_ok s" "core s R \<Longrightarrow> root_ok s" "core s R \<Longrightarrow> table_ok s R" "core s R \<Longrightarrow> handles_ok s"
  by (simp_all add: core_def)

lemma owned_base [simp]: "0 \<in> owned s" "1 \<in> owned s"
  by (simp_all add: owned_def)

lemma open_owned: "inodes s ino = Some i \<Longrightarrow> sector i \<in> owned s"
  by (auto simp: owned_def open_secs_def ran_def)

lemma open_secsI: "inodes s ino = Some i \<Longrightarrow> sector i \<in> open_secs s"
  by (auto simp: open_secs_def ran_def)

lemma table_inode: "table_ok s R \<Longrightarrow> inodes s ino = Some i \<Longrightarrow> inode_ok s R ino i"
  by (simp add: table_ok_def)

lemma disk_okD:
  assumes "disk_ok s"
  shows "fs_dev_ok s" "fmem_ok s n" "bm_wf (free_map s)" "bit_cnt (free_map s) = fs_size s"
    "disk_inv (fs_get s) (fs_size s) (bm_used (free_map s)) (owned s)"
    "byte_cnt (fs_size s) \<le> nat (dlength (dino (fs_get s) 0))"
  using assms by (simp_all add: disk_ok_def)

text \<open>
  A state that differs in the contents of the data of one inode other than the root, in the free map,
  where it may only grow, and in the memory used.
\<close>

definition grown :: "u32 \<Rightarrow> fsys \<Rightarrow> fsys \<Rightarrow> bool" where
  "grown x0 s s' \<longleftrightarrow> (\<exists>d n b. s' = s\<lparr>devs := d, fallocs := n, free_map := b\<rparr> \<and> fallocs s \<le> n \<and>
     bm_wf b \<and> bit_cnt b = bit_cnt (free_map s) \<and> bm_used (free_map s) \<subseteq> bm_used b) \<and>
     fs_dev_ok s' \<and> fs_size s' = fs_size s \<and> (\<forall>x. x \<notin> secs (dino (fs_get s) x0) \<longrightarrow> fs_get s' x = fs_get s x)"

lemma grownD:
  assumes "grown x0 s s'"
  shows "inodes s' = inodes s" "open_inodes s' = open_inodes s" "files s' = files s" "dirs s' = dirs s"
    "free_map_file s' = free_map_file s" "fs_device s' = fs_device s" "fmem_ok s' = fmem_ok s"
    "fs_dev_ok s'" "fs_size s' = fs_size s" "fallocs s \<le> fallocs s'" "bm_wf (free_map s')"
    "bit_cnt (free_map s') = bit_cnt (free_map s)" "bm_used (free_map s) \<subseteq> bm_used (free_map s')"
    "\<forall>x. x \<notin> secs (dino (fs_get s) x0) \<longrightarrow> fs_get s' x = fs_get s x"
  using assms by (auto simp: grown_def)

text \<open>The parts of the invariant that do not look at the contents of files.\<close>

lemma views_cong:
  assumes "inodes s' = inodes s" "open_inodes s' = open_inodes s" "files s' = files s" "dirs s' = dirs s"
    "free_map_file s' = free_map_file s" "fallocs s \<le> fallocs s'" "root_content s' = root_content s"
    "\<And>x. x \<in> open_secs s \<Longrightarrow> dino (fs_get s') x = dino (fs_get s) x"
  shows "dir_secs s' = dir_secs s" "owned s' = owned s" "root_ok s' = root_ok s"
    "table_ok s R \<Longrightarrow> table_ok s' R" "handles_ok s \<Longrightarrow> handles_ok s'"
proof -
  show d: "dir_secs s' = dir_secs s" by (simp add: dir_secs_def assms(7))
  have o: "open_secs s' = open_secs s" by (simp add: open_secs_def assms(1))
  show "owned s' = owned s" by (simp add: owned_def d o)
  show "root_ok s' = root_ok s" by (simp add: root_ok_def d assms(7))
  have r: "refs s' = refs s" "denies s' = denies s" by (simp_all add: refs_def denies_def fun_eq_iff assms(3,4))
  have i: "inode_ok s' R ino i" if "inode_ok s R ino i" "inodes s ino = Some i" for ino i
    using that assms(6) assms(8) [OF open_secsI [OF that(2)]] by (simp add: inode_ok_def d r)
  show "table_ok s R \<Longrightarrow> table_ok s' R" using i unfolding table_ok_def assms(1,2) by blast
  have "file_ok s' f fl" if "file_ok s f fl" for f fl
    using that assms(6) by (auto simp: file_ok_def assms(1,5))
  then show "handles_ok s \<Longrightarrow> handles_ok s'"
    unfolding handles_ok_def assms(1,3,4,5) using assms(6) by (meson le_trans)
qed

lemma grown_core:
  assumes c: "core s R" and g: "grown x0 s s'" and x0: "x0 \<in> owned s" "x0 \<noteq> 1"
  shows "core s' R" "owned s' = owned s" "dir_secs s' = dir_secs s" "root_content s' = root_content s"
    "x \<in> owned s \<Longrightarrow> dino (fs_get s') x = dino (fs_get s) x"
    "x \<in> owned s \<Longrightarrow> x \<noteq> x0 \<Longrightarrow> fcontent (fs_get s') x = fcontent (fs_get s) x"
proof -
  note k = disk_okD [OF coreD(1) [OF c]]
  note f = frame_dino [OF k(5) x0(1) grownD(14) [OF g]]
  show rc: "root_content s' = root_content s" using f(3) [of 1] x0(2) by simp
  show d: "x \<in> owned s \<Longrightarrow> dino (fs_get s') x = dino (fs_get s) x" for x using f(1) by blast
  show "x \<in> owned s \<Longrightarrow> x \<noteq> x0 \<Longrightarrow> fcontent (fs_get s') x = fcontent (fs_get s) x" using f(3) by blast
  have od: "x \<in> open_secs s \<Longrightarrow> dino (fs_get s') x = dino (fs_get s) x" for x using d by (auto simp: owned_def)
  note v = views_cong [OF grownD(1-5,10) [OF g] rc od, simplified]
  show "owned s' = owned s" "dir_secs s' = dir_secs s" by (fact v)+
  have "disk_inv (fs_get s') (fs_size s') (bm_used (free_map s')) (owned s')"
    using disk_inv_mono [OF frame_disk_inv [OF k(5) x0(1) grownD(14) [OF g]] subset_refl grownD(13) [OF g]]
    by (simp add: v(2) grownD(9) [OF g])
  then have "disk_ok s'"
    using k(2,4,6) d [of 0] grownD [OF g] unfolding disk_ok_def by (simp; blast)
  then show "core s' R" using c v by (simp add: core_def)
qed

lemma io_grown:
  assumes "io_only s s'" "bm_wf (free_map s)"
    "\<And>x. x \<notin> secs (dino (fs_get s) x0) \<Longrightarrow> fs_get s' x = fs_get s x"
  shows "grown x0 s s'"
proof -
  obtain d n where "s' = s\<lparr>devs := d, fallocs := n\<rparr>" "fallocs s \<le> n" using assms(1) by (auto simp: io_only_def)
  then show ?thesis unfolding grown_def using assms(2,3) io_onlyD(9,10) [OF assms(1)]
    by (intro conjI exI [of _ d] exI [of _ n] exI [of _ "free_map s"]) auto
qed

section \<open>The free map on the disk\<close>

text \<open>The free map file is open and long enough for a bitmap of \<open>n\<close> bits.\<close>

definition map_file :: "fsys \<Rightarrow> inode \<Rightarrow> bool" where
  "map_file s i \<longleftrightarrow> fs_dev_ok s \<and> (\<forall>n. fmem_ok s n) \<and> free_map_file s \<noteq> 0 \<and>
     (\<exists>fl. files s (free_map_file s) = Some fl \<and> inodes s (finode fl) = Some i) \<and>
     ext_ok (fs_size s) (data i) \<and> deny_write_cnt i = 0 \<and> byte_cnt (fs_size s) \<le> nat (dlength (data i))"

lemma length_bitmap_bytes: "bm_wf b \<Longrightarrow> length (bitmap_bytes b) = byte_cnt (bit_cnt b)"
proof -
  assume b: "bm_wf b"
  then have "wrap32 (4 * ((bit_cnt b + 31) div 32)) = 4 * ((bit_cnt b + 31) div 32)"
    by (intro wrap32_less) (simp add: bm_wf_def div_less_iff_less_mult)
  then show ?thesis using b by (simp add: bitmap_bytes_def length_concat sum_list_triv bm_wf_def byte_cnt_def comp_def)
qed

lemma bitmap_write_ok:
  assumes "map_file s i" "bm_wf b" "bit_cnt b = fs_size s"
  shows "\<exists>s'. bitmap_write b (free_map_file s) s = Some (True, s') \<and> io_only s s' \<and>
    (\<forall>x. x \<notin> secs (data i) \<longrightarrow> fs_get s' x = fs_get s x) \<and>
    content (fs_get s') (data i) = put_at (content (fs_get s) (data i)) 0 (bitmap_bytes b)"
proof -
  obtain fl where fl: "files s (free_map_file s) = Some fl" "inodes s (finode fl) = Some i"
    using assms(1) by (auto simp: map_file_def)
  let ?sz = "int (byte_cnt (bit_cnt b))"
  have l: "nat ?sz \<le> length (bitmap_bytes b)" using length_bitmap_bytes [OF assms(2)] by simp
  obtain k s' where k: "inode_write_at (finode fl) (bitmap_bytes b) ?sz 0 s = Some (int k, s')" "io_only s s'"
    "\<forall>x. x \<notin> secs (data i) \<longrightarrow> fs_get s' x = fs_get s x" "k = room (data i) ?sz 0"
    "content (fs_get s') (data i) = put_at (content (fs_get s) (data i)) 0 (slice (bitmap_bytes b) 0 k)"
    using inode_write_at_ok [of s "finode fl" i 0 ?sz "bitmap_bytes b"] fl(2) l assms(1) by (auto simp: map_file_def)
  have "k = byte_cnt (bit_cnt b)" using assms(1,3) k(4) by (simp add: room_def map_file_def min_def) linarith
  moreover from this have "slice (bitmap_bytes b) 0 k = bitmap_bytes b"
    using length_bitmap_bytes [OF assms(2)] by (simp add: slice_def)
  ultimately show ?thesis using k fl by (auto simp: bitmap_write_def file_write_at_def)
qed

lemma core_map_file:
  assumes "core s R"
  shows "\<exists>i. map_file s i \<and> sector i = 0 \<and> data i = dino (fs_get s) 0"
proof -
  note k = disk_okD [OF coreD(1) [OF assms]]
  have h: "files s (free_map_file s) \<noteq> None" "\<forall>f fl. files s f = Some fl \<longrightarrow> file_ok s f fl"
    using coreD(4) [OF assms] by (simp_all add: handles_ok_def)
  then obtain fl where fl: "files s (free_map_file s) = Some fl" by blast
  then have fo: "file_ok s (free_map_file s) fl" using h(2) by blast
  then obtain i where i: "inodes s (finode fl) = Some i" "sector i = 0" "free_map_file s \<noteq> 0"
    by (auto simp: file_ok_def)
  have io: "inode_ok s R (finode fl) i" by (rule table_inode [OF coreD(3) [OF assms] i(1)])
  then have d: "data i = dino (fs_get s) 0" "deny_write_cnt i = int (denies s (finode fl))"
    using i(2) by (simp_all add: inode_ok_def)
  have "\<not> (\<exists>g fl'. files s g = Some fl' \<and> finode fl' = finode fl \<and> deny_write fl')"
  proof (intro notI, elim exE conjE)
    fix g fl' assume g: "files s g = Some fl'" "finode fl' = finode fl" "deny_write fl'"
    then have "file_ok s g fl'" using h(2) by blast
    then show False using g i by (auto simp: file_ok_def split: if_splits)
  qed
  then have none: "{g. \<exists>fl'. files s g = Some fl' \<and> finode fl' = finode fl \<and> deny_write fl'} = {}" by blast
  have "denies s (finode fl) = 0" unfolding denies_def none by simp
  then have "deny_write_cnt i = 0" using d by simp
  then have "map_file s i"
    using k(1,2,6) i fl d(1) disk_invD(1) [OF k(5), of 0] by (simp add: map_file_def)
  then show ?thesis using i(2) d(1) by blast
qed

text \<open>Allocation.\<close>

lemma grown_map:
  assumes "disk_ok s" "bm_wf b" "bit_cnt b = bit_cnt (free_map s)" "bm_used (free_map s) \<subseteq> bm_used b"
  shows "grown x0 s (s\<lparr>free_map := b\<rparr>)"
  unfolding grown_def using assms disk_okD(1) [OF assms(1)]
  by (intro conjI exI [of _ "devs s"] exI [of _ "fallocs s"] exI [of _ b]) simp_all

lemma grown_trans:
  assumes "grown x0 s s1" "grown x0 s1 s2" "dino (fs_get s1) x0 = dino (fs_get s) x0"
  shows "grown x0 s s2"
proof -
  obtain d1 n1 b1 where s1: "s1 = s\<lparr>devs := d1, fallocs := n1, free_map := b1\<rparr>" "fallocs s \<le> n1"
    "bit_cnt b1 = bit_cnt (free_map s)" "bm_used (free_map s) \<subseteq> bm_used b1"
    using assms(1) by (auto simp: grown_def)
  obtain d2 n2 b2 where s2: "s2 = s1\<lparr>devs := d2, fallocs := n2, free_map := b2\<rparr>" "fallocs s1 \<le> n2" "bm_wf b2"
    "bit_cnt b2 = bit_cnt (free_map s1)" "bm_used (free_map s1) \<subseteq> bm_used b2"
    using assms(2) by (auto simp: grown_def)
  have "s2 = s\<lparr>devs := d2, fallocs := n2, free_map := b2\<rparr>" "fallocs s \<le> n2" "bit_cnt b2 = bit_cnt (free_map s)"
    "bm_used (free_map s) \<subseteq> bm_used b2"
    using s1 s2 by auto
  moreover have "fs_get s2 x = fs_get s x" if "x \<notin> secs (dino (fs_get s) x0)" for x
    using grownD(14) [OF assms(2)] grownD(14) [OF assms(1)] that assms(3) by simp
  ultimately show ?thesis
    unfolding grown_def using s2(3) grownD(8,9) [OF assms(2)] grownD(9) [OF assms(1)] by auto
qed

definition free_run :: "fsys \<Rightarrow> nat set \<Rightarrow> nat \<Rightarrow> nat \<Rightarrow> bool" where
  "free_run s U cnt k \<longleftrightarrow> k + cnt \<le> fs_size s \<and> {k..<k + cnt} \<inter> U = {}"

lemma bm_alloc_first:
  assumes "bm_wf b" "bm_alloc b n = Some (Some k, b')" "j + n \<le> bit_cnt b" "{j..<j + n} \<inter> bm_used b = {}"
  shows "k \<le> j"
proof -
  have r: "run (bm_abs b) j n False" using assms(3,4) by (simp add: run_False_used)
  have "bitmap_scan_and_flip b 0 n False = Some (k, b')" "k \<noteq> BITMAP_ERROR"
    using assms(2) by (auto simp: bm_alloc_def split: if_splits)
  then show ?thesis using bitmap_scan_and_flip_abs [OF assms(1) le0, of n False] r by auto
qed

lemma free_map_allocate_ok:
  assumes c: "core s R"
  shows "(\<exists>sec s'. free_map_allocate cnt s = Some (Some sec, s') \<and> grown 0 s s' \<and>
       unat sec + cnt \<le> fs_size s \<and> {unat sec..<unat sec + cnt} \<inter> bm_used (free_map s) = {} \<and>
       bm_used (free_map s') = bm_used (free_map s) \<union> {unat sec..<unat sec + cnt} \<and>
       (\<forall>j. free_run s (bm_used (free_map s)) cnt j \<longrightarrow> unat sec \<le> j)) \<or>
     free_map_allocate cnt s = Some (None, s) \<and> (\<forall>j. \<not> free_run s (bm_used (free_map s)) cnt j)"
proof -
  note k = disk_okD [OF coreD(1) [OF c]]
  let ?b = "free_map s"
  have sz: "fs_size s \<le> 4294967264" using k(3,4) by (simp add: bm_wf_def)
  from bm_alloc_cases [OF k(3), of cnt] show ?thesis
  proof (elim disjE exE conjE)
    fix j b'
    assume a: "bm_alloc ?b cnt = Some (Some j, b')" "bm_wf b'" "bit_cnt b' = bit_cnt ?b" "j + cnt \<le> bit_cnt ?b"
      "{j..<j + cnt} \<inter> bm_used ?b = {}" "bm_used b' = bm_used ?b \<union> {j..<j + cnt}"
    then have scan: "bitmap_scan_and_flip ?b 0 cnt False = Some (j, b')" "j \<noteq> BITMAP_ERROR"
      by (auto simp: bm_alloc_def split: if_splits)
    have j: "unat (word_of_nat j :: u32) = j" using a(4) k(4) sz by (simp add: unat_word_of_nat_32)
    define s1 where "s1 = s\<lparr>free_map := b'\<rparr>"
    have g1: "grown 0 s s1" unfolding s1_def using a by (intro grown_map [OF coreD(1) [OF c]]) auto
    note c1 = grown_core [OF c g1 owned_base(1), simplified]
    obtain i where i: "map_file s1 i" "data i = dino (fs_get s1) 0" using core_map_file [OF c1(1)] by blast
    obtain s2 where s2: "bitmap_write b' (free_map_file s1) s1 = Some (True, s2)" "io_only s1 s2"
      "\<forall>x. x \<notin> secs (dino (fs_get s1) 0) \<longrightarrow> fs_get s2 x = fs_get s1 x"
      using bitmap_write_ok [OF i(1) a(2)] i(2) a(3) k(4) by (auto simp: s1_def)
    have g2: "grown 0 s1 s2" using s2 a(2) by (intro io_grown) (simp_all add: s1_def)
    have g: "grown 0 s s2" by (rule grown_trans [OF g1 g2]) (simp add: s1_def)
    have fm2: "free_map s2 = b'" using io_onlyD(5) [OF s2(2)] by (simp add: s1_def)
    have "free_map_allocate cnt s = Some (Some (word_of_nat j), s2)"
      using scan s2(1) i(1) by (simp add: free_map_allocate_def map_file_def s1_def [symmetric])
        (simp add: s1_def)
    moreover have "\<forall>i. free_run s (bm_used ?b) cnt i \<longrightarrow> j \<le> i"
      using bm_alloc_first [OF k(3) a(1)] k(4) by (simp add: free_run_def)
    ultimately show ?thesis using g a(4-6) j k(4) fm2 by auto
  next
    assume n: "bm_alloc ?b cnt = Some (None, ?b)" "\<forall>i. i + cnt \<le> bit_cnt ?b \<longrightarrow> {i..<i + cnt} \<inter> bm_used ?b \<noteq> {}"
    then have "bitmap_scan_and_flip ?b 0 cnt False = Some (BITMAP_ERROR, ?b)"
      by (auto simp: bm_alloc_def split: if_splits)
    then show ?thesis using n(2) k(4) by (simp add: free_map_allocate_def free_run_def)
  qed
qed

lemma run_True_used: "run (bm_abs b) k n True \<longleftrightarrow> k + n \<le> bit_cnt b \<and> {k..<k + n} \<subseteq> bm_used b"
  by (auto simp: run_def bm_used_def)

lemma free_map_release_ok:
  assumes "map_file s i" "bm_wf (free_map s)" "bit_cnt (free_map s) = fs_size s" "unat sec + cnt \<le> fs_size s"
    "{unat sec..<unat sec + cnt} \<subseteq> bm_used (free_map s)"
  shows "\<exists>s' b. free_map_release sec cnt s = Some s' \<and> bm_wf b \<and> bit_cnt b = bit_cnt (free_map s) \<and>
    bm_used b = bm_used (free_map s) - {unat sec..<unat sec + cnt} \<and> io_only (s\<lparr>free_map := b\<rparr>) s' \<and>
    (\<forall>x. x \<notin> secs (data i) \<longrightarrow> fs_get s' x = fs_get s x)"
proof -
  have le: "unat sec + cnt \<le> bit_cnt (free_map s)" using assms(3,4) by simp
  have all: "bitmap_all (free_map s) (unat sec) cnt = Some True"
    using bitmap_contains_abs [OF assms(2) le, of False] assms(3-5) by (simp add: bitmap_all_def run_True_used)
  obtain b where b: "bitmap_set_multiple (free_map s) (unat sec) cnt False = Some b" "bm_wf b"
    "bit_cnt b = bit_cnt (free_map s)" "bm_used b = bm_used (free_map s) - {unat sec..<unat sec + cnt}"
    using bm_release_ok [OF assms(2) le] by (auto simp: bm_release_def)
  have "map_file (s\<lparr>free_map := b\<rparr>) i" using assms(1) by (simp add: map_file_def)
  then obtain s' where "bitmap_write b (free_map_file s) (s\<lparr>free_map := b\<rparr>) = Some (True, s')" "io_only (s\<lparr>free_map := b\<rparr>) s'"
    "\<forall>x. x \<notin> secs (data i) \<longrightarrow> fs_get s' x = fs_get s x"
    using bitmap_write_ok [of "s\<lparr>free_map := b\<rparr>" i b] b(2,3) assms(3) by auto
  then show ?thesis using all b by (auto simp: free_map_release_def)
qed

section \<open>Creating an inode\<close>

text \<open>What a change that is invisible to the open files and directories keeps.\<close>

definition kept :: "fsys \<Rightarrow> fsys \<Rightarrow> bool" where
  "kept s s' \<longleftrightarrow> inodes s' = inodes s \<and> open_inodes s' = open_inodes s \<and> files s' = files s \<and> dirs s' = dirs s \<and>
     free_map_file s' = free_map_file s \<and> fs_device s' = fs_device s \<and> fs_size s' = fs_size s \<and> owned s' = owned s \<and>
     root_content s' = root_content s \<and> (\<forall>x\<in>owned s. x \<noteq> 0 \<longrightarrow> fcontent (fs_get s') x = fcontent (fs_get s) x) \<and>
     (\<forall>x\<in>owned s. dino (fs_get s') x = dino (fs_get s) x) \<and> fallocs s \<le> fallocs s' \<and>
     bm_used (free_map s) \<subseteq> bm_used (free_map s')"

lemma keptD:
  assumes "kept s s'"
  shows "inodes s' = inodes s" "open_inodes s' = open_inodes s" "files s' = files s" "dirs s' = dirs s"
    "free_map_file s' = free_map_file s" "fs_device s' = fs_device s" "fs_size s' = fs_size s" "owned s' = owned s"
    "root_content s' = root_content s" "x \<in> owned s \<Longrightarrow> x \<noteq> 0 \<Longrightarrow> fcontent (fs_get s') x = fcontent (fs_get s) x"
    "x \<in> owned s \<Longrightarrow> dino (fs_get s') x = dino (fs_get s) x" "fallocs s \<le> fallocs s'"
    "bm_used (free_map s) \<subseteq> bm_used (free_map s')" "dir_secs s' = dir_secs s"
proof -
  show "root_content s' = root_content s" using assms unfolding kept_def by blast
  then show "dir_secs s' = dir_secs s" unfolding dir_secs_def by simp
qed (use assms in \<open>unfold kept_def, blast\<close>)+

lemma kept_refl [simp]: "kept s s"
  by (simp add: kept_def)

lemma kept_trans:
  assumes "kept s s1" "kept s1 s2"
  shows "kept s s2"
  using keptD [OF assms(1)] keptD [OF assms(2)] unfolding kept_def by simp

lemma grown_kept:
  assumes "core s R" "grown 0 s s'"
  shows "kept s s'"
  using grown_core [OF assms owned_base(1)] grownD [OF assms(2)] unfolding kept_def by simp

lemma outside_core:
  assumes c: "core s R" and s': "s' = s\<lparr>devs := d, fallocs := n\<rparr>" "fallocs s \<le> n" "fs_dev_ok s'" "fs_size s' = fs_size s"
    and o: "\<forall>x\<in>owned s. \<forall>y\<in>area (fs_get s) x. fs_get s' y = fs_get s y"
  shows "core s' R" "kept s s'"
proof -
  note k = disk_okD [OF coreD(1) [OF c]]
  note f = frame_outside [OF o]
  have rc: "root_content s' = root_content s" using f(3) by simp
  have od: "x \<in> open_secs s \<Longrightarrow> dino (fs_get s') x = dino (fs_get s) x" for x using f(1) by (auto simp: owned_def)
  have v: "dir_secs s' = dir_secs s" "owned s' = owned s" "root_ok s' = root_ok s"
    "table_ok s R \<Longrightarrow> table_ok s' R" "handles_ok s \<Longrightarrow> handles_ok s'"
    using views_cong [of s' s, OF _ _ _ _ _ _ rc od] s'(1,2) by simp_all
  have "disk_inv (fs_get s') (fs_size s') (bm_used (free_map s')) (owned s')"
    unfolding v(2) s'(4) using frame_outside_inv [OF k(5) o] s'(1) by simp
  then have "disk_ok s'" using k(2-4,6) f(1) [of 0] s' unfolding disk_ok_def by (simp; blast)
  then show "core s' R" using c v by (simp add: core_def)
  show "kept s s'" unfolding kept_def using s'(1,2,4) v(2) rc f by simp
qed

lemma bytes_to_sectors_small:
  assumes "0 \<le> len" "len + 511 < 2147483648"
  shows "bytes_to_sectors len = (nat len + 511) div 512"
proof -
  have "to_s32 (len + 511) sdiv 512 = int ((nat len + 511) div 512)"
    using assms by (simp add: to_s32_in in_s32_def sdiv_nonneg zdiv_int add.commute)
  moreover have "(nat len + 511) div 512 < 4294967296" using assms by (simp add: div_less_iff_less_mult)
  ultimately show ?thesis by (simp add: bytes_to_sectors_def unat_word_of_nat_32)
qed

lemma unat_secs:
  assumes "ext_ok n di"
  shows "unat ` secs di = {unat (start di)..<unat (start di) + (nat (dlength di) + 511) div 512}"
proof -
  have u: "unat (start di + word_of_nat j) = unat (start di) + j" if "j < (nat (dlength di) + 511) div 512" for j
  proof -
    have "unat (start di) + j < 4294967296" using that assms by (simp add: ext_ok_def)
    then show ?thesis using unat_add_lem [of "start di" "word_of_nat j"] by (simp add: unat_word_of_nat_32)
  qed
  have "unat ` secs di = (\<lambda>j. unat (start di) + j) ` {..<(nat (dlength di) + 511) div 512}"
    unfolding secs_def image_image by (rule image_cong) (simp_all add: u)
  then show ?thesis by (simp add: lessThan_atLeast0 add.commute)
qed

lemma disk_inode_bytes:
  assumes "0 \<le> dlength di" "dlength di < 2147483648"
  shows "disk_inode (disk_bytes di) = di" "length (disk_bytes di) = 512"
proof -
  have d: "drop 4 (disk_bytes di) = bytes32 (word_of_int (dlength di)) @ bytes32 (dmagic di) @ replicate 500 0"
    "drop 8 (disk_bytes di) = bytes32 (dmagic di) @ replicate 500 0"
    by (simp_all add: disk_bytes_def)
  have "sint (word_of_int (dlength di) :: u32) = dlength di"
    using to_s32_sint [of "dlength di"] to_s32_in [of "dlength di"] assms by (simp add: in_s32_def)
  then show "disk_inode (disk_bytes di) = di" unfolding disk_inode_def d by (simp add: disk_bytes_def)
  show "length (disk_bytes di) = 512" by (simp add: disk_bytes_def)
qed

lemma zero_sectors_ok:
  assumes "dev_ok b d" "unat first + i + n \<le> dev_size b d" "dev_size b d < 4294967296"
  shows "\<exists>d'. zero_sectors b first i n d = Some d' \<and> dev_ok b d' \<and> dev_size b d' = dev_size b d \<and>
    (\<forall>x. dev_get b d' x = (if x \<in> (\<lambda>j. first + word_of_nat j) ` {i..<i + n} then replicate 512 0 else dev_get b d x))"
  using assms
proof (induction n arbitrary: i d)
  case (Suc n)
  let ?x = "first + word_of_nat i :: u32"
  have "unat first + i < 4294967296" using Suc.prems by simp
  then have "unat ?x = unat first + i" using unat_add_lem [of first "word_of_nat i"] by (simp add: unat_word_of_nat_32)
  then have "unat ?x < dev_size b d" using Suc.prems by simp
  then obtain d1 where d1: "block_write b ?x (replicate 512 0) d = Some d1" "dev_ok b d1" "dev_size b d1 = dev_size b d"
    "dev_get b d1 = (dev_get b d)(?x := replicate 512 0)"
    using dev.wr_ok [OF Suc.prems(1), of ?x "replicate 512 0"] by auto
  obtain d' where d': "zero_sectors b first (Suc i) n d1 = Some d'" "dev_ok b d'" "dev_size b d' = dev_size b d1"
    "\<forall>x. dev_get b d' x = (if x \<in> (\<lambda>j. first + word_of_nat j) ` {Suc i..<Suc i + n} then replicate 512 0 else dev_get b d1 x)"
    using Suc.IH [of d1 "Suc i"] Suc.prems d1 by auto
  have "{i..<i + Suc n} = insert i {Suc i..<Suc i + n}" by auto
  then show ?case using d1 d' by simp
qed auto

lemma area_used: "core s R \<Longrightarrow> x \<in> owned s \<Longrightarrow> y \<in> area (fs_get s) x \<Longrightarrow> unat y \<in> bm_used (free_map s)"
  using disk_invD(3) [OF disk_okD(5) [OF coreD(1)]] by blast

lemma used_size: "core s R \<Longrightarrow> k \<in> bm_used (free_map s) \<Longrightarrow> k < fs_size s"
  using disk_okD(4) [OF coreD(1)] by (auto simp: bm_used_def)

lemma kept_area: "kept s s' \<Longrightarrow> x \<in> owned s \<Longrightarrow> area (fs_get s') x = area (fs_get s) x"
  using keptD(11) unfolding area_def by metis

text \<open>What \<open>inode_create\<close> leaves in a sector that was allocated for the purpose.\<close>

definition fresh_inode :: "fsys \<Rightarrow> u32 \<Rightarrow> int \<Rightarrow> bool" where
  "fresh_inode s sec len \<longleftrightarrow> ext_ok (fs_size s) (dino (fs_get s) sec) \<and> sec \<notin> secs (dino (fs_get s) sec) \<and>
     unat ` area (fs_get s) sec \<subseteq> bm_used (free_map s) \<and>
     (\<forall>x\<in>owned s. area (fs_get s) sec \<inter> area (fs_get s) x = {}) \<and>
     fcontent (fs_get s) sec = replicate (nat len) 0"

lemma bump_core:
  assumes "core s R" "fallocs s \<le> n"
  shows "core (s\<lparr>fallocs := n\<rparr>) R" "kept s (s\<lparr>fallocs := n\<rparr>)"
  using outside_core [OF assms(1), where d = "devs s" and n = n] assms(2) disk_okD(1) [OF coreD(1) [OF assms(1)]] by simp_all

lemma inode_create_ok:
  assumes c: "core s R" and len: "0 \<le> len" "len + 511 < 2147483648"
    and sec: "unat sec \<in> bm_used (free_map s)" "\<forall>x\<in>owned s. sec \<notin> area (fs_get s) x"
  shows "\<exists>r s'. inode_create sec len s = Some (r, s') \<and> core s' R \<and> kept s s' \<and> (r \<longrightarrow> fresh_inode s' sec len) \<and>
    (r \<longleftrightarrow> (\<exists>k. free_run s (bm_used (free_map s)) ((nat len + 511) div 512) k))"
proof -
  let ?m = "(nat len + 511) div 512"
  define s0 where "s0 = s\<lparr>fallocs := Suc (fallocs s)\<rparr>"
  have c0: "core s0 R" "kept s s0" unfolding s0_def using bump_core [OF c, of "Suc (fallocs s)"] by simp_all
  have al: "fs_alloc s = (Suc (fallocs s), s0)"
    using disk_okD(2) [OF coreD(1) [OF c]] by (simp add: fs_alloc_def s0_def)
  have ic: "inode_create sec len s = do {
      (r, s2) \<leftarrow> free_map_allocate ?m s0;
      (case r of None \<Rightarrow> Some (False, s2)
       | Some first \<Rightarrow> do {
           d1 \<leftarrow> block_write (fs_device s2) sec (disk_bytes \<lparr>start = first, dlength = len, dmagic = INODE_MAGIC\<rparr>) (devs s2);
           d2 \<leftarrow> zero_sectors (fs_device s2) first 0 ?m d1;
           Some (True, s2\<lparr>devs := d2\<rparr>) }) }"
    using len by (simp add: inode_create_def al bytes_to_sectors_small Let_def)
  from free_map_allocate_ok [OF c0(1), of ?m] show ?thesis
  proof (elim disjE exE conjE)
    assume "free_map_allocate ?m s0 = Some (None, s0)" "\<forall>j. \<not> free_run s0 (bm_used (free_map s0)) ?m j"
    then show ?thesis using c0 ic by (auto simp: s0_def free_run_def)
  next
    fix first s2
    assume a: "free_map_allocate ?m s0 = Some (Some first, s2)" "grown 0 s0 s2" "unat first + ?m \<le> fs_size s0"
      "{unat first..<unat first + ?m} \<inter> bm_used (free_map s0) = {}"
      "bm_used (free_map s2) = bm_used (free_map s0) \<union> {unat first..<unat first + ?m}"
    have c2: "core s2 R" by (rule grown_core(1) [OF c0(1) a(2)]) simp_all
    have k2: "kept s s2" by (rule kept_trans [OF c0(2) grown_kept [OF c0(1) a(2)]])
    have fm0: "free_map s0 = free_map s" by (simp add: s0_def)
    define di where "di = \<lparr>start = first, dlength = len, dmagic = INODE_MAGIC\<rparr>"
    have dib: "disk_inode (disk_bytes di) = di" "length (disk_bytes di) = 512"
      using disk_inode_bytes [of di] len by (simp_all add: di_def)
    have n: "fs_size s2 = fs_size s0" by (rule grownD(9) [OF a(2)])
    have dk: "fs_dev_ok s2" by (rule disk_okD(1) [OF coreD(1) [OF c2]])
    have sec2: "unat sec < fs_size s2" using used_size [OF c sec(1)] keptD(7) [OF k2] by simp
    obtain d1 where d1: "block_write (fs_device s2) sec (disk_bytes di) (devs s2) = Some d1" "dev_ok (fs_device s2) d1"
      "dev_size (fs_device s2) d1 = fs_size s2" "dev_get (fs_device s2) d1 = (fs_get s2)(sec := disk_bytes di)"
      using dev.wr_ok [OF dk sec2 dib(2)] by blast
    have sz32: "fs_size s2 < 4294967296" using disk_okD(3,4) [OF coreD(1) [OF c2]] by (simp add: bm_wf_def)
    define rng where "rng = (\<lambda>j. first + word_of_nat j :: u32) ` {0..<?m}"
    have fit: "unat first + 0 + ?m \<le> dev_size (fs_device s2) d1" using a(3) d1(3) n by simp
    have sz1: "dev_size (fs_device s2) d1 < 4294967296" using sz32 d1(3) by simp
    obtain d2 where d2: "zero_sectors (fs_device s2) first 0 ?m d1 = Some d2" "dev_ok (fs_device s2) d2"
      "dev_size (fs_device s2) d2 = fs_size s2"
      "\<forall>x. dev_get (fs_device s2) d2 x = (if x \<in> rng then replicate 512 0 else dev_get (fs_device s2) d1 x)"
      using zero_sectors_ok [OF d1(2) fit sz1] d1(3) by (auto simp: rng_def)
    define s3 where "s3 = s2\<lparr>devs := d2, fallocs := fallocs s2\<rparr>"
    have g3: "fs_get s3 x = (if x \<in> rng then replicate 512 0 else if x = sec then disk_bytes di else fs_get s2 x)" for x
      using d2(4) d1(4) by (simp add: s3_def)
    have ext: "ext_ok (fs_size s3) di" using len a(3) n sz32 d2(3) by (simp add: ext_ok_def di_def s3_def)
    have rs: "rng = secs di" by (simp add: rng_def secs_def di_def lessThan_atLeast0)
    have ur: "unat ` rng = {unat first..<unat first + ?m}" using unat_secs [OF ext] by (simp add: rs di_def)
    have fresh: "unat y \<notin> bm_used (free_map s)" if "y \<in> rng" for y
      using that ur a(4) fm0 by (metis disjoint_iff image_eqI)
    have sr: "sec \<notin> rng" using fresh sec(1) by blast
    have out: "y \<noteq> sec \<and> y \<notin> rng" if "x \<in> owned s" "y \<in> area (fs_get s2) x" for x y
    proof -
      have "y \<in> area (fs_get s) x" using that kept_area [OF k2] by blast
      then show ?thesis using sec(2) that(1) fresh area_used [OF c that(1)] by blast
    qed
    then have o: "\<forall>x\<in>owned s2. \<forall>y\<in>area (fs_get s2) x. fs_get s3 y = fs_get s2 y"
      using keptD(8) [OF k2] by (simp add: g3)
    have s3': "fs_dev_ok s3" "fs_size s3 = fs_size s2" using d2(2,3) by (simp_all add: s3_def)
    note c3 = outside_core [OF c2 s3_def le_refl s3' o]
    have k3: "kept s s3" by (rule kept_trans [OF k2 c3(2)])
    have dd: "dino (fs_get s3) sec = di" using g3 sr dib(1) by (simp add: dino_def)
    have ar: "area (fs_get s3) sec = insert sec rng" by (simp add: area_def dd rs)
    have fm3: "free_map s3 = free_map s2" by (simp add: s3_def)
    have "fcontent (fs_get s3) sec = replicate (nat len) 0"
    proof (rule nth_equalityI)
      show l: "length (fcontent (fs_get s3) sec) = length (replicate (nat len) (0 :: u8))"
        by (simp add: fcontent_def dd di_def)
      fix i assume "i < length (fcontent (fs_get s3) sec)"
      then have i: "i < nat (dlength di)" by (simp add: fcontent_def dd)
      have "fs_get s3 (start di + word_of_nat (i div 512)) = replicate 512 0"
        using sector_in_secs [OF i] g3 by (simp add: rs)
      then show "fcontent (fs_get s3) sec ! i = replicate (nat len) 0 ! i"
        using i by (simp add: fcontent_def dd nth_content) (simp add: di_def)
    qed
    moreover have "area (fs_get s3) sec \<inter> area (fs_get s3) x = {}" if "x \<in> owned s3" for x
    proof -
      have x: "x \<in> owned s" using that keptD(8) [OF k3] by simp
      have "area (fs_get s3) x = area (fs_get s2) x" using kept_area [OF c3(2)] x keptD(8) [OF k2] by simp
      then show ?thesis using out [OF x] unfolding ar by blast
    qed
    moreover have "unat ` area (fs_get s3) sec \<subseteq> bm_used (free_map s3)"
      unfolding ar fm3 a(5) fm0 using ur sec(1) by auto
    ultimately have "fresh_inode s3 sec len"
      unfolding fresh_inode_def using ext dd sr rs by simp
    moreover have "inode_create sec len s = Some (True, s3)"
      unfolding ic a(1) using d1(1) d2(1) by (simp add: di_def s3_def)
    moreover have "free_run s (bm_used (free_map s)) ?m (unat first)" using a(3,4) by (simp add: free_run_def s0_def)
    ultimately show ?thesis using c3(1) k3 by blast
  qed
qed

end
