(* ===== verification/Fs_Open.thy ===== *)
theory Fs_Open
  imports Fs_Core
begin

text \<open>
  Opening and closing inodes, files and directories: each keeps the invariant, with the reference
  count of an inode the number of the files, directories and running functions that refer to it.
\<close>

section \<open>What opening and closing leave alone\<close>

definition isec :: "fsys \<Rightarrow> nat \<Rightarrow> u32 option" where
  "isec s ino = map_option sector (inodes s ino)"

definition neutral :: "fsys \<Rightarrow> fsys \<Rightarrow> bool" where
  "neutral s s' \<longleftrightarrow> fs_device s' = fs_device s \<and> fs_size s' = fs_size s \<and> free_map_file s' = free_map_file s \<and>
     dir_map (root_content s') = dir_map (root_content s) \<and> owned s' \<subseteq> owned s \<and>
     (\<forall>x\<in>owned s'. x \<noteq> 0 \<and> x \<noteq> 1 \<longrightarrow> fcontent (fs_get s') x = fcontent (fs_get s) x) \<and>
     (\<forall>x\<in>owned s'. dino (fs_get s') x = dino (fs_get s) x) \<and>
     (\<forall>j x. isec s' j = Some x \<and> j \<le> fallocs s \<longrightarrow> isec s j = Some x) \<and> fallocs s \<le> fallocs s'"

lemma neutralD:
  assumes "neutral s s'"
  shows "fs_device s' = fs_device s" "fs_size s' = fs_size s" "free_map_file s' = free_map_file s"
    "dir_map (root_content s') = dir_map (root_content s)" "owned s' \<subseteq> owned s"
    "x \<in> owned s' \<Longrightarrow> x \<noteq> 0 \<Longrightarrow> x \<noteq> 1 \<Longrightarrow> fcontent (fs_get s') x = fcontent (fs_get s) x"
    "x \<in> owned s' \<Longrightarrow> dino (fs_get s') x = dino (fs_get s) x"
    "isec s' j = Some x \<Longrightarrow> j \<le> fallocs s \<Longrightarrow> isec s j = Some x" "fallocs s \<le> fallocs s'"
    "dir_secs s' = dir_secs s"
proof -
  show "dir_map (root_content s') = dir_map (root_content s)" using assms unfolding neutral_def by blast
  then show "dir_secs s' = dir_secs s" unfolding dir_secs_def by simp
qed (use assms in \<open>unfold neutral_def, blast\<close>)+

lemma neutral_refl [simp]: "neutral s s"
  by (simp add: neutral_def)

lemma neutral_trans:
  assumes "neutral s s1" "neutral s1 s2"
  shows "neutral s s2"
  using neutralD [OF assms(1)] neutralD [OF assms(2)] unfolding neutral_def by (simp add: subset_iff)

lemma kept_neutral: "kept s s' \<Longrightarrow> neutral s s'"
  using keptD [of s s'] unfolding neutral_def isec_def by simp

lemma core_fallocs:
  assumes "core s R"
  shows "inodes s ino = Some i \<Longrightarrow> ino \<le> fallocs s" "files s f = Some fl \<Longrightarrow> f \<le> fallocs s"
    "dirs s d = Some dr \<Longrightarrow> d \<le> fallocs s"
    "files s f = Some fl \<Longrightarrow> inodes s (finode fl) \<noteq> None" "dirs s d = Some dr \<Longrightarrow> inodes s (dinode dr) \<noteq> None"
  using coreD(3,4) [OF assms] unfolding table_ok_def inode_ok_def handles_ok_def file_ok_def by blast+

lemma finite_refs:
  assumes "core s R"
  shows "finite {f. \<exists>fl. files s f = Some fl \<and> P f fl}" "finite {d. \<exists>dr. dirs s d = Some dr \<and> Q d dr}"
proof -
  have "{f. \<exists>fl. files s f = Some fl \<and> P f fl} \<subseteq> {..fallocs s}" using core_fallocs(2) [OF assms] by auto
  then show "finite {f. \<exists>fl. files s f = Some fl \<and> P f fl}" by (rule finite_subset) simp
  have "{d. \<exists>dr. dirs s d = Some dr \<and> Q d dr} \<subseteq> {..fallocs s}" using core_fallocs(3) [OF assms] by auto
  then show "finite {d. \<exists>dr. dirs s d = Some dr \<and> Q d dr}" by (rule finite_subset) simp
qed

lemma no_refs:
  assumes "core s R" "inodes s ino = None"
  shows "refs s ino = 0" "denies s ino = 0" "R ino = 0"
proof -
  have e: "{f. \<exists>fl. files s f = Some fl \<and> finode fl = ino} = {}" "{d. \<exists>dr. dirs s d = Some dr \<and> dinode dr = ino} = {}"
    "{f. \<exists>fl. files s f = Some fl \<and> finode fl = ino \<and> deny_write fl} = {}"
    using core_fallocs(4,5) [OF assms(1)] assms(2) by blast+
  show "refs s ino = 0" "denies s ino = 0" unfolding refs_def denies_def e by simp_all
  show "R ino = 0" using coreD(3) [OF assms(1)] assms(2) unfolding table_ok_def by blast
qed

lemma handles_dir:
  "handles_ok s \<Longrightarrow> dirs s d = Some dr \<Longrightarrow>
   0 < d \<and> d \<le> fallocs s \<and> (\<exists>i. inodes s (dinode dr) = Some i \<and> sector i = 1)"
  by (simp add: handles_ok_def)

lemma handles_file: "handles_ok s \<Longrightarrow> files s f = Some fl \<Longrightarrow> file_ok s f fl"
  by (simp add: handles_ok_def)

text \<open>A state with the same disk and handles, whose inodes differ.\<close>

lemma core_inodesI:
  assumes c: "core s R" and "fs_device s' = fs_device s" "fs_get s' = fs_get s" "fs_size s' = fs_size s" "fs_dev_ok s'"
    "free_map s' = free_map s" "files s' = files s" "dirs s' = dirs s" "free_map_file s' = free_map_file s"
    "fmem_ok s' = fmem_ok s" "fallocs s \<le> fallocs s'" "owned s' = owned s"
    and t: "table_ok s' R'"
    and k: "\<And>ino x. isec s ino = Some x \<Longrightarrow> isec s' ino = Some x"
  shows "core s' R'"
proof -
  have d: "dir_secs s' = dir_secs s" by (simp add: dir_secs_def assms(3))
  have "disk_ok s'" using coreD(1) [OF c] assms unfolding disk_ok_def by (simp; blast)
  moreover have "root_ok s'" using coreD(2) [OF c] unfolding root_ok_def d assms(3) .
  moreover have "handles_ok s'"
  proof -
    have ex: "\<exists>i'. inodes s' ino = Some i' \<and> sector i' = sector i" if "inodes s ino = Some i" for ino i
      using k [of ino "sector i"] that by (simp add: isec_def)
    have "file_ok s' f fl" if f: "file_ok s f fl" for f fl
    proof -
      obtain i where i: "inodes s (finode fl) = Some i" using f by (auto simp: file_ok_def)
      obtain i' where "inodes s' (finode fl) = Some i'" "sector i' = sector i" using ex [OF i] by blast
      then show ?thesis using f i assms(9,11) by (auto simp: file_ok_def)
    qed
    moreover have "0 < d \<and> d \<le> fallocs s' \<and> (\<exists>i. inodes s' (dinode dr) = Some i \<and> sector i = 1)"
      if dsd: "dirs s d = Some dr" for d dr
    proof -
      obtain i where "0 < d" "d \<le> fallocs s" "inodes s (dinode dr) = Some i" "sector i = 1"
        using handles_dir [OF coreD(4) [OF c] dsd] by blast
      then show ?thesis using ex [of "dinode dr" i] assms(11) by auto
    qed
    ultimately show ?thesis using coreD(4) [OF c] unfolding handles_ok_def assms(7,8,9) by blast
  qed
  ultimately show ?thesis using t by (simp add: core_def)
qed

lemma refs_cong: "files s' = files s \<Longrightarrow> dirs s' = dirs s \<Longrightarrow> refs s' = refs s \<and> denies s' = denies s"
  by (simp add: refs_def denies_def fun_eq_iff)

lemma find_open_Some:
  "find_open sec s inos = Some ino \<Longrightarrow> ino \<in> set inos \<and> isec s ino = Some sec"
  by (induction inos) (auto simp: isec_def split: if_splits)

lemma find_open_None: "find_open sec s inos = None \<Longrightarrow> ino \<in> set inos \<Longrightarrow> isec s ino \<noteq> Some sec"
  by (induction inos) (auto simp: isec_def split: if_splits)

lemma isec_Some: "isec s ino = Some x \<longleftrightarrow> (\<exists>i. inodes s ino = Some i \<and> sector i = x)"
  by (auto simp: isec_def)

lemma open_secs_isec: "open_secs s = {x. \<exists>ino. isec s ino = Some x}"
  by (auto simp: open_secs_def isec_def ran_def)

section \<open>Opening an inode\<close>

lemma inode_open_ok:
  assumes c: "core s R" and x: "x \<in> owned s"
  shows "\<exists>ino s'. inode_open x s = Some (ino, s') \<and> ino \<noteq> 0 \<and> isec s' ino = Some x \<and>
    core s' (R(ino := Suc (R ino))) \<and> neutral s s' \<and> files s' = files s \<and> dirs s' = dirs s \<and> fs_get s' = fs_get s"
proof (cases "find_open x s (open_inodes s)")
  case (Some ino)
  have ino: "isec s ino = Some x" "ino \<in> set (open_inodes s)" using find_open_Some [OF Some] by blast+
  then obtain i where i: "inodes s ino = Some i" "sector i = x" by (auto simp: isec_Some)
  note io = table_inode [OF coreD(3) [OF c] i(1)]
  define s' where "s' = set_inode ino (\<lambda>i. i\<lparr>open_cnt := open_cnt i + 1\<rparr>) s"
  have in': "inodes s' = (inodes s)(ino \<mapsto> i\<lparr>open_cnt := open_cnt i + 1\<rparr>)" by (simp add: s'_def set_inode_def i(1))
  have same: "fs_device s' = fs_device s" "fs_get s' = fs_get s" "fs_size s' = fs_size s" "fs_dev_ok s' = fs_dev_ok s"
    "free_map s' = free_map s" "files s' = files s" "dirs s' = dirs s" "free_map_file s' = free_map_file s"
    "fmem_ok s' = fmem_ok s" "fallocs s' = fallocs s" "open_inodes s' = open_inodes s"
    by (simp_all add: s'_def set_inode_def)
  have ise: "isec s' j = isec s j" for j using i by (simp add: isec_def in')
  have d: "dir_secs s' = dir_secs s" by (simp add: dir_secs_def same(2))
  have ow: "owned s' = owned s" unfolding owned_def d open_secs_isec ise by simp
  have r: "refs s' = refs s" "denies s' = denies s" using refs_cong [OF same(6,7)] by simp_all
  have "table_ok s' (R(ino := Suc (R ino)))"
    unfolding table_ok_def
  proof (intro conjI allI impI)
    show "distinct (open_inodes s')" "set (open_inodes s') = dom (inodes s')"
      using coreD(3) [OF c] ino(2) by (auto simp: table_ok_def same(11) in')
    show "inode_ok s' (R(ino := Suc (R ino))) j k" if "inodes s' j = Some k" for j k
    proof (cases "j = ino")
      case True
      then show ?thesis using io that by (auto simp: inode_ok_def in' same(2,10) d r)
    next
      case False
      then have "inode_ok s R j k" using table_inode [OF coreD(3) [OF c]] that by (simp add: in')
      then show ?thesis using False by (simp add: inode_ok_def same(2,10) d r)
    qed
    show "j = j'" if "inodes s' j = Some k \<and> inodes s' j' = Some k' \<and> sector k = sector k'" for j j' k k'
    proof -
      have "isec s j = Some (sector k)" "isec s j' = Some (sector k)" using that unfolding ise [symmetric] isec_Some by auto
      then show ?thesis using coreD(3) [OF c] unfolding table_ok_def isec_Some by metis
    qed
    show "inodes s' j \<noteq> None" if "0 < (R(ino := Suc (R ino))) j" for j
      using that coreD(3) [OF c] by (auto simp: in' table_ok_def split: if_splits)
  qed
  then have "core s' (R(ino := Suc (R ino)))"
    using same ow ise disk_okD(1) [OF coreD(1) [OF c]] by (intro core_inodesI [OF c]) simp_all
  moreover have "neutral s s'" unfolding neutral_def using same ow ise by simp
  moreover have "ino \<noteq> 0" using io by (simp add: inode_ok_def)
  moreover have "inode_open x s = Some (ino, s')"
    using Some \<open>ino \<noteq> 0\<close> by (simp add: inode_open_def inode_reopen_def s'_def)
  ultimately show ?thesis using same(2,6,7) ise ino(1) by auto
next
  case None
  let ?ino = "Suc (fallocs s)"
  note k = disk_okD [OF coreD(1) [OF c]]
  have sz: "unat x < fs_size s" by (rule used_size [OF c disk_invD(4) [OF k(5) x]])
  have no: "isec s j \<noteq> Some x" for j
  proof
    assume "isec s j = Some x"
    moreover from this have "j \<in> set (open_inodes s)" using coreD(3) [OF c] by (auto simp: table_ok_def isec_Some)
    ultimately show False using find_open_None [OF None] by blast
  qed
  have fresh: "inodes s ?ino = None"
    using core_fallocs(1) [OF c, of ?ino] by (cases "inodes s ?ino") auto
  note nr = no_refs [OF c fresh]
  obtain d where d: "block_read (fs_device s) x (devs s) = Some (fs_get s x, d)" "dev_ok (fs_device s) d"
    "dev_size (fs_device s) d = fs_size s" "dev_get (fs_device s) d = fs_get s"
    using dev.rd_ok [OF k(1) sz] by blast
  define i where "i = \<lparr>sector = x, open_cnt = 1, removed = False, deny_write_cnt = 0, data = dino (fs_get s) x\<rparr>"
  define s' where "s' = s\<lparr>fallocs := ?ino, open_inodes := ?ino # open_inodes s, inodes := (inodes s)(?ino \<mapsto> i), devs := d\<rparr>"
  have same: "fs_device s' = fs_device s" "fs_get s' = fs_get s" "fs_size s' = fs_size s" "fs_dev_ok s'"
    "free_map s' = free_map s" "files s' = files s" "dirs s' = dirs s" "free_map_file s' = free_map_file s"
    "fmem_ok s' = fmem_ok s" "fallocs s' = ?ino" "open_inodes s' = ?ino # open_inodes s"
    "inodes s' = (inodes s)(?ino \<mapsto> i)"
    using d by (simp_all add: s'_def)
  have ise: "isec s' j = (if j = ?ino then Some x else isec s j)" for j by (simp add: isec_def same(12) i_def)
  have ds: "dir_secs s' = dir_secs s" by (simp add: dir_secs_def same(2))
  have fi: "isec s ?ino = None" using fresh by (simp add: isec_def)
  have "open_secs s' = insert x (open_secs s)"
  proof (intro set_eqI iffI)
    fix y assume "y \<in> open_secs s'"
    then obtain j where "isec s' j = Some y" unfolding open_secs_isec by blast
    then show "y \<in> insert x (open_secs s)" unfolding open_secs_isec by (cases "j = ?ino") (auto simp: ise)
  next
    fix y assume "y \<in> insert x (open_secs s)"
    then consider "y = x" | j where "isec s j = Some y" unfolding open_secs_isec by blast
    then show "y \<in> open_secs s'"
    proof cases
      case 1
      then have "isec s' ?ino = Some y" by (simp add: ise)
      then show ?thesis unfolding open_secs_isec by blast
    next
      case 2
      then have "isec s' j = Some y" using fi by (auto simp: ise)
      then show ?thesis unfolding open_secs_isec by blast
    qed
  qed
  then have ow: "owned s' = owned s" using x unfolding owned_def ds by auto
  have xl: "x \<in> {0, 1} \<union> dir_secs s" using x no by (auto simp: owned_def open_secs_isec)
  have r: "refs s' = refs s" "denies s' = denies s" using refs_cong [OF same(6,7)] by simp_all
  have "table_ok s' (R(?ino := Suc (R ?ino)))"
    unfolding table_ok_def
  proof (intro conjI allI impI)
    have m: "?ino \<notin> set (open_inodes s)" using coreD(3) [OF c] fresh by (auto simp: table_ok_def)
    show "distinct (open_inodes s')" "set (open_inodes s') = dom (inodes s')"
      using coreD(3) [OF c] m by (auto simp: table_ok_def same(11,12))
    show "inode_ok s' (R(?ino := Suc (R ?ino))) j k" if "inodes s' j = Some k" for j k
    proof (cases "j = ?ino")
      case True
      then show ?thesis using that nr xl by (auto simp: inode_ok_def same(2,10,12) ds r i_def)
    next
      case False
      then have "inode_ok s R j k" using table_inode [OF coreD(3) [OF c]] that by (simp add: same(12))
      then show ?thesis using False by (simp add: inode_ok_def same(2,10) ds r)
    qed
    show "j = j'" if "inodes s' j = Some k \<and> inodes s' j' = Some k' \<and> sector k = sector k'" for j j' k k'
    proof -
      have a: "isec s' j = Some (sector k)" "isec s' j' = Some (sector k)" using that by (auto simp: isec_Some)
      show ?thesis
      proof (cases "sector k = x")
        case True
        then show ?thesis using a no by (auto simp: ise split: if_splits)
      next
        case False
        then have "isec s j = Some (sector k)" "isec s j' = Some (sector k)" using a by (auto simp: ise split: if_splits)
        then show ?thesis using coreD(3) [OF c] unfolding table_ok_def isec_Some by metis
      qed
    qed
    show "inodes s' j \<noteq> None" if "0 < (R(?ino := Suc (R ?ino))) j" for j
      using that coreD(3) [OF c] by (auto simp: same(12) table_ok_def split: if_splits)
  qed
  then have "core s' (R(?ino := Suc (R ?ino)))"
    using same ow ise fresh by (intro core_inodesI [OF c]) (auto simp: isec_def)
  moreover have "neutral s s'" unfolding neutral_def using same(1-3,8,10) ow ise by simp
  moreover have "inode_open x s = Some (?ino, s')"
    using None k(2) d(1) by (simp add: inode_open_def fs_alloc_def s'_def i_def dino_def Let_def)
  ultimately show ?thesis using same(2,6,7) ise by auto
qed

section \<open>Closing an inode\<close>

text \<open>The reference count changes.\<close>

lemma core_count:
  assumes c: "core s R" and i: "inodes s ino = Some i" and n: "0 < n" "n = refs s ino + R' ino" "\<And>j. j \<noteq> ino \<Longrightarrow> R' j = R j"
    and s': "s' = s\<lparr>inodes := (inodes s)(ino \<mapsto> i\<lparr>open_cnt := int n\<rparr>)\<rparr>"
  shows "core s' R'" "neutral s s'" "isec s' = isec s"
proof -
  note io = table_inode [OF coreD(3) [OF c] i]
  have in': "inodes s' = (inodes s)(ino \<mapsto> i\<lparr>open_cnt := int n\<rparr>)" by (simp add: s')
  have ise: "isec s' j = isec s j" for j using i by (simp add: isec_def in')
  have d: "dir_secs s' = dir_secs s" by (simp add: dir_secs_def s')
  have ow: "owned s' = owned s" unfolding owned_def d open_secs_isec ise by simp
  have r: "refs s' = refs s" "denies s' = denies s" using refs_cong [of s' s] by (simp_all add: s')
  have "table_ok s' R'"
    unfolding table_ok_def
  proof (intro conjI allI impI)
    show "distinct (open_inodes s')" "set (open_inodes s') = dom (inodes s')"
      using coreD(3) [OF c] i by (auto simp: table_ok_def s')
    show "inode_ok s' R' j k" if "inodes s' j = Some k" for j k
    proof (cases "j = ino")
      case True
      then show ?thesis using io that n(1,2) unfolding inode_ok_def d r by (auto simp: s')
    next
      case False
      then have "inode_ok s R j k" using table_inode [OF coreD(3) [OF c]] that by (simp add: in')
      then show ?thesis using n(3) [OF False] unfolding inode_ok_def d r by (simp add: s')
    qed
    show "j = j'" if "inodes s' j = Some k \<and> inodes s' j' = Some k' \<and> sector k = sector k'" for j j' k k'
    proof -
      have "isec s j = Some (sector k)" "isec s j' = Some (sector k)"
        using that unfolding ise [symmetric] isec_Some by auto
      then show ?thesis using coreD(3) [OF c] unfolding table_ok_def isec_Some by metis
    qed
    show "inodes s' j \<noteq> None" if "0 < R' j" for j
      using that coreD(3) [OF c] n(3) [of j] by (cases "j = ino") (auto simp: in' table_ok_def)
  qed
  then show "core s' R'"
    using ow ise disk_okD(1) [OF coreD(1) [OF c]] by (intro core_inodesI [OF c]) (simp_all add: s')
  show "neutral s s'" unfolding neutral_def using ow ise by (simp add: s')
  show "isec s' = isec s" using ise by blast
qed

text \<open>The last reference goes; a removed inode gives up its sectors.\<close>

lemma close_core:
  assumes c: "core s R" and i: "inodes s ino = Some i" and z: "refs s ino = 0" "R ino = 1"
    and same: "fs_device s' = fs_device s" "fs_size s' = fs_size s" "fmem_ok s' = fmem_ok s"
      "free_map_file s' = free_map_file s" "files s' = files s" "dirs s' = dirs s" "fs_dev_ok s'"
      "fallocs s \<le> fallocs s'" "inodes s' = (inodes s)(ino := None)" "open_inodes s' = remove1 ino (open_inodes s)"
    and fm: "bm_wf (free_map s')" "bit_cnt (free_map s') = bit_cnt (free_map s)"
      "bm_used (free_map s) - (if removed i then unat ` area (fs_get s) (sector i) else {}) \<subseteq> bm_used (free_map s')"
    and dev: "\<forall>x. x \<notin> secs (dino (fs_get s) 0) \<longrightarrow> fs_get s' x = fs_get s x"
  shows "core s' (R(ino := 0))" "neutral s s'"
proof -
  note k = disk_okD [OF coreD(1) [OF c]]
  note f = frame_dino [OF k(5) owned_base(1) dev]
  have rc: "root_content s' = root_content s" using f(3) [of 1] by simp
  have d: "dir_secs s' = dir_secs s" by (simp add: dir_secs_def rc)
  have ise: "isec s' j = (if j = ino then None else isec s j)" for j by (simp add: isec_def same(9))
  have uniq: "isec s j = Some x \<Longrightarrow> isec s j' = Some x \<Longrightarrow> j = j'" for j j' x
    using coreD(3) [OF c] unfolding table_ok_def isec_Some by metis
  have is_i: "isec s ino = Some (sector i)" by (simp add: isec_def i)
  have os: "open_secs s' = open_secs s - {sector i}"
  proof (intro set_eqI iffI)
    fix x assume "x \<in> open_secs s'"
    then obtain j where j: "isec s' j = Some x" unfolding open_secs_isec by blast
    then have "j \<noteq> ino" "isec s j = Some x" by (auto simp: ise split: if_splits)
    then show "x \<in> open_secs s - {sector i}" using uniq is_i unfolding open_secs_isec by blast
  next
    fix x assume "x \<in> open_secs s - {sector i}"
    then obtain j where "isec s j = Some x" "x \<noteq> sector i" unfolding open_secs_isec by blast
    then have "isec s' j = Some x" using is_i by (auto simp: ise)
    then show "x \<in> open_secs s'" unfolding open_secs_isec by blast
  qed
  have rem: "removed i \<longleftrightarrow> sector i \<notin> {0, 1} \<union> dir_secs s"
    using table_inode [OF coreD(3) [OF c] i] by (simp add: inode_ok_def)
  have ow: "owned s' = (if removed i then owned s - {sector i} else owned s)"
    using rem open_owned [OF i] unfolding owned_def d os by auto
  then have sub: "owned s' \<subseteq> owned s" by auto
  have r: "refs s' = refs s" "denies s' = denies s" using refs_cong [OF same(5,6)] by simp_all
  have dj: "y \<in> owned s' \<Longrightarrow> unat ` area (fs_get s) y \<subseteq> bm_used (free_map s')" for y
  proof -
    assume y: "y \<in> owned s'"
    have u: "unat ` area (fs_get s) y \<subseteq> bm_used (free_map s)" using disk_invD(3) [OF k(5)] y sub by blast
    have "removed i \<Longrightarrow> area (fs_get s) y \<inter> area (fs_get s) (sector i) = {}"
      using disk_invD(5) [OF k(5), of y "sector i"] y ow open_owned [OF i] by auto
    then have dis: "removed i \<Longrightarrow> unat ` area (fs_get s) y \<inter> unat ` area (fs_get s) (sector i) = {}"
      by (auto simp: word_unat_eq_iff [symmetric])
    show "unat ` area (fs_get s) y \<subseteq> bm_used (free_map s')"
    proof (cases "removed i")
      case True
      then have "bm_used (free_map s) - unat ` area (fs_get s) (sector i) \<subseteq> bm_used (free_map s')" using fm(3) by simp
      then show ?thesis using u dis [OF True] by blast
    next
      case False
      then have "bm_used (free_map s) \<subseteq> bm_used (free_map s')" using fm(3) by simp
      then show ?thesis using u by blast
    qed
  qed
  have "disk_inv (fs_get s) (fs_size s) (bm_used (free_map s')) (owned s')"
    using disk_inv_mono [OF k(5) sub subset_refl] dj unfolding disk_inv_def by blast
  then have "disk_inv (fs_get s') (fs_size s') (bm_used (free_map s')) (owned s')"
    unfolding same(2) by (rule frame_disk_inv [OF _ owned_base(1) dev])
  then have dk: "disk_ok s'"
    using k(2,4,6) f(1) [OF owned_base(1)] same(2,3,7) fm(1,2) unfolding disk_ok_def by (simp; blast)
  have "root_ok s'" using coreD(2) [OF c] by (simp add: root_ok_def d rc)
  have nof: "{f. \<exists>fl. files s f = Some fl \<and> finode fl = ino} = {}" "{d. \<exists>dr. dirs s d = Some dr \<and> dinode dr = ino} = {}"
    using z(1) finite_refs [OF c] by (simp_all add: refs_def)
  have keep: "j \<noteq> ino \<Longrightarrow> inodes s' j = inodes s j" for j by (simp add: same(9))
  have "file_ok s' g fl" if g: "files s g = Some fl" for g fl
  proof -
    have "finode fl \<noteq> ino" using nof(1) g by blast
    then show ?thesis using handles_file [OF coreD(4) [OF c] g] same(8) keep by (auto simp: file_ok_def same(4))
  qed
  moreover have "0 < g \<and> g \<le> fallocs s' \<and> (\<exists>i. inodes s' (dinode dr) = Some i \<and> sector i = 1)"
    if g: "dirs s g = Some dr" for g dr
  proof -
    have "dinode dr \<noteq> ino" using nof(2) g by blast
    then show ?thesis using handles_dir [OF coreD(4) [OF c] g] same(8) keep by auto
  qed
  ultimately have "handles_ok s'"
    using coreD(4) [OF c] unfolding handles_ok_def same(4-6) by blast
  moreover have "table_ok s' (R(ino := 0))"
    unfolding table_ok_def
  proof (intro conjI allI impI)
    show "distinct (open_inodes s')" "set (open_inodes s') = dom (inodes s')"
      using coreD(3) [OF c] by (auto simp: table_ok_def same(9,10))
    show "inode_ok s' (R(ino := 0)) j k'" if jk: "inodes s' j = Some k'" for j k'
    proof -
      have j: "j \<noteq> ino" "inodes s j = Some k'" using jk by (auto simp: same(9) split: if_splits)
      have "dino (fs_get s') (sector k') = dino (fs_get s) (sector k')" by (rule f(1) [OF open_owned [OF j(2)]])
      then show ?thesis using table_inode [OF coreD(3) [OF c] j(2)] j(1) same(8) by (simp add: inode_ok_def d r)
    qed
    show "j = j'" if "inodes s' j = Some k1 \<and> inodes s' j' = Some k2 \<and> sector k1 = sector k2" for j j' k1 k2
      using that uniq [of j "sector k1" j'] by (auto simp: same(9) isec_Some split: if_splits)
    show "inodes s' j \<noteq> None" if "0 < (R(ino := 0)) j" for j
      using that coreD(3) [OF c] by (auto simp: same(9) table_ok_def split: if_splits)
  qed
  ultimately show "core s' (R(ino := 0))" using dk \<open>root_ok s'\<close> by (simp add: core_def)
  show "neutral s s'"
    unfolding neutral_def
  proof (intro conjI ballI allI impI)
    show "fcontent (fs_get s') x = fcontent (fs_get s) x" if "x \<in> owned s'" "x \<noteq> 0 \<and> x \<noteq> 1" for x using f(3) sub that by blast
    show "dino (fs_get s') x = dino (fs_get s) x" if "x \<in> owned s'" for x using f(1) sub that by blast
    show "isec s j = Some x" if "isec s' j = Some x \<and> j \<le> fallocs s" for j x using that by (simp add: ise split: if_splits)
  qed (use same rc sub in simp_all)
qed

lemma inode_close_ok:
  assumes c: "core s R" and r: "0 < R ino"
  shows "\<exists>s'. inode_close ino s = Some s' \<and> core s' (R(ino := R ino - 1)) \<and> neutral s s' \<and>
    files s' = files s \<and> dirs s' = dirs s \<and> (\<forall>j. j \<noteq> ino \<longrightarrow> isec s' j = isec s j)"
proof -
  obtain i where i: "inodes s ino = Some i" using coreD(3) [OF c] r unfolding table_ok_def by blast
  have io: "inode_ok s R ino i" by (rule table_inode [OF coreD(3) [OF c] i])
  then have ino: "ino \<noteq> 0" "open_cnt i = int (refs s ino + R ino)" by (simp_all add: inode_ok_def)
  define i1 where "i1 = i\<lparr>open_cnt := open_cnt i - 1\<rparr>"
  define s1 where "s1 = s\<lparr>inodes := (inodes s)(ino \<mapsto> i1)\<rparr>"
  show ?thesis
  proof (cases "refs s ino + R ino = 1")
    case False
    define n where "n = refs s ino + (R ino - 1)"
    have n: "0 < n" "n = refs s ino + (R(ino := R ino - 1)) ino" "open_cnt i - 1 = int n"
      using False r ino(2) by (simp_all add: n_def)
    then have "s1 = s\<lparr>inodes := (inodes s)(ino \<mapsto> i\<lparr>open_cnt := int n\<rparr>)\<rparr>" by (simp add: s1_def i1_def)
    note cc = core_count [where R' = "R(ino := R ino - 1)", OF c i n(1,2) _ this]
    have "open_cnt i1 \<noteq> 0" using n(1,3) by (simp add: i1_def del: of_nat_add)
    then have "inode_close ino s = Some s1"
      using i ino(1) by (simp add: inode_close_def i1_def [symmetric] s1_def Let_def)
    moreover have "files s1 = files s" "dirs s1 = dirs s" by (simp_all add: s1_def)
    ultimately show ?thesis using cc by auto
  next
    case True
    then have z: "refs s ino = 0" "R ino = 1" using r by simp_all
    define s2 where "s2 = s1\<lparr>open_inodes := remove1 ino (open_inodes s1)\<rparr>"
    note k = disk_okD [OF coreD(1) [OF c]]
    have oc: "open_cnt i = 1" using ino(2) z by simp
    show ?thesis
    proof (cases "removed i")
      case False
      define s' where "s' = s2\<lparr>inodes := (inodes s2)(ino := None)\<rparr>"
      have ic: "inode_close ino s = Some s'"
        using i ino(1) oc False by (simp add: inode_close_def i1_def [symmetric] s1_def s2_def s'_def Let_def)
      have "core s' (R(ino := 0))" "neutral s s'"
        using k(1,3) False by (rule_tac close_core [OF c i z]; simp add: s'_def s2_def s1_def)+
      then show ?thesis using ic z(2) by (auto simp: s'_def s2_def s1_def isec_def)
    next
      case rem: True
      let ?x = "sector i"
      have x: "?x \<in> owned s" "?x \<noteq> 0" "?x \<noteq> 1" using io rem open_owned [OF i] by (auto simp: inode_ok_def)
      note dk = disk_invD [OF k(5) x(1)]
      have di: "data i = dino (fs_get s) ?x" using io by (simp add: inode_ok_def)
      have bts: "bytes_to_sectors (dlength (data i)) = (nat (dlength (data i)) + 511) div 512"
        using dk(1) unfolding di by (intro bytes_to_sectors_small) (simp_all add: ext_ok_def)
      define m where "m = bytes_to_sectors (dlength (data i))"
      have rng: "unat ` secs (data i) = {unat (start (data i))..<unat (start (data i)) + m}"
        using unat_secs [OF dk(1)] bts by (simp add: di m_def)
      have ar: "unat ` area (fs_get s) ?x = insert (unat ?x) {unat (start (data i))..<unat (start (data i)) + m}"
        using rng by (simp add: area_def di)
      have fit: "unat ?x < fs_size s" "unat (start (data i)) + m \<le> fs_size s"
        using used_size [OF c dk(4)] dk(1) bts by (simp_all add: m_def di ext_ok_def)
      have xr: "unat ?x \<notin> {unat (start (data i))..<unat (start (data i)) + m}"
        using dk(2) rng unfolding di by (metis imageE word_unat_eq_iff)
      obtain i0 where i0: "map_file s i0" "sector i0 = 0" "data i0 = dino (fs_get s) 0" using core_map_file [OF c] by blast
      obtain fl where fl: "files s (free_map_file s) = Some fl" "inodes s (finode fl) = Some i0" using i0(1) by (auto simp: map_file_def)
      have "finode fl \<noteq> ino" using fl(2) i i0(2) x(2) by auto
      then have m2: "map_file s2 i0" using i0(1) fl by (auto simp: map_file_def s2_def s1_def)
      have fm2: "free_map s2 = free_map s" "fs_size s2 = fs_size s" by (simp_all add: s2_def s1_def)
      obtain t b1 where t: "free_map_release ?x 1 s2 = Some t" "bm_wf b1" "bit_cnt b1 = bit_cnt (free_map s)"
        "bm_used b1 = bm_used (free_map s) - {unat ?x}" "io_only (s2\<lparr>free_map := b1\<rparr>) t"
        "\<forall>y. y \<notin> secs (data i0) \<longrightarrow> fs_get t y = fs_get s2 y"
        using free_map_release_ok [OF m2, of ?x 1] fm2 k(3,4) fit(1) dk(4) by auto
      note it = io_onlyD [OF t(5)]
      have mt: "map_file t i0" using m2 it by (auto simp: map_file_def)
      have fmt: "free_map t = b1" "fs_size t = fs_size s" using it fm2 by simp_all
      have "{unat (start (data i))..<unat (start (data i)) + m} \<subseteq> bm_used b1"
        using dk(3) xr unfolding ar t(4) by auto
      then obtain s3 b2 where s3: "free_map_release (start (data i)) m t = Some s3" "bm_wf b2" "bit_cnt b2 = bit_cnt (free_map s)"
        "bm_used b2 = bm_used b1 - {unat (start (data i))..<unat (start (data i)) + m}" "io_only (t\<lparr>free_map := b2\<rparr>) s3"
        "\<forall>y. y \<notin> secs (data i0) \<longrightarrow> fs_get s3 y = fs_get t y"
        using free_map_release_ok [OF mt, of "start (data i)" m] fmt t(2,3) k(4) fit(2) by auto
      note i3 = io_onlyD [OF s3(5)]
      define s' where "s' = s3\<lparr>inodes := (inodes s3)(ino := None)\<rparr>"
      have ic: "inode_close ino s = Some s'"
        using i ino(1) oc rem t(1) s3(1)
        by (simp add: inode_close_def i1_def s1_def s2_def s'_def Let_def m_def)
      have used: "bm_used (free_map s) - unat ` area (fs_get s) ?x \<subseteq> bm_used b2"
        unfolding ar s3(4) t(4) by auto
      have dev: "\<forall>y. y \<notin> secs (dino (fs_get s) 0) \<longrightarrow> fs_get s' y = fs_get s y"
        using t(6) s3(6) i0(3) by (simp add: s'_def s2_def s1_def)
      have "fs_device s' = fs_device s" "fs_size s' = fs_size s" "fmem_ok s' = fmem_ok s"
        "free_map_file s' = free_map_file s" "files s' = files s" "dirs s' = dirs s" "fs_dev_ok s'"
        "fallocs s \<le> fallocs s'" "inodes s' = (inodes s)(ino := None)" "open_inodes s' = remove1 ino (open_inodes s)"
        "bm_wf (free_map s')" "bit_cnt (free_map s') = bit_cnt (free_map s)"
        "bm_used (free_map s) - (if removed i then unat ` area (fs_get s) ?x else {}) \<subseteq> bm_used (free_map s')"
        using it i3 s3(2,3) used rem by (simp_all add: s'_def s2_def s1_def)
      note cc = close_core [OF c i z this dev]
      have "R(ino := R ino - 1) = R(ino := 0)" using z(2) by simp
      moreover have "files s' = files s" "dirs s' = dirs s" "inodes s' = (inodes s)(ino := None)" by fact+
      ultimately show ?thesis using ic cc by (auto simp: isec_def)
    qed
  qed
qed

section \<open>Handles\<close>

text \<open>The number of entries of a table of handles that satisfy a predicate.\<close>

definition tally :: "(nat \<Rightarrow> 'a option) \<Rightarrow> ('a \<Rightarrow> bool) \<Rightarrow> nat" where
  "tally F P = card {f. \<exists>x. F f = Some x \<and> P x}"

lemma finite_tally: "finite (dom F) \<Longrightarrow> finite {f. \<exists>x. F f = Some x \<and> P x}"
  by (rule finite_subset [of _ "dom F"]) auto

lemma tally_new: "finite (dom F) \<Longrightarrow> F f = None \<Longrightarrow> tally (F(f \<mapsto> x)) P = tally F P + (if P x then 1 else 0)"
proof -
  assume f: "finite (dom F)" "F f = None"
  have "{g. \<exists>y. (F(f \<mapsto> x)) g = Some y \<and> P y} =
      (if P x then insert f {g. \<exists>y. F g = Some y \<and> P y} else {g. \<exists>y. F g = Some y \<and> P y})"
    using f(2) by auto
  then show ?thesis using finite_tally [OF f(1), of P] f(2) by (simp add: tally_def)
qed

lemma tally_drop: "finite (dom F) \<Longrightarrow> F f = Some x \<Longrightarrow> tally F P = tally (F(f := None)) P + (if P x then 1 else 0)"
  using tally_new [of "F(f := None)" f x P] by (simp add: fun_upd_idem)

lemma tally_set:
  assumes "finite (dom F)" "F f = Some x"
  shows "tally (F(f \<mapsto> y)) P + (if P x then 1 else 0) = tally F P + (if P y then 1 else 0)"
  using tally_drop [OF assms, of P] tally_new [of "F(f := None)" f y P] assms(1) by simp

lemma refs_tally:
  "refs s j = tally (files s) (\<lambda>fl. finode fl = j) + tally (dirs s) (\<lambda>dr. dinode dr = j)"
  "denies s j = tally (files s) (\<lambda>fl. finode fl = j \<and> deny_write fl)"
  by (simp_all add: refs_def denies_def tally_def)

lemma finite_handles:
  assumes "core s R"
  shows "finite (dom (files s))" "finite (dom (dirs s))"
proof -
  have "dom (files s) \<subseteq> {..fallocs s}" "dom (dirs s) \<subseteq> {..fallocs s}"
    using core_fallocs(2,3) [OF assms] by auto
  then show "finite (dom (files s))" "finite (dom (dirs s))" by (auto intro: finite_subset)
qed

text \<open>A change of the handles, with the counts of one inode.\<close>

lemma core_handlesI:
  assumes c: "core s R" and s': "s' = s\<lparr>files := F, dirs := D, fallocs := n, inodes := I\<rparr>" "fallocs s \<le> n"
    and I: "\<And>j i'. I j = Some i' \<Longrightarrow> \<exists>i. inodes s j = Some i \<and> i' = i\<lparr>deny_write_cnt := int (denies s' j)\<rparr> \<and>
        refs s j + R j = refs s' j + R' j"
      "dom I = dom (inodes s)"
    and R: "\<And>j. 0 < R' j \<Longrightarrow> inodes s j \<noteq> None"
    and F: "\<And>f fl. F f = Some fl \<Longrightarrow> file_ok s' f fl" "F (free_map_file s) \<noteq> None"
    and D: "\<And>d dr. D d = Some dr \<Longrightarrow> 0 < d \<and> d \<le> n \<and> isec s (dinode dr) = Some 1"
  shows "core s' R' \<and> neutral s s' \<and> isec s' = isec s"
proof (intro conjI)
  have I': "I j = None" if "inodes s j = None" for j using that I(2) by (metis domIff)
  have ise: "isec s' j = isec s j" for j
  proof (cases "I j")
    case None
    then have "inodes s j = None" using I(2) by (metis domIff)
    then show ?thesis using None by (simp add: isec_def s')
  next
    case (Some i')
    then show ?thesis using I(1) [OF Some] by (auto simp: isec_def s')
  qed
  have d: "dir_secs s' = dir_secs s" by (simp add: dir_secs_def s')
  have ow: "owned s' = owned s" unfolding owned_def d open_secs_isec ise by simp
  have "disk_ok s'" using coreD(1) [OF c] unfolding disk_ok_def ow by (simp add: s'; blast)
  moreover have "root_ok s'" using coreD(2) [OF c] unfolding root_ok_def d by (simp add: s')
  moreover have "table_ok s' R'"
    unfolding table_ok_def
  proof (intro conjI allI impI)
    show "distinct (open_inodes s')" "set (open_inodes s') = dom (inodes s')"
      using coreD(3) [OF c] I(2) by (simp_all add: table_ok_def s')
    show "inode_ok s' R' j k" if jk: "inodes s' j = Some k" for j k
    proof -
      obtain i where i: "inodes s j = Some i" "k = i\<lparr>deny_write_cnt := int (denies s' j)\<rparr>"
        "refs s j + R j = refs s' j + R' j"
        using I(1) [of j k] jk by (auto simp: s')
      have "int (refs s j + R j) = int (refs s' j + R' j)" using i(3) by simp
      then show ?thesis
        using table_inode [OF coreD(3) [OF c] i(1)] i(2) s' unfolding inode_ok_def d by auto
    qed
    show "j = j'" if "inodes s' j = Some k \<and> inodes s' j' = Some k' \<and> sector k = sector k'" for j j' k k'
    proof -
      have "isec s j = Some (sector k)" "isec s j' = Some (sector k)"
        using that unfolding ise [symmetric] isec_Some by auto
      then show ?thesis using coreD(3) [OF c] unfolding table_ok_def isec_Some by metis
    qed
    show "inodes s' j \<noteq> None" if "0 < R' j" for j
      using R [OF that] I(2) by (auto simp: s')
  qed
  moreover have "0 < g \<and> g \<le> fallocs s' \<and> (\<exists>i. inodes s' (dinode dr) = Some i \<and> sector i = 1)"
    if g: "dirs s' g = Some dr" for g dr
    using D [of g dr] g ise [of "dinode dr"] by (simp add: s') (simp add: isec_Some)
  then have "handles_ok s'"
    unfolding handles_ok_def using F by (auto simp: s')
  ultimately show "core s' R'" by (simp add: core_def)
  show "neutral s s'" unfolding neutral_def using ow ise s'(2) by (simp add: s'(1))
  show "isec s' = isec s" using ise by blast
qed

lemma file_ok_mono: "file_ok s f fl \<Longrightarrow> isec s' = isec s \<Longrightarrow> fallocs s \<le> fallocs s' \<Longrightarrow>
  free_map_file s' = free_map_file s \<Longrightarrow> file_ok s' f fl"
proof -
  assume a: "file_ok s f fl" "isec s' = isec s" "fallocs s \<le> fallocs s'" "free_map_file s' = free_map_file s"
  then obtain i where i: "inodes s (finode fl) = Some i" by (auto simp: file_ok_def)
  then have "isec s' (finode fl) = Some (sector i)" by (simp add: a(2) isec_def)
  then obtain i' where "inodes s' (finode fl) = Some i'" "sector i' = sector i" by (auto simp: isec_Some)
  then show ?thesis using a i by (auto simp: file_ok_def)
qed

lemma table_isec_eq: "inodes s' = inodes s \<Longrightarrow> isec s' = isec s"
  by (simp add: isec_def fun_eq_iff)

lemma inode_same: "core s R \<Longrightarrow> inodes s j = Some i \<Longrightarrow> i\<lparr>deny_write_cnt := int (denies s j)\<rparr> = i"
  using table_inode [OF coreD(3)] by (fastforce simp: inode_ok_def)

lemma file_open_ok:
  assumes c: "core s R" and r: "0 < R ino" and x: "isec s ino = Some x" "x \<noteq> 0" "x \<noteq> 1"
  shows "\<exists>s'. file_open ino s = Some (Suc (fallocs s), s') \<and> core s' (R(ino := R ino - 1)) \<and> neutral s s' \<and>
    files s' = (files s)(Suc (fallocs s) \<mapsto> \<lparr>finode = ino, pos = 0, deny_write = False\<rparr>) \<and> dirs s' = dirs s \<and>
    isec s' = isec s \<and> files s (Suc (fallocs s)) = None \<and> Suc (fallocs s) \<noteq> free_map_file s"
proof -
  let ?f = "Suc (fallocs s)" and ?fl = "\<lparr>finode = ino, pos = 0, deny_write = False\<rparr>"
  define F where "F = (files s)(?f \<mapsto> ?fl)"
  define s' where "s' = s\<lparr>files := F, dirs := dirs s, fallocs := ?f, inodes := inodes s\<rparr>"
  obtain i where i: "inodes s ino = Some i" "sector i = x" using x(1) by (auto simp: isec_Some)
  have ino: "ino \<noteq> 0" using table_inode [OF coreD(3) [OF c] i(1)] by (simp add: inode_ok_def)
  have f0: "files s ?f = None" using core_fallocs(2) [OF c, of ?f] by (cases "files s ?f") auto
  have fmf: "?f \<noteq> free_map_file s" using coreD(4) [OF c] f0 by (auto simp: handles_ok_def)
  note fin = finite_handles [OF c]
  have t: "refs s' j = refs s j + (if ino = j then 1 else 0)" "denies s' j = denies s j" for j
    using tally_new [OF fin(1) f0] by (simp_all add: refs_tally s'_def F_def)
  have ise: "isec s' = isec s" by (rule table_isec_eq) (simp add: s'_def)
  have fo: "file_ok s' g gl" if "F g = Some gl" for g gl
  proof (cases "g = ?f")
    case True
    then show ?thesis using that i x fmf by (auto simp: F_def file_ok_def s'_def)
  next
    case False
    then have "file_ok s g gl" using that handles_file [OF coreD(4) [OF c]] by (simp add: F_def)
    then show ?thesis by (rule file_ok_mono [OF _ ise]) (simp_all add: s'_def)
  qed
  have "core s' (R(ino := R ino - 1)) \<and> neutral s s' \<and> isec s' = isec s"
  proof (rule core_handlesI [OF c s'_def])
    fix j i' assume "inodes s j = Some i'"
    then show "\<exists>i. inodes s j = Some i \<and> i' = i\<lparr>deny_write_cnt := int (denies s' j)\<rparr> \<and>
        refs s j + R j = refs s' j + (R(ino := R ino - 1)) j"
      using inode_same [OF c] r by (auto simp: t)
  next
    show "F (free_map_file s) \<noteq> None" using coreD(4) [OF c] fmf by (simp add: F_def handles_ok_def)
  next
    fix d dr assume "dirs s d = Some dr"
    then show "0 < d \<and> d \<le> ?f \<and> isec s (dinode dr) = Some 1"
      using handles_dir [OF coreD(4) [OF c]] by (fastforce simp: isec_Some)
  next
    fix j assume "0 < (R(ino := R ino - 1)) j"
    then show "inodes s j \<noteq> None" using coreD(3) [OF c] i by (auto simp: table_ok_def split: if_splits)
  qed (use fo in simp_all)
  moreover have "file_open ino s = Some (?f, s')"
    using disk_okD(2) [OF coreD(1) [OF c]] ino by (simp add: file_open_def fs_alloc_def s'_def F_def Let_def)
  moreover have "files s' = F" "dirs s' = dirs s" by (simp_all add: s'_def)
  ultimately show ?thesis using f0 fmf by (simp add: F_def)
qed

lemma dir_open_ok:
  assumes c: "core s R" and r: "0 < R ino" and x: "isec s ino = Some 1"
  shows "\<exists>s'. dir_open ino s = Some (Suc (fallocs s), s') \<and> core s' (R(ino := R ino - 1)) \<and> neutral s s' \<and>
    dirs s' = (dirs s)(Suc (fallocs s) \<mapsto> \<lparr>dinode = ino, dpos = 0\<rparr>) \<and> files s' = files s \<and>
    isec s' = isec s \<and> dirs s (Suc (fallocs s)) = None"
proof -
  let ?d = "Suc (fallocs s)" and ?dr = "\<lparr>dinode = ino, dpos = 0\<rparr>"
  define D where "D = (dirs s)(?d \<mapsto> ?dr)"
  define s' where "s' = s\<lparr>files := files s, dirs := D, fallocs := ?d, inodes := inodes s\<rparr>"
  obtain i where i: "inodes s ino = Some i" "sector i = 1" using x(1) by (auto simp: isec_Some)
  have ino: "ino \<noteq> 0" using table_inode [OF coreD(3) [OF c] i(1)] by (simp add: inode_ok_def)
  have d0: "dirs s ?d = None" using core_fallocs(3) [OF c, of ?d] by (cases "dirs s ?d") auto
  note fin = finite_handles [OF c]
  have t: "refs s' j = refs s j + (if ino = j then 1 else 0)" "denies s' j = denies s j" for j
    using tally_new [OF fin(2) d0] by (simp_all add: refs_tally s'_def D_def)
  have ise: "isec s' = isec s" by (rule table_isec_eq) (simp add: s'_def)
  have fo: "file_ok s' g gl" if "files s g = Some gl" for g gl
    by (rule file_ok_mono [OF handles_file [OF coreD(4) [OF c] that] ise]) (simp_all add: s'_def)
  have "core s' (R(ino := R ino - 1)) \<and> neutral s s' \<and> isec s' = isec s"
  proof (rule core_handlesI [OF c s'_def])
    fix j i' assume "inodes s j = Some i'"
    then show "\<exists>i. inodes s j = Some i \<and> i' = i\<lparr>deny_write_cnt := int (denies s' j)\<rparr> \<and>
        refs s j + R j = refs s' j + (R(ino := R ino - 1)) j"
      using inode_same [OF c] r by (auto simp: t)
  next
    show "files s (free_map_file s) \<noteq> None" using coreD(4) [OF c] by (simp add: handles_ok_def)
  next
    fix d dr assume "D d = Some dr"
    then show "0 < d \<and> d \<le> ?d \<and> isec s (dinode dr) = Some 1"
      using handles_dir [OF coreD(4) [OF c], of d dr] x by (auto simp: D_def isec_Some split: if_splits)
  next
    fix j assume "0 < (R(ino := R ino - 1)) j"
    then show "inodes s j \<noteq> None" using coreD(3) [OF c] i by (auto simp: table_ok_def split: if_splits)
  qed (use fo in simp_all)
  moreover have "dir_open ino s = Some (?d, s')"
    using disk_okD(2) [OF coreD(1) [OF c]] ino by (simp add: dir_open_def fs_alloc_def s'_def D_def Let_def)
  moreover have "dirs s' = D" "files s' = files s" by (simp_all add: s'_def)
  ultimately show ?thesis using d0 by (simp add: D_def)
qed

section \<open>Closing files and directories\<close>

text \<open>
  \<open>file_close\<close> and \<open>dir_close\<close> give up the reference to the inode before the handle: closing an inode
  does not look at the handles, the free map file apart.
\<close>

definition with_handles :: "(nat \<Rightarrow> open_file option) \<Rightarrow> (nat \<Rightarrow> open_dir option) \<Rightarrow> fsys \<Rightarrow> fsys" where
  "with_handles F D s = s\<lparr>files := F, dirs := D\<rparr>"

lemma with_handles_sel [simp]:
  "devs (with_handles F D s) = devs s" "fs_device (with_handles F D s) = fs_device s"
  "inodes (with_handles F D s) = inodes s" "open_inodes (with_handles F D s) = open_inodes s"
  "files (with_handles F D s) = F" "dirs (with_handles F D s) = D" "free_map (with_handles F D s) = free_map s"
  "free_map_file (with_handles F D s) = free_map_file s" "fallocs (with_handles F D s) = fallocs s"
  "fmem_ok (with_handles F D s) = fmem_ok s"
  by (simp_all add: with_handles_def)

lemma with_handles_upd:
  "(with_handles F D s)\<lparr>devs := d\<rparr> = with_handles F D (s\<lparr>devs := d\<rparr>)"
  "(with_handles F D s)\<lparr>inodes := I\<rparr> = with_handles F D (s\<lparr>inodes := I\<rparr>)"
  "(with_handles F D s)\<lparr>open_inodes := ino\<rparr> = with_handles F D (s\<lparr>open_inodes := ino\<rparr>)"
  "(with_handles F D s)\<lparr>free_map := b\<rparr> = with_handles F D (s\<lparr>free_map := b\<rparr>)"
  "(with_handles F D s)\<lparr>fallocs := n\<rparr> = with_handles F D (s\<lparr>fallocs := n\<rparr>)"
  by (simp_all add: with_handles_def)

lemma inode_write_at_handles:
  "inode_write_at ino buf sz ofs (with_handles F D s) =
   map_option (\<lambda>(n, s'). (n, with_handles F D s')) (inode_write_at ino buf sz ofs s)"
  by (auto simp: inode_write_at_def fs_alloc_def with_handles_upd Let_def option.map_comp comp_def
      split: option.split intro!: option.map_cong)

lemma inode_write_at_files: "inode_write_at ino buf sz ofs s = Some (n, s') \<Longrightarrow> files s' = files s \<and> free_map_file s' = free_map_file s"
  by (auto simp: inode_write_at_def fs_alloc_def Let_def split: option.splits if_splits)

lemma bitmap_write_handles:
  "F f = files s f \<Longrightarrow> bitmap_write b f (with_handles F D s) =
   map_option (\<lambda>(n, s'). (n, with_handles F D s')) (bitmap_write b f s)"
  by (cases "files s f"; cases "inode_write_at (finode (the (files s f))) (bitmap_bytes b) (int (byte_cnt (bit_cnt b))) 0 s")
    (auto simp: bitmap_write_def file_write_at_def inode_write_at_handles Let_def)

lemma bitmap_write_files:
  "bitmap_write b f s = Some (r, s') \<Longrightarrow> files s' = files s \<and> free_map_file s' = free_map_file s"
  by (auto simp: bitmap_write_def file_write_at_def Let_def Option.bind_eq_Some_conv dest: inode_write_at_files split: option.splits)

lemma free_map_release_handles:
  "F (free_map_file s) = files s (free_map_file s) \<Longrightarrow> free_map_release sec cnt (with_handles F D s) =
   map_option (with_handles F D) (free_map_release sec cnt s)"
  by (auto simp: free_map_release_def with_handles_upd bitmap_write_handles Option.bind_eq_Some_conv
      intro!: option.expand split: option.split bind_split)

lemma free_map_release_files:
  "free_map_release sec cnt s = Some s' \<Longrightarrow> files s' = files s \<and> free_map_file s' = free_map_file s"
  by (auto simp: free_map_release_def Option.bind_eq_Some_conv dest!: bitmap_write_files split: if_splits)

lemma inode_close_handles:
  assumes "F (free_map_file s) = files s (free_map_file s)"
  shows "inode_close ino (with_handles F D s) = map_option (with_handles F D) (inode_close ino s)"
proof (cases "ino = 0 \<or> inodes s ino = None")
  case True
  then show ?thesis by (auto simp: inode_close_def)
next
  case False
  then obtain i0 where i0: "ino \<noteq> 0" "inodes s ino = Some i0" by blast
  define i where "i = i0\<lparr>open_cnt := open_cnt i0 - 1\<rparr>"
  define s2 where "s2 = s\<lparr>inodes := (inodes s)(ino \<mapsto> i), open_inodes := remove1 ino (open_inodes s)\<rparr>"
  have F2: "F (free_map_file s2) = files s2 (free_map_file s2)" using assms by (simp add: s2_def)
  let ?rel = "\<lambda>t. do { t1 \<leftarrow> free_map_release (sector i) 1 t;
    free_map_release (start (data i)) (bytes_to_sectors (dlength (data i))) t1 }"
  have rel: "?rel (with_handles F D s2) = map_option (with_handles F D) (?rel s2)"
  proof (cases "free_map_release (sector i) 1 s2")
    case None
    then show ?thesis using free_map_release_handles [of F s2, OF F2] by simp
  next
    case (Some t)
    then have "F (free_map_file t) = files t (free_map_file t)" using free_map_release_files [OF Some] F2 by simp
    then show ?thesis using free_map_release_handles [of F s2, OF F2] free_map_release_handles Some by simp
  qed
  have ic: "inode_close ino t = (if open_cnt i = 0
      then do { s3 \<leftarrow> (if removed i then ?rel (t\<lparr>inodes := (inodes t)(ino \<mapsto> i), open_inodes := remove1 ino (open_inodes t)\<rparr>)
                      else Some (t\<lparr>inodes := (inodes t)(ino \<mapsto> i), open_inodes := remove1 ino (open_inodes t)\<rparr>));
                Some (s3\<lparr>inodes := (inodes s3)(ino := None)\<rparr>) }
      else Some (t\<lparr>inodes := (inodes t)(ino \<mapsto> i)\<rparr>))" if "inodes t ino = Some i0" for t
    using that i0(1) by (simp add: inode_close_def i_def Let_def)
  show ?thesis
    using i0 rel
    by (cases "?rel s2") (simp_all add: ic with_handles_upd s2_def [symmetric])
qed

text \<open>Dropping a handle leaves its reference with the running function.\<close>

lemma core_drop_file:
  assumes c: "core s R" and f: "files s f = Some fl" "f \<noteq> free_map_file s" "\<not> deny_write fl"
  shows "core (with_handles ((files s)(f := None)) (dirs s) s) (R(finode fl := Suc (R (finode fl)))) \<and>
    neutral s (with_handles ((files s)(f := None)) (dirs s) s)"
proof -
  define s' where "s' = s\<lparr>files := (files s)(f := None), dirs := dirs s, fallocs := fallocs s, inodes := inodes s\<rparr>"
  have w: "with_handles ((files s)(f := None)) (dirs s) s = s'" by (simp add: with_handles_def s'_def)
  note fin = finite_handles [OF c]
  have t: "refs s j = refs s' j + (if finode fl = j then 1 else 0)" "denies s j = denies s' j" for j
    using tally_drop [OF fin(1) f(1)] f(3) by (simp_all add: refs_tally s'_def)
  have ise: "isec s' = isec s" by (rule table_isec_eq) (simp add: s'_def)
  have fo: "file_ok s' g gl" if "files s g = Some gl" for g gl
    by (rule file_ok_mono [OF handles_file [OF coreD(4) [OF c] that] ise]) (simp_all add: s'_def)
  have "core s' (R(finode fl := Suc (R (finode fl)))) \<and> neutral s s' \<and> isec s' = isec s"
  proof (rule core_handlesI [OF c s'_def])
    fix j i' assume "inodes s j = Some i'"
    then show "\<exists>i. inodes s j = Some i \<and> i' = i\<lparr>deny_write_cnt := int (denies s' j)\<rparr> \<and>
        refs s j + R j = refs s' j + (R(finode fl := Suc (R (finode fl)))) j"
      using inode_same [OF c] by (auto simp: t)
  next
    show "((files s)(f := None)) (free_map_file s) \<noteq> None"
      using coreD(4) [OF c] f(2) by (simp add: handles_ok_def)
  next
    fix d dr assume "dirs s d = Some dr"
    then show "0 < d \<and> d \<le> fallocs s \<and> isec s (dinode dr) = Some 1"
      using handles_dir [OF coreD(4) [OF c]] by (fastforce simp: isec_Some)
  next
    fix j assume "0 < (R(finode fl := Suc (R (finode fl)))) j"
    then show "inodes s j \<noteq> None" using coreD(3) [OF c] core_fallocs(4) [OF c f(1)]
      by (auto simp: table_ok_def split: if_splits)
  next
    fix g gl assume "((files s)(f := None)) g = Some gl"
    then show "file_ok s' g gl" using fo by (auto split: if_splits)
  qed simp_all
  then show ?thesis unfolding w by blast
qed

lemma core_drop_dir:
  assumes c: "core s R" and d: "dirs s d = Some dr"
  shows "core (with_handles (files s) ((dirs s)(d := None)) s) (R(dinode dr := Suc (R (dinode dr)))) \<and>
    neutral s (with_handles (files s) ((dirs s)(d := None)) s)"
proof -
  define s' where "s' = s\<lparr>files := files s, dirs := (dirs s)(d := None), fallocs := fallocs s, inodes := inodes s\<rparr>"
  have w: "with_handles (files s) ((dirs s)(d := None)) s = s'" by (simp add: with_handles_def s'_def)
  note fin = finite_handles [OF c]
  have t: "refs s j = refs s' j + (if dinode dr = j then 1 else 0)" "denies s j = denies s' j" for j
    using tally_drop [OF fin(2) d] by (simp_all add: refs_tally s'_def)
  have ise: "isec s' = isec s" by (rule table_isec_eq) (simp add: s'_def)
  have fo: "file_ok s' g gl" if "files s g = Some gl" for g gl
    by (rule file_ok_mono [OF handles_file [OF coreD(4) [OF c] that] ise]) (simp_all add: s'_def)
  have "core s' (R(dinode dr := Suc (R (dinode dr)))) \<and> neutral s s' \<and> isec s' = isec s"
  proof (rule core_handlesI [OF c s'_def])
    fix j i' assume "inodes s j = Some i'"
    then show "\<exists>i. inodes s j = Some i \<and> i' = i\<lparr>deny_write_cnt := int (denies s' j)\<rparr> \<and>
        refs s j + R j = refs s' j + (R(dinode dr := Suc (R (dinode dr)))) j"
      using inode_same [OF c] by (auto simp: t)
  next
    show "files s (free_map_file s) \<noteq> None" using coreD(4) [OF c] by (simp add: handles_ok_def)
  next
    fix g gr assume "((dirs s)(d := None)) g = Some gr"
    then show "0 < g \<and> g \<le> fallocs s \<and> isec s (dinode gr) = Some 1"
      using handles_dir [OF coreD(4) [OF c], of g gr] by (auto simp: isec_Some split: if_splits)
  next
    fix j assume "0 < (R(dinode dr := Suc (R (dinode dr)))) j"
    then show "inodes s j \<noteq> None" using coreD(3) [OF c] core_fallocs(5) [OF c d]
      by (auto simp: table_ok_def split: if_splits)
  qed (use fo in simp_all)
  then show ?thesis unfolding w by blast
qed

lemma dir_close_ok:
  assumes c: "core s R" and d: "dirs s d = Some dr"
  shows "\<exists>s'. dir_close d s = Some s' \<and> core s' R \<and> neutral s s' \<and> files s' = files s \<and>
    dirs s' = (dirs s)(d := None) \<and> (\<forall>j. j \<noteq> dinode dr \<longrightarrow> isec s' j = isec s j)"
proof -
  let ?t = "with_handles (files s) ((dirs s)(d := None)) s" and ?R = "R(dinode dr := Suc (R (dinode dr)))"
  have ct: "core ?t ?R" "neutral s ?t" using core_drop_dir [OF c d] by blast+
  obtain t' where t': "inode_close (dinode dr) ?t = Some t'" "core t' (?R(dinode dr := ?R (dinode dr) - 1))"
    "neutral ?t t'" "files t' = files s" "dirs t' = (dirs s)(d := None)"
    "\<forall>j. j \<noteq> dinode dr \<longrightarrow> isec t' j = isec ?t j"
    using inode_close_ok [OF ct(1), of "dinode dr"] by auto
  obtain s1 where s1: "inode_close (dinode dr) s = Some s1" "t' = with_handles (files s) ((dirs s)(d := None)) s1"
    using t'(1) inode_close_handles [of "files s" s "dinode dr" "(dirs s)(d := None)"] by auto
  have b: "inode_close (dinode dr) (with_handles (files s) (dirs s) s) = Some s1"
    using s1(1) by (simp add: with_handles_def)
  then have h1: "s1 = with_handles (files s) (dirs s) s1"
    using inode_close_handles [of "files s" s "dinode dr" "dirs s"] s1(1) by simp
  have "dirs s1 = dirs s" "files s1 = files s" by (subst h1, simp)+
  then have e: "s1\<lparr>dirs := (dirs s1)(d := None)\<rparr> = t'" by (simp add: s1(2) with_handles_def)
  have "d \<noteq> 0" using handles_dir [OF coreD(4) [OF c] d] by simp
  then have "dir_close d s = Some t'" using d s1(1) e by (simp add: dir_close_def)
  moreover have "isec ?t = isec s" by (rule table_isec_eq) simp
  ultimately show ?thesis using t' neutral_trans [OF ct(2) t'(3)] by (simp add: fun_upd_idem)
qed

section \<open>Changing a file handle\<close>

lemma tally_mono: "finite (dom F) \<Longrightarrow> (\<And>x. P x \<Longrightarrow> Q x) \<Longrightarrow> tally F P \<le> tally F Q"
  unfolding tally_def by (rule card_mono [OF finite_tally]) auto

definition deny_by :: "bool \<Rightarrow> int" where
  "deny_by b = (if b then 1 else 0)"

lemma core_set_file:
  assumes c: "core s R" and f: "files s f = Some fl" "inodes s (finode fl) = Some i"
    and fl': "finode fl' = finode fl" "0 \<le> pos fl'" "f = free_map_file s \<longrightarrow> \<not> deny_write fl'"
    and s': "s' = s\<lparr>files := (files s)(f \<mapsto> fl'), inodes := (inodes s)(finode fl \<mapsto>
       i\<lparr>deny_write_cnt := deny_write_cnt i + deny_by (deny_write fl') - deny_by (deny_write fl)\<rparr>)\<rparr>"
  shows "core s' R \<and> neutral s s' \<and> isec s' = isec s"
proof -
  let ?ino = "finode fl"
  let ?I = "(inodes s)(?ino \<mapsto> i\<lparr>deny_write_cnt := deny_write_cnt i + deny_by (deny_write fl') - deny_by (deny_write fl)\<rparr>)"
  have e: "s' = s\<lparr>files := (files s)(f \<mapsto> fl'), dirs := dirs s, fallocs := fallocs s, inodes := ?I\<rparr>" by (simp add: s')
  note fin = finite_handles [OF c]
  have r: "refs s' j = refs s j" for j
    using tally_set [OF fin(1) f(1), of fl' "\<lambda>fl. finode fl = j"] fl'(1) by (simp add: refs_tally s')
  have d: "int (denies s' j) = int (denies s j) + (if j = ?ino then deny_by (deny_write fl') - deny_by (deny_write fl) else 0)" for j
    using tally_set [OF fin(1) f(1), of fl' "\<lambda>fl. finode fl = j \<and> deny_write fl"] fl'(1)
    by (auto simp: refs_tally s' deny_by_def split: if_splits)
  have di: "deny_write_cnt i = int (denies s ?ino)"
    using table_inode [OF coreD(3) [OF c] f(2)] by (simp add: inode_ok_def)
  have ise: "isec s' = isec s" using f(2) by (auto simp: isec_def s' fun_eq_iff)
  have fo: "file_ok s' g gl" if "files s g = Some gl" for g gl
    by (rule file_ok_mono [OF handles_file [OF coreD(4) [OF c] that] ise]) (simp_all add: s')
  show ?thesis
  proof (rule core_handlesI [OF c e])
    fix j i' assume j: "?I j = Some i'"
    then obtain k where k: "inodes s j = Some k" "j \<noteq> ?ino \<longrightarrow> i' = k" using f(2) by (auto split: if_splits)
    have "i' = k\<lparr>deny_write_cnt := int (denies s' j)\<rparr>"
      using j k f(2) di inode_same [OF c k(1)] by (auto simp: d split: if_splits)
    then show "\<exists>i. inodes s j = Some i \<and> i' = i\<lparr>deny_write_cnt := int (denies s' j)\<rparr> \<and>
        refs s j + R j = refs s' j + R j"
      using k r by auto
  next
    show "dom ?I = dom (inodes s)" using f(2) by auto
  next
    show "((files s)(f \<mapsto> fl')) (free_map_file s) \<noteq> None" using coreD(4) [OF c] by (simp add: handles_ok_def)
  next
    fix d dr assume "dirs s d = Some dr"
    then show "0 < d \<and> d \<le> fallocs s \<and> isec s (dinode dr) = Some 1"
      using handles_dir [OF coreD(4) [OF c]] by (fastforce simp: isec_Some)
  next
    fix j assume "0 < R j"
    then show "inodes s j \<noteq> None" using coreD(3) [OF c] by (auto simp: table_ok_def)
  next
    fix g gl assume g: "((files s)(f \<mapsto> fl')) g = Some gl"
    show "file_ok s' g gl"
    proof (cases "g = f")
      case True
      have "file_ok s' f fl" by (rule fo [OF f(1)])
      then show ?thesis using True g fl' by (auto simp: file_ok_def s' split: if_splits)
    next
      case False
      then show ?thesis using g fo by simp
    qed
  qed simp
qed

lemma core_set_pos:
  assumes c: "core s R" and f: "files s f = Some fl" "0 \<le> p"
  shows "core (set_file f (\<lambda>fl. fl\<lparr>pos := p\<rparr>) s) R \<and> neutral s (set_file f (\<lambda>fl. fl\<lparr>pos := p\<rparr>) s) \<and>
    isec (set_file f (\<lambda>fl. fl\<lparr>pos := p\<rparr>) s) = isec s"
proof -
  have fo: "file_ok s f fl" by (rule handles_file [OF coreD(4) [OF c] f(1)])
  then obtain i where i: "inodes s (finode fl) = Some i" by (auto simp: file_ok_def)
  have "(inodes s)(finode fl \<mapsto> i) = inodes s" using i by auto
  then show ?thesis
    using fo f(2) by (intro core_set_file [OF c f(1) i, of "fl\<lparr>pos := p\<rparr>"])
      (auto simp: file_ok_def set_file_def f(1) deny_by_def split: if_splits)
qed

lemma file_deny_write_ok:
  assumes c: "core s R" and f: "files s f = Some fl" "f \<noteq> free_map_file s"
  shows "\<exists>s'. file_deny_write f s = Some s' \<and> core s' R \<and> neutral s s' \<and> isec s' = isec s \<and> dirs s' = dirs s \<and>
    files s' = (files s)(f \<mapsto> fl\<lparr>deny_write := True\<rparr>)"
proof (cases "deny_write fl")
  case True
  then have "fl\<lparr>deny_write := True\<rparr> = fl" by simp
  then have "(files s)(f \<mapsto> fl\<lparr>deny_write := True\<rparr>) = files s" using f(1) by auto
  then show ?thesis using c f(1) True by (simp add: file_deny_write_def)
next
  case False
  have fo: "file_ok s f fl" by (rule handles_file [OF coreD(4) [OF c] f(1)])
  then obtain i where i: "inodes s (finode fl) = Some i" by (auto simp: file_ok_def)
  have io: "inode_ok s R (finode fl) i" by (rule table_inode [OF coreD(3) [OF c] i])
  define s' where "s' = s\<lparr>files := (files s)(f \<mapsto> fl\<lparr>deny_write := True\<rparr>), inodes := (inodes s)(finode fl \<mapsto>
       i\<lparr>deny_write_cnt := deny_write_cnt i + deny_by True - deny_by (deny_write fl)\<rparr>)\<rparr>"
  have cs: "core s' R \<and> neutral s s' \<and> isec s' = isec s"
    using fo f(2) by (intro core_set_file [OF c f(1) i, of "fl\<lparr>deny_write := True\<rparr>"]) (simp_all add: s'_def file_ok_def)
  note fin = finite_handles [OF c]
  have fin': "finite (dom ((files s)(f := None)))" using fin(1) by simp
  have "denies s (finode fl) + 1 \<le> refs s (finode fl)"
    using tally_drop [OF fin(1) f(1), of "\<lambda>gl. finode gl = finode fl \<and> deny_write gl"]
      tally_drop [OF fin(1) f(1), of "\<lambda>gl. finode gl = finode fl"] False
      tally_mono [OF fin', of "\<lambda>gl. finode gl = finode fl \<and> deny_write gl" "\<lambda>gl. finode gl = finode fl"]
    by (simp add: refs_tally)
  then have "deny_write_cnt i + 1 \<le> open_cnt i" using io by (simp add: inode_ok_def)
  then have "file_deny_write f s = Some s'"
    using f(1) False i by (simp add: file_deny_write_def inode_deny_write_def set_file_def set_inode_def s'_def deny_by_def)
  then show ?thesis using cs by (simp add: s'_def)
qed

lemma file_allow_write_ok:
  assumes c: "core s R" and f: "files s f = Some fl"
  shows "\<exists>s'. file_allow_write f s = Some s' \<and> core s' R \<and> neutral s s' \<and> isec s' = isec s \<and> dirs s' = dirs s \<and>
    files s' = (files s)(f \<mapsto> fl\<lparr>deny_write := False\<rparr>)"
proof (cases "deny_write fl")
  case False
  then have "fl\<lparr>deny_write := False\<rparr> = fl" by simp
  then have "(files s)(f \<mapsto> fl\<lparr>deny_write := False\<rparr>) = files s" using f(1) by auto
  then show ?thesis using c f(1) False by (simp add: file_allow_write_def)
next
  case True
  have fo: "file_ok s f fl" by (rule handles_file [OF coreD(4) [OF c] f(1)])
  then obtain i where i: "inodes s (finode fl) = Some i" by (auto simp: file_ok_def)
  have io: "inode_ok s R (finode fl) i" by (rule table_inode [OF coreD(3) [OF c] i])
  define s' where "s' = s\<lparr>files := (files s)(f \<mapsto> fl\<lparr>deny_write := False\<rparr>), inodes := (inodes s)(finode fl \<mapsto>
       i\<lparr>deny_write_cnt := deny_write_cnt i + deny_by False - deny_by (deny_write fl)\<rparr>)\<rparr>"
  have cs: "core s' R \<and> neutral s s' \<and> isec s' = isec s"
    using fo by (intro core_set_file [OF c f(1) i, of "fl\<lparr>deny_write := False\<rparr>"]) (simp_all add: s'_def file_ok_def)
  note fin = finite_handles [OF c]
  have "0 < denies s (finode fl)" "denies s (finode fl) \<le> refs s (finode fl)"
    using tally_drop [OF fin(1) f(1), of "\<lambda>gl. finode gl = finode fl \<and> deny_write gl"] True
      tally_mono [OF fin(1), of "\<lambda>gl. finode gl = finode fl \<and> deny_write gl" "\<lambda>gl. finode gl = finode fl"]
    by (simp_all add: refs_tally)
  then have "0 < deny_write_cnt i" "deny_write_cnt i \<le> open_cnt i" using io by (simp_all add: inode_ok_def)
  then have "file_allow_write f s = Some s'"
    using f(1) True i by (simp add: file_allow_write_def inode_allow_write_def set_file_def set_inode_def s'_def deny_by_def)
  then show ?thesis using cs by (simp add: s'_def)
qed

lemma file_close_ok:
  assumes c: "core s R" and f: "files s f = Some fl" "f \<noteq> free_map_file s"
  shows "\<exists>s'. file_close f s = Some s' \<and> core s' R \<and> neutral s s' \<and> dirs s' = dirs s \<and>
    files s' = (files s)(f := None) \<and> (\<forall>j. j \<noteq> finode fl \<longrightarrow> isec s' j = isec s j)"
proof -
  obtain sa where sa: "file_allow_write f s = Some sa" "core sa R" "neutral s sa" "isec sa = isec s" "dirs sa = dirs s"
    "files sa = (files s)(f \<mapsto> fl\<lparr>deny_write := False\<rparr>)" using file_allow_write_ok [OF c f(1)] by blast
  have fm: "free_map_file sa = free_map_file s" by (rule neutralD(3) [OF sa(3)])
  let ?F = "(files sa)(f := None)"
  have Fs: "?F = (files s)(f := None)" by (simp add: sa(6))
  let ?t = "with_handles ?F (dirs sa) sa" and ?R = "R(finode fl := Suc (R (finode fl)))"
  have fa: "files sa f = Some (fl\<lparr>deny_write := False\<rparr>)" by (simp add: sa(6))
  have ct: "core ?t ?R" "neutral sa ?t" using core_drop_file [OF sa(2) fa] f(2) fm by simp_all
  obtain t' where t': "inode_close (finode fl) ?t = Some t'" "core t' (?R(finode fl := ?R (finode fl) - 1))"
    "neutral ?t t'" "files t' = ?F" "dirs t' = dirs sa" "\<forall>j. j \<noteq> finode fl \<longrightarrow> isec t' j = isec ?t j"
    using inode_close_ok [OF ct(1), of "finode fl"] by auto
  have Fm: "?F (free_map_file sa) = files sa (free_map_file sa)" using f(2) fm by simp
  obtain s1 where s1: "inode_close (finode fl) sa = Some s1" "t' = with_handles ?F (dirs sa) s1"
    using t'(1) inode_close_handles [of ?F sa "finode fl" "dirs sa", OF Fm] by auto
  have "inode_close (finode fl) (with_handles (files sa) (dirs sa) sa) = Some s1"
    using s1(1) by (simp add: with_handles_def)
  then have h1: "s1 = with_handles (files sa) (dirs sa) s1"
    using inode_close_handles [of "files sa" sa "finode fl" "dirs sa"] s1(1) by simp
  have sf: "files s1 = files sa" "dirs s1 = dirs sa" by (subst h1, simp)+
  then have e: "s1\<lparr>files := (files s1)(f := None)\<rparr> = t'"
    unfolding s1(2) with_handles_def using sf by (intro fsys.equality) simp_all
  have "f \<noteq> 0" using handles_file [OF coreD(4) [OF c] f(1)] by (simp add: file_ok_def)
  then have "file_close f s = Some t'" using sa(1) fa s1(1) e by (simp add: file_close_def)
  moreover have "isec ?t = isec sa" by (rule table_isec_eq) simp
  moreover have "R(finode fl := R (finode fl)) = R" by simp
  ultimately show ?thesis
    using t' neutral_trans [OF sa(3) neutral_trans [OF ct(2) t'(3)]] sa(4,5) Fs by (simp add: fun_upd_idem)
qed

end
