(* ===== verification/Filesys_Spec.thy ===== *)
theory Filesys_Spec
  imports Fs_Open
begin

text \<open>
  The file system as its users see it: names, contents and open files. The operations of
  \<open>filesys/filesys.c\<close> and \<open>filesys/file.c\<close> refine it.
\<close>

section \<open>The specification\<close>

record afs =
  names :: "u8 list \<rightharpoonup> u32"
  store :: "u32 \<rightharpoonup> u8 list"
  handles :: "nat \<rightharpoonup> u32 \<times> int \<times> bool"

definition reach :: "afs \<Rightarrow> u32 set" where
  "reach a = ran (names a) \<union> fst ` ran (handles a)"

text \<open>A file that has neither a name nor a handle is gone.\<close>

definition gc :: "afs \<Rightarrow> afs" where
  "gc a = a\<lparr>store := store a |` reach a\<rparr>"

datatype fs_op =
  Create "u8 list" int | Open "u8 list" | Remove "u8 list" | Close nat
| Read nat int | Write nat "u8 list" | Seek nat int | Tell nat | Length nat | Deny nat | Allow nat

datatype fs_res = Done bool | Handle nat | Bytes "u8 list" | Number int | Void

definition denied :: "afs \<Rightarrow> u32 \<Rightarrow> bool" where
  "denied a x \<longleftrightarrow> (\<exists>p. (x, p, True) \<in> ran (handles a))"

definition span :: "int \<Rightarrow> u8 list \<Rightarrow> int \<Rightarrow> nat" where
  "span sz bs p = nat (min sz (int (length bs) - p))"

inductive astep :: "fs_op \<Rightarrow> fs_res \<Rightarrow> afs \<Rightarrow> afs \<Rightarrow> bool" where
  creates: "name_ok name \<Longrightarrow> names a name = None \<Longrightarrow> x \<notin> reach a \<Longrightarrow>
    astep (Create name sz) (Done True) a
      (a\<lparr>names := (names a)(name \<mapsto> x), store := (store a)(x \<mapsto> replicate (nat sz) 0)\<rparr>)"
| create_fails: "astep (Create name sz) (Done False) a a"
| opens: "names a name = Some x \<Longrightarrow> handles a f = None \<Longrightarrow> f \<noteq> 0 \<Longrightarrow>
    astep (Open name) (Handle f) a (a\<lparr>handles := (handles a)(f \<mapsto> (x, 0, False))\<rparr>)"
| open_fails: "names a name = None \<Longrightarrow> astep (Open name) (Handle 0) a a"
| removes: "names a name \<noteq> None \<Longrightarrow> astep (Remove name) (Done True) a (gc (a\<lparr>names := (names a)(name := None)\<rparr>))"
| remove_fails: "names a name = None \<Longrightarrow> astep (Remove name) (Done False) a a"
| closes: "handles a f \<noteq> None \<Longrightarrow> astep (Close f) Void a (gc (a\<lparr>handles := (handles a)(f := None)\<rparr>))"
| reads: "handles a f = Some (x, p, w) \<Longrightarrow> store a x = Some bs \<Longrightarrow> n = span sz bs p \<Longrightarrow>
    astep (Read f sz) (Bytes (slice bs (nat p) n)) a (a\<lparr>handles := (handles a)(f \<mapsto> (x, p + int n, w))\<rparr>)"
| writes: "handles a f = Some (x, p, w) \<Longrightarrow> store a x = Some bs \<Longrightarrow>
    n = (if denied a x then 0 else span (int (length buf)) bs p) \<Longrightarrow>
    astep (Write f buf) (Number (int n)) a
      (a\<lparr>handles := (handles a)(f \<mapsto> (x, p + int n, w)), store := (store a)(x \<mapsto> put_at bs (nat p) (take n buf))\<rparr>)"
| seeks: "handles a f = Some (x, p, w) \<Longrightarrow> astep (Seek f q) Void a (a\<lparr>handles := (handles a)(f \<mapsto> (x, q, w))\<rparr>)"
| tells: "handles a f = Some (x, p, w) \<Longrightarrow> astep (Tell f) (Number p) a a"
| lengths: "handles a f = Some (x, p, w) \<Longrightarrow> store a x = Some bs \<Longrightarrow> astep (Length f) (Number (int (length bs))) a a"
| denies: "handles a f = Some (x, p, w) \<Longrightarrow> astep (Deny f) Void a (a\<lparr>handles := (handles a)(f \<mapsto> (x, p, True))\<rparr>)"
| allows: "handles a f = Some (x, p, w) \<Longrightarrow> astep (Allow f) Void a (a\<lparr>handles := (handles a)(f \<mapsto> (x, p, False))\<rparr>)"

inductive_cases astep_createE: "astep (Create name sz) r a a'"
inductive_cases astep_writeE: "astep (Write f buf) r a a'"

text \<open>The calls the users may make: names are C strings, handles are open, positions and sizes in range.\<close>

fun legal :: "fs_op \<Rightarrow> afs \<Rightarrow> bool" where
  "legal (Create name sz) a = (0 \<notin> set name \<and> 0 \<le> sz \<and> sz + 511 < 2147483648)"
| "legal (Open name) a = (0 \<notin> set name)"
| "legal (Remove name) a = (0 \<notin> set name)"
| "legal (Close f) a = (handles a f \<noteq> None)"
| "legal (Read f sz) a = (handles a f \<noteq> None \<and> 0 \<le> sz)"
| "legal (Write f buf) a = (handles a f \<noteq> None)"
| "legal (Seek f q) a = (handles a f \<noteq> None \<and> 0 \<le> q)"
| "legal (Tell f) a = (handles a f \<noteq> None)"
| "legal (Length f) a = (handles a f \<noteq> None)"
| "legal (Deny f) a = (handles a f \<noteq> None)"
| "legal (Allow f) a = (handles a f \<noteq> None)"

text \<open>The calls of the code; \<open>junk\<close> is what is on the stack.\<close>

fun run_op :: "u8 list \<Rightarrow> fs_op \<Rightarrow> fsys \<Rightarrow> (fs_res \<times> fsys) option" where
  "run_op junk (Create name sz) s = map_option (apfst Done) (filesys_create name sz junk s)"
| "run_op junk (Open name) s = map_option (apfst Handle) (filesys_open name junk s)"
| "run_op junk (Remove name) s = map_option (apfst Done) (filesys_remove name junk s)"
| "run_op junk (Close f) s = map_option (\<lambda>s'. (Void, s')) (file_close f s)"
| "run_op junk (Read f sz) s =
     map_option (\<lambda>(n, buf, s'). (Bytes (take (nat n) buf), s')) (file_read f (replicate (nat sz) 0) sz s)"
| "run_op junk (Write f buf) s = map_option (apfst Number) (file_write f buf (int (length buf)) s)"
| "run_op junk (Seek f q) s = map_option (\<lambda>s'. (Void, s')) (file_seek f q s)"
| "run_op junk (Tell f) s = map_option (\<lambda>n. (Number n, s)) (file_tell f s)"
| "run_op junk (Length f) s = map_option (\<lambda>n. (Number n, s)) (file_length f s)"
| "run_op junk (Deny f) s = map_option (\<lambda>s'. (Void, s')) (file_deny_write f s)"
| "run_op junk (Allow f) s = map_option (\<lambda>s'. (Void, s')) (file_allow_write f s)"

section \<open>The abstraction\<close>

definition abs_handles :: "fsys \<Rightarrow> nat \<rightharpoonup> u32 \<times> int \<times> bool" where
  "abs_handles s f = (if f = free_map_file s then None
     else case files s f of None \<Rightarrow> None
       | Some fl \<Rightarrow> map_option (\<lambda>x. (x, pos fl, deny_write fl)) (isec s (finode fl)))"

definition abs_fs :: "fsys \<Rightarrow> afs" where
  "abs_fs s = gc \<lparr>names = dir_map (root_content s), store = (\<lambda>x. Some (fcontent (fs_get s) x)), handles = abs_handles s\<rparr>"

lemma fs_abs_sel [simp]: "names (abs_fs s) = dir_map (root_content s)" "handles (abs_fs s) = abs_handles s"
  by (simp_all add: abs_fs_def gc_def)

lemma reach_gc [simp]: "reach (gc a) = reach a"
  by (simp add: gc_def reach_def)

lemma abs_store: "store (abs_fs s) x = (if x \<in> reach (abs_fs s) then Some (fcontent (fs_get s) x) else None)"
  by (simp add: abs_fs_def gc_def reach_def restrict_map_def)

lemma core_isec:
  assumes "core s R"
  shows "files s f = Some fl \<Longrightarrow> \<exists>x. isec s (finode fl) = Some x \<and> (f \<noteq> free_map_file s \<longrightarrow> x \<noteq> 0 \<and> x \<noteq> 1) \<and> finode fl \<le> fallocs s"
proof -
  assume f: "files s f = Some fl"
  then obtain i where "inodes s (finode fl) = Some i" "f \<noteq> free_map_file s \<longrightarrow> sector i \<noteq> 0 \<and> sector i \<noteq> 1"
    using handles_file [OF coreD(4) [OF assms] f] by (auto simp: file_ok_def)
  then show ?thesis using core_fallocs(1) [OF assms] by (auto simp: isec_Some)
qed

lemma abs_handles_Some:
  assumes "core s R"
  shows "abs_handles s f = Some (x, p, w) \<longleftrightarrow> f \<noteq> free_map_file s \<and>
    (\<exists>fl. files s f = Some fl \<and> pos fl = p \<and> deny_write fl = w \<and> isec s (finode fl) = Some x)"
  by (auto simp: abs_handles_def split: option.splits)

lemma reach_owned:
  assumes "core s R" "x \<in> reach (abs_fs s)"
  shows "x \<in> owned s" "x \<noteq> 0" "x \<noteq> 1"
proof -
  from assms(2) consider "x \<in> dir_secs s"
    | f fl where "files s f = Some fl" "f \<noteq> free_map_file s" "isec s (finode fl) = Some x"
    by (auto simp: reach_def dir_secs_def ran_def abs_handles_def split: if_splits option.splits)
  then have "x \<in> owned s \<and> x \<noteq> 0 \<and> x \<noteq> 1"
  proof cases
    case 1
    then show ?thesis using coreD(2) [OF assms(1)] by (auto simp: owned_def root_ok_def)
  next
    case 2
    then show ?thesis using core_isec [OF assms(1) 2(1)] by (auto simp: owned_def open_secs_isec)
  qed
  then show "x \<in> owned s" "x \<noteq> 0" "x \<noteq> 1" by blast+
qed

text \<open>Steps that leave the names, the contents and the handles alone.\<close>

lemma neutral_handles:
  assumes "core s R" "core s' R'" "neutral s s'" "files s' f = files s f"
  shows "abs_handles s' f = abs_handles s f"
proof (cases "files s f")
  case None
  then show ?thesis using assms(4) by (auto simp: abs_handles_def)
next
  case (Some fl)
  obtain x where x: "isec s (finode fl) = Some x" "finode fl \<le> fallocs s" using core_isec [OF assms(1) Some] by blast
  obtain y where y: "isec s' (finode fl) = Some y" using core_isec [OF assms(2), of f fl] Some assms(4) by auto
  then show ?thesis
    using neutralD(8) [OF assms(3) y x(2)] x(1) Some assms(4) neutralD(3) [OF assms(3)] by (simp add: abs_handles_def)
qed

lemma abs_eqI:
  assumes "names a = dir_map (root_content s)" "handles a = abs_handles s"
    "\<And>x. x \<in> reach (abs_fs s) \<Longrightarrow> store a x = Some (fcontent (fs_get s) x)"
    "\<And>x. x \<notin> reach (abs_fs s) \<Longrightarrow> store a x = None"
  shows "abs_fs s = a"
  using assms by (intro afs.equality) (auto simp: abs_store fun_eq_iff)

lemma reach_cong: "names a = names b \<Longrightarrow> handles a = handles b \<Longrightarrow> reach a = reach b"
  by (simp add: reach_def)

lemma neutral_content:
  assumes "core s' R'" "neutral s s'" "x \<in> reach (abs_fs s')"
  shows "fcontent (fs_get s') x = fcontent (fs_get s) x"
  using neutralD(6) [OF assms(2)] reach_owned [OF assms(1,3)] by blast

lemma neutral_abs:
  assumes "core s R" "core s' R'" "neutral s s'" "files s' = files s"
  shows "abs_fs s' = abs_fs s"
proof -
  have h: "abs_handles s' = abs_handles s" using neutral_handles [OF assms(1-3)] assms(4) by (simp add: fun_eq_iff)
  have rc: "dir_map (root_content s') = dir_map (root_content s)" by (rule neutralD(4) [OF assms(3)])
  have r: "reach (abs_fs s') = reach (abs_fs s)" by (rule reach_cong) (simp_all only: fs_abs_sel h rc)
  show ?thesis
  proof (rule abs_eqI)
    show "store (abs_fs s) x = Some (fcontent (fs_get s') x)" if "x \<in> reach (abs_fs s')" for x
      using that neutral_content [OF assms(2,3) that] r by (simp only: abs_store if_True)
    show "store (abs_fs s) x = None" if "x \<notin> reach (abs_fs s')" for x using that r by (simp only: abs_store if_False)
  qed (simp_all only: fs_abs_sel h rc)
qed

section \<open>The root directory\<close>

lemma io_core:
  assumes c: "core s R" and i: "io_only s s'" and g: "fs_get s' = fs_get s"
  shows "core s' R" "kept s s'"
proof -
  obtain d n where "s' = s\<lparr>devs := d, fallocs := n\<rparr>" "fallocs s \<le> n" using i by (auto simp: io_only_def)
  from outside_core [OF c this io_onlyD(9,10) [OF i]] g show "core s' R" "kept s s'" by auto
qed

definition dir_handle :: "fsys \<Rightarrow> nat \<Rightarrow> open_dir \<Rightarrow> inode \<Rightarrow> bool" where
  "dir_handle s d dr i \<longleftrightarrow> dirs s d = Some dr \<and> dir_in s (dinode dr) i \<and> data i = dino (fs_get s) 1 \<and>
     sector i = 1 \<and> deny_write_cnt i = 0"

lemma core_dir_handle:
  assumes c: "core s R" and d: "dirs s d = Some dr"
  shows "\<exists>i. dir_handle s d dr i"
proof -
  obtain i where i: "inodes s (dinode dr) = Some i" "sector i = 1" using handles_dir [OF coreD(4) [OF c] d] by blast
  have io: "inode_ok s R (dinode dr) i" by (rule table_inode [OF coreD(3) [OF c] i(1)])
  have "\<not> (\<exists>f fl. files s f = Some fl \<and> finode fl = dinode dr \<and> deny_write fl)"
  proof (intro notI, elim exE conjE)
    fix f fl assume f: "files s f = Some fl" "finode fl = dinode dr" "deny_write fl"
    then show False using handles_file [OF coreD(4) [OF c] f(1)] i by (auto simp: file_ok_def split: if_splits)
  qed
  then have none: "{f. \<exists>fl. files s f = Some fl \<and> finode fl = dinode dr \<and> deny_write fl} = {}" by blast
  have "denies s (dinode dr) = 0" unfolding denies_def none by simp
  then have "deny_write_cnt i = 0" using io by (simp add: inode_ok_def)
  moreover have "data i = dino (fs_get s) 1" using io i(2) by (simp add: inode_ok_def)
  moreover have "dir_in s (dinode dr) i"
    using disk_okD(1,2) [OF coreD(1) [OF c]] disk_invD(1) [OF disk_okD(5) [OF coreD(1) [OF c]] owned_base(2)] i calculation(2)
    by (simp add: dir_in_def)
  ultimately show ?thesis using d i(2) by (auto simp: dir_handle_def)
qed

lemma dir_handle_content: "dir_handle s d dr i \<Longrightarrow> icontent s i = root_content s"
  by (simp add: dir_handle_def fcontent_def)

lemma core_upd_0: "(\<lambda>_. 0 :: nat)(j := 0) = (\<lambda>_. 0)"
  by auto

lemma root_open:
  assumes c: "fs_inv s"
  shows "\<exists>d dr s'. dir_open_root s = Some (d, s') \<and> d \<noteq> 0 \<and> fs_inv s' \<and> neutral s s' \<and> dirs s' = (dirs s)(d \<mapsto> dr) \<and>
    dirs s d = None \<and> files s' = files s"
proof -
  have c: "core s (\<lambda>_. 0)" using assms by (simp add: fs_inv_def)
  obtain ino s1 where s1: "inode_open 1 s = Some (ino, s1)" "isec s1 ino = Some 1" "core s1 ((\<lambda>_. 0)(ino := Suc 0))"
    "neutral s s1" "files s1 = files s" "dirs s1 = dirs s"
    using inode_open_ok [OF c owned_base(2)] by auto
  obtain s2 where s2: "dir_open ino s1 = Some (Suc (fallocs s1), s2)" "core s2 (\<lambda>_. 0)" "neutral s1 s2"
    "dirs s2 = (dirs s1)(Suc (fallocs s1) \<mapsto> \<lparr>dinode = ino, dpos = 0\<rparr>)" "files s2 = files s1"
    "dirs s1 (Suc (fallocs s1)) = None"
    using dir_open_ok [OF s1(3) _ s1(2)] by (auto simp: core_upd_0)
  have "dir_open_root s = Some (Suc (fallocs s1), s2)" using s1(1) s2(1) by (simp add: dir_open_root_def ROOT_DIR_SECTOR_def)
  then show ?thesis
    using s1 s2 neutral_trans [OF s1(4) s2(3)]
    by (intro exI [of _ "Suc (fallocs s1)"] exI [of _ "\<lparr>dinode = ino, dpos = 0\<rparr>"] exI [of _ s2]) (simp add: fs_inv_def)
qed

text \<open>Closing the directory again.\<close>

lemma root_close:
  assumes "core s R" "dirs s d = Some dr"
  shows "\<exists>s'. dir_close d s = Some s' \<and> core s' R \<and> neutral s s' \<and> files s' = files s \<and> dirs s' = (dirs s)(d := None) \<and>
    abs_fs s' = abs_fs s"
  using dir_close_ok [OF assms] neutral_abs [OF assms(1)] by blast

lemma fs_core: "fs_inv s \<Longrightarrow> core s (\<lambda>_. 0)"
  by (simp add: fs_inv_def)

section \<open>Opening a file\<close>

lemma neutral_reach:
  assumes "core s R" "core s' R'" "neutral s s'"
    and "\<And>f. f \<noteq> g \<Longrightarrow> files s' f = files s f" "files s g = None" "files s' g = Some fl" "g \<noteq> free_map_file s"
    and "isec s' (finode fl) = Some x"
  shows "abs_handles s' = (abs_handles s)(g \<mapsto> (x, pos fl, deny_write fl))"
proof
  fix f show "abs_handles s' f = ((abs_handles s)(g \<mapsto> (x, pos fl, deny_write fl))) f"
  proof (cases "f = g")
    case True
    then show ?thesis using assms(6-8) neutralD(3) [OF assms(3)] by (simp add: abs_handles_def)
  next
    case False
    then show ?thesis using neutral_handles [OF assms(1-3), of f] assms(4) by simp
  qed
qed

lemma filesys_open_ok:
  assumes c: "fs_inv s" and j: "length junk = 20"
  shows "\<exists>f s'. filesys_open name junk s = Some (f, s') \<and> fs_inv s' \<and> astep (Open name) (Handle f) (abs_fs s) (abs_fs s')"
proof -
  obtain d dr s1 where s1: "dir_open_root s = Some (d, s1)" "d \<noteq> 0" "fs_inv s1" "neutral s s1" "dirs s1 = (dirs s)(d \<mapsto> dr)"
    "files s1 = files s" using root_open [OF c] by blast
  note c1 = fs_core [OF s1(3)]
  have a1: "abs_fs s1 = abs_fs s" by (rule neutral_abs [OF fs_core [OF c] c1 s1(4,6)])
  have d1: "dirs s1 d = Some dr" by (simp add: s1(5))
  obtain i where i: "dir_handle s1 d dr i" using core_dir_handle [OF c1 d1] by blast
  note ic = dir_handle_content [OF i]
  have ok: "dir_ok (icontent s1 i)" using coreD(2) [OF c1] by (simp add: ic root_ok_def)
  have di: "dir_in s1 (dinode dr) i" using i by (simp add: dir_handle_def)
  obtain s2 where s2: "io_only s1 s2" "fs_get s2 = fs_get s1"
    "dir_lookup d name junk s1 = (case dir_map (root_content s1) name of None \<Rightarrow> Some (0, s2) | Some sec \<Rightarrow> inode_open sec s2)"
    using dir_lookup_ok [OF d1 di j ok, of name] ic by auto
  note c2 = io_core [OF c1 s2(1,2)]
  note k2 = keptD [OF c2(2)]
  have a2: "abs_fs s2 = abs_fs s1" by (rule neutral_abs [OF c1 c2(1) kept_neutral [OF c2(2)] k2(3)])
  have d2: "dirs s2 d = Some dr" using k2(4) d1 by simp
  have nm: "names (abs_fs s) = dir_map (root_content s1)" using neutralD(4) [OF s1(4)] by simp
  show ?thesis
  proof (cases "dir_map (root_content s1) name")
    case None
    obtain s3 where s3: "dir_close d s2 = Some s3" "core s3 (\<lambda>_. 0)" "abs_fs s3 = abs_fs s2"
      using root_close [OF c2(1) d2] by blast
    define s4 where "s4 = s3\<lparr>fallocs := Suc (fallocs s3)\<rparr>"
    have b: "core s4 (\<lambda>_. 0)" "kept s3 s4" unfolding s4_def by (rule bump_core [OF s3(2)]; simp)+
    have a4: "abs_fs s4 = abs_fs s3" by (rule neutral_abs [OF s3(2) b(1) kept_neutral [OF b(2)] keptD(3) [OF b(2)]])
    have "filesys_open name junk s = Some (0, s4)"
      using s1(1,2) s2(3) None s3(1) disk_okD(2) [OF coreD(1) [OF s3(2)]]
      by (simp add: filesys_open_def file_open_def fs_alloc_def inode_close_def s4_def Let_def)
    moreover have "astep (Open name) (Handle 0) (abs_fs s) (abs_fs s)" using None nm by (intro astep.open_fails) simp
    ultimately show ?thesis using b(1) a4 s3(3) a2 a1 by (simp add: fs_inv_def)
  next
    case (Some x)
    have xo: "x \<in> owned s2" using Some k2(14) by (auto simp: owned_def dir_secs_def ran_def k2(9))
    obtain ino s3 where s3: "inode_open x s2 = Some (ino, s3)" "ino \<noteq> 0" "isec s3 ino = Some x"
      "core s3 ((\<lambda>_. 0)(ino := Suc 0))" "neutral s2 s3" "files s3 = files s2" "dirs s3 = dirs s2"
      using inode_open_ok [OF c2(1) xo] by auto
    have a3: "abs_fs s3 = abs_fs s2" by (rule neutral_abs [OF c2(1) s3(4,5,6)])
    have d3: "dirs s3 d = Some dr" using d2 s3(7) by simp
    obtain s4 where s4: "dir_close d s3 = Some s4" "core s4 ((\<lambda>_. 0)(ino := Suc 0))" "neutral s3 s4" "files s4 = files s3"
      "abs_fs s4 = abs_fs s3"
      using root_close [OF s3(4) d3] by blast
    have ino3: "ino \<le> fallocs s3" using core_fallocs(1) [OF s3(4)] s3(3) by (auto simp: isec_Some)
    have "inodes s4 ino \<noteq> None" using coreD(3) [OF s4(2)] unfolding table_ok_def by auto
    then obtain y where "isec s4 ino = Some y" by (auto simp: isec_def)
    then have is4: "isec s4 ino = Some x" using neutralD(8) [OF s4(3) _ ino3] s3(3) by auto
    have x01: "x \<noteq> 0" "x \<noteq> 1" using Some coreD(2) [OF c1] by (auto simp: root_ok_def dir_secs_def ran_def)
    let ?f = "Suc (fallocs s4)" and ?fl = "\<lparr>finode = ino, pos = 0, deny_write = False\<rparr>"
    obtain s5 where s5: "file_open ino s4 = Some (?f, s5)" "core s5 (\<lambda>_. 0)" "neutral s4 s5"
      "files s5 = (files s4)(?f \<mapsto> ?fl)" "isec s5 = isec s4" "files s4 ?f = None" "?f \<noteq> free_map_file s4"
      using file_open_ok [OF s4(2) _ is4 x01] by (auto simp: core_upd_0)
    have run: "filesys_open name junk s = Some (?f, s5)"
      using s1(1,2) s2(3) Some s3(1) s4(1) s5(1) by (simp add: filesys_open_def)
    have h5: "abs_handles s5 = (abs_handles s4)(?f \<mapsto> (x, 0, False))"
      using neutral_reach [OF s4(2) s5(2,3), of ?f ?fl x] s5(4-7) is4 by simp
    have rc5: "dir_map (root_content s5) = dir_map (root_content s4)" by (rule neutralD(4) [OF s5(3)])
    have n4: "names (abs_fs s4) = dir_map (root_content s1)" using s4(5) a3 a2 by simp
    have xr: "x \<in> reach (abs_fs s4)" using Some n4 by (auto simp: reach_def ran_def)
    have rs: "reach (abs_fs s5) = reach (abs_fs s4)"
    proof -
      have "abs_handles s4 ?f = None" using s5(6) by (simp add: abs_handles_def)
      then have "ran (abs_handles s5) = insert (x, 0, False) (ran (abs_handles s4))" unfolding h5 by simp
      then show ?thesis using xr unfolding reach_def fs_abs_sel rc5 by auto
    qed
    have "abs_fs s5 = (abs_fs s4)\<lparr>handles := (handles (abs_fs s4))(?f \<mapsto> (x, 0, False))\<rparr>"
    proof (rule abs_eqI)
      fix z
      show "store ((abs_fs s4)\<lparr>handles := (handles (abs_fs s4))(?f \<mapsto> (x, 0, False))\<rparr>) z = Some (fcontent (fs_get s5) z)"
        if z: "z \<in> reach (abs_fs s5)"
        using neutral_content [OF s5(2,3) z] z by (simp add: abs_store rs)
      show "store ((abs_fs s4)\<lparr>handles := (handles (abs_fs s4))(?f \<mapsto> (x, 0, False))\<rparr>) z = None"
        if z: "z \<notin> reach (abs_fs s5)" using z by (simp add: abs_store rs)
    qed (simp_all add: h5 rc5)
    moreover have "abs_fs s4 = abs_fs s" using s4(5) a3 a2 a1 by simp
    moreover have "handles (abs_fs s4) ?f = None" using s5(6) by (simp add: abs_handles_def)
    ultimately have "astep (Open name) (Handle ?f) (abs_fs s) (abs_fs s5)"
      using Some nm by (simp only:) (rule astep.opens, simp_all)
    then show ?thesis using run s5(2) by (auto simp: fs_inv_def)
  qed
qed

end
