(* ===== verification/Fs_Names.thy ===== *)
theory Fs_Names
  imports Filesys_Spec
begin

text \<open>
  \<open>filesys_create\<close> and \<open>filesys_remove\<close> refine the specification: they are the operations that write
  the root directory and the free map.
\<close>

section \<open>Writing the root directory\<close>

lemma root_write_core:
  assumes c: "core s R"
    and s': "s' = s\<lparr>devs := d, fallocs := n, inodes := I\<rparr>" "fallocs s \<le> n" "fs_dev_ok s'" "fs_size s' = fs_size s"
    and dev: "\<forall>x. x \<notin> secs (dino (fs_get s) 1) \<longrightarrow> fs_get s' x = fs_get s x"
    and root: "root_ok s'"
    and disk: "disk_inv (fs_get s) (fs_size s) (bm_used (free_map s)) (owned s')"
    and I: "\<And>ino. I ino = map_option (\<lambda>i. i\<lparr>removed := (sector i \<notin> {0, 1} \<union> dir_secs s')\<rparr>) (inodes s ino)"
  shows "core s' R" "isec s' = isec s"
    "x \<in> owned s' \<Longrightarrow> dino (fs_get s') x = dino (fs_get s) x"
    "x \<in> owned s' \<Longrightarrow> x \<noteq> 1 \<Longrightarrow> fcontent (fs_get s') x = fcontent (fs_get s) x"
proof -
  note k = disk_okD [OF coreD(1) [OF c]]
  note f = frame_dino [OF disk owned_base(2) dev]
  show "x \<in> owned s' \<Longrightarrow> dino (fs_get s') x = dino (fs_get s) x" for x using f(1) by blast
  show "x \<in> owned s' \<Longrightarrow> x \<noteq> 1 \<Longrightarrow> fcontent (fs_get s') x = fcontent (fs_get s) x" for x using f(3) by blast
  have In: "inodes s' = I" by (simp add: s'(1))
  show ise: "isec s' = isec s" by (simp add: isec_def In I option.map_comp comp_def fun_eq_iff)
  have r: "refs s' = refs s" "denies s' = denies s" using refs_cong [of s' s] by (simp_all add: s'(1))
  have "disk_inv (fs_get s') (fs_size s') (bm_used (free_map s')) (owned s')"
    using frame_disk_inv [OF disk owned_base(2) dev] s'(1) unfolding s'(4) by simp
  then have "disk_ok s'" using k(2-4,6) f(1) [OF owned_base(1)] s' unfolding disk_ok_def by (simp; blast)
  moreover have "table_ok s' R"
    unfolding table_ok_def
  proof (intro conjI allI impI)
    show "distinct (open_inodes s')" using coreD(3) [OF c] by (simp add: table_ok_def s'(1))
    have "dom I = dom (inodes s)" by (auto simp: I)
    then show "set (open_inodes s') = dom (inodes s')" using coreD(3) [OF c] by (simp add: table_ok_def s'(1))
    show "inode_ok s' R ino i'" if i': "inodes s' ino = Some i'" for ino i'
    proof -
      obtain i where i: "inodes s ino = Some i" "i' = i\<lparr>removed := (sector i \<notin> {0, 1} \<union> dir_secs s')\<rparr>"
        using i' by (auto simp: In I)
      have "sector i' \<in> owned s'" by (rule open_owned [OF i'])
      then have "dino (fs_get s') (sector i) = dino (fs_get s) (sector i)" using f(1) i(2) by simp
      then show ?thesis using table_inode [OF coreD(3) [OF c] i(1)] i(2) s'(1,2) unfolding inode_ok_def r by auto
    qed
    show "ino = ino'" if e: "inodes s' ino = Some i \<and> inodes s' ino' = Some i' \<and> sector i = sector i'" for ino ino' i i'
    proof -
      have "isec s ino = Some (sector i)" "isec s ino' = Some (sector i)"
        using e unfolding ise [symmetric] isec_Some by auto
      then show ?thesis using coreD(3) [OF c] unfolding table_ok_def isec_Some by metis
    qed
    show "inodes s' ino \<noteq> None" if "0 < R ino" for ino
      using coreD(3) [OF c] that by (auto simp: table_ok_def In I)
  qed
  moreover have "handles_ok s'"
  proof -
    have fl: "file_ok s' g fl" if "files s g = Some fl" for g fl
      by (rule file_ok_mono [OF handles_file [OF coreD(4) [OF c] that] ise]) (use s'(1,2) in simp_all)
    have dr: "0 < g \<and> g \<le> fallocs s' \<and> (\<exists>i. inodes s' (dinode dr) = Some i \<and> sector i = 1)" if g: "dirs s g = Some dr" for g dr
    proof -
      have "isec s' (dinode dr) = Some 1"
        unfolding ise using handles_dir [OF coreD(4) [OF c] g] by (auto simp: isec_Some)
      then show ?thesis using handles_dir [OF coreD(4) [OF c] g] s'(1,2) by (auto simp: isec_Some)
    qed
    have same: "files s' = files s" "dirs s' = dirs s" "free_map_file s' = free_map_file s" by (simp_all add: s'(1))
    show ?thesis using coreD(4) [OF c] fl dr unfolding handles_ok_def same by blast
  qed
  ultimately show "core s' R" using root by (simp add: core_def)
qed

text \<open>Giving back a sector that belongs to no inode.\<close>

lemma free_sector_ok:
  assumes c: "core s R" and sec: "unat sec \<in> bm_used (free_map s)" "\<forall>x\<in>owned s. sec \<notin> area (fs_get s) x"
  shows "\<exists>s'. free_map_release sec 1 s = Some s' \<and> core s' R \<and> neutral s s' \<and> files s' = files s \<and> dirs s' = dirs s"
proof -
  note k = disk_okD [OF coreD(1) [OF c]]
  obtain i where i: "map_file s i" "data i = dino (fs_get s) 0" using core_map_file [OF c] by blast
  obtain s' b where s': "free_map_release sec 1 s = Some s'" "bm_wf b" "bit_cnt b = bit_cnt (free_map s)"
    "bm_used b = bm_used (free_map s) - {unat sec}" "io_only (s\<lparr>free_map := b\<rparr>) s'"
    "\<forall>x. x \<notin> secs (data i) \<longrightarrow> fs_get s' x = fs_get s x"
    using free_map_release_ok [OF i(1) k(3,4), of sec 1] used_size [OF c sec(1)] sec(1) by auto
  define t where "t = s\<lparr>free_map := b\<rparr>"
  have tv: "owned t = owned s" "root_ok t = root_ok s" "table_ok s R \<Longrightarrow> table_ok t R" "handles_ok s \<Longrightarrow> handles_ok t"
    using views_cong [of t s] by (simp_all add: t_def)
  have "unat ` area (fs_get s) x \<subseteq> bm_used b" if x: "x \<in> owned s" for x
    using disk_invD(3) [OF k(5) x] sec(2) x unfolding s'(4) by (auto simp: word_unat_eq_iff [symmetric])
  then have "disk_inv (fs_get s) (fs_size s) (bm_used b) (owned s)" using k(5) unfolding disk_inv_def by blast
  then have "disk_ok t" using k(1-4,6) s'(2,3) tv(1) unfolding disk_ok_def by (simp add: t_def; blast)
  then have ct: "core t R" using c tv by (simp add: core_def)
  have g: "grown 0 t s'" using s'(2,5,6) i(2) by (intro io_grown) (simp_all add: t_def)
  have nt: "neutral s t" unfolding neutral_def using tv(1) by (simp add: t_def isec_def)
  have "neutral t s'" by (rule kept_neutral [OF grown_kept [OF ct g]])
  then have "neutral s s'" by (rule neutral_trans [OF nt])
  moreover have "files s' = files s" "dirs s' = dirs s" using grownD(3,4) [OF g] by (simp_all add: t_def)
  ultimately show ?thesis using s'(1) grown_core(1) [OF ct g] by auto
qed

section \<open>Adding a name\<close>

lemma flags_same:
  assumes "core s R" "\<And>i. i \<in> ran (inodes s) \<Longrightarrow> (sector i \<in> {0, 1} \<union> D) = (sector i \<in> {0, 1} \<union> dir_secs s)"
  shows "inodes s ino = map_option (\<lambda>i. i\<lparr>removed := (sector i \<notin> {0, 1} \<union> D)\<rparr>) (inodes s ino)"
proof (cases "inodes s ino")
  case (Some i)
  then have "i \<in> ran (inodes s)" by (auto simp: ran_def)
  then have "removed i \<longleftrightarrow> sector i \<notin> {0, 1} \<union> D"
    using table_inode [OF coreD(3) [OF assms(1)] Some] assms(2) unfolding inode_ok_def by blast
  then have "i\<lparr>removed := (sector i \<notin> {0, 1} \<union> D)\<rparr> = i" by simp
  then show ?thesis using Some by simp
qed simp

lemma dir_add_core:
  assumes c: "core s R" and d: "dirs s d = Some dr" and j: "length junk = 20" and n: "0 \<notin> set name"
    and sec: "sec \<notin> owned s" "fresh_inode s sec len"
  shows "\<exists>r s'. dir_add d name sec junk s = Some (r, s') \<and> core s' R \<and> dirs s' = dirs s \<and> files s' = files s \<and>
    (r \<longleftrightarrow> name_ok name \<and> dir_map (root_content s) name = None \<and>
      (\<exists>k<ents (root_content s). \<not> live (root_content s) k)) \<and>
    (\<not> r \<longrightarrow> neutral s s' \<and> bm_used (free_map s') = bm_used (free_map s) \<and> owned s' = owned s) \<and>
    (r \<longrightarrow> name_ok name \<and> dir_map (root_content s) name = None \<and> isec s' = isec s \<and>
      dir_map (root_content s') = (dir_map (root_content s))(name \<mapsto> sec) \<and> free_map_file s' = free_map_file s \<and>
      (\<forall>x\<in>owned s'. x \<noteq> 1 \<longrightarrow> fcontent (fs_get s') x = fcontent (fs_get s) x))"
proof -
  obtain i where i: "dir_handle s d dr i" using core_dir_handle [OF c d] by blast
  note ic = dir_handle_content [OF i]
  have di: "dir_in s (dinode dr) i" "deny_write_cnt i = 0" "data i = dino (fs_get s) 1" using i by (simp_all add: dir_handle_def)
  have ok: "dir_ok (icontent s i)" using coreD(2) [OF c] by (simp add: ic root_ok_def)
  obtain r s' where s': "dir_add d name sec junk s = Some (r, s')" "only_in i s s'" "dir_ok (icontent s' i)"
    "r \<longleftrightarrow> name_ok name \<and> dir_map (icontent s i) name = None \<and> (\<exists>k<ents (icontent s i). \<not> live (icontent s i) k)"
    "dir_map (icontent s' i) = (if r then (dir_map (icontent s i))(name \<mapsto> sec) else dir_map (icontent s i))"
    using dir_add_ok [OF d di(1,2) j ok n] by blast
  have io: "io_only s s'" and dev: "\<forall>x. x \<notin> secs (dino (fs_get s) 1) \<longrightarrow> fs_get s' x = fs_get s x"
    using s'(2) di(3) by (simp_all add: only_in_def)
  note k = disk_okD [OF coreD(1) [OF c]]
  note fr = frame_dino [OF k(5) owned_base(2) dev]
  have ic': "icontent s' i = root_content s'" unfolding fcontent_def fr(1) [OF owned_base(2)] by (simp add: di(3))
  note iod = io_onlyD [OF io]
  obtain dv n' where e: "s' = s\<lparr>devs := dv, fallocs := n'\<rparr>" "fallocs s \<le> n'" using io by (auto simp: io_only_def)
  then have e': "s' = s\<lparr>devs := dv, fallocs := n', inodes := inodes s\<rparr>" by simp
  have os: "open_secs s' = open_secs s" by (simp add: open_secs_def iod(1))
  have iss: "isec s' = isec s" by (rule table_isec_eq [OF iod(1)])
  show ?thesis
  proof (cases r)
    case False
    then have dm: "dir_map (root_content s') = dir_map (root_content s)" using s'(5) ic ic' by simp
    then have ds: "dir_secs s' = dir_secs s" by (simp add: dir_secs_def)
    have ow: "owned s' = owned s" by (simp add: owned_def ds os)
    have ro: "root_ok s'" using coreD(2) [OF c] s'(3) by (simp add: root_ok_def dm ds ic')
    have du: "disk_inv (fs_get s) (fs_size s) (bm_used (free_map s)) (owned s')" using k(5) by (simp add: ow)
    note rw = root_write_core [OF c e' e(2) iod(9,10) dev ro du flags_same [OF c]]
    have "core s' R" by (rule rw(1)) (simp add: ds)
    moreover have "neutral s s'"
      unfolding neutral_def using iod(6,7,10,11) dm ow fr(1,3) iss by simp
    ultimately show ?thesis using s'(1,4) False iod ow by (auto simp: ic)
  next
    case True
    have nn: "name_ok name" "dir_map (root_content s) name = None" using s'(4) True ic by simp_all
    have dm: "dir_map (root_content s') = (dir_map (root_content s))(name \<mapsto> sec)" using s'(5) True ic ic' by simp
    then have ds: "dir_secs s' = insert sec (dir_secs s)" using nn(2) by (simp add: dir_secs_def)
    have ow: "owned s' = insert sec (owned s)" by (simp add: owned_def ds os)
    have rs: "sec \<notin> ran (dir_map (root_content s))" "sec \<noteq> 0" "sec \<noteq> 1" using sec(1) by (auto simp: owned_def dir_secs_def)
    have "inj_on (dir_map (root_content s')) (dom (dir_map (root_content s')))"
      unfolding dm using coreD(2) [OF c] rs(1) nn(2) unfolding root_ok_def
      by (auto simp: inj_on_def ran_def domIff)
    then have ro: "root_ok s'" using coreD(2) [OF c] s'(3) rs by (simp add: root_ok_def ds ic')
    have du: "disk_inv (fs_get s) (fs_size s) (bm_used (free_map s)) (owned s')"
      unfolding ow using sec by (intro disk_inv_insert [OF k(5)]) (simp_all add: fresh_inode_def)
    note rw = root_write_core [OF c e' e(2) iod(9,10) dev ro du flags_same [OF c]]
    have fl: "i \<in> ran (inodes s) \<Longrightarrow> (sector i \<in> {0, 1} \<union> dir_secs s') = (sector i \<in> {0, 1} \<union> dir_secs s)" for i
      using sec(1) ds by (auto simp: owned_def open_secs_def)
    have "core s' R" by (rule rw(1) [OF fl])
    moreover have "fcontent (fs_get s') x = fcontent (fs_get s) x" if "x \<in> owned s'" "x \<noteq> 1" for x
      by (rule rw(4) [OF fl that])
    ultimately show ?thesis using s'(1,4) True iod nn dm iss by (auto simp: ic)
  qed
qed

section \<open>Creating a file\<close>

lemma grown_neutral: "core s R \<Longrightarrow> grown 0 s s' \<Longrightarrow> neutral s s'"
  by (rule kept_neutral [OF grown_kept])

text \<open>After a failure: the sector of the inode goes back, the directory is closed.\<close>

lemma create_fails:
  assumes c: "core s (\<lambda>_. 0)" and sec: "unat sec \<in> bm_used (free_map s)" "\<forall>x\<in>owned s. sec \<notin> area (fs_get s) x"
    and d: "dirs s d = Some dr"
  shows "\<exists>s3 s4. free_map_release sec 1 s = Some s3 \<and> dir_close d s3 = Some s4 \<and> fs_inv s4 \<and> abs_fs s4 = abs_fs s"
proof -
  obtain s3 where s3: "free_map_release sec 1 s = Some s3" "core s3 (\<lambda>_. 0)" "neutral s s3" "files s3 = files s" "dirs s3 = dirs s"
    using free_sector_ok [OF c sec] by blast
  have d3: "dirs s3 d = Some dr" using d s3(5) by simp
  obtain s4 where "dir_close d s3 = Some s4" "core s4 (\<lambda>_. 0)" "abs_fs s4 = abs_fs s3"
    using root_close [OF s3(2) d3] by blast
  then show ?thesis using s3(1) neutral_abs [OF c s3(2,3,4)] by (auto simp: fs_inv_def)
qed

lemma unowned_area:
  assumes "core s R" "unat sec \<notin> bm_used (free_map s)"
  shows "\<forall>x\<in>owned s. sec \<notin> area (fs_get s) x"
  using area_used [OF assms(1)] assms(2) by blast

text \<open>The state after the name has been entered, seen from the state before.\<close>

lemma create_abs:
  assumes c: "core s (\<lambda>_. 0)" "core s' (\<lambda>_. 0)" and same: "files s' = files s" "free_map_file s' = free_map_file s" "isec s' = isec s"
    and nm: "dir_map (root_content s) name = None" "dir_map (root_content s') = (dir_map (root_content s))(name \<mapsto> sec)"
    and sec: "sec \<notin> owned s" "fcontent (fs_get s') sec = bs"
    and fc: "\<forall>x\<in>reach (abs_fs s). fcontent (fs_get s') x = fcontent (fs_get s) x"
  shows "abs_fs s' = (abs_fs s)\<lparr>names := (names (abs_fs s))(name \<mapsto> sec), store := (store (abs_fs s))(sec \<mapsto> bs)\<rparr>"
    "sec \<notin> reach (abs_fs s)"
proof -
  have "abs_handles s' f = abs_handles s f" for f unfolding abs_handles_def same ..
  then have h: "abs_handles s' = abs_handles s" by blast
  show ns: "sec \<notin> reach (abs_fs s)" using reach_owned(1) [OF c(1)] sec(1) by blast
  have r: "reach (abs_fs s') = insert sec (reach (abs_fs s))"
    using nm(1) by (simp add: reach_def h nm(2))
  show "abs_fs s' = (abs_fs s)\<lparr>names := (names (abs_fs s))(name \<mapsto> sec), store := (store (abs_fs s))(sec \<mapsto> bs)\<rparr>"
  proof (rule abs_eqI)
    fix x
    show "store ((abs_fs s)\<lparr>names := (names (abs_fs s))(name \<mapsto> sec), store := (store (abs_fs s))(sec \<mapsto> bs)\<rparr>) x =
        Some (fcontent (fs_get s') x)" if "x \<in> reach (abs_fs s')"
      using that r sec(2) fc ns by (auto simp: abs_store)
    show "store ((abs_fs s)\<lparr>names := (names (abs_fs s))(name \<mapsto> sec), store := (store (abs_fs s))(sec \<mapsto> bs)\<rparr>) x = None"
      if "x \<notin> reach (abs_fs s')" using that r by (auto simp: abs_store)
  qed (simp_all add: h nm(2))
qed

text \<open>When a file can be created: the name is new, the directory has a free entry, and the disk has room.\<close>

definition creatable :: "fsys \<Rightarrow> u8 list \<Rightarrow> int \<Rightarrow> bool" where
  "creatable s name len \<longleftrightarrow> name_ok name \<and> dir_map (root_content s) name = None \<and>
     (\<exists>k<ents (root_content s). \<not> live (root_content s) k) \<and>
     (\<exists>x. free_run s (bm_used (free_map s)) 1 x \<and> (\<forall>y. free_run s (bm_used (free_map s)) 1 y \<longrightarrow> x \<le> y) \<and>
       (\<exists>k. free_run s (insert x (bm_used (free_map s))) ((nat len + 511) div 512) k))"

lemma creatable_first:
  assumes "free_run s (bm_used (free_map s)) 1 x" "\<forall>y. free_run s (bm_used (free_map s)) 1 y \<longrightarrow> x \<le> y"
  shows "creatable s name len \<longleftrightarrow> name_ok name \<and> dir_map (root_content s) name = None \<and>
    (\<exists>k<ents (root_content s). \<not> live (root_content s) k) \<and>
    (\<exists>k. free_run s (insert x (bm_used (free_map s))) ((nat len + 511) div 512) k)"
  unfolding creatable_def using assms by (metis le_antisym)

lemma inode_open_frame: "inode_open x s = Some (ino, s') \<Longrightarrow> free_map s' = free_map s"
  by (auto simp: inode_open_def inode_reopen_def set_inode_def fs_alloc_def Let_def split: option.splits if_splits)

lemma root_open_frame:
  assumes c: "fs_inv s" and o: "dir_open_root s = Some (d, s')" "d \<noteq> 0"
  shows "free_map s' = free_map s" "root_content s' = root_content s" "fs_size s' = fs_size s"
proof -
  obtain ino s1 where s1: "inode_open 1 s = Some (ino, s1)" "ino \<noteq> 0" "fs_get s1 = fs_get s" "neutral s s1"
    using inode_open_ok [OF fs_core [OF c] owned_base(2)] by blast
  then have d: "dir_open ino s1 = Some (d, s')" using o(1) by (simp add: dir_open_root_def ROOT_DIR_SECTOR_def)
  have k: "free_map s' = free_map s1 \<and> devs s' = devs s1 \<and> fs_device s' = fs_device s1"
    using d s1(2) o(2) by (auto simp: dir_open_def fs_alloc_def Let_def Option.bind_eq_Some_conv split: if_splits)
  show "free_map s' = free_map s" using k inode_open_frame [OF s1(1)] by simp
  show "root_content s' = root_content s" using k s1(3) by simp
  show "fs_size s' = fs_size s" using k neutralD(1,2) [OF s1(4)] by simp
qed

lemma filesys_create_ok:
  assumes c: "fs_inv s" and j: "length junk = 20" and n: "0 \<notin> set name" and len: "0 \<le> len" "len + 511 < 2147483648"
  shows "\<exists>r s'. filesys_create name len junk s = Some (r, s') \<and> fs_inv s' \<and>
    astep (Create name len) (Done r) (abs_fs s) (abs_fs s') \<and> (r \<longleftrightarrow> creatable s name len)"
proof -
  obtain d dr s1 where s1: "dir_open_root s = Some (d, s1)" "d \<noteq> 0" "fs_inv s1" "neutral s s1" "dirs s1 = (dirs s)(d \<mapsto> dr)"
    "files s1 = files s" using root_open [OF c] by blast
  note c1 = fs_core [OF s1(3)]
  have a1: "abs_fs s1 = abs_fs s" by (rule neutral_abs [OF fs_core [OF c] c1 s1(4,6)])
  have d1: "dirs s1 d = Some dr" by (simp add: s1(5))
  note rf = root_open_frame [OF c s1(1,2)]
  have fr1: "free_run s1 U k x \<longleftrightarrow> free_run s U k x" for U k x by (simp add: free_run_def rf(3))
  from free_map_allocate_ok [OF c1, of 1] show ?thesis
  proof (elim disjE exE conjE)
    assume a: "free_map_allocate 1 s1 = Some (None, s1)" "\<forall>j. \<not> free_run s1 (bm_used (free_map s1)) 1 j"
    then have nc: "\<not> creatable s name len" by (simp add: creatable_def fr1 rf(1))
    obtain s2 where "dir_close d s1 = Some s2" "core s2 (\<lambda>_. 0)" "abs_fs s2 = abs_fs s1" using root_close [OF c1 d1] by blast
    then show ?thesis
      using a(1) nc s1(1,2) a1 astep.create_fails [of name len "abs_fs s"] by (auto simp: filesys_create_def fs_inv_def)
  next
    fix sec t1
    assume a: "free_map_allocate 1 s1 = Some (Some sec, t1)" "grown 0 s1 t1" "unat sec + 1 \<le> fs_size s1"
      "{unat sec..<unat sec + 1} \<inter> bm_used (free_map s1) = {}"
      "bm_used (free_map t1) = bm_used (free_map s1) \<union> {unat sec..<unat sec + 1}"
      "\<forall>j. free_run s1 (bm_used (free_map s1)) 1 j \<longrightarrow> unat sec \<le> j"
    have ct1: "core t1 (\<lambda>_. 0)" by (rule grown_core(1) [OF c1 a(2)]) simp_all
    have kt1: "kept s1 t1" by (rule grown_kept [OF c1 a(2)])
    have at1: "abs_fs t1 = abs_fs s" using neutral_abs [OF c1 ct1 kept_neutral [OF kt1] keptD(3) [OF kt1]] a1 by simp
    have un: "unat sec \<notin> bm_used (free_map s1)" using a(4) by auto
    have ns1: "\<forall>x\<in>owned s1. sec \<notin> area (fs_get s1) x" by (rule unowned_area [OF c1 un])
    have nt1: "\<forall>x\<in>owned t1. sec \<notin> area (fs_get t1) x" using ns1 kept_area [OF kt1] keptD(8) [OF kt1] by simp
    have ut1: "unat sec \<in> bm_used (free_map t1)" by (simp add: a(5))
    have "0 \<in> area (fs_get s1) 0" by (simp add: area_def)
    then have sec0: "sec \<noteq> 0" using ns1 owned_base(1) by blast
    obtain r2 t2 where t2: "inode_create sec len t1 = Some (r2, t2)" "core t2 (\<lambda>_. 0)" "kept t1 t2" "r2 \<longrightarrow> fresh_inode t2 sec len"
      "r2 \<longleftrightarrow> (\<exists>k. free_run t1 (bm_used (free_map t1)) ((nat len + 511) div 512) k)"
      using inode_create_ok [OF ct1 len ut1 nt1] by blast
    have first: "free_run s (bm_used (free_map s)) 1 (unat sec)"
      "\<forall>y. free_run s (bm_used (free_map s)) 1 y \<longrightarrow> unat sec \<le> y"
      using a(3,4,6) by (simp_all add: fr1 rf(1)) (simp add: free_run_def rf)
    have u1: "bm_used (free_map t1) = insert (unat sec) (bm_used (free_map s))" using a(5) by (simp add: rf(1))
    have rc2: "root_content t2 = root_content s" using keptD(9) [OF t2(3)] keptD(9) [OF kt1] rf(2) by simp
    have n1: "fs_size t1 = fs_size s" using keptD(7) [OF kt1] rf(3) by simp
    have fre: "free_run t1 U k x \<longleftrightarrow> free_run s U k x" for U k x unfolding free_run_def n1 ..
    have cr: "creatable s name len \<longleftrightarrow> name_ok name \<and> dir_map (root_content t2) name = None \<and>
      (\<exists>k<ents (root_content t2). \<not> live (root_content t2) k) \<and> r2"
      unfolding creatable_first [OF first] rc2 t2(5) u1 fre by (rule refl)
    have at2: "abs_fs t2 = abs_fs s"
      using neutral_abs [OF ct1 t2(2) kept_neutral [OF t2(3)] keptD(3) [OF t2(3)]] at1 by simp
    have nt2: "\<forall>x\<in>owned t2. sec \<notin> area (fs_get t2) x" using nt1 kept_area [OF t2(3)] keptD(8) [OF t2(3)] by simp
    have ut2: "unat sec \<in> bm_used (free_map t2)" using ut1 keptD(13) [OF t2(3)] by blast
    have d2: "dirs t2 d = Some dr" using d1 keptD(4) [OF kt1] keptD(4) [OF t2(3)] by simp
    show ?thesis
    proof (cases r2)
      case False
      obtain s3 s4 where "free_map_release sec 1 t2 = Some s3" "dir_close d s3 = Some s4" "fs_inv s4" "abs_fs s4 = abs_fs t2"
        using create_fails [OF t2(2) ut2 nt2 d2] by blast
      then show ?thesis
        using s1(1,2) a(1) t2(1) False sec0 at2 cr astep.create_fails [of name len "abs_fs s"]
        by (auto simp: filesys_create_def)
    next
      case True
      have so: "sec \<notin> owned t2" using nt2 by (auto simp: area_def)
      have fr: "fresh_inode t2 sec len" using t2(4) True by simp
      obtain r t3 where t3: "dir_add d name sec junk t2 = Some (r, t3)" "core t3 (\<lambda>_. 0)" "dirs t3 = dirs t2" "files t3 = files t2"
        "r \<longleftrightarrow> name_ok name \<and> dir_map (root_content t2) name = None \<and>
          (\<exists>k<ents (root_content t2). \<not> live (root_content t2) k)"
        "\<not> r \<longrightarrow> neutral t2 t3 \<and> bm_used (free_map t3) = bm_used (free_map t2) \<and> owned t3 = owned t2"
        "r \<longrightarrow> name_ok name \<and> dir_map (root_content t2) name = None \<and> isec t3 = isec t2 \<and>
          dir_map (root_content t3) = (dir_map (root_content t2))(name \<mapsto> sec) \<and> free_map_file t3 = free_map_file t2 \<and>
          (\<forall>x\<in>owned t3. x \<noteq> 1 \<longrightarrow> fcontent (fs_get t3) x = fcontent (fs_get t2) x)"
        using dir_add_core [OF t2(2) d2 j n so fr] by (elim exE conjE) (rule that; assumption)
      have d3: "dirs t3 d = Some dr" using d2 t3(3) by simp
      show ?thesis
      proof (cases r)
        case False
        then have nt: "neutral t2 t3" "bm_used (free_map t3) = bm_used (free_map t2)" "owned t3 = owned t2" using t3(6) by simp_all
        have nc: "\<not> creatable s name len" unfolding cr using t3(5) False by blast
        have nt3: "\<forall>x\<in>owned t3. sec \<notin> area (fs_get t3) x"
          using nt2 neutralD(7) [OF nt(1)] unfolding nt(3) area_def by simp
        have ut3: "unat sec \<in> bm_used (free_map t3)" using ut2 nt(2) by simp
        obtain s3 s4 where "free_map_release sec 1 t3 = Some s3" "dir_close d s3 = Some s4" "fs_inv s4" "abs_fs s4 = abs_fs t3"
          using create_fails [OF t3(2) ut3 nt3 d3] by blast
        then show ?thesis
          using s1(1,2) a(1) t2(1) True t3(1) False nc sec0 at2 neutral_abs [OF t2(2) t3(2) nt(1) t3(4)]
            astep.create_fails [of name len "abs_fs s"]
          by (auto simp: filesys_create_def)
      next
        case r: True
        then have p: "name_ok name" "dir_map (root_content t2) name = None" "isec t3 = isec t2"
          "dir_map (root_content t3) = (dir_map (root_content t2))(name \<mapsto> sec)" "free_map_file t3 = free_map_file t2"
          "\<forall>x\<in>owned t3. x \<noteq> 1 \<longrightarrow> fcontent (fs_get t3) x = fcontent (fs_get t2) x" using t3(7) by simp_all
        have "sec \<in> dir_secs t3" using p(2,4) by (simp add: dir_secs_def)
        then have s3: "sec \<in> owned t3" "sec \<noteq> 1" using so by (auto simp: owned_def)
        have fs: "fcontent (fs_get t3) sec = replicate (nat len) 0" using p(6) s3 fr by (simp add: fresh_inode_def)
        have "dir_secs t2 \<subseteq> dir_secs t3" "open_secs t3 = open_secs t2"
          using p(2) by (simp_all add: dir_secs_def open_secs_isec p(3,4) subset_insertI)
        then have osub: "owned t2 \<subseteq> owned t3" unfolding owned_def by blast
        have fc: "\<forall>x\<in>reach (abs_fs t2). fcontent (fs_get t3) x = fcontent (fs_get t2) x"
          using p(6) osub reach_owned [OF t2(2)] by blast
        note ab = create_abs [OF t2(2) t3(2,4) p(5,3,2,4) so fs fc]
        obtain s4 where s4: "dir_close d t3 = Some s4" "core s4 (\<lambda>_. 0)" "abs_fs s4 = abs_fs t3" using root_close [OF t3(2) d3] by blast
        have "filesys_create name len junk s = Some (True, s4)"
          using s1(1,2) a(1) t2(1) True t3(1) r s4(1) by (simp add: filesys_create_def)
        moreover have "names (abs_fs t2) name = None" using p(2) by simp
        then have nn: "names (abs_fs s) name = None" unfolding at2 .
        have "astep (Create name len) (Done True) (abs_fs s) (abs_fs t3)"
          using ab(2) unfolding ab(1) at2 by (intro astep.creates p(1) nn)
        moreover have "creatable s name len" using cr True t3(5) r by simp
        ultimately show ?thesis using s4(2,3) by (auto simp: fs_inv_def)
      qed
    qed
  qed
qed

section \<open>Removing a file\<close>

lemma ran_remove:
  assumes "inj_on m (dom m)" "m k = Some x"
  shows "ran (m(k := None)) = ran m - {x}"
  using assms by (auto simp: ran_def inj_on_def domIff) (metis option.inject)

text \<open>The write that erases the entry, and the mark on the inode.\<close>

lemma erase_core:
  assumes c: "core s R" and i: "dir_handle s d dr i" and k: "live (root_content s) k"
    and ino: "isec s ino = Some (ent_sec (root_content s) k)"
  shows "\<exists>s3 s4. inode_write_at (dinode dr) (entry_bytes ((entry_of (ent (root_content s) k))\<lparr>in_use := 0\<rparr>)) entry_size (20 * int k) s
      = Some (entry_size, s3) \<and> inode_remove ino s3 = Some s4 \<and> core s4 R \<and> isec s4 = isec s \<and> owned s4 = owned s \<and>
    files s4 = files s \<and> dirs s4 = dirs s \<and> free_map_file s4 = free_map_file s \<and> fallocs s \<le> fallocs s4 \<and>
    dir_map (root_content s4) = (dir_map (root_content s))(ent_name (root_content s) k := None) \<and>
    (\<forall>y\<in>owned s. y \<noteq> 1 \<longrightarrow> fcontent (fs_get s4) y = fcontent (fs_get s) y)"
proof -
  let ?c = "root_content s" and ?x = "ent_sec (root_content s) k"
  define e where "e = entry_bytes ((entry_of (ent ?c k))\<lparr>in_use := 0\<rparr>)"
  note ic = dir_handle_content [OF i]
  have di: "dir_in s (dinode dr) i" "deny_write_cnt i = 0" "data i = dino (fs_get s) 1" using i by (simp_all add: dir_handle_def)
  have ro: "dir_ok ?c" "inj_on (dir_map ?c) (dom (dir_map ?c))" "0 \<notin> dir_secs s" "1 \<notin> dir_secs s"
    using coreD(2) [OF c] by (simp_all add: root_ok_def)
  have kc: "k < ents ?c" using k by (simp add: live_def)
  have el: "length e = 20" "e ! 19 = 0" unfolding e_def using erased_entry [OF length_ent [OF kc]] by simp_all
  have kic: "k \<le> ents (icontent s i)" using kc by (simp add: ic)
  obtain s3 where s3: "inode_write_at (dinode dr) e entry_size (20 * int k) s = Some (entry_size, s3)" "only_in i s s3"
    "icontent s3 i = put_at ?c (20 * k) e"
    using dir_write_entry [OF di(1,2) el(1) kic] kc ic by auto
  have io: "io_only s s3" and dev: "\<forall>y. y \<notin> secs (dino (fs_get s) 1) \<longrightarrow> fs_get s3 y = fs_get s y"
    using s3(2) di(3) by (simp_all add: only_in_def)
  note iod = io_onlyD [OF io]
  obtain dv n where e3: "s3 = s\<lparr>devs := dv, fallocs := n\<rparr>" "fallocs s \<le> n" using io by (auto simp: io_only_def)
  obtain i0 where i0: "inodes s ino = Some i0" "sector i0 = ?x" using ino by (auto simp: isec_Some)
  define I where "I = (inodes s)(ino \<mapsto> i0\<lparr>removed := True\<rparr>)"
  define s4 where "s4 = s\<lparr>devs := dv, fallocs := n, inodes := I\<rparr>"
  have rm: "inode_remove ino s3 = Some s4"
    by (simp add: inode_remove_def set_inode_def e3(1) i0(1) s4_def I_def)
  have g4: "fs_get s4 = fs_get s3" "fs_size s4 = fs_size s3" "fs_dev_ok s4 = fs_dev_ok s3" by (simp_all add: s4_def e3(1))
  note fr = frame_dino [OF disk_okD(5) [OF coreD(1) [OF c]] owned_base(2) dev]
  have "icontent s3 i = fcontent (fs_get s3) 1" unfolding fcontent_def fr(1) [OF owned_base(2)] by (simp add: di(3))
  then have rc4: "root_content s4 = put_at ?c (20 * k) e" unfolding g4(1) using s3(3) by simp
  note de = dir_remove_entry [OF ro(1) k el]
  have dm: "dir_map (root_content s4) = (dir_map ?c)(ent_name ?c k := None)" unfolding rc4 by (rule de(2))
  have mk: "dir_map ?c (ent_name ?c k) = Some ?x" unfolding dir_map_Some [OF ro(1)] using k by blast
  have ds: "dir_secs s4 = dir_secs s - {?x}" unfolding dir_secs_def dm by (rule ran_remove [OF ro(2) mk])
  have xs: "?x \<in> dir_secs s" using mk by (auto simp: dir_secs_def ran_def)
  have ise: "isec s4 j = isec s j" for j using i0(1) by (simp add: isec_def s4_def I_def)
  have xo: "?x \<in> open_secs s" using ino unfolding open_secs_isec by blast
  have os: "open_secs s4 = open_secs s" unfolding open_secs_isec ise ..
  have ow: "owned s4 = owned s" unfolding owned_def ds os using xo by blast
  have "inj_on (dir_map (root_content s4)) (dom (dir_map (root_content s4)))"
    unfolding dm using ro(2) by (auto simp: inj_on_def)
  then have ro4: "root_ok s4" using de(1) ro(3,4) ds by (simp add: root_ok_def rc4)
  have flags: "I j = map_option (\<lambda>i. i\<lparr>removed := (sector i \<notin> {0, 1} \<union> dir_secs s4)\<rparr>) (inodes s j)" for j
  proof (cases "j = ino")
    case True
    have "?x \<noteq> 0" "?x \<noteq> 1" using xs ro(3,4) by metis+
    then show ?thesis using True i0 ds by (simp add: I_def)
  next
    case False
    show ?thesis
    proof (cases "inodes s j")
      case None
      then show ?thesis using False by (simp add: I_def)
    next
      case (Some i1)
      have "sector i1 \<noteq> ?x" using False Some i0 coreD(3) [OF c] unfolding table_ok_def by metis
      then have "removed i1 \<longleftrightarrow> sector i1 \<notin> {0, 1} \<union> dir_secs s4"
        using table_inode [OF coreD(3) [OF c] Some] unfolding inode_ok_def ds by blast
      then have "i1\<lparr>removed := (sector i1 \<notin> {0, 1} \<union> dir_secs s4)\<rparr> = i1" by simp
      then show ?thesis using False Some by (simp add: I_def)
    qed
  qed
  have d4: "\<forall>y. y \<notin> secs (dino (fs_get s) 1) \<longrightarrow> fs_get s4 y = fs_get s y" unfolding g4(1) by (rule dev)
  have dk: "disk_inv (fs_get s) (fs_size s) (bm_used (free_map s)) (owned s4)"
    using disk_okD(5) [OF coreD(1) [OF c]] by (simp add: ow)
  have sz: "fs_dev_ok s4" "fs_size s4 = fs_size s" using iod(9,10) g4 by simp_all
  note rw = root_write_core [OF c s4_def e3(2) sz d4 ro4 dk flags]
  have "files s4 = files s" "dirs s4 = dirs s" "free_map_file s4 = free_map_file s" "fallocs s \<le> fallocs s4"
    using e3(2) by (simp_all add: s4_def)
  then show ?thesis using s3(1) rm rw ow dm ise unfolding e_def by auto
qed

lemma dir_remove_core:
  assumes c: "core s R" and d: "dirs s d = Some dr" and j: "length junk = 20"
  shows "\<exists>r s'. dir_remove d name junk s = Some (r, s') \<and> core s' R \<and> dirs s' = dirs s \<and>
    (r \<longleftrightarrow> names (abs_fs s) name \<noteq> None) \<and>
    abs_fs s' = (if r then gc ((abs_fs s)\<lparr>names := (names (abs_fs s))(name := None)\<rparr>) else abs_fs s)"
proof -
  obtain i where i: "dir_handle s d dr i" using core_dir_handle [OF c d] by blast
  note ic = dir_handle_content [OF i]
  have di: "dir_in s (dinode dr) i" using i by (simp add: dir_handle_def)
  have ok: "dir_ok (icontent s i)" using coreD(2) [OF c] by (simp add: ic root_ok_def)
  from lookup_ok [OF d di j ok, of name, unfolded ic] obtain s1 where s1: "io_only s s1" "fs_get s1 = fs_get s"
    "case dir_map (root_content s) name of None \<Rightarrow> lookup d name junk s = Some (None, s1)
     | Some sec \<Rightarrow> (\<exists>k. live (root_content s) k \<and> ent_name (root_content s) k = name \<and> ent_sec (root_content s) k = sec \<and>
         lookup d name junk s = Some (Some (entry_of (ent (root_content s) k), 20 * int k), s1))" by blast
  note c1 = io_core [OF c s1(1,2)]
  note k1 = keptD [OF c1(2)]
  have a1: "abs_fs s1 = abs_fs s" by (rule neutral_abs [OF c c1(1) kept_neutral [OF c1(2)] k1(3)])
  have rc1: "root_content s1 = root_content s" by (rule k1(9))
  show ?thesis
  proof (cases "dir_map (root_content s) name")
    case None
    then have "dir_remove d name junk s = Some (False, s1)" using d s1(3) by (simp add: dir_remove_def)
    then show ?thesis using c1(1) k1(4) None a1 by auto
  next
    case (Some x)
    then obtain k where k: "live (root_content s) k" "ent_name (root_content s) k = name" "ent_sec (root_content s) k = x"
      "lookup d name junk s = Some (Some (entry_of (ent (root_content s) k), 20 * int k), s1)" using s1(3) by auto
    have xo: "x \<in> owned s1" using Some k1(8,14) by (auto simp: owned_def dir_secs_def ran_def)
    obtain ino s2 where s2: "inode_open x s1 = Some (ino, s2)" "ino \<noteq> 0" "isec s2 ino = Some x"
      "core s2 (R(ino := Suc (R ino)))" "neutral s1 s2" "files s2 = files s1" "dirs s2 = dirs s1" "fs_get s2 = fs_get s1"
      using inode_open_ok [OF c1(1) xo] by auto
    have d2: "dirs s2 d = Some dr" using d k1(4) s2(7) by simp
    obtain i2 where i2: "dir_handle s2 d dr i2" using core_dir_handle [OF s2(4) d2] by blast
    have rc2: "root_content s2 = root_content s" unfolding s2(8) by (rule rc1)
    have xk: "isec s2 ino = Some (ent_sec (root_content s) k)" using s2(3) k(3) by simp
    obtain s3 s4 where s4: "inode_write_at (dinode dr) (entry_bytes ((entry_of (ent (root_content s) k))\<lparr>in_use := 0\<rparr>)) entry_size (20 * int k) s2
        = Some (entry_size, s3)" "inode_remove ino s3 = Some s4" "core s4 (R(ino := Suc (R ino)))" "isec s4 = isec s2" "owned s4 = owned s2"
      "files s4 = files s2" "dirs s4 = dirs s2" "free_map_file s4 = free_map_file s2" "fallocs s2 \<le> fallocs s4"
      "dir_map (root_content s4) = (dir_map (root_content s))(ent_name (root_content s) k := None)"
      "\<forall>y\<in>owned s2. y \<noteq> 1 \<longrightarrow> fcontent (fs_get s4) y = fcontent (fs_get s2) y"
      using erase_core [OF s2(4) i2, unfolded rc2, OF k(1) xk] by (elim exE conjE) (rule that; assumption)
    obtain s5 where s5: "inode_close ino s4 = Some s5" "core s5 ((R(ino := Suc (R ino)))(ino := (R(ino := Suc (R ino))) ino - 1))"
      "neutral s4 s5" "files s5 = files s4" "dirs s5 = dirs s4"
      using inode_close_ok [OF s4(3), of ino] by auto
    have c5: "core s5 R" using s5(2) by (simp add: fun_upd_idem)
    have run: "dir_remove d name junk s = Some (True, s5)"
      using d k(4) s2(1,2) s4(1,2) s5(1) k(3) by (simp add: dir_remove_def entry_of_def ent_sec_def)
    have h2: "abs_handles s2 f = abs_handles s f" for f
      using neutral_handles [OF c1(1) s2(4,5), of f] neutral_handles [OF c c1(1) kept_neutral [OF c1(2)], of f] s2(6) k1(3) by simp
    have h4: "abs_handles s4 f = abs_handles s2 f" for f unfolding abs_handles_def s4(4,6,8) ..
    have h: "abs_handles s5 = abs_handles s"
      using neutral_handles [OF s4(3) c5 s5(3)] h4 h2 s5(4) by (simp add: fun_eq_iff)
    have dm: "dir_map (root_content s5) = (dir_map (root_content s))(name := None)"
      using neutralD(4) [OF s5(3)] s4(10) k(2) by simp
    define a' where "a' = (abs_fs s)\<lparr>names := (names (abs_fs s))(name := None)\<rparr>"
    have ra: "reach (abs_fs s5) = reach a'" by (rule reach_cong) (simp_all add: a'_def dm h)
    have sub: "reach (abs_fs s5) \<subseteq> reach (abs_fs s)"
      unfolding ra by (auto simp: a'_def reach_def ran_def split: if_splits)
    have "abs_fs s5 = gc a'"
    proof (rule abs_eqI)
      fix y
      show "store (gc a') y = Some (fcontent (fs_get s5) y)" if y: "y \<in> reach (abs_fs s5)"
      proof -
        have y01: "y \<in> owned s5" "y \<noteq> 0" "y \<noteq> 1" using reach_owned [OF c5 y] by blast+
        have y4: "y \<in> owned s4" using y01(1) neutralD(5) [OF s5(3)] by blast
        have y2: "y \<in> owned s2" using y4 s4(5) by simp
        have y1: "y \<in> owned s1" using y2 neutralD(5) [OF s2(5)] by blast
        have "fcontent (fs_get s5) y = fcontent (fs_get s4) y" by (rule neutralD(6) [OF s5(3) y01])
        also have "\<dots> = fcontent (fs_get s2) y" using s4(11) y2 y01 by blast
        also have "\<dots> = fcontent (fs_get s1) y" by (rule neutralD(6) [OF s2(5) y2 y01(2,3)])
        also have "\<dots> = fcontent (fs_get s) y" using keptD(8,10) [OF c1(2)] y1 y01(2) by metis
        finally have e: "fcontent (fs_get s5) y = fcontent (fs_get s) y" .
        have "y \<in> reach (abs_fs s)" "y \<in> reach a'" using y sub ra by blast+
        then show ?thesis by (simp add: gc_def e) (simp add: a'_def abs_store)
      qed
      show "store (gc a') y = None" if "y \<notin> reach (abs_fs s5)" using that by (simp add: gc_def ra)
    qed (simp_all add: gc_def a'_def dm h)
    then show ?thesis using run c5 Some s5(5) s4(7) s2(7) k1(4) by (auto simp: a'_def)
  qed
qed

lemma filesys_remove_ok:
  assumes c: "fs_inv s" and j: "length junk = 20"
  shows "\<exists>r s'. filesys_remove name junk s = Some (r, s') \<and> fs_inv s' \<and> astep (Remove name) (Done r) (abs_fs s) (abs_fs s')"
proof -
  obtain d dr s1 where s1: "dir_open_root s = Some (d, s1)" "d \<noteq> 0" "fs_inv s1" "neutral s s1" "dirs s1 = (dirs s)(d \<mapsto> dr)"
    "files s1 = files s" using root_open [OF c] by blast
  note c1 = fs_core [OF s1(3)]
  have a1: "abs_fs s1 = abs_fs s" by (rule neutral_abs [OF fs_core [OF c] c1 s1(4,6)])
  have d1: "dirs s1 d = Some dr" by (simp add: s1(5))
  note rf = root_open_frame [OF c s1(1,2)]
  have fr1: "free_run s1 U k x \<longleftrightarrow> free_run s U k x" for U k x by (simp add: free_run_def rf(3))
  obtain r s2 where s2: "dir_remove d name junk s1 = Some (r, s2)" "core s2 (\<lambda>_. 0)" "dirs s2 = dirs s1"
    "r \<longleftrightarrow> names (abs_fs s1) name \<noteq> None"
    "abs_fs s2 = (if r then gc ((abs_fs s1)\<lparr>names := (names (abs_fs s1))(name := None)\<rparr>) else abs_fs s1)"
    using dir_remove_core [OF c1 d1 j, of name] by blast
  have d2: "dirs s2 d = Some dr" using s2(3) d1 by simp
  obtain s3 where s3: "dir_close d s2 = Some s3" "core s3 (\<lambda>_. 0)" "abs_fs s3 = abs_fs s2" using root_close [OF s2(2) d2] by blast
  have "filesys_remove name junk s = Some (r, s3)" using s1(1,2) s2(1) s3(1) by (simp add: filesys_remove_def)
  moreover have "astep (Remove name) (Done r) (abs_fs s) (abs_fs s3)"
  proof (cases r)
    case True
    then have "names (abs_fs s) name \<noteq> None" using s2(4) a1 by (simp only: simp_thms)
    then show ?thesis using True s3(3) s2(5) a1 by (simp only: if_True) (rule astep.removes)
  next
    case False
    then have "names (abs_fs s) name = None" using s2(4) a1 by (simp only: simp_thms)
    then show ?thesis using False s3(3) s2(5) a1 by (simp only: if_False) (rule astep.remove_fails)
  qed
  ultimately show ?thesis using s3(2) by (auto simp: fs_inv_def)
qed

end
