(* ===== verification/Fs_Files.thy ===== *)
theory Fs_Files
  imports Fs_Names
begin

text \<open>
  The operations of \<open>filesys/file.c\<close> on open files refine the specification, and with them every call
  on the file system.
\<close>

section \<open>Handles\<close>

text \<open>The file behind a handle.\<close>

lemma handle_file:
  assumes c: "core s R" and h: "abs_handles s f = Some (x, p, w)"
  shows "\<exists>fl i. files s f = Some fl \<and> f \<noteq> free_map_file s \<and> pos fl = p \<and> deny_write fl = w \<and> 0 \<le> p \<and>
    inodes s (finode fl) = Some i \<and> sector i = x \<and> data i = dino (fs_get s) x \<and> ext_ok (fs_size s) (data i) \<and>
    (deny_write_cnt i \<noteq> 0 \<longleftrightarrow> denied (abs_fs s) x)"
proof -
  obtain fl where fl: "files s f = Some fl" "f \<noteq> free_map_file s" "pos fl = p" "deny_write fl = w" "isec s (finode fl) = Some x"
    using h abs_handles_Some [OF c] by blast
  obtain i where i: "inodes s (finode fl) = Some i" "sector i = x" using fl(5) by (auto simp: isec_Some)
  have io: "inode_ok s R (finode fl) i" by (rule table_inode [OF coreD(3) [OF c] i(1)])
  have "x \<in> owned s" using open_owned [OF i(1)] i(2) by simp
  then have e: "ext_ok (fs_size s) (data i)"
    using disk_invD(1) [OF disk_okD(5) [OF coreD(1) [OF c]]] io i(2) by (simp add: inode_ok_def)
  have fin: "finite {g. \<exists>gl. files s g = Some gl \<and> finode gl = finode fl \<and> deny_write gl}"
    using finite_refs(1) [OF c, of "\<lambda>g gl. finode gl = finode fl \<and> deny_write gl"] .
  have uniq: "isec s j = Some x \<Longrightarrow> j = finode fl" for j
    using coreD(3) [OF c] i unfolding table_ok_def isec_Some by metis
  have "deny_write_cnt i \<noteq> 0 \<longleftrightarrow> (\<exists>g gl. files s g = Some gl \<and> finode gl = finode fl \<and> deny_write gl)"
    using io fin by (auto simp: inode_ok_def denies_def)
  also have "\<dots> \<longleftrightarrow> denied (abs_fs s) x"
  proof
    assume "\<exists>g gl. files s g = Some gl \<and> finode gl = finode fl \<and> deny_write gl"
    then obtain g gl where g: "files s g = Some gl" "finode gl = finode fl" "deny_write gl" by blast
    have "g \<noteq> free_map_file s" using handles_file [OF coreD(4) [OF c] g(1)] g(3) by (auto simp: file_ok_def)
    then have "abs_handles s g = Some (x, pos gl, True)" using g fl(5) by (simp add: abs_handles_def)
    then show "denied (abs_fs s) x" by (auto simp: denied_def ran_def)
  next
    assume "denied (abs_fs s) x"
    then obtain g q where "abs_handles s g = Some (x, q, True)" by (auto simp: denied_def ran_def)
    then obtain gl where "files s g = Some gl" "deny_write gl" "isec s (finode gl) = Some x"
      by (auto simp: abs_handles_Some [OF c])
    then show "\<exists>g gl. files s g = Some gl \<and> finode gl = finode fl \<and> deny_write gl" using uniq by blast
  qed
  finally have dn: "deny_write_cnt i \<noteq> 0 \<longleftrightarrow> denied (abs_fs s) x" .
  have "0 \<le> p" using handles_file [OF coreD(4) [OF c] fl(1)] fl(3) by (simp add: file_ok_def)
  moreover have "data i = dino (fs_get s) x" using io i(2) by (simp add: inode_ok_def)
  ultimately show ?thesis using fl i e dn by blast
qed

lemma handle_reach: "abs_handles s f = Some (x, p, w) \<Longrightarrow> x \<in> reach (abs_fs s)"
  unfolding reach_def fs_abs_sel by (force simp: ran_def)

text \<open>A new position or a new flag.\<close>

lemma fst_ran: "fst ` ran m = {z. \<exists>g v. m g = Some (z, v)}"
  by (force simp: ran_def)

lemma fst_ran_upd: "m f = Some (x, v) \<Longrightarrow> fst ` ran (m(f \<mapsto> (x, v'))) = fst ` ran m"
proof (unfold fst_ran, intro set_eqI iffI; elim CollectE exE)
  fix z g u assume f: "m f = Some (x, v)"
  { assume "(m(f \<mapsto> (x, v'))) g = Some (z, u)"
    then show "z \<in> {z. \<exists>g v. m g = Some (z, v)}" using f by (cases "g = f") auto }
  { assume "m g = Some (z, u)"
    then have "\<exists>u. (m(f \<mapsto> (x, v'))) g = Some (z, u)" using f by (cases "g = f") auto
    then show "z \<in> {z. \<exists>g u. (m(f \<mapsto> (x, v'))) g = Some (z, u)}" by blast }
qed

lemma set_handle_abs:
  assumes c: "core s R" "core s' R" and n: "neutral s s'" and f: "f \<noteq> free_map_file s"
    and fl: "files s f = Some fl" "files s' = (files s)(f \<mapsto> fl')" "finode fl' = finode fl" and x: "isec s (finode fl) = Some x"
  shows "abs_fs s' = (abs_fs s)\<lparr>handles := (handles (abs_fs s))(f \<mapsto> (x, pos fl', deny_write fl'))\<rparr>"
proof -
  obtain y where "isec s' (finode fl') = Some y" using core_isec [OF c(2), of f fl'] fl(2) by auto
  moreover have "finode fl \<le> fallocs s" using core_isec [OF c(1) fl(1)] by blast
  ultimately have y: "isec s' (finode fl') = Some x" using neutralD(8) [OF n] x fl(3) by (metis option.inject)
  have h: "abs_handles s' = (abs_handles s)(f \<mapsto> (x, pos fl', deny_write fl'))"
  proof
    fix g show "abs_handles s' g = ((abs_handles s)(f \<mapsto> (x, pos fl', deny_write fl'))) g"
    proof (cases "g = f")
      case True
      then show ?thesis using f fl(2) y neutralD(3) [OF n] by (simp add: abs_handles_def)
    next
      case False
      then show ?thesis using neutral_handles [OF c n, of g] fl(2) by simp
    qed
  qed
  have rc: "dir_map (root_content s') = dir_map (root_content s)" by (rule neutralD(4) [OF n])
  have "abs_handles s f = Some (x, pos fl, deny_write fl)" using f fl(1) x by (simp add: abs_handles_def)
  then have "fst ` ran (abs_handles s') = fst ` ran (abs_handles s)"
    unfolding h by (rule fst_ran_upd)
  then have r: "reach (abs_fs s') = reach (abs_fs s)" by (simp add: reach_def rc)
  show ?thesis
  proof (rule abs_eqI)
    fix z
    show "store ((abs_fs s)\<lparr>handles := (handles (abs_fs s))(f \<mapsto> (x, pos fl', deny_write fl'))\<rparr>) z = Some (fcontent (fs_get s') z)"
      if z: "z \<in> reach (abs_fs s')" using neutral_content [OF c(2) n z] z by (simp add: abs_store r)
    show "store ((abs_fs s)\<lparr>handles := (handles (abs_fs s))(f \<mapsto> (x, pos fl', deny_write fl'))\<rparr>) z = None"
      if "z \<notin> reach (abs_fs s')" using that by (simp add: abs_store r)
  qed (simp_all add: h rc)
qed

lemma set_pos_abs:
  assumes c: "core s R" and h: "abs_handles s f = Some (x, p, w)" and q: "0 \<le> q"
  shows "core (set_file f (\<lambda>fl. fl\<lparr>pos := q\<rparr>) s) R"
    "abs_fs (set_file f (\<lambda>fl. fl\<lparr>pos := q\<rparr>) s) = (abs_fs s)\<lparr>handles := (handles (abs_fs s))(f \<mapsto> (x, q, w))\<rparr>"
proof -
  obtain fl where fl: "files s f = Some fl" "f \<noteq> free_map_file s" "deny_write fl = w" "isec s (finode fl) = Some x"
    using h abs_handles_Some [OF c] by blast
  have cs: "core (set_file f (\<lambda>fl. fl\<lparr>pos := q\<rparr>) s) R" "neutral s (set_file f (\<lambda>fl. fl\<lparr>pos := q\<rparr>) s)"
    using core_set_pos [OF c fl(1) q] by blast+
  then show "core (set_file f (\<lambda>fl. fl\<lparr>pos := q\<rparr>) s) R" by blast
  show "abs_fs (set_file f (\<lambda>fl. fl\<lparr>pos := q\<rparr>) s) = (abs_fs s)\<lparr>handles := (handles (abs_fs s))(f \<mapsto> (x, q, w))\<rparr>"
    using set_handle_abs [OF c cs fl(2,1), of "fl\<lparr>pos := q\<rparr>" x] fl by (simp add: set_file_def)
qed

section \<open>The calls\<close>

lemma fcontent_length: "length (fcontent g x) = nat (dlength (dino g x))"
  by (simp add: fcontent_def)

lemma file_read_value:
  fixes s f x p w sz
  defines "bs \<equiv> fcontent (fs_get s) x" and "n \<equiv> span sz (fcontent (fs_get s) x) p"
  assumes c: "fs_inv s" and h: "abs_handles s f = Some (x, p, w)" and sz: "0 \<le> sz"
  shows "\<exists>s'. file_read f (replicate (nat sz) 0) sz s =
      Some (int n, put_at (replicate (nat sz) 0) 0 (slice bs (nat p) n), s') \<and> fs_inv s' \<and>
      abs_fs s' = (abs_fs s)\<lparr>handles := (handles (abs_fs s))(f \<mapsto> (x, p + int n, w))\<rparr>"
    "n \<le> nat sz" "length (slice bs (nat p) n) = n" "0 \<le> p" "length bs + 511 < 2147483648"
proof -
  note c0 = fs_core [OF c]
  obtain fl i where fl: "files s f = Some fl" "f \<noteq> free_map_file s" "pos fl = p" "deny_write fl = w" "0 \<le> p"
    "inodes s (finode fl) = Some i" "sector i = x" "data i = dino (fs_get s) x" "ext_ok (fs_size s) (data i)"
    using handle_file [OF c0 h] by blast
  let ?buf = "replicate (nat sz) (0 :: u8)"
  note k = disk_okD [OF coreD(1) [OF c0]]
  obtain m s1 where m: "inode_read_at (finode fl) ?buf sz p s = Some (int m, put_at ?buf 0 (slice bs (nat p) m), s1)"
    "io_only s s1" "fs_get s1 = fs_get s" "m = room (data i) sz p"
    using inode_read_at_ok [OF k(1) fl(6,9,5), of sz ?buf] k(2) by (auto simp: fcontent_def fl(8) bs_def)
  have dl: "0 \<le> dlength (data i)" "dlength (data i) + 511 < 2147483648" using fl(9) by (simp_all add: ext_ok_def)
  have mn: "m = n" using m(4) dl by (simp add: room_def span_def fcontent_length fl(8) n_def)
  have len: "length bs = nat (dlength (data i))" by (simp add: bs_def fcontent_length fl(8))
  show nb: "n \<le> nat sz" using m(4) sz by (simp add: room_def flip: mn)
  have "nat p + n \<le> length bs \<or> n = 0" using m(4) dl fl(5) sz by (auto simp: room_def len simp flip: mn)
  then show "length (slice bs (nat p) n) = n" by (auto simp: slice_def)
  show "0 \<le> p" by (rule fl(5))
  show "length bs + 511 < 2147483648" using dl len by simp
  note c1 = io_core [OF c0 m(2,3)]
  have a1: "abs_fs s1 = abs_fs s" by (rule neutral_abs [OF c0 c1(1) kept_neutral [OF c1(2)] keptD(3) [OF c1(2)]])
  have h1: "abs_handles s1 f = Some (x, p, w)" using h a1 by (metis fs_abs_sel(2))
  define s2 where "s2 = set_file f (\<lambda>fl. fl\<lparr>pos := p + int n\<rparr>) s1"
  have q: "0 \<le> p + int n" using fl(5) by simp
  have cs: "core s2 (\<lambda>_. 0)" "abs_fs s2 = (abs_fs s)\<lparr>handles := (handles (abs_fs s))(f \<mapsto> (x, p + int n, w))\<rparr>"
    using set_pos_abs [OF c1(1) h1 q] unfolding s2_def a1 by simp_all
  have e: "set_file f (\<lambda>fl. fl\<lparr>pos := pos fl + int n\<rparr>) s1 = s2"
    using fl(1,3) keptD(3) [OF c1(2)] by (simp add: s2_def set_file_def)
  have "file_read f ?buf sz s = Some (int n, put_at ?buf 0 (slice bs (nat p) n), s2)"
    using fl(1,3) m(1) e mn by (simp add: file_read_def)
  then show "\<exists>s'. file_read f ?buf sz s = Some (int n, put_at ?buf 0 (slice bs (nat p) n), s') \<and> fs_inv s' \<and>
      abs_fs s' = (abs_fs s)\<lparr>handles := (handles (abs_fs s))(f \<mapsto> (x, p + int n, w))\<rparr>"
    using cs by (auto simp: fs_inv_def)
qed

lemma file_read_ok:
  assumes c: "fs_inv s" and h: "abs_handles s f = Some (x, p, w)" and sz: "0 \<le> sz"
  shows "\<exists>r s'. run_op junk (Read f sz) s = Some (r, s') \<and> fs_inv s' \<and> astep (Read f sz) r (abs_fs s) (abs_fs s')"
proof -
  let ?bs = "fcontent (fs_get s) x"
  let ?n = "span sz ?bs p"
  note v = file_read_value [OF c h sz]
  obtain s' where s': "file_read f (replicate (nat sz) 0) sz s =
      Some (int ?n, put_at (replicate (nat sz) 0) 0 (slice ?bs (nat p) ?n), s')" "fs_inv s'"
    "abs_fs s' = (abs_fs s)\<lparr>handles := (handles (abs_fs s))(f \<mapsto> (x, p + int ?n, w))\<rparr>" using v(1) by blast
  have "take ?n (put_at (replicate (nat sz) 0) 0 (slice ?bs (nat p) ?n)) = slice ?bs (nat p) ?n"
    using v(2,3) by (simp add: put_at_def)
  then have "run_op junk (Read f sz) s = Some (Bytes (slice ?bs (nat p) ?n), s')" using s'(1) by simp
  moreover have "store (abs_fs s) x = Some ?bs" using handle_reach [OF h] by (simp add: abs_store)
  then have "astep (Read f sz) (Bytes (slice ?bs (nat p) ?n)) (abs_fs s) (abs_fs s')"
    unfolding s'(3) using h by (intro astep.reads [OF _ _ refl]) simp_all
  ultimately show ?thesis using s'(2) by blast
qed

lemma write_abs:
  assumes c: "core s R" and g: "grown x s s'" and x: "x \<in> reach (abs_fs s)"
  shows "core s' R" "files s' = files s" "abs_handles s' = abs_handles s"
    "abs_fs s' = (abs_fs s)\<lparr>store := (store (abs_fs s))(x \<mapsto> fcontent (fs_get s') x)\<rparr>"
proof -
  note o = reach_owned [OF c x]
  note gc = grown_core [OF c g o(1,3)]
  show "core s' R" by (rule gc(1))
  show "files s' = files s" by (rule grownD(3) [OF g])
  have ise: "isec s' = isec s" by (rule table_isec_eq [OF grownD(1) [OF g]])
  have "abs_handles s' f = abs_handles s f" for f unfolding abs_handles_def grownD(3,5) [OF g] ise ..
  then show h: "abs_handles s' = abs_handles s" by blast
  have rc: "dir_map (root_content s') = dir_map (root_content s)" using gc(4) by simp
  have r: "reach (abs_fs s') = reach (abs_fs s)" by (simp add: reach_def h rc)
  show "abs_fs s' = (abs_fs s)\<lparr>store := (store (abs_fs s))(x \<mapsto> fcontent (fs_get s') x)\<rparr>"
  proof (rule abs_eqI)
    fix z
    show "store ((abs_fs s)\<lparr>store := (store (abs_fs s))(x \<mapsto> fcontent (fs_get s') x)\<rparr>) z = Some (fcontent (fs_get s') z)"
      if z: "z \<in> reach (abs_fs s')"
      using gc(6) reach_owned(1) [OF c] z r by (simp add: abs_store)
    show "store ((abs_fs s)\<lparr>store := (store (abs_fs s))(x \<mapsto> fcontent (fs_get s') x)\<rparr>) z = None"
      if "z \<notin> reach (abs_fs s')" using that r x by (auto simp: abs_store)
  qed (simp_all add: h rc)
qed

lemma put_at_0 [simp]: "put_at xs n (take 0 ys) = xs"
  by simp

lemma file_write_ok:
  assumes c: "fs_inv s" and h: "abs_handles s f = Some (x, p, w)"
  shows "\<exists>r s'. run_op junk (Write f buf) s = Some (r, s') \<and> fs_inv s' \<and> astep (Write f buf) r (abs_fs s) (abs_fs s')"
proof -
  note c0 = fs_core [OF c]
  obtain fl i where fl: "files s f = Some fl" "f \<noteq> free_map_file s" "pos fl = p" "deny_write fl = w" "0 \<le> p"
    "inodes s (finode fl) = Some i" "sector i = x" "data i = dino (fs_get s) x" "ext_ok (fs_size s) (data i)"
    "deny_write_cnt i \<noteq> 0 \<longleftrightarrow> denied (abs_fs s) x"
    using handle_file [OF c0 h] by blast
  let ?bs = "fcontent (fs_get s) x" and ?sz = "int (length buf)"
  note k = disk_okD [OF coreD(1) [OF c0]]
  have st: "store (abs_fs s) x = Some ?bs" using handle_reach [OF h] by (simp add: abs_store)
  define n where "n = (if denied (abs_fs s) x then 0 else span ?sz ?bs p)"
  have dl: "0 \<le> dlength (data i)" using fl(9) by (simp add: ext_ok_def)
  have "\<exists>s1. inode_write_at (finode fl) buf ?sz p s = Some (int n, s1) \<and> grown x s s1 \<and>
      fcontent (fs_get s1) x = put_at ?bs (nat p) (take n buf)"
  proof (cases "denied (abs_fs s) x")
    case True
    have "grown x s s" using k(1,3) by (intro io_grown io_only_refl) simp_all
    then show ?thesis using True fl(6,10) by (auto simp: n_def inode_write_at_def)
  next
    case False
    then have d0: "deny_write_cnt i = 0" using fl(10) by simp
    obtain m s1 where m: "inode_write_at (finode fl) buf ?sz p s = Some (int m, s1)" "io_only s s1"
      "content (fs_get s1) (data i) = put_at ?bs (nat p) (slice buf 0 m)"
      "\<forall>z. z \<notin> secs (data i) \<longrightarrow> fs_get s1 z = fs_get s z" "m = room (data i) ?sz p"
      using inode_write_at_ok [OF k(1) fl(6,9,5) _ d0, of ?sz buf] k(2) by (auto simp: fcontent_def fl(8))
    have mn: "m = n" using m(5) dl False by (simp add: n_def room_def span_def fcontent_length fl(8))
    have g: "grown x s s1" using m(2,4) k(3) by (intro io_grown) (simp_all add: fl(8))
    have xo: "x \<in> owned s" "x \<noteq> 1" using reach_owned [OF c0 handle_reach [OF h]] by blast+
    have "fcontent (fs_get s1) x = content (fs_get s1) (data i)"
      unfolding fcontent_def grown_core(5) [OF c0 g xo xo(1)] by (simp add: fl(8))
    then show ?thesis using m(1,3) g mn by (auto simp: slice_def)
  qed
  then obtain s1 where s1: "inode_write_at (finode fl) buf ?sz p s = Some (int n, s1)" "grown x s s1"
      "fcontent (fs_get s1) x = put_at ?bs (nat p) (take n buf)" by blast
  note w1 = write_abs [OF c0 s1(2) handle_reach [OF h]]
  have h1: "abs_handles s1 f = Some (x, p, w)" using h w1(3) by simp
  have q: "0 \<le> p + int n" using fl(5) by simp
  define s2 where "s2 = set_file f (\<lambda>fl. fl\<lparr>pos := p + int n\<rparr>) s1"
  have e: "set_file f (\<lambda>fl. fl\<lparr>pos := pos fl + int n\<rparr>) s1 = s2"
    using fl(1,3) w1(2) by (simp add: s2_def set_file_def)
  have run: "run_op junk (Write f buf) s = Some (Number (int n), s2)"
    using fl(1,3) s1(1) e by (simp add: file_write_def)
  have a2: "abs_fs s2 = (abs_fs s)\<lparr>handles := (handles (abs_fs s))(f \<mapsto> (x, p + int n, w)),
      store := (store (abs_fs s))(x \<mapsto> put_at ?bs (nat p) (take n buf))\<rparr>"
    unfolding s2_def set_pos_abs(2) [OF w1(1) h1 q] w1(4) s1(3) by simp
  have "astep (Write f buf) (Number (int n)) (abs_fs s) (abs_fs s2)"
    unfolding a2 using h st by (intro astep.writes [OF _ _ n_def]) simp_all
  moreover have "core s2 (\<lambda>_. 0)" unfolding s2_def by (rule set_pos_abs(1) [OF w1(1) h1 q])
  ultimately show ?thesis using run by (auto simp: fs_inv_def)
qed

lemma flag_ok:
  assumes c: "fs_inv s" and h: "abs_handles s f = Some (x, p, w)"
  shows "\<exists>s'. file_deny_write f s = Some s' \<and> fs_inv s' \<and>
      abs_fs s' = (abs_fs s)\<lparr>handles := (handles (abs_fs s))(f \<mapsto> (x, p, True))\<rparr>"
    "\<exists>s'. file_allow_write f s = Some s' \<and> fs_inv s' \<and>
      abs_fs s' = (abs_fs s)\<lparr>handles := (handles (abs_fs s))(f \<mapsto> (x, p, False))\<rparr>"
proof -
  note c0 = fs_core [OF c]
  obtain fl where fl: "files s f = Some fl" "f \<noteq> free_map_file s" "pos fl = p" "isec s (finode fl) = Some x"
    using h abs_handles_Some [OF c0] by blast
  obtain s1 where s1: "file_deny_write f s = Some s1" "core s1 (\<lambda>_. 0)" "neutral s s1"
    "files s1 = (files s)(f \<mapsto> fl\<lparr>deny_write := True\<rparr>)" using file_deny_write_ok [OF c0 fl(1,2)] by blast
  show "\<exists>s'. file_deny_write f s = Some s' \<and> fs_inv s' \<and>
      abs_fs s' = (abs_fs s)\<lparr>handles := (handles (abs_fs s))(f \<mapsto> (x, p, True))\<rparr>"
    using s1(1,2) set_handle_abs [OF c0 s1(2,3) fl(2,1) s1(4) _ fl(4)] fl(3) by (simp add: fs_inv_def)
  obtain s2 where s2: "file_allow_write f s = Some s2" "core s2 (\<lambda>_. 0)" "neutral s s2"
    "files s2 = (files s)(f \<mapsto> fl\<lparr>deny_write := False\<rparr>)" using file_allow_write_ok [OF c0 fl(1)] by blast
  show "\<exists>s'. file_allow_write f s = Some s' \<and> fs_inv s' \<and>
      abs_fs s' = (abs_fs s)\<lparr>handles := (handles (abs_fs s))(f \<mapsto> (x, p, False))\<rparr>"
    using s2(1,2) set_handle_abs [OF c0 s2(2,3) fl(2,1) s2(4) _ fl(4)] fl(3) by (simp add: fs_inv_def)
qed

lemma close_abs:
  assumes c: "fs_inv s" and h: "abs_handles s f = Some (x, p, w)"
  shows "\<exists>s'. file_close f s = Some s' \<and> fs_inv s' \<and> abs_fs s' = gc ((abs_fs s)\<lparr>handles := (handles (abs_fs s))(f := None)\<rparr>)"
proof -
  note c0 = fs_core [OF c]
  obtain fl where fl: "files s f = Some fl" "f \<noteq> free_map_file s" using h abs_handles_Some [OF c0] by blast
  obtain s1 where s1: "file_close f s = Some s1" "core s1 (\<lambda>_. 0)" "neutral s s1" "files s1 = (files s)(f := None)"
    using file_close_ok [OF c0 fl] by blast
  define a' where "a' = (abs_fs s)\<lparr>handles := (handles (abs_fs s))(f := None)\<rparr>"
  have ha: "abs_handles s1 = (abs_handles s)(f := None)"
  proof
    fix g show "abs_handles s1 g = ((abs_handles s)(f := None)) g"
      using neutral_handles [OF c0 s1(2,3), of g] s1(4) by (cases "g = f") (simp_all add: abs_handles_def)
  qed
  have rc: "dir_map (root_content s1) = dir_map (root_content s)" by (rule neutralD(4) [OF s1(3)])
  have ra: "reach (abs_fs s1) = reach a'" by (rule reach_cong) (simp_all add: a'_def ha rc)
  have "ran ((abs_handles s)(f := None)) \<subseteq> ran (abs_handles s)" by (auto simp: ran_def)
  then have sub: "reach a' \<subseteq> reach (abs_fs s)" unfolding reach_def by (auto simp: a'_def)
  have "abs_fs s1 = gc a'"
  proof (rule abs_eqI)
    fix y
    show "store (gc a') y = Some (fcontent (fs_get s1) y)" if y: "y \<in> reach (abs_fs s1)"
      using y sub ra neutral_content [OF s1(2,3) y] by (simp add: gc_def) (simp add: a'_def abs_store subset_iff)
    show "store (gc a') y = None" if "y \<notin> reach (abs_fs s1)" using that by (simp add: gc_def ra)
  qed (simp_all add: gc_def a'_def ha rc)
  then show ?thesis using s1(1,2) by (simp add: fs_inv_def a'_def)
qed

lemma filesys_refines_op:
  assumes c: "fs_inv s" and l: "legal op (abs_fs s)" and j: "length junk = 20"
  shows "\<exists>r s'. run_op junk op s = Some (r, s') \<and> fs_inv s' \<and> astep op r (abs_fs s) (abs_fs s') \<and>
    (\<forall>name sz. op = Create name sz \<longrightarrow> r = Done (creatable s name sz))"
proof (cases op)
  case (Create name sz)
  then show ?thesis using filesys_create_ok [OF c j, of name sz] l by (auto simp: apfst_def map_prod_def)
next
  case (Open name)
  then show ?thesis using filesys_open_ok [OF c j, of name] by (auto simp: apfst_def map_prod_def)
next
  case (Remove name)
  then show ?thesis using filesys_remove_ok [OF c j, of name] by (auto simp: apfst_def map_prod_def)
next
  case (Close f)
  then obtain x p w where h: "abs_handles s f = Some (x, p, w)" using l by auto
  then obtain s' where "file_close f s = Some s'" "fs_inv s'"
    "abs_fs s' = gc ((abs_fs s)\<lparr>handles := (handles (abs_fs s))(f := None)\<rparr>)" using close_abs [OF c h] by blast
  moreover have "astep (Close f) Void (abs_fs s) (gc ((abs_fs s)\<lparr>handles := (handles (abs_fs s))(f := None)\<rparr>))"
    by (rule astep.closes) (simp add: h)
  ultimately show ?thesis unfolding Close by auto
next
  case (Read f sz)
  then show ?thesis using file_read_ok [OF c] l by auto
next
  case (Write f buf)
  then show ?thesis using file_write_ok [OF c] l by auto
next
  case (Seek f q)
  then obtain x p w where h: "abs_handles s f = Some (x, p, w)" and q: "0 \<le> q" using l by auto
  have "files s f \<noteq> None" using h by (auto simp: abs_handles_def split: if_splits option.splits)
  then have "file_seek f q s = Some (set_file f (\<lambda>fl. fl\<lparr>pos := q\<rparr>) s)" using q by (simp add: file_seek_def)
  moreover note set_pos_abs [OF fs_core [OF c] h q]
  moreover have "astep (Seek f q) Void (abs_fs s) ((abs_fs s)\<lparr>handles := (handles (abs_fs s))(f \<mapsto> (x, q, w))\<rparr>)"
    by (rule astep.seeks [where p = p]) (simp add: h)
  ultimately show ?thesis unfolding Seek by (auto simp: fs_inv_def)
next
  case (Tell f)
  then obtain x p w where h: "abs_handles s f = Some (x, p, w)" using l by auto
  then have "file_tell f s = Some p" by (auto simp: abs_handles_def file_tell_def split: if_splits option.splits)
  then show ?thesis using Tell c h by (auto intro!: astep.tells)
next
  case (Length f)
  then obtain x p w where h: "abs_handles s f = Some (x, p, w)" using l by auto
  obtain fl i where fl: "files s f = Some fl" "inodes s (finode fl) = Some i" "data i = dino (fs_get s) x" "ext_ok (fs_size s) (data i)"
    using handle_file [OF fs_core [OF c] h] by blast
  have "file_length f s = Some (int (length (fcontent (fs_get s) x)))"
    using fl by (simp add: file_length_def inode_length_def fcontent_length ext_ok_def)
  moreover have "store (abs_fs s) x = Some (fcontent (fs_get s) x)" using handle_reach [OF h] by (simp add: abs_store)
  ultimately show ?thesis using Length c h by (auto intro!: astep.lengths)
next
  case (Deny f)
  then obtain x p w where h: "abs_handles s f = Some (x, p, w)" using l by auto
  have "astep (Deny f) Void (abs_fs s) ((abs_fs s)\<lparr>handles := (handles (abs_fs s))(f \<mapsto> (x, p, True))\<rparr>)"
    by (rule astep.denies [where w = w]) (simp add: h)
  then show ?thesis using flag_ok(1) [OF c h] unfolding Deny by auto
next
  case (Allow f)
  then obtain x p w where h: "abs_handles s f = Some (x, p, w)" using l by auto
  have "astep (Allow f) Void (abs_fs s) ((abs_fs s)\<lparr>handles := (handles (abs_fs s))(f \<mapsto> (x, p, False))\<rparr>)"
    by (rule astep.allows [where w = w]) (simp add: h)
  then show ?thesis using flag_ok(2) [OF c h] unfolding Allow by auto
qed

end
