(* ===== verification/Fs_Format.thy ===== *)
theory Fs_Format
  imports Fs_Files
begin

text \<open>
  Starting the file system (\<open>filesys_init\<close> with \<open>do_format\<close> and the functions of
  \<open>filesys/free-map.c\<close> that create, open and close the free map file): a disk that is formatted
  satisfies the invariant and holds no file.
\<close>

section \<open>States while the system starts\<close>

text \<open>Nothing is open.\<close>

definition blank :: "fsys \<Rightarrow> bool" where
  "blank s \<longleftrightarrow> fs_dev_ok s \<and> (\<forall>n. fmem_ok s n) \<and> bm_wf (free_map s) \<and> bit_cnt (free_map s) = fs_size s \<and>
     inodes s = Map.empty \<and> open_inodes s = [] \<and> files s = Map.empty \<and> dirs s = Map.empty"

text \<open>Only the free map file is open.\<close>

definition map_inode :: "inode_disk \<Rightarrow> inode" where
  "map_inode di = \<lparr>sector = 0, open_cnt = 1, removed = False, deny_write_cnt = 0, data = di\<rparr>"

definition mounted :: "fsys \<Rightarrow> nat \<Rightarrow> nat \<Rightarrow> inode_disk \<Rightarrow> bool" where
  "mounted s ino f di \<longleftrightarrow> fs_dev_ok s \<and> (\<forall>n. fmem_ok s n) \<and> bm_wf (free_map s) \<and> bit_cnt (free_map s) = fs_size s \<and>
     inodes s = [ino \<mapsto> map_inode di] \<and> open_inodes s = [ino] \<and>
     files s = [f \<mapsto> \<lparr>finode = ino, pos = 0, deny_write = False\<rparr>] \<and> dirs s = Map.empty \<and>
     free_map_file s = f \<and> 0 < ino \<and> ino \<le> fallocs s \<and> 0 < f \<and> f \<le> fallocs s"

lemma mountedD:
  assumes "mounted s ino f di"
  shows "fs_dev_ok s" "fmem_ok s n" "bm_wf (free_map s)" "bit_cnt (free_map s) = fs_size s"
    "inodes s = [ino \<mapsto> map_inode di]" "open_inodes s = [ino]"
    "files s = [f \<mapsto> \<lparr>finode = ino, pos = 0, deny_write = False\<rparr>]" "dirs s = Map.empty" "free_map_file s = f"
    "0 < ino" "ino \<le> fallocs s" "0 < f" "f \<le> fallocs s"
  using assms by (simp_all add: mounted_def)

lemma mounted_map_file:
  assumes "mounted s ino f di" "ext_ok (fs_size s) di" "byte_cnt (fs_size s) \<le> nat (dlength di)"
  shows "map_file s (map_inode di)"
  using mountedD [OF assms(1)] assms(2,3) by (simp add: map_file_def map_inode_def)

lemma mounted_io: "mounted s ino f di \<Longrightarrow> io_only s s' \<Longrightarrow> mounted s' ino f di"
  using io_onlyD [of s s'] unfolding mounted_def by (simp; blast)

section \<open>The steps of formatting\<close>

text \<open>The writes of \<open>inode_create\<close>.\<close>

lemma create_tail:
  fixes first :: u32
  assumes "fs_dev_ok s" "fs_size s < 4294967296" "unat sec < fs_size s" "0 \<le> len" "len + 511 < 2147483648"
    "unat first + (nat len + 511) div 512 \<le> fs_size s" "unat sec \<notin> {unat first..<unat first + (nat len + 511) div 512}"
  defines "di \<equiv> \<lparr>start = first, dlength = len, dmagic = INODE_MAGIC\<rparr>"
  shows "\<exists>d1 d2. block_write (fs_device s) sec (disk_bytes di) (devs s) = Some d1 \<and>
    zero_sectors (fs_device s) first 0 ((nat len + 511) div 512) d1 = Some d2 \<and> dev_ok (fs_device s) d2 \<and>
    dev_size (fs_device s) d2 = fs_size s \<and> ext_ok (fs_size s) di \<and>
    unat ` secs di = {unat first..<unat first + (nat len + 511) div 512} \<and> sec \<notin> secs di \<and>
    dino (dev_get (fs_device s) d2) sec = di \<and> fcontent (dev_get (fs_device s) d2) sec = replicate (nat len) 0 \<and>
    (\<forall>x. x \<noteq> sec \<and> x \<notin> secs di \<longrightarrow> dev_get (fs_device s) d2 x = fs_get s x)"
proof -
  let ?m = "(nat len + 511) div 512"
  have dib: "disk_inode (disk_bytes di) = di" "length (disk_bytes di) = 512"
    using disk_inode_bytes [of di] assms(4,5) by (simp_all add: di_def)
  obtain d1 where d1: "block_write (fs_device s) sec (disk_bytes di) (devs s) = Some d1" "dev_ok (fs_device s) d1"
    "dev_size (fs_device s) d1 = fs_size s" "dev_get (fs_device s) d1 = (fs_get s)(sec := disk_bytes di)"
    using dev.wr_ok [OF assms(1,3) dib(2)] by blast
  have fit: "unat first + 0 + ?m \<le> dev_size (fs_device s) d1" "dev_size (fs_device s) d1 < 4294967296"
    using assms(2,6) d1(3) by simp_all
  have ext: "ext_ok (fs_size s) di" using assms(2,4-6) by (simp add: ext_ok_def di_def)
  have rs: "(\<lambda>j. first + word_of_nat j :: u32) ` {0..<0 + ?m} = secs di" by (simp add: secs_def di_def lessThan_atLeast0)
  have ur: "unat ` secs di = {unat first..<unat first + ?m}" using unat_secs [OF ext] by (simp add: di_def)
  obtain d2 where d2: "zero_sectors (fs_device s) first 0 ?m d1 = Some d2" "dev_ok (fs_device s) d2"
    "dev_size (fs_device s) d2 = dev_size (fs_device s) d1"
    "\<forall>x. dev_get (fs_device s) d2 x = (if x \<in> secs di then replicate 512 0 else dev_get (fs_device s) d1 x)"
    using zero_sectors_ok [OF d1(2) fit] unfolding rs by blast
  have sr: "sec \<notin> secs di" using assms(7) ur by blast
  have dd: "dino (dev_get (fs_device s) d2) sec = di" using d2(4) d1(4) sr dib(1) by (simp add: dino_def)
  have "fcontent (dev_get (fs_device s) d2) sec = replicate (nat len) 0"
  proof (rule nth_equalityI)
    show l: "length (fcontent (dev_get (fs_device s) d2) sec) = length (replicate (nat len) (0 :: u8))"
      by (simp add: fcontent_def dd di_def)
    fix i assume "i < length (fcontent (dev_get (fs_device s) d2) sec)"
    then have i: "i < nat (dlength di)" by (simp add: fcontent_def dd)
    have "dev_get (fs_device s) d2 (start di + word_of_nat (i div 512)) = replicate 512 0"
      using sector_in_secs [OF i] d2(4) by simp
    then show "fcontent (dev_get (fs_device s) d2) sec ! i = replicate (nat len) 0 ! i"
      using i by (simp add: fcontent_def dd nth_content) (simp add: di_def)
  qed
  moreover have "\<forall>x. x \<noteq> sec \<and> x \<notin> secs di \<longrightarrow> dev_get (fs_device s) d2 x = fs_get s x" using d2(4) d1(4) by simp
  ultimately show ?thesis using d1(1,3) d2(1-3) ext ur sr dd by (intro exI [of _ d1] exI [of _ d2]) simp
qed

lemma inode_create_unfold:
  assumes "0 \<le> len" "len + 511 < 2147483648" "fmem_ok s (fallocs s)"
  shows "inode_create sec len s = do {
      (r, s2) \<leftarrow> free_map_allocate ((nat len + 511) div 512) (s\<lparr>fallocs := Suc (fallocs s)\<rparr>);
      (case r of None \<Rightarrow> Some (False, s2)
       | Some first \<Rightarrow> do {
           d1 \<leftarrow> block_write (fs_device s2) sec (disk_bytes \<lparr>start = first, dlength = len, dmagic = INODE_MAGIC\<rparr>) (devs s2);
           d2 \<leftarrow> zero_sectors (fs_device s2) first 0 ((nat len + 511) div 512) d1;
           Some (True, s2\<lparr>devs := d2\<rparr>) }) }"
  using assms by (simp add: inode_create_def fs_alloc_def bytes_to_sectors_small Let_def)

text \<open>Allocation before and after the free map file exists.\<close>

definition room_for :: "fsys \<Rightarrow> nat \<Rightarrow> bool" where
  "room_for s cnt \<longleftrightarrow> (\<exists>k. k + cnt \<le> bit_cnt (free_map s) \<and> {k..<k + cnt} \<inter> bm_used (free_map s) = {})"

lemma scan_room:
  assumes "bm_wf (free_map s)" "room_for s cnt"
  shows "\<exists>k b. bitmap_scan_and_flip (free_map s) 0 cnt False = Some (k, b) \<and> k \<noteq> BITMAP_ERROR \<and> bm_wf b \<and>
    bit_cnt b = bit_cnt (free_map s) \<and> k + cnt \<le> bit_cnt (free_map s) \<and> {k..<k + cnt} \<inter> bm_used (free_map s) = {} \<and>
    bm_used b = bm_used (free_map s) \<union> {k..<k + cnt} \<and> unat (word_of_nat k :: u32) = k"
proof -
  obtain k b where k: "bm_alloc (free_map s) cnt = Some (Some k, b)" "bm_wf b" "bit_cnt b = bit_cnt (free_map s)"
    "k + cnt \<le> bit_cnt (free_map s)" "{k..<k + cnt} \<inter> bm_used (free_map s) = {}"
    "bm_used b = bm_used (free_map s) \<union> {k..<k + cnt}"
    using bm_alloc_cases [OF assms(1), of cnt] assms(2) unfolding room_for_def by blast
  have "bitmap_scan_and_flip (free_map s) 0 cnt False = Some (k, b)" "k \<noteq> BITMAP_ERROR"
    using k(1) by (auto simp: bm_alloc_def split: if_splits)
  moreover have "unat (word_of_nat k :: u32) = k" using k(4) assms(1) by (simp add: bm_wf_def unat_word_of_nat_32)
  ultimately show ?thesis using k by auto
qed

lemma allocate_blank:
  assumes "bm_wf (free_map s)" "room_for s cnt" "free_map_file s = 0"
  shows "\<exists>sec b. free_map_allocate cnt s = Some (Some sec, s\<lparr>free_map := b\<rparr>) \<and> bm_wf b \<and>
    bit_cnt b = bit_cnt (free_map s) \<and> unat sec + cnt \<le> bit_cnt (free_map s) \<and>
    {unat sec..<unat sec + cnt} \<inter> bm_used (free_map s) = {} \<and>
    bm_used b = bm_used (free_map s) \<union> {unat sec..<unat sec + cnt}"
proof -
  obtain k b where k: "bitmap_scan_and_flip (free_map s) 0 cnt False = Some (k, b)" "k \<noteq> BITMAP_ERROR" "bm_wf b"
    "bit_cnt b = bit_cnt (free_map s)" "k + cnt \<le> bit_cnt (free_map s)" "{k..<k + cnt} \<inter> bm_used (free_map s) = {}"
    "bm_used b = bm_used (free_map s) \<union> {k..<k + cnt}" "unat (word_of_nat k :: u32) = k"
    using scan_room [OF assms(1,2)] by (elim exE conjE) (rule that; assumption)
  then have "free_map_allocate cnt s = Some (Some (word_of_nat k), s\<lparr>free_map := b\<rparr>)"
    using assms(3) by (simp add: free_map_allocate_def)
  then show ?thesis using k by (intro exI [of _ "word_of_nat k"] exI [of _ b]) simp
qed

lemma allocate_mounted:
  assumes m: "mounted s ino f di" and e: "ext_ok (fs_size s) di" "byte_cnt (fs_size s) = nat (dlength di)"
    and r: "room_for s cnt"
  shows "\<exists>sec b s'. free_map_allocate cnt s = Some (Some sec, s') \<and> bm_wf b \<and> bit_cnt b = fs_size s \<and>
    unat sec + cnt \<le> fs_size s \<and> {unat sec..<unat sec + cnt} \<inter> bm_used (free_map s) = {} \<and>
    bm_used b = bm_used (free_map s) \<union> {unat sec..<unat sec + cnt} \<and> io_only (s\<lparr>free_map := b\<rparr>) s' \<and>
    (\<forall>x. x \<notin> secs di \<longrightarrow> fs_get s' x = fs_get s x) \<and> content (fs_get s') di = bitmap_bytes b"
proof -
  note d = mountedD [OF m]
  obtain k b where k: "bitmap_scan_and_flip (free_map s) 0 cnt False = Some (k, b)" "k \<noteq> BITMAP_ERROR" "bm_wf b"
    "bit_cnt b = bit_cnt (free_map s)" "k + cnt \<le> bit_cnt (free_map s)" "{k..<k + cnt} \<inter> bm_used (free_map s) = {}"
    "bm_used b = bm_used (free_map s) \<union> {k..<k + cnt}" "unat (word_of_nat k :: u32) = k"
    using scan_room [OF d(3) r] by (elim exE conjE) (rule that; assumption)
  define t where "t = s\<lparr>free_map := b\<rparr>"
  have mt: "map_file t (map_inode di)" using mounted_map_file [OF m e(1)] e(2) by (simp add: t_def map_file_def)
  have bt: "bit_cnt b = fs_size t" using k(4) d(4) by (simp add: t_def)
  have di: "data (map_inode di) = di" by (simp add: map_inode_def)
  from bitmap_write_ok [OF mt k(3) bt, unfolded di] obtain s' where s': "bitmap_write b (free_map_file t) t = Some (True, s')"
    "io_only t s'" "\<forall>x. x \<notin> secs di \<longrightarrow> fs_get s' x = fs_get t x"
    "content (fs_get s') di = put_at (content (fs_get t) di) 0 (bitmap_bytes b)" by blast
  have "content (fs_get s') di = bitmap_bytes b"
    unfolding s'(4) using length_bitmap_bytes [OF k(3)] k(4) d(4) e(2) by simp
  moreover have "free_map_allocate cnt s = Some (Some (word_of_nat k), s')"
    using k(1,2) s'(1) d(9,12) by (simp add: free_map_allocate_def t_def [symmetric]) (simp add: t_def)
  moreover have "\<forall>x. x \<notin> secs di \<longrightarrow> fs_get s' x = fs_get s x" using s'(3) by (simp add: t_def)
  ultimately show ?thesis using k s'(2) d(4) by (intro exI [of _ "word_of_nat k"] exI [of _ b] exI [of _ s']) (simp add: t_def)
qed

text \<open>Opening and closing the free map file.\<close>

lemma open_map_file:
  assumes b: "blank s" and n: "0 < fs_size s"
  shows "\<exists>ino t f s'. inode_open 0 s = Some (ino, t) \<and> file_open ino t = Some (f, s') \<and> f \<noteq> 0 \<and>
    mounted (s'\<lparr>free_map_file := f\<rparr>) ino f (dino (fs_get s) 0) \<and> fs_get s' = fs_get s \<and> fs_size s' = fs_size s \<and>
    free_map s' = free_map s \<and> fs_device s' = fs_device s"
proof -
  have b': "fs_dev_ok s" "\<And>n. fmem_ok s n" "bm_wf (free_map s)" "bit_cnt (free_map s) = fs_size s"
    "inodes s = Map.empty" "open_inodes s = []" "files s = Map.empty" "dirs s = Map.empty"
    using b by (simp_all add: blank_def)
  obtain d where d: "block_read (fs_device s) 0 (devs s) = Some (fs_get s 0, d)" "dev_ok (fs_device s) d"
    "dev_size (fs_device s) d = fs_size s" "dev_get (fs_device s) d = fs_get s"
    using dev.rd_ok [OF b'(1), of 0] n by auto
  define ino where "ino = Suc (fallocs s)"
  define t where "t = s\<lparr>fallocs := Suc (fallocs s), open_inodes := [ino],
    inodes := [ino \<mapsto> map_inode (dino (fs_get s) 0)], devs := d\<rparr>"
  define s' where "s' = t\<lparr>fallocs := Suc ino, files := [Suc ino \<mapsto> \<lparr>finode = ino, pos = 0, deny_write = False\<rparr>]\<rparr>"
  have "inode_open 0 s = Some (ino, t)"
    using b' d(1) by (simp add: inode_open_def fs_alloc_def t_def ino_def map_inode_def dino_def)
  moreover have "file_open ino t = Some (Suc ino, s')"
    using b' by (simp add: file_open_def fs_alloc_def t_def s'_def ino_def)
  moreover have "mounted (s'\<lparr>free_map_file := Suc ino\<rparr>) ino (Suc ino) (dino (fs_get s) 0)"
    unfolding mounted_def using b' d by (simp add: s'_def t_def ino_def; blast)
  moreover have "fs_get s' = fs_get s" "fs_size s' = fs_size s" "free_map s' = free_map s" "fs_device s' = fs_device s"
    using d by (simp_all add: s'_def t_def)
  ultimately show ?thesis by (metis Zero_not_Suc)
qed

lemma close_map_file:
  assumes "mounted s ino f di"
  shows "\<exists>s'. free_map_close s = Some s' \<and> blank s' \<and> fs_get s' = fs_get s \<and> fs_size s' = fs_size s \<and>
    free_map s' = free_map s \<and> fs_device s' = fs_device s"
proof -
  note d = mountedD [OF assms]
  define t where "t = s\<lparr>inodes := [ino \<mapsto> (map_inode di)\<lparr>open_cnt := 0\<rparr>], open_inodes := []\<rparr>"
  define s' where "s' = s\<lparr>inodes := Map.empty, open_inodes := [], files := Map.empty\<rparr>"
  have "file_allow_write f s = Some s" using d by (simp add: file_allow_write_def)
  moreover have "inode_close ino s = Some (s\<lparr>inodes := Map.empty, open_inodes := []\<rparr>)"
    using d by (simp add: inode_close_def map_inode_def Let_def)
  ultimately have "free_map_close s = Some s'"
    using d by (simp add: free_map_close_def file_close_def s'_def)
  moreover have "blank s'" using d by (simp add: blank_def s'_def; blast)
  ultimately show ?thesis by (simp add: s'_def)
qed

text \<open>The free map read back from the disk is the one that was written.\<close>

lemma length_concat_bytes32: "length (concat (map bytes32 ws)) = 4 * length ws"
  by (induction ws) simp_all

lemma drop_concat_bytes32: "drop (4 * k) (concat (map bytes32 ws)) = concat (map bytes32 (drop k ws))"
proof (induction ws arbitrary: k)
  case (Cons w ws)
  show ?case
  proof (cases k)
    case (Suc j)
    then have "drop (4 * k) (bytes32 w @ concat (map bytes32 ws)) = drop (4 * j) (concat (map bytes32 ws))"
      by (simp add: numeral_eq_Suc)
    then show ?thesis using Cons.IH [of j] Suc by simp
  qed simp
qed simp

lemma bytes_words_roundtrip: "bytes_words (bitmap_bytes b) = bits b"
proof (rule nth_equalityI)
  show l: "length (bytes_words (bitmap_bytes b)) = length (bits b)"
    by (simp add: bytes_words_def bitmap_bytes_def length_concat_bytes32)
  fix i assume "i < length (bytes_words (bitmap_bytes b))"
  then have i: "i < length (bits b)" using l by simp
  then have "drop i (bits b) = bits b ! i # drop (Suc i) (bits b)" by (rule Cons_nth_drop_Suc [symmetric])
  then have "word32 (drop (4 * i) (bitmap_bytes b)) = bits b ! i"
    by (simp add: bitmap_bytes_def drop_concat_bytes32)
  then show "bytes_words (bitmap_bytes b) ! i = bits b ! i"
    using i by (simp add: bytes_words_def length_concat_bytes32 bitmap_bytes_def)
qed

lemma last_mask_bit: "k < 32 \<Longrightarrow> bit (last_mask b) k \<longleftrightarrow> (bit_cnt b mod 32 \<noteq> 0 \<longrightarrow> k < bit_cnt b mod 32)"
  by (auto simp: last_mask_def ELEM_BITS_def Let_def push_bit_eq_mult mask_eq_exp_minus_1 [symmetric] bit_mask_iff)

lemma mask_last_bm:
  assumes "bm_wf b" "0 < bit_cnt b" "idx = (bit_cnt b + 31) div 32 - 1"
  defines "b' \<equiv> b\<lparr>bits := (bits b)[idx := bits b ! idx AND last_mask b]\<rparr>"
  shows "bm_wf b'" "bit_cnt b' = bit_cnt b" "bm_abs b' = bm_abs b"
proof -
  show "bm_wf b'" "bit_cnt b' = bit_cnt b" using assms(1) by (simp_all add: b'_def bm_wf_def)
  show "bm_abs b' = bm_abs b"
  proof (rule nth_equalityI)
    fix i assume "i < length (bm_abs b')"
    then have i: "i < bit_cnt b" by (simp add: b'_def)
    have "bit (last_mask b) (i mod 32)" if "i div 32 = idx"
    proof -
      have "bit_cnt b mod 32 \<noteq> 0 \<longrightarrow> i mod 32 < bit_cnt b mod 32"
      proof
        assume r: "bit_cnt b mod 32 \<noteq> 0"
        have c: "bit_cnt b = 32 * (bit_cnt b div 32) + bit_cnt b mod 32" by simp
        have "(32 * (bit_cnt b div 32) + bit_cnt b mod 32 + 31) div 32 = bit_cnt b div 32 + 1" using r by linarith
        then have "idx = bit_cnt b div 32" using assms(3) by simp
        moreover have "i = 32 * idx + i mod 32" using that by (metis mult_div_mod_eq)
        ultimately show "i mod 32 < bit_cnt b mod 32" using i c by linarith
      qed
      then show ?thesis by (simp add: last_mask_bit)
    qed
    then show "bm_abs b' ! i = bm_abs b ! i"
      using i bm_wf_idx [OF assms(1) i] by (cases "i div 32 = idx") (auto simp: b'_def nth_bm_abs bit_and_iff)
  qed (simp add: b'_def)
qed

lemma read_map_file:
  assumes m: "mounted s ino f di" and e: "ext_ok (fs_size s) di" "byte_cnt (fs_size s) = nat (dlength di)"
    and n: "0 < fs_size s" and c: "content (fs_get s) di = bitmap_bytes b" "bm_wf b" "bit_cnt b = fs_size s"
  shows "\<exists>b' s'. bitmap_read (free_map s) f s = Some (True, b', s') \<and> io_only s s' \<and> fs_get s' = fs_get s \<and>
    bm_wf b' \<and> bit_cnt b' = fs_size s \<and> bm_abs b' = bm_abs b"
proof -
  note d = mountedD [OF m]
  let ?buf = "bitmap_bytes (free_map s)" and ?sz = "int (byte_cnt (fs_size s))"
  have l: "length ?buf = byte_cnt (fs_size s)" "length (bitmap_bytes b) = byte_cnt (fs_size s)"
    using length_bitmap_bytes [OF d(3)] length_bitmap_bytes [OF c(2)] d(4) c(3) by simp_all
  obtain k s' where k: "inode_read_at ino ?buf ?sz 0 s =
      Some (int k, put_at ?buf 0 (slice (content (fs_get s) di) 0 k), s')"
    "io_only s s'" "fs_get s' = fs_get s" "k = room di ?sz 0"
    using inode_read_at_ok [of s ino "map_inode di" 0 ?sz ?buf] d(1,2,5) e(1) l(1) by (auto simp: map_inode_def)
  have "k = byte_cnt (fs_size s)" using k(4) e by (simp add: room_def ext_ok_def)
  then have r: "inode_read_at ino ?buf ?sz 0 s = Some (?sz, bitmap_bytes b, s')"
    using k(1) c(1) l by (simp add: slice_def)
  define idx where "idx = (bit_cnt b + 31) div 32 - 1"
  define b' where "b' = b\<lparr>bits := (bits b)[idx := bits b ! idx AND last_mask b]\<rparr>"
  have b: "bm_wf b'" "bit_cnt b' = bit_cnt b" "bm_abs b' = bm_abs b"
    using mask_last_bm [OF c(2) _ idx_def] c(3) n by (simp_all add: b'_def)
  have el: "elem_cnt (bit_cnt b) = (bit_cnt b + 31) div 32" using c(2) by (simp add: bm_wf_def)
  have "b' = (free_map s)\<lparr>bits := (bits b)[idx := bits b ! idx AND last_mask (free_map s)]\<rparr>"
    by (simp add: b'_def last_mask_def d(4) c(3))
  then have "bitmap_read (free_map s) f s = Some (True, b', s')"
    using r n d(4,7) el c(3) by (simp add: bitmap_read_def file_read_at_def bytes_words_roundtrip Let_def idx_def)
  then show ?thesis using k(2,3) b c(3) by (intro exI [of _ b'] exI [of _ s']) simp
qed

section \<open>Starting on a disk\<close>

text \<open>A disk that holds a file system with the free map \<open>b\<close>.\<close>

definition disk_image :: "(u32 \<Rightarrow> u8 list) \<Rightarrow> nat \<Rightarrow> bitmap \<Rightarrow> bool" where
  "disk_image g n b \<longleftrightarrow> bm_wf b \<and> bit_cnt b = n \<and> 0 < n \<and>
     disk_inv g n (bm_used b) ({0, 1} \<union> ran (dir_map (fcontent g 1))) \<and>
     dir_ok (fcontent g 1) \<and> inj_on (dir_map (fcontent g 1)) (dom (dir_map (fcontent g 1))) \<and>
     0 \<notin> ran (dir_map (fcontent g 1)) \<and> 1 \<notin> ran (dir_map (fcontent g 1)) \<and>
     byte_cnt n = nat (dlength (dino g 0)) \<and> fcontent g 0 = bitmap_bytes b"

lemma mounted_inv:
  assumes m: "mounted s ino f di" and i: "disk_image (fs_get s) (fs_size s) b" "di = dino (fs_get s) 0"
    and u: "bm_used (free_map s) = bm_used b"
  shows "fs_inv s" "abs_handles s = Map.empty"
proof -
  note d = mountedD [OF m]
  have op: "open_secs s = {0}" by (auto simp: open_secs_def d(5) map_inode_def ran_def)
  have ow: "owned s = {0, 1} \<union> ran (dir_map (fcontent (fs_get s) 1))" by (auto simp: owned_def op dir_secs_def)
  have "disk_ok s" unfolding disk_ok_def ow u using d i(1) by (auto simp: disk_image_def)
  moreover have "root_ok s" using i(1) by (simp add: root_ok_def dir_secs_def disk_image_def)
  moreover have "table_ok s (\<lambda>_. 0)"
  proof -
    have f1: "{g. \<exists>fl. files s g = Some fl \<and> finode fl = ino} = {f}" by (auto simp: d(7))
    have n1: "{g. \<exists>dr. dirs s g = Some dr \<and> dinode dr = ino} = {}" by (auto simp: d(8))
    have n2: "{g. \<exists>fl. files s g = Some fl \<and> finode fl = ino \<and> deny_write fl} = {}" by (auto simp: d(7))
    have "refs s ino = 1" "denies s ino = 0" unfolding refs_def denies_def f1 n1 n2 by simp_all
    then have "inode_ok s (\<lambda>_. 0) ino (map_inode di)"
      using d(10,11) i(2) by (simp add: inode_ok_def map_inode_def)
    then show ?thesis using d(5,6) by (auto simp: table_ok_def split: if_splits)
  qed
  moreover have "handles_ok s" using d by (auto simp: handles_ok_def file_ok_def map_inode_def)
  ultimately show "fs_inv s" by (simp add: fs_inv_def core_def)
  show "abs_handles s = Map.empty" using d(7,9) by (auto simp: abs_handles_def fun_eq_iff)
qed

lemma disk_image_ext: "disk_image g n b \<Longrightarrow> ext_ok n (dino g 0)"
  using disk_invD(1) [of g n "bm_used b" "{0, 1} \<union> ran (dir_map (fcontent g 1))" 0] by (simp add: disk_image_def)

lemma bm_used_abs: "bm_abs a = bm_abs b \<Longrightarrow> bm_used a = bm_used b"
proof -
  assume a: "bm_abs a = bm_abs b"
  then have "bit_cnt a = bit_cnt b" by (metis length_bm_abs)
  then show ?thesis using a by (simp add: bm_used_def)
qed

lemma free_map_open_ok:
  assumes b: "blank s" and i: "disk_image (fs_get s) (fs_size s) b"
  shows "\<exists>s'. free_map_open s = Some s' \<and> fs_inv s' \<and> abs_handles s' = Map.empty \<and> fs_get s' = fs_get s \<and>
    fs_size s' = fs_size s \<and> fs_device s' = fs_device s \<and> bm_abs (free_map s') = bm_abs b"
proof -
  have im: "0 < fs_size s" "bm_wf b" "bit_cnt b = fs_size s" "byte_cnt (fs_size s) = nat (dlength (dino (fs_get s) 0))"
    "fcontent (fs_get s) 0 = bitmap_bytes b"
    using i by (auto simp: disk_image_def)
  obtain ino t f s1 where o: "inode_open 0 s = Some (ino, t)" "file_open ino t = Some (f, s1)" "f \<noteq> 0"
    "mounted (s1\<lparr>free_map_file := f\<rparr>) ino f (dino (fs_get s) 0)" "fs_get s1 = fs_get s" "fs_size s1 = fs_size s"
    "free_map s1 = free_map s" "fs_device s1 = fs_device s"
    using open_map_file [OF b im(1)] by (elim exE conjE) (rule that; assumption)
  define s2 where "s2 = s1\<lparr>free_map_file := f\<rparr>"
  have g2: "fs_get s2 = fs_get s" "fs_size s2 = fs_size s" "fs_device s2 = fs_device s" "free_map s2 = free_map s1"
    using o(5,6,8) by (simp_all add: s2_def)
  have m2: "mounted s2 ino f (dino (fs_get s) 0)" using o(4) by (simp add: s2_def)
  have h: "ext_ok (fs_size s2) (dino (fs_get s) 0)" "byte_cnt (fs_size s2) = nat (dlength (dino (fs_get s) 0))"
    "0 < fs_size s2" "content (fs_get s2) (dino (fs_get s) 0) = bitmap_bytes b" "bit_cnt b = fs_size s2"
    unfolding g2(1,2) using disk_image_ext [OF i] im by (simp_all add: fcontent_def)
  obtain b' s3 where r: "bitmap_read (free_map s2) f s2 = Some (True, b', s3)" "io_only s2 s3" "fs_get s3 = fs_get s2"
    "bm_wf b'" "bit_cnt b' = fs_size s2" "bm_abs b' = bm_abs b"
    using read_map_file [OF m2 h(1-4) im(2) h(5)] by (elim exE conjE) (rule that; assumption)
  define s' where "s' = s3\<lparr>free_map := b'\<rparr>"
  have m3: "mounted s3 ino f (dino (fs_get s) 0)" by (rule mounted_io [OF m2 r(2)])
  have g3: "fs_get s' = fs_get s" "fs_size s' = fs_size s" "fs_device s' = fs_device s"
    using io_onlyD(7,10) [OF r(2)] r(3) g2 by (simp_all add: s'_def)
  have i': "disk_image (fs_get s') (fs_size s') b" unfolding g3(1,2) by (rule i)
  have d0: "dino (fs_get s) 0 = dino (fs_get s') 0" unfolding g3(1) by simp
  have "mounted s' ino f (dino (fs_get s) 0)"
    using m3 r(4,5) g3(2) g2(2) by (simp add: mounted_def s'_def)
  moreover have "bm_used (free_map s') = bm_used b" using bm_used_abs [OF r(6)] by (simp add: s'_def)
  ultimately have "fs_inv s'" "abs_handles s' = Map.empty"
    using mounted_inv [OF _ i' d0] by blast+
  moreover have "free_map_open s = Some s'"
    using o(1-3) r(1) by (simp add: free_map_open_def FREE_MAP_SECTOR_def s2_def s'_def)
  ultimately show ?thesis using g3 r(6) by (intro exI [of _ s']) (simp add: s'_def)
qed

text \<open>The new free map, with the sectors of the free map and the root directory marked.\<close>

lemma free_map_init_ok:
  assumes "dev_ok (fs_device s) (devs s)" "2 \<le> fs_size s" "fs_size s \<le> 4294967264" "length fm = (fs_size s + 31) div 32"
  shows "\<exists>b. free_map_init (Some fm) s = Some (s\<lparr>free_map := b\<rparr>) \<and> bm_wf b \<and> bit_cnt b = fs_size s \<and> bm_used b = {0, 1}"
proof -
  let ?n = "fs_size s"
  let ?b = "\<lparr>bit_cnt = ?n, bits = fm\<rparr>"
  have wf: "bm_wf ?b" using assms(3,4) by (simp add: bm_wf_def)
  obtain b0 where b0: "bitmap_set_multiple ?b 0 ?n False = Some b0" "bm_wf b0" "bit_cnt b0 = ?n"
    "bm_abs b0 = fill (bm_abs ?b) 0 ?n False"
    using bitmap_set_multiple_abs [OF wf, of 0 ?n False] by auto
  obtain b1 where b1: "bitmap_mark b0 0 = Some b1" "bm_wf b1" "bit_cnt b1 = ?n" "bm_abs b1 = (bm_abs b0)[0 := True]"
    using bitmap_mark_abs [OF b0(2), of 0] b0(3) assms(2) by auto
  obtain b2 where b2: "bitmap_mark b1 1 = Some b2" "bm_wf b2" "bit_cnt b2 = ?n" "bm_abs b2 = (bm_abs b1)[1 := True]"
    using bitmap_mark_abs [OF b1(2), of 1] b1(3) assms(2) by auto
  have a0: "bm_abs b0 ! k = False" if "k < ?n" for k
    using that b0(4) by (simp add: nth_fill)
  have "bm_used b2 = {0, 1}"
    using b0(3) b1(3,4) b2(3,4) a0 assms(2) by (auto simp: bm_used_def nth_list_update split: if_splits)
  moreover obtain sz where "block_size (fs_device s) (devs s) = Some sz" "unat sz = ?n"
    using assms(1) by (auto simp: block_size_def dev_size_def dev_ok_def split: option.splits)
  ultimately show ?thesis
    using b0(1) b1(1) b2
    by (intro exI [of _ b2]) (simp add: free_map_init_def bitmap_create_def bitmap_set_all_def bitmap_size_def
      FREE_MAP_SECTOR_def ROOT_DIR_SECTOR_def)
qed

lemma room_initial:
  assumes "bm_used (free_map s) = {0, 1}" "2 + cnt \<le> bit_cnt (free_map s)"
  shows "room_for s cnt"
  unfolding room_for_def using assms by (intro exI [of _ 2]) auto

lemma room_one:
  assumes "finite (bm_used (free_map s))" "card (bm_used (free_map s)) < bit_cnt (free_map s)"
  shows "room_for s 1"
proof -
  have "\<not> {..<bit_cnt (free_map s)} \<subseteq> bm_used (free_map s)"
    using card_mono [OF assms(1), of "{..<bit_cnt (free_map s)}"] assms(2) by auto
  then obtain k where "k < bit_cnt (free_map s)" "k \<notin> bm_used (free_map s)" by blast
  then show ?thesis unfolding room_for_def by (intro exI [of _ k]) auto
qed

lemma map_sectors:
  assumes "4 \<le> n" "n \<le> 4294967264"
  shows "byte_cnt n = 4 * ((n + 31) div 32)" "byte_cnt n + 511 < 2147483648" "(byte_cnt n + 511) div 512 + 3 \<le> n"
proof -
  have "(n + 31) div 32 < 268435456" using assms by (simp add: div_less_iff_less_mult)
  then show b: "byte_cnt n = 4 * ((n + 31) div 32)" using assms by (simp add: byte_cnt_def wrap32_less)
  show "byte_cnt n + 511 < 2147483648" using assms unfolding b by (simp add: div_less_iff_less_mult)
  show "(byte_cnt n + 511) div 512 + 3 \<le> n" unfolding b using assms(1) by linarith
qed

text \<open>The free map file on the disk: its inode in sector 0, and the sectors it owns are used.\<close>

definition map_stored :: "fsys \<Rightarrow> inode_disk \<Rightarrow> bool" where
  "map_stored s di \<longleftrightarrow> dino (fs_get s) 0 = di \<and> ext_ok (fs_size s) di \<and> byte_cnt (fs_size s) = nat (dlength di) \<and>
     0 \<notin> secs di \<and> 1 \<notin> secs di \<and> bm_used (free_map s) = {0, 1} \<union> unat ` secs di \<and>
     card (unat ` secs di) = (byte_cnt (fs_size s) + 511) div 512"

lemma free_map_create_ok:
  assumes b: "blank s" and f0: "free_map_file s = 0" and n: "4 \<le> fs_size s" "fs_size s \<le> 4294967264"
    and u: "bm_used (free_map s) = {0, 1}"
  shows "\<exists>s' ino f di. free_map_create s = Some s' \<and> mounted s' ino f di \<and> map_stored s' di \<and>
    fs_size s' = fs_size s \<and> fs_device s' = fs_device s"
proof -
  have b': "fs_dev_ok s" "\<And>n. fmem_ok s n" "bm_wf (free_map s)" "bit_cnt (free_map s) = fs_size s"
    using b by (simp_all add: blank_def)
  define len m where "len = int (byte_cnt (fs_size s))" and "m = (nat len + 511) div 512"
  note ms = map_sectors [OF n]
  have len: "0 \<le> len" "len + 511 < 2147483648" "m + 3 \<le> fs_size s" using ms(2,3) by (simp_all add: len_def m_def)
  define s0 where "s0 = s\<lparr>fallocs := Suc (fallocs s)\<rparr>"
  have rm: "room_for s0 m" using room_initial [of s0 m] u b'(4) len(3) by (simp add: s0_def)
  obtain first b1 where a: "free_map_allocate m s0 = Some (Some first, s0\<lparr>free_map := b1\<rparr>)" "bm_wf b1"
    "bit_cnt b1 = fs_size s" "unat first + m \<le> fs_size s" "{unat first..<unat first + m} \<inter> {0, 1} = {}"
    "bm_used b1 = {0, 1} \<union> {unat first..<unat first + m}"
    using allocate_blank [OF _ rm] b' f0 u by (auto simp: s0_def)
  define s1 where "s1 = s0\<lparr>free_map := b1\<rparr>"
  have s1: "fs_dev_ok s1" "fs_size s1 = fs_size s" "fs_get s1 = fs_get s" "fs_device s1 = fs_device s"
    using b'(1) by (simp_all add: s1_def s0_def)
  define di where "di = \<lparr>start = first, dlength = len, dmagic = INODE_MAGIC\<rparr>"
  have pre: "fs_size s1 < 4294967296" "unat 0 < fs_size s1" "unat first + (nat len + 511) div 512 \<le> fs_size s1"
    "unat 0 \<notin> {unat first..<unat first + (nat len + 511) div 512}"
    unfolding s1(2) using n a(4,5) by (auto simp: m_def)
  obtain d1 d2 where w: "block_write (fs_device s1) 0 (disk_bytes di) (devs s1) = Some d1"
    "zero_sectors (fs_device s1) first 0 ((nat len + 511) div 512) d1 = Some d2" "dev_ok (fs_device s1) d2"
    "dev_size (fs_device s1) d2 = fs_size s1" "ext_ok (fs_size s1) di"
    "unat ` secs di = {unat first..<unat first + (nat len + 511) div 512}" "0 \<notin> secs di"
    "dino (dev_get (fs_device s1) d2) 0 = di"
    using create_tail [OF s1(1) pre(1,2) len(1,2) pre(3,4), folded di_def] by (elim exE conjE) (rule that, assumption+)
  define s2 where "s2 = s1\<lparr>devs := d2\<rparr>"
  have cr: "inode_create 0 len s = Some (True, s2)"
    using a(1) w(1,2) len(1,2) b'(2)
    by (simp add: inode_create_unfold m_def s0_def [symmetric] s1_def [symmetric] di_def [symmetric] s2_def)
  have s2: "fs_size s2 = fs_size s" "dino (fs_get s2) 0 = di" "free_map s2 = b1" "fs_device s2 = fs_device s"
    using w(4,8) s1 by (simp_all add: s2_def) (simp add: s1_def)
  have "blank s2" using b w(3,4) s1(2) a(2,3) unfolding blank_def by (simp add: s2_def s1_def s0_def; blast)
  then obtain ino t f s3 where o: "inode_open 0 s2 = Some (ino, t)" "file_open ino t = Some (f, s3)" "f \<noteq> 0"
    "mounted (s3\<lparr>free_map_file := f\<rparr>) ino f di" "fs_get s3 = fs_get s2" "fs_size s3 = fs_size s2"
    "free_map s3 = b1" "fs_device s3 = fs_device s2"
    using open_map_file [of s2] n unfolding s2(2,3) by (simp only: s2(1)) force
  define s4 where "s4 = s3\<lparr>free_map_file := f\<rparr>"
  have s4: "mounted s4 ino f di" "fs_size s4 = fs_size s" "fs_get s4 = fs_get s2" "free_map s4 = b1" "fs_device s4 = fs_device s"
    using o(4-8) s2(1,4) by (simp_all add: s4_def)
  have ext: "ext_ok (fs_size s4) di" "byte_cnt (fs_size s4) \<le> nat (dlength di)"
    using w(5) s1(2) unfolding s4(2) by (simp_all add: di_def len_def)
  have dm: "data (map_inode di) = di" by (simp add: map_inode_def)
  have b1n: "bit_cnt b1 = fs_size s4" unfolding s4(2) by (rule a(3))
  from bitmap_write_ok [OF mounted_map_file [OF s4(1) ext] a(2) b1n, unfolded dm mountedD(9) [OF s4(1)]]
  obtain s5 where s5: "bitmap_write b1 f s4 = Some (True, s5)" "io_only s4 s5"
    "\<forall>x. x \<notin> secs di \<longrightarrow> fs_get s5 x = fs_get s4 x" by blast
  have sz5: "fs_size s5 = fs_size s" "fs_device s5 = fs_device s" "free_map s5 = b1"
    using io_onlyD(5,7,10) [OF s5(2)] s4(2,4,5) by simp_all
  have "1 \<notin> secs di" using w(6) a(5) unfolding m_def by (metis disjoint_iff image_eqI insertCI unat_1)
  moreover have "dino (fs_get s5) 0 = di" using s5(3) w(7) s2(2) unfolding dino_def s4(3) by simp
  moreover have "ext_ok (fs_size s5) di" using w(5) s1(2) sz5(1) by simp
  ultimately have "map_stored s5 di"
    unfolding map_stored_def sz5(1,3) a(6) w(6) using w(7) by (simp add: di_def len_def m_def)
  moreover have "free_map_create s = Some s5"
    using cr o(1-3) s5(1) b'(4) s4(4)
    by (simp add: free_map_create_def FREE_MAP_SECTOR_def len_def [symmetric] s4_def [symmetric] o(7))
  ultimately show ?thesis using mounted_io [OF s4(1) s5(2)] sz5 by blast
qed

lemma secs_used: "map_stored s di \<Longrightarrow> x \<in> secs di \<Longrightarrow> unat x \<in> bm_used (free_map s)"
  by (simp add: map_stored_def)

lemma zero_entries [simp]: "\<not> live (replicate n 0) k" "dir_map (replicate n 0) = Map.empty" "dir_ok (replicate n 0)"
proof -
  show l: "\<not> live (replicate n 0) k" for k
  proof
    assume a: "live (replicate n 0) k"
    then have "k < n div 20" by (simp add: live_def ents_def)
    then have "20 * k + 20 \<le> n" by linarith
    then have "ent (replicate n (0 :: u8)) k ! 19 = 0" by (simp add: ent_def slice_def)
    then show False using a by (simp add: live_def)
  qed
  show "dir_map (replicate n 0) = Map.empty" "dir_ok (replicate n 0)" by (simp_all add: dir_map_def dir_ok_def l)
qed

lemma dir_create_ok:
  assumes m: "mounted s ino f di" and st: "map_stored s di" and n: "4 \<le> fs_size s" "fs_size s \<le> 4294967264"
  shows "\<exists>s' b. dir_create 1 16 s = Some (True, s') \<and> mounted s' ino f di \<and> disk_image (fs_get s') (fs_size s') b \<and>
    fcontent (fs_get s') 1 = replicate 320 0 \<and> fs_size s' = fs_size s \<and> fs_device s' = fs_device s \<and>
    card (bm_used b) \<le> 3 + (byte_cnt (fs_size s) + 511) div 512"
proof -
  note d = mountedD [OF m]
  have st': "dino (fs_get s) 0 = di" "ext_ok (fs_size s) di" "byte_cnt (fs_size s) = nat (dlength di)" "0 \<notin> secs di"
    "1 \<notin> secs di" "bm_used (free_map s) = {0, 1} \<union> unat ` secs di"
    "card (unat ` secs di) = (byte_cnt (fs_size s) + 511) div 512"
    using st by (simp_all add: map_stored_def)
  define s0 where "s0 = s\<lparr>fallocs := Suc (fallocs s)\<rparr>"
  have m0: "mounted s0 ino f di" 
    unfolding s0_def using io_onlyI [of s "devs s" "Suc (fallocs s)"] d(1) by (intro mounted_io [OF m]) simp
  have s0: "fs_size s0 = fs_size s" "fs_get s0 = fs_get s" "free_map s0 = free_map s" "fs_device s0 = fs_device s"
    by (simp_all add: s0_def)
  have cd: "card (bm_used (free_map s)) \<le> 2 + (byte_cnt (fs_size s) + 511) div 512"
    unfolding st'(6) st'(7) [symmetric] by (rule order_trans [OF card_Un_le]) simp
  have fin: "finite (bm_used (free_map s))" by (simp add: bm_used_def)
  with cd have rm: "room_for s0 1" using room_one [of s0] map_sectors(3) [OF n] d(4) s0(3) by simp
  have e0: "ext_ok (fs_size s0) di" "byte_cnt (fs_size s0) = nat (dlength di)" using st'(2,3) s0(1) by simp_all
  obtain first b s1 where a: "free_map_allocate 1 s0 = Some (Some first, s1)" "bm_wf b" "bit_cnt b = fs_size s0"
    "unat first + 1 \<le> fs_size s0" "{unat first..<unat first + 1} \<inter> bm_used (free_map s0) = {}"
    "bm_used b = bm_used (free_map s0) \<union> {unat first..<unat first + 1}" "io_only (s0\<lparr>free_map := b\<rparr>) s1"
    "\<forall>x. x \<notin> secs di \<longrightarrow> fs_get s1 x = fs_get s0 x" "content (fs_get s1) di = bitmap_bytes b"
    using allocate_mounted [OF m0 e0 rm] by (elim exE conjE) (rule that, assumption+)
  have "mounted (s0\<lparr>free_map := b\<rparr>) ino f di" using m0 a(2,3) by (simp add: mounted_def)
  then have m1: "mounted s1 ino f di" by (rule mounted_io [OF _ a(7)])
  have s1: "fs_size s1 = fs_size s" "fs_device s1 = fs_device s" "free_map s1 = b"
    using io_onlyD(5,7,10) [OF a(7)] s0(1,4) by simp_all
  have fresh: "unat first \<notin> bm_used (free_map s)" using a(5) s0(3) by auto
  define dj where "dj = \<lparr>start = first, dlength = 320, dmagic = INODE_MAGIC\<rparr>"
  have pre: "fs_size s1 < 4294967296" "unat (1 :: u32) < fs_size s1" "0 \<le> (320 :: int)" "320 + 511 < (2147483648 :: int)"
    "unat first + (nat 320 + 511) div 512 \<le> fs_size s1" "unat (1 :: u32) \<notin> {unat first..<unat first + (nat 320 + 511) div 512}"
    unfolding s1(1) using n a(4) s0(1) fresh st'(6) by auto
  obtain d1 d2 where w: "block_write (fs_device s1) 1 (disk_bytes dj) (devs s1) = Some d1"
    "zero_sectors (fs_device s1) first 0 ((nat 320 + 511) div 512) d1 = Some d2" "dev_ok (fs_device s1) d2"
    "dev_size (fs_device s1) d2 = fs_size s1" "ext_ok (fs_size s1) dj"
    "unat ` secs dj = {unat first..<unat first + (nat 320 + 511) div 512}" "1 \<notin> secs dj"
    "dino (dev_get (fs_device s1) d2) 1 = dj" "fcontent (dev_get (fs_device s1) d2) 1 = replicate (nat 320) 0"
    "\<forall>x. x \<noteq> 1 \<and> x \<notin> secs dj \<longrightarrow> dev_get (fs_device s1) d2 x = fs_get s1 x"
    using create_tail [OF mountedD(1) [OF m1] pre, folded dj_def] by (elim exE conjE) (rule that, assumption+)
  define s2 where "s2 = s1\<lparr>devs := d2\<rparr>"
  have "dir_create 1 16 s = inode_create 1 320 s" by (simp add: dir_create_def wrap32_less to_s32_in in_s32_def)
  then have cr: "dir_create 1 16 s = Some (True, s2)"
    using a(1) w(1,2) d(2) by (simp add: inode_create_unfold s0_def [symmetric] dj_def [symmetric] s2_def)
  have s2: "fs_size s2 = fs_size s" "fs_device s2 = fs_device s" "fs_get s2 = dev_get (fs_device s1) d2"
    using w(4) s1(1,2) by (simp_all add: s2_def)
  have m2: "mounted s2 ino f di" using m1 w(3,4) unfolding mounted_def by (simp add: s2_def; blast)
  have udj: "unat ` secs dj = {unat first}" using w(6) by (simp add: atLeastLessThan_singleton)
  have nd: "y \<notin> secs dj" if "unat y \<in> bm_used (free_map s)" for y using that udj fresh by (metis imageI singletonD)
  have zdj: "0 \<notin> secs dj" using nd [of 0] st'(6) by simp
  have dd: "dino (fs_get s2) 0 = di" "dino (fs_get s2) 1 = dj"
    using w(8,10) a(8) st'(1,4) zdj unfolding dino_def s2(3) s0(2) by simp_all
  have "content (fs_get s2) di = content (fs_get s1) di"
  proof (rule content_cong)
    fix x assume x: "x \<in> secs di"
    then have "x \<noteq> 1" "x \<notin> secs dj" using st'(5) nd secs_used [OF st x] by auto
    then show "fs_get s2 x = fs_get s1 x" unfolding s2(3) using w(10) by blast
  qed
  then have c0: "fcontent (fs_get s2) 0 = bitmap_bytes b" unfolding fcontent_def dd(1) a(9) .
  have c1: "fcontent (fs_get s2) 1 = replicate 320 0" unfolding s2(3) using w(9) by simp
  have "area (fs_get s2) 0 = insert 0 (secs di)" "area (fs_get s2) 1 = insert 1 (secs dj)" by (simp_all add: area_def dd)
  moreover have "insert 0 (secs di) \<inter> insert 1 (secs dj) = {}" using st'(5,6) nd zdj by auto
  moreover have "insert 0 (unat ` secs di) \<subseteq> bm_used b" "insert 1 (unat ` secs dj) \<subseteq> bm_used b"
    unfolding a(6) s0(3) st'(6) udj by auto
  ultimately have "disk_inv (fs_get s2) (fs_size s) (bm_used b) {0, 1}"
    using st'(2,4) w(5,7) s1(1) unfolding disk_inv_def by (auto simp: dd)
  then have "disk_image (fs_get s2) (fs_size s2) b"
    unfolding disk_image_def s2(1) c1 using a(2,3) s0(1) n st'(3) c0 by (simp add: dd(1))
  moreover have "card (bm_used b) \<le> 3 + (byte_cnt (fs_size s) + 511) div 512"
    unfolding a(6) s0(3) using order_trans [OF card_Un_le, of "bm_used (free_map s)" "{unat first..<unat first + 1}"] cd by simp
  ultimately show ?thesis using cr m2 c1 s2(1,2) by blast
qed

lemma format_ok:
  assumes dev: "block_by_role (devs s) BLOCK_FILESYS = dev" "dev \<noteq> 0" "dev_ok dev (devs s)"
    and n: "4 \<le> dev_size dev (devs s)" "dev_size dev (devs s) \<le> 4294967264"
    and fm: "length fm = (dev_size dev (devs s) + 31) div 32"
    and new: "\<forall>n. fmem_ok s n" "inodes s = Map.empty" "files s = Map.empty" "dirs s = Map.empty" "free_map_file s = 0"
  shows "\<exists>s'. filesys_init True (Some fm) s = Some s' \<and> fs_inv s' \<and> abs_handles s' = Map.empty \<and>
    root_content s' = replicate 320 0 \<and> fs_size s' = dev_size dev (devs s) \<and>
    card (bm_used (free_map s')) \<le> 3 + (byte_cnt (fs_size s') + 511) div 512"
proof -
  define s0 where "s0 = inode_init (s\<lparr>fs_device := dev\<rparr>)"
  have s0: "fs_device s0 = dev" "devs s0 = devs s" "inodes s0 = Map.empty" "open_inodes s0 = []" "files s0 = Map.empty"
    "dirs s0 = Map.empty" "fmem_ok s0 = fmem_ok s" "free_map_file s0 = 0"
    using new by (simp_all add: s0_def inode_init_def)
  obtain b where b: "free_map_init (Some fm) s0 = Some (s0\<lparr>free_map := b\<rparr>)" "bm_wf b" "bit_cnt b = dev_size dev (devs s)"
    "bm_used b = {0, 1}"
    using free_map_init_ok [of s0 fm] dev(3) n fm by (auto simp: s0)
  define s1 where "s1 = s0\<lparr>free_map := b\<rparr>"
  have s1: "fs_device s1 = dev" "devs s1 = devs s" "free_map s1 = b" "free_map_file s1 = 0" by (simp_all add: s1_def s0)
  have bl: "blank s1" using new(1) dev(3) b(2,3) unfolding blank_def by (simp add: s1_def s0)
  have n1: "4 \<le> fs_size s1" "fs_size s1 \<le> 4294967264" using n by (simp_all add: s1)
  have u1: "bm_used (free_map s1) = {0, 1}" using b(4) by (simp add: s1)
  obtain s2 ino f di where s2: "free_map_create s1 = Some s2" "mounted s2 ino f di" "map_stored s2 di"
    "fs_size s2 = fs_size s1" "fs_device s2 = fs_device s1"
    using free_map_create_ok [OF bl s1(4) n1 u1] by blast
  have n2: "4 \<le> fs_size s2" "fs_size s2 \<le> 4294967264" unfolding s2(4) by (fact n1)+
  obtain s3 b3 where s3: "dir_create 1 16 s2 = Some (True, s3)" "mounted s3 ino f di" "disk_image (fs_get s3) (fs_size s3) b3"
    "fcontent (fs_get s3) 1 = replicate 320 0" "fs_size s3 = fs_size s2"
    "card (bm_used b3) \<le> 3 + (byte_cnt (fs_size s2) + 511) div 512"
    using dir_create_ok [OF s2(2,3) n2] by blast
  obtain s4 where s4: "free_map_close s3 = Some s4" "blank s4" "fs_get s4 = fs_get s3" "fs_size s4 = fs_size s3"
    using close_map_file [OF s3(2)] by blast
  have "disk_image (fs_get s4) (fs_size s4) b3" unfolding s4(3,4) by (rule s3(3))
  then obtain s5 where s5: "free_map_open s4 = Some s5" "fs_inv s5" "abs_handles s5 = Map.empty" "fs_get s5 = fs_get s4"
    "fs_size s5 = fs_size s4" "bm_abs (free_map s5) = bm_abs b3" using free_map_open_ok [OF s4(2)] by blast
  have "filesys_init True (Some fm) s = Some s5"
    using dev(1,2) b(1) s2(1) s3(1) s4(1) s5(1)
    by (simp add: filesys_init_def block_get_role_def role_ok_def s0_def [symmetric] s1_def [symmetric] do_format_def
      ROOT_DIR_SECTOR_def)
  moreover have "root_content s5 = replicate 320 0" unfolding s5(4) s4(3) by (rule s3(4))
  moreover have "fs_size s5 = dev_size dev (devs s)" unfolding s5(5) s4(4) s3(5) s2(4) by (simp add: s1)
  moreover have "card (bm_used (free_map s5)) \<le> 3 + (byte_cnt (fs_size s5) + 511) div 512"
    unfolding bm_used_abs [OF s5(6)] s5(5) s4(4) s3(5) by (rule s3(6))
  ultimately show ?thesis using s5(2,3) by blast
qed

section \<open>Properties\<close>

text \<open>A drive of 100 sectors with arbitrary contents before the file system is started.\<close>

definition boot_demo :: fsys where
  "boot_demo = demo_fs\<lparr>inodes := Map.empty, open_inodes := [], fallocs := 0\<rparr>"

lemma boot_demo_ok:
  "block_by_role (devs boot_demo) BLOCK_FILESYS = 1" "dev_ok 1 (devs boot_demo)" "dev_size 1 (devs boot_demo) = 100"
  "\<forall>n. fmem_ok boot_demo n" "inodes boot_demo = Map.empty" "files boot_demo = Map.empty" "dirs boot_demo = Map.empty"
  "free_map_file boot_demo = 0" "length (replicate 4 (0 :: u32)) = (100 + 31) div 32"
  using demo_drive_ok by (simp_all add: boot_demo_def demo_fs_def) (simp add: demo_drive_def)

text \<open>
  C5. Starting the file system with \<open>format\<close> on a device of at least four sectors, whatever it holds,
  never panics and ends in a state that satisfies the invariant, with no names and no open files. The device has
  at most \<open>2 ^ 32 - 32\<close> sectors, and every allocation of memory, the bitmap's included, succeeds.
\<close>

theorem filesys_format:
  assumes "block_by_role (devs s) BLOCK_FILESYS = dev" "dev \<noteq> 0" "dev_ok dev (devs s)"
    and "4 \<le> dev_size dev (devs s)" "dev_size dev (devs s) \<le> 4294967264"
    and "length fm = (dev_size dev (devs s) + 31) div 32"
    and "\<forall>n. fmem_ok s n" "inodes s = Map.empty" "files s = Map.empty" "dirs s = Map.empty" "free_map_file s = 0"
  shows "\<exists>s'. filesys_init True (Some fm) s = Some s' \<and> fs_inv s' \<and>
    abs_fs s' = \<lparr>names = Map.empty, store = Map.empty, handles = Map.empty\<rparr>"
proof -
  obtain s' where s': "filesys_init True (Some fm) s = Some s'" "fs_inv s'" "abs_handles s' = Map.empty"
    "root_content s' = replicate 320 0"
    using format_ok [OF assms] by blast
  have "abs_fs s' = \<lparr>names = Map.empty, store = Map.empty, handles = Map.empty\<rparr>"
    using s'(3,4) by (simp add: abs_fs_def gc_def reach_def)
  then show ?thesis using s'(1,2) by blast
qed

theorem filesys_format_witness:
  "\<exists>s'. filesys_init True (Some [0, 0, 0, 0]) boot_demo = Some s' \<and> fs_inv s' \<and>
    abs_fs s' = \<lparr>names = Map.empty, store = Map.empty, handles = Map.empty\<rparr>"
  using filesys_format [of boot_demo 1 "[0, 0, 0, 0]"] boot_demo_ok by auto

text \<open>Sequences of calls, of the code and of the specification, with their results.\<close>

inductive fs_run :: "fsys \<Rightarrow> (fs_op \<times> fs_res) list \<Rightarrow> fsys \<Rightarrow> bool" where
  fs_run_Nil: "fs_run s [] s"
| fs_run_Cons: "legal op (abs_fs s) \<Longrightarrow> length junk = 20 \<Longrightarrow> run_op junk op s = Some (r, s1) \<Longrightarrow> fs_run s1 tr s2 \<Longrightarrow>
    fs_run s ((op, r) # tr) s2"

inductive afs_run :: "afs \<Rightarrow> (fs_op \<times> fs_res) list \<Rightarrow> afs \<Rightarrow> bool" where
  afs_run_Nil: "afs_run a [] a"
| afs_run_Cons: "astep op r a a1 \<Longrightarrow> afs_run a1 tr a2 \<Longrightarrow> afs_run a ((op, r) # tr) a2"

lemma fs_run_refines: "fs_run s tr s' \<Longrightarrow> fs_inv s \<Longrightarrow> fs_inv s' \<and> afs_run (abs_fs s) tr (abs_fs s')"
proof (induction rule: fs_run.induct)
  case (fs_run_Nil s)
  then show ?case by (simp add: afs_run_Nil)
next
  case (fs_run_Cons op s junk r s1 tr s2)
  have "fs_inv s1" "astep op r (abs_fs s) (abs_fs s1)"
    using filesys_refines_op [OF fs_run_Cons.prems fs_run_Cons.hyps(1,2)] fs_run_Cons.hyps(3) by auto
  then show ?case using fs_run_Cons.IH by (blast intro: afs_run.intros)
qed

text \<open>
  C1. Every sequence of legal calls of the file system is a run of the specification with the same
  results: names map to files, a file is created with zeros, read and written at the position of the
  handle, denied while one handle denies it, kept while it has a name or a handle. No legal call
  panics or fails to end, and a file is created exactly when its name is new and the directory and
  the disk have room. This is under the condition, part of \<open>fs_inv\<close>, that the allocations of memory that the
  file system makes succeed.
\<close>

theorem filesys_refines:
  assumes "fs_inv s" "fs_run s tr s'"
  shows "afs_run (abs_fs s) tr (abs_fs s') \<and> fs_inv s' \<and>
    (\<forall>op junk. legal op (abs_fs s') \<and> length junk = 20 \<longrightarrow>
      (\<exists>r s''. run_op junk op s' = Some (r, s'') \<and> (\<forall>name sz. op = Create name sz \<longrightarrow> r = Done (creatable s' name sz))))"
  using fs_run_refines [OF assms(2,1)] filesys_refines_op by meson

theorem filesys_refines_witness:
  "\<exists>s r s'. fs_inv s \<and> fs_run s [(Create [97] 600, r)] s' \<and> afs_run (abs_fs s) [(Create [97] 600, r)] (abs_fs s')"
proof -
  obtain s where s: "fs_inv s" using format_ok [of boot_demo 1 "replicate 4 0"] boot_demo_ok by auto
  have l: "legal (Create [97] 600) (abs_fs s)" "length (replicate 20 (0 :: u8)) = 20" by simp_all
  obtain r s' where r: "run_op (replicate 20 0) (Create [97] 600) s = Some (r, s')"
    using filesys_refines_op [OF s l] by blast
  have "fs_run s [(Create [97] 600, r)] s'" by (rule fs_run_Cons [OF l r fs_run_Nil])
  then show ?thesis using filesys_refines [OF s] s by blast
qed

end
