(* ===== verification/Loader.thy ===== *)
theory Loader
  imports Pagedir Filesys
begin

text \<open>
  Loading a program, \<open>load\<close> and its helpers in \<open>userprog/process.c\<close>: the executable is read from the
  file system into fresh user pages that are mapped in a new page directory. The state is that of the
  page directories (\<open>pstate\<close>) and that of the file system (\<open>fsys\<close>).

  \<^item> \<open>t->pcb->pagedir\<close> is the argument \<open>pd\<close>; \<open>load\<close> returns its new value. The results \<open>*eip\<close> and \<open>*esp\<close>
    are there exactly when the code returns true.
  \<^item> A buffer on the stack is not initialised. It is used only after it was read in full, so it is zero here.
  \<^item> Messages are left out.
\<close>

section \<open>The formats\<close>

definition half_at :: "u8 list \<Rightarrow> nat \<Rightarrow> nat" where
  "half_at bs i = unat (bs ! i) + 256 * unat (bs ! (i + 1))"

definition long_at :: "u8 list \<Rightarrow> nat \<Rightarrow> u32" where
  "long_at bs i = word32 (drop i bs)"

record Elf32_Ehdr =
  e_ident :: "u8 list"
  e_type :: nat
  e_machine :: nat
  e_version :: u32
  e_entry :: u32
  e_phoff :: u32
  e_phentsize :: nat
  e_phnum :: nat

definition ehdr_of :: "u8 list \<Rightarrow> Elf32_Ehdr" where
  "ehdr_of bs = \<lparr>e_ident = take 16 bs, e_type = half_at bs 16, e_machine = half_at bs 18, e_version = long_at bs 20,
     e_entry = long_at bs 24, e_phoff = long_at bs 28, e_phentsize = half_at bs 42, e_phnum = half_at bs 44\<rparr>"

definition ehdr_size :: int where "ehdr_size = 52"

record Elf32_Phdr =
  p_type :: u32
  p_offset :: u32
  p_vaddr :: u32
  p_filesz :: u32
  p_memsz :: u32
  p_flags :: u32

definition phdr_of :: "u8 list \<Rightarrow> Elf32_Phdr" where
  "phdr_of bs = \<lparr>p_type = long_at bs 0, p_offset = long_at bs 4, p_vaddr = long_at bs 8, p_filesz = long_at bs 16,
     p_memsz = long_at bs 20, p_flags = long_at bs 24\<rparr>"

definition phdr_size :: int where "phdr_size = 32"

definition PT_LOAD :: u32 where "PT_LOAD = 1"
definition PT_DYNAMIC :: u32 where "PT_DYNAMIC = 2"
definition PT_INTERP :: u32 where "PT_INTERP = 3"
definition PT_SHLIB :: u32 where "PT_SHLIB = 5"
definition PF_W :: u32 where "PF_W = 2"

definition ehdr_ok :: "Elf32_Ehdr \<Rightarrow> bool" where
  "ehdr_ok e \<longleftrightarrow> take 7 (e_ident e) = [0x7f, 0x45, 0x4c, 0x46, 1, 1, 1] \<and> e_type e = 2 \<and> e_machine e = 3 \<and>
     e_version e = 1 \<and> e_phentsize e = nat phdr_size \<and> e_phnum e \<le> 1024"

section \<open>The code\<close>

text \<open>The 4096 bytes of a page.\<close>

definition page_bytes :: "(u32 \<Rightarrow> u32) \<Rightarrow> u32 \<Rightarrow> u8 list" where
  "page_bytes m p = concat (map (\<lambda>i. bytes32 (m (slot p i))) [0..<1024])"

definition put_page :: "u32 \<Rightarrow> u8 list \<Rightarrow> (u32 \<Rightarrow> u32) \<Rightarrow> u32 \<Rightarrow> u32" where
  "put_page p bs m x = (if unat (x - p) < 4096 then word32 (drop (unat (x - p)) bs) else m x)"

definition fill_page :: "u32 \<Rightarrow> nat \<Rightarrow> u8 list \<Rightarrow> pstate \<Rightarrow> pstate" where
  "fill_page p n bs st =
     (let old = page_bytes (ram (ks st)) p in st\<lparr>ks := (ks st)\<lparr>ram := put_page p (put_at old n bs) (ram (ks st))\<rparr>\<rparr>)"

definition process_activate :: "u32 \<Rightarrow> pstate \<Rightarrow> pstate option" where
  "process_activate pd st = (if pd \<noteq> 0 then pagedir_activate pd st else pagedir_activate 0 st)"

definition install_page :: "u32 \<Rightarrow> u32 \<Rightarrow> u32 \<Rightarrow> bool \<Rightarrow> pstate \<Rightarrow> (bool \<times> pstate) option" where
  "install_page pd upage kpage writable st = do {
     p \<leftarrow> pagedir_get_page pd upage st;
     (if p = 0 then pagedir_set_page pd upage kpage writable st else Some (False, st))
   }"

definition free_kpage :: "u32 \<Rightarrow> pstate \<Rightarrow> pstate option" where
  "free_kpage p st = do { k \<leftarrow> palloc_free_page p (ks st); Some (st\<lparr>ks := k\<rparr>) }"

definition setup_stack :: "u32 \<Rightarrow> pstate \<Rightarrow> (u32 option \<times> pstate) option" where
  "setup_stack pd st = do {
     (kpage, k) \<leftarrow> palloc_get_page (PAL_USER OR PAL_ZERO) (ks st);
     let st1 = st\<lparr>ks := k\<rparr>;
     (if kpage \<noteq> 0 then do {
        (success, st2) \<leftarrow> install_page pd (PHYS_BASE - PGSIZE) kpage True st1;
        (if success then Some (Some (PHYS_BASE - 0x14), st2)
         else do { st3 \<leftarrow> free_kpage kpage st2; Some (None, st3) })
      } else Some (None, st1))
   }"

definition validate_segment :: "Elf32_Phdr \<Rightarrow> int \<Rightarrow> bool" where
  "validate_segment phdr len =
     (if p_offset phdr AND PGMASK \<noteq> p_vaddr phdr AND PGMASK then False
      else if p_offset phdr > word_of_int len then False
      else if p_memsz phdr < p_filesz phdr then False
      else if p_memsz phdr = 0 then False
      else if \<not> is_user_vaddr (p_vaddr phdr) then False
      else if \<not> is_user_vaddr (p_vaddr phdr + p_memsz phdr) then False
      else if p_vaddr phdr + p_memsz phdr < p_vaddr phdr then False
      else if p_vaddr phdr < PGSIZE then False
      else True)"

partial_function (option) segment_loop ::
  "u32 \<Rightarrow> nat \<Rightarrow> bool \<Rightarrow> u32 \<Rightarrow> u32 \<Rightarrow> u32 \<Rightarrow> pstate \<Rightarrow> fsys \<Rightarrow> (bool \<times> pstate \<times> fsys) option" where
  "segment_loop pd f writable upage read_bytes zero_bytes st fs =
     (if read_bytes > 0 \<or> zero_bytes > 0 then do {
        let page_read_bytes = (if read_bytes < PGSIZE then read_bytes else PGSIZE);
        let page_zero_bytes = PGSIZE - page_read_bytes;
        (kpage, k) \<leftarrow> palloc_get_page PAL_USER (ks st);
        let st1 = st\<lparr>ks := k\<rparr>;
        (if kpage = 0 then Some (False, st1, fs)
         else do {
           (n, bs, fs1) \<leftarrow> file_read f (replicate (unat page_read_bytes) 0) (uint page_read_bytes) fs;
           let st2 = fill_page kpage 0 (take (nat n) bs) st1;
           (if n \<noteq> uint page_read_bytes then do { st3 \<leftarrow> free_kpage kpage st2; Some (False, st3, fs1) }
            else do {
              let st3 = fill_page kpage (unat page_read_bytes) (replicate (unat page_zero_bytes) 0) st2;
              (ok, st4) \<leftarrow> install_page pd upage kpage writable st3;
              (if \<not> ok then do { st5 \<leftarrow> free_kpage kpage st4; Some (False, st5, fs1) }
               else segment_loop pd f writable (upage + PGSIZE) (read_bytes - page_read_bytes)
                      (zero_bytes - page_zero_bytes) st4 fs1)
            })
         })
      } else Some (True, st, fs))"

definition load_segment ::
  "u32 \<Rightarrow> nat \<Rightarrow> int \<Rightarrow> u32 \<Rightarrow> u32 \<Rightarrow> u32 \<Rightarrow> bool \<Rightarrow> pstate \<Rightarrow> fsys \<Rightarrow> (bool \<times> pstate \<times> fsys) option" where
  "load_segment pd f ofs upage read_bytes zero_bytes writable st fs = do {
     kassert ((read_bytes + zero_bytes) mod PGSIZE = 0);
     kassert (pg_ofs upage = 0);
     kassert (ofs mod 4096 = 0);
     fs1 \<leftarrow> file_seek f ofs fs;
     segment_loop pd f writable upage read_bytes zero_bytes st fs1
   }"

definition round_up_page :: "u32 \<Rightarrow> u32" where
  "round_up_page x = (x + PGSIZE - 1) div PGSIZE * PGSIZE"

text \<open>One iteration of the loop over the program headers; \<open>False\<close> is \<open>goto done\<close>.\<close>

definition load_phdr :: "u32 \<Rightarrow> nat \<Rightarrow> Elf32_Phdr \<Rightarrow> pstate \<Rightarrow> fsys \<Rightarrow> (bool \<times> pstate \<times> fsys) option" where
  "load_phdr pd f phdr st fs =
     (if p_type phdr = PT_DYNAMIC \<or> p_type phdr = PT_INTERP \<or> p_type phdr = PT_SHLIB then Some (False, st, fs)
      else if p_type phdr = PT_LOAD then do {
        len \<leftarrow> file_length f fs;
        (if validate_segment phdr len then
           let writable = (p_flags phdr AND PF_W \<noteq> 0);
               file_page = p_offset phdr AND NOT PGMASK;
               mem_page = p_vaddr phdr AND NOT PGMASK;
               page_offset = p_vaddr phdr AND PGMASK;
               read_bytes = (if p_filesz phdr > 0 then page_offset + p_filesz phdr else 0);
               zero_bytes = (if p_filesz phdr > 0 then round_up_page (page_offset + p_memsz phdr) - read_bytes
                             else round_up_page (page_offset + p_memsz phdr))
           in load_segment pd f (sint file_page) mem_page read_bytes zero_bytes writable st fs
         else Some (False, st, fs))
      } else Some (True, st, fs))"

fun phdr_loop :: "u32 \<Rightarrow> nat \<Rightarrow> int \<Rightarrow> nat \<Rightarrow> pstate \<Rightarrow> fsys \<Rightarrow> (bool \<times> pstate \<times> fsys) option" where
  "phdr_loop pd f file_ofs 0 st fs = Some (True, st, fs)"
| "phdr_loop pd f file_ofs (Suc n) st fs = do {
     len \<leftarrow> file_length f fs;
     (if file_ofs < 0 \<or> file_ofs > len then Some (False, st, fs)
      else do {
        fs1 \<leftarrow> file_seek f file_ofs fs;
        (k, bs, fs2) \<leftarrow> file_read f (replicate 32 0) phdr_size fs1;
        (if k \<noteq> phdr_size then Some (False, st, fs2)
         else do {
           (ok, st1, fs3) \<leftarrow> load_phdr pd f (phdr_of bs) st fs2;
           (if ok then phdr_loop pd f (to_s32 (file_ofs + phdr_size)) n st1 fs3 else Some (False, st1, fs3))
         })
      })
   }"

definition load_image :: "u32 \<Rightarrow> nat \<Rightarrow> pstate \<Rightarrow> fsys \<Rightarrow> ((u32 \<times> u32) option \<times> pstate \<times> fsys) option" where
  "load_image pd f st fs = do {
     (n, bs, fs1) \<leftarrow> file_read f (replicate 52 0) ehdr_size fs;
     let ehdr = ehdr_of bs;
     (if n \<noteq> ehdr_size \<or> \<not> ehdr_ok ehdr then Some (None, st, fs1)
      else do {
        (ok, st1, fs2) \<leftarrow> phdr_loop pd f (sint (e_phoff ehdr)) (e_phnum ehdr) st fs1;
        (if \<not> ok then Some (None, st1, fs2)
         else do {
           (esp, st2) \<leftarrow> setup_stack pd st1;
           Some (map_option (\<lambda>sp. (e_entry ehdr, sp)) esp, st2, fs2)
         })
      })
   }"

definition load :: "u8 list \<Rightarrow> u8 list \<Rightarrow> pstate \<Rightarrow> fsys \<Rightarrow> ((u32 \<times> u32) option \<times> u32 \<times> pstate \<times> fsys) option" where
  "load file_name junk st fs = do {
     (pd, st1) \<leftarrow> pagedir_create st;
     (if pd = 0 then do { fs1 \<leftarrow> file_close 0 fs; Some (None, pd, st1, fs1) }
      else do {
        st2 \<leftarrow> process_activate pd st1;
        (f, fs1) \<leftarrow> filesys_open file_name junk fs;
        (r, st3, fs2) \<leftarrow> (if f = 0 then Some (None, st2, fs1) else load_image pd f st2 fs1);
        fs3 \<leftarrow> file_close f fs2;
        Some (r, pd, st3, fs3)
      })
   }"

text \<open>What \<open>process_exit\<close> does with the page directory.\<close>

definition exit_pagedir :: "u32 \<Rightarrow> pstate \<Rightarrow> pstate option" where
  "exit_pagedir pd st =
     (if pd \<noteq> 0 then do { st1 \<leftarrow> pagedir_activate 0 st; pagedir_destroy pd st1 } else Some st)"

end
