(* ===== verification/Loader_Memory.thy ===== *)
theory Loader_Memory
  imports Loader
begin

text \<open>
  The address space of a process while it is loaded: which frames its page directory maps, which pages
  it owns, and that all other pages keep their contents. Lemmas for \<open>install_page\<close>, for filling a page
  and for giving one back.
\<close>

section \<open>Address spaces\<close>

text \<open>From page numbers to frames, as kernel addresses, with the permission to write.\<close>

type_synonym mapping = "u32 \<rightharpoonup> u32 \<times> bool"

text \<open>From page numbers to the bytes of the page, with the permission to write.\<close>

type_synonym image = "u32 \<rightharpoonup> u8 list \<times> bool"

definition frames_of :: "mapping \<Rightarrow> u32 set" where
  "frames_of F = {kp. \<exists>n w. F n = Some (kp, w)}"

definition image_of :: "pstate \<Rightarrow> mapping \<Rightarrow> image" where
  "image_of st F = (\<lambda>n. map_option (\<lambda>(kp, w). (page_bytes (ram (ks st)) kp, w)) (F n))"

definition tables :: "pstate \<Rightarrow> u32 \<Rightarrow> u32 set" where
  "tables st pd = {pt. \<exists>i<768. table st pd i = Some pt}"

definition same_on :: "u32 set \<Rightarrow> pstate \<Rightarrow> pstate \<Rightarrow> bool" where
  "same_on Q st st' \<longleftrightarrow> (\<forall>q\<in>Q. \<forall>j<1024. rd st' (slot q j) = rd st (slot q j))"

definition same_env :: "pstate \<Rightarrow> pstate \<Rightarrow> bool" where
  "same_env st st' \<longleftrightarrow> same_pools (ks st) (ks st') \<and> cr3 st' = cr3 st \<and> init_page_dir st' = init_page_dir st \<and>
     init_ram_pages st' = init_ram_pages st"

text \<open>The pages of \<open>Old\<close> are not the process's; all other allocated pages are its directory, its page
  tables and its frames. The kernel's part of the directory is that of the initial one.\<close>

definition uspace :: "pstate \<Rightarrow> u32 \<Rightarrow> u32 set \<Rightarrow> mapping \<Rightarrow> bool" where
  "uspace st pd Old F \<longleftrightarrow> pd_wf st pd \<and> init_page_dir st \<in> Old \<and>
     (\<forall>j. 768 \<le> j \<and> j < 1024 \<longrightarrow> rd st (slot pd j) = rd st (slot (init_page_dir st) j)) \<and>
     (\<forall>va. is_user_vaddr va \<longrightarrow> translate st pd va = map_option (\<lambda>(kp, w). (kp - PHYS_BASE, w)) (F (pg_no va))) \<and>
     (\<forall>n n' kp w w'. F n = Some (kp, w) \<and> F n' = Some (kp, w') \<longrightarrow> n = n') \<and> (\<forall>n\<in>dom F. unat n < 786432) \<and>
     all_pages (ks st) = Old \<union> insert pd (tables st pd) \<union> frames_of F \<and>
     pd \<notin> Old \<union> frames_of F \<and> tables st pd \<inter> (Old \<union> frames_of F) = {} \<and> Old \<inter> frames_of F = {}"

lemma same_onD: "same_on Q st st' \<Longrightarrow> q \<in> Q \<Longrightarrow> j < 1024 \<Longrightarrow> rd st' (slot q j) = rd st (slot q j)"
  by (simp add: same_on_def)

lemma same_on_refl [simp]: "same_on Q st st"
  by (simp add: same_on_def)

lemma same_on_trans: "same_on Q st st' \<Longrightarrow> same_on R st' st'' \<Longrightarrow> Q \<subseteq> R \<Longrightarrow> same_on Q st st''"
  by (auto simp: same_on_def)

lemma same_on_subset: "same_on Q st st' \<Longrightarrow> R \<subseteq> Q \<Longrightarrow> same_on R st st'"
  by (auto simp: same_on_def)

lemma same_env_refl [simp]: "same_env st st"
  by (simp add: same_env_def)

lemma same_env_trans: "same_env st st' \<Longrightarrow> same_env st' st'' \<Longrightarrow> same_env st st''"
  using same_pools_trans by (auto simp: same_env_def)

lemma same_on_bytes: "same_on Q st st' \<Longrightarrow> p \<in> Q \<Longrightarrow> page_bytes (ram (ks st')) p = page_bytes (ram (ks st)) p"
  unfolding page_bytes_def by (intro arg_cong [where f = concat] map_cong) (auto simp: same_on_def rd_def)

lemma same_on_image: "same_on Q st st' \<Longrightarrow> frames_of F \<subseteq> Q \<Longrightarrow> image_of st' F = image_of st F"
proof
  fix n assume s: "same_on Q st st'" "frames_of F \<subseteq> Q"
  show "image_of st' F n = image_of st F n"
  proof (cases "F n")
    case (Some v)
    obtain kp w where v: "v = (kp, w)" by (cases v)
    then have "kp \<in> Q" using s(2) Some by (auto simp: frames_of_def)
    then show ?thesis using Some v same_on_bytes [OF s(1)] by (simp add: image_of_def)
  qed (simp add: image_of_def)
qed

lemma same_tables:
  assumes "same_on Q st st'" "pd \<in> Q"
  shows "i < 1024 \<Longrightarrow> table st' pd i = table st pd i" "tables st' pd = tables st pd"
proof -
  show t: "i < 1024 \<Longrightarrow> table st' pd i = table st pd i" for i using same_onD [OF assms] by (simp add: table_def)
  show "tables st' pd = tables st pd" using t by (auto simp: tables_def)
qed

lemma same_translate:
  assumes "same_on (insert pd (tables st pd)) st st'" "is_user_vaddr va"
  shows "translate st' pd va = translate st pd va"
proof -
  have i: "unat (pd_no va) < 768" using assms(2) by (simp add: pd_no_user)
  have t: "table st' pd (unat (pd_no va)) = table st pd (unat (pd_no va))" using same_tables(1) [OF assms(1)] i by simp
  have "entry st' pd va = entry st pd va"
  proof (cases "table st pd (unat (pd_no va))")
    case (Some pt)
    then have "pt \<in> tables st pd" using i by (auto simp: tables_def)
    then show ?thesis using t Some same_onD [OF assms(1) _ pt_no_bound] by (simp add: entry_def)
  qed (simp add: entry_def t)
  then show ?thesis by (simp add: translate_def)
qed

lemma uspaceD:
  assumes "uspace st pd Old F"
  shows "pd_wf st pd" "wf_kstate (ks st)" "aligned pd" "pd \<noteq> 0" "init_page_dir st \<in> Old" "pd \<noteq> init_page_dir st"
    "is_user_vaddr va \<Longrightarrow> translate st pd va = map_option (\<lambda>(kp, w). (kp - PHYS_BASE, w)) (F (pg_no va))"
    "F n = Some (kp, w) \<Longrightarrow> F n' = Some (kp, w') \<Longrightarrow> n = n'" "F n = Some v \<Longrightarrow> unat n < 786432"
    "all_pages (ks st) = Old \<union> insert pd (tables st pd) \<union> frames_of F"
    "pd \<notin> Old \<union> frames_of F" "tables st pd \<inter> (Old \<union> frames_of F) = {}" "Old \<inter> frames_of F = {}"
    "768 \<le> j \<Longrightarrow> j < 1024 \<Longrightarrow> rd st (slot pd j) = rd st (slot (init_page_dir st) j)"
  using assms pd_wf_page [of st pd] unfolding uspace_def by auto

text \<open>A step that touches none of the process's directory and tables.\<close>

lemma uspace_step:
  assumes u: "uspace st pd Old F" and wf: "wf_kstate (ks st')" and i: "init_page_dir st' = init_page_dir st" "init_page_dir st \<in> Old'"
    and s: "same_on (insert (init_page_dir st) (insert pd (tables st pd))) st st'"
    and a: "all_pages (ks st') = Old' \<union> insert pd (tables st pd) \<union> frames_of F"
    and d: "Old' \<inter> (insert pd (tables st pd) \<union> frames_of F) = {}"
  shows "uspace st' pd Old' F"
proof -
  note U = uspaceD [OF u]
  have s': "same_on (insert pd (tables st pd)) st st'" by (rule same_on_subset [OF s]) blast
  note t = same_tables [OF s' insertI1]
  have r: "rd st' (slot pd j) = rd st (slot pd j)" if "j < 1024" for j using same_onD [OF s' _ that] by simp
  have "pd_wf st' pd"
    unfolding pd_wf_def
  proof (intro conjI allI impI)
    show "pd \<in> all_pages (ks st')" using a by simp
  next
    fix j assume j: "j < 768" "rd st' (slot pd j) \<noteq> 0"
    then have "rd st (slot pd j) \<noteq> 0" using r by simp
    then obtain pt where pt: "table st pd j = Some pt" "pt \<noteq> pd" using U(1) j(1) by (auto simp: pd_wf_def)
    then have "pt \<in> tables st pd" using j(1) by (auto simp: tables_def)
    then show "\<exists>pt. table st' pd j = Some pt \<and> pt \<in> all_pages (ks st') \<and> pt \<noteq> pd" using pt t(1) j(1) a by simp
  next
    fix b c pt assume "b < 768" "c < 768" "table st' pd b = Some pt" "table st' pd c = Some pt"
    then show "b = c" using pd_wf_inj [OF U(1)] t(1) by simp
  qed (rule wf)
  moreover have "rd st' (slot pd j) = rd st' (slot (init_page_dir st') j)" if "768 \<le> j \<and> j < 1024" for j
    using U(14) [of j] that r same_onD [OF s, of "init_page_dir st" j] i(1) by simp
  moreover have "translate st' pd va = map_option (\<lambda>(kp, w). (kp - PHYS_BASE, w)) (F (pg_no va))" if "is_user_vaddr va" for va
    using same_translate [OF s' that] U(7) [OF that] by simp
  moreover have "tables st' pd \<inter> (Old' \<union> frames_of F) = {}" unfolding t(2) using U(12) d by blast
  moreover have "pd \<notin> Old' \<union> frames_of F" "Old' \<inter> frames_of F = {}" using U(11) d by blast+
  moreover have "\<forall>n n' kp w w'. F n = Some (kp, w) \<and> F n' = Some (kp, w') \<longrightarrow> n = n'" "\<forall>n\<in>dom F. unat n < 786432"
    using U(8,9) by blast+
  ultimately show ?thesis using i a unfolding uspace_def t(2) by simp
qed

section \<open>Pages of bytes\<close>

lemma length_page_bytes [simp]: "length (page_bytes m p) = 4096"
proof -
  have "length (page_bytes m p) = (\<Sum>i\<leftarrow>[0..<1024]. 4)" unfolding page_bytes_def length_concat by (simp add: comp_def)
  then show ?thesis by (simp add: sum_list_triv)
qed

lemma put_page_slot:
  assumes "aligned p" "aligned q" "j < 1024"
  shows "put_page p bs m (slot q j) = (if q = p then word32 (drop (4 * j) bs) else m (slot q j))"
proof -
  have "slot p j - p = 4 * word_of_nat j" by (simp add: slot_def)
  then have "unat (slot p j - p) = 4 * j" using unat_slot_ofs [OF assms(3)] by simp
  then show ?thesis using in_page_iff [OF assms(1), of "slot q j"] round_slot [OF assms(2,3)] by (auto simp: put_page_def)
qed

lemma chunks_of_four: "length bs = 4 * n \<Longrightarrow> concat (map (\<lambda>i. bytes32 (word32 (drop (4 * i) bs))) [0..<n]) = bs"
proof (induction n arbitrary: bs)
  case (Suc n)
  have "[0..<Suc n] = 0 # map Suc [0..<n]" by (simp add: map_Suc_upt upt_conv_Cons del: upt_Suc)
  moreover have "bytes32 (word32 bs) = take 4 bs"
  proof -
    have "word32 bs = word32 (take 4 bs)" by (simp add: word32_def)
    then show ?thesis using bytes32_word32 [of "take 4 bs"] Suc.prems by simp
  qed
  moreover have "concat (map (\<lambda>i. bytes32 (word32 (drop (4 * i) (drop 4 bs)))) [0..<n]) = drop 4 bs"
    by (rule Suc.IH) (use Suc.prems in simp)
  ultimately show ?case by (simp add: comp_def add.commute del: upt_Suc)
qed simp

lemma put_page_bytes:
  assumes "aligned p" "length bs = 4096"
  shows "page_bytes (put_page p bs m) p = bs"
proof -
  have "page_bytes (put_page p bs m) p = concat (map (\<lambda>i. bytes32 (word32 (drop (4 * i) bs))) [0..<1024])"
    unfolding page_bytes_def using put_page_slot [OF assms(1,1)] by (intro arg_cong [where f = concat] map_cong) auto
  also have "\<dots> = bs" by (rule chunks_of_four) (simp add: assms(2))
  finally show ?thesis .
qed

lemma concat_zeros: "concat (map (\<lambda>i. replicate k x) [0..<n]) = replicate (k * n) x"
  by (induction n) (simp_all add: add.commute flip: replicate_add)

lemma zero_page_bytes: "aligned p \<Longrightarrow> page_bytes (memset_words m p 0 4096) p = replicate 4096 0"
proof -
  assume a: "aligned p"
  have "bytes32 0 = replicate 4 0" by (rule nth_equalityI) (simp_all add: bytes32_nth)
  then have "page_bytes (memset_words m p 0 4096) p = concat (map (\<lambda>i. replicate 4 0) [0..<1024])"
    unfolding page_bytes_def using memset_slot [OF a a] by (intro arg_cong [where f = concat] map_cong) auto
  then show ?thesis using concat_zeros [of 4 0 1024] by simp
qed


definition ram_ok :: "pstate \<Rightarrow> bool" where
  "ram_ok st \<longleftrightarrow> pool_end (user_pool (ks st)) \<le> 3221225472 + 4096 * unat (init_ram_pages st)"

lemma ram_ok_env: "same_env st st' \<Longrightarrow> ram_ok st' = ram_ok st"
proof -
  assume "same_env st st'"
  then have "pool_base (get_pool True (ks st')) = pool_base (get_pool True (ks st))"
    "bit_cnt (used_map (get_pool True (ks st'))) = bit_cnt (used_map (get_pool True (ks st)))" "init_ram_pages st' = init_ram_pages st"
    by (auto simp: same_env_def same_pools_def)
  then show ?thesis by (simp add: ram_ok_def pool_end_def get_pool_def)
qed

section \<open>A spare page\<close>

lemma get_spare:
  assumes u: "uspace st pd Old F" and fl: "fl AND PAL_ASSERT = 0"
  shows "(\<exists>kp k. palloc_get_page fl (ks st) = Some (kp, k) \<and> kp \<noteq> 0 \<and> aligned kp \<and> PHYS_BASE \<le> kp \<and>
      uspace (st\<lparr>ks := k\<rparr>) pd (insert kp Old) F \<and> kp \<notin> all_pages (ks st) \<and> same_on (all_pages (ks st)) st (st\<lparr>ks := k\<rparr>) \<and>
      same_env st (st\<lparr>ks := k\<rparr>) \<and> in_pool (fl AND PAL_USER \<noteq> 0) (ks st) kp \<and>
      (fl AND PAL_ZERO \<noteq> 0 \<longrightarrow> page_bytes (ram k) kp = replicate 4096 0))
    \<or> palloc_get_page fl (ks st) = Some (0, ks st) \<and> pool_full (fl AND PAL_USER \<noteq> 0) (ks st)"
proof -
  note U = uspaceD [OF u]
  from page_get_cases [OF U(2) fl] show ?thesis
  proof (elim disjE exE conjE)
    fix kp k
    assume g: "palloc_get_page fl (ks st) = Some (kp, k)" "kp \<noteq> 0" "aligned kp" "PHYS_BASE \<le> kp" "wf_kstate k"
      "kp \<notin> all_pages (ks st)" "all_pages k = insert kp (all_pages (ks st))"
      "ram k = (if fl AND PAL_ZERO \<noteq> 0 then memset_words (ram (ks st)) kp 0 4096 else ram (ks st))"
    let ?s = "st\<lparr>ks := k\<rparr>"
    note pp = page_get_pool [OF U(2) fl g(1)]
    have s: "same_on (all_pages (ks st)) st ?s"
      unfolding same_on_def
    proof (intro ballI allI impI)
      fix q j assume q: "q \<in> all_pages (ks st)" and j: "(j :: nat) < 1024"
      have "q \<noteq> kp" using q g(6) by blast
      then show "rd ?s (slot q j) = rd st (slot q j)"
        using memset_slot [OF g(3) all_pages_aligned(1) [OF U(2) q] j] g(8) by (simp add: rd_def)
    qed
    have P: "insert (init_page_dir st) (insert pd (tables st pd)) \<subseteq> all_pages (ks st)" using U(5,10) by blast
    have "insert kp Old \<inter> (insert pd (tables st pd) \<union> frames_of F) = {}" using U(10-13) g(6) by blast
    then have "uspace ?s pd (insert kp Old) F"
      using U(10) g(5,7) U(5) by (intro uspace_step [OF u _ _ _ same_on_subset [OF s P]]) auto
    moreover have "fl AND PAL_ZERO \<noteq> 0 \<longrightarrow> page_bytes (ram k) kp = replicate 4096 0"
      using g(8) zero_page_bytes [OF g(3)] by simp
    ultimately show ?thesis using g(1-4,6) s pp(1,2) by (auto simp: same_env_def)
  next
    assume g: "palloc_get_page fl (ks st) = Some (0, ks st)"
    then show ?thesis using page_get_pool(3) [OF U(2) fl g] by simp
  qed
qed

lemma fill_page_ok:
  assumes u: "uspace st pd (insert kp Old) F" and k: "kp \<noteq> init_page_dir st"
  shows "uspace (fill_page kp n bs st) pd (insert kp Old) F" "same_on (all_pages (ks st) - {kp}) st (fill_page kp n bs st)"
    "same_env st (fill_page kp n bs st)" "all_pages (ks (fill_page kp n bs st)) = all_pages (ks st)"
    "n + length bs \<le> 4096 \<Longrightarrow> page_bytes (ram (ks (fill_page kp n bs st))) kp = put_at (page_bytes (ram (ks st)) kp) n bs"
proof -
  note U = uspaceD [OF u]
  have kp: "kp \<in> all_pages (ks st)" using U(10) by blast
  have al: "aligned kp" by (rule all_pages_aligned(1) [OF U(2) kp])
  let ?s = "fill_page kp n bs st"
  show a: "all_pages (ks ?s) = all_pages (ks st)" by (simp add: fill_page_def)
  show e: "same_env st ?s" by (simp add: same_env_def fill_page_def)
  show s: "same_on (all_pages (ks st) - {kp}) st ?s"
    unfolding same_on_def
  proof (intro ballI allI impI)
    fix q j assume q: "q \<in> all_pages (ks st) - {kp}" and j: "(j :: nat) < 1024"
    then show "rd ?s (slot q j) = rd st (slot q j)"
      using put_page_slot [OF al all_pages_aligned(1) [OF U(2), of q] j] by (simp add: fill_page_def rd_def)
  qed
  have P: "insert (init_page_dir st) (insert pd (tables st pd)) \<subseteq> all_pages (ks st) - {kp}" using U(5,10-12) k by blast
  have i: "init_page_dir ?s = init_page_dir st" using e by (simp add: same_env_def)
  have w: "wf_kstate (ks ?s)" using U(2) by (simp add: fill_page_def)
  show "uspace ?s pd (insert kp Old) F"
    using U(10-13) a by (intro uspace_step [OF u w i U(5) same_on_subset [OF s P]]) auto
  show "page_bytes (ram (ks ?s)) kp = put_at (page_bytes (ram (ks st)) kp) n bs" if "n + length bs \<le> 4096"
    using that put_page_bytes [OF al] by (simp add: fill_page_def)
qed

lemma free_spare:
  assumes u: "uspace st pd (insert kp Old) F" and k: "kp \<notin> Old" "init_page_dir st \<in> Old"
  shows "\<exists>st'. free_kpage kp st = Some st' \<and> uspace st' pd Old F \<and> same_on (all_pages (ks st) - {kp}) st st' \<and> same_env st st' \<and>
    all_pages (ks st') = all_pages (ks st) - {kp}"
proof -
  note U = uspaceD [OF u]
  have kp: "kp \<in> all_pages (ks st)" using U(10) by blast
  obtain k' where f: "palloc_free_page kp (ks st) = Some k'" "wf_kstate k'" "all_pages k' = all_pages (ks st) - {kp}"
    "untouched (ks st) k' {kp}" using free_page_untouched [OF U(2) kp] by blast
  let ?s = "st\<lparr>ks := k'\<rparr>"
  have s: "same_on (all_pages (ks st) - {kp}) st ?s"
    using f(4) all_pages_aligned(1) [OF U(2)] by (simp add: same_on_def untouched_def rd_def)
  have P: "insert (init_page_dir st) (insert pd (tables st pd)) \<subseteq> all_pages (ks st) - {kp}" using U(5,10-12) k by blast
  have "all_pages (ks ?s) = Old \<union> insert pd (tables st pd) \<union> frames_of F" using U(10-13) f(3) k(1) by auto
  moreover have "Old \<inter> (insert pd (tables st pd) \<union> frames_of F) = {}" using U(11-13) by blast
  ultimately have "uspace ?s pd Old F" using f(2) k(2) by (intro uspace_step [OF u _ _ _ same_on_subset [OF s P]]) simp_all
  moreover have "same_env st ?s" using free_page_pools [OF U(2) kp f(1)] by (simp add: same_env_def)
  ultimately show ?thesis using f(1,3) s by (simp add: free_kpage_def)
qed


section \<open>Mapping a page\<close>

lemma frames_of_upd: "F n = None \<Longrightarrow> frames_of (F(n \<mapsto> (kp, w))) = insert kp (frames_of F)"
proof -
  assume "F n = None"
  then have "(\<exists>m v. (F(n \<mapsto> (kp, w))) m = Some (q, v)) \<longleftrightarrow> q = kp \<or> (\<exists>m v. F m = Some (q, v))" for q
    by (metis fun_upd_apply option.distinct(1) option.inject prod.inject)
  then show ?thesis by (auto simp: frames_of_def)
qed

lemma user_page_no: "is_user_vaddr va \<Longrightarrow> unat (pg_no va) < 786432"
  by (simp add: is_user_vaddr_def PHYS_BASE_def unat_pg_no word_less_nat_alt)

text \<open>The table for a page is there, or is made.\<close>

lemma lookup_uspace:
  assumes u: "uspace st pd Old F" and va: "is_user_vaddr va"
  shows "(\<exists>pt s1. lookup_page pd va True st = Some (slot pt (unat (pt_no va)), s1) \<and> uspace s1 pd Old F \<and>
      table s1 pd (unat (pd_no va)) = Some pt \<and> same_on (Old \<union> frames_of F) st s1 \<and> same_env st s1 \<and>
      all_pages (ks st) \<subseteq> all_pages (ks s1))
    \<or> lookup_page pd va True st = Some (0, st) \<and> pool_full False (ks st)"
proof (cases "table st pd (unat (pd_no va))")
  case (Some pt)
  then show ?thesis using lookup_existing [OF uspaceD(1) [OF u] va Some] u
    by (intro disjI1 exI [of _ pt] exI [of _ st]) simp
next
  case None
  note U = uspaceD [OF u]
  let ?i = "unat (pd_no va)"
  have i: "?i < 768" using va by (simp add: pd_no_user)
  from lookup_create [OF U(1) va None] show ?thesis
  proof (elim disjE exE conjE, goal_cases)
    case (1 pt s1)
    note E = 1
    have tb: "tables s1 pd = insert pt (tables st pd)" (is "?T = _")
    proof (intro equalityI subsetI)
      fix q assume "q \<in> ?T"
      then show "q \<in> insert pt (tables st pd)" using E(10) by (auto simp: tables_def split: if_splits)
    next
      fix q assume "q \<in> insert pt (tables st pd)"
      then consider "q = pt" | j where "j < 768" "table st pd j = Some q" by (auto simp: tables_def)
      then show "q \<in> ?T"
      proof cases
        case 1
        then show ?thesis using E(3) i by (auto simp: tables_def)
      next
        case (2 j)
        then have "j \<noteq> ?i" using None by auto
        then have "table s1 pd j = Some q" using 2 E(10) by simp
        then show ?thesis using 2(1) by (auto simp: tables_def)
      qed
    qed
    have al: "aligned q" if "q \<in> all_pages (ks st)" for q by (rule all_pages_aligned(1) [OF U(2) that])
    have sm: "same_on (Old \<union> frames_of F) st s1"
      unfolding same_on_def
    proof (intro ballI allI impI)
      fix q j assume q: "q \<in> Old \<union> frames_of F" and j: "(j :: nat) < 1024"
      have "q \<in> all_pages (ks st)" using q U(10) by blast
      then show "rd s1 (slot q j) = rd st (slot q j)" using E(4,11) q j al U(11) by blast
    qed
    have us: "uspace s1 pd Old F"
      unfolding uspace_def tb E(7)
    proof (intro conjI)
      show "\<forall>j. 768 \<le> j \<and> j < 1024 \<longrightarrow> rd s1 (slot pd j) = rd s1 (slot (init_page_dir st) j)"
        using E(12) U(14) i same_onD [OF sm] U(5) by auto
      show "\<forall>v. is_user_vaddr v \<longrightarrow> translate s1 pd v = map_option (\<lambda>(kp, w). (kp - PHYS_BASE, w)) (F (pg_no v))"
        using E(13) U(7) by (simp add: translate_def)
      show "insert pt (tables st pd) \<inter> (Old \<union> frames_of F) = {}" using U(10,12) E(4) by blast
      show "all_pages (ks s1) = Old \<union> insert pd (insert pt (tables st pd)) \<union> frames_of F" unfolding E(5) U(10) by blast
    qed (use E(2) U(5,8,9,11,13) in blast)+
    have "same_env st s1" using E(6-9) by (simp add: same_env_def)
    then show ?case using E(1,3,5) us sm by blast
  qed blast
qed

lemma map_page:
  assumes u: "uspace st pd (insert kp Old) F" and k: "kp \<notin> Old" "init_page_dir st \<in> Old" "PHYS_BASE \<le> kp"
    and fr: "unat kp + 4096 \<le> 3221225472 + 4096 * unat (init_ram_pages st)"
    and up: "aligned up" "is_user_vaddr up" "F (pg_no up) = None"
  shows "pagedir_set_page pd up kp w st = Some (False, st) \<and> pool_full False (ks st) \<or>
    (\<exists>st'. pagedir_set_page pd up kp w st = Some (True, st') \<and> uspace st' pd Old (F(pg_no up \<mapsto> (kp, w))) \<and>
       same_on (Old \<union> insert kp (frames_of F)) st st' \<and> same_env st st' \<and> all_pages (ks st) \<subseteq> all_pages (ks st'))"
proof -
  note U = uspaceD [OF u]
  have al: "aligned kp" using all_pages_aligned(1) [OF U(2)] U(10) by blast
  define e where "e = (kp - PHYS_BASE) OR pte_bits w"
  have ev: "e AND PTE_P \<noteq> 0" "e AND PTE_W \<noteq> 0 \<longleftrightarrow> w" "e AND PTE_ADDR = kp - PHYS_BASE"
    using pte_create_flags [OF al k(3), of w] PTE_ADDR_aligned [OF aligned_vtop [OF al k(3)] pte_bits_addr, of w]
    by (simp_all add: e_def)
  have b: "3221225472 \<le> unat kp" using k(3) by (simp add: word_le_nat_alt PHYS_BASE_def)
  have "unat (kp - PHYS_BASE) = unat kp - 3221225472"
    using k(3) by (simp add: unat_sub word_le_nat_alt PHYS_BASE_def)
  moreover have "unat kp - 3221225472 < unat (init_ram_pages st) * 4096" using fr b by linarith
  ultimately have "unat (kp - PHYS_BASE) div 4096 < unat (init_ram_pages st)" by (simp add: less_mult_imp_div_less)
  then have db: "drop_bit PTSHIFT (kp - PHYS_BASE) < init_ram_pages st"
    by (simp add: word_less_nat_alt unat_drop_bit_div PTSHIFT_def PGBITS_def)
  have create: "pte_create_user kp w = Some e" using al k(3) by (simp add: pte_create_user_eq e_def)
  have unf: "pagedir_set_page pd up kp w st = do {
     (pte, st') \<leftarrow> lookup_page pd up True st;
     (if pte \<noteq> 0 then do { kassert (rd st' pte AND PTE_P = 0); Some (True, wr pte e st') } else Some (False, st')) }"
    using al k(3) up(1,2) db U(6) create
    by (cases "lookup_page pd up True st")
      (simp_all add: pagedir_set_page_def aligned_iff vtop_def is_kernel_vaddr_def split: prod.split)
  let ?n = "pg_no up"
  from lookup_uspace [OF u up(2)] show ?thesis
  proof (elim disjE exE conjE)
    assume "lookup_page pd up True st = Some (0, st)" "pool_full False (ks st)"
    then show ?thesis unfolding unf by simp
  next
    fix pt s1
    assume l: "lookup_page pd up True st = Some (slot pt (unat (pt_no up)), s1)" and u1: "uspace s1 pd (insert kp Old) F"
      and t: "table s1 pd (unat (pd_no up)) = Some pt" and s: "same_on (insert kp Old \<union> frames_of F) st s1" "same_env st s1"
      and a: "all_pages (ks st) \<subseteq> all_pages (ks s1)"
    note V = uspaceD [OF u1]
    have i: "unat (pd_no up) < 768" using up(2) by (simp add: pd_no_user)
    note pt = pd_wf_table [OF V(1) i t] and wre = write_entry [OF V(1) i t pt_no_bound [of up], where v = e]
    let ?p = "slot pt (unat (pt_no up))"
    let ?s = "wr ?p e s1"
    have ptt: "pt \<in> tables s1 pd" using t i by (auto simp: tables_def)
    have old: "rd s1 ?p = entry s1 pd up" using t by (simp add: entry_def)
    have "translate s1 pd up = None" using V(7) [OF up(2)] up(3) by simp
    then have "rd s1 ?p AND PTE_P = 0" unfolding old by (simp add: translate_def Let_def split: if_splits)
    then have res: "pagedir_set_page pd up kp w st = Some (True, ?s)"
      unfolding unf using l slot_nonzero [OF pt(1,2) pt_no_bound] by simp
    have other: "rd ?s (slot q j) = rd s1 (slot q j)" if "q \<in> all_pages (ks s1)" "q \<noteq> pt" "j < 1024" for q j
      using rd_wr_slot [OF pt(1) all_pages_aligned(1) [OF V(2) that(1)] pt_no_bound that(3), of up e s1] that(2) by simp
    have "table ?s pd j = table s1 pd j" if "j < 768" for j using wre(1) [of j] that by simp
    then have tb: "tables ?s pd = tables s1 pd" by (auto simp: tables_def)
    have inew: "init_page_dir s1 = init_page_dir st" using s(2) by (simp add: same_env_def)
    have us: "uspace ?s pd Old (F(?n \<mapsto> (kp, w)))"
      unfolding uspace_def tb frames_of_upd [of F ?n, OF up(3)] wr_simps
    proof (intro conjI)
      have "init_page_dir s1 \<noteq> pt" "pd \<noteq> pt" "init_page_dir s1 \<in> all_pages (ks s1)" "pd \<in> all_pages (ks s1)"
        using V(5,10,12) ptt pt(4) by blast+
      then show "\<forall>j. 768 \<le> j \<and> j < 1024 \<longrightarrow> rd ?s (slot pd j) = rd ?s (slot (init_page_dir s1) j)" using V(14) other by simp
      show "\<forall>va. is_user_vaddr va \<longrightarrow>
          translate ?s pd va = map_option (\<lambda>(kp, w). (kp - PHYS_BASE, w)) ((F(?n \<mapsto> (kp, w))) (pg_no va))"
      proof (intro allI impI)
        fix va assume va: "is_user_vaddr va"
        have "entry ?s pd va = (if pg_no va = ?n then e else entry s1 pd va)" using wre(3) [OF va] indices_pg_no [of va up] by simp
        then have "translate ?s pd va = (if pg_no va = ?n then Some (kp - PHYS_BASE, w) else translate s1 pd va)"
          using ev by (simp add: translate_def Let_def)
        then show "translate ?s pd va = map_option (\<lambda>(kp, w). (kp - PHYS_BASE, w)) ((F(?n \<mapsto> (kp, w))) (pg_no va))"
          using V(7) [OF va] by simp
      qed
      have "F m = Some (kp, v) \<Longrightarrow> False" for m v using V(13) by (auto simp: frames_of_def)
      then show "\<forall>n n' q v v'. (F(?n \<mapsto> (kp, w))) n = Some (q, v) \<and> (F(?n \<mapsto> (kp, w))) n' = Some (q, v') \<longrightarrow> n = n'"
        using V(8) by (metis (no_types, lifting) fun_upd_apply option.inject prod.inject)
      show "\<forall>n\<in>dom (F(?n \<mapsto> (kp, w))). unat n < 786432" using V(9) user_page_no [OF up(2)] by auto
      show "all_pages (ks s1) = Old \<union> insert pd (tables s1 pd) \<union> insert kp (frames_of F)" unfolding V(10) by blast
      show "pd_wf ?s pd" by (rule wre(2))
      show "init_page_dir s1 \<in> Old" using k(2) inew by simp
    qed (use V(11-13) k(1) in blast)+
    have "same_on (Old \<union> insert kp (frames_of F)) st ?s"
      unfolding same_on_def
    proof (intro ballI allI impI)
      fix q j assume q: "q \<in> Old \<union> insert kp (frames_of F)" and j: "(j :: nat) < 1024"
      have "q \<in> all_pages (ks s1)" "q \<noteq> pt" using q V(10,12) ptt by blast+
      then have "rd ?s (slot q j) = rd s1 (slot q j)" using j by (rule other)
      also have "\<dots> = rd st (slot q j)" using same_onD [OF s(1) _ j] q by blast
      finally show "rd ?s (slot q j) = rd st (slot q j)" .
    qed
    moreover have "same_pools (ks s1) (ks ?s)" by (simp add: wr_def)
    then have "same_env st ?s" using s(2) same_pools_trans by (auto simp: same_env_def wr_def)
    ultimately show ?thesis using res us a by (intro disjI2 exI [of _ ?s]) simp
  qed
qed


lemma get_page_uspace:
  assumes u: "uspace st pd Old F" and va: "is_user_vaddr va"
  shows "\<exists>p. pagedir_get_page pd va st = Some p \<and> (p = 0 \<longleftrightarrow> F (pg_no va) = None) \<and>
    (\<forall>kp w. F (pg_no va) = Some (kp, w) \<longrightarrow> p = kp + pg_ofs va)"
proof (rule lookup_cases [OF uspaceD(1) [OF u] va])
  note U = uspaceD [OF u]
  assume l: "lookup_page pd va False st = Some (0, st)" "entry st pd va = 0"
  then have "F (pg_no va) = None" using U(7) [OF va] by (simp add: translate_def)
  then show ?thesis using l va by (simp add: pagedir_get_page_def)
next
  note U = uspaceD [OF u]
  fix p
  assume l: "lookup_page pd va False st = Some (p, st)" "p \<noteq> 0" "rd st p = entry st pd va"
  show ?thesis
  proof (cases "F (pg_no va)")
    case None
    then have "entry st pd va AND PTE_P = 0" using U(7) [OF va] by (simp add: translate_def Let_def split: if_splits)
    then show ?thesis using l va None by (simp add: pagedir_get_page_def)
  next
    case (Some v)
    obtain kp w where v: "v = (kp, w)" by (cases v)
    then have e: "entry st pd va AND PTE_P \<noteq> 0" "entry st pd va AND PTE_ADDR = kp - PHYS_BASE"
      using U(7) [OF va] Some by (simp_all add: translate_def Let_def split: if_splits)
    have kp: "kp \<in> all_pages (ks st)" using U(10) Some v by (auto simp: frames_of_def)
    note al = all_pages_aligned [OF U(2) kp]
    have "unat (pg_ofs va) < 4096" by (simp add: unat_pg_ofs)
    then have "unat (kp + pg_ofs va) = unat kp + unat (pg_ofs va)" by (rule unat_page_plus [OF al(1)])
    then have "kp + pg_ofs va \<noteq> 0" using PHYS_BASE_nonzero [OF al(2)] by (auto simp: unat_eq_zero)
    then show ?thesis using l va Some e v ptov_vtop [OF al(2)] by (simp add: pagedir_get_page_def pte_get_page_def)
  qed
qed

lemma install_spare:
  assumes u: "uspace st pd (insert kp Old) F" and k: "kp \<notin> Old" "init_page_dir st \<in> Old" "PHYS_BASE \<le> kp"
    and fr: "unat kp + 4096 \<le> 3221225472 + 4096 * unat (init_ram_pages st)"
    and up: "aligned up" "is_user_vaddr up"
  shows "\<exists>ok st'. install_page pd up kp w st = Some (ok, st') \<and>
    (if ok then F (pg_no up) = None \<and> uspace st' pd Old (F(pg_no up \<mapsto> (kp, w))) \<and> same_env st st' \<and>
       same_on (Old \<union> insert kp (frames_of F)) st st' \<and> all_pages (ks st) \<subseteq> all_pages (ks st')
     else st' = st \<and> (F (pg_no up) \<noteq> None \<or> pool_full False (ks st)))"
proof (cases "F (pg_no up)")
  case None
  then have g: "pagedir_get_page pd up st = Some 0" using get_page_uspace [OF u up(2)] by auto
  from map_page [OF u k fr up None, of w] show ?thesis
  proof (elim disjE exE conjE)
    assume "pagedir_set_page pd up kp w st = Some (False, st)" "pool_full False (ks st)"
    then show ?thesis using g by (intro exI [of _ False] exI [of _ st]) (simp add: install_page_def)
  next
    fix st' assume "pagedir_set_page pd up kp w st = Some (True, st')" "uspace st' pd Old (F(pg_no up \<mapsto> (kp, w)))"
      "same_on (Old \<union> insert kp (frames_of F)) st st'" "same_env st st'" "all_pages (ks st) \<subseteq> all_pages (ks st')"
    then show ?thesis using g None by (intro exI [of _ True] exI [of _ st']) (simp add: install_page_def)
  qed
next
  case (Some v)
  then obtain p where "pagedir_get_page pd up st = Some p" "p \<noteq> 0" using get_page_uspace [OF u up(2)] by auto
  then show ?thesis using Some by (intro exI [of _ False] exI [of _ st]) (simp add: install_page_def)
qed

section \<open>The beginning and the end of an address space\<close>

lemma copy_page_slot:
  assumes "aligned p" "aligned q" "aligned src" "j < 1024"
  shows "copy_page p src m (slot q j) = (if q = p then m (slot src j) else m (slot q j))"
proof -
  have "src + (slot p j - p) = slot src j" by (simp add: slot_def)
  then show ?thesis using in_page_iff [OF assms(1), of "slot q j"] round_slot [OF assms(2,4)] by (auto simp: copy_page_def)
qed

lemma create_uspace:
  assumes wf: "wf_kstate (ks st)" and i: "init_page_dir st \<in> all_pages (ks st)" "\<forall>j<768. rd st (slot (init_page_dir st) j) = 0"
  shows "(\<exists>pd st'. pagedir_create st = Some (pd, st') \<and> pd \<noteq> 0 \<and> uspace st' pd (all_pages (ks st)) Map.empty \<and>
      same_on (all_pages (ks st)) st st' \<and> same_env st st') \<or>
    pagedir_create st = Some (0, st) \<and> pool_full False (ks st)"
proof -
  have z: "(0 :: u32) AND PAL_ASSERT = 0" "(0 :: u32) AND PAL_ZERO = 0" "(0 :: u32) AND PAL_USER = 0" by simp_all
  from page_get_cases [OF wf z(1)] show ?thesis
  proof (elim disjE exE conjE)
    fix pd k
    assume g: "palloc_get_page 0 (ks st) = Some (pd, k)" "pd \<noteq> 0" "aligned pd" "PHYS_BASE \<le> pd" "wf_kstate k"
      "pd \<notin> all_pages (ks st)" "all_pages k = insert pd (all_pages (ks st))"
      "ram k = (if (0 :: u32) AND PAL_ZERO \<noteq> 0 then memset_words (ram (ks st)) pd 0 4096 else ram (ks st))"
    define s where "s = st\<lparr>ks := k\<lparr>ram := copy_page pd (init_page_dir st) (ram k)\<rparr>\<rparr>"
    have al: "aligned q" if "q \<in> all_pages (ks st)" for q by (rule all_pages_aligned(1) [OF wf that])
    have c: "pagedir_create st = Some (pd, s)" using g(1,2) by (simp add: pagedir_create_def s_def)
    have r: "rd s (slot q j) = rd st (slot (if q = pd then init_page_dir st else q) j)"
      if "q = pd \<or> q \<in> all_pages (ks st)" "j < 1024" for q j
    proof -
      have "aligned q" using that(1) g(3) al by blast
      then show ?thesis using copy_page_slot [OF g(3) _ al [OF i(1)] that(2), of q "ram k"] g(8) by (simp add: s_def rd_def)
    qed
    have zero: "rd s (slot pd j) = 0" if "j < 768" for j using r [of pd j] i(2) that by simp
    then have t: "table s pd j = None" if "j < 768" for j using that by (simp add: table_def)
    have "pd_wf s pd" unfolding pd_wf_def using t zero g(5,7) by (simp add: s_def)
    moreover have "tables s pd = {}" using t by (auto simp: tables_def)
    moreover have "translate s pd va = None" if "is_user_vaddr va" for va
      using t [of "unat (pd_no va)"] that by (simp add: translate_def entry_def pd_no_user)
    moreover have "rd s (slot pd j) = rd s (slot (init_page_dir s) j)" if "j < 1024" for j
      using r [of pd j] r [of "init_page_dir st" j] that i(1) g(6) by (auto simp: s_def)
    ultimately have "uspace s pd (all_pages (ks st)) Map.empty"
      using i(1) g(6,7) unfolding uspace_def by (simp add: frames_of_def) (simp add: s_def)
    moreover have "same_on (all_pages (ks st)) st s" unfolding same_on_def using r g(6) by auto
    moreover have "same_env st s" using page_get_pool(1) [OF wf z(1) g(1)] by (simp add: same_env_def s_def)
    ultimately show ?thesis using c g(2) by blast
  next
    assume g: "palloc_get_page 0 (ks st) = Some (0, ks st)"
    then show ?thesis using page_get_pool(3) [OF wf z(1) g] by (simp add: pagedir_create_def)
  qed
qed


definition page_addr :: "nat \<Rightarrow> nat \<Rightarrow> u32" where
  "page_addr i j = word_of_nat (4194304 * i + 4096 * j)"

lemma page_addr:
  assumes "i < 768" "j < 1024"
  shows "unat (pd_no (page_addr i j)) = i" "unat (pt_no (page_addr i j)) = j" "is_user_vaddr (page_addr i j)"
    "unat (pg_no (page_addr i j)) = 1024 * i + j"
proof -
  have u: "unat (page_addr i j) = 4194304 * i + 4096 * j"
    unfolding page_addr_def using assms by (intro unat_word_of_nat_32) linarith
  have "4194304 * i + 4096 * j = 4096 * (1024 * i + j)" by simp
  then have d: "(4194304 * i + 4096 * j) div 4096 = 1024 * i + j" by simp
  show "unat (pd_no (page_addr i j)) = i" unfolding unat_pd_no u using assms by simp
  then show "is_user_vaddr (page_addr i j)" using assms by (simp add: pd_no_user)
  show "unat (pt_no (page_addr i j)) = j" unfolding unat_pt_no u d using assms by simp
  show "unat (pg_no (page_addr i j)) = 1024 * i + j" unfolding unat_pg_no u d ..
qed

lemma uspace_frame:
  assumes u: "uspace st pd Old F" and t: "table st pd i = Some pt" and ij: "i < 768" "j < 1024"
  shows "frame_of (ks st) pt j = map_option fst (F (pg_no (page_addr i j)))"
    "ram (ks st) (slot pt j) AND PTE_P \<noteq> 0 \<longleftrightarrow> F (pg_no (page_addr i j)) \<noteq> None"
proof -
  note U = uspaceD [OF u] and P = page_addr [OF ij]
  have e: "entry st pd (page_addr i j) = ram (ks st) (slot pt j)" using t P(1,2) by (simp add: entry_def rd_def)
  note tr = U(7) [OF P(3)]
  have "frame_of (ks st) pt j = map_option fst (F (pg_no (page_addr i j))) \<and>
    (ram (ks st) (slot pt j) AND PTE_P \<noteq> 0 \<longleftrightarrow> F (pg_no (page_addr i j)) \<noteq> None)"
  proof (cases "F (pg_no (page_addr i j))")
    case None
    then show ?thesis using tr e by (simp add: translate_def frame_of_def Let_def split: if_splits)
  next
    case (Some v)
    obtain kp w where v: "v = (kp, w)" by (cases v)
    then have a: "ram (ks st) (slot pt j) AND PTE_P \<noteq> 0" "ram (ks st) (slot pt j) AND PTE_ADDR = kp - PHYS_BASE"
      using tr Some e by (simp_all add: translate_def Let_def split: if_splits)
    have "kp \<in> all_pages (ks st)" using U(10) Some v by (auto simp: frames_of_def)
    then show ?thesis using a Some v ptov_vtop [OF all_pages_aligned(2) [OF U(2)]]
      by (simp add: frame_of_def pte_get_page_def)
  qed
  then show "frame_of (ks st) pt j = map_option fst (F (pg_no (page_addr i j)))"
    "ram (ks st) (slot pt j) AND PTE_P \<noteq> 0 \<longleftrightarrow> F (pg_no (page_addr i j)) \<noteq> None" by blast+
qed

lemma frame_Some:
  assumes "uspace st pd Old F" "table st pd i = Some pt" "i < 768" "j < 1024" "frame_of (ks st) pt j = Some f"
  shows "\<exists>w. F (pg_no (page_addr i j)) = Some (f, w)"
  using uspace_frame(1) [OF assms(1-4)] assms(5) by (cases "F (pg_no (page_addr i j))") auto

lemma uspace_table: "uspace st pd Old F \<Longrightarrow> i < 768 \<Longrightarrow> table_of (ks st) pd i = table st pd i"
proof -
  assume u: "uspace st pd Old F" and i: "i < 768"
  have "rd st (slot pd i) AND PTE_P \<noteq> 0" if nz: "rd st (slot pd i) \<noteq> 0"
  proof -
    obtain pt where "table st pd i = Some pt"
      using pd_wf_none [OF uspaceD(1) [OF u] i] nz by (cases "table st pd i") simp_all
    then show ?thesis using nz by (auto simp: table_def pde_get_pt_def split: if_splits)
  qed
  then show ?thesis by (auto simp: table_of_def table_def rd_def)
qed

lemma uspace_owned:
  assumes u: "uspace st pd Old F" and i: "i < 768"
  shows "q \<in> owned (ks st) pd i \<longleftrightarrow>
    (\<exists>pt. table st pd i = Some pt \<and> (q = pt \<or> (\<exists>j<1024. \<exists>w. F (pg_no (page_addr i j)) = Some (q, w))))"
proof (cases "table st pd i")
  case None
  then show ?thesis using uspace_table [OF u i] by (simp add: owned_def)
next
  case (Some pt)
  have "q \<in> frames (ks st) pt 0 1024 \<longleftrightarrow> (\<exists>j<1024. \<exists>w. F (pg_no (page_addr i j)) = Some (q, w))"
    using uspace_frame(1) [OF u Some i] by (force simp: frames_def)
  then show ?thesis using Some uspace_table [OF u i] by (simp add: owned_def)
qed

lemma uspace_pdes:
  assumes u: "uspace st pd Old F"
  shows "pdes_ok (ks st) pd 0 768"
proof -
  note U = uspaceD [OF u]
  have tab: "pt \<in> tables st pd" if "table st pd a = Some pt" "a < 768" for a pt using that by (auto simp: tables_def)
  have fr: "q \<in> frames_of F" if "F n = Some (q, w)" for n q w using that by (auto simp: frames_of_def)
  show ?thesis
    unfolding pdes_ok_def
  proof (intro conjI allI impI)
    fix a assume a: "0 \<le> a \<and> a < 0 + 768 \<and> ram (ks st) (slot pd a) AND PTE_P \<noteq> 0"
    then have nz: "rd st (slot pd a) \<noteq> 0" by (auto simp: rd_def)
    have a': "a < 768" using a by simp
    obtain pt where pt: "table st pd a = Some pt" using pd_wf_none [OF U(1) a'] nz by (cases "table st pd a") simp_all
    have pa: "pt \<in> all_pages (ks st)" using U(10) tab [OF pt a'] by blast
    have "frames_ok (ks st) pt 0 1024"
      unfolding frames_ok_def
    proof (intro conjI allI impI)
      fix j assume j: "0 \<le> j \<and> j < 0 + 1024 \<and> ram (ks st) (slot pt j) AND PTE_P \<noteq> 0"
      then obtain q w where q: "F (pg_no (page_addr a j)) = Some (q, w)" using uspace_frame(2) [OF u pt a', of j] by auto
      then have "frame_of (ks st) pt j = Some q" using uspace_frame(1) [OF u pt a', of j] j by simp
      moreover have "q \<in> all_pages (ks st)" "q \<noteq> pt" using fr [OF q] tab [OF pt a'] U(10,12) by blast+
      ultimately show "\<exists>f. frame_of (ks st) pt j = Some f \<and> f \<in> all_pages (ks st) \<and> f \<noteq> pt" by blast
    next
      fix j l f assume j: "0 \<le> j \<and> j < 0 + 1024 \<and> 0 \<le> l \<and> l < 0 + 1024 \<and>
        frame_of (ks st) pt j = Some f \<and> frame_of (ks st) pt l = Some f"
      then have jl: "j < 1024" "l < 1024" and f: "frame_of (ks st) pt j = Some f" "frame_of (ks st) pt l = Some f" by simp_all
      obtain v where v: "F (pg_no (page_addr a j)) = Some (f, v)" using frame_Some [OF u pt a' jl(1) f(1)] by (elim exE)
      obtain w where w: "F (pg_no (page_addr a l)) = Some (f, w)" using frame_Some [OF u pt a' jl(2) f(2)] by (elim exE)
      have "pg_no (page_addr a j) = pg_no (page_addr a l)" by (rule U(8) [OF v w])
      then have "1024 * a + j = 1024 * a + l" using page_addr(4) [OF a' jl(1)] page_addr(4) [OF a' jl(2)] by argo
      then show "j = l" by linarith
    qed
    then show "\<exists>pt. table_of (ks st) pd a = Some pt \<and> pt \<in> all_pages (ks st) \<and> frames_ok (ks st) pt 0 1024"
      using pt pa uspace_table [OF u a'] by simp
  next
    fix a :: nat assume a: "0 \<le> a \<and> a < 0 + 768"
    then have a': "a < 768" by simp
    show "pd \<notin> owned (ks st) pd a"
      using uspace_owned [OF u a'] pd_wf_table(4) [OF U(1) a'] U(11) fr by blast
  next
    fix a b :: nat assume ab: "0 \<le> a \<and> a < b \<and> b < 0 + 768"
    then have a: "a < 768" and b: "b < 768" by simp_all
    have False if q: "q \<in> owned (ks st) pd a" "q \<in> owned (ks st) pd b" for q
    proof -
      obtain pt pu where pt: "table st pd a = Some pt" "table st pd b = Some pu"
        "q = pt \<or> (\<exists>j<1024. \<exists>w. F (pg_no (page_addr a j)) = Some (q, w))"
        "q = pu \<or> (\<exists>j<1024. \<exists>w. F (pg_no (page_addr b j)) = Some (q, w))"
        using q uspace_owned [OF u a] uspace_owned [OF u b] by blast
      have "pt \<noteq> pu" using pd_wf_inj [OF U(1) a b] pt(1,2) ab by blast
      moreover have "pt \<notin> frames_of F" "pu \<notin> frames_of F" using tab [OF pt(1) a] tab [OF pt(2) b] U(12) by blast+
      ultimately obtain j l v w where j: "j < 1024" "F (pg_no (page_addr a j)) = Some (q, v)"
        and l: "l < 1024" "F (pg_no (page_addr b l)) = Some (q, w)" using pt(3,4) fr by blast
      have "pg_no (page_addr a j) = pg_no (page_addr b l)" by (rule U(8) [OF j(2) l(2)])
      then have "1024 * a + j = 1024 * b + l" using page_addr(4) [OF a j(1)] page_addr(4) [OF b l(1)] by argo
      then show False using ab j(1) l(1) by linarith
    qed
    then show "owned (ks st) pd a \<inter> owned (ks st) pd b = {}" by blast
  qed
qed

lemma uspace_owned_all:
  assumes u: "uspace st pd Old F"
  shows "(\<Union>a\<in>{..<768}. owned (ks st) pd a) = tables st pd \<union> frames_of F"
proof (intro equalityI subsetI)
  fix q assume "q \<in> (\<Union>a\<in>{..<768}. owned (ks st) pd a)"
  then show "q \<in> tables st pd \<union> frames_of F"
    using uspace_owned [OF u] unfolding tables_def frames_of_def by blast
next
  note U = uspaceD [OF u]
  fix q assume "q \<in> tables st pd \<union> frames_of F"
  then show "q \<in> (\<Union>a\<in>{..<768}. owned (ks st) pd a)"
  proof
    assume "q \<in> tables st pd"
    then show ?thesis using uspace_owned [OF u] by (auto simp: tables_def)
  next
    assume "q \<in> frames_of F"
    then obtain n w where n: "F n = Some (q, w)" by (auto simp: frames_of_def)
    define i j where "i = unat n div 1024" and "j = unat n mod 1024"
    have ij: "i < 768" "j < 1024" "1024 * i + j = unat n" using U(9) [OF n] by (simp_all add: i_def j_def)
    then have e: "pg_no (page_addr i j) = n" using page_addr(4) [OF ij(1,2)] unat_inj by simp
    have "translate st pd (page_addr i j) \<noteq> None" using U(7) [OF page_addr(3) [OF ij(1,2)]] n e by simp
    then obtain pt where "table st pd i = Some pt"
      using page_addr(1) [OF ij(1,2)] by (auto simp: translate_def entry_def split: option.splits)
    then have "q \<in> owned (ks st) pd i" using uspace_owned [OF u ij(1)] n e ij(2) by blast
    then show ?thesis using ij(1) by blast
  qed
qed

lemma exit_uspace:
  assumes u: "uspace st pd Old F" and i: "PHYS_BASE \<le> init_page_dir st"
  shows "\<exists>st'. exit_pagedir pd st = Some st' \<and> wf_kstate (ks st') \<and> all_pages (ks st') = Old"
proof -
  note U = uspaceD [OF u]
  let ?s = "st\<lparr>cr3 := init_page_dir st - PHYS_BASE, tlb_flushes := tlb_flushes st + 1\<rparr>"
  have a: "pagedir_activate 0 st = Some ?s" using i by (simp add: pagedir_activate_def vtop_def is_kernel_vaddr_def)
  obtain st' where d: "pagedir_destroy pd ?s = Some st'" "wf_kstate (ks st')"
    "all_pages (ks st') = all_pages (ks ?s) - insert pd (\<Union>a\<in>{..<768}. owned (ks ?s) pd a)"
    using pagedir_destroy_ok [of ?s pd] U(2,6,10) uspace_pdes [OF u] by auto
  have "all_pages (ks st') = Old" using d(3) uspace_owned_all [OF u] U(10-13) by auto
  then show ?thesis using a d(1,2) U(4) by (simp add: exit_pagedir_def)
qed

section \<open>A kernel that is set up\<close>

text \<open>The kernel's page tables are set up: the user part of the initial directory is empty, and the pool of
  user pages lies within the machine's memory.\<close>

definition kernel_ready :: "pstate \<Rightarrow> bool" where
  "kernel_ready st \<longleftrightarrow> wf_kstate (ks st) \<and> init_page_dir st \<in> all_pages (ks st) \<and>
     (\<forall>j<768. rd st (slot (init_page_dir st) j) = 0) \<and> ram_ok st"

text \<open>A kernel with one page in use, its initial page directory.\<close>

definition boot_pd :: pstate where
  "boot_pd = \<lparr>ks = small_pools, cr3 = 0x101000, tlb_flushes = 0, init_page_dir = 0xc0101000, init_ram_pages = 1024\<rparr>"

lemma boot_pd_ready: "kernel_ready boot_pd"
proof -
  have "ks boot_pd = ks small_pd" by (simp add: boot_pd_def small_pd_def)
  then have "init_page_dir boot_pd \<in> all_pages (ks boot_pd)" using small_pd_page by (simp add: boot_pd_def)
  moreover have "\<forall>j<768. rd boot_pd (slot (init_page_dir boot_pd) j) = 0" by (simp add: rd_def boot_pd_def small_pools_def)
  moreover have "ram_ok boot_pd" by (simp add: ram_ok_def boot_pd_def small_pools_def pool_end_def)
  ultimately show ?thesis using wf_small_pools by (simp add: kernel_ready_def boot_pd_def)
qed

end
