(* ===== verification/Loader_Spec.thy ===== *)
theory Loader_Spec
  imports Loader_Memory Fs_Format
begin

text \<open>
  What \<open>load\<close> promises. \<open>elf_image\<close> is the memory image that an executable describes, computed from the
  bytes of the file alone; \<open>load\<close> builds exactly this image in fresh pages, or fails because there is
  none or because the page allocator has no page left.
\<close>

section \<open>The file that is read\<close>

text \<open>\<open>a0\<close> is the file system before the file was opened.\<close>

definition reading :: "afs \<Rightarrow> fsys \<Rightarrow> nat \<Rightarrow> u8 list \<Rightarrow> int \<Rightarrow> bool" where
  "reading a0 s f bs p \<longleftrightarrow> fs_inv s \<and> f \<noteq> 0 \<and> 0 \<le> p \<and> length bs + 511 < 2147483648 \<and> gc a0 = a0 \<and>
     (\<exists>x. x \<in> ran (names a0) \<and> store a0 x = Some bs \<and> handles a0 f = None \<and>
        abs_fs s = a0\<lparr>handles := (handles a0)(f \<mapsto> (x, p, False))\<rparr>)"

lemma readingE:
  assumes "reading a0 s f bs p"
  obtains x where "abs_handles s f = Some (x, p, False)" "fcontent (fs_get s) x = bs" "x \<in> ran (names a0)"
    "store a0 x = Some bs" "handles a0 f = None" "abs_fs s = a0\<lparr>handles := (handles a0)(f \<mapsto> (x, p, False))\<rparr>"
proof -
  obtain x where x: "x \<in> ran (names a0)" "store a0 x = Some bs" "handles a0 f = None"
    "abs_fs s = a0\<lparr>handles := (handles a0)(f \<mapsto> (x, p, False))\<rparr>" using assms by (auto simp: reading_def)
  have "abs_handles s = (handles a0)(f \<mapsto> (x, p, False))" unfolding fs_abs_sel(2) [symmetric] x(4) by simp
  then have h: "abs_handles s f = Some (x, p, False)" by simp
  have "store (abs_fs s) x = Some bs" using x(2,4) by simp
  then have "fcontent (fs_get s) x = bs" using handle_reach [OF h] by (simp add: abs_store)
  then show ?thesis using that h x by blast
qed

lemma reading_open:
  assumes "fs_inv s" "length junk = 20"
  shows "\<exists>f s'. filesys_open name junk s = Some (f, s') \<and>
    (if f = 0 then fs_inv s' \<and> abs_fs s' = abs_fs s \<and> names (abs_fs s) name = None
     else \<exists>x bs. names (abs_fs s) name = Some x \<and> store (abs_fs s) x = Some bs \<and> reading (abs_fs s) s' f bs 0)"
proof -
  obtain f s' where o: "filesys_open name junk s = Some (f, s')" "fs_inv s'" "astep (Open name) (Handle f) (abs_fs s) (abs_fs s')"
    using filesys_open_ok [OF assms] by blast
  from o(3) show ?thesis
  proof cases
    case (opens x)
    have x: "x \<in> ran (names (abs_fs s))" using opens(2) by (auto simp: ran_def)
    then have r: "x \<in> reach (abs_fs s)" by (auto simp: reach_def)
    then obtain bs where bs: "store (abs_fs s) x = Some bs" by (simp add: abs_store)
    have "abs_handles s' = (handles (abs_fs s))(f \<mapsto> (x, 0, False))" unfolding fs_abs_sel(2) [of s', symmetric] opens(1) by simp
    then have h: "abs_handles s' f = Some (x, 0, False)" by simp
    have "store (abs_fs s') x = Some bs" using opens(1) bs by simp
    then have "fcontent (fs_get s') x = bs" using handle_reach [OF h] by (simp add: abs_store)
    then have "length bs + 511 < 2147483648" using file_read_value(5) [OF o(2) h, of 0] by simp
    moreover have "gc (abs_fs s) = abs_fs s" by (simp add: abs_fs_def gc_def reach_def)
    ultimately have "reading (abs_fs s) s' f bs 0" using opens x bs o(2) by (auto simp: reading_def)
    then show ?thesis using o(1) opens(2,4) bs by auto
  next
    case open_fails
    then show ?thesis using o(1,2) by (intro exI [of _ 0] exI [of _ s']) simp
  qed
qed

lemma reading_read:
  assumes r: "reading a0 s f bs p" and n: "0 \<le> n"
  shows "\<exists>s'. file_read f (replicate (nat n) 0) n s =
      Some (int (span n bs p), put_at (replicate (nat n) 0) 0 (slice bs (nat p) (span n bs p)), s') \<and>
      reading a0 s' f bs (p + int (span n bs p))"
    "length (slice bs (nat p) (span n bs p)) = span n bs p" "span n bs p \<le> nat n"
proof -
  obtain x where x: "abs_handles s f = Some (x, p, False)" "fcontent (fs_get s) x = bs" "x \<in> ran (names a0)"
    "store a0 x = Some bs" "handles a0 f = None" "abs_fs s = a0\<lparr>handles := (handles a0)(f \<mapsto> (x, p, False))\<rparr>"
    using readingE [OF r] by blast
  have i: "fs_inv s" using r by (simp add: reading_def)
  note v = file_read_value [OF i x(1) n, unfolded x(2)]
  show "length (slice bs (nat p) (span n bs p)) = span n bs p" "span n bs p \<le> nat n" using v(2,3) by blast+
  obtain s' where s': "file_read f (replicate (nat n) 0) n s =
      Some (int (span n bs p), put_at (replicate (nat n) 0) 0 (slice bs (nat p) (span n bs p)), s')" "fs_inv s'"
    "abs_fs s' = (abs_fs s)\<lparr>handles := (handles (abs_fs s))(f \<mapsto> (x, p + int (span n bs p), False))\<rparr>" using v(1) by blast
  have "reading a0 s' f bs (p + int (span n bs p))"
    using r s'(2,3) x(3-6) by (auto simp: reading_def)
  then show "\<exists>s'. file_read f (replicate (nat n) 0) n s =
      Some (int (span n bs p), put_at (replicate (nat n) 0) 0 (slice bs (nat p) (span n bs p)), s') \<and>
      reading a0 s' f bs (p + int (span n bs p))" using s'(1) by blast
qed

lemma reading_seek:
  assumes r: "reading a0 s f bs p" and q: "0 \<le> q"
  shows "\<exists>s'. file_seek f q s = Some s' \<and> reading a0 s' f bs q"
proof -
  obtain x where x: "abs_handles s f = Some (x, p, False)" "x \<in> ran (names a0)"
    "store a0 x = Some bs" "handles a0 f = None" "abs_fs s = a0\<lparr>handles := (handles a0)(f \<mapsto> (x, p, False))\<rparr>"
    using readingE [OF r] by blast
  have i: "fs_inv s" using r by (simp add: reading_def)
  have "files s f \<noteq> None" using x(1) by (auto simp: abs_handles_def split: if_splits option.splits)
  then have "file_seek f q s = Some (set_file f (\<lambda>fl. fl\<lparr>pos := q\<rparr>) s)" using q by (simp add: file_seek_def)
  moreover note set_pos_abs [OF fs_core [OF i] x(1) q]
  ultimately show ?thesis using r x q by (auto simp: reading_def fs_inv_def)
qed

lemma reading_length:
  assumes r: "reading a0 s f bs p"
  shows "file_length f s = Some (int (length bs))"
proof -
  obtain x where x: "abs_handles s f = Some (x, p, False)" "fcontent (fs_get s) x = bs" using readingE [OF r] by blast
  have i: "fs_inv s" using r by (simp add: reading_def)
  obtain fl i where "files s f = Some fl" "inodes s (finode fl) = Some i" "data i = dino (fs_get s) x" "ext_ok (fs_size s) (data i)"
    using handle_file [OF fs_core [OF i] x(1)] by blast
  then show ?thesis unfolding x(2) [symmetric]
    by (simp add: file_length_def inode_length_def fcontent_length ext_ok_def)
qed

lemma reading_close:
  assumes r: "reading a0 s f bs p"
  shows "\<exists>s'. file_close f s = Some s' \<and> fs_inv s' \<and> abs_fs s' = a0"
proof -
  obtain x where x: "abs_handles s f = Some (x, p, False)" "handles a0 f = None"
    "abs_fs s = a0\<lparr>handles := (handles a0)(f \<mapsto> (x, p, False))\<rparr>" using readingE [OF r] by blast
  have i: "fs_inv s" using r by (simp add: reading_def)
  obtain s' where s': "file_close f s = Some s'" "fs_inv s'"
    "abs_fs s' = gc ((abs_fs s)\<lparr>handles := (handles (abs_fs s))(f := None)\<rparr>)" using close_abs [OF i x(1)] by blast
  have "(abs_fs s)\<lparr>handles := (handles (abs_fs s))(f := None)\<rparr> = a0" using x(2) unfolding x(3) by (simp add: fun_upd_idem)
  then show ?thesis using s' r by (simp add: reading_def)
qed


section \<open>The image of an executable\<close>

text \<open>\<open>k\<close> bytes from position \<open>ofs\<close> on, then zeros, at a page that has nothing yet.\<close>

definition place_page :: "u8 list \<Rightarrow> bool \<Rightarrow> nat \<Rightarrow> nat \<Rightarrow> u32 \<Rightarrow> image \<Rightarrow> image option" where
  "place_page bs w ofs k pn M =
     (if (k = 0 \<or> ofs + k \<le> length bs) \<and> M pn = None
      then Some (M(pn \<mapsto> (slice bs ofs k @ replicate (4096 - k) 0, w))) else None)"

fun place_pages :: "u8 list \<Rightarrow> bool \<Rightarrow> nat \<Rightarrow> nat \<Rightarrow> nat \<Rightarrow> nat \<Rightarrow> image \<Rightarrow> image option" where
  "place_pages bs w ofs rb pn 0 M = Some M"
| "place_pages bs w ofs rb pn (Suc n) M = do {
     M' \<leftarrow> place_page bs w ofs (min rb 4096) (word_of_nat pn) M;
     place_pages bs w (ofs + min rb 4096) (rb - 4096) (pn + 1) n M'
   }"

lemma map_leD: "M \<subseteq>\<^sub>m M' \<Longrightarrow> M a = Some v \<Longrightarrow> M' a = Some v"
  by (metis domI map_le_def)

lemma place_pages_mono:
  "place_pages bs w ofs rb pn n M = Some M' \<Longrightarrow> M \<subseteq>\<^sub>m M'"
proof (induction n arbitrary: ofs rb pn M)
  case (Suc n)
  then obtain M1 where M1: "place_page bs w ofs (min rb 4096) (word_of_nat pn) M = Some M1"
    "place_pages bs w (ofs + min rb 4096) (rb - 4096) (pn + 1) n M1 = Some M'"
    by (cases "place_page bs w ofs (min rb 4096) (word_of_nat pn) M") auto
  then have "M \<subseteq>\<^sub>m M1" by (auto simp: place_page_def map_le_def split: if_splits)
  then show ?case using Suc.IH [OF M1(2)] by (rule map_le_trans)
qed simp

text \<open>A pool of pages is full, and all that is mapped belongs to the image \<open>I\<close> that was to be built.\<close>

definition mem_full :: "pstate \<Rightarrow> bool" where
  "mem_full st \<longleftrightarrow> pool_full False (ks st) \<or> pool_full True (ks st)"

definition within :: "mapping \<Rightarrow> image option \<Rightarrow> bool" where
  "within F I \<longleftrightarrow> (case I of None \<Rightarrow> True | Some M \<Rightarrow> dom F \<subseteq> dom M)"

lemma dom_image_of [simp]: "dom (image_of st F) = dom F"
  by (auto simp: image_of_def)

lemma within_step:
  assumes "\<And>M. I = Some M \<Longrightarrow> image_of st F \<subseteq>\<^sub>m M"
  shows "within F I"
  using assms map_le_implies_dom_le [of "image_of st F"] by (auto simp: within_def split: option.split)

lemma within_bind:
  assumes "within F I" "\<And>M M'. I = Some M \<Longrightarrow> g M = Some M' \<Longrightarrow> M \<subseteq>\<^sub>m M'"
  shows "within F (I \<bind> g)"
proof (cases I)
  case (Some M)
  show ?thesis
  proof (cases "g M")
    case (Some M')
    have "dom F \<subseteq> dom M" using assms(1) \<open>I = Some M\<close> by (simp add: within_def)
    also have "\<dots> \<subseteq> dom M'" by (rule map_le_implies_dom_le) (rule assms(2) [OF \<open>I = Some M\<close> Some])
    finally show ?thesis using Some \<open>I = Some M\<close> by (simp add: within_def)
  qed (simp add: \<open>I = Some M\<close> within_def)
qed (simp add: within_def)

lemma within_None [simp]: "within F None"
  by (simp add: within_def)

lemma span_whole: "0 \<le> p \<Longrightarrow> span (int k) bs p = k \<longleftrightarrow> k = 0 \<or> nat p + k \<le> length bs"
  by (auto simp: span_def)

section \<open>One page\<close>

text \<open>The body of the loop: a page is taken, filled and mapped, or all is as before.\<close>

lemma segment_words:
  assumes "rb + zb = 4096 * Suc m" "pn + Suc m \<le> 786432"
  defines "k \<equiv> min rb 4096"
  shows "(word_of_nat rb > (0 :: u32) \<or> word_of_nat zb > (0 :: u32))"
    "(if word_of_nat rb < PGSIZE then word_of_nat rb else PGSIZE) = (word_of_nat k :: u32)"
    "PGSIZE - word_of_nat k = (word_of_nat (4096 - k) :: u32)" "unat (word_of_nat k :: u32) = k" "uint (word_of_nat k :: u32) = int k"
    "unat (word_of_nat (4096 - k) :: u32) = 4096 - k" "word_of_nat (4096 * pn) + PGSIZE = (word_of_nat (4096 * (pn + 1)) :: u32)"
    "word_of_nat rb - word_of_nat k = (word_of_nat (rb - 4096) :: u32)"
    "word_of_nat zb - word_of_nat (4096 - k) = (word_of_nat (zb - (4096 - k)) :: u32)"
    "rb - 4096 + (zb - (4096 - k)) = 4096 * m" "unat (word_of_nat (4096 * pn) :: u32) = 4096 * pn"
    "pg_no (word_of_nat (4096 * pn)) = word_of_nat pn"
proof -
  have b: "rb < 4294967296" "zb < 4294967296" "k \<le> 4096" "k \<le> rb" "4096 - k \<le> zb" "4096 * pn < 4294967296"
    using assms by (auto simp: k_def)
  have u: "unat (word_of_nat rb :: u32) = rb" "unat (word_of_nat zb :: u32) = zb" using b by (simp_all add: unat_word_of_nat_32)
  show "word_of_nat rb > (0 :: u32) \<or> word_of_nat zb > (0 :: u32)"
  proof -
    have "0 < rb + zb" using assms(1) by simp
    then have "0 < rb \<or> 0 < zb" by simp
    then show ?thesis using u by (simp add: word_less_nat_alt)
  qed
  show "(if word_of_nat rb < PGSIZE then word_of_nat rb else PGSIZE) = (word_of_nat k :: u32)"
    using u by (auto simp: PGSIZE_eq word_less_nat_alt k_def min_def)
  show "PGSIZE - word_of_nat k = (word_of_nat (4096 - k) :: u32)" using b(3) by (simp add: PGSIZE_eq of_nat_diff)
  show uk: "unat (word_of_nat k :: u32) = k" using b by (intro unat_word_of_nat_32) linarith
  have "uint (word_of_nat k :: u32) = int (unat (word_of_nat k :: u32))" by simp
  then show "uint (word_of_nat k :: u32) = int k" unfolding uk .
  show "unat (word_of_nat (4096 - k) :: u32) = 4096 - k" by (intro unat_word_of_nat_32) linarith
  show "word_of_nat (4096 * pn) + PGSIZE = (word_of_nat (4096 * (pn + 1)) :: u32)" by (simp add: PGSIZE_eq)
  have "rb - 4096 = rb - k" by (simp add: k_def)
  then show "word_of_nat rb - word_of_nat k = (word_of_nat (rb - 4096) :: u32)" using b(4) by (simp add: of_nat_diff)
  show "word_of_nat zb - word_of_nat (4096 - k) = (word_of_nat (zb - (4096 - k)) :: u32)" using b(5) by (simp only: of_nat_diff)
  show "rb - 4096 + (zb - (4096 - k)) = 4096 * m" using assms(1) by (auto simp: k_def)
  show v: "unat (word_of_nat (4096 * pn) :: u32) = 4096 * pn" using b(6) by (rule unat_word_of_nat_32)
  have "unat (pg_no (word_of_nat (4096 * pn))) = pn" unfolding unat_pg_no v by simp
  moreover have "unat (word_of_nat pn :: u32) = pn" using b(6) by (intro unat_word_of_nat_32) linarith
  ultimately show "pg_no (word_of_nat (4096 * pn)) = word_of_nat pn" using unat_inj by metis
qed

lemma segment_unfold:
  assumes "rb + zb = 4096 * Suc m" "pn + Suc m \<le> 786432"
  defines "k \<equiv> min rb 4096"
  shows "segment_loop pd f w (word_of_nat (4096 * pn)) (word_of_nat rb) (word_of_nat zb) st s = do {
     (kpage, ka) \<leftarrow> palloc_get_page PAL_USER (ks st);
     let st1 = st\<lparr>ks := ka\<rparr>;
     (if kpage = 0 then Some (False, st1, s)
      else do {
        (n, bs, s1) \<leftarrow> file_read f (replicate k 0) (int k) s;
        let st2 = fill_page kpage 0 (take (nat n) bs) st1;
        (if n \<noteq> int k then do { st3 \<leftarrow> free_kpage kpage st2; Some (False, st3, s1) }
         else do {
           let st3 = fill_page kpage k (replicate (4096 - k) 0) st2;
           (ok, st4) \<leftarrow> install_page pd (word_of_nat (4096 * pn)) kpage w st3;
           (if \<not> ok then do { st5 \<leftarrow> free_kpage kpage st4; Some (False, st5, s1) }
            else segment_loop pd f w (word_of_nat (4096 * (pn + 1))) (word_of_nat (rb - 4096)) (word_of_nat (zb - (4096 - k))) st4 s1)
         })
      })
   }"
proof -
  note W = segment_words [OF assms(1,2), folded k_def]
  show ?thesis
    by (subst segment_loop.simps) (simp only: W Let_def if_True not_False_eq_True)
qed


lemma image_of_upd:
  assumes s: "same_on (frames_of F) st st'" and b: "page_bytes (ram (ks st')) kp = xs"
  shows "image_of st' (F(n \<mapsto> (kp, w))) = (image_of st F)(n \<mapsto> (xs, w))"
proof -
  have "image_of st' F = image_of st F" by (rule same_on_image [OF s order_refl])
  then show ?thesis using b by (auto simp: image_of_def fun_eq_iff)
qed

lemma full_after_free:
  assumes wf: "wf_kstate (ks st)" and kp: "in_pool True (ks st) kp" and e: "same_env st st'"
    and a: "all_pages (ks st') = all_pages (ks st) - {kp}" and full: "pool_full False (ks st)"
  shows "mem_full st'"
proof -
  have "in_pool False (ks st') p = in_pool False (ks st) p" for p using e in_pool_same by (auto simp: same_env_def)
  then have "pool_full False (ks st')" using full a in_pool_user(2) [OF wf kp] by (auto simp: pool_full_def)
  then show ?thesis by (simp add: mem_full_def)
qed

lemma take_read: "length xs = n \<Longrightarrow> n \<le> k \<Longrightarrow> take n (put_at (replicate k 0) 0 xs) = xs"
  by (simp add: put_at_def)

lemma page_filled:
  assumes "length old = 4096" "length xs = k" "k \<le> 4096"
  shows "put_at (put_at old 0 xs) k (replicate (4096 - k) 0) = xs @ replicate (4096 - k) 0"
  using assms by (simp add: put_at_def)

lemma kept_pages:
  assumes "uspace st pd Old F" "kp \<notin> all_pages (ks st)" "insert kp (all_pages (ks st)) \<subseteq> all_pages (ks st1)"
  shows "Old \<union> frames_of F \<subseteq> all_pages (ks st)" "Old \<union> frames_of F \<subseteq> all_pages (ks st1) - {kp}"
  using uspaceD(10) [OF assms(1)] assms(2,3) by blast+

lemma env_pool: "same_env st st' \<Longrightarrow> in_pool u (ks st') p = in_pool u (ks st) p"
  using in_pool_same by (auto simp: same_env_def)

lemma load_page:
  fixes pd f w st s bs p F rb zb m pn
  assumes u: "uspace st pd Old F" and r: "reading a0 s f bs p" and ro: "ram_ok st"
    and n: "rb + zb = 4096 * Suc m" "pn + Suc m \<le> 786432"
  defines "k \<equiv> min rb 4096" and "L \<equiv> segment_loop pd f w (word_of_nat (4096 * pn)) (word_of_nat rb) (word_of_nat zb) st s"
    and "P \<equiv> place_page bs w (nat p) (min rb 4096) (word_of_nat pn) (image_of st F)"
  shows "(\<exists>st' s' p'. L = Some (False, st', s') \<and> reading a0 s' f bs p' \<and> uspace st' pd Old F \<and>
      same_on (Old \<union> frames_of F) st st' \<and> same_env st st' \<and> (P = None \<or> mem_full st')) \<or>
    (\<exists>st' s' kp. L = segment_loop pd f w (word_of_nat (4096 * (pn + 1))) (word_of_nat (rb - 4096)) (word_of_nat (zb - (4096 - k))) st' s' \<and>
      reading a0 s' f bs (p + int k) \<and> uspace st' pd Old (F(word_of_nat pn \<mapsto> (kp, w))) \<and>
      same_on (Old \<union> frames_of F) st st' \<and> same_env st st' \<and> P = Some (image_of st' (F(word_of_nat pn \<mapsto> (kp, w)))))"
proof -
  note U = uspaceD [OF u]
  note W = segment_words [OF n, folded k_def]
  note S = segment_unfold [OF n, folded k_def, of pd f w st s, folded L_def]
  let ?up = "word_of_nat (4096 * pn) :: u32"
  have al: "aligned ?up" unfolding aligned_def W(11) by simp
  have us: "is_user_vaddr ?up" using n W(11) by (simp add: is_user_vaddr_def PHYS_BASE_def word_less_nat_alt)
  have fl: "PAL_USER AND PAL_ASSERT = 0" "PAL_USER AND PAL_USER \<noteq> 0" "PAL_USER AND PAL_ZERO = 0"
    by (simp_all add: PAL_USER_def PAL_ASSERT_def PAL_ZERO_def)
  have p0: "0 \<le> p" using r by (simp add: reading_def)
  obtain s1 where s1: "file_read f (replicate k 0) (int k) s =
      Some (int (span (int k) bs p), put_at (replicate k 0) 0 (slice bs (nat p) (span (int k) bs p)), s1)"
    "reading a0 s1 f bs (p + int (span (int k) bs p))" using reading_read(1) [OF r, of "int k"] by auto
  define j where "j = span (int k) bs p"
  define xs where "xs = slice bs (nat p) j"
  have xs: "length xs = j" "j \<le> k" using reading_read(2,3) [OF r, of "int k"] by (simp_all add: xs_def j_def)
  have k: "k \<le> 4096" by (simp add: k_def)
  from get_spare [OF u fl(1)] show ?thesis
  proof (elim disjE exE conjE)
    assume g: "palloc_get_page PAL_USER (ks st) = Some (0, ks st)" "pool_full (PAL_USER AND PAL_USER \<noteq> 0) (ks st)"
    have "L = Some (False, st, s)" unfolding S by (simp add: g(1))
    moreover have "mem_full st" using g(2) fl(2) by (simp add: mem_full_def)
    ultimately show ?thesis using r u by (intro disjI1 exI [of _ st] exI [of _ s] exI [of _ p]) simp
  next
    fix kp ka
    assume g: "palloc_get_page PAL_USER (ks st) = Some (kp, ka)" "kp \<noteq> 0" "aligned kp" "PHYS_BASE \<le> kp"
      "uspace (st\<lparr>ks := ka\<rparr>) pd (insert kp Old) F" "kp \<notin> all_pages (ks st)" "same_on (all_pages (ks st)) st (st\<lparr>ks := ka\<rparr>)"
      "same_env st (st\<lparr>ks := ka\<rparr>)" "in_pool (PAL_USER AND PAL_USER \<noteq> 0) (ks st) kp"
    define st1 where "st1 = st\<lparr>ks := ka\<rparr>"
    define st2 where "st2 = fill_page kp 0 xs st1"
    have u1: "uspace st1 pd (insert kp Old) F" and e1: "same_env st st1" and so1: "same_on (all_pages (ks st)) st st1"
      using g(5,7,8) by (simp_all add: st1_def)
    have ip: "init_page_dir st1 = init_page_dir st" by (simp add: st1_def)
    have kn: "kp \<notin> Old" "kp \<noteq> init_page_dir st1" "init_page_dir st1 \<in> Old" using g(6) U(5,10) ip by auto
    have a1: "insert kp (all_pages (ks st)) \<subseteq> all_pages (ks st1)" using uspaceD(10) [OF u1] U(10) same_tables(2) [OF so1] by blast
    note kept = kept_pages [OF u g(6) a1]
    note f2 = fill_page_ok [OF u1 kn(2), of 0 xs, folded st2_def]
    have e2: "same_env st st2" by (rule same_env_trans [OF e1 f2(3)])
    have ip2: "init_page_dir st2 = init_page_dir st" using e2 by (simp add: same_env_def)
    have so2: "same_on (Old \<union> frames_of F) st st2"
      by (rule same_on_trans [OF same_on_subset [OF so1 kept(1)] f2(2) kept(2)])
    have b2: "page_bytes (ram (ks st2)) kp = put_at (page_bytes (ram (ks st1)) kp) 0 xs" using f2(5) xs k by simp
    have kp2: "in_pool True (ks st2) kp" using g(9) fl(2) env_pool [OF e2] by simp
    have L2: "L = (if j \<noteq> k then do { st3 \<leftarrow> free_kpage kp st2; Some (False, st3, s1) }
         else do {
           let st3 = fill_page kp k (replicate (4096 - k) 0) st2;
           (ok, st4) \<leftarrow> install_page pd ?up kp w st3;
           (if \<not> ok then do { st5 \<leftarrow> free_kpage kp st4; Some (False, st5, s1) }
            else segment_loop pd f w (word_of_nat (4096 * (pn + 1))) (word_of_nat (rb - 4096)) (word_of_nat (zb - (4096 - k))) st4 s1)
         })"
    proof -
      have rdv: "file_read f (replicate k 0) (int k) s = Some (int j, put_at (replicate k 0) 0 xs, s1)"
        using s1(1) by (simp add: j_def xs_def)
      have tk: "take (nat (int j)) (put_at (replicate k 0) 0 xs) = xs" using take_read [OF xs] by simp
      show ?thesis unfolding S
        by (simp only: g(1,2) rdv tk Option.bind.bind_lunit prod.case Let_def st1_def [symmetric] st2_def [symmetric] if_False of_nat_eq_iff)
    qed
    show ?thesis
    proof (cases "j = k")
      case False
      have "P = None" using False span_whole [OF p0, of k bs] by (auto simp: P_def place_page_def j_def k_def)
      moreover obtain st3 where st3: "free_kpage kp st2 = Some st3" "uspace st3 pd Old F" "same_on (all_pages (ks st2) - {kp}) st2 st3"
        "same_env st2 st3" using free_spare [OF f2(1) kn(1)] U(5) ip2 by auto
      moreover have "Old \<union> frames_of F \<subseteq> all_pages (ks st2) - {kp}" using kept(2) f2(4) by simp
      then have "same_on (Old \<union> frames_of F) st st3" by (rule same_on_trans [OF so2 st3(3)])
      ultimately show ?thesis using L2 False s1(2) same_env_trans [OF e2 st3(4)]
        by (intro disjI1 exI [of _ st3] exI [of _ s1] exI [of _ "p + int j"]) (simp add: j_def)
    next
      case True
      define st3 where "st3 = fill_page kp k (replicate (4096 - k) 0) st2"
      have ki: "kp \<noteq> init_page_dir st2" using kn(2) ip ip2 by simp
      note f3 = fill_page_ok [OF f2(1) ki, of k "replicate (4096 - k) 0", folded st3_def]
      have e3: "same_env st st3" by (rule same_env_trans [OF e2 f3(3)])
      have k2: "Old \<union> frames_of F \<subseteq> all_pages (ks st2) - {kp}" using kept(2) f2(4) by simp
      have so3: "same_on (Old \<union> frames_of F) st st3" by (rule same_on_trans [OF so2 f3(2) k2])
      have "k + length (replicate (4096 - k) (0 :: u8)) \<le> 4096" using k by simp
      then have b3: "page_bytes (ram (ks st3)) kp = xs @ replicate (4096 - k) 0"
        using f3(5) b2 page_filled [OF length_page_bytes, of xs k] xs True k by metis
      have ip3: "init_page_dir st3 = init_page_dir st" using e3 by (simp add: same_env_def)
      have kp3: "in_pool True (ks st3) kp" using kp2 env_pool [OF f3(3)] by simp
      have wf3: "wf_kstate (ks st3)" by (rule uspaceD(2) [OF f3(1)])
      have "ram_ok st3" using ro ram_ok_env [OF e3] by simp
      then have fr: "unat kp + 4096 \<le> 3221225472 + 4096 * unat (init_ram_pages st3)"
        using in_pool_user(1) [OF wf3 kp3] by (simp add: ram_ok_def)
      have i3: "init_page_dir st3 \<in> Old" using U(5) ip3 by simp
      obtain ok st4 where st4: "install_page pd ?up kp w st3 = Some (ok, st4)"
        "if ok then F (pg_no ?up) = None \<and> uspace st4 pd Old (F(pg_no ?up \<mapsto> (kp, w))) \<and> same_env st3 st4 \<and>
           same_on (Old \<union> insert kp (frames_of F)) st3 st4 \<and> all_pages (ks st3) \<subseteq> all_pages (ks st4)
         else st4 = st3 \<and> (F (pg_no ?up) \<noteq> None \<or> pool_full False (ks st3))"
        using install_spare [OF f3(1) kn(1) i3 g(4) fr al us, of w] by blast
      have L3: "L = (if \<not> ok then do { st5 \<leftarrow> free_kpage kp st4; Some (False, st5, s1) }
            else segment_loop pd f w (word_of_nat (4096 * (pn + 1))) (word_of_nat (rb - 4096)) (word_of_nat (zb - (4096 - k))) st4 s1)"
        unfolding L2 by (simp only: True st3_def [symmetric] st4(1) Option.bind.bind_lunit prod.case Let_def simp_thms if_False)
      have rd: "reading a0 s1 f bs (p + int k)" using s1(2) True by (simp add: j_def)
      show ?thesis
      proof (cases ok)
        case False
        then have q: "st4 = st3" "F (word_of_nat pn) \<noteq> None \<or> pool_full False (ks st3)" using st4(2) W(12) by auto
        obtain st5 where st5: "free_kpage kp st3 = Some st5" "uspace st5 pd Old F" "same_on (all_pages (ks st3) - {kp}) st3 st5"
          "same_env st3 st5" "all_pages (ks st5) = all_pages (ks st3) - {kp}" using free_spare [OF f3(1) kn(1) i3] by blast
        have "P = None \<or> mem_full st5"
          using q(2) full_after_free [OF wf3 kp3 st5(4,5)] by (auto simp: P_def place_page_def image_of_def)
        moreover have "Old \<union> frames_of F \<subseteq> all_pages (ks st3) - {kp}" using k2 f3(4) by simp
        then have "same_on (Old \<union> frames_of F) st st5" by (rule same_on_trans [OF so3 st5(3)])
        ultimately show ?thesis using L3 False q(1) st5(1,2) rd same_env_trans [OF e3 st5(4)]
          by (intro disjI1 exI [of _ st5] exI [of _ s1] exI [of _ "p + int k"]) simp
      next
        case ok: True
        then have q: "F (word_of_nat pn) = None" "uspace st4 pd Old (F(word_of_nat pn \<mapsto> (kp, w)))" "same_env st3 st4"
          "same_on (Old \<union> insert kp (frames_of F)) st3 st4" using st4(2) W(12) by auto
        have so4: "same_on (Old \<union> frames_of F) st st4" by (rule same_on_trans [OF so3 q(4)]) blast
        have "page_bytes (ram (ks st4)) kp = xs @ replicate (4096 - k) 0" using same_on_bytes [OF q(4), of kp] b3 by simp
        then have "image_of st4 (F(word_of_nat pn \<mapsto> (kp, w))) = (image_of st F)(word_of_nat pn \<mapsto> (xs @ replicate (4096 - k) 0, w))"
          by (intro image_of_upd same_on_subset [OF so4]) auto
        moreover have "k = 0 \<or> nat p + k \<le> length bs" using span_whole [OF p0, of k bs] True by (simp add: j_def)
        ultimately have "P = Some (image_of st4 (F(word_of_nat pn \<mapsto> (kp, w))))"
          using q(1) True by (simp add: P_def place_page_def image_of_def xs_def k_def [symmetric])
        then show ?thesis using L3 ok q(2) so4 rd same_env_trans [OF e3 q(3)]
          by (intro disjI2 exI [of _ st4] exI [of _ s1] exI [of _ kp]) simp
      qed
    qed
  qed
qed


section \<open>A segment\<close>

text \<open>\<open>result\<close> relates what the code did to the image \<open>I\<close> it should have built, if there is one.\<close>

definition result :: "afs \<Rightarrow> nat \<Rightarrow> u8 list \<Rightarrow> u32 \<Rightarrow> u32 set \<Rightarrow> pstate \<Rightarrow> image option \<Rightarrow> bool \<Rightarrow> pstate \<Rightarrow> fsys \<Rightarrow> bool" where
  "result a0 f bs pd Old st I ok st' s' \<longleftrightarrow> (\<exists>p. reading a0 s' f bs p) \<and> same_on Old st st' \<and> same_env st st' \<and>
     (\<exists>F. uspace st' pd Old F \<and> (if ok then I = Some (image_of st' F) else I = None \<or> mem_full st' \<and> within F I))"

lemma resultI:
  assumes "reading a0 s' f bs p" "same_on Old st st'" "same_env st st'" "uspace st' pd Old F"
    "ok \<Longrightarrow> I = Some (image_of st' F)" "\<not> ok \<Longrightarrow> I = None \<or> mem_full st'" "\<not> ok \<Longrightarrow> within F I"
  shows "result a0 f bs pd Old st I ok st' s'"
  using assms unfolding result_def by auto

lemma result_after:
  assumes "same_on Old st st1" "same_env st st1" "result a0 f bs pd Old st1 I ok st' s'"
  shows "result a0 f bs pd Old st I ok st' s'"
proof -
  have "same_on Old st1 st'" "same_env st1 st'" using assms(3) by (simp_all add: result_def)
  then have "same_on Old st st'" "same_env st st'" using same_on_trans [OF assms(1)] same_env_trans [OF assms(2)] by blast+
  then show ?thesis using assms(3) unfolding result_def by blast
qed

lemma segment_loop_ok:
  assumes "uspace st pd Old F" "reading a0 s f bs p" "ram_ok st" "rb + zb = 4096 * m" "pn + m \<le> 786432"
  shows "\<exists>ok st' s'. segment_loop pd f w (word_of_nat (4096 * pn)) (word_of_nat rb) (word_of_nat zb) st s = Some (ok, st', s') \<and>
    result a0 f bs pd Old st (place_pages bs w (nat p) rb pn m (image_of st F)) ok st' s'"
  using assms
proof (induction m arbitrary: st s p F rb zb pn)
  case 0
  then have z: "rb = 0" "zb = 0" by simp_all
  have e: "segment_loop pd f w (word_of_nat (4096 * pn)) (word_of_nat rb) (word_of_nat zb) st s = Some (True, st, s)"
    unfolding z by (subst segment_loop.simps) simp
  have "result a0 f bs pd Old st (place_pages bs w (nat p) rb pn 0 (image_of st F)) True st s"
    by (rule resultI [OF 0(2) _ _ 0(1)]) simp_all
  then show ?case using e by blast
next
  case (Suc m)
  let ?P = "place_page bs w (nat p) (min rb 4096) (word_of_nat pn) (image_of st F)"
  have p: "0 \<le> p" using Suc.prems(2) by (simp add: reading_def)
  note S = load_page [OF Suc.prems, of w]
  from S show ?case
  proof (rule disjE, goal_cases)
    case 1
    then obtain st' s' p' where h: "segment_loop pd f w (word_of_nat (4096 * pn)) (word_of_nat rb) (word_of_nat zb) st s = Some (False, st', s')"
      "reading a0 s' f bs p'" "uspace st' pd Old F" "same_on (Old \<union> frames_of F) st st'" "same_env st st'"
      "?P = None \<or> mem_full st'"
      by (elim exE conjE) (rule that; assumption)
    have "result a0 f bs pd Old st (place_pages bs w (nat p) rb pn (Suc m) (image_of st F)) False st' s'"
    proof (rule resultI [OF h(2) same_on_subset [OF h(4)] h(5,3)])
      show "within F (place_pages bs w (nat p) rb pn (Suc m) (image_of st F))"
        by (rule within_step) (rule place_pages_mono)
    qed (use h(6) in auto)
    then show ?case using h(1) by blast
  next
    case 2
    then obtain st' s' kp where h: "segment_loop pd f w (word_of_nat (4096 * pn)) (word_of_nat rb) (word_of_nat zb) st s =
        segment_loop pd f w (word_of_nat (4096 * (pn + 1))) (word_of_nat (rb - 4096)) (word_of_nat (zb - (4096 - min rb 4096))) st' s'"
      "reading a0 s' f bs (p + int (min rb 4096))" "uspace st' pd Old (F(word_of_nat pn \<mapsto> (kp, w)))"
      "same_on (Old \<union> frames_of F) st st'" "same_env st st'" "?P = Some (image_of st' (F(word_of_nat pn \<mapsto> (kp, w))))"
      by (elim exE conjE) (rule that; assumption)
    have ro: "ram_ok st'" using Suc.prems(3) ram_ok_env [OF h(5)] by simp
    have b: "rb - 4096 + (zb - (4096 - min rb 4096)) = 4096 * m" by (rule segment_words(10) [OF Suc.prems(4,5)])
    have b': "pn + 1 + m \<le> 786432" using Suc.prems(5) by simp
    obtain ok st2 s2 where q: "segment_loop pd f w (word_of_nat (4096 * (pn + 1))) (word_of_nat (rb - 4096))
        (word_of_nat (zb - (4096 - min rb 4096))) st' s' = Some (ok, st2, s2)"
      "result a0 f bs pd Old st' (place_pages bs w (nat (p + int (min rb 4096))) (rb - 4096) (pn + 1) m
        (image_of st' (F(word_of_nat pn \<mapsto> (kp, w))))) ok st2 s2"
      using Suc.IH [OF h(3,2) ro b b'] by blast
    have e: "place_pages bs w (nat p) rb pn (Suc m) (image_of st F) =
        place_pages bs w (nat (p + int (min rb 4096))) (rb - 4096) (pn + 1) m (image_of st' (F(word_of_nat pn \<mapsto> (kp, w))))"
      using h(6) p by (simp add: nat_add_distrib)
    have "result a0 f bs pd Old st (place_pages bs w (nat p) rb pn (Suc m) (image_of st F)) ok st2 s2"
      unfolding e by (rule result_after [OF same_on_subset [OF h(4)] h(5) q(2)]) simp
    then show ?case using h(1) q(1) by auto
  qed
qed


section \<open>The program headers\<close>

definition seg_read :: "Elf32_Phdr \<Rightarrow> nat" where
  "seg_read ph = (if p_filesz ph > 0 then unat (p_vaddr ph) mod 4096 + unat (p_filesz ph) else 0)"

definition seg_pages :: "Elf32_Phdr \<Rightarrow> nat" where
  "seg_pages ph = (unat (p_vaddr ph) mod 4096 + unat (p_memsz ph) + 4095) div 4096"

definition place_segment :: "u8 list \<Rightarrow> Elf32_Phdr \<Rightarrow> image \<Rightarrow> image option" where
  "place_segment bs ph M =
     place_pages bs (p_flags ph AND PF_W \<noteq> 0) (unat (p_offset ph) div 4096 * 4096) (seg_read ph) (unat (p_vaddr ph) div 4096)
       (seg_pages ph) M"

lemma place_segment_mono: "place_segment bs ph M = Some M' \<Longrightarrow> M \<subseteq>\<^sub>m M'"
  unfolding place_segment_def by (rule place_pages_mono)

definition place_phdr :: "u8 list \<Rightarrow> Elf32_Phdr \<Rightarrow> image \<Rightarrow> image option" where
  "place_phdr bs ph M =
     (if p_type ph = PT_DYNAMIC \<or> p_type ph = PT_INTERP \<or> p_type ph = PT_SHLIB then None
      else if p_type ph = PT_LOAD then
        if validate_segment ph (int (length bs)) then place_segment bs ph M else None
      else Some M)"

fun place_phdrs :: "u8 list \<Rightarrow> int \<Rightarrow> nat \<Rightarrow> image \<Rightarrow> image option" where
  "place_phdrs bs ofs 0 M = Some M"
| "place_phdrs bs ofs (Suc n) M =
     (if 0 \<le> ofs \<and> ofs + 32 \<le> int (length bs) then do {
        M' \<leftarrow> place_phdr bs (phdr_of (slice bs (nat ofs) 32)) M;
        place_phdrs bs (ofs + 32) n M'
      } else None)"

lemma place_phdr_mono: "place_phdr bs ph M = Some M' \<Longrightarrow> M \<subseteq>\<^sub>m M'"
  using place_segment_mono by (auto simp: place_phdr_def split: if_splits)

lemma place_phdrs_mono: "place_phdrs bs ofs n M = Some M' \<Longrightarrow> M \<subseteq>\<^sub>m M'"
proof (induction n arbitrary: ofs M)
  case (Suc n)
  then obtain M1 where "place_phdr bs (phdr_of (slice bs (nat ofs) 32)) M = Some M1" "place_phdrs bs (ofs + 32) n M1 = Some M'"
    by (cases "place_phdr bs (phdr_of (slice bs (nat ofs) 32)) M") (auto split: if_splits)
  then show ?case using place_phdr_mono Suc.IH map_le_trans by blast
qed simp

definition stack_page :: u32 where "stack_page = 0xbffff"

definition place_stack :: "image \<Rightarrow> image option" where
  "place_stack M = (if M stack_page = None then Some (M(stack_page \<mapsto> (replicate 4096 0, True))) else None)"

lemma place_stack_mono: "place_stack M = Some M' \<Longrightarrow> M \<subseteq>\<^sub>m M'"
  by (auto simp: place_stack_def map_le_def split: if_splits)

definition elf_image :: "u8 list \<Rightarrow> image option" where
  "elf_image bs =
     (let e = ehdr_of (take 52 bs) in
      if 52 \<le> length bs \<and> ehdr_ok e
      then place_phdrs bs (sint (e_phoff e)) (e_phnum e) Map.empty \<bind> place_stack else None)"

lemma sint_of_small: "unat (x :: u32) < 2147483648 \<Longrightarrow> sint x = int (unat x)"
proof -
  assume x: "unat x < 2147483648"
  have "in_s32 (int (unat x))" unfolding in_s32_def using x by linarith
  then have "to_s32 (int (unat x)) = int (unat x)" by (rule to_s32_in)
  then show ?thesis unfolding to_s32_sint by simp
qed

lemma as_word: "unat (x :: u32) = n \<Longrightarrow> x = word_of_nat n"
  using unat_word_of_nat_32 [of n] unat_u32_less [of x] by (intro unat_inj) simp

lemma unat_mult_mod: "unat ((x :: u32) * y) = unat x * unat y mod 4294967296"
  by (simp add: unat_word_ariths)

lemma valid_segment:
  assumes "validate_segment ph (int len)" "len < 2147483648"
  shows "unat (p_offset ph) mod 4096 = unat (p_vaddr ph) mod 4096" "unat (p_offset ph) \<le> len"
    "unat (p_filesz ph) \<le> unat (p_memsz ph)" "0 < unat (p_memsz ph)" "unat (p_vaddr ph) + unat (p_memsz ph) < 3221225472"
    "4096 \<le> unat (p_vaddr ph)"
proof -
  have v: "p_offset ph AND PGMASK = p_vaddr ph AND PGMASK" "\<not> p_offset ph > word_of_int (int len)" "\<not> p_memsz ph < p_filesz ph"
    "p_memsz ph \<noteq> 0" "is_user_vaddr (p_vaddr ph + p_memsz ph)" "\<not> p_vaddr ph + p_memsz ph < p_vaddr ph" "\<not> p_vaddr ph < PGSIZE"
    using assms(1) by (auto simp: validate_segment_def split: if_splits)
  show "unat (p_offset ph) mod 4096 = unat (p_vaddr ph) mod 4096"
    using v(1) unat_pg_ofs [of "p_offset ph"] unat_pg_ofs [of "p_vaddr ph"] by (simp add: pg_ofs_def)
  have "unat (word_of_int (int len) :: u32) = len"
    using assms(2) unat_word_of_nat_32 [of len] by simp
  then show "unat (p_offset ph) \<le> len" using v(2) by (simp add: word_less_nat_alt)
  show "unat (p_filesz ph) \<le> unat (p_memsz ph)" using v(3) by (simp add: word_less_nat_alt)
  show "0 < unat (p_memsz ph)" using v(4) by (simp add: unat_gt_0)
  show "4096 \<le> unat (p_vaddr ph)" using v(7) by (simp add: word_less_nat_alt PGSIZE_eq)
  have s: "unat (p_vaddr ph + p_memsz ph) = (unat (p_vaddr ph) + unat (p_memsz ph)) mod 4294967296"
    by (simp add: unat_word_ariths)
  have le: "unat (p_vaddr ph) \<le> (unat (p_vaddr ph) + unat (p_memsz ph)) mod 4294967296"
    using v(6) s by (simp add: word_less_nat_alt)
  have "unat (p_vaddr ph) + unat (p_memsz ph) < 4294967296"
  proof (rule ccontr)
    assume n: "\<not> ?thesis"
    then have "(unat (p_vaddr ph) + unat (p_memsz ph)) mod 4294967296 = unat (p_vaddr ph) + unat (p_memsz ph) - 4294967296"
      using unat_u32_less [of "p_vaddr ph"] unat_u32_less [of "p_memsz ph"] by (simp add: le_mod_geq)
    then show False using le unat_u32_less [of "p_memsz ph"] n by linarith
  qed
  then show "unat (p_vaddr ph) + unat (p_memsz ph) < 3221225472"
    using v(5) s by (simp add: is_user_vaddr_def PHYS_BASE_def word_less_nat_alt)
qed

lemma unat_round_up: "unat x + 4095 < 4294967296 \<Longrightarrow> unat (round_up_page x) = (unat x + 4095) div 4096 * 4096"
proof -
  assume x: "unat x + 4095 < 4294967296"
  have e: "x + PGSIZE - 1 = x + 4095" by (simp add: PGSIZE_eq)
  have u: "unat (x + 4095) = unat x + 4095" using x by (simp add: unat_word_ariths)
  have d: "unat ((x + PGSIZE - 1) div PGSIZE) = (unat x + 4095) div 4096" unfolding e unat_div u by (simp add: PGSIZE_eq)
  have "(unat x + 4095) div 4096 * 4096 < 4294967296" using x by linarith
  moreover have "unat (round_up_page x) = unat ((x + PGSIZE - 1) div PGSIZE) * 4096 mod 4294967296"
    unfolding round_up_page_def using unat_mult_mod [of "(x + PGSIZE - 1) div PGSIZE" PGSIZE] by (simp add: PGSIZE_eq)
  ultimately show ?thesis unfolding d by simp
qed

lemma pages_bound: "v + n < 3221225472 \<Longrightarrow> v div 4096 + (v mod 4096 + n + 4095) div 4096 \<le> (786432 :: nat)"
proof -
  assume l: "v + n < 3221225472"
  have v: "v = 4096 * (v div 4096) + v mod 4096" by simp
  then have q: "v div 4096 \<le> 786432" using l by linarith
  obtain i j where ij: "v = 4096 * i + j" "v div 4096 = i" "v mod 4096 = j" using v by blast
  have "v mod 4096 + n + 4095 < (786433 - v div 4096) * 4096"
    unfolding ij(2,3) diff_mult_distrib using l q unfolding ij(2) ij(1) by linarith
  then have "(v mod 4096 + n + 4095) div 4096 < 786433 - v div 4096" by (rule less_mult_imp_div_less)
  then show ?thesis by linarith
qed

lemma segment_numbers:
  assumes v: "validate_segment ph (int len)" "len < 2147483648"
  defines "rb \<equiv> (if p_filesz ph > 0 then (p_vaddr ph AND PGMASK) + p_filesz ph else 0)"
    and "rt \<equiv> round_up_page ((p_vaddr ph AND PGMASK) + p_memsz ph)"
  shows "rb = word_of_nat (seg_read ph)" "rt - rb = word_of_nat (4096 * seg_pages ph - seg_read ph)"
    "seg_read ph + (4096 * seg_pages ph - seg_read ph) = 4096 * seg_pages ph"
    "unat (p_vaddr ph) div 4096 + seg_pages ph \<le> 786432" "(rb + (rt - rb)) mod PGSIZE = 0"
    "p_vaddr ph AND NOT PGMASK = word_of_nat (4096 * (unat (p_vaddr ph) div 4096))"
    "sint (p_offset ph AND NOT PGMASK) = int (unat (p_offset ph) div 4096 * 4096)"
proof -
  note V = valid_segment [OF v]
  have o: "unat (p_vaddr ph AND PGMASK) = unat (p_vaddr ph) mod 4096" using unat_pg_ofs [of "p_vaddr ph"] by (simp add: pg_ofs_def)
  have le: "unat (p_vaddr ph) mod 4096 \<le> unat (p_vaddr ph)" by simp
  have m: "unat ((p_vaddr ph AND PGMASK) + p_memsz ph) = unat (p_vaddr ph) mod 4096 + unat (p_memsz ph)"
    unfolding unat_word_ariths o using V(5) le by simp
  have f: "unat ((p_vaddr ph AND PGMASK) + p_filesz ph) = unat (p_vaddr ph) mod 4096 + unat (p_filesz ph)"
    unfolding unat_word_ariths o using V(3,5) le by simp
  have rdu: "unat rb = seg_read ph" using f by (simp add: rb_def seg_read_def)
  then show rw: "rb = word_of_nat (seg_read ph)" by (rule as_word)
  have Ru: "unat rt = 4096 * seg_pages ph"
    unfolding rt_def using unat_round_up [of "(p_vaddr ph AND PGMASK) + p_memsz ph"] m V(5) le by (simp add: seg_pages_def)
  have rs: "seg_read ph \<le> 4096 * seg_pages ph"
  proof -
    have "seg_read ph \<le> unat (p_vaddr ph) mod 4096 + unat (p_memsz ph)" using V(3) by (simp add: seg_read_def)
    also have "\<dots> \<le> 4096 * seg_pages ph" unfolding seg_pages_def by linarith
    finally show ?thesis .
  qed
  then show "seg_read ph + (4096 * seg_pages ph - seg_read ph) = 4096 * seg_pages ph" by simp
  have "rb \<le> rt" using rdu Ru rs by (simp add: word_le_nat_alt)
  then have "unat (rt - rb) = 4096 * seg_pages ph - seg_read ph" using rdu Ru by (simp add: unat_sub)
  then show "rt - rb = word_of_nat (4096 * seg_pages ph - seg_read ph)" by (rule as_word)
  have "unat (rt mod PGSIZE) = 0" unfolding unat_mod Ru by (simp add: PGSIZE_eq)
  then show "(rb + (rt - rb)) mod PGSIZE = 0" by (simp add: unat_eq_zero)
  show "unat (p_vaddr ph) div 4096 + seg_pages ph \<le> 786432" unfolding seg_pages_def by (rule pages_bound [OF V(5)])
  have "unat (p_vaddr ph AND NOT PGMASK) = 4096 * (unat (p_vaddr ph) div 4096)"
    using unat_pg_round_down [of "p_vaddr ph"] by (simp add: pg_round_down_def)
  then show "p_vaddr ph AND NOT PGMASK = word_of_nat (4096 * (unat (p_vaddr ph) div 4096))" by (rule as_word)
  have u: "unat (p_offset ph AND NOT PGMASK) = unat (p_offset ph) div 4096 * 4096"
    using unat_pg_round_down [of "p_offset ph"] by (simp add: pg_round_down_def)
  have "unat (p_offset ph) div 4096 * 4096 \<le> unat (p_offset ph)" by simp
  then have "unat (p_offset ph AND NOT PGMASK) < 2147483648" using u V(2) v(2) by linarith
  then have "sint (p_offset ph AND NOT PGMASK) = int (unat (p_offset ph AND NOT PGMASK))" by (rule sint_of_small)
  then show "sint (p_offset ph AND NOT PGMASK) = int (unat (p_offset ph) div 4096 * 4096)" unfolding u .
qed


lemma load_phdr_ok:
  assumes u: "uspace st pd Old F" and r: "reading a0 s f bs p" and ro: "ram_ok st"
  shows "\<exists>ok st' s'. load_phdr pd f ph st s = Some (ok, st', s') \<and> result a0 f bs pd Old st (place_phdr bs ph (image_of st F)) ok st' s'"
proof -
  have keep: "result a0 f bs pd Old st I ok st s" if "ok \<Longrightarrow> I = Some (image_of st F)" "\<not> ok \<Longrightarrow> I = None" for I ok
    by (rule resultI [OF r _ _ u]) (use that in simp_all)
  consider "p_type ph = PT_DYNAMIC \<or> p_type ph = PT_INTERP \<or> p_type ph = PT_SHLIB"
    | "p_type ph \<noteq> PT_DYNAMIC" "p_type ph \<noteq> PT_INTERP" "p_type ph \<noteq> PT_SHLIB" "p_type ph \<noteq> PT_LOAD"
    | "p_type ph = PT_LOAD" "\<not> validate_segment ph (int (length bs))"
    | "p_type ph = PT_LOAD" "validate_segment ph (int (length bs))" by blast
  then show ?thesis
  proof cases
    case 1
    then have "load_phdr pd f ph st s = Some (False, st, s)" "place_phdr bs ph (image_of st F) = None"
      by (simp_all add: load_phdr_def place_phdr_def)
    then show ?thesis using keep [of False None] by auto
  next
    case 2
    then have "load_phdr pd f ph st s = Some (True, st, s)" "place_phdr bs ph (image_of st F) = Some (image_of st F)"
      by (simp_all add: load_phdr_def place_phdr_def)
    then show ?thesis using keep [of True "Some (image_of st F)"] by auto
  next
    case 3
    then have "load_phdr pd f ph st s = Some (False, st, s)" "place_phdr bs ph (image_of st F) = None"
      using reading_length [OF r] by (simp_all add: load_phdr_def place_phdr_def PT_LOAD_def PT_DYNAMIC_def PT_INTERP_def PT_SHLIB_def)
    then show ?thesis using keep [of False None] by auto
  next
    case 4
    have len: "length bs < 2147483648" using r by (simp add: reading_def)
    note N = segment_numbers [OF 4(2) len]
    let ?o = "int (unat (p_offset ph) div 4096 * 4096)" and ?w = "p_flags ph AND PF_W \<noteq> 0"
    let ?rb = "if p_filesz ph > 0 then (p_vaddr ph AND PGMASK) + p_filesz ph else 0"
    let ?rt = "round_up_page ((p_vaddr ph AND PGMASK) + p_memsz ph)"
    obtain s1 where s1: "file_seek f ?o s = Some s1" "reading a0 s1 f bs ?o" using reading_seek [OF r, of ?o] by auto
    have al: "pg_ofs (p_vaddr ph AND NOT PGMASK) = 0"
    proof -
      have "unat (p_vaddr ph AND NOT PGMASK) = unat (p_vaddr ph) div 4096 * 4096"
        using unat_pg_round_down [of "p_vaddr ph"] by (simp add: pg_round_down_def)
      then show ?thesis unfolding aligned_iff aligned_def by simp
    qed
    have z: "(if p_filesz ph > 0 then ?rt - ?rb else ?rt) = ?rt - ?rb" by simp
    have "load_phdr pd f ph st s = load_segment pd f ?o (p_vaddr ph AND NOT PGMASK) ?rb (?rt - ?rb) ?w st s"
      using 4 reading_length [OF r] N(7) z
      by (simp add: load_phdr_def PT_LOAD_def PT_DYNAMIC_def PT_INTERP_def PT_SHLIB_def Let_def)
    also have "\<dots> = segment_loop pd f ?w (p_vaddr ph AND NOT PGMASK) ?rb (?rt - ?rb) st s1"
      unfolding load_segment_def using N(5) al s1(1) by simp
    also have "\<dots> = segment_loop pd f ?w (word_of_nat (4096 * (unat (p_vaddr ph) div 4096))) (word_of_nat (seg_read ph))
        (word_of_nat (4096 * seg_pages ph - seg_read ph)) st s1"
      unfolding N(2,6) unfolding N(1) ..
    finally have e: "load_phdr pd f ph st s = segment_loop pd f ?w (word_of_nat (4096 * (unat (p_vaddr ph) div 4096)))
        (word_of_nat (seg_read ph)) (word_of_nat (4096 * seg_pages ph - seg_read ph)) st s1" .
    have "place_phdr bs ph (image_of st F) =
        place_pages bs ?w (nat ?o) (seg_read ph) (unat (p_vaddr ph) div 4096) (seg_pages ph) (image_of st F)"
      unfolding nat_int using 4 by (simp add: place_phdr_def place_segment_def PT_LOAD_def PT_DYNAMIC_def PT_INTERP_def PT_SHLIB_def)
    then show ?thesis unfolding e using segment_loop_ok [OF u s1(2) ro N(3,4), of ?w] by simp
  qed
qed

lemma phdr_loop_ok:
  assumes "uspace st pd Old F" "reading a0 s f bs p" "ram_ok st" "ofs \<le> 2147483647"
  shows "\<exists>ok st' s'. phdr_loop pd f ofs n st s = Some (ok, st', s') \<and>
    result a0 f bs pd Old st (place_phdrs bs ofs n (image_of st F)) ok st' s'"
  using assms
proof (induction n arbitrary: st s p F ofs)
  case 0
  have "result a0 f bs pd Old st (place_phdrs bs ofs 0 (image_of st F)) True st s"
    by (rule resultI [OF 0(2) _ _ 0(1)]) simp_all
  then show ?case by (intro exI [of _ True] exI [of _ st] exI [of _ s]) simp
next
  case (Suc n)
  note len = reading_length [OF Suc.prems(2)]
  have lb: "length bs < 2147483648" using Suc.prems(2) by (simp add: reading_def)
  have fail: "result a0 f bs pd Old st None False st s1" if "reading a0 s1 f bs q" for s1 q
    by (rule resultI [OF that _ _ Suc.prems(1)]) simp_all
  show ?case
  proof (cases "0 \<le> ofs \<and> ofs + 32 \<le> int (length bs)")
    case False
    have I: "place_phdrs bs ofs (Suc n) (image_of st F) = None" unfolding place_phdrs.simps by (rule if_not_P [OF False])
    show ?thesis
    proof (cases "ofs < 0 \<or> ofs > int (length bs)")
      case True
      then have "phdr_loop pd f ofs (Suc n) st s = Some (False, st, s)" using len by simp
      then show ?thesis unfolding I using fail [OF Suc.prems(2)] by blast
    next
      case in_file: False
      have "0 \<le> ofs" using in_file by simp
      then obtain s1 where s1: "file_seek f ofs s = Some s1" "reading a0 s1 f bs ofs" using reading_seek [OF Suc.prems(2)] by blast
      have sp: "int (span 32 bs ofs) \<noteq> 32" using False in_file by (auto simp: span_def)
      have n32: "nat 32 = 32" by simp
      obtain s2 x where s2: "file_read f (replicate 32 0) 32 s1 = Some (int (span 32 bs ofs), x, s2)"
        "reading a0 s2 f bs (ofs + int (span 32 bs ofs))" using reading_read(1) [OF s1(2), of 32, unfolded n32] by auto
      have "phdr_loop pd f ofs (Suc n) st s = Some (False, st, s2)"
        using len in_file s1(1) s2(1) sp by (simp add: phdr_size_def)
      then show ?thesis unfolding I using fail [OF s2(2)] by blast
    qed
  next
    case True
    then have o: "0 \<le> ofs" "nat ofs + 32 \<le> length bs" by auto
    obtain s1 where s1: "file_seek f ofs s = Some s1" "reading a0 s1 f bs ofs" using reading_seek [OF Suc.prems(2) o(1)] by blast
    have sp: "span 32 bs ofs = 32" using True by (auto simp: span_def)
    have n32: "nat 32 = 32" by simp
    have l32: "length (slice bs (nat ofs) 32) = 32" using o(2) by simp
    then have w: "put_at (replicate 32 0) 0 (slice bs (nat ofs) 32) = slice bs (nat ofs) 32" by simp
    obtain s2 where s2: "file_read f (replicate 32 0) 32 s1 = Some (32, slice bs (nat ofs) 32, s2)"
      "reading a0 s2 f bs (ofs + 32)" using reading_read(1) [OF s1(2), of 32, unfolded n32 sp w] by auto
    let ?ph = "phdr_of (slice bs (nat ofs) 32)"
    obtain ok st3 s3 where h: "load_phdr pd f ?ph st s2 = Some (ok, st3, s3)"
      "result a0 f bs pd Old st (place_phdr bs ?ph (image_of st F)) ok st3 s3" using load_phdr_ok [OF Suc.prems(1) s2(2) Suc.prems(3)] by blast
    have w32: "to_s32 (ofs + phdr_size) = ofs + 32" unfolding phdr_size_def by (rule to_s32_in) (use True lb in \<open>simp add: in_s32_def\<close>)
    have L: "phdr_loop pd f ofs (Suc n) st s = (if ok then phdr_loop pd f (ofs + 32) n st3 s3 else Some (False, st3, s3))"
      using len s1(1) s2(1) h(1) w32 True by (simp add: phdr_size_def)
    have I: "place_phdrs bs ofs (Suc n) (image_of st F) = place_phdr bs ?ph (image_of st F) \<bind> place_phdrs bs (ofs + 32) n"
      using True by simp
    obtain p3 F3 where q: "reading a0 s3 f bs p3" "same_on Old st st3" "same_env st st3" "uspace st3 pd Old F3"
      "if ok then place_phdr bs ?ph (image_of st F) = Some (image_of st3 F3)
       else place_phdr bs ?ph (image_of st F) = None \<or> mem_full st3 \<and> within F3 (place_phdr bs ?ph (image_of st F))"
      using h(2) unfolding result_def by blast
    show ?thesis
    proof (cases ok)
      case False
      have "result a0 f bs pd Old st (place_phdrs bs ofs (Suc n) (image_of st F)) False st3 s3"
        unfolding I
      proof (rule resultI [OF q(1-4)])
        have "within F3 (place_phdr bs ?ph (image_of st F))" using q(5) False by auto
        then show "within F3 (place_phdr bs ?ph (image_of st F) \<bind> place_phdrs bs (ofs + 32) n)"
          by (rule within_bind) (rule place_phdrs_mono)
      qed (use q(5) False in auto)
      moreover have "phdr_loop pd f ofs (Suc n) st s = Some (False, st3, s3)" unfolding L using False by (simp only: if_False)
      ultimately show ?thesis by blast
    next
      case ok: True
      have ro: "ram_ok st3" using Suc.prems(3) ram_ok_env [OF q(3)] by simp
      have ob: "ofs + 32 \<le> 2147483647" using True lb by simp
      obtain ok' st4 s4 where g: "phdr_loop pd f (ofs + 32) n st3 s3 = Some (ok', st4, s4)"
        "result a0 f bs pd Old st3 (place_phdrs bs (ofs + 32) n (image_of st3 F3)) ok' st4 s4"
        using Suc.IH [OF q(4,1) ro ob] by blast
      have "result a0 f bs pd Old st (place_phdrs bs ofs (Suc n) (image_of st F)) ok' st4 s4"
        unfolding I using result_after [OF q(2,3) g(2)] q(5) ok by simp
      moreover have "phdr_loop pd f ofs (Suc n) st s = Some (ok', st4, s4)" unfolding L using ok g(1) by (simp only: if_True)
      ultimately show ?thesis by blast
    qed
  qed
qed


section \<open>The stack and the whole program\<close>

lemma setup_stack_ok:
  assumes u: "uspace st pd Old F" and r: "reading a0 s f bs p" and ro: "ram_ok st"
  shows "\<exists>esp st'. setup_stack pd st = Some (esp, st') \<and> (esp \<noteq> None \<longrightarrow> esp = Some 0xbfffffec) \<and>
    result a0 f bs pd Old st (place_stack (image_of st F)) (esp \<noteq> None) st' s"
proof -
  note U = uspaceD [OF u]
  let ?fl = "PAL_USER OR PAL_ZERO"
  have fl: "?fl AND PAL_ASSERT = 0" "?fl AND PAL_USER \<noteq> 0" "?fl AND PAL_ZERO \<noteq> 0"
    by (simp_all add: PAL_USER_def PAL_ASSERT_def PAL_ZERO_def)
  have up: "PHYS_BASE - PGSIZE = 0xbffff000" by (simp add: PHYS_BASE_def PGSIZE_eq)
  have al: "aligned (0xbffff000 :: u32)" "is_user_vaddr (0xbffff000 :: u32)" by (simp_all add: aligned_def is_user_vaddr_def PHYS_BASE_def)
  have pn: "pg_no 0xbffff000 = stack_page" by (simp add: pg_no_def stack_page_def PGBITS_def)
  from get_spare [OF u fl(1)] show ?thesis
  proof (elim disjE exE conjE)
    assume g: "palloc_get_page ?fl (ks st) = Some (0, ks st)" "pool_full (?fl AND PAL_USER \<noteq> 0) (ks st)"
    have "setup_stack pd st = Some (None, st)" by (simp add: setup_stack_def g(1))
    moreover have "mem_full st" using g(2) fl(2) by (simp add: mem_full_def)
    then have "result a0 f bs pd Old st (place_stack (image_of st F)) False st s"
      by (intro resultI [OF r _ _ u] within_step place_stack_mono) simp_all
    ultimately show ?thesis by (intro exI [of _ None] exI [of _ st]) simp
  next
    fix kp ka
    assume g: "palloc_get_page ?fl (ks st) = Some (kp, ka)" "kp \<noteq> 0" "aligned kp" "PHYS_BASE \<le> kp"
      "uspace (st\<lparr>ks := ka\<rparr>) pd (insert kp Old) F" "kp \<notin> all_pages (ks st)" "same_on (all_pages (ks st)) st (st\<lparr>ks := ka\<rparr>)"
      "same_env st (st\<lparr>ks := ka\<rparr>)" "in_pool (?fl AND PAL_USER \<noteq> 0) (ks st) kp"
      "?fl AND PAL_ZERO \<noteq> 0 \<longrightarrow> page_bytes (ram ka) kp = replicate 4096 0"
    define st1 where "st1 = st\<lparr>ks := ka\<rparr>"
    have u1: "uspace st1 pd (insert kp Old) F" and e1: "same_env st st1" and so1: "same_on (all_pages (ks st)) st st1"
      using g(5,7,8) by (simp_all add: st1_def)
    have ip: "init_page_dir st1 = init_page_dir st" by (simp add: st1_def)
    have kn: "kp \<notin> Old" "init_page_dir st1 \<in> Old" using g(6) U(5,10) ip by auto
    have sub: "Old \<union> frames_of F \<subseteq> all_pages (ks st)" using U(10) by blast
    have kp1: "in_pool True (ks st1) kp" using g(9) fl(2) env_pool [OF e1] by simp
    have wf1: "wf_kstate (ks st1)" by (rule uspaceD(2) [OF u1])
    have "ram_ok st1" using ro ram_ok_env [OF e1] by simp
    then have fr: "unat kp + 4096 \<le> 3221225472 + 4096 * unat (init_ram_pages st1)"
      using in_pool_user(1) [OF wf1 kp1] by (simp add: ram_ok_def)
    obtain ok st2 where i: "install_page pd 0xbffff000 kp True st1 = Some (ok, st2)"
      "if ok then F stack_page = None \<and> uspace st2 pd Old (F(stack_page \<mapsto> (kp, True))) \<and> same_env st1 st2 \<and>
         same_on (Old \<union> insert kp (frames_of F)) st1 st2 \<and> all_pages (ks st1) \<subseteq> all_pages (ks st2)
       else st2 = st1 \<and> (F stack_page \<noteq> None \<or> pool_full False (ks st1))"
      using install_spare [OF u1 kn(1,2) g(4) fr al, of True] unfolding pn by blast
    have S: "setup_stack pd st = (if ok then Some (Some 0xbfffffec, st2) else do { st3 \<leftarrow> free_kpage kp st2; Some (None, st3) })"
    proof -
      have sp: "PHYS_BASE - 0x14 = 0xbfffffec" by (simp add: PHYS_BASE_def)
      show ?thesis unfolding setup_stack_def up sp by (simp add: g(1,2) i(1) Let_def flip: st1_def)
    qed
    show ?thesis
    proof (cases ok)
      case False
      then have q: "st2 = st1" "F stack_page \<noteq> None \<or> pool_full False (ks st1)" using i(2) by simp_all
      obtain st3 where st3: "free_kpage kp st1 = Some st3" "uspace st3 pd Old F" "same_on (all_pages (ks st1) - {kp}) st1 st3"
        "same_env st1 st3" "all_pages (ks st3) = all_pages (ks st1) - {kp}" using free_spare [OF u1 kn] by blast
      have "place_stack (image_of st F) = None \<or> mem_full st3"
        using q(2) full_after_free [OF wf1 kp1 st3(4,5)] by (auto simp: place_stack_def image_of_def)
      moreover have old: "Old \<subseteq> all_pages (ks st1) - {kp}" using uspaceD(10) [OF u1] kn(1) by blast
      have "same_on Old st st1" by (rule same_on_subset [OF so1]) (use sub in blast)
      then have "same_on Old st st3" by (rule same_on_trans [OF _ st3(3) old])
      ultimately have "result a0 f bs pd Old st (place_stack (image_of st F)) False st3 s"
        by (intro resultI [OF r _ same_env_trans [OF e1 st3(4)] st3(2)] within_step place_stack_mono) simp_all
      then show ?thesis using S False q(1) st3(1) by (intro exI [of _ None] exI [of _ st3]) simp
    next
      case True
      then have q: "F stack_page = None" "uspace st2 pd Old (F(stack_page \<mapsto> (kp, True)))" "same_env st1 st2"
        "same_on (Old \<union> insert kp (frames_of F)) st1 st2" using i(2) by simp_all
      have so: "same_on (Old \<union> frames_of F) st st2" by (rule same_on_trans [OF same_on_subset [OF so1 sub] q(4)]) blast
      have "page_bytes (ram (ks st2)) kp = replicate 4096 0" using same_on_bytes [OF q(4), of kp] g(10) fl(3) by (simp add: st1_def)
      then have "image_of st2 (F(stack_page \<mapsto> (kp, True))) = (image_of st F)(stack_page \<mapsto> (replicate 4096 0, True))"
        by (intro image_of_upd same_on_subset [OF so]) auto
      then have "place_stack (image_of st F) = Some (image_of st2 (F(stack_page \<mapsto> (kp, True))))"
        using q(1) by (simp add: place_stack_def image_of_def)
      then have "result a0 f bs pd Old st (place_stack (image_of st F)) True st2 s"
        by (intro resultI [OF r same_on_subset [OF so] same_env_trans [OF e1 q(3)] q(2)]) simp_all
      then show ?thesis using S True by (intro exI [of _ "Some 0xbfffffec"] exI [of _ st2]) simp
    qed
  qed
qed

lemma load_image_ok:
  assumes u: "uspace st pd Old Map.empty" and r: "reading a0 s f bs 0" and ro: "ram_ok st"
  shows "\<exists>r st' s'. load_image pd f st s = Some (r, st', s') \<and>
    (r \<noteq> None \<longrightarrow> r = Some (e_entry (ehdr_of (take 52 bs)), 0xbfffffec)) \<and> result a0 f bs pd Old st (elf_image bs) (r \<noteq> None) st' s'"
proof -
  let ?e = "ehdr_of (take 52 bs)"
  have im: "image_of st Map.empty = Map.empty" by (simp add: image_of_def)
  have n52: "nat 52 = 52" by simp
  obtain s1 where s1: "file_read f (replicate 52 0) 52 s =
      Some (int (span 52 bs 0), put_at (replicate 52 0) 0 (slice bs 0 (span 52 bs 0)), s1)"
    "reading a0 s1 f bs (int (span 52 bs 0))" using reading_read(1) [OF r, of 52, unfolded n52] by auto
  have fail: "result a0 f bs pd Old st None False st s1" by (rule resultI [OF s1(2) _ _ u]) simp_all
  show ?thesis
  proof (cases "52 \<le> length bs")
    case False
    then have "int (span 52 bs 0) \<noteq> 52" by (simp add: span_def)
    then have "load_image pd f st s = Some (None, st, s1)" using s1(1) by (simp add: load_image_def ehdr_size_def)
    moreover have "elf_image bs = None" using False by (simp add: elf_image_def)
    ultimately show ?thesis using fail by (intro exI [of _ None] exI [of _ st] exI [of _ s1]) simp
  next
    case len: True
    have sp: "span 52 bs 0 = 52" using len by (simp add: span_def)
    have b: "put_at (replicate 52 0) 0 (slice bs 0 52) = take 52 bs" using len by (simp add: slice_def)
    have rd: "file_read f (replicate 52 0) 52 s = Some (52, take 52 bs, s1)" using s1(1) unfolding sp b by simp
    show ?thesis
    proof (cases "ehdr_ok ?e")
      case False
      then have "load_image pd f st s = Some (None, st, s1)" using rd by (simp add: load_image_def ehdr_size_def Let_def)
      moreover have "elf_image bs = None" using False by (simp add: elf_image_def Let_def)
      ultimately show ?thesis using fail by (intro exI [of _ None] exI [of _ st] exI [of _ s1]) simp
    next
      case True
      have so: "sint (e_phoff ?e) \<le> 2147483647"
        using to_s32_range [of "sint (e_phoff ?e)"] unfolding to_s32_sint by (simp add: in_s32_def)
      obtain ok st2 s2 where h: "phdr_loop pd f (sint (e_phoff ?e)) (e_phnum ?e) st s1 = Some (ok, st2, s2)"
        "result a0 f bs pd Old st (place_phdrs bs (sint (e_phoff ?e)) (e_phnum ?e) Map.empty) ok st2 s2"
        using phdr_loop_ok [OF u s1(2) ro so, of "e_phnum ?e"] unfolding im by blast
      have I: "elf_image bs = place_phdrs bs (sint (e_phoff ?e)) (e_phnum ?e) Map.empty \<bind> place_stack"
        using len True by (simp add: elf_image_def Let_def)
      obtain p2 F2 where q: "reading a0 s2 f bs p2" "same_on Old st st2" "same_env st st2" "uspace st2 pd Old F2"
        "if ok then place_phdrs bs (sint (e_phoff ?e)) (e_phnum ?e) Map.empty = Some (image_of st2 F2)
         else place_phdrs bs (sint (e_phoff ?e)) (e_phnum ?e) Map.empty = None \<or>
           mem_full st2 \<and> within F2 (place_phdrs bs (sint (e_phoff ?e)) (e_phnum ?e) Map.empty)"
        using h(2) unfolding result_def by blast
      have L: "load_image pd f st s = (if \<not> ok then Some (None, st2, s2) else do {
           (esp, st3) \<leftarrow> setup_stack pd st2; Some (map_option (\<lambda>sp. (e_entry ?e, sp)) esp, st3, s2) })"
        using rd True h(1) by (simp add: load_image_def ehdr_size_def Let_def)
      show ?thesis
      proof (cases ok)
        case False
        have "result a0 f bs pd Old st (elf_image bs) False st2 s2"
          unfolding I
        proof (rule resultI [OF q(1-4)])
          have "within F2 (place_phdrs bs (sint (e_phoff ?e)) (e_phnum ?e) Map.empty)" using q(5) False by auto
          then show "within F2 (place_phdrs bs (sint (e_phoff ?e)) (e_phnum ?e) Map.empty \<bind> place_stack)"
            by (rule within_bind) (rule place_stack_mono)
        qed (use q(5) False in auto)
        then show ?thesis using L False by (intro exI [of _ None] exI [of _ st2] exI [of _ s2]) simp
      next
        case ok: True
        have ro2: "ram_ok st2" using ro ram_ok_env [OF q(3)] by simp
        obtain esp st3 where g: "setup_stack pd st2 = Some (esp, st3)" "esp \<noteq> None \<longrightarrow> esp = Some 0xbfffffec"
          "result a0 f bs pd Old st2 (place_stack (image_of st2 F2)) (esp \<noteq> None) st3 s2" using setup_stack_ok [OF q(4,1) ro2] by blast
        have "result a0 f bs pd Old st (elf_image bs) (esp \<noteq> None) st3 s2"
          unfolding I using result_after [OF q(2,3) g(3)] q(5) ok by simp
        then show ?thesis using L ok g(1,2)
          by (intro exI [of _ "map_option (\<lambda>sp. (e_entry ?e, sp)) esp"] exI [of _ st3] exI [of _ s2]) auto
      qed
    qed
  qed
qed


lemma uspace_cr3: "uspace (st\<lparr>cr3 := c, tlb_flushes := n\<rparr>) pd Old F = uspace st pd Old F"
proof -
  let ?s = "st\<lparr>cr3 := c, tlb_flushes := n\<rparr>"
  have k: "ks ?s = ks st" by simp
  have r: "rd ?s a = rd st a" for a by (simp add: rd_def)
  have "table ?s pd i = table st pd i" for i by (simp add: table_def r)
  then have t: "tables ?s pd = tables st pd" by (simp add: tables_def)
  show ?thesis by (simp add: uspace_def same_ks [OF k] r t)
qed

definition loaded :: "u8 list \<Rightarrow> fsys \<Rightarrow> pstate \<Rightarrow> (u32 \<times> u32) option \<Rightarrow> mapping \<Rightarrow> bool" where
  "loaded name fs st' r F \<longleftrightarrow>
     (case r of
        Some (eip, esp) \<Rightarrow> \<exists>x bs. names (abs_fs fs) name = Some x \<and> store (abs_fs fs) x = Some bs \<and>
          elf_image bs = Some (image_of st' F) \<and> eip = e_entry (ehdr_of (take 52 bs)) \<and> esp = 0xbfffffec
      | None \<Rightarrow> names (abs_fs fs) name = None \<or>
          (\<exists>x bs. names (abs_fs fs) name = Some x \<and> store (abs_fs fs) x = Some bs \<and>
             (elf_image bs = None \<or> mem_full st' \<and> within F (elf_image bs))))"

lemma load_ok:
  assumes k: "kernel_ready st" and c: "fs_inv fs" and j: "length junk = 20"
  shows "\<exists>r pd st' fs'. load name junk st fs = Some (r, pd, st', fs') \<and> fs_inv fs' \<and> abs_fs fs' = abs_fs fs \<and>
    same_on (all_pages (ks st)) st st' \<and> init_page_dir st' = init_page_dir st \<and> same_pools (ks st) (ks st') \<and>
    (if pd = 0 then r = None \<and> ks st' = ks st \<and> mem_full st'
     else \<exists>F. uspace st' pd (all_pages (ks st)) F \<and> loaded name fs st' r F)"
proof -
  have k': "wf_kstate (ks st)" "init_page_dir st \<in> all_pages (ks st)" "\<forall>j<768. rd st (slot (init_page_dir st) j) = 0" "ram_ok st"
    using k by (simp_all add: kernel_ready_def)
  let ?Old = "all_pages (ks st)"
  from create_uspace [OF k'(1-3)] show ?thesis
  proof (elim disjE exE conjE)
    assume g: "pagedir_create st = Some (0, st)" "pool_full False (ks st)"
    then have "load name junk st fs = Some (None, 0, st, fs)" by (simp add: load_def file_close_def)
    then show ?thesis using c g(2) by (intro exI [of _ None] exI [of _ 0] exI [of _ st] exI [of _ fs]) (simp add: mem_full_def)
  next
    fix pd st1
    assume g: "pagedir_create st = Some (pd, st1)" "pd \<noteq> 0" "uspace st1 pd ?Old Map.empty" "same_on ?Old st st1" "same_env st st1"
    have pb: "PHYS_BASE \<le> pd" using pd_wf_page(3) [OF uspaceD(1) [OF g(3)]] .
    define st2 where "st2 = st1\<lparr>cr3 := pd - PHYS_BASE, tlb_flushes := tlb_flushes st1 + 1\<rparr>"
    have a: "process_activate pd st1 = Some st2"
      using g(2) pb by (simp add: process_activate_def pagedir_activate_def vtop_def is_kernel_vaddr_def st2_def)
    have u2: "uspace st2 pd ?Old Map.empty" unfolding st2_def uspace_cr3 by (rule g(3))
    have ro: "ram_ok st2" using k'(4) ram_ok_env [OF g(5)] by (simp add: st2_def ram_ok_def)
    have s2: "same_on ?Old st st2" using g(4) by (simp add: same_on_def st2_def rd_def)
    have i2: "init_page_dir st2 = init_page_dir st" and sp2: "same_pools (ks st) (ks st2)"
      using g(5) by (simp_all add: st2_def same_env_def)
    obtain f fs1 where o: "filesys_open name junk fs = Some (f, fs1)"
      "if f = 0 then fs_inv fs1 \<and> abs_fs fs1 = abs_fs fs \<and> names (abs_fs fs) name = None
       else \<exists>x bs. names (abs_fs fs) name = Some x \<and> store (abs_fs fs) x = Some bs \<and> reading (abs_fs fs) fs1 f bs 0"
      using reading_open [OF c j] by blast
    show ?thesis
    proof (cases "f = 0")
      case True
      then have "load name junk st fs = Some (None, pd, st2, fs1)" using g(1,2) a o(1) by (simp add: load_def file_close_def)
      then show ?thesis using o(2) True g(2) u2 s2 i2 sp2
        by (intro exI [of _ None] exI [of _ pd] exI [of _ st2] exI [of _ fs1]) (auto simp: loaded_def)
    next
      case False
      then obtain x bs where x: "names (abs_fs fs) name = Some x" "store (abs_fs fs) x = Some bs" "reading (abs_fs fs) fs1 f bs 0"
        using o(2) by auto
      obtain r st3 fs2 where l: "load_image pd f st2 fs1 = Some (r, st3, fs2)"
        "r \<noteq> None \<longrightarrow> r = Some (e_entry (ehdr_of (take 52 bs)), 0xbfffffec)"
        "result (abs_fs fs) f bs pd ?Old st2 (elf_image bs) (r \<noteq> None) st3 fs2" using load_image_ok [OF u2 x(3) ro] by blast
      obtain p F where q: "reading (abs_fs fs) fs2 f bs p" "same_on ?Old st2 st3" "same_env st2 st3" "uspace st3 pd ?Old F"
        "if r \<noteq> None then elf_image bs = Some (image_of st3 F) else elf_image bs = None \<or> mem_full st3 \<and> within F (elf_image bs)"
        using l(3) unfolding result_def by blast
      obtain fs3 where cl: "file_close f fs2 = Some fs3" "fs_inv fs3" "abs_fs fs3 = abs_fs fs" using reading_close [OF q(1)] by blast
      have "load name junk st fs = Some (r, pd, st3, fs3)" using g(1,2) a o(1) False l(1) cl(1) by (simp add: load_def)
      moreover have "loaded name fs st3 r F" using x(1,2) l(2) q(5) by (cases r) (auto simp: loaded_def)
      moreover have "same_on ?Old st st3" by (rule same_on_trans [OF s2 q(2)]) simp
      moreover have "init_page_dir st3 = init_page_dir st" using i2 q(3) by (simp add: same_env_def)
      moreover have "same_pools (ks st) (ks st3)" using same_pools_trans [OF sp2] q(3) by (simp add: same_env_def)
      ultimately show ?thesis using cl(2,3) g(2) q(4) by auto
    qed
  qed
qed

section \<open>What the image holds\<close>

lemma place_pages_bytes:
  assumes "place_pages bs w ofs rb pn n M = Some M'" "j < n" "i < 4096"
  shows "\<exists>page. M' (word_of_nat (pn + j)) = Some (page, w) \<and> length page = 4096 \<and>
    page ! i = (if 4096 * j + i < rb then bs ! (ofs + 4096 * j + i) else 0) \<and>
    (4096 * j + i < rb \<longrightarrow> ofs + 4096 * j + i < length bs)"
  using assms
proof (induction n arbitrary: ofs rb pn M j)
  case (Suc n)
  let ?k = "min rb 4096"
  obtain M1 where M1: "place_page bs w ofs ?k (word_of_nat pn) M = Some M1"
    "place_pages bs w (ofs + ?k) (rb - 4096) (pn + 1) n M1 = Some M'"
    using Suc.prems(1) by (cases "place_page bs w ofs ?k (word_of_nat pn) M") auto
  show ?case
  proof (cases j)
    case 0
    have k: "?k = 0 \<or> ofs + ?k \<le> length bs" and m: "M1 (word_of_nat pn) = Some (slice bs ofs ?k @ replicate (4096 - ?k) 0, w)"
      using M1(1) by (auto simp: place_page_def split: if_splits)
    have l: "length (slice bs ofs ?k) = ?k" using k by (auto simp: slice_def)
    have "M' (word_of_nat pn) = M1 (word_of_nat pn)" using map_leD [OF place_pages_mono [OF M1(2)] m] m by simp
    moreover have "(slice bs ofs ?k @ replicate (4096 - ?k) 0) ! i = (if i < rb then bs ! (ofs + i) else 0)"
    proof (cases "i < ?k")
      case True
      then show ?thesis using l k by (auto simp: nth_append nth_slice)
    next
      case False
      then show ?thesis using l Suc.prems(3) by (auto simp: nth_append)
    qed
    moreover have "length (slice bs ofs ?k @ replicate (4096 - ?k) 0) = 4096" using l by simp
    moreover have "i < rb \<longrightarrow> ofs + i < length bs" using k Suc.prems(3) by auto
    ultimately show ?thesis using m 0 by simp
  next
    case (Suc j')
    then have j': "j' < n" using Suc.prems(2) by simp
    obtain page where pg: "M' (word_of_nat (pn + 1 + j')) = Some (page, w)" "length page = 4096"
      "page ! i = (if 4096 * j' + i < rb - 4096 then bs ! (ofs + ?k + 4096 * j' + i) else 0)"
      "4096 * j' + i < rb - 4096 \<longrightarrow> ofs + ?k + 4096 * j' + i < length bs"
      using Suc.IH [OF M1(2) j' Suc.prems(3)] by blast
    have e1: "(4096 * j' + i < rb - 4096) = (4096 * j + i < rb)" using Suc by auto
    have e2: "4096 * j + i < rb \<Longrightarrow> ofs + ?k + 4096 * j' + i = ofs + 4096 * j + i" using Suc by simp
    have "page ! i = (if 4096 * j + i < rb then bs ! (ofs + 4096 * j + i) else 0)"
      unfolding pg(3) e1 by (intro if_cong refl arg_cong [where f = "(!) bs"] e2)
    moreover have "4096 * j + i < rb \<longrightarrow> ofs + 4096 * j + i < length bs" using pg(4) e1 e2 by metis
    moreover have "pn + 1 + j' = pn + j" using Suc by simp
    ultimately show ?thesis using pg(1,2) by metis
  qed
qed simp


lemma place_pages_dom:
  "place_pages bs w ofs rb pn n M = Some M' \<Longrightarrow> M' q \<noteq> None \<Longrightarrow> M q \<noteq> None \<or> (\<exists>j<n. q = word_of_nat (pn + j))"
proof (induction n arbitrary: ofs rb pn M)
  case (Suc n)
  then obtain M1 where M1: "place_page bs w ofs (min rb 4096) (word_of_nat pn) M = Some M1"
    "place_pages bs w (ofs + min rb 4096) (rb - 4096) (pn + 1) n M1 = Some M'"
    by (cases "place_page bs w ofs (min rb 4096) (word_of_nat pn) M") auto
  from Suc.IH [OF M1(2) Suc.prems(2)] show ?case
  proof
    assume "M1 q \<noteq> None"
    then have "M q \<noteq> None \<or> q = word_of_nat (pn + 0)" using M1(1) by (auto simp: place_page_def split: if_splits)
    then show ?thesis by blast
  next
    assume "\<exists>j<n. q = word_of_nat (pn + 1 + j)"
    then obtain j where "j < n" "q = word_of_nat (pn + Suc j)" by auto
    then show ?thesis by blast
  qed
qed simp

text \<open>The bytes of one segment.\<close>

definition segment_in :: "u8 list \<Rightarrow> Elf32_Phdr \<Rightarrow> image \<Rightarrow> bool" where
  "segment_in bs ph M \<longleftrightarrow> (\<forall>a<unat (p_memsz ph). \<exists>page. M (word_of_nat ((unat (p_vaddr ph) + a) div 4096)) = Some (page, p_flags ph AND PF_W \<noteq> 0) \<and>
     page ! ((unat (p_vaddr ph) + a) mod 4096) = (if a < unat (p_filesz ph) then bs ! (unat (p_offset ph) + a) else 0) \<and>
     (a < unat (p_filesz ph) \<longrightarrow> unat (p_offset ph) + a < length bs))"

lemma segment_in_mono: "segment_in bs ph M \<Longrightarrow> M \<subseteq>\<^sub>m M' \<Longrightarrow> segment_in bs ph M'"
  unfolding segment_in_def
proof (intro allI impI, goal_cases)
  case (1 a)
  then obtain page where "M (word_of_nat ((unat (p_vaddr ph) + a) div 4096)) = Some (page, p_flags ph AND PF_W \<noteq> 0)"
    "page ! ((unat (p_vaddr ph) + a) mod 4096) = (if a < unat (p_filesz ph) then bs ! (unat (p_offset ph) + a) else 0)"
    "a < unat (p_filesz ph) \<longrightarrow> unat (p_offset ph) + a < length bs" by blast
  then show ?case using map_leD [OF 1(2)] by blast
qed

lemma place_segment_in:
  assumes "place_segment bs ph M = Some M'" "validate_segment ph (int (length bs))" "length bs < 2147483648"
  shows "segment_in bs ph M'" "M \<subseteq>\<^sub>m M'" "M 0 = None \<Longrightarrow> M' 0 = None"
proof -
  note V = valid_segment [OF assms(2,3)]
  note P = assms(1) [unfolded place_segment_def]
  show "M \<subseteq>\<^sub>m M'" by (rule place_pages_mono [OF P])
  let ?v = "unat (p_vaddr ph)" and ?o = "unat (p_offset ph)"
  show "segment_in bs ph M'"
    unfolding segment_in_def
  proof (intro allI impI)
    fix a assume a: "a < unat (p_memsz ph)"
    define j where "j = (?v + a) div 4096 - ?v div 4096"
    define i where "i = (?v + a) mod 4096"
    have le: "?v div 4096 \<le> (?v + a) div 4096" by (rule div_le_mono) simp
    have pj: "?v div 4096 + j = (?v + a) div 4096" using le by (simp add: j_def)
    have "4096 * ((?v + a) div 4096) + i = ?v + a" "4096 * (?v div 4096) + ?v mod 4096 = ?v" by (simp_all add: i_def)
    then have ji: "4096 * j + i = ?v mod 4096 + a" using pj by linarith
    have "?v mod 4096 + unat (p_memsz ph) \<le> 4096 * seg_pages ph" unfolding seg_pages_def by linarith
    then have "4096 * j < 4096 * seg_pages ph" using ji a by linarith
    then have j: "j < seg_pages ph" by simp
    have i: "i < 4096" by (simp add: i_def)
    obtain page where pg: "M' (word_of_nat (?v div 4096 + j)) = Some (page, p_flags ph AND PF_W \<noteq> 0)"
      "page ! i = (if 4096 * j + i < seg_read ph then bs ! (?o div 4096 * 4096 + 4096 * j + i) else 0)"
      "4096 * j + i < seg_read ph \<longrightarrow> ?o div 4096 * 4096 + 4096 * j + i < length bs"
      using place_pages_bytes [OF P j i] by blast
    have "?o div 4096 * 4096 + ?o mod 4096 = ?o" by simp
    then have "?o div 4096 * 4096 + 4096 * j + i = ?o + a" using ji V(1) by linarith
    moreover have "4096 * j + i < seg_read ph \<longleftrightarrow> a < unat (p_filesz ph)"
      unfolding ji seg_read_def by (simp add: unat_eq_zero word_gt_0)
    ultimately have "page ! i = (if a < unat (p_filesz ph) then bs ! (?o + a) else 0)"
      "a < unat (p_filesz ph) \<longrightarrow> ?o + a < length bs" using pg(2,3) by simp_all
    then show "\<exists>page. M' (word_of_nat ((?v + a) div 4096)) = Some (page, p_flags ph AND PF_W \<noteq> 0) \<and>
       page ! ((?v + a) mod 4096) = (if a < unat (p_filesz ph) then bs ! (?o + a) else 0) \<and>
       (a < unat (p_filesz ph) \<longrightarrow> ?o + a < length bs)"
      using pg(1) pj by (auto simp: i_def)
  qed
  show "M' 0 = None" if m: "M 0 = None"
  proof (rule ccontr)
    assume "M' 0 \<noteq> None"
    then obtain j where j: "j < seg_pages ph" "0 = (word_of_nat (?v div 4096 + j) :: u32)" using place_pages_dom [OF P] m by blast
    have b: "?v div 4096 + seg_pages ph \<le> 786432" unfolding seg_pages_def by (rule pages_bound [OF V(5)])
    have "unat (word_of_nat (?v div 4096 + j) :: u32) = ?v div 4096 + j" by (rule unat_word_of_nat_32) (use b j(1) in linarith)
    then have "?v div 4096 + j = 0" using j(2) by simp
    moreover have "1 \<le> ?v div 4096" using div_le_mono [OF V(6), of 4096] by simp
    ultimately show False by simp
  qed
qed

lemma place_phdrs_in:
  assumes "place_phdrs bs ofs n M = Some M'" "length bs < 2147483648"
  shows "M \<subseteq>\<^sub>m M' \<and> (M 0 = None \<longrightarrow> M' 0 = None) \<and> (\<forall>i<n. 0 \<le> ofs \<and> nat ofs + 32 * i + 32 \<le> length bs \<and>
    (let ph = phdr_of (slice bs (nat ofs + 32 * i) 32) in
      p_type ph \<noteq> PT_DYNAMIC \<and> p_type ph \<noteq> PT_INTERP \<and> p_type ph \<noteq> PT_SHLIB \<and>
      (p_type ph = PT_LOAD \<longrightarrow> validate_segment ph (int (length bs)) \<and> segment_in bs ph M')))"
  using assms(1)
proof (induction n arbitrary: ofs M)
  case (Suc n)
  let ?ph = "phdr_of (slice bs (nat ofs) 32)"
  have o: "0 \<le> ofs" "ofs + 32 \<le> int (length bs)" using Suc.prems by (simp_all split: if_splits)
  then obtain M1 where M1: "place_phdr bs ?ph M = Some M1" "place_phdrs bs (ofs + 32) n M1 = Some M'"
    using Suc.prems by (cases "place_phdr bs ?ph M") auto
  have h: "p_type ?ph \<noteq> PT_DYNAMIC \<and> p_type ?ph \<noteq> PT_INTERP \<and> p_type ?ph \<noteq> PT_SHLIB \<and> M \<subseteq>\<^sub>m M1 \<and> (M 0 = None \<longrightarrow> M1 0 = None) \<and>
      (p_type ?ph = PT_LOAD \<longrightarrow> validate_segment ?ph (int (length bs)) \<and> segment_in bs ?ph M1)"
  proof (cases "p_type ?ph = PT_LOAD")
    case True
    then have v: "validate_segment ?ph (int (length bs))" and s: "place_segment bs ?ph M = Some M1"
      using M1(1) by (auto simp: place_phdr_def split: if_splits)
    show ?thesis using place_segment_in [OF s v assms(2)] v True by (simp add: PT_LOAD_def PT_DYNAMIC_def PT_INTERP_def PT_SHLIB_def)
  next
    case False
    then show ?thesis using M1(1) by (auto simp: place_phdr_def split: if_splits)
  qed
  note IH = Suc.IH [OF M1(2)]
  have sh: "nat (ofs + 32) + 32 * i = nat ofs + 32 * Suc i" for i using o(1) by simp
  have le: "M1 \<subseteq>\<^sub>m M'" using IH by blast
  show ?case
  proof (intro conjI allI impI)
    show "M \<subseteq>\<^sub>m M'" using h le map_le_trans by blast
    show "M' 0 = None" if "M 0 = None" using h IH that by blast
  next
    fix i assume i: "i < Suc n"
    show "0 \<le> ofs" by (rule o(1))
    show "nat ofs + 32 * i + 32 \<le> length bs"
    proof (cases i)
      case 0
      then show ?thesis using o by simp
    next
      case (Suc i')
      then show ?thesis using IH i sh [of i'] by auto
    qed
    show "let ph = phdr_of (slice bs (nat ofs + 32 * i) 32) in
      p_type ph \<noteq> PT_DYNAMIC \<and> p_type ph \<noteq> PT_INTERP \<and> p_type ph \<noteq> PT_SHLIB \<and>
      (p_type ph = PT_LOAD \<longrightarrow> validate_segment ph (int (length bs)) \<and> segment_in bs ph M')"
    proof (cases i)
      case 0
      then show ?thesis using h segment_in_mono [OF _ le] by (simp add: Let_def)
    next
      case (Suc i')
      then have "i' < n" using i by simp
      then show ?thesis using IH unfolding Suc sh [symmetric] by blast
    qed
  qed
qed simp


text \<open>Every page of the image belongs to a segment or to the stack.\<close>

definition in_segment :: "Elf32_Phdr \<Rightarrow> u32 \<Rightarrow> bool" where
  "in_segment ph q \<longleftrightarrow> p_type ph = PT_LOAD \<and> unat (p_vaddr ph) div 4096 \<le> unat q \<and>
     unat q \<le> (unat (p_vaddr ph) + unat (p_memsz ph) - 1) div 4096"

lemma seg_pages_last:
  assumes "j < (v mod 4096 + m + 4095) div 4096" "0 < m"
  shows "v div 4096 + j \<le> (v + m - 1) div (4096 :: nat)"
proof -
  define q r where "q = v div 4096" and "r = v mod 4096"
  have v: "v = 4096 * q + r" by (simp add: q_def r_def)
  have "Suc j \<le> (r + m + 4095) div 4096" using assms(1) unfolding r_def by (rule Suc_leI)
  then have "Suc j * 4096 \<le> (r + m + 4095) div 4096 * 4096" by (rule mult_le_mono1)
  also have "\<dots> \<le> r + m + 4095" by (rule div_times_less_eq_dividend)
  finally have "4096 * Suc j \<le> r + m + 4095" by (simp only: mult.commute)
  then have "4096 * (q + j) \<le> v + m - 1" using assms(2) v by simp
  then have "4096 * (q + j) div 4096 \<le> (v + m - 1) div 4096" by (rule div_le_mono)
  then show ?thesis by (simp add: q_def)
qed

lemma place_phdrs_dom:
  assumes "place_phdrs bs ofs n M = Some M'" "M' q \<noteq> None" "length bs < 2147483648"
  shows "M q \<noteq> None \<or> (\<exists>i<n. in_segment (phdr_of (slice bs (nat ofs + 32 * i) 32)) q)"
  using assms(1,2)
proof (induction n arbitrary: ofs M)
  case (Suc n)
  let ?ph = "phdr_of (slice bs (nat ofs) 32)"
  have o: "0 \<le> ofs" using Suc.prems(1) by (simp split: if_splits)
  obtain M1 where M1: "place_phdr bs ?ph M = Some M1" "place_phdrs bs (ofs + 32) n M1 = Some M'"
    using Suc.prems(1) by (cases "place_phdr bs ?ph M") (auto split: if_splits)
  have sh: "nat (ofs + 32) + 32 * i = nat ofs + 32 * Suc i" for i using o by simp
  from Suc.IH [OF M1(2) Suc.prems(2)] show ?case
  proof
    assume q: "M1 q \<noteq> None"
    have "M q \<noteq> None \<or> in_segment ?ph q"
    proof (cases "p_type ?ph = PT_LOAD")
      case True
      then have v: "validate_segment ?ph (int (length bs))" and p: "place_segment bs ?ph M = Some M1"
        using M1(1) by (auto simp: place_phdr_def split: if_splits)
      from place_pages_dom [OF p [unfolded place_segment_def] q] show ?thesis
      proof
        assume "\<exists>j < seg_pages ?ph. q = word_of_nat (unat (p_vaddr ?ph) div 4096 + j)"
        then obtain j where j: "j < seg_pages ?ph" "q = word_of_nat (unat (p_vaddr ?ph) div 4096 + j)" by blast
        have "unat (p_vaddr ?ph) div 4096 + seg_pages ?ph \<le> 786432"
          unfolding seg_pages_def by (rule pages_bound [OF valid_segment(5) [OF v assms(3)]])
        then have u: "unat q = unat (p_vaddr ?ph) div 4096 + j"
          unfolding j(2) by (intro unat_word_of_nat_32) (use j(1) in linarith)
        have "0 < unat (p_memsz ?ph)" using v by (simp add: validate_segment_def unat_gt_0 split: if_splits)
        then have "unat q \<le> (unat (p_vaddr ?ph) + unat (p_memsz ?ph) - 1) div 4096"
          unfolding u by (rule seg_pages_last [OF j(1) [unfolded seg_pages_def]])
        then show ?thesis using True u by (simp add: in_segment_def)
      qed simp
    next
      case False
      then show ?thesis using M1(1) q by (auto simp: place_phdr_def split: if_splits)
    qed
    then show ?thesis by (metis add.right_neutral mult_0_right zero_less_Suc)
  next
    assume "\<exists>i<n. in_segment (phdr_of (slice bs (nat (ofs + 32) + 32 * i) 32)) q"
    then obtain i where "i < n" "in_segment (phdr_of (slice bs (nat ofs + 32 * Suc i) 32)) q" unfolding sh by blast
    then show ?thesis by blast
  qed
qed simp

lemma elf_image_parts:
  assumes "elf_image bs = Some M"
  defines "e \<equiv> ehdr_of (take 52 bs)"
  obtains M1 where "place_phdrs bs (sint (e_phoff e)) (e_phnum e) Map.empty = Some M1"
    "M = M1(stack_page \<mapsto> (replicate 4096 0, True))" "M1 \<subseteq>\<^sub>m M"
proof -
  obtain M1 where M1: "place_phdrs bs (sint (e_phoff e)) (e_phnum e) Map.empty = Some M1" "place_stack M1 = Some M"
    using assms(1) unfolding e_def
    by (cases "place_phdrs bs (sint (e_phoff (ehdr_of (take 52 bs)))) (e_phnum (ehdr_of (take 52 bs))) Map.empty")
      (auto simp: elf_image_def Let_def split: if_splits)
  then show ?thesis using that place_stack_mono by (auto simp: place_stack_def split: if_splits)
qed

section \<open>What the process sees\<close>

text \<open>The byte at a user address, read through the page directory, and whether it may be written.\<close>

definition user_byte :: "pstate \<Rightarrow> u32 \<Rightarrow> u32 \<Rightarrow> (u8 \<times> bool) option" where
  "user_byte st pd va =
     (case translate st pd va of
        None \<Rightarrow> None
      | Some (frame, w) \<Rightarrow> Some (page_bytes (ram (ks st)) (frame + PHYS_BASE) ! unat (pg_ofs va), w))"

lemma user_byte_image:
  assumes "uspace st pd Old F" "is_user_vaddr va"
  shows "user_byte st pd va = map_option (\<lambda>(page, w). (page ! unat (pg_ofs va), w)) (image_of st F (pg_no va))"
  unfolding user_byte_def image_of_def uspaceD(7) [OF assms]
  by (auto split: option.split)

lemma user_word:
  assumes "n < 3221225472"
  shows "is_user_vaddr (word_of_nat n)" "pg_no (word_of_nat n) = word_of_nat (n div 4096)" "unat (pg_ofs (word_of_nat n)) = n mod 4096"
proof -
  have u: "unat (word_of_nat n :: u32) = n" using assms by (intro unat_word_of_nat_32) simp
  show "is_user_vaddr (word_of_nat n)" using u assms by (simp add: is_user_vaddr_def PHYS_BASE_def word_less_nat_alt)
  have "n div 4096 < 4294967296" using assms by linarith
  then have "unat (word_of_nat (n div 4096) :: u32) = n div 4096" by (rule unat_word_of_nat_32)
  then show "pg_no (word_of_nat n) = word_of_nat (n div 4096)" by (simp add: word_unat_eq_iff unat_pg_no u)
  show "unat (pg_ofs (word_of_nat n)) = n mod 4096" by (simp add: unat_pg_ofs u)
qed

text \<open>Enough free pages for a page directory, every page table and the image make \<open>load\<close> succeed.\<close>

lemma full_card:
  assumes "pool_full u k" "wf_kstate k"
  shows "bit_cnt (used_map (get_pool u k)) \<le> card (all_pages k)"
proof -
  let ?q = "get_pool u k"
  have "inj_on (page_at ?q) {..<bit_cnt (used_map ?q)}"
  proof (rule inj_onI)
    fix i j assume i: "i \<in> {..<bit_cnt (used_map ?q)}" and j: "j \<in> {..<bit_cnt (used_map ?q)}" and e: "page_at ?q i = page_at ?q j"
    note wq = wf_get_pool [OF assms(2), of u]
    have "unat (pool_base ?q) + 4096 * i = unat (pool_base ?q) + 4096 * j"
      using unat_page_at [OF wq, of i] unat_page_at [OF wq, of j] i j unfolding e lessThan_iff by metis
    then show "i = j" by simp
  qed
  then have "bit_cnt (used_map ?q) = card (page_at ?q ` {..<bit_cnt (used_map ?q)})" by (simp add: card_image)
  also have "\<dots> \<le> card (all_pages k)"
    using assms(1) by (intro card_mono finite) (auto simp: pool_full_def in_pool_def)
  finally show ?thesis .
qed

lemma uspace_card:
  assumes "uspace st pd Old F" "dom F \<subseteq> dom M"
  shows "card (all_pages (ks st)) \<le> card Old + 769 + card (dom M)"
proof -
  have "tables st pd = (\<lambda>i. the (table st pd i)) ` {i. i < 768 \<and> table st pd i \<noteq> None}" by (force simp: tables_def)
  then have "card (tables st pd) \<le> card {i. i < 768 \<and> table st pd i \<noteq> None}" by (simp add: card_image_le)
  also have "\<dots> \<le> card {..<768 :: nat}" by (rule card_mono) auto
  finally have t: "card (tables st pd) \<le> 768" by simp
  have "frames_of F = (\<lambda>n. fst (the (F n))) ` dom F" by (force simp: frames_of_def)
  then have "card (frames_of F) \<le> card (dom F)" by (simp add: card_image_le)
  also have "\<dots> \<le> card (dom M)" using assms(2) by (intro card_mono finite)
  finally have f: "card (frames_of F) \<le> card (dom M)" .
  have "card (all_pages (ks st)) \<le> card (Old \<union> insert pd (tables st pd)) + card (frames_of F)"
    unfolding uspaceD(10) [OF assms(1)] by (rule card_Un_le)
  also have "card (Old \<union> insert pd (tables st pd)) \<le> card Old + card (insert pd (tables st pd))" by (rule card_Un_le)
  also have "card (insert pd (tables st pd)) \<le> Suc (card (tables st pd))" by (rule card_insert_le_m1) simp_all
  finally show ?thesis using t f by simp
qed

lemma load_fits:
  assumes "kernel_ready st" "fs_inv fs" "length junk = 20"
    and bs: "names (abs_fs fs) name = Some x" "store (abs_fs fs) x = Some bs" "elf_image bs = Some M"
    and room: "\<forall>u. card (all_pages (ks st)) + 769 + card (dom M) < bit_cnt (used_map (get_pool u (ks st)))"
  shows "\<exists>eip esp pd st' fs'. load name junk st fs = Some (Some (eip, esp), pd, st', fs')"
proof -
  obtain r pd st' fs' where l: "load name junk st fs = Some (r, pd, st', fs')" "same_pools (ks st) (ks st')"
    "if pd = 0 then r = None \<and> ks st' = ks st \<and> mem_full st'
     else \<exists>F. uspace st' pd (all_pages (ks st)) F \<and> loaded name fs st' r F"
    using load_ok [OF assms(1-3), of name] by blast
  have no: "\<not> mem_full st'" if "card (all_pages (ks st')) \<le> card (all_pages (ks st)) + 769 + card (dom M)" "wf_kstate (ks st')"
  proof
    assume "mem_full st'"
    then obtain u where "pool_full u (ks st')" by (auto simp: mem_full_def)
    then have "bit_cnt (used_map (get_pool u (ks st'))) \<le> card (all_pages (ks st'))" using that(2) by (rule full_card)
    moreover have "bit_cnt (used_map (get_pool u (ks st'))) = bit_cnt (used_map (get_pool u (ks st)))"
      using l(2) by (simp add: same_pools_def)
    ultimately show False using room that(1) by (metis leD order_trans)
  qed
  have "r \<noteq> None"
  proof
    assume r: "r = None"
    have "wf_kstate (ks st)" using assms(1) by (simp add: kernel_ready_def)
    then have "pd \<noteq> 0" using l(3) no by auto
    then obtain F where F: "uspace st' pd (all_pages (ks st)) F" "mem_full st'" "within F (Some M)"
      using l(3) r bs by (auto simp: loaded_def)
    show False using no [OF uspace_card [OF F(1)] uspaceD(2) [OF F(1)]] F(2,3) by (simp add: within_def)
  qed
  then show ?thesis using l(1) by auto
qed

section \<open>Properties\<close>

text \<open>An executable of 84 bytes with one segment.\<close>

lemma some_file_system: "\<exists>fs. fs_inv fs"
  using format_ok [of boot_demo 1 "replicate 4 0"] boot_demo_ok by auto

definition demo_elf :: "u8 list" where
  "demo_elf = [0x7f, 0x45, 0x4c, 0x46, 1, 1, 1, 0, 0, 0, 0, 0, 0, 0, 0, 0, 2, 0, 3, 0, 1, 0, 0, 0, 0x54, 0x80, 4, 8,
     52, 0, 0, 0, 0, 0, 0, 0, 0, 0, 0, 0, 52, 0, 32, 0, 1, 0, 0, 0, 0, 0, 0, 0,
     1, 0, 0, 0, 0, 0, 0, 0, 0, 0x80, 4, 8, 0, 0x80, 4, 8, 84, 0, 0, 0, 100, 0, 0, 0, 5, 0, 0, 0, 0, 16, 0, 0]"

lemma demo_elf_image: "\<exists>M. elf_image demo_elf = Some M"
proof -
  have l: "length demo_elf = 84" by (simp add: demo_elf_def)
  have e: "ehdr_ok (ehdr_of (take 52 demo_elf))" by code_simp
  have o: "sint (e_phoff (ehdr_of (take 52 demo_elf))) = 52" "e_phnum (ehdr_of (take 52 demo_elf)) = 1" by code_simp+
  let ?ph = "phdr_of (slice demo_elf 52 32)"
  have t: "p_type ?ph = PT_LOAD" "p_offset ?ph = 0" "p_vaddr ?ph = 0x8048000" "p_filesz ?ph = 84" "p_memsz ?ph = 100" by code_simp+
  have v: "validate_segment ?ph 84" unfolding validate_segment_def t by code_simp
  have s: "seg_read ?ph = 84" "seg_pages ?ph = 1" by (simp_all add: seg_read_def seg_pages_def t)
  obtain M where M: "place_segment demo_elf ?ph Map.empty = Some M"
    unfolding place_segment_def s t One_nat_def place_pages.simps by (simp add: place_page_def l)
  have "place_phdr demo_elf ?ph Map.empty = Some M"
    using t(1) v M by (simp add: place_phdr_def l PT_LOAD_def PT_DYNAMIC_def PT_INTERP_def PT_SHLIB_def)
  then have p: "place_phdrs demo_elf 52 1 Map.empty = Some M" by (simp add: l)
  have "M stack_page = None"
  proof (rule ccontr)
    assume "M stack_page \<noteq> None"
    then have "\<exists>j<1. stack_page = word_of_nat (unat (p_vaddr ?ph) div 4096 + j)"
      using place_pages_dom [OF M [unfolded place_segment_def], of stack_page] unfolding s by simp
    then show False by (simp add: t stack_page_def)
  qed
  then have "place_stack M \<noteq> None" by (simp add: place_stack_def)
  then show ?thesis using l e o p by (auto simp: elf_image_def Let_def)
qed

text \<open>A file system that holds the executable, made by the code's own calls.\<close>

lemma demo_program:
  "\<exists>fs x. fs_inv fs \<and> names (abs_fs fs) [97] = Some x \<and> store (abs_fs fs) x = Some demo_elf"
proof -
  let ?junk = "replicate 20 (0 :: u8)"
  have j: "length ?junk = 20" by simp
  obtain s where s: "fs_inv s" "abs_handles s = Map.empty" "root_content s = replicate 320 0" "fs_size s = 100"
    "card (bm_used (free_map s)) \<le> 3 + (byte_cnt (fs_size s) + 511) div 512"
    using format_ok [of boot_demo 1 "replicate 4 0"] boot_demo_ok by auto
  let ?U = "bm_used (free_map s)"
  have U: "finite ?U" by (simp add: bm_used_def)
  have "byte_cnt (fs_size s) = 16" unfolding s(4) by (simp add: byte_cnt_def wrap32_less)
  then have "card ?U \<le> 4" using s(5) by simp
  note U = U this
  have run: "\<exists>k. free_run s V 1 k" if "finite V" "card V < 100" for V
  proof -
    have "\<not> {..<100 :: nat} \<subseteq> V" using that card_mono [of V "{..<100 :: nat}"] by auto
    then obtain k where "k < 100" "k \<notin> V" by auto
    then show ?thesis by (intro exI [of _ k]) (simp add: free_run_def s(4))
  qed
  define k where "k = (LEAST y. free_run s ?U 1 y)"
  have k: "free_run s ?U 1 k" "\<forall>y. free_run s ?U 1 y \<longrightarrow> k \<le> y"
    using LeastI_ex [OF run [OF U(1)]] U(2) Least_le [of "free_run s ?U 1"] by (auto simp: k_def)
  have "card (insert k ?U) < 100" using card_insert_le_m1 [of 6 ?U k] U by simp
  then have "\<exists>j. free_run s (insert k ?U) 1 j" using U(1) by (intro run) simp_all
  then have c: "creatable s [97] 84"
    unfolding creatable_first [OF k] s(3) by (auto simp: name_ok_def ents_def intro: exI [of _ 0])
  have l1: "legal (Create [97] 84) (abs_fs s)" by simp
  obtain s1 where s1: "fs_inv s1" "astep (Create [97] 84) (Done True) (abs_fs s) (abs_fs s1)"
    using filesys_refines_op [OF s(1) l1 j] c by auto
  have h0: "handles (abs_fs s) = Map.empty" using s(2) by (simp add: abs_fs_def gc_def)
  from s1(2) obtain x where x: "abs_fs s1 = (abs_fs s)\<lparr>names := (names (abs_fs s))([97] \<mapsto> x),
      store := (store (abs_fs s))(x \<mapsto> replicate (nat 84) 0)\<rparr>"
    by (cases rule: astep.cases) auto
  have l2: "legal (Open [97]) (abs_fs s1)" by simp
  obtain r s2 where s2: "fs_inv s2" "astep (Open [97]) r (abs_fs s1) (abs_fs s2)"
    using filesys_refines_op [OF s1(1) l2 j] by blast
  from s2(2) obtain f where f: "abs_fs s2 = (abs_fs s1)\<lparr>handles := [f \<mapsto> (x, 0, False)]\<rparr>"
    by (cases rule: astep.cases) (use x h0 in \<open>auto\<close>)
  have l3: "legal (Write f demo_elf) (abs_fs s2)" using f by simp
  obtain r' s3 where s3: "fs_inv s3" "astep (Write f demo_elf) r' (abs_fs s2) (abs_fs s3)"
    using filesys_refines_op [OF s2(1) l3 j] by blast
  have len: "length demo_elf = 84" by (simp add: demo_elf_def)
  have d: "\<not> denied (abs_fs s2) x" using f by (simp add: denied_def)
  have "store (abs_fs s3) x = Some (put_at (replicate 84 0) 0 (take 84 demo_elf)) \<and> names (abs_fs s3) [97] = Some x"
    using s3(2) by (cases rule: astep.cases) (use f x d len in \<open>auto simp: span_def\<close>)
  moreover have "put_at (replicate 84 0) 0 (take 84 demo_elf) = demo_elf" using len by (simp add: put_at_def)
  ultimately show ?thesis using s3(1) by auto
qed

text \<open>A kernel with 1024 pages in either pool, one of them in use.\<close>

definition big_pools :: kstate where
  "big_pools =
     \<lparr>kernel_pool = \<lparr>used_map = \<lparr>bit_cnt = 1024, bits = 1 # replicate 31 0\<rparr>, pool_base = 0xc0101000\<rparr>,
      user_pool = \<lparr>used_map = \<lparr>bit_cnt = 1024, bits = replicate 32 0\<rparr>, pool_base = 0xc0502000\<rparr>,
      ram = (\<lambda>_. 0)\<rparr>"

definition big_pd :: pstate where
  "big_pd = \<lparr>ks = big_pools, cr3 = 0x101000, tlb_flushes = 0, init_page_dir = 0xc0101000, init_ram_pages = 4096\<rparr>"

lemma big_used:
  "bm_used \<lparr>bit_cnt = 1024, bits = 1 # replicate 31 0\<rparr> = {0}" "bm_used \<lparr>bit_cnt = 1024, bits = replicate 32 0\<rparr> = {}"
proof -
  have "bit ((1 # replicate 31 0) ! (i div 32) :: u32) (i mod 32) \<longleftrightarrow> i = 0" if "i < 1024" for i
  proof (cases "i div 32 = 0")
    case True
    then show ?thesis by (auto simp: bit_1_iff div_eq_0_iff)
  next
    case False
    then have "0 < i" by (cases i) auto
    moreover have "i div 32 < 32" using that by (simp add: div_less_iff_less_mult)
    ultimately show ?thesis using False by (simp add: nth_Cons' )
  qed
  then show "bm_used \<lparr>bit_cnt = 1024, bits = 1 # replicate 31 0\<rparr> = {0}" by (auto simp: bm_used_def nth_bm_abs)
  show "bm_used \<lparr>bit_cnt = 1024, bits = replicate 32 0\<rparr> = {}" by (auto simp: bm_used_def nth_bm_abs div_less_iff_less_mult)
qed

lemma big_pages: "all_pages (ks big_pd) = {0xc0101000}"
  by (simp add: all_pages_def pool_pages_def big_pd_def big_pools_def big_used page_at_def)

lemma big_pd_ready: "kernel_ready big_pd"
proof -
  have "wf_kstate big_pools"
    by (simp add: wf_kstate_def wf_pool_def big_pools_def bm_wf_def aligned_def PHYS_BASE_def pool_end_def elem_cnt_def)
  then show ?thesis
    using big_pages by (simp add: kernel_ready_def) (simp add: rd_def big_pd_def big_pools_def ram_ok_def pool_end_def)
qed

lemma demo_elf_headers:
  "e_phnum (ehdr_of (take 52 demo_elf)) = 1" "nat (sint (e_phoff (ehdr_of (take 52 demo_elf)))) = 52"
  "p_type (phdr_of (slice demo_elf 52 32)) = PT_LOAD" "p_vaddr (phdr_of (slice demo_elf 52 32)) = 0x8048000"
  "p_offset (phdr_of (slice demo_elf 52 32)) = 0" "p_filesz (phdr_of (slice demo_elf 52 32)) = 84"
  "p_memsz (phdr_of (slice demo_elf 52 32)) = 100" "p_flags (phdr_of (slice demo_elf 52 32)) AND PF_W = 0"
  "e_entry (ehdr_of (take 52 demo_elf)) = 0x8048054"
  by code_simp+

lemma demo_image_pages:
  assumes "elf_image demo_elf = Some M"
  shows "card (dom M) \<le> 2"
proof -
  have l: "length demo_elf < 2147483648" by (simp add: demo_elf_def)
  obtain M1 where M1: "place_phdrs demo_elf (sint (e_phoff (ehdr_of (take 52 demo_elf)))) 1 Map.empty = Some M1"
    "M = M1(stack_page \<mapsto> (replicate 4096 0, True))" using elf_image_parts [OF assms] unfolding demo_elf_headers(1) by blast
  have "q = stack_page \<or> q = 0x8048" if "M q \<noteq> None" for q
  proof (cases "q = stack_page")
    case False
    then have "in_segment (phdr_of (slice demo_elf 52 32)) q"
      using place_phdrs_dom [OF M1(1) _ l, of q] that M1(2) by (simp add: demo_elf_headers(2))
    then have "unat q = 32840" by (simp add: in_segment_def demo_elf_headers)
    then show ?thesis by (simp add: word_unat_eq_iff)
  qed simp
  then have "dom M \<subseteq> {stack_page, 0x8048}" by blast
  then have "card (dom M) \<le> card {stack_page, 0x8048 :: u32}" by (rule card_mono [rotated]) simp
  also have "\<dots> \<le> 2" by (simp add: card_insert_if)
  finally show ?thesis .
qed

lemma demo_load:
  "\<exists>fs x eip esp pd st' fs'. fs_inv fs \<and> names (abs_fs fs) [97] = Some x \<and> store (abs_fs fs) x = Some demo_elf \<and>
     load [97] (replicate 20 0) big_pd fs = Some (Some (eip, esp), pd, st', fs')"
proof -
  obtain fs x where fs: "fs_inv fs" "names (abs_fs fs) [97] = Some x" "store (abs_fs fs) x = Some demo_elf"
    using demo_program by blast
  obtain M where M: "elf_image demo_elf = Some M" using demo_elf_image by blast
  have j: "length (replicate 20 (0 :: u8)) = 20" by simp
  have "\<forall>u. card (all_pages (ks big_pd)) + 769 + card (dom M) < bit_cnt (used_map (get_pool u (ks big_pd)))"
    using demo_image_pages [OF M] unfolding big_pages by (simp add: get_pool_def big_pd_def big_pools_def)
  then show ?thesis using load_fits [OF big_pd_ready fs(1) j fs(2,3) M] fs by blast
qed

text \<open>
  C10. \<open>load\<close> never panics, whatever the file holds. It builds exactly the image that the executable describes,
  in pages that were free, with the entry point of the header and the fixed stack pointer; it fails only when
  there is no such file, the file describes no image (bad header, bad or overlapping segments, a file cut
  short) or a pool of pages is full while nothing but pages of the image is mapped. The file system is as before,
  and no page that was allocated changes. The allocations of the file system (\<open>malloc\<close>, \<open>calloc\<close>) are taken
  to succeed, as everywhere under \<open>fs_inv\<close>; those of pages may fail.
\<close>

theorem load_correct:
  assumes "kernel_ready st" "fs_inv fs" "length junk = 20"
  shows "\<exists>r pd st' fs'. load name junk st fs = Some (r, pd, st', fs') \<and> fs_inv fs' \<and> abs_fs fs' = abs_fs fs \<and>
    same_on (all_pages (ks st)) st st' \<and>
    (if pd = 0 then r = None \<and> mem_full st'
     else \<exists>F. uspace st' pd (all_pages (ks st)) F \<and>
       (case r of
          Some (eip, esp) \<Rightarrow> \<exists>x bs. names (abs_fs fs) name = Some x \<and> store (abs_fs fs) x = Some bs \<and>
            elf_image bs = Some (image_of st' F) \<and> eip = e_entry (ehdr_of (take 52 bs)) \<and> esp = 0xbfffffec
        | None \<Rightarrow> names (abs_fs fs) name = None \<or>
            (\<exists>x bs. names (abs_fs fs) name = Some x \<and> store (abs_fs fs) x = Some bs \<and>
               (elf_image bs = None \<or> mem_full st' \<and> within F (elf_image bs)))))"
  using load_ok [OF assms, of name] unfolding loaded_def by (elim exE conjE) (intro exI conjI, assumption+, simp split: if_splits)

theorem load_correct_witness:
  "\<exists>fs eip esp pd st' fs' F. load [97] (replicate 20 0) big_pd fs = Some (Some (eip, esp), pd, st', fs') \<and>
     abs_fs fs' = abs_fs fs \<and> elf_image demo_elf = Some (image_of st' F)"
proof -
  obtain fs x eip esp pd st' fs' where d: "fs_inv fs" "names (abs_fs fs) [97] = Some x" "store (abs_fs fs) x = Some demo_elf"
    "load [97] (replicate 20 0) big_pd fs = Some (Some (eip, esp), pd, st', fs')" using demo_load by blast
  then have "abs_fs fs' = abs_fs fs \<and> (\<exists>F. elf_image demo_elf = Some (image_of st' F))"
    using load_correct [OF big_pd_ready d(1), of "replicate 20 0" "[97]"] by (auto split: if_splits)
  then show ?thesis using d(4) by blast
qed

text \<open>What \<open>load_ok\<close> says of a successful run.\<close>

lemma load_succeeds:
  assumes "kernel_ready st" "fs_inv fs" "length junk = 20"
    and "load name junk st fs = Some (Some (eip, esp), pd, st', fs')"
  shows "\<exists>F x bs. uspace st' pd (all_pages (ks st)) F \<and> names (abs_fs fs) name = Some x \<and> store (abs_fs fs) x = Some bs \<and>
    length bs < 2147483648 \<and> elf_image bs = Some (image_of st' F) \<and> eip = e_entry (ehdr_of (take 52 bs)) \<and> esp = 0xbfffffec"
proof -
  have "if pd = 0 then Some (eip, esp) = None \<and> ks st' = ks st \<and> mem_full st'
     else \<exists>F. uspace st' pd (all_pages (ks st)) F \<and> loaded name fs st' (Some (eip, esp)) F"
    using load_ok [OF assms(1-3), of name] assms(4) by auto
  then obtain F where F: "uspace st' pd (all_pages (ks st)) F" "loaded name fs st' (Some (eip, esp)) F" by (auto split: if_splits)
  then obtain x bs where x: "names (abs_fs fs) name = Some x" "store (abs_fs fs) x = Some bs"
    "elf_image bs = Some (image_of st' F)" "eip = e_entry (ehdr_of (take 52 bs))" "esp = 0xbfffffec"
    by (auto simp: loaded_def)
  obtain f s1 where "filesys_open name junk fs = Some (f, s1)" "if f = 0 then names (abs_fs fs) name = None
      else \<exists>x bs. names (abs_fs fs) name = Some x \<and> store (abs_fs fs) x = Some bs \<and> reading (abs_fs fs) s1 f bs 0"
    using reading_open [OF assms(2,3), of name] by (metis (full_types))
  then have "length bs < 2147483648" using x(1,2) by (auto simp: reading_def split: if_splits)
  then show ?thesis using F(1) x by blast
qed

text \<open>The bytes of a segment and of the stack page, seen by the process.\<close>

lemma segment_bytes:
  assumes "uspace st pd Old F" "segment_in bs ph (image_of st F)" "validate_segment ph (int (length bs))"
    "length bs < 2147483648" "a < unat (p_memsz ph)"
  shows "user_byte st pd (p_vaddr ph + word_of_nat a) =
      Some (if a < unat (p_filesz ph) then bs ! (unat (p_offset ph) + a) else 0, p_flags ph AND PF_W \<noteq> 0) \<and>
    (a < unat (p_filesz ph) \<longrightarrow> unat (p_offset ph) + a < length bs)"
proof -
  let ?n = "unat (p_vaddr ph) + a"
  have n: "?n < 3221225472" using valid_segment(5) [OF assms(3,4)] assms(5) by simp
  have va: "p_vaddr ph + word_of_nat a = word_of_nat ?n" by simp
  obtain page where "image_of st F (word_of_nat (?n div 4096)) = Some (page, p_flags ph AND PF_W \<noteq> 0)"
    "page ! (?n mod 4096) = (if a < unat (p_filesz ph) then bs ! (unat (p_offset ph) + a) else 0)"
    "a < unat (p_filesz ph) \<longrightarrow> unat (p_offset ph) + a < length bs"
    using assms(2,5) unfolding segment_in_def by blast
  then show ?thesis unfolding va user_byte_image [OF assms(1) user_word(1) [OF n]] user_word(2,3) [OF n] by simp
qed

lemma stack_bytes:
  assumes "uspace st pd Old F" "image_of st F stack_page = Some (replicate 4096 0, True)" "a < 4096"
  shows "user_byte st pd (0xbffff000 + word_of_nat a) = Some (0, True)"
proof -
  let ?n = "3221221376 + a"
  have n: "?n < 3221225472" using assms(3) by simp
  have va: "0xbffff000 + word_of_nat a = (word_of_nat ?n :: u32)" by simp
  have e: "?n = a + 786431 * 4096" by simp
  have d: "?n div 4096 = 786431" "?n mod 4096 = a" unfolding e mod_mult_self1 using assms(3) by simp_all
  have "image_of st F (word_of_nat (?n div 4096)) = Some (replicate 4096 0, True)"
    unfolding d(1) using assms(2) by (simp add: stack_page_def)
  then show ?thesis unfolding va user_byte_image [OF assms(1) user_word(1) [OF n]] user_word(2,3) [OF n] d(2)
    using assms(3) by simp
qed

text \<open>
  C11. What a process sees after a successful \<open>load\<close>, read through its page directory: every loadable segment of
  the program header table at its address, the bytes of the file, then zeros up to the size in memory, writable
  exactly when the segment is; a zeroed, writable page for the stack; no other pages than those of the segments
  and the stack, and none at address 0; with the entry point of the header and the fixed stack pointer.
\<close>

theorem load_maps_segments:
  assumes "kernel_ready st" "fs_inv fs" "length junk = 20"
    and "load name junk st fs = Some (Some (eip, esp), pd, st', fs')"
  shows "\<exists>x bs e ph. names (abs_fs fs) name = Some x \<and> store (abs_fs fs) x = Some bs \<and> e = ehdr_of (take 52 bs) \<and>
    ph = (\<lambda>i. phdr_of (slice bs (nat (sint (e_phoff e)) + 32 * i) 32)) \<and> eip = e_entry e \<and> esp = 0xbfffffec \<and>
    (\<forall>i<e_phnum e. p_type (ph i) = PT_LOAD \<longrightarrow> (\<forall>a<unat (p_memsz (ph i)).
       user_byte st' pd (p_vaddr (ph i) + word_of_nat a) =
         Some (if a < unat (p_filesz (ph i)) then bs ! (unat (p_offset (ph i)) + a) else 0, p_flags (ph i) AND PF_W \<noteq> 0) \<and>
       (a < unat (p_filesz (ph i)) \<longrightarrow> unat (p_offset (ph i)) + a < length bs))) \<and>
    (\<forall>a<4096. user_byte st' pd (0xbffff000 + word_of_nat a) = Some (0, True)) \<and>
    (\<forall>va. is_user_vaddr va \<and> user_byte st' pd va \<noteq> None \<longrightarrow>
       pg_no va = stack_page \<or> (\<exists>i<e_phnum e. in_segment (ph i) (pg_no va))) \<and>
    (\<forall>a<4096. user_byte st' pd (word_of_nat a) = None)"
proof -
  obtain F x bs where F: "uspace st' pd (all_pages (ks st)) F" and x: "names (abs_fs fs) name = Some x"
      "store (abs_fs fs) x = Some bs" "eip = e_entry (ehdr_of (take 52 bs))" "esp = 0xbfffffec"
    and len: "length bs < 2147483648" and im: "elf_image bs = Some (image_of st' F)"
    using load_succeeds [OF assms] by blast
  define e where "e = ehdr_of (take 52 bs)"
  define ph where "ph = (\<lambda>i. phdr_of (slice bs (nat (sint (e_phoff e)) + 32 * i) 32))"
  let ?M = "image_of st' F"
  obtain M1 where M1: "place_phdrs bs (sint (e_phoff e)) (e_phnum e) Map.empty = Some M1"
    "?M = M1(stack_page \<mapsto> (replicate 4096 0, True))" "M1 \<subseteq>\<^sub>m ?M" using elf_image_parts [OF im] unfolding e_def by blast
  note P = place_phdrs_in [OF M1(1) len, folded ph_def]
  have seg: "segment_in bs (ph i) ?M" "validate_segment (ph i) (int (length bs))" if "i < e_phnum e" "p_type (ph i) = PT_LOAD" for i
    using P that segment_in_mono [OF _ M1(3)] unfolding Let_def ph_def by blast+
  note 1 = segment_bytes [OF F seg len]
  have 2: "user_byte st' pd (0xbffff000 + word_of_nat a) = Some (0, True)" if "a < 4096" for a
    using that by (intro stack_bytes [OF F]) (simp add: M1(2))
  have 3: "pg_no va = stack_page \<or> (\<exists>i<e_phnum e. in_segment (ph i) (pg_no va))"
    if "is_user_vaddr va" "user_byte st' pd va \<noteq> None" for va
  proof -
    have "?M (pg_no va) \<noteq> None" using that(2) unfolding user_byte_image [OF F that(1)] by auto
    then have "pg_no va = stack_page \<or> M1 (pg_no va) \<noteq> None" unfolding M1(2) by (auto split: if_splits)
    then show ?thesis using place_phdrs_dom [OF M1(1) _ len, of "pg_no va"] unfolding ph_def by auto
  qed
  have 4: "user_byte st' pd (word_of_nat a) = None" if "a < 4096" for a
  proof -
    have n: "a < 3221225472" "a div 4096 = 0" using that by simp_all
    have "M1 0 = None" using P by simp
    then have "?M 0 = None" unfolding M1(2) by (simp add: stack_page_def)
    then show ?thesis unfolding user_byte_image [OF F user_word(1) [OF n(1)]] user_word(2) [OF n(1)] n(2) by simp
  qed
  show ?thesis
    by (intro exI [of _ x] exI [of _ bs] exI [of _ e] exI [of _ ph] conjI allI impI) (use x 1 2 3 4 in \<open>auto simp: e_def ph_def\<close>)
qed

text \<open>\<open>load\<close> of this executable succeeds, and the process sees its segment of 84 bytes and 16 zeros.\<close>

theorem load_maps_segments_witness:
  "\<exists>fs eip esp pd st' fs'. load [97] (replicate 20 0) big_pd fs = Some (Some (eip, esp), pd, st', fs') \<and>
     eip = 0x8048054 \<and> esp = 0xbfffffec \<and> user_byte st' pd 0x8048001 = Some (0x45, False) \<and>
     user_byte st' pd 0x8048063 = Some (0, False) \<and> user_byte st' pd 0xbfffffec = Some (0, True)"
proof -
  obtain fs x eip esp pd st' fs' where fs: "fs_inv fs" "names (abs_fs fs) [97] = Some x" "store (abs_fs fs) x = Some demo_elf"
    and L: "load [97] (replicate 20 0) big_pd fs = Some (Some (eip, esp), pd, st', fs')" using demo_load by blast
  have j: "length (replicate 20 (0 :: u8)) = 20" by simp
  have r: "eip = 0x8048054" "esp = 0xbfffffec"
    "\<forall>a<100. user_byte st' pd (0x8048000 + word_of_nat a) = Some (if a < 84 then demo_elf ! a else 0, False)"
    "\<forall>a<4096. user_byte st' pd (0xbffff000 + word_of_nat a) = Some (0, True)"
    using load_maps_segments [OF big_pd_ready fs(1) j L] fs(2,3)
    by (simp_all add: demo_elf_headers)
  have "user_byte st' pd 0x8048001 = Some (0x45, False)" using r(3) [rule_format, of 1] by (simp add: demo_elf_def)
  moreover have "user_byte st' pd 0x8048063 = Some (0, False)" using r(3) [rule_format, of 99] by simp
  moreover have "user_byte st' pd 0xbfffffec = Some (0, True)" using r(4) [rule_format, of 4076] by simp
  ultimately show ?thesis using L r(1,2) by blast
qed

text \<open>
  C16. A process gives back what it took: after \<open>load\<close>, successful or not, destroying the page directory it made,
  as \<open>process_exit\<close> does, returns the allocated pages to what they were. Until then the directory at least is
  allocated; when \<open>load\<close> fails, \<open>start_process\<close> frees the process control block only and never runs this code,
  and it stays so. The allocations of the file system are taken to succeed.
\<close>

theorem load_exit_frees:
  assumes "kernel_ready st" "fs_inv fs" "length junk = 20" "load name junk st fs = Some (r, pd, st', fs')"
  shows "\<exists>st''. exit_pagedir pd st' = Some st'' \<and> all_pages (ks st'') = all_pages (ks st) \<and>
    (pd \<noteq> 0 \<longrightarrow> pd \<in> all_pages (ks st') - all_pages (ks st))"
proof -
  have l: "init_page_dir st' = init_page_dir st" "if pd = 0 then r = None \<and> ks st' = ks st \<and> mem_full st'
     else \<exists>F. uspace st' pd (all_pages (ks st)) F \<and> loaded name fs st' r F"
    using load_ok [OF assms(1-3), of name] assms(4) by auto
  show ?thesis
  proof (cases "pd = 0")
    case True
    then show ?thesis using l(2) by (simp add: exit_pagedir_def)
  next
    case False
    then obtain F where F: "uspace st' pd (all_pages (ks st)) F" using l(2) by auto
    have "PHYS_BASE \<le> init_page_dir st'"
      unfolding l(1) using assms(1) all_pages_aligned(2) by (auto simp: kernel_ready_def)
    then obtain st'' where "exit_pagedir pd st' = Some st''" "all_pages (ks st'') = all_pages (ks st)"
      using exit_uspace [OF F] by blast
    moreover have "pd \<in> all_pages (ks st') - all_pages (ks st)" using uspaceD(10,11) [OF F] by blast
    ultimately show ?thesis by blast
  qed
qed

theorem load_exit_frees_witness:
  "\<exists>fs r pd st' fs' st''. load [97] (replicate 20 0) boot_pd fs = Some (r, pd, st', fs') \<and> exit_pagedir pd st' = Some st''"
proof -
  obtain fs where fs: "fs_inv fs" using some_file_system by blast
  have l: "length (replicate 20 (0 :: u8)) = 20" by simp
  obtain r pd st' fs' where e: "load [97] (replicate 20 0) boot_pd fs = Some (r, pd, st', fs')"
    using load_ok [OF boot_pd_ready fs l] by blast
  show ?thesis using load_exit_frees [OF boot_pd_ready fs l e] e by blast
qed

end
