(* ===== verification/Sbrk.thy ===== *)
theory Sbrk
  imports Loader_Memory
begin

text \<open>
  The heap of a user process: the system call \<open>sbrk\<close> of the memory homework, in
  \<open>src/hw-memory/pintos/src/userprog/syscall.c\<close>, on the page allocator and the page directories, whose files
  are the same in that copy of the kernel. An address is a word, so sums wrap; the increment is an \<open>int\<close>.
  The result \<open>(void *) -1\<close> is the word with all bits set. \<open>None\<close> is a kernel panic.
\<close>

section \<open>The code\<close>

record uthread =
  start_of_heap :: u32
  segment_break :: u32
  previous_break :: u32
  pagedir :: u32

definition SBRK_ERROR :: u32 where "SBRK_ERROR = - 1"

text \<open>The page mapped at an address is looked up, unmapped and freed.\<close>

definition release_page :: "u32 \<Rightarrow> u32 \<Rightarrow> pstate \<Rightarrow> pstate option" where
  "release_page pd va st = do {
     page \<leftarrow> pagedir_get_page pd va st;
     st1 \<leftarrow> pagedir_clear_page pd va st;
     k \<leftarrow> palloc_free_page page (ks st1);
     Some (st1\<lparr>ks := k\<rparr>)
   }"

text \<open>
  The loop that adds \<open>n\<close> pages: the result is the index \<open>j\<close> of the page that could not be had, if any, the
  address reached and the state. The result of \<open>pagedir_set_page\<close> is ignored.
\<close>

fun grow_loop :: "nat \<Rightarrow> nat \<Rightarrow> u32 \<Rightarrow> u32 \<Rightarrow> pstate \<Rightarrow> (nat option \<times> u32 \<times> pstate) option" where
  "grow_loop 0 i ptalloc pd st = Some (None, ptalloc, st)"
| "grow_loop (Suc n) i ptalloc pd st = do {
     (page, k) \<leftarrow> palloc_get_page (PAL_ZERO OR PAL_USER) (ks st);
     (if page = 0 then Some (Some i, ptalloc, st\<lparr>ks := k\<rparr>)
      else do {
        (_, st') \<leftarrow> pagedir_set_page pd ptalloc page True (st\<lparr>ks := k\<rparr>);
        grow_loop n (i + 1) (ptalloc + PGSIZE) pd st'
      })
   }"

text \<open>The loops that release \<open>n\<close> pages downwards from \<open>ptalloc\<close>.\<close>

fun release_loop :: "nat \<Rightarrow> u32 \<Rightarrow> u32 \<Rightarrow> pstate \<Rightarrow> (u32 \<times> pstate) option" where
  "release_loop 0 ptalloc pd st = Some (ptalloc, st)"
| "release_loop (Suc n) ptalloc pd st = do {
     st' \<leftarrow> release_page pd ptalloc st;
     release_loop n (ptalloc - PGSIZE) pd st'
   }"

definition alloc :: "int \<Rightarrow> uthread \<Rightarrow> pstate \<Rightarrow> (u32 \<times> uthread \<times> pstate) option" where
  "alloc increment t st =
     (let start = start_of_heap t; sbreak = segment_break t; pd = pagedir t; brk = sbreak + word_of_int increment in
      do {
        (firstpage, k) \<leftarrow> (if start = sbreak then palloc_get_page (PAL_ZERO OR PAL_USER) (ks st) else Some (1, ks st));
        (if firstpage = 0 then Some (SBRK_ERROR, t, st\<lparr>ks := k\<rparr>)
         else do {
           st1 \<leftarrow> (if start = sbreak then do {
                      (_, st') \<leftarrow> pagedir_set_page pd start firstpage True (st\<lparr>ks := k\<rparr>);
                      Some st'
                    } else Some st);
           (j, ptalloc, st2) \<leftarrow> grow_loop (nat (uint (pg_no brk) - uint (pg_no sbreak))) 0 (pg_round_up (sbreak + 1)) pd st1;
           (case j of
              Some j \<Rightarrow> do {
                st3 \<leftarrow> (if start = sbreak then release_page pd start st2 else Some st2);
                (_, st4) \<leftarrow> release_loop j (ptalloc - PGSIZE) pd st3;
                Some (SBRK_ERROR, t, st4)
              }
            | None \<Rightarrow> Some (sbreak, t\<lparr>previous_break := sbreak, segment_break := brk\<rparr>, st2))
         })
      })"

definition dealloc :: "int \<Rightarrow> uthread \<Rightarrow> pstate \<Rightarrow> (u32 \<times> uthread \<times> pstate) option" where
  "dealloc increment t st =
     (let start = start_of_heap t; sbreak = segment_break t; pd = pagedir t; brk = sbreak + word_of_int increment in
      if brk < start then Some (SBRK_ERROR, t, st)
      else do {
        (ptalloc, st1) \<leftarrow> release_loop (nat (uint (pg_no sbreak) - uint (pg_no brk))) (pg_round_down sbreak) pd st;
        st2 \<leftarrow> (if pg_ofs brk = 0 then release_page pd ptalloc st1 else Some st1);
        Some (sbreak, t\<lparr>previous_break := sbreak, segment_break := brk\<rparr>, st2)
      })"

definition syscall_sbrk :: "int \<Rightarrow> uthread \<Rightarrow> pstate \<Rightarrow> (u32 \<times> uthread \<times> pstate) option" where
  "syscall_sbrk increment t st =
     (if increment = 0 then Some (segment_break t, t, st)
      else if increment > 0 then alloc increment t st
      else dealloc increment t st)"

section \<open>Unmapping a page\<close>

lemma invalidate_env:
  assumes "cr3 st < PHYS_BASE" "PHYS_BASE \<le> pd"
  shows "\<exists>st'. invalidate_pagedir pd st = Some st' \<and> ks st' = ks st \<and> cr3 st' = cr3 st \<and>
    init_page_dir st' = init_page_dir st \<and> init_ram_pages st' = init_ram_pages st"
  using assms PHYS_BASE_nonzero [of pd]
  by (auto simp: invalidate_pagedir_def active_pd_def ptov_def pagedir_activate_def vtop_def is_kernel_vaddr_def)

lemma uspace_cong:
  assumes "ks st' = ks st" "init_page_dir st' = init_page_dir st"
  shows "uspace st' pd Old F = uspace st pd Old F"
proof -
  have r: "rd st' a = rd st a" for a using assms(1) by (simp add: rd_def)
  then have "table st' pd i = table st pd i" for i by (simp add: table_def)
  then have "tables st' pd = tables st pd" by (simp add: tables_def)
  then show ?thesis using assms r same_ks [OF assms(1)] by (simp add: uspace_def)
qed

lemma frames_of_remove:
  assumes "F n = Some (kp, w)" "\<And>m v. F m = Some (kp, v) \<Longrightarrow> m = n"
  shows "frames_of (F(n := None)) = frames_of F - {kp}"
proof (intro equalityI subsetI)
  fix q assume "q \<in> frames_of (F(n := None))"
  then obtain m v where m: "m \<noteq> n" "F m = Some (q, v)" by (auto simp: frames_of_def split: if_splits)
  then have "q \<noteq> kp" using assms(2) by blast
  then show "q \<in> frames_of F - {kp}" using m(2) by (auto simp: frames_of_def)
next
  fix q assume q: "q \<in> frames_of F - {kp}"
  then obtain m v where m: "F m = Some (q, v)" by (auto simp: frames_of_def)
  then have "m \<noteq> n" using assms(1) q by auto
  then show "q \<in> frames_of (F(n := None))" using m by (auto simp: frames_of_def)
qed

lemma clear_uspace:
  assumes u: "uspace st pd Old F" and va: "aligned va" "is_user_vaddr va" and c: "cr3 st < PHYS_BASE"
    and F: "F (pg_no va) = Some (kp, w)"
  shows "\<exists>st'. pagedir_clear_page pd va st = Some st' \<and> uspace st' pd (insert kp Old) (F(pg_no va := None)) \<and>
    same_on (Old \<union> frames_of F) st st' \<and> same_env st st' \<and> all_pages (ks st') = all_pages (ks st)"
proof -
  note U = uspaceD [OF u]
  let ?n = "pg_no va" and ?F = "F(pg_no va := None)"
  have i: "unat (pd_no va) < 768" using va(2) by (simp add: pd_no_user)
  have tr: "translate st pd va = Some (kp - PHYS_BASE, w)" using U(7) [OF va(2)] F by simp
  then obtain pt where t: "table st pd (unat (pd_no va)) = Some pt"
    by (auto simp: translate_def entry_def split: option.splits)
  let ?p = "slot pt (unat (pt_no va))" and ?e = "entry st pd va AND NOT PTE_P"
  let ?s = "wr ?p ?e st"
  note pt = pd_wf_table [OF U(1) i t] and wre = write_entry [OF U(1) i t pt_no_bound [of va], where v = ?e]
  have ptt: "pt \<in> tables st pd" using t i by (auto simp: tables_def)
  have old: "rd st ?p = entry st pd va" using t by (simp add: entry_def)
  have pr: "rd st ?p AND PTE_P \<noteq> 0" using tr old by (simp add: translate_def Let_def split: if_splits)
  obtain st' where st': "invalidate_pagedir pd ?s = Some st'" "ks st' = ks ?s" "cr3 st' = cr3 ?s"
      "init_page_dir st' = init_page_dir ?s" "init_ram_pages st' = init_ram_pages ?s"
    using invalidate_env [of ?s pd] c pd_wf_page(3) [OF U(1)] by auto
  have res: "pagedir_clear_page pd va st = Some st'"
    using lookup_existing [OF U(1) va(2) t, of False] slot_nonzero [OF pt(1,2) pt_no_bound] va pr st'(1) old
    by (simp add: pagedir_clear_page_def aligned_iff)
  have other: "rd ?s (slot q j) = rd st (slot q j)" if "q \<in> all_pages (ks st)" "q \<noteq> pt" "j < 1024" for q j
    using rd_wr_slot [OF pt(1) all_pages_aligned(1) [OF U(2) that(1)] pt_no_bound that(3), of va ?e st] that(2) by simp
  have "table ?s pd j = table st pd j" if "j < 768" for j using wre(1) [of j] that by simp
  then have tb: "tables ?s pd = tables st pd" by (auto simp: tables_def)
  have fr: "frames_of ?F = frames_of F - {kp}" using F U(8) by (intro frames_of_remove) blast+
  have kpF: "kp \<in> frames_of F" using F by (auto simp: frames_of_def)
  have us: "uspace ?s pd (insert kp Old) ?F"
    unfolding uspace_def tb fr wr_simps
  proof (intro conjI)
    have "init_page_dir st \<noteq> pt" "pd \<noteq> pt" "init_page_dir st \<in> all_pages (ks st)" "pd \<in> all_pages (ks st)"
      using U(5,10,12) ptt pt(4) by blast+
    then show "\<forall>j. 768 \<le> j \<and> j < 1024 \<longrightarrow> rd ?s (slot pd j) = rd ?s (slot (init_page_dir st) j)" using U(14) other by simp
    show "\<forall>vb. is_user_vaddr vb \<longrightarrow> translate ?s pd vb = map_option (\<lambda>(kp, w). (kp - PHYS_BASE, w)) (?F (pg_no vb))"
    proof (intro allI impI)
      fix vb assume vb: "is_user_vaddr vb"
      have "entry ?s pd vb = (if pg_no vb = ?n then ?e else entry st pd vb)" using wre(3) [OF vb] indices_pg_no [of vb va] by simp
      then have "translate ?s pd vb = (if pg_no vb = ?n then None else translate st pd vb)"
        using flag_andnot_self [of _ PTE_P] by (simp add: translate_def Let_def)
      then show "translate ?s pd vb = map_option (\<lambda>(kp, w). (kp - PHYS_BASE, w)) (?F (pg_no vb))"
        using U(7) [OF vb] by simp
    qed
    show "\<forall>n n' q v v'. ?F n = Some (q, v) \<and> ?F n' = Some (q, v') \<longrightarrow> n = n'"
      using U(8) by (auto split: if_splits)
    show "\<forall>n\<in>dom ?F. unat n < 786432" using U(9) by (auto split: if_splits)
    show "all_pages (ks st) = insert kp Old \<union> insert pd (tables st pd) \<union> (frames_of F - {kp})" unfolding U(10) using kpF by blast
    show "pd_wf ?s pd" by (rule wre(2))
    show "init_page_dir st \<in> insert kp Old" using U(5) by simp
  qed (use U(11-13) kpF in blast)+
  have "uspace st' pd (insert kp Old) ?F" using us uspace_cong [OF st'(2,4)] by simp
  moreover have "same_on (Old \<union> frames_of F) st st'"
    unfolding same_on_def
  proof (intro ballI allI impI)
    fix q j assume q: "q \<in> Old \<union> frames_of F" and j: "(j :: nat) < 1024"
    have "q \<in> all_pages (ks st)" "q \<noteq> pt" using q U(10,12) ptt by blast+
    then have "rd ?s (slot q j) = rd st (slot q j)" using j by (rule other)
    then show "rd st' (slot q j) = rd st (slot q j)" using st'(2) by (simp add: rd_def)
  qed
  moreover have "same_env st st'" using st'(2-5) by (simp add: same_env_def wr_def)
  moreover have "all_pages (ks st') = all_pages (ks st)" using st'(2) by (simp add: wr_def)
  ultimately show ?thesis using res by blast
qed

lemma clear_unmapped:
  assumes u: "uspace st pd Old F" and va: "aligned va" "is_user_vaddr va" and F: "F (pg_no va) = None"
  shows "pagedir_clear_page pd va st = Some st"
proof (rule lookup_has [OF uspaceD(1) [OF u] va(2)], goal_cases)
  case 1
  then show ?case using va by (simp add: pagedir_clear_page_def aligned_iff)
next
  case (2 p)
  have "entry st pd va AND PTE_P = 0"
    using uspaceD(7) [OF u va(2)] F by (simp add: translate_def Let_def split: if_splits)
  then show ?case using va 2 by (simp add: pagedir_clear_page_def aligned_iff)
qed

text \<open>Releasing the page at an address removes it from the address space, or does nothing.\<close>

lemma release_page_ok:
  assumes u: "uspace st pd Old F" and va: "aligned va" "is_user_vaddr va" and c: "cr3 st < PHYS_BASE"
  shows "\<exists>st'. release_page pd va st = Some st' \<and> uspace st' pd Old (F(pg_no va := None)) \<and> same_env st st' \<and>
    same_on (Old \<union> frames_of (F(pg_no va := None))) st st' \<and> Old \<subseteq> all_pages (ks st') \<and>
    (F (pg_no va) = None \<longrightarrow> st' = st) \<and> all_pages (ks st) \<subseteq> all_pages (ks st') \<union> frames_of F"
proof (cases "F (pg_no va)")
  case None
  have "pagedir_get_page pd va st = Some 0" using get_page_uspace [OF u va(2)] None by auto
  then have r: "release_page pd va st = Some st"
    using clear_unmapped [OF u va None] by (simp add: release_page_def palloc_free_page_def palloc_free_multiple_def pg_ofs_def)
  have "F(pg_no va := None) = F" using None by auto
  then show ?thesis using r u uspaceD(10) [OF u] by (intro exI [of _ st]) auto
next
  case (Some v)
  obtain kp w where v: "F (pg_no va) = Some (kp, w)" using Some by (cases v) simp
  note U = uspaceD [OF u]
  let ?F = "F(pg_no va := None)"
  have fr: "frames_of ?F = frames_of F - {kp}" using v U(8) by (intro frames_of_remove) blast+
  have kpF: "kp \<in> frames_of F" using v by (auto simp: frames_of_def)
  have g: "pagedir_get_page pd va st = Some kp" using get_page_uspace [OF u va(2)] v va(1) by (auto simp: aligned_iff)
  obtain s1 where s1: "pagedir_clear_page pd va st = Some s1" "uspace s1 pd (insert kp Old) ?F"
    "same_on (Old \<union> frames_of F) st s1" "same_env st s1" "all_pages (ks s1) = all_pages (ks st)"
    using clear_uspace [OF u va c v] by blast
  have "init_page_dir s1 \<in> Old" using s1(4) U(5) by (simp add: same_env_def)
  moreover have "kp \<notin> Old" using U(13) kpF by blast
  ultimately obtain s2 where s2: "free_kpage kp s1 = Some s2" "uspace s2 pd Old ?F" "same_on (all_pages (ks s1) - {kp}) s1 s2"
    "same_env s1 s2" "all_pages (ks s2) = all_pages (ks s1) - {kp}"
    using free_spare [OF s1(2)] by blast
  have "release_page pd va st = Some s2"
    using g s1(1) s2(1) unfolding release_page_def free_kpage_def by simp
  moreover have "same_on (Old \<union> frames_of ?F) st s2"
  proof (rule same_on_trans [OF same_on_subset [OF s1(3)] s2(3)])
    show "Old \<union> frames_of ?F \<subseteq> Old \<union> frames_of F" unfolding fr by blast
    show "Old \<union> frames_of ?F \<subseteq> all_pages (ks s1) - {kp}" unfolding fr s1(5) using U(10) \<open>kp \<notin> Old\<close> by blast
  qed
  moreover have "Old \<subseteq> all_pages (ks s2)" using uspaceD(10) [OF s2(2)] by blast
  moreover have "all_pages (ks st) \<subseteq> all_pages (ks s2) \<union> frames_of F" using s2(5) s1(5) kpF by blast
  ultimately show ?thesis using s2(2) same_env_trans [OF s1(4) s2(4)] Some by simp
qed

section \<open>The free pages of the user pool\<close>

definition user_free :: "kstate \<Rightarrow> nat" where
  "user_free k = card ({..<bit_cnt (used_map (get_pool True k))} - bm_used (used_map (get_pool True k)))"

lemma get_kernel_page:
  assumes "palloc_get_page fl s = Some (p, s')" "fl AND PAL_USER = 0"
  shows "get_pool True s' = get_pool True s"
  using assms unfolding palloc_get_page_def palloc_get_multiple_def
  by (auto simp: Let_def split: if_splits bind_splits)

lemma wr_pools [simp]: "get_pool u (ks (wr a v st)) = get_pool u (ks st)"
  by (simp add: wr_def)

lemma set_page_pool:
  assumes "pagedir_set_page pd va kp w st = Some (ok, st')"
  shows "get_pool True (ks st') = get_pool True (ks st)"
proof -
  obtain pte s1 where l: "lookup_page pd va True st = Some (pte, s1)"
    and r: "get_pool True (ks st') = get_pool True (ks s1)"
    using assms by (auto simp: pagedir_set_page_def split: bind_splits if_splits)
  have "get_pool True (ks s1) = get_pool True (ks st)"
  proof (cases "rd st (pd + 4 * pd_no va) = 0")
    case True
    then obtain pt k where g: "palloc_get_page PAL_ZERO (ks st) = Some (pt, k)" "get_pool True (ks s1) = get_pool True k"
      using l by (auto simp: lookup_page_def Let_def split: bind_splits if_splits)
    then show ?thesis using get_kernel_page [OF g(1)] by (simp add: PAL_ZERO_def PAL_USER_def)
  next
    case False
    then show ?thesis using l by (auto simp: lookup_page_def Let_def split: bind_splits if_splits)
  qed
  then show ?thesis using r by simp
qed

lemma user_flags:
  "(PAL_ZERO OR PAL_USER) AND PAL_ASSERT = 0" "(PAL_ZERO OR PAL_USER) AND PAL_USER \<noteq> 0" "(PAL_ZERO OR PAL_USER) AND PAL_ZERO \<noteq> 0"
  by (simp_all add: PAL_ASSERT_def PAL_ZERO_def PAL_USER_def)

lemma get_user_page:
  assumes "wf_kstate s" "palloc_get_page (PAL_ZERO OR PAL_USER) s = Some (p, s')"
  shows "if p = 0 then user_free s = 0 else user_free s = Suc (user_free s')"
proof -
  define q where "q = get_pool True s"
  note wq = wf_get_pool [OF assms(1), of True, folded q_def]
  from palloc_get_multiple_cases [OF assms(1) zero_less_one, of "PAL_ZERO OR PAL_USER"]
  show ?thesis
  proof (elim disjE exE conjE, goal_cases)
    case (1 i b)
    note g = 1 [unfolded eqTrueI [OF user_flags(2)], folded q_def]
    have i: "i < bit_cnt (used_map q)" "i \<notin> bm_used (used_map q)" using g(2,3) by auto
    have "page_at q i \<noteq> 0" using page_at_kernel [OF wq i(1)] PHYS_BASE_nonzero by blast
    moreover have "get_pool True s' = q\<lparr>used_map := b\<rparr>" "p = page_at q i"
      using g(1) assms(2) by (auto simp: palloc_get_page_def simp flip: q_def)
    moreover have "{..<bit_cnt b} - bm_used b = ({..<bit_cnt (used_map q)} - bm_used (used_map q)) - {i}"
      using g(5,6) by auto
    moreover have "card ({..<bit_cnt (used_map q)} - bm_used (used_map q)) = Suc (card ({..<bit_cnt (used_map q)} - bm_used (used_map q) - {i}))"
      using card_Suc_Diff1 [of "{..<bit_cnt (used_map q)} - bm_used (used_map q)" i] i by simp
    ultimately show ?thesis by (simp add: user_free_def flip: q_def)
  next
    case 2
    note g = 2 [unfolded eqTrueI [OF user_flags(2)], folded q_def]
    have "p = 0" using g(1) assms(2) user_flags(1) by (simp add: palloc_get_page_def)
    moreover have "i \<in> bm_used (used_map q)" if "i < bit_cnt (used_map q)" for i
    proof -
      have "{i..<i + 1} \<inter> bm_used (used_map q) \<noteq> {}" using g(2) that by simp
      then show ?thesis by (auto simp: less_Suc_eq_le order_antisym)
    qed
    ultimately show ?thesis by (auto simp: user_free_def simp flip: q_def)
  qed
qed

lemma pool_full_mono: "pool_full u k \<Longrightarrow> same_pools k k' \<Longrightarrow> all_pages k \<subseteq> all_pages k' \<Longrightarrow> pool_full u k'"
  using in_pool_same [of k k' u] by (auto simp: pool_full_def)

section \<open>Growing\<close>

text \<open>
  The address space after \<open>m\<close> pages from the page number \<open>a\<close> on have been asked for: \<open>L\<close> are the frames that
  were taken but could not be mapped, which happens only when the kernel has no page for a page table.
\<close>

definition heap_grown :: "pstate \<Rightarrow> u32 \<Rightarrow> u32 set \<Rightarrow> mapping \<Rightarrow> nat \<Rightarrow> nat \<Rightarrow> u32 set \<Rightarrow> mapping \<Rightarrow> pstate \<Rightarrow> bool" where
  "heap_grown st pd Old F a m L F' st' \<longleftrightarrow> uspace st' pd (Old \<union> L) F' \<and> same_env st st' \<and>
     same_on (Old \<union> frames_of F) st st' \<and> all_pages (ks st) \<subseteq> all_pages (ks st') \<and> L \<inter> all_pages (ks st) = {} \<and>
     (\<forall>k. a \<le> unat k \<and> unat k < a + m \<longrightarrow> F k = None) \<and> (\<forall>k. \<not> (a \<le> unat k \<and> unat k < a + m) \<longrightarrow> F' k = F k) \<and>
     (\<forall>k v. a \<le> unat k \<and> unat k < a + m \<and> F' k = Some v \<longrightarrow> snd v \<and> page_bytes (ram (ks st')) (fst v) = replicate 4096 0) \<and>
     (L = {} \<and> (\<forall>k. a \<le> unat k \<and> unat k < a + m \<longrightarrow> F' k \<noteq> None) \<or> pool_full False (ks st')) \<and>
     (\<forall>q\<in>frames_of F'. q \<in> frames_of F \<or> in_pool True (ks st) q)"

lemma heap_grownD:
  assumes "heap_grown st pd Old F a m L F' st'"
  shows "uspace st' pd (Old \<union> L) F'" "same_env st st'" "same_on (Old \<union> frames_of F) st st'" "all_pages (ks st) \<subseteq> all_pages (ks st')"
    "L \<inter> all_pages (ks st) = {}" "a \<le> unat k \<Longrightarrow> unat k < a + m \<Longrightarrow> F k = None"
    "\<not> (a \<le> unat k \<and> unat k < a + m) \<Longrightarrow> F' k = F k"
    "a \<le> unat k \<Longrightarrow> unat k < a + m \<Longrightarrow> F' k = Some v \<Longrightarrow> snd v \<and> page_bytes (ram (ks st')) (fst v) = replicate 4096 0"
    "\<not> pool_full False (ks st') \<Longrightarrow> L = {}"
    "\<not> pool_full False (ks st') \<Longrightarrow> a \<le> unat k \<Longrightarrow> unat k < a + m \<Longrightarrow> F' k \<noteq> None"
    "q \<in> frames_of F' \<Longrightarrow> q \<in> frames_of F \<or> in_pool True (ks st) q"
  using assms unfolding heap_grown_def by blast+

lemma heap_grown_keeps: "heap_grown st pd Old F a m L F' st' \<Longrightarrow> F k = Some v \<Longrightarrow> F' k = Some v"
  using heap_grownD(6) [of st pd Old F a m L F' st' k] heap_grownD(7) [of st pd Old F a m L F' st' k] by fastforce

lemma heap_grown_refl:
  assumes "uspace st pd Old F"
  shows "heap_grown st pd Old F a 0 {} F st"
proof -
  have no: "(a \<le> unat k \<and> unat k < a) = False" for k :: u32 by simp
  show ?thesis using assms unfolding heap_grown_def add_0_right conj_assoc [symmetric] no by simp
qed

lemma heap_grown_trans:
  assumes 1: "heap_grown st pd Old F a m L F' st'" and 2: "heap_grown st' pd (Old \<union> L) F' (a + m) m' L' F2 st2"
  shows "heap_grown st pd Old F a (m + m') (L \<union> L') F2 st2"
proof -
  note G = heap_grownD [OF 1] and H = heap_grownD [OF 2]
  have sub: "frames_of F \<subseteq> frames_of F'" using heap_grown_keeps [OF 1] by (force simp: frames_of_def)
  have "Old \<union> frames_of F \<subseteq> Old \<union> L \<union> frames_of F'" using sub by blast
  then have s: "same_on (Old \<union> frames_of F) st st2" by (rule same_on_trans [OF G(3) H(3)])
  have n: "F k = None" if "a \<le> unat k" "unat k < a + (m + m')" for k
  proof (cases "unat k < a + m")
    case True
    then show ?thesis using G(6) that by simp
  next
    case False
    then have "F' k = None" "F' k = F k" using G(7) [of k] H(6) [of k] that by simp_all
    then show ?thesis by simp
  qed
  have o: "F2 k = F k" if "\<not> (a \<le> unat k \<and> unat k < a + (m + m'))" for k
  proof -
    have "\<not> (a + m \<le> unat k \<and> unat k < a + m + m')" "\<not> (a \<le> unat k \<and> unat k < a + m)" using that by arith+
    then have "F2 k = F' k" "F' k = F k" using G(7) H(7) by blast+
    then show ?thesis by simp
  qed
  have z: "snd v \<and> page_bytes (ram (ks st2)) (fst v) = replicate 4096 0"
    if "a \<le> unat k" "unat k < a + (m + m')" "F2 k = Some v" for k v
  proof (cases "unat k < a + m")
    case True
    then have F': "F' k = Some v" using H(7) [of k] that by simp
    then have "fst v \<in> Old \<union> L \<union> frames_of F'" by (cases v) (auto simp: frames_of_def)
    then have "page_bytes (ram (ks st2)) (fst v) = page_bytes (ram (ks st')) (fst v)" by (rule same_on_bytes [OF H(3)])
    then show ?thesis using G(8) [OF that(1) True F'] by simp
  next
    case False
    then show ?thesis using H(8) [of k v] that by simp
  qed
  have p: "pool_full False (ks st2)" if "pool_full False (ks st')"
    using pool_full_mono [OF that _ H(4)] H(2) by (simp add: same_env_def)
  have c: "F2 k \<noteq> None" if f: "\<not> pool_full False (ks st2)" and k: "a \<le> unat k" "unat k < a + (m + m')" for k
  proof (cases "unat k < a + m")
    case True
    then have "F' k \<noteq> None" using G(10) p f k by blast
    moreover have "F2 k = F' k" using H(7) [of k] True by simp
    ultimately show ?thesis by simp
  next
    case False
    then show ?thesis using H(10) [OF f, of k] k by simp
  qed
  have l: "L \<union> L' = {}" if "\<not> pool_full False (ks st2)" using G(9) H(9) p that by blast
  have d: "(L \<union> L') \<inter> all_pages (ks st) = {}" using G(4,5) H(5) by blast
  have u: "uspace st2 pd (Old \<union> (L \<union> L')) F2" using H(1) by (simp add: Un_assoc)
  have f: "\<forall>q\<in>frames_of F2. q \<in> frames_of F \<or> in_pool True (ks st) q"
    using G(11) H(11) G(2) in_pool_same [of "ks st" "ks st'" True] by (auto simp: same_env_def)
  show ?thesis unfolding heap_grown_def
    using u same_env_trans [OF G(2) H(2)] s subset_trans [OF G(4) H(4)] d n o z c l f
    by (intro conjI) (assumption | blast)+
qed

text \<open>A page is taken from the user pool, zeroed, and mapped, unless the kernel has no page for the page table.\<close>

lemma grow_step:
  assumes u: "uspace st pd Old F" and va: "aligned va" "is_user_vaddr va" "F (pg_no va) = None" and ro: "ram_ok st"
  shows "palloc_get_page (PAL_ZERO OR PAL_USER) (ks st) = Some (0, ks st) \<and> user_free (ks st) = 0 \<or>
    (\<exists>page k ok st' L F'. palloc_get_page (PAL_ZERO OR PAL_USER) (ks st) = Some (page, k) \<and> page \<noteq> 0 \<and>
       pagedir_set_page pd va page True (st\<lparr>ks := k\<rparr>) = Some (ok, st') \<and>
       heap_grown st pd Old F (unat (pg_no va)) 1 L F' st' \<and> user_free (ks st) = Suc (user_free (ks st')))"
proof -
  note U = uspaceD [OF u]
  let ?n = "pg_no va"
  from get_spare [OF u user_flags(1)] show ?thesis
  proof (elim disjE exE conjE)
    assume "palloc_get_page (PAL_ZERO OR PAL_USER) (ks st) = Some (0, ks st)"
    then show ?thesis using get_user_page [OF U(2)] by fastforce
  next
    fix kp k
    assume g: "palloc_get_page (PAL_ZERO OR PAL_USER) (ks st) = Some (kp, k)" "kp \<noteq> 0" "aligned kp" "PHYS_BASE \<le> kp"
      "uspace (st\<lparr>ks := k\<rparr>) pd (insert kp Old) F" "kp \<notin> all_pages (ks st)" "same_on (all_pages (ks st)) st (st\<lparr>ks := k\<rparr>)"
      "same_env st (st\<lparr>ks := k\<rparr>)" "in_pool ((PAL_ZERO OR PAL_USER) AND PAL_USER \<noteq> 0) (ks st) kp"
      "(PAL_ZERO OR PAL_USER) AND PAL_ZERO \<noteq> 0 \<longrightarrow> page_bytes (ram k) kp = replicate 4096 0"
    let ?s = "st\<lparr>ks := k\<rparr>"
    have f: "user_free (ks st) = Suc (user_free k)" using get_user_page [OF U(2) g(1)] g(2) by simp
    have kn: "kp \<notin> Old" "init_page_dir ?s \<in> Old" using g(6) U(5,10) by auto
    have fr: "unat kp + 4096 \<le> 3221225472 + 4096 * unat (init_ram_pages ?s)"
      using in_pool_user(1) [OF U(2), of kp] g(9) user_flags(2) ro by (simp add: ram_ok_def)
    have ap: "all_pages (ks st) \<subseteq> all_pages (ks ?s)"
      using same_tables(2) [OF g(7)] uspaceD(10) [OF g(5)] U(10) by blast
    have one: "k = ?n" if "unat ?n \<le> unat k" "unat k < unat ?n + 1" for k :: u32
      using that by (simp add: word_unat_eq_iff)
    have none: "F k = None" if "unat ?n \<le> unat k" "unat k < unat ?n + 1" for k using one [OF that] va(3) by simp
    have dis: "{kp} \<inter> all_pages (ks st) = {}" using g(6) by simp
    from map_page [OF g(5) kn g(4) fr va, of True] show ?thesis
    proof (elim disjE exE conjE)
      assume m: "pagedir_set_page pd va kp True ?s = Some (False, ?s)" "pool_full False (ks ?s)"
      have so: "same_on (Old \<union> frames_of F) st ?s" using U(10) by (intro same_on_subset [OF g(7)]) blast
      have "heap_grown st pd Old F (unat ?n) 1 {kp} F ?s"
        unfolding heap_grown_def using g(5,8) so ap dis m(2) none
        by (auto simp del: split_paired_All split_paired_Ex not_None_eq)
      then show ?thesis using g(1,2) m(1) f by fastforce
    next
      fix st'
      assume m: "pagedir_set_page pd va kp True ?s = Some (True, st')" "uspace st' pd Old (F(?n \<mapsto> (kp, True)))"
        "same_on (Old \<union> insert kp (frames_of F)) ?s st'" "same_env ?s st'" "all_pages (ks ?s) \<subseteq> all_pages (ks st')"
      have so: "same_on (Old \<union> frames_of F) st st'"
        using U(10) by (intro same_on_trans [OF same_on_subset [OF g(7)] m(3)]) blast+
      have z: "page_bytes (ram (ks st')) kp = replicate 4096 0" using same_on_bytes [OF m(3), of kp] g(10) user_flags(3) by simp
      have "heap_grown st pd Old F (unat ?n) 1 {} (F(?n \<mapsto> (kp, True))) st'"
        unfolding heap_grown_def
        using m(2) same_env_trans [OF g(8) m(4)] so subset_trans [OF ap m(5)] va(3) one z
          g(9) user_flags(2) frames_of_upd [of F ?n kp True, OF va(3)]
        by (auto simp del: split_paired_All split_paired_Ex not_None_eq)
      moreover have "user_free (ks st') = user_free k" using set_page_pool [OF m(1)] by (simp add: user_free_def)
      ultimately show ?thesis using g(1,2) m(1) f by fastforce
    qed
  qed
qed

lemma next_page:
  assumes "aligned va" "unat va + 4096 < 4294967296"
  shows "aligned (va + PGSIZE)" "unat (pg_no (va + PGSIZE)) = unat (pg_no va) + 1" "unat (va + PGSIZE) = unat va + 4096"
proof -
  show a: "unat (va + PGSIZE) = unat va + 4096" using assms(2) by (subst unat_add_lem [THEN iffD1]) (simp_all add: PGSIZE_def PGBITS_def)
  then show "aligned (va + PGSIZE)" "unat (pg_no (va + PGSIZE)) = unat (pg_no va) + 1" using assms(1) by (simp_all add: aligned_def unat_pg_no)
qed

lemma grow_loop_ok:
  assumes "uspace st pd Old F" "aligned va" "unat va + 4096 * n \<le> 3221225472" "ram_ok st"
    "\<forall>k. unat (pg_no va) \<le> unat k \<and> unat k < unat (pg_no va) + n \<longrightarrow> F k = None"
  defines "m \<equiv> min n (user_free (ks st))"
  shows "\<exists>st' L F'. grow_loop n i va pd st = Some (if m = n then None else Some (i + m), va + of_nat m * PGSIZE, st') \<and>
    heap_grown st pd Old F (unat (pg_no va)) m L F' st' \<and> user_free (ks st) = m + user_free (ks st')"
  using assms(1-5) unfolding m_def
proof (induction n arbitrary: i va st Old F)
  case 0
  then show ?case using heap_grown_refl by fastforce
next
  case (Suc n)
  have us: "is_user_vaddr va" using Suc.prems(3) by (simp add: is_user_vaddr_def PHYS_BASE_def word_less_nat_alt)
  have F: "F (pg_no va) = None" using Suc.prems(5) by simp
  note nx = next_page [OF Suc.prems(2)]
  have b: "unat va + 4096 < 4294967296" using Suc.prems(3) by simp
  from grow_step [OF Suc.prems(1,2) us F Suc.prems(4)] show ?case
  proof (elim disjE exE conjE)
    assume "palloc_get_page (PAL_ZERO OR PAL_USER) (ks st) = Some (0, ks st)" "user_free (ks st) = 0"
    then show ?thesis using heap_grown_refl [OF Suc.prems(1)] by (intro exI [of _ st] exI [of _ "{}"] exI [of _ F]) simp
  next
    fix page k ok st1 L F1
    assume g: "palloc_get_page (PAL_ZERO OR PAL_USER) (ks st) = Some (page, k)" "page \<noteq> 0"
      "pagedir_set_page pd va page True (st\<lparr>ks := k\<rparr>) = Some (ok, st1)"
      "heap_grown st pd Old F (unat (pg_no va)) 1 L F1 st1" "user_free (ks st) = Suc (user_free (ks st1))"
    note G = heap_grownD [OF g(4)]
    have F1: "\<forall>k. unat (pg_no (va + PGSIZE)) \<le> unat k \<and> unat k < unat (pg_no (va + PGSIZE)) + n \<longrightarrow> F1 k = None"
    proof (intro allI impI)
      fix k :: u32 assume k: "unat (pg_no (va + PGSIZE)) \<le> unat k \<and> unat k < unat (pg_no (va + PGSIZE)) + n"
      have "F1 k = F k" using k nx(2) [OF b] by (intro G(7)) simp
      moreover have "F k = None" using k nx(2) [OF b] Suc.prems(5) by simp
      ultimately show "F1 k = None" by simp
    qed
    have "unat (va + PGSIZE) + 4096 * n \<le> 3221225472" using nx(3) [OF b] Suc.prems(3) by simp
    then obtain st2 L2 F2 where h: "grow_loop n (i + 1) (va + PGSIZE) pd st1 =
        Some (if min n (user_free (ks st1)) = n then None else Some (i + 1 + min n (user_free (ks st1))),
          va + PGSIZE + of_nat (min n (user_free (ks st1))) * PGSIZE, st2)"
      "heap_grown st1 pd (Old \<union> L) F1 (unat (pg_no va) + 1) (min n (user_free (ks st1))) L2 F2 st2"
      "user_free (ks st1) = min n (user_free (ks st1)) + user_free (ks st2)"
      using Suc.IH [OF G(1) nx(1) [OF b] _ _ F1, of "i + 1"] ram_ok_env [OF G(2)] Suc.prems(4) nx(2) [OF b] by auto
    have "heap_grown st pd Old F (unat (pg_no va)) (min (Suc n) (user_free (ks st))) (L \<union> L2) F2 st2"
      using heap_grown_trans [OF g(4) h(2)] g(5) by simp
    moreover have "grow_loop (Suc n) i va pd st =
        Some (if min (Suc n) (user_free (ks st)) = Suc n then None else Some (i + min (Suc n) (user_free (ks st))),
          va + of_nat (min (Suc n) (user_free (ks st))) * PGSIZE, st2)"
      using g(1,2,3,5) h(1) by (simp add: algebra_simps)
    ultimately show ?thesis using h(3) g(5) by (intro exI [of _ st2] exI [of _ "L \<union> L2"] exI [of _ F2]) simp
  qed
qed

section \<open>Releasing\<close>

definition without :: "mapping \<Rightarrow> nat \<Rightarrow> nat \<Rightarrow> mapping" where
  "without F lo hi = (\<lambda>k. if lo \<le> unat k \<and> unat k < hi then None else F k)"

lemma without_empty [simp]: "without F hi hi = F"
  by (rule ext) (auto simp: without_def)

lemma without_top: "lo \<le> unat n \<Longrightarrow> without (F(n := None)) lo (unat n) = without F lo (Suc (unat n))"
  by (rule ext) (auto simp: without_def less_Suc_eq word_unat_eq_iff)

lemma without_frames: "frames_of (without F lo hi) \<subseteq> frames_of F"
  by (auto simp: without_def frames_of_def split: if_splits)

lemma previous_page:
  assumes "aligned va" "0 < unat (pg_no va)"
  shows "aligned (va - PGSIZE)" "unat (pg_no (va - PGSIZE)) = unat (pg_no va) - 1" "unat (va - PGSIZE) = unat va - 4096"
proof -
  have "4096 \<le> unat va" using assms(2) by (simp add: unat_pg_no div_greater_zero_iff)
  then show u: "unat (va - PGSIZE) = unat va - 4096"
    by (subst unat_sub) (simp_all add: PGSIZE_def PGBITS_def word_le_nat_alt)
  show "aligned (va - PGSIZE)" using assms(1) \<open>4096 \<le> unat va\<close> by (simp add: aligned_def u mod_if [of "unat va"])
  show "unat (pg_no (va - PGSIZE)) = unat (pg_no va) - 1" by (simp add: unat_pg_no u div_if [of "unat va"])
qed

lemma release_loop_ok:
  assumes "uspace st pd Old F" "aligned va" "is_user_vaddr va" "cr3 st < PHYS_BASE" "n \<le> unat (pg_no va)"
  shows "\<exists>st'. release_loop n va pd st = Some (va - of_nat n * PGSIZE, st') \<and>
    uspace st' pd Old (without F (Suc (unat (pg_no va)) - n) (Suc (unat (pg_no va)))) \<and> same_env st st' \<and>
    same_on (Old \<union> frames_of (without F (Suc (unat (pg_no va)) - n) (Suc (unat (pg_no va))))) st st' \<and>
    all_pages (ks st) \<subseteq> all_pages (ks st') \<union> frames_of F"
  using assms
proof (induction n arbitrary: va st F)
  case 0
  then show ?case by simp
next
  case (Suc n)
  obtain st1 where 1: "release_page pd va st = Some st1" "uspace st1 pd Old (F(pg_no va := None))" "same_env st st1"
    "same_on (Old \<union> frames_of (F(pg_no va := None))) st st1" "all_pages (ks st) \<subseteq> all_pages (ks st1) \<union> frames_of F"
    using release_page_ok [OF Suc.prems(1-4)] by blast
  have p: "0 < unat (pg_no va)" using Suc.prems(5) by simp
  note pv = previous_page [OF Suc.prems(2) p]
  let ?b = "Suc (unat (pg_no va)) - Suc n" and ?G = "without F (Suc (unat (pg_no va)) - Suc n) (Suc (unat (pg_no va)))"
  have us: "is_user_vaddr (va - PGSIZE)"
    using Suc.prems(3) pv(3) by (simp add: is_user_vaddr_def word_less_nat_alt)
  have c: "cr3 st1 < PHYS_BASE" using Suc.prems(4) 1(3) by (simp add: same_env_def)
  have nn: "n \<le> unat (pg_no (va - PGSIZE))" using Suc.prems(5) pv(2) by linarith
  have e: "without (F(pg_no va := None)) (Suc (unat (pg_no (va - PGSIZE))) - n) (Suc (unat (pg_no (va - PGSIZE)))) = ?G"
  proof -
    have "Suc (unat (pg_no (va - PGSIZE))) = unat (pg_no va)" using pv(2) p by simp
    then show ?thesis using without_top [of "unat (pg_no va) - n" "pg_no va" F] by simp
  qed
  obtain st2 where 2: "release_loop n (va - PGSIZE) pd st1 = Some (va - PGSIZE - of_nat n * PGSIZE, st2)"
    "uspace st2 pd Old ?G" "same_env st1 st2" "same_on (Old \<union> frames_of ?G) st1 st2"
    "all_pages (ks st1) \<subseteq> all_pages (ks st2) \<union> frames_of (F(pg_no va := None))"
    using Suc.IH [OF 1(2) pv(1) us c nn] unfolding e by blast
  have "frames_of ?G \<subseteq> frames_of (F(pg_no va := None))"
    using without_frames [of "F(pg_no va := None)"] unfolding e [symmetric] by blast
  then have "same_on (Old \<union> frames_of ?G) st st2" by (intro same_on_trans [OF same_on_subset [OF 1(4)] 2(4)]) blast+
  moreover have "va - PGSIZE - of_nat n * PGSIZE = va - of_nat (Suc n) * PGSIZE" by (simp add: algebra_simps)
  moreover have "frames_of (F(pg_no va := None)) \<subseteq> frames_of F" by (auto simp: frames_of_def split: if_splits)
  then have "all_pages (ks st) \<subseteq> all_pages (ks st2) \<union> frames_of F" using 1(5) 2(5) by blast
  ultimately show ?case using 1(1) 2 same_env_trans [OF 1(3) 2(3)] by simp
qed

section \<open>The system call\<close>

lemma undo_grown: "heap_grown st pd Old F a m L F' st' \<Longrightarrow> without F' a (a + m) = F"
  using heap_grownD(6,7) [of st pd Old F a m L F' st'] by (intro ext) (simp add: without_def)

lemma page_after:
  assumes "unat b + 4096 < 4294967296"
  shows "unat (pg_round_up (b + 1)) = 4096 * (unat (pg_no b) + 1)" "aligned (pg_round_up (b + 1))"
    "unat (pg_no (pg_round_up (b + 1))) = unat (pg_no b) + 1"
proof -
  have "unat (b + 1 + PGSIZE - 1) = unat b + 4096"
    using assms by (subst add.commute, simp, subst unat_add_lem [THEN iffD1]) (simp_all add: PGSIZE_def PGBITS_def)
  moreover have "(unat b + 4096) div 4096 = unat b div 4096 + 1" by simp
  ultimately show u: "unat (pg_round_up (b + 1)) = 4096 * (unat (pg_no b) + 1)"
    using unat_pg_round_down [of "b + 1 + PGSIZE - 1"] by (simp add: pg_round_up_def pg_round_down_def unat_pg_no)
  then show "aligned (pg_round_up (b + 1))" "unat (pg_no (pg_round_up (b + 1))) = unat (pg_no b) + 1"
    by (simp_all add: aligned_def unat_pg_no)
qed

lemma page_count: "nat (uint (pg_no b) - uint (pg_no a)) = unat (pg_no b) - unat (pg_no a)"
  unfolding uint_nat by linarith

text \<open>
  The first page of the heap that a growth asks for, and the end of the pages after a break.
\<close>

definition heap_next :: "uthread \<Rightarrow> nat" where
  "heap_next t = (if start_of_heap t = segment_break t then unat (pg_no (start_of_heap t)) else unat (pg_no (segment_break t)) + 1)"

definition sbrk_pages :: "uthread \<Rightarrow> nat \<Rightarrow> nat" where
  "sbrk_pages t d = (unat (segment_break t) + d) div 4096 + 1 - heap_next t"

definition sbrk_done :: "int \<Rightarrow> uthread \<Rightarrow> uthread" where
  "sbrk_done d t = t\<lparr>previous_break := segment_break t, segment_break := segment_break t + word_of_int d\<rparr>"

lemma break_plus:
  assumes "unat b + d < 4294967296"
  shows "unat ((b :: u32) + word_of_int (int d)) = unat b + d"
  using assms by (subst unat_add_lem [THEN iffD1]) (simp_all add: unat_word_of_nat_32)

text \<open>The first page is asked for on its own.\<close>

definition first_page :: "uthread \<Rightarrow> pstate \<Rightarrow> (bool \<times> pstate) option" where
  "first_page t st =
     (if start_of_heap t = segment_break t
      then do {
        (page, k) \<leftarrow> palloc_get_page (PAL_ZERO OR PAL_USER) (ks st);
        (if page = 0 then Some (False, st\<lparr>ks := k\<rparr>)
         else do {
           (_, st') \<leftarrow> pagedir_set_page (pagedir t) (start_of_heap t) page True (st\<lparr>ks := k\<rparr>);
           Some (True, st')
         })
      }
      else Some (True, st))"

lemma alloc_unfold:
  "alloc inc t st = do {
     (ok, st1) \<leftarrow> first_page t st;
     (if \<not> ok then Some (SBRK_ERROR, t, st1)
      else do {
        (j, ptalloc, st2) \<leftarrow> grow_loop (unat (pg_no (segment_break t + word_of_int inc)) - unat (pg_no (segment_break t))) 0
          (pg_round_up (segment_break t + 1)) (pagedir t) st1;
        (case j of
           Some j \<Rightarrow> do {
             st3 \<leftarrow> (if start_of_heap t = segment_break t then release_page (pagedir t) (start_of_heap t) st2 else Some st2);
             (_, st4) \<leftarrow> release_loop j (ptalloc - PGSIZE) (pagedir t) st3;
             Some (SBRK_ERROR, t, st4)
           }
         | None \<Rightarrow> Some (segment_break t, sbrk_done inc t, st2))
      })
   }"
  unfolding alloc_def first_page_def Let_def page_count sbrk_done_def
  by (cases "start_of_heap t = segment_break t") (auto intro!: Option.bind_cong split: prod.splits)

lemma first_page_ok:
  assumes u: "uspace st (pagedir t) Old F" and ro: "ram_ok st" and s: "aligned (start_of_heap t)" "is_user_vaddr (start_of_heap t)"
    and F: "start_of_heap t = segment_break t \<longrightarrow> F (pg_no (start_of_heap t)) = None"
  shows "first_page t st = Some (False, st) \<and> start_of_heap t = segment_break t \<and> user_free (ks st) = 0 \<or>
    (\<exists>st' L F'. first_page t st = Some (True, st') \<and>
       heap_grown st (pagedir t) Old F (heap_next t) (unat (pg_no (segment_break t)) + 1 - heap_next t) L F' st' \<and>
       user_free (ks st) = user_free (ks st') + (unat (pg_no (segment_break t)) + 1 - heap_next t))"
proof (cases "start_of_heap t = segment_break t")
  case True
  from grow_step [OF u s mp [OF F True] ro] show ?thesis
  proof (elim disjE exE conjE)
    fix page k ok st' L F'
    assume g: "palloc_get_page (PAL_ZERO OR PAL_USER) (ks st) = Some (page, k)" "page \<noteq> 0"
      "pagedir_set_page (pagedir t) (start_of_heap t) page True (st\<lparr>ks := k\<rparr>) = Some (ok, st')"
      "heap_grown st (pagedir t) Old F (unat (pg_no (start_of_heap t))) 1 L F' st'" "user_free (ks st) = Suc (user_free (ks st'))"
    have "heap_next t = unat (pg_no (start_of_heap t))" using True by (simp add: heap_next_def)
    then show ?thesis using g True
      by (intro disjI2 exI [of _ st'] exI [of _ L] exI [of _ F']) (simp add: first_page_def)
  qed (use True in \<open>simp add: first_page_def\<close>)
next
  case False
  then show ?thesis using heap_grown_refl [OF u]
    by (intro disjI2 exI [of _ st] exI [of _ "{}"] exI [of _ F]) (simp add: first_page_def heap_next_def)
qed

lemma without_one: "without F (unat n) (unat n + 1) = F(n := None)"
  by (rule ext) (auto simp: without_def word_unat_eq_iff)

lemma without_without: "a \<le> b \<Longrightarrow> b \<le> c \<Longrightarrow> without (without F a b) b c = without F a c"
  by (rule ext) (auto simp: without_def)

lemma release_first:
  assumes u: "uspace st (pagedir t) Old F" and s: "aligned (start_of_heap t)" "is_user_vaddr (start_of_heap t)" and c: "cr3 st < PHYS_BASE"
  shows "\<exists>st'. (if start_of_heap t = segment_break t then release_page (pagedir t) (start_of_heap t) st else Some st) = Some st' \<and>
    uspace st' (pagedir t) Old (without F (heap_next t) (unat (pg_no (segment_break t)) + 1)) \<and> same_env st st' \<and>
    same_on (Old \<union> frames_of (without F (heap_next t) (unat (pg_no (segment_break t)) + 1))) st st' \<and>
    all_pages (ks st) \<subseteq> all_pages (ks st') \<union> frames_of F"
proof (cases "start_of_heap t = segment_break t")
  case True
  then show ?thesis using release_page_ok [OF u s c] without_one [of F "pg_no (segment_break t)"] by (auto simp: heap_next_def)
next
  case False
  then show ?thesis using u by (simp add: heap_next_def)
qed

lemma pages_later:
  assumes "unat va + 4096 * m < 4294967296" "4096 \<le> unat va"
  shows "unat (va + of_nat m * PGSIZE - PGSIZE) = unat va + 4096 * m - 4096"
proof -
  have "unat (of_nat m * PGSIZE) = 4096 * m"
    using assms(1) unat_word_of_nat_32 [of "4096 * m"] by (simp add: PGSIZE_def PGBITS_def mult.commute)
  then have "unat (va + of_nat m * PGSIZE) = unat va + 4096 * m"
    using assms(1) by (subst unat_add_lem [THEN iffD1]) simp_all
  then show ?thesis using assms(2) by (subst unat_sub) (simp_all add: PGSIZE_def PGBITS_def word_le_nat_alt)
qed

text \<open>The heap lies in the user part of the address space, and the pages that a growth asks for are not mapped.\<close>

definition heap_at :: "uthread \<Rightarrow> pstate \<Rightarrow> bool" where
  "heap_at t st \<longleftrightarrow> aligned (start_of_heap t) \<and> start_of_heap t \<le> segment_break t \<and> segment_break t < PHYS_BASE \<and>
     ram_ok st \<and> cr3 st < PHYS_BASE"

lemma heap_atD:
  assumes "heap_at t st"
  shows "aligned (start_of_heap t)" "is_user_vaddr (start_of_heap t)" "ram_ok st" "cr3 st < PHYS_BASE"
    "unat (segment_break t) < 3221225472" "unat (start_of_heap t) \<le> unat (segment_break t)"
    "heap_next t \<le> unat (pg_no (segment_break t)) + 1"
  using assms div_le_mono [of "unat (start_of_heap t)" "unat (segment_break t)" 4096]
  by (auto simp: heap_at_def is_user_vaddr_def word_le_nat_alt word_less_nat_alt PHYS_BASE_def heap_next_def unat_pg_no)

text \<open>A growth that cannot be completed is undone.\<close>

lemma grow_undone:
  assumes g: "heap_grown st (pagedir t) Old F (heap_next t) (m1 + m) L F2 st2" and h: "heap_at t st"
    and m1: "heap_next t + m1 = unat (pg_no (segment_break t)) + 1" and m: "unat (pg_no (segment_break t)) + m < 786432"
  shows "\<exists>st3 va st4. (if start_of_heap t = segment_break t then release_page (pagedir t) (start_of_heap t) st2 else Some st2) = Some st3 \<and>
    release_loop m (pg_round_up (segment_break t + 1) + of_nat m * PGSIZE - PGSIZE) (pagedir t) st3 = Some (va, st4) \<and>
    uspace st4 (pagedir t) (Old \<union> L) F \<and> same_env st st4 \<and> same_on (Old \<union> frames_of F) st st4 \<and>
    (\<not> pool_full False (ks st4) \<longrightarrow> L = {})"
proof -
  note H = heap_atD [OF h] and K = heap_grownD [OF g]
  let ?b = "segment_break t" and ?pd = "pagedir t" and ?a = "heap_next t" and ?O = "Old \<union> L"
  let ?p = "unat (pg_no ?b)"
  let ?G = "without F2 ?a (?p + 1)"
  have "unat ?b + 4096 < 4294967296" using H(5) by simp
  note pa = page_after [OF this]
  have c2: "cr3 st2 < PHYS_BASE" using K(2) H(4) by (simp add: same_env_def)
  obtain st3 where r: "(if start_of_heap t = ?b then release_page ?pd (start_of_heap t) st2 else Some st2) = Some st3"
    "uspace st3 ?pd ?O ?G" "same_env st2 st3" "same_on (?O \<union> frames_of ?G) st2 st3"
    "all_pages (ks st2) \<subseteq> all_pages (ks st3) \<union> frames_of F2"
    using release_first [OF K(1) H(1,2) c2] by blast
  define va where "va = pg_round_up (?b + 1) + of_nat m * PGSIZE - PGSIZE"
  have uva: "unat va = 4096 * (?p + m)"
    using pages_later [of "pg_round_up (?b + 1)" m] pa(1) m by (simp add: va_def)
  then have va: "aligned va" "is_user_vaddr va" "unat (pg_no va) = ?p + m"
    using m by (simp_all add: aligned_def unat_pg_no is_user_vaddr_def PHYS_BASE_def word_less_nat_alt)
  have c3: "cr3 st3 < PHYS_BASE" using c2 r(3) by (simp add: same_env_def)
  have e: "Suc (?p + m) - m = ?p + 1" "Suc (?p + m) = ?a + (m1 + m)" using m1 by simp_all
  have le: "?p + 1 \<le> ?a + (m1 + m)" using m1 by simp
  have wF: "without ?G (Suc (unat (pg_no va)) - m) (Suc (unat (pg_no va))) = F"
    unfolding va(3) e(1) unfolding e(2) without_without [OF H(7) le] by (rule undo_grown [OF g])
  obtain st4 where l: "release_loop m va ?pd st3 = Some (va - of_nat m * PGSIZE, st4)"
    "uspace st4 ?pd ?O F" "same_env st3 st4" "same_on (?O \<union> frames_of F) st3 st4"
    "all_pages (ks st3) \<subseteq> all_pages (ks st4) \<union> frames_of ?G"
    using release_loop_ok [OF r(2) va(1,2) c3, of m] wF va(3) by auto
  have FG: "frames_of F \<subseteq> frames_of ?G" using without_frames [of ?G] wF by metis
  have "same_on (Old \<union> frames_of F) st st4"
    by (rule same_on_trans [OF same_on_trans [OF K(3) r(4)] l(4)]) (use FG in blast)+
  moreover have "\<not> pool_full False (ks st4) \<longrightarrow> L = {}"
  proof -
    have sp: "same_pools (ks st) (ks st2)" "same_pools (ks st2) (ks st4)"
      using K(2) same_env_trans [OF r(3) l(3)] by (simp_all add: same_env_def)
    have "all_pages (ks st2) \<subseteq> all_pages (ks st4) \<union> frames_of F2"
      using r(5) l(5) without_frames [of F2 ?a "?p + 1"] by blast
    moreover have "frames_of F \<subseteq> all_pages (ks st4)" using uspaceD(10) [OF l(2)] by blast
    ultimately have in4: "q \<in> all_pages (ks st4)" if "q \<in> all_pages (ks st2)" "in_pool False (ks st2) q" for q
      using that K(11) [of q] in_pool_user(2) [OF uspaceD(2) [OF K(1)], of q] in_pool_same [OF sp(1), of True q] by blast
    have "pool_full False (ks st4)" if "pool_full False (ks st2)"
      using that in4 in_pool_same [OF sp(2), of False] by (auto simp: pool_full_def)
    then show ?thesis using K(9) by blast
  qed
  ultimately show ?thesis using r(1) l(1,2) same_env_trans [OF same_env_trans [OF K(2) r(3)] l(3)] unfolding va_def by blast
qed

lemma alloc_ok:
  assumes u: "uspace st (pagedir t) Old F" and h: "heap_at t st" and d: "unat (segment_break t) + d < 3221225472"
    and F: "\<And>k. heap_next t \<le> unat k \<Longrightarrow> unat k < heap_next t + sbrk_pages t d \<Longrightarrow> F k = None"
  shows "if sbrk_pages t d \<le> user_free (ks st)
    then \<exists>st' L F'. alloc (int d) t st = Some (segment_break t, sbrk_done (int d) t, st') \<and>
      heap_grown st (pagedir t) Old F (heap_next t) (sbrk_pages t d) L F' st' \<and> user_free (ks st) = sbrk_pages t d + user_free (ks st')
    else \<exists>st' L. alloc (int d) t st = Some (SBRK_ERROR, t, st') \<and> uspace st' (pagedir t) (Old \<union> L) F \<and> same_env st st' \<and>
      same_on (Old \<union> frames_of F) st st' \<and> L \<inter> all_pages (ks st) = {} \<and>
      (\<not> pool_full False (ks st') \<longrightarrow> L = {})"
proof -
  note H = heap_atD [OF h]
  let ?pd = "pagedir t" and ?b = "segment_break t" and ?a = "heap_next t"
  let ?p = "unat (pg_no ?b)" and ?n = "(unat ?b + d) div 4096 - unat (pg_no ?b)"
  define m1 where "m1 = ?p + 1 - ?a"
  have m1: "?a + m1 = ?p + 1" using H(7) by (simp add: m1_def)
  have pn: "unat (pg_no (?b + word_of_int (int d))) = (unat ?b + d) div 4096" using d break_plus [of ?b d] by (simp add: unat_pg_no)
  have "?p \<le> (unat ?b + d) div 4096" unfolding unat_pg_no by (rule div_le_mono) simp
  then have w: "sbrk_pages t d = m1 + ?n" using m1 by (simp add: sbrk_pages_def m1_def)
  have "unat ?b + 4096 < 4294967296" using H(5) by simp
  note pa = page_after [OF this]
  have F0: "start_of_heap t = ?b \<longrightarrow> F (pg_no (start_of_heap t)) = None"
    using m1 w by (intro impI F) (simp_all add: heap_next_def)
  note un = alloc_unfold [of "int d" t st, unfolded pn]
  from first_page_ok [OF u H(3,1,2) F0] show ?thesis
  proof (elim disjE exE conjE)
    assume f: "first_page t st = Some (False, st)" "start_of_heap t = ?b" "user_free (ks st) = 0"
    have "m1 = 1" using f(2) by (simp add: m1_def heap_next_def)
    then have "\<not> sbrk_pages t d \<le> user_free (ks st)" using f(3) w by simp
    moreover have "alloc (int d) t st = Some (SBRK_ERROR, t, st)" unfolding un by (simp add: f(1))
    ultimately show ?thesis using u by (simp del: Un_iff) (intro exI [of _ "{}"], simp)
  next
    fix st1 L1 F1
    assume f: "first_page t st = Some (True, st1)" "heap_grown st ?pd Old F ?a (?p + 1 - ?a) L1 F1 st1"
      "user_free (ks st) = user_free (ks st1) + (?p + 1 - ?a)"
    note f = f [folded m1_def] and G = heap_grownD [OF f(2), folded m1_def]
    have F1: "\<forall>k. unat (pg_no (pg_round_up (?b + 1))) \<le> unat k \<and> unat k < unat (pg_no (pg_round_up (?b + 1))) + ?n \<longrightarrow> F1 k = None"
    proof (intro allI impI)
      fix k :: u32 assume k: "unat (pg_no (pg_round_up (?b + 1))) \<le> unat k \<and> unat k < unat (pg_no (pg_round_up (?b + 1))) + ?n"
      have "F1 k = F k" using k pa(3) m1 by (intro G(7)) simp
      moreover have "F k = None" using k pa(3) m1 w by (intro F) simp_all
      ultimately show "F1 k = None" by simp
    qed
    define m where "m = min ?n (user_free (ks st1))"
    have "?p + ?n = (unat ?b + d) div 4096" using \<open>?p \<le> _\<close> by simp
    then have top: "?p + ?n < 786432" using d by (simp add: div_less_iff_less_mult del: add_diff_inverse_nat)
    then have bnd: "unat (pg_round_up (?b + 1)) + 4096 * ?n \<le> 3221225472" using pa(1) by simp
    have ro1: "ram_ok st1" using ram_ok_env [OF G(2)] H(3) by simp
    obtain st2 L2 F2 where g: "grow_loop ?n 0 (pg_round_up (?b + 1)) ?pd st1 =
        Some (if m = ?n then None else Some m, pg_round_up (?b + 1) + of_nat m * PGSIZE, st2)"
      "heap_grown st1 ?pd (Old \<union> L1) F1 (?a + m1) m L2 F2 st2" "user_free (ks st1) = m + user_free (ks st2)"
      using grow_loop_ok [OF G(1) pa(2) bnd ro1 F1, of 0] unfolding m_def [symmetric] pa(3) m1 [symmetric] add_0 by blast
    note gt = heap_grown_trans [OF f(2) g(2)]
    show ?thesis
    proof (cases "m = ?n")
      case True
      then have "sbrk_pages t d \<le> user_free (ks st)" "user_free (ks st) = sbrk_pages t d + user_free (ks st2)"
        using f(3) g(3) w by linarith+
      moreover have "alloc (int d) t st = Some (segment_break t, sbrk_done (int d) t, st2)"
        unfolding un using f(1) g(1) True by simp
      moreover have "heap_grown st ?pd Old F ?a (sbrk_pages t d) (L1 \<union> L2) F2 st2" using gt True w by simp
      ultimately show ?thesis by auto
    next
      case False
      then have m: "m < ?n" "m = user_free (ks st1)" unfolding m_def by (simp_all add: min_def split: if_splits)
      have no: "\<not> sbrk_pages t d \<le> user_free (ks st)" using f(3) w m by linarith
      have "?p + m < 786432" using top m by simp
      then obtain st3 va st4 where l: "(if start_of_heap t = ?b then release_page ?pd (start_of_heap t) st2 else Some st2) = Some st3"
        "release_loop m (pg_round_up (?b + 1) + of_nat m * PGSIZE - PGSIZE) ?pd st3 = Some (va, st4)"
        "uspace st4 ?pd (Old \<union> (L1 \<union> L2)) F" "same_env st st4" "same_on (Old \<union> frames_of F) st st4"
        "\<not> pool_full False (ks st4) \<longrightarrow> L1 \<union> L2 = {}"
        using grow_undone [OF gt h m1] by blast
      have "alloc (int d) t st = Some (SBRK_ERROR, t, st4)" unfolding un using f(1) g(1) False l(1,2) by simp
      then show ?thesis using no l(3-6) heap_grownD(5) [OF gt] by auto
    qed
  qed
qed

lemma break_minus:
  assumes "d \<le> unat b"
  shows "unat ((b :: u32) + word_of_int (- int d)) = unat b - d"
proof -
  have "unat (of_nat d :: u32) = d" using assms unat_u32_less [of b] by (intro unat_word_of_nat_32) linarith
  then show ?thesis using assms by (simp add: unat_sub word_le_nat_alt)
qed

lemma pages_earlier:
  assumes "4096 * m \<le> unat va"
  shows "unat (va - of_nat m * PGSIZE) = unat va - 4096 * m"
proof -
  have "4096 * m < 4294967296" using assms unat_u32_less [of va] by linarith
  then have "unat (of_nat m * PGSIZE) = 4096 * m"
    using unat_word_of_nat_32 [of "4096 * m"] by (simp add: PGSIZE_def PGBITS_def mult.commute)
  then show ?thesis using assms by (simp add: unat_sub word_le_nat_alt)
qed

lemma div_plus_4095: "(n + 4095) div 4096 = (if n mod 4096 = 0 then n div 4096 else n div 4096 + 1 :: nat)"
proof (cases "n mod 4096 = 0")
  case True
  then obtain k where "n = 4096 * k" by auto
  then have "(n + 4095) div 4096 = n div 4096" by simp
  then show ?thesis using True by simp
next
  case False
  define k r where "k = n div 4096" and "r = n mod 4096"
  then have "n = 4096 * k + r" "0 < r" "r < 4096" using False by simp_all
  then have "(n + 4095) div 4096 = k + 1" by (intro div_nat_eqI) simp_all
  then show ?thesis using False by (simp add: k_def)
qed

lemma dealloc_ok:
  assumes u: "uspace st (pagedir t) Old F" and h: "heap_at t st" and d: "unat (start_of_heap t) + d \<le> unat (segment_break t)"
  defines "G \<equiv> without F ((unat (segment_break t) - d + 4095) div 4096) (unat (pg_no (segment_break t)) + 1)"
  shows "\<exists>st'. dealloc (- int d) t st = Some (segment_break t, sbrk_done (- int d) t, st') \<and> uspace st' (pagedir t) Old G \<and>
    same_env st st' \<and> same_on (Old \<union> frames_of G) st st'"
proof -
  note H = heap_atD [OF h]
  let ?pd = "pagedir t" and ?b = "segment_break t" and ?new = "segment_break t + word_of_int (- int d)"
  define p q where "p = unat (pg_no ?b)" and "q = unat (pg_no ?new)"
  have new: "unat ?new = unat ?b - d" using d by (intro break_minus) linarith
  have q: "q = (unat ?b - d) div 4096" by (simp only: q_def unat_pg_no new)
  have qp: "q \<le> p" unfolding q p_def unat_pg_no by (rule div_le_mono) simp
  have lt: "\<not> ?new < start_of_heap t" using d unfolding word_less_nat_alt new by linarith
  have va: "aligned (pg_round_down ?b)" "is_user_vaddr (pg_round_down ?b)" "unat (pg_no (pg_round_down ?b)) = p" "unat (pg_round_down ?b) = 4096 * p"
    using H(5) by (simp_all add: aligned_def unat_pg_round_down is_user_vaddr_def word_less_nat_alt PHYS_BASE_def unat_pg_no p_def)
  let ?va = "pg_round_down ?b - of_nat (p - q) * PGSIZE" and ?G = "without F (q + 1) (p + 1)"
  have e: "Suc p - (p - q) = q + 1" "Suc p = p + 1" using qp by simp_all
  obtain st1 where l: "release_loop (p - q) (pg_round_down ?b) ?pd st = Some (?va, st1)" "uspace st1 ?pd Old ?G" "same_env st st1"
    "same_on (Old \<union> frames_of ?G) st st1"
    using release_loop_ok [OF u va(1,2) H(4), of "p - q"] unfolding va(3) e(1) unfolding e(2) using diff_le_self by blast
  define dv where "dv = dealloc (- int d) t st"
  have dv: "dv = do {
      st2 \<leftarrow> (if pg_ofs ?new = 0 then release_page ?pd ?va st1 else Some st1);
      Some (?b, sbrk_done (- int d) t, st2)
    }"
    unfolding dv_def dealloc_def Let_def page_count using lt l(1) by (simp only: if_False p_def q_def sbrk_done_def) simp
  show ?thesis
  proof (cases "pg_ofs ?new = 0")
    case False
    then have "unat (pg_ofs ?new) \<noteq> 0" by (simp add: unat_eq_zero)
    then have "(unat ?b - d) mod 4096 \<noteq> 0" unfolding unat_pg_ofs new .
    then have "(unat ?b - d + 4095) div 4096 = q + 1" unfolding q div_plus_4095 by (simp only: if_False)
    then have "?G = G" unfolding G_def p_def by (simp only:)
    then show ?thesis using l(2-4) dv False by (simp add: dv_def)
  next
    case True
    then have "unat (pg_ofs ?new) = 0" by simp
    then have m0: "(unat ?b - d) mod 4096 = 0" unfolding unat_pg_ofs new .
    then have c: "(unat ?b - d + 4095) div 4096 = q" unfolding q div_plus_4095 by (simp only: if_True simp_thms)
    have uva: "unat ?va = 4096 * q" using pages_earlier [of "p - q" "pg_round_down ?b"] va(4) qp by (simp add: algebra_simps)
    have al: "aligned ?va" "is_user_vaddr ?va" "unat (pg_no ?va) = q"
      using uva va(2,4) qp by (simp_all add: aligned_def is_user_vaddr_def word_less_nat_alt unat_pg_no)
    have c1: "cr3 st1 < PHYS_BASE" using H(4) l(3) by (simp add: same_env_def)
    have g: "?G(pg_no ?va := None) = G"
      unfolding G_def c using al(3) qp by (auto simp: without_def fun_eq_iff word_unat_eq_iff p_def)
    obtain st2 where r: "release_page ?pd ?va st1 = Some st2" "uspace st2 ?pd Old G" "same_env st1 st2" "same_on (Old \<union> frames_of G) st1 st2"
      using release_page_ok [OF l(2) al(1,2) c1] unfolding g by blast
    have "frames_of G \<subseteq> frames_of ?G" unfolding g [symmetric] by (auto simp: frames_of_def split: if_splits)
    then have "same_on (Old \<union> frames_of G) st st2" by (intro same_on_trans [OF same_on_subset [OF l(4)] r(4)]) blast+
    then show ?thesis using dv True r same_env_trans [OF l(3) r(3)] by (simp add: dv_def)
  qed
qed

text \<open>The break can be moved below zero: the sum wraps.\<close>

lemma break_wraps:
  assumes "unat b < d" "d \<le> 4294967296"
  shows "unat ((b :: u32) + word_of_int (- int d)) = unat b + 4294967296 - d"
proof -
  have "(word_of_int (int (4294967296 - d)) :: u32) = word_of_int (4294967296 - int d)" using assms(2) by (simp add: of_nat_diff)
  also have "\<dots> = word_of_int (- int d)" by (simp flip: wi_hom_sub)
  finally have w: "(word_of_int (int (4294967296 - d)) :: u32) = word_of_int (- int d)" .
  have "unat b + (4294967296 - d) < 4294967296" "unat b + (4294967296 - d) = unat b + 4294967296 - d" using assms by linarith+
  then show ?thesis using break_plus [of b "4294967296 - d"] unfolding w by (simp only:)
qed

lemma first_page_other: "start_of_heap t \<noteq> segment_break t \<Longrightarrow> first_page t st = Some (True, st)"
  by (simp add: first_page_def)

lemma dealloc_wraps:
  assumes h: "heap_at t st" and d: "unat (segment_break t) < d" "3221225472 + d \<le> unat (segment_break t) + 4294967296"
    and o: "(unat (segment_break t) + 4294967296 - d) mod 4096 \<noteq> 0"
  shows "dealloc (- int d) t st = Some (segment_break t, sbrk_done (- int d) t, st)"
proof -
  note H = heap_atD [OF h]
  let ?b = "segment_break t" and ?new = "segment_break t + word_of_int (- int d)"
  have "d \<le> 4294967296" using d(2) H(5) by linarith
  note new = break_wraps [OF d(1) this]
  have "\<not> ?new < start_of_heap t" unfolding word_less_nat_alt new using H(5,6) d by linarith
  moreover have "pg_ofs ?new \<noteq> 0" using o unfolding unat_eq_zero [symmetric] unat_pg_ofs new .
  moreover have "unat (pg_no ?b) - unat (pg_no ?new) = 0"
    unfolding unat_pg_no new using div_le_mono [of "unat ?b" "unat ?b + 4294967296 - d" 4096] H(5) d by simp
  ultimately show ?thesis unfolding dealloc_def Let_def page_count sbrk_done_def
    by (simp only: if_False release_loop.simps Option.bind.bind_lunit prod.case)
qed

lemma grow_kernel_panics:
  assumes u: "uspace st pd Old F" and f: "0 < user_free (ks st)" and va: "\<not> is_user_vaddr va"
  shows "grow_loop (Suc n) i va pd st = None"
proof -
  have "palloc_get_page (PAL_ZERO OR PAL_USER) (ks st) \<noteq> None"
    using get_spare [OF u user_flags(1)] by auto
  then obtain page k where g: "palloc_get_page (PAL_ZERO OR PAL_USER) (ks st) = Some (page, k)" by auto
  then have "page \<noteq> 0" using get_user_page [OF uspaceD(2) [OF u] g] f by auto
  moreover have "pagedir_set_page pd va page True (st\<lparr>ks := k\<rparr>) = None" using va by (simp add: pagedir_set_page_def)
  ultimately show ?thesis using g by simp
qed

section \<open>The properties\<close>

text \<open>Pages of zeros, writable, added to a memory image.\<close>

definition zero_pages :: "nat \<Rightarrow> nat \<Rightarrow> image \<Rightarrow> image" where
  "zero_pages a n M = (\<lambda>k. if a \<le> unat k \<and> unat k < a + n then Some (replicate 4096 0, True) else M k)"

lemma heap_grown_image:
  assumes "heap_grown st pd Old F a m L F' st'" "\<not> pool_full False (ks st')"
  shows "image_of st' F' = zero_pages a m (image_of st F)"
proof (rule ext)
  fix k
  note G = heap_grownD [OF assms(1)]
  show "image_of st' F' k = zero_pages a m (image_of st F) k"
  proof (cases "a \<le> unat k \<and> unat k < a + m")
    case True
    then obtain kp w where "F' k = Some (kp, w)" using G(10) [OF assms(2), of k] by auto
    then show ?thesis using G(8) [of k "(kp, w)"] True by (simp add: image_of_def zero_pages_def)
  next
    case False
    then have "F' k = F k" by (rule G(7))
    then have "image_of st' F' k = image_of st' F k" by (simp add: image_of_def)
    also have "image_of st' F = image_of st F" using G(3) by (rule same_on_image) simp
    finally show ?thesis using False unfolding zero_pages_def by (simp only: if_False)
  qed
qed

lemma heap_at_step:
  assumes "heap_at t st" "same_env st st'" "start_of_heap t \<le> b" "b < PHYS_BASE"
  shows "heap_at (t\<lparr>previous_break := p, segment_break := b\<rparr>) st'"
  using assms ram_ok_env [OF assms(2)] by (auto simp: heap_at_def same_env_def)

lemma image_without: "image_of st (without F lo hi) = (\<lambda>k. if lo \<le> unat k \<and> unat k < hi then None else image_of st F k)"
  by (rule ext) (simp add: image_of_def without_def)

lemma div_plus_small: "n mod 4096 + e < 4096 \<Longrightarrow> (n + e) div 4096 = (n div 4096 :: nat)"
proof -
  assume a: "n mod 4096 + e < 4096"
  define k r where "k = n div 4096" and "r = n mod 4096"
  then have "n = 4096 * k + r" by simp
  moreover have "(4096 * k + (r + e)) div 4096 = k" using a by (simp add: r_def [symmetric])
  ultimately show ?thesis by (simp add: k_def [symmetric] add.assoc)
qed

text \<open>A growth within the page of the break asks for no page.\<close>

lemma grow_within:
  assumes "start_of_heap t \<noteq> segment_break t" "unat (segment_break t) mod 4096 + e < 4096" "0 < e"
  shows "syscall_sbrk (int e) t st = Some (segment_break t, sbrk_done (int e) t, st)"
proof -
  let ?b = "segment_break t"
  have m: "unat ?b = 4096 * (unat ?b div 4096) + unat ?b mod 4096" "unat ?b div 4096 < 1048576"
    using unat_u32_less [of ?b] by (simp_all add: div_less_iff_less_mult)
  then have n: "unat (?b + word_of_int (int e)) = unat ?b + e" using assms(2) by (intro break_plus) linarith
  have "(unat ?b + e) div 4096 = unat ?b div 4096" using assms(2) by (rule div_plus_small)
  then have "unat (pg_no (?b + word_of_int (int e))) = unat (pg_no ?b)" unfolding unat_pg_no n .
  then show ?thesis using assms(3) unfolding syscall_sbrk_def alloc_unfold first_page_other [OF assms(1)] by simp
qed

lemma uspace_unmapped: "uspace st pd Old F \<Longrightarrow> is_user_vaddr va \<Longrightarrow> F (pg_no va) = None \<Longrightarrow> translate st pd va = None"
  using uspaceD(7) by fastforce

text \<open>A process with an empty address space, in a kernel with four free user pages.\<close>

definition demo_process :: "u32 \<Rightarrow> u32 \<Rightarrow> uthread" where
  "demo_process b pd = \<lparr>start_of_heap = 0x8050000, segment_break = b, previous_break = b, pagedir = pd\<rparr>"

lemma demo_process_space:
  "\<exists>pd st. uspace st pd (all_pages (ks boot_pd)) Map.empty \<and> user_free (ks st) = 4 \<and>
     (\<forall>b. 0x8050000 \<le> b \<and> b < PHYS_BASE \<longrightarrow> heap_at (demo_process b pd) st)"
proof -
  have k: "wf_kstate (ks boot_pd)" "init_page_dir boot_pd \<in> all_pages (ks boot_pd)"
    "\<forall>j<768. rd boot_pd (slot (init_page_dir boot_pd) j) = 0" "ram_ok boot_pd"
    using boot_pd_ready by (simp_all add: kernel_ready_def)
  have used: "bm_used \<lparr>bit_cnt = 4, bits = [0]\<rparr> = {}" "bm_used \<lparr>bit_cnt = 4, bits = [1]\<rparr> = {0}"
    by (auto simp: bm_used_def nth_bm_abs bit_1_iff)
  have f: "user_free (ks boot_pd) = 4"
    using used(1) by (simp add: user_free_def boot_pd_def small_pools_def get_pool_def)
  have "in_pool False (ks boot_pd) 0xc0102000"
    unfolding in_pool_def by (rule exI [of _ 1]) (simp add: boot_pd_def small_pools_def get_pool_def page_at_def PGSIZE_def PGBITS_def)
  moreover have "0xc0102000 \<notin> all_pages (ks boot_pd)"
    using used by (simp add: boot_pd_def small_pools_def all_pages_def pool_pages_def page_at_def)
  ultimately have n: "\<not> pool_full False (ks boot_pd)" unfolding pool_full_def by blast
  obtain pd st where c: "pagedir_create boot_pd = Some (pd, st)" "uspace st pd (all_pages (ks boot_pd)) Map.empty" "same_env boot_pd st" "pd \<noteq> 0"
    using create_uspace [OF k(1-3)] n by blast
  have "get_pool True (ks st) = get_pool True (ks boot_pd)"
    using c(1,4) get_kernel_page unfolding pagedir_create_def by (auto split: bind_splits if_splits)
  then have "user_free (ks st) = 4" using f by (simp add: user_free_def)
  moreover have "heap_at (demo_process b pd) st" if "0x8050000 \<le> b" "b < PHYS_BASE" for b
    using that c(3) ram_ok_env [OF c(3)] k(4) by (simp add: heap_at_def demo_process_def aligned_def same_env_def boot_pd_def PHYS_BASE_def)
  ultimately show ?thesis using c(2) by blast
qed

text \<open>
  C19. Growing the heap by \<open>d > 0\<close> bytes succeeds exactly if the user pool has the pages that are needed up to
  the new break: then the old break is returned and the break moved, the number of free user pages falls by the
  number of pages, and, provided that the kernel pool is not full afterwards, the new pages are zeroed, writable
  and mapped, with all other pages as they were. Otherwise the call returns -1, the break and the contents of
  memory are unchanged, every page it had mapped is unmapped, and, provided that the kernel pool is not full
  afterwards, every frame it had taken is back in the pool: the pages in use are again those of the address
  space (with the page tables made) and the others of before. Only with a full kernel pool, where the failure of
  \<open>pagedir_set_page\<close> for want of a page table goes unnoticed, may new frames \<open>L\<close> be lost.
\<close>

theorem sbrk_grows:
  assumes "uspace st (pagedir t) Old F" "heap_at t st" "0 < d" "unat (segment_break t) + d < 3221225472"
    and "\<forall>k. heap_next t \<le> unat k \<and> unat k < heap_next t + sbrk_pages t d \<longrightarrow> F k = None"
  shows "\<exists>r t' st' L F'. syscall_sbrk (int d) t st = Some (r, t', st') \<and> uspace st' (pagedir t) (Old \<union> L) F' \<and>
    heap_at t' st' \<and> same_on (Old \<union> frames_of F) st st' \<and>
    L \<inter> all_pages (ks st) = {} \<and> (\<not> pool_full False (ks st') \<longrightarrow>
      L = {} \<and> all_pages (ks st') = Old \<union> insert (pagedir t) (tables st' (pagedir t)) \<union> frames_of F') \<and>
    (if sbrk_pages t d \<le> user_free (ks st)
     then r = segment_break t \<and> t' = sbrk_done (int d) t \<and> user_free (ks st) = sbrk_pages t d + user_free (ks st') \<and>
       (\<not> pool_full False (ks st') \<longrightarrow> L = {} \<and> image_of st' F' = zero_pages (heap_next t) (sbrk_pages t d) (image_of st F))
     else r = SBRK_ERROR \<and> t' = t \<and> F' = F)"
proof -
  have s: "syscall_sbrk (int d) t st = alloc (int d) t st" using assms(3) by (simp add: syscall_sbrk_def)
  note a = alloc_ok [OF assms(1,2,4)]
  show ?thesis
  proof (cases "sbrk_pages t d \<le> user_free (ks st)")
    case True
    then obtain st' L F' where g: "alloc (int d) t st = Some (segment_break t, sbrk_done (int d) t, st')"
      "heap_grown st (pagedir t) Old F (heap_next t) (sbrk_pages t d) L F' st'" "user_free (ks st) = sbrk_pages t d + user_free (ks st')"
      using a assms(5) by auto
    note G = heap_grownD [OF g(2)]
    have "unat (segment_break t + word_of_int (int d)) = unat (segment_break t) + d" using assms(4) by (intro break_plus) linarith
    then have "start_of_heap t \<le> segment_break t + word_of_int (int d)" "segment_break t + word_of_int (int d) < PHYS_BASE"
      using assms(4) heap_atD(6) [OF assms(2)] unfolding word_le_nat_alt word_less_nat_alt by (simp_all add: PHYS_BASE_def)
    then have "heap_at (sbrk_done (int d) t) st'" unfolding sbrk_done_def by (rule heap_at_step [OF assms(2) G(2)])
    then show ?thesis unfolding s using True g(1,3) G(1,3,5,9) uspaceD(10) [OF G(1)] heap_grown_image [OF g(2)]
      by (intro exI [of _ "segment_break t"] exI [of _ "sbrk_done (int d) t"] exI [of _ st'] exI [of _ L] exI [of _ F']) simp
  next
    case False
    then obtain st' L where g: "alloc (int d) t st = Some (SBRK_ERROR, t, st')" "uspace st' (pagedir t) (Old \<union> L) F" "same_env st st'"
      "same_on (Old \<union> frames_of F) st st'" "L \<inter> all_pages (ks st) = {}" "\<not> pool_full False (ks st') \<longrightarrow> L = {}"
      using a assms(5) by auto
    have "heap_at t st'" using assms(2) g(3) ram_ok_env [OF g(3)] by (simp add: heap_at_def same_env_def)
    then show ?thesis unfolding s using False g(1,2,4-6) uspaceD(10) [OF g(2)]
      by (intro exI [of _ SBRK_ERROR] exI [of _ t] exI [of _ st'] exI [of _ L] exI [of _ F]) simp
  qed
qed

theorem sbrk_grows_witness:
  "\<exists>pd st t' st'. syscall_sbrk 5000 (demo_process 0x8050000 pd) st = Some (0x8050000, t', st')"
proof -
  obtain pd st where d: "uspace st pd (all_pages (ks boot_pd)) Map.empty" "user_free (ks st) = 4" "heap_at (demo_process 0x8050000 pd) st"
    using demo_process_space by (auto simp: PHYS_BASE_def)
  have u: "uspace st (pagedir (demo_process 0x8050000 pd)) (all_pages (ks boot_pd)) Map.empty" using d(1) by (simp add: demo_process_def)
  have "sbrk_pages (demo_process 0x8050000 pd) 5000 = 2" by (simp add: sbrk_pages_def heap_next_def demo_process_def unat_pg_no)
  then show ?thesis using sbrk_grows [OF u d(3), of 5000] d(2) by (auto simp: demo_process_def)
qed

text \<open>
  C20. Shrinking the heap by \<open>d > 0\<close> bytes, not below its start, returns the old break, moves the break and
  releases exactly the pages from the first page boundary at or above the new break up to the page of the old
  break, leaving all other pages as they were; a request below the start returns -1 and changes nothing, and a
  request of 0 returns the break. But a new break on a page boundary other than the start of the heap leaves
  the page at the break unmapped, and the next growth within that page succeeds without mapping it: the
  process is given memory that it cannot use.
\<close>

theorem sbrk_shrinks:
  fixes t st d
  assumes "uspace st (pagedir t) Old F" "heap_at t st" "0 < d"
  defines "b \<equiv> unat (segment_break t)" and "s \<equiv> unat (start_of_heap t)" and "lo \<equiv> (unat (segment_break t) - d + 4095) div 4096"
    and "hi \<equiv> unat (pg_no (segment_break t)) + 1" and "t' \<equiv> sbrk_done (- int d) t"
  shows "syscall_sbrk 0 t st = Some (segment_break t, t, st) \<and>
    (if s + d \<le> b
     then \<exists>st'. syscall_sbrk (- int d) t st = Some (segment_break t, t', st') \<and> unat (segment_break t') = b - d \<and> heap_at t' st' \<and>
       uspace st' (pagedir t) Old (without F lo hi) \<and>
       image_of st' (without F lo hi) = (\<lambda>k. if lo \<le> unat k \<and> unat k < hi then None else image_of st F k) \<and>
       (s + d < b \<and> (b - d) mod 4096 = 0 \<longrightarrow>
          (\<forall>e. 0 < e \<and> e < 4096 \<longrightarrow> syscall_sbrk (int e) t' st' = Some (segment_break t', sbrk_done (int e) t', st') \<and>
             translate st' (pagedir t) (segment_break t') = None))
     else d \<le> b \<longrightarrow> syscall_sbrk (- int d) t st = Some (SBRK_ERROR, t, st))"
proof (intro conjI, goal_cases)
  case 1
  then show ?case by (simp add: syscall_sbrk_def)
next
  case 2
  note H = heap_atD [OF assms(2)]
  have sy: "syscall_sbrk (- int d) t st = dealloc (- int d) t st" using assms(3) by (simp add: syscall_sbrk_def)
  have bt: "segment_break t' = segment_break t + word_of_int (- int d)" "start_of_heap t' = start_of_heap t"
    by (simp_all add: t'_def sbrk_done_def)
  have new: "unat (segment_break t') = b - d" if "d \<le> b" unfolding bt b_def using that by (intro break_minus) (simp add: b_def)
  show ?case
  proof (cases "s + d \<le> b")
    case True
    obtain st' where g: "dealloc (- int d) t st = Some (segment_break t, t', st')" "uspace st' (pagedir t) Old (without F lo hi)"
      "same_env st st'" "same_on (Old \<union> frames_of (without F lo hi)) st st'"
      using dealloc_ok [OF assms(1,2) True [unfolded s_def b_def]] unfolding lo_def hi_def t'_def by blast
    have n: "unat (segment_break t') = b - d" using True by (intro new) linarith
    have "start_of_heap t \<le> segment_break t'" "segment_break t' < PHYS_BASE"
      using True H(5) unfolding word_le_nat_alt word_less_nat_alt n by (simp_all add: PHYS_BASE_def s_def b_def)
    then have h: "heap_at t' st'" unfolding t'_def bt(1) [unfolded t'_def] sbrk_done_def
      by (intro heap_at_step [OF assms(2) g(3)]) (simp_all add: bt(1))
    have i: "image_of st' (without F lo hi) = image_of st (without F lo hi)" by (rule same_on_image [OF g(4)]) simp
    have x: "syscall_sbrk (int e) t' st' = Some (segment_break t', sbrk_done (int e) t', st') \<and> translate st' (pagedir t) (segment_break t') = None"
      if c: "s + d < b" "(b - d) mod 4096 = 0" and e: "0 < e" "e < 4096" for e
    proof
      have "unat (start_of_heap t') \<noteq> unat (segment_break t')" using c(1) n by (simp add: bt(2) s_def)
      then have "start_of_heap t' \<noteq> segment_break t'" by metis
      then show "syscall_sbrk (int e) t' st' = Some (segment_break t', sbrk_done (int e) t', st')"
        using e c(2) n by (intro grow_within) simp_all
      have "lo = (b - d) div 4096" using c(2) unfolding lo_def b_def [symmetric] div_plus_4095 by (simp only: if_True simp_thms)
      then have "lo \<le> unat (pg_no (segment_break t'))" "unat (pg_no (segment_break t')) < hi"
        using div_le_mono [of "b - d" b 4096] by (simp_all add: unat_pg_no n hi_def b_def)
      then show "translate st' (pagedir t) (segment_break t') = None"
        using heap_atD(5) [OF h] by (intro uspace_unmapped [OF g(2)]) (simp_all add: without_def is_user_vaddr_def word_less_nat_alt PHYS_BASE_def)
    qed
    show ?thesis unfolding sy using True g(1,2) n h i x unfolding image_without by auto
  next
    case False
    have "syscall_sbrk (- int d) t st = Some (SBRK_ERROR, t, st)" if "d \<le> b"
    proof -
      have "segment_break t' < start_of_heap t" using False that unfolding word_less_nat_alt new [OF that] s_def by linarith
      then show ?thesis unfolding sy dealloc_def Let_def bt(1) by simp
    qed
    then show ?thesis using False by simp
  qed
qed

theorem sbrk_shrinks_witness:
  "\<exists>pd st t' st' t''. syscall_sbrk (- 0x1010) (demo_process 0x8053010 pd) st = Some (0x8053010, t', st') \<and>
     syscall_sbrk 16 t' st' = Some (segment_break t', t'', st') \<and> translate st' pd (segment_break t') = None"
proof -
  obtain pd st where d: "uspace st pd (all_pages (ks boot_pd)) Map.empty" "heap_at (demo_process 0x8053010 pd) st"
    using demo_process_space by (auto simp: PHYS_BASE_def)
  have u: "uspace st (pagedir (demo_process 0x8053010 pd)) (all_pages (ks boot_pd)) Map.empty" using d(1) by (simp add: demo_process_def)
  have b: "start_of_heap (demo_process 0x8053010 pd) = 0x8050000" "segment_break (demo_process 0x8053010 pd) = 0x8053010"
    "pagedir (demo_process 0x8053010 pd) = pd" by (simp_all add: demo_process_def)
  let ?t = "sbrk_done (- 0x1010) (demo_process 0x8053010 pd)"
  obtain st' where s: "syscall_sbrk (- 0x1010) (demo_process 0x8053010 pd) st = Some (0x8053010, ?t, st')"
    "\<forall>e. 0 < e \<and> e < 4096 \<longrightarrow> syscall_sbrk (int e) ?t st' = Some (segment_break ?t, sbrk_done (int e) ?t, st') \<and>
       translate st' pd (segment_break ?t) = None"
    using sbrk_shrinks [OF u d(2), of "0x1010"] by (auto simp: b)
  have "syscall_sbrk 16 ?t st' = Some (segment_break ?t, sbrk_done 16 ?t, st')" "translate st' pd (segment_break ?t) = None"
    using spec [OF s(2), of 16] by simp_all
  then show ?thesis using s(1) by blast
qed

text \<open>
  C21. A process can crash the kernel: a decrease by more than the break itself wraps below zero, passes the
  comparison with the start of the heap and leaves the break in the kernel's part of the address space, without
  releasing a page; the next growth by a page or more then fails an assertion of \<open>pagedir_set_page\<close>. The ranges:
  the new break is not on a page boundary, and neither the decrease nor the growth wraps a second time.
\<close>

theorem sbrk_wraps:
  fixes t st d
  assumes "uspace st (pagedir t) Old F" "heap_at t st" "0 < user_free (ks st)"
  defines "b \<equiv> unat (segment_break t)"
  assumes d: "b < d" "3221225472 + d \<le> b + 4294967296" "(b + 4294967296 - d) mod 4096 \<noteq> 0"
    and e: "4096 \<le> e" "b + e < d"
  shows "syscall_sbrk (- int d) t st = Some (segment_break t, sbrk_done (- int d) t, st) \<and>
    \<not> is_user_vaddr (segment_break (sbrk_done (- int d) t)) \<and> syscall_sbrk (int e) (sbrk_done (- int d) t) st = None"
proof (intro conjI)
  note H = heap_atD [OF assms(2)]
  define t' where "t' = sbrk_done (- int d) t"
  show "syscall_sbrk (- int d) t st = Some (segment_break t, sbrk_done (- int d) t, st)"
    using dealloc_wraps [OF assms(2) d [unfolded b_def]] d(1) by (simp add: syscall_sbrk_def)
  have "d \<le> 4294967296" using d(2) H(5) by (simp add: b_def)
  then have n: "unat (segment_break t') = b + 4294967296 - d"
    using break_wraps [of "segment_break t" d] d(1) by (simp add: t'_def sbrk_done_def b_def)
  then show "\<not> is_user_vaddr (segment_break (sbrk_done (- int d) t))"
    using d(2) unfolding is_user_vaddr_def word_less_nat_alt t'_def [symmetric] by (simp add: PHYS_BASE_def)
  let ?b = "segment_break t'"
  have ne: "start_of_heap t' \<noteq> ?b"
  proof
    assume "start_of_heap t' = ?b"
    then have "unat (start_of_heap t) = b + 4294967296 - d" using n by (simp add: t'_def sbrk_done_def)
    then show False using d(2) H(5,6) by linarith
  qed
  have e1: "unat (?b + word_of_int (int e)) = unat ?b + e" using e(2) n \<open>d \<le> 4294967296\<close> by (intro break_plus) linarith
  have "Suc (unat ?b div 4096) = (unat ?b + 4096) div 4096" by simp
  also have "\<dots> \<le> (unat ?b + e) div 4096" using e(1) by (intro div_le_mono) simp
  finally have "unat (pg_no ?b) < unat (pg_no (?b + word_of_int (int e)))" unfolding unat_pg_no e1 by simp
  then obtain m where m: "unat (pg_no (?b + word_of_int (int e))) - unat (pg_no ?b) = Suc m"
    using gr0_implies_Suc [of "unat (pg_no (?b + word_of_int (int e))) - unat (pg_no ?b)"] by (simp only: zero_less_diff) blast
  have "unat ?b + 4096 < 4294967296" using e n \<open>d \<le> 4294967296\<close> by linarith
  note pa = page_after [OF this]
  have "\<not> is_user_vaddr (pg_round_up (?b + 1))"
    using d(2) pa(1) n by (simp add: is_user_vaddr_def word_less_nat_alt PHYS_BASE_def unat_pg_no) 
  note g = grow_kernel_panics [OF assms(1,3) this, of m 0]
  have "pagedir t' = pagedir t" by (simp add: t'_def sbrk_done_def)
  then have "syscall_sbrk (int e) t' st = None"
    using e(1) g unfolding syscall_sbrk_def alloc_unfold first_page_other [OF ne] m by (simp del: grow_loop.simps)
  then show "syscall_sbrk (int e) (sbrk_done (- int d) t) st = None" by (simp only: t'_def)
qed

theorem sbrk_wraps_witness:
  "\<exists>pd st t'. syscall_sbrk (- 0xfffff00) (demo_process 0x8050000 pd) st = Some (0x8050000, t', st) \<and> syscall_sbrk 4096 t' st = None"
proof -
  obtain pd st where d: "uspace st pd (all_pages (ks boot_pd)) Map.empty" "user_free (ks st) = 4" "heap_at (demo_process 0x8050000 pd) st"
    using demo_process_space by (auto simp: PHYS_BASE_def)
  have u: "uspace st (pagedir (demo_process 0x8050000 pd)) (all_pages (ks boot_pd)) Map.empty" using d(1) by (simp add: demo_process_def)
  have b: "segment_break (demo_process 0x8050000 pd) = 0x8050000" by (simp add: demo_process_def)
  show ?thesis using sbrk_wraps [OF u d(3), of "0xfffff00" 4096] d(2) by (auto simp: b)
qed

end
