(* ===== verification/Tokenizer.thy ===== *)
theory Tokenizer
  imports Cstring
begin

text \<open>
  The shell of \<open>src/hw-shell\<close>: the tokenizer (\<open>tokenizer.c\<close>) and the parts of \<open>shell.c\<close> that work on
  the tokens, the look-up of built-in commands and the redirections. A word is a block of memory with
  a terminator, a pointer the number of a block; \<open>malloc\<close> always returns memory, as the code takes for
  granted. A line is the bytes before its terminator. \<open>None\<close> is \<open>abort\<close>, a write outside the static
  array \<open>token\<close> or the array of tokens, or a second release of a block.
\<close>

section \<open>The code\<close>

subsection \<open>Tokens\<close>

record wheap =
  blocks :: "nat \<rightharpoonup> u8 list"
  next_block :: nat

record token_list =
  tokens_length :: nat
  token_ptrs :: "nat list"
  buffers_length :: nat
  buffers :: "nat list"

datatype tok_mode = MODE_NORMAL | MODE_SQUOTE | MODE_DQUOTE

record tok_state =
  token :: "u8 list"
  tok_n :: nat
  tok_mode :: tok_mode
  tok_list :: token_list
  tok_heap :: wheap

definition N_MAX :: nat where "N_MAX = 4096"

definition is_space :: "u8 \<Rightarrow> bool" where
  "is_space c \<longleftrightarrow> c \<in> {9, 10, 11, 12, 13, 32}"

definition vector_push :: "nat list \<Rightarrow> nat \<Rightarrow> nat \<Rightarrow> nat list \<times> nat" where
  "vector_push arr n e = (take n arr @ [e], n + 1)"

definition strncpy_block :: "u8 list \<Rightarrow> nat \<Rightarrow> u8 list" where
  "strncpy_block src n =
     (let s = takeWhile (\<lambda>c. c \<noteq> 0) (take n src) in s @ replicate (n - length s) 0)"

definition copy_word :: "u8 list \<Rightarrow> nat \<Rightarrow> wheap \<Rightarrow> (nat \<times> u8 list \<times> wheap) option" where
  "copy_word source n h = do {
     kassert (n < length source);
     let source' = source[n := 0];
     let word = next_block h;
     Some (word, source',
           h\<lparr>blocks := (blocks h)(word \<mapsto> strncpy_block source' (n + 1)), next_block := word + 1\<rparr>)
   }"

definition push_word :: "tok_state \<Rightarrow> tok_state option" where
  "push_word s = do {
     (word, source, h) \<leftarrow> copy_word (token s) (tok_n s) (tok_heap s);
     let (ps, k) = vector_push (token_ptrs (tok_list s)) (tokens_length (tok_list s)) word;
     Some (s\<lparr>token := source, tok_n := 0, tok_heap := h,
            tok_list := (tok_list s)\<lparr>token_ptrs := ps, tokens_length := k\<rparr>\<rparr>)
   }"

definition put_byte :: "u8 \<Rightarrow> tok_state \<Rightarrow> tok_state option" where
  "put_byte c s = do {
     kassert (tok_n s < length (token s));
     Some (s\<lparr>token := (token s)[tok_n s := c], tok_n := tok_n s + 1\<rparr>)
   }"

text \<open>A backslash: the next byte, if there is one, is taken as it is.\<close>

definition tok_escape :: "u8 list \<Rightarrow> nat \<Rightarrow> tok_state \<Rightarrow> (nat \<times> tok_state) option" where
  "tok_escape line i s =
     (if i + 1 < length line then do { s' \<leftarrow> put_byte (line ! (i + 1)) s; Some (i + 1, s') } else Some (i, s))"

definition tok_char :: "u8 list \<Rightarrow> nat \<Rightarrow> tok_state \<Rightarrow> (nat \<times> tok_state) option" where
  "tok_char line i s =
     (let c = line ! i in
      case tok_mode s of
        MODE_NORMAL \<Rightarrow>
          (if c = 39 then Some (i, s\<lparr>tok_mode := MODE_SQUOTE\<rparr>)
           else if c = 34 then Some (i, s\<lparr>tok_mode := MODE_DQUOTE\<rparr>)
           else if c = 92 then tok_escape line i s
           else if is_space c then
             (if 0 < tok_n s then do { s' \<leftarrow> push_word s; Some (i, s') } else Some (i, s))
           else do { s' \<leftarrow> put_byte c s; Some (i, s') })
      | MODE_SQUOTE \<Rightarrow>
          (if c = 39 then Some (i, s\<lparr>tok_mode := MODE_NORMAL\<rparr>)
           else if c = 92 then tok_escape line i s
           else do { s' \<leftarrow> put_byte c s; Some (i, s') })
      | MODE_DQUOTE \<Rightarrow>
          (if c = 34 then Some (i, s\<lparr>tok_mode := MODE_NORMAL\<rparr>)
           else if c = 92 then tok_escape line i s
           else do { s' \<leftarrow> put_byte c s; Some (i, s') }))"

partial_function (option) tok_loop :: "u8 list \<Rightarrow> nat \<Rightarrow> tok_state \<Rightarrow> tok_state option" where
  "tok_loop line i s =
     (if i < length line then do {
        (i', s') \<leftarrow> tok_char line i s;
        kassert (tok_n s' + 1 < N_MAX);
        tok_loop line (i' + 1) s'
      } else Some s)"

text \<open>\<open>None\<close> for the line and for the result is the null pointer; \<open>tk\<close> is the static array.\<close>

definition tokenize :: "u8 list option \<Rightarrow> u8 list \<Rightarrow> wheap \<Rightarrow> (token_list option \<times> u8 list \<times> wheap) option" where
  "tokenize line tk h =
     (case line of None \<Rightarrow> Some (None, tk, h)
      | Some l \<Rightarrow> do {
          s \<leftarrow> tok_loop l 0
                \<lparr>token = tk, tok_n = 0, tok_mode = MODE_NORMAL,
                 tok_list = \<lparr>tokens_length = 0, token_ptrs = [], buffers_length = 0, buffers = []\<rparr>, tok_heap = h\<rparr>;
          s' \<leftarrow> (if 0 < tok_n s then push_word s else Some s);
          Some (Some (tok_list s'), token s', tok_heap s')
        })"

definition tokens_get_length :: "token_list option \<Rightarrow> nat" where
  "tokens_get_length t = (case t of None \<Rightarrow> 0 | Some l \<Rightarrow> tokens_length l)"

definition tokens_set_length :: "token_list \<Rightarrow> int \<Rightarrow> token_list" where
  "tokens_set_length t len = t\<lparr>tokens_length := nat (len mod 18446744073709551616)\<rparr>"

text \<open>\<open>None\<close> is the null pointer; an element outside the array is undefined.\<close>

definition tokens_get_token :: "token_list option \<Rightarrow> nat \<Rightarrow> nat option option" where
  "tokens_get_token t n =
     (case t of None \<Rightarrow> Some None
      | Some l \<Rightarrow>
          (if n \<ge> tokens_length l then Some None
           else if n < length (token_ptrs l) then Some (Some (token_ptrs l ! n)) else None))"

text \<open>\<open>frame\<close> is the address of the parameter \<open>c\<close>, which is gone when the function returns.\<close>

definition tokens_set_token :: "nat \<Rightarrow> token_list \<Rightarrow> int \<Rightarrow> int \<Rightarrow> token_list option" where
  "tokens_set_token frame t dest src = do {
     kassert (0 \<le> dest \<and> nat dest < length (token_ptrs t));
     (if src = - 1 then Some (t\<lparr>token_ptrs := (token_ptrs t)[nat dest := frame]\<rparr>)
      else do {
        kassert (0 \<le> src \<and> nat src < length (token_ptrs t));
        Some (t\<lparr>token_ptrs := (token_ptrs t)[nat dest := token_ptrs t ! nat src]\<rparr>)
      })
   }"

definition free_block :: "nat \<Rightarrow> wheap \<Rightarrow> wheap option" where
  "free_block p h = (if blocks h p = None then None else Some (h\<lparr>blocks := (blocks h)(p := None)\<rparr>))"

fun free_blocks :: "nat \<Rightarrow> nat list \<Rightarrow> wheap \<Rightarrow> wheap option" where
  "free_blocks 0 ps h = Some h"
| "free_blocks (Suc n) [] h = None"
| "free_blocks (Suc n) (p # ps) h = do { h' \<leftarrow> free_block p h; free_blocks n ps h' }"

definition tokens_destroy :: "token_list option \<Rightarrow> wheap \<Rightarrow> wheap option" where
  "tokens_destroy t h =
     (case t of None \<Rightarrow> Some h
      | Some l \<Rightarrow> do {
          h' \<leftarrow> free_blocks (tokens_length l) (token_ptrs l) h;
          free_blocks (buffers_length l) (buffers l) h'
        })"

subsection \<open>Commands\<close>

text \<open>The names of \<open>cmd_table\<close>.\<close>

definition cmd_table :: "u8 list list" where
  "cmd_table = [[63], [112, 119, 100], [99, 100], [101, 120, 105, 116]]"

fun lookup_loop :: "u8 list option \<Rightarrow> int \<Rightarrow> u8 list list \<Rightarrow> int" where
  "lookup_loop cmd i [] = - 1"
| "lookup_loop cmd i (c # cs) = (if cmd = Some c then i else lookup_loop cmd (i + 1) cs)"

definition lookup :: "u8 list option \<Rightarrow> int" where
  "lookup cmd = lookup_loop cmd 0 cmd_table"

text \<open>The system calls made: \<open>open\<close> of a path, for writing or not, with its result, and \<open>dup2\<close>.\<close>

datatype sys_call = Open "nat option" bool int | Dup2 int int

text \<open>The first byte of the word that a pointer points to.\<close>

definition first_byte :: "wheap \<Rightarrow> nat option \<Rightarrow> u8 option" where
  "first_byte h p = do { a \<leftarrow> p; b \<leftarrow> blocks h a; (if b = [] then None else Some (b ! 0)) }"

partial_function (option) shift_loop :: "int \<Rightarrow> int \<Rightarrow> token_list \<Rightarrow> token_list option" where
  "shift_loop j len t =
     (if j + 2 < len then do { t' \<leftarrow> tokens_set_token 0 t j (j + 2); shift_loop (j + 1) len t' } else Some t)"

definition take_redirect ::
    "bool \<Rightarrow> int \<Rightarrow> int \<Rightarrow> int \<Rightarrow> token_list \<Rightarrow> sys_call list \<Rightarrow> (token_list \<times> sys_call list) option" where
  "take_redirect wrt fd i len t calls = do {
     source \<leftarrow> tokens_get_token (Some t) (nat (i + 1));
     t' \<leftarrow> shift_loop i len t;
     Some (t', calls @ [Open source wrt fd, Dup2 fd (if wrt then 1 else 0)])
   }"

text \<open>\<open>opens n\<close> is what the \<open>n\<close>-th call of \<open>open\<close> returns; \<open>c\<close> keeps pointing to the same word.\<close>

partial_function (option) redirect_loop ::
    "(nat \<Rightarrow> int) \<Rightarrow> wheap \<Rightarrow> int \<Rightarrow> int \<Rightarrow> token_list \<Rightarrow> sys_call list \<Rightarrow> (int \<times> token_list \<times> sys_call list) option" where
  "redirect_loop opens h i len t calls =
     (if i < len then do {
        c \<leftarrow> tokens_get_token (Some t) (nat i);
        b \<leftarrow> first_byte h c;
        (if b = 62 \<or> b = 60 then do {
           (t', calls') \<leftarrow> take_redirect (b = 62) (opens (length calls div 2)) i len t calls;
           redirect_loop opens h i (len - 2) t' calls'
         } else redirect_loop opens h (i + 1) len t calls)
      } else Some (len, t, calls))"

definition redirect :: "(nat \<Rightarrow> int) \<Rightarrow> wheap \<Rightarrow> token_list \<Rightarrow> (int \<times> token_list \<times> sys_call list) option" where
  "redirect opens h t = redirect_loop opens h 0 (int (tokens_get_length (Some t))) t []"

text \<open>The argument vector that \<open>main\<close> builds, in an array of 256 elements.\<close>

fun fill_argv :: "nat \<Rightarrow> int \<Rightarrow> token_list \<Rightarrow> nat option list \<Rightarrow> nat option list option" where
  "fill_argv 0 i t argv = do {
     kassert (0 \<le> i \<and> nat i < length argv);
     Some (argv[nat i := None])
   }"
| "fill_argv (Suc k) i t argv = do {
     s \<leftarrow> tokens_get_token (Some t) (nat i);
     kassert (nat i < length argv);
     fill_argv k (i + 1) t (argv[nat i := s])
   }"

definition build_argv :: "nat option list \<Rightarrow> int \<Rightarrow> token_list \<Rightarrow> nat option list option" where
  "build_argv junk len t =
     (if len < 0 then None else fill_argv (nat len) 0 t junk)"

section \<open>The words of a line\<close>

text \<open>The lexer without memory: \<open>cur\<close> is the word under way, \<open>ws\<close> the words so far.\<close>

fun lex_line :: "tok_mode \<Rightarrow> u8 list \<Rightarrow> u8 list list \<Rightarrow> u8 list \<Rightarrow> u8 list list option" where
  "lex_line m cur ws [] = Some (ws @ finish cur)"
| "lex_line m cur ws (c # cs) =
     (if c = 92 then
        (case cs of [] \<Rightarrow> Some (ws @ finish cur)
         | d # ds \<Rightarrow> if length cur < 4094 then lex_line m (cur @ [d]) ws ds else None)
      else if m = MODE_NORMAL \<and> c = 39 then lex_line MODE_SQUOTE cur ws cs
      else if m = MODE_NORMAL \<and> c = 34 then lex_line MODE_DQUOTE cur ws cs
      else if m = MODE_NORMAL \<and> is_space c then lex_line MODE_NORMAL [] (ws @ finish cur) cs
      else if m = MODE_SQUOTE \<and> c = 39 \<or> m = MODE_DQUOTE \<and> c = 34 then lex_line MODE_NORMAL cur ws cs
      else if length cur < 4094 then lex_line m (cur @ [c]) ws cs else None)"

text \<open>The memory with the words \<open>ws\<close> added, and the list of their pointers.\<close>

definition words_heap :: "wheap \<Rightarrow> u8 list list \<Rightarrow> wheap" where
  "words_heap h ws = \<lparr>blocks = (\<lambda>p. if next_block h \<le> p \<and> p < next_block h + length ws
       then Some (ws ! (p - next_block h) @ [0]) else blocks h p), next_block = next_block h + length ws\<rparr>"

definition words_list :: "wheap \<Rightarrow> u8 list list \<Rightarrow> token_list" where
  "words_list h ws = \<lparr>tokens_length = length ws, token_ptrs = [next_block h..<next_block h + length ws],
     buffers_length = 0, buffers = []\<rparr>"

definition tok_inv :: "wheap \<Rightarrow> tok_mode \<Rightarrow> u8 list \<Rightarrow> u8 list list \<Rightarrow> tok_state \<Rightarrow> bool" where
  "tok_inv h m cur ws s \<longleftrightarrow> length (token s) = 4096 \<and> tok_n s = length cur \<and> length cur < 4095 \<and>
     take (length cur) (token s) = cur \<and> 0 \<notin> set cur \<and> tok_mode s = m \<and>
     tok_list s = words_list h ws \<and> tok_heap s = words_heap h ws"

lemma words_heap_Nil [simp]: "words_heap h [] = h"
  by (cases h) (auto simp: words_heap_def fun_eq_iff)

lemma words_heap_snoc:
  "(words_heap h ws)\<lparr>blocks := (blocks (words_heap h ws))(next_block (words_heap h ws) \<mapsto> w @ [0]),
     next_block := next_block (words_heap h ws) + 1\<rparr> = words_heap h (ws @ [w])"
  by (auto simp: words_heap_def nth_append fun_eq_iff)

lemma strncpy_word:
  assumes "take (length cur) tk = cur" "length cur < length tk" "0 \<notin> set cur"
  shows "strncpy_block (tk[length cur := 0]) (length cur + 1) = cur @ [0]"
proof -
  have "take (length cur + 1) (tk[length cur := 0]) = cur @ [0]"
    using assms(1,2) by (simp add: take_Suc_conv_app_nth)
  moreover have "takeWhile (\<lambda>c. c \<noteq> 0) (cur @ [0]) = cur"
    using assms(3) by (subst takeWhile_append2) auto
  ultimately show ?thesis by (simp add: strncpy_block_def Let_def)
qed

lemma push_word_ok:
  assumes "tok_inv h m cur ws s"
  shows "\<exists>s'. push_word s = Some s' \<and> tok_inv h m [] (ws @ [cur]) s'"
proof -
  note a = assms [unfolded tok_inv_def]
  let ?h = "words_heap h ws"
  have c: "copy_word (token s) (tok_n s) (tok_heap s) =
      Some (next_block ?h, (token s)[length cur := 0], words_heap h (ws @ [cur]))"
    using a strncpy_word [of cur "token s"] words_heap_snoc [of h ws cur]
    by (simp add: copy_word_def Let_def)
  have "next_block ?h = next_block h + length ws" by (simp add: words_heap_def)
  then have v: "vector_push (token_ptrs (words_list h ws)) (tokens_length (words_list h ws)) (next_block ?h) =
      (token_ptrs (words_list h (ws @ [cur])), length (ws @ [cur]))"
    by (simp add: vector_push_def words_list_def)
  have l: "(words_list h ws)\<lparr>token_ptrs := token_ptrs (words_list h (ws @ [cur])), tokens_length := length (ws @ [cur])\<rparr> =
      words_list h (ws @ [cur])"
    by (simp add: words_list_def)
  have t: "tok_list s = words_list h ws" using a by blast
  show ?thesis using a l unfolding push_word_def c t by (simp add: v tok_inv_def)
qed

lemma put_byte_ok:
  assumes "tok_inv h m cur ws s" "c \<noteq> 0"
  shows "\<exists>s'. put_byte c s = Some s' \<and> tok_n s' = length cur + 1 \<and>
    (length cur < 4094 \<longrightarrow> tok_inv h m (cur @ [c]) ws s')"
  using assms unfolding tok_inv_def put_byte_def
  by (auto simp: take_Suc_conv_app_nth)

text \<open>One step of the loop against one step of the lexer.\<close>

lemma drop_Cons_nth: "i < length line \<Longrightarrow> drop i line = line ! i # drop (Suc i) line"
  by (simp add: Cons_nth_drop_Suc)

definition step_ok :: "wheap \<Rightarrow> u8 list \<Rightarrow> nat \<Rightarrow> tok_state \<Rightarrow> u8 list list option \<Rightarrow> bool" where
  "step_ok h line i s r \<longleftrightarrow> (\<exists>i' s'. tok_char line i s = Some (i', s') \<and> i \<le> i' \<and> i' < length line \<and>
     (tok_n s' + 1 < N_MAX \<and> (\<exists>m cur ws. tok_inv h m cur ws s' \<and> r = lex_line m cur ws (drop (Suc i') line)) \<or>
      \<not> tok_n s' + 1 < N_MAX \<and> r = None))"

lemma step_stay:
  assumes "tok_char line i s = Some (i, s')" "tok_inv h m cur ws s'" "i < length line"
    "r = lex_line m cur ws (drop (Suc i) line)"
  shows "step_ok h line i s r"
  using assms unfolding step_ok_def N_MAX_def tok_inv_def by auto

lemma step_put:
  assumes "tok_inv h m cur ws s" "c \<noteq> 0" "i' < length line" "i \<le> i'"
    "tok_char line i s = do { s' \<leftarrow> put_byte c s; Some (i', s') }"
    "r = (if length cur < 4094 then lex_line m (cur @ [c]) ws (drop (Suc i') line) else None)"
  shows "step_ok h line i s r"
proof -
  obtain s' where p: "put_byte c s = Some s'" "tok_n s' = length cur + 1"
    "length cur < 4094 \<longrightarrow> tok_inv h m (cur @ [c]) ws s'"
    using put_byte_ok [OF assms(1,2)] by blast
  then have "tok_char line i s = Some (i', s')" using assms(5) by simp
  moreover have "tok_n s' + 1 < N_MAX \<longleftrightarrow> length cur < 4094" using p(2) by (simp add: N_MAX_def)
  ultimately show ?thesis using p(3) assms(3,4,6) unfolding step_ok_def by auto
qed

lemma step_escape:
  assumes "tok_inv h m cur ws s" "0 \<notin> set line" "i < length line" "line ! i = 92"
    "tok_char line i s = tok_escape line i s"
  shows "step_ok h line i s (lex_line m cur ws (drop i line))"
proof (cases "i + 1 < length line")
  case True
  have "line ! (i + 1) \<in> set line" using True by (rule nth_mem)
  then have nz: "line ! (i + 1) \<noteq> 0" using assms(2) by metis
  have e: "tok_char line i s = do { s' \<leftarrow> put_byte (line ! (i + 1)) s; Some (i + 1, s') }"
    using True assms(5) by (simp add: tok_escape_def)
  have d: "drop i line = 92 # line ! (i + 1) # drop (i + 2) line"
    using drop_Cons_nth [of i line] drop_Cons_nth [of "Suc i" line] True assms(4) by simp
  show ?thesis by (rule step_put [OF assms(1) nz True _ e]) (simp_all add: d)
next
  case False
  then have "drop i line = [92]" using drop_Cons_nth [of i line] assms(3,4) by simp
  moreover have "drop (Suc i) line = []" using False by simp
  moreover have "tok_char line i s = Some (i, s)" using False assms(5) by (simp add: tok_escape_def)
  ultimately show ?thesis using assms(1,3) by (intro step_stay [of line i s s h m cur ws]) simp_all
qed

lemma tok_inv_mode: "tok_inv h m cur ws s \<Longrightarrow> tok_inv h m' cur ws (s\<lparr>tok_mode := m'\<rparr>)"
  by (simp add: tok_inv_def)

lemma tok_char_ok:
  assumes "tok_inv h m cur ws s" "0 \<notin> set line" "i < length line"
  shows "step_ok h line i s (lex_line m cur ws (drop i line))"
proof -
  let ?c = "line ! i"
  have m: "tok_mode s = m" and n: "tok_n s = length cur" using assms(1) by (simp_all add: tok_inv_def)
  have d: "drop i line = ?c # drop (Suc i) line" by (rule drop_Cons_nth [OF assms(3)])
  have "?c \<in> set line" using assms(3) by (rule nth_mem)
  then have nz: "?c \<noteq> 0" using assms(2) by metis
  note stay = step_stay [OF _ _ assms(3)]
  note put = step_put [OF assms(1) nz assms(3) order_refl]
  consider (esc) "?c = 92" | (sq) "?c \<noteq> 92" "m = MODE_SQUOTE" | (dq) "?c \<noteq> 92" "m = MODE_DQUOTE"
    | (n) "?c \<noteq> 92" "m = MODE_NORMAL" by (cases m) auto
  then show ?thesis
  proof cases
    case esc
    have "tok_char line i s = tok_escape line i s" using esc by (cases m) (simp_all add: tok_char_def m)
    then show ?thesis by (rule step_escape [OF assms esc])
  next
    case sq
    show ?thesis
    proof (cases "?c = 39")
      case True
      then show ?thesis using sq m d
        by (intro stay [OF _ tok_inv_mode [OF assms(1), of MODE_NORMAL]]) (simp_all add: tok_char_def)
    next
      case False
      then show ?thesis using sq m d by (intro put) (simp_all add: tok_char_def)
    qed
  next
    case dq
    show ?thesis
    proof (cases "?c = 34")
      case True
      then show ?thesis using dq m d
        by (intro stay [OF _ tok_inv_mode [OF assms(1), of MODE_NORMAL]]) (simp_all add: tok_char_def)
    next
      case False
      then show ?thesis using dq m d by (intro put) (simp_all add: tok_char_def)
    qed
  next
    case n
    consider (a) "?c = 39" | (b) "?c = 34" | (sp) "?c \<noteq> 39" "?c \<noteq> 34" "is_space ?c"
      | (o) "?c \<noteq> 39" "?c \<noteq> 34" "\<not> is_space ?c" by blast
    then show ?thesis
    proof cases
      case a
      then show ?thesis using n m d
        by (intro stay [OF _ tok_inv_mode [OF assms(1), of MODE_SQUOTE]]) (simp_all add: tok_char_def)
    next
      case b
      then show ?thesis using n m d
        by (intro stay [OF _ tok_inv_mode [OF assms(1), of MODE_DQUOTE]]) (simp_all add: tok_char_def)
    next
      case sp
      show ?thesis
      proof (cases "cur = []")
        case True
        then show ?thesis using sp n m d assms(1) \<open>tok_n s = length cur\<close>
          by (intro stay [OF _ assms(1)]) (simp_all add: tok_char_def finish_def)
      next
        case False
        obtain s' where "push_word s = Some s'" "tok_inv h m [] (ws @ [cur]) s'"
          using push_word_ok [OF assms(1)] by blast
        then show ?thesis using sp n m d False \<open>tok_n s = length cur\<close>
          by (intro stay [of s s' h m "[]" "ws @ [cur]"]) (simp_all add: tok_char_def finish_def)
      qed
    next
      case o
      then show ?thesis using n m d by (intro put) (simp_all add: tok_char_def)
    qed
  qed
qed

lemma tok_loop_ok:
  assumes "tok_inv h m cur ws s" "0 \<notin> set line" "i \<le> length line"
  shows "case tok_loop line i s of None \<Rightarrow> lex_line m cur ws (drop i line) = None
    | Some s' \<Rightarrow> \<exists>m' cur' ws'. tok_inv h m' cur' ws' s' \<and> lex_line m cur ws (drop i line) = Some (ws' @ finish cur')"
  using assms(1,3)
proof (induction "length line - i" arbitrary: i s m cur ws rule: less_induct)
  case less
  show ?case
  proof (cases "i < length line")
    case False
    then show ?thesis using less.prems by (subst tok_loop.simps) auto
  next
    case True
    from tok_char_ok [OF less.prems(1) assms(2) True]
    obtain i' s' where c: "tok_char line i s = Some (i', s')" "i \<le> i'" "i' < length line"
      and r: "tok_n s' + 1 < N_MAX \<and> (\<exists>m' cur' ws'. tok_inv h m' cur' ws' s' \<and>
          lex_line m cur ws (drop i line) = lex_line m' cur' ws' (drop (Suc i') line)) \<or>
        \<not> tok_n s' + 1 < N_MAX \<and> lex_line m cur ws (drop i line) = None"
      unfolding step_ok_def by blast
    show ?thesis
    proof (cases "tok_n s' + 1 < N_MAX")
      case False
      then show ?thesis using r True c by (subst tok_loop.simps) simp
    next
      case t: True
      then obtain m' cur' ws' where i: "tok_inv h m' cur' ws' s'"
        "lex_line m cur ws (drop i line) = lex_line m' cur' ws' (drop (Suc i') line)" using r by blast
      have "length line - Suc i' < length line - i" using c(2,3) by linarith
      note IH = less.hyps [OF this i(1)]
      have "tok_loop line i s = tok_loop line (Suc i') s'" using True t c(1) by (subst tok_loop.simps) simp
      then show ?thesis unfolding i(2) using IH c(3) by (simp only: Suc_le_eq)
    qed
  qed
qed

lemma tokenize_lex:
  assumes "length tk = 4096" "0 \<notin> set line"
  shows "case lex_line MODE_NORMAL [] [] line of None \<Rightarrow> tokenize (Some line) tk h = None
    | Some ws \<Rightarrow> \<exists>tk'. length tk' = 4096 \<and> tokenize (Some line) tk h = Some (Some (words_list h ws), tk', words_heap h ws)"
proof -
  let ?s = "\<lparr>token = tk, tok_n = 0, tok_mode = MODE_NORMAL, tok_list = words_list h [], tok_heap = h\<rparr>"
  have e: "\<lparr>tokens_length = 0, token_ptrs = [], buffers_length = 0, buffers = []\<rparr> = words_list h []"
    by (simp add: words_list_def)
  have "tok_inv h MODE_NORMAL [] [] ?s" using assms(1) by (simp add: tok_inv_def)
  from tok_loop_ok [OF this assms(2), of 0] show ?thesis
  proof (cases "tok_loop line 0 ?s")
    case None
    then show ?thesis using \<open>tok_inv h MODE_NORMAL [] [] ?s\<close> tok_loop_ok [OF _ assms(2), of h MODE_NORMAL "[]" "[]" ?s 0]
      by (simp add: tokenize_def e)
  next
    case (Some s')
    then obtain m cur ws where i: "tok_inv h m cur ws s'" "lex_line MODE_NORMAL [] [] line = Some (ws @ finish cur)"
      using tok_loop_ok [OF \<open>tok_inv h MODE_NORMAL [] [] ?s\<close> assms(2), of 0] by auto
    note I = i(1) [unfolded tok_inv_def]
    show ?thesis
    proof (cases "cur = []")
      case True
      then show ?thesis using Some i(2) I by (simp add: tokenize_def e finish_def)
    next
      case False
      obtain s2 where p: "push_word s' = Some s2" "tok_inv h m [] (ws @ [cur]) s2" using push_word_ok [OF i(1)] by blast
      note J = p(2) [unfolded tok_inv_def]
      have "0 < tok_n s'" using I False by simp
      then show ?thesis using Some i(2) p(1) J False by (simp add: tokenize_def e finish_def)
    qed
  qed
qed

section \<open>Quoting\<close>

lemma lex_short: "length cur + length cs \<le> 4094 \<Longrightarrow> lex_line m cur ws cs \<noteq> None"
proof (induction m cur ws cs rule: lex_line.induct)
  case (2 m cur ws c cs)
  then show ?case by (cases cs) auto
qed simp

lemma lex_long: "4095 \<le> length cur + k \<Longrightarrow> length cur \<le> 4094 \<Longrightarrow> lex_line MODE_NORMAL cur ws (replicate k 97) = None"
proof (induction k arbitrary: cur)
  case (Suc k)
  then show ?case by (simp add: is_space_def)
qed simp

definition spaces :: "u8 list" where "spaces = [9, 10, 11, 12, 13, 32]"

definition plain :: "u8 list \<Rightarrow> bool" where
  "plain line \<longleftrightarrow> (\<forall>c\<in>set line. c \<noteq> 0 \<and> c \<noteq> 34 \<and> c \<noteq> 39 \<and> c \<noteq> 92)"

lemma is_space_iff: "is_space c \<longleftrightarrow> c \<in> set spaces"
  by (simp add: is_space_def spaces_def)

lemma lex_plain:
  "plain cs \<Longrightarrow> \<forall>x\<in>set cur. x \<notin> set spaces \<Longrightarrow> length cur + length cs \<le> 4094 \<Longrightarrow>
   lex_line MODE_NORMAL cur ws cs = Some (ws @ tokens spaces (cur @ cs))"
proof (induction cs arbitrary: cur ws)
  case Nil
  then show ?case using tokens_last by simp
next
  case (Cons c cs)
  have p: "plain cs" "c \<noteq> 92" "c \<noteq> 34" "c \<noteq> 39" using Cons.prems(1) by (simp_all add: plain_def)
  show ?case
  proof (cases "c \<in> set spaces")
    case True
    have IH: "lex_line MODE_NORMAL [] w cs = Some (w @ tokens spaces cs)" for w
      using Cons.IH [of "[]" w] p(1) Cons.prems(3) by simp
    show ?thesis
    proof (cases "cur = []")
      case e: True
      then show ?thesis using p True IH tokens_skip [OF True, of cs] by (simp add: is_space_iff finish_def)
    next
      case False
      then show ?thesis using p True IH tokens_end [OF Cons.prems(2) False True, of cs] by (simp add: is_space_iff finish_def)
    qed
  next
    case False
    have "lex_line MODE_NORMAL (cur @ [c]) ws cs = Some (ws @ tokens spaces ((cur @ [c]) @ cs))"
      using p(1) Cons.prems(2,3) False by (intro Cons.IH) auto
    then show ?thesis using p False Cons.prems(3) by (simp add: is_space_iff)
  qed
qed

datatype quoting = Backslashes | Single | Double

fun escape :: "u8 \<Rightarrow> u8 list \<Rightarrow> u8 list" where
  "escape q [] = []"
| "escape q (c # cs) = (if c = q \<or> c = 92 then 92 # c # escape q cs else c # escape q cs)"

fun quoted :: "quoting \<times> u8 list \<Rightarrow> u8 list" where
  "quoted (Backslashes, w) = concat (map (\<lambda>c. [92, c]) w)"
| "quoted (Single, w) = 39 # escape 39 w @ [39]"
| "quoted (Double, w) = 34 # escape 34 w @ [34]"

definition command_line :: "(quoting \<times> u8 list) list \<Rightarrow> u8 list" where
  "command_line qs = concat (map (\<lambda>q. quoted q @ [32]) qs)"

lemma lex_backslashes:
  "length cur + length w \<le> 4094 \<Longrightarrow>
   lex_line m cur ws (concat (map (\<lambda>c. [92, c]) w) @ rest) = lex_line m (cur @ w) ws rest"
  by (induction w arbitrary: cur) simp_all

lemma lex_escape:
  "(m, q) \<in> {(MODE_SQUOTE, 39), (MODE_DQUOTE, 34)} \<Longrightarrow> length cur + length w \<le> 4094 \<Longrightarrow>
   lex_line m cur ws (escape q w @ rest) = lex_line m (cur @ w) ws rest"
  by (induction w arbitrary: cur) auto

lemma lex_quoted:
  "length w \<le> 4094 \<Longrightarrow> lex_line MODE_NORMAL [] ws (quoted (q, w) @ rest) = lex_line MODE_NORMAL w ws rest"
  using lex_backslashes [of "[]" w] lex_escape [of MODE_SQUOTE 39 "[]" w] lex_escape [of MODE_DQUOTE 34 "[]" w]
  by (cases q) simp_all

lemma lex_command_line:
  "\<forall>(q, w)\<in>set qs. w \<noteq> [] \<and> length w \<le> 4094 \<Longrightarrow>
   lex_line MODE_NORMAL [] ws (command_line qs) = Some (ws @ map snd qs)"
proof (induction qs arbitrary: ws)
  case (Cons p qs)
  obtain q w where p: "p = (q, w)" by (cases p)
  have "lex_line MODE_NORMAL [] ws (command_line (p # qs)) = lex_line MODE_NORMAL w ws (32 # command_line qs)"
    using Cons.prems lex_quoted [of w ws q "32 # command_line qs"] by (simp add: command_line_def p)
  also have "\<dots> = lex_line MODE_NORMAL [] (ws @ [w]) (command_line qs)"
    using Cons.prems by (simp add: is_space_def finish_def p)
  finally show ?case using Cons by (simp add: p)
qed (simp add: command_line_def finish_def)

lemma zero_escape: "0 \<notin> set (escape q w) \<longleftrightarrow> 0 \<notin> set w"
  by (induction w) auto

lemma zero_command_line: "\<forall>(q, w)\<in>set qs. 0 \<notin> set w \<Longrightarrow> 0 \<notin> set (command_line qs)"
proof -
  have "0 \<notin> set w \<Longrightarrow> 0 \<notin> set (quoted (q, w))" for q w by (cases q) (auto simp: zero_escape)
  then show "\<forall>(q, w)\<in>set qs. 0 \<notin> set w \<Longrightarrow> 0 \<notin> set (command_line qs)" by (auto simp: command_line_def)
qed

section \<open>Releasing the words\<close>

definition fresh_heap :: "wheap \<Rightarrow> bool" where
  "fresh_heap h \<longleftrightarrow> (\<forall>p\<ge>next_block h. blocks h p = None)"

lemma free_blocks_range:
  "(\<forall>p. a \<le> p \<and> p < a + n \<longrightarrow> blocks h p \<noteq> None) \<Longrightarrow>
   free_blocks n [a..<a + n] h = Some (h\<lparr>blocks := (\<lambda>p. if a \<le> p \<and> p < a + n then None else blocks h p)\<rparr>)"
proof (induction n arbitrary: a h)
  case 0
  then show ?case by (cases h) (auto simp: fun_eq_iff)
next
  case (Suc n)
  let ?h = "h\<lparr>blocks := (blocks h)(a := None)\<rparr>"
  have "free_blocks n [Suc a..<Suc a + n] ?h =
      Some (?h\<lparr>blocks := (\<lambda>p. if Suc a \<le> p \<and> p < Suc a + n then None else blocks ?h p)\<rparr>)"
    using Suc.prems by (intro Suc.IH) auto
  moreover have "(\<lambda>p. if Suc a \<le> p \<and> p < Suc a + n then None else blocks ?h p) =
      (\<lambda>p. if a \<le> p \<and> p < a + Suc n then None else blocks h p)" by (auto simp: fun_eq_iff)
  moreover have "blocks h a \<noteq> None" using Suc.prems by simp
  ultimately show ?case using upt_conv_Cons [of a "a + Suc n"] by (simp add: free_block_def)
qed

lemma tokens_destroy_words:
  "fresh_heap h \<Longrightarrow> tokens_destroy (Some (words_list h ws)) (words_heap h ws) =
     Some (h\<lparr>next_block := next_block h + length ws\<rparr>)"
proof -
  assume f: "fresh_heap h"
  let ?h = "words_heap h ws"
  have "free_blocks (length ws) [next_block h..<next_block h + length ws] ?h =
      Some (?h\<lparr>blocks := (\<lambda>p. if next_block h \<le> p \<and> p < next_block h + length ws then None else blocks ?h p)\<rparr>)"
    by (rule free_blocks_range) (simp add: words_heap_def)
  moreover have "(\<lambda>p. if next_block h \<le> p \<and> p < next_block h + length ws then None else blocks ?h p) = blocks h"
    using f by (auto simp: fun_eq_iff words_heap_def fresh_heap_def)
  ultimately show ?thesis by (simp add: tokens_destroy_def words_list_def words_heap_def)
qed

section \<open>Redirections\<close>

text \<open>What kind of operator a word is: \<open>Some True\<close> writes, \<open>Some False\<close> reads.\<close>

definition op_kind :: "u8 list \<Rightarrow> bool option" where
  "op_kind w = (case w of [] \<Rightarrow> None | c # cs \<Rightarrow> if c = 62 then Some True else if c = 60 then Some False else None)"

text \<open>Every operator is followed by a word; the words that are neither; the calls that open the files.\<close>

fun complete :: "('a \<Rightarrow> bool option) \<Rightarrow> 'a list \<Rightarrow> bool" where
  "complete kind [] = True"
| "complete kind [w] = (kind w = None)"
| "complete kind (w # f # ws) = (if kind w = None then complete kind (f # ws) else complete kind ws)"

fun arguments :: "('a \<Rightarrow> bool option) \<Rightarrow> 'a list \<Rightarrow> 'a list" where
  "arguments kind [] = []"
| "arguments kind [w] = [w]"
| "arguments kind (w # f # ws) = (if kind w = None then w # arguments kind (f # ws) else arguments kind ws)"

fun file_calls :: "(nat \<Rightarrow> bool option) \<Rightarrow> (nat \<Rightarrow> int) \<Rightarrow> nat \<Rightarrow> nat list \<Rightarrow> sys_call list" where
  "file_calls kind opens n [] = []"
| "file_calls kind opens n [w] = []"
| "file_calls kind opens n (w # f # ws) =
     (case kind w of None \<Rightarrow> file_calls kind opens n (f # ws)
      | Some wrt \<Rightarrow> Open (Some f) wrt (opens n) # Dup2 (opens n) (if wrt then 1 else 0) # file_calls kind opens (n + 1) ws)"

definition shifted :: "nat \<Rightarrow> nat \<Rightarrow> 'a list \<Rightarrow> 'a list" where
  "shifted j len ps = map (\<lambda>k. if j \<le> k \<and> k + 2 < len then ps ! (k + 2) else ps ! k) [0..<length ps]"

lemma shift_loop_ok:
  "len \<le> length (token_ptrs t) \<Longrightarrow>
   shift_loop (int j) (int len) t = Some (t\<lparr>token_ptrs := shifted j len (token_ptrs t)\<rparr>)"
proof (induction "len - j" arbitrary: j t)
  case 0
  then have "shifted j len (token_ptrs t) = token_ptrs t" by (intro nth_equalityI) (simp_all add: shifted_def)
  then show ?case using 0 by (subst shift_loop.simps) simp
next
  case (Suc k)
  show ?case
  proof (cases "j + 2 < len")
    case False
    then have "shifted j len (token_ptrs t) = token_ptrs t" by (intro nth_equalityI) (simp_all add: shifted_def)
    then show ?thesis using False by (subst shift_loop.simps) simp
  next
    case True
    let ?ps = "token_ptrs t"
    let ?t = "t\<lparr>token_ptrs := ?ps[j := ?ps ! (j + 2)]\<rparr>"
    have s: "tokens_set_token 0 t (int j) (int j + 2) = Some ?t"
      using True Suc.prems by (simp add: tokens_set_token_def nat_add_distrib)
    have "shift_loop (int (Suc j)) (int len) ?t = Some (?t\<lparr>token_ptrs := shifted (Suc j) len (token_ptrs ?t)\<rparr>)"
      using Suc.hyps(2) Suc.prems by (intro Suc.hyps(1)) simp_all
    moreover have "shifted (Suc j) len (?ps[j := ?ps ! (j + 2)]) = shifted j len ?ps"
      using True Suc.prems by (intro nth_equalityI) (auto simp: shifted_def nth_list_update)
    ultimately show ?thesis using True s by (subst shift_loop.simps) (simp add: add.commute)
  qed
qed

lemma length_shifted [simp]: "length (shifted j len ps) = length ps"
  by (simp add: shifted_def)

lemma shifted_take:
  "i + 2 \<le> len \<Longrightarrow> len \<le> length ps \<Longrightarrow> take (len - 2) (shifted i len ps) = take i ps @ drop (i + 2) (take len ps)"
  by (intro nth_equalityI) (auto simp: shifted_def nth_append)

lemma set_shifted: "len \<le> length ps \<Longrightarrow> set (shifted j len ps) \<subseteq> set ps"
  by (auto simp: shifted_def)

definition words_at :: "wheap \<Rightarrow> (nat \<Rightarrow> u8 list) \<Rightarrow> nat list \<Rightarrow> bool" where
  "words_at h W ps \<longleftrightarrow> (\<forall>p\<in>set ps. blocks h p = Some (W p @ [0]))"

lemma first_byte_op:
  "words_at h W ps \<Longrightarrow> p \<in> set ps \<Longrightarrow> \<exists>b. first_byte h (Some p) = Some b \<and>
     (b = 62 \<or> b = 60 \<longleftrightarrow> op_kind (W p) \<noteq> None) \<and> (\<forall>wrt. op_kind (W p) = Some wrt \<longrightarrow> wrt = (b = 62))"
  by (cases "W p") (auto simp: words_at_def first_byte_def op_kind_def)

definition list_ok :: "token_list \<Rightarrow> nat \<Rightarrow> bool" where
  "list_ok t len \<longleftrightarrow> tokens_length t = length (token_ptrs t) \<and> len \<le> tokens_length t"

lemma redirect_keep:
  assumes "list_ok t len" "i < len" "words_at h W (token_ptrs t)" "op_kind (W (token_ptrs t ! i)) = None"
  shows "redirect_loop opens h (int i) (int len) t calls = redirect_loop opens h (int (Suc i)) (int len) t calls"
proof -
  let ?p = "token_ptrs t ! i"
  have "?p \<in> set (token_ptrs t)" using assms(1,2) by (simp add: list_ok_def)
  from first_byte_op [OF assms(3) this] obtain b where b: "first_byte h (Some ?p) = Some b" "\<not> (b = 62 \<or> b = 60)"
    using assms(4) by blast
  have g: "tokens_get_token (Some t) i = Some (Some ?p)" using assms(1,2) by (simp add: tokens_get_token_def list_ok_def)
  show ?thesis using assms(2) b g by (subst redirect_loop.simps) (simp add: add.commute)
qed

lemma redirect_take:
  assumes "list_ok t len" "i + 2 \<le> len" "words_at h W (token_ptrs t)" "op_kind (W (token_ptrs t ! i)) = Some wrt"
  shows "redirect_loop opens h (int i) (int len) t calls =
    redirect_loop opens h (int i) (int (len - 2)) (t\<lparr>token_ptrs := shifted i len (token_ptrs t)\<rparr>)
      (calls @ [Open (Some (token_ptrs t ! Suc i)) wrt (opens (length calls div 2)),
                Dup2 (opens (length calls div 2)) (if wrt then 1 else 0)])"
proof -
  let ?p = "token_ptrs t ! i"
  have "?p \<in> set (token_ptrs t)" using assms(1,2) by (simp add: list_ok_def)
  from first_byte_op [OF assms(3) this] obtain b where b: "first_byte h (Some ?p) = Some b" "b = 62 \<or> b = 60"
    "wrt = (b = 62)" using assms(4) by blast
  have g: "tokens_get_token (Some t) i = Some (Some ?p)" "tokens_get_token (Some t) (Suc i) = Some (Some (token_ptrs t ! Suc i))"
    using assms(1,2) by (simp_all add: tokens_get_token_def list_ok_def)
  have n: "nat (int i + 1) = Suc i" by simp
  have "len \<le> length (token_ptrs t)" using assms(1) by (simp add: list_ok_def)
  then have "take_redirect (b = 62) (opens (length calls div 2)) (int i) (int len) t calls =
      Some (t\<lparr>token_ptrs := shifted i len (token_ptrs t)\<rparr>,
        calls @ [Open (Some (token_ptrs t ! Suc i)) wrt (opens (length calls div 2)),
                 Dup2 (opens (length calls div 2)) (if wrt then 1 else 0)])"
    using g(2) b(3) by (simp add: take_redirect_def shift_loop_ok n)
  moreover have "int len - 2 = int (len - 2)" using assms(2) by simp
  moreover have "int i < int len" using assms(2) by simp
  ultimately show ?thesis using b(1,2) g(1) by (subst redirect_loop.simps) (simp only: nat_int Option.bind.bind_lunit if_True prod.case simp_thms)
qed

lemma redirect_loop_ok:
  assumes "list_ok t len" "i \<le> len" "words_at h W (token_ptrs t)" "even (length calls)"
    "complete (op_kind \<circ> W) (drop i (take len (token_ptrs t)))"
  shows "\<exists>t'. redirect_loop opens h (int i) (int len) t calls =
      Some (int (i + length (arguments (op_kind \<circ> W) (drop i (take len (token_ptrs t))))), t',
        calls @ file_calls (op_kind \<circ> W) opens (length calls div 2) (drop i (take len (token_ptrs t)))) \<and>
    take (i + length (arguments (op_kind \<circ> W) (drop i (take len (token_ptrs t))))) (token_ptrs t') =
      take i (token_ptrs t) @ arguments (op_kind \<circ> W) (drop i (take len (token_ptrs t))) \<and>
    tokens_length t' = tokens_length t \<and> length (token_ptrs t') = length (token_ptrs t) \<and>
    set (token_ptrs t') \<subseteq> set (token_ptrs t)"
  using assms
proof (induction "len - i" arbitrary: i len t calls rule: less_induct)
  case less
  let ?k = "op_kind \<circ> W" and ?ps = "token_ptrs t"
  let ?D = "drop i (take len ?ps)"
  have len: "len \<le> length ?ps" "tokens_length t = length ?ps" using less.prems(1) by (simp_all add: list_ok_def)
  consider (none) "i = len" | (one) "Suc i = len" | (more) "i + 2 \<le> len" using less.prems(2) by linarith
  then show ?case
  proof cases
    case none
    then show ?thesis using len by (subst redirect_loop.simps) simp
  next
    case one
    then have D: "?D = [?ps ! i]" using len by (simp add: drop_Cons_nth)
    then have k: "op_kind (W (?ps ! i)) = None" using less.prems(5) by simp
    have i: "i < len" using one by simp
    have "redirect_loop opens h (int (Suc i)) (int len) t calls = Some (int len, t, calls)"
      using one by (subst redirect_loop.simps) simp
    then have "redirect_loop opens h (int i) (int len) t calls = Some (int (i + length (arguments ?k ?D)), t, calls @ file_calls ?k opens (length calls div 2) ?D)"
      using redirect_keep [OF less.prems(1) i less.prems(3) k] D one by simp
    moreover have "take (Suc i) ?ps = take i ?ps @ [?ps ! i]" by (rule take_Suc_conv_app_nth) (use len one in simp)
    ultimately show ?thesis using D by (intro exI [of _ t]) simp
  next
    case more
    have D: "?D = ?ps ! i # ?ps ! Suc i # drop (i + 2) (take len ?ps)" using len more by (simp add: drop_Cons_nth)
    have D1: "drop (Suc i) (take len ?ps) = ?ps ! Suc i # drop (i + 2) (take len ?ps)" using len more by (simp add: drop_Cons_nth)
    show ?thesis
    proof (cases "op_kind (W (?ps ! i))")
      case None
      have lt: "len - Suc i < len - i" "Suc i \<le> len" using more by simp_all
      have c: "complete ?k (drop (Suc i) (take len ?ps))" using less.prems(5) None unfolding D D1 by simp
      have A: "arguments ?k ?D = ?ps ! i # arguments ?k (drop (Suc i) (take len ?ps))"
        "file_calls ?k opens n ?D = file_calls ?k opens n (drop (Suc i) (take len ?ps))" for n
        using None unfolding D D1 by simp_all
      have i: "i < len" using more by simp
      have "take (Suc i) ?ps = take i ?ps @ [?ps ! i]" using len more by (simp add: take_Suc_conv_app_nth)
      then show ?thesis using less.hyps [OF lt(1) less.prems(1) lt(2) less.prems(3,4) c]
        unfolding redirect_keep [OF less.prems(1) i less.prems(3) None] A by simp
    next
      case (Some wrt)
      let ?t = "t\<lparr>token_ptrs := shifted i len ?ps\<rparr>"
      let ?calls = "calls @ [Open (Some (?ps ! Suc i)) wrt (opens (length calls div 2)), Dup2 (opens (length calls div 2)) (if wrt then 1 else 0)]"
      have T: "take (len - 2) (token_ptrs ?t) = take i ?ps @ drop (i + 2) (take len ?ps)"
        using shifted_take [OF more len(1)] by simp
      then have D2: "drop i (take (len - 2) (token_ptrs ?t)) = drop (i + 2) (take len ?ps)"
        using len more by simp
      have c: "complete ?k (drop i (take (len - 2) (token_ptrs ?t)))" unfolding D2 using less.prems(5) Some unfolding D by simp
      have A: "arguments ?k ?D = arguments ?k (drop (i + 2) (take len ?ps))"
        "file_calls ?k opens n ?D = [Open (Some (?ps ! Suc i)) wrt (opens n), Dup2 (opens n) (if wrt then 1 else 0)] @
           file_calls ?k opens (n + 1) (drop (i + 2) (take len ?ps))" for n
        using Some unfolding D by simp_all
      have w: "words_at h W (token_ptrs ?t)" using less.prems(3) set_shifted [OF len(1)] by (auto simp: words_at_def)
      have "len - 2 \<le> length ?ps" using len(1) by linarith
      then have l: "list_ok ?t (len - 2)" using len(2) by (simp add: list_ok_def)
      have s: "len - 2 - i < len - i" "i \<le> len - 2" using more by simp_all
      have e: "even (length ?calls)" "length ?calls div 2 = length calls div 2 + 1" using less.prems(4) by simp_all
      have ti: "take i (token_ptrs ?t) = take i ?ps"
        using arg_cong [OF T, of "take i"] len more by simp
      from less.hyps [OF s(1) l s(2) w e(1) c, unfolded D2 e(2)]
      obtain t' where H: "redirect_loop opens h (int i) (int (len - 2)) ?t ?calls =
          Some (int (i + length (arguments ?k (drop (i + 2) (take len ?ps)))), t',
            ?calls @ file_calls ?k opens (length calls div 2 + 1) (drop (i + 2) (take len ?ps)))"
        "take (i + length (arguments ?k (drop (i + 2) (take len ?ps)))) (token_ptrs t') =
          take i (token_ptrs ?t) @ arguments ?k (drop (i + 2) (take len ?ps))"
        "tokens_length t' = tokens_length ?t" "length (token_ptrs t') = length (token_ptrs ?t)"
        "set (token_ptrs t') \<subseteq> set (token_ptrs ?t)" by blast
      have "set (token_ptrs t') \<subseteq> set ?ps" using H(5) set_shifted [OF len(1), of i] by auto
      moreover have "redirect_loop opens h (int i) (int len) t calls =
          Some (int (i + length (arguments ?k ?D)), t', calls @ file_calls ?k opens (length calls div 2) ?D)"
        unfolding redirect_take [OF less.prems(1) more less.prems(3) Some] A H(1) by simp
      ultimately show ?thesis unfolding A(1) using H(2-4) ti
        by (intro exI [of _ t'] conjI) simp_all
    qed
  qed
qed

text \<open>After a redirection that is not at the end two tokens are the same pointer.\<close>

lemma free_blocks_distinct:
  "free_blocks n ps h = Some h' \<Longrightarrow>
   distinct (take n ps) \<and> (\<forall>p\<in>set (take n ps). blocks h p \<noteq> None) \<and> (\<forall>p\<in>set (take n ps). blocks h' p = None) \<and>
   (\<forall>p. blocks h p = None \<longrightarrow> blocks h' p = None)"
proof (induction n ps h rule: free_blocks.induct)
  case (3 n p ps h)
  then obtain h1 where h1: "free_block p h = Some h1" "free_blocks n ps h1 = Some h'" by (auto split: bind_splits)
  then have "blocks h p \<noteq> None" "blocks h1 = (blocks h)(p := None)" by (auto simp: free_block_def split: if_splits)
  moreover note "3.IH" [OF h1]
  ultimately show ?case by (auto split: if_splits)
qed simp_all

lemma redirect_skip:
  assumes "list_ok t len" "words_at h W (token_ptrs t)" "i + d \<le> len" "\<forall>j. i \<le> j \<and> j < i + d \<longrightarrow> op_kind (W (token_ptrs t ! j)) = None"
  shows "redirect_loop opens h (int i) (int len) t calls = redirect_loop opens h (int (i + d)) (int len) t calls"
  using assms(3,4)
proof (induction d arbitrary: i)
  case (Suc d)
  have "redirect_loop opens h (int i) (int len) t calls = redirect_loop opens h (int (Suc i)) (int len) t calls"
    using Suc.prems by (intro redirect_keep [OF assms(1) _ assms(2)]) simp_all
  also have "\<dots> = redirect_loop opens h (int (Suc i + d)) (int len) t calls"
    using Suc.prems by (intro Suc.IH) simp_all
  finally show ?case by simp
qed simp

lemma complete_drop:
  "complete k xs \<Longrightarrow> i + 2 \<le> length xs \<Longrightarrow> \<forall>j<i. k (xs ! j) = None \<Longrightarrow> k (xs ! i) \<noteq> None \<Longrightarrow> complete k (drop (i + 2) xs)"
proof (induction k xs arbitrary: i rule: complete.induct)
  case (3 k w f ws)
  show ?case
  proof (cases i)
    case 0
    then show ?thesis using 3 by simp
  next
    case (Suc j)
    then have "k w = None" using "3.prems"(3) by auto
    moreover have "\<forall>l<j. k ((f # ws) ! l) = None" using "3.prems"(3) Suc by auto
    ultimately show ?thesis using "3.IH"(1) [of j] "3.prems" Suc by simp
  qed
qed simp_all

lemma redirect_aliases:
  assumes t: "list_ok t (tokens_length t)" and w: "words_at h W (token_ptrs t)" and d: "distinct (token_ptrs t)"
    and c: "complete (op_kind \<circ> W) (token_ptrs t)"
    and i: "i + 2 < tokens_length t" "op_kind (W (token_ptrs t ! i)) \<noteq> None" "\<forall>j<i. op_kind (W (token_ptrs t ! j)) = None"
    and r: "redirect opens h t = Some (len, t', calls)"
  shows "tokens_destroy (Some t') h' = None"
proof -
  let ?n = "tokens_length t" and ?ps = "token_ptrs t"
  have n: "length ?ps = ?n" using t by (simp add: list_ok_def)
  obtain wrt where wrt: "op_kind (W (?ps ! i)) = Some wrt" using i(2) by blast
  let ?t = "t\<lparr>token_ptrs := shifted i ?n ?ps\<rparr>"
  let ?calls = "[Open (Some (?ps ! Suc i)) wrt (opens 0), Dup2 (opens 0) (if wrt then 1 else 0)]"
  have "redirect_loop opens h 0 (int ?n) t [] = redirect_loop opens h (int i) (int ?n) t []"
    using redirect_skip [OF t w, of 0 i opens "[]"] i(1,3) by simp
  also have "\<dots> = redirect_loop opens h (int i) (int (?n - 2)) ?t ?calls"
    using redirect_take [OF t _ w wrt, of opens "[]"] i(1) by simp
  finally have eq: "redirect_loop opens h 0 (int ?n) t [] = redirect_loop opens h (int i) (int (?n - 2)) ?t ?calls" .
  have T: "take (?n - 2) (token_ptrs ?t) = take i ?ps @ drop (i + 2) ?ps" using shifted_take [of i ?n ?ps] i(1) n by simp
  then have D: "drop i (take (?n - 2) (token_ptrs ?t)) = drop (i + 2) ?ps" using i(1) n by simp
  have cc: "complete (op_kind \<circ> W) (drop i (take (?n - 2) (token_ptrs ?t)))"
    unfolding D using complete_drop [OF c, of i] i n by simp
  have ws: "words_at h W (token_ptrs ?t)" using w set_shifted [of ?n ?ps i] n by (auto simp: words_at_def)
  have "list_ok ?t (?n - 2)" using t by (simp add: list_ok_def)
  from redirect_loop_ok [OF this _ ws _ cc, of ?calls opens] i(1) eq r
  have t': "tokens_length t' = ?n" "length (token_ptrs t') = ?n" "set (token_ptrs t') \<subseteq> set (shifted i ?n ?ps)"
    using n by (auto simp: redirect_def tokens_get_length_def)
  have "?ps ! i \<notin> set (shifted i ?n ?ps)"
  proof
    assume "?ps ! i \<in> set (shifted i ?n ?ps)"
    then obtain k where k: "k < ?n" "?ps ! i = shifted i ?n ?ps ! k" using n by (auto simp: in_set_conv_nth)
    define l where "l = (if i \<le> k \<and> k + 2 < ?n then k + 2 else k)"
    have "?ps ! i = ?ps ! l" "l < ?n" using k n by (auto simp: shifted_def l_def)
    then have "i = l" using nth_eq_iff_index_eq [OF d, of i l] i(1) n by simp
    then show False using i(1) by (auto simp: l_def split: if_splits)
  qed
  then have "set (token_ptrs t') \<subseteq> set ?ps - {?ps ! i}" using t'(3) set_shifted [of ?n ?ps i] n by auto
  then have "card (set (token_ptrs t')) \<le> card (set ?ps - {?ps ! i})" by (intro card_mono) simp_all
  also have "\<dots> < ?n" using distinct_card [OF d] n i(1) by (simp add: card_Diff_singleton_if)
  finally have "\<not> distinct (token_ptrs t')" using distinct_card [of "token_ptrs t'"] t'(2) by linarith
  then have "free_blocks (tokens_length t') (token_ptrs t') h' = None"
    using free_blocks_distinct [of "tokens_length t'" "token_ptrs t'" h'] t'(1,2) by (cases "free_blocks (tokens_length t') (token_ptrs t') h'") simp_all
  then show ?thesis by (simp add: tokens_destroy_def)
qed

section \<open>The argument vector\<close>

lemma fill_argv_ok:
  "j + k < length argv \<Longrightarrow> j + k \<le> tokens_length t \<Longrightarrow> length (token_ptrs t) = tokens_length t \<Longrightarrow>
   fill_argv k (int j) t argv = Some (take j argv @ map Some (take k (drop j (token_ptrs t))) @ None # drop (j + k + 1) argv)"
proof (induction k arbitrary: j argv)
  case 0
  then show ?case by (simp add: upd_conv_take_nth_drop)
next
  case (Suc k)
  let ?p = "token_ptrs t ! j"
  have g: "tokens_get_token (Some t) j = Some (Some ?p)" using Suc.prems by (simp add: tokens_get_token_def)
  have D: "take (Suc k) (drop j (token_ptrs t)) = ?p # take k (drop (Suc j) (token_ptrs t))"
    using Suc.prems drop_Cons_nth [of j "token_ptrs t"] by simp
  have T: "take (Suc j) (argv[j := Some ?p]) = take j argv @ [Some ?p]"
    using Suc.prems by (simp add: take_Suc_conv_app_nth)
  have "fill_argv (Suc k) (int j) t argv = fill_argv k (int (Suc j)) t (argv[j := Some ?p])"
    using g Suc.prems by (simp add: add.commute)
  also have "\<dots> = Some (take (Suc j) (argv[j := Some ?p]) @ map Some (take k (drop (Suc j) (token_ptrs t))) @
      None # drop (Suc j + k + 1) (argv[j := Some ?p]))"
    using Suc.prems by (intro Suc.IH) simp_all
  finally show ?case unfolding T D by simp
qed

lemma fill_argv_overflow:
  "length argv \<le> j + k \<Longrightarrow> j + k \<le> tokens_length t \<Longrightarrow> length (token_ptrs t) = tokens_length t \<Longrightarrow>
   fill_argv k (int j) t argv = None"
proof (induction k arbitrary: j argv)
  case (Suc k)
  have g: "tokens_get_token (Some t) j = Some (Some (token_ptrs t ! j))" using Suc.prems by (simp add: tokens_get_token_def)
  have "fill_argv k (int (Suc j)) t (argv[j := Some (token_ptrs t ! j)]) = None" using Suc.prems by (intro Suc.IH) simp_all
  then show ?case using g by (simp add: add.commute)
qed simp

section \<open>Properties\<close>

lemma words_list_at: "words_at (words_heap h ws) (\<lambda>p. ws ! (p - next_block h)) (token_ptrs (words_list h ws))"
  by (auto simp: words_at_def words_heap_def words_list_def)

lemma words_list_map: "map (\<lambda>p. ws ! (p - next_block h)) (token_ptrs (words_list h ws)) = ws"
  by (intro nth_equalityI) (simp_all add: words_list_def)

lemma complete_map: "complete (k \<circ> W) xs = complete k (map W xs)"
  by (induction "k \<circ> W" xs rule: complete.induct) simp_all

lemma arguments_map: "map W (arguments (k \<circ> W) xs) = arguments k (map W xs)"
  by (induction "k \<circ> W" xs rule: arguments.induct) simp_all

text \<open>
  C35. The shell reads back what is quoted: a command line that gives its words between single quotes,
  between double quotes or with a backslash before each byte is split into exactly these words, as blocks
  of memory with terminators, and \<open>tokens_destroy\<close> releases exactly these blocks, each once. On a line without
  quotes and backslashes the words are the maximal pieces without white space. A line of at most 4094 bytes
  is never given up; a word of 4095 or more letters makes the shell abort, with no write outside the buffer.
\<close>

theorem tokenize_words:
  assumes "length tk = 4096" "fresh_heap h"
  shows "((\<forall>(q, w)\<in>set qs. w \<noteq> [] \<and> length w \<le> 4094 \<and> 0 \<notin> set w) \<longrightarrow>
      (\<exists>tk' l h'. tokenize (Some (command_line qs)) tk h = Some (Some l, tk', h') \<and>
        tokens_get_length (Some l) = length qs \<and>
        (\<forall>n<length qs. \<exists>p. tokens_get_token (Some l) n = Some (Some p) \<and> blocks h' p = Some (snd (qs ! n) @ [0])) \<and>
        tokens_destroy (Some l) h' = Some (h\<lparr>next_block := next_block h + length qs\<rparr>)))
    \<and> (plain line \<and> length line \<le> 4094 \<longrightarrow>
        (\<exists>tk'. tokenize (Some line) tk h =
          Some (Some (words_list h (tokens spaces line)), tk', words_heap h (tokens spaces line))))
    \<and> (0 \<notin> set line \<and> length line \<le> 4094 \<longrightarrow> tokenize (Some line) tk h \<noteq> None)
    \<and> (4095 \<le> k \<longrightarrow> tokenize (Some (replicate k 97)) tk h = None)"
proof (intro conjI impI)
  let ?ws = "map snd qs"
  assume a: "\<forall>(q, w)\<in>set qs. w \<noteq> [] \<and> length w \<le> 4094 \<and> 0 \<notin> set w"
  have "0 \<notin> set (command_line qs)" by (rule zero_command_line) (use a in auto)
  moreover have "lex_line MODE_NORMAL [] [] (command_line qs) = Some ?ws"
    using lex_command_line [of qs "[]"] a by fastforce
  ultimately obtain tk' where t: "tokenize (Some (command_line qs)) tk h = Some (Some (words_list h ?ws), tk', words_heap h ?ws)"
    using tokenize_lex [OF assms(1), of "command_line qs" h] by auto
  have g: "tokens_get_token (Some (words_list h ?ws)) n = Some (Some (next_block h + n)) \<and>
      blocks (words_heap h ?ws) (next_block h + n) = Some (snd (qs ! n) @ [0])" if "n < length qs" for n
    using that by (simp add: tokens_get_token_def words_list_def words_heap_def)
  have l: "tokens_get_length (Some (words_list h ?ws)) = length qs" by (simp add: tokens_get_length_def words_list_def)
  show "\<exists>tk' l h'. tokenize (Some (command_line qs)) tk h = Some (Some l, tk', h') \<and>
        tokens_get_length (Some l) = length qs \<and>
        (\<forall>n<length qs. \<exists>p. tokens_get_token (Some l) n = Some (Some p) \<and> blocks h' p = Some (snd (qs ! n) @ [0])) \<and>
        tokens_destroy (Some l) h' = Some (h\<lparr>next_block := next_block h + length qs\<rparr>)"
    using t g l tokens_destroy_words [OF assms(2), of ?ws]
    by (intro exI [of _ tk'] exI [of _ "words_list h ?ws"] exI [of _ "words_heap h ?ws"]) auto
next
  assume a: "plain line \<and> length line \<le> 4094"
  then have "0 \<notin> set line" by (auto simp: plain_def)
  then show "\<exists>tk'. tokenize (Some line) tk h =
      Some (Some (words_list h (tokens spaces line)), tk', words_heap h (tokens spaces line))"
    using tokenize_lex [OF assms(1), of line h] lex_plain [of line "[]" "[]"] a by auto
next
  assume a: "0 \<notin> set line \<and> length line \<le> 4094"
  then show "tokenize (Some line) tk h \<noteq> None"
    using tokenize_lex [OF assms(1), of line h] lex_short [of "[]" line MODE_NORMAL "[]"] by (auto split: option.splits)
next
  assume "4095 \<le> k"
  then show "tokenize (Some (replicate k 97)) tk h = None"
    using tokenize_lex [OF assms(1), of "replicate k 97" h] lex_long [of "[]" k "[]"] by simp
qed

theorem tokenize_words_witness:
  "\<exists>tk' l h'. tokenize (Some (command_line [(Single, [99, 39, 32]), (Backslashes, [60])])) (replicate 4096 0)
      \<lparr>blocks = (\<lambda>p. None), next_block = 7\<rparr> = Some (Some l, tk', h') \<and> tokens_get_length (Some l) = 2"
proof -
  have a: "\<forall>(q, w)\<in>set [(Single, [99, 39, 32]), (Backslashes, [60])]. w \<noteq> [] \<and> length w \<le> 4094 \<and> (0 :: u8) \<notin> set w" by simp
  have f: "fresh_heap \<lparr>blocks = (\<lambda>p. None), next_block = 7\<rparr>" by (simp add: fresh_heap_def)
  show ?thesis using conjunct1 [OF tokenize_words [OF _ f, of "replicate 4096 0"
      "[(Single, [99, 39, 32]), (Backslashes, [60])]" "[]" 0]] a by auto
qed

text \<open>
  C36. Redirections: on the words of a line in which every operator is followed by a word, \<open>redirect\<close> ends,
  opens the files in their order, for writing or reading, makes each the standard output or input, and leaves
  at the front of the tokens exactly the remaining words, in their order. The argument vector built from
  them is these words and a null pointer if there are at most 255, and an overflow of the array otherwise.
  After a redirection that is not at the end the tokens can no longer be destroyed: a word would be freed twice.
\<close>

theorem redirect_arguments:
  fixes ws :: "u8 list list" and h :: wheap and junk :: "nat option list" and opens :: "nat \<Rightarrow> int"
  assumes "complete op_kind ws" "length junk = 256"
  defines "l \<equiv> words_list h ws" and "H \<equiv> words_heap h ws"
  shows "\<exists>t'. redirect opens H l = Some (int (length (arguments op_kind ws)), t',
        file_calls (\<lambda>p. op_kind (ws ! (p - next_block h))) opens 0 (token_ptrs l)) \<and>
      (\<forall>i<length (arguments op_kind ws). \<exists>p. tokens_get_token (Some t') i = Some (Some p) \<and>
         blocks H p = Some (arguments op_kind ws ! i @ [0])) \<and>
      (length (arguments op_kind ws) \<le> 255 \<longrightarrow>
        build_argv junk (int (length (arguments op_kind ws))) t' =
          Some (map Some (take (length (arguments op_kind ws)) (token_ptrs t')) @
                None # drop (length (arguments op_kind ws) + 1) junk)) \<and>
      (256 \<le> length (arguments op_kind ws) \<longrightarrow> build_argv junk (int (length (arguments op_kind ws))) t' = None) \<and>
      ((\<exists>i. i + 2 < length ws \<and> op_kind (ws ! i) \<noteq> None \<and> (\<forall>j<i. op_kind (ws ! j) = None)) \<longrightarrow>
        tokens_destroy (Some t') H = None)"
proof -
  let ?W = "\<lambda>p. ws ! (p - next_block h)" and ?A = "arguments op_kind ws"
  let ?B = "arguments (op_kind \<circ> ?W) (token_ptrs l)"
  have w: "words_at H ?W (token_ptrs l)" unfolding H_def l_def by (rule words_list_at)
  have m: "map ?W (token_ptrs l) = ws" unfolding l_def by (rule words_list_map)
  have n: "tokens_length l = length ws" "length (token_ptrs l) = length ws" "distinct (token_ptrs l)"
    by (simp_all add: l_def words_list_def)
  have ok: "list_ok l (length ws)" using n by (simp add: list_ok_def)
  have c: "complete (op_kind \<circ> ?W) (token_ptrs l)" using assms(1) unfolding complete_map m .
  have B: "map ?W ?B = ?A" unfolding arguments_map m ..
  then have lB: "length ?B = length ?A" by (metis length_map)
  have e: "drop 0 (take (length ws) (token_ptrs l)) = token_ptrs l" using n by simp
  from redirect_loop_ok [OF ok le0 w, of "[]" opens, unfolded e, OF _ c]
  obtain t' where R: "redirect_loop opens H (int 0) (int (length ws)) l [] =
        Some (int (0 + length ?B), t', [] @ file_calls (op_kind \<circ> ?W) opens (length [] div 2) (token_ptrs l))"
      "take (0 + length ?B) (token_ptrs t') = take 0 (token_ptrs l) @ ?B" "tokens_length t' = tokens_length l"
      "length (token_ptrs t') = length (token_ptrs l)" "set (token_ptrs t') \<subseteq> set (token_ptrs l)" by auto
  then have t': "redirect_loop opens H 0 (int (length ws)) l [] =
        Some (int (length ?A), t', file_calls (op_kind \<circ> ?W) opens 0 (token_ptrs l))"
      "take (length ?A) (token_ptrs t') = ?B" "tokens_length t' = length ws" "length (token_ptrs t') = length ws"
      "set (token_ptrs t') \<subseteq> set (token_ptrs l)"
    unfolding lB n by simp_all
  have r: "redirect opens H l = Some (int (length ?A), t', file_calls (\<lambda>p. op_kind (?W p)) opens 0 (token_ptrs l))"
    using t'(1) n by (simp add: redirect_def tokens_get_length_def comp_def)
  have le: "length ?A \<le> length ws" using arg_cong [OF t'(2), of length] lB t'(4) by simp
  have g: "tokens_get_token (Some t') i = Some (Some (token_ptrs t' ! i)) \<and> blocks H (token_ptrs t' ! i) = Some (?A ! i @ [0])"
    if "i < length ?A" for i
  proof -
    have "token_ptrs t' ! i = ?B ! i" using t'(2) that by (metis nth_take)
    moreover have "?A ! i = ?W (?B ! i)"
      by (rule arg_cong [OF B, of "\<lambda>xs. xs ! i", symmetric, THEN trans]) (rule nth_map, use that lB in simp)
    ultimately have "?W (token_ptrs t' ! i) = ?A ! i" by (simp only:)
    moreover have "i < length ws" using that le by linarith
    moreover from this have "token_ptrs t' ! i \<in> set (token_ptrs l)" using t'(4,5) nth_mem [of i "token_ptrs t'"] by auto
    ultimately show ?thesis using w t'(3,4) by (simp add: tokens_get_token_def words_at_def)
  qed
  have v: "build_argv junk (int (length ?A)) t' = Some (map Some (take (length ?A) (token_ptrs t')) @ None # drop (length ?A + 1) junk)"
    if "length ?A \<le> 255"
    using fill_argv_ok [of 0 "length ?A" junk t'] that assms(2) le t'(3,4) by (simp add: build_argv_def)
  have o: "build_argv junk (int (length ?A)) t' = None" if "256 \<le> length ?A"
    using fill_argv_overflow [of junk 0 "length ?A" t'] that assms(2) le t'(3,4) by (simp add: build_argv_def)
  have d: "tokens_destroy (Some t') H = None"
    if "i + 2 < length ws" "op_kind (ws ! i) \<noteq> None" "\<forall>j<i. op_kind (ws ! j) = None" for i
  proof -
    have W: "?W (token_ptrs l ! j) = ws ! j" if "j < length ws" for j using that by (simp add: l_def words_list_def)
    have "op_kind (?W (token_ptrs l ! i)) \<noteq> None" "\<forall>j<i. op_kind (?W (token_ptrs l ! j)) = None"
      using that W by simp_all
    then show ?thesis using redirect_aliases [OF _ w n(3) c _ _ _ r, of i H] ok that(1) n(1) by simp
  qed
  show ?thesis using r g v o d by blast
qed

theorem redirect_arguments_witness:
  "\<exists>t'. redirect (\<lambda>n. 3) (words_heap \<lparr>blocks = (\<lambda>p. None), next_block = 2\<rparr> [[97], [62], [98], [99]])
      (words_list \<lparr>blocks = (\<lambda>p. None), next_block = 2\<rparr> [[97], [62], [98], [99]]) =
      Some (2, t', [Open (Some 4) True 3, Dup2 3 1]) \<and>
    tokens_destroy (Some t') (words_heap \<lparr>blocks = (\<lambda>p. None), next_block = 2\<rparr> [[97], [62], [98], [99]]) = None"
proof -
  let ?h = "\<lparr>blocks = (\<lambda>p. None), next_block = 2\<rparr>" and ?ws = "[[97], [62], [98], [99]]"
  have c: "complete op_kind ?ws" by (simp add: op_kind_def)
  have e: "\<exists>i. i + 2 < length ?ws \<and> op_kind (?ws ! i) \<noteq> None \<and> (\<forall>j<i. op_kind (?ws ! j) = None)"
    by (intro exI [of _ 1]) (simp add: op_kind_def)
  have k: "arguments op_kind ?ws = [[97], [99]]" by (simp add: op_kind_def)
  have f: "file_calls (\<lambda>p. op_kind (?ws ! (p - next_block ?h))) (\<lambda>n. 3) 0 (token_ptrs (words_list ?h ?ws)) = [Open (Some 4) True 3, Dup2 3 1]"
    by (simp add: words_list_def op_kind_def upt_rec)
  from redirect_arguments [OF c, where junk = "replicate 256 None" and opens = "\<lambda>n. 3" and h = ?h] e k f show ?thesis by auto
qed

end
