(* ===== verification/Words.thy ===== *)
theory Words
  imports Cstring
begin

text \<open>
  The word counter of \<open>src/hw-intro/words\<close>: \<open>word_count.c\<close>, singly linked lists of words with their
  counts, and the functions of \<open>main.c\<close> that read a text. A list is the address of its first node, 0 for
  none; \<open>malloc\<close> always returns memory, at a new address. A text is the bytes of the file; \<open>char\<close> is
  signed, so the byte 255 is taken for the end of the file. \<open>None\<close> is a write outside the array
  \<open>word\<close>, the overflow of a counter or a loop that does not end.
\<close>

section \<open>The code\<close>

datatype word_count = Word_Count (wc_word: "u8 list") (wc_count: int)

record wnode =
  nentry :: word_count
  nnext :: nat

record wmem =
  wnodes :: "nat \<rightharpoonup> wnode"
  wfresh :: nat

definition init_words :: nat where "init_words = 0"

partial_function (option) len_loop :: "wmem \<Rightarrow> nat \<Rightarrow> nat \<Rightarrow> nat option" where
  "len_loop m w len =
     (if w \<noteq> 0 then do { nd \<leftarrow> wnodes m w; len_loop m (nnext nd) (len + 1) } else Some len)"

definition len_words :: "wmem \<Rightarrow> nat \<Rightarrow> nat option" where
  "len_words m wchead = len_loop m wchead 0"

text \<open>When the word is found, the loop stores the node and does not move on.\<close>

partial_function (option) find_loop :: "wmem \<Rightarrow> u8 list \<Rightarrow> nat \<Rightarrow> nat \<Rightarrow> nat option" where
  "find_loop m word wchead wc =
     (if wchead \<noteq> 0 then do {
        nd \<leftarrow> wnodes m wchead;
        (if wc_word (nentry nd) \<noteq> word then find_loop m word (nnext nd) wc
         else find_loop m word wchead wchead)
      } else Some wc)"

definition find_word :: "wmem \<Rightarrow> nat \<Rightarrow> u8 list \<Rightarrow> nat option" where
  "find_word m wchead word = find_loop m word wchead 0"

definition add_word :: "u8 list \<Rightarrow> nat \<times> wmem \<Rightarrow> (nat \<times> wmem) option" where
  "add_word word = (\<lambda>(wclist, m). do {
     wc \<leftarrow> find_word m wclist word;
     (if wc \<noteq> 0 then do {
        nd \<leftarrow> wnodes m wc;
        c \<leftarrow> cint32 (wc_count (nentry nd) + 1);
        Some (wclist, m\<lparr>wnodes := (wnodes m)(wc \<mapsto> nd\<lparr>nentry := Word_Count (wc_word (nentry nd)) c\<rparr>)\<rparr>)
      } else
        Some (wfresh m, m\<lparr>wnodes := (wnodes m)(wfresh m \<mapsto> \<lparr>nentry = Word_Count word 1, nnext = wclist\<rparr>),
                          wfresh := wfresh m + 1\<rparr>))
   })"

definition MAX_WORD_LEN :: nat where "MAX_WORD_LEN = 64"

definition EOF_byte :: u8 where "EOF_byte = 255"

definition isalpha :: "u8 \<Rightarrow> bool" where
  "isalpha c \<longleftrightarrow> 65 \<le> c \<and> c \<le> 90 \<or> 97 \<le> c \<and> c \<le> 122"

definition tolower :: "u8 \<Rightarrow> u8" where
  "tolower c = (if 65 \<le> c \<and> c \<le> 90 then c + 32 else c)"

fun num_words_loop :: "nat \<Rightarrow> int \<Rightarrow> u8 list \<Rightarrow> int option" where
  "num_words_loop state n [] = Some n"
| "num_words_loop state n (c # cs) =
     (if c = EOF_byte then Some n
      else if state = 0 then num_words_loop (if isalpha c then 1 else 0) n cs
      else if state = 1 then
        (if isalpha c then do { n' \<leftarrow> cint32 (n + 1); num_words_loop 2 n' cs } else num_words_loop 1 n cs)
      else if state = 2 then num_words_loop (if \<not> isalpha c then 0 else 2) n cs
      else num_words_loop state n cs)"

definition num_words :: "u8 list \<Rightarrow> int option" where
  "num_words text = num_words_loop 0 0 text"

record count_state =
  cw_word :: "u8 list"
  cw_index :: nat
  cw_state :: nat
  cw_list :: "nat \<times> wmem"

definition put_letter :: "u8 \<Rightarrow> count_state \<Rightarrow> count_state option" where
  "put_letter c s = do {
     kassert (cw_index s < length (cw_word s));
     Some (s\<lparr>cw_word := (cw_word s)[cw_index s := tolower c], cw_index := cw_index s + 1\<rparr>)
   }"

text \<open>The terminator is written and the word added; \<open>add_word\<close> sees the string in the array.\<close>

definition end_word :: "count_state \<Rightarrow> count_state option" where
  "end_word s = do {
     kassert (cw_index s < length (cw_word s));
     let w = (cw_word s)[cw_index s := 0];
     l \<leftarrow> add_word (takeWhile (\<lambda>c. c \<noteq> 0) w) (cw_list s);
     Some (s\<lparr>cw_word := w, cw_list := l\<rparr>)
   }"

definition count_char :: "u8 \<Rightarrow> count_state \<Rightarrow> count_state option" where
  "count_char c s =
     (if cw_state s = 0 then
        (if isalpha c then do { s' \<leftarrow> put_letter c s; Some (s'\<lparr>cw_state := 1\<rparr>) } else Some s)
      else if cw_state s = 1 then
        (if isalpha c then do { s' \<leftarrow> put_letter c s; Some (s'\<lparr>cw_state := 2\<rparr>) }
         else Some (s\<lparr>cw_index := 0\<rparr>))
      else if cw_state s = 2 then
        (if isalpha c then put_letter c s
         else do { s' \<leftarrow> end_word s; Some (s'\<lparr>cw_index := 0, cw_state := 0\<rparr>) })
      else Some s)"

fun count_loop :: "u8 list \<Rightarrow> count_state \<Rightarrow> count_state option" where
  "count_loop [] s = Some s"
| "count_loop (c # cs) s = (if c = EOF_byte then Some s else do { s' \<leftarrow> count_char c s; count_loop cs s' })"

text \<open>\<open>junk\<close> is the contents of the new array \<open>word\<close>.\<close>

definition count_words :: "u8 list \<Rightarrow> nat \<times> wmem \<Rightarrow> u8 list \<Rightarrow> (nat \<times> wmem) option" where
  "count_words junk wclist text = do {
     s \<leftarrow> count_loop text \<lparr>cw_word = junk, cw_index = 0, cw_state = 0, cw_list = wclist\<rparr>;
     (if cw_state s = 2 then do { s' \<leftarrow> end_word s; Some (cw_list s') } else Some (cw_list s))
   }"

definition wordcount_less :: "word_count \<Rightarrow> word_count \<Rightarrow> bool" where
  "wordcount_less wc1 wc2 =
     (if wc_count wc1 < wc_count wc2 then True
      else if wc_count wc1 = wc_count wc2 then wc_word wc1 < wc_word wc2
      else False)"

section \<open>The order of the entries\<close>

text \<open>\<open>wordcount_less\<close> is a linear order: by count, then by word.\<close>

instantiation word_count :: linorder
begin

definition less_word_count :: "word_count \<Rightarrow> word_count \<Rightarrow> bool" where
  "less_word_count a b = wordcount_less a b"

definition less_eq_word_count :: "word_count \<Rightarrow> word_count \<Rightarrow> bool" where
  "less_eq_word_count a b \<longleftrightarrow> a = b \<or> wordcount_less a b"

instance
proof
  fix x y z :: word_count
  show "(x < y) = (x \<le> y \<and> \<not> y \<le> x)"
    by (auto simp: less_word_count_def less_eq_word_count_def wordcount_less_def)
  show "x \<le> x" by (simp add: less_eq_word_count_def)
  show "x \<le> y \<Longrightarrow> y \<le> z \<Longrightarrow> x \<le> z"
    by (auto simp: less_eq_word_count_def wordcount_less_def split: if_splits)
  show "x \<le> y \<Longrightarrow> y \<le> x \<Longrightarrow> x = y"
    by (auto simp: less_eq_word_count_def wordcount_less_def split: if_splits)
  show "x \<le> y \<or> y \<le> x"
    by (cases x; cases y) (auto simp: less_eq_word_count_def wordcount_less_def)
qed

end

section \<open>Lists of words\<close>

fun chain :: "wmem \<Rightarrow> nat \<Rightarrow> word_count list \<Rightarrow> bool" where
  "chain m a [] \<longleftrightarrow> a = 0"
| "chain m a (e # es) \<longleftrightarrow> a \<noteq> 0 \<and> a < wfresh m \<and> (\<exists>b. wnodes m a = Some \<lparr>nentry = e, nnext = b\<rparr> \<and> chain m b es)"

definition mem_ok :: "wmem \<Rightarrow> bool" where
  "mem_ok m \<longleftrightarrow> 0 < wfresh m \<and> (\<forall>a\<ge>wfresh m. wnodes m a = None)"

lemma chain_mono:
  "chain m a es \<Longrightarrow> wfresh m \<le> wfresh m' \<Longrightarrow> (\<forall>b<wfresh m. wnodes m' b = wnodes m b) \<Longrightarrow> chain m' a es"
  by (induction m a es rule: chain.induct) auto

lemma len_words_chain: "chain m a es \<Longrightarrow> len_words m a = Some (length es)"
proof -
  have "chain m a es \<Longrightarrow> len_loop m a n = Some (n + length es)" for n
  proof (induction es arbitrary: a n)
    case Nil
    then show ?case by (subst len_loop.simps) simp
  next
    case (Cons e es)
    then show ?case by (subst len_loop.simps) auto
  qed
  then show "chain m a es \<Longrightarrow> len_words m a = Some (length es)" by (simp add: len_words_def)
qed

lemma find_absent:
  "chain m a es \<Longrightarrow> w \<notin> wc_word ` set es \<Longrightarrow> find_loop m w a wc = Some wc"
proof (induction es arbitrary: a)
  case Nil
  then show ?case by (subst find_loop.simps) simp
next
  case (Cons e es)
  then show ?case by (subst find_loop.simps) auto
qed

lemma find_returns:
  assumes "find_loop m w a wc = Some r"
  shows "chain m a es \<longrightarrow> w \<notin> wc_word ` set es"
proof (rule find_loop.raw_induct [where P = "\<lambda>m w a wc r. \<forall>es. chain m a es \<longrightarrow> w \<notin> wc_word ` set es",
    OF _ assms, THEN spec], goal_cases)
  case (1 fl m w a wc r)
  show ?case
  proof (intro allI impI)
    fix es assume c: "chain m a es"
    show "w \<notin> wc_word ` set es"
    proof (cases es)
      case (Cons e es')
      then obtain b where a: "a \<noteq> 0" "wnodes m a = Some \<lparr>nentry = e, nnext = b\<rparr>" "chain m b es'" using c by auto
      show ?thesis
      proof (cases "wc_word e = w")
        case True
        then have "fl m w a a = Some r" using 1(2) a by simp
        then show ?thesis using 1(1) c by blast
      next
        case False
        then have "fl m w b wc = Some r" using 1(2) a by simp
        then have "w \<notin> wc_word ` set es'" using 1(1) a(3) by blast
        then show ?thesis using Cons False by auto
      qed
    qed simp
  qed
qed

lemma find_word_chain:
  assumes "chain m a es"
  shows "find_word m a w = (if w \<in> wc_word ` set es then None else Some 0)"
proof (cases "w \<in> wc_word ` set es")
  case True
  then have "find_loop m w a 0 = None" using find_returns assms by (cases "find_loop m w a 0") blast+
  then show ?thesis using True by (simp add: find_word_def)
next
  case False
  then show ?thesis using find_absent [OF assms False] by (simp add: find_word_def)
qed

lemma add_word_chain:
  assumes "chain m a es" "mem_ok m"
  shows "w \<in> wc_word ` set es \<Longrightarrow> add_word w (a, m) = None"
    and "w \<notin> wc_word ` set es \<Longrightarrow> \<exists>a' m'. add_word w (a, m) = Some (a', m') \<and> chain m' a' (Word_Count w 1 # es) \<and> mem_ok m'"
proof -
  show "w \<in> wc_word ` set es \<Longrightarrow> add_word w (a, m) = None"
    using find_word_chain [OF assms(1)] by (simp add: add_word_def)
  assume w: "w \<notin> wc_word ` set es"
  let ?m = "m\<lparr>wnodes := (wnodes m)(wfresh m \<mapsto> \<lparr>nentry = Word_Count w 1, nnext = a\<rparr>), wfresh := wfresh m + 1\<rparr>"
  have "chain ?m a es" by (rule chain_mono [OF assms(1)]) simp_all
  then have "chain ?m (wfresh m) (Word_Count w 1 # es)" "mem_ok ?m" using assms(2) by (auto simp: mem_ok_def)
  moreover have "add_word w (a, m) = Some (wfresh m, ?m)" using find_word_chain [OF assms(1)] w by (simp add: add_word_def)
  ultimately show "\<exists>a' m'. add_word w (a, m) = Some (a', m') \<and> chain m' a' (Word_Count w 1 # es) \<and> mem_ok m'" by blast
qed

section \<open>The words that are counted\<close>

definition nonalpha :: "u8 list" where
  "nonalpha = filter (\<lambda>c. \<not> isalpha c) (map word_of_nat [0..<256])"

lemma set_nonalpha [simp]: "c \<in> set nonalpha \<longleftrightarrow> \<not> isalpha c"
proof -
  have "unat c < 2 ^ LENGTH(8)" by (rule unsigned_less)
  then have "c \<in> set (map word_of_nat [0..<256])" by (auto intro!: image_eqI [of _ _ "unat c"])
  then show ?thesis by (auto simp: nonalpha_def)
qed

text \<open>A word of one letter is passed over, and with it the rule that the next word needs two.\<close>

fun kept :: "bool \<Rightarrow> u8 list list \<Rightarrow> u8 list list" where
  "kept b [] = []"
| "kept b (w # ws) = (if b \<or> length w \<noteq> 1 then w # kept False ws else kept True ws)"

definition pieces :: "u8 list \<Rightarrow> u8 list list" where
  "pieces text = tokens nonalpha (takeWhile (\<lambda>c. c \<noteq> EOF_byte) text)"

definition counted :: "u8 list \<Rightarrow> u8 list list" where
  "counted text = map (map tolower) (kept False (pieces text))"

lemma isalpha_not_eof: "isalpha c \<Longrightarrow> c \<noteq> EOF_byte"
  by (auto simp: isalpha_def EOF_byte_def)

lemma pieces_letter: "isalpha c \<Longrightarrow> takeWhile (\<lambda>c. c \<noteq> EOF_byte) (c # cs) = c # takeWhile (\<lambda>c. c \<noteq> EOF_byte) cs"
  using isalpha_not_eof by simp

text \<open>The pieces of a text of which the letters \<open>cur\<close> have been read.\<close>

definition rest :: "u8 list \<Rightarrow> u8 list \<Rightarrow> u8 list list" where
  "rest cur text = tokens nonalpha (cur @ takeWhile (\<lambda>c. c \<noteq> EOF_byte) text)"

lemma rest_simps:
  assumes "\<forall>x\<in>set cur. isalpha x"
  shows "rest cur [] = finish cur"
    and "c = EOF_byte \<Longrightarrow> rest cur (c # cs) = finish cur"
    and "isalpha c \<Longrightarrow> rest cur (c # cs) = rest (cur @ [c]) cs"
    and "\<not> isalpha c \<Longrightarrow> c \<noteq> EOF_byte \<Longrightarrow> rest cur (c # cs) = finish cur @ rest [] cs"
proof -
  show "rest cur [] = finish cur" "c = EOF_byte \<Longrightarrow> rest cur (c # cs) = finish cur"
    using tokens_last [of cur nonalpha] assms by (simp_all add: rest_def)
  show "isalpha c \<Longrightarrow> rest cur (c # cs) = rest (cur @ [c]) cs"
    using isalpha_not_eof [of c] by (simp add: rest_def)
  assume c: "\<not> isalpha c" "c \<noteq> EOF_byte"
  show "rest cur (c # cs) = finish cur @ rest [] cs"
  proof (cases "cur = []")
    case True
    then show ?thesis using c tokens_skip [of c nonalpha] by (simp add: rest_def finish_def)
  next
    case False
    then show ?thesis using c tokens_end [of cur nonalpha c] assms by (simp add: rest_def finish_def)
  qed
qed

lemma rest_nonempty: "cur \<noteq> [] \<Longrightarrow> \<forall>x\<in>set cur. isalpha x \<Longrightarrow>
  \<exists>v ws. rest cur inp = (cur @ v) # ws"
proof (induction inp arbitrary: cur)
  case Nil
  then show ?case using rest_simps(1) [of cur] by (simp add: finish_def)
next
  case (Cons c cs)
  show ?case
  proof (cases "isalpha c")
    case True
    then have "\<exists>v ws. rest (cur @ [c]) cs = ((cur @ [c]) @ v) # ws" using Cons by (intro Cons.IH) simp_all
    then show ?thesis using rest_simps(3) [of cur c cs] Cons.prems True by auto
  next
    case False
    then show ?thesis using rest_simps(2,4) [of cur c cs] Cons.prems by (cases "c = EOF_byte") (auto simp: finish_def)
  qed
qed

text \<open>What is still to be counted in a state of the loops, with the letters \<open>cur\<close> in the array.\<close>

definition state_ok :: "nat \<Rightarrow> u8 list \<Rightarrow> bool" where
  "state_ok st cur \<longleftrightarrow> (\<forall>x\<in>set cur. isalpha x) \<and>
     (st = 0 \<and> cur = [] \<or> st = 1 \<and> length cur \<le> 1 \<or> st = 2 \<and> cur \<noteq> [])"

definition todo :: "nat \<Rightarrow> u8 list \<Rightarrow> u8 list \<Rightarrow> u8 list list" where
  "todo st cur inp = kept (st = 2 \<or> st = 1 \<and> cur = []) (rest cur inp)"

lemma todo_end:
  assumes "state_ok st cur"
  shows "todo st cur [] = (if st = 2 then [cur] else [])"
    and "todo st cur (EOF_byte # cs) = (if st = 2 then [cur] else [])"
proof -
  have l: "\<forall>x\<in>set cur. isalpha x" using assms by (simp add: state_ok_def)
  have "length cur = 1" if "st = 1" "cur \<noteq> []"
    using assms that by (cases cur) (auto simp: state_ok_def)
  then show "todo st cur [] = (if st = 2 then [cur] else [])" "todo st cur (EOF_byte # cs) = (if st = 2 then [cur] else [])"
    using rest_simps(1,2) [OF l] assms by (auto simp: todo_def state_ok_def finish_def)
qed

lemma todo_letter:
  assumes "state_ok st cur" "isalpha c"
  shows "todo st cur (c # cs) = todo (if st = 0 then 1 else 2) (cur @ [c]) cs"
    and "state_ok (if st = 0 then 1 else 2) (cur @ [c])"
proof -
  have l: "\<forall>x\<in>set (cur @ [c]). isalpha x" using assms by (simp add: state_ok_def)
  show "state_ok (if st = 0 then 1 else 2) (cur @ [c])" using assms l by (auto simp: state_ok_def)
  have r: "rest cur (c # cs) = rest (cur @ [c]) cs" using l by (intro rest_simps(3) [OF _ assms(2)]) simp
  show "todo st cur (c # cs) = todo (if st = 0 then 1 else 2) (cur @ [c]) cs"
  proof (cases "st = 1 \<and> cur \<noteq> []")
    case True
    obtain v ws where v: "rest (cur @ [c]) cs = ((cur @ [c]) @ v) # ws" using rest_nonempty [OF _ l, of cs] by auto
    have "length ((cur @ [c]) @ v) \<noteq> 1" using True by (cases cur) simp_all
    then show ?thesis using True unfolding todo_def r v by simp
  next
    case False
    then show ?thesis using assms(1) by (auto simp: todo_def r state_ok_def)
  qed
qed

lemma todo_other:
  assumes "state_ok st cur" "\<not> isalpha c" "c \<noteq> EOF_byte"
  shows "todo st cur (c # cs) = (if st = 2 then [cur] else []) @ todo (if st = 2 then 0 else st) [] cs"
    and "state_ok (if st = 2 then 0 else st) []"
proof -
  have l: "\<forall>x\<in>set cur. isalpha x" using assms by (simp add: state_ok_def)
  have "length cur = 1" if "st = 1" "cur \<noteq> []"
    using assms that by (cases cur) (auto simp: state_ok_def)
  then show "todo st cur (c # cs) = (if st = 2 then [cur] else []) @ todo (if st = 2 then 0 else st) [] cs"
    using rest_simps(4) [OF l assms(2,3)] assms(1) by (auto simp: todo_def state_ok_def finish_def)
  show "state_ok (if st = 2 then 0 else st) []" using assms(1) by (auto simp: state_ok_def)
qed

lemma num_words_loop_ok:
  "state_ok st cur \<Longrightarrow> 0 \<le> n \<Longrightarrow> n + int (length inp) \<le> 2147483647 \<Longrightarrow>
   num_words_loop st n inp = Some (n + int (length (todo st cur inp)) - (if st = 2 then 1 else 0))"
proof (induction inp arbitrary: st cur n)
  case Nil
  then show ?case using todo_end(1) [OF Nil(1)] by simp
next
  case (Cons c cs)
  consider (e) "c = EOF_byte" | (a) "isalpha c" "c \<noteq> EOF_byte" | (o) "\<not> isalpha c" "c \<noteq> EOF_byte"
    using isalpha_not_eof by blast
  then show ?case
  proof cases
    case e
    then show ?thesis using todo_end(2) [OF Cons.prems(1)] by simp
  next
    case a
    note T = todo_letter(1) [OF Cons.prems(1) a(1), of cs] todo_letter(2) [OF Cons.prems(1) a(1)]
    have "st = 0 \<or> st = 1 \<or> st = 2" using Cons.prems(1) by (auto simp: state_ok_def)
    then show ?thesis
      using Cons.IH [OF T(2), of n] Cons.IH [OF T(2), of "n + 1"] Cons.prems(2,3) a T(1)
      by (auto simp: in_s32_def)
  next
    case o
    note T = todo_other(1) [OF Cons.prems(1) o, of cs] todo_other(2) [OF Cons.prems(1) o]
    have "st = 0 \<or> st = 1 \<or> st = 2" using Cons.prems(1) by (auto simp: state_ok_def)
    then show ?thesis using Cons.IH [OF T(2), of n] Cons.prems(2,3) o T(1) by auto
  qed
qed

lemma num_words_counted:
  assumes "length inp \<le> 2147483647"
  shows "num_words inp = Some (int (length (counted inp)))"
proof -
  have "todo 0 [] inp = kept False (pieces inp)" by (simp add: todo_def rest_def pieces_def)
  then show ?thesis
    using num_words_loop_ok [of 0 "[]" 0 inp] assms by (simp add: num_words_def counted_def state_ok_def)
qed

section \<open>Counting into a list\<close>

definition entries :: "u8 list list \<Rightarrow> word_count list" where
  "entries ws = rev (map (\<lambda>w. Word_Count w 1) ws)"

definition addable :: "u8 list list \<Rightarrow> word_count list \<Rightarrow> bool" where
  "addable ws es \<longleftrightarrow> distinct ws \<and> set ws \<inter> wc_word ` set es = {} \<and> (\<forall>w\<in>set ws. length w \<le> MAX_WORD_LEN)"

definition count_inv :: "nat \<Rightarrow> u8 list \<Rightarrow> word_count list \<Rightarrow> count_state \<Rightarrow> bool" where
  "count_inv st cur es s \<longleftrightarrow> state_ok st cur \<and> cw_state s = st \<and> cw_index s = length cur \<and>
     length (cw_word s) = MAX_WORD_LEN + 1 \<and> length cur \<le> MAX_WORD_LEN + 1 \<and>
     take (length cur) (cw_word s) = map tolower cur \<and>
     chain (snd (cw_list s)) (fst (cw_list s)) es \<and> mem_ok (snd (cw_list s))"

lemma tolower_nonzero: "isalpha c \<Longrightarrow> tolower c \<noteq> 0"
proof
  assume a: "isalpha c" "tolower c = 0"
  then have "65 \<le> c \<and> c \<le> 90" by (auto simp: tolower_def isalpha_def split: if_splits)
  then have "unat (c + 32) = unat c + 32" by (simp add: unat_word_ariths word_le_nat_alt)
  then show False using a(2) \<open>65 \<le> c \<and> c \<le> 90\<close> by (simp add: tolower_def)
qed

lemma takeWhile_terminated:
  assumes "take (length cur) w = cur" "length cur < length w" "0 \<notin> set cur"
  shows "takeWhile (\<lambda>c. c \<noteq> 0) (w[length cur := 0]) = cur"
proof -
  have "w[length cur := 0] = cur @ 0 # drop (Suc (length cur)) w"
    using assms(1,2) by (simp add: upd_conv_take_nth_drop)
  moreover have "takeWhile (\<lambda>c. c \<noteq> 0) (cur @ 0 # drop (Suc (length cur)) w) = cur"
    using assms(3) by (subst takeWhile_append2) auto
  ultimately show ?thesis by (simp only:)
qed

lemma put_letter_ok:
  assumes "count_inv st cur es s" "isalpha c"
  shows "length cur \<le> MAX_WORD_LEN \<Longrightarrow> \<exists>s'. put_letter c s = Some s' \<and>
      count_inv (if st = 0 then 1 else 2) (cur @ [c]) es (s'\<lparr>cw_state := (if st = 0 then 1 else 2)\<rparr>) \<and> cw_state s' = st"
    and "length cur = MAX_WORD_LEN + 1 \<Longrightarrow> put_letter c s = None"
  using assms todo_letter(2) [of st cur c]
  by (auto simp: put_letter_def count_inv_def take_Suc_conv_app_nth)

lemma end_word_ok:
  assumes "count_inv 2 cur es s"
  shows "addable [map tolower cur] es \<Longrightarrow> \<exists>s'. end_word s = Some s' \<and>
      count_inv 0 [] (entries [map tolower cur] @ es) (s'\<lparr>cw_index := 0, cw_state := 0\<rparr>)"
    and "\<not> addable [map tolower cur] es \<Longrightarrow> end_word s = None"
proof -
  note I = assms [unfolded count_inv_def]
  let ?w = "map tolower cur"
  have z: "0 \<notin> set ?w" using I tolower_nonzero by (fastforce simp: state_ok_def)
  obtain a m where am: "cw_list s = (a, m)" by (cases "cw_list s")
  have t: "takeWhile (\<lambda>c. c \<noteq> 0) ((cw_word s)[cw_index s := 0]) = ?w" if "length cur \<le> MAX_WORD_LEN"
    using takeWhile_terminated [of ?w "cw_word s"] I z that by simp
  note add = add_word_chain [where m = m and a = a and es = es and w = ?w]
  show "addable [map tolower cur] es \<Longrightarrow> \<exists>s'. end_word s = Some s' \<and>
      count_inv 0 [] (entries [map tolower cur] @ es) (s'\<lparr>cw_index := 0, cw_state := 0\<rparr>)"
    using add(2) I t am by (auto simp: end_word_def addable_def entries_def count_inv_def state_ok_def Let_def)
  show "\<not> addable [map tolower cur] es \<Longrightarrow> end_word s = None"
    using add(1) I t am by (cases "length cur \<le> MAX_WORD_LEN") (auto simp: end_word_def addable_def Let_def)
qed

definition count_rest :: "u8 list \<Rightarrow> count_state \<Rightarrow> (nat \<times> wmem) option" where
  "count_rest inp s = do {
     s \<leftarrow> count_loop inp s;
     (if cw_state s = 2 then do { s' \<leftarrow> end_word s; Some (cw_list s') } else Some (cw_list s))
   }"

definition counts_to :: "u8 list list \<Rightarrow> word_count list \<Rightarrow> (nat \<times> wmem) option \<Rightarrow> bool" where
  "counts_to ws es r \<longleftrightarrow> (if addable ws es then (\<exists>a m. r = Some (a, m) \<and> chain m a (entries ws @ es) \<and> mem_ok m) else r = None)"

lemma addable_Cons: "addable (w # ws) es \<longleftrightarrow> addable [w] es \<and> addable ws (entries [w] @ es)"
  by (auto simp: addable_def entries_def)

lemma entries_Cons: "entries (w # ws) @ es = entries ws @ entries [w] @ es"
  by (simp add: entries_def)

lemma count_rest_end:
  assumes "count_inv st cur es s" "count_loop inp s = Some s" "todo st cur inp = (if st = 2 then [cur] else [])"
  shows "counts_to (map (map tolower) (todo st cur inp)) es (count_rest inp s)"
proof (cases "st = 2")
  case True
  note e = end_word_ok [of cur es s]
  have i: "count_inv 2 cur es s" "cw_state s = 2" using assms(1) True by (simp_all add: count_inv_def)
  show ?thesis
  proof (cases "addable [map tolower cur] es")
    case t: True
    then obtain s' where s': "end_word s = Some s'" "count_inv 0 [] (entries [map tolower cur] @ es) (s'\<lparr>cw_index := 0, cw_state := 0\<rparr>)"
      using e(1) i by blast
    then show ?thesis using t i assms(2,3) True by (cases "cw_list s'") (auto simp: count_rest_def counts_to_def count_inv_def)
  next
    case False
    then show ?thesis using e(2) i assms(2,3) True by (simp add: count_rest_def counts_to_def)
  qed
next
  case False
  then show ?thesis using assms
    by (cases "cw_list s") (auto simp: count_rest_def counts_to_def addable_def entries_def count_inv_def)
qed

lemma todo_prefix:
  assumes "state_ok st cur" "length cur = MAX_WORD_LEN + 1"
  shows "\<not> addable (map (map tolower) (todo st cur inp)) es"
proof -
  have st: "st = 2" "cur \<noteq> []" "\<forall>x\<in>set cur. isalpha x" using assms by (auto simp: state_ok_def MAX_WORD_LEN_def)
  obtain v ws where "rest cur inp = (cur @ v) # ws" using rest_nonempty [OF st(2,3), of inp] by blast
  then have "todo st cur inp = (cur @ v) # kept False ws" using st(1) by (simp add: todo_def)
  then show ?thesis using assms(2) by (simp add: addable_def)
qed

lemma count_char_letter:
  assumes "count_inv st cur es s" "isalpha c"
  shows "length cur \<le> MAX_WORD_LEN \<Longrightarrow> \<exists>s'. count_char c s = Some s' \<and> count_inv (if st = 0 then 1 else 2) (cur @ [c]) es s'"
    and "length cur = MAX_WORD_LEN + 1 \<Longrightarrow> count_char c s = None"
proof -
  have st: "cw_state s = st" "st = 0 \<or> st = 1 \<or> st = 2" using assms(1) by (auto simp: count_inv_def state_ok_def)
  show "count_char c s = None" if "length cur = MAX_WORD_LEN + 1"
    using put_letter_ok(2) [OF assms that] st assms(2) by (auto simp: count_char_def)
  show "\<exists>s'. count_char c s = Some s' \<and> count_inv (if st = 0 then 1 else 2) (cur @ [c]) es s'" if l: "length cur \<le> MAX_WORD_LEN"
  proof -
    obtain s' where s': "put_letter c s = Some s'" "cw_state s' = st"
      "count_inv (if st = 0 then 1 else 2) (cur @ [c]) es (s'\<lparr>cw_state := (if st = 0 then 1 else 2)\<rparr>)"
      using put_letter_ok(1) [OF assms l] by blast
    show ?thesis
    proof (cases "st = 2")
      case True
      then have "s'\<lparr>cw_state := 2\<rparr> = s'" using s'(2) by simp
      then have "count_inv 2 (cur @ [c]) es s'" using s'(3) True by (simp only: if_False one_neq_zero zero_neq_numeral rel_simps)
      then show ?thesis using s'(1) st assms(2) True by (simp add: count_char_def)
    next
      case False
      then show ?thesis using s' st assms(2) by (auto simp: count_char_def)
    qed
  qed
qed

lemma count_rest_ok:
  "count_inv st cur es s \<Longrightarrow> counts_to (map (map tolower) (todo st cur inp)) es (count_rest inp s)"
proof (induction inp arbitrary: st cur es s)
  case Nil
  then have "state_ok st cur" by (simp add: count_inv_def)
  then show ?case using todo_end(1) Nil by (intro count_rest_end) simp_all
next
  case (Cons c cs)
  have ok: "state_ok st cur" and st: "cw_state s = st" using Cons.prems by (simp_all add: count_inv_def)
  consider (e) "c = EOF_byte" | (a) "isalpha c" "c \<noteq> EOF_byte" | (o) "\<not> isalpha c" "c \<noteq> EOF_byte"
    using isalpha_not_eof by blast
  then show ?case
  proof cases
    case e
    then show ?thesis using todo_end(2) [OF ok] Cons.prems by (intro count_rest_end) simp_all
  next
    case a
    have T: "todo st cur (c # cs) = todo (if st = 0 then 1 else 2) (cur @ [c]) cs" by (rule todo_letter(1) [OF ok a(1)])
    show ?thesis
    proof (cases "length cur \<le> MAX_WORD_LEN")
      case True
      obtain s' where s': "count_char c s = Some s'" "count_inv (if st = 0 then 1 else 2) (cur @ [c]) es s'"
        using count_char_letter(1) [OF Cons.prems a(1) True] by blast
      have "count_rest (c # cs) s = count_rest cs s'" using a(2) s'(1) by (simp add: count_rest_def)
      then show ?thesis using Cons.IH [OF s'(2)] by (simp only: T)
    next
      case False
      then have l: "length cur = MAX_WORD_LEN + 1" using Cons.prems by (simp add: count_inv_def)
      have "count_rest (c # cs) s = None" using a(2) count_char_letter(2) [OF Cons.prems a(1) l] by (simp add: count_rest_def)
      then show ?thesis using todo_prefix [OF ok l] by (simp add: counts_to_def)
    qed
  next
    case o
    note T = todo_other(1) [OF ok o, of cs] todo_other(2) [OF ok o]
    show ?thesis
    proof (cases "st = 2")
      case False
      have "\<exists>s'. count_char c s = Some s' \<and> count_inv st [] es s'"
        using False o st T(2) Cons.prems by (auto simp: count_char_def count_inv_def state_ok_def)
      then obtain s' where s': "count_char c s = Some s'" "count_inv st [] es s'" by blast
      have "count_rest (c # cs) s = count_rest cs s'" using o(2) s'(1) by (simp add: count_rest_def)
      then show ?thesis using Cons.IH [OF s'(2)] T(1) False by simp
    next
      case True
      have i: "count_inv 2 cur es s" using Cons.prems True by simp
      let ?w = "map tolower cur"
      have tw: "map (map tolower) (todo st cur (c # cs)) = ?w # map (map tolower) (todo 0 [] cs)" using T(1) True by simp
      show ?thesis
      proof (cases "addable [?w] es")
        case t: True
        obtain s' where s': "end_word s = Some s'" "count_inv 0 [] (entries [?w] @ es) (s'\<lparr>cw_index := 0, cw_state := 0\<rparr>)"
          using end_word_ok(1) [OF i t] by blast
        have "count_rest (c # cs) s = count_rest cs (s'\<lparr>cw_index := 0, cw_state := 0\<rparr>)"
          using o s'(1) st True by (simp add: count_rest_def count_char_def)
        then show ?thesis using Cons.IH [OF s'(2)] t
          unfolding tw counts_to_def addable_Cons [of ?w "map (map tolower) (todo 0 [] cs)" es]
            entries_Cons [of ?w "map (map tolower) (todo 0 [] cs)" es] by simp
      next
        case False
        then have "count_rest (c # cs) s = None" using end_word_ok(2) [OF i] o st True by (simp add: count_rest_def count_char_def)
        then show ?thesis using False unfolding tw counts_to_def addable_Cons [of ?w "map (map tolower) (todo 0 [] cs)" es] by simp
      qed
    qed
  qed
qed

lemma count_words_counted:
  assumes "length junk = MAX_WORD_LEN + 1" "chain m a es" "mem_ok m"
  shows "counts_to (counted inp) es (count_words junk (a, m) inp)"
proof -
  let ?s = "\<lparr>cw_word = junk, cw_index = 0, cw_state = 0, cw_list = (a, m)\<rparr>"
  have "count_inv 0 [] es ?s" using assms by (simp add: count_inv_def state_ok_def)
  moreover have "todo 0 [] inp = kept False (pieces inp)" by (simp add: todo_def rest_def pieces_def)
  ultimately show ?thesis using count_rest_ok [of 0 "[]" es ?s inp] by (simp add: counted_def count_rest_def count_words_def)
qed

section \<open>Properties\<close>

text \<open>
  C34. The words that are counted are the maximal runs of letters before the first byte 255, in lower case,
  except that a run of one letter is passed over and the run after it is counted whatever its length.
  \<open>num_words\<close> returns their number. \<open>count_words\<close>, called with an empty list, returns if and only if they
  are pairwise different and have at most 64 letters, and then the list holds each once with the count 1, the
  last word first; \<open>len_words\<close> is their number. For a word that occurs a second time \<open>find_word\<close> does not end, and
  a longer word is written beyond the end of the array.
\<close>

theorem words_counted:
  assumes "length junk = MAX_WORD_LEN + 1" "mem_ok m" "length inp \<le> 2147483647"
  shows "num_words inp = Some (int (length (counted inp))) \<and>
    (if distinct (counted inp) \<and> (\<forall>w\<in>set (counted inp). length w \<le> 64)
     then \<exists>a m'. count_words junk (init_words, m) inp = Some (a, m') \<and>
            chain m' a (rev (map (\<lambda>w. Word_Count w 1) (counted inp))) \<and>
            len_words m' a = Some (length (counted inp)) \<and>
            (\<forall>w. find_word m' a w = (if w \<in> set (counted inp) then None else Some 0))
     else count_words junk (init_words, m) inp = None)"
proof -
  let ?W = "counted inp"
  have "chain m 0 []" by simp
  from count_words_counted [OF assms(1) this assms(2), of inp]
  have c: "counts_to ?W [] (count_words junk (0, m) inp)" .
  have a: "addable ?W [] \<longleftrightarrow> distinct ?W \<and> (\<forall>w\<in>set ?W. length w \<le> 64)"
    by (auto simp: addable_def MAX_WORD_LEN_def)
  have e: "wc_word ` set (entries ?W) = set ?W" by (force simp: entries_def)
  show ?thesis
  proof (cases "addable ?W []")
    case True
    then obtain b m' where b: "count_words junk (0, m) inp = Some (b, m')" "chain m' b (entries ?W)"
      using c by (auto simp: counts_to_def)
    have "len_words m' b = Some (length ?W)" using len_words_chain [OF b(2)] by (simp add: entries_def)
    moreover have "find_word m' b w = (if w \<in> set ?W then None else Some 0)" for w
      using find_word_chain [OF b(2), of w] by (simp add: e)
    ultimately show ?thesis using num_words_counted [OF assms(3)] True b unfolding a
      by (auto simp: init_words_def entries_def)
  next
    case False
    then show ?thesis using num_words_counted [OF assms(3)] c unfolding a [symmetric]
      by (simp add: init_words_def counts_to_def)
  qed
qed

theorem words_counted_witness:
  "num_words [65, 32, 98, 32, 99] = Some 1 \<and> num_words [65, 98, 44, 97, 66] = Some 2 \<and>
   count_words (replicate 65 0) (init_words, \<lparr>wnodes = (\<lambda>a. None), wfresh = 1\<rparr>) [65, 98, 44, 97, 66] = None"
proof -
  have m: "mem_ok \<lparr>wnodes = (\<lambda>a. None), wfresh = 1\<rparr>" by (simp add: mem_ok_def)
  have "pieces inp = rest [] inp" for inp by (simp add: pieces_def rest_def)
  then have "counted [65, 32, 98, 32, 99] = [[98]]" "counted [65, 98, 44, 97, 66] = [[97, 98], [97, 98]]"
    by (simp_all add: counted_def rest_simps finish_def isalpha_def EOF_byte_def tolower_def)
  then show ?thesis
    using words_counted [OF _ m, of "replicate 65 0" "[65, 32, 98, 32, 99]"]
      words_counted [OF _ m, of "replicate 65 0" "[65, 98, 44, 97, 66]"] by (simp add: MAX_WORD_LEN_def)
qed

end
