(* ===== verification/Word_List.thy ===== *)
theory Word_List
  imports Words Klist
begin

text \<open>
  The word counter of \<open>src/hw-list\<close>: \<open>word_count_l.c\<close>, the list of words on the kernel's linked lists, and
  \<open>word_count_p.c\<close> with \<open>pwords.c\<close>, in which several threads add words to one list under a lock. An entry is
  the address of its list element; \<open>malloc\<close> always returns memory, at a new address. The comparison
  passed to \<open>wordcount_sort\<close> is a parameter: \<open>word_helpers.o\<close> has no source, its header says how
  \<open>less_count\<close> compares. A call of \<open>add_word\<close> holds the lock from its first to its last access, which makes it one step.
\<close>

section \<open>The code\<close>

record wlist =
  wl_links :: heap
  wl_ents :: "nat \<rightharpoonup> word_count"
  wl_fresh :: nat

definition init_word_list :: "klist option \<Rightarrow> wlist \<Rightarrow> wlist" where
  "init_word_list wclist s =
     (case wclist of None \<Rightarrow> s | Some l \<Rightarrow> s\<lparr>wl_links := list_init l (wl_links s)\<rparr>)"

definition len_word_list :: "klist option \<Rightarrow> wlist \<Rightarrow> nat option" where
  "len_word_list wclist s = (case wclist of None \<Rightarrow> Some 0 | Some l \<Rightarrow> list_size (wl_links s) l)"

partial_function (option) search_loop :: "wlist \<Rightarrow> klist \<Rightarrow> u8 list \<Rightarrow> nat \<Rightarrow> nat option" where
  "search_loop s l word e =
     (if e \<noteq> list_end l then do {
        wct \<leftarrow> wl_ents s e;
        (if word = wc_word wct then Some e
         else do { e' \<leftarrow> list_next (wl_links s) e; search_loop s l word e' })
      } else Some 0)"

definition search_word :: "klist option \<Rightarrow> u8 list option \<Rightarrow> wlist \<Rightarrow> nat option" where
  "search_word wclist word s =
     (case (wclist, word) of
        (Some l, Some w) \<Rightarrow> search_loop s l w (list_begin (wl_links s) l)
      | _ \<Rightarrow> Some 0)"

definition insert_word :: "klist \<Rightarrow> u8 list \<Rightarrow> wlist \<Rightarrow> (nat \<times> wlist) option" where
  "insert_word l word s = do {
     w \<leftarrow> search_word (Some l) (Some word) s;
     (if w \<noteq> 0 then do {
        wct \<leftarrow> wl_ents s w;
        c \<leftarrow> cint32 (wc_count wct + 1);
        Some (w, s\<lparr>wl_ents := (wl_ents s)(w \<mapsto> Word_Count (wc_word wct) c)\<rparr>)
      } else do {
        let w = wl_fresh s;
        h \<leftarrow> list_push_front l w (wl_links s);
        Some (w, \<lparr>wl_links = h, wl_ents = (wl_ents s)(w \<mapsto> Word_Count word 1), wl_fresh = w + 1\<rparr>)
      })
   }"

text \<open>The entries in the order in which \<open>fprint_words\<close> prints them.\<close>

partial_function (option) print_loop :: "wlist \<Rightarrow> klist \<Rightarrow> nat \<Rightarrow> word_count list \<Rightarrow> word_count list option" where
  "print_loop s l e out =
     (if e \<noteq> list_end l then do {
        wct \<leftarrow> wl_ents s e;
        e' \<leftarrow> list_next (wl_links s) e;
        print_loop s l e' (out @ [wct])
      } else Some out)"

definition print_words :: "klist \<Rightarrow> wlist \<Rightarrow> word_count list option" where
  "print_words l s = print_loop s l (list_begin (wl_links s) l) []"

text \<open>An address without an entry reads as an empty one; the elements of a list all have entries.\<close>

definition list_entry :: "wlist \<Rightarrow> nat \<Rightarrow> word_count" where
  "list_entry s e = (case wl_ents s e of Some wc \<Rightarrow> wc | None \<Rightarrow> Word_Count [] 0)"

definition less_list :: "(word_count \<Rightarrow> word_count \<Rightarrow> bool) \<Rightarrow> wlist \<Rightarrow> nat \<Rightarrow> nat \<Rightarrow> bool" where
  "less_list lessf s e1 e2 = lessf (list_entry s e1) (list_entry s e2)"

definition wordcount_sort :: "(word_count \<Rightarrow> word_count \<Rightarrow> bool) \<Rightarrow> klist \<Rightarrow> wlist \<Rightarrow> wlist option" where
  "wordcount_sort lessf l s = do {
     h \<leftarrow> list_sort (less_list lessf s) l (wl_links s);
     Some (s\<lparr>wl_links := h\<rparr>)
   }"

text \<open>
  The threads of \<open>pwords\<close>: each has the words of its file that it has not added yet. A step is a call of
  \<open>add_word\<close> by some thread.
\<close>

inductive pwords_step :: "klist \<Rightarrow> u8 list list list \<times> wlist \<Rightarrow> u8 list list list \<times> wlist \<Rightarrow> bool" for l where
  add: "t < length ts \<Longrightarrow> ts ! t = w # ws \<Longrightarrow> insert_word l w s = Some (e, s') \<Longrightarrow>
    pwords_step l (ts, s) (ts[t := ws], s')"

inductive_simps pwords_step_iff: "pwords_step l (ts, s) c"
inductive_cases pwords_stepE: "pwords_step l (ts, s) (ts', s')"

section \<open>A list as a multiset of words\<close>

definition entry_of :: "u8 list multiset \<Rightarrow> u8 list \<Rightarrow> word_count" where
  "entry_of M w = Word_Count w (int (count M w))"

definition entry_set :: "u8 list multiset \<Rightarrow> word_count set" where
  "entry_set M = entry_of M ` set_mset M"

definition holds_words :: "wlist \<Rightarrow> klist \<Rightarrow> nat list \<Rightarrow> u8 list list \<Rightarrow> u8 list multiset \<Rightarrow> bool" where
  "holds_words s l ps ws M \<longleftrightarrow> dll (wl_links s) l ps \<and> (\<forall>c\<in>set (cells l ps). c < wl_fresh s) \<and>
     map (wl_ents s) ps = map (Some \<circ> entry_of M) ws \<and> distinct ws \<and> set ws = set_mset M"

definition rep :: "wlist \<Rightarrow> klist \<Rightarrow> u8 list multiset \<Rightarrow> bool" where
  "rep s l M \<longleftrightarrow> (\<exists>ps ws. holds_words s l ps ws M)"

lemma entry_of_sel [simp]: "wc_word (entry_of M w) = w" "wc_count (entry_of M w) = int (count M w)"
  by (simp_all add: entry_of_def)

lemma search_from_ok:
  assumes "dll (wl_links s) l (as @ bs)" "map (wl_ents s) bs = map (Some \<circ> entry_of M) vs" "distinct vs"
  shows "if w \<in> set vs then \<exists>p\<in>set bs. search_loop s l w (nd l bs) = Some p \<and> wl_ents s p = Some (entry_of M w)
    else search_loop s l w (nd l bs) = Some 0"
  using assms
proof (induction bs arbitrary: as vs)
  case Nil
  then show ?case by (subst search_loop.simps) (simp add: list_end_def)
next
  case (Cons b bs)
  then obtain v vs' where v: "vs = v # vs'" "wl_ents s b = Some (entry_of M v)" "map (wl_ents s) bs = map (Some \<circ> entry_of M) vs'"
    by (cases vs) auto
  have d: "dll (wl_links s) l ((as @ [b]) @ bs)" using Cons.prems(1) by simp
  note n = dll_node(4,6) [OF Cons.prems(1)]
  show ?case
  proof (cases "w = v")
    case True
    then have "search_loop s l w b = Some b" using n(1) v(2) by (subst search_loop.simps) (simp add: list_end_def)
    then show ?thesis using v True by simp
  next
    case False
    then have "search_loop s l w b = search_loop s l w (nd l bs)"
      using n v(2) by (subst search_loop.simps) (simp add: list_end_def)
    then show ?thesis using Cons.IH [OF d v(3)] Cons.prems(3) v(1) False by (auto split: if_splits)
  qed
qed

lemma search_word_held:
  assumes "holds_words s l ps ws M"
  shows "if w \<in># M then \<exists>p\<in>set ps. search_word (Some l) (Some w) s = Some p \<and> p \<noteq> 0 \<and> wl_ents s p = Some (entry_of M w)
    else search_word (Some l) (Some w) s = Some 0"
proof -
  note H = assms [unfolded holds_words_def]
  have d: "dll (wl_links s) l ([] @ ps)" using H by simp
  have "0 \<notin> set ps" using H by (auto simp: dll_def cells_def)
  then have "\<forall>p\<in>set ps. 0 < p" by (metis gr0I)
  then show ?thesis
    using search_from_ok [OF d, of M ws w] H dll_ends(1) [of "wl_links s" l ps]
    by (auto simp: search_word_def split: if_splits)
qed

lemma search_word_rep:
  assumes "rep s l M"
  shows "if w \<in># M then \<exists>p. search_word (Some l) (Some w) s = Some p \<and> p \<noteq> 0 \<and> wl_ents s p = Some (entry_of M w)
    else search_word (Some l) (Some w) s = Some 0"
proof -
  obtain ps ws where "holds_words s l ps ws M" using assms by (auto simp: rep_def)
  from search_word_held [OF this, of w] show ?thesis by (auto split: if_splits)
qed

lemma len_rep: "rep s l M \<Longrightarrow> len_word_list (Some l) s = Some (card (set_mset M))"
proof -
  assume "rep s l M"
  then obtain ps ws where h: "holds_words s l ps ws M" by (auto simp: rep_def)
  then have "length ps = length ws" unfolding holds_words_def by (metis length_map)
  moreover have "length ws = card (set_mset M)" using h distinct_card by (metis holds_words_def)
  ultimately show ?thesis using h list_size_dll [of "wl_links s" l ps] by (simp add: len_word_list_def holds_words_def)
qed

lemma entry_of_other: "w \<noteq> v \<Longrightarrow> entry_of (add_mset v M) w = entry_of M w"
  by (simp add: entry_of_def)

lemma insert_word_rep:
  assumes "rep s l M" "size M < 2147483647"
  shows "\<exists>e s'. insert_word l w s = Some (e, s') \<and> rep s' l (add_mset w M)"
proof -
  obtain ps ws where h: "holds_words s l ps ws M" using assms(1) by (auto simp: rep_def)
  note H = h [unfolded holds_words_def]
  have len: "length ps = length ws" using H by (metis length_map)
  have dist: "distinct ps" using H by (auto simp: dll_def cells_def)
  have ent: "wl_ents s (ps ! i) = Some (entry_of M (ws ! i))" if "i < length ws" for i
    using arg_cong [of _ _ "\<lambda>xs. xs ! i", OF conjunct1 [OF conjunct2 [OF conjunct2 [OF H]]]] that len by simp
  show ?thesis
  proof (cases "w \<in># M")
    case True
    obtain p where p: "p \<in> set ps" "search_word (Some l) (Some w) s = Some p" "p \<noteq> 0" "wl_ents s p = Some (entry_of M w)"
      using search_word_held [OF h, of w] True by auto
    have "count M w \<le> size M" by (rule count_le_size)
    then have c: "in_s32 (int (count M w) + 1)" using assms(2) by (simp add: in_s32_def)
    let ?s = "s\<lparr>wl_ents := (wl_ents s)(p \<mapsto> entry_of (add_mset w M) w)\<rparr>"
    have r: "insert_word l w s = Some (p, ?s)"
      using p(2-4) c by (simp add: insert_word_def) (simp add: entry_of_def add.commute)
    have m: "map (wl_ents ?s) ps = map (Some \<circ> entry_of (add_mset w M)) ws"
    proof (rule nth_equalityI)
      fix i assume "i < length (map (wl_ents ?s) ps)"
      then have i: "i < length ws" "i < length ps" using len by simp_all
      show "map (wl_ents ?s) ps ! i = map (Some \<circ> entry_of (add_mset w M)) ws ! i"
      proof (cases "ps ! i = p")
        case t: True
        then have "entry_of M (ws ! i) = entry_of M w" using ent [OF i(1)] p(4) by simp
        then have "ws ! i = w" by (metis entry_of_sel(1))
        then show ?thesis using t i by simp
      next
        case False
        have "ws ! i \<noteq> w"
        proof
          assume w: "ws ! i = w"
          obtain j where j: "j < length ps" "ps ! j = p" using p(1) by (auto simp: in_set_conv_nth)
          then have "entry_of M (ws ! j) = entry_of M w" using ent [of j] p(4) len by simp
          then have "ws ! j = ws ! i" using w by (metis entry_of_sel(1))
          then have "j = i" using H i j(1) len by (metis nth_eq_iff_index_eq)
          then show False using False j(2) by simp
        qed
        then show ?thesis using False i ent [OF i(1)] entry_of_other by simp
      qed
    qed (simp add: len)
    have "holds_words ?s l ps ws (add_mset w M)" unfolding holds_words_def
    proof (intro conjI)
      show "set ws = set_mset (add_mset w M)" using H True by auto
    qed (use H m in auto)
    then show ?thesis using r by (auto simp: rep_def)
  next
    case False
    have f: "search_word (Some l) (Some w) s = Some 0" using search_word_held [OF h, of w] False by simp
    let ?e = "wl_fresh s"
    have e: "?e \<noteq> 0" "?e \<notin> set (cells l ps)" "?e \<notin> set ps" using H by (auto simp: cells_def)
    obtain h' where h': "list_push_front l ?e (wl_links s) = Some h'" "dll h' l (?e # ps)"
      using list_push_dll(1) [OF conjunct1 [OF H] e(1,2)] by blast
    let ?s = "\<lparr>wl_links = h', wl_ents = (wl_ents s)(?e \<mapsto> Word_Count w 1), wl_fresh = ?e + 1\<rparr>"
    have r: "insert_word l w s = Some (?e, ?s)" using f h'(1) by (simp add: insert_word_def Let_def)
    have w: "w \<notin> set ws" using H False by simp
    have "map (wl_ents ?s) ps = map (wl_ents s) ps" using e(3) by auto
    also have "\<dots> = map (Some \<circ> entry_of M) ws" using H by simp
    also have "\<dots> = map (Some \<circ> entry_of (add_mset w M)) ws"
    proof (rule map_cong [OF refl])
      fix x assume "x \<in> set ws"
      then have "x \<noteq> w" using w by blast
      then show "(Some \<circ> entry_of M) x = (Some \<circ> entry_of (add_mset w M)) x" using entry_of_other [of x w M] by simp
    qed
    finally have m: "map (wl_ents ?s) ps = map (Some \<circ> entry_of (add_mset w M)) ws" .
    have z: "entry_of (add_mset w M) w = Word_Count w 1" using False by (simp add: entry_of_def not_in_iff)
    have "holds_words ?s l (?e # ps) (w # ws) (add_mset w M)" unfolding holds_words_def
    proof (intro conjI)
      show "map (wl_ents ?s) (?e # ps) = map (Some \<circ> entry_of (add_mset w M)) (w # ws)" using m z by simp
      show "\<forall>c\<in>set (cells l (?e # ps)). c < wl_fresh ?s" using H by (auto simp: cells_def less_SucI)
    qed (use H h'(2) w in auto)
    then show ?thesis using r by (auto simp: rep_def)
  qed
qed

section \<open>Sorting and printing\<close>

lemma print_loop_ok:
  "dll (wl_links s) l (as @ bs) \<Longrightarrow> map (wl_ents s) bs = map Some es \<Longrightarrow>
   print_loop s l (nd l bs) out = Some (out @ es)"
proof (induction bs arbitrary: as es out)
  case Nil
  then show ?case by (subst print_loop.simps) (simp add: list_end_def)
next
  case (Cons b bs)
  then obtain e es' where e: "es = e # es'" "wl_ents s b = Some e" "map (wl_ents s) bs = map Some es'" by (cases es) auto
  have "dll (wl_links s) l ((as @ [b]) @ bs)" using Cons.prems(1) by simp
  then have "print_loop s l (nd l bs) (out @ [e]) = Some ((out @ [e]) @ es')" using e(3) by (rule Cons.IH)
  then show ?case using dll_node(4,6) [OF Cons.prems(1)] e(1,2) by (subst print_loop.simps) (simp add: list_end_def)
qed

lemma print_words_held:
  assumes "holds_words s l ps ws M"
  shows "print_words l s = Some (map (entry_of M) ws)"
  using print_loop_ok [of s l "[]" ps "map (entry_of M) ws" "[]"] assms dll_ends(1) [of "wl_links s" l ps]
  by (simp add: print_words_def holds_words_def comp_def)

interpretation word_order: less_func "less_list wordcount_less s" for s
proof
  fix a b c
  show "less_list wordcount_less s a b \<Longrightarrow> \<not> less_list wordcount_less s b a"
    by (auto simp: less_list_def less_word_count_def [symmetric])
  show "less_list wordcount_less s a c \<Longrightarrow> less_list wordcount_less s a b \<or> less_list wordcount_less s b c"
    by (auto simp: less_list_def less_word_count_def [symmetric])
qed

lemma srt_entries: "srt (less_list wordcount_less s) ps \<Longrightarrow> sorted (map (list_entry s) ps)"
proof (induction ps)
  case (Cons p ps)
  have "srt (less_list wordcount_less s) ps" "\<forall>q\<in>set ps. \<not> less_list wordcount_less s q p"
    using Cons.prems unfolding word_order.srt_Cons by blast+
  then have "sorted (map (list_entry s) ps)" "\<forall>q\<in>set ps. list_entry s p \<le> list_entry s q"
    using Cons.IH by (blast, simp add: less_list_def less_word_count_def [symmetric] not_less)
  then show ?case by simp
qed simp

lemma wordcount_sort_rep:
  assumes "rep s l M"
  shows "\<exists>s'. wordcount_sort wordcount_less l s = Some s' \<and> rep s' l M \<and>
    print_words l s' = Some (sorted_list_of_set (entry_set M))"
proof -
  obtain ps ws where h: "holds_words s l ps ws M" using assms by (auto simp: rep_def)
  note H = h [unfolded holds_words_def]
  obtain h' qs where q: "list_sort (less_list wordcount_less s) l (wl_links s) = Some h'" "dll h' l qs"
      "mset qs = mset ps" "srt (less_list wordcount_less s) qs"
    using list_sort_dll [OF word_order.less_func_axioms conjunct1 [OF H]] by blast
  let ?s = "s\<lparr>wl_links := h'\<rparr>" and ?es = "map (list_entry s) qs" and ?vs = "map (wc_word \<circ> list_entry s) qs"
  have "map (list_entry s) ps = map (entry_of M) ws"
    using arg_cong [of _ _ "map (case_option (Word_Count [] 0) (\<lambda>x. x))", OF conjunct1 [OF conjunct2 [OF conjunct2 [OF H]]]]
    by (simp add: list_entry_def [abs_def] comp_def)
  then have es: "mset ?es = mset (map (entry_of M) ws)" using q(3) by (metis mset_map)
  then have set_es: "set ?es = entry_set M"
    using H mset_eq_setD [OF es] by (simp add: entry_set_def)
  have "?vs = map wc_word ?es" by simp
  then have "mset ?vs = mset (map wc_word (map (entry_of M) ws))" using es by (metis mset_map)
  then have vs: "mset ?vs = mset ws" by (simp add: comp_def)
  then have dv: "distinct ?vs" "set ?vs = set_mset M" using H mset_eq_imp_distinct_iff [OF vs] mset_eq_setD [OF vs] by simp_all
  have ent: "wl_ents s p = Some (list_entry s p) \<and> list_entry s p = entry_of M (wc_word (list_entry s p))" if "p \<in> set qs" for p
  proof -
    have "p \<in> set ps" using that mset_eq_setD [OF q(3)] by simp
    then have "wl_ents s p \<in> set (map (wl_ents s) ps)" by simp
    then obtain w where "wl_ents s p = Some (entry_of M w)" using H by auto
    then show ?thesis by (simp add: list_entry_def)
  qed
  have me: "?es = map (entry_of M) ?vs" using ent by simp
  have "holds_words ?s l qs ?vs M" unfolding holds_words_def
  proof (intro conjI)
    show "map (wl_ents ?s) qs = map (Some \<circ> entry_of M) ?vs" using ent by auto
    show "\<forall>c\<in>set (cells l qs). c < wl_fresh ?s" using H mset_eq_setD [OF q(3)] by (auto simp: cells_def)
  qed (use q(2) dv in auto)
  moreover have "sorted_list_of_set (entry_set M) = ?es"
    unfolding set_es [symmetric]
  proof (rule sorted_list_of_set.idem_if_sorted_distinct)
    show "sorted ?es" by (rule srt_entries [OF q(4)])
    have "distinct (map wc_word ?es)" using dv(1) by simp
    then show "distinct ?es" by (simp only: distinct_map)
  qed
  ultimately show ?thesis using q(1) print_words_held [of ?s l qs ?vs M] me
    by (auto simp: wordcount_sort_def rep_def)
qed

section \<open>Threads\<close>

lemma concat_update:
  assumes "t < length ts" "ts ! t = w # ws"
  shows "mset (concat ts) = add_mset w (mset (concat (ts[t := ws])))"
proof -
  have "mset (concat ts) = mset (concat (take t ts @ (w # ws) # drop (Suc t) ts))"
    using id_take_nth_drop [OF assms(1)] assms(2) by simp
  also have "\<dots> = add_mset w (mset (concat (take t ts @ ws # drop (Suc t) ts)))" by simp
  finally show ?thesis using upd_conv_take_nth_drop [OF assms(1), of ws] by simp
qed

lemma pwords_inv:
  assumes "(pwords_step l)\<^sup>*\<^sup>* (ts, s) (ts', s')" "rep s l {#}" "length (concat ts) < 2147483647"
  shows "rep s' l (mset (concat ts) - mset (concat ts')) \<and> mset (concat ts') \<subseteq># mset (concat ts)"
  using assms(1)
proof (induction rule: rtranclp_induct2)
  case refl
  then show ?case using assms(2) by simp
next
  case (step us u vs v)
  then obtain t w ws e where st: "t < length us" "us ! t = w # ws" "vs = us[t := ws]" "insert_word l w u = Some (e, v)"
    by (auto elim: pwords_stepE)
  let ?M = "mset (concat ts) - mset (concat us)"
  have c: "mset (concat us) = add_mset w (mset (concat vs))" using concat_update [OF st(1,2)] st(3) by simp
  have le: "mset (concat us) \<subseteq># mset (concat ts)" using step.IH by blast
  have "mset (concat vs) \<subseteq># mset (concat us)" unfolding c by simp
  then have sub: "mset (concat vs) \<subseteq># mset (concat ts)" using le by (rule subset_mset.order_trans)
  have M: "mset (concat ts) - mset (concat vs) = add_mset w ?M"
  proof (rule multiset_eqI)
    fix x
    have "count (mset (concat us)) x \<le> count (mset (concat ts)) x" by (rule mset_subset_eq_count [OF le])
    then show "count (mset (concat ts) - mset (concat vs)) x = count (add_mset w ?M) x"
      unfolding c by (cases "w = x") simp_all
  qed
  have "size ?M \<le> size (mset (concat ts))" by (rule size_mset_mono) simp
  then have "size ?M < 2147483647" using assms(3) unfolding size_mset by (rule order_le_less_trans)
  moreover have "rep u l ?M" using step.IH by blast
  ultimately have "rep v l (add_mset w ?M)" using insert_word_rep [of u l ?M w] st(4) by auto
  then show ?case using sub unfolding M by blast
qed

text \<open>
  C33. Counting words in several threads: in every interleaving of the calls of \<open>add_word\<close> that the threads
  make, each of which is one step since it runs under the mutex, no call fails and a thread that has words left can go on; \<open>find_word\<close> returns the entry of each word
  added so far with the number of times that it was added, and a null pointer for every other word;
  \<open>len_words\<close> is the number of different words; and sorting by \<open>less_count\<close> and printing gives each word
  once, by count and then by word. When the threads are done the result is the same for every interleaving.
\<close>

theorem pwords_counts:
  assumes "lhead l \<noteq> 0" "ltail l \<noteq> 0" "lhead l \<noteq> ltail l" "lhead l < wl_fresh s" "ltail l < wl_fresh s"
    and "\<forall>a b. less_count a b = wordcount_less a b"
    and "(pwords_step l)\<^sup>*\<^sup>* (ts, init_word_list (Some l) s) (ts', s')" "length (concat ts) < 2147483647"
  shows "(concat ts' \<noteq> [] \<longrightarrow> (\<exists>c. pwords_step l (ts', s') c)) \<and>
    (\<forall>w. let n = count_list (concat ts) w - count_list (concat ts') w in
       if n = 0 then search_word (Some l) (Some w) s' = Some 0
       else \<exists>p. search_word (Some l) (Some w) s' = Some p \<and> p \<noteq> 0 \<and> wl_ents s' p = Some (Word_Count w (int n))) \<and>
    len_word_list (Some l) s' = Some (card (set_mset (mset (concat ts) - mset (concat ts')))) \<and>
    (\<exists>s2. wordcount_sort less_count l s' = Some s2 \<and>
       print_words l s2 = Some (sorted_list_of_set (entry_set (mset (concat ts) - mset (concat ts')))))"
proof -
  let ?M = "mset (concat ts) - mset (concat ts')"
  have "dll (wl_links (init_word_list (Some l) s)) l []"
    using list_init_dll [OF assms(1-3)] by (simp add: init_word_list_def)
  then have "holds_words (init_word_list (Some l) s) l [] [] {#}"
    using assms(4,5) by (simp add: holds_words_def cells_def init_word_list_def)
  then have "rep (init_word_list (Some l) s) l {#}" unfolding rep_def by blast
  from pwords_inv [OF assms(7) this assms(8)]
  have r: "rep s' l ?M" "mset (concat ts') \<subseteq># mset (concat ts)" by blast+
  have lc: "less_count = wordcount_less" using assms(6) by blast
  have step: "\<exists>c. pwords_step l (ts', s') c" if ne: "concat ts' \<noteq> []"
  proof -
    obtain t where t: "t < length ts'" "ts' ! t \<noteq> []" using ne by (auto simp: in_set_conv_nth)
    then obtain w ws where w: "ts' ! t = w # ws" by (cases "ts' ! t") auto
    have "size ?M \<le> length (concat ts)" using size_Diff_submset [OF r(2)] by simp
    then have "size ?M < 2147483647" using assms(8) by linarith
    then obtain e s2 where "insert_word l w s' = Some (e, s2)" using insert_word_rep [OF r(1)] by blast
    then show ?thesis using pwords_step.add [OF t(1) w] by blast
  qed
  have cnt: "count ?M w = count_list (concat ts) w - count_list (concat ts') w" for w
    by (simp add: count_mset)
  have find: "let n = count_list (concat ts) w - count_list (concat ts') w in
       if n = 0 then search_word (Some l) (Some w) s' = Some 0
       else \<exists>p. search_word (Some l) (Some w) s' = Some p \<and> p \<noteq> 0 \<and> wl_ents s' p = Some (Word_Count w (int n))" for w
    using search_word_rep [OF r(1), of w] unfolding Let_def cnt [symmetric] entry_of_def count_eq_zero_iff
    by (cases "w \<in># ?M") (simp_all only: if_True if_False simp_thms)
  show ?thesis using step find len_rep [OF r(1)] wordcount_sort_rep [OF r(1)] unfolding lc by blast
qed

definition demo_words :: wlist where
  "demo_words = \<lparr>wl_links = \<lparr>nx = (\<lambda>a. 0), pv = (\<lambda>a. 0)\<rparr>, wl_ents = (\<lambda>a. None), wl_fresh = 3\<rparr>"

theorem pwords_counts_witness:
  "\<exists>c. pwords_step \<lparr>lhead = 1, ltail = 2\<rparr> ([[[98], [97]], [[97]]], init_word_list (Some \<lparr>lhead = 1, ltail = 2\<rparr>) demo_words) c"
  using pwords_counts [where l = "\<lparr>lhead = 1, ltail = 2\<rparr>" and s = demo_words and less_count = wordcount_less
      and ts = "[[[98], [97]], [[97]]]", OF _ _ _ _ _ _ rtranclp.rtrancl_refl] by (simp add: demo_words_def)

end
